(* ===== verification/Prelude.thy ===== *)
theory Prelude
  imports Main "HOL-Library.Word"
begin

text \<open>
  The shared vocabulary of the development.

  C++ exceptions are values: an operation that may throw returns \<open>cpp_error + 'a\<close>, with the
  class of the exception on the left. The text of the message is not modelled. A \<open>noexcept\<close>
  function that calls \<open>std::terminate\<close> or \<open>std::abort\<close> returns \<open>Terminate\<close>.
  \<open>rbind\<close> sequences two such operations; the first exception wins.

  Machine integers are of two kinds. Where the source manipulates bits (alignment masks, hashes)
  or relies on wrap-around (generation counters), they are words. Where it only counts,
  they are natural numbers with the wrap-around of the unsigned type written out
  (\<open>u32_add\<close>, \<open>u32_sub\<close>); the collection \<open>unsigned_arith\<close> removes the
  wrap-around when the operands are known to be in range.
\<close>

unbundle bit_operations_syntax

section \<open>Exceptions as values\<close>

datatype cpp_error =
    InvalidArgument | OverflowError | LogicError | OutOfRange | BadAlloc | RuntimeError | Terminate

type_synonym 'a res = "cpp_error + 'a"

definition rbind :: "'a res \<Rightarrow> ('a \<Rightarrow> 'b res) \<Rightarrow> 'b res" where
  "rbind m f = (case m of Inl e \<Rightarrow> Inl e | Inr x \<Rightarrow> f x)"

lemma rbind_simps [simp]:
  "rbind (Inl e) f = Inl e"
  "rbind (Inr x) f = f x"
  by (simp_all add: rbind_def)

lemma rbind_Inr_iff: "rbind m f = Inr y \<longleftrightarrow> (\<exists>x. m = Inr x \<and> f x = Inr y)"
  by (cases m) simp_all

lemma rbind_Inl_iff: "rbind m f = Inl e \<longleftrightarrow> m = Inl e \<or> (\<exists>x. m = Inr x \<and> f x = Inl e)"
  by (cases m) auto

lemma rbind_InrE:
  assumes "rbind m f = Inr y"
  obtains x where "m = Inr x" and "f x = Inr y"
  using assms by (auto simp: rbind_Inr_iff)

lemma rbind_cong [fundef_cong]:
  "m = m' \<Longrightarrow> (\<And>x. m' = Inr x \<Longrightarrow> f x = g x) \<Longrightarrow> rbind m f = rbind m' g"
  by (cases m') simp_all

lemma if_Inl_eq_Inr [simp]: "(if b then Inl e else m) = Inr y \<longleftrightarrow> \<not> b \<and> m = Inr y"
  by simp

text \<open>A loop that runs a fallible body over a list, threading a state.\<close>

fun rfold :: "('a \<Rightarrow> 's \<Rightarrow> 's res) \<Rightarrow> 'a list \<Rightarrow> 's \<Rightarrow> 's res" where
  "rfold f [] s = Inr s"
| "rfold f (x # xs) s = rbind (f x s) (rfold f xs)"

lemma rfold_append [simp]: "rfold f (xs @ ys) s = rbind (rfold f xs s) (rfold f ys)"
  by (induction xs arbitrary: s) (auto simp: rbind_def split: sum.splits)

lemma rfold_invariant:
  assumes "rfold f xs s = Inr s'" and "P s"
    and "\<And>x s s'. x \<in> set xs \<Longrightarrow> P s \<Longrightarrow> f x s = Inr s' \<Longrightarrow> P s'"
  shows "P s'"
  using assms
proof (induction xs arbitrary: s)
  case Nil
  then show ?case by simp
next
  case (Cons x xs)
  from Cons.prems(1) obtain t where t: "f x s = Inr t" "rfold f xs t = Inr s'"
    by (auto simp: rbind_Inr_iff)
  with Cons.prems(2,3) have "P t" by (meson list.set_intros(1))
  with t(2) Cons.prems(3) show ?case by (intro Cons.IH [of t]) auto
qed

text \<open>A loop that only validates: it stops at the first element the check rejects.\<close>

fun rcheck :: "('a \<Rightarrow> unit res) \<Rightarrow> 'a list \<Rightarrow> unit res" where
  "rcheck f [] = Inr ()"
| "rcheck f (x # xs) = rbind (f x) (\<lambda>_. rcheck f xs)"

lemma rcheck_Inr_iff: "rcheck f xs = Inr () \<longleftrightarrow> (\<forall>x\<in>set xs. f x = Inr ())"
  by (induction xs) (auto simp: rbind_Inr_iff)

section \<open>Unsigned counters\<close>

type_synonym u32 = "32 word"
type_synonym u64 = "64 word"

abbreviation uint32_max :: nat where "uint32_max \<equiv> 4294967295"
abbreviation int32_max :: nat where "int32_max \<equiv> 2147483647"
abbreviation uint64_max :: nat where "uint64_max \<equiv> 18446744073709551615"
abbreviation int64_max :: int where "int64_max \<equiv> 9223372036854775807"

named_theorems unsigned_arith "wrap-around removed for operands in range"

definition u32_add :: "nat \<Rightarrow> nat \<Rightarrow> nat" where
  "u32_add a b = (a + b) mod (uint32_max + 1)"

definition u32_sub :: "nat \<Rightarrow> nat \<Rightarrow> nat" where
  "u32_sub a b = (a + (uint32_max + 1) - b) mod (uint32_max + 1)"

definition u64_add :: "nat \<Rightarrow> nat \<Rightarrow> nat" where
  "u64_add a b = (a + b) mod (uint64_max + 1)"

definition u64_sub :: "nat \<Rightarrow> nat \<Rightarrow> nat" where
  "u64_sub a b = (a + (uint64_max + 1) - b) mod (uint64_max + 1)"

definition u64_mul :: "nat \<Rightarrow> nat \<Rightarrow> nat" where
  "u64_mul a b = (a * b) mod (uint64_max + 1)"

lemma u32_add_small [unsigned_arith]: "a + b \<le> uint32_max \<Longrightarrow> u32_add a b = a + b"
  by (simp add: u32_add_def)

lemma u32_sub_small [unsigned_arith]: "b \<le> a \<Longrightarrow> a \<le> uint32_max \<Longrightarrow> u32_sub a b = a - b"
proof -
  assume "b \<le> a" "a \<le> uint32_max"
  then have "a + (uint32_max + 1) - b = (a - b) + (uint32_max + 1)" and "a - b < uint32_max + 1"
    by simp_all
  then show ?thesis by (simp only: u32_sub_def mod_add_self2 mod_less)
qed

lemma u64_add_small [unsigned_arith]: "a + b \<le> uint64_max \<Longrightarrow> u64_add a b = a + b"
  by (simp add: u64_add_def)

lemma u64_sub_small [unsigned_arith]: "b \<le> a \<Longrightarrow> a \<le> uint64_max \<Longrightarrow> u64_sub a b = a - b"
proof -
  assume "b \<le> a" "a \<le> uint64_max"
  then have "a + (uint64_max + 1) - b = (a - b) + (uint64_max + 1)" and "a - b < uint64_max + 1"
    by simp_all
  then show ?thesis by (simp only: u64_sub_def mod_add_self2 mod_less)
qed

lemma u64_mul_small [unsigned_arith]: "a * b \<le> uint64_max \<Longrightarrow> u64_mul a b = a * b"
  by (simp add: u64_mul_def)

text \<open>
  The capacity guard every translation unit repeats, \<open>b != 0 && a > MAX / b\<close>, is exact.
\<close>

lemma mul_guard_exact:
  fixes a b m :: nat
  shows "(b \<noteq> 0 \<and> a > m div b) \<longleftrightarrow> m < a * b"
  by (cases "b = 0") (auto simp: div_less_iff_less_mult)

section \<open>Generation counters\<close>

text \<open>
  \<open>increment_generation\<close> of \<open>paged_kv_cache.cpp\<close> and of \<open>host_kv_arena.cpp\<close> (the two
  are the same): the counter skips zero when it wraps.
\<close>

definition increment_generation :: "u32 \<Rightarrow> u32" where
  "increment_generation g = (let g' = g + 1 in if g' = 0 then g' + 1 else g')"

lemma increment_generation_nonzero [simp]: "increment_generation g \<noteq> 0"
  by (simp add: increment_generation_def Let_def)

lemma increment_generation_changes: "g \<noteq> 0 \<Longrightarrow> increment_generation g \<noteq> g"
  by (auto simp: increment_generation_def Let_def)

section \<open>Lists\<close>

lemma length_filter_list_update:
  assumes "i < length xs"
  shows "length (filter P (xs[i := v])) + of_bool (P (xs ! i)) = length (filter P xs) + of_bool (P v)"
proof -
  have xs: "xs = take i xs @ xs ! i # drop (Suc i) xs" using assms by (rule id_take_nth_drop)
  have upd: "xs[i := v] = take i xs @ v # drop (Suc i) xs" using assms by (rule upd_conv_take_nth_drop)
  have "length (filter P xs) =
      length (filter P (take i xs)) + of_bool (P (xs ! i)) + length (filter P (drop (Suc i) xs))"
    by (subst (1) xs) simp
  then show ?thesis by (simp add: upd)
qed

lemma filter_update_gain:
  "i < length xs \<Longrightarrow> \<not> P (xs ! i) \<Longrightarrow> P v \<Longrightarrow>
    length (filter P (xs[i := v])) = Suc (length (filter P xs))"
  using length_filter_list_update [of i xs P v] by simp

lemma filter_update_lose:
  "i < length xs \<Longrightarrow> P (xs ! i) \<Longrightarrow> \<not> P v \<Longrightarrow>
    Suc (length (filter P (xs[i := v]))) = length (filter P xs)"
  using length_filter_list_update [of i xs P v] by simp

lemma sum_list_update_nat:
  fixes f :: "'a \<Rightarrow> nat"
  assumes "i < length xs"
  shows "sum_list (map f (xs[i := v])) + f (xs ! i) = sum_list (map f xs) + f v"
proof -
  have xs: "xs = take i xs @ xs ! i # drop (Suc i) xs" using assms by (rule id_take_nth_drop)
  have upd: "xs[i := v] = take i xs @ v # drop (Suc i) xs" using assms by (rule upd_conv_take_nth_drop)
  have "sum_list (map f xs) =
      sum_list (map f (take i xs)) + f (xs ! i) + sum_list (map f (drop (Suc i) xs))"
    by (subst (1) xs) simp
  then show ?thesis by (simp add: upd)
qed

section \<open>Powers of two and alignment\<close>

definition is_power_of_two :: "u64 \<Rightarrow> bool" where
  "is_power_of_two value \<longleftrightarrow> value \<noteq> 0 \<and> (value AND (value - 1)) = 0"

lemma nat_and_decr_zero:
  fixes n :: nat
  assumes "0 < n" and "(n AND (n - 1)) = 0"
  shows "\<exists>k. n = 2 ^ k"
  using assms
proof (induction n rule: less_induct)
  case (less n)
  have r: "(n AND (n - 1)) = of_bool (odd n \<and> odd (n - 1)) + 2 * ((n div 2) AND ((n - 1) div 2))"
    by (rule and_nat_rec)
  show ?case
  proof (cases "even n")
    case True
    then obtain a where a: "n = 2 * a" by (rule evenE)
    with less.prems have "0 < a" by simp
    then have "(n - 1) div 2 = a - 1" using a by arith
    with r less.prems a have "(a AND (a - 1)) = 0" by simp
    with less.IH [of a] \<open>0 < a\<close> a obtain k where "a = 2 ^ k" by auto
    with a have "n = 2 ^ Suc k" by simp
    then show ?thesis by blast
  next
    case False
    then obtain a where a: "n = 2 * a + 1" by (rule oddE)
    then have "n div 2 = a" "(n - 1) div 2 = a" by simp_all
    with r less.prems have "a = 0" by simp
    with a have "n = 2 ^ 0" by simp
    then show ?thesis by blast
  qed
qed

lemma unat_u64_less: "unat a < 2 ^ 64" for a :: u64
proof -
  have "unat a < 2 ^ LENGTH(64)" by (rule unsigned_less)
  then show ?thesis by simp
qed

lemma unat_and_word: "unat (x AND y) = (unat x AND unat y)" for x y :: u64
  by (simp add: unsigned_and_eq)

lemma is_power_of_two_imp_exp:
  assumes "is_power_of_two a"
  obtains k where "k < 64" and "a = 2 ^ k"
proof -
  have nz: "a \<noteq> 0" and z: "(a AND (a - 1)) = 0"
    using assms by (simp_all add: is_power_of_two_def)
  from nz have pos: "0 < unat a" by (simp add: unat_gt_0)
  from nz have "unat (a - 1) = unat a - 1" by (simp add: unat_minus_one)
  with z have "(unat a AND (unat a - 1)) = 0"
    by (metis unat_0 unat_and_word)
  with nat_and_decr_zero [OF pos] obtain k where k: "unat a = 2 ^ k" by blast
  have "unat a < 2 ^ 64" by (rule unat_u64_less)
  with k have "k < 64" by (metis nat_power_less_imp_less zero_less_numeral)
  moreover have "a = 2 ^ k"
  proof -
    have "a = word_of_nat (unat a)" by simp
    then show ?thesis by (simp only: k of_nat_power of_nat_numeral)
  qed
  ultimately show ?thesis by (rule that)
qed

lemma and_not_mask_word:
  fixes x :: u64
  shows "(x AND NOT (mask k)) = x - take_bit k x"
proof -
  have "take_bit k x + (x AND NOT (mask k)) = (x AND mask k) + (x AND NOT (mask k))"
    by (simp add: take_bit_eq_mask)
  also have "\<dots> = ((x AND mask k) OR (x AND NOT (mask k)))"
    by (rule disjunctive_add) (auto simp: bit_simps)
  also have "\<dots> = x"
    by (rule bit_eqI) (auto simp: bit_simps)
  finally show ?thesis by (simp add: algebra_simps)
qed

end
