(* ===== verification/Extents.thy ===== *)
theory Extents
  imports Prelude
begin

text \<open>
  Ordered lists of disjoint, maximal runs \<open>[begin, begin + count)\<close>: the representation of free
  space in both the device page pool (\<open>FreePageRun\<close>, in pages) and the host arena
  (\<open>FreeExtent\<close>, in bytes). This theory holds what the two share: the invariant, the set a
  list covers, the effect of cutting a piece out of a run, and the fact that the
  representation is canonical, so that two free lists that cover the same set are equal.
  The interface the allocators rely on is the locale \<open>free_space\<close>.
\<close>

record run =
  r_begin :: nat
  r_count :: nat

definition r_end :: "run \<Rightarrow> nat" where
  "r_end r = r_begin r + r_count r"

definition run_set :: "run \<Rightarrow> nat set" where
  "run_set r = {r_begin r ..< r_end r}"

definition cover :: "run list \<Rightarrow> nat set" where
  "cover rs = (\<Union>r\<in>set rs. run_set r)"

text \<open>Non-empty runs in increasing order, with a gap between neighbours, from \<open>lo\<close> on.\<close>

fun runs_from :: "nat \<Rightarrow> run list \<Rightarrow> bool" where
  "runs_from lo [] = True"
| "runs_from lo (r # rs) = (lo \<le> r_begin r \<and> 0 < r_count r \<and> runs_from (Suc (r_end r)) rs)"

definition runs_ok :: "nat \<Rightarrow> run list \<Rightarrow> bool" where
  "runs_ok cap rs \<longleftrightarrow> runs_from 0 rs \<and> (\<forall>r\<in>set rs. r_end r \<le> cap)"

section \<open>The set a list covers\<close>

lemma cover_simps [simp]:
  "cover [] = {}"
  "cover (r # rs) = run_set r \<union> cover rs"
  "cover (xs @ ys) = cover xs \<union> cover ys"
  by (auto simp: cover_def)

lemma finite_cover [simp]: "finite (cover rs)"
  by (simp add: cover_def run_set_def)

lemma r_end_make [simp]: "r_end \<lparr>r_begin = b, r_count = n\<rparr> = b + n"
  by (simp add: r_end_def)

lemma run_set_make [simp]: "run_set \<lparr>r_begin = b, r_count = n\<rparr> = {b ..< b + n}"
  by (simp add: run_set_def)

lemma runs_from_mono: "runs_from lo rs \<Longrightarrow> lo' \<le> lo \<Longrightarrow> runs_from lo' rs"
  by (cases rs) auto

lemma runs_from_cover: "runs_from lo rs \<Longrightarrow> x \<in> cover rs \<Longrightarrow> lo \<le> x"
proof (induction rs arbitrary: lo)
  case (Cons r rs)
  then show ?case
    by (fastforce simp: run_set_def r_end_def dest: Cons.IH [of "Suc (r_end r)"])
qed simp

fun last_end :: "nat \<Rightarrow> run list \<Rightarrow> nat" where
  "last_end lo [] = lo"
| "last_end lo (r # rs) = last_end (Suc (r_end r)) rs"

lemma last_end_snoc [simp]: "last_end lo (rs @ [r]) = Suc (r_end r)"
  by (induction rs arbitrary: lo) auto

lemma runs_from_append:
  "runs_from lo (xs @ ys) \<longleftrightarrow> runs_from lo xs \<and> runs_from (last_end lo xs) ys"
  by (induction xs arbitrary: lo) auto

lemma runs_from_last_end: "runs_from lo rs \<Longrightarrow> lo \<le> last_end lo rs"
proof (induction rs arbitrary: lo)
  case (Cons r rs)
  then have "Suc (r_end r) \<le> last_end (Suc (r_end r)) rs" by simp
  with Cons.prems show ?case by (simp add: r_end_def)
qed simp

lemma runs_from_cover_less: "runs_from lo rs \<Longrightarrow> x \<in> cover rs \<Longrightarrow> Suc x < last_end lo rs"
proof (induction rs arbitrary: lo)
  case (Cons r rs)
  from Cons.prems have tail: "runs_from (Suc (r_end r)) rs" by simp
  show ?case
  proof (cases "x \<in> run_set r")
    case True
    with runs_from_last_end [OF tail] show ?thesis by (simp add: run_set_def)
  next
    case False
    with Cons tail show ?thesis by simp
  qed
qed simp

lemma runs_from_disjoint:
  assumes "runs_from lo (xs @ ys)"
  shows "cover xs \<inter> cover ys = {}"
proof -
  have "x \<notin> cover ys" if "x \<in> cover xs" for x
    using assms that runs_from_cover_less [of lo xs x] runs_from_cover [of "last_end lo xs" ys x]
    by (auto simp: runs_from_append)
  then show ?thesis by blast
qed

lemma card_cover: "runs_from lo rs \<Longrightarrow> card (cover rs) = sum_list (map r_count rs)"
proof (induction rs arbitrary: lo)
  case (Cons r rs)
  have "run_set r \<inter> cover rs = {}"
    using runs_from_disjoint [of lo "[r]" rs] Cons.prems by simp
  then have "card (run_set r \<union> cover rs) = card (run_set r) + card (cover rs)"
    by (intro card_Un_disjoint) (auto simp: run_set_def)
  moreover have "card (cover rs) = sum_list (map r_count rs)"
    using Cons.prems by (auto intro: Cons.IH)
  ultimately show ?case by (simp add: run_set_def r_end_def)
qed simp

lemma runs_ok_cover: "runs_ok cap rs \<Longrightarrow> cover rs \<subseteq> {..<cap}"
  by (fastforce simp: runs_ok_def cover_def run_set_def)

text \<open>An interval inside the covered set lies in one run: the runs are maximal.\<close>

lemma interval_in_one_run:
  assumes "runs_from lo rs" and "{b ..< b + n} \<subseteq> cover rs" and "0 < n"
  shows "\<exists>r\<in>set rs. {b ..< b + n} \<subseteq> run_set r"
  using assms
proof (induction rs arbitrary: lo)
  case (Cons r rs)
  have tail: "runs_from (Suc (r_end r)) rs" using Cons.prems by simp
  have gap: "r_end r \<notin> cover (r # rs)"
    using runs_from_cover [OF tail, of "r_end r"] by (auto simp: run_set_def)
  have "b \<in> {b ..< b + n}" using Cons.prems(3) by simp
  then have b_in: "b \<in> run_set r \<union> cover rs" using Cons.prems(2) unfolding cover_simps by blast
  show ?case
  proof (cases "b \<in> run_set r")
    case True
    have "b + n \<le> r_end r"
    proof (rule ccontr)
      assume "\<not> b + n \<le> r_end r"
      with True have "r_end r \<in> {b ..< b + n}" by (simp add: run_set_def)
      with Cons.prems(2) gap show False by blast
    qed
    with True show ?thesis by (auto simp: run_set_def)
  next
    case False
    with b_in have "r_end r < b" using runs_from_cover [OF tail, of b] by auto
    then have "{b ..< b + n} \<inter> run_set r = {}" by (auto simp: run_set_def)
    with Cons.prems(2) have "{b ..< b + n} \<subseteq> cover rs" by auto
    with Cons.IH [OF tail] Cons.prems(3) show ?thesis by auto
  qed
qed auto

text \<open>The representation is canonical.\<close>

lemma runs_from_unique:
  assumes "runs_from lo xs" and "runs_from lo ys" and "cover xs = cover ys"
  shows "xs = ys"
  using assms
proof (induction xs arbitrary: lo ys)
  case Nil
  then show ?case by (cases ys) (auto simp: run_set_def r_end_def)
next
  case (Cons r rs)
  have "r_begin r \<in> cover (r # rs)" using Cons.prems(1) by (simp add: run_set_def r_end_def)
  then have "ys \<noteq> []" using Cons.prems(3) by auto
  then obtain s ss where ys: "ys = s # ss" by (cases ys) auto
  have tr: "runs_from (Suc (r_end r)) rs" and ts: "runs_from (Suc (r_end s)) ss"
    and pr: "0 < r_count r" and ps: "0 < r_count s"
    using Cons.prems(1,2) ys by auto
  have eq: "run_set r \<union> cover rs = run_set s \<union> cover ss" using Cons.prems(3) ys by simp
  have min_r: "r_begin r \<le> x" if "x \<in> run_set r \<union> cover rs" for x
    using that runs_from_cover [OF tr, of x] by (auto simp: run_set_def r_end_def)
  have min_s: "r_begin s \<le> x" if "x \<in> run_set s \<union> cover ss" for x
    using that runs_from_cover [OF ts, of x] by (auto simp: run_set_def r_end_def)
  have beg: "r_begin r = r_begin s"
  proof (rule antisym)
    have "r_begin s \<in> run_set s" "r_begin r \<in> run_set r"
      using ps pr by (simp_all add: run_set_def r_end_def)
    then show "r_begin r \<le> r_begin s" "r_begin s \<le> r_begin r" using min_r min_s eq by blast+
  qed
  have gap_r: "r_end r \<notin> run_set r \<union> cover rs"
    using runs_from_cover [OF tr, of "r_end r"] by (auto simp: run_set_def)
  have gap_s: "r_end s \<notin> run_set s \<union> cover ss"
    using runs_from_cover [OF ts, of "r_end s"] by (auto simp: run_set_def)
  have "r_end r = r_end s"
  proof (rule ccontr)
    assume "r_end r \<noteq> r_end s"
    then consider "r_end r < r_end s" | "r_end s < r_end r" by linarith
    then show False
    proof cases
      case 1
      then have "r_end r \<in> run_set s" using beg by (simp add: run_set_def r_end_def)
      with gap_r eq show False by blast
    next
      case 2
      then have "r_end s \<in> run_set r" using beg by (simp add: run_set_def r_end_def)
      with gap_s eq show False by blast
    qed
  qed
  with beg have rs: "r = s" by (simp add: r_end_def)
  have "run_set r \<inter> cover rs = {}" "run_set s \<inter> cover ss = {}"
    using runs_from_cover [OF tr] runs_from_cover [OF ts] by (force simp: run_set_def)+
  with eq rs have "cover rs = cover ss" by blast
  with Cons.IH [OF tr] ts rs have "rs = ss" by simp
  with rs ys show ?case by simp
qed

section \<open>Cutting a piece out of a run\<close>

text \<open>
  What remains of run \<open>r\<close> when \<open>[b, b + n)\<close> leaves it: nothing, the tail, the head, or both.
\<close>

definition cut_run :: "nat \<Rightarrow> nat \<Rightarrow> run \<Rightarrow> run list" where
  "cut_run b n r =
     (if r_begin r < b then [\<lparr>r_begin = r_begin r, r_count = b - r_begin r\<rparr>] else []) @
     (if b + n < r_end r then [\<lparr>r_begin = b + n, r_count = r_end r - (b + n)\<rparr>] else [])"

lemma cut_run_set:
  assumes "r_begin r \<le> b" and "b + n \<le> r_end r"
  shows "cover (cut_run b n r) = run_set r - {b ..< b + n}"
  using assms by (auto simp: cut_run_def run_set_def)

lemma cut_run_from:
  assumes "runs_from lo [r]" and "r_begin r \<le> b" and "b + n \<le> r_end r" and "0 < n"
  shows "runs_from lo (cut_run b n r)" "last_end lo (cut_run b n r) \<le> Suc (r_end r)"
  using assms by (auto simp: cut_run_def r_end_def)

lemma runs_from_cut:
  assumes "runs_from lo (xs @ r # ys)" and "r_begin r \<le> b" and "b + n \<le> r_end r" and "0 < n"
  shows "runs_from lo (xs @ cut_run b n r @ ys)"
    and "cover (xs @ cut_run b n r @ ys) = cover (xs @ r # ys) - {b ..< b + n}"
proof -
  have x: "runs_from lo xs" and r: "runs_from (last_end lo xs) [r]" and y: "runs_from (Suc (r_end r)) ys"
    using assms(1) by (auto simp: runs_from_append)
  note c = cut_run_from [OF r assms(2-4)]
  show "runs_from lo (xs @ cut_run b n r @ ys)"
    using x c y by (auto simp: runs_from_append intro: runs_from_mono)
  have "cover xs \<inter> cover (r # ys) = {}" "cover (xs @ [r]) \<inter> cover ys = {}"
    using runs_from_disjoint [of lo xs "r # ys"] runs_from_disjoint [of lo "xs @ [r]" ys] assms(1)
    by simp_all
  moreover have "{b ..< b + n} \<subseteq> run_set r" using assms(2,3) by (auto simp: run_set_def)
  ultimately show "cover (xs @ cut_run b n r @ ys) = cover (xs @ r # ys) - {b ..< b + n}"
    using cut_run_set [OF assms(2,3)] by auto
qed

lemma cut_run_bound:
  assumes "\<forall>s\<in>set (xs @ r # ys). r_end s \<le> cap" and "r_begin r \<le> b" and "b + n \<le> r_end r"
  shows "\<forall>s\<in>set (xs @ cut_run b n r @ ys). r_end s \<le> cap"
  using assms by (auto simp: cut_run_def)

lemma runs_ok_cut:
  assumes "runs_ok cap (xs @ r # ys)" and "r_begin r \<le> b" and "b + n \<le> r_end r" and "0 < n"
  shows "runs_ok cap (xs @ cut_run b n r @ ys)"
    and "cover (xs @ cut_run b n r @ ys) = cover (xs @ r # ys) - {b ..< b + n}"
proof -
  have f: "runs_from 0 (xs @ r # ys)" and b: "\<forall>s\<in>set (xs @ r # ys). r_end s \<le> cap"
    using assms(1) unfolding runs_ok_def by blast+
  show "runs_ok cap (xs @ cut_run b n r @ ys)"
    using runs_from_cut(1) [OF f assms(2-4)] cut_run_bound [OF b assms(2,3)] unfolding runs_ok_def
    by blast
  show "cover (xs @ cut_run b n r @ ys) = cover (xs @ r # ys) - {b ..< b + n}"
    by (rule runs_from_cut(2) [OF f assms(2-4)])
qed

section \<open>Joining a piece with its neighbours\<close>

text \<open>
  The list \<open>xs @ [e] @ ys\<close> with \<open>e\<close> merged into the run that ends where it begins and with
  the run that begins where it ends.
\<close>

definition join_left :: "run list \<Rightarrow> run \<Rightarrow> run list \<times> run" where
  "join_left xs e =
     (if xs \<noteq> [] \<and> r_end (last xs) = r_begin e
      then (butlast xs, \<lparr>r_begin = r_begin (last xs), r_count = r_count (last xs) + r_count e\<rparr>)
      else (xs, e))"

definition join_right :: "run \<Rightarrow> run list \<Rightarrow> run list" where
  "join_right e ys =
     (case ys of [] \<Rightarrow> [e]
      | n # ns \<Rightarrow> if r_end e = r_begin n
          then \<lparr>r_begin = r_begin e, r_count = r_count e + r_count n\<rparr> # ns else e # ys)"

lemma join_left_from:
  assumes "runs_from lo xs" and "lo \<le> r_begin e" and "0 < r_count e" and "cover xs \<subseteq> {..<r_begin e}"
    and "join_left xs e = (xs', e')"
  shows "runs_from lo (xs' @ [e'])" "cover xs' \<union> run_set e' = cover xs \<union> run_set e"
    "r_end e' = r_end e"
proof -
  show "runs_from lo (xs' @ [e'])"
  proof (cases "xs = []")
    case True
    with assms show ?thesis by (simp add: join_left_def)
  next
    case False
    then obtain zs z where xs: "xs = zs @ [z]" by (cases xs rule: rev_cases) auto
    from assms(1) xs have zs: "runs_from lo zs" and z: "last_end lo zs \<le> r_begin z" "0 < r_count z"
      by (auto simp: runs_from_append)
    have "r_end z \<le> r_begin e"
    proof -
      have "r_end z - 1 \<in> cover xs" using z xs by (auto simp: run_set_def r_end_def)
      with assms(4) z show ?thesis by (auto simp: r_end_def)
    qed
    with assms xs zs z show ?thesis
      by (auto simp: join_left_def runs_from_append r_end_def split: if_splits)
  qed
  show "cover xs' \<union> run_set e' = cover xs \<union> run_set e" "r_end e' = r_end e"
    using assms(5)
    by (cases xs rule: rev_cases; auto simp: join_left_def run_set_def r_end_def split: if_splits)+
qed

lemma join_right_from:
  assumes "runs_from lo [e]" and "runs_from (r_end e) ys"
  shows "runs_from lo (join_right e ys)" "cover (join_right e ys) = run_set e \<union> cover ys"
  using assms by (auto simp: join_right_def run_set_def r_end_def add.assoc [symmetric] split: list.splits)

lemma join_runs_ok:
  assumes "runs_ok cap (xs @ ys)" and "0 < r_count e" and "r_end e \<le> cap"
    and "cover xs \<subseteq> {..<r_begin e}" and "cover ys \<subseteq> {r_end e..}"
    and "join_left xs e = (xs', e')"
  shows "runs_ok cap (xs' @ join_right e' ys)"
    and "cover (xs' @ join_right e' ys) = cover (xs @ ys) \<union> run_set e"
proof -
  have x: "runs_from 0 xs" and y: "runs_from (last_end 0 xs) ys"
    using assms(1) by (auto simp: runs_ok_def runs_from_append)
  note j = join_left_from [OF x _ assms(2,4,6)]
  from j have l: "runs_from 0 xs'" and e': "runs_from (last_end 0 xs') [e']"
    and cov: "cover xs' \<union> run_set e' = cover xs \<union> run_set e" and en: "r_end e' = r_end e"
    by (auto simp: runs_from_append)
  have y': "runs_from (r_end e') ys"
  proof (cases ys)
    case (Cons n ns)
    then have "r_begin n \<in> cover ys" using y by (auto simp: run_set_def r_end_def)
    with assms(5) Cons y en show ?thesis by auto
  qed simp
  note r = join_right_from [OF e' y']
  have "\<forall>s\<in>set (xs' @ join_right e' ys). r_end s \<le> cap"
  proof -
    have "\<forall>s\<in>set xs'. r_end s \<le> cap"
      using assms(1,6) by (auto simp: join_left_def runs_ok_def split: if_splits dest: in_set_butlastD)
    moreover have "\<forall>s\<in>set (join_right e' ys). r_end s \<le> cap"
      using assms(1,3) en
      by (auto simp: join_right_def runs_ok_def r_end_def split: list.splits if_splits)
    ultimately show ?thesis by auto
  qed
  with l r show "runs_ok cap (xs' @ join_right e' ys)"
    by (simp add: runs_ok_def runs_from_append)
  show "cover (xs' @ join_right e' ys) = cover (xs @ ys) \<union> run_set e"
    using r(2) cov by auto
qed

text \<open>
  Where a new run belongs: \<open>std::lower_bound\<close> by the begin of the run splits the list there.
\<close>

definition before :: "nat \<Rightarrow> run list \<Rightarrow> run list" where
  "before b rs = takeWhile (\<lambda>r. r_begin r < b) rs"

definition from_on :: "nat \<Rightarrow> run list \<Rightarrow> run list" where
  "from_on b rs = dropWhile (\<lambda>r. r_begin r < b) rs"

lemma before_from_on [simp]: "before b rs @ from_on b rs = rs"
  by (simp add: before_def from_on_def)

lemma runs_from_before: "runs_from lo rs \<Longrightarrow> r \<in> set (from_on b rs) \<Longrightarrow> b \<le> r_begin r"
proof (induction rs arbitrary: lo)
  case (Cons s rs)
  have tail: "runs_from (Suc (r_end s)) rs" using Cons.prems by simp
  show ?case
  proof (cases "r_begin s < b")
    case True
    with Cons tail show ?thesis by (simp add: from_on_def)
  next
    case False
    have "r_begin s \<le> r_begin q" if "q \<in> set rs" for q
    proof -
      have "r_begin q \<in> cover rs"
        using that tail
      proof (induction rs arbitrary: lo s)
        case (Cons p ps)
        then show ?case by (cases "q = p") (auto simp: run_set_def r_end_def)
      qed simp
      with runs_from_cover [OF tail] show ?thesis by (fastforce simp: r_end_def)
    qed
    with False Cons.prems(2) show ?thesis by (fastforce simp: from_on_def)
  qed
qed (simp add: from_on_def)

lemma split_covers:
  assumes "runs_from 0 rs" and "{b ..< b + n} \<inter> cover rs = {}" and "0 < n"
  shows "cover (before b rs) \<subseteq> {..<b}" "cover (from_on b rs) \<subseteq> {b + n..}"
proof -
  have "r_end r \<le> b" if "r \<in> set (before b rs)" for r
  proof (rule ccontr)
    assume "\<not> r_end r \<le> b"
    moreover have "r_begin r < b" "r \<in> set rs"
      using that by (auto simp: before_def dest: set_takeWhileD)
    ultimately have "b \<in> run_set r" "r \<in> set rs" by (simp_all add: run_set_def)
    then have "b \<in> cover rs" by (auto simp: cover_def)
    moreover have "b \<in> {b ..< b + n}" using assms(3) by simp
    ultimately show False using assms(2) by blast
  qed
  then show "cover (before b rs) \<subseteq> {..<b}" by (fastforce simp: cover_def run_set_def)
  have "b + n \<le> x" if "x \<in> cover (from_on b rs)" for x
  proof -
    from that obtain r where r: "r \<in> set (from_on b rs)" "x \<in> run_set r" by (auto simp: cover_def)
    then have "b \<le> r_begin r" using runs_from_before [OF assms(1)] by blast
    moreover have "x \<in> cover rs" using that before_from_on [of b rs]
      by (metis UnCI cover_simps(3))
    then have "x \<notin> {b ..< b + n}" using assms(2) by blast
    ultimately show ?thesis using r by (auto simp: run_set_def)
  qed
  then show "cover (from_on b rs) \<subseteq> {b + n..}" by blast
qed

section \<open>The interface of a free list\<close>

text \<open>
  What an allocator relies on: \<open>give\<close> returns an interval that is not free, \<open>carve\<close> removes
  an interval that the policy grants (any free interval for pages, the front of the first extent
  that fits for bytes), the free list is a function of the free set.
\<close>

locale free_space =
  fixes ok :: "'f \<Rightarrow> bool"
    and space :: "'f \<Rightarrow> nat set"
    and give :: "nat \<Rightarrow> nat \<Rightarrow> 'f \<Rightarrow> 'f"
    and carve :: "nat \<Rightarrow> nat \<Rightarrow> 'f \<Rightarrow> 'f"
    and grants :: "'f \<Rightarrow> nat \<Rightarrow> nat \<Rightarrow> bool"
    and limit :: nat
  assumes give_ok: "ok f \<Longrightarrow> 0 < n \<Longrightarrow> b + n \<le> limit \<Longrightarrow> {b ..< b + n} \<inter> space f = {} \<Longrightarrow>
      ok (give b n f) \<and> space (give b n f) = space f \<union> {b ..< b + n}"
    and granted: "ok f \<Longrightarrow> 0 < n \<Longrightarrow> grants f b n \<Longrightarrow> {b ..< b + n} \<subseteq> space f"
    and carve_ok: "ok f \<Longrightarrow> 0 < n \<Longrightarrow> grants f b n \<Longrightarrow>
      ok (carve b n f) \<and> space (carve b n f) = space f - {b ..< b + n}"
    and canonical: "ok f \<Longrightarrow> ok g \<Longrightarrow> space f = space g \<Longrightarrow> f = g"
    and bounded: "ok f \<Longrightarrow> space f \<subseteq> {..<limit}"
begin

text \<open>Returning what was just taken restores the free list exactly.\<close>

lemma give_carve:
  assumes "ok f" and "0 < n" and "grants f b n"
  shows "give b n (carve b n f) = f"
proof -
  note c = carve_ok [OF assms] and g = granted [OF assms]
  have "b + n - 1 \<in> space f" using assms(2) g by auto
  with bounded [OF assms(1)] have lim: "b + n \<le> limit" by auto
  have "ok (give b n (carve b n f)) \<and> space (give b n (carve b n f)) = space f"
    using c g give_ok [of "carve b n f" n b] assms lim by auto
  with assms(1) canonical show ?thesis by blast
qed

text \<open>Two disjoint intervals may be returned in either order.\<close>

lemma give_commute:
  assumes "ok f" and "0 < n" "0 < m" and "b + n \<le> limit" "c + m \<le> limit"
    and "{b ..< b + n} \<inter> space f = {}" "{c ..< c + m} \<inter> space f = {}"
    and "{b ..< b + n} \<inter> {c ..< c + m} = {}"
  shows "give b n (give c m f) = give c m (give b n f)"
proof -
  have "ok (give c m f) \<and> space (give c m f) = space f \<union> {c ..< c + m}"
    using assms by (intro give_ok)
  then have l: "ok (give b n (give c m f)) \<and>
      space (give b n (give c m f)) = space f \<union> {c ..< c + m} \<union> {b ..< b + n}"
    using assms(2,4,6,8) give_ok [of "give c m f" n b] by (simp add: Int_Un_distrib)
  have "ok (give b n f) \<and> space (give b n f) = space f \<union> {b ..< b + n}"
    using assms by (intro give_ok)
  then have r: "ok (give c m (give b n f)) \<and>
      space (give c m (give b n f)) = space f \<union> {b ..< b + n} \<union> {c ..< c + m}"
    using assms(3,5,7,8) give_ok [of "give b n f" m c] by (simp add: Int_Un_distrib Int_commute)
  from l r have "space (give b n (give c m f)) = space (give c m (give b n f))" by (simp add: ac_simps)
  with l r show ?thesis by (intro canonical) simp_all
qed

end

end
