(* ===== verification/Tensor.thy ===== *)
theory Tensor
  imports Prelude
begin

text \<open>
  Non-owning tensor views: \<open>src/core/dtype.h\<close>, \<open>dtype.cpp\<close>, \<open>tensor.h\<close> and \<open>tensor.cpp\<close>.

  A tensor is a device address, an element type, four extents \<open>ne\<close> (\<open>int32_t[4]\<close>) and
  four byte strides \<open>nb\<close> (\<open>int64_t[4]\<close>). Extents and strides are integers: every product the
  code forms is guarded by \<open>checked_mul_i64\<close>, so no signed overflow is reached. The address is
  a 64-bit word, 0 for the null pointer.
\<close>

section \<open>Element types\<close>

datatype dtype = BF16 | FP32 | I32 | U8 | I64 | I8 | FP16 | FP8_E4M3FN

text \<open>The \<open>throw\<close> after the switch is reached by no enumerator.\<close>

fun dtype_size :: "dtype \<Rightarrow> nat" where
  "dtype_size BF16 = 2"
| "dtype_size FP32 = 4"
| "dtype_size I32 = 4"
| "dtype_size U8 = 1"
| "dtype_size I64 = 8"
| "dtype_size I8 = 1"
| "dtype_size FP16 = 2"
| "dtype_size FP8_E4M3FN = 1"

lemma dtype_size_pos [simp]: "0 < dtype_size d"
  by (cases d) simp_all

lemma dtype_size_le: "dtype_size d \<le> 8"
  by (cases d) simp_all

section \<open>Tensors\<close>

record tensor =
  t_data :: u64
  t_dtype :: dtype
  t_ne :: "int list"
  t_nb :: "int list"

definition checked_mul_i64 :: "int \<Rightarrow> int \<Rightarrow> int res" where
  "checked_mul_i64 a b =
     (if a < 0 \<or> b < 0 then Inl InvalidArgument
      else if b \<noteq> 0 \<and> a > int64_max div b then Inl OverflowError
      else Inr (a * b))"

definition normalize_shape :: "int list \<Rightarrow> int list res" where
  "normalize_shape shape =
     (if length shape = 0 \<or> 4 < length shape then Inl InvalidArgument
      else rbind (rcheck (\<lambda>dim. if dim \<le> 0 then Inl InvalidArgument else Inr ()) shape)
             (\<lambda>_. Inr (shape @ replicate (4 - length shape) 1)))"

definition shape_numel :: "int list \<Rightarrow> int res" where
  "shape_numel shape =
     rfold (\<lambda>dim total. if dim \<le> 0 then Inl InvalidArgument else checked_mul_i64 total dim) shape 1"

fun strides_loop :: "int \<Rightarrow> int list \<Rightarrow> int list res" where
  "strides_loop stride [] = Inr []"
| "strides_loop stride (n # ns) =
     rbind (checked_mul_i64 stride n) (\<lambda>s. rbind (strides_loop s ns) (\<lambda>rest. Inr (s # rest)))"

definition set_contiguous_strides :: "tensor \<Rightarrow> tensor res" where
  "set_contiguous_strides t =
     (let stride = int (dtype_size (t_dtype t))
      in rbind (strides_loop stride (take 3 (t_ne t))) (\<lambda>rest. Inr (t\<lparr>t_nb := stride # rest\<rparr>)))"

definition make_tensor :: "u64 \<Rightarrow> dtype \<Rightarrow> int list \<Rightarrow> tensor res" where
  "make_tensor data_in dtype_in shape =
     rbind (normalize_shape shape)
       (\<lambda>ne. set_contiguous_strides
          \<lparr>t_data = data_in, t_dtype = dtype_in, t_ne = ne, t_nb = replicate 4 0\<rparr>)"

definition numel :: "tensor \<Rightarrow> int res" where
  "numel t = shape_numel (t_ne t)"

definition bytes :: "tensor \<Rightarrow> nat res" where
  "bytes t =
     rbind (numel t) (\<lambda>elements.
       let elem_size = dtype_size (t_dtype t) in
       if elements < 0 \<or> nat elements > uint64_max then Inl OverflowError
       else if elem_size \<noteq> 0 \<and> nat elements > uint64_max div elem_size then Inl OverflowError
       else Inr (nat elements * elem_size))"

text \<open>
  The loop of \<open>is_contiguous\<close> over the pairs \<open>(ne[i], nb[i])\<close>; the last pair does not
  advance \<open>expected\<close>. The only exception the product can raise here is the overflow that the
  code catches, because both factors are positive.
\<close>

fun contiguous_loop :: "int \<Rightarrow> (int \<times> int) list \<Rightarrow> bool" where
  "contiguous_loop expected [] = True"
| "contiguous_loop expected ((n, b) # rest) =
     (if n \<le> 0 then False
      else if n \<noteq> 1 \<and> b \<noteq> expected then False
      else if rest \<noteq> [] \<and> n \<noteq> 1
        then (case checked_mul_i64 expected n of Inl e \<Rightarrow> False | Inr e \<Rightarrow> contiguous_loop e rest)
        else contiguous_loop expected rest)"

definition is_contiguous :: "tensor \<Rightarrow> bool" where
  "is_contiguous t = contiguous_loop (int (dtype_size (t_dtype t))) (zip (t_ne t) (t_nb t))"

definition view :: "tensor \<Rightarrow> int list \<Rightarrow> tensor res" where
  "view t shape =
     (if \<not> is_contiguous t then Inl InvalidArgument
      else rbind (normalize_shape shape) (\<lambda>normalized.
           rbind (shape_numel normalized) (\<lambda>n.
           rbind (numel t) (\<lambda>m.
             if n \<noteq> m then Inl InvalidArgument else make_tensor (t_data t) (t_dtype t) shape))))"

definition reshape :: "tensor \<Rightarrow> int list \<Rightarrow> tensor res" where
  "reshape t shape = view t shape"

definition slice :: "tensor \<Rightarrow> int \<Rightarrow> int \<Rightarrow> int \<Rightarrow> tensor res" where
  "slice t dim start len =
     (if dim < 0 \<or> 4 \<le> dim then Inl InvalidArgument
      else let d = nat dim in
        if start < 0 \<or> len \<le> 0 \<or> start > t_ne t ! d \<or> len > t_ne t ! d - start
        then Inl InvalidArgument
        else rbind (checked_mul_i64 start (t_nb t ! d)) (\<lambda>offset.
          Inr (t\<lparr>t_data := (if t_data t \<noteq> 0 then t_data t + word_of_int offset else t_data t),
                 t_ne := (t_ne t)[d := len]\<rparr>)))"

fun permute_loop :: "int list \<Rightarrow> bool list \<Rightarrow> nat list \<Rightarrow> nat list res" where
  "permute_loop [] seen dims = Inr dims"
| "permute_loop (dim # order) seen dims =
     (if dim < 0 \<or> 4 \<le> dim \<or> seen ! nat dim then Inl InvalidArgument
      else permute_loop order (seen[nat dim := True]) (dims @ [nat dim]))"

definition permute :: "tensor \<Rightarrow> int list \<Rightarrow> tensor res" where
  "permute t order =
     (if length order \<noteq> 4 then Inl InvalidArgument
      else rbind (permute_loop order (replicate 4 False) []) (\<lambda>dims.
        Inr (t\<lparr>t_ne := map (\<lambda>d. t_ne t ! d) dims, t_nb := map (\<lambda>d. t_nb t ! d) dims\<rparr>)))"

section \<open>Reading a tensor\<close>

text \<open>
  The meaning of the four strides: the byte offset of the element at an index vector, and
  the address the kernels form from it.
\<close>

definition byte_offset :: "tensor \<Rightarrow> int list \<Rightarrow> int" where
  "byte_offset t idx = (\<Sum>i<4. idx ! i * t_nb t ! i)"

definition elem_addr :: "tensor \<Rightarrow> int list \<Rightarrow> u64" where
  "elem_addr t idx = t_data t + word_of_int (byte_offset t idx)"

definition in_bounds :: "tensor \<Rightarrow> int list \<Rightarrow> bool" where
  "in_bounds t idx \<longleftrightarrow> length idx = 4 \<and> (\<forall>i<4. 0 \<le> idx ! i \<and> idx ! i < t_ne t ! i)"

definition tensor_rank4 :: "tensor \<Rightarrow> bool" where
  "tensor_rank4 t \<longleftrightarrow> length (t_ne t) = 4 \<and> length (t_nb t) = 4"

section \<open>Lemmas\<close>

text \<open>Evaluation of the operations on closed arguments.\<close>

lemmas tensor_ops = make_tensor_def normalize_shape_def set_contiguous_strides_def
  checked_mul_i64_def shape_numel_def numel_def bytes_def is_contiguous_def view_def slice_def
  permute_def Let_def

lemma replicate_small [simp]:
  "replicate 2 x = [x, x]" "replicate 3 x = [x, x, x]" "replicate 4 x = [x, x, x, x]"
  by (simp_all add: numeral_eq_Suc)

lemma checked_mul_i64_Inr_iff:
  "checked_mul_i64 a b = Inr c \<longleftrightarrow> 0 \<le> a \<and> 0 \<le> b \<and> a * b \<le> int64_max \<and> c = a * b"
proof -
  have "(b \<noteq> 0 \<and> a > int64_max div b) \<longleftrightarrow> \<not> a * b \<le> int64_max" if "0 \<le> a" "0 \<le> b"
  proof (cases "b = 0")
    case False
    with that have "0 < b" by simp
    have "a \<le> int64_max div b \<longleftrightarrow> a * b \<le> int64_max"
    proof
      assume "a \<le> int64_max div b"
      then have "a * b \<le> (int64_max div b) * b" using \<open>0 < b\<close> by (simp only: mult_right_mono)
      also have "\<dots> \<le> int64_max"
        using minus_mod_eq_div_mult [of "int64_max" b] pos_mod_sign [OF \<open>0 < b\<close>, of int64_max]
        by linarith
      finally show "a * b \<le> int64_max" .
    next
      assume "a * b \<le> int64_max"
      then have "(a * b) div b \<le> int64_max div b" using \<open>0 < b\<close> by (rule zdiv_mono1)
      then show "a \<le> int64_max div b" using \<open>0 < b\<close> by simp
    qed
    with False show ?thesis by linarith
  qed simp
  then show ?thesis by (auto simp: checked_mul_i64_def)
qed

lemma normalize_shape_Inr_iff:
  "normalize_shape shape = Inr ne \<longleftrightarrow>
     0 < length shape \<and> length shape \<le> 4 \<and> (\<forall>n\<in>set shape. 0 < n) \<and>
     ne = shape @ replicate (4 - length shape) 1"
  by (auto simp: normalize_shape_def rbind_Inr_iff rcheck_Inr_iff not_le)

lemma numel_loop_Inr_iff:
  assumes "0 \<le> acc" and "acc \<le> int64_max"
  shows "rfold (\<lambda>dim total. if dim \<le> 0 then Inl InvalidArgument else checked_mul_i64 total dim)
           ns acc = Inr r \<longleftrightarrow>
         (\<forall>n\<in>set ns. 0 < n) \<and> acc * prod_list ns \<le> int64_max \<and> r = acc * prod_list ns"
  using assms
proof (induction ns arbitrary: acc)
  case Nil
  then show ?case by auto
next
  case (Cons n ns)
  have pos: "1 \<le> prod_list ns" if "\<forall>m\<in>set ns. 0 < m"
    using that by (induction ns) (auto simp: int_one_le_iff_zero_less)
  have mono: "acc * n \<le> int64_max"
    if "\<forall>m\<in>set ns. 0 < m" "acc * (n * prod_list ns) \<le> int64_max" "0 < n"
  proof -
    have "acc * n * 1 \<le> acc * n * prod_list ns"
      using pos [OF that(1)] Cons.prems(1) that(3) by (intro mult_left_mono) auto
    with that(2) show ?thesis by (simp add: mult.assoc)
  qed
  show ?case
  proof (cases "0 < n \<and> acc * n \<le> int64_max")
    case True
    with Cons.prems have "checked_mul_i64 acc n = Inr (acc * n)"
      by (simp add: checked_mul_i64_Inr_iff)
    with True Cons.prems Cons.IH [of "acc * n"] show ?thesis by (simp add: mult.assoc)
  next
    case False
    with Cons.prems have "checked_mul_i64 acc n \<noteq> Inr x" if "0 < n" for x
      using that by (simp add: checked_mul_i64_Inr_iff)
    with False mono show ?thesis by (fastforce simp: rbind_Inr_iff)
  qed
qed

lemma shape_numel_Inr_iff:
  "shape_numel ns = Inr r \<longleftrightarrow>
     (\<forall>n\<in>set ns. 0 < n) \<and> prod_list ns \<le> int64_max \<and> r = prod_list ns"
  using numel_loop_Inr_iff [of 1 ns r] by (simp add: shape_numel_def)

lemma strides_loop_Inr:
  assumes "strides_loop s ns = Inr r"
  shows "length r = length ns \<and> (\<forall>i<length ns. r ! i = s * prod_list (take (Suc i) ns) \<and>
           r ! i \<le> int64_max)"
  using assms
proof (induction s ns arbitrary: r rule: strides_loop.induct)
  case (1 s)
  then show ?case by simp
next
  case (2 s n ns)
  from "2.prems" obtain rest where rest: "strides_loop (s * n) ns = Inr rest"
    and r: "r = (s * n) # rest" and c: "checked_mul_i64 s n = Inr (s * n)"
    by (auto simp: rbind_Inr_iff checked_mul_i64_Inr_iff)
  from "2.IH" [OF c rest] have ih: "length rest = length ns \<and>
      (\<forall>i<length ns. rest ! i = s * n * prod_list (take (Suc i) ns) \<and> rest ! i \<le> int64_max)" .
  from c have "s * n \<le> int64_max" by (simp add: checked_mul_i64_Inr_iff)
  with ih r show ?case by (auto simp: nth_Cons mult.assoc split: nat.splits)
qed

lemma make_tensor_Inr:
  assumes "make_tensor p dt shape = Inr t"
  shows "t_data t = p" "t_dtype t = dt" "t_ne t = shape @ replicate (4 - length shape) 1"
    "length (t_ne t) = 4" "length (t_nb t) = 4" "\<forall>n\<in>set (t_ne t). 0 < n"
    "\<And>i. i < 4 \<Longrightarrow> t_nb t ! i = int (dtype_size dt) * prod_list (take i (t_ne t))"
    "\<And>i. i < 4 \<Longrightarrow> t_nb t ! i \<le> int64_max"
proof -
  let ?s = "int (dtype_size dt)"
  from assms obtain ne rest where ne: "normalize_shape shape = Inr ne"
    and rest: "strides_loop ?s (take 3 ne) = Inr rest"
    and t: "t = \<lparr>t_data = p, t_dtype = dt, t_ne = ne, t_nb = ?s # rest\<rparr>"
    by (auto simp: make_tensor_def set_contiguous_strides_def Let_def rbind_Inr_iff)
  from ne have l4: "length ne = 4" and neq: "ne = shape @ replicate (4 - length shape) 1"
    and pos: "\<forall>n\<in>set ne. 0 < n"
    by (auto simp: normalize_shape_Inr_iff)
  from strides_loop_Inr [OF rest] l4 have r3: "length rest = 3"
    and ri: "\<forall>i<3. rest ! i = ?s * prod_list (take (Suc i) ne) \<and> rest ! i \<le> int64_max"
    by (auto simp: min_def take_Suc_conv_app_nth)
  have s8: "?s \<le> 8" using dtype_size_le [of dt] by simp
  show "t_data t = p" "t_dtype t = dt" "t_ne t = shape @ replicate (4 - length shape) 1"
    "length (t_ne t) = 4" "length (t_nb t) = 4" "\<forall>n\<in>set (t_ne t). 0 < n"
    using t neq l4 r3 pos by auto
  show "t_nb t ! i = ?s * prod_list (take i (t_ne t))" if "i < 4" for i
    using that t ri by (cases i) auto
  show "t_nb t ! i \<le> int64_max" if "i < 4" for i
    using that t ri s8 by (cases i) auto
qed

lemma list4_cases:
  assumes "length xs = 4"
  obtains a b c d where "xs = [a, b, c, d]"
  using assms by (auto simp: numeral_eq_Suc length_Suc_conv)

lemma sum4: "(\<Sum>i<4::nat. f i) = f 0 + f 1 + f 2 + (f 3 :: int)"
  by (simp add: numeral_eq_Suc)

lemma prod_list_positive: "\<forall>n\<in>set ns. 0 < n \<Longrightarrow> 0 < prod_list (ns :: int list)"
  by (induction ns) auto

lemma all4: "(\<forall>i<4. P i) \<longleftrightarrow> P 0 \<and> P 1 \<and> P 2 \<and> P (3 :: nat)"
  by (auto simp: numeral_eq_Suc less_Suc_eq)

lemma make_tensor_shape:
  assumes "make_tensor p dt shape = Inr t"
  obtains a b c d where "t_ne t = [a, b, c, d]" "0 < a" "0 < b" "0 < c" "0 < d"
    "t_nb t = [int (dtype_size dt), int (dtype_size dt) * a, int (dtype_size dt) * (a * b),
       int (dtype_size dt) * (a * (b * c))]"
    "int (dtype_size dt) * a \<le> int64_max" "int (dtype_size dt) * (a * b) \<le> int64_max"
    "int (dtype_size dt) * (a * (b * c)) \<le> int64_max"
proof -
  note m = make_tensor_Inr [OF assms]
  obtain a b c d where ne: "t_ne t = [a, b, c, d]" using m(4) by (rule list4_cases)
  obtain w x y z where nb: "t_nb t = [w, x, y, z]" using m(5) by (rule list4_cases)
  from ne nb m(6) m(7) [of 0] m(7) [of 1] m(7) [of 2] m(7) [of 3]
    m(8) [of 1] m(8) [of 2] m(8) [of 3]
  show ?thesis by (intro that [of a b c d]) (simp_all add: numeral_eq_Suc)
qed

lemma contiguous_loop_step:
  assumes "0 < n" and "checked_mul_i64 e n = Inr e'"
  shows "contiguous_loop e ((n, e) # rest) = contiguous_loop e' rest"
proof (cases "n = 1 \<or> rest = []")
  case True
  with assms show ?thesis by (auto simp: checked_mul_i64_Inr_iff)
next
  case False
  with assms show ?thesis by (simp add: contiguous_loop.simps(2) [of e n e rest])
qed

lemma make_tensor_contiguous:
  assumes "make_tensor p dt shape = Inr t"
  shows "is_contiguous t"
  using assms
proof (rule make_tensor_shape)
  fix a b c d
  let ?s = "int (dtype_size dt)"
  assume ne: "t_ne t = [a, b, c, d]" and pos: "0 < a" "0 < b" "0 < c" "0 < d"
    and nb: "t_nb t = [?s, ?s * a, ?s * (a * b), ?s * (a * (b * c))]"
    and le: "?s * a \<le> int64_max" "?s * (a * b) \<le> int64_max" "?s * (a * (b * c)) \<le> int64_max"
  have dt: "t_dtype t = dt" using assms by (rule make_tensor_Inr)
  have m1: "checked_mul_i64 ?s a = Inr (?s * a)"
    and m2: "checked_mul_i64 (?s * a) b = Inr (?s * (a * b))"
    and m3: "checked_mul_i64 (?s * (a * b)) c = Inr (?s * (a * (b * c)))"
    using pos le by (simp_all add: checked_mul_i64_Inr_iff mult.assoc)
  have "contiguous_loop ?s (zip (t_ne t) (t_nb t)) =
      contiguous_loop (?s * (a * (b * c))) [(d, ?s * (a * (b * c)))]"
    using pos m1 m2 m3 by (simp add: ne nb contiguous_loop_step del: contiguous_loop.simps)
  then show ?thesis using pos by (simp add: is_contiguous_def dt)
qed

lemma numel_Inr_iff:
  "numel t = Inr n \<longleftrightarrow>
     (\<forall>n\<in>set (t_ne t). 0 < n) \<and> prod_list (t_ne t) \<le> int64_max \<and> n = prod_list (t_ne t)"
  by (simp add: numel_def shape_numel_Inr_iff)

lemma bytes_Inr:
  assumes "bytes t = Inr n"
  shows "n = nat (prod_list (t_ne t)) * dtype_size (t_dtype t)" "0 < n" "n \<le> uint64_max"
    "\<forall>n\<in>set (t_ne t). 0 < n"
proof -
  from assms obtain e where e: "numel t = Inr e" and n: "n = nat e * dtype_size (t_dtype t)"
    and g: "\<not> (dtype_size (t_dtype t) \<noteq> 0 \<and> nat e > uint64_max div dtype_size (t_dtype t))"
    by (auto simp: bytes_def Let_def rbind_Inr_iff)
  from e have pos: "\<forall>n\<in>set (t_ne t). 0 < n" and ep: "e = prod_list (t_ne t)"
    by (simp_all add: numel_Inr_iff)
  have "0 < prod_list (t_ne t)" using pos by (rule prod_list_positive)
  with e n g pos ep show "n = nat (prod_list (t_ne t)) * dtype_size (t_dtype t)" "0 < n"
    "n \<le> uint64_max" "\<forall>n\<in>set (t_ne t). 0 < n"
    by (simp_all only: mul_guard_exact not_less) simp_all
qed

lemma bytes_view:
  assumes "view t shape = Inr v" and "bytes t = Inr n"
  shows "bytes v = Inr n"
proof -
  from assms(1) obtain ne where ne: "normalize_shape shape = Inr ne"
    and eq: "shape_numel ne = numel t" and mk: "make_tensor (t_data t) (t_dtype t) shape = Inr v"
    by (auto simp: view_def rbind_Inr_iff split: if_splits)
  have "t_ne v = ne" "t_dtype v = t_dtype t"
    using make_tensor_Inr(2,3) [OF mk] ne by (auto simp: normalize_shape_Inr_iff)
  with eq assms(2) show ?thesis by (simp add: bytes_def numel_def)
qed

lemma byte_offset_split:
  assumes "length idx = 4" and "d < 4"
  shows "byte_offset t (idx[d := idx ! d + k]) = byte_offset t idx + k * t_nb t ! d"
proof -
  obtain w x y z where idx: "idx = [w, x, y, z]" using assms(1) by (rule list4_cases)
  consider "d = 0" | "d = 1" | "d = 2" | "d = 3" using assms(2) by linarith
  then show ?thesis by cases (simp_all add: byte_offset_def sum4 idx algebra_simps)
qed

text \<open>One digit of a mixed-radix number.\<close>

lemma radix_bound:
  fixes i a x y :: int
  assumes "0 \<le> i" "i < a" "0 \<le> x" "x < y"
  shows "0 \<le> i + a * x" "i + a * x < a * y"
proof -
  show "0 \<le> i + a * x" using assms by simp
  have "a * (x + 1) \<le> a * y" using assms by (intro mult_left_mono) auto
  with assms show "i + a * x < a * y" by (simp add: algebra_simps)
qed

lemma radix_inject:
  fixes i j a x y :: int
  assumes "0 \<le> i" "i < a" "0 \<le> j" "j < a" "i + a * x = j + a * y"
  shows "i = j \<and> x = y"
proof -
  have "(i + a * x) mod a = (j + a * y) mod a" using assms(5) by simp
  with assms(1-4) have "i = j" by simp
  with assms show ?thesis by simp
qed

text \<open>The offset of a freshly constructed tensor is its mixed-radix index times the element size.\<close>

definition linear_index :: "int list \<Rightarrow> int list \<Rightarrow> int" where
  "linear_index ne idx =
     idx ! 0 + ne ! 0 * (idx ! 1 + ne ! 1 * (idx ! 2 + ne ! 2 * idx ! 3))"

lemma byte_offset_linear:
  assumes "make_tensor p dt shape = Inr t" and "length idx = 4"
  shows "byte_offset t idx = int (dtype_size dt) * linear_index (t_ne t) idx"
  using assms(1)
proof (rule make_tensor_shape)
  fix a b c d
  let ?s = "int (dtype_size dt)"
  assume ne: "t_ne t = [a, b, c, d]"
    and nb: "t_nb t = [?s, ?s * a, ?s * (a * b), ?s * (a * (b * c))]"
  obtain w x y z where "idx = [w, x, y, z]" using assms(2) by (rule list4_cases)
  then show ?thesis by (simp add: byte_offset_def sum4 ne nb linear_index_def algebra_simps)
qed

lemma linear_index_bound:
  assumes "length (t_ne t) = 4" and "in_bounds t idx"
  shows "0 \<le> linear_index (t_ne t) idx" "linear_index (t_ne t) idx < prod_list (t_ne t)"
proof -
  obtain a b c d where ne: "t_ne t = [a, b, c, d]" using assms(1) by (rule list4_cases)
  from assms(2) obtain w x y z where idx: "idx = [w, x, y, z]"
    unfolding in_bounds_def by (blast elim: list4_cases)
  have b: "0 \<le> w" "w < a" "0 \<le> x" "x < b" "0 \<le> y" "y < c" "0 \<le> z" "z < d"
    using assms(2) by (simp_all add: in_bounds_def all4 ne idx)
  note r2 = radix_bound [OF b(5,6,7,8)]
  note r1 = radix_bound [OF b(3,4) r2]
  note r0 = radix_bound [OF b(1,2) r1]
  from r0 show "0 \<le> linear_index (t_ne t) idx" "linear_index (t_ne t) idx < prod_list (t_ne t)"
    by (simp_all add: linear_index_def ne idx)
qed

lemma linear_index_inject:
  assumes "length (t_ne t) = 4" and "in_bounds t idx" and "in_bounds t idx'"
    and "linear_index (t_ne t) idx = linear_index (t_ne t) idx'"
  shows "idx = idx'"
proof -
  obtain a b c d where ne: "t_ne t = [a, b, c, d]" using assms(1) by (rule list4_cases)
  from assms(2) obtain w x y z where idx: "idx = [w, x, y, z]"
    unfolding in_bounds_def by (blast elim: list4_cases)
  from assms(3) obtain w' x' y' z' where idx': "idx' = [w', x', y', z']"
    unfolding in_bounds_def by (blast elim: list4_cases)
  have b: "0 \<le> w" "w < a" "0 \<le> x" "x < b" "0 \<le> y" "y < c"
    and b': "0 \<le> w'" "w' < a" "0 \<le> x'" "x' < b" "0 \<le> y'" "y' < c"
    using assms(2,3) by (simp_all add: in_bounds_def all4 ne idx idx')
  have "w + a * (x + b * (y + c * z)) = w' + a * (x' + b * (y' + c * z'))"
    using assms(4) by (simp add: linear_index_def ne idx idx')
  note e0 = radix_inject [OF b(1,2) b'(1,2) this]
  note e1 = radix_inject [OF b(3,4) b'(3,4) conjunct2 [OF e0]]
  note e2 = radix_inject [OF b(5,6) b'(5,6) conjunct2 [OF e1]]
  from e0 e1 e2 show ?thesis by (simp add: idx idx')
qed

lemma permute_loop_Inr:
  assumes "permute_loop order seen dims = Inr r" and "length seen = 4"
    and "\<forall>d<4. seen ! d = (d \<in> set dims)" and "distinct dims" and "set dims \<subseteq> {..<4}"
  shows "r = dims @ map nat order \<and> distinct r \<and> set r \<subseteq> {..<4}"
  using assms
proof (induction order seen dims rule: permute_loop.induct)
  case (1 seen dims)
  then show ?case by simp
next
  case (2 dim order seen dims)
  from "2.prems"(1) have ok: "0 \<le> dim" "dim < 4" "\<not> seen ! nat dim"
    and rest: "permute_loop order (seen[nat dim := True]) (dims @ [nat dim]) = Inr r"
    by (simp_all split: if_splits)
  have ok4: "nat dim < 4" using ok by simp
  with "2.prems"(3) ok have fresh: "nat dim \<notin> set dims" by simp
  have inv: "\<forall>d<4. (seen[nat dim := True]) ! d = (d \<in> set (dims @ [nat dim]))"
    using "2.prems"(2,3) ok4 by (auto simp: nth_list_update)
  have "r = (dims @ [nat dim]) @ map nat order \<and> distinct r \<and> set r \<subseteq> {..<4}"
    by (rule "2.IH") (use rest ok inv fresh "2.prems"(2,4,5) ok4 in auto)
  moreover have "(dims @ [nat dim]) @ map nat order = dims @ map nat (dim # order)" by simp
  ultimately show ?case by metis
qed

section \<open>Properties\<close>

text \<open>
  C40. Every element of a freshly constructed tensor lies inside the \<open>bytes()\<close> bytes that
  start at its address, and two different index vectors name elements that do not overlap.
\<close>

theorem tensor_elements_in_storage:
  assumes "make_tensor p dt shape = Inr t" and "bytes t = Inr n"
    and "in_bounds t idx" and "in_bounds t idx'"
  shows "0 \<le> byte_offset t idx \<and> byte_offset t idx + int (dtype_size dt) \<le> int n \<and>
    (idx \<noteq> idx' \<longrightarrow> int (dtype_size dt) \<le> \<bar>byte_offset t idx - byte_offset t idx'\<bar>)"
proof -
  let ?s = "int (dtype_size dt)" and ?u = "linear_index (t_ne t) idx"
    and ?v = "linear_index (t_ne t) idx'"
  have l4: "length (t_ne t) = 4" and dt: "t_dtype t = dt"
    using assms(1) by (rule make_tensor_Inr)+
  have len: "length idx = 4" "length idx' = 4" using assms(3,4) by (simp_all add: in_bounds_def)
  have off: "byte_offset t idx = ?s * ?u" "byte_offset t idx' = ?s * ?v"
    using assms(1) len by (simp_all add: byte_offset_linear)
  note u = linear_index_bound [OF l4 assms(3)]
  have n: "int n = ?s * prod_list (t_ne t)"
    using bytes_Inr(1,4) [OF assms(2)] prod_list_positive [of "t_ne t"] by (simp add: dt)
  have "?s * (?u + 1) \<le> ?s * prod_list (t_ne t)" using u by (intro mult_left_mono) auto
  then have hi: "byte_offset t idx + ?s \<le> int n" by (simp add: off n algebra_simps)
  have apart: "?s \<le> \<bar>byte_offset t idx - byte_offset t idx'\<bar>" if "idx \<noteq> idx'"
  proof -
    have "?u \<noteq> ?v" using linear_index_inject [OF l4 assms(3,4)] that by blast
    then have "?s * 1 \<le> ?s * \<bar>?u - ?v\<bar>" by (intro mult_left_mono) auto
    then show ?thesis by (simp add: off abs_mult flip: right_diff_distrib)
  qed
  show ?thesis using u hi apart by (simp add: off)
qed

theorem tensor_elements_in_storage_witness:
  "0 \<le> byte_offset \<lparr>t_data = 4096, t_dtype = BF16, t_ne = [3, 2, 1, 1], t_nb = [2, 6, 12, 12]\<rparr>
         [2, 1, 0, 0]"
proof -
  let ?t = "\<lparr>t_data = 4096, t_dtype = BF16, t_ne = [3, 2, 1, 1], t_nb = [2, 6, 12, 12]\<rparr>"
  have "make_tensor 4096 BF16 [3, 2] = Inr ?t"
    by (simp add: tensor_ops)
  moreover have "bytes ?t = Inr 12"
    by (simp add: tensor_ops)
  moreover have "in_bounds ?t [2, 1, 0, 0]" by (simp add: in_bounds_def all4)
  ultimately show ?thesis using tensor_elements_in_storage [of 4096 BF16 "[3, 2]" ?t 12] by blast
qed

text \<open>
  A view of a contiguous tensor starts at the same address, has the same byte size and is
  contiguous again; \<open>reshape\<close> is \<open>view\<close>.
\<close>

theorem view_same_storage:
  assumes "view t shape = Inr v"
  shows "t_data v = t_data t \<and> t_dtype v = t_dtype t \<and> numel v = numel t \<and> bytes v = bytes t \<and>
    is_contiguous v \<and> reshape t shape = Inr v"
proof -
  from assms obtain ne where ne: "normalize_shape shape = Inr ne"
    and eq: "shape_numel ne = numel t" and mk: "make_tensor (t_data t) (t_dtype t) shape = Inr v"
    by (auto simp: view_def rbind_Inr_iff split: if_splits)
  note m = make_tensor_Inr(1-3) [OF mk]
  have "t_ne v = ne" using m(3) ne by (simp add: normalize_shape_Inr_iff)
  with m eq have "numel v = numel t" by (simp add: numel_def)
  with m assms make_tensor_contiguous [OF mk] show ?thesis by (simp add: bytes_def reshape_def)
qed

theorem view_same_storage_witness:
  "numel \<lparr>t_data = 512, t_dtype = FP32, t_ne = [6, 1, 1, 1], t_nb = [4, 24, 24, 24]\<rparr> =
     numel \<lparr>t_data = 512, t_dtype = FP32, t_ne = [2, 3, 1, 1], t_nb = [4, 8, 24, 24]\<rparr>"
proof -
  let ?t = "\<lparr>t_data = 512, t_dtype = FP32, t_ne = [2, 3, 1, 1], t_nb = [4, 8, 24, 24]\<rparr>"
  let ?v = "\<lparr>t_data = 512, t_dtype = FP32, t_ne = [6, 1, 1, 1], t_nb = [4, 24, 24, 24]\<rparr>"
  have "view ?t [6] = Inr ?v" by (simp add: tensor_ops)
  from view_same_storage [OF this] show ?thesis by simp
qed

text \<open>
  A slice reads the parent's elements: element \<open>idx\<close> of \<open>slice(dim, start, len)\<close> is the
  parent's element with \<open>start\<close> added to coordinate \<open>dim\<close>, and that index is in the parent's
  bounds whenever \<open>idx\<close> is in the slice's bounds.
\<close>

theorem slice_reads_parent:
  assumes "tensor_rank4 t" and "t_data t \<noteq> 0" and "slice t dim start len = Inr s"
    and "in_bounds s idx"
  shows "in_bounds t (idx[nat dim := idx ! nat dim + start]) \<and>
    elem_addr s idx = elem_addr t (idx[nat dim := idx ! nat dim + start])"
proof -
  let ?d = "nat dim"
  from assms(3) have d: "?d < 4" and ok: "0 \<le> start" "start + len \<le> t_ne t ! ?d"
    and s: "s = t\<lparr>t_data := t_data t + word_of_int (start * t_nb t ! ?d), t_ne := (t_ne t)[?d := len]\<rparr>"
    using assms(2) by (auto simp: slice_def Let_def rbind_Inr_iff checked_mul_i64_Inr_iff split: if_splits)
  have len: "length idx = 4" using assms(4) by (simp add: in_bounds_def)
  have "\<forall>i<4. 0 \<le> (idx[?d := idx ! ?d + start]) ! i \<and> (idx[?d := idx ! ?d + start]) ! i < t_ne t ! i"
    using assms(1,4) d ok len by (fastforce simp: in_bounds_def s tensor_rank4_def nth_list_update)
  then have "in_bounds t (idx[?d := idx ! ?d + start])" using len by (simp add: in_bounds_def)
  moreover have "byte_offset s idx = byte_offset t idx" by (simp add: byte_offset_def s)
  ultimately show ?thesis
    by (simp add: elem_addr_def byte_offset_split [OF len d]) (simp add: s)
qed

theorem slice_reads_parent_witness:
  "elem_addr \<lparr>t_data = 108, t_dtype = FP32, t_ne = [1, 3, 1, 1], t_nb = [4, 8, 24, 24]\<rparr> [0, 2, 0, 0] =
   elem_addr \<lparr>t_data = 104, t_dtype = FP32, t_ne = [2, 3, 1, 1], t_nb = [4, 8, 24, 24]\<rparr> [1, 2, 0, 0]"
proof -
  let ?t = "\<lparr>t_data = 104, t_dtype = FP32, t_ne = [2, 3, 1, 1], t_nb = [4, 8, 24, 24]\<rparr>"
  let ?s = "\<lparr>t_data = 108, t_dtype = FP32, t_ne = [1, 3, 1, 1], t_nb = [4, 8, 24, 24]\<rparr>"
  have "slice ?t 0 1 1 = Inr ?s"
    by (simp add: tensor_ops)
  moreover have "tensor_rank4 ?t" "in_bounds ?s [0, 2, 0, 0]"
    by (simp_all add: tensor_rank4_def in_bounds_def all4)
  ultimately show ?thesis using slice_reads_parent [of ?t 0 1 1 ?s "[0, 2, 0, 0]"] by simp
qed

text \<open>
  \<open>permute\<close> accepts exactly the permutations of the four axes, and element \<open>idx\<close> of the
  result is the element of the argument whose coordinate along \<open>order[j]\<close> is \<open>idx[j]\<close>.
\<close>

theorem permute_reads_argument:
  assumes "tensor_rank4 t" and "permute t order = Inr v" and "length idx = 4"
    and "\<forall>j<4. idx ! j = idx0 ! nat (order ! j)"
  shows "distinct (map nat order) \<and> set (map nat order) = {0, 1, 2, 3} \<and>
    elem_addr v idx = elem_addr t idx0"
proof -
  from assms(2) obtain dims where l4: "length order = 4"
    and loop: "permute_loop order (replicate 4 False) [] = Inr dims"
    and v: "v = t\<lparr>t_ne := map (\<lambda>d. t_ne t ! d) dims, t_nb := map (\<lambda>d. t_nb t ! d) dims\<rparr>"
    by (auto simp: permute_def rbind_Inr_iff split: if_splits)
  have "dims = [] @ map nat order \<and> distinct dims \<and> set dims \<subseteq> {..<4}"
    by (rule permute_loop_Inr [OF loop]) (simp_all add: all4)
  then have dims: "dims = map nat order" "distinct dims" "set dims \<subseteq> {..<4}"
    unfolding append_Nil by blast+
  have "card (set dims) = length dims" using dims(2) by (rule distinct_card)
  then have "card (set dims) = 4" by (simp only: dims(1) length_map l4)
  then have set: "set dims = {..<4}" using dims(3) by (intro card_subset_eq) auto
  have bij: "bij_betw (\<lambda>j. dims ! j) {..<4} {..<4}"
    using dims(1,2) l4 set by (metis bij_betw_nth length_map)
  have "byte_offset v idx = (\<Sum>j<4. idx0 ! (dims ! j) * t_nb t ! (dims ! j))"
    using assms(4) l4 by (simp add: byte_offset_def v dims(1))
  also have "\<dots> = byte_offset t idx0"
    unfolding byte_offset_def using bij by (rule sum.reindex_bij_betw)
  finally have "elem_addr v idx = elem_addr t idx0" by (simp add: elem_addr_def v)
  then show ?thesis using dims set by (auto simp: lessThan_nat_numeral)
qed

theorem permute_reads_argument_witness:
  "elem_addr \<lparr>t_data = 64, t_dtype = U8, t_ne = [3, 2, 1, 1], t_nb = [2, 1, 6, 6]\<rparr> [2, 1, 0, 0] =
   elem_addr \<lparr>t_data = 64, t_dtype = U8, t_ne = [2, 3, 1, 1], t_nb = [1, 2, 6, 6]\<rparr> [1, 2, 0, 0]"
proof -
  let ?t = "\<lparr>t_data = 64, t_dtype = U8, t_ne = [2, 3, 1, 1], t_nb = [1, 2, 6, 6]\<rparr>"
  let ?v = "\<lparr>t_data = 64, t_dtype = U8, t_ne = [3, 2, 1, 1], t_nb = [2, 1, 6, 6]\<rparr>"
  have "permute ?t [1, 0, 2, 3] = Inr ?v" by (simp add: tensor_ops)
  moreover have "\<forall>j<4. [2, 1, 0, 0 :: int] ! j = [1, 2, 0, 0] ! nat ([1, 0, 2, 3] ! j)"
    by (simp add: all4)
  ultimately show ?thesis
    using permute_reads_argument [of ?t "[1, 0, 2, 3]" ?v "[2, 1, 0, 0]" "[1, 2, 0, 0]"]
    by (simp add: tensor_rank4_def)
qed

end
