(* ===== verification/Layout.thy ===== *)
theory Layout
  imports Tensor
begin

text \<open>
  Checked offset builders: \<open>src/core/layout.h\<close>, \<open>layout.cpp\<close>, and the allocation part of
  \<open>src/core/arena.cu\<close>.

  A \<open>LayoutBuilder\<close> lays regions out at aligned offsets of a backing allocation that does not
  exist yet; \<open>LayoutRegion::bind\<close> later cuts the region out of the real allocation. A
  \<open>WorkspaceLayoutBuilder\<close> is the dry run of a \<open>DeviceArena\<close>. Sizes, offsets and
  addresses are 64-bit words, as the code computes alignment with bit masks.
\<close>

unbundle bit_operations_syntax

section \<open>Checked arithmetic\<close>

definition checked_add :: "u64 \<Rightarrow> u64 \<Rightarrow> u64 res" where
  "checked_add a b = (if b > (- 1) - a then Inl OverflowError else Inr (a + b))"

definition align_up :: "u64 \<Rightarrow> u64 \<Rightarrow> u64 res" where
  "align_up value alignment =
     (if \<not> is_power_of_two alignment then Inl InvalidArgument
      else let msk = alignment - 1
           in rbind (checked_add value msk) (\<lambda>x. Inr (x AND NOT msk)))"

section \<open>Regions\<close>

record device_span =
  ds_data :: u64
  ds_bytes :: u64

record layout_region =
  lr_offset :: u64
  lr_bytes :: u64
  lr_alignment :: u64

record tensor_region =
  tr_region :: layout_region
  tr_dtype :: dtype
  tr_shape :: "int list"

definition region_bind :: "layout_region \<Rightarrow> device_span \<Rightarrow> device_span res" where
  "region_bind r backing =
     (if ds_data backing = 0 then Inl InvalidArgument
      else if \<not> is_power_of_two (lr_alignment r) then Inl LogicError
      else if (ds_data backing + lr_offset r) mod lr_alignment r \<noteq> 0 then Inl InvalidArgument
      else if lr_offset r > ds_bytes backing \<or> lr_bytes r > ds_bytes backing - lr_offset r
        then Inl OutOfRange
      else Inr \<lparr>ds_data = ds_data backing + lr_offset r, ds_bytes = lr_bytes r\<rparr>)"

definition tensor_region_bind :: "tensor_region \<Rightarrow> device_span \<Rightarrow> tensor res" where
  "tensor_region_bind r backing =
     rbind (make_tensor 0 (tr_dtype r) (tr_shape r)) (\<lambda>expected.
     rbind (bytes expected) (\<lambda>n.
       if word_of_nat n \<noteq> lr_bytes (tr_region r) then Inl LogicError
       else rbind (region_bind (tr_region r) backing) (\<lambda>span.
              make_tensor (ds_data span) (tr_dtype r) (tr_shape r))))"

section \<open>The builders\<close>

record layout_builder =
  lb_cursor :: u64
  lb_peak :: u64

definition lb_empty :: layout_builder where
  "lb_empty = \<lparr>lb_cursor = 0, lb_peak = 0\<rparr>"

definition lb_advance :: "u64 \<Rightarrow> layout_builder \<Rightarrow> layout_builder" where
  "lb_advance c b = b\<lparr>lb_cursor := c, lb_peak := (if c > lb_peak b then c else lb_peak b)\<rparr>"

definition lb_add :: "u64 \<Rightarrow> u64 \<Rightarrow> layout_builder \<Rightarrow> (layout_region \<times> layout_builder) res" where
  "lb_add n alignment b =
     (if n = 0 then Inl InvalidArgument
      else rbind (align_up (lb_cursor b) alignment) (\<lambda>offset.
           rbind (checked_add offset n) (\<lambda>c.
             Inr (\<lparr>lr_offset = offset, lr_bytes = n, lr_alignment = alignment\<rparr>, lb_advance c b))))"

definition lb_add_tensor ::
  "dtype \<Rightarrow> int list \<Rightarrow> u64 \<Rightarrow> layout_builder \<Rightarrow> (tensor_region \<times> layout_builder) res" where
  "lb_add_tensor dt shape alignment b =
     rbind (make_tensor 0 dt shape) (\<lambda>t.
     rbind (bytes t) (\<lambda>n.
     rbind (lb_add (word_of_nat n) alignment b) (\<lambda>(region, b').
       Inr (\<lparr>tr_region = region, tr_dtype = dt,
             tr_shape = shape @ replicate (4 - length shape) 1\<rparr>, b'))))"

text \<open>\<open>scope()\<close> saves the cursor; the destructor of the scope restores it.\<close>

definition lb_scope :: "layout_builder \<Rightarrow> u64" where
  "lb_scope b = lb_cursor b"

definition lb_scope_end :: "u64 \<Rightarrow> layout_builder \<Rightarrow> layout_builder" where
  "lb_scope_end saved b = b\<lparr>lb_cursor := saved\<rparr>"

definition lb_finish :: "u64 \<Rightarrow> layout_builder \<Rightarrow> u64 res" where
  "lb_finish alignment b = align_up (lb_peak b) alignment"

text \<open>The workspace builder has the same two fields; an empty request leaves it alone.\<close>

definition wl_alloc_bytes :: "u64 \<Rightarrow> u64 \<Rightarrow> layout_builder \<Rightarrow> (device_span \<times> layout_builder) res" where
  "wl_alloc_bytes n alignment b =
     (if n = 0 then Inr (\<lparr>ds_data = 0, ds_bytes = 0\<rparr>, b)
      else rbind (align_up (lb_cursor b) alignment) (\<lambda>c.
           rbind (checked_add c n) (\<lambda>c'. Inr (\<lparr>ds_data = 0, ds_bytes = n\<rparr>, lb_advance c' b))))"

definition wl_alloc :: "dtype \<Rightarrow> int list \<Rightarrow> u64 \<Rightarrow> layout_builder \<Rightarrow> (tensor \<times> layout_builder) res" where
  "wl_alloc dt shape alignment b =
     rbind (make_tensor 0 dt shape) (\<lambda>t.
     rbind (align_up (lb_cursor b) alignment) (\<lambda>c.
     rbind (bytes t) (\<lambda>n.
     rbind (checked_add c (word_of_nat n)) (\<lambda>c'. Inr (t, lb_advance c' b)))))"

definition wl_peak_bytes :: "u64 \<Rightarrow> layout_builder \<Rightarrow> u64 res" where
  "wl_peak_bytes alignment b = align_up (lb_peak b) alignment"

section \<open>The device arena\<close>

record device_arena =
  da_base :: u64
  da_cap :: u64
  da_off :: u64
  da_peak :: u64

text \<open>\<open>DeviceArena(DeviceSpan)\<close>: a non-owning arena over an allocated region.\<close>

definition arena_over :: "device_span \<Rightarrow> device_arena res" where
  "arena_over storage =
     (if ds_data storage = 0 \<or> ds_bytes storage = 0 then Inl InvalidArgument
      else Inr \<lparr>da_base = ds_data storage, da_cap = ds_bytes storage, da_off = 0, da_peak = 0\<rparr>)"

definition align_up_addr :: "u64 \<Rightarrow> u64 \<Rightarrow> u64 res" where
  "align_up_addr addr align =
     (let msk = align - 1 in rbind (checked_add addr msk) (\<lambda>x. Inr (x AND NOT msk)))"

definition arena_alloc_bytes :: "u64 \<Rightarrow> u64 \<Rightarrow> device_arena \<Rightarrow> (device_span \<times> device_arena) res" where
  "arena_alloc_bytes n align a =
     (if da_base a = 0 then Inl RuntimeError
      else if \<not> is_power_of_two align then Inl InvalidArgument
      else if n = 0 then Inl InvalidArgument
      else rbind (checked_add (da_base a) (da_off a)) (\<lambda>current.
           rbind (align_up_addr current align) (\<lambda>aligned.
             let aligned_offset = aligned - da_base a in
             if n > (- 1) - aligned_offset then Inl OverflowError
             else let e = aligned_offset + n in
               if e > da_cap a then Inl BadAlloc
               else Inr (\<lparr>ds_data = da_base a + aligned_offset, ds_bytes = n\<rparr>,
                         a\<lparr>da_off := e, da_peak := (if e > da_peak a then e else da_peak a)\<rparr>))))"

definition arena_alloc :: "dtype \<Rightarrow> int list \<Rightarrow> u64 \<Rightarrow> device_arena \<Rightarrow> (tensor \<times> device_arena) res" where
  "arena_alloc dt shape align a =
     rbind (make_tensor 0 dt shape) (\<lambda>t.
     rbind (bytes t) (\<lambda>n.
     rbind (arena_alloc_bytes (word_of_nat n) align a) (\<lambda>(storage, a').
     rbind (make_tensor (ds_data storage) dt shape) (\<lambda>r. Inr (r, a')))))"

definition arena_scope_end :: "u64 \<Rightarrow> device_arena \<Rightarrow> device_arena" where
  "arena_scope_end saved a = (if saved \<le> da_off a then a\<lparr>da_off := saved\<rparr> else a)"

section \<open>Alignment lemmas\<close>

lemma checked_add_Inr_iff:
  "checked_add a b = Inr c \<longleftrightarrow> unat a + unat b < 2 ^ 64 \<and> c = a + b"
proof -
  have "unat (- 1 :: u64) = 2 ^ 64 - 1"
    by (simp add: unsigned_minus_1_eq_mask mask_eq_exp_minus_1)
  then have "unat ((- 1) - a) = 2 ^ 64 - 1 - unat a"
    using unat_sub [of a "- 1"] by (simp add: word_order.extremum)
  then have "b > (- 1) - a \<longleftrightarrow> \<not> unat a + unat b < 2 ^ 64"
    using unat_u64_less [of a] by (auto simp: word_less_nat_alt)
  then show ?thesis by (auto simp: checked_add_def)
qed

lemma checked_add_unat: "checked_add a b = Inr c \<Longrightarrow> unat c = unat a + unat b"
  by (auto simp: checked_add_Inr_iff unat_word_ariths)

lemma unat_clear_low:
  fixes x :: u64
  shows "unat (x AND NOT (mask k)) = unat x div 2 ^ k * 2 ^ k"
proof -
  have "unat (take_bit k x) = unat x mod 2 ^ k"
    by (simp add: unsigned_take_bit_eq flip: take_bit_eq_mod)
  moreover have "take_bit k x \<le> x"
    by (simp add: word_le_nat_alt calculation)
  ultimately show ?thesis
    by (simp add: and_not_mask_word unat_sub minus_mod_eq_div_mult)
qed

lemma unat_exp_word:
  assumes "k < 64"
  shows "unat (2 ^ k :: u64) = 2 ^ k"
proof -
  have "(2 :: nat) ^ k < 2 ^ 64" using assms by (intro power_strict_increasing) auto
  moreover have "(2 ^ k :: u64) = word_of_nat (2 ^ k)" by simp
  ultimately show ?thesis by (simp only: unsigned_of_nat) (simp add: take_bit_nat_eq_self assms)
qed

text \<open>
  The bit trick is arithmetic rounding: \<open>align_up\<close> fails exactly when the alignment is no
  power of two or the sum overflows, and otherwise returns the least multiple that is not
  smaller.
\<close>

lemma align_up_Inr:
  assumes "align_up v a = Inr r"
  shows "is_power_of_two a" "unat v \<le> unat r" "unat r < unat v + unat a" "unat r mod unat a = 0"
    "0 < unat a"
proof -
  from assms have p: "is_power_of_two a"
    and r: "rbind (checked_add v (a - 1)) (\<lambda>x. Inr (x AND NOT (a - 1))) = Inr r"
    by (auto simp: align_up_def Let_def split: if_splits)
  from p obtain k where k: "k < 64" "a = 2 ^ k" by (rule is_power_of_two_imp_exp)
  have ua: "unat a = 2 ^ k" using k by (simp add: unat_exp_word)
  have m: "a - 1 = mask k" by (simp add: k(2) mask_eq_exp_minus_1)
  have um: "unat (a - 1) = 2 ^ k - 1"
    using ua unat_minus_one [of a] k by (metis power_not_zero unat_eq_zero zero_neq_numeral)
  from r obtain x where x: "checked_add v (a - 1) = Inr x" and rx: "r = (x AND NOT (mask k))"
    by (auto simp: rbind_Inr_iff m)
  have ux: "unat x = unat v + (2 ^ k - 1)" using checked_add_unat [OF x] um by simp
  have ur: "unat r = (unat v + (2 ^ k - 1)) div 2 ^ k * 2 ^ k"
    by (simp only: rx unat_clear_low ux)
  have dm: "(unat v + (2 ^ k - 1)) div 2 ^ k * 2 ^ k + (unat v + (2 ^ k - 1)) mod 2 ^ k =
      unat v + (2 ^ k - 1)" by (rule div_mult_mod_eq)
  have mb: "(unat v + (2 ^ k - 1)) mod 2 ^ k \<le> 2 ^ k - 1"
    by (metis less_Suc_eq_le mod_less_divisor zero_less_numeral zero_less_power Suc_diff_1)
  have one: "1 \<le> (2::nat) ^ k" by simp
  show "is_power_of_two a" by (rule p)
  show "unat v \<le> unat r" "unat r < unat v + unat a" using ur dm mb one ua by linarith+
  show "unat r mod unat a = 0" "0 < unat a" using ur ua by simp_all
qed

lemma align_up_least:
  assumes "align_up v a = Inr r" and "unat v \<le> m" and "m mod unat a = 0"
  shows "unat r \<le> m"
proof (rule ccontr)
  assume "\<not> unat r \<le> m"
  note r = align_up_Inr [OF assms(1)]
  obtain i where i: "unat r = unat a * i" using r(4) by (metis mod_0_imp_dvd dvdE)
  obtain j where j: "m = unat a * j" using assms(3) by (metis mod_0_imp_dvd dvdE)
  from \<open>\<not> unat r \<le> m\<close> i j r(5) have "j + 1 \<le> i" by simp
  then have "unat a * (j + 1) \<le> unat r" using i by (metis mult_le_mono2)
  with r(3) assms(2) j show False by simp
qed

lemma align_up_succeeds:
  assumes "is_power_of_two a" and "unat v + unat a \<le> 2 ^ 64"
  shows "\<exists>r. align_up v a = Inr r"
proof -
  have "a \<noteq> 0" using assms(1) by (simp add: is_power_of_two_def)
  then have "unat (a - 1) = unat a - 1" "0 < unat a" by (simp_all add: unat_minus_one unat_gt_0)
  with assms(2) have "checked_add v (a - 1) = Inr (v + (a - 1))" by (simp add: checked_add_Inr_iff)
  with assms(1) show ?thesis by (simp add: align_up_def Let_def)
qed

section \<open>Sequences of requests\<close>

fun lb_add_all :: "(u64 \<times> u64) list \<Rightarrow> layout_builder \<Rightarrow> (layout_region list \<times> layout_builder) res" where
  "lb_add_all [] b = Inr ([], b)"
| "lb_add_all ((n, alignment) # reqs) b =
     rbind (lb_add n alignment b) (\<lambda>(r, b').
     rbind (lb_add_all reqs b') (\<lambda>(rs, b''). Inr (r # rs, b'')))"

text \<open>
  A client of the workspace: allocations and nested scopes. The same client runs against the
  dry run and against the arena.
\<close>

datatype ws_op = WAlloc u64 u64 | WScope "ws_op list"

fun wl_run :: "ws_op \<Rightarrow> layout_builder \<Rightarrow> layout_builder res"
  and wl_runs :: "ws_op list \<Rightarrow> layout_builder \<Rightarrow> layout_builder res" where
  "wl_run (WAlloc n al) b = rbind (wl_alloc_bytes n al b) (\<lambda>(span, b'). Inr b')"
| "wl_run (WScope ops) b = rbind (wl_runs ops b) (\<lambda>b'. Inr (lb_scope_end (lb_scope b) b'))"
| "wl_runs [] b = Inr b"
| "wl_runs (x # xs) b = rbind (wl_run x b) (wl_runs xs)"

fun arena_run :: "ws_op \<Rightarrow> device_arena \<Rightarrow> device_arena res"
  and arena_runs :: "ws_op list \<Rightarrow> device_arena \<Rightarrow> device_arena res" where
  "arena_run (WAlloc n al) a = rbind (arena_alloc_bytes n al a) (\<lambda>(span, a'). Inr a')"
| "arena_run (WScope ops) a = rbind (arena_runs ops a) (\<lambda>a'. Inr (arena_scope_end (da_off a) a'))"
| "arena_runs [] a = Inr a"
| "arena_runs (x # xs) a = rbind (arena_run x a) (arena_runs xs)"

text \<open>Non-empty requests whose alignment divides the alignment of the base.\<close>

fun ws_ok :: "nat \<Rightarrow> ws_op \<Rightarrow> bool" where
  "ws_ok g (WAlloc n al) = (n \<noteq> 0 \<and> unat al dvd g)"
| "ws_ok g (WScope ops) = list_all (ws_ok g) ops"

section \<open>Lemmas on the builders\<close>

lemma lb_add_Inr:
  assumes "lb_add n al b = Inr (r, b')"
  shows "unat (lb_cursor b) \<le> unat (lr_offset r)" "unat (lr_offset r) mod unat al = 0"
    "lr_bytes r = n" "lr_alignment r = al" "is_power_of_two al"
    "unat (lb_cursor b') = unat (lr_offset r) + unat n" "lb_cursor b' \<le> lb_peak b'"
    "lb_peak b \<le> lb_peak b'"
proof -
  from assms obtain c where off: "align_up (lb_cursor b) al = Inr (lr_offset r)"
    and c: "checked_add (lr_offset r) n = Inr c" and b': "b' = lb_advance c b"
    and r: "lr_bytes r = n" "lr_alignment r = al"
    by (auto simp: lb_add_def rbind_Inr_iff split: if_splits)
  note a = align_up_Inr [OF off]
  show "unat (lb_cursor b) \<le> unat (lr_offset r)" "unat (lr_offset r) mod unat al = 0"
    "is_power_of_two al" using a by auto
  show "lr_bytes r = n" "lr_alignment r = al" by (fact r)+
  show "unat (lb_cursor b') = unat (lr_offset r) + unat n"
    using checked_add_unat [OF c] by (simp add: b' lb_advance_def)
  show "lb_cursor b' \<le> lb_peak b'" "lb_peak b \<le> lb_peak b'"
    by (auto simp: b' lb_advance_def)
qed

lemma lb_add_all_Inr:
  assumes "lb_add_all reqs b = Inr (rs, b')" and "lb_cursor b \<le> lb_peak b"
  shows "map (\<lambda>r. (lr_bytes r, lr_alignment r)) rs = reqs \<and> lb_peak b \<le> lb_peak b' \<and>
    (\<forall>r\<in>set rs. unat (lb_cursor b) \<le> unat (lr_offset r) \<and>
       unat (lr_offset r) mod unat (lr_alignment r) = 0 \<and> is_power_of_two (lr_alignment r) \<and>
       unat (lr_offset r) + unat (lr_bytes r) \<le> unat (lb_peak b')) \<and>
    sorted_wrt (\<lambda>r s. unat (lr_offset r) + unat (lr_bytes r) \<le> unat (lr_offset s)) rs"
  using assms
proof (induction reqs b arbitrary: rs rule: lb_add_all.induct)
  case (1 b)
  then show ?case by simp
next
  case (2 n al reqs b)
  from "2.prems"(1) obtain r b1 rs1 where r: "lb_add n al b = Inr (r, b1)"
    and rest: "lb_add_all reqs b1 = Inr (rs1, b')" and rs: "rs = r # rs1"
    by (auto simp: rbind_Inr_iff)
  note a = lb_add_Inr [OF r]
  note ih = "2.IH" [OF r refl rest a(7)]
  have "unat (lb_peak b1) \<le> unat (lb_peak b')" "unat (lb_cursor b1) \<le> unat (lb_peak b1)"
    using ih a(7) by (simp_all add: word_le_nat_alt)
  with ih a show ?case by (auto simp: rs intro: order.trans le_trans)
qed

lemma unat_add_no_overflow: "unat a + unat b < 2 ^ 64 \<Longrightarrow> unat (a + b) = unat a + unat b"
  for a b :: u64
  by (simp add: unat_word_ariths)

text \<open>Binding a region of a backing that is large enough and suitably aligned.\<close>

lemma region_bind_succeeds:
  assumes "ds_data backing \<noteq> 0" and "is_power_of_two (lr_alignment r)"
    and "unat (ds_data backing) mod unat (lr_alignment r) = 0"
    and "unat (lr_offset r) mod unat (lr_alignment r) = 0"
    and "unat (lr_offset r) + unat (lr_bytes r) \<le> unat (ds_bytes backing)"
    and "unat (ds_data backing) + unat (ds_bytes backing) < 2 ^ 64"
  shows "region_bind r backing =
    Inr \<lparr>ds_data = ds_data backing + lr_offset r, ds_bytes = lr_bytes r\<rparr>"
proof -
  have "unat (ds_data backing + lr_offset r) = unat (ds_data backing) + unat (lr_offset r)"
    using assms(5,6) by (intro unat_add_no_overflow) simp
  moreover have "(unat (ds_data backing) + unat (lr_offset r)) mod unat (lr_alignment r) = 0"
    using assms(3,4) by (auto simp: mod_eq_0_iff_dvd)
  ultimately have "(ds_data backing + lr_offset r) mod lr_alignment r = 0"
    by (metis unat_0 unat_mod word_unat_eq_iff)
  moreover have off: "lr_offset r \<le> ds_bytes backing" using assms(5) by (simp add: word_le_nat_alt)
  moreover have "lr_bytes r \<le> ds_bytes backing - lr_offset r"
    using assms(5) unat_sub [OF off] by (simp add: word_le_nat_alt)
  ultimately show ?thesis using assms(1,2) by (simp add: region_bind_def not_less)
qed

section \<open>Lemmas on the dry run\<close>

lemma wl_alloc_bytes_Inr:
  assumes "wl_alloc_bytes n al b = Inr (span, b')" and "n \<noteq> 0"
  obtains c where "align_up (lb_cursor b) al = Inr c" "checked_add c n = Inr (lb_cursor b')"
    "b' = lb_advance (lb_cursor b') b"
  using assms by (auto simp: wl_alloc_bytes_def rbind_Inr_iff lb_advance_def)

lemma lb_cursor_advance [simp]: "lb_cursor (lb_advance c b) = c"
  by (simp add: lb_advance_def)

lemma lb_peak_advance: "lb_peak b \<le> lb_peak (lb_advance c b)" "c \<le> lb_peak (lb_advance c b)"
  by (auto simp: lb_advance_def)

lemma wl_run_peak_mono:
  "wl_run x b = Inr b' \<Longrightarrow> lb_peak b \<le> lb_peak b'"
  "wl_runs xs b = Inr b' \<Longrightarrow> lb_peak b \<le> lb_peak b'"
proof (induction x b and xs b arbitrary: b' and b' rule: wl_run_wl_runs.induct)
  case (1 n al b)
  then show ?case
    by (auto simp: wl_alloc_bytes_def rbind_Inr_iff lb_peak_advance split: if_splits)
next
  case (2 ops b)
  then show ?case by (auto simp: rbind_Inr_iff lb_scope_end_def)
next
  case (3 b)
  then show ?case by simp
next
  case (4 x xs b)
  then show ?case by (auto simp: rbind_Inr_iff intro: order.trans)
qed

text \<open>Rounding an address up is rounding the offset up when the base is aligned.\<close>

lemma align_up_addr_offset:
  assumes "align_up v al = Inr r" and "unat base mod unat al = 0"
    and "unat base + unat v + unat al \<le> 2 ^ 64"
  shows "align_up_addr (base + v) al = Inr (base + r)"
proof -
  note a = align_up_Inr [OF assms(1)]
  have uv: "unat (base + v) = unat base + unat v"
    using assms(3) a(5) by (intro unat_add_no_overflow) simp
  obtain s where s: "align_up (base + v) al = Inr s"
    using align_up_succeeds [OF a(1), of "base + v"] assms(3) uv by auto
  note b = align_up_Inr [OF s]
  have ur: "unat (base + r) = unat base + unat r"
    using assms(3) a(3) by (intro unat_add_no_overflow) simp
  have "unat s \<le> unat base + unat r"
  proof (rule align_up_least [OF s])
    show "unat (base + v) \<le> unat base + unat r" using uv a(2) by simp
    show "(unat base + unat r) mod unat al = 0" using assms(2) a(4) by (auto simp: mod_eq_0_iff_dvd)
  qed
  moreover have "unat r \<le> unat s - unat base"
  proof (rule align_up_least [OF assms(1)])
    show "unat v \<le> unat s - unat base" using b(2) uv by simp
    show "(unat s - unat base) mod unat al = 0"
      using assms(2) b(4) by (metis dvd_diff_nat mod_0_imp_dvd mod_eq_0_iff_dvd)
  qed
  ultimately have "unat s = unat (base + r)" using ur b(2) uv by simp
  then have "s = base + r" by (simp add: word_unat_eq_iff)
  with s a(1) show ?thesis by (simp add: align_up_def align_up_addr_def Let_def)
qed

lemma arena_alloc_follows:
  assumes "wl_alloc_bytes n al b = Inr (span, b')" and "n \<noteq> 0" and "unat al dvd unat (da_base a)"
    and "da_off a = lb_cursor b" and "da_base a \<noteq> 0" and "lb_cursor b' \<le> da_cap a"
    and "unat al \<le> 2 ^ 32" and "unat (da_base a) + unat (da_cap a) + 2 ^ 32 \<le> 2 ^ 64"
    and "lb_cursor b \<le> da_cap a"
  shows "\<exists>span'. arena_alloc_bytes n al a = Inr (span', a\<lparr>da_off := lb_cursor b',
    da_peak := (if lb_cursor b' > da_peak a then lb_cursor b' else da_peak a)\<rparr>)"
proof -
  obtain c where c: "align_up (lb_cursor b) al = Inr c" and e: "checked_add c n = Inr (lb_cursor b')"
    using assms(1,2) by (rule wl_alloc_bytes_Inr)
  have cur: "unat (lb_cursor b) \<le> unat (da_cap a)" using assms(9) by (simp add: word_le_nat_alt)
  have "checked_add (da_base a) (da_off a) = Inr (da_base a + lb_cursor b)"
    using assms(4,8) cur by (simp add: checked_add_Inr_iff)
  moreover have "align_up_addr (da_base a + lb_cursor b) al = Inr (da_base a + c)"
    using c assms(3,7,8) cur by (intro align_up_addr_offset) (auto simp: mod_eq_0_iff_dvd)
  moreover have "\<not> n > (- 1) - c" "c + n = lb_cursor b'"
    using e by (auto simp: checked_add_def split: if_splits)
  ultimately show ?thesis
    using assms(2,5,6) align_up_Inr(1) [OF c] by (auto simp: arena_alloc_bytes_def Let_def)
qed

lemma wl_cursor_le_peak:
  "wl_run x b = Inr b' \<Longrightarrow> lb_cursor b \<le> lb_peak b \<Longrightarrow> lb_cursor b' \<le> lb_peak b'"
  "wl_runs xs b = Inr b' \<Longrightarrow> lb_cursor b \<le> lb_peak b \<Longrightarrow> lb_cursor b' \<le> lb_peak b'"
proof (induction x b and xs b arbitrary: b' and b' rule: wl_run_wl_runs.induct)
  case (1 n al b)
  then show ?case
    by (auto simp: wl_alloc_bytes_def rbind_Inr_iff lb_peak_advance split: if_splits)
next
  case (2 ops b)
  then obtain b1 where "wl_runs ops b = Inr b1" "b' = lb_scope_end (lb_scope b) b1"
    by (auto simp: rbind_Inr_iff)
  with 2 wl_run_peak_mono(2) show ?case
    by (auto simp: lb_scope_end_def lb_scope_def intro: order.trans)
next
  case (3 b)
  then show ?case by simp
next
  case (4 x xs b)
  then show ?case by (auto simp: rbind_Inr_iff)
qed

lemma wl_scope_cursor_mono:
  "wl_run x b = Inr b' \<Longrightarrow> ws_ok g x \<Longrightarrow> lb_cursor b \<le> lb_cursor b'"
  "wl_runs xs b = Inr b' \<Longrightarrow> list_all (ws_ok g) xs \<Longrightarrow> lb_cursor b \<le> lb_cursor b'"
proof (induction x b and xs b arbitrary: b' and b' rule: wl_run_wl_runs.induct)
  case (1 n al b)
  then obtain span where w: "wl_alloc_bytes n al b = Inr (span, b')" and n: "n \<noteq> 0"
    by (auto simp: rbind_Inr_iff)
  then obtain c where "align_up (lb_cursor b) al = Inr c" "checked_add c n = Inr (lb_cursor b')"
    by (rule wl_alloc_bytes_Inr)
  then have "unat (lb_cursor b) \<le> unat (lb_cursor b')"
    using align_up_Inr(2) checked_add_unat by fastforce
  then show ?case by (simp add: word_le_nat_alt)
next
  case (2 ops b)
  then show ?case by (auto simp: rbind_Inr_iff lb_scope_end_def lb_scope_def)
next
  case (3 b)
  then show ?case by simp
next
  case (4 x xs b)
  then show ?case by (auto simp: rbind_Inr_iff intro: order.trans)
qed

text \<open>
  The simulation: as long as the dry run stays below the capacity, the arena takes the same
  steps and ends at the offset and the peak the dry run computed.
\<close>

definition follows :: "layout_builder \<Rightarrow> device_arena \<Rightarrow> bool" where
  "follows b a \<longleftrightarrow> da_off a = lb_cursor b \<and> da_peak a = lb_peak b \<and> lb_cursor b \<le> lb_peak b"

lemma arena_run_follows:
  assumes "base \<noteq> 0" and "unat base + unat cap + 2 ^ 32 \<le> 2 ^ 64"
    and "g \<le> 2 ^ 32" "0 < g" "g dvd unat base"
  shows "wl_run x b = Inr b' \<Longrightarrow> ws_ok g x \<Longrightarrow> lb_peak b' \<le> cap \<Longrightarrow> follows b a \<Longrightarrow>
      da_base a = base \<Longrightarrow> da_cap a = cap \<Longrightarrow>
      \<exists>a'. arena_run x a = Inr a' \<and> follows b' a' \<and> da_base a' = base \<and> da_cap a' = cap"
    and "wl_runs xs b = Inr b' \<Longrightarrow> list_all (ws_ok g) xs \<Longrightarrow> lb_peak b' \<le> cap \<Longrightarrow> follows b a \<Longrightarrow>
      da_base a = base \<Longrightarrow> da_cap a = cap \<Longrightarrow>
      \<exists>a'. arena_runs xs a = Inr a' \<and> follows b' a' \<and> da_base a' = base \<and> da_cap a' = cap"
proof (induction x b and xs b arbitrary: b' a and b' a rule: wl_run_wl_runs.induct)
  case (1 n al b)
  then obtain span where w: "wl_alloc_bytes n al b = Inr (span, b')" and n: "n \<noteq> 0"
    and al: "unat al dvd g" by (auto simp: rbind_Inr_iff)
  obtain c where adv: "b' = lb_advance (lb_cursor b') b"
    using w n by (rule wl_alloc_bytes_Inr)
  have le: "lb_cursor b' \<le> lb_peak b'" "lb_peak b \<le> lb_peak b'"
    using wl_cursor_le_peak(1) [OF "1.prems"(1)] wl_run_peak_mono(1) [OF "1.prems"(1)] "1.prems"(4)
    by (simp_all add: follows_def)
  have "\<exists>span'. arena_alloc_bytes n al a = Inr (span', a\<lparr>da_off := lb_cursor b',
      da_peak := (if lb_cursor b' > da_peak a then lb_cursor b' else da_peak a)\<rparr>)"
  proof (rule arena_alloc_follows [OF w n])
    show "unat al dvd unat (da_base a)" using al assms(5) "1.prems" by (auto intro: dvd_trans)
    show "unat al \<le> 2 ^ 32" using al assms(3,4) by (auto dest: dvd_imp_le)
  qed (use "1.prems" assms le in \<open>auto simp: follows_def\<close>)
  then obtain span' where "arena_alloc_bytes n al a = Inr (span', a\<lparr>da_off := lb_cursor b',
      da_peak := (if lb_cursor b' > da_peak a then lb_cursor b' else da_peak a)\<rparr>)" ..
  moreover have "lb_peak b' = (if lb_cursor b' > lb_peak b then lb_cursor b' else lb_peak b)"
    by (subst (1) adv) (simp add: lb_advance_def)
  ultimately show ?case using "1.prems"(4-6) le(1) by (auto simp: follows_def)
next
  case (2 ops b)
  then obtain b1 where b1: "wl_runs ops b = Inr b1" and b': "b' = b1\<lparr>lb_cursor := lb_cursor b\<rparr>"
    by (auto simp: rbind_Inr_iff lb_scope_end_def lb_scope_def)
  have "lb_peak b1 \<le> cap" "list_all (ws_ok g) ops" using "2.prems" b' by simp_all
  with "2.IH" [OF b1] "2.prems" obtain a1 where a1: "arena_runs ops a = Inr a1" "follows b1 a1"
    "da_base a1 = base" "da_cap a1 = cap" by blast
  have "lb_cursor b \<le> lb_cursor b1"
    using wl_scope_cursor_mono(2) [OF b1] "2.prems"(2) by simp
  moreover have "lb_cursor b \<le> lb_peak b1"
    using wl_run_peak_mono(2) [OF b1] "2.prems"(4) by (auto simp: follows_def)
  ultimately show ?case
    using a1 "2.prems"(4) b' by (auto simp: arena_scope_end_def follows_def)
next
  case (3 b)
  then show ?case by simp
next
  case (4 x xs b)
  then obtain b1 where b1: "wl_run x b = Inr b1" and rest: "wl_runs xs b1 = Inr b'"
    by (auto simp: rbind_Inr_iff)
  have "lb_peak b1 \<le> cap" using wl_run_peak_mono(2) [OF rest] "4.prems"(3) by simp
  with "4.IH"(1) [OF b1] "4.prems" obtain a1 where a1: "arena_run x a = Inr a1" "follows b1 a1"
    "da_base a1 = base" "da_cap a1 = cap" by auto
  with "4.IH"(2) [OF b1 rest] "4.prems" show ?case by auto
qed

section \<open>Properties\<close>

text \<open>
  \<open>align_up\<close> computes with a bit mask the least multiple of the alignment that is not
  smaller than its argument; it throws \<open>invalid_argument\<close> exactly for an alignment that is not a
  power of two and \<open>overflow_error\<close> exactly when adding the mask exceeds \<open>size_t\<close>.
\<close>

theorem align_up_correct:
  "(case align_up v a of
      Inr r \<Rightarrow> unat r mod unat a = 0 \<and> unat v \<le> unat r \<and> unat r < unat v + unat a
    | Inl e \<Rightarrow> if is_power_of_two a then e = OverflowError \<and> 2 ^ 64 < unat v + unat a
               else e = InvalidArgument)"
proof (cases "align_up v a")
  case (Inl e)
  show ?thesis
  proof (cases "is_power_of_two a")
    case True
    with Inl have "e = OverflowError"
      by (auto simp: align_up_def Let_def rbind_Inl_iff checked_add_def split: if_splits)
    moreover have "\<not> unat v + unat a \<le> 2 ^ 64" using align_up_succeeds [OF True, of v] Inl by auto
    ultimately show ?thesis using Inl True by simp
  next
    case False
    with Inl show ?thesis by (simp add: align_up_def)
  qed
next
  case (Inr r)
  with align_up_Inr [OF Inr] show ?thesis by simp
qed

text \<open>
  The regions a \<open>LayoutBuilder\<close> hands out outside of scopes lie one after the other without overlap, each
  at a multiple of its alignment and below the total that \<open>finish\<close> reports, and every one of
  them binds, at its own offset, to a backing allocation of that size with a suitable base.
\<close>

theorem layout_regions_bind:
  assumes "lb_add_all reqs lb_empty = Inr (rs, b)" and "lb_finish al b = Inr sz"
    and "ds_bytes backing = sz" and "ds_data backing \<noteq> 0"
    and "unat (ds_data backing) + unat sz < 2 ^ 64"
    and "\<forall>(n, a)\<in>set reqs. unat (ds_data backing) mod unat a = 0"
  shows "map lr_bytes rs = map fst reqs \<and>
    sorted_wrt (\<lambda>r s. unat (lr_offset r) + unat (lr_bytes r) \<le> unat (lr_offset s)) rs \<and>
    (\<forall>r\<in>set rs. unat (lr_offset r) mod unat (lr_alignment r) = 0 \<and>
       unat (lr_offset r) + unat (lr_bytes r) \<le> unat sz \<and>
       region_bind r backing =
         Inr \<lparr>ds_data = ds_data backing + lr_offset r, ds_bytes = lr_bytes r\<rparr>)"
proof -
  have "lb_cursor lb_empty \<le> lb_peak lb_empty" by (simp add: lb_empty_def)
  note all = lb_add_all_Inr [OF assms(1) this]
  have tot: "unat (lb_peak b) \<le> unat sz"
    using assms(2) by (auto simp: lb_finish_def dest: align_up_Inr(2))
  have req: "(lr_bytes r, lr_alignment r) \<in> set reqs" if "r \<in> set rs" for r
    using all that by (metis (no_types, lifting) image_eqI list.set_map)
  have "map lr_bytes rs = map fst reqs"
    using all by (metis (no_types, lifting) comp_apply fst_conv list.map_comp map_eq_conv)
  moreover have "unat (lr_offset r) + unat (lr_bytes r) \<le> unat sz" if "r \<in> set rs" for r
    using all that tot by fastforce
  moreover have "region_bind r backing =
      Inr \<lparr>ds_data = ds_data backing + lr_offset r, ds_bytes = lr_bytes r\<rparr>" if "r \<in> set rs" for r
    using all that assms(3-6) req [OF that] tot by (intro region_bind_succeeds) fastforce+
  ultimately show ?thesis using all by blast
qed

theorem layout_regions_bind_witness:
  "region_bind \<lparr>lr_offset = 256, lr_bytes = 100, lr_alignment = 256\<rparr>
     \<lparr>ds_data = 4096, ds_bytes = 512\<rparr> = Inr \<lparr>ds_data = 4352, ds_bytes = 100\<rparr>"
proof -
  let ?rs = "[\<lparr>lr_offset = 0, lr_bytes = 10, lr_alignment = 16\<rparr>,
              \<lparr>lr_offset = 256, lr_bytes = 100, lr_alignment = 256\<rparr>]"
  let ?b = "\<lparr>lb_cursor = 356, lb_peak = 356\<rparr>" and ?s = "\<lparr>ds_data = 4096, ds_bytes = 512\<rparr>"
  have "lb_add_all [(10, 16), (100, 256)] lb_empty = Inr (?rs, ?b)"
    by (simp add: lb_add_def lb_empty_def align_up_def is_power_of_two_def checked_add_def lb_advance_def Let_def)
  moreover have "lb_finish 256 ?b = Inr 512"
    by (simp add: lb_finish_def align_up_def is_power_of_two_def checked_add_def Let_def)
  ultimately show ?thesis using layout_regions_bind [of "[(10, 16), (100, 256)]" ?rs ?b 256 512 ?s]
    by simp
qed

text \<open>
  C37. The dry run is sound for the real arena: a client with nested scopes, whose requests are not
  empty and have alignments that divide \<open>g\<close>, and whose dry-run peak fits the capacity, never fails in a
  \<open>DeviceArena\<close> whose base is a multiple of \<open>g\<close> and that ends well before the end of the address space,
  and leaves it at the offset and the peak the dry run computed.
\<close>

theorem dry_run_covers_arena:
  assumes "wl_runs ops lb_empty = Inr b" and "list_all (ws_ok g) ops" and "lb_peak b \<le> ds_bytes storage"
    and "arena_over storage = Inr a" and "g dvd unat (ds_data storage)" and "0 < g" and "g \<le> 2 ^ 32"
    and "unat (ds_data storage) + unat (ds_bytes storage) + 2 ^ 32 \<le> 2 ^ 64"
  shows "\<exists>a'. arena_runs ops a = Inr a' \<and> da_off a' = lb_cursor b \<and> da_peak a' = lb_peak b"
proof -
  have a: "ds_data storage \<noteq> 0" "da_base a = ds_data storage" "da_cap a = ds_bytes storage"
    "follows lb_empty a"
    using assms(4) by (auto simp: arena_over_def follows_def lb_empty_def split: if_splits)
  from arena_run_follows(2) [OF a(1) assms(8,7,6,5) assms(1-3) a(4,2,3)]
  show ?thesis by (auto simp: follows_def)
qed

theorem dry_run_covers_arena_witness:
  "\<exists>a'. arena_runs [WAlloc 100 64, WScope [WAlloc 500 256], WAlloc 8 8]
          \<lparr>da_base = 65536, da_cap = 1024, da_off = 0, da_peak = 0\<rparr> = Inr a' \<and>
        da_off a' = 112 \<and> da_peak a' = 756"
proof -
  let ?ops = "[WAlloc 100 64, WScope [WAlloc 500 256], WAlloc 8 8]"
  let ?s = "\<lparr>ds_data = 65536, ds_bytes = 1024\<rparr>"
  have "wl_runs ?ops lb_empty = Inr \<lparr>lb_cursor = 112, lb_peak = 756\<rparr>"
    by (simp add: wl_alloc_bytes_def lb_empty_def align_up_def is_power_of_two_def checked_add_def
        lb_advance_def lb_scope_def lb_scope_end_def Let_def)
  moreover have "list_all (ws_ok 256) ?ops" by simp
  moreover have "arena_over ?s = Inr \<lparr>da_base = 65536, da_cap = 1024, da_off = 0, da_peak = 0\<rparr>"
    by (simp add: arena_over_def)
  ultimately show ?thesis
    using dry_run_covers_arena [of ?ops "\<lparr>lb_cursor = 112, lb_peak = 756\<rparr>" 256 ?s] by simp
qed

text \<open>
  The dry run and the arena disagree on an empty request: the dry run accepts it and leaves
  its cursor alone, the arena throws \<open>invalid_argument\<close> for every alignment it accepts.
\<close>

theorem empty_request_diverges:
  assumes "da_base a \<noteq> 0"
  shows "wl_alloc_bytes 0 align b = Inr (\<lparr>ds_data = 0, ds_bytes = 0\<rparr>, b) \<and>
    arena_alloc_bytes 0 align a = Inl InvalidArgument"
  using assms by (simp add: wl_alloc_bytes_def arena_alloc_bytes_def)

theorem empty_request_diverges_witness:
  "arena_alloc_bytes 0 256 \<lparr>da_base = 4096, da_cap = 1024, da_off = 0, da_peak = 0\<rparr> =
     Inl InvalidArgument"
  using empty_request_diverges [of "\<lparr>da_base = 4096, da_cap = 1024, da_off = 0, da_peak = 0\<rparr>" 256]
  by simp

end
