(* ===== verification/PagePool.thy ===== *)
theory PagePool
  imports Extents Layout "HOL-Library.Multiset"
begin

text \<open>
  The device page pool: \<open>DeviceKVPagePool\<close> of \<open>src/core/paged_kv_cache.h\<close> and
  \<open>paged_kv_cache.cpp\<close>, with its page leases and reservations.

  The pool hands out fixed-size page groups. A reservation is capacity without page numbers;
  \<open>materialize\<close> turns reserved capacity into leases on concrete pages, \<open>dematerialize\<close> turns
  leases back. A lease names a page and the generation the page had when it was leased;
  releasing the page advances the generation, so that stale handles are recognised.

  C++ object identity (\<open>this\<close>, \<open>owner_\<close>) is a number, \<open>None\<close> for the null owner. Leases and
  reservations are move-only in the source; here they are values, and \<open>pool_sys\<close> below owns
  all that are alive. Page numbers are \<open>int32_t\<close> in handles (the empty lease has -1) and natural
  numbers in the free list. Counters are \<open>uint32_t\<close> with the wrap-around written out.
\<close>

section \<open>Geometry\<close>

datatype plane_order = PageMajor | HeadMajor

record plane_geometry =
  pg_dtype :: dtype
  pg_leading_extent :: int
  pg_head_extent :: int
  pg_alignment :: u64

record page_geometry =
  gm_page_tokens :: nat
  gm_plane_order :: plane_order
  gm_planes :: "plane_geometry list"

record pool_spec =
  ps_page_group_count :: nat
  ps_geometry :: page_geometry

record plane_layout =
  pl_geometry :: plane_geometry
  pl_storage :: tensor_region

record pool_layout =
  lay_spec :: pool_spec
  lay_planes :: "plane_layout list"

definition kPagedKVPageSize :: int where
  "kPagedKVPageSize = 64"

definition checked_i32 :: "nat \<Rightarrow> int res" where
  "checked_i32 value = (if value = 0 \<or> value > int32_max then Inl InvalidArgument else Inr (int value))"

definition validate_geometry :: "page_geometry \<Rightarrow> unit res" where
  "validate_geometry g =
     (if int (gm_page_tokens g) \<noteq> kPagedKVPageSize then Inl InvalidArgument
      else if gm_planes g = [] then Inl InvalidArgument
      else rcheck (\<lambda>plane. if pg_leading_extent plane \<le> 0 \<or> pg_head_extent plane \<le> 0
                            then Inl InvalidArgument else Inr ()) (gm_planes g))"

definition plane_shape :: "plane_order \<Rightarrow> plane_geometry \<Rightarrow> int \<Rightarrow> int list" where
  "plane_shape order plane physical_pages =
     (case order of
        PageMajor \<Rightarrow> [pg_leading_extent plane, kPagedKVPageSize, pg_head_extent plane, physical_pages]
      | HeadMajor \<Rightarrow> [pg_leading_extent plane, kPagedKVPageSize, physical_pages, pg_head_extent plane])"

fun plan_planes ::
  "plane_order \<Rightarrow> int \<Rightarrow> plane_geometry list \<Rightarrow> layout_builder \<Rightarrow> (plane_layout list \<times> layout_builder) res"
where
  "plan_planes order physical_pages [] b = Inr ([], b)"
| "plan_planes order physical_pages (plane # planes) b =
     rbind (lb_add_tensor (pg_dtype plane) (plane_shape order plane physical_pages) (pg_alignment plane) b)
       (\<lambda>(region, b').
     rbind (plan_planes order physical_pages planes b') (\<lambda>(rest, b'').
       Inr (\<lparr>pl_geometry = plane, pl_storage = region\<rparr> # rest, b'')))"

definition plan_device_kv_page_pool ::
  "layout_builder \<Rightarrow> pool_spec \<Rightarrow> (pool_layout \<times> layout_builder) res" where
  "plan_device_kv_page_pool b spec =
     rbind (checked_i32 (ps_page_group_count spec)) (\<lambda>physical_pages.
     rbind (validate_geometry (ps_geometry spec)) (\<lambda>_.
     rbind (plan_planes (gm_plane_order (ps_geometry spec)) physical_pages
              (gm_planes (ps_geometry spec)) b) (\<lambda>(planes, b').
       Inr (\<lparr>lay_spec = spec, lay_planes = planes\<rparr>, b'))))"

definition payload_bytes :: "pool_layout \<Rightarrow> u64" where
  "payload_bytes l = sum_list (map (\<lambda>p. lr_bytes (tr_region (pl_storage p))) (lay_planes l))"

section \<open>Handles, leases, reservations\<close>

record page_handle =
  ph_owner :: "nat option"
  ph_index :: int
  ph_generation :: u32

record page_lease =
  ls_owner :: "nat option"
  ls_index :: int
  ls_generation :: u32

record reservation =
  rv_owner :: "nat option"
  rv_pages :: nat

definition null_handle :: page_handle where
  "null_handle = \<lparr>ph_owner = None, ph_index = -1, ph_generation = 0\<rparr>"

definition empty_lease :: page_lease where
  "empty_lease = \<lparr>ls_owner = None, ls_index = -1, ls_generation = 0\<rparr>"

definition lease_handle :: "page_lease \<Rightarrow> page_handle" where
  "lease_handle l =
     (if ls_owner l \<noteq> None
      then \<lparr>ph_owner = ls_owner l, ph_index = ls_index l, ph_generation = ls_generation l\<rparr>
      else null_handle)"

text \<open>Move construction: the new lease and what is left of the old one.\<close>

definition lease_move :: "page_lease \<Rightarrow> page_lease \<times> page_lease" where
  "lease_move other = (other, empty_lease)"

definition reservation_move :: "reservation \<Rightarrow> reservation \<times> reservation" where
  "reservation_move other = (other, \<lparr>rv_owner = None, rv_pages = 0\<rparr>)"

section \<open>The pool\<close>

record page_pool =
  pp_id :: nat
  pp_spec :: pool_spec
  pp_planes :: "tensor list"
  pp_runs :: "run list"
  pp_generations :: "u32 list"
  pp_allocated :: "bool list"
  pp_marks :: "u32 list"
  pp_stamp :: u32
  pp_allocated_pages :: nat
  pp_reserved_pages :: nat

definition capacity_pages :: "page_pool \<Rightarrow> nat" where
  "capacity_pages p = ps_page_group_count (pp_spec p)"

definition available_pages :: "page_pool \<Rightarrow> nat" where
  "available_pages p = u32_sub (u32_sub (capacity_pages p) (pp_allocated_pages p)) (pp_reserved_pages p)"

text \<open>The constructor: bind every plane and check it against the geometry.\<close>

definition bind_plane :: "pool_spec \<Rightarrow> int \<Rightarrow> device_span \<Rightarrow> plane_layout \<Rightarrow> plane_geometry \<Rightarrow> tensor res" where
  "bind_plane spec physical_pages backing planned expected =
     (if pl_geometry planned \<noteq> expected then Inl LogicError
      else rbind (tensor_region_bind (pl_storage planned) backing) (\<lambda>plane.
        if t_dtype plane \<noteq> pg_dtype expected \<or> t_ne plane ! 0 \<noteq> pg_leading_extent expected \<or>
           t_ne plane ! 1 \<noteq> kPagedKVPageSize then Inl LogicError
        else if gm_plane_order (ps_geometry spec) = PageMajor
          then (if t_ne plane ! 2 \<noteq> pg_head_extent expected \<or> t_ne plane ! 3 \<noteq> physical_pages
                then Inl LogicError else Inr plane)
        else if t_ne plane ! 2 \<noteq> physical_pages \<or> t_ne plane ! 3 \<noteq> pg_head_extent expected
          then Inl LogicError else Inr plane))"

fun bind_planes ::
  "pool_spec \<Rightarrow> int \<Rightarrow> device_span \<Rightarrow> (plane_layout \<times> plane_geometry) list \<Rightarrow> tensor list res" where
  "bind_planes spec physical_pages backing [] = Inr []"
| "bind_planes spec physical_pages backing ((planned, expected) # rest) =
     rbind (bind_plane spec physical_pages backing planned expected) (\<lambda>plane.
     rbind (bind_planes spec physical_pages backing rest) (\<lambda>planes. Inr (plane # planes)))"

definition make_pool :: "nat \<Rightarrow> device_span \<Rightarrow> pool_layout \<Rightarrow> page_pool res" where
  "make_pool this backing layout =
     (let spec = lay_spec layout; n = ps_page_group_count spec in
      rbind (validate_geometry (ps_geometry spec)) (\<lambda>_.
      if length (lay_planes layout) \<noteq> length (gm_planes (ps_geometry spec)) \<or> lay_planes layout = []
      then Inl InvalidArgument
      else rbind (checked_i32 n) (\<lambda>physical_pages.
           rbind (bind_planes spec physical_pages backing
                    (zip (lay_planes layout) (gm_planes (ps_geometry spec)))) (\<lambda>planes.
             Inr \<lparr>pp_id = this, pp_spec = spec, pp_planes = planes,
                  pp_runs = [\<lparr>r_begin = 0, r_count = n\<rparr>],
                  pp_generations = replicate n 1, pp_allocated = replicate n False,
                  pp_marks = replicate n 0, pp_stamp = 0,
                  pp_allocated_pages = 0, pp_reserved_pages = 0\<rparr>))))"

subsection \<open>Handles\<close>

definition pool_valid_handle :: "page_pool \<Rightarrow> page_handle \<Rightarrow> bool" where
  "pool_valid_handle p h =
     (if ph_owner h \<noteq> Some (pp_id p) \<or> ph_index h < 0 \<or> ph_index h \<ge> int (capacity_pages p) then False
      else let i = nat (ph_index h)
           in pp_allocated p ! i \<and> pp_generations p ! i = ph_generation h)"

definition physical_index :: "page_pool \<Rightarrow> page_handle \<Rightarrow> int res" where
  "physical_index p h = (if \<not> pool_valid_handle p h then Inl InvalidArgument else Inr (ph_index h))"

fun run_count_loop :: "page_pool \<Rightarrow> nat \<Rightarrow> int \<Rightarrow> page_handle list \<Rightarrow> nat res" where
  "run_count_loop p runs previous [] = Inr runs"
| "run_count_loop p runs previous (page # pages) =
     rbind (physical_index p page) (\<lambda>current.
       run_count_loop p (if runs = 0 \<or> current \<noteq> previous + 1 then u32_add runs 1 else runs) current pages)"

definition contiguous_run_count :: "page_pool \<Rightarrow> page_handle list \<Rightarrow> nat res" where
  "contiguous_run_count p pages = (if pages = [] then Inr 0 else run_count_loop p 0 (-2) pages)"

text \<open>The stamped scan for duplicates: the marks survive the call, the stamp tells them apart.\<close>

fun mark_pages :: "page_handle list \<Rightarrow> page_pool \<Rightarrow> page_pool res" where
  "mark_pages [] p = Inr p"
| "mark_pages (page # pages) p =
     rbind (physical_index p page) (\<lambda>i.
       if pp_marks p ! nat i = pp_stamp p then Inl InvalidArgument
       else mark_pages pages (p\<lparr>pp_marks := (pp_marks p)[nat i := pp_stamp p]\<rparr>))"

definition validate_distinct_pages :: "page_handle list \<Rightarrow> page_pool \<Rightarrow> page_pool res" where
  "validate_distinct_pages pages p =
     (let stamp = pp_stamp p + 1;
          p' = (if stamp = 0 then p\<lparr>pp_marks := map (\<lambda>_. 0) (pp_marks p), pp_stamp := 1\<rparr>
                else p\<lparr>pp_stamp := stamp\<rparr>)
      in mark_pages pages p')"

subsection \<open>The free list\<close>

definition consume_free_run :: "nat \<Rightarrow> nat \<Rightarrow> nat \<Rightarrow> run list \<Rightarrow> run list res" where
  "consume_free_run run_index b n rs =
     (if run_index \<ge> length rs \<or> n = 0 then Inl Terminate
      else let r = rs ! run_index; run_end = r_begin r + r_count r; consumed_end = b + n in
        if b < r_begin r \<or> consumed_end > run_end then Inl Terminate
        else if b = r_begin r \<and> consumed_end = run_end
          then Inr (take run_index rs @ drop (Suc run_index) rs)
        else if b = r_begin r
          then Inr (rs[run_index := \<lparr>r_begin = r_begin r + n, r_count = r_count r - n\<rparr>])
        else if consumed_end = run_end
          then Inr (rs[run_index := \<lparr>r_begin = r_begin r, r_count = b - r_begin r\<rparr>])
        else Inr (take run_index rs @
               [\<lparr>r_begin = r_begin r, r_count = b - r_begin r\<rparr>,
                \<lparr>r_begin = consumed_end, r_count = run_end - consumed_end\<rparr>] @
               drop (Suc run_index) rs))"

definition release_free_page :: "nat \<Rightarrow> run list \<Rightarrow> run list" where
  "release_free_page i rs =
     (let left = before i rs; right = from_on i rs;
          joins_right = (right \<noteq> [] \<and> i + 1 = r_begin (hd right));
          joins_left = (left \<noteq> [] \<and> r_begin (last left) + r_count (last left) = i)
      in if joins_left \<and> joins_right
         then butlast left @
                \<lparr>r_begin = r_begin (last left),
                 r_count = r_count (last left) + (1 + r_count (hd right))\<rparr> # tl right
         else if joins_left
         then butlast left @ \<lparr>r_begin = r_begin (last left), r_count = r_count (last left) + 1\<rparr> # right
         else if joins_right
         then left @ \<lparr>r_begin = i, r_count = r_count (hd right) + 1\<rparr> # tl right
         else left @ \<lparr>r_begin = i, r_count = 1\<rparr> # right)"

definition release_page :: "int \<Rightarrow> u32 \<Rightarrow> page_pool \<Rightarrow> page_pool" where
  "release_page i generation p =
     (if i < 0 \<or> i \<ge> int (capacity_pages p) then p
      else let k = nat i in
        if \<not> pp_allocated p ! k \<or> pp_generations p ! k \<noteq> generation then p
        else p\<lparr>pp_allocated := (pp_allocated p)[k := False],
               pp_generations := (pp_generations p)[k := increment_generation (pp_generations p ! k)],
               pp_runs := release_free_page k (pp_runs p),
               pp_allocated_pages := u32_sub (pp_allocated_pages p) 1\<rparr>)"

text \<open>
  \<open>DeviceKVPageLease::release\<close>, also the destructor: the lease is disarmed in any case.
\<close>

definition lease_release :: "page_lease \<Rightarrow> page_pool \<Rightarrow> bool \<times> page_lease \<times> page_pool" where
  "lease_release l p =
     (if ls_owner l = None then (False, l, p)
      else if \<not> pool_valid_handle p (lease_handle l) then (False, empty_lease, p)
      else (True, empty_lease, release_page (ls_index l) (ls_generation l) p))"

text \<open>Move assignment: the target is released first, then takes over the other lease.\<close>

definition lease_move_assign ::
  "page_lease \<Rightarrow> page_lease \<Rightarrow> page_pool \<Rightarrow> page_lease \<times> page_lease \<times> page_pool" where
  "lease_move_assign target other p =
     (case lease_release target p of (r, t, p') \<Rightarrow> (other, empty_lease, p'))"

subsection \<open>Reservations\<close>

definition release_reservation :: "nat \<Rightarrow> page_pool \<Rightarrow> page_pool res" where
  "release_reservation pages p =
     (if pages > pp_reserved_pages p then Inl Terminate
      else Inr (p\<lparr>pp_reserved_pages := u32_sub (pp_reserved_pages p) pages\<rparr>))"

definition reservation_clear :: "reservation \<Rightarrow> page_pool \<Rightarrow> (reservation \<times> page_pool) res" where
  "reservation_clear rv p =
     (if rv_owner rv = None \<or> rv_pages rv = 0 then Inr (rv, p)
      else rbind (release_reservation (rv_pages rv) p) (\<lambda>p'. Inr (rv\<lparr>rv_pages := 0\<rparr>, p')))"

definition reservation_release :: "reservation \<Rightarrow> page_pool \<Rightarrow> (reservation \<times> page_pool) res" where
  "reservation_release rv p =
     (if rv_owner rv = None then Inr (rv, p)
      else rbind (release_reservation (rv_pages rv) p) (\<lambda>p'. Inr (\<lparr>rv_owner = None, rv_pages = 0\<rparr>, p')))"

definition pool_reserve :: "nat \<Rightarrow> page_pool \<Rightarrow> (reservation \<times> page_pool) option" where
  "pool_reserve pages p =
     (if pages = 0 \<or> pages > available_pages p then None
      else Some (\<lparr>rv_owner = Some (pp_id p), rv_pages = pages\<rparr>,
                 p\<lparr>pp_reserved_pages := u32_add (pp_reserved_pages p) pages\<rparr>))"

definition make_empty_reservation :: "page_pool \<Rightarrow> reservation" where
  "make_empty_reservation p = \<lparr>rv_owner = Some (pp_id p), rv_pages = 0\<rparr>"

definition can_resize_reservation :: "page_pool \<Rightarrow> reservation \<Rightarrow> nat \<Rightarrow> bool" where
  "can_resize_reservation p rv n =
     (if rv_owner rv \<noteq> Some (pp_id p) \<or> rv_pages rv > pp_reserved_pages p then False
      else pp_allocated_pages p + u32_sub (pp_reserved_pages p) (rv_pages rv) + n \<le> capacity_pages p)"

definition resize_reservation :: "reservation \<Rightarrow> nat \<Rightarrow> page_pool \<Rightarrow> (reservation \<times> page_pool) res" where
  "resize_reservation rv n p =
     (if \<not> can_resize_reservation p rv n then Inl BadAlloc
      else Inr (rv\<lparr>rv_pages := n\<rparr>,
                p\<lparr>pp_reserved_pages := u32_add (u32_sub (pp_reserved_pages p) (rv_pages rv)) n\<rparr>))"

subsection \<open>Materialization\<close>

definition append_page :: "nat \<Rightarrow> page_lease list \<times> page_pool \<Rightarrow> page_lease list \<times> page_pool" where
  "append_page page =
     (\<lambda>(dest, p). (dest @ [\<lparr>ls_owner = Some (pp_id p), ls_index = int page,
                             ls_generation = pp_generations p ! page\<rparr>],
                   p\<lparr>pp_allocated := (pp_allocated p)[page := True]\<rparr>))"

definition select_preferred :: "int option \<Rightarrow> nat \<Rightarrow> run list \<Rightarrow> (nat \<times> nat) option" where
  "select_preferred preferred n rs =
     (case preferred of
        None \<Rightarrow> None
      | Some q \<Rightarrow>
          if q < 0 then None
          else let upper = length (takeWhile (\<lambda>r. \<not> q < int (r_begin r)) rs) in
            if upper = 0 then None
            else let c = rs ! (upper - 1) in
              if q \<ge> int (r_begin c) \<and> nat q + n \<le> r_begin c + r_count c
              then Some (upper - 1, nat q) else None)"

definition select_first_fit :: "nat \<Rightarrow> run list \<Rightarrow> (nat \<times> nat) option" where
  "select_first_fit n rs =
     (let k = length (takeWhile (\<lambda>r. \<not> r_count r \<ge> n) rs)
      in if k = length rs then None else Some (k, r_begin (rs ! k)))"

text \<open>
  The scattered case: whole runs from the front, then the front part of the next one. Reading
  past the last run would be undefined; \<open>materialize_total\<close> shows that it does not happen.
\<close>

fun take_scattered :: "nat \<Rightarrow> run list \<Rightarrow> (nat list \<times> run list) res" where
  "take_scattered remaining rs =
     (if remaining = 0 then Inr ([], rs)
      else case rs of
          [] \<Rightarrow> Inl OutOfRange
        | r # rest \<Rightarrow>
            let n = min remaining (r_count r); pages = [r_begin r ..< r_begin r + n] in
            if n = r_count r
            then rbind (take_scattered (remaining - n) rest) (\<lambda>(more, rest'). Inr (pages @ more, rest'))
            else Inr (pages, \<lparr>r_begin = r_begin r + n, r_count = r_count r - n\<rparr> # rest))"

declare take_scattered.simps [simp del]

definition choose_pages :: "int option \<Rightarrow> nat \<Rightarrow> run list \<Rightarrow> (nat list \<times> run list) res" where
  "choose_pages preferred n rs =
     (case (case select_preferred preferred n rs of None \<Rightarrow> select_first_fit n rs | Some s \<Rightarrow> Some s) of
        Some (i, b) \<Rightarrow> rbind (consume_free_run i b n rs) (\<lambda>rs'. Inr ([b ..< b + n], rs'))
      | None \<Rightarrow> take_scattered n rs)"

text \<open>
  \<open>materialize\<close>: \<open>room\<close> is the capacity of the destination vector, which the method never grows.
\<close>

definition materialize ::
  "reservation \<Rightarrow> nat \<Rightarrow> page_lease list \<Rightarrow> nat \<Rightarrow> page_handle option \<Rightarrow> page_pool \<Rightarrow>
     (reservation \<times> page_lease list \<times> page_pool) res" where
  "materialize rv target dest room predecessor p =
     (if rv_owner rv \<noteq> Some (pp_id p) \<or> target < length dest then Inl InvalidArgument
      else let n = target - length dest in
      if n > rv_pages rv \<or> target > room then Inl InvalidArgument
      else rbind (rcheck (\<lambda>l. if ls_owner l \<noteq> Some (pp_id p) \<or> \<not> pool_valid_handle p (lease_handle l)
                               then Inl InvalidArgument else Inr ()) dest) (\<lambda>_.
      if n = 0 then Inr (rv, dest, p)
      else if n > u32_sub (capacity_pages p) (pp_allocated_pages p) then Inl LogicError
      else rbind (case predecessor of
                    Some h \<Rightarrow> rbind (physical_index p h) (\<lambda>i. Inr (Some (i + 1)))
                  | None \<Rightarrow> Inr (if dest \<noteq> [] then Some (ls_index (last dest) + 1) else None)) (\<lambda>preferred.
           rbind (choose_pages preferred n (pp_runs p)) (\<lambda>(pages, runs).
             case fold append_page pages (dest, p) of (dest', p') \<Rightarrow>
               Inr (rv\<lparr>rv_pages := u32_sub (rv_pages rv) n\<rparr>, dest',
                    p'\<lparr>pp_runs := runs,
                       pp_allocated_pages := u32_add (pp_allocated_pages p) n,
                       pp_reserved_pages := u32_sub (pp_reserved_pages p) n\<rparr>)))))"

definition materialize_one :: "reservation \<Rightarrow> page_pool \<Rightarrow> (page_lease \<times> reservation \<times> page_pool) res" where
  "materialize_one rv p =
     (if rv_owner rv \<noteq> Some (pp_id p) \<or> rv_pages rv = 0 then Inl InvalidArgument
      else case pp_runs p of
          [] \<Rightarrow> Inl LogicError
        | r # rest \<Rightarrow>
            let page = r_begin r; n = u32_sub (r_count r) 1 in
            Inr (\<lparr>ls_owner = Some (pp_id p), ls_index = int page, ls_generation = pp_generations p ! page\<rparr>,
                 rv\<lparr>rv_pages := u32_sub (rv_pages rv) 1\<rparr>,
                 p\<lparr>pp_runs := (if n = 0 then rest else \<lparr>r_begin = page + 1, r_count = n\<rparr> # rest),
                    pp_allocated := (pp_allocated p)[page := True],
                    pp_allocated_pages := u32_add (pp_allocated_pages p) 1,
                    pp_reserved_pages := u32_sub (pp_reserved_pages p) 1\<rparr>))"

text \<open>Shrinking a vector of leases destroys its tail in order.\<close>

definition destroy_leases :: "page_lease list \<Rightarrow> page_pool \<Rightarrow> page_pool" where
  "destroy_leases ls p = fold (\<lambda>l p. snd (snd (lease_release l p))) ls p"

definition dematerialize ::
  "reservation \<Rightarrow> nat \<Rightarrow> page_lease list \<Rightarrow> page_pool \<Rightarrow> (reservation \<times> page_lease list \<times> page_pool) res" where
  "dematerialize rv target src p =
     (if rv_owner rv \<noteq> Some (pp_id p) \<or> target > length src then Inl InvalidArgument
      else rbind (rcheck (\<lambda>l. if ls_owner l \<noteq> Some (pp_id p) \<or> \<not> pool_valid_handle p (lease_handle l)
                               then Inl InvalidArgument else Inr ()) src) (\<lambda>_.
      let released = length src - target in
      if released = 0 then Inr (rv, src, p)
      else if released > uint32_max - rv_pages rv then Inl OverflowError
      else let p' = destroy_leases (drop target src) p in
        Inr (rv\<lparr>rv_pages := u32_add (rv_pages rv) released\<rparr>, take target src,
             p'\<lparr>pp_reserved_pages := u32_add (pp_reserved_pages p') released\<rparr>)))"

definition dematerialize_one ::
  "reservation \<Rightarrow> page_lease \<Rightarrow> page_pool \<Rightarrow> (reservation \<times> page_lease \<times> page_pool) res" where
  "dematerialize_one rv page p =
     (if rv_owner rv \<noteq> Some (pp_id p) \<or> ls_owner page \<noteq> Some (pp_id p) \<or>
         \<not> pool_valid_handle p (lease_handle page) \<or> rv_pages rv = uint32_max then Inl InvalidArgument
      else case lease_release page p of (released, page', p') \<Rightarrow>
        if \<not> released then Inl LogicError
        else Inr (rv\<lparr>rv_pages := u32_add (rv_pages rv) 1\<rparr>, page',
                  p'\<lparr>pp_reserved_pages := u32_add (pp_reserved_pages p') 1\<rparr>))"


section \<open>The free list covers the pages that are not allocated\<close>

lemma consume_free_run_cut:
  assumes "i < length rs" and "0 < n" and "r_begin (rs ! i) \<le> b" and "b + n \<le> r_end (rs ! i)"
  shows "consume_free_run i b n rs = Inr (take i rs @ cut_run b n (rs ! i) @ drop (Suc i) rs)"
  using assms by (auto simp: consume_free_run_def cut_run_def r_end_def Let_def upd_conv_take_nth_drop)

lemma consume_free_run_ok:
  assumes "runs_ok cap rs" and "i < length rs" and "0 < n"
    and "r_begin (rs ! i) \<le> b" and "b + n \<le> r_end (rs ! i)"
  shows "\<exists>rs'. consume_free_run i b n rs = Inr rs' \<and> runs_ok cap rs' \<and>
           cover rs' = cover rs - {b ..< b + n} \<and> {b ..< b + n} \<subseteq> cover rs"
proof -
  have rs: "rs = take i rs @ rs ! i # drop (Suc i) rs" using assms(2) by (rule id_take_nth_drop)
  have "runs_ok cap (take i rs @ rs ! i # drop (Suc i) rs)" using assms(1) rs by simp
  note cut = runs_ok_cut [OF this assms(4,5,3)]
  have "{b ..< b + n} \<subseteq> run_set (rs ! i)" using assms(4,5) by (auto simp: run_set_def)
  moreover have "run_set (rs ! i) \<subseteq> cover rs" using nth_mem [OF assms(2)] by (auto simp: cover_def)
  ultimately show ?thesis using consume_free_run_cut [OF assms(2-5)] cut rs by auto
qed

lemma release_free_page_join:
  "release_free_page i rs =
     (case join_left (before i rs) \<lparr>r_begin = i, r_count = 1\<rparr> of
        (xs, e) \<Rightarrow> xs @ join_right e (from_on i rs))"
  by (cases "from_on i rs")
     (auto simp: release_free_page_def join_left_def join_right_def r_end_def Let_def)

lemma release_free_page_ok:
  assumes "runs_ok cap rs" and "i < cap" and "i \<notin> cover rs"
  shows "runs_ok cap (release_free_page i rs)" "cover (release_free_page i rs) = insert i (cover rs)"
proof -
  obtain xs e where j: "join_left (before i rs) \<lparr>r_begin = i, r_count = 1\<rparr> = (xs, e)" by fastforce
  have "runs_from 0 rs" using assms(1) by (simp add: runs_ok_def)
  moreover have "{i ..< i + 1} \<inter> cover rs = {}" using assms(3) by simp
  ultimately have s: "cover (before i rs) \<subseteq> {..<i}" "cover (from_on i rs) \<subseteq> {i + 1..}"
    using split_covers [of rs i 1] by auto
  have "runs_ok cap (before i rs @ from_on i rs)" using assms(1) by simp
  note r = join_runs_ok [OF this, of "\<lparr>r_begin = i, r_count = 1\<rparr>" xs e]
  show "runs_ok cap (release_free_page i rs)" "cover (release_free_page i rs) = insert i (cover rs)"
    using r j s assms(2) by (auto simp: release_free_page_join simp flip: cover_simps(3))
qed

lemma take_scattered_ok:
  assumes "runs_from lo rs" and "n \<le> sum_list (map r_count rs)"
  shows "\<exists>pages rs'. take_scattered n rs = Inr (pages, rs') \<and> length pages = n \<and> distinct pages \<and>
           set pages \<subseteq> cover rs \<and> cover rs' = cover rs - set pages \<and> runs_from lo rs' \<and>
           (\<forall>r'\<in>set rs'. \<exists>r\<in>set rs. r_end r' = r_end r)"
  using assms
proof (induction rs arbitrary: lo n)
  case Nil
  then show ?case by (simp add: take_scattered.simps)
next
  case (Cons r rs)
  have tail: "runs_from (Suc (r_end r)) rs" and r: "lo \<le> r_begin r" "0 < r_count r"
    using Cons.prems(1) by auto
  have disj: "run_set r \<inter> cover rs = {}" using runs_from_disjoint [of lo "[r]" rs] Cons.prems(1) by simp
  consider "n = 0" | "0 < n" "n < r_count r" | "0 < n" "r_count r \<le> n" by linarith
  then show ?case
  proof cases
    case 1
    then show ?thesis using Cons.prems(1) by (auto simp: take_scattered.simps)
  next
    case 2
    let ?r = "\<lparr>r_begin = r_begin r + n, r_count = r_count r - n\<rparr>"
    have "take_scattered n (r # rs) = Inr ([r_begin r ..< r_begin r + n], ?r # rs)"
      using 2 by (simp add: take_scattered.simps Let_def min_def)
    moreover have "set [r_begin r ..< r_begin r + n] \<subseteq> run_set r"
      "run_set ?r = run_set r - set [r_begin r ..< r_begin r + n]" "r_end ?r = r_end r"
      using 2 by (auto simp: run_set_def r_end_def)
    moreover have "runs_from lo (?r # rs)" using r tail 2 by (simp add: r_end_def)
    ultimately show ?thesis using disj
      by (intro exI [of _ "[r_begin r ..< r_begin r + n]"] exI [of _ "?r # rs"]) auto
  next
    case 3
    have "n - r_count r \<le> sum_list (map r_count rs)" using Cons.prems(2) by simp
    from Cons.IH [OF tail this] obtain pages rs' where IH:
      "take_scattered (n - r_count r) rs = Inr (pages, rs')" "length pages = n - r_count r"
      "distinct pages" "set pages \<subseteq> cover rs" "cover rs' = cover rs - set pages"
      "runs_from (Suc (r_end r)) rs'" "\<forall>r'\<in>set rs'. \<exists>r\<in>set rs. r_end r' = r_end r" by blast
    let ?p = "[r_begin r ..< r_begin r + r_count r]"
    have "take_scattered n (r # rs) = Inr (?p @ pages, rs')"
      using 3 IH(1) by (subst take_scattered.simps) (simp add: Let_def min_def)
    moreover have "set ?p = run_set r" by (auto simp: run_set_def r_end_def)
    moreover have "runs_from lo rs'" using IH(6) r by (auto intro: runs_from_mono simp: r_end_def)
    ultimately show ?thesis using disj IH 3 by (intro exI [of _ "?p @ pages"] exI [of _ rs']) auto
  qed
qed

lemma takeWhile_index:
  "k = length (takeWhile P xs) \<Longrightarrow> k < length xs \<Longrightarrow> \<not> P (xs ! k)"
  using nth_length_takeWhile by blast

lemma select_preferred_run:
  assumes "select_preferred q n rs = Some (i, b)"
  shows "i < length rs" "r_begin (rs ! i) \<le> b" "b + n \<le> r_end (rs ! i)" "q = Some (int b)"
proof -
  from assms obtain k where k: "q = Some k" "0 \<le> k" "nat k = b"
    "i = length (takeWhile (\<lambda>r. \<not> k < int (r_begin r)) rs) - 1"
    "0 < length (takeWhile (\<lambda>r. \<not> k < int (r_begin r)) rs)"
    "int (r_begin (rs ! i)) \<le> k" "nat k + n \<le> r_begin (rs ! i) + r_count (rs ! i)"
    by (auto simp: select_preferred_def Let_def split: option.splits if_splits)
  then show "i < length rs" "r_begin (rs ! i) \<le> b" "b + n \<le> r_end (rs ! i)" "q = Some (int b)"
    using length_takeWhile_le [of "\<lambda>r. \<not> k < int (r_begin r)" rs] by (auto simp: r_end_def simp del: length_greater_0_conv)
qed

lemma select_first_fit_run:
  assumes "select_first_fit n rs = Some (i, b)"
  shows "i < length rs" "r_begin (rs ! i) = b" "b + n \<le> r_end (rs ! i)"
proof -
  let ?k = "length (takeWhile (\<lambda>r. \<not> r_count r \<ge> n) rs)"
  from assms have i: "i = ?k" "?k \<noteq> length rs" "b = r_begin (rs ! i)"
    by (auto simp: select_first_fit_def Let_def split: if_splits)
  then show "i < length rs" using length_takeWhile_le [of "\<lambda>r. \<not> r_count r \<ge> n" rs] by simp
  with i takeWhile_index [of ?k _ rs] show "r_begin (rs ! i) = b" "b + n \<le> r_end (rs ! i)"
    by (auto simp: r_end_def)
qed

lemma choose_pages_ok:
  assumes "runs_ok cap rs" and "0 < n" and "n \<le> card (cover rs)"
  shows "\<exists>pages rs'. choose_pages q n rs = Inr (pages, rs') \<and> length pages = n \<and> distinct pages \<and>
           set pages \<subseteq> cover rs \<and> runs_ok cap rs' \<and> cover rs' = cover rs - set pages"
proof (cases "case select_preferred q n rs of None \<Rightarrow> select_first_fit n rs | Some s \<Rightarrow> Some s")
  case None
  have "runs_from 0 rs" using assms(1) by (simp add: runs_ok_def)
  from take_scattered_ok [OF this, of n] card_cover [OF this] assms(3)
  obtain pages rs' where t: "take_scattered n rs = Inr (pages, rs')" "length pages = n" "distinct pages"
    "set pages \<subseteq> cover rs" "cover rs' = cover rs - set pages" "runs_from 0 rs'"
    "\<forall>r'\<in>set rs'. \<exists>r\<in>set rs. r_end r' = r_end r" by auto
  then have "runs_ok cap rs'" using assms(1) unfolding runs_ok_def by metis
  with t None show ?thesis by (simp add: choose_pages_def)
next
  case (Some s)
  obtain i b where s: "s = (i, b)" by fastforce
  have "i < length rs \<and> r_begin (rs ! i) \<le> b \<and> b + n \<le> r_end (rs ! i)"
    using Some s select_preferred_run [of q n rs i b] select_first_fit_run [of n rs i b]
    by (auto split: option.splits)
  with consume_free_run_ok [OF assms(1) _ assms(2)] obtain rs' where
    "consume_free_run i b n rs = Inr rs'" "runs_ok cap rs'" "cover rs' = cover rs - {b ..< b + n}"
    "{b ..< b + n} \<subseteq> cover rs" by blast
  with Some s show ?thesis by (auto simp: choose_pages_def)
qed

text \<open>A sufficient run is used whole, and the pages after the predecessor come first.\<close>

lemma choose_pages_contiguous:
  assumes "runs_ok cap rs" and "0 < n" and "{b ..< b + n} \<subseteq> cover rs"
  shows "\<exists>c rs'. choose_pages q n rs = Inr ([c ..< c + n], rs')"
proof -
  have "runs_from 0 rs" using assms(1) by (simp add: runs_ok_def)
  from interval_in_one_run [OF this assms(3,2)] obtain r where r: "r \<in> set rs" "{b ..< b + n} \<subseteq> run_set r"
    by blast
  then have "n \<le> r_count r" using card_mono [of "run_set r" "{b ..< b + n}"] by (simp add: run_set_def r_end_def)
  then have "length (takeWhile (\<lambda>r. \<not> r_count r \<ge> n) rs) \<noteq> length rs"
    using r(1) by (metis takeWhile_eq_all_conv takeWhile_eq_take take_all_iff order.refl)
  then obtain s where "(case select_preferred q n rs of None \<Rightarrow> select_first_fit n rs | Some s \<Rightarrow> Some s) = Some s"
    by (cases "select_preferred q n rs") (auto simp: select_first_fit_def Let_def)
  moreover obtain i c where s: "s = (i, c)" by fastforce
  ultimately have "i < length rs \<and> r_begin (rs ! i) \<le> c \<and> c + n \<le> r_end (rs ! i)" and
    e: "(case select_preferred q n rs of None \<Rightarrow> select_first_fit n rs | Some s \<Rightarrow> Some s) = Some (i, c)"
    using select_preferred_run [of q n rs i c] select_first_fit_run [of n rs i c]
    by (auto split: option.splits)
  with consume_free_run_cut [of i rs n c] assms(2) show ?thesis by (auto simp: choose_pages_def)
qed

lemma upper_bound_run:
  assumes "runs_from lo rs" and "r \<in> set rs" and "x \<in> run_set r"
  shows "0 < length (takeWhile (\<lambda>s. r_begin s \<le> x) rs)"
    and "rs ! (length (takeWhile (\<lambda>s. r_begin s \<le> x) rs) - 1) = r"
proof -
  from assms(2) obtain xs ys where rs: "rs = xs @ r # ys" by (meson split_list)
  have x: "r_begin r \<le> x" "x < r_end r" using assms(3) by (simp_all add: run_set_def)
  have "\<forall>s\<in>set xs. r_begin s \<le> x"
  proof
    fix s assume s: "s \<in> set xs"
    then obtain us vs where xs: "xs = us @ s # vs" by (meson split_list)
    with assms(1) rs have "runs_from (last_end lo us) (s # vs @ r # ys)" by (simp add: runs_from_append)
    then have t: "runs_from (Suc (r_end s)) (vs @ r # ys)" by simp
    have "r_begin r \<in> cover (vs @ r # ys)" using x by (auto simp: run_set_def)
    from runs_from_cover [OF t this] x show "r_begin s \<le> x" by (simp add: r_end_def)
  qed
  moreover have "takeWhile (\<lambda>s. r_begin s \<le> x) ys = []"
  proof (cases ys)
    case (Cons s ss)
    with assms(1) rs have "Suc (r_end r) \<le> r_begin s" by (simp add: runs_from_append)
    with Cons x show ?thesis by simp
  qed simp
  ultimately have "takeWhile (\<lambda>s. r_begin s \<le> x) rs = xs @ [r]" using rs x by simp
  then show "0 < length (takeWhile (\<lambda>s. r_begin s \<le> x) rs)"
    and "rs ! (length (takeWhile (\<lambda>s. r_begin s \<le> x) rs) - 1) = r" using rs by simp_all
qed

lemma choose_pages_preferred:
  assumes "runs_ok cap rs" and "0 < n" and "{b ..< b + n} \<subseteq> cover rs"
  shows "\<exists>rs'. choose_pages (Some (int b)) n rs = Inr ([b ..< b + n], rs')"
proof -
  have f: "runs_from 0 rs" using assms(1) by (simp add: runs_ok_def)
  from interval_in_one_run [OF this assms(3,2)] obtain r where r: "r \<in> set rs" "{b ..< b + n} \<subseteq> run_set r"
    by blast
  have "b \<in> {b ..< b + n}" "b + n - 1 \<in> {b ..< b + n}" using assms(2) by auto
  with r(2) have "b \<in> run_set r" "b + n - 1 \<in> run_set r" by blast+
  then have b: "b \<in> run_set r" "r_begin r \<le> b" "b + n \<le> r_begin r + r_count r"
    using assms(2) by (auto simp: run_set_def r_end_def)
  let ?k = "length (takeWhile (\<lambda>s. r_begin s \<le> b) rs)"
  have "0 < ?k" "rs ! (?k - 1) = r" using upper_bound_run [OF f r(1) b(1)] .
  then have "select_preferred (Some (int b)) n rs = Some (?k - 1, b)"
    using b by (simp add: select_preferred_def Let_def not_less)
  with select_preferred_run [OF this] consume_free_run_cut [of "?k - 1" rs n b] assms(2)
  show ?thesis by (auto simp: choose_pages_def)
qed


section \<open>The invariant\<close>

definition free_pages :: "page_pool \<Rightarrow> nat set" where
  "free_pages p = {i. i < capacity_pages p \<and> \<not> pp_allocated p ! i}"

definition used_pages :: "page_pool \<Rightarrow> nat set" where
  "used_pages p = {i. i < capacity_pages p \<and> pp_allocated p ! i}"

definition pool_ok :: "page_pool \<Rightarrow> bool" where
  "pool_ok p \<longleftrightarrow>
     0 < capacity_pages p \<and> capacity_pages p \<le> int32_max \<and>
     length (pp_generations p) = capacity_pages p \<and> length (pp_allocated p) = capacity_pages p \<and>
     length (pp_marks p) = capacity_pages p \<and>
     runs_ok (capacity_pages p) (pp_runs p) \<and> cover (pp_runs p) = free_pages p \<and>
     pp_allocated_pages p = card (used_pages p) \<and>
     pp_allocated_pages p + pp_reserved_pages p \<le> capacity_pages p \<and>
     0 \<notin> set (pp_generations p) \<and> (\<forall>m\<in>set (pp_marks p). m \<le> pp_stamp p)"

text \<open>
  The ledger: \<open>L\<close> is the multiset of all armed leases. Every one of them carries the generation
  of its page, and their page numbers are the allocated pages, each exactly once.
\<close>

definition ledger :: "page_pool \<Rightarrow> page_lease multiset \<Rightarrow> bool" where
  "ledger p L \<longleftrightarrow> pool_ok p \<and>
     (\<forall>l\<in>#L. ls_owner l = Some (pp_id p) \<and> pp_generations p ! nat (ls_index l) = ls_generation l) \<and>
     image_mset ls_index L = mset_set (int ` used_pages p)"

text \<open>What no operation on the pool changes.\<close>

definition same_pool :: "page_pool \<Rightarrow> page_pool \<Rightarrow> bool" where
  "same_pool p q \<longleftrightarrow> pp_id q = pp_id p \<and> pp_spec q = pp_spec p \<and> pp_planes q = pp_planes p"

lemma same_pool_refl [simp]: "same_pool p p"
  by (simp add: same_pool_def)

lemma same_pool_trans [trans]: "same_pool p q \<Longrightarrow> same_pool q r \<Longrightarrow> same_pool p r"
  by (simp add: same_pool_def)

lemma finite_pages [simp]: "finite (free_pages p)" "finite (used_pages p)"
  by (simp_all add: free_pages_def used_pages_def)

lemma free_used: "free_pages p \<inter> used_pages p = {}" "free_pages p \<union> used_pages p = {..<capacity_pages p}"
  by (auto simp: free_pages_def used_pages_def)

lemma card_free_used: "card (free_pages p) + card (used_pages p) = capacity_pages p"
  using card_Un_disjoint [of "free_pages p" "used_pages p"] free_used [of p] by simp

lemma pool_ok_available:
  assumes "pool_ok p"
  shows "available_pages p = capacity_pages p - pp_allocated_pages p - pp_reserved_pages p"
    and "u32_sub (capacity_pages p) (pp_allocated_pages p) = card (free_pages p)"
proof -
  have b: "pp_allocated_pages p + pp_reserved_pages p \<le> capacity_pages p" "capacity_pages p \<le> int32_max"
    "pp_allocated_pages p = card (used_pages p)" using assms by (simp_all add: pool_ok_def)
  then have s: "u32_sub (capacity_pages p) (pp_allocated_pages p) = capacity_pages p - pp_allocated_pages p"
    by (simp add: unsigned_arith)
  with b show "u32_sub (capacity_pages p) (pp_allocated_pages p) = card (free_pages p)"
    using card_free_used [of p] by simp
  show "available_pages p = capacity_pages p - pp_allocated_pages p - pp_reserved_pages p"
    using b s by (simp add: available_pages_def u32_sub_small)
qed

lemma ledger_lease:
  assumes "ledger p L" and "l \<in># L"
  shows "0 \<le> ls_index l" "nat (ls_index l) \<in> used_pages p" "ls_owner l = Some (pp_id p)"
    "pp_generations p ! nat (ls_index l) = ls_generation l"
proof -
  have "ls_index l \<in># image_mset ls_index L" using assms(2) by simp
  then have "ls_index l \<in># mset_set (int ` used_pages p)" using assms(1) unfolding ledger_def by metis
  then have "ls_index l \<in> int ` used_pages p" by simp
  then show "0 \<le> ls_index l" "nat (ls_index l) \<in> used_pages p" by auto
  show "ls_owner l = Some (pp_id p)" "pp_generations p ! nat (ls_index l) = ls_generation l"
    using assms by (auto simp: ledger_def)
qed

lemma ledger_valid:
  assumes "ledger p L" and "l \<in># L"
  shows "pool_valid_handle p (lease_handle l)"
  using ledger_lease [OF assms]
  by (auto simp: pool_valid_handle_def lease_handle_def used_pages_def Let_def)

lemma ledger_size: "ledger p L \<Longrightarrow> size L = pp_allocated_pages p"
proof -
  assume l: "ledger p L"
  then have "size L = size (mset_set (int ` used_pages p))" by (metis ledger_def size_image_mset)
  also have "\<dots> = card (used_pages p)" by (simp add: card_image)
  finally show ?thesis using l by (simp add: ledger_def pool_ok_def)
qed

lemma ledger_unique:
  assumes "ledger p L" and "l \<in># L" and "k \<in># L - {#l#}"
  shows "ls_index k \<noteq> ls_index l"
proof
  assume eq: "ls_index k = ls_index l"
  have "image_mset ls_index (L - {#l#}) = image_mset ls_index L - {#ls_index l#}"
    using assms(2) by (simp add: image_mset_Diff)
  moreover have "ls_index k \<in># image_mset ls_index (L - {#l#})" using assms(3) by simp
  ultimately have "ls_index l \<in># mset_set (int ` used_pages p) - {#ls_index l#}"
    using eq assms(1) by (simp add: ledger_def)
  then have "1 < count (mset_set (int ` used_pages p)) (ls_index l)" by (simp add: in_diff_count)
  then show False by (cases "ls_index l \<in> int ` used_pages p") simp_all
qed

section \<open>Every operation keeps the ledger\<close>

lemma make_pool_ledger:
  assumes "make_pool this backing layout = Inr p"
  shows "ledger p {#}" "pp_reserved_pages p = 0" "pp_id p = this"
    "capacity_pages p = ps_page_group_count (lay_spec layout)"
proof -
  let ?n = "ps_page_group_count (lay_spec layout)"
  from assms obtain planes where p: "p = \<lparr>pp_id = this, pp_spec = lay_spec layout, pp_planes = planes,
                  pp_runs = [\<lparr>r_begin = 0, r_count = ?n\<rparr>],
                  pp_generations = replicate ?n 1, pp_allocated = replicate ?n False,
                  pp_marks = replicate ?n 0, pp_stamp = 0,
                  pp_allocated_pages = 0, pp_reserved_pages = 0\<rparr>" and n: "?n \<noteq> 0" "?n \<le> int32_max"
    by (auto simp: make_pool_def Let_def rbind_Inr_iff checked_i32_def split: if_splits)
  have "free_pages p = {0 ..< ?n}" "used_pages p = {}"
    by (auto simp: p free_pages_def used_pages_def capacity_pages_def)
  then show "ledger p {#}" using n
    by (auto simp: ledger_def pool_ok_def p capacity_pages_def runs_ok_def)
  show "pp_reserved_pages p = 0" "pp_id p = this" "capacity_pages p = ?n"
    by (simp_all add: p capacity_pages_def)
qed

definition new_lease :: "page_pool \<Rightarrow> nat \<Rightarrow> page_lease" where
  "new_lease p page = \<lparr>ls_owner = Some (pp_id p), ls_index = int page, ls_generation = pp_generations p ! page\<rparr>"

definition set_flags :: "nat list \<Rightarrow> bool list \<Rightarrow> bool list" where
  "set_flags pages a = fold (\<lambda>k a. a[k := True]) pages a"

lemma set_flags_simps [simp]:
  "length (set_flags pages a) = length a"
  "i < length a \<Longrightarrow> set_flags pages a ! i \<longleftrightarrow> a ! i \<or> i \<in> set pages"
proof -
  show [simp]: "length (set_flags pages a) = length a" for a
    by (induction pages arbitrary: a) (simp_all add: set_flags_def)
  show "i < length a \<Longrightarrow> set_flags pages a ! i \<longleftrightarrow> a ! i \<or> i \<in> set pages"
  proof (induction pages arbitrary: a)
    case (Cons k pages)
    then show ?case by (cases "i = k") (auto simp: set_flags_def)
  qed (simp add: set_flags_def)
qed

lemma fold_append_page:
  "fold append_page pages (dest, p) =
     (dest @ map (new_lease p) pages, p\<lparr>pp_allocated := set_flags pages (pp_allocated p)\<rparr>)"
proof (induction pages arbitrary: dest p)
  case (Cons x xs)
  have "new_lease (p\<lparr>pp_allocated := a\<rparr>) = new_lease p" for a by (rule ext) (simp add: new_lease_def)
  then show ?case using Cons by (simp add: append_page_def new_lease_def set_flags_def)
qed (simp add: set_flags_def)

text \<open>The common effect of \<open>materialize\<close> and \<open>materialize_one\<close> on the ledger.\<close>

lemma ledger_take:
  assumes "ledger p L" and "distinct pages" and "set pages \<subseteq> free_pages p"
    and "runs_ok (capacity_pages p) runs" and "cover runs = free_pages p - set pages"
    and "length pages \<le> pp_reserved_pages p"
    and p': "p' = p\<lparr>pp_runs := runs, pp_allocated := set_flags pages (pp_allocated p),
                    pp_allocated_pages := u32_add (pp_allocated_pages p) (length pages),
                    pp_reserved_pages := u32_sub (pp_reserved_pages p) (length pages)\<rparr>"
  shows "ledger p' (L + mset (map (new_lease p) pages))" "same_pool p p'"
    "pp_reserved_pages p' + length pages = pp_reserved_pages p" 
proof -
  have ok: "pool_ok p" using assms(1) by (simp add: ledger_def)
  then have b: "pp_allocated_pages p + pp_reserved_pages p \<le> capacity_pages p" "capacity_pages p \<le> int32_max"
    and len: "length (pp_allocated p) = capacity_pages p" by (simp_all add: pool_ok_def)
  have cap: "capacity_pages p' = capacity_pages p" and alloc: "pp_allocated p' = set_flags pages (pp_allocated p)"
    by (simp_all add: p' capacity_pages_def)
  have cnt: "pp_allocated_pages p' = pp_allocated_pages p + length pages"
    "pp_reserved_pages p' = pp_reserved_pages p - length pages"
    using b assms(6) by (simp_all add: p' unsigned_arith)
  have free: "free_pages p' = free_pages p - set pages" and used: "used_pages p' = used_pages p \<union> set pages"
    using assms(3) len alloc by (auto simp: free_pages_def used_pages_def cap)
  have disj: "used_pages p \<inter> set pages = {}" using assms(3) free_used(1) by blast
  then have "card (used_pages p') = card (used_pages p) + length pages"
    using assms(2) by (simp add: used card_Un_disjoint distinct_card)
  with ok cnt b assms(4-6) have "pool_ok p'"
    by (simp add: pool_ok_def cap free) (simp add: p')
  moreover have "mset_set (int ` used_pages p') =
      mset_set (int ` used_pages p) + image_mset ls_index (mset (map (new_lease p) pages))"
  proof -
    have "int ` used_pages p \<inter> int ` set pages = {}" using disj by auto
    then have "mset_set (int ` used_pages p') = mset_set (int ` used_pages p) + mset_set (int ` set pages)"
      by (simp add: used image_Un mset_set_Union)
    also have "mset_set (int ` set pages) = mset (map int pages)"
      using mset_set_set [of "map int pages"] assms(2) by (simp add: distinct_map del: mset_map)
    finally show ?thesis by (simp add: new_lease_def comp_def image_mset.compositionality flip: mset_map)
  qed
  ultimately show "ledger p' (L + mset (map (new_lease p) pages))"
    using assms(1) by (auto simp: ledger_def) (auto simp: p' new_lease_def)
  show "same_pool p p'" by (simp add: same_pool_def p')
  show "pp_reserved_pages p' + length pages = pp_reserved_pages p" using cnt assms(6) by simp
qed


text \<open>The guards of \<open>materialize\<close>, as a predicate: what the caller has to provide.\<close>

definition leases_valid :: "page_pool \<Rightarrow> page_lease list \<Rightarrow> bool" where
  "leases_valid p ls \<longleftrightarrow> (\<forall>l\<in>set ls. ls_owner l = Some (pp_id p) \<and> pool_valid_handle p (lease_handle l))"

lemma rcheck_leases:
  "rcheck (\<lambda>l. if ls_owner l \<noteq> Some (pp_id p) \<or> \<not> pool_valid_handle p (lease_handle l)
               then Inl InvalidArgument else Inr ()) ls =
     (if leases_valid p ls then Inr () else Inl InvalidArgument)"
  by (induction ls) (simp_all add: leases_valid_def)

definition preferred_page :: "page_lease list \<Rightarrow> page_handle option \<Rightarrow> int option" where
  "preferred_page dest predecessor =
     (case predecessor of
        Some h \<Rightarrow> Some (ph_index h + 1)
      | None \<Rightarrow> if dest \<noteq> [] then Some (ls_index (last dest) + 1) else None)"

text \<open>
  With its guards met, \<open>materialize\<close> succeeds: neither its own \<open>logic_error\<close> nor the
  \<open>terminate\<close> of \<open>consume_free_run\<close> nor a read past the free list can happen.
\<close>

lemma materialize_take:
  assumes "ledger p L" and "rv_owner rv = Some (pp_id p)" and "rv_pages rv \<le> pp_reserved_pages p"
    and "length dest < target" and "target - length dest \<le> rv_pages rv" and "target \<le> room"
    and "leases_valid p dest" and "\<forall>h. predecessor = Some h \<longrightarrow> pool_valid_handle p h"
  shows "\<exists>pages runs p'.
      choose_pages (preferred_page dest predecessor) (target - length dest) (pp_runs p) = Inr (pages, runs) \<and>
      length pages = target - length dest \<and> distinct pages \<and> set pages \<subseteq> free_pages p \<and>
      materialize rv target dest room predecessor p =
        Inr (rv\<lparr>rv_pages := rv_pages rv - length pages\<rparr>, dest @ map (new_lease p) pages, p') \<and>
      ledger p' (L + mset (map (new_lease p) pages)) \<and> same_pool p p' \<and>
      pp_reserved_pages p' + length pages = pp_reserved_pages p"
proof -
  let ?n = "target - length dest"
  have ok: "pool_ok p" using assms(1) by (simp add: ledger_def)
  then have r: "runs_ok (capacity_pages p) (pp_runs p)" "cover (pp_runs p) = free_pages p"
    and b: "pp_allocated_pages p + pp_reserved_pages p \<le> capacity_pages p" "capacity_pages p \<le> int32_max"
    "pp_allocated_pages p = card (used_pages p)"
    by (simp_all add: pool_ok_def)
  have n: "0 < ?n" "?n \<le> card (free_pages p)"
    using assms(3-5) b card_free_used [of p] by simp_all
  from choose_pages_ok [OF r(1) n(1), of "preferred_page dest predecessor"] r(2) n(2)
  obtain pages runs where c: "choose_pages (preferred_page dest predecessor) ?n (pp_runs p) = Inr (pages, runs)"
    "length pages = ?n" "distinct pages" "set pages \<subseteq> free_pages p"
    "runs_ok (capacity_pages p) runs" "cover runs = free_pages p - set pages" by auto
  define p' where "p' = p\<lparr>pp_runs := runs, pp_allocated := set_flags pages (pp_allocated p),
                    pp_allocated_pages := u32_add (pp_allocated_pages p) (length pages),
                    pp_reserved_pages := u32_sub (pp_reserved_pages p) (length pages)\<rparr>"
  have le: "length pages \<le> pp_reserved_pages p" "length pages \<le> rv_pages rv" "rv_pages rv \<le> uint32_max"
    using c(2) assms(3,5) b by simp_all
  note t = ledger_take [OF assms(1) c(3,4,5,6) le(1) p'_def]
  have pre: "(case predecessor of
                    Some h \<Rightarrow> rbind (physical_index p h) (\<lambda>i. Inr (Some (i + 1)))
                  | None \<Rightarrow> Inr (if dest \<noteq> [] then Some (ls_index (last dest) + 1) else None)) =
             Inr (preferred_page dest predecessor)"
    using assms(8) by (cases predecessor) (auto simp: preferred_page_def physical_index_def)
  have "materialize rv target dest room predecessor p =
      Inr (rv\<lparr>rv_pages := rv_pages rv - length pages\<rparr>, dest @ map (new_lease p) pages, p')"
    using assms(2,4-7) n pre c(1,2) le pool_ok_available(2) [OF ok]
    unfolding materialize_def Let_def rcheck_leases fold_append_page p'_def
    by (simp add: u32_sub_small)
  with c t show ?thesis by blast
qed

lemma materialize_guards:
  assumes "materialize rv target dest room predecessor p = Inr (rv', dest', p')"
  shows "rv_owner rv = Some (pp_id p)" "length dest \<le> target" "target - length dest \<le> rv_pages rv"
    "target \<le> room" "leases_valid p dest"
    "length dest = target \<Longrightarrow> rv' = rv \<and> dest' = dest \<and> p' = p"
    "length dest < target \<Longrightarrow> \<forall>h. predecessor = Some h \<longrightarrow> pool_valid_handle p h"
proof -
  note m = assms [unfolded materialize_def Let_def rcheck_leases]
  show "rv_owner rv = Some (pp_id p)" "length dest \<le> target" "target - length dest \<le> rv_pages rv"
    "target \<le> room" "leases_valid p dest"
    using m by (auto split: if_splits)
  show "length dest = target \<Longrightarrow> rv' = rv \<and> dest' = dest \<and> p' = p"
    using m by (auto split: if_splits)
  show "length dest < target \<Longrightarrow> \<forall>h. predecessor = Some h \<longrightarrow> pool_valid_handle p h"
    using m by (auto simp: physical_index_def rbind_Inr_iff split: if_splits option.splits)
qed

lemma materialize_ledger:
  assumes "ledger p L" and "rv_pages rv \<le> pp_reserved_pages p"
    and m: "materialize rv target dest room predecessor p = Inr (rv', dest', p')"
  shows "\<exists>new. dest' = dest @ new \<and> length dest' = target \<and> ledger p' (L + mset new) \<and> same_pool p p' \<and>
           rv_owner rv' = rv_owner rv \<and> rv_pages rv' + length new = rv_pages rv \<and>
           pp_reserved_pages p' + length new = pp_reserved_pages p"
proof (cases "length dest = target")
  case True
  with materialize_guards(6) [OF m] assms(1) show ?thesis by auto
next
  case False
  note g = materialize_guards [OF m]
  from False g(2) have lt: "length dest < target" by simp
  from materialize_take [OF assms(1) g(1) assms(2) lt g(3) g(4) g(5) g(7) [OF lt]]
  obtain pages q where t: "length pages = target - length dest"
    "materialize rv target dest room predecessor p =
        Inr (rv\<lparr>rv_pages := rv_pages rv - length pages\<rparr>, dest @ map (new_lease p) pages, q)"
    "ledger q (L + mset (map (new_lease p) pages))" "same_pool p q"
    "pp_reserved_pages q + length pages = pp_reserved_pages p" by blast
  then have e: "rv' = rv\<lparr>rv_pages := rv_pages rv - length pages\<rparr>" "dest' = dest @ map (new_lease p) pages" "p' = q"
    using m by simp_all
  show ?thesis
    using t e lt g(3) by (intro exI [of _ "map (new_lease p) pages"]) simp
qed

lemma materialize_one_eq:
  assumes "rv_owner rv = Some (pp_id p)" and "0 < rv_pages rv" and "pp_runs p = r # rest"
    and "u32_sub (r_count r) 1 = r_count r - 1" and "u32_sub (rv_pages rv) 1 = rv_pages rv - 1"
  shows "materialize_one rv p =
     Inr (new_lease p (r_begin r), rv\<lparr>rv_pages := rv_pages rv - 1\<rparr>,
          p\<lparr>pp_runs := if r_count r - 1 = 0 then rest
                        else \<lparr>r_begin = r_begin r + 1, r_count = r_count r - 1\<rparr> # rest,
             pp_allocated := (pp_allocated p)[r_begin r := True],
             pp_allocated_pages := u32_add (pp_allocated_pages p) (length [r_begin r]),
             pp_reserved_pages := u32_sub (pp_reserved_pages p) (length [r_begin r])\<rparr>)"
  using assms
  apply (cases "r_count r - 1 = 0")
  apply (simp_all only: materialize_one_def new_lease_def Let_def list.case if_True if_False simp_thms neq0_conv)
  apply simp_all
  done

lemma materialize_one_ledger:
  assumes "ledger p L" and "rv_pages rv \<le> pp_reserved_pages p"
    and m: "materialize_one rv p = Inr (l, rv', p')"
  shows "ledger p' (L + {#l#})" "same_pool p p'" "rv_owner rv' = rv_owner rv"
    "rv_pages rv' + 1 = rv_pages rv" "pp_reserved_pages p' + 1 = pp_reserved_pages p"
proof -
  from m obtain r rest where runs: "pp_runs p = r # rest" and pos: "0 < rv_pages rv"
    and own: "rv_owner rv = Some (pp_id p)"
    by (auto simp: materialize_one_def Let_def split: if_splits list.splits)
  have ok: "pool_ok p" using assms(1) by (simp add: ledger_def)
  then have r: "runs_ok (capacity_pages p) (r # rest)" "cover (r # rest) = free_pages p"
    and b: "pp_allocated_pages p + pp_reserved_pages p \<le> capacity_pages p" "capacity_pages p \<le> int32_max"
    by (simp_all add: pool_ok_def runs)
  then have rb: "0 < r_count r" "r_end r \<le> capacity_pages p" by (auto simp: runs_ok_def)
  have sub: "u32_sub (r_count r) 1 = r_count r - 1" "u32_sub (rv_pages rv) 1 = rv_pages rv - 1"
    using rb b assms(2) pos by (auto simp: r_end_def u32_sub_small)
  let ?runs = "if r_count r - 1 = 0 then rest else \<lparr>r_begin = r_begin r + 1, r_count = r_count r - 1\<rparr> # rest"
  have cut: "?runs = [] @ cut_run (r_begin r) 1 r @ rest" using rb by (auto simp: cut_run_def r_end_def)
  have r': "runs_ok (capacity_pages p) ([] @ r # rest)" "r_begin r + 1 \<le> r_end r"
    using r rb by (simp_all add: r_end_def)
  from runs_ok_cut [OF r'(1) order.refl r'(2)] cut r(2)
  have c: "runs_ok (capacity_pages p) ?runs" "cover ?runs = free_pages p - set [r_begin r]"
    by (auto simp del: cover_simps)
  have "r_begin r \<in> cover (r # rest)" using rb by (simp add: run_set_def r_end_def)
  then have mem: "set [r_begin r] \<subseteq> free_pages p" unfolding r(2) by simp
  define q where "q = p\<lparr>pp_runs := ?runs, pp_allocated := set_flags [r_begin r] (pp_allocated p),
                    pp_allocated_pages := u32_add (pp_allocated_pages p) (length [r_begin r]),
                    pp_reserved_pages := u32_sub (pp_reserved_pages p) (length [r_begin r])\<rparr>"
  have "materialize_one rv p = Inr (new_lease p (r_begin r), rv\<lparr>rv_pages := rv_pages rv - 1\<rparr>, q)"
    using materialize_one_eq [OF own pos runs sub] by (simp only: q_def set_flags_def fold_simps list.size id_apply comp_apply)
  with m have p': "p' = q" and l: "l = new_lease p (r_begin r)" and rv': "rv' = rv\<lparr>rv_pages := rv_pages rv - 1\<rparr>"
    by simp_all
  have le: "length [r_begin r] \<le> pp_reserved_pages p" using pos assms(2) by simp
  note t = ledger_take [OF assms(1) _ mem c le q_def]
  show "ledger p' (L + {#l#})" "same_pool p p'" "pp_reserved_pages p' + 1 = pp_reserved_pages p"
    using t by (simp_all add: l p')
  show "rv_owner rv' = rv_owner rv" "rv_pages rv' + 1 = rv_pages rv" using rv' pos by simp_all
qed

lemma materialize_one_succeeds:
  assumes "ledger p L" and "rv_owner rv = Some (pp_id p)"
    and "rv_pages rv \<le> pp_reserved_pages p" and "0 < rv_pages rv"
  shows "\<exists>r. materialize_one rv p = Inr r"
proof -
  have "pool_ok p" using assms(1) by (simp add: ledger_def)
  then have "0 < card (free_pages p)" "cover (pp_runs p) = free_pages p"
    using assms(3,4) card_free_used [of p] by (auto simp: pool_ok_def)
  then have "pp_runs p \<noteq> []" by auto
  then show ?thesis using assms(2,4)
    by (cases "pp_runs p") (simp_all add: materialize_one_def Let_def)
qed


lemma release_page_ledger:
  assumes "ledger p L" and "l \<in># L" and p': "p' = release_page (ls_index l) (ls_generation l) p"
  shows "ledger p' (L - {#l#})" "same_pool p p'" "pp_reserved_pages p' = pp_reserved_pages p"
    "pp_generations p' = (pp_generations p)[nat (ls_index l) := increment_generation (ls_generation l)]"
    "pp_runs p' = release_free_page (nat (ls_index l)) (pp_runs p)"
proof -
  define k where "k = nat (ls_index l)"
  note l = ledger_lease [OF assms(1,2)]
  have ok: "pool_ok p" using assms(1) by (simp add: ledger_def)
  have k: "k < capacity_pages p" "pp_allocated p ! k" "pp_generations p ! k = ls_generation l"
    "ls_index l = int k" "k \<in> used_pages p"
    using l by (auto simp: used_pages_def k_def)
  have pos: "0 < pp_allocated_pages p" and small: "pp_allocated_pages p \<le> uint32_max"
    using ok k(5) by (auto simp: pool_ok_def card_gt_0_iff)
  have q: "p' = p\<lparr>pp_allocated := (pp_allocated p)[k := False],
               pp_generations := (pp_generations p)[k := increment_generation (ls_generation l)],
               pp_runs := release_free_page k (pp_runs p),
               pp_allocated_pages := pp_allocated_pages p - 1\<rparr>"
    using k pos small by (simp add: p' release_page_def Let_def u32_sub_small)
  have cap: "capacity_pages p' = capacity_pages p" and alloc: "pp_allocated p' = (pp_allocated p)[k := False]"
    and gens: "pp_generations p' = (pp_generations p)[k := increment_generation (ls_generation l)]"
    and runs: "pp_runs p' = release_free_page k (pp_runs p)"
    by (simp_all add: q capacity_pages_def)
  have len: "length (pp_allocated p) = capacity_pages p" "length (pp_generations p) = capacity_pages p"
    using ok by (simp_all add: pool_ok_def)
  have used: "used_pages p' = used_pages p - {k}" and free: "free_pages p' = insert k (free_pages p)"
    using k(1) len by (auto simp: used_pages_def free_pages_def cap alloc nth_list_update)
  have "k \<notin> cover (pp_runs p)" using ok k(5) free_used(1) by (auto simp: pool_ok_def)
  then have runs': "runs_ok (capacity_pages p) (pp_runs p')" "cover (pp_runs p') = free_pages p'"
    using release_free_page_ok [of "capacity_pages p" "pp_runs p" k] ok k(1)
    by (simp_all add: runs free pool_ok_def)
  have "0 \<notin> set (pp_generations p')"
    using ok set_update_subset_insert [of "pp_generations p" k] by (fastforce simp: gens pool_ok_def)
  moreover have "card (used_pages p') = pp_allocated_pages p - 1" using ok k(5) by (simp add: used pool_ok_def)
  ultimately have "pool_ok p'"
    using ok runs' len by (simp add: pool_ok_def cap) (auto simp: q)
  moreover have "image_mset ls_index (L - {#l#}) = mset_set (int ` used_pages p')"
  proof -
    have "int ` used_pages p' = int ` used_pages p - {ls_index l}" using k by (auto simp: used)
    moreover have "ls_index l \<in> int ` used_pages p" using k by simp
    ultimately show ?thesis using assms(1,2)
      by (simp add: image_mset_Diff ledger_def mset_set_Diff)
  qed
  moreover have "pp_generations p' ! nat (ls_index m) = ls_generation m" if "m \<in># L - {#l#}" for m
  proof -
    have "0 \<le> ls_index m" using ledger_lease(1) [OF assms(1)] that by (simp add: in_diffD)
    with ledger_unique [OF assms(1,2) that] l(1) have "nat (ls_index m) \<noteq> k" by (simp add: k_def)
    then show ?thesis using ledger_lease(4) [OF assms(1)] that by (simp add: gens in_diffD)
  qed
  moreover have "pp_id p' = pp_id p" by (simp add: q)
  ultimately show "ledger p' (L - {#l#})"
    using assms(1) by (auto simp: ledger_def dest: in_diffD)
  show "same_pool p p'" "pp_reserved_pages p' = pp_reserved_pages p" by (simp_all add: same_pool_def q)
  show "pp_generations p' = (pp_generations p)[nat (ls_index l) := increment_generation (ls_generation l)]"
    "pp_runs p' = release_free_page (nat (ls_index l)) (pp_runs p)"
    using gens runs by (simp_all add: k_def)
qed

lemma lease_release_ledger:
  assumes "ledger p L" and "l \<in># L"
  shows "lease_release l p = (True, empty_lease, release_page (ls_index l) (ls_generation l) p)"
  using ledger_valid [OF assms] ledger_lease(3) [OF assms] by (simp add: lease_release_def)

lemma destroy_leases_ledger:
  assumes "ledger p L" and "mset ls \<subseteq># L"
  shows "ledger (destroy_leases ls p) (L - mset ls) \<and> same_pool p (destroy_leases ls p) \<and>
    pp_reserved_pages (destroy_leases ls p) = pp_reserved_pages p"
  using assms
proof (induction ls arbitrary: p L)
  case (Cons l ls)
  have l: "l \<in># L" using Cons.prems(2) by (simp add: insert_subset_eq_iff)
  let ?p = "release_page (ls_index l) (ls_generation l) p"
  note r = release_page_ledger [OF Cons.prems(1) l refl]
  have "mset ls \<subseteq># L - {#l#}" using Cons.prems(2) by (simp add: insert_subset_eq_iff)
  note IH = Cons.IH [OF r(1) this]
  have "destroy_leases (l # ls) p = destroy_leases ls ?p"
    by (simp add: destroy_leases_def lease_release_ledger [OF Cons.prems(1) l])
  with IH r show ?case by (auto intro: same_pool_trans simp: diff_diff_add_mset)
qed (simp add: destroy_leases_def)

lemma ledger_reserved:
  assumes "ledger p L" and "pp_allocated_pages p + r \<le> capacity_pages p"
  shows "ledger (p\<lparr>pp_reserved_pages := r\<rparr>) L" "same_pool p (p\<lparr>pp_reserved_pages := r\<rparr>)"
proof -
  have "capacity_pages (p\<lparr>pp_reserved_pages := r\<rparr>) = capacity_pages p" by (simp add: capacity_pages_def)
  then show "ledger (p\<lparr>pp_reserved_pages := r\<rparr>) L" using assms
    by (simp add: ledger_def pool_ok_def free_pages_def used_pages_def)
qed (simp add: same_pool_def)

lemmas dematerialize_alt = dematerialize_def [unfolded Let_def rcheck_leases]

lemma dematerialize_guards:
  assumes "dematerialize rv target src p = Inr (rv', src', p')"
  shows "rv_owner rv = Some (pp_id p)" "target \<le> length src" "leases_valid p src" "src' = take target src"
  using assms by (auto simp: dematerialize_alt split: if_splits)

lemma dematerialize_ledger:
  assumes "ledger p L" and "mset src \<subseteq># L" and "rv_pages rv \<le> pp_reserved_pages p"
    and m: "dematerialize rv target src p = Inr (rv', src', p')"
  shows "ledger p' (L - mset (drop target src)) \<and> same_pool p p' \<and> src' = take target src \<and>
    rv_owner rv' = rv_owner rv \<and> rv_pages rv' = rv_pages rv + length (drop target src) \<and>
    pp_reserved_pages p' = pp_reserved_pages p + length (drop target src)"
proof (cases "length src = target")
  case True
  with m assms(1) show ?thesis
    by (auto simp: dematerialize_alt split: if_splits)
next
  case False
  note g = dematerialize_guards [OF m]
  let ?ls = "drop target src" and ?q = "destroy_leases (drop target src) p"
  have sub: "mset ?ls \<subseteq># L"
    using assms(2) by (metis append_take_drop_id mset_append mset_subset_eq_add_right subset_mset.order_trans)
  note d = destroy_leases_ledger [OF assms(1) sub]
  have ok: "pool_ok p" "pool_ok ?q" using assms(1) d by (simp_all add: ledger_def)
  have sz: "size (L - mset ?ls) = pp_allocated_pages ?q" "size L = pp_allocated_pages p"
    using d assms(1) ledger_size by blast+
  have "size L = size (L - mset ?ls) + length ?ls" 
    using sub by (metis size_mset size_union subset_mset.diff_add)
  then have al: "pp_allocated_pages p = pp_allocated_pages ?q + length ?ls" using sz by simp
  have cap: "capacity_pages ?q = capacity_pages p" using d by (simp add: same_pool_def capacity_pages_def)
  have b: "pp_allocated_pages p + pp_reserved_pages p \<le> capacity_pages p" "capacity_pages p \<le> int32_max"
    using ok by (simp_all add: pool_ok_def)
  have e: "u32_add (rv_pages rv) (length ?ls) = rv_pages rv + length ?ls"
    "u32_add (pp_reserved_pages ?q) (length ?ls) = pp_reserved_pages p + length ?ls"
    using d al b assms(3) by (simp_all add: unsigned_arith)
  have "p' = ?q\<lparr>pp_reserved_pages := pp_reserved_pages p + length ?ls\<rparr>"
    "rv' = rv\<lparr>rv_pages := rv_pages rv + length ?ls\<rparr>" "src' = take target src"
    using m False g(2) e by (auto simp: dematerialize_alt split: if_splits)
  moreover have "pp_allocated_pages ?q + (pp_reserved_pages p + length ?ls) \<le> capacity_pages ?q"
    using al b cap by simp
  ultimately show ?thesis using ledger_reserved [OF conjunct1 [OF d]] d by (auto intro: same_pool_trans)
qed

lemma dematerialize_one_ledger:
  assumes "ledger p L" and "l \<in># L" and "rv_pages rv \<le> pp_reserved_pages p"
    and m: "dematerialize_one rv l p = Inr (rv', l', p')"
  shows "ledger p' (L - {#l#})" "same_pool p p'" "l' = empty_lease" "rv_owner rv' = rv_owner rv"
    "rv_pages rv' = rv_pages rv + 1" "pp_reserved_pages p' = pp_reserved_pages p + 1"
proof -
  let ?q = "release_page (ls_index l) (ls_generation l) p"
  note r = release_page_ledger [OF assms(1,2) refl]
  have ok: "pool_ok p" "pool_ok ?q" using assms(1) r by (simp_all add: ledger_def)
  have "size (L - {#l#}) = pp_allocated_pages ?q" "size L = pp_allocated_pages p"
    using r(1) assms(1) ledger_size by blast+
  then have al: "pp_allocated_pages p = pp_allocated_pages ?q + 1"
    using assms(2) by (metis Suc_eq_plus1 size_Suc_Diff1)
  have cap: "capacity_pages ?q = capacity_pages p" using r(2) by (simp add: same_pool_def capacity_pages_def)
  have b: "pp_allocated_pages p + pp_reserved_pages p \<le> capacity_pages p" "capacity_pages p \<le> int32_max"
    using ok by (simp_all add: pool_ok_def)
  have e: "u32_add (rv_pages rv) 1 = rv_pages rv + 1"
    "u32_add (pp_reserved_pages ?q) 1 = pp_reserved_pages p + 1"
    using r(3) al b assms(3) by (simp_all add: u32_add_small)
  have x: "p' = ?q\<lparr>pp_reserved_pages := pp_reserved_pages p + 1\<rparr>" "rv' = rv\<lparr>rv_pages := rv_pages rv + 1\<rparr>"
    "l' = empty_lease"
    using m e by (auto simp: dematerialize_one_def lease_release_ledger [OF assms(1,2)] split: if_splits)
  moreover have "pp_allocated_pages ?q + (pp_reserved_pages p + 1) \<le> capacity_pages ?q" using al b cap by simp
  note y = ledger_reserved [OF r(1) this]
  show "ledger p' (L - {#l#})" "pp_reserved_pages p' = pp_reserved_pages p + 1" using x y by simp_all
  show "same_pool p p'" using x y(2) r(2) same_pool_trans by blast
  show "l' = empty_lease" "rv_owner rv' = rv_owner rv" "rv_pages rv' = rv_pages rv + 1" using x by simp_all
qed


section \<open>The duplicate scan\<close>

lemma valid_handle_marks [simp]:
  "pool_valid_handle (p\<lparr>pp_marks := m\<rparr>) h = pool_valid_handle p h"
  "pool_valid_handle (p\<lparr>pp_stamp := s\<rparr>) h = pool_valid_handle p h"
  by (simp_all add: pool_valid_handle_def capacity_pages_def)

lemma valid_handle_index:
  "pool_valid_handle p h \<Longrightarrow> 0 \<le> ph_index h \<and> nat (ph_index h) < capacity_pages p"
  by (auto simp: pool_valid_handle_def split: if_splits)

lemma mark_pages_iff:
  assumes "length (pp_marks p) = capacity_pages p"
  shows "(\<exists>p'. mark_pages pages p = Inr p') \<longleftrightarrow>
     (\<forall>h\<in>set pages. pool_valid_handle p h \<and> pp_marks p ! nat (ph_index h) \<noteq> pp_stamp p) \<and>
     distinct (map ph_index pages)"
  using assms
proof (induction pages arbitrary: p)
  case (Cons h hs)
  show ?case
  proof (cases "pool_valid_handle p h \<and> pp_marks p ! nat (ph_index h) \<noteq> pp_stamp p")
    case False
    then show ?thesis by (auto simp: physical_index_def)
  next
    case True
    let ?q = "p\<lparr>pp_marks := (pp_marks p)[nat (ph_index h) := pp_stamp p]\<rparr>"
    have h: "0 \<le> ph_index h" "nat (ph_index h) < capacity_pages p" using True valid_handle_index by blast+
    have mk: "pp_marks ?q ! nat (ph_index k) \<noteq> pp_stamp ?q \<longleftrightarrow>
        ph_index k \<noteq> ph_index h \<and> pp_marks p ! nat (ph_index k) \<noteq> pp_stamp p"
      if "pool_valid_handle p k" for k
      using that h Cons.prems valid_handle_index [OF that] by (auto simp: nth_list_update)
    have "(\<exists>p'. mark_pages (h # hs) p = Inr p') \<longleftrightarrow> (\<exists>p'. mark_pages hs ?q = Inr p')"
      using True by (simp add: physical_index_def)
    also have "\<dots> \<longleftrightarrow> (\<forall>k\<in>set hs. pool_valid_handle p k \<and> ph_index k \<noteq> ph_index h \<and>
        pp_marks p ! nat (ph_index k) \<noteq> pp_stamp p) \<and> distinct (map ph_index hs)"
      using Cons.IH [of ?q] Cons.prems mk by (auto simp: capacity_pages_def)
    also have "\<dots> \<longleftrightarrow> (\<forall>k\<in>set (h # hs). pool_valid_handle p k \<and> pp_marks p ! nat (ph_index k) \<noteq> pp_stamp p) \<and>
        distinct (map ph_index (h # hs))"
      using True by (auto simp: rev_image_eqI)
    finally show ?thesis .
  qed
qed simp

lemma mark_pages_frame:
  assumes "mark_pages pages p = Inr p'" and "\<forall>m\<in>set (pp_marks p). m \<le> pp_stamp p"
  shows "\<exists>ms. p' = p\<lparr>pp_marks := ms\<rparr> \<and> length ms = length (pp_marks p) \<and> (\<forall>m\<in>set ms. m \<le> pp_stamp p)"
  using assms
proof (induction pages arbitrary: p)
  case Nil
  then show ?case by (intro exI [of _ "pp_marks p"]) simp
next
  case (Cons h hs)
  let ?q = "p\<lparr>pp_marks := (pp_marks p)[nat (ph_index h) := pp_stamp p]\<rparr>"
  have "mark_pages hs ?q = Inr p'"
    using Cons.prems(1) by (auto simp: physical_index_def split: if_splits)
  moreover have "\<forall>m\<in>set (pp_marks ?q). m \<le> pp_stamp ?q"
    using Cons.prems(2) set_update_subset_insert [of "pp_marks p" "nat (ph_index h)" "pp_stamp p"] by auto
  ultimately show ?case using Cons.IH [of ?q] by auto
qed

lemma ledger_marks:
  assumes "ledger p L" and "length ms = length (pp_marks p)" and "\<forall>m\<in>set ms. m \<le> s"
  shows "ledger (p\<lparr>pp_marks := ms, pp_stamp := s\<rparr>) L" "same_pool p (p\<lparr>pp_marks := ms, pp_stamp := s\<rparr>)"
proof -
  have "capacity_pages (p\<lparr>pp_marks := ms, pp_stamp := s\<rparr>) = capacity_pages p" by (simp add: capacity_pages_def)
  then show "ledger (p\<lparr>pp_marks := ms, pp_stamp := s\<rparr>) L" using assms
    by (simp add: ledger_def pool_ok_def free_pages_def used_pages_def)
qed (simp add: same_pool_def)

lemma fresh_stamp:
  assumes "pool_ok p"
    and q: "q = (if pp_stamp p + 1 = 0 then p\<lparr>pp_marks := map (\<lambda>_. 0) (pp_marks p), pp_stamp := 1\<rparr>
                else p\<lparr>pp_stamp := pp_stamp p + 1\<rparr>)"
  shows "\<forall>m\<in>set (pp_marks q). m < pp_stamp q"
    and "\<exists>ms s. q = p\<lparr>pp_marks := ms, pp_stamp := s\<rparr> \<and> length ms = length (pp_marks p)"
proof -
  have "m < pp_stamp p + 1" if "m \<in> set (pp_marks p)" "pp_stamp p + 1 \<noteq> 0" for m
  proof -
    have "m \<le> pp_stamp p" using assms(1) that(1) by (simp add: pool_ok_def)
    then show ?thesis 
      using that(2) unatSuc [of "pp_stamp p"] by (simp add: word_less_nat_alt word_le_nat_alt add.commute)
  qed
  then show "\<forall>m\<in>set (pp_marks q). m < pp_stamp q" using q by auto
  show "\<exists>ms s. q = p\<lparr>pp_marks := ms, pp_stamp := s\<rparr> \<and> length ms = length (pp_marks p)"
  proof (cases "pp_stamp p + 1 = 0")
    case True
    then show ?thesis using q by (intro exI [of _ "map (\<lambda>_. 0) (pp_marks p)"] exI [of _ 1]) simp
  next
    case False
    then show ?thesis using q by (intro exI [of _ "pp_marks p"] exI [of _ "pp_stamp p + 1"]) simp
  qed
qed

lemma validate_distinct_pages_iff:
  assumes "pool_ok p"
  shows "(\<exists>p'. validate_distinct_pages pages p = Inr p') \<longleftrightarrow>
    (\<forall>h\<in>set pages. pool_valid_handle p h) \<and> distinct (map ph_index pages)"
proof -
  define q where q: "q = (if pp_stamp p + 1 = 0 then p\<lparr>pp_marks := map (\<lambda>_. 0) (pp_marks p), pp_stamp := 1\<rparr>
                else p\<lparr>pp_stamp := pp_stamp p + 1\<rparr>)"
  note f = fresh_stamp [OF assms q]
  have len: "length (pp_marks q) = capacity_pages q" and v: "pool_valid_handle q h = pool_valid_handle p h" 
    and cap: "capacity_pages q = capacity_pages p" for h
    using assms f(2) by (auto simp: pool_ok_def capacity_pages_def)
  have "pp_marks q ! nat (ph_index h) \<noteq> pp_stamp q" if "pool_valid_handle p h" for h
    using f(1) valid_handle_index [OF that] len cap by (metis nth_mem order_less_irrefl)
  then show ?thesis
    using mark_pages_iff [OF len, of pages] v
    by (auto simp: validate_distinct_pages_def Let_def simp flip: q)
qed

lemma validate_distinct_pages_ledger:
  assumes "ledger p L" and "validate_distinct_pages pages p = Inr p'"
  shows "ledger p' L" "same_pool p p'" "\<exists>ms s. p' = p\<lparr>pp_marks := ms, pp_stamp := s\<rparr>"
proof -
  have ok: "pool_ok p" using assms(1) by (simp add: ledger_def)
  define q where q: "q = (if pp_stamp p + 1 = 0 then p\<lparr>pp_marks := map (\<lambda>_. 0) (pp_marks p), pp_stamp := 1\<rparr>
                else p\<lparr>pp_stamp := pp_stamp p + 1\<rparr>)"
  note f = fresh_stamp [OF ok q]
  from f(2) obtain ms s where e: "q = p\<lparr>pp_marks := ms, pp_stamp := s\<rparr>" "length ms = length (pp_marks p)" by blast
  have "mark_pages pages q = Inr p'" using assms(2) by (simp add: validate_distinct_pages_def Let_def flip: q)
  moreover have "\<forall>m\<in>set (pp_marks q). m \<le> pp_stamp q" using f(1) by (simp add: less_imp_le)
  ultimately obtain ns where n: "p' = q\<lparr>pp_marks := ns\<rparr>" "length ns = length (pp_marks q)"
    "\<forall>m\<in>set ns. m \<le> pp_stamp q" using mark_pages_frame by blast
  have p': "p' = p\<lparr>pp_marks := ns, pp_stamp := s\<rparr>" using n(1) e(1) by simp
  have "length ns = length (pp_marks p)" "\<forall>m\<in>set ns. m \<le> s" using n e by simp_all
  with ledger_marks [OF assms(1)] p' show "ledger p' L" "same_pool p p'"
    "\<exists>ms s. p' = p\<lparr>pp_marks := ms, pp_stamp := s\<rparr>" by blast+
qed

section \<open>The free list as a free space\<close>

text \<open>
  Pages return one at a time; an interval returns page by page. An interval leaves
  through the run that contains it.
\<close>

definition give_pages :: "nat \<Rightarrow> nat \<Rightarrow> run list \<Rightarrow> run list" where
  "give_pages b n rs = fold release_free_page [b ..< b + n] rs"

definition carve_pages :: "nat \<Rightarrow> nat \<Rightarrow> run list \<Rightarrow> run list" where
  "carve_pages b n rs =
     (case choose_pages (Some (int b)) n rs of Inr (pages, rs') \<Rightarrow> rs' | Inl e \<Rightarrow> rs)"

lemma fold_release_free_page:
  assumes "runs_ok cap rs" and "distinct ks" and "set ks \<subseteq> {..<cap}" and "set ks \<inter> cover rs = {}"
  shows "runs_ok cap (fold release_free_page ks rs) \<and> cover (fold release_free_page ks rs) = cover rs \<union> set ks"
  using assms
proof (induction ks arbitrary: rs)
  case (Cons k ks)
  have "k < cap" "k \<notin> cover rs" using Cons.prems by auto
  note r = release_free_page_ok [OF Cons.prems(1) this]
  have "set ks \<inter> cover (release_free_page k rs) = {}" using Cons.prems(2,4) r(2) by auto
  with Cons.IH [OF r(1)] Cons.prems(2,3) r(2) show ?case by auto
qed simp

lemma carve_pages_ok:
  assumes "runs_ok cap rs" and "0 < n" and "{b ..< b + n} \<subseteq> cover rs"
  shows "runs_ok cap (carve_pages b n rs) \<and> cover (carve_pages b n rs) = cover rs - {b ..< b + n}"
proof -
  from choose_pages_preferred [OF assms] obtain rs' where
    c: "choose_pages (Some (int b)) n rs = Inr ([b ..< b + n], rs')" by blast
  have "n \<le> card (cover rs)" using card_mono [OF finite_cover assms(3)] by simp
  from choose_pages_ok [OF assms(1,2) this, of "Some (int b)"] c
  have "runs_ok cap rs'" "cover rs' = cover rs - {b ..< b + n}" by auto
  then show ?thesis by (simp add: carve_pages_def c)
qed

interpretation page_runs: free_space "runs_ok cap" cover give_pages carve_pages
  "\<lambda>rs b n. {b ..< b + n} \<subseteq> cover rs" cap for cap
proof
  fix rs :: "run list" and n b :: nat
  assume "runs_ok cap rs" "0 < n" "b + n \<le> cap" "{b ..< b + n} \<inter> cover rs = {}"
  then show "runs_ok cap (give_pages b n rs) \<and> cover (give_pages b n rs) = cover rs \<union> {b ..< b + n}"
    using fold_release_free_page [of cap rs "[b ..< b + n]"]
    by (simp add: give_pages_def subset_iff)
next
  show "rs = qs" if "runs_ok cap rs" "runs_ok cap qs" "cover rs = cover qs" for rs qs
    using that runs_from_unique [of 0 rs qs] by (simp add: runs_ok_def)
qed (auto simp: carve_pages_ok dest: runs_ok_cover)

end
