(* ===== verification/Generations.thy ===== *)
theory Generations
  imports Prelude "HOL-Library.Multiset"
begin

text \<open>
  Slots with generations: the discipline that page leases, execution rows, host allocations, state
  images and logical KV pages share. A handle is a slot number with the generation the slot had when it was handed out;
  it is valid while the slot is in use under that generation, and freeing the slot advances the
  generation. The locale states what a provider promises; the lemmas show what its clients
  rely on. It is interpreted on the page pool, the execution tables, the host arena, the host
  pool of state images, the store of state images and the store of logical pages.
\<close>

lemma mset_set_distinct:
  assumes "mset xs = mset_set A" and "finite A"
  shows "distinct xs"
proof -
  have "set xs = A" using arg_cong [OF assms(1), of set_mset] assms(2) by simp
  then show ?thesis using assms by (simp add: distinct_count_atmost_1 count_mset_set)
qed

section \<open>Free stacks\<close>

text \<open>
  The free lists of the stores are stacks in the front of an array: the first \<open>c\<close> entries of \<open>xs\<close>, the
  top one last. The constructors fill the array downwards.
\<close>

lemma mset_take_pop:
  assumes "0 < c" and "c \<le> length xs"
  shows "mset (take c xs) = add_mset (xs ! (c - 1)) (mset (take (c - 1) xs))"
proof -
  have "take c xs = take (c - 1) xs @ [xs ! (c - 1)]"
    using assms take_Suc_conv_app_nth [of "c - 1" xs] by simp
  then show ?thesis by simp
qed

lemma mset_take_push:
  assumes "c < length xs"
  shows "mset (take (Suc c) (xs[c := x])) = add_mset x (mset (take c xs))"
  using assms by (simp add: take_Suc_conv_app_nth)

lemma mset_stack_full: "mset (map (\<lambda>i. n - 1 - i) [0..<n]) = mset_set {0..<n}"
proof -
  have "map (\<lambda>i. n - 1 - i) [0..<n] = rev [0..<n]"
    by (rule nth_equalityI) (simp_all add: rev_nth)
  then show ?thesis by simp
qed

section \<open>Slots\<close>

locale generation_slots =
  fixes ok :: "'s \<Rightarrow> bool"
    and slots :: "'s \<Rightarrow> nat"
    and in_use :: "'s \<Rightarrow> nat \<Rightarrow> bool"
    and gen :: "'s \<Rightarrow> nat \<Rightarrow> u32"
    and free_slot :: "nat \<Rightarrow> 's \<Rightarrow> 's"
  assumes gen_nonzero: "ok s \<Longrightarrow> i < slots s \<Longrightarrow> gen s i \<noteq> 0"
    and free_ok: "ok s \<Longrightarrow> i < slots s \<Longrightarrow> in_use s i \<Longrightarrow> ok (free_slot i s)"
    and free_slots: "ok s \<Longrightarrow> i < slots s \<Longrightarrow> in_use s i \<Longrightarrow> slots (free_slot i s) = slots s"
    and free_this: "ok s \<Longrightarrow> i < slots s \<Longrightarrow> in_use s i \<Longrightarrow>
      \<not> in_use (free_slot i s) i \<and> gen (free_slot i s) i = increment_generation (gen s i)"
    and free_other: "ok s \<Longrightarrow> i < slots s \<Longrightarrow> in_use s i \<Longrightarrow> j < slots s \<Longrightarrow> j \<noteq> i \<Longrightarrow>
      in_use (free_slot i s) j = in_use s j \<and> gen (free_slot i s) j = gen s j"
begin

definition holds :: "'s \<Rightarrow> nat \<times> u32 \<Rightarrow> bool" where
  "holds s h \<longleftrightarrow> fst h < slots s \<and> in_use s (fst h) \<and> gen s (fst h) = snd h"

lemma free_stale: "ok s \<Longrightarrow> holds s (i, g) \<Longrightarrow> \<not> holds (free_slot i s) (i, g)"
  using free_this by (auto simp: holds_def)

text \<open>The old handle stays stale when the slot is handed out again under its new generation.\<close>

lemma reuse_stale:
  assumes "ok s" and "holds s (i, g)" and "gen t i = gen (free_slot i s) i"
  shows "\<not> holds t (i, g)"
  using assms free_this [of s i] gen_nonzero [of s i] increment_generation_changes [of g]
  by (auto simp: holds_def)

lemma free_keeps_others:
  assumes "ok s" and "holds s (i, g)" and "j \<noteq> i"
  shows "holds (free_slot i s) (j, k) = holds s (j, k)"
  using assms free_slots [of s i] free_other [of s i j] by (auto simp: holds_def)

text \<open>
  The ledger of all handles that are out: each carries the generation of its slot, and their slots
  are the slots in use, each once. It is kept by freeing a slot and by any operation that puts one
  more slot in use.
\<close>

definition balanced :: "'s \<Rightarrow> (nat \<times> u32) multiset \<Rightarrow> bool" where
  "balanced s L \<longleftrightarrow> ok s \<and> (\<forall>h\<in>#L. gen s (fst h) = snd h) \<and>
     image_mset fst L = mset_set {i. i < slots s \<and> in_use s i}"

lemma balanced_holds:
  assumes "balanced s L" and "h \<in># L"
  shows "holds s h"
proof -
  have "fst h \<in># image_mset fst L" using assms(2) by simp
  then have "fst h \<in># mset_set {i. i < slots s \<and> in_use s i}" using assms(1) unfolding balanced_def by metis
  then show ?thesis using assms by (auto simp: balanced_def holds_def)
qed

lemma balanced_distinct:
  assumes "balanced s L" and "h \<in># L" and "k \<in># L - {#h#}"
  shows "fst k \<noteq> fst h"
proof
  assume eq: "fst k = fst h"
  have "image_mset fst (L - {#h#}) = image_mset fst L - {#fst h#}"
    using assms(2) by (simp add: image_mset_Diff)
  moreover have "fst k \<in># image_mset fst (L - {#h#})" using assms(3) by (metis image_eqI set_image_mset)
  ultimately have "fst h \<in># mset_set {i. i < slots s \<and> in_use s i} - {#fst h#}"
    using eq assms(1) by (simp add: balanced_def)
  then have "1 < count (mset_set {i. i < slots s \<and> in_use s i}) (fst h)" by (simp add: in_diff_count)
  then show False by (cases "fst h \<in> {i. i < slots s \<and> in_use s i}") simp_all
qed

lemma balanced_free:
  assumes "balanced s L" and "h \<in># L"
  shows "balanced (free_slot (fst h) s) (L - {#h#})"
proof -
  have o: "ok s" and h: "fst h < slots s" "in_use s (fst h)"
    using assms(1) balanced_holds [OF assms] by (simp_all add: balanced_def holds_def)
  let ?t = "free_slot (fst h) s"
  have set_eq: "{i. i < slots ?t \<and> in_use ?t i} = {i. i < slots s \<and> in_use s i} - {fst h}"
    using free_slots [OF o h] free_this [OF o h] free_other [OF o h] by auto
  have "image_mset fst (L - {#h#}) = mset_set ({i. i < slots s \<and> in_use s i} - {fst h})"
    using assms h by (simp add: image_mset_Diff balanced_def mset_set_Diff)
  moreover have "gen ?t (fst k) = snd k" if "k \<in># L - {#h#}" for k
  proof -
    have "k \<in># L" using that by (rule in_diffD)
    then have "fst k < slots s" "gen s (fst k) = snd k" using balanced_holds [OF assms(1)] by (auto simp: holds_def)
    with balanced_distinct [OF assms that] free_other [OF o h] show ?thesis by metis
  qed
  ultimately show ?thesis using free_ok [OF o h] set_eq by (auto simp: balanced_def)
qed

lemma balanced_take:
  assumes "balanced s L" and "ok t" and "slots t = slots s" and "i < slots s" and "\<not> in_use s i"
    and "\<And>j. j < slots s \<Longrightarrow> in_use t j = (j = i \<or> in_use s j)"
    and "\<And>j. j < slots s \<Longrightarrow> gen t j = gen s j"
  shows "balanced t (add_mset (i, gen s i) L)"
proof -
  have set_eq: "{j. j < slots t \<and> in_use t j} = insert i {j. j < slots s \<and> in_use s j}"
    using assms(3-6) by auto
  have "gen t (fst k) = snd k" if "k \<in># L" for k
    using balanced_holds [OF assms(1) that] assms(7) by (simp add: holds_def)
  moreover have "mset_set {j. j < slots t \<and> in_use t j} = add_mset i (mset_set {j. j < slots s \<and> in_use s j})"
    unfolding set_eq using assms(5) by simp
  ultimately show ?thesis using assms(1,2,4,7) unfolding balanced_def by auto
qed

end

end
