(* ===== verification/PoolSystem.thy ===== *)
theory PoolSystem
  imports PagePool Generations
begin

text \<open>
  The device page pool together with everything its clients hold: vectors of page leases and
  reservations. One step is one call of a public method of \<open>DeviceKVPagePool\<close>,
  \<open>DeviceKVPageLease\<close> or \<open>DeviceKVPageReservation\<close> that returns normally, or the
  destruction of one of the objects; a call that throws checks before it writes and leaves the
  state as it was (the scratch marks of the duplicate scan apart). The steps are closed under
  every interleaving of clients, and the theorems hold in every state they reach from a
  fresh pool.
\<close>

record pool_sys =
  sy_pool :: page_pool
  sy_vectors :: "page_lease list list"
  sy_reservations :: "reservation list"

inductive pool_step :: "pool_sys \<Rightarrow> pool_sys \<Rightarrow> bool" where
  reserve: "pool_reserve n (sy_pool s) = Some (rv, p) \<Longrightarrow>
    pool_step s (s\<lparr>sy_pool := p, sy_reservations := sy_reservations s @ [rv]\<rparr>)"
| make_empty: "pool_step s (s\<lparr>sy_reservations := sy_reservations s @ [make_empty_reservation (sy_pool s)]\<rparr>)"
| resize: "i < length (sy_reservations s) \<Longrightarrow>
    resize_reservation (sy_reservations s ! i) n (sy_pool s) = Inr (rv, p) \<Longrightarrow>
    pool_step s (s\<lparr>sy_pool := p, sy_reservations := (sy_reservations s)[i := rv]\<rparr>)"
| clear: "i < length (sy_reservations s) \<Longrightarrow>
    reservation_clear (sy_reservations s ! i) (sy_pool s) = Inr (rv, p) \<Longrightarrow>
    pool_step s (s\<lparr>sy_pool := p, sy_reservations := (sy_reservations s)[i := rv]\<rparr>)"
| release: "i < length (sy_reservations s) \<Longrightarrow>
    reservation_release (sy_reservations s ! i) (sy_pool s) = Inr (rv, p) \<Longrightarrow>
    pool_step s (s\<lparr>sy_pool := p, sy_reservations := (sy_reservations s)[i := rv]\<rparr>)"
| vector: "pool_step s (s\<lparr>sy_vectors := sy_vectors s @ [[]]\<rparr>)"
| materialize: "i < length (sy_reservations s) \<Longrightarrow> j < length (sy_vectors s) \<Longrightarrow>
    materialize (sy_reservations s ! i) target (sy_vectors s ! j) room predecessor (sy_pool s) = Inr (rv, v, p) \<Longrightarrow>
    pool_step s (s\<lparr>sy_pool := p, sy_vectors := (sy_vectors s)[j := v],
                   sy_reservations := (sy_reservations s)[i := rv]\<rparr>)"
| materialize_one: "i < length (sy_reservations s) \<Longrightarrow>
    materialize_one (sy_reservations s ! i) (sy_pool s) = Inr (l, rv, p) \<Longrightarrow>
    pool_step s (s\<lparr>sy_pool := p, sy_vectors := sy_vectors s @ [[l]],
                   sy_reservations := (sy_reservations s)[i := rv]\<rparr>)"
| dematerialize: "i < length (sy_reservations s) \<Longrightarrow> j < length (sy_vectors s) \<Longrightarrow>
    dematerialize (sy_reservations s ! i) target (sy_vectors s ! j) (sy_pool s) = Inr (rv, v, p) \<Longrightarrow>
    pool_step s (s\<lparr>sy_pool := p, sy_vectors := (sy_vectors s)[j := v],
                   sy_reservations := (sy_reservations s)[i := rv]\<rparr>)"
| dematerialize_one: "i < length (sy_reservations s) \<Longrightarrow> j < length (sy_vectors s) \<Longrightarrow>
    k < length (sy_vectors s ! j) \<Longrightarrow>
    dematerialize_one (sy_reservations s ! i) (sy_vectors s ! j ! k) (sy_pool s) = Inr (rv, l, p) \<Longrightarrow>
    pool_step s (s\<lparr>sy_pool := p, sy_vectors := (sy_vectors s)[j := (sy_vectors s ! j)[k := l]],
                   sy_reservations := (sy_reservations s)[i := rv]\<rparr>)"
| lease_release: "j < length (sy_vectors s) \<Longrightarrow> k < length (sy_vectors s ! j) \<Longrightarrow>
    lease_release (sy_vectors s ! j ! k) (sy_pool s) = (b, l, p) \<Longrightarrow>
    pool_step s (s\<lparr>sy_pool := p, sy_vectors := (sy_vectors s)[j := (sy_vectors s ! j)[k := l]]\<rparr>)"
| move_assign: "j < length (sy_vectors s) \<Longrightarrow> k < length (sy_vectors s ! j) \<Longrightarrow>
    j' < length (sy_vectors s) \<Longrightarrow> k' < length (sy_vectors s ! j') \<Longrightarrow> (j, k) \<noteq> (j', k') \<Longrightarrow>
    lease_move_assign (sy_vectors s ! j ! k) (sy_vectors s ! j' ! k') (sy_pool s) = (l, l', p) \<Longrightarrow>
    vs = (sy_vectors s)[j := (sy_vectors s ! j)[k := l]] \<Longrightarrow>
    pool_step s (s\<lparr>sy_pool := p, sy_vectors := vs[j' := (vs ! j')[k' := l']]\<rparr>)"
| validate: "validate_distinct_pages pages (sy_pool s) = Inr p \<Longrightarrow> pool_step s (s\<lparr>sy_pool := p\<rparr>)"

inductive pool_reachable :: "pool_sys \<Rightarrow> bool" where
  init: "make_pool this backing layout = Inr p \<Longrightarrow>
    pool_reachable \<lparr>sy_pool = p, sy_vectors = [], sy_reservations = []\<rparr>"
| step: "pool_reachable s \<Longrightarrow> pool_step s t \<Longrightarrow> pool_reachable t"

section \<open>The invariant of the system\<close>

definition armed :: "page_lease list \<Rightarrow> page_lease multiset" where
  "armed ls = filter_mset (\<lambda>l. ls_owner l \<noteq> None) (mset ls)"

definition sys_leases :: "pool_sys \<Rightarrow> page_lease multiset" where
  "sys_leases s = armed (concat (sy_vectors s))"

definition promised :: "pool_sys \<Rightarrow> nat" where
  "promised s = sum_list (map rv_pages (sy_reservations s))"

definition reservation_ok :: "page_pool \<Rightarrow> reservation \<Rightarrow> bool" where
  "reservation_ok p rv \<longleftrightarrow> rv_owner rv = Some (pp_id p) \<or> rv_owner rv = None \<and> rv_pages rv = 0"

definition sys_ok :: "pool_sys \<Rightarrow> bool" where
  "sys_ok s \<longleftrightarrow> ledger (sy_pool s) (sys_leases s) \<and> promised s = pp_reserved_pages (sy_pool s) \<and>
     (\<forall>rv\<in>set (sy_reservations s). reservation_ok (sy_pool s) rv)"

lemma armed_simps [simp]:
  "armed [] = {#}" "armed (xs @ ys) = armed xs + armed ys"
  "armed (l # ls) = (if ls_owner l = None then {#} else {#l#}) + armed ls"
  by (simp_all add: armed_def)

lemma armed_all: "\<forall>l\<in>set ls. ls_owner l \<noteq> None \<Longrightarrow> armed ls = mset ls"
  by (induction ls) auto

lemma armed_list_update:
  assumes "k < length ls"
  shows "armed (ls[k := l]) + armed [ls ! k] = armed ls + armed [l]"
proof -
  have "ls = take k ls @ ls ! k # drop (Suc k) ls" using assms by (rule id_take_nth_drop)
  then have "armed ls = armed (take k ls) + armed [ls ! k] + armed (drop (Suc k) ls)"
    by (metis armed_simps(2,3) append_Cons append_Nil add.assoc)
  then show ?thesis by (simp add: upd_conv_take_nth_drop assms)
qed

lemma armed_concat_update:
  assumes "j < length vs"
  shows "armed (concat (vs[j := v])) + armed (vs ! j) = armed (concat vs) + armed v"
proof -
  have "concat vs = concat (take j vs) @ vs ! j @ concat (drop (Suc j) vs)"
    using id_take_nth_drop [OF assms] by (metis concat.simps(2) concat_append)
  then show ?thesis by (simp add: upd_conv_take_nth_drop assms)
qed

lemma armed_lease_update:
  assumes "j < length vs" and "k < length (vs ! j)"
  shows "armed (concat (vs[j := (vs ! j)[k := l]])) + armed [vs ! j ! k] = armed (concat vs) + armed [l]"
proof -
  have "armed (concat (vs[j := (vs ! j)[k := l]])) + armed (vs ! j) = armed (concat vs) + armed ((vs ! j)[k := l])"
    by (rule armed_concat_update [OF assms(1)])
  moreover have "armed ((vs ! j)[k := l]) + armed [vs ! j ! k] = armed (vs ! j) + armed [l]"
    by (rule armed_list_update [OF assms(2)])
  ultimately have "(armed (concat (vs[j := (vs ! j)[k := l]])) + armed [vs ! j ! k]) + armed (vs ! j) =
      (armed (concat vs) + armed [l]) + armed (vs ! j)"
    by (metis add.assoc add.commute)
  then show ?thesis by simp
qed

lemma armed_in_concat:
  assumes "j < length vs" and "k < length (vs ! j)" and "ls_owner (vs ! j ! k) \<noteq> None"
  shows "vs ! j ! k \<in># armed (concat vs)"
  using assms by (auto simp: armed_def intro!: bexI [of _ "vs ! j"])

lemma promised_update:
  assumes "i < length rvs"
  shows "sum_list (map rv_pages (rvs[i := rv])) + rv_pages (rvs ! i) = sum_list (map rv_pages rvs) + rv_pages rv"
  by (rule sum_list_update_nat [OF assms])

lemma promised_member: "rv \<in> set rvs \<Longrightarrow> rv_pages rv \<le> sum_list (map rv_pages rvs)"
  by (induction rvs) auto

lemma reservation_ok_same:
  "same_pool p q \<Longrightarrow> reservation_ok q rv = reservation_ok p rv"
  by (simp add: reservation_ok_def same_pool_def)

text \<open>How a step that changes one reservation and the leases keeps the invariant.\<close>

lemma sys_ok_update:
  assumes ok: "sys_ok s" and "i < length (sy_reservations s)"
    and p: "same_pool (sy_pool s) p" and L: "ledger p (armed (concat vs))"
    and own: "rv_owner rv = rv_owner (sy_reservations s ! i) \<or> rv_owner rv = None \<and> rv_pages rv = 0"
    and bal: "pp_reserved_pages p + rv_pages (sy_reservations s ! i) = pp_reserved_pages (sy_pool s) + rv_pages rv"
    and z: "rv_owner (sy_reservations s ! i) = None \<longrightarrow> rv_pages rv = 0"
  shows "sys_ok (s\<lparr>sy_pool := p, sy_vectors := vs, sy_reservations := (sy_reservations s)[i := rv]\<rparr>)"
proof -
  let ?rvs = "sy_reservations s"
  have "reservation_ok (sy_pool s) (?rvs ! i)" using ok assms(2) by (simp add: sys_ok_def)
  with own z have "reservation_ok p rv"
    using p by (auto simp: reservation_ok_def same_pool_def)
  moreover have "\<forall>r\<in>set ?rvs. reservation_ok p r"
    using ok p by (simp add: sys_ok_def reservation_ok_same)
  ultimately have "\<forall>r\<in>set (?rvs[i := rv]). reservation_ok p r"
    using set_update_subset_insert [of ?rvs i rv] by blast
  moreover have "sum_list (map rv_pages (?rvs[i := rv])) = pp_reserved_pages p"
    using promised_update [OF assms(2), of rv] bal ok by (simp add: sys_ok_def promised_def)
  ultimately show ?thesis using L by (simp add: sys_ok_def sys_leases_def promised_def)
qed

lemma sys_ok_leases:
  assumes "sys_ok s" and "same_pool (sy_pool s) p" and "ledger p (armed (concat vs))"
    and "pp_reserved_pages p = pp_reserved_pages (sy_pool s)"
  shows "sys_ok (s\<lparr>sy_pool := p, sy_vectors := vs\<rparr>)"
  using assms by (simp add: sys_ok_def sys_leases_def promised_def reservation_ok_same)

lemma sys_ok_pages:
  assumes "sys_ok s" and "i < length (sy_reservations s)"
  shows "rv_pages (sy_reservations s ! i) \<le> pp_reserved_pages (sy_pool s)"
  using assms promised_member [of "sy_reservations s ! i" "sy_reservations s"]
  by (simp add: sys_ok_def promised_def)


section \<open>Every step keeps it\<close>

lemma pool_reserve_ledger:
  assumes "ledger p L" and "pool_reserve n p = Some (rv, p')"
  shows "ledger p' L" "same_pool p p'" "rv_owner rv = Some (pp_id p)" "0 < rv_pages rv"
    "pp_reserved_pages p' = pp_reserved_pages p + rv_pages rv"
proof -
  have ok: "pool_ok p" using assms(1) by (simp add: ledger_def)
  have n: "0 < n" "n \<le> capacity_pages p - pp_allocated_pages p - pp_reserved_pages p"
    and rv: "rv = \<lparr>rv_owner = Some (pp_id p), rv_pages = n\<rparr>"
    and p': "p' = p\<lparr>pp_reserved_pages := u32_add (pp_reserved_pages p) n\<rparr>"
    using assms(2) pool_ok_available(1) [OF ok] by (auto simp: pool_reserve_def split: if_splits)
  have b: "pp_allocated_pages p + (pp_reserved_pages p + n) \<le> capacity_pages p" "capacity_pages p \<le> int32_max"
    using ok n by (simp_all add: pool_ok_def)
  then have "p' = p\<lparr>pp_reserved_pages := pp_reserved_pages p + n\<rparr>" by (simp add: p' unsigned_arith)
  with ledger_reserved [OF assms(1) b(1)] rv n
  show "ledger p' L" "same_pool p p'" "rv_owner rv = Some (pp_id p)" "0 < rv_pages rv"
    "pp_reserved_pages p' = pp_reserved_pages p + rv_pages rv" by simp_all
qed

lemma resize_ledger:
  assumes "ledger p L" and "resize_reservation rv n p = Inr (rv', p')"
  shows "ledger p' L" "same_pool p p'" "rv_owner rv = Some (pp_id p)" "rv' = rv\<lparr>rv_pages := n\<rparr>"
    "pp_reserved_pages p' + rv_pages rv = pp_reserved_pages p + n"
proof -
  have b0: "pp_allocated_pages p + pp_reserved_pages p \<le> capacity_pages p" "capacity_pages p \<le> int32_max"
    using assms(1) by (simp_all add: ledger_def pool_ok_def)
  have g: "rv_owner rv = Some (pp_id p)" "rv_pages rv \<le> pp_reserved_pages p"
    "pp_allocated_pages p + u32_sub (pp_reserved_pages p) (rv_pages rv) + n \<le> capacity_pages p"
    and rv': "rv' = rv\<lparr>rv_pages := n\<rparr>"
    and p': "p' = p\<lparr>pp_reserved_pages := u32_add (u32_sub (pp_reserved_pages p) (rv_pages rv)) n\<rparr>"
    using assms(2) by (auto simp: resize_reservation_def can_resize_reservation_def split: if_splits)
  have sub: "u32_sub (pp_reserved_pages p) (rv_pages rv) = pp_reserved_pages p - rv_pages rv"
    using g(2) b0 by (simp add: u32_sub_small)
  have b: "pp_allocated_pages p + (pp_reserved_pages p - rv_pages rv + n) \<le> capacity_pages p"
    using g(3) sub by simp
  have "p' = p\<lparr>pp_reserved_pages := pp_reserved_pages p - rv_pages rv + n\<rparr>"
    using b b0 by (simp add: p' sub u32_add_small)
  with ledger_reserved [OF assms(1) b] g rv'
  show "ledger p' L" "same_pool p p'" "rv_owner rv = Some (pp_id p)" "rv' = rv\<lparr>rv_pages := n\<rparr>"
    "pp_reserved_pages p' + rv_pages rv = pp_reserved_pages p + n" by simp_all
qed

lemma release_reservation_ledger:
  assumes "ledger p L" and "n \<le> pp_reserved_pages p"
  obtains p' where "release_reservation n p = Inr p'" "ledger p' L" "same_pool p p'"
    "pp_reserved_pages p' + n = pp_reserved_pages p"
proof
  have b: "pp_allocated_pages p + pp_reserved_pages p \<le> capacity_pages p" "capacity_pages p \<le> int32_max"
    using assms(1) by (simp_all add: ledger_def pool_ok_def)
  let ?p = "p\<lparr>pp_reserved_pages := pp_reserved_pages p - n\<rparr>"
  show "release_reservation n p = Inr ?p" using assms(2) b by (simp add: release_reservation_def u32_sub_small)
  show "ledger ?p L" "same_pool p ?p" using ledger_reserved [OF assms(1), of "pp_reserved_pages p - n"] b by simp_all
  show "pp_reserved_pages ?p + n = pp_reserved_pages p" using assms(2) by simp
qed

lemma reservation_end_ledger:
  assumes "ledger p L" and "rv_pages rv \<le> pp_reserved_pages p" and "reservation_ok p rv"
  shows "\<exists>rv' p'. reservation_clear rv p = Inr (rv', p') \<and> ledger p' L \<and> same_pool p p' \<and>
      rv_owner rv' = rv_owner rv \<and> rv_pages rv' = 0 \<and> pp_reserved_pages p' + rv_pages rv = pp_reserved_pages p"
    and "\<exists>rv' p'. reservation_release rv p = Inr (rv', p') \<and> ledger p' L \<and> same_pool p p' \<and>
      rv_owner rv' = None \<and> rv_pages rv' = 0 \<and> pp_reserved_pages p' + rv_pages rv = pp_reserved_pages p"
proof -
  from release_reservation_ledger [OF assms(1,2)] obtain p' where
    r: "release_reservation (rv_pages rv) p = Inr p'" "ledger p' L" "same_pool p p'"
    "pp_reserved_pages p' + rv_pages rv = pp_reserved_pages p" by blast
  show "\<exists>rv' p'. reservation_clear rv p = Inr (rv', p') \<and> ledger p' L \<and> same_pool p p' \<and>
      rv_owner rv' = rv_owner rv \<and> rv_pages rv' = 0 \<and> pp_reserved_pages p' + rv_pages rv = pp_reserved_pages p"
    using r assms(1,3) by (cases "rv_owner rv = None \<or> rv_pages rv = 0") (auto simp: reservation_clear_def reservation_ok_def)
  show "\<exists>rv' p'. reservation_release rv p = Inr (rv', p') \<and> ledger p' L \<and> same_pool p p' \<and>
      rv_owner rv' = None \<and> rv_pages rv' = 0 \<and> pp_reserved_pages p' + rv_pages rv = pp_reserved_pages p"
    using r assms(1,3) by (cases "rv_owner rv") (auto simp: reservation_release_def reservation_ok_def)
qed

text \<open>Releasing one lease of one vector, armed or not.\<close>

lemma release_in_vector:
  assumes "sys_ok s" and "j < length (sy_vectors s)" and "k < length (sy_vectors s ! j)"
    and r: "lease_release (sy_vectors s ! j ! k) (sy_pool s) = (b, l, p)"
  shows "sys_ok (s\<lparr>sy_pool := p, sy_vectors := (sy_vectors s)[j := (sy_vectors s ! j)[k := l]]\<rparr>)"
    and "ls_owner l = None"
proof -
  let ?vs = "sy_vectors s" and ?l = "sy_vectors s ! j ! k" and ?p = "sy_pool s"
  have L: "ledger ?p (armed (concat ?vs))" using assms(1) by (simp add: sys_ok_def sys_leases_def)
  note upd = armed_lease_update [OF assms(2,3), of l]
  show "sys_ok (s\<lparr>sy_pool := p, sy_vectors := ?vs[j := (?vs ! j)[k := l]]\<rparr>)"
  proof (cases "ls_owner ?l = None")
    case True
    with r have "l = ?l" "p = ?p" by (auto simp: lease_release_def)
    then show ?thesis using assms(1) by (simp add: sys_ok_def)
  next
    case False
    from armed_in_concat [OF assms(2,3) False] have m: "?l \<in># armed (concat ?vs)" .
    have l: "l = empty_lease" and p: "p = release_page (ls_index ?l) (ls_generation ?l) ?p"
      using r lease_release_ledger [OF L m] by auto
    note rel = release_page_ledger [OF L m p]
    have "armed (concat (?vs[j := (?vs ! j)[k := l]])) = armed (concat ?vs) - {#?l#}"
      using upd False l by (simp add: empty_lease_def) (metis add_mset_remove_trivial)
    with rel assms(1) show ?thesis by (intro sys_ok_leases) simp_all
  qed
  show "ls_owner l = None"
    using r by (auto simp: lease_release_def empty_lease_def split: if_splits)
qed


lemma nested_update_other:
  assumes "j < length vs" "k < length (vs ! j)" "j' < length vs" "k' < length (vs ! j')" "(j, k) \<noteq> (j', k')"
  shows "vs[j := (vs ! j)[k := l]] ! j' ! k' = vs ! j' ! k'"
    and "j' < length (vs[j := (vs ! j)[k := l]])" "k' < length (vs[j := (vs ! j)[k := l]] ! j')"
  using assms by (auto simp: nth_list_update)

lemma mset_exchange:
  fixes f g v w a x :: "'a multiset"
  assumes "w + a = v + x" and "f + x = w" and "g + a = v"
  shows "f = g"
proof (rule multiset_eqI)
  fix y
  have "count w y + count a y = count v y + count x y" "count f y + count x y = count w y"
    "count g y + count a y = count v y"
    using assms by (metis count_union)+
  then show "count f y = count g y" by linarith
qed

lemma mset_cancel:
  fixes a b c d :: "'a multiset"
  assumes "a + b = c + (b + d)"
  shows "a = c + d"
proof -
  have "a + b = (c + d) + b" using assms by (simp add: ac_simps)
  then show ?thesis by simp
qed

lemma armed_move_assign:
  assumes "j < length vs" "k < length (vs ! j)" "j' < length vs" "k' < length (vs ! j')" "(j, k) \<noteq> (j', k')"
    and vs2: "vs2 = vs[j := (vs ! j)[k := vs ! j' ! k']]" and "ls_owner l0 = None"
  shows "armed (concat (vs2[j' := (vs2 ! j')[k' := empty_lease]])) = armed (concat (vs[j := (vs ! j)[k := l0]]))"
proof -
  note o = nested_update_other [OF assms(1-5), of "vs ! j' ! k'", folded vs2]
  have 1: "armed (concat vs2) + armed [vs ! j ! k] = armed (concat vs) + armed [vs ! j' ! k']"
    unfolding vs2 by (rule armed_lease_update [OF assms(1,2)])
  have 2: "armed (concat (vs2[j' := (vs2 ! j')[k' := empty_lease]])) + armed [vs ! j' ! k'] = armed (concat vs2)"
    using armed_lease_update [OF o(2,3), of empty_lease] o(1) by (simp add: empty_lease_def)
  have 3: "armed (concat (vs[j := (vs ! j)[k := l0]])) + armed [vs ! j ! k] = armed (concat vs)"
    using armed_lease_update [OF assms(1,2), of l0] assms(7) by simp
  from 1 2 3 show ?thesis by (rule mset_exchange)
qed

lemma leases_valid_armed: "leases_valid p ls \<Longrightarrow> armed ls = mset ls"
  by (rule armed_all) (auto simp: leases_valid_def)

lemma armed_sub_concat:
  assumes "j < length vs"
  shows "armed (vs ! j) \<subseteq># armed (concat vs)"
  using armed_concat_update [OF assms, of "[]"] by (metis add.commute add.right_neutral armed_simps(1) mset_subset_eq_add_left)

lemma pool_step_ok: "pool_step s t \<Longrightarrow> sys_ok s \<Longrightarrow> sys_ok t"
proof (induction rule: pool_step.induct)
  case (reserve n s rv p)
  then have L: "ledger (sy_pool s) (sys_leases s)" by (simp add: sys_ok_def)
  note r = pool_reserve_ledger [OF L reserve.hyps]
  have "reservation_ok p rv" using r by (simp add: reservation_ok_def same_pool_def)
  then show ?case using reserve.prems r
    by (auto simp: sys_ok_def sys_leases_def promised_def reservation_ok_same)
next
  case (make_empty s)
  then show ?case
    by (auto simp: sys_ok_def sys_leases_def promised_def make_empty_reservation_def reservation_ok_def)
next
  case (resize i s n rv p)
  then have L: "ledger (sy_pool s) (armed (concat (sy_vectors s)))" by (simp add: sys_ok_def sys_leases_def)
  note r = resize_ledger [OF L resize.hyps(2)]
  show ?case using sys_ok_update [OF resize.prems resize.hyps(1) r(2) r(1)] r by simp
next
  case (clear i s rv p)
  let ?rv = "sy_reservations s ! i"
  have L: "ledger (sy_pool s) (armed (concat (sy_vectors s)))" and o: "reservation_ok (sy_pool s) ?rv"
    using clear by (simp_all add: sys_ok_def sys_leases_def)
  from reservation_end_ledger(1) [OF L sys_ok_pages [OF clear.prems clear.hyps(1)] o] clear.hyps(2)
  have r: "ledger p (armed (concat (sy_vectors s)))" "same_pool (sy_pool s) p" "rv_owner rv = rv_owner ?rv"
    "rv_pages rv = 0" "pp_reserved_pages p + rv_pages ?rv = pp_reserved_pages (sy_pool s)" by auto
  show ?case using sys_ok_update [OF clear.prems clear.hyps(1) r(2) r(1)] r by simp
next
  case (release i s rv p)
  let ?rv = "sy_reservations s ! i"
  have L: "ledger (sy_pool s) (armed (concat (sy_vectors s)))" and o: "reservation_ok (sy_pool s) ?rv"
    using release by (simp_all add: sys_ok_def sys_leases_def)
  from reservation_end_ledger(2) [OF L sys_ok_pages [OF release.prems release.hyps(1)] o] release.hyps(2)
  have r: "ledger p (armed (concat (sy_vectors s)))" "same_pool (sy_pool s) p" "rv_owner rv = None"
    "rv_pages rv = 0" "pp_reserved_pages p + rv_pages ?rv = pp_reserved_pages (sy_pool s)" by auto
  show ?case using sys_ok_update [OF release.prems release.hyps(1) r(2) r(1)] r by simp
next
  case (vector s)
  then show ?case by (simp add: sys_ok_def sys_leases_def promised_def)
next
  case (materialize i s j target room predecessor rv v p)
  let ?rv = "sy_reservations s ! i" and ?vs = "sy_vectors s"
  have L: "ledger (sy_pool s) (armed (concat ?vs))" using materialize.prems by (simp add: sys_ok_def sys_leases_def)
  from materialize_ledger [OF L sys_ok_pages [OF materialize.prems materialize.hyps(1)] materialize.hyps(3)]
  obtain new where r: "v = ?vs ! j @ new" "ledger p (armed (concat ?vs) + mset new)" "same_pool (sy_pool s) p"
    "rv_owner rv = rv_owner ?rv" "rv_pages rv + length new = rv_pages ?rv"
    "pp_reserved_pages p + length new = pp_reserved_pages (sy_pool s)" by blast
  have "\<forall>l\<in>set new. ls_owner l \<noteq> None" using r(2) by (auto simp: ledger_def)
  then have "armed v = armed (?vs ! j) + mset new" using r(1) armed_all by simp
  then have "armed (concat (?vs[j := v])) = armed (concat ?vs) + mset new"
    using armed_concat_update [OF materialize.hyps(2), of v] mset_cancel by metis
  then show ?case using sys_ok_update [OF materialize.prems materialize.hyps(1) r(3)] r
      materialize_guards(1) [OF materialize.hyps(3)] by simp
next
  case (materialize_one i s l rv p)
  let ?rv = "sy_reservations s ! i"
  have L: "ledger (sy_pool s) (armed (concat (sy_vectors s)))"
    using materialize_one.prems by (simp add: sys_ok_def sys_leases_def)
  note r = materialize_one_ledger [OF L sys_ok_pages [OF materialize_one.prems materialize_one.hyps(1)] materialize_one.hyps(2)]
  have "ls_owner l \<noteq> None" using r(1) by (auto simp: ledger_def)
  then have "ledger p (armed (concat (sy_vectors s @ [[l]])))" using r(1) by auto
  moreover have "rv_owner ?rv \<noteq> None" using materialize_one.hyps(2) by (auto simp: materialize_one_def)
  ultimately show ?case using r
    by (intro sys_ok_update [OF materialize_one.prems materialize_one.hyps(1) r(2)]) auto
next
  case (dematerialize i s j target rv v p)
  let ?rv = "sy_reservations s ! i" and ?vs = "sy_vectors s"
  have L: "ledger (sy_pool s) (armed (concat ?vs))" using dematerialize.prems by (simp add: sys_ok_def sys_leases_def)
  note g = dematerialize_guards [OF dematerialize.hyps(3)]
  have a: "armed (?vs ! j) = mset (?vs ! j)" using leases_valid_armed [OF g(3)] .
  have sub: "mset (?vs ! j) \<subseteq># armed (concat ?vs)" using armed_sub_concat [OF dematerialize.hyps(2)] a by simp
  note r = dematerialize_ledger [OF L sub sys_ok_pages [OF dematerialize.prems dematerialize.hyps(1)] dematerialize.hyps(3)]
  have "leases_valid (sy_pool s) v" using g(3,4) by (auto simp: leases_valid_def dest: in_set_takeD)
  then have v: "armed v = mset v" by (rule leases_valid_armed)
  have "mset (?vs ! j) = mset v + mset (drop target (?vs ! j))" using g(4) by (metis append_take_drop_id mset_append)
  with armed_concat_update [OF dematerialize.hyps(2), of v] a v
  have "(armed (concat (?vs[j := v])) + mset (drop target (?vs ! j))) + mset v = armed (concat ?vs) + mset v"
    by (metis add.assoc add.commute)
  then have "armed (concat (?vs[j := v])) = armed (concat ?vs) - mset (drop target (?vs ! j))"
    by (metis add_diff_cancel_right' add_right_imp_eq)
  then show ?case using sys_ok_update [OF dematerialize.prems dematerialize.hyps(1)] r g(1) by simp
next
  case (dematerialize_one i s j k rv l p)
  let ?rv = "sy_reservations s ! i" and ?vs = "sy_vectors s" and ?l = "sy_vectors s ! j ! k"
  have L: "ledger (sy_pool s) (armed (concat ?vs))" using dematerialize_one.prems by (simp add: sys_ok_def sys_leases_def)
  have o: "ls_owner ?l \<noteq> None" "rv_owner ?rv \<noteq> None"
    using dematerialize_one.hyps(4) by (auto simp: dematerialize_one_def split: if_splits)
  note m = armed_in_concat [OF dematerialize_one.hyps(2,3) o(1)]
  note r = dematerialize_one_ledger [OF L m sys_ok_pages [OF dematerialize_one.prems dematerialize_one.hyps(1)] dematerialize_one.hyps(4)]
  have "armed (concat (?vs[j := (?vs ! j)[k := l]])) = armed (concat ?vs) - {#?l#}"
    using armed_lease_update [OF dematerialize_one.hyps(2,3), of l] o(1) r(3)
    by (simp add: empty_lease_def) (metis add_mset_remove_trivial)
  then show ?case using sys_ok_update [OF dematerialize_one.prems dematerialize_one.hyps(1) r(2)] r o(2) by simp
next
  case (lease_release j s k b l p)
  then show ?case using release_in_vector(1) by blast
next
  case (move_assign j s k j' k' l l' p vs)
  let ?vs = "sy_vectors s"
  obtain b l0 where r: "lease_release (?vs ! j ! k) (sy_pool s) = (b, l0, p)"
    and l: "l = ?vs ! j' ! k'" "l' = empty_lease"
    using move_assign.hyps(6) by (auto simp: lease_move_assign_def split: prod.splits)
  note v = release_in_vector [OF move_assign.prems move_assign.hyps(1,2) r]
  have "armed (concat (vs[j' := (vs ! j')[k' := l']])) = armed (concat (?vs[j := (?vs ! j)[k := l0]]))"
    using armed_move_assign [OF move_assign.hyps(1-5) _ v(2)] move_assign.hyps(7) l by simp
  then show ?case using v(1) by (simp add: sys_ok_def sys_leases_def promised_def)
next
  case (validate pages s p)
  have L: "ledger (sy_pool s) (armed (concat (sy_vectors s)))" using validate.prems by (simp add: sys_ok_def sys_leases_def)
  note r = validate_distinct_pages_ledger [OF L validate.hyps]
  from r(3) have "pp_reserved_pages p = pp_reserved_pages (sy_pool s)" by auto
  with sys_ok_leases [OF validate.prems r(2) r(1)] show ?case by simp
qed

lemma pool_reachable_ok: "pool_reachable s \<Longrightarrow> sys_ok s"
proof (induction rule: pool_reachable.induct)
  case (init this backing layout p)
  then show ?case using make_pool_ledger [OF init] by (simp add: sys_ok_def sys_leases_def promised_def)
qed (rule pool_step_ok)


section \<open>Page handles as slots with generations\<close>

text \<open>A pool in good order has a ledger: one lease on each allocated page.\<close>

lemma pool_ok_ledger:
  assumes "pool_ok p"
  shows "ledger p (image_mset (new_lease p) (mset_set (used_pages p)))"
proof -
  have "image_mset ls_index (image_mset (new_lease p) (mset_set (used_pages p))) = image_mset int (mset_set (used_pages p))"
    by (simp add: image_mset.compositionality comp_def new_lease_def)
  also have "\<dots> = mset_set (int ` used_pages p)" by (simp add: image_mset_mset_set)
  finally show ?thesis using assms by (simp add: ledger_def new_lease_def)
qed

interpretation pages: generation_slots pool_ok capacity_pages "\<lambda>p i. pp_allocated p ! i"
  "\<lambda>p i. pp_generations p ! i" "\<lambda>i p. release_page (int i) (pp_generations p ! i) p"
proof
  fix p i assume ok: "pool_ok p" and i: "i < capacity_pages p"
  show "pp_generations p ! i \<noteq> 0" using ok i by (metis nth_mem pool_ok_def)
  assume u: "pp_allocated p ! i"
  let ?l = "new_lease p i" and ?q = "release_page (int i) (pp_generations p ! i) p"
  have m: "?l \<in># image_mset (new_lease p) (mset_set (used_pages p))" using i u by (simp add: used_pages_def)
  have q: "?q = release_page (ls_index ?l) (ls_generation ?l) p" by (simp add: new_lease_def)
  note r = release_page_ledger [OF pool_ok_ledger [OF ok] m q]
  show "pool_ok ?q" using r(1) by (simp add: ledger_def)
  show "capacity_pages ?q = capacity_pages p" using r(2) by (simp add: same_pool_def capacity_pages_def)
  have len: "i < length (pp_allocated p)" "i < length (pp_generations p)" using ok i by (simp_all add: pool_ok_def)
  have a: "pp_allocated ?q = (pp_allocated p)[i := False]" using i u by (simp add: release_page_def)
  show "\<not> pp_allocated ?q ! i \<and> pp_generations ?q ! i = increment_generation (pp_generations p ! i)"
    using r(4) a len by (simp add: new_lease_def)
  show "pp_allocated ?q ! j = pp_allocated p ! j \<and> pp_generations ?q ! j = pp_generations p ! j" if "j \<noteq> i" for j
    using r(4) a that by (simp add: new_lease_def)
qed

section \<open>Properties\<close>

text \<open>A concrete pool for the witnesses: eight pages of one small plane.\<close>

definition demo_plane :: plane_geometry where
  "demo_plane = \<lparr>pg_dtype = U8, pg_leading_extent = 1, pg_head_extent = 1, pg_alignment = 256\<rparr>"

definition demo_layout :: pool_layout where
  "demo_layout =
     \<lparr>lay_spec = \<lparr>ps_page_group_count = 8,
                  ps_geometry = \<lparr>gm_page_tokens = 64, gm_plane_order = PageMajor, gm_planes = [demo_plane]\<rparr>\<rparr>,
      lay_planes = [\<lparr>pl_geometry = demo_plane,
                     pl_storage = \<lparr>tr_region = \<lparr>lr_offset = 0, lr_bytes = 512, lr_alignment = 256\<rparr>,
                                   tr_dtype = U8, tr_shape = [1, 64, 1, 8]\<rparr>\<rparr>]\<rparr>"

definition demo_pool :: page_pool where
  "demo_pool =
     \<lparr>pp_id = 1, pp_spec = lay_spec demo_layout,
      pp_planes = [\<lparr>t_data = 4096, t_dtype = U8, t_ne = [1, 64, 1, 8], t_nb = [1, 1, 64, 64]\<rparr>],
      pp_runs = [\<lparr>r_begin = 0, r_count = 8\<rparr>], pp_generations = replicate 8 1,
      pp_allocated = replicate 8 False, pp_marks = replicate 8 0, pp_stamp = 0,
      pp_allocated_pages = 0, pp_reserved_pages = 0\<rparr>"

lemma demo_tensor:
  "make_tensor a U8 [1, 64, 1, 8] = Inr \<lparr>t_data = a, t_dtype = U8, t_ne = [1, 64, 1, 8], t_nb = [1, 1, 64, 64]\<rparr>"
  "bytes \<lparr>t_data = a, t_dtype = U8, t_ne = [1, 64, 1, 8], t_nb = nb\<rparr> = Inr 512"
  by (simp_all add: make_tensor_def normalize_shape_def set_contiguous_strides_def checked_mul_i64_def
      bytes_def numel_def shape_numel_def Let_def numeral_3_eq_3)

lemma demo_make: "make_pool 1 \<lparr>ds_data = 4096, ds_bytes = 512\<rparr> demo_layout = Inr demo_pool"
  by (simp add: make_pool_def demo_layout_def demo_plane_def demo_pool_def validate_geometry_def
      kPagedKVPageSize_def checked_i32_def bind_plane_def tensor_region_bind_def demo_tensor
      region_bind_def is_power_of_two_def Let_def)

text \<open>Three pages reserved and materialized into one vector.\<close>

definition demo_leases :: "page_lease list" where
  "demo_leases = map (\<lambda>i. \<lparr>ls_owner = Some 1, ls_index = i, ls_generation = 1\<rparr>) [0, 1, 2]"

definition demo_used :: page_pool where
  "demo_used = demo_pool\<lparr>pp_runs := [\<lparr>r_begin = 3, r_count = 5\<rparr>],
     pp_allocated := [True, True, True, False, False, False, False, False],
     pp_allocated_pages := 3, pp_reserved_pages := 1\<rparr>"

definition demo_sys :: pool_sys where
  "demo_sys = \<lparr>sy_pool = demo_used, sy_vectors = [demo_leases], sy_reservations = [\<lparr>rv_owner = Some 1, rv_pages = 1\<rparr>]\<rparr>"

lemma replicate_8: "replicate 8 x = [x, x, x, x, x, x, x, x]"
  by (simp add: numeral_eq_Suc)

lemma demo_reserve:
  "pool_reserve 4 demo_pool = Some (\<lparr>rv_owner = Some 1, rv_pages = 4\<rparr>, demo_pool\<lparr>pp_reserved_pages := 4\<rparr>)"
  by (simp add: pool_reserve_def available_pages_def capacity_pages_def demo_pool_def demo_layout_def
      u32_sub_def u32_add_def)

lemma demo_materialize:
  "materialize \<lparr>rv_owner = Some 1, rv_pages = 4\<rparr> 3 [] 3 None (demo_pool\<lparr>pp_reserved_pages := 4\<rparr>) =
     Inr (\<lparr>rv_owner = Some 1, rv_pages = 1\<rparr>, demo_leases, demo_used)"
  by (simp add: materialize_def Let_def demo_pool_def demo_used_def demo_leases_def demo_layout_def capacity_pages_def
      u32_sub_def u32_add_def choose_pages_def select_preferred_def select_first_fit_def consume_free_run_def
      upt_rec replicate_8 append_page_def)

lemma demo_reachable: "pool_reachable demo_sys"
proof -
  let ?s0 = "\<lparr>sy_pool = demo_pool, sy_vectors = [], sy_reservations = []\<rparr>"
  let ?s1 = "\<lparr>sy_pool = demo_pool\<lparr>pp_reserved_pages := 4\<rparr>, sy_vectors = [],
              sy_reservations = [\<lparr>rv_owner = Some 1, rv_pages = 4\<rparr>]\<rparr>"
  have "pool_reachable ?s0" by (rule pool_reachable.init [OF demo_make])
  moreover have "pool_step ?s0 ?s1" using pool_step.reserve [of 4 ?s0] demo_reserve by simp
  ultimately have "pool_reachable ?s1" by (rule pool_reachable.step)
  moreover have "pool_step ?s1 (?s1\<lparr>sy_vectors := [[]]\<rparr>)" using pool_step.vector [of ?s1] by simp
  ultimately have "pool_reachable (?s1\<lparr>sy_vectors := [[]]\<rparr>)" by (rule pool_reachable.step)
  moreover have "pool_step (?s1\<lparr>sy_vectors := [[]]\<rparr>) demo_sys"
    using pool_step.materialize [of 0 "?s1\<lparr>sy_vectors := [[]]\<rparr>" 0 3 3 None] demo_materialize
    by (simp add: demo_sys_def)
  ultimately show ?thesis by (rule pool_reachable.step)
qed


text \<open>
  C1. In every reachable state the armed leases, wherever they are held, name pairwise different
  pages, each is a valid handle of the pool, and there are as many as the pool counts as
  allocated: no page is leased twice and none is lost.
\<close>

theorem leases_exclusive:
  assumes "pool_reachable s" and "ls = filter (\<lambda>l. ls_owner l \<noteq> None) (concat (sy_vectors s))"
  shows "distinct (map ls_index ls) \<and> (\<forall>l\<in>set ls. pool_valid_handle (sy_pool s) (lease_handle l)) \<and>
    length ls = pp_allocated_pages (sy_pool s)"
proof -
  have L: "ledger (sy_pool s) (sys_leases s)" using pool_reachable_ok [OF assms(1)] by (simp add: sys_ok_def)
  have m: "mset ls = sys_leases s" by (simp add: assms(2) sys_leases_def armed_def mset_filter)
  have "mset (map ls_index ls) = mset_set (int ` used_pages (sy_pool s))"
    using L m by (simp add: ledger_def)
  then have "distinct (map ls_index ls)"
    by (rule mset_set_distinct) simp
  moreover have "\<forall>l\<in>set ls. pool_valid_handle (sy_pool s) (lease_handle l)"
    using ledger_valid [OF L] by (metis m set_mset_mset)
  moreover have "length ls = pp_allocated_pages (sy_pool s)"
    using ledger_size [OF L] m by (metis size_mset)
  ultimately show ?thesis by blast
qed

theorem leases_exclusive_witness:
  "distinct (map ls_index demo_leases) \<and> pp_allocated_pages (sy_pool demo_sys) = 3"
  using leases_exclusive [OF demo_reachable refl]
  by (simp add: demo_sys_def demo_leases_def)

text \<open>
  C2. Capacity is conserved: in every reachable state the pages available, the pages leased and
  the pages promised to reservations add up to the capacity, and none of the three counters of the
  pool has wrapped around.
\<close>

theorem capacity_conserved:
  assumes "pool_reachable s"
  shows "available_pages (sy_pool s) + size (sys_leases s) + promised s = capacity_pages (sy_pool s) \<and>
    pp_reserved_pages (sy_pool s) = promised s"
proof -
  have ok: "sys_ok s" by (rule pool_reachable_ok [OF assms])
  then have L: "ledger (sy_pool s) (sys_leases s)" and p: "pp_reserved_pages (sy_pool s) = promised s"
    by (simp_all add: sys_ok_def)
  then have "pool_ok (sy_pool s)" by (simp add: ledger_def)
  with pool_ok_available(1) [OF this] ledger_size [OF L] p show ?thesis by (simp add: pool_ok_def)
qed

theorem capacity_conserved_witness:
  "available_pages demo_used = 4 \<and> size (sys_leases demo_sys) = 3 \<and> promised demo_sys = 1 \<and>
   available_pages demo_used + size (sys_leases demo_sys) + promised demo_sys = capacity_pages demo_used"
  using capacity_conserved [OF demo_reachable]
  by (simp add: demo_sys_def available_pages_def capacity_pages_def demo_used_def demo_pool_def
      demo_layout_def u32_sub_def promised_def sys_leases_def demo_leases_def)

text \<open>
  C3. \<open>materialize\<close> is total behind its guards: for a reservation and a vector of a reachable
  state, a target within the reservation and the capacity of the vector, and a valid predecessor, it
  returns normally (neither its \<open>logic_error\<close> nor the \<open>terminate\<close> of the free list is
  reachable) and appends leases on pages that were free.
\<close>

theorem materialize_total:
  assumes "pool_reachable s" and "rv \<in> set (sy_reservations s)" and "dest \<in> set (sy_vectors s)"
    and "rv_owner rv \<noteq> None" and "\<forall>l\<in>set dest. ls_owner l \<noteq> None"
    and "length dest \<le> target" and "target - length dest \<le> rv_pages rv" and "target \<le> room"
    and "\<forall>h. predecessor = Some h \<longrightarrow> pool_valid_handle (sy_pool s) h"
  shows "\<exists>rv' new p'. materialize rv target dest room predecessor (sy_pool s) = Inr (rv', dest @ new, p') \<and>
    length (dest @ new) = target \<and> (\<forall>l\<in>set new. nat (ls_index l) \<in> free_pages (sy_pool s))"
proof -
  have ok: "sys_ok s" by (rule pool_reachable_ok [OF assms(1)])
  then have L: "ledger (sy_pool s) (sys_leases s)" by (simp add: sys_ok_def)
  have own: "rv_owner rv = Some (pp_id (sy_pool s))" using ok assms(2,4) by (auto simp: sys_ok_def reservation_ok_def)
  have pg: "rv_pages rv \<le> pp_reserved_pages (sy_pool s)"
    using promised_member [OF assms(2)] ok by (simp add: sys_ok_def promised_def)
  have "l \<in># sys_leases s" if "l \<in> set dest" for l
    using that assms(3,5) by (auto simp: sys_leases_def armed_def)
  then have valid: "leases_valid (sy_pool s) dest"
    using ledger_lease(3) [OF L] ledger_valid [OF L] by (simp add: leases_valid_def)
  show ?thesis
  proof (cases "length dest = target")
    case True
    then have "materialize rv target dest room predecessor (sy_pool s) = Inr (rv, dest @ [], sy_pool s)"
      using own assms(6-8) valid unfolding materialize_def Let_def rcheck_leases by simp
    then show ?thesis using True by (intro exI [of _ rv] exI [of _ "[]"] exI [of _ "sy_pool s"]) simp
  next
    case False
    then have "length dest < target" using assms(6) by simp
    from materialize_take [OF L own pg this assms(7,8) valid assms(9)]
    obtain pages p' where m: "length pages = target - length dest" "set pages \<subseteq> free_pages (sy_pool s)"
      "materialize rv target dest room predecessor (sy_pool s) =
         Inr (rv\<lparr>rv_pages := rv_pages rv - length pages\<rparr>, dest @ map (new_lease (sy_pool s)) pages, p')" by blast
    then show ?thesis using assms(6) by (intro exI conjI) (auto simp: new_lease_def subsetD)
  qed
qed

theorem materialize_total_witness:
  "\<exists>rv' new p'. materialize \<lparr>rv_owner = Some 1, rv_pages = 1\<rparr> 4 demo_leases 4 None demo_used = Inr (rv', demo_leases @ new, p') \<and>
    length (demo_leases @ new) = 4 \<and> (\<forall>l\<in>set new. nat (ls_index l) \<in> free_pages demo_used)"
  using materialize_total [OF demo_reachable, of "\<lparr>rv_owner = Some 1, rv_pages = 1\<rparr>" demo_leases 4 4 None]
  by (simp add: demo_sys_def demo_leases_def)


lemma materialize_generations:
  "materialize rv target dest room predecessor p = Inr (rv', dest', p') \<Longrightarrow>
     pp_generations p' = pp_generations p \<and> pp_id p' = pp_id p \<and> pp_marks p' = pp_marks p \<and> pp_stamp p' = pp_stamp p"
  by (auto simp: materialize_def Let_def rbind_Inr_iff fold_append_page split: if_splits option.splits prod.splits)

lemma destroy_leases_marks:
  "pp_marks (destroy_leases ls p) = pp_marks p \<and> pp_stamp (destroy_leases ls p) = pp_stamp p"
proof (induction ls arbitrary: p)
  case (Cons l ls)
  have "pp_marks (snd (snd (lease_release l p))) = pp_marks p" "pp_stamp (snd (snd (lease_release l p))) = pp_stamp p"
    by (simp_all add: lease_release_def release_page_def Let_def)
  with Cons [of "snd (snd (lease_release l p))"] show ?case by (simp add: destroy_leases_def)
qed (simp add: destroy_leases_def)

text \<open>Two pools with the same ledger differ at most in counters that are not part of it.\<close>

lemma ledger_determines:
  assumes "ledger p L" and "ledger q L" and "same_pool p q"
  shows "pp_allocated q = pp_allocated p" "pp_runs q = pp_runs p" "pp_allocated_pages q = pp_allocated_pages p"
proof -
  have ok: "pool_ok p" "pool_ok q" using assms by (simp_all add: ledger_def)
  have cap: "capacity_pages q = capacity_pages p" using assms(3) by (simp add: same_pool_def capacity_pages_def)
  have "mset_set (int ` used_pages p) = mset_set (int ` used_pages q)" using assms(1,2) by (simp add: ledger_def)
  then have "int ` used_pages p = int ` used_pages q" by (simp add: mset_set_eq_iff)
  then have used: "used_pages p = used_pages q" by (simp add: inj_image_eq_iff)
  show "pp_allocated q = pp_allocated p"
  proof (rule nth_equalityI)
    show "length (pp_allocated q) = length (pp_allocated p)" using ok cap by (simp add: pool_ok_def)
    fix i assume "i < length (pp_allocated q)"
    then have "i < capacity_pages q" "i < capacity_pages p" using ok cap by (simp_all add: pool_ok_def)
    then show "pp_allocated q ! i = pp_allocated p ! i" using used by (auto simp: used_pages_def)
  qed
  then have "cover (pp_runs q) = cover (pp_runs p)" using ok cap by (simp add: pool_ok_def free_pages_def)
  then show "pp_runs q = pp_runs p"
    using ok cap page_runs.canonical [of "capacity_pages p" "pp_runs q" "pp_runs p"] by (simp add: pool_ok_def)
  show "pp_allocated_pages q = pp_allocated_pages p" using ledger_size assms by metis
qed

text \<open>
  C6. A handle does not outlive its lease: releasing an armed lease of a reachable state succeeds,
  and its handle is invalid afterwards, also when the page is leased again by the next
  \<open>materialize\<close>.
\<close>

theorem stale_handle_rejected:
  assumes "pool_reachable s" and "v \<in> set (sy_vectors s)" and "l \<in> set v" and "ls_owner l \<noteq> None"
    and "lease_release l (sy_pool s) = (released, l', p')"
  shows "released \<and> ls_owner l' = None \<and> \<not> pool_valid_handle p' (lease_handle l) \<and>
    (\<forall>rv target dest room predecessor rv' dest' q.
       materialize rv target dest room predecessor p' = Inr (rv', dest', q) \<longrightarrow>
       \<not> pool_valid_handle q (lease_handle l))"
proof -
  have L: "ledger (sy_pool s) (sys_leases s)" using pool_reachable_ok [OF assms(1)] by (simp add: sys_ok_def)
  have m: "l \<in># sys_leases s" using assms(2-4) by (auto simp: sys_leases_def armed_def)
  note l = ledger_lease [OF L m]
  have r: "released" "l' = empty_lease" "p' = release_page (ls_index l) (ls_generation l) (sy_pool s)"
    using assms(5) lease_release_ledger [OF L m] by auto
  note rel = release_page_ledger [OF L m r(3)]
  have ok: "pool_ok (sy_pool s)" using L by (simp add: ledger_def)
  have k: "nat (ls_index l) < length (pp_generations (sy_pool s))" using l(2) ok by (simp add: used_pages_def pool_ok_def)
  then have "ls_generation l \<noteq> 0" using l(4) ok by (metis nth_mem pool_ok_def)
  then have g: "pp_generations p' ! nat (ls_index l) \<noteq> ls_generation l"
    using rel(4) k increment_generation_changes by simp
  have stale: "\<not> pool_valid_handle q (lease_handle l)" if "pp_generations q = pp_generations p'" for q
    using g that assms(4) by (auto simp: pool_valid_handle_def lease_handle_def Let_def)
  show ?thesis using r stale materialize_generations by (auto simp: empty_lease_def)
qed

theorem stale_handle_rejected_witness:
  "\<not> pool_valid_handle (release_page 1 1 demo_used) \<lparr>ph_owner = Some 1, ph_index = 1, ph_generation = 1\<rparr>"
proof -
  let ?l = "\<lparr>ls_owner = Some 1, ls_index = 1, ls_generation = 1\<rparr>"
  have "lease_release ?l demo_used = (True, empty_lease, release_page 1 1 demo_used)"
    by (simp add: lease_release_def lease_handle_def pool_valid_handle_def capacity_pages_def demo_used_def
        demo_pool_def demo_layout_def replicate_8)
  then show ?thesis
    using stale_handle_rejected [OF demo_reachable, of demo_leases ?l True empty_lease "release_page 1 1 demo_used"]
    by (simp add: demo_sys_def demo_leases_def lease_handle_def)
qed

text \<open>
  Placement: when the pages that follow the predecessor (or the last lease of the vector) are
  free, \<open>materialize\<close> takes exactly those; when they are not, but some interval of free
  pages is long enough, the new leases are consecutive pages.
\<close>

theorem materialize_placement:
  assumes "pool_reachable s" and "rv \<in> set (sy_reservations s)" and "length dest < target"
    and "materialize rv target dest room predecessor (sy_pool s) = Inr (rv', dest @ new, p')"
    and "n = target - length dest"
  shows "(\<forall>b. preferred_page dest predecessor = Some (int b) \<and> {b ..< b + n} \<subseteq> free_pages (sy_pool s) \<longrightarrow>
        map ls_index new = map int [b ..< b + n]) \<and>
    (\<forall>b. {b ..< b + n} \<subseteq> free_pages (sy_pool s) \<longrightarrow> (\<exists>c. map ls_index new = map int [c ..< c + n]))"
proof -
  let ?p = "sy_pool s"
  have ok: "sys_ok s" by (rule pool_reachable_ok [OF assms(1)])
  then have L: "ledger ?p (sys_leases s)" by (simp add: sys_ok_def)
  have pg: "rv_pages rv \<le> pp_reserved_pages ?p"
    using promised_member [OF assms(2)] ok by (simp add: sys_ok_def promised_def)
  note g = materialize_guards [OF assms(4)]
  from materialize_take [OF L g(1) pg assms(3) g(3,4,5) g(7) [OF assms(3)]] assms(4,5)
  obtain pages runs where c: "choose_pages (preferred_page dest predecessor) n (pp_runs ?p) = Inr (pages, runs)"
    and new: "new = map (new_lease ?p) pages" by auto
  have idx: "map ls_index new = map int pages" by (simp add: new new_lease_def comp_def)
  have r: "runs_ok (capacity_pages ?p) (pp_runs ?p)" "cover (pp_runs ?p) = free_pages ?p"
    using L by (simp_all add: ledger_def pool_ok_def)
  have n: "0 < n" using assms(3,5) by simp
  show ?thesis
  proof (intro conjI allI impI)
    fix b assume "preferred_page dest predecessor = Some (int b) \<and> {b ..< b + n} \<subseteq> free_pages ?p"
    then show "map ls_index new = map int [b ..< b + n]"
      using choose_pages_preferred [OF r(1) n, of b] c idx unfolding r(2) by auto
  next
    fix b assume "{b ..< b + n} \<subseteq> free_pages ?p"
    then show "\<exists>c. map ls_index new = map int [c ..< c + n]"
      using choose_pages_contiguous [OF r(1) n, of b "preferred_page dest predecessor"] c idx
      unfolding r(2) by auto
  qed
qed

theorem materialize_placement_witness:
  "\<exists>new rv' p'. materialize \<lparr>rv_owner = Some 1, rv_pages = 1\<rparr> 4 demo_leases 4 None demo_used = Inr (rv', demo_leases @ new, p') \<and>
     map ls_index new = [3]"
proof -
  let ?rv = "\<lparr>rv_owner = Some 1, rv_pages = 1\<rparr>"
  have len: "length demo_leases = 3" by (simp add: demo_leases_def)
  obtain rv' new p' where m: "materialize ?rv 4 demo_leases 4 None demo_used = Inr (rv', demo_leases @ new, p')"
    by (simp add: materialize_def Let_def demo_pool_def demo_used_def demo_leases_def demo_layout_def capacity_pages_def
      u32_sub_def u32_add_def choose_pages_def select_preferred_def select_first_fit_def consume_free_run_def
      pool_valid_handle_def lease_handle_def upt_rec replicate_8 append_page_def)
  have "preferred_page demo_leases None = Some (int 3)" by (simp add: preferred_page_def demo_leases_def)
  moreover have "{3 ..< 3 + 1} \<subseteq> free_pages demo_used"
    by (auto simp: free_pages_def demo_used_def demo_pool_def demo_layout_def capacity_pages_def)
  ultimately show ?thesis
    using materialize_placement [OF demo_reachable, of ?rv demo_leases 4 4 None rv' new p' 1] m len
    by (fastforce simp: demo_sys_def)
qed


text \<open>
  C4. \<open>dematerialize\<close> undoes \<open>materialize\<close>: shrinking the vector back to its old length
  returns the reservation, the vector, the free list, the flags and all counters to what they were
  (only the generations of the pages have advanced), and the leases created in between are stale.
\<close>

theorem materialize_dematerialize:
  assumes "pool_reachable s" and "rv \<in> set (sy_reservations s)" and "dest \<in> set (sy_vectors s)"
    and "materialize rv target dest room predecessor (sy_pool s) = Inr (rv1, dest1, p1)"
    and "dematerialize rv1 (length dest) dest1 p1 = Inr (rv2, dest2, p2)"
  shows "rv2 = rv \<and> dest2 = dest \<and> (\<exists>g. p2 = (sy_pool s)\<lparr>pp_generations := g\<rparr>) \<and>
    (\<forall>l\<in>set (drop (length dest) dest1). \<not> pool_valid_handle p2 (lease_handle l))"
proof -
  let ?p = "sy_pool s" and ?L = "sys_leases s"
  have ok: "sys_ok s" by (rule pool_reachable_ok [OF assms(1)])
  then have L: "ledger ?p ?L" by (simp add: sys_ok_def)
  have pg: "rv_pages rv \<le> pp_reserved_pages ?p"
    using promised_member [OF assms(2)] ok by (simp add: sys_ok_def promised_def)
  from materialize_ledger [OF L pg assms(4)] obtain new where
    m: "dest1 = dest @ new" "ledger p1 (?L + mset new)" "same_pool ?p p1" "rv_owner rv1 = rv_owner rv"
    "rv_pages rv1 + length new = rv_pages rv" "pp_reserved_pages p1 + length new = pp_reserved_pages ?p" by blast
  have "mset dest \<subseteq># ?L"
  proof -
    have "armed dest = mset dest" using materialize_guards(5) [OF assms(4)] by (rule leases_valid_armed)
    moreover obtain j where "j < length (sy_vectors s)" "sy_vectors s ! j = dest" using assms(3) by (metis in_set_conv_nth)
    ultimately show ?thesis using armed_sub_concat [of j "sy_vectors s"] by (simp add: sys_leases_def)
  qed
  then have sub: "mset dest1 \<subseteq># ?L + mset new" by (simp add: m(1))
  have "rv_pages rv1 \<le> pp_reserved_pages p1" using m pg by simp
  note d = dematerialize_ledger [OF m(2) sub this assms(5)]
  have d': "ledger p2 ?L" "same_pool p1 p2" "dest2 = dest" "rv_owner rv2 = rv_owner rv"
    "rv_pages rv2 = rv_pages rv" "pp_reserved_pages p2 = pp_reserved_pages ?p"
    using d m by simp_all
  have sp: "same_pool ?p p2" using m(3) d'(2) by (rule same_pool_trans)
  have marks: "pp_marks p2 = pp_marks ?p \<and> pp_stamp p2 = pp_stamp ?p"
    using materialize_generations [OF assms(4)] assms(5) destroy_leases_marks [of "drop (length dest) dest1" p1]
    by (auto simp: dematerialize_alt split: if_splits)
  have "p2 = ?p\<lparr>pp_generations := pp_generations p2\<rparr>"
    by (rule page_pool.equality)
       (use ledger_determines [OF L d'(1) sp] sp marks d'(6) in \<open>simp_all add: same_pool_def\<close>)
  moreover have "rv2 = rv" using d'(4,5) by simp
  moreover have "\<not> pool_valid_handle p2 (lease_handle l)" if "l \<in> set new" for l
  proof
    assume v: "pool_valid_handle p2 (lease_handle l)"
    have l: "l \<in># ?L + mset new" using that by simp
    have "ls_owner l \<noteq> None" "0 \<le> ls_index l" using ledger_lease [OF m(2) l] by auto
    with v have "nat (ls_index l) \<in> used_pages p2"
      by (auto simp: pool_valid_handle_def lease_handle_def used_pages_def Let_def split: if_splits)
    then have "ls_index l \<in> int ` used_pages p2" using \<open>0 \<le> ls_index l\<close> by (metis imageI nat_0_le)
    then have i: "ls_index l \<in># image_mset ls_index ?L" using d'(1)
      by (simp add: ledger_def del: set_image_mset)
    have "?L + mset new - {#l#} = ?L + (mset new - {#l#})" using that by simp
    moreover obtain k where "k \<in># ?L" "ls_index k = ls_index l" using i by auto
    ultimately show False using ledger_unique [OF m(2) l, of k] by simp
  qed
  ultimately show ?thesis using d'(3) m(1) by auto
qed

theorem materialize_dematerialize_witness:
  "\<exists>rv1 dest1 p1 rv2 dest2 p2.
     materialize \<lparr>rv_owner = Some 1, rv_pages = 1\<rparr> 4 demo_leases 4 None demo_used = Inr (rv1, dest1, p1) \<and>
     dematerialize rv1 3 dest1 p1 = Inr (rv2, dest2, p2) \<and> length dest1 = 4 \<and> dest2 = demo_leases \<and>
     (\<exists>g. p2 = demo_used\<lparr>pp_generations := g\<rparr>)"
proof -
  let ?rv = "\<lparr>rv_owner = Some 1, rv_pages = 1\<rparr>"
  obtain rv1 dest1 p1 where m: "materialize ?rv 4 demo_leases 4 None demo_used = Inr (rv1, dest1, p1)"
    and len: "length dest1 = 4" and d: "\<exists>rv2 dest2 p2. dematerialize rv1 3 dest1 p1 = Inr (rv2, dest2, p2)"
    by (simp add: materialize_def Let_def demo_pool_def demo_used_def demo_leases_def demo_layout_def capacity_pages_def
      u32_sub_def u32_add_def choose_pages_def select_preferred_def select_first_fit_def consume_free_run_def
      pool_valid_handle_def lease_handle_def upt_rec replicate_8 append_page_def dematerialize_def)
  from d obtain rv2 dest2 p2 where d: "dematerialize rv1 3 dest1 p1 = Inr (rv2, dest2, p2)" by blast
  have l3: "length demo_leases = 3" by (simp add: demo_leases_def)
  show ?thesis
    using materialize_dematerialize [OF demo_reachable, of ?rv demo_leases 4 4 None rv1 dest1 p1 rv2 dest2 p2,
        unfolded l3] m d len
    by (auto simp: demo_sys_def)
qed

text \<open>Leases that the pool holds valid and that lie in one vector are of different pages.\<close>

lemma vector_bound:
  assumes "sys_ok s" and "src \<in> set (sy_vectors s)" and "leases_valid (sy_pool s) src"
  shows "length src + pp_reserved_pages (sy_pool s) \<le> capacity_pages (sy_pool s)"
    and "capacity_pages (sy_pool s) \<le> int32_max"
proof -
  have L: "ledger (sy_pool s) (sys_leases s)" using assms(1) by (simp add: sys_ok_def)
  obtain j where "j < length (sy_vectors s)" "sy_vectors s ! j = src" using assms(2) by (metis in_set_conv_nth)
  then have "mset src \<subseteq># sys_leases s"
    using armed_sub_concat [of j "sy_vectors s"] leases_valid_armed [OF assms(3)] by (simp add: sys_leases_def)
  then have "length src \<le> pp_allocated_pages (sy_pool s)"
    using size_mset_mono ledger_size [OF L] by (metis size_mset)
  then show "length src + pp_reserved_pages (sy_pool s) \<le> capacity_pages (sy_pool s)"
    "capacity_pages (sy_pool s) \<le> int32_max"
    using L by (simp_all add: ledger_def pool_ok_def)
qed

text \<open>
  C5. The internal errors of the pool are unreachable. In a reachable state \<open>materialize\<close>,
  \<open>materialize_one\<close>, \<open>dematerialize_one\<close> and, on a vector of the state, \<open>dematerialize\<close> fail only by
  \<open>invalid_argument\<close> (its \<open>overflow_error\<close> is unreachable); \<open>resize_reservation\<close> on a reservation of the
  pool fails only by \<open>bad_alloc\<close>, and exactly when the new size does not fit beside the leased pages and
  the other reservations; and giving a reservation back (also by its destructor, which is \<open>noexcept\<close>)
  never reaches \<open>std::terminate\<close>.
\<close>

theorem internal_errors_unreachable:
  assumes "pool_reachable s" and "rv \<in> set (sy_reservations s)"
  shows "(materialize rv target dest room predecessor (sy_pool s) = Inl e \<longrightarrow> e = InvalidArgument) \<and>
    (materialize_one rv (sy_pool s) = Inl e \<longrightarrow> e = InvalidArgument) \<and>
    (dematerialize_one rv l (sy_pool s) = Inl e \<longrightarrow> e = InvalidArgument) \<and>
    (src \<in> set (sy_vectors s) \<and> dematerialize rv target src (sy_pool s) = Inl e \<longrightarrow> e = InvalidArgument) \<and>
    (resize_reservation rv n (sy_pool s) = Inl e \<longrightarrow> e = BadAlloc) \<and>
    (rv_owner rv = Some (pp_id (sy_pool s)) \<longrightarrow>
      ((\<exists>r. resize_reservation rv n (sy_pool s) = Inr r) \<longleftrightarrow>
         size (sys_leases s) + (promised s - rv_pages rv) + n \<le> capacity_pages (sy_pool s))) \<and>
    (\<exists>r. reservation_clear rv (sy_pool s) = Inr r) \<and> (\<exists>r. reservation_release rv (sy_pool s) = Inr r)"
proof -
  let ?p = "sy_pool s"
  have ok: "sys_ok s" by (rule pool_reachable_ok [OF assms(1)])
  then have L: "ledger ?p (sys_leases s)" and o: "reservation_ok ?p rv" using assms(2) by (simp_all add: sys_ok_def)
  have pg: "rv_pages rv \<le> pp_reserved_pages ?p"
    using promised_member [OF assms(2)] ok by (simp add: sys_ok_def promised_def)
  have "e = InvalidArgument" if m: "materialize rv target dest room predecessor ?p = Inl e"
  proof (rule ccontr)
    assume e: "e \<noteq> InvalidArgument"
    note m' = m [unfolded materialize_def Let_def rcheck_leases]
    have g: "rv_owner rv = Some (pp_id ?p)" "length dest \<le> target" "target - length dest \<le> rv_pages rv"
      "target \<le> room" "leases_valid ?p dest"
      using m' e by (auto split: if_splits)
    have lt: "length dest < target" using m' e g by (auto split: if_splits)
    have "\<forall>h. predecessor = Some h \<longrightarrow> pool_valid_handle ?p h"
      using m' e g pool_ok_available(2) [of ?p] L lt pg card_free_used [of ?p]
      by (auto simp: physical_index_def ledger_def pool_ok_def split: if_splits)
    from materialize_take [OF L g(1) pg lt g(3,4,5) this] m show False by auto
  qed
  moreover have "e = InvalidArgument" if m: "materialize_one rv ?p = Inl e"
    using materialize_one_succeeds [OF L _ pg] m
    by (cases "rv_owner rv = Some (pp_id ?p) \<and> 0 < rv_pages rv") (auto simp: materialize_one_def)
  moreover have "e = InvalidArgument" if "dematerialize_one rv l ?p = Inl e"
    using that by (auto simp: dematerialize_one_def lease_release_def split: if_splits)
  moreover have "e = InvalidArgument" if src: "src \<in> set (sy_vectors s)" and d: "dematerialize rv target src ?p = Inl e"
  proof (rule ccontr)
    assume e: "e \<noteq> InvalidArgument"
    have "leases_valid ?p src" "uint32_max - rv_pages rv < length src - target"
      using d e by (auto simp: dematerialize_alt Let_def split: if_splits)
    with vector_bound [OF ok src] pg show False by simp
  qed
  moreover have "e = BadAlloc" if "resize_reservation rv n ?p = Inl e"
    using that by (auto simp: resize_reservation_def split: if_splits)
  moreover have "(\<exists>r. resize_reservation rv n ?p = Inr r) \<longleftrightarrow>
      size (sys_leases s) + (promised s - rv_pages rv) + n \<le> capacity_pages ?p" if own: "rv_owner rv = Some (pp_id ?p)"
  proof -
    have "pp_reserved_pages ?p \<le> uint32_max" "promised s = pp_reserved_pages ?p"
      using L ok by (simp_all add: ledger_def pool_ok_def sys_ok_def)
    then show ?thesis
      using own pg ledger_size [OF L] by (simp add: resize_reservation_def can_resize_reservation_def u32_sub_small)
  qed
  ultimately show ?thesis using reservation_end_ledger [OF L pg o] by blast
qed

theorem internal_errors_unreachable_witness:
  "\<exists>r. reservation_release \<lparr>rv_owner = Some 1, rv_pages = 1\<rparr> demo_used = Inr r"
  using internal_errors_unreachable [OF demo_reachable, of "\<lparr>rv_owner = Some 1, rv_pages = 1\<rparr>"]
  by (simp add: demo_sys_def)

text \<open>
  The stamped scan is exact: in a reachable state \<open>validate_distinct_pages\<close> accepts a
  list of handles if and only if all are valid and no two name the same page, whatever marks earlier
  scans have left and also when the stamp wraps around.
\<close>

theorem validate_distinct_exact:
  assumes "pool_reachable s"
  shows "(\<exists>p'. validate_distinct_pages pages (sy_pool s) = Inr p') \<longleftrightarrow>
    (\<forall>h\<in>set pages. pool_valid_handle (sy_pool s) h) \<and> distinct (map ph_index pages)"
  using pool_reachable_ok [OF assms] validate_distinct_pages_iff by (simp add: sys_ok_def ledger_def)

theorem validate_distinct_exact_witness:
  "\<not> (\<exists>p'. validate_distinct_pages (map lease_handle (demo_leases @ demo_leases)) demo_used = Inr p')"
  using validate_distinct_exact [OF demo_reachable, of "map lease_handle (demo_leases @ demo_leases)"]
  by (simp add: demo_sys_def demo_leases_def lease_handle_def)

end
