(* ===== verification/ExecTable.thy ===== *)
theory ExecTable
  imports PoolSystem
begin

text \<open>
  The execution tables: \<open>KVExecutionTablePool\<close> and \<open>KVExecutionRowLease\<close> of
  \<open>paged_kv_cache.cpp\<close>. A table row maps logical pages to physical pages; it is a row of
  a device tensor with a pinned shadow on the host. Publishing a range of a row resolves page
  handles into the shadow and enqueues one copy to the device. \<open>reserve_device_kv_page_bundle\<close>
  is here as well: it reserves in several pools at once.

  A device copy is a command, the destination address with the 32-bit values it writes; the
  stream executes the commands in order.
\<close>

record table_spec =
  ts_logical_page_capacity :: nat
  ts_table_rows :: int

record table_layout =
  tl_spec :: table_spec
  tl_block_tables :: tensor_region

record row_handle =
  rh_owner :: "nat option"
  rh_row :: int
  rh_generation :: u32

record row_lease =
  rl_owner :: "nat option"
  rl_row :: int
  rl_generation :: u32

record table_pool =
  et_id :: nat
  et_spec :: table_spec
  et_tables :: tensor
  et_shadow :: "int list"
  et_in_use :: "bool list"
  et_generations :: "u32 list"

record copy_cmd =
  cc_dst :: u64
  cc_values :: "int list"

definition checked_table_bytes :: "table_spec \<Rightarrow> nat res" where
  "checked_table_bytes spec =
     rbind (checked_i32 (ts_logical_page_capacity spec)) (\<lambda>logical.
       if ts_table_rows spec \<le> 0 then Inl InvalidArgument
       else let rows = nat (ts_table_rows spec) in
         if nat logical > uint64_max div rows div 4 then Inl OverflowError
         else Inr (nat logical * rows * 4))"

definition plan_kv_execution_tables ::
  "layout_builder \<Rightarrow> table_spec \<Rightarrow> (table_layout \<times> layout_builder) res" where
  "plan_kv_execution_tables b spec =
     rbind (checked_table_bytes spec) (\<lambda>_.
     rbind (checked_i32 (ts_logical_page_capacity spec)) (\<lambda>logical.
     rbind (lb_add_tensor I32 [logical, ts_table_rows spec] 256 b) (\<lambda>(region, b').
       Inr (\<lparr>tl_spec = spec, tl_block_tables = region\<rparr>, b'))))"

definition metadata_bytes :: "table_layout \<Rightarrow> u64" where
  "metadata_bytes l = lr_bytes (tr_region (tl_block_tables l))"

text \<open>
  The constructor. The members are initialized in declaration order: the tables are bound, then the
  shadow is allocated, then the layout is checked. The pinned buffer starts with
  unspecified contents, here zeros.
\<close>

definition make_table_pool :: "nat \<Rightarrow> device_span \<Rightarrow> table_layout \<Rightarrow> table_pool res" where
  "make_table_pool this backing layout =
     (let spec = tl_spec layout in
      rbind (tensor_region_bind (tl_block_tables layout) backing) (\<lambda>tables.
      rbind (checked_table_bytes spec) (\<lambda>n.
      rbind (checked_i32 (ts_logical_page_capacity spec)) (\<lambda>logical.
        if t_dtype tables \<noteq> I32 \<or> t_ne tables ! 0 \<noteq> logical \<or> t_ne tables ! 1 \<noteq> ts_table_rows spec
        then Inl LogicError
        else Inr \<lparr>et_id = this, et_spec = spec, et_tables = tables, et_shadow = replicate (n div 4) 0,
                  et_in_use = replicate (nat (ts_table_rows spec)) False,
                  et_generations = replicate (nat (ts_table_rows spec)) 1\<rparr>))))"

definition logical_page_capacity :: "table_pool \<Rightarrow> nat" where
  "logical_page_capacity t = ts_logical_page_capacity (et_spec t)"

definition row_count :: "table_pool \<Rightarrow> int" where
  "row_count t = ts_table_rows (et_spec t)"

definition acquire :: "int \<Rightarrow> table_pool \<Rightarrow> (row_lease \<times> table_pool) res" where
  "acquire row_index t =
     (if row_index < 0 \<or> row_index \<ge> row_count t then Inl OutOfRange
      else let i = nat row_index in
        if et_in_use t ! i then Inl LogicError
        else Inr (\<lparr>rl_owner = Some (et_id t), rl_row = row_index, rl_generation = et_generations t ! i\<rparr>,
                  t\<lparr>et_in_use := (et_in_use t)[i := True]\<rparr>))"

definition row_valid_handle :: "table_pool \<Rightarrow> row_handle \<Rightarrow> bool" where
  "row_valid_handle t h =
     (if rh_owner h \<noteq> Some (et_id t) \<or> rh_row h < 0 \<or> rh_row h \<ge> row_count t then False
      else et_in_use t ! nat (rh_row h) \<and> et_generations t ! nat (rh_row h) = rh_generation h)"

definition release_row :: "int \<Rightarrow> u32 \<Rightarrow> table_pool \<Rightarrow> bool \<times> table_pool" where
  "release_row row_index generation t =
     (if row_index < 0 \<or> row_index \<ge> row_count t then (False, t)
      else let i = nat row_index in
        if \<not> et_in_use t ! i \<or> et_generations t ! i \<noteq> generation then (False, t)
        else (True, t\<lparr>et_in_use := (et_in_use t)[i := False],
                      et_generations := (et_generations t)[i := increment_generation (et_generations t ! i)]\<rparr>))"

definition empty_row_lease :: row_lease where
  "empty_row_lease = \<lparr>rl_owner = None, rl_row = -1, rl_generation = 0\<rparr>"

definition row_lease_handle :: "row_lease \<Rightarrow> row_handle" where
  "row_lease_handle l =
     (if rl_owner l \<noteq> None then \<lparr>rh_owner = rl_owner l, rh_row = rl_row l, rh_generation = rl_generation l\<rparr>
      else \<lparr>rh_owner = None, rh_row = -1, rh_generation = 0\<rparr>)"

definition row_lease_release :: "row_lease \<Rightarrow> table_pool \<Rightarrow> bool \<times> row_lease \<times> table_pool" where
  "row_lease_release l t =
     (if rl_owner l = None then (False, l, t)
      else case release_row (rl_row l) (rl_generation l) t of (r, t') \<Rightarrow> (r, empty_row_lease, t'))"

definition row_lease_move_assign ::
  "row_lease \<Rightarrow> row_lease \<Rightarrow> table_pool \<Rightarrow> row_lease \<times> row_lease \<times> table_pool" where
  "row_lease_move_assign target other t =
     (case row_lease_release target t of (r, l, t') \<Rightarrow> (other, empty_row_lease, t'))"

text \<open>The row of a handle as a tensor: \<open>block_tables_.slice(1, row, 1).view({capacity})\<close>.\<close>

definition table_row :: "table_pool \<Rightarrow> row_handle \<Rightarrow> tensor res" where
  "table_row t h =
     (if \<not> row_valid_handle t h then Inl InvalidArgument
      else rbind (slice (et_tables t) 1 (rh_row h) 1) (\<lambda>s. view s [int (logical_page_capacity t)]))"

definition publish_indices :: "row_handle \<Rightarrow> nat \<Rightarrow> int list \<Rightarrow> table_pool \<Rightarrow> copy_cmd list res" where
  "publish_indices h logical_begin indices t =
     (if indices = [] then Inr []
      else rbind (table_row t h) (\<lambda>row.
        Inr [\<lparr>cc_dst = t_data row + 4 * word_of_nat logical_begin, cc_values = indices\<rparr>]))"

text \<open>
  Both \<open>publish\<close> methods write the shadow from \<open>base\<close> on while they resolve the pages, so
  a page that cannot be resolved leaves the entries before it written: the operations return the
  table beside their result, also when they throw.  \<open>publish_with\<close> is the text they share,
  with the way a page is resolved as a parameter.  An enqueued copy carries the values the shadow
  has when it is enqueued.
\<close>

fun write_shadow :: "('h \<Rightarrow> int res) \<Rightarrow> nat \<Rightarrow> 'h list \<Rightarrow> table_pool \<Rightarrow> unit res \<times> table_pool" where
  "write_shadow resolve base [] t = (Inr (), t)"
| "write_shadow resolve base (h # hs) t =
     (case resolve h of
        Inl e \<Rightarrow> (Inl e, t)
      | Inr i \<Rightarrow> write_shadow resolve (Suc base) hs (t\<lparr>et_shadow := (et_shadow t)[base := i]\<rparr>))"

definition publish_with ::
  "('h \<Rightarrow> int res) \<Rightarrow> row_handle \<Rightarrow> nat \<Rightarrow> 'h list \<Rightarrow> table_pool \<Rightarrow> copy_cmd list res \<times> table_pool" where
  "publish_with resolve h logical_begin pages t =
     (if \<not> row_valid_handle t h \<or> logical_begin > logical_page_capacity t \<or>
         length pages > logical_page_capacity t - logical_begin
      then (Inl InvalidArgument, t)
      else
        (let base = nat (rh_row h) * logical_page_capacity t + logical_begin in
         case write_shadow resolve base pages t of
           (Inl e, t') \<Rightarrow> (Inl e, t')
         | (Inr _, t') \<Rightarrow>
             (publish_indices h logical_begin (take (length pages) (drop base (et_shadow t'))) t', t')))"

definition publish ::
  "page_pool \<Rightarrow> row_handle \<Rightarrow> nat \<Rightarrow> page_handle list \<Rightarrow> table_pool \<Rightarrow> copy_cmd list res \<times> table_pool" where
  "publish pages = publish_with (physical_index pages)"

definition publish_leases ::
  "page_pool \<Rightarrow> row_handle \<Rightarrow> nat \<Rightarrow> page_lease list \<Rightarrow> table_pool \<Rightarrow> copy_cmd list res \<times> table_pool" where
  "publish_leases pages =
     publish_with (\<lambda>l. if ls_owner l \<noteq> Some (pp_id pages) then Inl InvalidArgument
                        else physical_index pages (lease_handle l))"

definition publish_repeated ::
  "page_pool \<Rightarrow> row_handle \<Rightarrow> page_handle \<Rightarrow> nat \<Rightarrow> table_pool \<Rightarrow> copy_cmd list res \<times> table_pool" where
  "publish_repeated pages h page n t =
     (if \<not> row_valid_handle t h \<or> n > logical_page_capacity t then (Inl InvalidArgument, t)
      else
        (case physical_index pages page of
           Inl e \<Rightarrow> (Inl e, t)
         | Inr physical \<Rightarrow>
             (let base = nat (rh_row h) * logical_page_capacity t;
                  t' = t\<lparr>et_shadow := fold (\<lambda>k s. s[base + k := physical]) [0 ..< n] (et_shadow t)\<rparr> in
              (publish_indices h 0 (take n (drop base (et_shadow t'))) t', t'))))"

section \<open>Bundle reservation\<close>

text \<open>
  The pools are numbered by their place in a list, so that two requests for the same pool are
  two requests with the same number; \<open>None\<close> is the null pool.
\<close>

definition check_request :: "page_pool list \<Rightarrow> (nat option \<times> nat) list \<Rightarrow> nat option \<times> nat \<Rightarrow> unit res" where
  "check_request pools prior r =
     (case fst r of
        None \<Rightarrow> Inl InvalidArgument
      | Some i \<Rightarrow>
          if snd r = 0 then Inl InvalidArgument
          else if \<exists>q\<in>set prior. fst q = Some i then Inl InvalidArgument
          else if snd r > available_pages (pools ! i) then Inl BadAlloc
          else Inr ())"

fun check_requests :: "page_pool list \<Rightarrow> (nat option \<times> nat) list \<Rightarrow> (nat option \<times> nat) list \<Rightarrow> unit res" where
  "check_requests pools prior [] = Inr ()"
| "check_requests pools prior (r # rs) =
     rbind (check_request pools prior r) (\<lambda>_. check_requests pools (prior @ [r]) rs)"

fun take_reservations ::
  "(nat option \<times> nat) list \<Rightarrow> page_pool list \<Rightarrow> (reservation list \<times> page_pool list) res" where
  "take_reservations [] pools = Inr ([], pools)"
| "take_reservations ((i, n) # rs) pools =
     (case i of None \<Rightarrow> Inl InvalidArgument
      | Some k \<Rightarrow>
          (case pool_reserve n (pools ! k) of
             None \<Rightarrow> Inl LogicError
           | Some (rv, p) \<Rightarrow>
               rbind (take_reservations rs (pools[k := p])) (\<lambda>(rvs, pools'). Inr (rv # rvs, pools'))))"

definition reserve_device_kv_page_bundle ::
  "(nat option \<times> nat) list \<Rightarrow> page_pool list \<Rightarrow> (reservation list \<times> page_pool list) res" where
  "reserve_device_kv_page_bundle requests pools =
     rbind (check_requests pools [] requests) (\<lambda>_. take_reservations requests pools)"


section \<open>The invariant of a table\<close>

lemma table_geometry_update [simp]:
  "row_count (t\<lparr>et_shadow := s\<rparr>) = row_count t" "row_count (t\<lparr>et_in_use := u\<rparr>) = row_count t"
  "row_count (t\<lparr>et_generations := g\<rparr>) = row_count t"
  "logical_page_capacity (t\<lparr>et_shadow := s\<rparr>) = logical_page_capacity t"
  "logical_page_capacity (t\<lparr>et_in_use := u\<rparr>) = logical_page_capacity t"
  "logical_page_capacity (t\<lparr>et_generations := g\<rparr>) = logical_page_capacity t"
  by (simp_all add: row_count_def logical_page_capacity_def)

text \<open>A table that was planned and bound: a dense I32 matrix of one row per execution slot.\<close>

definition dense_matrix :: "u64 \<Rightarrow> int \<Rightarrow> int \<Rightarrow> tensor" where
  "dense_matrix a logical rows =
     \<lparr>t_data = a, t_dtype = I32, t_ne = [logical, rows, 1, 1],
      t_nb = [4, 4 * logical, 4 * logical * rows, 4 * logical * rows]\<rparr>"

definition table_ok :: "table_pool \<Rightarrow> bool" where
  "table_ok t \<longleftrightarrow>
     0 < logical_page_capacity t \<and> logical_page_capacity t \<le> int32_max \<and> 0 < row_count t \<and>
     4 * int (logical_page_capacity t) * row_count t \<le> int64_max \<and>
     length (et_in_use t) = nat (row_count t) \<and> length (et_generations t) = nat (row_count t) \<and>
     0 \<notin> set (et_generations t) \<and>
     length (et_shadow t) = logical_page_capacity t * nat (row_count t) \<and>
     t_data (et_tables t) \<noteq> 0 \<and>
     et_tables t = dense_matrix (t_data (et_tables t)) (int (logical_page_capacity t)) (row_count t)"

lemma make_tensor_matrix:
  assumes "make_tensor a I32 [x, y, 1, 1] = Inr m"
  shows "m = dense_matrix a x y \<and> 0 < x \<and> 0 < y \<and> 4 * x * y \<le> int64_max"
proof -
  note m = make_tensor_Inr [OF assms]
  from make_tensor_shape [OF assms] obtain p q r s where t: "t_ne m = [p, q, r, s]" "0 < p" "0 < q"
    "t_nb m = [4, 4 * p, 4 * (p * q), 4 * (p * (q * r))]" "4 * (p * q) \<le> int64_max" by (metis dtype_size.simps(3) of_nat_numeral)
  with m(3) have e: "p = x" "q = y" "r = 1" "s = 1" by simp_all
  have "m = dense_matrix a x y"
    by (rule tensor.equality) (use t m(1,2) e in \<open>simp_all add: dense_matrix_def mult.assoc\<close>)
  with t e show ?thesis by (simp add: mult.assoc)
qed

lemma row_tensor:
  assumes "0 < x" and "0 < y" and "4 * x * y \<le> int64_max" and "a \<noteq> 0" and "0 \<le> k" and "k < y"
  shows "rbind (slice (dense_matrix a x y) 1 k 1) (\<lambda>s. view s [x]) =
    Inr \<lparr>t_data = a + word_of_int (k * (4 * x)), t_dtype = I32, t_ne = [x, 1, 1, 1], t_nb = [4, 4 * x, 4 * x, 4 * x]\<rparr>"
proof -
  have "4 * x * k \<le> 4 * x * y" using assms(1,6) by (intro mult_left_mono) auto
  also note assms(3)
  finally have k: "k * (4 * x) \<le> int64_max" by (simp only: mult.commute)
  have "4 * x * 1 \<le> 4 * x * y" using assms(1,2) by (intro mult_left_mono) auto
  then have x: "4 * x \<le> int64_max" "x \<le> int64_max" using assms(1,3) by linarith+
  have s: "slice (dense_matrix a x y) 1 k 1 =
      Inr \<lparr>t_data = a + word_of_int (k * (4 * x)), t_dtype = I32, t_ne = [x, 1, 1, 1],
           t_nb = [4, 4 * x, 4 * x * y, 4 * x * y]\<rparr>"
  proof -
    have "checked_mul_i64 k (4 * x) = Inr (k * (4 * x))" using assms k by (simp add: checked_mul_i64_Inr_iff)
    then show ?thesis using assms by (simp add: slice_def dense_matrix_def Let_def)
  qed
  have c: "checked_mul_i64 4 x = Inr (4 * x)" "checked_mul_i64 (4 * x) 1 = Inr (4 * x)"
    using assms(1) x by (simp_all add: checked_mul_i64_Inr_iff)
  have n: "shape_numel [x, 1, 1, 1] = Inr x" using assms(1) x by (simp add: shape_numel_Inr_iff)
  show ?thesis
    using assms(1) c n by (simp add: s view_def is_contiguous_def normalize_shape_def numel_def make_tensor_def
        set_contiguous_strides_def Let_def numeral_3_eq_3)
qed

lemma table_row_ok:
  assumes "table_ok t" and "row_valid_handle t h"
  shows "\<exists>row. table_row t h = Inr row \<and>
    t_data row = t_data (et_tables t) + 4 * word_of_nat (nat (rh_row h) * logical_page_capacity t) \<and>
    t_ne row = [int (logical_page_capacity t), 1, 1, 1]"
proof -
  let ?c = "int (logical_page_capacity t)" and ?a = "t_data (et_tables t)"
  have h: "0 \<le> rh_row h" "rh_row h < row_count t" using assms(2) by (auto simp: row_valid_handle_def split: if_splits)
  have tb: "et_tables t = dense_matrix ?a ?c (row_count t)" and g: "0 < ?c" "0 < row_count t"
    "4 * ?c * row_count t \<le> int64_max" "?a \<noteq> 0" using assms(1) by (simp_all add: table_ok_def)
  have "table_row t h = rbind (slice (dense_matrix ?a ?c (row_count t)) 1 (rh_row h) 1) (\<lambda>s. view s [?c])"
    using assms(2) tb by (simp add: table_row_def)
  moreover have "word_of_int (rh_row h * (4 * ?c)) = (4 * word_of_nat (nat (rh_row h) * logical_page_capacity t) :: u64)"
    using h by (simp add: algebra_simps)
  ultimately show ?thesis using row_tensor [OF g h] by simp
qed

section \<open>Every operation keeps it\<close>

lemma plan_make_table_ok:
  assumes "plan_kv_execution_tables b spec = Inr (layout, b')" and "make_table_pool this backing layout = Inr t"
    and "t_data (et_tables t) \<noteq> 0"
  shows "table_ok t"
proof -
  from assms(1) obtain logical n where p: "checked_i32 (ts_logical_page_capacity spec) = Inr logical"
    "checked_table_bytes spec = Inr n" "tl_spec layout = spec"
    "tr_dtype (tl_block_tables layout) = I32" "tr_shape (tl_block_tables layout) = [logical, ts_table_rows spec, 1, 1]"
    by (auto simp: plan_kv_execution_tables_def lb_add_tensor_def rbind_Inr_iff)
  from p have lg: "logical = int (ts_logical_page_capacity spec)" "0 < ts_logical_page_capacity spec"
    "ts_logical_page_capacity spec \<le> int32_max"
    by (auto simp: checked_i32_def split: if_splits)
  from p lg have n: "n = ts_logical_page_capacity spec * nat (ts_table_rows spec) * 4" "0 < ts_table_rows spec"
    by (auto simp: checked_table_bytes_def Let_def split: if_splits)
  from assms(2) p obtain tables where tb: "tensor_region_bind (tl_block_tables layout) backing = Inr tables"
    and t: "t = \<lparr>et_id = this, et_spec = spec, et_tables = tables, et_shadow = replicate (n div 4) 0,
                  et_in_use = replicate (nat (ts_table_rows spec)) False,
                  et_generations = replicate (nat (ts_table_rows spec)) 1\<rparr>"
    by (auto simp: make_table_pool_def Let_def rbind_Inr_iff split: if_splits)
  from tb p obtain a where "make_tensor a I32 [logical, ts_table_rows spec, 1, 1] = Inr tables"
    by (auto simp: tensor_region_bind_def rbind_Inr_iff split: if_splits)
  from make_tensor_matrix [OF this] have "tables = dense_matrix a logical (ts_table_rows spec)"
    "4 * logical * ts_table_rows spec \<le> int64_max" by auto
  then show ?thesis using assms(3) lg n
    by (auto simp: table_ok_def t logical_page_capacity_def row_count_def dense_matrix_def)
qed

text \<open>Updates of flags, generations and shadow that keep the lengths keep the table.\<close>

lemma table_ok_update:
  assumes "table_ok t" and "length u = length (et_in_use t)" and "length g = length (et_generations t)"
    and "length s = length (et_shadow t)" and "0 \<notin> set g"
  shows "table_ok (t\<lparr>et_in_use := u, et_generations := g, et_shadow := s\<rparr>)"
  using assms by (simp add: table_ok_def logical_page_capacity_def row_count_def)

interpretation rows: generation_slots table_ok "\<lambda>t. nat (row_count t)" "\<lambda>t i. et_in_use t ! i"
  "\<lambda>t i. et_generations t ! i" "\<lambda>i t. snd (release_row (int i) (et_generations t ! i) t)"
proof
  fix t i assume t: "table_ok t" and i: "i < nat (row_count t)"
  show "et_generations t ! i \<noteq> 0" using t i by (metis nth_mem table_ok_def)
  assume u: "et_in_use t ! i"
  let ?t = "snd (release_row (int i) (et_generations t ! i) t)"
  have r: "?t = t\<lparr>et_in_use := (et_in_use t)[i := False],
                  et_generations := (et_generations t)[i := increment_generation (et_generations t ! i)]\<rparr>"
    using i u by (auto simp: release_row_def)
  have "0 \<notin> set ((et_generations t)[i := increment_generation (et_generations t ! i)])"
    using t set_update_subset_insert [of "et_generations t" i "increment_generation (et_generations t ! i)"]
      increment_generation_nonzero [of "et_generations t ! i"]
    by (metis insert_iff subsetD table_ok_def)
  then show "table_ok ?t" using table_ok_update [OF t, of "(et_in_use t)[i := False]" _ "et_shadow t"] r by simp
  show "nat (row_count ?t) = nat (row_count t)" by (simp add: r row_count_def)
  have len: "i < length (et_in_use t)" "i < length (et_generations t)" using t i by (simp_all add: table_ok_def)
  then show "\<not> et_in_use ?t ! i \<and> et_generations ?t ! i = increment_generation (et_generations t ! i)"
    by (simp add: r)
  show "et_in_use ?t ! j = et_in_use t ! j \<and> et_generations ?t ! j = et_generations t ! j" if "j \<noteq> i" for j
    using that by (simp add: r)
qed


section \<open>Publishing\<close>

lemma write_shadow_Inr:
  assumes "\<forall>h\<in>set hs. f h = Inr (v h)" and "base + length hs \<le> length (et_shadow t)"
  shows "write_shadow f base hs t =
    (Inr (), t\<lparr>et_shadow := take base (et_shadow t) @ map v hs @ drop (base + length hs) (et_shadow t)\<rparr>)"
  using assms
proof (induction hs arbitrary: base t)
  case (Cons h hs)
  let ?t = "t\<lparr>et_shadow := (et_shadow t)[base := v h]\<rparr>"
  have b: "base < length (et_shadow t)" using Cons.prems(2) by simp
  have "write_shadow f base (h # hs) t = write_shadow f (Suc base) hs ?t"
    using Cons.prems(1) by simp
  also have "\<dots> = (Inr (), ?t\<lparr>et_shadow := take (Suc base) (et_shadow ?t) @ map v hs @ drop (Suc base + length hs) (et_shadow ?t)\<rparr>)"
    using Cons.prems by (intro Cons.IH) auto
  also have "take (Suc base) (et_shadow ?t) = take base (et_shadow t) @ [v h]"
    using b by (simp add: take_Suc_conv_app_nth)
  finally show ?case by (simp add: drop_update_cancel)
qed simp

text \<open>Whether it throws or not, writing the shadow changes nothing else and keeps its length.\<close>

lemma write_shadow_frame:
  "\<exists>s. snd (write_shadow f base hs t) = t\<lparr>et_shadow := s\<rparr> \<and> length s = length (et_shadow t)"
proof (induction hs arbitrary: base t)
  case Nil
  then show ?case by (intro exI [of _ "et_shadow t"]) simp
next
  case (Cons h hs)
  show ?case
  proof (cases "f h")
    case (Inl e)
    then show ?thesis by (intro exI [of _ "et_shadow t"]) simp
  next
    case (Inr i)
    then show ?thesis using Cons.IH [of "Suc base" "t\<lparr>et_shadow := (et_shadow t)[base := i]\<rparr>"] by auto
  qed
qed

lemma row_in_matrix:
  fixes r rows c b n :: nat
  assumes "r < rows" and "b + n \<le> c"
  shows "r * c + b + n \<le> c * rows"
proof -
  have "r * c + c \<le> rows * c" using assms(1) by (metis Suc_leI add.commute mult_Suc mult_le_mono1)
  then show ?thesis using assms(2) by (simp add: mult.commute)
qed

text \<open>What one enqueued copy leaves in device memory, cells of four bytes.\<close>

definition exec_copy :: "copy_cmd \<Rightarrow> (u64 \<Rightarrow> int) \<Rightarrow> u64 \<Rightarrow> int" where
  "exec_copy c m = fold (\<lambda>k m. m(cc_dst c + 4 * word_of_nat k := cc_values c ! k)) [0 ..< length (cc_values c)] m"

lemma publish_with_exact:
  assumes "table_ok t" and "row_valid_handle t h" and "b + length hs \<le> logical_page_capacity t"
    and "\<forall>x\<in>set hs. f x = Inr (v x)"
  defines "base \<equiv> nat (rh_row h) * logical_page_capacity t + b"
  shows "publish_with f h b hs t =
    (Inr (if hs = [] then [] else [\<lparr>cc_dst = t_data (et_tables t) + 4 * word_of_nat base, cc_values = map v hs\<rparr>]),
     t\<lparr>et_shadow := take base (et_shadow t) @ map v hs @ drop (base + length hs) (et_shadow t)\<rparr>)"
    and "base + length hs \<le> (nat (rh_row h) + 1) * logical_page_capacity t"
    and "base + length hs \<le> length (et_shadow t)"
proof -
  let ?s = "take base (et_shadow t) @ map v hs @ drop (base + length hs) (et_shadow t)"
  let ?t = "t\<lparr>et_shadow := ?s\<rparr>"
  have "0 \<le> rh_row h" "rh_row h < row_count t" using assms(2) by (auto simp: row_valid_handle_def split: if_splits)
  then have r: "nat (rh_row h) < nat (row_count t)" by simp
  then show len: "base + length hs \<le> length (et_shadow t)"
    using row_in_matrix [OF r assms(3)] assms(1) by (simp add: base_def table_ok_def)
  show "base + length hs \<le> (nat (rh_row h) + 1) * logical_page_capacity t"
    using assms(3) by (simp add: base_def)
  have ws: "write_shadow f base hs t = (Inr (), ?t)" by (rule write_shadow_Inr [OF assms(4) len])
  have tk: "take (length hs) (drop base (et_shadow ?t)) = map v hs" using len by simp
  have "length ?s = length (et_shadow t)" using len by simp
  then have ok: "table_ok ?t"
    using assms(1) by (simp only: table_ok_def logical_page_capacity_def row_count_def) simp
  have "row_valid_handle ?t h = row_valid_handle t h" by (simp add: row_valid_handle_def row_count_def)
  with assms(2) have "row_valid_handle ?t h" by simp
  from table_row_ok [OF ok this] obtain row where row: "table_row ?t h = Inr row"
    "t_data row = t_data (et_tables t) + 4 * word_of_nat (nat (rh_row h) * logical_page_capacity t)"
    by (auto simp: logical_page_capacity_def)
  have pub: "publish_indices h b (map v hs) ?t = Inr (if hs = [] then []
      else [\<lparr>cc_dst = t_data (et_tables t) + 4 * word_of_nat base, cc_values = map v hs\<rparr>])"
    using row by (simp add: publish_indices_def base_def distrib_left add.assoc)
  have guard: "\<not> (\<not> row_valid_handle t h \<or> b > logical_page_capacity t \<or> length hs > logical_page_capacity t - b)"
    using assms(2,3) by auto
  show "publish_with f h b hs t =
    (Inr (if hs = [] then [] else [\<lparr>cc_dst = t_data (et_tables t) + 4 * word_of_nat base, cc_values = map v hs\<rparr>]), ?t)"
    unfolding publish_with_def Let_def base_def [symmetric] ws prod.case sum.case if_not_P [OF guard] tk
    by (simp only: pub)
qed

lemma publish_with_ok:
  "\<exists>s. snd (publish_with f h b hs t) = t\<lparr>et_shadow := s\<rparr> \<and> length s = length (et_shadow t)"
proof (cases "\<not> row_valid_handle t h \<or> b > logical_page_capacity t \<or> length hs > logical_page_capacity t - b")
  case True
  then have "publish_with f h b hs t = (Inl InvalidArgument, t)"
    unfolding publish_with_def by (rule if_P)
  then show ?thesis by (intro exI [of _ "et_shadow t"]) simp
next
  case False
  let ?w = "write_shadow f (nat (rh_row h) * logical_page_capacity t + b) hs t"
  have "snd (publish_with f h b hs t) = snd ?w"
    unfolding publish_with_def if_not_P [OF False] Let_def
    by (cases ?w rule: prod.exhaust) (simp split: sum.split)
  then show ?thesis using write_shadow_frame by metis
qed

lemma fold_update_length [simp]: "length (fold (\<lambda>k s. s[base + k := x]) ks s) = length s"
  by (induction ks arbitrary: s) simp_all

lemma publish_repeated_ok:
  "\<exists>s. snd (publish_repeated pages h page n t) = t\<lparr>et_shadow := s\<rparr> \<and> length s = length (et_shadow t)"
proof -
  have "snd (publish_repeated pages h page n t) = t \<or>
      (\<exists>physical. snd (publish_repeated pages h page n t) =
        t\<lparr>et_shadow := fold (\<lambda>k s. s[nat (rh_row h) * logical_page_capacity t + k := physical]) [0 ..< n] (et_shadow t)\<rparr>)"
    by (auto simp: publish_repeated_def Let_def split: sum.split)
  then show ?thesis
  proof
    assume "snd (publish_repeated pages h page n t) = t"
    then show ?thesis by (intro exI [of _ "et_shadow t"]) simp
  next
    assume "\<exists>physical. snd (publish_repeated pages h page n t) =
        t\<lparr>et_shadow := fold (\<lambda>k s. s[nat (rh_row h) * logical_page_capacity t + k := physical]) [0 ..< n] (et_shadow t)\<rparr>"
    then show ?thesis by auto
  qed
qed


lemma cell_address_inj:
  assumes "(4 * word_of_nat j :: u64) = 4 * word_of_nat k" and "j < 2 ^ 32" and "k < 2 ^ 32"
  shows "j = k"
proof -
  have cell: "unat (4 * word_of_nat n :: u64) = 4 * n" if "n < 4294967296" for n
  proof -
    have "n < 18446744073709551616" "4 * n < 18446744073709551616" using that by simp_all
    then have n: "unat (word_of_nat n :: u64) = n" and m: "4 * n mod 2 ^ 64 = 4 * n"
      by (simp_all add: unsigned_of_nat take_bit_eq_mod)
    have "unat (4 * word_of_nat n :: u64) = unat (4 :: u64) * unat (word_of_nat n :: u64) mod 2 ^ 64"
      by (simp add: unat_word_ariths)
    then show ?thesis using n m by simp
  qed
  have "j < 4294967296" "k < 4294967296" using assms(2,3) by simp_all
  with assms(1) cell show ?thesis by (metis mult_left_cancel zero_neq_numeral)
qed

lemma exec_copy_prefix:
  assumes "n \<le> length vs" and "length vs \<le> 2 ^ 32"
  shows "(\<forall>k<n. fold (\<lambda>k m. m(a + 4 * word_of_nat k := vs ! k)) [0 ..< n] m (a + 4 * word_of_nat k :: u64) = (vs ! k :: int)) \<and>
    (\<forall>x. (\<forall>k<n. x \<noteq> a + 4 * word_of_nat k) \<longrightarrow> fold (\<lambda>k m. m(a + 4 * word_of_nat k := vs ! k)) [0 ..< n] m x = m x)"
  using assms
proof (induction n)
  case (Suc n)
  have "(a + 4 * word_of_nat k = a + 4 * word_of_nat n) = (k = n)" if "k < n" for k
    using cell_address_inj [of k n] that Suc.prems by auto
  with Suc show ?case by (auto simp: less_Suc_eq)
qed simp

lemma exec_copy_read:
  assumes "length (cc_values c) \<le> 2 ^ 32"
  shows "k < length (cc_values c) \<Longrightarrow> exec_copy c m (cc_dst c + 4 * word_of_nat k) = cc_values c ! k"
    and "\<forall>k<length (cc_values c). x \<noteq> cc_dst c + 4 * word_of_nat k \<Longrightarrow> exec_copy c m x = m x"
  using exec_copy_prefix [OF order.refl assms, of "cc_dst c" m] by (auto simp: exec_copy_def)

section \<open>The system of rows and leases\<close>

inductive table_reachable :: "table_pool \<Rightarrow> row_lease list \<Rightarrow> bool" where
  init: "plan_kv_execution_tables b spec = Inr (layout, b') \<Longrightarrow> make_table_pool this backing layout = Inr t \<Longrightarrow>
    t_data (et_tables t) \<noteq> 0 \<Longrightarrow> table_reachable t []"
| acquire: "table_reachable t ls \<Longrightarrow> acquire k t = Inr (l, t') \<Longrightarrow> table_reachable t' (ls @ [l])"
| release: "table_reachable t ls \<Longrightarrow> i < length ls \<Longrightarrow> row_lease_release (ls ! i) t = (r, l, t') \<Longrightarrow>
    table_reachable t' (ls[i := l])"
| move_assign: "table_reachable t ls \<Longrightarrow> i < length ls \<Longrightarrow> j < length ls \<Longrightarrow> i \<noteq> j \<Longrightarrow>
    row_lease_move_assign (ls ! i) (ls ! j) t = (l, l', t') \<Longrightarrow> table_reachable t' (ls[i := l, j := l'])"
| publish: "table_reachable t ls \<Longrightarrow> table_reachable (snd (publish pages h lb hs t)) ls"
| publish_leases: "table_reachable t ls \<Longrightarrow> table_reachable (snd (publish_leases pages h lb pls t)) ls"
| publish_repeated: "table_reachable t ls \<Longrightarrow> table_reachable (snd (publish_repeated pages h page n t)) ls"

definition row_keys :: "row_lease list \<Rightarrow> (nat \<times> u32) multiset" where
  "row_keys ls = image_mset (\<lambda>l. (nat (rl_row l), rl_generation l)) (filter_mset (\<lambda>l. rl_owner l \<noteq> None) (mset ls))"

definition rows_ok :: "table_pool \<Rightarrow> row_lease list \<Rightarrow> bool" where
  "rows_ok t ls \<longleftrightarrow> rows.balanced t (row_keys ls) \<and>
     (\<forall>l\<in>set ls. rl_owner l = None \<or> rl_owner l = Some (et_id t) \<and> 0 \<le> rl_row l)"

lemma row_keys_snoc [simp]:
  "row_keys (ls @ [l]) = row_keys ls + row_keys [l]" "row_keys [] = {#}"
  "row_keys (l # ls) = row_keys [l] + row_keys ls"
  by (simp_all add: row_keys_def)

lemma row_keys_update:
  assumes "i < length ls"
  shows "row_keys (ls[i := l]) + row_keys [ls ! i] = row_keys ls + row_keys [l]"
proof -
  have "mset (ls[i := l]) + {#ls ! i#} = mset ls + {#l#}"
    using assms by (simp add: mset_update)
  from arg_cong [OF this, of "\<lambda>M. image_mset (\<lambda>l. (nat (rl_row l), rl_generation l)) (filter_mset (\<lambda>l. rl_owner l \<noteq> None) M)"]
  show ?thesis by (simp only: row_keys_def filter_union_mset image_mset_union mset.simps)
qed

lemma rows_ok_frame:
  assumes "rows_ok t ls" and "t' = t\<lparr>et_shadow := s\<rparr>" and "length s = length (et_shadow t)"
  shows "rows_ok t' ls"
proof -
  have "table_ok t" using assms(1) by (simp add: rows_ok_def rows.balanced_def)
  then have "table_ok t'"
    using assms(2,3) by (simp add: table_ok_def)
  with assms show ?thesis by (simp add: rows_ok_def rows.balanced_def)
qed

lemma acquire_rows_ok:
  assumes "rows_ok t ls" and "acquire k t = Inr (l, t')"
  shows "rows_ok t' (ls @ [l])"
proof -
  have B: "rows.balanced t (row_keys ls)" and ok: "table_ok t"
    using assms(1) by (simp_all add: rows_ok_def rows.balanced_def)
  have k: "0 \<le> k" "k < row_count t" "\<not> et_in_use t ! nat k"
    and l: "l = \<lparr>rl_owner = Some (et_id t), rl_row = k, rl_generation = et_generations t ! nat k\<rparr>"
    and t': "t' = t\<lparr>et_in_use := (et_in_use t)[nat k := True]\<rparr>"
    using assms(2) by (auto simp: acquire_def Let_def split: if_splits)
  have n: "nat k < nat (row_count t)" using k by simp
  have ok': "table_ok t'"
    using ok by (simp add: t' table_ok_def)
  have "rows.balanced t' (add_mset (nat k, et_generations t ! nat k) (row_keys ls))"
    using ok n k(3) by (intro rows.balanced_take [OF B ok']) (auto simp: t' table_ok_def nth_list_update)
  moreover have "et_id t' = et_id t" by (simp add: t')
  ultimately show ?thesis using assms(1) k(1)
    by (auto simp: rows_ok_def l row_keys_def)
qed

lemma release_rows_ok:
  assumes "rows_ok t ls" and "i < length ls" and "row_lease_release (ls ! i) t = (r, l, t')"
  shows "rows_ok t' (ls[i := l])" and "rl_owner l = None"
proof -
  have B: "rows.balanced t (row_keys ls)" using assms(1) by (simp add: rows_ok_def)
  show l: "rl_owner l = None"
    using assms(3) by (auto simp: row_lease_release_def empty_row_lease_def split: if_splits prod.splits)
  have in_u: "\<forall>x\<in>set (ls[i := l]). x = l \<or> x \<in> set ls" using set_update_subset_insert by fastforce
  show "rows_ok t' (ls[i := l])"
  proof (cases "rl_owner (ls ! i) = None")
    case True
    then have "l = ls ! i" "t' = t" using assms(3) by (auto simp: row_lease_release_def)
    then show ?thesis using assms(1) by simp
  next
    case False
    let ?h = "(nat (rl_row (ls ! i)), rl_generation (ls ! i))"
    have m: "ls ! i \<in> set ls" using assms(2) by simp
    then have pos: "0 \<le> rl_row (ls ! i)" using assms(1) False by (auto simp: rows_ok_def)
    have h: "?h \<in># row_keys ls" using m False by (auto simp: row_keys_def)
    note H = rows.balanced_holds [OF B h]
    have g: "et_generations t ! fst ?h = rl_generation (ls ! i)" using H by (simp add: rows.holds_def)
    have t': "t' = snd (release_row (int (fst ?h)) (et_generations t ! fst ?h) t)"
      using assms(3) False pos g by (simp add: row_lease_release_def split: prod.splits)
    have "row_keys (ls[i := l]) = row_keys ls - {#?h#}"
    proof -
      have "row_keys [ls ! i] = {#?h#}" "row_keys [l] = {#}" using False l by (simp_all add: row_keys_def)
      then show ?thesis using row_keys_update [OF assms(2), of l] by (metis add.right_neutral add_mset_remove_trivial union_mset_add_mset_right)
    qed
    moreover have "et_id t' = et_id t" by (simp add: t' release_row_def Let_def)
    moreover have "\<forall>x\<in>set (ls[i := l]). rl_owner x = None \<or> rl_owner x = Some (et_id t) \<and> 0 \<le> rl_row x"
      using in_u l assms(1) unfolding rows_ok_def by metis
    ultimately show ?thesis using rows.balanced_free [OF B h] by (simp add: rows_ok_def t')
  qed
qed


lemma move_rows_ok:
  assumes "rows_ok t ls" and "i < length ls" and "j < length ls" and "i \<noteq> j"
    and "row_lease_move_assign (ls ! i) (ls ! j) t = (l, l', t')"
  shows "rows_ok t' (ls[i := l, j := l'])"
proof -
  obtain r l0 where r: "row_lease_release (ls ! i) t = (r, l0, t')" and l: "l = ls ! j" "l' = empty_row_lease"
    using assms(5) by (auto simp: row_lease_move_assign_def split: prod.splits)
  note R = release_rows_ok [OF assms(1,2) r]
  let ?a = "ls[i := l0]" and ?b = "ls[i := l]"
  have "mset (ls[i := ls ! j, j := l0]) = mset (ls[i := l0])"
    using mset_swap [of j ?a i] assms(2-4) by (simp add: list_update_swap)
  then have "row_keys (ls[i := ls ! j, j := l0]) = row_keys ?a" by (simp add: row_keys_def)
  moreover have "row_keys (?b[j := l']) = row_keys (?b[j := l0])"
  proof -
    have "row_keys (?b[j := l0]) + row_keys [?b ! j] = row_keys ?b + row_keys [l0]"
      "row_keys (?b[j := l']) + row_keys [?b ! j] = row_keys ?b + row_keys [l']"
      using assms(3) by (simp_all only: row_keys_update length_list_update)
    moreover have "row_keys [l0] = {#}" "row_keys [l'] = {#}" using R(2) l by (simp_all add: row_keys_def empty_row_lease_def)
    ultimately show ?thesis by (metis add_right_imp_eq)
  qed
  ultimately have keys: "row_keys (ls[i := l, j := l']) = row_keys ?a" using l by simp
  have "\<forall>x\<in>set (ls[i := l, j := l']). x = l' \<or> x \<in> set ?a \<or> x = ls ! j"
  proof
    fix x assume "x \<in> set (ls[i := l, j := l'])"
    then obtain k where "k < length ls" "x = ls[i := l, j := l'] ! k" by (auto simp: in_set_conv_nth)
    then show "x = l' \<or> x \<in> set ?a \<or> x = ls ! j"
      using l by (cases "k = j"; cases "k = i") (auto simp: in_set_conv_nth intro!: exI [of _ k])
  qed
  moreover have "ls ! j \<in> set ?a" using assms(3,4) by (metis length_list_update nth_list_update_neq nth_mem)
  ultimately have "\<forall>x\<in>set (ls[i := l, j := l']). x = l' \<or> x \<in> set ?a" by auto
  moreover have "rl_owner l' = None" using l(2) by (simp add: empty_row_lease_def)
  ultimately show ?thesis using R(1) keys unfolding rows_ok_def by metis
qed

lemma table_reachable_ok: "table_reachable t ls \<Longrightarrow> rows_ok t ls"
proof (induction rule: table_reachable.induct)
  case (init b spec layout b' this backing t)
  have ok: "table_ok t" by (rule plan_make_table_ok [OF init])
  from init(2) have "et_in_use t = replicate (nat (row_count t)) False"
    by (auto simp: make_table_pool_def Let_def rbind_Inr_iff row_count_def split: if_splits)
  then have none: "{i. i < nat (row_count t) \<and> et_in_use t ! i} = {}" by auto
  show ?case using ok unfolding rows_ok_def rows.balanced_def none by simp
next
  case (publish t ls pages h lb hs)
  from publish_with_ok obtain s where "snd (publish pages h lb hs t) = t\<lparr>et_shadow := s\<rparr>" "length s = length (et_shadow t)"
    unfolding publish_def by blast
  then show ?case by (rule rows_ok_frame [OF publish.IH])
next
  case (publish_leases t ls pages h lb pls)
  from publish_with_ok obtain s where "snd (publish_leases pages h lb pls t) = t\<lparr>et_shadow := s\<rparr>" "length s = length (et_shadow t)"
    unfolding publish_leases_def by blast
  then show ?case by (rule rows_ok_frame [OF publish_leases.IH])
next
  case (publish_repeated t ls pages h page n)
  from publish_repeated_ok obtain s where "snd (publish_repeated pages h page n t) = t\<lparr>et_shadow := s\<rparr>" "length s = length (et_shadow t)"
    by blast
  then show ?case by (rule rows_ok_frame [OF publish_repeated.IH])
qed (blast intro: acquire_rows_ok release_rows_ok move_rows_ok)+


section \<open>Bundles\<close>

lemma check_requests_Inr:
  "check_requests pools prior rs = Inr () \<longleftrightarrow>
     (\<forall>r\<in>set rs. \<exists>i. fst r = Some i \<and> 0 < snd r \<and> snd r \<le> available_pages (pools ! i) \<and>
        (\<forall>q\<in>set prior. fst q \<noteq> fst r)) \<and> distinct (map fst rs)"
proof (induction rs arbitrary: prior)
  case (Cons r rs)
  have c: "check_request pools prior r = Inr () \<longleftrightarrow>
      (\<exists>i. fst r = Some i \<and> 0 < snd r \<and> snd r \<le> available_pages (pools ! i) \<and> (\<forall>q\<in>set prior. fst q \<noteq> fst r))"
    by (auto simp: check_request_def not_less split: option.splits)
  have "check_requests pools prior (r # rs) = Inr () \<longleftrightarrow>
      check_request pools prior r = Inr () \<and> check_requests pools (prior @ [r]) rs = Inr ()"
    by (cases "check_request pools prior r") auto
  also have "\<dots> \<longleftrightarrow> check_request pools prior r = Inr () \<and>
      (\<forall>s\<in>set rs. \<exists>i. fst s = Some i \<and> 0 < snd s \<and> snd s \<le> available_pages (pools ! i) \<and>
        (\<forall>q\<in>set prior. fst q \<noteq> fst s) \<and> fst r \<noteq> fst s) \<and> distinct (map fst rs)"
    unfolding Cons.IH by auto
  finally show ?case unfolding c list.set list.map distinct.simps set_map by blast
qed simp

lemma check_requests_Inl: "check_requests pools prior rs = Inl e \<Longrightarrow> e = InvalidArgument \<or> e = BadAlloc"
  by (induction rs arbitrary: prior)
     (auto simp: check_request_def rbind_Inl_iff split: option.splits if_splits)

definition reserved_more :: "nat \<Rightarrow> page_pool \<Rightarrow> page_pool" where
  "reserved_more n p = p\<lparr>pp_reserved_pages := pp_reserved_pages p + n\<rparr>"

lemma pool_reserve_Some:
  assumes "pool_ok p" and "0 < n" and "n \<le> available_pages p"
  shows "pool_reserve n p = Some (\<lparr>rv_owner = Some (pp_id p), rv_pages = n\<rparr>, reserved_more n p)"
proof -
  have "pp_allocated_pages p + pp_reserved_pages p \<le> capacity_pages p" "capacity_pages p \<le> int32_max"
    using assms(1) by (simp_all add: pool_ok_def)
  then have "pp_reserved_pages p + n \<le> uint32_max"
    using assms(3) pool_ok_available(1) [OF assms(1)] by simp
  then show ?thesis using assms(2,3) by (simp add: pool_reserve_def reserved_more_def u32_add_small)
qed

lemma take_reservations_ok:
  assumes "\<forall>p\<in>set pools. pool_ok p"
    and "\<forall>r\<in>set rs. \<exists>i. fst r = Some i \<and> i < length pools \<and> 0 < snd r \<and> snd r \<le> available_pages (pools ! i)"
    and "distinct (map fst rs)"
  shows "\<exists>pools'. take_reservations rs pools =
      Inr (map (\<lambda>(i, n). \<lparr>rv_owner = Some (pp_id (pools ! the i)), rv_pages = n\<rparr>) rs, pools') \<and>
    length pools' = length pools \<and>
    (\<forall>k<length pools. pools' ! k = (case map_of rs (Some k) of None \<Rightarrow> pools ! k | Some n \<Rightarrow> reserved_more n (pools ! k)))"
  using assms
proof (induction rs arbitrary: pools)
  case (Cons r rs)
  obtain k n where r: "r = (Some k, n)" and k: "k < length pools" "0 < n" "n \<le> available_pages (pools ! k)"
    using Cons.prems(2) by (cases r) auto
  have ok: "pool_ok (pools ! k)" using Cons.prems(1) k(1) by simp
  let ?p = "reserved_more n (pools ! k)" and ?ps = "pools[k := reserved_more n (pools ! k)]"
  note res = pool_reserve_Some [OF ok k(2,3)]
  have okp: "pool_ok ?p"
  proof -
    have "capacity_pages ?p = capacity_pages (pools ! k)" by (simp add: reserved_more_def capacity_pages_def)
    then show ?thesis using ok k(3) pool_ok_available(1) [OF ok]
      by (auto simp: pool_ok_def reserved_more_def free_pages_def used_pages_def)
  qed
  have d: "distinct (map fst rs)" and kn: "Some k \<notin> fst ` set rs" using Cons.prems(3) r by auto
  have 1: "\<forall>p\<in>set ?ps. pool_ok p"
    using Cons.prems(1) okp set_update_subset_insert [of pools k ?p] by blast
  have other: "?ps ! i = pools ! i" if "(Some i, m) \<in> set rs" for i m
    using kn that by (metis fst_conv image_eqI nth_list_update_neq)
  have 2: "\<forall>s\<in>set rs. \<exists>i. fst s = Some i \<and> i < length ?ps \<and> 0 < snd s \<and> snd s \<le> available_pages (?ps ! i)"
  proof
    fix s assume s: "s \<in> set rs"
    then obtain i where "fst s = Some i" "i < length pools" "0 < snd s" "snd s \<le> available_pages (pools ! i)"
      using Cons.prems(2) by auto
    with other [of i "snd s"] s show "\<exists>i. fst s = Some i \<and> i < length ?ps \<and> 0 < snd s \<and> snd s \<le> available_pages (?ps ! i)"
      by (metis length_list_update prod.collapse)
  qed
  from Cons.IH [OF 1 2 d] obtain pools' where IH: "take_reservations rs ?ps =
      Inr (map (\<lambda>(i, n). \<lparr>rv_owner = Some (pp_id (?ps ! the i)), rv_pages = n\<rparr>) rs, pools')"
    "length pools' = length pools"
    "\<forall>j<length pools. pools' ! j = (case map_of rs (Some j) of None \<Rightarrow> ?ps ! j | Some n \<Rightarrow> reserved_more n (?ps ! j))"
    by auto
  have "map (\<lambda>(i, n). \<lparr>rv_owner = Some (pp_id (?ps ! the i)), rv_pages = n\<rparr>) rs =
      map (\<lambda>(i, n). \<lparr>rv_owner = Some (pp_id (pools ! the i)), rv_pages = n\<rparr>) rs"
    using Cons.prems(2) other by fastforce
  moreover have "pools' ! j = (case map_of (r # rs) (Some j) of None \<Rightarrow> pools ! j | Some n \<Rightarrow> reserved_more n (pools ! j))"
    if "j < length pools" for j
  proof (cases "j = k")
    case True
    have "map_of rs (Some k) = None" using kn by (simp add: map_of_eq_None_iff)
    with True IH(3) that r show ?thesis by simp
  qed (use IH(3) that r in \<open>auto split: option.splits\<close>)
  ultimately show ?case using IH(1,2) r res by auto
qed simp

section \<open>Properties\<close>

text \<open>
  Rows are exclusive: in every state reached by acquiring, releasing, moving and publishing,
  the armed row leases name pairwise different rows and are all valid, and acquiring a row that
  is leased fails.
\<close>

theorem rows_exclusive:
  assumes "table_reachable t ls" and "as = filter (\<lambda>l. rl_owner l \<noteq> None) ls"
  shows "distinct (map rl_row as) \<and>
    (\<forall>l\<in>set as. row_valid_handle t (row_lease_handle l) \<and> acquire (rl_row l) t = Inl LogicError)"
proof -
  have R: "rows_ok t ls" by (rule table_reachable_ok [OF assms(1)])
  then have B: "rows.balanced t (row_keys ls)" by (simp add: rows_ok_def)
  have as: "l \<in> set ls" "rl_owner l = Some (et_id t)" "0 \<le> rl_row l" if "l \<in> set as" for l
    using that R by (auto simp: assms(2) rows_ok_def)
  have keys: "row_keys ls = image_mset (\<lambda>l. (nat (rl_row l), rl_generation l)) (mset as)"
    by (simp add: row_keys_def assms(2) mset_filter)
  have "mset (map (\<lambda>l. nat (rl_row l)) as) = mset_set {i. i < nat (row_count t) \<and> et_in_use t ! i}"
    using B unfolding rows.balanced_def keys by (simp add: image_mset.compositionality comp_def)
  then have "distinct (map (\<lambda>l. nat (rl_row l)) as)"
    by (rule mset_set_distinct) simp
  then have "distinct (map rl_row as)" by (auto simp: distinct_map inj_on_def)
  moreover have "row_valid_handle t (row_lease_handle l) \<and> acquire (rl_row l) t = Inl LogicError" if l: "l \<in> set as" for l
  proof -
    have "(nat (rl_row l), rl_generation l) \<in># row_keys ls" using l by (auto simp: keys)
    from rows.balanced_holds [OF B this] as [OF l] show ?thesis
      by (auto simp: rows.holds_def row_valid_handle_def row_lease_handle_def acquire_def)
  qed
  ultimately show ?thesis by blast
qed


text \<open>A table of two rows with four logical pages each.\<close>

definition demo_table :: table_pool where
  "demo_table = \<lparr>et_id = 7, et_spec = \<lparr>ts_logical_page_capacity = 4, ts_table_rows = 2\<rparr>,
     et_tables = dense_matrix 4096 4 2, et_shadow = replicate 8 0, et_in_use = [False, False],
     et_generations = [1, 1]\<rparr>"

definition demo_row :: row_lease where
  "demo_row = \<lparr>rl_owner = Some 7, rl_row = 1, rl_generation = 1\<rparr>"

lemma demo_table_made:
  "plan_kv_execution_tables lb_empty \<lparr>ts_logical_page_capacity = 4, ts_table_rows = 2\<rparr> =
     Inr (\<lparr>tl_spec = \<lparr>ts_logical_page_capacity = 4, ts_table_rows = 2\<rparr>,
           tl_block_tables = \<lparr>tr_region = \<lparr>lr_offset = 0, lr_bytes = 32, lr_alignment = 256\<rparr>,
                              tr_dtype = I32, tr_shape = [4, 2, 1, 1]\<rparr>\<rparr>, \<lparr>lb_cursor = 32, lb_peak = 32\<rparr>)"
  "make_table_pool 7 \<lparr>ds_data = 4096, ds_bytes = 32\<rparr>
     \<lparr>tl_spec = \<lparr>ts_logical_page_capacity = 4, ts_table_rows = 2\<rparr>,
      tl_block_tables = \<lparr>tr_region = \<lparr>lr_offset = 0, lr_bytes = 32, lr_alignment = 256\<rparr>,
                         tr_dtype = I32, tr_shape = [4, 2, 1, 1]\<rparr>\<rparr> = Inr demo_table"
  by (simp_all add: plan_kv_execution_tables_def checked_table_bytes_def checked_i32_def lb_add_tensor_def lb_add_def
      lb_empty_def lb_advance_def align_up_def is_power_of_two_def checked_add_def tensor_ops numeral_3_eq_3
      make_table_pool_def tensor_region_bind_def region_bind_def demo_table_def dense_matrix_def)

lemma demo_acquired: "table_reachable (demo_table\<lparr>et_in_use := [False, True]\<rparr>) [demo_row]"
proof -
  have "table_reachable demo_table []"
    by (rule table_reachable.init [OF demo_table_made]) (simp add: demo_table_def dense_matrix_def)
  moreover have "acquire 1 demo_table = Inr (demo_row, demo_table\<lparr>et_in_use := [False, True]\<rparr>)"
    by (simp add: acquire_def demo_table_def demo_row_def row_count_def)
  ultimately have "table_reachable (demo_table\<lparr>et_in_use := [False, True]\<rparr>) ([] @ [demo_row])"
    by (rule table_reachable.acquire)
  then show ?thesis by simp
qed

theorem rows_exclusive_witness:
  "acquire 1 (demo_table\<lparr>et_in_use := [False, True]\<rparr>) = Inl LogicError"
  using rows_exclusive [OF demo_acquired refl] by (simp add: demo_row_def)

text \<open>
  C9. Publishing is exact: for a valid row handle, a range inside the row and valid pages,
  \<open>publish\<close> succeeds, and executing the copies it enqueues sets entry \<open>b + k\<close> of that
  row, the \<open>row * capacity + b + k\<close>-th four-byte cell of the table's memory, to the
  physical index of the \<open>k\<close>-th page and changes no other cell of device memory.  The row
  tensor handed to the kernels begins at that row's first cell.
\<close>

theorem publish_exact:
  assumes "table_reachable t ls" and "row_valid_handle t h" and "b + length hs \<le> logical_page_capacity t"
    and "\<forall>x\<in>set hs. pool_valid_handle pages x"
    and cell: "cell = (\<lambda>k. t_data (et_tables t) + 4 * word_of_nat (nat (rh_row h) * logical_page_capacity t + k))"
  shows "\<exists>cmds. fst (publish pages h b hs t) = Inr cmds \<and>
    (\<exists>row. table_row t h = Inr row \<and> t_data row = cell 0 \<and> t_ne row = [int (logical_page_capacity t), 1, 1, 1]) \<and>
    (\<forall>k<length hs. fold exec_copy cmds m (cell (b + k)) = ph_index (hs ! k)) \<and>
    (\<forall>x. (\<forall>k<length hs. x \<noteq> cell (b + k)) \<longrightarrow> fold exec_copy cmds m x = m x)"
proof -
  have ok: "table_ok t" using table_reachable_ok [OF assms(1)] by (simp add: rows_ok_def rows.balanced_def)
  have v: "\<forall>x\<in>set hs. physical_index pages x = Inr (ph_index x)" using assms(4) by (simp add: physical_index_def)
  have row: "\<exists>row. table_row t h = Inr row \<and> t_data row = cell 0 \<and> t_ne row = [int (logical_page_capacity t), 1, 1, 1]"
    using table_row_ok [OF ok assms(2)] by (simp add: cell)
  note P = publish_with_exact(1) [OF ok assms(2,3) v, folded publish_def]
  let ?c = "\<lparr>cc_dst = cell b, cc_values = map ph_index hs\<rparr>"
  have addr: "cc_dst ?c + 4 * word_of_nat k = cell (b + k)" for k
    by (simp add: cell distrib_left add.assoc)
  have "length hs \<le> int32_max" using assms(3) ok by (simp add: table_ok_def)
  then have len: "length (cc_values ?c) \<le> 2 ^ 32" by simp
  let ?cmds = "if hs = [] then [] else [?c]"
  have "fold exec_copy ?cmds m = exec_copy ?c m" by (simp add: exec_copy_def)
  then have eff: "(\<forall>k<length hs. fold exec_copy ?cmds m (cell (b + k)) = ph_index (hs ! k)) \<and>
      (\<forall>x. (\<forall>k<length hs. x \<noteq> cell (b + k)) \<longrightarrow> fold exec_copy ?cmds m x = m x)"
    using exec_copy_read [OF len] addr by (metis copy_cmd.select_convs(2) length_map nth_map)
  have "fst (publish pages h b hs t) = Inr ?cmds" unfolding P by (simp add: cell)
  with eff row show ?thesis by blast
qed

theorem publish_exact_witness:
  "\<exists>cmds. fst (publish demo_used (row_lease_handle demo_row) 1 (map lease_handle demo_leases)
       (demo_table\<lparr>et_in_use := [False, True]\<rparr>)) = Inr cmds \<and>
     fold exec_copy cmds (\<lambda>_. 9) (4096 + 4 * word_of_nat (1 * 4 + (1 + 2))) = 2"
proof -
  let ?t = "demo_table\<lparr>et_in_use := [False, True]\<rparr>" and ?hs = "map lease_handle demo_leases"
  have "row_valid_handle ?t (row_lease_handle demo_row)"
    by (simp add: row_valid_handle_def row_lease_handle_def demo_row_def demo_table_def row_count_def)
  moreover have "1 + length ?hs \<le> logical_page_capacity ?t"
    by (simp add: demo_table_def logical_page_capacity_def demo_leases_def)
  moreover have "\<forall>x\<in>set ?hs. pool_valid_handle demo_used x"
    by (simp add: demo_leases_def lease_handle_def pool_valid_handle_def demo_used_def demo_pool_def demo_layout_def
        capacity_pages_def replicate_8)
  moreover have base: "t_data (et_tables ?t) = 4096" "nat (rh_row (row_lease_handle demo_row)) * logical_page_capacity ?t = 1 * 4"
    by (simp_all add: demo_table_def dense_matrix_def row_lease_handle_def demo_row_def logical_page_capacity_def)
  ultimately obtain cmds where p: "fst (publish demo_used (row_lease_handle demo_row) 1 ?hs ?t) = Inr cmds"
    "\<forall>k<length ?hs. fold exec_copy cmds (\<lambda>_. 9) (4096 + 4 * word_of_nat (1 * 4 + (1 + k))) = ph_index (?hs ! k)"
    using publish_exact [OF demo_acquired _ _ _ refl, of "row_lease_handle demo_row" 1 ?hs demo_used "\<lambda>_. 9", unfolded base] by blast
  have "2 < length ?hs" and i: "ph_index (?hs ! 2) = 2" by (simp_all add: demo_leases_def lease_handle_def)
  from p(2) [rule_format, OF this(1)]
  have "fold exec_copy cmds (\<lambda>_. 9) (4096 + 4 * word_of_nat (1 * 4 + (1 + 2))) = 2" unfolding i .
  with p(1) show ?thesis by blast
qed

text \<open>
  C10. A bundle reservation is all or nothing: it fails only by \<open>invalid_argument\<close> or
  \<open>bad_alloc\<close>, both raised before any pool changes (the \<open>logic_error\<close> of the second
  pass is unreachable), and when it succeeds every named pool has reserved exactly the pages of its
  request and every other pool is unchanged.
\<close>

theorem bundle_all_or_nothing:
  assumes "\<forall>p\<in>set pools. pool_ok p" and "\<forall>r\<in>set requests. \<forall>i. fst r = Some i \<longrightarrow> i < length pools"
  shows "case reserve_device_kv_page_bundle requests pools of
      Inl e \<Rightarrow> e = InvalidArgument \<or> e = BadAlloc
    | Inr (rvs, pools') \<Rightarrow>
        rvs = map (\<lambda>(i, n). \<lparr>rv_owner = Some (pp_id (pools ! the i)), rv_pages = n\<rparr>) requests \<and>
        length pools' = length pools \<and>
        (\<forall>k<length pools. pools' ! k =
           (case map_of requests (Some k) of None \<Rightarrow> pools ! k | Some n \<Rightarrow> reserved_more n (pools ! k)))"
proof (cases "check_requests pools [] requests")
  case (Inl e)
  then show ?thesis using check_requests_Inl [OF Inl] by (simp add: reserve_device_kv_page_bundle_def)
next
  case (Inr u)
  then have c: "check_requests pools [] requests = Inr ()" by simp
  from c [unfolded check_requests_Inr] have d: "distinct (map fst requests)"
    and r: "\<forall>r\<in>set requests. \<exists>i. fst r = Some i \<and> i < length pools \<and> 0 < snd r \<and> snd r \<le> available_pages (pools ! i)"
    using assms(2) by fastforce+
  from take_reservations_ok [OF assms(1) r d] c show ?thesis
    by (auto simp: reserve_device_kv_page_bundle_def)
qed

theorem bundle_all_or_nothing_witness:
  "\<exists>rvs pools'. reserve_device_kv_page_bundle [(Some 0, 2)] [demo_used] = Inr (rvs, pools') \<and>
     pp_reserved_pages (pools' ! 0) = 3"
proof -
  have ok: "\<forall>p\<in>set [demo_used]. pool_ok p"
    using pool_reachable_ok [OF demo_reachable] by (simp add: sys_ok_def ledger_def demo_sys_def)
  have "check_requests [demo_used] [] [(Some 0, 2)] = Inr ()"
    by (simp add: check_request_def available_pages_def capacity_pages_def demo_used_def demo_pool_def demo_layout_def u32_sub_def)
  moreover have "pool_reserve 2 demo_used \<noteq> None"
    by (simp add: pool_reserve_def available_pages_def capacity_pages_def demo_used_def demo_pool_def demo_layout_def u32_sub_def)
  ultimately obtain rvs pools' where r: "reserve_device_kv_page_bundle [(Some 0, 2)] [demo_used] = Inr (rvs, pools')"
    by (auto simp: reserve_device_kv_page_bundle_def)
  with bundle_all_or_nothing [OF ok, of "[(Some 0, 2)]"] show ?thesis
    by (simp add: reserved_more_def demo_used_def)
qed

end
