(* ===== verification/HostArena.thy ===== *)
theory HostArena
  imports PagePool Generations
begin

text \<open>
  The pinned host arena: \<open>src/core/host_kv_arena.h\<close>, \<open>host_kv_arena.cpp\<close> and
  \<open>transfer_work.h\<close>.

  The arena hands out byte extents for packed page records of several layouts. An allocation names a
  descriptor and its generation; free space is an ordered list of maximal extents, the
  representation of \<open>Extents\<close> counted in bytes. A recipe is a plan of releases followed by
  allocations that is computed on a copy of the free list and applied later, if the arena
  is still at the same revision. Sizes are \<open>size_t\<close>, natural numbers with the overflow
  guards of the code written out.
\<close>

unbundle bit_operations_syntax

section \<open>Page records\<close>

record host_plane =
  hp_offset :: nat
  hp_page_payload_bytes :: nat
  hp_head_payload_bytes :: nat

record host_layout =
  hl_geometry :: page_geometry
  hl_planes :: "host_plane list"
  hl_page_stride :: nat

record transfer_work =
  tw_payload_bytes :: nat
  tw_copy_operations :: nat

definition kHostKVAlignment :: nat where
  "kHostKVAlignment = 256"

definition host_checked_add :: "nat \<Rightarrow> nat \<Rightarrow> nat res" where
  "host_checked_add a b = (if b > uint64_max - a then Inl OverflowError else Inr (a + b))"

definition host_checked_mul :: "nat \<Rightarrow> nat \<Rightarrow> nat res" where
  "host_checked_mul a b = (if b \<noteq> 0 \<and> a > uint64_max div b then Inl OverflowError else Inr (a * b))"

definition host_align_up :: "nat \<Rightarrow> nat \<Rightarrow> nat res" where
  "host_align_up value alignment =
     (let al = word_of_nat alignment :: u64 in
      if al = 0 \<or> al AND (al - 1) \<noteq> 0 then Inl InvalidArgument
      else let msk = alignment - 1 in
        if value > uint64_max - msk then Inl OverflowError
        else Inr (unat ((word_of_nat (value + msk) :: u64) AND NOT (word_of_nat msk))))"

fun plan_host_planes :: "nat \<Rightarrow> plane_geometry list \<Rightarrow> nat \<Rightarrow> (host_plane list \<times> nat) res" where
  "plan_host_planes page_tokens [] cursor = Inr ([], cursor)"
| "plan_host_planes page_tokens (plane # planes) cursor =
     (if pg_leading_extent plane \<le> 0 \<or> pg_head_extent plane \<le> 0 then Inl InvalidArgument
      else rbind (host_align_up cursor kHostKVAlignment) (\<lambda>offset.
           rbind (host_checked_mul (nat (pg_leading_extent plane)) page_tokens) (\<lambda>tokens.
           rbind (host_checked_mul tokens (dtype_size (pg_dtype plane))) (\<lambda>head_bytes.
           rbind (host_checked_mul head_bytes (nat (pg_head_extent plane))) (\<lambda>page_bytes.
           rbind (host_checked_add offset page_bytes) (\<lambda>cursor'.
           rbind (plan_host_planes page_tokens planes cursor') (\<lambda>(rest, last_cursor).
             Inr (\<lparr>hp_offset = offset, hp_page_payload_bytes = page_bytes,
                   hp_head_payload_bytes = head_bytes\<rparr> # rest, last_cursor))))))))"

definition plan_host_kv_page_layout :: "page_geometry \<Rightarrow> host_layout res" where
  "plan_host_kv_page_layout g =
     (if gm_page_tokens g = 0 \<or> gm_planes g = [] then Inl InvalidArgument
      else rbind (plan_host_planes (gm_page_tokens g) (gm_planes g) 0) (\<lambda>(planes, cursor).
           rbind (host_align_up cursor kHostKVAlignment) (\<lambda>stride.
             Inr \<lparr>hl_geometry = g, hl_planes = planes, hl_page_stride = stride\<rparr>)))"

fun transfer_sums :: "plane_order \<Rightarrow> (host_plane \<times> plane_geometry) list \<Rightarrow> nat \<Rightarrow> nat \<Rightarrow> (nat \<times> nat) res" where
  "transfer_sums order [] bytes_per_page operations_per_run = Inr (bytes_per_page, operations_per_run)"
| "transfer_sums order ((hp, plane) # rest) bytes_per_page operations_per_run =
     rbind (host_checked_add bytes_per_page (hp_page_payload_bytes hp)) (\<lambda>b.
     rbind (host_checked_add operations_per_run (if order = PageMajor then 1 else nat (pg_head_extent plane))) (\<lambda>ops.
       transfer_sums order rest b ops))"

definition plan_host_kv_transfer_work :: "host_layout \<Rightarrow> nat \<Rightarrow> nat \<Rightarrow> transfer_work res" where
  "plan_host_kv_transfer_work l pages contiguous_runs =
     (if pages = 0 then Inr \<lparr>tw_payload_bytes = 0, tw_copy_operations = 0\<rparr>
      else if contiguous_runs = 0 \<or> contiguous_runs > pages \<or> hl_planes l = [] \<or>
              length (hl_planes l) \<noteq> length (gm_planes (hl_geometry l)) then Inl InvalidArgument
      else rbind (transfer_sums (gm_plane_order (hl_geometry l)) (zip (hl_planes l) (gm_planes (hl_geometry l))) 0 0)
        (\<lambda>(bytes_per_page, operations_per_run).
           rbind (host_checked_mul bytes_per_page pages) (\<lambda>payload.
           rbind (host_checked_mul operations_per_run contiguous_runs) (\<lambda>operations.
             if operations > uint32_max then Inl OverflowError
             else Inr \<lparr>tw_payload_bytes = payload, tw_copy_operations = operations\<rparr>))))"

definition plan_device_kv_copy_work :: "host_layout \<Rightarrow> nat \<Rightarrow> transfer_work res" where
  "plan_device_kv_copy_work l pages =
     (if pages = 0 then Inr \<lparr>tw_payload_bytes = 0, tw_copy_operations = 0\<rparr>
      else if hl_planes l = [] \<or> length (hl_planes l) \<noteq> length (gm_planes (hl_geometry l)) then Inl InvalidArgument
      else rbind (rfold (\<lambda>plane b. host_checked_add b (hp_page_payload_bytes plane)) (hl_planes l) 0) (\<lambda>bytes_per_page.
           rbind (host_checked_mul bytes_per_page pages) (\<lambda>payload.
           rbind (host_checked_mul (length (hl_planes l)) pages) (\<lambda>operations.
             if operations > uint32_max then Inl OverflowError
             else Inr \<lparr>tw_payload_bytes = payload, tw_copy_operations = operations\<rparr>))))"

section \<open>The arena\<close>

record host_handle =
  hh_owner :: "nat option"
  hh_descriptor :: nat
  hh_generation :: u32

record host_alloc =
  al_owner :: "nat option"
  al_descriptor :: nat
  al_generation :: u32

record descriptor =
  dc_offset :: nat
  dc_bytes :: nat
  dc_layout :: nat
  dc_pages :: nat
  dc_generation :: u32
  dc_active :: bool

record host_request =
  hr_layout :: "host_layout option"
  hr_pages :: nat

record sub_release =
  sr_allocation :: host_handle
  sr_begin_page :: nat
  sr_page_count :: nat

record recipe_target =
  rt_layout :: nat
  rt_pages :: nat
  rt_offset :: nat
  rt_bytes :: nat

record recipe =
  rc_owner :: "nat option"
  rc_revision :: u64
  rc_releases :: "host_handle list"
  rc_targets :: "recipe_target list"

record host_arena =
  hk_id :: nat
  hk_backing :: "nat option"
  hk_capacity :: nat
  hk_occupied :: nat
  hk_layouts :: "host_layout list"
  hk_descriptors :: "descriptor list"
  hk_free_descriptors :: "nat list"
  hk_extents :: "run list"
  hk_revision :: u64

definition null_alloc :: host_alloc where
  "null_alloc = \<lparr>al_owner = None, al_descriptor = 0, al_generation = 0\<rparr>"

definition alloc_handle :: "host_alloc \<Rightarrow> host_handle" where
  "alloc_handle a =
     (if al_owner a \<noteq> None
      then \<lparr>hh_owner = al_owner a, hh_descriptor = al_descriptor a, hh_generation = al_generation a\<rparr>
      else \<lparr>hh_owner = None, hh_descriptor = 0, hh_generation = 0\<rparr>)"

definition host_valid_handle :: "host_arena \<Rightarrow> host_handle \<Rightarrow> bool" where
  "host_valid_handle a h =
     (if hh_owner h \<noteq> Some (hk_id a) \<or> hh_descriptor h \<ge> length (hk_descriptors a) then False
      else let d = hk_descriptors a ! hh_descriptor h
           in dc_active d \<and> dc_generation d = hh_generation h)"

definition page_count :: "host_alloc \<Rightarrow> host_arena \<Rightarrow> nat" where
  "page_count al a =
     (if al_owner al = None \<or> al_descriptor al \<ge> length (hk_descriptors a) then 0
      else let d = hk_descriptors a ! al_descriptor al
           in if dc_active d \<and> dc_generation d = al_generation al then dc_pages d else 0)"

definition bump_revision :: "host_arena \<Rightarrow> host_arena" where
  "bump_revision a =
     (let r = hk_revision a + 1 in a\<lparr>hk_revision := (if r = 0 then r + 1 else r)\<rparr>)"

definition default_descriptor :: descriptor where
  "default_descriptor = \<lparr>dc_offset = 0, dc_bytes = 0, dc_layout = 0, dc_pages = 0, dc_generation = 1, dc_active = False\<rparr>"

text \<open>
  The constructor. The address of the pinned buffer is a parameter. \<open>std::min_element\<close> by
  stride: only the stride of the smallest layout is used.
\<close>

fun check_layouts :: "host_layout list \<Rightarrow> host_layout list \<Rightarrow> unit res" where
  "check_layouts prior [] = Inr ()"
| "check_layouts prior (l # ls) =
     rbind (plan_host_kv_page_layout (hl_geometry l)) (\<lambda>planned.
       if planned \<noteq> l then Inl InvalidArgument
       else if l \<in> set prior then Inl InvalidArgument
       else check_layouts (prior @ [l]) ls)"

definition smallest_stride :: "host_layout list \<Rightarrow> nat" where
  "smallest_stride ls = foldl (\<lambda>m l. if hl_page_stride l < m then hl_page_stride l else m) (hl_page_stride (hd ls)) (tl ls)"

definition make_arena :: "nat \<Rightarrow> nat \<Rightarrow> nat \<Rightarrow> host_layout list \<Rightarrow> host_arena res" where
  "make_arena this buffer capacity ls =
     rbind (check_layouts [] ls) (\<lambda>_.
       let empty = \<lparr>hk_id = this, hk_backing = None, hk_capacity = capacity, hk_occupied = 0, hk_layouts = ls,
                    hk_descriptors = [], hk_free_descriptors = [], hk_extents = [], hk_revision = 1\<rparr> in
       if capacity = 0 then Inr empty
       else if ls = [] then Inl InvalidArgument
       else let n = capacity div smallest_stride ls in
         if n > uint32_max then Inl OverflowError
         else Inr (empty\<lparr>hk_backing := Some buffer, hk_descriptors := replicate n default_descriptor,
                         hk_free_descriptors := rev [0 ..< n],
                         hk_extents := [\<lparr>r_begin = 0, r_count = capacity\<rparr>]\<rparr>))"

definition find_layout :: "host_arena \<Rightarrow> host_layout \<Rightarrow> nat option" where
  "find_layout a l =
     (let k = length (takeWhile (\<lambda>x. x \<noteq> l) (hk_layouts a))
      in if k = length (hk_layouts a) then None else Some k)"

definition layout_for :: "host_arena \<Rightarrow> page_geometry \<Rightarrow> host_layout option" where
  "layout_for a g = find (\<lambda>l. hl_geometry l = g) (hk_layouts a)"

definition find_extent :: "nat \<Rightarrow> run list \<Rightarrow> nat option" where
  "find_extent n rs =
     (let k = length (takeWhile (\<lambda>r. \<not> r_count r \<ge> n) rs) in if k = length rs then None else Some k)"

definition can_allocate :: "host_arena \<Rightarrow> host_layout \<Rightarrow> nat \<Rightarrow> bool" where
  "can_allocate a l pages =
     (if pages = 0 \<or> hk_free_descriptors a = [] \<or> find_layout a l = None \<or>
         hl_page_stride l > uint64_max div pages then False
      else find_extent (hl_page_stride l * pages) (hk_extents a) \<noteq> None)"

text \<open>The front of extent \<open>k\<close> is used up; an extent that becomes empty is erased.\<close>

definition take_front :: "nat \<Rightarrow> nat \<Rightarrow> run list \<Rightarrow> run list" where
  "take_front k n rs =
     (let r = \<lparr>r_begin = r_begin (rs ! k) + n, r_count = r_count (rs ! k) - n\<rparr> in
      if r_count r = 0 then take k rs @ drop (Suc k) rs else rs[k := r])"

definition take_descriptor :: "host_arena \<Rightarrow> nat \<times> host_arena" where
  "take_descriptor a =
     (if hk_free_descriptors a = [] then (uint32_max, a)
      else (last (hk_free_descriptors a), a\<lparr>hk_free_descriptors := butlast (hk_free_descriptors a)\<rparr>))"

definition host_allocate :: "host_layout \<Rightarrow> nat \<Rightarrow> host_arena \<Rightarrow> (host_alloc \<times> host_arena) option" where
  "host_allocate l pages a =
     (case find_layout a l of
        None \<Rightarrow> None
      | Some layout_index \<Rightarrow>
          if pages = 0 \<or> hk_free_descriptors a = [] \<or> hl_page_stride l > uint64_max div pages then None
          else let n = hl_page_stride l * pages in
            (case find_extent n (hk_extents a) of
               None \<Rightarrow> None
             | Some k \<Rightarrow>
                 (case take_descriptor a of (i, a') \<Rightarrow>
                    if i = uint32_max then None
                    else let d = (hk_descriptors a' ! i)\<lparr>dc_offset := r_begin (hk_extents a' ! k), dc_bytes := n,
                                    dc_layout := layout_index, dc_pages := pages, dc_active := True\<rparr> in
                      Some (\<lparr>al_owner = Some (hk_id a), al_descriptor = i, al_generation = dc_generation d\<rparr>,
                            bump_revision (a'\<lparr>hk_extents := take_front k n (hk_extents a'),
                                              hk_descriptors := (hk_descriptors a')[i := d],
                                              hk_occupied := u64_add (hk_occupied a') n\<rparr>)))))"

definition insert_free_extent :: "run \<Rightarrow> run list \<Rightarrow> run list" where
  "insert_free_extent e rs =
     (let left = before (r_begin e) rs; right = from_on (r_begin e) rs;
          joins_left = (left \<noteq> [] \<and> r_begin (last left) + r_count (last left) = r_begin e);
          (left', e') = (if joins_left
                         then (butlast left, \<lparr>r_begin = r_begin (last left), r_count = r_count (last left) + r_count e\<rparr>)
                         else (left, e))
      in if right \<noteq> [] \<and> r_begin e' + r_count e' = r_begin (hd right)
         then left' @ \<lparr>r_begin = r_begin e', r_count = r_count e' + r_count (hd right)\<rparr> # tl right
         else left' @ e' # right)"

definition release_descriptor :: "nat \<Rightarrow> u32 \<Rightarrow> host_arena \<Rightarrow> bool \<times> host_arena" where
  "release_descriptor i generation a =
     (if i \<ge> length (hk_descriptors a) then (False, a)
      else let d = hk_descriptors a ! i in
        if \<not> dc_active d \<or> dc_generation d \<noteq> generation then (False, a)
        else (True, bump_revision (a\<lparr>
               hk_occupied := u64_sub (hk_occupied a) (dc_bytes d),
               hk_descriptors := (hk_descriptors a)[i := d\<lparr>dc_active := False, dc_offset := 0, dc_bytes := 0,
                  dc_pages := 0, dc_generation := increment_generation (dc_generation d)\<rparr>],
               hk_free_descriptors := hk_free_descriptors a @ [i],
               hk_extents := insert_free_extent \<lparr>r_begin = dc_offset d, r_count = dc_bytes d\<rparr> (hk_extents a)\<rparr>)))"

definition alloc_release :: "host_alloc \<Rightarrow> host_arena \<Rightarrow> bool \<times> host_alloc \<times> host_arena" where
  "alloc_release al a =
     (if al_owner al = None then (False, al, a)
      else case release_descriptor (al_descriptor al) (al_generation al) a of (r, a') \<Rightarrow> (r, null_alloc, a'))"

definition alloc_move_assign ::
  "host_alloc \<Rightarrow> host_alloc \<Rightarrow> host_arena \<Rightarrow> host_alloc \<times> host_alloc \<times> host_arena" where
  "alloc_move_assign target other a =
     (case alloc_release target a of (r, t, a') \<Rightarrow> (other, null_alloc, a'))"

section \<open>Splitting\<close>

definition host_split :: "host_alloc \<Rightarrow> nat \<Rightarrow> host_arena \<Rightarrow> (host_alloc \<times> host_alloc \<times> host_arena) res" where
  "host_split al page_offset a =
     (if \<not> host_valid_handle a (alloc_handle al) then Inl InvalidArgument
      else let original = hk_descriptors a ! al_descriptor al in
        if page_offset = 0 \<or> page_offset \<ge> dc_pages original then Inl OutOfRange
        else case take_descriptor a of (right_index, a') \<Rightarrow>
          if right_index = uint32_max then Inl LogicError
          else let stride = hl_page_stride (hk_layouts a' ! dc_layout original);
                   right_pages = dc_pages original - page_offset;
                   right = (hk_descriptors a' ! right_index)\<lparr>
                     dc_offset := dc_offset original + page_offset * stride, dc_bytes := right_pages * stride,
                     dc_layout := dc_layout original, dc_pages := right_pages, dc_active := True\<rparr>;
                   left = original\<lparr>dc_generation := increment_generation (dc_generation original),
                     dc_pages := page_offset, dc_bytes := page_offset * stride\<rparr> in
            Inr (\<lparr>al_owner = Some (hk_id a), al_descriptor = al_descriptor al, al_generation = dc_generation left\<rparr>,
                 \<lparr>al_owner = Some (hk_id a), al_descriptor = right_index, al_generation = dc_generation right\<rparr>,
                 bump_revision (a'\<lparr>hk_descriptors :=
                   (hk_descriptors a')[right_index := right, al_descriptor al := left]\<rparr>)))"

section \<open>Recipes\<close>

fun plan_releases :: "host_arena \<Rightarrow> host_handle list \<Rightarrow> host_handle list \<Rightarrow> run list \<Rightarrow> run list option" where
  "plan_releases a prior [] sim = Some sim"
| "plan_releases a prior (h # hs) sim =
     (if \<not> host_valid_handle a h \<or> h \<in> set prior then None
      else let d = hk_descriptors a ! hh_descriptor h in
        plan_releases a (prior @ [h]) hs
          (insert_free_extent \<lparr>r_begin = dc_offset d, r_count = dc_bytes d\<rparr> sim))"

fun plan_targets :: "host_arena \<Rightarrow> host_request list \<Rightarrow> run list \<Rightarrow> recipe_target list option" where
  "plan_targets a [] sim = Some []"
| "plan_targets a (q # qs) sim =
     (case hr_layout q of
        None \<Rightarrow> None
      | Some l \<Rightarrow>
          if hr_pages q = 0 then None
          else (case find_layout a l of
             None \<Rightarrow> None
           | Some layout_index \<Rightarrow>
               if hl_page_stride l > uint64_max div hr_pages q then None
               else let n = hl_page_stride l * hr_pages q in
                 (case find_extent n sim of
                    None \<Rightarrow> None
                  | Some k \<Rightarrow>
                      (case plan_targets a qs (take_front k n sim) of
                         None \<Rightarrow> None
                       | Some ts \<Rightarrow> Some (\<lparr>rt_layout = layout_index, rt_pages = hr_pages q,
                                         rt_offset = r_begin (sim ! k), rt_bytes = n\<rparr> # ts)))))"

definition plan_after_releases :: "host_arena \<Rightarrow> host_handle list \<Rightarrow> host_request list \<Rightarrow> recipe option" where
  "plan_after_releases a releases targets =
     (if releases = [] \<and> targets = [] then None
      else if length targets > length (hk_free_descriptors a) + length releases then None
      else case plan_releases a [] releases (hk_extents a) of
          None \<Rightarrow> None
        | Some sim \<Rightarrow>
            (case plan_targets a targets sim of
               None \<Rightarrow> None
             | Some ts \<Rightarrow> Some \<lparr>rc_owner = Some (hk_id a), rc_revision = hk_revision a,
                              rc_releases = releases, rc_targets = ts\<rparr>))"

text \<open>
  \<open>apply_recipe\<close>: the outcome is a flag with the emptied releases, the filled targets and
  the arena, or \<open>Terminate\<close>. \<open>None\<close> among the releases is a null pointer.
\<close>

fun release_all :: "host_alloc list \<Rightarrow> host_arena \<Rightarrow> (host_alloc list \<times> host_arena) res" where
  "release_all [] a = Inr ([], a)"
| "release_all (al # als) a =
     (case alloc_release al a of (r, al', a') \<Rightarrow>
        if \<not> r then Inl Terminate
        else rbind (release_all als a') (\<lambda>(rest, a''). Inr (al' # rest, a'')))"

fun allocate_all :: "recipe_target list \<Rightarrow> host_arena \<Rightarrow> (host_alloc list \<times> host_arena) res" where
  "allocate_all [] a = Inr ([], a)"
| "allocate_all (t # ts) a =
     (case host_allocate (hk_layouts a ! rt_layout t) (rt_pages t) a of
        None \<Rightarrow> Inl Terminate
      | Some (al, a') \<Rightarrow>
          let d = hk_descriptors a' ! al_descriptor al in
          if dc_offset d \<noteq> rt_offset t \<or> dc_bytes d \<noteq> rt_bytes t then Inl Terminate
          else rbind (allocate_all ts a') (\<lambda>(rest, a''). Inr (al # rest, a'')))"

definition recipe_accepts :: "recipe \<Rightarrow> host_alloc option list \<Rightarrow> host_alloc list \<Rightarrow> host_arena \<Rightarrow> bool" where
  "recipe_accepts rc releases targets a \<longleftrightarrow>
     rc_owner rc = Some (hk_id a) \<and> rc_revision rc = hk_revision a \<and>
     length (rc_releases rc) = length releases \<and> length (rc_targets rc) = length targets \<and>
     list_all2 (\<lambda>al h. (case al of None \<Rightarrow> False | Some x \<Rightarrow> alloc_handle x = h) \<and> host_valid_handle a h)
       releases (rc_releases rc) \<and>
     list_all2 (\<lambda>al t. al_owner al = None \<and> rt_layout t < length (hk_layouts a) \<and> rt_pages t \<noteq> 0 \<and>
         \<not> hl_page_stride (hk_layouts a ! rt_layout t) > uint64_max div rt_pages t \<and>
         hl_page_stride (hk_layouts a ! rt_layout t) * rt_pages t = rt_bytes t)
       targets (rc_targets rc)"

definition apply_recipe ::
  "recipe \<Rightarrow> host_alloc option list \<Rightarrow> host_alloc list \<Rightarrow> host_arena \<Rightarrow>
     (bool \<times> host_alloc option list \<times> host_alloc list \<times> host_arena) res" where
  "apply_recipe rc releases targets a =
     (if \<not> recipe_accepts rc releases targets a then Inr (False, releases, targets, a)
      else rbind (release_all (map the releases) a) (\<lambda>(released, a1).
           rbind (allocate_all (rc_targets rc) a1) (\<lambda>(allocated, a2).
             Inr (True, map Some released, allocated, a2))))"


section \<open>Page records: bounds\<close>

lemma host_checked_add_Inr: "a \<le> uint64_max \<Longrightarrow> host_checked_add a b = Inr c \<longleftrightarrow> a + b \<le> uint64_max \<and> c = a + b"
  by (auto simp: host_checked_add_def)

lemma host_checked_mul_Inr: "host_checked_mul a b = Inr c \<longleftrightarrow> a * b \<le> uint64_max \<and> c = a * b"
  using mul_guard_exact [of b uint64_max a] by (auto simp: host_checked_mul_def)

lemma host_align_up_256:
  assumes "host_align_up v kHostKVAlignment = Inr r"
  shows "v \<le> r" "r \<le> uint64_max" "256 dvd r" "r < v + 256"
proof -
  have g: "v + 255 \<le> uint64_max" and r: "r = unat ((word_of_nat (v + 255) :: u64) AND NOT (word_of_nat 255))"
    using assms by (auto simp: host_align_up_def kHostKVAlignment_def Let_def split: if_splits)
  have m: "(word_of_nat 255 :: u64) = mask 8" by (simp add: mask_eq_exp_minus_1)
  have u: "unat (word_of_nat (v + 255) :: u64) = v + 255"
    using g by (simp only: unsigned_of_nat take_bit_eq_mod) simp
  have e: "r = (v + 255) div 256 * 256" unfolding r m unat_clear_low u by simp
  show "v \<le> r" "r < v + 256" unfolding e by linarith+
  show "256 dvd r" unfolding e by simp
  show "r \<le> uint64_max" using g unfolding e by linarith
qed

text \<open>The planes of a packed record: aligned, in order, disjoint.\<close>

fun planes_packed :: "nat \<Rightarrow> host_plane list \<Rightarrow> nat \<Rightarrow> bool" where
  "planes_packed lo [] hi = (lo \<le> hi)"
| "planes_packed lo (p # ps) hi =
     (lo \<le> hp_offset p \<and> 256 dvd hp_offset p \<and> 0 < hp_page_payload_bytes p \<and>
      planes_packed (hp_offset p + hp_page_payload_bytes p) ps hi)"

lemma planes_packed_mono: "planes_packed lo ps hi \<Longrightarrow> hi \<le> hi' \<Longrightarrow> planes_packed lo ps hi'"
  by (induction ps arbitrary: lo) auto

lemma planes_packed_bound: "planes_packed lo ps hi \<Longrightarrow> lo \<le> hi"
  by (induction ps arbitrary: lo) fastforce+

lemma plan_host_planes_packed:
  assumes "plan_host_planes tk planes c = Inr (ps, c')" and "c \<le> uint64_max" and "0 < tk"
  shows "planes_packed c ps c' \<and> c' \<le> uint64_max \<and> length ps = length planes"
  using assms
proof (induction planes arbitrary: c ps)
  case (Cons plane planes)
  let ?h = "nat (pg_leading_extent plane) * tk * dtype_size (pg_dtype plane)"
  let ?p = "?h * nat (pg_head_extent plane)"
  have pos: "0 < pg_leading_extent plane" "0 < pg_head_extent plane" using Cons.prems(1) by (auto split: if_splits)
  from Cons.prems(1) obtain off rest where o: "host_align_up c kHostKVAlignment = Inr off"
    and r: "plan_host_planes tk planes (off + ?p) = Inr (rest, c')"
    and ps: "ps = \<lparr>hp_offset = off, hp_page_payload_bytes = ?p, hp_head_payload_bytes = ?h\<rparr> # rest"
    and le: "off + ?p \<le> uint64_max"
    using host_align_up_256(2) [of c]
    by (auto simp: rbind_Inr_iff host_checked_mul_Inr host_checked_add_Inr split: if_splits)
  have "0 < ?p" using pos Cons.prems(3) by simp
  with Cons.IH [OF r le Cons.prems(3)] host_align_up_256 [OF o] ps show ?case by simp
qed simp

section \<open>The free extents\<close>

lemma insert_free_extent_join:
  "insert_free_extent e rs =
     (case join_left (before (r_begin e) rs) e of (xs, e') \<Rightarrow> xs @ join_right e' (from_on (r_begin e) rs))"
  by (cases "from_on (r_begin e) rs")
     (auto simp: insert_free_extent_def join_left_def join_right_def r_end_def Let_def)

lemma insert_free_extent_ok:
  assumes "runs_ok cap rs" and "0 < n" and "b + n \<le> cap" and "{b ..< b + n} \<inter> cover rs = {}"
  shows "runs_ok cap (insert_free_extent \<lparr>r_begin = b, r_count = n\<rparr> rs)"
    and "cover (insert_free_extent \<lparr>r_begin = b, r_count = n\<rparr> rs) = cover rs \<union> {b ..< b + n}"
proof -
  let ?e = "\<lparr>r_begin = b, r_count = n\<rparr>"
  obtain xs e where j: "join_left (before b rs) ?e = (xs, e)" by fastforce
  have "runs_from 0 rs" using assms(1) by (simp add: runs_ok_def)
  note s = split_covers [OF this assms(4,2)]
  have "runs_ok cap (before b rs @ from_on b rs)" using assms(1) by simp
  note r = join_runs_ok [OF this, of ?e xs e]
  show "runs_ok cap (insert_free_extent ?e rs)" "cover (insert_free_extent ?e rs) = cover rs \<union> {b ..< b + n}"
    using r j s assms(2,3) by (auto simp: insert_free_extent_join simp flip: cover_simps(3))
qed

lemma find_extent_Some:
  assumes "find_extent n rs = Some k"
  shows "k < length rs" "n \<le> r_count (rs ! k)"
proof -
  have k: "k = length (takeWhile (\<lambda>r. \<not> r_count r \<ge> n) rs)" "k \<noteq> length rs"
    using assms by (auto simp: find_extent_def Let_def split: if_splits)
  then show "k < length rs" using length_takeWhile_le [of "\<lambda>r. \<not> r_count r \<ge> n" rs] by simp
  with k takeWhile_index [of k _ rs] show "n \<le> r_count (rs ! k)" by fastforce
qed

lemma find_extent_None: "find_extent n rs = None \<longleftrightarrow> (\<forall>r\<in>set rs. r_count r < n)"
proof -
  let ?t = "takeWhile (\<lambda>r. \<not> r_count r \<ge> n) rs"
  have "length ?t = length rs \<longleftrightarrow> ?t = rs" by (metis length_takeWhile_le takeWhile_eq_take take_all_iff)
  then show ?thesis by (auto simp: find_extent_def Let_def takeWhile_eq_all_conv not_le)
qed

lemma take_front_ok:
  assumes "runs_ok cap rs" and "k < length rs" and "0 < n" and "n \<le> r_count (rs ! k)"
  shows "runs_ok cap (take_front k n rs)"
    and "cover (take_front k n rs) = cover rs - {r_begin (rs ! k) ..< r_begin (rs ! k) + n}"
    and "{r_begin (rs ! k) ..< r_begin (rs ! k) + n} \<subseteq> cover rs"
proof -
  let ?r = "rs ! k"
  have rs: "rs = take k rs @ ?r # drop (Suc k) rs" using assms(2) by (rule id_take_nth_drop)
  have e: "take_front k n rs = take k rs @ cut_run (r_begin ?r) n ?r @ drop (Suc k) rs"
    using assms(2-4) by (auto simp: take_front_def cut_run_def r_end_def upd_conv_take_nth_drop)
  have "runs_ok cap (take k rs @ ?r # drop (Suc k) rs)" "r_begin ?r + n \<le> r_end ?r"
    using assms(1,4) rs by (simp_all add: r_end_def)
  note c = runs_ok_cut [OF this(1) order.refl this(2) assms(3)]
  show "runs_ok cap (take_front k n rs)" "cover (take_front k n rs) = cover rs - {r_begin ?r ..< r_begin ?r + n}"
    using c rs e by simp_all
  have "run_set ?r \<subseteq> cover rs" using nth_mem [OF assms(2)] by (auto simp: cover_def)
  then show "{r_begin ?r ..< r_begin ?r + n} \<subseteq> cover rs" using assms(4) by (auto simp: run_set_def r_end_def)
qed


section \<open>The invariant\<close>

definition d_span :: "descriptor \<Rightarrow> nat set" where
  "d_span d = (if dc_active d then {dc_offset d ..< dc_offset d + dc_bytes d} else {})"

definition owned :: "descriptor list \<Rightarrow> nat \<Rightarrow> nat set" where
  "owned ds i = (if i < length ds then d_span (ds ! i) else {})"

text \<open>The spans of the active descriptors are disjoint and fill exactly what is not free.\<close>

definition partitioned :: "nat \<Rightarrow> descriptor list \<Rightarrow> nat set \<Rightarrow> bool" where
  "partitioned cap ds free \<longleftrightarrow>
     (\<forall>i j. i \<noteq> j \<longrightarrow> owned ds i \<inter> owned ds j = {}) \<and> (\<Union>i. owned ds i) = {..<cap} - free"

definition descriptor_ok :: "host_layout list \<Rightarrow> descriptor \<Rightarrow> bool" where
  "descriptor_ok ls d \<longleftrightarrow> dc_generation d \<noteq> 0 \<and>
     (dc_active d \<longrightarrow> 0 < dc_pages d \<and> dc_layout d < length ls \<and>
        dc_bytes d = hl_page_stride (ls ! dc_layout d) * dc_pages d \<and> 0 < dc_bytes d)"

definition stride_bound :: "host_arena \<Rightarrow> nat \<Rightarrow> bool" where
  "stride_bound a m \<longleftrightarrow> 0 < m \<and> (\<forall>l\<in>set (hk_layouts a). m \<le> hl_page_stride l) \<and>
     hk_capacity a < Suc (length (hk_descriptors a)) * m"

definition arena_ok :: "host_arena \<Rightarrow> bool" where
  "arena_ok a \<longleftrightarrow>
     hk_capacity a \<le> uint64_max \<and> length (hk_descriptors a) \<le> uint32_max \<and>
     runs_ok (hk_capacity a) (hk_extents a) \<and>
     partitioned (hk_capacity a) (hk_descriptors a) (cover (hk_extents a)) \<and>
     hk_occupied a + card (cover (hk_extents a)) = hk_capacity a \<and>
     (\<forall>d\<in>set (hk_descriptors a). descriptor_ok (hk_layouts a) d) \<and>
     distinct (hk_free_descriptors a) \<and>
     set (hk_free_descriptors a) = {i. i < length (hk_descriptors a) \<and> \<not> dc_active (hk_descriptors a ! i)} \<and>
     (\<exists>m. stride_bound a m)"

lemma owned_update: "i < length ds \<Longrightarrow> owned (ds[i := d]) = (owned ds)(i := d_span d)"
  by (rule ext) (simp add: owned_def nth_list_update)

lemma finite_owned [simp]: "finite (owned ds i)"
  by (simp add: owned_def d_span_def)

lemma partitioned_owned_free: "partitioned cap ds free \<Longrightarrow> owned ds i \<inter> free = {}"
  unfolding partitioned_def by blast

lemma partitioned_take:
  assumes "partitioned cap ds free" and "i < length ds" and "owned ds i = {}"
    and "d_span d \<subseteq> free" and "free \<subseteq> {..<cap}"
  shows "partitioned cap (ds[i := d]) (free - d_span d)"
proof -
  have "owned ds j \<inter> d_span d = {}" for j using partitioned_owned_free [OF assms(1), of j] assms(4) by blast
  moreover have "(\<Union>j. ((owned ds)(i := d_span d)) j) = (\<Union>j. owned ds j) \<union> d_span d"
    using assms(3) by (auto simp: fun_upd_def split: if_splits)
  ultimately show ?thesis using assms(1,4,5) unfolding partitioned_def owned_update [OF assms(2)]
    by (auto simp: fun_upd_def)
qed

lemma partitioned_give:
  assumes "partitioned cap ds free" and "i < length ds" and "d_span d = {}"
  shows "partitioned cap (ds[i := d]) (free \<union> owned ds i)"
proof -
  have "(\<Union>j. ((owned ds)(i := {})) j) = (\<Union>j. owned ds j) - owned ds i"
    using assms(1) unfolding partitioned_def by (auto simp: fun_upd_def split: if_splits)
  then show ?thesis using assms unfolding partitioned_def owned_update [OF assms(2)]
    by (auto simp: fun_upd_def)
qed

lemma partitioned_split:
  assumes "partitioned cap ds free" and "i < length ds" and "j < length ds" and "i \<noteq> j" and "owned ds j = {}"
    and "d_span x \<union> d_span y = owned ds i" and "d_span x \<inter> d_span y = {}"
  shows "partitioned cap (ds[j := y, i := x]) free"
proof -
  have o: "owned (ds[j := y, i := x]) = (owned ds)(j := d_span y, i := d_span x)"
    using owned_update [of i "ds[j := y]" x] owned_update [OF assms(3)] assms(2) by simp
  have "(\<Union>k. ((owned ds)(j := d_span y, i := d_span x)) k) = (\<Union>k. owned ds k)"
  proof (rule set_eqI, rule iffI)
    fix z assume "z \<in> (\<Union>k. owned ds k)"
    then obtain k where k: "z \<in> owned ds k" by blast
    then have "k \<noteq> j" using assms(5) by auto
    show "z \<in> (\<Union>k. ((owned ds)(j := d_span y, i := d_span x)) k)"
    proof (cases "k = i")
      case True
      then have "z \<in> d_span x \<or> z \<in> d_span y" using k assms(6) by blast
      then show ?thesis using assms(4) by (auto intro: UN_I [of i] UN_I [of j])
    next
      case False
      with \<open>k \<noteq> j\<close> k show ?thesis by (auto intro!: UN_I [of k])
    qed
  next
    fix z assume "z \<in> (\<Union>k. ((owned ds)(j := d_span y, i := d_span x)) k)"
    then obtain k where "z \<in> ((owned ds)(j := d_span y, i := d_span x)) k" by blast
    then have "z \<in> owned ds k \<or> z \<in> owned ds i" using assms(6) by (auto split: if_splits)
    then show "z \<in> (\<Union>k. owned ds k)" by blast
  qed
  moreover have "((owned ds)(j := d_span y, i := d_span x)) k \<inter> ((owned ds)(j := d_span y, i := d_span x)) l = {}"
    if "k \<noteq> l" for k l
  proof -
    have "owned ds k \<inter> owned ds l = {}" "owned ds i \<inter> owned ds k = {} \<or> k = i" "owned ds i \<inter> owned ds l = {} \<or> l = i"
      using assms(1) that unfolding partitioned_def by metis+
    then show ?thesis using that assms(4,6,7) by (auto split: if_splits)
  qed
  ultimately show ?thesis using assms(1) unfolding partitioned_def o by simp
qed

text \<open>Descriptors suffice: every allocation is at least one page of the smallest stride.\<close>

lemma card_owned: "card (owned ds i) = (if i < length ds \<and> dc_active (ds ! i) then dc_bytes (ds ! i) else 0)"
  by (simp add: owned_def d_span_def)

lemma partitioned_card:
  assumes "partitioned cap ds free" and "free \<subseteq> {..<cap}"
  shows "(\<Sum>i<length ds. card (owned ds i)) + card free = cap"
proof -
  have "(\<Union>i. owned ds i) = (\<Union>i<length ds. owned ds i)" by (auto simp: owned_def split: if_splits)
  then have u: "(\<Union>i<length ds. owned ds i) = {..<cap} - free" using assms(1) by (simp add: partitioned_def)
  have "card (\<Union>i<length ds. owned ds i) = (\<Sum>i<length ds. card (owned ds i))"
    using assms(1) by (intro card_UN_disjoint) (auto simp: partitioned_def)
  moreover have "card ({..<cap} - free) + card free = cap"
    using assms(2) finite_subset [OF assms(2)] card_mono [OF _ assms(2)] by (simp add: card_Diff_subset)
  ultimately show ?thesis using u by simp
qed

lemma descriptors_suffice:
  assumes "arena_ok a" and "stride_bound a m" and "\<forall>i<length (hk_descriptors a). dc_active (hk_descriptors a ! i)"
    and "n \<le> card (cover (hk_extents a))" and "length (hk_descriptors a) + x \<le> (\<Sum>i<length (hk_descriptors a). dc_pages (hk_descriptors a ! i))"
  shows "n + x * m < m"
proof -
  let ?ds = "hk_descriptors a"
  have P: "partitioned (hk_capacity a) ?ds (cover (hk_extents a))" and R: "runs_ok (hk_capacity a) (hk_extents a)"
    using assms(1) by (simp_all add: arena_ok_def)
  have each: "m * dc_pages (?ds ! i) \<le> card (owned ?ds i)" if "i < length ?ds" for i
  proof -
    have d: "descriptor_ok (hk_layouts a) (?ds ! i)" using assms(1) that by (simp add: arena_ok_def)
    then have "m \<le> hl_page_stride (hk_layouts a ! dc_layout (?ds ! i))"
      using assms(2,3) that by (simp add: descriptor_ok_def stride_bound_def)
    then show ?thesis using d assms(3) that by (simp add: card_owned descriptor_ok_def)
  qed
  have "m * (length ?ds + x) \<le> m * (\<Sum>i<length ?ds. dc_pages (?ds ! i))" using assms(5) by simp
  also have "\<dots> = (\<Sum>i<length ?ds. m * dc_pages (?ds ! i))" by (simp add: sum_distrib_left)
  also have "\<dots> \<le> (\<Sum>i<length ?ds. card (owned ?ds i))" using each by (intro sum_mono) simp
  finally have "m * (length ?ds + x) + n \<le> hk_capacity a"
    using partitioned_card [OF P runs_ok_cover [OF R]] assms(4) by linarith
  also have "\<dots> < Suc (length ?ds) * m" using assms(2) by (simp add: stride_bound_def)
  finally show ?thesis by (simp add: algebra_simps)
qed

lemma pages_at_least_one:
  assumes "arena_ok a" and "\<forall>i<length (hk_descriptors a). dc_active (hk_descriptors a ! i)"
  shows "length (hk_descriptors a) \<le> (\<Sum>i<length (hk_descriptors a). dc_pages (hk_descriptors a ! i))"
proof -
  have "(\<Sum>i<length (hk_descriptors a). 1) \<le> (\<Sum>i<length (hk_descriptors a). dc_pages (hk_descriptors a ! i))"
    using assms by (intro sum_mono) (auto simp: arena_ok_def descriptor_ok_def Suc_le_eq)
  then show ?thesis by simp
qed


section \<open>Every operation keeps it\<close>

lemma planned_stride_pos:
  assumes "plan_host_kv_page_layout g = Inr l"
  shows "0 < hl_page_stride l"
proof -
  from assms obtain planes c where g: "0 < gm_page_tokens g" "gm_planes g \<noteq> []"
    and p: "plan_host_planes (gm_page_tokens g) (gm_planes g) 0 = Inr (planes, c)"
    and s: "host_align_up c kHostKVAlignment = Inr (hl_page_stride l)"
    by (auto simp: plan_host_kv_page_layout_def rbind_Inr_iff split: if_splits)
  from plan_host_planes_packed [OF p _ g(1)] have pk: "planes_packed 0 planes c" "length planes = length (gm_planes g)" by auto
  then obtain q qs where "planes = q # qs" using g(2) by (cases planes) auto
  with pk(1) have "0 < c" using planes_packed_bound [of "hp_offset q + hp_page_payload_bytes q" qs c] by auto
  with host_align_up_256(1) [OF s] show ?thesis by simp
qed

lemma check_layouts_strides:
  "check_layouts prior ls = Inr () \<Longrightarrow> l \<in> set ls \<Longrightarrow> 0 < hl_page_stride l"
proof (induction ls arbitrary: prior)
  case (Cons x ls)
  then have "plan_host_kv_page_layout (hl_geometry x) = Inr x" and r: "check_layouts (prior @ [x]) ls = Inr ()"
    by (auto simp: rbind_Inr_iff split: if_splits)
  with Cons.IH [OF r] Cons.prems(2) planned_stride_pos show ?case by auto
qed simp

lemma smallest_stride_aux:
  "(\<forall>l\<in>set ls. foldl (\<lambda>m l. if hl_page_stride l < m then hl_page_stride l else m) m ls \<le> hl_page_stride l) \<and>
   foldl (\<lambda>m l. if hl_page_stride l < m then hl_page_stride l else m) m ls \<le> m \<and>
   (foldl (\<lambda>m l. if hl_page_stride l < m then hl_page_stride l else m) m ls = m \<or>
    (\<exists>l\<in>set ls. foldl (\<lambda>m l. if hl_page_stride l < m then hl_page_stride l else m) m ls = hl_page_stride l))"
proof (induction ls arbitrary: m)
  case (Cons x ls)
  let ?m = "if hl_page_stride x < m then hl_page_stride x else m"
  show ?case using Cons [of ?m] by (auto split: if_splits)
qed simp

lemma smallest_stride:
  assumes "ls \<noteq> []"
  shows "\<forall>l\<in>set ls. smallest_stride ls \<le> hl_page_stride l" "\<exists>l\<in>set ls. smallest_stride ls = hl_page_stride l"
  using assms smallest_stride_aux [where ls = "tl ls" and m = "hl_page_stride (hd ls)"]
  by (cases ls; auto simp: smallest_stride_def)+

lemma make_arena_ok:
  assumes "make_arena this buffer capacity ls = Inr a" and "capacity \<le> uint64_max"
  shows "arena_ok a"
proof -
  have c: "check_layouts [] ls = Inr ()" using assms(1) by (auto simp: make_arena_def rbind_Inr_iff)
  have pos: "0 < hl_page_stride l" if "l \<in> set ls" for l using check_layouts_strides [OF c that] .
  let ?m = "if ls = [] then 1 else smallest_stride ls" and ?n = "capacity div smallest_stride ls"
  have m: "0 < ?m" "\<forall>l\<in>set ls. ?m \<le> hl_page_stride l" using smallest_stride [of ls] pos by auto
  show ?thesis
  proof (cases "capacity = 0")
    case True
    then have "a = \<lparr>hk_id = this, hk_backing = None, hk_capacity = 0, hk_occupied = 0, hk_layouts = ls,
                    hk_descriptors = [], hk_free_descriptors = [], hk_extents = [], hk_revision = 1\<rparr>"
      using assms(1) c by (simp add: make_arena_def)
    then show ?thesis using m
      by (auto simp: arena_ok_def runs_ok_def partitioned_def owned_def stride_bound_def intro!: exI [of _ ?m])
  next
    case False
    then have ls: "ls \<noteq> []" and n: "?n \<le> uint32_max"
      and a: "a = \<lparr>hk_id = this, hk_backing = Some buffer, hk_capacity = capacity, hk_occupied = 0, hk_layouts = ls,
                    hk_descriptors = replicate ?n default_descriptor, hk_free_descriptors = rev [0 ..< ?n],
                    hk_extents = [\<lparr>r_begin = 0, r_count = capacity\<rparr>], hk_revision = 1\<rparr>"
      using assms(1) c by (auto simp: make_arena_def Let_def split: if_splits)
    have "capacity < Suc ?n * smallest_stride ls"
      using m ls by (simp add: dividend_less_div_times add.commute)
    then have "stride_bound a ?m" using m ls by (simp add: stride_bound_def a)
    moreover have "owned (replicate ?n default_descriptor) = (\<lambda>_. {})"
      by (rule ext) (simp add: owned_def d_span_def default_descriptor_def)
    then have "partitioned capacity (replicate ?n default_descriptor) {0 ..< capacity}" by (auto simp: partitioned_def)
    ultimately show ?thesis using n False assms(2)
      by (auto simp: arena_ok_def a runs_ok_def descriptor_ok_def default_descriptor_def)
  qed
qed

lemma bump_revision_simps [simp]:
  "hk_id (bump_revision a) = hk_id a" "hk_backing (bump_revision a) = hk_backing a"
  "hk_capacity (bump_revision a) = hk_capacity a"
  "hk_occupied (bump_revision a) = hk_occupied a" "hk_layouts (bump_revision a) = hk_layouts a"
  "hk_descriptors (bump_revision a) = hk_descriptors a" "hk_free_descriptors (bump_revision a) = hk_free_descriptors a"
  "hk_extents (bump_revision a) = hk_extents a"
  by (simp_all add: bump_revision_def Let_def)

lemma find_layout_Some:
  assumes "find_layout a l = Some k"
  shows "k < length (hk_layouts a)" "hk_layouts a ! k = l"
proof -
  have k: "k = length (takeWhile (\<lambda>x. x \<noteq> l) (hk_layouts a))" "k \<noteq> length (hk_layouts a)"
    using assms by (auto simp: find_layout_def Let_def split: if_splits)
  then show "k < length (hk_layouts a)" using length_takeWhile_le [of "\<lambda>x. x \<noteq> l" "hk_layouts a"] by simp
  with k takeWhile_index [of k "\<lambda>x. x \<noteq> l" "hk_layouts a"] show "hk_layouts a ! k = l" by simp
qed

text \<open>What a successful \<open>allocate\<close> does, spelled out once.\<close>

lemma host_allocate_Some:
  assumes "arena_ok a" and "host_allocate l pages a = Some (al, a')"
  obtains k e i where "find_layout a l = Some k" "0 < pages" "find_extent (hl_page_stride l * pages) (hk_extents a) = Some e"
    "hl_page_stride l * pages \<le> uint64_max"
    "i = last (hk_free_descriptors a)" "hk_free_descriptors a \<noteq> []" "i < length (hk_descriptors a)"
    "\<not> dc_active (hk_descriptors a ! i)"
    "al = \<lparr>al_owner = Some (hk_id a), al_descriptor = i, al_generation = dc_generation (hk_descriptors a ! i)\<rparr>"
    "a' = bump_revision (a\<lparr>hk_free_descriptors := butlast (hk_free_descriptors a),
            hk_extents := take_front e (hl_page_stride l * pages) (hk_extents a),
            hk_descriptors := (hk_descriptors a)[i := (hk_descriptors a ! i)\<lparr>dc_offset := r_begin (hk_extents a ! e),
               dc_bytes := hl_page_stride l * pages, dc_layout := k, dc_pages := pages, dc_active := True\<rparr>],
            hk_occupied := u64_add (hk_occupied a) (hl_page_stride l * pages)\<rparr>)"
proof -
  from assms(2) obtain k e where k: "find_layout a l = Some k" and p: "0 < pages" and f: "hk_free_descriptors a \<noteq> []"
    and s: "\<not> hl_page_stride l > uint64_max div pages"
    and e: "find_extent (hl_page_stride l * pages) (hk_extents a) = Some e"
    by (auto simp: host_allocate_def Let_def split: option.splits if_splits)
  let ?i = "last (hk_free_descriptors a)"
  have "?i \<in> set (hk_free_descriptors a)" using f by simp
  then have i: "?i < length (hk_descriptors a)" "\<not> dc_active (hk_descriptors a ! ?i)" using assms(1) by (auto simp: arena_ok_def)
  have ne: "?i \<noteq> uint32_max" using i assms(1) by (auto simp: arena_ok_def)
  have "hl_page_stride l * pages \<le> uint64_max" using s p mul_guard_exact [of pages uint64_max "hl_page_stride l"] by auto
  then show ?thesis using assms(2) k p f s e i ne
    by (intro that [of k e ?i]) (simp_all add: host_allocate_def Let_def take_descriptor_def)
qed

lemma runs_count_le_card:
  assumes "runs_ok cap rs" and "k < length rs"
  shows "r_count (rs ! k) \<le> card (cover rs)"
proof -
  have "run_set (rs ! k) \<subseteq> cover rs" using nth_mem [OF assms(2)] by (auto simp: cover_def)
  then have "card (run_set (rs ! k)) \<le> card (cover rs)" by (intro card_mono) simp_all
  then show ?thesis by (simp add: run_set_def r_end_def)
qed

lemma butlast_distinct_set:
  assumes "distinct xs" and "xs \<noteq> []" and "x = last xs"
  shows "distinct (butlast xs)" "set (butlast xs) = set xs - {x}"
  using assms by (cases xs rule: rev_cases; simp)+

lemma host_allocate_ok:
  assumes "arena_ok a" and "host_allocate l pages a = Some (al, a')"
  shows "arena_ok a'"
  using assms
proof (rule host_allocate_Some)
  fix k e i
  let ?n = "hl_page_stride l * pages" and ?d = "(hk_descriptors a ! i)\<lparr>dc_offset := r_begin (hk_extents a ! e),
               dc_bytes := hl_page_stride l * pages, dc_layout := k, dc_pages := pages, dc_active := True\<rparr>"
  assume k: "find_layout a l = Some k" and p: "0 < pages" and e: "find_extent ?n (hk_extents a) = Some e"
    and i: "i = last (hk_free_descriptors a)" "hk_free_descriptors a \<noteq> []" "i < length (hk_descriptors a)"
    "\<not> dc_active (hk_descriptors a ! i)"
    and a': "a' = bump_revision (a\<lparr>hk_free_descriptors := butlast (hk_free_descriptors a),
            hk_extents := take_front e ?n (hk_extents a), hk_descriptors := (hk_descriptors a)[i := ?d],
            hk_occupied := u64_add (hk_occupied a) ?n\<rparr>)"
  from assms(1) obtain m where ok: "runs_ok (hk_capacity a) (hk_extents a)"
    "partitioned (hk_capacity a) (hk_descriptors a) (cover (hk_extents a))"
    "hk_occupied a + card (cover (hk_extents a)) = hk_capacity a" "hk_capacity a \<le> uint64_max"
    "\<forall>d\<in>set (hk_descriptors a). descriptor_ok (hk_layouts a) d" "distinct (hk_free_descriptors a)"
    "set (hk_free_descriptors a) = {i. i < length (hk_descriptors a) \<and> \<not> dc_active (hk_descriptors a ! i)}"
    and m: "stride_bound a m" by (auto simp: arena_ok_def)
  note fl = find_layout_Some [OF k] and fe = find_extent_Some [OF e]
  have "m \<le> hl_page_stride l" using m fl by (auto simp: stride_bound_def)
  then have n: "0 < ?n" using m p by (simp add: stride_bound_def)
  note tf = take_front_ok [OF ok(1) fe(1) n fe(2)]
  have span: "d_span ?d = {r_begin (hk_extents a ! e) ..< r_begin (hk_extents a ! e) + ?n}" by (simp add: d_span_def)
  have "owned (hk_descriptors a) i = {}" using i by (simp add: owned_def d_span_def)
  from partitioned_take [OF ok(2) i(3) this, of ?d] tf(3) span runs_ok_cover [OF ok(1)]
  have part: "partitioned (hk_capacity a) ((hk_descriptors a)[i := ?d]) (cover (take_front e ?n (hk_extents a)))"
    by (simp add: tf(2))
  have cf: "card (cover (take_front e ?n (hk_extents a))) + ?n = card (cover (hk_extents a))"
    using tf(2,3) card_mono [OF finite_cover tf(3)] by (simp add: card_Diff_subset)
  have occ: "u64_add (hk_occupied a) ?n = hk_occupied a + ?n" using cf ok(3,4) by (intro u64_add_small) linarith
  have "descriptor_ok (hk_layouts a) (hk_descriptors a ! i)" using ok(5) i(3) by simp
  then have "descriptor_ok (hk_layouts a) ?d" using fl p n by (simp add: descriptor_ok_def)
  then have ds: "\<forall>d\<in>set ((hk_descriptors a)[i := ?d]). descriptor_ok (hk_layouts a) d"
    using ok(5) set_update_subset_insert [of "hk_descriptors a" i ?d] by blast
  have fr: "distinct (butlast (hk_free_descriptors a))" "set (butlast (hk_free_descriptors a)) = set (hk_free_descriptors a) - {i}"
    using butlast_distinct_set [OF ok(6) i(2,1)] .
  have "set (butlast (hk_free_descriptors a)) = {j. j < length (hk_descriptors a) \<and> \<not> dc_active ((hk_descriptors a)[i := ?d] ! j)}"
    unfolding fr(2) ok(7) using i(3) by (auto simp: nth_list_update)
  moreover have "stride_bound a' m" using m by (simp add: stride_bound_def a')
  ultimately show "arena_ok a'"
    using assms(1) tf(1) part ds fr(1) occ cf ok(3) by (auto simp: arena_ok_def a')
qed


definition freed :: "descriptor \<Rightarrow> descriptor" where
  "freed d = d\<lparr>dc_active := False, dc_offset := 0, dc_bytes := 0, dc_pages := 0,
               dc_generation := increment_generation (dc_generation d)\<rparr>"

lemma release_descriptor_True:
  assumes "i < length (hk_descriptors a)" and "dc_active (hk_descriptors a ! i)"
    and "dc_generation (hk_descriptors a ! i) = g"
  shows "release_descriptor i g a = (True, bump_revision (a\<lparr>
      hk_occupied := u64_sub (hk_occupied a) (dc_bytes (hk_descriptors a ! i)),
      hk_descriptors := (hk_descriptors a)[i := freed (hk_descriptors a ! i)],
      hk_free_descriptors := hk_free_descriptors a @ [i],
      hk_extents := insert_free_extent \<lparr>r_begin = dc_offset (hk_descriptors a ! i),
                                        r_count = dc_bytes (hk_descriptors a ! i)\<rparr> (hk_extents a)\<rparr>))"
  using assms by (simp add: release_descriptor_def freed_def Let_def)

lemma active_span:
  assumes "arena_ok a" and "i < length (hk_descriptors a)" and "dc_active (hk_descriptors a ! i)"
  defines "d \<equiv> hk_descriptors a ! i"
  shows "0 < dc_bytes d" "dc_offset d + dc_bytes d \<le> hk_capacity a"
    "{dc_offset d ..< dc_offset d + dc_bytes d} \<inter> cover (hk_extents a) = {}"
    "owned (hk_descriptors a) i = {dc_offset d ..< dc_offset d + dc_bytes d}" "descriptor_ok (hk_layouts a) d"
proof -
  show D: "descriptor_ok (hk_layouts a) d" using assms(1,2) by (simp add: arena_ok_def d_def)
  then show b: "0 < dc_bytes d" using assms(3) unfolding descriptor_ok_def d_def by blast
  show o: "owned (hk_descriptors a) i = {dc_offset d ..< dc_offset d + dc_bytes d}"
    using assms(2,3) by (simp add: owned_def d_span_def d_def)
  have P: "partitioned (hk_capacity a) (hk_descriptors a) (cover (hk_extents a))" using assms(1) by (simp add: arena_ok_def)
  show "{dc_offset d ..< dc_offset d + dc_bytes d} \<inter> cover (hk_extents a) = {}"
    using partitioned_owned_free [OF P, of i] o by simp
  have "dc_offset d + dc_bytes d - 1 \<in> owned (hk_descriptors a) i" using o b by auto
  then have "dc_offset d + dc_bytes d - 1 \<in> {..<hk_capacity a}" using P unfolding partitioned_def by blast
  then show "dc_offset d + dc_bytes d \<le> hk_capacity a" using b by auto
qed

lemma release_descriptor_ok:
  assumes "arena_ok a" and "release_descriptor i g a = (r, a')"
  shows "arena_ok a'"
proof (cases "i < length (hk_descriptors a) \<and> dc_active (hk_descriptors a ! i) \<and> dc_generation (hk_descriptors a ! i) = g")
  case False
  then have "a' = a" using assms(2) by (auto simp: release_descriptor_def Let_def split: if_splits)
  with assms(1) show ?thesis by simp
next
  case True
  let ?d = "hk_descriptors a ! i"
  let ?e = "\<lparr>r_begin = dc_offset ?d, r_count = dc_bytes ?d\<rparr>"
  from True have i: "i < length (hk_descriptors a)" "dc_active ?d" by simp_all
  from assms(1) obtain m where ok: "runs_ok (hk_capacity a) (hk_extents a)"
    "partitioned (hk_capacity a) (hk_descriptors a) (cover (hk_extents a))"
    "hk_occupied a + card (cover (hk_extents a)) = hk_capacity a" "hk_capacity a \<le> uint64_max"
    "\<forall>d\<in>set (hk_descriptors a). descriptor_ok (hk_layouts a) d" "distinct (hk_free_descriptors a)"
    "set (hk_free_descriptors a) = {i. i < length (hk_descriptors a) \<and> \<not> dc_active (hk_descriptors a ! i)}"
    and m: "stride_bound a m" by (auto simp: arena_ok_def)
  note s = active_span [OF assms(1) i]
  note ins = insert_free_extent_ok [OF ok(1) s(1,2,3)]
  have a': "a' = bump_revision (a\<lparr>hk_occupied := u64_sub (hk_occupied a) (dc_bytes ?d),
      hk_descriptors := (hk_descriptors a)[i := freed ?d], hk_free_descriptors := hk_free_descriptors a @ [i],
      hk_extents := insert_free_extent ?e (hk_extents a)\<rparr>)"
    using assms(2) release_descriptor_True [OF i] True by simp
  have "d_span (freed ?d) = {}" by (simp add: d_span_def freed_def)
  from partitioned_give [OF ok(2) i(1) this] ins(2) s(4)
  have part: "partitioned (hk_capacity a) ((hk_descriptors a)[i := freed ?d]) (cover (insert_free_extent ?e (hk_extents a)))"
    by simp
  have cc: "card (cover (insert_free_extent ?e (hk_extents a))) = card (cover (hk_extents a)) + dc_bytes ?d"
    using s(3) by (simp add: ins(2) card_Un_disjoint Int_commute)
  have "cover (insert_free_extent ?e (hk_extents a)) \<subseteq> {..<hk_capacity a}" by (rule runs_ok_cover [OF ins(1)])
  then have "card (cover (insert_free_extent ?e (hk_extents a))) \<le> hk_capacity a"
    by (metis card_lessThan card_mono finite_lessThan)
  then have le: "dc_bytes ?d \<le> hk_occupied a" using cc ok(3) by linarith
  then have occ: "u64_sub (hk_occupied a) (dc_bytes ?d) = hk_occupied a - dc_bytes ?d"
    using ok(3,4) by (intro u64_sub_small) linarith+
  have "descriptor_ok (hk_layouts a) (freed ?d)" by (simp add: descriptor_ok_def freed_def)
  then have ds: "\<forall>d\<in>set ((hk_descriptors a)[i := freed ?d]). descriptor_ok (hk_layouts a) d"
    using ok(5) set_update_subset_insert [of "hk_descriptors a" i "freed ?d"] by blast
  have fr: "distinct (hk_free_descriptors a @ [i])" using ok(6,7) i by simp
  have fs: "set (hk_free_descriptors a @ [i]) = {j. j < length (hk_descriptors a) \<and> \<not> dc_active ((hk_descriptors a)[i := freed ?d] ! j)}"
    using ok(7) i by (auto simp: nth_list_update freed_def split: if_splits)
  have sb: "stride_bound a' m" using m by (simp add: stride_bound_def a')
  have "hk_occupied a' + card (cover (hk_extents a')) = hk_capacity a'" using occ cc ok(3) le by (simp add: a')
  moreover have "length (hk_descriptors a') \<le> uint32_max" using assms(1) by (simp add: arena_ok_def a')
  ultimately show ?thesis using sb unfolding arena_ok_def
    by (simp only: a' bump_revision_simps) (use ins(1) part ds fr fs ok(4) in auto)
qed

interpretation descriptors: generation_slots arena_ok "\<lambda>a. length (hk_descriptors a)"
  "\<lambda>a i. dc_active (hk_descriptors a ! i)" "\<lambda>a i. dc_generation (hk_descriptors a ! i)"
  "\<lambda>i a. snd (release_descriptor i (dc_generation (hk_descriptors a ! i)) a)"
proof
  fix a i assume ok: "arena_ok a" and i: "i < length (hk_descriptors a)"
  show "dc_generation (hk_descriptors a ! i) \<noteq> 0"
    using ok nth_mem [OF i] by (auto simp: arena_ok_def descriptor_ok_def)
  assume u: "dc_active (hk_descriptors a ! i)"
  let ?a = "snd (release_descriptor i (dc_generation (hk_descriptors a ! i)) a)"
  show "arena_ok ?a" using release_descriptor_ok [OF ok] by (metis prod.collapse)
  have e: "hk_descriptors ?a = (hk_descriptors a)[i := freed (hk_descriptors a ! i)]"
    by (simp add: release_descriptor_True [OF i u])
  show "length (hk_descriptors ?a) = length (hk_descriptors a)" by (simp add: e)
  show "\<not> dc_active (hk_descriptors ?a ! i) \<and>
      dc_generation (hk_descriptors ?a ! i) = increment_generation (dc_generation (hk_descriptors a ! i))"
    using i by (simp add: e freed_def)
  show "dc_active (hk_descriptors ?a ! j) = dc_active (hk_descriptors a ! j) \<and>
      dc_generation (hk_descriptors ?a ! j) = dc_generation (hk_descriptors a ! j)" if "j \<noteq> i" for j
    using that by (simp add: e)
qed


lemma alloc_handle_valid:
  "host_valid_handle a (alloc_handle al) \<longleftrightarrow>
     al_owner al = Some (hk_id a) \<and> al_descriptor al < length (hk_descriptors a) \<and>
     dc_active (hk_descriptors a ! al_descriptor al) \<and> dc_generation (hk_descriptors a ! al_descriptor al) = al_generation al"
  by (cases "al_owner al") (auto simp: host_valid_handle_def alloc_handle_def Let_def)

lemma host_split_cases:
  assumes "arena_ok a" and "host_valid_handle a (alloc_handle al)"
    and "0 < page_offset" and "page_offset < dc_pages (hk_descriptors a ! al_descriptor al)"
  shows "al_descriptor al < length (hk_descriptors a)" "dc_active (hk_descriptors a ! al_descriptor al)"
    "al_owner al = Some (hk_id a)" "hk_free_descriptors a \<noteq> []"
proof -
  let ?i = "al_descriptor al" and ?ds = "hk_descriptors a"
  show i: "?i < length ?ds" "dc_active (?ds ! ?i)" "al_owner al = Some (hk_id a)"
    using assms(2) by (simp_all add: alloc_handle_valid)
  show "hk_free_descriptors a \<noteq> []"
  proof
    assume "hk_free_descriptors a = []"
    then have act: "\<forall>i<length ?ds. dc_active (?ds ! i)" using assms(1) by (auto simp: arena_ok_def)
    obtain m where m: "stride_bound a m" using assms(1) by (auto simp: arena_ok_def)
    have one: "\<forall>i<length ?ds. 1 \<le> dc_pages (?ds ! i)"
      using act assms(1) by (auto simp: arena_ok_def descriptor_ok_def Suc_le_eq)
    have "(\<Sum>k<length ?ds. 1 + of_bool (k = ?i)) \<le> (\<Sum>k<length ?ds. dc_pages (?ds ! k))"
      using one assms(3,4) by (intro sum_mono) auto
    moreover have "(\<Sum>k<length ?ds. 1 + of_bool (k = ?i)) = length ?ds + (1 :: nat)"
      using i(1) by (simp only: sum.distrib of_bool_def) (simp add: sum.delta)
    ultimately have "length ?ds + 1 \<le> (\<Sum>k<length ?ds. dc_pages (?ds ! k))" by simp
    from descriptors_suffice [OF assms(1) m act _ this, of 0] show False by simp
  qed
qed

text \<open>
  \<open>split\<close> succeeds behind its guards: the descriptor it needs exists.
\<close>

lemma host_split_Inr:
  assumes "arena_ok a" and "host_valid_handle a (alloc_handle al)"
    and "0 < po" and "po < dc_pages (hk_descriptors a ! al_descriptor al)"
  defines "i \<equiv> al_descriptor al" and "j \<equiv> last (hk_free_descriptors a)"
  defines "d \<equiv> hk_descriptors a ! i"
  defines "st \<equiv> hl_page_stride (hk_layouts a ! dc_layout d)"
  defines "lft \<equiv> d\<lparr>dc_generation := increment_generation (dc_generation d), dc_pages := po, dc_bytes := po * st\<rparr>"
    and "rgt \<equiv> (hk_descriptors a ! j)\<lparr>dc_offset := dc_offset d + po * st, dc_bytes := (dc_pages d - po) * st,
           dc_layout := dc_layout d, dc_pages := dc_pages d - po, dc_active := True\<rparr>"
  defines "a' \<equiv> bump_revision (a\<lparr>hk_free_descriptors := butlast (hk_free_descriptors a),
           hk_descriptors := (hk_descriptors a)[j := rgt, i := lft]\<rparr>)"
  shows "host_split al po a = Inr (\<lparr>al_owner = Some (hk_id a), al_descriptor = i, al_generation = dc_generation lft\<rparr>,
      \<lparr>al_owner = Some (hk_id a), al_descriptor = j, al_generation = dc_generation rgt\<rparr>, a')"
    and "arena_ok a'" and "i \<noteq> j" and "i < length (hk_descriptors a)" and "j < length (hk_descriptors a)"
    and "d_span lft \<union> d_span rgt = d_span d" and "d_span lft \<inter> d_span rgt = {}"
proof -
  note c = host_split_cases [OF assms(1-4), folded i_def]
  have i: "i < length (hk_descriptors a)" "dc_active d" using c by (simp_all add: d_def)
  have jm: "j \<in> set (hk_free_descriptors a)" using c(4) by (simp add: j_def)
  from assms(1) obtain m where ok: "hk_capacity a \<le> uint64_max" "length (hk_descriptors a) \<le> uint32_max"
    "runs_ok (hk_capacity a) (hk_extents a)" "partitioned (hk_capacity a) (hk_descriptors a) (cover (hk_extents a))"
    "hk_occupied a + card (cover (hk_extents a)) = hk_capacity a"
    "\<forall>d\<in>set (hk_descriptors a). descriptor_ok (hk_layouts a) d" "distinct (hk_free_descriptors a)"
    "set (hk_free_descriptors a) = {i. i < length (hk_descriptors a) \<and> \<not> dc_active (hk_descriptors a ! i)}"
    and m: "stride_bound a m" by (auto simp: arena_ok_def)
  have j: "j < length (hk_descriptors a)" "\<not> dc_active (hk_descriptors a ! j)" using jm ok(8) by auto
  show ne: "i \<noteq> j" using i j by (auto simp: d_def)
  show "i < length (hk_descriptors a)" "j < length (hk_descriptors a)" by fact+
  have jmax: "j \<noteq> uint32_max" using j ok(2) by auto
  have po: "0 < po" "po < dc_pages d" using assms(3,4) by (simp_all add: d_def i_def)
  have D: "descriptor_ok (hk_layouts a) d" using ok(6) i(1) by (simp add: d_def)
  then have bytes: "dc_bytes d = po * st + (dc_pages d - po) * st" and st: "0 < st" and lay: "dc_layout d < length (hk_layouts a)"
    using i(2) po by (auto simp: descriptor_ok_def st_def algebra_simps simp flip: distrib_left)
  have sl: "d_span lft = {dc_offset d ..< dc_offset d + po * st}" using i(2) by (simp add: d_span_def lft_def)
  have sr: "d_span rgt = {dc_offset d + po * st ..< dc_offset d + po * st + (dc_pages d - po) * st}"
    by (simp add: d_span_def rgt_def)
  have sd: "d_span d = {dc_offset d ..< dc_offset d + po * st + (dc_pages d - po) * st}"
    using i(2) by (simp add: d_span_def bytes add.assoc)
  show un: "d_span lft \<union> d_span rgt = d_span d" unfolding sl sr sd by auto
  show di: "d_span lft \<inter> d_span rgt = {}" unfolding sl sr by auto
  show "host_split al po a = Inr (\<lparr>al_owner = Some (hk_id a), al_descriptor = i, al_generation = dc_generation lft\<rparr>,
      \<lparr>al_owner = Some (hk_id a), al_descriptor = j, al_generation = dc_generation rgt\<rparr>, a')"
    using assms(2) po c(4) jmax
    by (simp add: host_split_def Let_def take_descriptor_def a'_def lft_def rgt_def st_def d_def i_def j_def)
  have "owned (hk_descriptors a) j = {}" using j by (simp add: owned_def d_span_def)
  moreover have "d_span lft \<union> d_span rgt = owned (hk_descriptors a) i" using un i(1) by (simp add: owned_def d_def)
  ultimately have part: "partitioned (hk_capacity a) ((hk_descriptors a)[j := rgt, i := lft]) (cover (hk_extents a))"
    using partitioned_split [OF ok(4) i(1) j(1) ne] di by blast
  have "descriptor_ok (hk_layouts a) lft" using D i(2) po st by (simp add: descriptor_ok_def lft_def st_def mult.commute)
  moreover have "dc_generation (hk_descriptors a ! j) \<noteq> 0" using ok(6) j(1) by (simp add: descriptor_ok_def)
  then have "descriptor_ok (hk_layouts a) rgt"
    using po st lay by (simp add: descriptor_ok_def rgt_def st_def mult.commute)
  ultimately have ds: "\<forall>x\<in>set ((hk_descriptors a)[j := rgt, i := lft]). descriptor_ok (hk_layouts a) x"
    using ok(6) set_update_subset_insert [of "(hk_descriptors a)[j := rgt]" i lft]
      set_update_subset_insert [of "hk_descriptors a" j rgt] by blast
  note fr = butlast_distinct_set [OF ok(7) c(4) j_def [THEN meta_eq_to_obj_eq]]
  have fs: "set (butlast (hk_free_descriptors a)) =
      {k. k < length (hk_descriptors a) \<and> \<not> dc_active ((hk_descriptors a)[j := rgt, i := lft] ! k)}"
    unfolding fr(2) ok(8) using i j ne by (auto simp: nth_list_update lft_def rgt_def d_def)
  have "stride_bound a' m" using m by (simp add: stride_bound_def a'_def)
  then show "arena_ok a'" unfolding arena_ok_def
    by (simp only: a'_def bump_revision_simps) (use ok part ds fr(1) fs in auto)
qed

end
