(* ===== verification/HostSystem.thy ===== *)
theory HostSystem
  imports HostArena "HOL-Library.Product_Lexorder"
begin

text \<open>
  What the host arena guarantees its clients: recipes are exact, allocations are disjoint, the
  free list is canonical, page records are packed without overlap. Views of allocations
  and the feasibility test over partial releases are here as well.
\<close>

section \<open>Views\<close>

record host_view =
  hv_handle :: host_handle
  hv_data :: "nat option"
  hv_layout :: "host_layout option"
  hv_page_count :: nat

definition allocation_data :: "host_arena \<Rightarrow> descriptor \<Rightarrow> nat option" where
  "allocation_data a d = (case hk_backing a of None \<Rightarrow> None | Some base \<Rightarrow> Some (base + dc_offset d))"

text \<open>\<open>writable_view\<close> and \<open>view\<close> differ only in the constness of the pointer.\<close>

definition arena_view :: "host_arena \<Rightarrow> host_alloc \<Rightarrow> host_view res" where
  "arena_view a al =
     (if \<not> host_valid_handle a (alloc_handle al) then Inl InvalidArgument
      else let d = hk_descriptors a ! al_descriptor al in
        Inr \<lparr>hv_handle = alloc_handle al, hv_data = allocation_data a d,
             hv_layout = Some (hk_layouts a ! dc_layout d), hv_page_count = dc_pages d\<rparr>)"

definition view_valid :: "host_arena \<Rightarrow> host_view \<Rightarrow> bool" where
  "view_valid a v \<longleftrightarrow> hh_owner (hv_handle v) \<noteq> None \<and> host_valid_handle a (hv_handle v)"

definition view_layout :: "host_arena \<Rightarrow> host_view \<Rightarrow> host_layout res" where
  "view_layout a v =
     (if \<not> view_valid a v then Inl LogicError
      else case hv_layout v of None \<Rightarrow> Inl LogicError | Some l \<Rightarrow> Inr l)"

definition subview :: "host_arena \<Rightarrow> nat \<Rightarrow> nat \<Rightarrow> host_view \<Rightarrow> host_view res" where
  "subview a b n v =
     (if \<not> view_valid a v \<or> n = 0 \<or> b > hv_page_count v \<or> n > hv_page_count v - b then Inl OutOfRange
      else Inr (v\<lparr>hv_data := (case (hv_data v, hv_layout v) of
                               (Some p, Some l) \<Rightarrow> Some (p + b * hl_page_stride l) | _ \<Rightarrow> None),
                  hv_page_count := n\<rparr>))"

section \<open>Partial releases\<close>

text \<open>
  \<open>can_allocate_after_suballocation_releases\<close>: would the targets fit if parts of allocations were
  released? Ranges of the same allocation must not overlap. What remains of an allocation
  may fall into several runs, each of which needs a descriptor.
\<close>

fun sub_releases :: "host_arena \<Rightarrow> sub_release list \<Rightarrow> sub_release list \<Rightarrow> run list \<Rightarrow> run list option res" where
  "sub_releases a prior [] sim = Inr (Some sim)"
| "sub_releases a prior (r # rs) sim =
     (if \<not> host_valid_handle a (sr_allocation r) \<or> sr_page_count r = 0 then Inr None
      else let d = hk_descriptors a ! hh_descriptor (sr_allocation r) in
        if sr_begin_page r > dc_pages d \<or> sr_page_count r > dc_pages d - sr_begin_page r then Inr None
        else let e = u32_add (sr_begin_page r) (sr_page_count r) in
          if \<exists>q\<in>set prior. sr_allocation q = sr_allocation r \<and>
               sr_begin_page r < u32_add (sr_begin_page q) (sr_page_count q) \<and> sr_begin_page q < e
          then Inr None
          else let stride = hl_page_stride (hk_layouts a ! dc_layout d) in
            rbind (host_checked_mul (sr_begin_page r) stride) (\<lambda>x.
            rbind (host_checked_add (dc_offset d) x) (\<lambda>offset.
            rbind (host_checked_mul (sr_page_count r) stride) (\<lambda>n.
              sub_releases a (prior @ [r]) rs (insert_free_extent \<lparr>r_begin = offset, r_count = n\<rparr> sim)))))"

definition retained_runs :: "nat \<Rightarrow> (nat \<times> nat) list \<Rightarrow> nat" where
  "retained_runs pages intervals =
     (case fold (\<lambda>(b, e) (cursor, runs). (e, if b > cursor then Suc runs else runs)) intervals (0, 0) of
        (cursor, runs) \<Rightarrow> if cursor < pages then Suc runs else runs)"

fun sub_descriptors :: "host_arena \<Rightarrow> sub_release list \<Rightarrow> sub_release list \<Rightarrow> sub_release list \<Rightarrow> nat \<times> nat \<Rightarrow> nat \<times> nat" where
  "sub_descriptors a all_rs prior [] acc = acc"
| "sub_descriptors a all_rs prior (r # rs) (available, required) =
     (if \<exists>q\<in>set prior. sr_allocation q = sr_allocation r
      then sub_descriptors a all_rs (prior @ [r]) rs (available, required)
      else let intervals = sort (map (\<lambda>q. (sr_begin_page q, u32_add (sr_begin_page q) (sr_page_count q)))
                             (filter (\<lambda>q. sr_allocation q = sr_allocation r) all_rs));
               runs = retained_runs (dc_pages (hk_descriptors a ! hh_descriptor (sr_allocation r))) intervals in
        sub_descriptors a all_rs (prior @ [r]) rs
          (if runs = 0 then (Suc available, required)
           else if runs > 1 then (available, required + (runs - 1)) else (available, required)))"

definition can_allocate_after_suballocation_releases ::
  "host_arena \<Rightarrow> sub_release list \<Rightarrow> host_request list \<Rightarrow> bool res" where
  "can_allocate_after_suballocation_releases a rs targets =
     (if rs = [] \<and> targets = [] then Inr True
      else rbind (sub_releases a [] rs (hk_extents a)) (\<lambda>r.
        case r of None \<Rightarrow> Inr False
        | Some sim \<Rightarrow>
            (case sub_descriptors a rs [] rs (length (hk_free_descriptors a), length targets) of (available, required) \<Rightarrow>
               if required > available then Inr False else Inr (plan_targets a targets sim \<noteq> None))))"

section \<open>Recipes are exact\<close>

lemma alloc_release_valid:
  assumes "host_valid_handle a (alloc_handle al)"
  shows "alloc_release al a = (True, null_alloc, snd (release_descriptor (al_descriptor al) (al_generation al) a))"
  using assms release_descriptor_True [of "al_descriptor al" a "al_generation al"]
  by (auto simp: alloc_release_def alloc_handle_valid)

lemma plan_releases_valid:
  "plan_releases a prior hs sim = Some sim' \<Longrightarrow>
     (\<forall>h\<in>set hs. host_valid_handle a h \<and> h \<notin> set prior) \<and> distinct hs"
proof (induction hs arbitrary: prior sim)
  case (Cons h hs)
  from Cons.prems have h: "host_valid_handle a h" "h \<notin> set prior"
    and r: "\<exists>s. plan_releases a (prior @ [h]) hs s = Some sim'" by (auto simp: Let_def split: if_splits)
  with Cons.IH show ?case by fastforce
qed simp

lemma valid_handles_descriptors:
  assumes "\<forall>h\<in>set hs. host_valid_handle a h" and "distinct hs"
  shows "distinct (map hh_descriptor hs)"
proof -
  have "x = y" if "host_valid_handle a x" "host_valid_handle a y" "hh_descriptor x = hh_descriptor y" for x y
    using that by (auto simp: host_valid_handle_def Let_def split: if_splits)
  with assms show ?thesis by (simp add: distinct_map inj_on_def)
qed

lemma release_all_plan:
  assumes "arena_ok a" and "plan_releases a0 prior (map alloc_handle als) (hk_extents a) = Some sim'"
    and "hk_id a = hk_id a0" and "length (hk_descriptors a) = length (hk_descriptors a0)"
    and "\<forall>al\<in>set als. hk_descriptors a ! al_descriptor al = hk_descriptors a0 ! al_descriptor al"
    and "distinct (map al_descriptor als)" and "\<forall>al\<in>set als. host_valid_handle a0 (alloc_handle al)"
  shows "\<exists>released a1. release_all als a = Inr (released, a1) \<and> arena_ok a1 \<and> hk_extents a1 = sim' \<and>
    hk_layouts a1 = hk_layouts a \<and> hk_id a1 = hk_id a \<and>
    length (hk_free_descriptors a1) = length (hk_free_descriptors a) + length als \<and>
    released = replicate (length als) null_alloc"
  using assms
proof (induction als arbitrary: a prior)
  case (Cons al als)
  let ?i = "al_descriptor al"
  let ?d = "hk_descriptors a0 ! ?i"
  have v0: "al_owner al = Some (hk_id a0)" "?i < length (hk_descriptors a0)" "dc_active ?d" "dc_generation ?d = al_generation al"
    using Cons.prems(7) by (simp_all add: alloc_handle_valid)
  have d: "hk_descriptors a ! ?i = ?d" using Cons.prems(5) by simp
  have v: "host_valid_handle a (alloc_handle al)" using v0 Cons.prems(3,4) d by (simp add: alloc_handle_valid)
  let ?a = "snd (release_descriptor ?i (al_generation al) a)"
  have rel: "?a = bump_revision (a\<lparr>hk_occupied := u64_sub (hk_occupied a) (dc_bytes ?d),
      hk_descriptors := (hk_descriptors a)[?i := freed ?d], hk_free_descriptors := hk_free_descriptors a @ [?i],
      hk_extents := insert_free_extent \<lparr>r_begin = dc_offset ?d, r_count = dc_bytes ?d\<rparr> (hk_extents a)\<rparr>)"
    using release_descriptor_True [of ?i a "al_generation al"] v0 d Cons.prems(4) by simp
  have ok: "arena_ok ?a" using release_descriptor_ok [OF Cons.prems(1)] by (metis prod.collapse)
  have hd: "hh_descriptor (alloc_handle al) = ?i" using v0 by (simp add: alloc_handle_def)
  from Cons.prems(2) have plan: "plan_releases a0 (prior @ [alloc_handle al]) (map alloc_handle als) (hk_extents ?a) = Some sim'"
    by (simp add: rel hd Let_def split: if_splits)
  have others: "\<forall>x\<in>set als. hk_descriptors ?a ! al_descriptor x = hk_descriptors a0 ! al_descriptor x"
  proof
    fix x assume "x \<in> set als"
    then have "al_descriptor x \<in> al_descriptor ` set als" by (rule imageI)
    with Cons.prems(6) have "al_descriptor x \<noteq> ?i" by auto
    with Cons.prems(5) \<open>x \<in> set als\<close>
    show "hk_descriptors ?a ! al_descriptor x = hk_descriptors a0 ! al_descriptor x" by (simp add: rel)
  qed
  have "hk_id ?a = hk_id a0" "length (hk_descriptors ?a) = length (hk_descriptors a0)"
    using Cons.prems(3,4) by (simp_all add: rel)
  from Cons.IH [OF ok plan this others] Cons.prems(6,7)
  obtain a1 where IH: "release_all als ?a = Inr (replicate (length als) null_alloc, a1)" "arena_ok a1" "hk_extents a1 = sim'"
    "hk_layouts a1 = hk_layouts ?a" "hk_id a1 = hk_id ?a"
    "length (hk_free_descriptors a1) = length (hk_free_descriptors ?a) + length als" by auto
  show ?case using IH alloc_release_valid [OF v] by (simp add: rel)
qed simp

lemma host_allocate_planned:
  assumes "arena_ok a" and "find_layout a l = Some k" and "0 < pages" and "\<not> hl_page_stride l > uint64_max div pages"
    and "find_extent (hl_page_stride l * pages) (hk_extents a) = Some e" and "hk_free_descriptors a \<noteq> []"
  obtains al a' where "host_allocate l pages a = Some (al, a')" "arena_ok a'"
    "hk_extents a' = take_front e (hl_page_stride l * pages) (hk_extents a)" "hk_layouts a' = hk_layouts a"
    "hk_id a' = hk_id a" "Suc (length (hk_free_descriptors a')) = length (hk_free_descriptors a)"
    "host_valid_handle a' (alloc_handle al)" "length (hk_descriptors a') = length (hk_descriptors a)"
    "dc_offset (hk_descriptors a' ! al_descriptor al) = r_begin (hk_extents a ! e)"
    "dc_bytes (hk_descriptors a' ! al_descriptor al) = hl_page_stride l * pages"
    "\<forall>i<length (hk_descriptors a). dc_active (hk_descriptors a ! i) \<longrightarrow> hk_descriptors a' ! i = hk_descriptors a ! i"
proof -
  let ?i = "last (hk_free_descriptors a)"
  have "?i \<in> set (hk_free_descriptors a)" using assms(6) by simp
  then have i: "?i < length (hk_descriptors a)" "\<not> dc_active (hk_descriptors a ! ?i)" "?i \<noteq> uint32_max"
    using assms(1) by (auto simp: arena_ok_def)
  have "host_allocate l pages a \<noteq> None"
    using assms i(3) by (simp add: host_allocate_def Let_def take_descriptor_def)
  then obtain al a' where s: "host_allocate l pages a = Some (al, a')" by auto
  show ?thesis
    using assms(1) s
  proof (rule host_allocate_Some)
    fix k' e' j
    assume h: "find_layout a l = Some k'" "find_extent (hl_page_stride l * pages) (hk_extents a) = Some e'"
      "j = last (hk_free_descriptors a)" "j < length (hk_descriptors a)" "\<not> dc_active (hk_descriptors a ! j)"
      "al = \<lparr>al_owner = Some (hk_id a), al_descriptor = j, al_generation = dc_generation (hk_descriptors a ! j)\<rparr>"
      "a' = bump_revision (a\<lparr>hk_free_descriptors := butlast (hk_free_descriptors a),
            hk_extents := take_front e' (hl_page_stride l * pages) (hk_extents a),
            hk_descriptors := (hk_descriptors a)[j := (hk_descriptors a ! j)\<lparr>dc_offset := r_begin (hk_extents a ! e'),
               dc_bytes := hl_page_stride l * pages, dc_layout := k', dc_pages := pages, dc_active := True\<rparr>],
            hk_occupied := u64_add (hk_occupied a) (hl_page_stride l * pages)\<rparr>)"
    have e: "e' = e" using h(2) assms(5) by simp
    show ?thesis
      using h e assms(6)
      by (intro that [OF s host_allocate_ok [OF assms(1) s]]) (auto simp: alloc_handle_valid nth_list_update)
  qed
qed

text \<open>The allocation a target was planned for, found in the arena.\<close>

definition placed :: "host_arena \<Rightarrow> host_alloc \<Rightarrow> recipe_target \<Rightarrow> bool" where
  "placed a al t \<longleftrightarrow> host_valid_handle a (alloc_handle al) \<and>
     dc_offset (hk_descriptors a ! al_descriptor al) = rt_offset t \<and>
     dc_bytes (hk_descriptors a ! al_descriptor al) = rt_bytes t"

lemma plan_targets_Cons:
  assumes "plan_targets a0 (q # qs) sim = Some ts"
  obtains l k e us where "hr_layout q = Some l" "0 < hr_pages q" "find_layout a0 l = Some k"
    "\<not> hl_page_stride l > uint64_max div hr_pages q" "find_extent (hl_page_stride l * hr_pages q) sim = Some e"
    "plan_targets a0 qs (take_front e (hl_page_stride l * hr_pages q) sim) = Some us"
    "ts = \<lparr>rt_layout = k, rt_pages = hr_pages q, rt_offset = r_begin (sim ! e), rt_bytes = hl_page_stride l * hr_pages q\<rparr> # us"
  using assms by (auto simp: Let_def split: option.splits if_splits)

lemma find_layout_cong: "hk_layouts a = hk_layouts b \<Longrightarrow> find_layout a l = find_layout b l"
  by (simp add: find_layout_def)

lemma allocate_all_plan:
  assumes "arena_ok a" and "plan_targets a0 qs (hk_extents a) = Some ts" and "hk_layouts a = hk_layouts a0"
    and "length qs \<le> length (hk_free_descriptors a)"
  shows "\<exists>als a2. allocate_all ts a = Inr (als, a2) \<and> arena_ok a2 \<and> hk_id a2 = hk_id a \<and>
    length (hk_descriptors a2) = length (hk_descriptors a) \<and> list_all2 (placed a2) als ts \<and>
    (\<forall>i<length (hk_descriptors a). dc_active (hk_descriptors a ! i) \<longrightarrow> hk_descriptors a2 ! i = hk_descriptors a ! i)"
  using assms
proof (induction qs arbitrary: a ts)
  case Nil
  then show ?case by auto
next
  case (Cons q qs)
  from Cons.prems(2) show ?case
  proof (rule plan_targets_Cons)
    fix l :: host_layout and k e us
    let ?n = "hl_page_stride l * hr_pages q"
    assume h: "0 < hr_pages q" "find_layout a0 l = Some k" "\<not> hl_page_stride l > uint64_max div hr_pages q"
      "find_extent ?n (hk_extents a) = Some e" "plan_targets a0 qs (take_front e ?n (hk_extents a)) = Some us"
      "ts = \<lparr>rt_layout = k, rt_pages = hr_pages q, rt_offset = r_begin (hk_extents a ! e), rt_bytes = ?n\<rparr> # us"
    have fl: "find_layout a l = Some k" using h(2) find_layout_cong [OF Cons.prems(3)] by simp
    have lay: "hk_layouts a ! k = l" using find_layout_Some(2) [OF fl] .
    have ne: "hk_free_descriptors a \<noteq> []" using Cons.prems(4) by auto
    from host_allocate_planned [OF Cons.prems(1) fl h(1,3,4) ne] obtain al a' where
      s: "host_allocate l (hr_pages q) a = Some (al, a')" "arena_ok a'" "hk_extents a' = take_front e ?n (hk_extents a)"
      "hk_layouts a' = hk_layouts a" "hk_id a' = hk_id a" "Suc (length (hk_free_descriptors a')) = length (hk_free_descriptors a)"
      "host_valid_handle a' (alloc_handle al)" "length (hk_descriptors a') = length (hk_descriptors a)"
      "dc_offset (hk_descriptors a' ! al_descriptor al) = r_begin (hk_extents a ! e)"
      "dc_bytes (hk_descriptors a' ! al_descriptor al) = ?n"
      "\<forall>i<length (hk_descriptors a). dc_active (hk_descriptors a ! i) \<longrightarrow> hk_descriptors a' ! i = hk_descriptors a ! i"
      by blast
    from Cons.IH [OF s(2), of us] h(5) s(3,4,6) Cons.prems(3,4) obtain als a2 where
      IH: "allocate_all us a' = Inr (als, a2)" "arena_ok a2" "hk_id a2 = hk_id a'"
      "length (hk_descriptors a2) = length (hk_descriptors a')" "list_all2 (placed a2) als us"
      "\<forall>i<length (hk_descriptors a'). dc_active (hk_descriptors a' ! i) \<longrightarrow> hk_descriptors a2 ! i = hk_descriptors a' ! i"
      by auto
    have "al_descriptor al < length (hk_descriptors a')" "dc_active (hk_descriptors a' ! al_descriptor al)"
      using s(7) by (simp_all add: alloc_handle_valid)
    with IH(3,4,6) s(7,9,10) h(6) have "placed a2 al (hd ts)" by (simp add: placed_def alloc_handle_valid)
    then show ?case using IH s h(6) lay by auto
  qed
qed

lemma plan_targets_accepted:
  assumes "plan_targets a qs sim = Some ts" and "length outs = length ts" and "\<forall>x\<in>set outs. al_owner x = None"
  shows "length ts = length qs \<and> list_all2 (\<lambda>al t. al_owner al = None \<and> rt_layout t < length (hk_layouts a) \<and> rt_pages t \<noteq> 0 \<and>
         \<not> hl_page_stride (hk_layouts a ! rt_layout t) > uint64_max div rt_pages t \<and>
         hl_page_stride (hk_layouts a ! rt_layout t) * rt_pages t = rt_bytes t) outs ts"
  using assms
proof (induction qs arbitrary: ts outs sim)
  case (Cons q qs)
  from Cons.prems(1) show ?case
  proof (rule plan_targets_Cons)
    fix l :: host_layout and k e us
    assume h: "0 < hr_pages q" "find_layout a l = Some k" "\<not> hl_page_stride l > uint64_max div hr_pages q"
      "plan_targets a qs (take_front e (hl_page_stride l * hr_pages q) sim) = Some us"
      "ts = \<lparr>rt_layout = k, rt_pages = hr_pages q, rt_offset = r_begin (sim ! e), rt_bytes = hl_page_stride l * hr_pages q\<rparr> # us"
    obtain x xs where o: "outs = x # xs" using Cons.prems(2) h(5) by (cases outs) auto
    have "length us = length qs \<and> list_all2 (\<lambda>al t. al_owner al = None \<and> rt_layout t < length (hk_layouts a) \<and> rt_pages t \<noteq> 0 \<and>
         \<not> hl_page_stride (hk_layouts a ! rt_layout t) > uint64_max div rt_pages t \<and>
         hl_page_stride (hk_layouts a ! rt_layout t) * rt_pages t = rt_bytes t) xs us"
      using Cons.prems(2,3) h(5) o by (intro Cons.IH [OF h(4)]) auto
    then show ?case using find_layout_Some [OF h(2)] h(1,3,5) o Cons.prems(3) by simp
  qed
qed simp


section \<open>Reachable arenas\<close>

inductive arena_reachable :: "host_arena \<Rightarrow> bool" where
  init: "make_arena this buffer capacity ls = Inr a \<Longrightarrow> capacity \<le> uint64_max \<Longrightarrow> arena_reachable a"
| allocate: "arena_reachable a \<Longrightarrow> host_allocate l n a = Some (al, a') \<Longrightarrow> arena_reachable a'"
| release: "arena_reachable a \<Longrightarrow> alloc_release al a = (r, al', a') \<Longrightarrow> arena_reachable a'"
| split: "arena_reachable a \<Longrightarrow> host_split al po a = Inr (x, y, a') \<Longrightarrow> arena_reachable a'"
| recipe: "arena_reachable a \<Longrightarrow> apply_recipe rc rels outs a = Inr (b, rels', outs', a') \<Longrightarrow> arena_reachable a'"

lemma alloc_release_ok:
  assumes "arena_ok a" and "alloc_release al a = (r, al', a')"
  shows "arena_ok a'"
proof (cases "al_owner al = None")
  case True
  then show ?thesis using assms by (simp add: alloc_release_def)
next
  case False
  then have "release_descriptor (al_descriptor al) (al_generation al) a = (r, a')"
    using assms(2) by (simp add: alloc_release_def split: prod.splits)
  with release_descriptor_ok [OF assms(1)] show ?thesis by blast
qed

lemma release_all_ok: "arena_ok a \<Longrightarrow> release_all als a = Inr (rs, a') \<Longrightarrow> arena_ok a'"
proof (induction als arbitrary: a rs)
  case (Cons al als)
  from Cons.prems(2) obtain al' a1 rest where "alloc_release al a = (True, al', a1)" "release_all als a1 = Inr (rest, a')"
    by (auto simp: rbind_Inr_iff split: prod.splits if_splits)
  with Cons.IH alloc_release_ok [OF Cons.prems(1)] show ?case by blast
qed simp

lemma allocate_all_ok: "arena_ok a \<Longrightarrow> allocate_all ts a = Inr (als, a') \<Longrightarrow> arena_ok a'"
proof (induction ts arbitrary: a als)
  case (Cons t ts)
  from Cons.prems(2) obtain al a1 rest where "host_allocate (hk_layouts a ! rt_layout t) (rt_pages t) a = Some (al, a1)"
    "allocate_all ts a1 = Inr (rest, a')"
    by (auto simp: rbind_Inr_iff Let_def split: option.splits if_splits)
  with Cons.IH host_allocate_ok [OF Cons.prems(1)] show ?case by blast
qed simp

lemma host_split_guards:
  assumes "host_split al po a = Inr r"
  shows "host_valid_handle a (alloc_handle al)" "0 < po" "po < dc_pages (hk_descriptors a ! al_descriptor al)"
  using assms by (auto simp: host_split_def Let_def split: if_splits)

lemma arena_reachable_ok: "arena_reachable a \<Longrightarrow> arena_ok a"
proof (induction rule: arena_reachable.induct)
  case (split a al po x y a')
  note g = host_split_guards [OF split.hyps(2)]
  show ?case using host_split_Inr(1,2) [OF split.IH g] split.hyps(2) by simp
next
  case (recipe a rc rels outs b rels' outs' a')
  show ?case
  proof (cases "recipe_accepts rc rels outs a")
    case True
    with recipe.hyps(2) obtain rs a1 as where "release_all (map the rels) a = Inr (rs, a1)"
      "allocate_all (rc_targets rc) a1 = Inr (as, a')"
      by (auto simp: apply_recipe_def rbind_Inr_iff)
    with recipe.IH release_all_ok allocate_all_ok show ?thesis by blast
  qed (use recipe in \<open>simp add: apply_recipe_def\<close>)
qed (auto intro: make_arena_ok host_allocate_ok alloc_release_ok)

section \<open>The free extents as a free space\<close>

definition carve_front :: "nat \<Rightarrow> nat \<Rightarrow> run list \<Rightarrow> run list" where
  "carve_front b n rs = (case find_extent n rs of None \<Rightarrow> rs | Some k \<Rightarrow> take_front k n rs)"

definition first_fit :: "run list \<Rightarrow> nat \<Rightarrow> nat \<Rightarrow> bool" where
  "first_fit rs b n \<longleftrightarrow> (\<exists>k. find_extent n rs = Some k \<and> r_begin (rs ! k) = b)"

interpretation extents: free_space "runs_ok cap" cover "\<lambda>b n. insert_free_extent \<lparr>r_begin = b, r_count = n\<rparr>"
  carve_front first_fit cap for cap
proof
  fix rs :: "run list" and n b :: nat
  assume rs: "runs_ok cap rs" and n: "0 < n"
  show "runs_ok cap (insert_free_extent \<lparr>r_begin = b, r_count = n\<rparr> rs) \<and>
      cover (insert_free_extent \<lparr>r_begin = b, r_count = n\<rparr> rs) = cover rs \<union> {b ..< b + n}"
    if "b + n \<le> cap" "{b ..< b + n} \<inter> cover rs = {}"
    using insert_free_extent_ok [OF rs n that] by blast
  assume "first_fit rs b n"
  then obtain k where k: "find_extent n rs = Some k" "r_begin (rs ! k) = b" by (auto simp: first_fit_def)
  note t = take_front_ok [OF rs find_extent_Some(1) [OF k(1)] n find_extent_Some(2) [OF k(1)]]
  show "{b ..< b + n} \<subseteq> cover rs" using t(3) k by simp
  show "runs_ok cap (carve_front b n rs) \<and> cover (carve_front b n rs) = cover rs - {b ..< b + n}"
    using t(1,2) k by (simp add: carve_front_def)
next
  show "rs = qs" if "runs_ok cap rs" "runs_ok cap qs" "cover rs = cover qs" for rs qs
    using that by (rule page_runs.canonical)
  show "cover rs \<subseteq> {..<cap}" if "runs_ok cap rs" for rs using that by (rule runs_ok_cover)
qed

section \<open>Properties\<close>

text \<open>A concrete arena for the witnesses: four pages of one layout, one allocation of two pages.\<close>

definition demo_geometry :: page_geometry where
  "demo_geometry = \<lparr>gm_page_tokens = 64, gm_plane_order = PageMajor,
     gm_planes = [\<lparr>pg_dtype = U8, pg_leading_extent = 1, pg_head_extent = 1, pg_alignment = 256\<rparr>]\<rparr>"

definition demo_host_layout :: host_layout where
  "demo_host_layout = \<lparr>hl_geometry = demo_geometry,
     hl_planes = [\<lparr>hp_offset = 0, hp_page_payload_bytes = 64, hp_head_payload_bytes = 64\<rparr>], hl_page_stride = 256\<rparr>"

definition demo_arena :: host_arena where
  "demo_arena = \<lparr>hk_id = 3, hk_backing = Some 65536, hk_capacity = 1024, hk_occupied = 0, hk_layouts = [demo_host_layout],
     hk_descriptors = [default_descriptor, default_descriptor, default_descriptor, default_descriptor],
     hk_free_descriptors = [3, 2, 1, 0], hk_extents = [\<lparr>r_begin = 0, r_count = 1024\<rparr>], hk_revision = 1\<rparr>"

definition demo_alloc :: host_alloc where
  "demo_alloc = \<lparr>al_owner = Some 3, al_descriptor = 0, al_generation = 1\<rparr>"

definition demo_allocated :: host_arena where
  "demo_allocated = demo_arena\<lparr>hk_free_descriptors := [3, 2, 1], hk_extents := [\<lparr>r_begin = 512, r_count = 512\<rparr>],
     hk_descriptors := [\<lparr>dc_offset = 0, dc_bytes = 512, dc_layout = 0, dc_pages = 2, dc_generation = 1, dc_active = True\<rparr>,
       default_descriptor, default_descriptor, default_descriptor], hk_occupied := 512, hk_revision := 2\<rparr>"

lemma demo_planned: "plan_host_kv_page_layout demo_geometry = Inr demo_host_layout"
  by (simp add: plan_host_kv_page_layout_def demo_geometry_def demo_host_layout_def host_align_up_def kHostKVAlignment_def
      host_checked_mul_def host_checked_add_def Let_def)

lemma demo_arena_made: "make_arena 3 65536 1024 [demo_host_layout] = Inr demo_arena"
proof -
  have "replicate 4 default_descriptor = [default_descriptor, default_descriptor, default_descriptor, default_descriptor]"
    "rev [0 ..< 4] = [3, 2, 1, 0 :: nat]" by (simp_all add: upt_rec)
  moreover have "hl_geometry demo_host_layout = demo_geometry" "hl_page_stride demo_host_layout = 256"
    by (simp_all add: demo_host_layout_def)
  ultimately show ?thesis
    by (simp add: make_arena_def demo_planned smallest_stride_def Let_def demo_arena_def)
qed

lemma demo_arena_reachable: "arena_reachable demo_arena"
  by (rule arena_reachable.init [OF demo_arena_made]) simp

lemma demo_allocate: "host_allocate demo_host_layout 2 demo_arena = Some (demo_alloc, demo_allocated)"
  by (simp add: host_allocate_def find_layout_def find_extent_def take_descriptor_def take_front_def bump_revision_def
      demo_arena_def demo_alloc_def demo_allocated_def default_descriptor_def u64_add_def Let_def)
     (simp add: demo_host_layout_def)

lemma demo_allocated_reachable: "arena_reachable demo_allocated"
  by (rule arena_reachable.allocate [OF demo_arena_reachable demo_allocate])

lemma demo_alloc_valid: "host_valid_handle demo_allocated (alloc_handle demo_alloc)"
  by (simp add: alloc_handle_valid demo_alloc_def demo_allocated_def demo_arena_def)

text \<open>
  C8. Host allocations never overlap: in every reachable arena two valid handles that name different
  descriptors own disjoint byte ranges inside the capacity and outside the free extents, and
  the occupied counter is the number of bytes that are not free.
\<close>

theorem host_allocations_disjoint:
  assumes "arena_reachable a" and "host_valid_handle a h" and "host_valid_handle a k"
  shows "(hh_descriptor h \<noteq> hh_descriptor k \<longrightarrow>
      owned (hk_descriptors a) (hh_descriptor h) \<inter> owned (hk_descriptors a) (hh_descriptor k) = {}) \<and>
    owned (hk_descriptors a) (hh_descriptor h) \<subseteq> {..<hk_capacity a} - cover (hk_extents a) \<and>
    hk_occupied a + card (cover (hk_extents a)) = hk_capacity a"
proof -
  have "arena_ok a" by (rule arena_reachable_ok [OF assms(1)])
  then have "partitioned (hk_capacity a) (hk_descriptors a) (cover (hk_extents a))"
    "hk_occupied a + card (cover (hk_extents a)) = hk_capacity a" by (simp_all add: arena_ok_def)
  then show ?thesis unfolding partitioned_def by blast
qed

theorem host_allocations_disjoint_witness:
  "owned (hk_descriptors demo_allocated) 0 \<subseteq> {..<1024} - cover (hk_extents demo_allocated) \<and>
   hk_occupied demo_allocated + card (cover (hk_extents demo_allocated)) = 1024"
proof -
  have "hh_descriptor (alloc_handle demo_alloc) = 0" "hk_capacity demo_allocated = 1024"
    by (simp_all add: alloc_handle_def demo_alloc_def demo_allocated_def demo_arena_def)
  with host_allocations_disjoint [OF demo_allocated_reachable demo_alloc_valid demo_alloc_valid] show ?thesis by simp
qed

text \<open>
  C7. Recipes are exact. A recipe that was planned in a reachable arena, applied in the same state
  with the allocations it names and empty outputs, succeeds: none of the \<open>terminate\<close> calls of
  \<open>apply_recipe\<close> is reachable, the releases are disarmed, and every output is a valid
  allocation at exactly the offset and size the plan computed on the copy of the free list.
\<close>

theorem recipe_exact:
  assumes "arena_reachable a" and "plan_after_releases a (map alloc_handle als) requests = Some rc"
    and "length outs = length requests" and "\<forall>x\<in>set outs. al_owner x = None"
  shows "\<exists>outs' a'. apply_recipe rc (map Some als) outs a =
      Inr (True, replicate (length als) (Some null_alloc), outs', a') \<and>
    list_all2 (placed a') outs' (rc_targets rc) \<and> arena_ok a'"
proof -
  let ?hs = "map alloc_handle als"
  have ok: "arena_ok a" by (rule arena_reachable_ok [OF assms(1)])
  from assms(2) obtain sim ts where p: "plan_releases a [] ?hs (hk_extents a) = Some sim"
    and t: "plan_targets a requests sim = Some ts"
    and le: "length requests \<le> length (hk_free_descriptors a) + length als"
    and rc: "rc = \<lparr>rc_owner = Some (hk_id a), rc_revision = hk_revision a, rc_releases = ?hs, rc_targets = ts\<rparr>"
    by (auto simp: plan_after_releases_def split: if_splits option.splits)
  note pv = plan_releases_valid [OF p]
  have v: "\<forall>al\<in>set als. host_valid_handle a (alloc_handle al)" using pv by auto
  have "hh_descriptor (alloc_handle al) = al_descriptor al" if "al \<in> set als" for al
  proof -
    have "al_owner al \<noteq> None" using v that alloc_handle_valid by auto
    then show ?thesis by (simp add: alloc_handle_def)
  qed
  then have eq: "map hh_descriptor ?hs = map al_descriptor als" by simp
  have "distinct (map hh_descriptor ?hs)" using valid_handles_descriptors [of ?hs a] pv by blast
  then have d: "distinct (map al_descriptor als)" unfolding eq .
  from release_all_plan [OF ok p refl refl _ d v] obtain a1 where r: "release_all als a = Inr (replicate (length als) null_alloc, a1)"
    "arena_ok a1" "hk_extents a1 = sim" "hk_layouts a1 = hk_layouts a"
    "length (hk_free_descriptors a1) = length (hk_free_descriptors a) + length als" by auto
  from allocate_all_plan [OF r(2), of a requests ts] t le r(3-5) obtain outs' a2 where
    q: "allocate_all ts a1 = Inr (outs', a2)" "arena_ok a2" "list_all2 (placed a2) outs' ts" by auto
  have "length ts = length requests" using plan_targets_accepted [OF t, of "replicate (length ts) null_alloc"]
    by (simp add: null_alloc_def)
  then have len: "length outs = length ts" using assms(3) by simp
  have "list_all2 (\<lambda>al h. (case al of None \<Rightarrow> False | Some x \<Rightarrow> alloc_handle x = h) \<and> host_valid_handle a h)
      (map Some als) ?hs" using v by (simp add: list_all2_conv_all_nth)
  then have "recipe_accepts rc (map Some als) outs a"
    using plan_targets_accepted [OF t len assms(4)] len by (simp add: recipe_accepts_def rc)
  then show ?thesis using r(1) q rc by (simp add: apply_recipe_def comp_def)
qed


theorem recipe_exact_witness:
  "\<exists>rc outs' a'. plan_after_releases demo_allocated [alloc_handle demo_alloc]
       [\<lparr>hr_layout = Some demo_host_layout, hr_pages = 4\<rparr>] = Some rc \<and>
     apply_recipe rc [Some demo_alloc] [null_alloc] demo_allocated = Inr (True, [Some null_alloc], outs', a') \<and>
     list_all2 (placed a') outs' (rc_targets rc)"
proof -
  let ?q = "[\<lparr>hr_layout = Some demo_host_layout, hr_pages = 4\<rparr>]"
  have s: "hl_page_stride demo_host_layout = 256" by (simp add: demo_host_layout_def)
  have h: "hh_descriptor (alloc_handle demo_alloc) = 0" by (simp add: alloc_handle_def demo_alloc_def)
  have "plan_releases demo_allocated [] [alloc_handle demo_alloc] (hk_extents demo_allocated) = Some [\<lparr>r_begin = 0, r_count = 1024\<rparr>]"
    using demo_alloc_valid h
    by (simp add: demo_allocated_def demo_arena_def insert_free_extent_def before_def from_on_def Let_def)
  moreover have "plan_targets demo_allocated ?q [\<lparr>r_begin = 0, r_count = 1024\<rparr>] \<noteq> None"
    by (simp add: find_layout_def find_extent_def take_front_def demo_allocated_def demo_arena_def s Let_def)
  ultimately obtain rc where rc: "plan_after_releases demo_allocated (map alloc_handle [demo_alloc]) ?q = Some rc"
    by (auto simp: plan_after_releases_def demo_allocated_def)
  from recipe_exact [OF demo_allocated_reachable rc, of "[null_alloc]"] rc show ?thesis by (auto simp: null_alloc_def)
qed

text \<open>
  \<open>split\<close> in a reachable arena fails only on a stale allocation or an offset that leaves an empty
  half; the \<open>logic_error\<close> for missing descriptors is unreachable, because the arena has a
  descriptor for every page of the smallest stride. A successful split yields two valid
  allocations that divide the bytes and the pages of the original, whose handle is stale.
\<close>

theorem split_exact:
  assumes "arena_reachable a"
  shows "case host_split al po a of
      Inl e \<Rightarrow> e = InvalidArgument \<or> e = OutOfRange
    | Inr (l, r, a') \<Rightarrow>
        host_valid_handle a' (alloc_handle l) \<and> host_valid_handle a' (alloc_handle r) \<and>
        \<not> host_valid_handle a' (alloc_handle al) \<and>
        owned (hk_descriptors a') (al_descriptor l) \<union> owned (hk_descriptors a') (al_descriptor r) =
          owned (hk_descriptors a) (al_descriptor al) \<and>
        owned (hk_descriptors a') (al_descriptor l) \<inter> owned (hk_descriptors a') (al_descriptor r) = {} \<and>
        page_count l a' = po \<and> page_count l a' + page_count r a' = page_count al a"
proof (cases "host_valid_handle a (alloc_handle al) \<and> 0 < po \<and> po < dc_pages (hk_descriptors a ! al_descriptor al)")
  case False
  then show ?thesis by (auto simp: host_split_def Let_def)
next
  case True
  have ok: "arena_ok a" by (rule arena_reachable_ok [OF assms])
  from True have v: "host_valid_handle a (alloc_handle al)" and po: "0 < po" "po < dc_pages (hk_descriptors a ! al_descriptor al)"
    by blast+
  note s = host_split_Inr [OF ok v po]
  let ?i = "al_descriptor al" and ?j = "last (hk_free_descriptors a)"
  have d: "dc_active (hk_descriptors a ! ?i)" "al_owner al = Some (hk_id a)"
    "dc_generation (hk_descriptors a ! ?i) = al_generation al" using v by (simp_all add: alloc_handle_valid)
  have "al_generation al \<noteq> 0" using d(3) s(4) descriptors.gen_nonzero [OF ok s(4)] by simp
  then have g: "increment_generation (al_generation al) \<noteq> al_generation al" by (rule increment_generation_changes)
  show ?thesis
    unfolding s(1) sum.case prod.case
    using s(3-7) d g po
    by (intro conjI; simp add: alloc_handle_valid owned_def page_count_def d_span_def nth_list_update)
qed

theorem split_exact_witness:
  "case host_split demo_alloc 1 demo_allocated of Inl e \<Rightarrow> False
   | Inr (l, r, a') \<Rightarrow> page_count l a' = 1 \<and> page_count r a' = 1"
proof -
  have p: "page_count demo_alloc demo_allocated = 2" "dc_pages (hk_descriptors demo_allocated ! al_descriptor demo_alloc) = 2"
    by (simp_all add: page_count_def demo_alloc_def demo_allocated_def demo_arena_def)
  have "host_split demo_alloc 1 demo_allocated \<noteq> Inl e" for e
    using host_split_Inr(1) [OF arena_reachable_ok [OF demo_allocated_reachable] demo_alloc_valid, of 1] p by simp
  with split_exact [OF demo_allocated_reachable, of demo_alloc 1] p show ?thesis
    by (auto split: sum.splits)
qed

text \<open>
  Releasing what was just allocated restores the arena: the free extents, the occupied bytes and the
  stack of free descriptors are exactly what they were, and the handle is stale.
\<close>

theorem host_allocate_release:
  assumes "arena_reachable a" and "host_allocate l n a = Some (al, a1)"
  shows "\<exists>a2. alloc_release al a1 = (True, null_alloc, a2) \<and> hk_extents a2 = hk_extents a \<and>
    hk_occupied a2 = hk_occupied a \<and> hk_free_descriptors a2 = hk_free_descriptors a \<and>
    \<not> host_valid_handle a2 (alloc_handle al)"
proof -
  have ok: "arena_ok a" by (rule arena_reachable_ok [OF assms(1)])
  have ok1: "arena_ok a1" by (rule host_allocate_ok [OF ok assms(2)])
  show ?thesis using ok assms(2)
  proof (rule host_allocate_Some)
    fix k e i
    let ?n = "hl_page_stride l * n"
    let ?d = "(hk_descriptors a ! i)\<lparr>dc_offset := r_begin (hk_extents a ! e),
               dc_bytes := hl_page_stride l * n, dc_layout := k, dc_pages := n, dc_active := True\<rparr>"
    assume f: "find_extent ?n (hk_extents a) = Some e" and i: "i = last (hk_free_descriptors a)" "hk_free_descriptors a \<noteq> []"
      "i < length (hk_descriptors a)"
      and al: "al = \<lparr>al_owner = Some (hk_id a), al_descriptor = i, al_generation = dc_generation (hk_descriptors a ! i)\<rparr>"
      and a1: "a1 = bump_revision (a\<lparr>hk_free_descriptors := butlast (hk_free_descriptors a),
            hk_extents := take_front e ?n (hk_extents a), hk_descriptors := (hk_descriptors a)[i := ?d],
            hk_occupied := u64_add (hk_occupied a) ?n\<rparr>)"
    have v: "host_valid_handle a1 (alloc_handle al)" using i by (simp add: alloc_handle_valid al a1)
    define a2 where "a2 = snd (release_descriptor i (al_generation al) a1)"
    have rel: "alloc_release al a1 = (True, null_alloc, a2)"
      using alloc_release_valid [OF v] by (simp add: a2_def al)
    have ok2: "arena_ok a2" by (rule alloc_release_ok [OF ok1 rel])
    have e2: "hk_extents a2 = insert_free_extent \<lparr>r_begin = r_begin (hk_extents a ! e), r_count = ?n\<rparr> (take_front e ?n (hk_extents a))"
      "hk_free_descriptors a2 = hk_free_descriptors a" "hk_capacity a2 = hk_capacity a"
      using i release_descriptor_True [of i a1 "al_generation al"] by (simp_all add: a2_def al a1)
    have R: "runs_ok (hk_capacity a) (hk_extents a)" using ok by (simp add: arena_ok_def)
    have "0 < ?n" using active_span(1) [OF ok1, of i] i by (simp add: a1)
    from extents.give_carve [OF R this, of "r_begin (hk_extents a ! e)"] f
    have x: "hk_extents a2 = hk_extents a" by (simp add: e2 carve_front_def first_fit_def)
    then have "hk_occupied a2 = hk_occupied a" using ok ok2 e2(3) by (auto simp: arena_ok_def)
    moreover have "\<not> host_valid_handle a2 (alloc_handle al)"
    proof -
      have h: "descriptors.holds a1 (i, al_generation al)" using v by (simp add: descriptors.holds_def alloc_handle_valid al)
      have "dc_generation (hk_descriptors a1 ! i) = al_generation al" using v by (simp add: alloc_handle_valid al)
      with descriptors.free_stale [OF ok1 h] show ?thesis
        by (simp add: alloc_handle_valid al descriptors.holds_def a2_def)
    qed
    ultimately show ?thesis using rel x e2(2) by blast
  qed
qed

theorem host_allocate_release_witness:
  "\<exists>a2. alloc_release demo_alloc demo_allocated = (True, null_alloc, a2) \<and> hk_extents a2 = [\<lparr>r_begin = 0, r_count = 1024\<rparr>]"
  using host_allocate_release [OF demo_arena_reachable demo_allocate] by (auto simp: demo_arena_def)

text \<open>
  \<open>can_allocate\<close> is exact, and descriptors are never the limit: in a reachable arena
  it holds if and only if \<open>allocate\<close> succeeds, which is the case if and only if the layout is
  supported, the request is not empty and some free extent is long enough.
\<close>

theorem can_allocate_exact:
  assumes "arena_reachable a"
  shows "(can_allocate a l n \<longleftrightarrow> host_allocate l n a \<noteq> None) \<and>
    (can_allocate a l n \<longleftrightarrow> l \<in> set (hk_layouts a) \<and> 0 < n \<and>
       (\<exists>r\<in>set (hk_extents a). hl_page_stride l * n \<le> r_count r))"
proof -
  have ok: "arena_ok a" by (rule arena_reachable_ok [OF assms])
  have fl: "find_layout a l = None \<longleftrightarrow> l \<notin> set (hk_layouts a)"
  proof -
    let ?t = "takeWhile (\<lambda>x. x \<noteq> l) (hk_layouts a)"
    have "length ?t = length (hk_layouts a) \<longleftrightarrow> ?t = hk_layouts a"
      by (metis length_takeWhile_le takeWhile_eq_take take_all_iff)
    then show ?thesis by (auto simp: find_layout_def Let_def takeWhile_eq_all_conv)
  qed
  have fe: "find_extent (hl_page_stride l * n) (hk_extents a) \<noteq> None \<longleftrightarrow>
      (\<exists>r\<in>set (hk_extents a). hl_page_stride l * n \<le> r_count r)"
    using find_extent_None [of "hl_page_stride l * n" "hk_extents a"] by (meson leD leI)
  have can: "can_allocate a l n \<longleftrightarrow> l \<in> set (hk_layouts a) \<and> 0 < n \<and>
       (\<exists>r\<in>set (hk_extents a). hl_page_stride l * n \<le> r_count r)"
  proof
    assume "can_allocate a l n"
    then show "l \<in> set (hk_layouts a) \<and> 0 < n \<and> (\<exists>r\<in>set (hk_extents a). hl_page_stride l * n \<le> r_count r)"
      using fl fe by (auto simp: can_allocate_def split: if_splits)
  next
    assume h: "l \<in> set (hk_layouts a) \<and> 0 < n \<and> (\<exists>r\<in>set (hk_extents a). hl_page_stride l * n \<le> r_count r)"
    then obtain k where k: "find_extent (hl_page_stride l * n) (hk_extents a) = Some k" using fe by auto
    have R: "runs_ok (hk_capacity a) (hk_extents a)" using ok by (simp add: arena_ok_def)
    note fk = find_extent_Some [OF k] and rc = runs_count_le_card [OF R find_extent_Some(1) [OF k]]
    have "card (cover (hk_extents a)) \<le> uint64_max" using ok by (simp add: arena_ok_def)
    then have "hl_page_stride l * n \<le> uint64_max" using fk rc by linarith
    then have ov: "\<not> hl_page_stride l > uint64_max div n" using h mul_guard_exact [of n uint64_max "hl_page_stride l"] by auto
    have "hk_free_descriptors a \<noteq> []"
    proof
      assume "hk_free_descriptors a = []"
      then have act: "\<forall>i<length (hk_descriptors a). dc_active (hk_descriptors a ! i)" using ok by (auto simp: arena_ok_def)
      obtain m where m: "stride_bound a m" using ok by (auto simp: arena_ok_def)
      then have "m \<le> hl_page_stride l" using h by (simp add: stride_bound_def)
      also have "\<dots> \<le> hl_page_stride l * n" using h by simp
      finally have "m \<le> card (cover (hk_extents a))" using fk rc by linarith
      from descriptors_suffice [OF ok m act this, of 0] pages_at_least_one [OF ok act] show False by simp
    qed
    then show "can_allocate a l n" using h fl k ov by (simp add: can_allocate_def)
  qed
  moreover have "can_allocate a l n \<longleftrightarrow> host_allocate l n a \<noteq> None"
  proof
    assume c: "can_allocate a l n"
    then obtain k e where "find_layout a l = Some k" "0 < n" "hk_free_descriptors a \<noteq> []"
      "\<not> hl_page_stride l > uint64_max div n" "find_extent (hl_page_stride l * n) (hk_extents a) = Some e"
      by (auto simp: can_allocate_def split: if_splits)
    from host_allocate_planned [OF ok this(1,2,4,5,3)] show "host_allocate l n a \<noteq> None" by fastforce
  next
    assume "host_allocate l n a \<noteq> None"
    then show "can_allocate a l n"
      by (auto simp: can_allocate_def host_allocate_def Let_def split: option.splits if_splits)
  qed
  ultimately show ?thesis by blast
qed

theorem can_allocate_exact_witness:
  "can_allocate demo_allocated demo_host_layout 2 \<and> \<not> can_allocate demo_allocated demo_host_layout 3"
proof -
  have d: "hk_layouts demo_allocated = [demo_host_layout]" "hk_extents demo_allocated = [\<lparr>r_begin = 512, r_count = 512\<rparr>]"
    "hl_page_stride demo_host_layout = 256" by (simp_all add: demo_allocated_def demo_arena_def demo_host_layout_def)
  from conjunct2 [OF can_allocate_exact [OF demo_allocated_reachable]] show ?thesis by (simp add: d)
qed

text \<open>
  A planned host page record is packed soundly: every plane starts at a multiple of 256, planes
  follow one another without overlap, and the stride is a multiple of 256 that contains them all.
\<close>

theorem host_page_layout_packed:
  assumes "plan_host_kv_page_layout g = Inr l"
  shows "planes_packed 0 (hl_planes l) (hl_page_stride l) \<and> 256 dvd hl_page_stride l \<and>
    hl_page_stride l \<le> uint64_max \<and> length (hl_planes l) = length (gm_planes g) \<and>
    (\<forall>p\<in>set (hl_planes l). hp_offset p + hp_page_payload_bytes p \<le> hl_page_stride l)"
proof -
  from assms obtain planes c where g: "0 < gm_page_tokens g"
    and p: "plan_host_planes (gm_page_tokens g) (gm_planes g) 0 = Inr (planes, c)"
    and s: "host_align_up c kHostKVAlignment = Inr (hl_page_stride l)" and l: "hl_planes l = planes"
    by (auto simp: plan_host_kv_page_layout_def rbind_Inr_iff split: if_splits)
  note h = host_align_up_256 [OF s]
  from plan_host_planes_packed [OF p _ g] have pk: "planes_packed 0 planes c" "length planes = length (gm_planes g)" by auto
  have pk': "planes_packed 0 planes (hl_page_stride l)" by (rule planes_packed_mono [OF pk(1) h(1)])
  have "\<forall>q\<in>set ps. hp_offset q + hp_page_payload_bytes q \<le> hi" if "planes_packed lo ps hi" for lo hi ps
    using that by (induction ps arbitrary: lo) (auto dest: planes_packed_bound)
  with pk' pk(2) h l show ?thesis by blast
qed

theorem host_page_layout_packed_witness:
  "planes_packed 0 (hl_planes demo_host_layout) 256 \<and> length (hl_planes demo_host_layout) = 1"
  using host_page_layout_packed [OF demo_planned] by (simp add: demo_host_layout_def)


text \<open>The release of a whole allocation.\<close>

definition whole :: "host_arena \<Rightarrow> host_handle \<Rightarrow> sub_release" where
  "whole a h = \<lparr>sr_allocation = h, sr_begin_page = 0, sr_page_count = dc_pages (hk_descriptors a ! hh_descriptor h)\<rparr>"

lemma valid_handle_descriptor:
  assumes "arena_ok a" and "host_valid_handle a h"
  defines "d \<equiv> hk_descriptors a ! hh_descriptor h"
  shows "0 < dc_pages d" "dc_pages d \<le> uint32_max \<Longrightarrow> u32_add 0 (dc_pages d) = dc_pages d"
    "dc_bytes d = dc_pages d * hl_page_stride (hk_layouts a ! dc_layout d)" "dc_bytes d \<le> uint64_max"
    "dc_offset d \<le> uint64_max"
proof -
  have h: "hh_descriptor h < length (hk_descriptors a)" "dc_active d"
    using assms(2) by (auto simp: host_valid_handle_def Let_def d_def split: if_splits)
  note s = active_span [OF assms(1) h(1)] 
  have D: "descriptor_ok (hk_layouts a) d" "dc_offset d + dc_bytes d \<le> hk_capacity a" using s h(2) by (simp_all add: d_def)
  then show "0 < dc_pages d" "dc_bytes d = dc_pages d * hl_page_stride (hk_layouts a ! dc_layout d)"
    using h(2) by (auto simp: descriptor_ok_def mult.commute)
  have "hk_capacity a \<le> uint64_max" using assms(1) by (simp add: arena_ok_def)
  with D(2) show "dc_bytes d \<le> uint64_max" "dc_offset d \<le> uint64_max" by linarith+
  show "dc_pages d \<le> uint32_max \<Longrightarrow> u32_add 0 (dc_pages d) = dc_pages d" by (simp add: u32_add_def)
qed

lemma sub_releases_whole:
  assumes "arena_ok a" and "\<forall>h\<in>set (ps @ hs). host_valid_handle a h \<longrightarrow> sr_page_count (whole a h) \<le> uint32_max"
    and "\<forall>h\<in>set ps. host_valid_handle a h"
  shows "sub_releases a (map (whole a) ps) (map (whole a) hs) sim = Inr (plan_releases a ps hs sim)"
  using assms(2,3)
proof (induction hs arbitrary: ps sim)
  case (Cons h hs)
  show ?case
  proof (cases "host_valid_handle a h")
    case False
    then show ?thesis by (simp add: whole_def)
  next
    case True
    let ?d = "hk_descriptors a ! hh_descriptor h"
    note v = valid_handle_descriptor [OF assms(1) True]
    have small: "u32_add 0 (dc_pages ?d) = dc_pages ?d" using v(2) Cons.prems(1) True by (simp add: whole_def)
    have ov: "(\<exists>q\<in>set (map (whole a) ps). sr_allocation q = h \<and> 0 < u32_add (sr_begin_page q) (sr_page_count q) \<and>
        sr_begin_page q < dc_pages ?d) \<longleftrightarrow> h \<in> set ps"
      using v(1) small by (auto simp: whole_def)
    have mul: "host_checked_mul (dc_pages ?d) (hl_page_stride (hk_layouts a ! dc_layout ?d)) = Inr (dc_bytes ?d)"
      "host_checked_mul 0 (hl_page_stride (hk_layouts a ! dc_layout ?d)) = Inr 0"
      "host_checked_add (dc_offset ?d) 0 = Inr (dc_offset ?d)"
      using v(3-5) by (simp_all add: host_checked_mul_Inr host_checked_add_Inr)
    have w: "sr_allocation (whole a h) = h" "sr_begin_page (whole a h) = 0" "sr_page_count (whole a h) = dc_pages ?d"
      by (simp_all add: whole_def)
    have step: "sub_releases a (map (whole a) ps) (map (whole a) (h # hs)) sim =
        (if h \<in> set ps then Inr None
         else sub_releases a (map (whole a) (ps @ [h])) (map (whole a) hs)
           (insert_free_extent \<lparr>r_begin = dc_offset ?d, r_count = dc_bytes ?d\<rparr> sim))"
      using True v(1) ov by (simp add: w small mul Let_def)
    show ?thesis using Cons.IH [of "ps @ [h]"] Cons.prems True by (simp only: step) (simp add: Let_def)
  qed
qed simp

lemma sub_descriptors_whole:
  assumes "arena_ok a" and "distinct (ps @ hs)" and "\<forall>h\<in>set (ps @ hs). host_valid_handle a h"
    and "\<forall>h\<in>set (ps @ hs). sr_page_count (whole a h) \<le> uint32_max"
  shows "sub_descriptors a (map (whole a) (ps @ hs)) (map (whole a) ps) (map (whole a) hs) (av, rq) = (av + length hs, rq)"
  using assms(2-4)
proof (induction hs arbitrary: ps av)
  case (Cons h hs)
  let ?p = "sr_page_count (whole a h)"
  have v: "0 < ?p" using valid_handle_descriptor(1) [OF assms(1)] Cons.prems(2) by (simp add: whole_def)
  have small: "u32_add 0 ?p = ?p" using Cons.prems(3) by (simp add: u32_add_small)
  have w: "sr_allocation (whole a x) = x" "sr_begin_page (whole a x) = 0" for x by (simp_all add: whole_def)
  have "filter (\<lambda>x. x = h) ps = []" "filter (\<lambda>x. x = h) hs = []"
    using Cons.prems(1) by (auto simp: filter_empty_conv)
  then have "filter (\<lambda>q. sr_allocation q = h) (map (whole a) (ps @ h # hs)) = [whole a h]"
    by (simp add: filter_map comp_def w)
  then have iv: "sort (map (\<lambda>q. (sr_begin_page q, u32_add (sr_begin_page q) (sr_page_count q)))
      (filter (\<lambda>q. sr_allocation q = h) (map (whole a) (ps @ h # hs)))) = [(0, ?p)]"
    by (simp add: w small)
  have "retained_runs (dc_pages (hk_descriptors a ! hh_descriptor h)) [(0, ?p)] = 0"
    by (simp add: retained_runs_def whole_def)
  moreover have "\<not> (\<exists>q\<in>set (map (whole a) ps). sr_allocation q = h)" using Cons.prems(1) by (auto simp: w)
  ultimately have "sub_descriptors a (map (whole a) (ps @ h # hs)) (map (whole a) ps) (map (whole a) (h # hs)) (av, rq) =
      sub_descriptors a (map (whole a) ((ps @ [h]) @ hs)) (map (whole a) (ps @ [h])) (map (whole a) hs) (Suc av, rq)"
    unfolding list.map sub_descriptors.simps w iv by (simp add: Let_def)
  also have "\<dots> = (Suc av + length hs, rq)" using Cons.prems by (intro Cons.IH) auto
  finally show ?case by simp
qed simp

text \<open>
  The feasibility test over partial releases agrees with the planner on whole allocations: for
  handles of a reachable arena (with page counts that fit \<open>uint32_t\<close>), it throws no
  overflow and answers yes exactly when \<open>plan_after_releases\<close> finds a recipe.
\<close>

theorem suballocation_test_agrees:
  assumes "arena_reachable a" and "\<forall>h\<in>set hs. host_valid_handle a h \<longrightarrow> sr_page_count (whole a h) \<le> uint32_max"
    and "hs \<noteq> [] \<or> requests \<noteq> []"
  shows "can_allocate_after_suballocation_releases a (map (whole a) hs) requests =
    Inr (plan_after_releases a hs requests \<noteq> None)"
proof -
  have ok: "arena_ok a" by (rule arena_reachable_ok [OF assms(1)])
  have r: "sub_releases a [] (map (whole a) hs) (hk_extents a) = Inr (plan_releases a [] hs (hk_extents a))"
    using sub_releases_whole [OF ok, of "[]" hs] assms(2) by simp
  show ?thesis
  proof (cases "plan_releases a [] hs (hk_extents a)")
    case None
    then show ?thesis using r assms(3) by (auto simp: can_allocate_after_suballocation_releases_def plan_after_releases_def)
  next
    case (Some sim)
    note pv = plan_releases_valid [OF Some]
    have "sub_descriptors a (map (whole a) hs) [] (map (whole a) hs) (length (hk_free_descriptors a), length requests) =
        (length (hk_free_descriptors a) + length hs, length requests)"
      using sub_descriptors_whole [OF ok, of "[]" hs] pv assms(2) by simp
    then show ?thesis using r Some assms(3)
      by (auto simp: can_allocate_after_suballocation_releases_def plan_after_releases_def split: option.splits)
  qed
qed

theorem suballocation_test_agrees_witness:
  "can_allocate_after_suballocation_releases demo_allocated [whole demo_allocated (alloc_handle demo_alloc)]
     [\<lparr>hr_layout = Some demo_host_layout, hr_pages = 5\<rparr>] = Inr False"
proof -
  let ?h = "alloc_handle demo_alloc" and ?q = "[\<lparr>hr_layout = Some demo_host_layout, hr_pages = 5\<rparr>]"
  have s: "hl_page_stride demo_host_layout = 256" by (simp add: demo_host_layout_def)
  have h: "hh_descriptor ?h = 0" by (simp add: alloc_handle_def demo_alloc_def)
  have "plan_releases demo_allocated [] [?h] (hk_extents demo_allocated) = Some [\<lparr>r_begin = 0, r_count = 1024\<rparr>]"
    using demo_alloc_valid h
    by (simp add: demo_allocated_def demo_arena_def insert_free_extent_def before_def from_on_def Let_def)
  moreover have "plan_targets demo_allocated ?q [\<lparr>r_begin = 0, r_count = 1024\<rparr>] = None"
    by (simp add: find_layout_def find_extent_def demo_allocated_def demo_arena_def s Let_def)
  ultimately have "plan_after_releases demo_allocated [?h] ?q = None" by (simp add: plan_after_releases_def)
  moreover have "sr_page_count (whole demo_allocated ?h) \<le> uint32_max"
    by (simp add: whole_def h demo_allocated_def demo_arena_def)
  ultimately show ?thesis
    using suballocation_test_agrees [OF demo_allocated_reachable, of "[?h]" ?q] by simp
qed

end
