(* ===== verification/Admission.thy ===== *)
theory Admission
  imports Prelude
begin

text \<open>
  The admission policy of the engine (\<open>runtime/engine/admission_policy.h\<close> and \<open>.cpp\<close>):
  the logical half of the reservation that protects a blocked head of the waiting queue. When the
  head cannot run, the identities of the requests then active are frozen as its \<open>donors\<close>;
  later arrivals may borrow capacity under the same epoch but never become donors themselves.

  Request identities, epochs and resource revisions are \<open>uint64_t\<close> values that this code
  only compares, so they are natural numbers. The donor array with its counter is the list of
  its first \<open>donor_count\<close> entries.
\<close>

section \<open>Data\<close>

abbreviation kMaximumConcurrency :: nat where "kMaximumConcurrency \<equiv> 8"

datatype backfill_class = NoBackfill | Persistent

record active_snapshot =
  as_request_id :: nat
  as_backfill_epoch :: nat
  as_backfill_class :: backfill_class

record admission_protection =
  ap_epoch_id :: nat
  ap_head_request_id :: nat
  ap_resource_revision :: nat
  ap_donor_ids :: "nat list"

section \<open>Operations\<close>

definition is_donor :: "admission_protection \<Rightarrow> nat \<Rightarrow> bool" where
  "is_donor p i \<longleftrightarrow> i \<in> set (ap_donor_ids p)"

text \<open>One row of the validation loop; \<open>prior\<close> are the identities of the rows before it.\<close>

definition partition_row :: "admission_protection \<Rightarrow> nat list \<Rightarrow> active_snapshot \<Rightarrow> unit res" where
  "partition_row p prior a =
     (if as_request_id a = 0 \<or> as_request_id a = ap_head_request_id p then Inl InvalidArgument
      else if as_request_id a \<in> set prior then Inl InvalidArgument
      else if is_donor p (as_request_id a) then
        (if as_backfill_epoch a = ap_epoch_id p \<and> as_backfill_class a = Persistent
         then Inl LogicError else Inr ())
      else if as_backfill_epoch a \<noteq> ap_epoch_id p \<or> as_backfill_class a \<noteq> Persistent
      then Inl LogicError
      else Inr ())"

fun partition_rows :: "admission_protection \<Rightarrow> nat list \<Rightarrow> active_snapshot list \<Rightarrow> unit res" where
  "partition_rows p prior [] = Inr ()"
| "partition_rows p prior (a # as) =
     rbind (partition_row p prior a) (\<lambda>_. partition_rows p (prior @ [as_request_id a]) as)"

definition validate_active_partition :: "admission_protection \<Rightarrow> active_snapshot list \<Rightarrow> unit res" where
  "validate_active_partition p active =
     (if length active > kMaximumConcurrency then Inl InvalidArgument
      else partition_rows p [] active)"

definition freeze_donor :: "nat \<Rightarrow> active_snapshot \<Rightarrow> admission_protection \<Rightarrow> admission_protection res" where
  "freeze_donor head a p =
     (if as_request_id a = 0 \<or> as_request_id a = head \<or> as_request_id a \<in> set (ap_donor_ids p)
      then Inl InvalidArgument
      else Inr (p\<lparr>ap_donor_ids := ap_donor_ids p @ [as_request_id a]\<rparr>))"

definition make_admission_protection ::
  "nat \<Rightarrow> nat \<Rightarrow> nat \<Rightarrow> active_snapshot list \<Rightarrow> admission_protection res" where
  "make_admission_protection epoch head revn active =
     (if epoch = 0 \<or> head = 0 \<or> revn = 0 \<or> active = [] \<or> length active > kMaximumConcurrency
      then Inl InvalidArgument
      else rfold (freeze_donor head) active
             \<lparr>ap_epoch_id = epoch, ap_head_request_id = head, ap_resource_revision = revn,
              ap_donor_ids = []\<rparr>)"

definition rebind_admission_protection ::
  "admission_protection \<Rightarrow> active_snapshot list \<Rightarrow> nat \<Rightarrow> admission_protection res" where
  "rebind_admission_protection p active revn =
     (if ap_epoch_id p = 0 \<or> ap_head_request_id p = 0 \<or> revn = 0 then Inl InvalidArgument
      else rbind (validate_active_partition p active)
             (\<lambda>_. Inr (p\<lparr>ap_resource_revision := revn\<rparr>)))"

definition protection_has_live_donor :: "admission_protection \<Rightarrow> active_snapshot list \<Rightarrow> bool" where
  "protection_has_live_donor p active \<longleftrightarrow> list_ex (\<lambda>a. is_donor p (as_request_id a)) active"

fun borrowers_of_epoch :: "admission_protection \<Rightarrow> nat \<Rightarrow> active_snapshot list \<Rightarrow> bool" where
  "borrowers_of_epoch p candidate [] \<longleftrightarrow> True"
| "borrowers_of_epoch p candidate (a # as) \<longleftrightarrow>
     (if as_request_id a = candidate then False
      else if \<not> is_donor p (as_request_id a) \<and>
        (as_backfill_epoch a \<noteq> ap_epoch_id p \<or> as_backfill_class a \<noteq> Persistent) then False
      else borrowers_of_epoch p candidate as)"

definition persistent_backfill_is_authorized ::
  "admission_protection \<Rightarrow> nat \<Rightarrow> active_snapshot list \<Rightarrow> nat \<Rightarrow> bool" where
  "persistent_backfill_is_authorized p candidate active revn \<longleftrightarrow>
     (if candidate = 0 \<or> candidate = ap_head_request_id p \<or> revn = 0 \<or>
         revn \<noteq> ap_resource_revision p \<or> \<not> protection_has_live_donor p active then False
      else borrowers_of_epoch p candidate active)"

section \<open>What the operations decide\<close>

text \<open>
  The specification of the partition: an active request is either a frozen donor, and then not a
  borrower of this epoch, or a borrower of this epoch.
\<close>

definition donor_or_borrower :: "admission_protection \<Rightarrow> active_snapshot \<Rightarrow> bool" where
  "donor_or_borrower p a \<longleftrightarrow>
     is_donor p (as_request_id a) \<noteq> (as_backfill_epoch a = ap_epoch_id p \<and> as_backfill_class a = Persistent)"

lemma partition_row_iff:
  "partition_row p prior a = Inr () \<longleftrightarrow>
     as_request_id a \<noteq> 0 \<and> as_request_id a \<noteq> ap_head_request_id p \<and>
     as_request_id a \<notin> set prior \<and> donor_or_borrower p a"
  by (auto simp: partition_row_def donor_or_borrower_def)

lemma partition_rows_iff:
  "partition_rows p prior active = Inr () \<longleftrightarrow>
     (\<forall>a\<in>set active. as_request_id a \<noteq> 0 \<and> as_request_id a \<noteq> ap_head_request_id p \<and>
        donor_or_borrower p a \<and> as_request_id a \<notin> set prior) \<and>
     distinct (map as_request_id active)"
  by (induction active arbitrary: prior) (auto simp: rbind_Inr_iff partition_row_iff image_iff)

lemma validate_active_partition_iff:
  "validate_active_partition p active = Inr () \<longleftrightarrow>
     length active \<le> kMaximumConcurrency \<and> distinct (map as_request_id active) \<and>
     (\<forall>a\<in>set active. as_request_id a \<noteq> 0 \<and> as_request_id a \<noteq> ap_head_request_id p \<and>
        donor_or_borrower p a)"
  by (auto simp: validate_active_partition_def partition_rows_iff)

lemma freeze_donor_iff:
  "freeze_donor head a p = Inr q \<longleftrightarrow>
     q = p\<lparr>ap_donor_ids := ap_donor_ids p @ [as_request_id a]\<rparr> \<and> as_request_id a \<noteq> 0 \<and>
     as_request_id a \<noteq> head \<and> as_request_id a \<notin> set (ap_donor_ids p)"
  by (auto simp: freeze_donor_def)

lemma freeze_donors_result:
  "rfold (freeze_donor head) active p = Inr q \<longleftrightarrow>
     q = p\<lparr>ap_donor_ids := ap_donor_ids p @ map as_request_id active\<rparr> \<and>
     (\<forall>a\<in>set active. as_request_id a \<noteq> 0 \<and> as_request_id a \<noteq> head \<and>
        as_request_id a \<notin> set (ap_donor_ids p)) \<and>
     distinct (map as_request_id active)"
proof (induction active arbitrary: p)
  case Nil
  then show ?case by auto
next
  case (Cons a active)
  show ?case
    by (auto simp: rbind_Inr_iff freeze_donor_iff Cons.IH image_iff)
qed

lemma make_admission_protection_iff:
  "make_admission_protection epoch head revn active = Inr p \<longleftrightarrow>
     p = \<lparr>ap_epoch_id = epoch, ap_head_request_id = head, ap_resource_revision = revn,
          ap_donor_ids = map as_request_id active\<rparr> \<and>
     epoch \<noteq> 0 \<and> head \<noteq> 0 \<and> revn \<noteq> 0 \<and> active \<noteq> [] \<and> length active \<le> kMaximumConcurrency \<and>
     distinct (map as_request_id active) \<and>
     (\<forall>a\<in>set active. as_request_id a \<noteq> 0 \<and> as_request_id a \<noteq> head)"
  by (auto simp: make_admission_protection_def freeze_donors_result)

lemma rebind_admission_protection_iff:
  "rebind_admission_protection p active revn = Inr q \<longleftrightarrow>
     q = p\<lparr>ap_resource_revision := revn\<rparr> \<and> ap_epoch_id p \<noteq> 0 \<and> ap_head_request_id p \<noteq> 0 \<and> revn \<noteq> 0 \<and>
     validate_active_partition p active = Inr ()"
  by (auto simp: rebind_admission_protection_def rbind_Inr_iff)

lemma live_donor_iff:
  "protection_has_live_donor p active \<longleftrightarrow>
     set (ap_donor_ids p) \<inter> as_request_id ` set active \<noteq> {}"
  by (auto simp: protection_has_live_donor_def list_ex_iff is_donor_def)

lemma borrowers_of_epoch_iff:
  "borrowers_of_epoch p candidate active \<longleftrightarrow>
     (\<forall>a\<in>set active. as_request_id a \<noteq> candidate \<and>
        (is_donor p (as_request_id a) \<or>
         as_backfill_epoch a = ap_epoch_id p \<and> as_backfill_class a = Persistent))"
  by (induction active) auto

lemma persistent_backfill_iff:
  "persistent_backfill_is_authorized p candidate active revn \<longleftrightarrow>
     candidate \<noteq> 0 \<and> candidate \<noteq> ap_head_request_id p \<and> revn \<noteq> 0 \<and> revn = ap_resource_revision p \<and>
     set (ap_donor_ids p) \<inter> as_request_id ` set active \<noteq> {} \<and>
     (\<forall>a\<in>set active. as_request_id a \<noteq> candidate \<and>
        (is_donor p (as_request_id a) \<or>
         as_backfill_epoch a = ap_epoch_id p \<and> as_backfill_class a = Persistent))"
  by (auto simp: persistent_backfill_is_authorized_def live_donor_iff borrowers_of_epoch_iff)

end
