(* ===== verification/Scheduler.thy ===== *)
theory Scheduler
  imports Admission
begin

text \<open>
  The request record and the generation budget as the scheduler sees them
  (\<open>runtime/engine/request_record.h\<close>, \<open>runtime/engine/generation_budget.h\<close>) and the
  scheduler itself (\<open>runtime/engine/scheduler.h\<close>): batch membership, the choice of the next
  execution unit, the single staged-prefill owner, and the admission grants of the head of the
  queue and of the requests that backfill behind a protected head.

  The class template's parameter \<open>Request\<close> fixes the types of the output session and of the
  sequence handle; they are the type variables of \<open>request\<close>. The two questions the scheduler
  asks an output session are arguments: \<open>licensed out n\<close> for
  \<open>model_token_budget_remaining\<close> and \<open>control out\<close> for
  \<open>pending_control_tokens\<close>. Fixed arrays with a \<open>size\<close> counter are lists.
\<close>

section \<open>Generation budget\<close>

datatype finish_reason =
  FinishNone | OutputLimit | ContextCapacity | StopToken | StopString | FinishCancelled

record generation_budget =
  gb_remaining :: nat
  gb_limit_reason :: finish_reason

definition make_generation_budget :: "nat \<Rightarrow> finish_reason \<Rightarrow> generation_budget res" where
  "make_generation_budget n r =
     (if r \<noteq> OutputLimit \<and> r \<noteq> ContextCapacity then Inl Terminate
      else Inr \<lparr>gb_remaining = n, gb_limit_reason = r\<rparr>)"

definition budget_commit :: "generation_budget \<Rightarrow> nat \<Rightarrow> generation_budget res" where
  "budget_commit b n =
     (if n > gb_remaining b then Inl Terminate
      else Inr (b\<lparr>gb_remaining := u32_sub (gb_remaining b) n\<rparr>))"

section \<open>Requests\<close>

datatype request_state = Waiting | Materializing | Prefill | DecodeReady | ControlReady | ModelFinished

record ('o, 'h) request =
  rq_id :: nat
  rq_publication_order :: nat
  rq_output :: 'o
  rq_budget :: "generation_budget option"
  rq_lane :: "nat option"
  rq_sequence :: "'h option"
  rq_model_state :: request_state
  rq_capture_pending :: bool
  rq_post_capture_state :: request_state
  rq_terminal_reason :: "finish_reason option"
  rq_remaining_service_work :: nat
  rq_backfill_epoch :: nat
  rq_backfill_class :: backfill_class

definition is_waiting :: "('o, 'h) request \<Rightarrow> bool" where
  "is_waiting r \<longleftrightarrow> rq_model_state r = Waiting"

definition is_prefilling :: "('o, 'h) request \<Rightarrow> bool" where
  "is_prefilling r \<longleftrightarrow> rq_model_state r = Prefill"

definition is_materializing :: "('o, 'h) request \<Rightarrow> bool" where
  "is_materializing r \<longleftrightarrow> rq_model_state r = Materializing"

definition is_decode_ready :: "('o, 'h) request \<Rightarrow> bool" where
  "is_decode_ready r \<longleftrightarrow> rq_model_state r = DecodeReady"

definition is_control_ready :: "('o, 'h) request \<Rightarrow> bool" where
  "is_control_ready r \<longleftrightarrow> rq_model_state r = ControlReady"

definition is_model_finished :: "('o, 'h) request \<Rightarrow> bool" where
  "is_model_finished r \<longleftrightarrow> rq_model_state r = ModelFinished"

text \<open>The constructor: identity and output session given, every other member at its initializer.\<close>

definition request_record :: "nat \<Rightarrow> nat \<Rightarrow> 'o \<Rightarrow> ('o, 'h) request" where
  "request_record i order out =
     \<lparr>rq_id = i, rq_publication_order = order, rq_output = out, rq_budget = None, rq_lane = None,
      rq_sequence = None, rq_model_state = Waiting, rq_capture_pending = False,
      rq_post_capture_state = Prefill, rq_terminal_reason = None, rq_remaining_service_work = 0,
      rq_backfill_epoch = 0, rq_backfill_class = NoBackfill\<rparr>"

section \<open>Batch membership\<close>

record 'h round_membership =
  rm_lanes :: "nat list"
  rm_sequences :: "'h list"
  rm_budgets :: "nat list"

definition round_row ::
  "('o \<Rightarrow> nat \<Rightarrow> nat) \<Rightarrow> ('o, 'h) request option list \<Rightarrow> nat \<Rightarrow> 'h round_membership \<Rightarrow>
   'h round_membership res" where
  "round_row licensed slots lane m =
     (case slots ! lane of
        None \<Rightarrow> Inr m
      | Some r \<Rightarrow>
          if \<not> is_decode_ready r \<or> rq_capture_pending r then Inr m
          else case rq_budget r of
            None \<Rightarrow> Inl LogicError
          | Some b \<Rightarrow>
            (case rq_sequence r of
               None \<Rightarrow> Inl LogicError
             | Some h \<Rightarrow>
               (let n = licensed (rq_output r) (gb_remaining b) in
                if n = 0 then Inl LogicError
                else Inr \<lparr>rm_lanes = rm_lanes m @ [lane], rm_sequences = rm_sequences m @ [h],
                          rm_budgets = rm_budgets m @ [n]\<rparr>)))"

definition build_round_membership ::
  "('o \<Rightarrow> nat \<Rightarrow> nat) \<Rightarrow> ('o, 'h) request option list \<Rightarrow> nat \<Rightarrow> 'h round_membership res" where
  "build_round_membership licensed slots max_concurrency =
     rfold (round_row licensed slots) [0..<max_concurrency]
       \<lparr>rm_lanes = [], rm_sequences = [], rm_budgets = []\<rparr>"

record ('h, 't) control_membership =
  cm_lanes :: "nat list"
  cm_sequences :: "'h list"
  cm_tokens :: "'t list"
  cm_row_stride :: nat

definition control_row ::
  "('o \<Rightarrow> 't list) \<Rightarrow> ('o, 'h) request option list \<Rightarrow> nat \<Rightarrow> ('h, 't) control_membership \<Rightarrow>
   ('h, 't) control_membership res" where
  "control_row control slots lane m =
     (case slots ! lane of
        None \<Rightarrow> Inr m
      | Some r \<Rightarrow>
          if \<not> is_control_ready r \<or> rq_capture_pending r then Inr m
          else case (rq_budget r, rq_sequence r) of
            (Some b, Some h) \<Rightarrow>
              (let c = control (rq_output r) in
               if c = [] \<or> length c > gb_remaining b then Inl LogicError
               else if cm_row_stride m = 0 then
                 Inr \<lparr>cm_lanes = cm_lanes m @ [lane], cm_sequences = cm_sequences m @ [h],
                      cm_tokens = cm_tokens m @ c,
                      cm_row_stride = length c mod (uint32_max + 1)\<rparr>
               else if length c \<noteq> cm_row_stride m then Inl LogicError
               else Inr (m\<lparr>cm_lanes := cm_lanes m @ [lane], cm_sequences := cm_sequences m @ [h],
                           cm_tokens := cm_tokens m @ c\<rparr>))
          | _ \<Rightarrow> Inl LogicError)"

definition build_control_membership ::
  "('o \<Rightarrow> 't list) \<Rightarrow> ('o, 'h) request option list \<Rightarrow> nat \<Rightarrow> ('h, 't) control_membership res" where
  "build_control_membership control slots max_concurrency =
     rfold (control_row control slots) [0..<max_concurrency]
       \<lparr>cm_lanes = [], cm_sequences = [], cm_tokens = [], cm_row_stride = 0\<rparr>"

definition admission_snapshot :: "('o, 'h) request \<Rightarrow> active_snapshot" where
  "admission_snapshot r =
     \<lparr>as_request_id = rq_id r, as_backfill_epoch = rq_backfill_epoch r,
      as_backfill_class = rq_backfill_class r\<rparr>"

definition active_row ::
  "('o, 'h) request option list \<Rightarrow> nat \<Rightarrow> active_snapshot list \<Rightarrow> active_snapshot list res" where
  "active_row slots lane active =
     (case slots ! lane of
        None \<Rightarrow> Inr active
      | Some r \<Rightarrow>
          if rq_remaining_service_work r = 0 then Inl LogicError
          else Inr (active @ [admission_snapshot r]))"

definition active_admission_set ::
  "('o, 'h) request option list \<Rightarrow> nat \<Rightarrow> active_snapshot list res" where
  "active_admission_set slots max_concurrency = rfold (active_row slots) [0..<max_concurrency] []"

definition consume_service_work :: "('o, 'h) request \<Rightarrow> nat \<Rightarrow> ('o, 'h) request res" where
  "consume_service_work r work =
     (if work = 0 \<or> work > rq_remaining_service_work r then Inl LogicError
      else Inr (r\<lparr>rq_remaining_service_work := u64_sub (rq_remaining_service_work r) work\<rparr>))"

section \<open>Scheduler state\<close>

record scheduler =
  sc_prefill_lane :: "nat option"
  sc_fifo_head_id :: "nat option"
  sc_protection :: "admission_protection option"
  sc_next_protection_epoch :: nat

definition new_scheduler :: scheduler where
  "new_scheduler = \<lparr>sc_prefill_lane = None, sc_fifo_head_id = None, sc_protection = None,
                    sc_next_protection_epoch = 1\<rparr>"

datatype execution_action = DoPrefill | DoDecode | DoWait

definition should_attempt_admission :: "scheduler \<Rightarrow> bool \<Rightarrow> bool \<Rightarrow> bool \<Rightarrow> bool \<Rightarrow> bool \<Rightarrow> bool" where
  "should_attempt_admission s have_pending check_pending have_decode previous_was_decode context_tx \<longleftrightarrow>
     have_pending \<and> check_pending \<and> \<not> context_tx \<and> sc_prefill_lane s = None \<and>
     (\<not> have_decode \<or> previous_was_decode)"

definition choose_execution :: "bool \<Rightarrow> bool \<Rightarrow> bool \<Rightarrow> execution_action" where
  "choose_execution have_decode prefill_runnable previous_was_decode =
     (if prefill_runnable then
        (if have_decode \<and> \<not> previous_was_decode then DoDecode else DoPrefill)
      else if have_decode then DoDecode else DoWait)"

definition protection_epoch :: "scheduler \<Rightarrow> nat option" where
  "protection_epoch s = map_option ap_epoch_id (sc_protection s)"

definition set_prefill_lane :: "scheduler \<Rightarrow> nat \<Rightarrow> scheduler res" where
  "set_prefill_lane s lane =
     (if sc_prefill_lane s \<noteq> None then Inl LogicError
      else Inr (s\<lparr>sc_prefill_lane := Some lane\<rparr>))"

definition clear_prefill_lane :: "scheduler \<Rightarrow> nat \<Rightarrow> scheduler res" where
  "clear_prefill_lane s lane =
     (if sc_prefill_lane s \<noteq> Some lane then Inl LogicError
      else Inr (s\<lparr>sc_prefill_lane := None\<rparr>))"

definition observe_fifo_head :: "scheduler \<Rightarrow> nat option \<Rightarrow> scheduler" where
  "observe_fifo_head s i =
     (if sc_fifo_head_id s = i then s
      else s\<lparr>sc_fifo_head_id := i, sc_protection := None\<rparr>)"

definition on_waiting_removed :: "scheduler \<Rightarrow> nat \<Rightarrow> scheduler" where
  "on_waiting_removed s i =
     (if sc_fifo_head_id s = Some i
      then s\<lparr>sc_fifo_head_id := None, sc_protection := None\<rparr> else s)"

record admission_grant =
  ag_request_id :: nat
  ag_backfill_class :: backfill_class
  ag_protection_epoch :: nat
  ag_resource_revision :: nat
  ag_service_work_quanta :: nat

definition grant_head :: "scheduler \<Rightarrow> nat \<Rightarrow> nat \<Rightarrow> admission_grant res" where
  "grant_head s i quanta =
     (if sc_fifo_head_id s \<noteq> Some i \<or> i = 0 \<or> quanta = 0 then Inl LogicError
      else Inr \<lparr>ag_request_id = i, ag_backfill_class = NoBackfill, ag_protection_epoch = 0,
                ag_resource_revision = 0, ag_service_work_quanta = quanta\<rparr>)"

text \<open>
  The epoch counter advances while the arguments of \<open>make_admission_protection\<close> are
  evaluated, so it has advanced even when that call throws; hence the state beside the result.
\<close>

definition protect_blocked_head ::
  "scheduler \<Rightarrow> nat \<Rightarrow> active_snapshot list \<Rightarrow> nat \<Rightarrow> scheduler \<times> bool res" where
  "protect_blocked_head s i active revn =
     (if sc_fifo_head_id s \<noteq> Some i then (s, Inl LogicError)
      else case sc_protection s of
        None \<Rightarrow>
          (let s' = s\<lparr>sc_next_protection_epoch := u64_add (sc_next_protection_epoch s) 1\<rparr> in
           case make_admission_protection (sc_next_protection_epoch s) i revn active of
             Inl e \<Rightarrow> (s', Inl e)
           | Inr p \<Rightarrow> (s'\<lparr>sc_protection := Some p\<rparr>, Inr (protection_has_live_donor p active)))
      | Some p \<Rightarrow>
          if ap_head_request_id p \<noteq> i then (s, Inl LogicError)
          else case rebind_admission_protection p active revn of
             Inl e \<Rightarrow> (s, Inl e)
           | Inr q \<Rightarrow> (s\<lparr>sc_protection := Some q\<rparr>, Inr (protection_has_live_donor q active)))"

definition qualify_backfill ::
  "scheduler \<Rightarrow> nat \<Rightarrow> nat \<Rightarrow> active_snapshot list \<Rightarrow> nat \<Rightarrow> admission_grant option res" where
  "qualify_backfill s i quanta active proof_revision =
     (case (sc_fifo_head_id s, sc_protection s) of
        (Some h, Some p) \<Rightarrow>
          if ap_head_request_id p \<noteq> h then Inl LogicError
          else if i = 0 \<or> i = h \<or> quanta = 0 then Inl LogicError
          else if persistent_backfill_is_authorized p i active proof_revision then
            Inr (Some \<lparr>ag_request_id = i, ag_backfill_class = Persistent,
                       ag_protection_epoch = ap_epoch_id p, ag_resource_revision = proof_revision,
                       ag_service_work_quanta = quanta\<rparr>)
          else Inr None
      | _ \<Rightarrow> Inl LogicError)"

definition validate_grant :: "scheduler \<Rightarrow> admission_grant \<Rightarrow> bool" where
  "validate_grant s g \<longleftrightarrow>
     (if ag_request_id g = 0 \<or> ag_service_work_quanta g = 0 then False
      else if ag_backfill_class g = NoBackfill then
        ag_protection_epoch g = 0 \<and> ag_resource_revision g = 0 \<and> sc_fifo_head_id s = Some (ag_request_id g)
      else case (sc_fifo_head_id s, sc_protection s) of
        (Some h, Some p) \<Rightarrow>
          if ap_head_request_id p \<noteq> h \<or> ap_epoch_id p \<noteq> ag_protection_epoch g \<or>
             ap_resource_revision p \<noteq> ag_resource_revision g \<or> ag_request_id g = h then False
          else ag_backfill_class g = Persistent
      | _ \<Rightarrow> False)"

text \<open>The grant is consumed: a committed grant is returned with its identity and work cleared.\<close>

definition commit_admission :: "scheduler \<Rightarrow> admission_grant \<Rightarrow> (scheduler \<times> admission_grant) res" where
  "commit_admission s g =
     (if \<not> validate_grant s g then Inl LogicError
      else (let g' = g\<lparr>ag_request_id := 0, ag_service_work_quanta := 0\<rparr> in
        if ag_backfill_class g = NoBackfill
        then Inr (s\<lparr>sc_fifo_head_id := None, sc_protection := None\<rparr>, g')
        else Inr (s, g')))"

definition scheduler_reset :: "scheduler \<Rightarrow> scheduler" where
  "scheduler_reset s = s\<lparr>sc_prefill_lane := None, sc_fifo_head_id := None, sc_protection := None\<rparr>"

section \<open>Sweeps over the lanes\<close>

text \<open>
  Membership is built by sweeping the lanes in ascending order: a lane is skipped, or its row is
  appended, or the sweep throws. \<open>items m\<close> is one column of the membership, \<open>row_of\<close>
  the entry a selected lane adds to it.
\<close>

locale lane_sweep =
  fixes row :: "nat \<Rightarrow> 'm \<Rightarrow> 'm res"
    and selected :: "nat \<Rightarrow> bool"
    and admissible :: "nat \<Rightarrow> bool"
    and items :: "'m \<Rightarrow> 'v list"
    and row_of :: "nat \<Rightarrow> 'v"
  assumes skip: "\<not> selected l \<Longrightarrow> row l m = Inr m"
    and take_row: "selected l \<Longrightarrow> row l m = Inr m' \<Longrightarrow> admissible l \<and> items m' = items m @ [row_of l]"
begin

lemma row_items:
  assumes "row l m = Inr m'"
  shows "items m' = items m @ (if selected l then [row_of l] else []) \<and> (selected l \<longrightarrow> admissible l)"
  using assms skip [of l m] take_row [of l m m'] by (cases "selected l") auto

lemma sweep_items:
  "rfold row ls m = Inr m' \<Longrightarrow>
     items m' = items m @ map row_of (filter selected ls) \<and>
     (\<forall>l\<in>set ls. selected l \<longrightarrow> admissible l)"
proof (induction ls arbitrary: m)
  case Nil
  then show ?case by simp
next
  case (Cons l ls)
  then obtain m1 where "row l m = Inr m1" "rfold row ls m1 = Inr m'"
    by (auto simp: rbind_Inr_iff)
  with Cons.IH [of m1] row_items [of l m m1] show ?case by (auto split: if_splits)
qed

end

locale total_lane_sweep = lane_sweep +
  assumes admit: "selected l \<Longrightarrow> admissible l \<Longrightarrow> \<exists>m'. row l m = Inr m'"
begin

lemma sweep_total:
  "\<forall>l\<in>set ls. selected l \<longrightarrow> admissible l \<Longrightarrow> \<exists>m'. rfold row ls m = Inr m'"
proof (induction ls arbitrary: m)
  case Nil
  then show ?case by simp
next
  case (Cons l ls)
  obtain m1 where "row l m = Inr m1"
    using Cons.prems skip [of l m] admit [of l m] by (cases "selected l") auto
  with Cons show ?case by auto
qed

end

definition decode_member :: "('o, 'h) request option list \<Rightarrow> nat \<Rightarrow> bool" where
  "decode_member slots l \<longleftrightarrow>
     (case slots ! l of None \<Rightarrow> False | Some r \<Rightarrow> is_decode_ready r \<and> \<not> rq_capture_pending r)"

definition decode_admissible ::
  "('o \<Rightarrow> nat \<Rightarrow> nat) \<Rightarrow> ('o, 'h) request option list \<Rightarrow> nat \<Rightarrow> bool" where
  "decode_admissible licensed slots l \<longleftrightarrow>
     (case slots ! l of None \<Rightarrow> False
      | Some r \<Rightarrow> rq_sequence r \<noteq> None \<and>
          (case rq_budget r of None \<Rightarrow> False
           | Some b \<Rightarrow> licensed (rq_output r) (gb_remaining b) \<noteq> 0))"

definition row_sequence :: "('o, 'h) request option list \<Rightarrow> nat \<Rightarrow> 'h" where
  "row_sequence slots l = the (rq_sequence (the (slots ! l)))"

definition row_budget :: "('o \<Rightarrow> nat \<Rightarrow> nat) \<Rightarrow> ('o, 'h) request option list \<Rightarrow> nat \<Rightarrow> nat" where
  "row_budget licensed slots l =
     licensed (rq_output (the (slots ! l))) (gb_remaining (the (rq_budget (the (slots ! l)))))"

lemmas round_row_defs = round_row_def decode_member_def decode_admissible_def row_sequence_def
  row_budget_def Let_def

interpretation round_lanes: total_lane_sweep
  "round_row licensed slots" "decode_member slots" "decode_admissible licensed slots" rm_lanes "\<lambda>l. l"
  for licensed :: "'o \<Rightarrow> nat \<Rightarrow> nat" and slots :: "('o, 'h) request option list"
  by unfold_locales (auto simp: round_row_defs split: option.splits if_splits)

interpretation round_sequences: lane_sweep
  "round_row licensed slots" "decode_member slots" "decode_admissible licensed slots" rm_sequences
  "row_sequence slots"
  for licensed :: "'o \<Rightarrow> nat \<Rightarrow> nat" and slots :: "('o, 'h) request option list"
  by unfold_locales (auto simp: round_row_defs split: option.splits if_splits)

interpretation round_budgets: lane_sweep
  "round_row licensed slots" "decode_member slots" "decode_admissible licensed slots" rm_budgets
  "row_budget licensed slots"
  for licensed :: "'o \<Rightarrow> nat \<Rightarrow> nat" and slots :: "('o, 'h) request option list"
  by unfold_locales (auto simp: round_row_defs split: option.splits if_splits)

definition control_member :: "('o, 'h) request option list \<Rightarrow> nat \<Rightarrow> bool" where
  "control_member slots l \<longleftrightarrow>
     (case slots ! l of None \<Rightarrow> False | Some r \<Rightarrow> is_control_ready r \<and> \<not> rq_capture_pending r)"

definition control_admissible ::
  "('o \<Rightarrow> 't list) \<Rightarrow> ('o, 'h) request option list \<Rightarrow> nat \<Rightarrow> bool" where
  "control_admissible control slots l \<longleftrightarrow>
     (case slots ! l of None \<Rightarrow> False
      | Some r \<Rightarrow> rq_sequence r \<noteq> None \<and> control (rq_output r) \<noteq> [] \<and>
          (case rq_budget r of None \<Rightarrow> False
           | Some b \<Rightarrow> length (control (rq_output r)) \<le> gb_remaining b))"

definition row_control :: "('o \<Rightarrow> 't list) \<Rightarrow> ('o, 'h) request option list \<Rightarrow> nat \<Rightarrow> 't list" where
  "row_control control slots l = control (rq_output (the (slots ! l)))"

interpretation control_lanes: lane_sweep
  "control_row control slots" "control_member slots" "control_admissible control slots" cm_lanes "\<lambda>l. l"
  for control :: "'o \<Rightarrow> 't list" and slots :: "('o, 'h) request option list"
  by unfold_locales
    (auto simp: control_row_def control_member_def control_admissible_def Let_def
          split: option.splits if_splits)

interpretation control_sequences: lane_sweep
  "control_row control slots" "control_member slots" "control_admissible control slots" cm_sequences
  "row_sequence slots"
  for control :: "'o \<Rightarrow> 't list" and slots :: "('o, 'h) request option list"
  by unfold_locales
    (auto simp: control_row_def control_member_def control_admissible_def row_sequence_def Let_def
          split: option.splits if_splits)

definition active_member :: "('o, 'h) request option list \<Rightarrow> nat \<Rightarrow> bool" where
  "active_member slots l \<longleftrightarrow> slots ! l \<noteq> None"

definition has_service_work :: "('o, 'h) request option list \<Rightarrow> nat \<Rightarrow> bool" where
  "has_service_work slots l \<longleftrightarrow>
     (case slots ! l of None \<Rightarrow> False | Some r \<Rightarrow> rq_remaining_service_work r \<noteq> 0)"

interpretation active_rows: total_lane_sweep
  "active_row slots" "active_member slots" "has_service_work slots" "\<lambda>m. m"
  "\<lambda>l. admission_snapshot (the (slots ! l))"
  for slots :: "('o, 'h) request option list"
  by unfold_locales
    (auto simp: active_row_def active_member_def has_service_work_def split: option.splits if_splits)

lemma active_admission_set_eq:
  assumes "active_admission_set slots n = Inr active"
  shows "active = map (\<lambda>l. admission_snapshot (the (slots ! l))) (filter (active_member slots) [0..<n])"
  using active_rows.sweep_items [OF assms [unfolded active_admission_set_def]] by simp

section \<open>Grants\<close>

lemma validate_head_grant:
  assumes "ag_backfill_class g = NoBackfill"
  shows "validate_grant s g \<longleftrightarrow>
     ag_request_id g \<noteq> 0 \<and> ag_service_work_quanta g \<noteq> 0 \<and> ag_protection_epoch g = 0 \<and>
     ag_resource_revision g = 0 \<and> sc_fifo_head_id s = Some (ag_request_id g)"
  using assms by (simp add: validate_grant_def)

lemma validate_backfill_grant:
  assumes "ag_backfill_class g = Persistent"
  shows "validate_grant s g \<longleftrightarrow>
     ag_request_id g \<noteq> 0 \<and> ag_service_work_quanta g \<noteq> 0 \<and>
     (\<exists>p. sc_protection s = Some p \<and> sc_fifo_head_id s = Some (ap_head_request_id p) \<and>
        ap_epoch_id p = ag_protection_epoch g \<and> ap_resource_revision p = ag_resource_revision g \<and>
        ag_request_id g \<noteq> ap_head_request_id p)"
  using assms
  by (cases "sc_fifo_head_id s"; cases "sc_protection s") (auto simp: validate_grant_def)

lemma commit_admission_iff:
  "commit_admission s g = Inr (s', g') \<longleftrightarrow>
     validate_grant s g \<and> g' = g\<lparr>ag_request_id := 0, ag_service_work_quanta := 0\<rparr> \<and>
     s' = (if ag_backfill_class g = NoBackfill
           then s\<lparr>sc_fifo_head_id := None, sc_protection := None\<rparr> else s)"
  by (auto simp: commit_admission_def Let_def)

lemma qualify_backfill_Some:
  assumes "qualify_backfill s i quanta active revn = Inr (Some g)"
  shows "\<exists>p. sc_protection s = Some p \<and> sc_fifo_head_id s = Some (ap_head_request_id p) \<and>
    i \<noteq> 0 \<and> i \<noteq> ap_head_request_id p \<and> quanta \<noteq> 0 \<and>
    persistent_backfill_is_authorized p i active revn \<and>
    g = \<lparr>ag_request_id = i, ag_backfill_class = Persistent, ag_protection_epoch = ap_epoch_id p,
         ag_resource_revision = revn, ag_service_work_quanta = quanta\<rparr>"
  using assms
  by (cases "sc_fifo_head_id s"; cases "sc_protection s") (auto simp: qualify_backfill_def split: if_splits)

end
