(* ===== verification/Engine.thy ===== *)
theory Engine
  imports Scheduler
begin

text \<open>
  The engine's own state and the operations that move requests through it
  (\<open>runtime/engine/engine_core.h\<close>): submission, expiry of waiting requests, one admission
  attempt with its backfill scan, the progress of a context transaction, settlement and
  cancellation of active requests, the choice of the next execution unit, and the shutdown path.

  What the planner and the model program answer is an argument: the record \<open>env\<close> holds, for one
  admission attempt, the clock and cancellation reads, the inspection of each request, the
  backfill proofs and the outcome of the reservation. Timing, statistics, streams and the text of
  results are not part of the state. \<open>std::shared_ptr\<close> identity is the request's
  \<open>id\<close>, which the engine never reuses.
\<close>

section \<open>State\<close>

datatype request_error_kind =
    ContextLengthExceeded | ThinkingBudgetCapacityInsufficient | MediaBudgetExceeded | InvalidMedia
  | Overloaded | QueueTimeout | RequestCancelled | Unavailable

datatype engine_error = RequestError request_error_kind | CppError cpp_error

record ('o, 'h) materializing_request =
  mz_request :: "('o, 'h) request"
  mz_destination :: nat
  mz_budget :: generation_budget
  mz_service_work_quanta :: nat
  mz_backfill_class :: backfill_class
  mz_protection_epoch :: nat

record ('o, 'h) engine =
  en_max_concurrency :: nat
  en_max_outstanding :: nat
  en_pending :: "('o, 'h) request list"
  en_outstanding :: nat
  en_stopping :: bool
  en_failed :: bool
  en_next_request_id :: nat
  en_next_publication_order :: nat
  en_slots :: "('o, 'h) request option list"
  en_materializing :: "('o, 'h) materializing_request option"
  en_scheduler :: scheduler
  en_admission_check_pending :: bool

definition new_engine :: "nat \<Rightarrow> nat \<Rightarrow> nat \<Rightarrow> ('o, 'h) engine res" where
  "new_engine max_concurrency max_pending timeout_ms =
     (if max_concurrency = 0 \<or> max_concurrency > kMaximumConcurrency \<or> max_pending = 0 \<or> timeout_ms = 0
      then Inl InvalidArgument
      else Inr \<lparr>en_max_concurrency = max_concurrency,
                en_max_outstanding = u64_add max_concurrency max_pending,
                en_pending = [], en_outstanding = 0, en_stopping = False, en_failed = False,
                en_next_request_id = 1, en_next_publication_order = 1,
                en_slots = replicate kMaximumConcurrency None, en_materializing = None,
                en_scheduler = new_scheduler, en_admission_check_pending = False\<rparr>)"

definition request_admission_check :: "('o, 'h) engine \<Rightarrow> ('o, 'h) engine" where
  "request_admission_check e = e\<lparr>en_admission_check_pending := True\<rparr>"

definition consume_admission_check :: "('o, 'h) engine \<Rightarrow> ('o, 'h) engine \<times> bool" where
  "consume_admission_check e =
     (e\<lparr>en_admission_check_pending := False\<rparr>, en_admission_check_pending e)"

section \<open>Submission\<close>

text \<open>
  \<open>submit\<close> takes the queue lock twice: once to reserve a place and the identities, and,
  after the output session is made, once more to enqueue the request. Other threads may run in
  between, so the two sections are two operations.
\<close>

definition submit_reserve :: "('o, 'h) engine \<Rightarrow> engine_error + (nat \<times> nat \<times> ('o, 'h) engine)" where
  "submit_reserve e =
     (if en_stopping e \<or> en_failed e then Inl (RequestError Unavailable)
      else if en_outstanding e \<ge> en_max_outstanding e then Inl (RequestError Overloaded)
      else if en_next_request_id e = 0 \<or> en_next_publication_order e = 0
      then Inl (CppError OverflowError)
      else Inr (en_next_request_id e, en_next_publication_order e,
                e\<lparr>en_outstanding := u64_add (en_outstanding e) 1,
                  en_next_request_id := u64_add (en_next_request_id e) 1,
                  en_next_publication_order := u64_add (en_next_publication_order e) 1\<rparr>))"

definition submit_enqueue ::
  "('o, 'h) request \<Rightarrow> ('o, 'h) engine \<Rightarrow> ('o, 'h) engine \<times> (engine_error + unit)" where
  "submit_enqueue r e =
     (if en_stopping e \<or> en_failed e
      then (e\<lparr>en_outstanding := u64_sub (en_outstanding e) 1\<rparr>, Inl (RequestError Unavailable))
      else (request_admission_check (e\<lparr>en_pending := en_pending e @ [r]\<rparr>), Inr ()))"

definition release_reserved_capacity :: "('o, 'h) engine \<Rightarrow> ('o, 'h) engine" where
  "release_reserved_capacity e =
     (if en_outstanding e \<noteq> 0 then e\<lparr>en_outstanding := u64_sub (en_outstanding e) 1\<rparr> else e)"

section \<open>The waiting queue\<close>

fun erase_request :: "nat \<Rightarrow> ('o, 'h) request list \<Rightarrow> ('o, 'h) request list" where
  "erase_request i [] = []"
| "erase_request i (r # rs) = (if rq_id r = i then rs else r # erase_request i rs)"

definition erase_pending :: "('o, 'h) request \<Rightarrow> ('o, 'h) engine \<Rightarrow> ('o, 'h) engine \<times> bool" where
  "erase_pending r e =
     (if list_ex (\<lambda>q. rq_id q = rq_id r) (en_pending e)
      then (e\<lparr>en_pending := erase_request (rq_id r) (en_pending e)\<rparr>, True)
      else (e, False))"

definition engine_waiting_removed :: "('o, 'h) request \<Rightarrow> ('o, 'h) engine \<Rightarrow> ('o, 'h) engine" where
  "engine_waiting_removed r e = e\<lparr>en_scheduler := on_waiting_removed (en_scheduler e) (rq_id r)\<rparr>"

datatype admission_progress = NoProgress | ControlProgress

definition remove_pending_error ::
  "('o, 'h) request \<Rightarrow> ('o, 'h) engine \<Rightarrow> ('o, 'h) engine \<times> admission_progress" where
  "remove_pending_error r e =
     (let (e', found) = erase_pending r e in
      if \<not> found then (e, NoProgress)
      else (engine_waiting_removed r e', ControlProgress))"

definition expire_pending_requests ::
  "(nat \<Rightarrow> bool) \<Rightarrow> (nat \<Rightarrow> bool) \<Rightarrow> ('o, 'h) engine \<Rightarrow> ('o, 'h) engine \<times> bool" where
  "expire_pending_requests cancelled late e =
     (let gone = filter (\<lambda>r. cancelled (rq_id r)) (en_pending e) @
                 filter (\<lambda>r. \<not> cancelled (rq_id r) \<and> late (rq_id r)) (en_pending e);
          kept = filter (\<lambda>r. \<not> cancelled (rq_id r) \<and> \<not> late (rq_id r)) (en_pending e);
          e' = fold engine_waiting_removed gone (e\<lparr>en_pending := kept\<rparr>)
      in (if gone \<noteq> [] then request_admission_check e' else e', kept \<noteq> []))"

section \<open>Context transactions\<close>

datatype transaction_status = InProgress | Published | Aborted

datatype transaction_kind = MaterializationKind | ActiveCaptureKind

datatype 'h transaction_outcome =
    StillInProgress
  | MaterializationOutcome transaction_status "'h option"
  | ActiveCaptureOutcome transaction_status

definition capture_row ::
  "('o, 'h) request option list \<Rightarrow> nat \<Rightarrow> nat option \<Rightarrow> nat option res" where
  "capture_row slots lane found =
     (case slots ! lane of
        None \<Rightarrow> Inr found
      | Some r \<Rightarrow>
          if \<not> rq_capture_pending r then Inr found
          else if found \<noteq> None then Inl LogicError
          else if rq_lane r \<noteq> Some lane \<or> rq_sequence r = None then Inl LogicError
          else Inr (Some lane))"

definition active_capture_owner :: "('o, 'h) engine \<Rightarrow> nat option res" where
  "active_capture_owner e = rfold (capture_row (en_slots e)) [0..<en_max_concurrency e] None"

definition check_transaction_owner ::
  "transaction_kind \<Rightarrow> nat option \<Rightarrow> ('o, 'h) engine \<Rightarrow> unit res" where
  "check_transaction_owner kind capture e =
     (case kind of
        MaterializationKind \<Rightarrow>
          (case en_materializing e of
             None \<Rightarrow> Inl LogicError
           | Some c \<Rightarrow>
               if capture \<noteq> None then Inl LogicError
               else if \<not> is_materializing (mz_request c) \<or> rq_lane (mz_request c) \<noteq> None \<or>
                  rq_sequence (mz_request c) \<noteq> None \<or> rq_budget (mz_request c) \<noteq> None \<or>
                  mz_destination c \<ge> en_max_concurrency e \<or> en_slots e ! mz_destination c \<noteq> None
               then Inl LogicError else Inr ())
      | ActiveCaptureKind \<Rightarrow>
          if en_materializing e \<noteq> None \<or> capture = None then Inl LogicError else Inr ())"

definition adopt_request :: "('o, 'h) materializing_request \<Rightarrow> 'h \<Rightarrow> ('o, 'h) request" where
  "adopt_request c h =
     (mz_request c)\<lparr>rq_sequence := Some h, rq_budget := Some (mz_budget c),
        rq_lane := Some (mz_destination c), rq_remaining_service_work := mz_service_work_quanta c,
        rq_backfill_epoch := mz_protection_epoch c, rq_backfill_class := mz_backfill_class c,
        rq_model_state := Prefill\<rparr>"

definition materialization_outcome ::
  "transaction_kind \<Rightarrow> transaction_status \<Rightarrow> 'h option \<Rightarrow> ('o, 'h) engine \<Rightarrow> ('o, 'h) engine res" where
  "materialization_outcome kind status activation e =
     (case en_materializing e of
        None \<Rightarrow> Inl LogicError
      | Some c \<Rightarrow>
          if kind \<noteq> MaterializationKind then Inl LogicError
          else if status = Aborted then
            (if activation \<noteq> None then Inl LogicError
             else Inr (request_admission_check (e\<lparr>en_materializing := None\<rparr>)))
          else case activation of
            None \<Rightarrow> Inl LogicError
          | Some h \<Rightarrow>
              if status \<noteq> Published then Inl LogicError
              else rbind (set_prefill_lane (en_scheduler e) (mz_destination c)) (\<lambda>s.
                Inr (request_admission_check
                  (e\<lparr>en_slots := (en_slots e)[mz_destination c := Some (adopt_request c h)],
                     en_materializing := None, en_scheduler := s\<rparr>))))"

definition capture_outcome ::
  "transaction_kind \<Rightarrow> transaction_status \<Rightarrow> nat option \<Rightarrow> ('o, 'h) engine \<Rightarrow> ('o, 'h) engine res" where
  "capture_outcome kind status capture e =
     (case capture of
        None \<Rightarrow> Inl LogicError
      | Some lane \<Rightarrow>
          if kind \<noteq> ActiveCaptureKind then Inl LogicError
          else if status = InProgress then Inl LogicError
          else Inr (request_admission_check
            (e\<lparr>en_slots := (en_slots e)[lane := map_option
                (\<lambda>r. r\<lparr>rq_capture_pending := False, rq_model_state := rq_post_capture_state r\<rparr>)
                (en_slots e ! lane)]\<rparr>)))"

definition progress_context_transaction ::
  "bool \<Rightarrow> transaction_kind option \<Rightarrow> 'h transaction_outcome \<Rightarrow> ('o, 'h) engine \<Rightarrow>
   (('o, 'h) engine \<times> admission_progress) res" where
  "progress_context_transaction program_has kind outcome e =
     (if (kind \<noteq> None) \<noteq> program_has then Inl LogicError
      else case kind of
        None \<Rightarrow> Inr (e, NoProgress)
      | Some k \<Rightarrow>
          rbind (active_capture_owner e) (\<lambda>capture.
          rbind (check_transaction_owner k capture e) (\<lambda>_.
            case outcome of
              StillInProgress \<Rightarrow> Inr (e, ControlProgress)
            | MaterializationOutcome status activation \<Rightarrow>
                rbind (materialization_outcome k status activation e) (\<lambda>e'. Inr (e', ControlProgress))
            | ActiveCaptureOutcome status \<Rightarrow>
                rbind (capture_outcome k status capture e) (\<lambda>e'. Inr (e', ControlProgress)))))"

section \<open>Admission\<close>

datatype readiness = Ready | NeedsTransfer | TemporarilyBlocked | PermanentlyInfeasible

record plan_choice =
  pc_destination :: nat
  pc_service_work_quanta :: nat
  pc_effective_output_tokens :: nat
  pc_effective_limit_reason :: finish_reason

datatype reserve_result = Reserved | StaleChoice | ReserveAborted

text \<open>
  What one admission attempt reads from outside the engine. Each request is inspected at most
  once in an attempt, so the answers are functions of its identity; the clock and the cancellation
  flag are read again when a plan is admitted (\<open>ev_late_*\<close>).
\<close>

record 'h env =
  ev_cancelled :: "nat \<Rightarrow> bool"
  ev_expired :: "nat \<Rightarrow> bool"
  ev_plan_fails :: "nat \<Rightarrow> bool"
  ev_inspect :: "nat \<Rightarrow> readiness \<times> plan_choice option"
  ev_resource_revision :: nat
  ev_prove_backfill :: "nat \<Rightarrow> nat \<Rightarrow> 'h list \<Rightarrow> nat option"
  ev_late_expired :: "nat \<Rightarrow> bool"
  ev_late_cancelled :: "nat \<Rightarrow> bool"
  ev_storage_fails :: "nat \<Rightarrow> bool"
  ev_reserve :: "nat \<Rightarrow> reserve_result"
  ev_first_outcome :: "'h transaction_outcome"

text \<open>The control record of an admitted request.\<close>

definition granted_materialization ::
  "('o, 'h) request \<Rightarrow> plan_choice \<Rightarrow> admission_grant \<Rightarrow> generation_budget \<Rightarrow>
   ('o, 'h) materializing_request" where
  "granted_materialization r choice grant budget =
     \<lparr>mz_request = r\<lparr>rq_model_state := Materializing\<rparr>, mz_destination = pc_destination choice,
      mz_budget = budget, mz_service_work_quanta = pc_service_work_quanta choice,
      mz_backfill_class = ag_backfill_class grant, mz_protection_epoch = ag_protection_epoch grant\<rparr>"

definition admit_planned_request ::
  "'h env \<Rightarrow> ('o, 'h) request \<Rightarrow> plan_choice \<Rightarrow> admission_grant \<Rightarrow> ('o, 'h) engine \<Rightarrow>
   (('o, 'h) engine \<times> admission_progress) res" where
  "admit_planned_request env r choice grant e =
     (let i = rq_id r;
          failed = (let (e', progress) = remove_pending_error r e in
                    (if progress = ControlProgress then request_admission_check e' else e', progress));
          lane = pc_destination choice
      in
      if ev_late_expired env i then Inr failed
      else if ev_late_cancelled env i then
        (let (e', found) = erase_pending r e in
         if \<not> found then Inr (e, NoProgress)
         else Inr (request_admission_check (engine_waiting_removed r e'), ControlProgress))
      else if ag_request_id grant \<noteq> i \<or> ag_service_work_quanta grant \<noteq> pc_service_work_quanta choice \<or>
              \<not> validate_grant (en_scheduler e) grant
      then Inl LogicError
      else rbind (make_generation_budget (pc_effective_output_tokens choice)
                                         (pc_effective_limit_reason choice)) (\<lambda>budget.
      if ev_storage_fails env i then Inr failed
      else case ev_reserve env i of
        StaleChoice \<Rightarrow> Inr (request_admission_check e, ControlProgress)
      | ReserveAborted \<Rightarrow>
          (let (e', found) = erase_pending r e in
           if \<not> found then Inl LogicError
           else Inr (request_admission_check (engine_waiting_removed r e'), ControlProgress))
      | Reserved \<Rightarrow>
          (let (e', found) = erase_pending r e in
           if \<not> found then Inl LogicError
           else if en_materializing e' \<noteq> None \<or> en_slots e' ! lane \<noteq> None then Inl LogicError
           else
             rbind (commit_admission (en_scheduler e') grant) (\<lambda>(s, _).
               progress_context_transaction True (Some MaterializationKind) (ev_first_outcome env)
                 (e'\<lparr>en_materializing := Some (granted_materialization r choice grant budget),
                     en_scheduler := s\<rparr>)))))"

text \<open>The sequences of the current epoch's borrowers, over all slots.\<close>

definition borrower_row ::
  "nat \<Rightarrow> ('o, 'h) request option \<Rightarrow> 'h list \<Rightarrow> 'h list res" where
  "borrower_row epoch slot hs =
     (case slot of
        None \<Rightarrow> Inr hs
      | Some r \<Rightarrow>
          if rq_backfill_class r \<noteq> Persistent \<or> rq_backfill_epoch r \<noteq> epoch then Inr hs
          else case rq_sequence r of None \<Rightarrow> Inl LogicError | Some h \<Rightarrow> Inr (hs @ [h]))"

definition persistent_borrowers :: "nat \<Rightarrow> ('o, 'h) engine \<Rightarrow> 'h list res" where
  "persistent_borrowers epoch e = rfold (borrower_row epoch) (en_slots e) []"

definition progress_of :: "bool \<Rightarrow> admission_progress" where
  "progress_of b = (if b then ControlProgress else NoProgress)"

text \<open>The scan of the requests behind a protected head; the queue snapshot was taken before it.\<close>

fun backfill_scan ::
  "'h env \<Rightarrow> nat \<Rightarrow> active_snapshot list \<Rightarrow> 'h list \<Rightarrow> bool \<Rightarrow> ('o, 'h) request list \<Rightarrow> ('o, 'h) engine \<Rightarrow>
   (('o, 'h) engine \<times> admission_progress) res" where
  "backfill_scan env head active borrowers progress [] e = Inr (e, progress_of progress)"
| "backfill_scan env head active borrowers progress (c # cs) e =
     (let i = rq_id c in
      if ev_cancelled env i then
        (let (e', found) = erase_pending c e in
         if found then backfill_scan env head active borrowers True cs (engine_waiting_removed c e')
         else backfill_scan env head active borrowers progress cs e)
      else if ev_expired env i \<or> ev_plan_fails env i \<or> fst (ev_inspect env i) = PermanentlyInfeasible then
        backfill_scan env head active borrowers True cs (fst (remove_pending_error c e))
      else case ev_inspect env i of (readiness, choice) \<Rightarrow>
        (case choice of
           None \<Rightarrow> backfill_scan env head active borrowers progress cs e
         | Some ch \<Rightarrow>
             if readiness \<noteq> Ready \<and> readiness \<noteq> NeedsTransfer then
               backfill_scan env head active borrowers progress cs e
             else case ev_prove_backfill env head i borrowers of
               None \<Rightarrow> backfill_scan env head active borrowers progress cs e
             | Some revn \<Rightarrow>
                 rbind (qualify_backfill (en_scheduler e) i (pc_service_work_quanta ch) active revn)
                   (\<lambda>grant. case grant of
                      None \<Rightarrow> backfill_scan env head active borrowers progress cs e
                    | Some g \<Rightarrow> admit_planned_request env c ch g e)))"

text \<open>
  One admission attempt. Every \<open>continue\<close> of the loop has removed the head, so it ends with
  the queue. Only this thread removes from the queue, and the head is still in it.
\<close>

definition blocked_head ::
  "'h env \<Rightarrow> bool \<Rightarrow> ('o, 'h) request \<Rightarrow> ('o, 'h) request list \<Rightarrow> ('o, 'h) engine \<Rightarrow>
   (('o, 'h) engine \<times> admission_progress) res" where
  "blocked_head env progress head rest e =
     rbind (active_admission_set (en_slots e) (en_max_concurrency e)) (\<lambda>active.
     if active = [] then Inl LogicError
     else case protect_blocked_head (en_scheduler e) (rq_id head) active (ev_resource_revision env) of
       (s, Inl err) \<Rightarrow> Inl err
     | (s, Inr live) \<Rightarrow>
         (let e' = e\<lparr>en_scheduler := s\<rparr> in
          if \<not> live then Inr (e', progress_of progress)
          else case protection_epoch s of
            None \<Rightarrow> Inl LogicError
          | Some epoch \<Rightarrow>
              rbind (persistent_borrowers epoch e') (\<lambda>borrowers.
                backfill_scan env (rq_id head) active borrowers progress rest e')))"

function try_admit_loop ::
  "'h env \<Rightarrow> bool \<Rightarrow> ('o, 'h) engine \<Rightarrow> (('o, 'h) engine \<times> admission_progress) res" where
  "try_admit_loop env progress e =
     (case en_pending e of
        [] \<Rightarrow> Inr (e\<lparr>en_scheduler := observe_fifo_head (en_scheduler e) None\<rparr>, progress_of progress)
      | head # rest \<Rightarrow>
          (let i = rq_id head;
               e1 = e\<lparr>en_scheduler := observe_fifo_head (en_scheduler e) (Some i)\<rparr>;
               removed = engine_waiting_removed head (e1\<lparr>en_pending := rest\<rparr>)
           in
           if ev_cancelled env i \<or> ev_expired env i \<or> ev_plan_fails env i \<or>
              fst (ev_inspect env i) = PermanentlyInfeasible
           then try_admit_loop env True removed
           else case ev_inspect env i of (readiness, choice) \<Rightarrow>
             if readiness = Ready \<or> readiness = NeedsTransfer then
               (case choice of
                  None \<Rightarrow> Inl LogicError
                | Some ch \<Rightarrow>
                    rbind (grant_head (en_scheduler e1) i (pc_service_work_quanta ch))
                      (\<lambda>g. admit_planned_request env head ch g e1))
             else blocked_head env progress head rest e1))"
  by pat_completeness auto

termination
  by (relation "measure (\<lambda>(env, progress, e). length (en_pending e))")
    (auto simp: engine_waiting_removed_def)

definition try_admit_one :: "'h env \<Rightarrow> ('o, 'h) engine \<Rightarrow> (('o, 'h) engine \<times> admission_progress) res" where
  "try_admit_one env e = try_admit_loop env False e"

declare try_admit_loop.simps [simp del]

section \<open>Active requests\<close>

definition remove_completed_slot :: "nat \<Rightarrow> ('o, 'h) engine \<Rightarrow> ('o, 'h) engine" where
  "remove_completed_slot lane e = request_admission_check (e\<lparr>en_slots := (en_slots e)[lane := None]\<rparr>)"

text \<open>The terminal request with the smallest publication order, as the settlement loop selects it.\<close>

definition select_row ::
  "('o, 'h) request option list \<Rightarrow> nat \<Rightarrow> nat option \<Rightarrow> nat option" where
  "select_row slots lane selected =
     (case slots ! lane of
        None \<Rightarrow> selected
      | Some r \<Rightarrow>
          if rq_terminal_reason r = None then selected
          else case selected of
            None \<Rightarrow> Some lane
          | Some best \<Rightarrow>
              if rq_publication_order r < rq_publication_order (the (slots ! best)) then Some lane
              else selected)"

definition select_terminal :: "('o, 'h) engine \<Rightarrow> nat option" where
  "select_terminal e = fold (select_row (en_slots e)) [0..<en_max_concurrency e] None"

definition settle_terminal :: "(nat \<Rightarrow> bool) \<Rightarrow> nat \<Rightarrow> ('o, 'h) engine \<Rightarrow> ('o, 'h) engine res" where
  "settle_terminal terminal_pending lane e =
     (case en_slots e ! lane of
        None \<Rightarrow> Inl LogicError
      | Some r \<Rightarrow>
          if \<not> is_model_finished r \<or> rq_capture_pending r \<or> rq_sequence r = None \<or>
             rq_lane r \<noteq> Some lane \<or> \<not> terminal_pending lane
          then Inl LogicError
          else Inr (remove_completed_slot lane e))"

definition occupied :: "('o, 'h) engine \<Rightarrow> nat" where
  "occupied e = length (filter (\<lambda>l. en_slots e ! l \<noteq> None) [0..<en_max_concurrency e])"

lemma fold_select_Some:
  "fold (select_row slots) ls sel = Some lane \<Longrightarrow>
     sel = Some lane \<or> lane \<in> set ls \<and> slots ! lane \<noteq> None"
proof (induction ls arbitrary: sel)
  case (Cons l ls)
  have row: "select_row slots l sel = Some lane \<Longrightarrow> sel = Some lane \<or> lane = l \<and> slots ! lane \<noteq> None"
    by (auto simp: select_row_def split: option.splits if_splits)
  from Cons.prems have "fold (select_row slots) ls (select_row slots l sel) = Some lane"
    by simp
  from Cons.IH [OF this] row show ?case
    by auto
qed simp

lemma select_terminal_Some:
  "select_terminal e = Some lane \<Longrightarrow> lane < en_max_concurrency e \<and> en_slots e ! lane \<noteq> None"
  using fold_select_Some [of "en_slots e" "[0..<en_max_concurrency e]" None lane]
  by (auto simp: select_terminal_def)

lemma occupied_remove:
  assumes "lane < en_max_concurrency e" and "lane < length (en_slots e)" and "en_slots e ! lane \<noteq> None"
  shows "occupied (remove_completed_slot lane e) < occupied e"
proof -
  let ?before = "{l. l < en_max_concurrency e \<and> en_slots e ! l \<noteq> None}"
  let ?after = "{l. l < en_max_concurrency e \<and> (en_slots e)[lane := None] ! l \<noteq> None}"
  have count: "length (filter P [0..<n]) = card {l. l < n \<and> P l}" for P n
    by (simp add: length_filter_conv_card cong: conj_cong)
  have "?after \<subseteq> ?before - {lane}"
    using assms by (auto simp: nth_list_update split: if_splits)
  then have "card ?after \<le> card (?before - {lane})"
    by (intro card_mono) auto
  also have "\<dots> < card ?before"
    using assms by (intro card_Diff1_less) auto
  finally show ?thesis
    by (simp add: occupied_def remove_completed_slot_def request_admission_check_def count)
qed

text \<open>
  The settlement loop. It ends because each round empties an occupied lane; the array has a slot
  for every lane, which the guard on the length of the list states.
\<close>

function settle_loop ::
  "(nat \<Rightarrow> bool) \<Rightarrow> bool \<Rightarrow> ('o, 'h) engine \<Rightarrow> (('o, 'h) engine \<times> bool) res" where
  "settle_loop terminal_pending changed e =
     (case select_terminal e of
        None \<Rightarrow> Inr (e, changed)
      | Some lane \<Rightarrow>
          if lane < length (en_slots e) then
            rbind (settle_terminal terminal_pending lane e) (settle_loop terminal_pending True)
          else Inl OutOfRange)"
  by pat_completeness auto

termination
  by (relation "measure (\<lambda>(terminal_pending, changed, e). occupied e)")
    (auto simp: settle_terminal_def split: option.splits if_splits
          dest!: select_terminal_Some intro!: occupied_remove)

declare settle_loop.simps [simp del]

definition settle_terminal_requests ::
  "bool \<Rightarrow> bool \<Rightarrow> (nat \<Rightarrow> bool) \<Rightarrow> ('o, 'h) engine \<Rightarrow> (('o, 'h) engine \<times> bool) res" where
  "settle_terminal_requests manager_tx program_tx terminal_pending e =
     (if manager_tx \<noteq> program_tx then Inl LogicError
      else if program_tx then Inr (e, False)
      else settle_loop terminal_pending False e)"

definition cancel_row ::
  "(nat \<Rightarrow> bool) \<Rightarrow> nat \<Rightarrow> ('o, 'h) engine \<Rightarrow> ('o, 'h) engine res" where
  "cancel_row cancelled lane e =
     (case en_slots e ! lane of
        None \<Rightarrow> Inr e
      | Some r \<Rightarrow>
          if \<not> cancelled lane \<or> rq_capture_pending r then Inr e
          else if rq_sequence r = None \<or> rq_lane r \<noteq> Some lane then Inl LogicError
          else rbind (if sc_prefill_lane (en_scheduler e) = Some lane
                      then clear_prefill_lane (en_scheduler e) lane
                      else Inr (en_scheduler e))
                 (\<lambda>s. Inr (remove_completed_slot lane (e\<lparr>en_scheduler := s\<rparr>))))"

definition cancel_active_requests ::
  "bool \<Rightarrow> (nat \<Rightarrow> bool) \<Rightarrow> ('o, 'h) engine \<Rightarrow> ('o, 'h) engine res" where
  "cancel_active_requests context_tx cancelled e =
     (if context_tx then Inr e else rfold (cancel_row cancelled) [0..<en_max_concurrency e] e)"

definition fail_all :: "('o, 'h) engine \<Rightarrow> ('o, 'h) engine" where
  "fail_all e =
     e\<lparr>en_failed := True, en_pending := [], en_scheduler := scheduler_reset (en_scheduler e),
       en_materializing := None,
       en_slots := map (\<lambda>lane. if lane < en_max_concurrency e then None else en_slots e ! lane)
                     [0..<length (en_slots e)]\<rparr>"

section \<open>The worker\<close>

text \<open>
  One iteration of \<open>worker_loop\<close> up to the execution unit it dispatches. The record holds what
  the iteration reads from the manager, the program and the clock, in order.
\<close>

record 'h boundary =
  bd_cancelled :: "nat \<Rightarrow> bool"
  bd_late :: "nat \<Rightarrow> bool"
  bd_program_tx :: bool
  bd_kind :: "transaction_kind option"
  bd_outcome :: "'h transaction_outcome"
  bd_tx_after_progress :: bool
  bd_terminal_pending :: "nat \<Rightarrow> bool"
  bd_lane_cancelled :: "nat \<Rightarrow> bool"
  bd_env :: "'h env"
  bd_tx_after_admission :: bool
  bd_lane_cancelled_at_unit :: "nat \<Rightarrow> bool"

datatype ('h, 't) execution_unit =
    ControlUnit "('h, 't) control_membership"
  | PrefillUnit nat
  | DecodeUnit "'h round_membership"
  | NoUnit

definition snapshot_cancellations :: "bool \<Rightarrow> (nat \<Rightarrow> bool) \<Rightarrow> ('o, 'h) engine \<Rightarrow> nat \<Rightarrow> bool" where
  "snapshot_cancellations context_tx flag e lane \<longleftrightarrow>
     \<not> context_tx \<and> lane < en_max_concurrency e \<and> en_slots e ! lane \<noteq> None \<and> flag lane"

definition attempt_admission ::
  "('o \<Rightarrow> nat \<Rightarrow> nat) \<Rightarrow> 'h boundary \<Rightarrow> bool \<Rightarrow> bool \<Rightarrow> ('o, 'h) engine \<Rightarrow> ('o, 'h) engine res" where
  "attempt_admission licensed bd have_pending previous_was_decode e =
     rbind (build_round_membership licensed (en_slots e) (en_max_concurrency e)) (\<lambda>m.
       if should_attempt_admission (en_scheduler e) have_pending (en_admission_check_pending e)
            (rm_lanes m \<noteq> []) previous_was_decode (bd_tx_after_progress bd)
       then (let (e', armed) = consume_admission_check e in
             if armed then rbind (try_admit_one (bd_env bd) e') (\<lambda>(e'', _). Inr e'') else Inr e')
       else Inr e)"

definition prefill_is_runnable :: "('o, 'h) engine \<Rightarrow> bool res" where
  "prefill_is_runnable e =
     (case sc_prefill_lane (en_scheduler e) of
        None \<Rightarrow> Inr False
      | Some lane \<Rightarrow>
          (case en_slots e ! lane of
             None \<Rightarrow> Inl LogicError
           | Some r \<Rightarrow> if \<not> is_prefilling r then Inl LogicError else Inr (\<not> rq_capture_pending r)))"

definition select_unit ::
  "('o \<Rightarrow> nat \<Rightarrow> nat) \<Rightarrow> ('o \<Rightarrow> 't list) \<Rightarrow> bool \<Rightarrow> ('o, 'h) engine \<Rightarrow> ('h, 't) execution_unit res" where
  "select_unit licensed control previous_was_decode e =
     rbind (build_control_membership control (en_slots e) (en_max_concurrency e)) (\<lambda>c.
     if cm_lanes c \<noteq> [] then Inr (ControlUnit c)
     else rbind (build_round_membership licensed (en_slots e) (en_max_concurrency e)) (\<lambda>m.
     rbind (prefill_is_runnable e) (\<lambda>runnable.
       case choose_execution (rm_lanes m \<noteq> []) runnable previous_was_decode of
         DoPrefill \<Rightarrow> Inr (PrefillUnit (the (sc_prefill_lane (en_scheduler e))))
       | DoDecode \<Rightarrow> Inr (DecodeUnit m)
       | DoWait \<Rightarrow> Inr NoUnit)))"

definition worker_boundary ::
  "('o \<Rightarrow> nat \<Rightarrow> nat) \<Rightarrow> ('o \<Rightarrow> 't list) \<Rightarrow> 'h boundary \<Rightarrow> bool \<Rightarrow> ('o, 'h) engine \<Rightarrow>
   (('o, 'h) engine \<times> ('h, 't) execution_unit) res" where
  "worker_boundary licensed control bd previous_was_decode e =
     (let (e1, have_pending) = expire_pending_requests (bd_cancelled bd) (bd_late bd) e in
      rbind (progress_context_transaction (bd_program_tx bd) (bd_kind bd) (bd_outcome bd) e1) (\<lambda>(e2, _).
      rbind (settle_terminal_requests (bd_tx_after_progress bd) (bd_tx_after_progress bd)
               (bd_terminal_pending bd) e2) (\<lambda>(e3, _).
      rbind (cancel_active_requests (bd_tx_after_progress bd)
               (snapshot_cancellations (bd_tx_after_progress bd) (bd_lane_cancelled bd) e3) e3) (\<lambda>e4.
      rbind (attempt_admission licensed bd have_pending previous_was_decode e4) (\<lambda>e5.
      rbind (cancel_active_requests (bd_tx_after_admission bd)
               (snapshot_cancellations (bd_tx_after_admission bd) (bd_lane_cancelled_at_unit bd) e5) e5)
        (\<lambda>e6.
      rbind (select_unit licensed control previous_was_decode e6) (\<lambda>u. Inr (e6, u))))))))"

definition previous_after :: "bool \<Rightarrow> ('h, 't) execution_unit \<Rightarrow> bool" where
  "previous_after previous u =
     (case u of ControlUnit _ \<Rightarrow> True | DecodeUnit _ \<Rightarrow> True | PrefillUnit _ \<Rightarrow> False | NoUnit \<Rightarrow> previous)"

end
