(* ===== verification/EngineSystem.thy ===== *)
theory EngineSystem
  imports Engine "HOL-Library.Multiset"
begin

text \<open>
  The engine as a system: submissions from other threads interleaved with the boundaries of the
  worker and the execution units between them. The invariant says who holds capacity, and what
  a protection promises the head of the queue; \<open>evolves\<close> is the part of a step that outlives it:
  a protection epoch is never reused, its donors are frozen, and once no donor holds capacity any
  more nobody is admitted before the head.
\<close>

section \<open>Who holds capacity\<close>

definition slot_ids :: "('o, 'h) request option \<Rightarrow> nat multiset" where
  "slot_ids x = (case x of None \<Rightarrow> {#} | Some r \<Rightarrow> {#rq_id r#})"

definition pending_ids :: "('o, 'h) engine \<Rightarrow> nat multiset" where
  "pending_ids e = mset (map rq_id (en_pending e))"

definition held_ids :: "('o, 'h) engine \<Rightarrow> nat multiset" where
  "held_ids e = sum_list (map slot_ids (en_slots e)) +
     (case en_materializing e of None \<Rightarrow> {#} | Some c \<Rightarrow> {#rq_id (mz_request c)#})"

definition mz_snapshot :: "('o, 'h) materializing_request \<Rightarrow> active_snapshot" where
  "mz_snapshot c = \<lparr>as_request_id = rq_id (mz_request c), as_backfill_epoch = mz_protection_epoch c,
                    as_backfill_class = mz_backfill_class c\<rparr>"

definition holders :: "('o, 'h) engine \<Rightarrow> active_snapshot set" where
  "holders e = {admission_snapshot r | r. Some r \<in> set (en_slots e)} \<union>
     mz_snapshot ` set_option (en_materializing e)"

definition epoch_rank :: "('o, 'h) engine \<Rightarrow> nat" where
  "epoch_rank e = (let n = sc_next_protection_epoch (en_scheduler e) in
     if n = 0 then uint64_max + 1 else n)"

definition id_rank :: "('o, 'h) engine \<Rightarrow> nat" where
  "id_rank e = (if en_next_request_id e = 0 then uint64_max + 1 else en_next_request_id e)"

abbreviation en_protection :: "('o, 'h) engine \<Rightarrow> admission_protection option" where
  "en_protection e \<equiv> sc_protection (en_scheduler e)"

abbreviation en_head :: "('o, 'h) engine \<Rightarrow> nat option" where
  "en_head e \<equiv> sc_fifo_head_id (en_scheduler e)"

definition live_donors :: "admission_protection \<Rightarrow> ('o, 'h) engine \<Rightarrow> nat set" where
  "live_donors p e = set (ap_donor_ids p) \<inter> set_mset (held_ids e)"

section \<open>Invariant\<close>

definition protects :: "admission_protection \<Rightarrow> ('o, 'h) engine \<Rightarrow> nat multiset \<Rightarrow> bool" where
  "protects p e waiting \<longleftrightarrow>
     en_head e = Some (ap_head_request_id p) \<and> ap_epoch_id p \<noteq> 0 \<and> ap_epoch_id p < epoch_rank e \<and>
     (\<forall>a\<in>holders e. donor_or_borrower p a) \<and>
     set (ap_donor_ids p) \<inter> set_mset waiting = {} \<and> (\<forall>d\<in>set (ap_donor_ids p). d < id_rank e)"

definition engine_inv :: "('o, 'h) engine \<Rightarrow> nat multiset \<Rightarrow> bool" where
  "engine_inv e reserved \<longleftrightarrow>
     length (en_slots e) = kMaximumConcurrency \<and> en_max_concurrency e \<le> kMaximumConcurrency \<and>
     (\<forall>l < kMaximumConcurrency. en_max_concurrency e \<le> l \<longrightarrow> en_slots e ! l = None) \<and>
     (\<forall>i. count (pending_ids e + held_ids e + reserved) i \<le> 1) \<and>
     (\<forall>i\<in>#pending_ids e + held_ids e + reserved. i \<noteq> 0 \<and> i < id_rank e) \<and>
     (\<forall>h. en_head e = Some h \<longrightarrow> en_pending e \<noteq> [] \<and> rq_id (hd (en_pending e)) = h) \<and>
     (\<forall>a\<in>holders e. as_backfill_epoch a < epoch_rank e) \<and>
     (\<forall>p. en_protection e = Some p \<longrightarrow> protects p e (pending_ids e + reserved)) \<and>
     sc_next_protection_epoch (en_scheduler e) \<le> uint64_max \<and> en_next_request_id e \<le> uint64_max"

lemma engine_invD:
  assumes "engine_inv e reserved"
  shows "length (en_slots e) = kMaximumConcurrency" "en_max_concurrency e \<le> kMaximumConcurrency"
    "l < kMaximumConcurrency \<Longrightarrow> en_max_concurrency e \<le> l \<Longrightarrow> en_slots e ! l = None"
    "count (pending_ids e + held_ids e + reserved) i \<le> 1"
    "i \<in># pending_ids e + held_ids e + reserved \<Longrightarrow> i \<noteq> 0 \<and> i < id_rank e"
    "en_head e = Some h \<Longrightarrow> en_pending e \<noteq> [] \<and> rq_id (hd (en_pending e)) = h"
    "a \<in> holders e \<Longrightarrow> as_backfill_epoch a < epoch_rank e"
    "en_protection e = Some p \<Longrightarrow> protects p e (pending_ids e + reserved)"
    "sc_next_protection_epoch (en_scheduler e) \<le> uint64_max"
    "en_next_request_id e \<le> uint64_max"
  using assms unfolding engine_inv_def by (blast | metis)+

section \<open>What a step may do to a protection\<close>

definition continues :: "admission_protection \<Rightarrow> ('o, 'h) engine \<Rightarrow> ('o, 'h) engine \<Rightarrow> bool" where
  "continues q e e' \<longleftrightarrow>
     (\<exists>p. en_protection e = Some p \<and> ap_epoch_id p = ap_epoch_id q \<and>
        ap_head_request_id p = ap_head_request_id q \<and> ap_donor_ids p = ap_donor_ids q \<and>
        live_donors q e' \<subseteq> live_donors q e \<and>
        (live_donors q e = {} \<longrightarrow> set_mset (held_ids e') \<subseteq> set_mset (held_ids e)))"

definition evolves :: "('o, 'h) engine \<Rightarrow> ('o, 'h) engine \<Rightarrow> bool" where
  "evolves e e' \<longleftrightarrow>
     epoch_rank e \<le> epoch_rank e' \<and>
     (\<forall>q. en_protection e' = Some q \<longrightarrow> epoch_rank e \<le> ap_epoch_id q \<or> continues q e e')"

lemma evolves_refl: "evolves e e"
  by (auto simp: evolves_def continues_def)

lemma evolves_trans:
  assumes "evolves e e'" and "evolves e' e''"
  shows "evolves e e''"
proof -
  have mono: "epoch_rank e \<le> epoch_rank e'" "epoch_rank e' \<le> epoch_rank e''"
    using assms by (auto simp: evolves_def)
  have "epoch_rank e \<le> ap_epoch_id q \<or> continues q e e''" if q: "en_protection e'' = Some q" for q
  proof -
    from assms(2) q consider "epoch_rank e' \<le> ap_epoch_id q" | "continues q e' e''"
      by (auto simp: evolves_def)
    then show ?thesis
    proof cases
      case 1
      with mono show ?thesis by simp
    next
      case 2
      then obtain p where p: "en_protection e' = Some p" "ap_epoch_id p = ap_epoch_id q"
        "ap_head_request_id p = ap_head_request_id q" "ap_donor_ids p = ap_donor_ids q"
        by (auto simp: continues_def)
      then have live: "live_donors p = (live_donors q :: ('a, 'b) engine \<Rightarrow> nat set)"
        by (simp add: live_donors_def fun_eq_iff)
      from assms(1) p(1) consider "epoch_rank e \<le> ap_epoch_id p" | "continues p e e'"
        by (auto simp: evolves_def)
      then show ?thesis
      proof cases
        case 1
        with p show ?thesis by simp
      next
        case c: 2
        then obtain p0 where p0: "en_protection e = Some p0" "ap_epoch_id p0 = ap_epoch_id q"
          "ap_head_request_id p0 = ap_head_request_id q" "ap_donor_ids p0 = ap_donor_ids q"
          using p by (auto simp: continues_def)
        have sub: "live_donors q e' \<subseteq> live_donors q e" "live_donors q e'' \<subseteq> live_donors q e'"
          using c 2 live by (auto simp: continues_def)
        have held: "live_donors q e = {} \<longrightarrow> set_mset (held_ids e') \<subseteq> set_mset (held_ids e)"
          "live_donors q e' = {} \<longrightarrow> set_mset (held_ids e'') \<subseteq> set_mset (held_ids e')"
          using c 2 live by (auto simp: continues_def)
        have "live_donors q e = {} \<longrightarrow> set_mset (held_ids e'') \<subseteq> set_mset (held_ids e)"
          using sub(1) held by (metis subset_empty subset_trans)
        with p0 sub show ?thesis
          unfolding continues_def by (meson subset_trans)
      qed
    qed
  qed
  with mono show ?thesis by (auto simp: evolves_def)
qed

section \<open>Two shapes of elementary change\<close>

definition good :: "('o, 'h) engine \<Rightarrow> nat multiset \<Rightarrow> ('o, 'h) engine \<Rightarrow> bool" where
  "good e reserved e' \<longleftrightarrow> engine_inv e' reserved \<and> evolves e e'"

lemma good_refl: "engine_inv e reserved \<Longrightarrow> good e reserved e"
  by (simp add: good_def evolves_refl)

lemma good_trans: "good e reserved e' \<Longrightarrow> good e' reserved e'' \<Longrightarrow> good e reserved e''"
  using evolves_trans by (auto simp: good_def)

text \<open>
  Capacity is given back or changes hands: the queue and the admission state stay, no new
  request holds capacity.
\<close>

definition releases :: "('o, 'h) engine \<Rightarrow> ('o, 'h) engine \<Rightarrow> bool" where
  "releases e e' \<longleftrightarrow>
     en_max_concurrency e' = en_max_concurrency e \<and> en_next_request_id e' = en_next_request_id e \<and>
     en_pending e' = en_pending e \<and> en_head e' = en_head e \<and> en_protection e' = en_protection e \<and>
     sc_next_protection_epoch (en_scheduler e') = sc_next_protection_epoch (en_scheduler e) \<and>
     length (en_slots e') = length (en_slots e) \<and>
     (\<forall>l < length (en_slots e). en_max_concurrency e \<le> l \<longrightarrow> en_slots e ! l = None \<longrightarrow> en_slots e' ! l = None) \<and>
     holders e' \<subseteq> holders e \<and> held_ids e' \<subseteq># held_ids e"

lemma releases_refl: "releases e e"
  by (simp add: releases_def)

lemma releases_trans: "releases e e' \<Longrightarrow> releases e' e'' \<Longrightarrow> releases e e''"
  by (auto simp: releases_def intro: subset_mset.order_trans)

lemma releases_ranks:
  assumes "releases e e'"
  shows "epoch_rank e' = epoch_rank e" "id_rank e' = id_rank e" "pending_ids e' = pending_ids e"
  using assms by (simp_all add: releases_def epoch_rank_def id_rank_def pending_ids_def)

lemma releases_good:
  assumes inv: "engine_inv e reserved" and r: "releases e e'"
  shows "good e reserved e'"
proof -
  note ranks = releases_ranks [OF r]
  have sub: "holders e' \<subseteq> holders e" "held_ids e' \<subseteq># held_ids e"
    using r by (simp_all add: releases_def)
  have ids: "pending_ids e' + held_ids e' + reserved \<subseteq># pending_ids e + held_ids e + reserved"
    using sub ranks by simp
  have "engine_inv e' reserved"
    unfolding engine_inv_def
  proof (intro conjI allI impI ballI)
    show "count (pending_ids e' + held_ids e' + reserved) i \<le> 1" for i
      using engine_invD(4) [OF inv, of i] mset_subset_eq_count [OF ids, of i] by linarith
    show "i \<noteq> 0" "i < id_rank e'" if "i \<in># pending_ids e' + held_ids e' + reserved" for i
      using engine_invD(5) [OF inv mset_subset_eqD [OF ids that]] ranks by simp_all
    show "as_backfill_epoch a < epoch_rank e'" if "a \<in> holders e'" for a
      using engine_invD(7) [OF inv] sub that ranks by auto
    show "protects p e' (pending_ids e' + reserved)" if "en_protection e' = Some p" for p
    proof -
      have "protects p e (pending_ids e + reserved)"
        using engine_invD(8) [OF inv] that r by (simp add: releases_def)
      then show ?thesis
        using sub r unfolding protects_def ranks by (auto simp: releases_def)
    qed
    show "en_pending e' \<noteq> []" "rq_id (hd (en_pending e')) = h" if "en_head e' = Some h" for h
      using engine_invD(6) [OF inv, of h] that r by (simp_all add: releases_def)
  qed (use engine_invD(1-3,9,10) [OF inv] r in \<open>auto simp: releases_def\<close>)
  moreover have "set_mset (held_ids e') \<subseteq> set_mset (held_ids e)"
    using sub(2) by (rule set_mset_mono)
  then have "evolves e e'"
    using r ranks by (auto simp: evolves_def continues_def releases_def live_donors_def)
  ultimately show ?thesis by (simp add: good_def)
qed

text \<open>The queue shrinks or its head is observed: nobody's capacity changes.\<close>

definition requeues :: "('o, 'h) engine \<Rightarrow> ('o, 'h) engine \<Rightarrow> bool" where
  "requeues e e' \<longleftrightarrow>
     en_max_concurrency e' = en_max_concurrency e \<and> en_next_request_id e' = en_next_request_id e \<and>
     en_slots e' = en_slots e \<and> en_materializing e' = en_materializing e \<and>
     sc_next_protection_epoch (en_scheduler e') = sc_next_protection_epoch (en_scheduler e) \<and>
     pending_ids e' \<subseteq># pending_ids e \<and>
     (\<forall>h. en_head e' = Some h \<longrightarrow> en_pending e' \<noteq> [] \<and> rq_id (hd (en_pending e')) = h) \<and>
     (en_protection e' = None \<or> en_protection e' = en_protection e \<and> en_head e' = en_head e)"

lemma requeues_good:
  assumes inv: "engine_inv e reserved" and r: "requeues e e'"
  shows "good e reserved e'"
proof -
  have same: "epoch_rank e' = epoch_rank e" "id_rank e' = id_rank e" "held_ids e' = held_ids e"
    "holders e' = holders e"
    using r by (simp_all add: requeues_def epoch_rank_def id_rank_def held_ids_def holders_def)
  have sub: "pending_ids e' \<subseteq># pending_ids e"
    using r by (simp add: requeues_def)
  then have ids: "pending_ids e' + held_ids e' + reserved \<subseteq># pending_ids e + held_ids e + reserved"
    by (simp add: same)
  have waiting: "set_mset (pending_ids e' + reserved) \<subseteq> set_mset (pending_ids e + reserved)"
    using sub by (intro set_mset_mono) simp
  have "engine_inv e' reserved"
    unfolding engine_inv_def
  proof (intro conjI allI impI ballI)
    show "count (pending_ids e' + held_ids e' + reserved) i \<le> 1" for i
      using engine_invD(4) [OF inv, of i] mset_subset_eq_count [OF ids, of i] by linarith
    show "i \<noteq> 0" "i < id_rank e'" if "i \<in># pending_ids e' + held_ids e' + reserved" for i
      using engine_invD(5) [OF inv mset_subset_eqD [OF ids that]] same by simp_all
    show "as_backfill_epoch a < epoch_rank e'" if "a \<in> holders e'" for a
      using engine_invD(7) [OF inv] that same by auto
    show "protects p e' (pending_ids e' + reserved)" if p: "en_protection e' = Some p" for p
    proof -
      have eq: "en_protection e = Some p" "en_head e' = en_head e"
        using p r by (auto simp: requeues_def)
      show ?thesis
        using engine_invD(8) [OF inv eq(1)] waiting unfolding protects_def eq(2) same by blast
    qed
  qed (use engine_invD(1-3,9,10) [OF inv] r in \<open>auto simp: requeues_def\<close>)
  moreover have "evolves e e'"
    using r same by (auto simp: evolves_def continues_def requeues_def live_donors_def)
  ultimately show ?thesis by (simp add: good_def)
qed

section \<open>Operations on active requests release\<close>

lemma slot_ids_update:
  "l < length xs \<Longrightarrow>
     sum_list (map slot_ids (xs[l := x])) + slot_ids (xs ! l) = sum_list (map slot_ids xs) + slot_ids x"
proof (induction xs arbitrary: l)
  case (Cons y ys)
  show ?case
  proof (cases l)
    case 0
    then show ?thesis by (simp add: add.commute add.left_commute)
  next
    case (Suc k)
    with Cons.prems Cons.IH [of k] show ?thesis by (simp add: add.assoc)
  qed
qed simp

lemma slot_ids_update_None:
  assumes "l < length xs"
  shows "sum_list (map slot_ids (xs[l := None])) \<subseteq># sum_list (map slot_ids xs)"
  using slot_ids_update [OF assms, of None] by (simp add: slot_ids_def) (metis mset_subset_eq_add_left)

lemma slot_ids_update_same:
  assumes "l < length xs" and "slot_ids x = slot_ids (xs ! l)"
  shows "sum_list (map slot_ids (xs[l := x])) = sum_list (map slot_ids xs)"
  using slot_ids_update [OF assms(1), of x] assms(2) by simp

lemma releases_check [simp]: "releases e (request_admission_check e)"
  by (simp add: releases_def request_admission_check_def holders_def held_ids_def)

lemma releases_remove_slot:
  assumes "sc_fifo_head_id s = en_head e" "sc_protection s = en_protection e"
    "sc_next_protection_epoch s = sc_next_protection_epoch (en_scheduler e)"
    and "lane < length (en_slots e)"
  shows "releases e (remove_completed_slot lane (e\<lparr>en_scheduler := s\<rparr>))"
proof -
  have "{r. Some r \<in> set ((en_slots e)[lane := None])} \<subseteq> {r. Some r \<in> set (en_slots e)}"
    using set_update_subset_insert [of "en_slots e" lane None] by auto
  with assms slot_ids_update_None [OF assms(4)] show ?thesis
    by (auto simp: releases_def remove_completed_slot_def request_admission_check_def held_ids_def
          holders_def nth_list_update)
qed

lemma releases_rewrite_slot:
  assumes "lane < length (en_slots e)" "en_slots e ! lane = Some r"
    and "admission_snapshot r' = admission_snapshot r"
  shows "releases e (e\<lparr>en_slots := (en_slots e)[lane := Some r']\<rparr>)"
proof -
  have ids: "slot_ids (Some r') = slot_ids (en_slots e ! lane)"
    using assms by (simp add: slot_ids_def admission_snapshot_def)
  have "admission_snapshot q \<in> holders e" if "Some q \<in> set ((en_slots e)[lane := Some r'])" for q
  proof -
    have "Some q = Some r' \<or> Some q \<in> set (en_slots e)"
      using that set_update_subset_insert [of "en_slots e" lane "Some r'"] by auto
    moreover have "admission_snapshot r' \<in> holders e"
      using assms nth_mem [OF assms(1)] by (auto simp: holders_def)
    ultimately show ?thesis by (auto simp: holders_def)
  qed
  then show ?thesis
    using assms slot_ids_update_same [OF assms(1) ids]
    by (auto simp: releases_def held_ids_def holders_def nth_list_update)
qed

lemma releases_abort_materialization: "releases e (e\<lparr>en_materializing := None\<rparr>)"
  by (auto simp: releases_def holders_def held_ids_def split: option.splits)

lemma releases_adopt:
  assumes "en_materializing e = Some c" "mz_destination c < en_max_concurrency e"
    "en_max_concurrency e \<le> length (en_slots e)" "en_slots e ! mz_destination c = None"
    and "sc_fifo_head_id s = en_head e" "sc_protection s = en_protection e"
    "sc_next_protection_epoch s = sc_next_protection_epoch (en_scheduler e)"
  shows "releases e (e\<lparr>en_slots := (en_slots e)[mz_destination c := Some (adopt_request c h)],
                        en_materializing := None, en_scheduler := s\<rparr>)"
proof -
  let ?l = "mz_destination c" and ?r = "adopt_request c h"
  have l: "?l < length (en_slots e)" using assms by simp
  have snap: "admission_snapshot ?r = mz_snapshot c"
    by (simp add: admission_snapshot_def mz_snapshot_def adopt_request_def)
  have ids: "sum_list (map slot_ids ((en_slots e)[?l := Some ?r])) =
      sum_list (map slot_ids (en_slots e)) + {#rq_id (mz_request c)#}"
    using slot_ids_update [OF l, of "Some ?r"] assms(4) by (simp add: slot_ids_def adopt_request_def)
  have "admission_snapshot q \<in> holders e" if "Some q \<in> set ((en_slots e)[?l := Some ?r])" for q
  proof -
    have "Some q = Some ?r \<or> Some q \<in> set (en_slots e)"
      using that set_update_subset_insert [of "en_slots e" ?l "Some ?r"] by auto
    then show ?thesis
      using snap assms(1) by (auto simp: holders_def)
  qed
  then show ?thesis
    using assms ids by (auto simp: releases_def held_ids_def holders_def nth_list_update)
qed

lemma capture_owner_Some:
  assumes "active_capture_owner e = Inr (Some lane)"
  shows "lane < en_max_concurrency e \<and> en_slots e ! lane \<noteq> None"
proof -
  have "rfold (capture_row slots) ls found = Inr (Some lane) \<Longrightarrow>
      found = Some lane \<or> lane \<in> set ls \<and> slots ! lane \<noteq> None" for ls found and slots :: "('a, 'b) request option list"
  proof (induction ls arbitrary: found)
    case (Cons l ls)
    then obtain f where f: "capture_row slots l found = Inr f" "rfold (capture_row slots) ls f = Inr (Some lane)"
      by (auto simp: rbind_Inr_iff)
    have "f = Some lane \<Longrightarrow> found = Some lane \<or> lane = l \<and> slots ! lane \<noteq> None"
      using f(1) by (auto simp: capture_row_def split: option.splits if_splits)
    with Cons.IH [OF f(2)] show ?case by auto
  qed simp
  from this [OF assms [unfolded active_capture_owner_def]] show ?thesis by auto
qed

lemma progress_releases:
  assumes inv: "engine_inv e reserved"
    and p: "progress_context_transaction has kind outcome e = Inr (e', progress)"
  shows "releases e e'"
proof (cases kind)
  case None
  with p show ?thesis
    by (auto simp: progress_context_transaction_def releases_refl split: if_splits)
next
  case (Some k)
  with p obtain capture where cap: "active_capture_owner e = Inr capture"
    and own: "check_transaction_owner k capture e = Inr ()"
    and out: "(case outcome of
              StillInProgress \<Rightarrow> Inr (e, ControlProgress)
            | MaterializationOutcome status activation \<Rightarrow>
                rbind (materialization_outcome k status activation e) (\<lambda>e'. Inr (e', ControlProgress))
            | ActiveCaptureOutcome status \<Rightarrow>
                rbind (capture_outcome k status capture e) (\<lambda>e'. Inr (e', ControlProgress))) =
          Inr (e', progress)"
    by (auto simp: progress_context_transaction_def rbind_Inr_iff split: if_splits)
  show ?thesis
  proof (cases outcome)
    case StillInProgress
    with out show ?thesis by (simp add: releases_refl)
  next
    case (MaterializationOutcome status activation)
    with out have m: "materialization_outcome k status activation e = Inr e'"
      by (auto simp: rbind_Inr_iff)
    then obtain c where c: "en_materializing e = Some c" "k = MaterializationKind"
      by (auto simp: materialization_outcome_def split: option.splits if_splits)
    show ?thesis
    proof (cases "status = Aborted")
      case True
      with m c have "e' = request_admission_check (e\<lparr>en_materializing := None\<rparr>)"
        by (simp add: materialization_outcome_def split: if_splits)
      then show ?thesis
        using releases_trans [OF releases_abort_materialization releases_check] by simp
    next
      case False
      with m c obtain h sc where h: "activation = Some h"
        and sc: "set_prefill_lane (en_scheduler e) (mz_destination c) = Inr sc"
        and e': "e' = request_admission_check
          (e\<lparr>en_slots := (en_slots e)[mz_destination c := Some (adopt_request c h)],
             en_materializing := None, en_scheduler := sc\<rparr>)"
        by (auto simp: materialization_outcome_def rbind_Inr_iff split: option.splits if_splits)
      have "mz_destination c < en_max_concurrency e" "en_slots e ! mz_destination c = None"
        using own c by (auto simp: check_transaction_owner_def split: if_splits)
      moreover have "sc = (en_scheduler e)\<lparr>sc_prefill_lane := Some (mz_destination c)\<rparr>"
        using sc by (auto simp: set_prefill_lane_def split: if_splits)
      ultimately have "releases e (e\<lparr>en_slots := (en_slots e)[mz_destination c := Some (adopt_request c h)],
             en_materializing := None, en_scheduler := sc\<rparr>)"
        using engine_invD(1,2) [OF inv] c(1) by (intro releases_adopt) auto
      then show ?thesis
        unfolding e' by (rule releases_trans) simp
    qed
  next
    case (ActiveCaptureOutcome status)
    with out have m: "capture_outcome k status capture e = Inr e'"
      by (auto simp: rbind_Inr_iff)
    then obtain lane where lane: "capture = Some lane"
      by (auto simp: capture_outcome_def split: option.splits)
    from capture_owner_Some [OF cap [unfolded lane]] obtain r
      where r: "lane < en_max_concurrency e" "en_slots e ! lane = Some r" by auto
    let ?r = "r\<lparr>rq_capture_pending := False, rq_model_state := rq_post_capture_state r\<rparr>"
    have e': "e' = request_admission_check (e\<lparr>en_slots := (en_slots e)[lane := Some ?r]\<rparr>)"
      using m r lane by (simp add: capture_outcome_def split: if_splits)
    have "releases e (e\<lparr>en_slots := (en_slots e)[lane := Some ?r]\<rparr>)"
      using r engine_invD(1,2) [OF inv]
      by (intro releases_rewrite_slot [of _ _ r]) (auto simp: admission_snapshot_def)
    then show ?thesis
      unfolding e' by (rule releases_trans) simp
  qed
qed

lemma releases_slots_length: "releases e e' \<Longrightarrow> length (en_slots e') = length (en_slots e)"
  by (simp add: releases_def)

lemma settle_loop_releases:
  "settle_loop tp changed e = Inr (e', c) \<Longrightarrow> releases e e'"
proof (induction tp changed e arbitrary: e' c rule: settle_loop.induct)
  case (1 tp changed e)
  show ?case
  proof (cases "select_terminal e")
    case None
    with 1(2) show ?thesis by (simp add: settle_loop.simps [of tp changed e] releases_refl)
  next
    case (Some lane)
    with 1(2) obtain e1 where e1: "settle_terminal tp lane e = Inr e1" "lane < length (en_slots e)"
      and rest: "settle_loop tp True e1 = Inr (e', c)"
      by (auto simp: settle_loop.simps [of tp changed e] rbind_Inr_iff split: if_splits)
    then have "e1 = remove_completed_slot lane e"
      by (auto simp: settle_terminal_def split: option.splits if_splits)
    then have "releases e e1"
      using releases_remove_slot [of "en_scheduler e" e lane] e1(2) by simp
    with 1(1) [OF Some e1(2) e1(1) rest] show ?thesis
      by (blast intro: releases_trans)
  qed
qed

lemma settle_releases:
  "settle_terminal_requests m p tp e = Inr (e', c) \<Longrightarrow> releases e e'"
  by (auto simp: settle_terminal_requests_def releases_refl dest: settle_loop_releases split: if_splits)

lemma cancel_row_releases:
  assumes "cancel_row cancelled lane e = Inr e'" and "lane < length (en_slots e)"
  shows "releases e e'"
proof -
  from assms(1) consider "e' = e"
    | "e' = remove_completed_slot lane (e\<lparr>en_scheduler := en_scheduler e\<rparr>)"
    | "e' = remove_completed_slot lane (e\<lparr>en_scheduler := (en_scheduler e)\<lparr>sc_prefill_lane := None\<rparr>\<rparr>)"
    by (auto simp: cancel_row_def clear_prefill_lane_def split: option.splits if_splits)
  then show ?thesis
  proof cases
    case 1
    then show ?thesis by (simp add: releases_refl)
  next
    case 2
    show ?thesis unfolding 2 using assms(2) by (intro releases_remove_slot) simp_all
  next
    case 3
    show ?thesis unfolding 3 using assms(2) by (intro releases_remove_slot) simp_all
  qed
qed

lemma cancel_releases:
  assumes inv: "engine_inv e reserved" and c: "cancel_active_requests tx cancelled e = Inr e'"
  shows "releases e e'"
proof (cases tx)
  case True
  with c show ?thesis by (simp add: cancel_active_requests_def releases_refl)
next
  case False
  then have sweep: "rfold (cancel_row cancelled) [0..<en_max_concurrency e] e = Inr e'"
    using c by (simp add: cancel_active_requests_def)
  show ?thesis
  proof (rule rfold_invariant [OF sweep releases_refl])
    fix lane e1 e2
    assume lane: "lane \<in> set [0..<en_max_concurrency e]" and r: "releases e e1"
      and row: "cancel_row cancelled lane e1 = Inr e2"
    have "lane < length (en_slots e1)"
      using lane engine_invD(1,2) [OF inv] releases_slots_length [OF r] by simp
    from releases_trans [OF r cancel_row_releases [OF row this]] show "releases e e2" .
  qed
qed

section \<open>Operations on the queue\<close>

lemma mset_erase_request: "mset (map rq_id (erase_request i rs)) \<subseteq># mset (map rq_id rs)"
  by (induction rs) (auto intro: subset_mset.order_trans)

lemma hd_erase_request:
  assumes "rs \<noteq> []" "rq_id (hd rs) \<noteq> i"
  shows "erase_request i rs \<noteq> []" "hd (erase_request i rs) = hd rs"
  using assms by (cases rs; simp)+

lemma requeues_check:
  "requeues e e' \<Longrightarrow> requeues e (request_admission_check e')"
  by (simp add: requeues_def request_admission_check_def pending_ids_def)

text \<open>Removing one request and telling the scheduler, which every removal path does in this order.\<close>

lemma requeues_remove:
  assumes inv: "engine_inv e reserved" and er: "erase_pending r e = (e1, found)"
  shows "requeues e (engine_waiting_removed r e1)"
proof -
  have e1: "e1 = e \<or> e1 = e\<lparr>en_pending := erase_request (rq_id r) (en_pending e)\<rparr>"
    using er by (auto simp: erase_pending_def split: if_splits)
  have "en_pending e1 \<noteq> [] \<and> rq_id (hd (en_pending e1)) = h"
    if "en_head e = Some h" "h \<noteq> rq_id r" for h
    using engine_invD(6) [OF inv that(1)] that(2) e1 hd_erase_request [of "en_pending e" "rq_id r"]
    by auto
  moreover have "pending_ids e1 \<subseteq># pending_ids e"
    using e1 mset_erase_request by (auto simp: pending_ids_def)
  ultimately show ?thesis
    using e1 by (auto simp: requeues_def engine_waiting_removed_def on_waiting_removed_def pending_ids_def)
qed

lemma remove_pending_error_requeues:
  assumes inv: "engine_inv e reserved"
  shows "requeues e (fst (remove_pending_error r e))"
proof -
  obtain e1 found where er: "erase_pending r e = (e1, found)" by force
  have "requeues e e"
    using engine_invD(6) [OF inv] by (simp add: requeues_def)
  with requeues_remove [OF inv er] er show ?thesis
    by (simp add: remove_pending_error_def)
qed

lemma fold_waiting_removed:
  "fold engine_waiting_removed rs e =
     e\<lparr>en_scheduler := fold (\<lambda>r s. on_waiting_removed s (rq_id r)) rs (en_scheduler e)\<rparr>"
  by (induction rs arbitrary: e) (auto simp: engine_waiting_removed_def)

lemma fold_on_waiting_removed:
  "fold (\<lambda>r s. on_waiting_removed s (rq_id r)) rs s =
     (if \<exists>r\<in>set rs. sc_fifo_head_id s = Some (rq_id r)
      then s\<lparr>sc_fifo_head_id := None, sc_protection := None\<rparr> else s)"
  by (induction rs arbitrary: s) (auto simp: on_waiting_removed_def)

lemma expire_requeues:
  assumes inv: "engine_inv e reserved" and x: "expire_pending_requests cancelled late e = (e', b)"
  shows "requeues e e'"
proof -
  define gone where "gone = filter (\<lambda>r. cancelled (rq_id r)) (en_pending e) @
                 filter (\<lambda>r. \<not> cancelled (rq_id r) \<and> late (rq_id r)) (en_pending e)"
  define kept where "kept = filter (\<lambda>r. \<not> cancelled (rq_id r) \<and> \<not> late (rq_id r)) (en_pending e)"
  define sc where "sc = fold (\<lambda>r s. on_waiting_removed s (rq_id r)) gone (en_scheduler e)"
  let ?e = "e\<lparr>en_pending := kept, en_scheduler := sc\<rparr>"
  have e': "e' = request_admission_check ?e \<or> e' = ?e"
    using x by (auto simp: expire_pending_requests_def Let_def fold_waiting_removed gone_def [symmetric]
        kept_def [symmetric] sc_def split: if_splits)
  have head: "kept \<noteq> [] \<and> rq_id (hd kept) = h"
    if h: "en_head e = Some h" "\<not> (\<exists>r\<in>set gone. en_head e = Some (rq_id r))" for h
  proof -
    from engine_invD(6) [OF inv h(1)] obtain r rs where "en_pending e = r # rs" "rq_id r = h"
      by (cases "en_pending e") auto
    moreover from this h have "r \<notin> set gone" by auto
    moreover have "r \<in> set gone \<longleftrightarrow> r \<in> set (en_pending e) \<and> (cancelled (rq_id r) \<or> late (rq_id r))"
      by (auto simp: gone_def)
    ultimately have "\<not> cancelled (rq_id r) \<and> \<not> late (rq_id r)" by simp
    with \<open>en_pending e = r # rs\<close> \<open>rq_id r = h\<close> show ?thesis by (simp add: kept_def)
  qed
  have "mset (map rq_id kept) \<subseteq># mset (map rq_id (en_pending e))"
    unfolding kept_def by (simp add: image_mset_subseteq_mono)
  then have "requeues e ?e"
    using head by (auto simp: requeues_def sc_def fold_on_waiting_removed pending_ids_def)
  with e' requeues_check show ?thesis by auto
qed

lemma observe_requeues:
  assumes "engine_inv e reserved" and "en_pending e = [] \<Longrightarrow> i = None"
    and "en_pending e \<noteq> [] \<Longrightarrow> i = Some (rq_id (hd (en_pending e)))"
  shows "requeues e (e\<lparr>en_scheduler := observe_fifo_head (en_scheduler e) i\<rparr>)"
  using assms by (cases "en_pending e") (auto simp: requeues_def observe_fifo_head_def pending_ids_def)

section \<open>Admission\<close>

lemma sum_list_filter_mset:
  assumes "\<And>l. l \<in> set ls \<Longrightarrow> f l = (if P l then {#g l#} else {#})"
  shows "sum_list (map f ls) = mset (map g (filter P ls))"
  using assms by (induction ls) auto

text \<open>With no materialization in flight, the admission set of the scheduler is exactly who holds capacity.\<close>

lemma active_admission_set_holders:
  assumes inv: "engine_inv e reserved" and mz: "en_materializing e = None"
    and act: "active_admission_set (en_slots e) (en_max_concurrency e) = Inr active"
  shows "set active = holders e" and "mset (map as_request_id active) = held_ids e"
proof -
  let ?n = "en_max_concurrency e" and ?xs = "en_slots e"
  have len: "length ?xs = 8" "?n \<le> 8" using engine_invD(1,2) [OF inv] by simp_all
  have active: "active = map (\<lambda>l. admission_snapshot (the (?xs ! l))) (filter (\<lambda>l. ?xs ! l \<noteq> None) [0..<?n])"
    using active_admission_set_eq [OF act] by (simp add: active_member_def [abs_def])
  have filt: "filter (\<lambda>l. ?xs ! l \<noteq> None) [0..<8] = filter (\<lambda>l. ?xs ! l \<noteq> None) [0..<?n]"
  proof -
    have "[0..<8] = [0..<?n] @ [?n..<8]" using len(2) by (metis le0 upt_add_eq_append le_add_diff_inverse)
    moreover have "filter (\<lambda>l. ?xs ! l \<noteq> None) [?n..<8] = []"
      using engine_invD(3) [OF inv] by (auto simp: filter_empty_conv)
    ultimately show ?thesis by simp
  qed
  have "sum_list (map slot_ids ?xs) = sum_list (map (\<lambda>l. slot_ids (?xs ! l)) [0..<8])"
    using len(1) by (metis (no_types, lifting) map_nth map_map o_def list.map_cong0)
  also have "\<dots> = mset (map (\<lambda>l. rq_id (the (?xs ! l))) (filter (\<lambda>l. ?xs ! l \<noteq> None) [0..<8]))"
    by (rule sum_list_filter_mset) (auto simp: slot_ids_def)
  also have "\<dots> = mset (map as_request_id active)"
    unfolding active filt by (simp add: admission_snapshot_def o_def)
  finally show "mset (map as_request_id active) = held_ids e"
    using mz by (simp add: held_ids_def)
  have "set active = {admission_snapshot r | r. \<exists>l<8. ?xs ! l = Some r}"
    unfolding active filt [symmetric] by (auto simp: image_iff) (metis option.sel)+
  then show "set active = holders e"
    using mz len(1) by (auto simp: holders_def in_set_conv_nth)
qed

lemma active_partition_ids:
  assumes inv: "engine_inv e reserved" and mz: "en_materializing e = None"
    and act: "active_admission_set (en_slots e) (en_max_concurrency e) = Inr active"
    and head: "en_head e = Some h"
  shows "distinct (map as_request_id active)" "length active \<le> kMaximumConcurrency"
    "a \<in> set active \<Longrightarrow> as_request_id a \<noteq> 0 \<and> as_request_id a \<noteq> h \<and> as_request_id a < id_rank e"
proof -
  note ids = active_admission_set_holders(2) [OF inv mz act]
  have "count (held_ids e) i \<le> 1" for i
    using engine_invD(4) [OF inv, of i] by simp
  then show "distinct (map as_request_id active)"
    unfolding distinct_count_atmost_1 ids [symmetric] by (metis One_nat_def count_greater_zero_iff
        count_mset_0_iff le_antisym less_one nat_less_le not_less set_mset_mset count_inI)
  show "length active \<le> kMaximumConcurrency"
    using active_admission_set_eq [OF act] engine_invD(2) [OF inv]
    by (metis (no_types, lifting) diff_zero le_trans length_filter_le length_map length_upt)
  show "as_request_id a \<noteq> 0 \<and> as_request_id a \<noteq> h \<and> as_request_id a < id_rank e" if "a \<in> set active"
  proof -
    have held: "as_request_id a \<in># held_ids e"
      using that by (simp add: ids [symmetric])
    have "h \<in># pending_ids e"
      using engine_invD(6) [OF inv head] by (cases "en_pending e") (auto simp: pending_ids_def)
    then have "0 < count (pending_ids e) h" by (simp only: count_greater_zero_iff)
    moreover have "count (pending_ids e) h + count (held_ids e) h \<le> 1"
      using engine_invD(4) [OF inv, of h] by simp
    ultimately have "count (held_ids e) h = 0" by linarith
    then have "h \<notin># held_ids e" by (simp only: not_in_iff)
    with held engine_invD(5) [OF inv, of "as_request_id a"] show ?thesis by auto
  qed
qed

lemma protected_donor_or_borrower:
  assumes inv: "engine_inv e reserved" and p: "en_protection e = Some p" and a: "a \<in> holders e"
  shows "donor_or_borrower p a"
  using engine_invD(8) [OF inv p] a by (auto simp: protects_def)

text \<open>Rebinding an open protection never throws: the partition it revalidates is the invariant.\<close>

lemma rebind_succeeds:
  assumes inv: "engine_inv e reserved" and mz: "en_materializing e = None"
    and act: "active_admission_set (en_slots e) (en_max_concurrency e) = Inr active"
    and p: "en_protection e = Some p" and r: "revn \<noteq> 0"
  shows "rebind_admission_protection p active revn = Inr (p\<lparr>ap_resource_revision := revn\<rparr>)"
proof -
  have pr: "en_head e = Some (ap_head_request_id p)" "ap_epoch_id p \<noteq> 0"
    using engine_invD(8) [OF inv p] by (auto simp: protects_def)
  note ids = active_partition_ids [OF inv mz act pr(1)]
  have "rq_id (hd (en_pending e)) = ap_head_request_id p" "en_pending e \<noteq> []"
    using engine_invD(6) [OF inv pr(1)] by simp_all
  then have "ap_head_request_id p \<in># pending_ids e"
    by (cases "en_pending e") (auto simp: pending_ids_def)
  then have "ap_head_request_id p \<noteq> 0"
    using engine_invD(5) [OF inv] by simp
  moreover have "donor_or_borrower p a" if "a \<in> set active" for a
    using protected_donor_or_borrower [OF inv p] that active_admission_set_holders(1) [OF inv mz act]
    by simp
  ultimately show ?thesis
    using ids pr r by (simp add: rebind_admission_protection_iff validate_active_partition_iff)
qed

text \<open>Freezing succeeds while the epoch counter is not exhausted.\<close>

lemma freeze_succeeds:
  assumes inv: "engine_inv e reserved" and mz: "en_materializing e = None"
    and act: "active_admission_set (en_slots e) (en_max_concurrency e) = Inr active"
    and "active \<noteq> []" and h: "en_head e = Some h" and "revn \<noteq> 0"
    and "sc_next_protection_epoch (en_scheduler e) \<noteq> 0"
  shows "make_admission_protection (sc_next_protection_epoch (en_scheduler e)) h revn active =
    Inr \<lparr>ap_epoch_id = sc_next_protection_epoch (en_scheduler e), ap_head_request_id = h,
         ap_resource_revision = revn, ap_donor_ids = map as_request_id active\<rparr>"
proof -
  have "h \<in># pending_ids e"
    using engine_invD(6) [OF inv h] by (cases "en_pending e") (auto simp: pending_ids_def)
  then have "h \<noteq> 0" using engine_invD(5) [OF inv] by simp
  with assms active_partition_ids [OF inv mz act h] show ?thesis
    by (simp add: make_admission_protection_iff)
qed

lemma held_not_waiting:
  assumes inv: "engine_inv e reserved" and "i \<in># held_ids e"
  shows "i \<notin># pending_ids e + reserved"
proof -
  have "0 < count (held_ids e) i" using assms(2) by (simp only: count_greater_zero_iff)
  moreover have "count (pending_ids e + reserved) i + count (held_ids e) i \<le> 1"
    using engine_invD(4) [OF inv, of i] by simp
  ultimately have "count (pending_ids e + reserved) i = 0" by linarith
  then show ?thesis by (simp only: not_in_iff)
qed

lemma epoch_advance:
  assumes "n \<noteq> 0" "n \<le> uint64_max"
  shows "n < (if u64_add n 1 = 0 then uint64_max + 1 else u64_add n 1)"
  using assms by (cases "n = uint64_max") (auto simp: u64_add_def)

lemma protect_live_iff:
  assumes inv: "engine_inv e reserved" and mz: "en_materializing e = None"
    and act: "active_admission_set (en_slots e) (en_max_concurrency e) = Inr active"
  shows "protection_has_live_donor p active \<longleftrightarrow> live_donors p e \<noteq> {}"
proof -
  have "as_request_id ` set active = set_mset (held_ids e)"
    using active_admission_set_holders(2) [OF inv mz act] by (metis set_map set_mset_mset)
  then show ?thesis by (simp add: live_donor_iff live_donors_def)
qed

lemma protect_good:
  assumes inv: "engine_inv e reserved" and mz: "en_materializing e = None"
    and act: "active_admission_set (en_slots e) (en_max_concurrency e) = Inr active"
    and pb: "protect_blocked_head (en_scheduler e) i active revn = (s, Inr live)"
  shows "good e reserved (e\<lparr>en_scheduler := s\<rparr>)"
proof -
  let ?e = "e\<lparr>en_scheduler := s\<rparr>"
  let ?n = "sc_next_protection_epoch (en_scheduler e)"
  have head: "en_head e = Some i"
    using pb by (auto simp: protect_blocked_head_def split: if_splits)
  have same: "pending_ids ?e = pending_ids e" "held_ids ?e = held_ids e" "holders ?e = holders e"
    "id_rank ?e = id_rank e" "en_slots ?e = en_slots e" "en_pending ?e = en_pending e"
    "en_max_concurrency ?e = en_max_concurrency e" "en_scheduler ?e = s"
    by (simp_all add: pending_ids_def held_ids_def holders_def id_rank_def)
  show ?thesis
  proof (cases "en_protection e")
    case None
    with pb head obtain p where p: "make_admission_protection ?n i revn active = Inr p"
      and s: "s = (en_scheduler e)\<lparr>sc_next_protection_epoch := u64_add ?n 1, sc_protection := Some p\<rparr>"
      by (auto simp: protect_blocked_head_def Let_def split: sum.splits)
    then have pn: "p = \<lparr>ap_epoch_id = ?n, ap_head_request_id = i, ap_resource_revision = revn,
        ap_donor_ids = map as_request_id active\<rparr>" "?n \<noteq> 0"
      by (simp_all add: make_admission_protection_iff)
    have rank: "epoch_rank e = ?n" "?n < epoch_rank ?e"
      using epoch_advance [OF pn(2) engine_invD(9) [OF inv]] pn(2) s
      by (simp_all add: epoch_rank_def Let_def split: if_splits)
    have donors: "set (ap_donor_ids p) = set_mset (held_ids e)"
      using active_admission_set_holders(2) [OF inv mz act] pn(1)
      by (metis admission_protection.select_convs(4) set_mset_mset)
    have "donor_or_borrower p a" if "a \<in> holders e" for a
    proof -
      have "a \<in> set active" using that active_admission_set_holders(1) [OF inv mz act] by simp
      moreover have "as_backfill_epoch a \<noteq> ap_epoch_id p"
        using engine_invD(7) [OF inv that] rank(1) pn(1) by simp
      ultimately show ?thesis using pn(1) by (auto simp: donor_or_borrower_def is_donor_def)
    qed
    moreover have "set (ap_donor_ids p) \<inter> set_mset (pending_ids e + reserved) = {}"
      using held_not_waiting [OF inv] unfolding donors by blast
    moreover have "d < id_rank e" if "d \<in> set (ap_donor_ids p)" for d
      using engine_invD(5) [OF inv, of d] that unfolding donors by simp
    ultimately have "protects p ?e (pending_ids e + reserved)"
      using rank pn head s unfolding protects_def same by (auto simp: s)
    moreover have "as_backfill_epoch a < epoch_rank ?e" if "a \<in> holders e" for a
      using engine_invD(7) [OF inv that] rank by simp
    ultimately have "engine_inv ?e reserved"
      using engine_invD(1-6,10) [OF inv] head unfolding engine_inv_def same
      by (auto simp: s u64_add_def)
    moreover have "evolves e ?e"
      using rank pn s by (simp add: evolves_def)
    ultimately show ?thesis by (simp add: good_def)
  next
    case (Some p)
    with pb head have "revn \<noteq> 0" "ap_head_request_id p = i"
      by (auto simp: protect_blocked_head_def rebind_admission_protection_def split: sum.splits if_splits)
    with pb head Some rebind_succeeds [OF inv mz act Some]
    have s: "s = (en_scheduler e)\<lparr>sc_protection := Some (p\<lparr>ap_resource_revision := revn\<rparr>)\<rparr>"
      by (simp add: protect_blocked_head_def)
    have rank: "epoch_rank ?e = epoch_rank e" by (simp add: epoch_rank_def s)
    have db: "donor_or_borrower (p\<lparr>ap_resource_revision := revn\<rparr>) a \<longleftrightarrow> donor_or_borrower p a" for a
      by (simp add: donor_or_borrower_def is_donor_def)
    have "protects (p\<lparr>ap_resource_revision := revn\<rparr>) ?e (pending_ids e + reserved)"
      using engine_invD(8) [OF inv Some] unfolding protects_def same rank by (simp add: s db)
    then have "engine_inv ?e reserved"
      using engine_invD(1-7,9,10) [OF inv] unfolding engine_inv_def same rank by (auto simp: s)
    moreover have "evolves e ?e"
      using Some rank same by (simp add: evolves_def continues_def s live_donors_def)
    ultimately show ?thesis by (simp add: good_def)
  qed
qed

lemma erase_pending_found:
  assumes "erase_pending r e = (e1, True)"
  shows "e1 = e\<lparr>en_pending := erase_request (rq_id r) (en_pending e)\<rparr>"
    "pending_ids e = add_mset (rq_id r) (pending_ids e1)"
proof -
  show e1: "e1 = e\<lparr>en_pending := erase_request (rq_id r) (en_pending e)\<rparr>"
    using assms by (auto simp: erase_pending_def split: if_splits)
  have "list_ex (\<lambda>q. rq_id q = rq_id r) (en_pending e)"
    using assms by (auto simp: erase_pending_def split: if_splits)
  moreover have "list_ex (\<lambda>q. rq_id q = i) rs \<Longrightarrow>
      mset (map rq_id rs) = add_mset i (mset (map rq_id (erase_request i rs)))"
    for i and rs :: "('a, 'b) request list"
    by (induction rs) (auto simp: add_mset_commute)
  ultimately show "pending_ids e = add_mset (rq_id r) (pending_ids e1)"
    unfolding e1 pending_ids_def by simp
qed

text \<open>A granted request moves from the queue to the materialization record.\<close>

lemma commit_good:
  assumes inv: "engine_inv e reserved" and mz: "en_materializing e = None"
    and er: "erase_pending r e = (e1, True)"
    and g: "ag_request_id g = rq_id r"
    and com: "commit_admission (en_scheduler e) g = Inr (s, g')"
    and auth: "\<And>p. ag_backfill_class g = Persistent \<Longrightarrow> en_protection e = Some p \<Longrightarrow> live_donors p e \<noteq> {}"
    and c: "rq_id (mz_request c) = rq_id r" "mz_backfill_class c = ag_backfill_class g"
      "mz_protection_epoch c = ag_protection_epoch g"
  shows "good e reserved (e1\<lparr>en_materializing := Some c, en_scheduler := s\<rparr>)"
proof -
  let ?e = "e1\<lparr>en_materializing := Some c, en_scheduler := s\<rparr>"
  let ?i = "rq_id r"
  note e1 = erase_pending_found [OF er]
  have valid: "validate_grant (en_scheduler e) g"
    using com by (simp add: commit_admission_iff)
  have held: "held_ids ?e = add_mset ?i (held_ids e)"
    using mz c by (simp add: held_ids_def e1(1))
  have pend: "pending_ids ?e = pending_ids e1" by (simp add: pending_ids_def)
  have ids: "pending_ids ?e + held_ids ?e + reserved = pending_ids e + held_ids e + reserved"
    by (simp add: held e1(2) pend)
  have holders: "holders ?e = insert (mz_snapshot c) (holders e)"
    using mz by (simp add: holders_def e1(1))
  have same: "id_rank ?e = id_rank e" "en_slots ?e = en_slots e" "en_max_concurrency ?e = en_max_concurrency e"
    "en_scheduler ?e = s" "en_pending ?e = erase_request ?i (en_pending e)"
    "en_next_request_id ?e = en_next_request_id e"
    by (simp_all add: e1(1) id_rank_def)
  have waiting: "?i \<in># pending_ids e" by (simp add: e1(2))
  show ?thesis
  proof (cases "ag_backfill_class g")
    case NoBackfill
    then have s: "s = (en_scheduler e)\<lparr>sc_fifo_head_id := None, sc_protection := None\<rparr>"
      and "ag_protection_epoch g = 0"
      using com valid by (simp_all add: commit_admission_iff validate_head_grant)
    have rank: "epoch_rank ?e = epoch_rank e" "0 < epoch_rank e"
      by (simp_all add: epoch_rank_def s Let_def)
    have "as_backfill_epoch a < epoch_rank e" if "a \<in> holders ?e" for a
      using that engine_invD(7) [OF inv] rank(2) \<open>ag_protection_epoch g = 0\<close> c
      unfolding holders by (auto simp: mz_snapshot_def)
    then have "engine_inv ?e reserved"
      using engine_invD(1-5,9,10) [OF inv] unfolding engine_inv_def ids same rank
      by (auto simp: s)
    moreover have "evolves e ?e"
      using rank by (simp add: evolves_def s)
    ultimately show ?thesis by (simp add: good_def)
  next
    case Persistent
    with com valid obtain p where p: "en_protection e = Some p"
      and s: "s = en_scheduler e" and "en_head e = Some (ap_head_request_id p)"
      "ap_epoch_id p = ag_protection_epoch g" "?i \<noteq> ap_head_request_id p"
      using g by (auto simp: commit_admission_iff validate_backfill_grant)
    have pr: "protects p e (pending_ids e + reserved)" by (rule engine_invD(8) [OF inv p])
    have rank: "epoch_rank ?e = epoch_rank e" by (simp add: epoch_rank_def s)
    have "?i \<notin> set (ap_donor_ids p)"
      using pr waiting by (auto simp: protects_def)
    then have new: "donor_or_borrower p (mz_snapshot c)"
      using Persistent c \<open>ap_epoch_id p = ag_protection_epoch g\<close>
      by (simp add: donor_or_borrower_def is_donor_def mz_snapshot_def)
    have sub: "set_mset (pending_ids ?e + reserved) \<subseteq> set_mset (pending_ids e + reserved)"
      by (auto simp: e1(2) pend)
    have "set (ap_donor_ids p) \<inter> set_mset (pending_ids e + reserved) = {}"
      using pr by (simp only: protects_def)
    with sub have "set (ap_donor_ids p) \<inter> set_mset (pending_ids ?e + reserved) = {}"
      by (meson disjoint_iff subsetD)
    then have "protects p ?e (pending_ids ?e + reserved)"
      using pr new unfolding protects_def holders rank same by (simp only: s ball_simps simp_thms) blast
    moreover have "as_backfill_epoch a < epoch_rank e" if "a \<in> holders ?e" for a
      using that engine_invD(7) [OF inv] pr \<open>ap_epoch_id p = ag_protection_epoch g\<close> c
      unfolding holders protects_def by (auto simp: mz_snapshot_def)
    moreover have "en_pending ?e \<noteq> [] \<and> rq_id (hd (en_pending ?e)) = h" if "en_head e = Some h" for h
      using engine_invD(6) [OF inv that] that \<open>en_head e = Some (ap_head_request_id p)\<close>
        \<open>?i \<noteq> ap_head_request_id p\<close> hd_erase_request [of "en_pending e" ?i]
      unfolding same by auto
    ultimately have "engine_inv ?e reserved"
      using engine_invD(1-5,9,10) [OF inv] p unfolding engine_inv_def ids rank same
      by (simp add: s del: set_mset_union)
    moreover have "live_donors p ?e = live_donors p e"
      using \<open>?i \<notin> set (ap_donor_ids p)\<close> by (auto simp: live_donors_def held)
    then have "evolves e ?e"
      using auth [OF Persistent p] p rank by (simp add: evolves_def continues_def s)
    ultimately show ?thesis by (simp add: good_def)
  qed
qed

lemma good_check: "good e reserved e' \<Longrightarrow> good e reserved (request_admission_check e')"
  by (meson good_def good_trans releases_check releases_good)

lemma admit_good:
  assumes inv: "engine_inv e reserved" and mz: "en_materializing e = None"
    and auth: "\<And>p. ag_backfill_class g = Persistent \<Longrightarrow> en_protection e = Some p \<Longrightarrow> live_donors p e \<noteq> {}"
    and ad: "admit_planned_request env r ch g e = Inr (e', progress)"
  shows "good e reserved e'"
proof -
  obtain e1 found where er: "erase_pending r e = (e1, found)" by force
  have removed: "good e reserved (request_admission_check (engine_waiting_removed r e1))"
    using requeues_good [OF inv requeues_remove [OF inv er]] by (rule good_check)
  have failed: "good e reserved (fst (remove_pending_error r e))"
    by (rule requeues_good [OF inv remove_pending_error_requeues [OF inv]])
  obtain e2 pr where pe: "remove_pending_error r e = (e2, pr)" by force
  note self = good_refl [OF inv]
  consider "e' = e" | "e' = e2" | "e' = request_admission_check e2" | "e' = request_admission_check e"
    | "e' = request_admission_check (engine_waiting_removed r e1)"
    | budget s g' where "found" "ag_request_id g = rq_id r"
      "commit_admission (en_scheduler e1) g = Inr (s, g')"
      "progress_context_transaction True (Some MaterializationKind) (ev_first_outcome env)
         (e1\<lparr>en_materializing := Some (granted_materialization r ch g budget), en_scheduler := s\<rparr>) =
       Inr (e', progress)"
    using ad by (auto simp: admit_planned_request_def granted_materialization_def Let_def er pe
        rbind_Inr_iff split: if_split_asm reserve_result.split_asm prod.split_asm)
  then show ?thesis
  proof cases
    case (6 budget s g')
    have "en_scheduler e1 = en_scheduler e"
      using erase_pending_found(1) [of r e e1] er 6(1) by simp
    then have "good e reserved
        (e1\<lparr>en_materializing := Some (granted_materialization r ch g budget), en_scheduler := s\<rparr>)"
      using 6 er by (intro commit_good [OF inv mz _ _ _ auth]) (auto simp: granted_materialization_def)
    with progress_releases [OF _ 6(4)] releases_good show ?thesis
      by (meson good_def good_trans)
  qed (use self failed removed good_check pe in auto)
qed

lemma requeues_capacity:
  "requeues e e' \<Longrightarrow> held_ids e' = held_ids e \<and> en_materializing e' = en_materializing e"
  by (simp add: requeues_def held_ids_def)

text \<open>A qualified borrower is admitted only while a frozen donor still holds capacity.\<close>

lemma qualified_live:
  assumes "qualify_backfill (en_scheduler e) i quanta active revn = Inr (Some g)"
    and "as_request_id ` set active = set_mset (held_ids e)" and "en_protection e = Some p"
  shows "live_donors p e \<noteq> {}"
  using qualify_backfill_Some [OF assms(1)] assms(2,3)
  by (auto simp: persistent_backfill_iff live_donors_def)

lemma backfill_scan_good:
  assumes "engine_inv e reserved" and "en_materializing e = None"
    and "as_request_id ` set active = set_mset (held_ids e)"
    and "backfill_scan env head active borrowers b cs e = Inr (e', progress)"
  shows "good e reserved e'"
  using assms
proof (induction cs arbitrary: e b)
  case Nil
  then show ?case by (simp add: good_refl)
next
  case (Cons c cs)
  let ?i = "rq_id c"
  obtain e1 found where er: "erase_pending c e = (e1, found)" by force
  have step: "good e reserved e'"
    if q: "requeues e e2" and rest: "backfill_scan env head active borrowers b2 cs e2 = Inr (e', progress)"
    for e2 b2
  proof -
    have g: "good e reserved e2" by (rule requeues_good [OF Cons.prems(1) q])
    then have "good e2 reserved e'"
      using Cons.IH [OF _ _ _ rest] requeues_capacity [OF q] Cons.prems(2,3) by (simp add: good_def)
    with g show ?thesis by (rule good_trans)
  qed
  have self: "requeues e e"
    using engine_invD(6) [OF Cons.prems(1)] by (simp add: requeues_def)
  note removed = requeues_remove [OF Cons.prems(1) er]
  note failed = remove_pending_error_requeues [OF Cons.prems(1), of c]
  consider (skip) b2 where "backfill_scan env head active borrowers b2 cs e = Inr (e', progress)"
    | (cancel) b2 where "backfill_scan env head active borrowers b2 cs (engine_waiting_removed c e1) = Inr (e', progress)"
    | (fail) b2 where "backfill_scan env head active borrowers b2 cs (fst (remove_pending_error c e)) = Inr (e', progress)"
    | (admit) ch revn g where "qualify_backfill (en_scheduler e) ?i (pc_service_work_quanta ch) active revn = Inr (Some g)"
      "admit_planned_request env c ch g e = Inr (e', progress)"
    using Cons.prems(4)
    by (auto simp: Let_def er rbind_Inr_iff split: if_split_asm prod.split_asm option.split_asm)
  then show ?case
  proof cases
    case skip
    with step [OF self] show ?thesis by blast
  next
    case cancel
    with step [OF removed] show ?thesis by blast
  next
    case fail
    with step [OF failed] show ?thesis by blast
  next
    case admit
    then show ?thesis
      using admit_good [OF Cons.prems(1,2) qualified_live [OF admit(1) Cons.prems(3)] admit(2)]
      by blast
  qed
qed

lemma blocked_head_good:
  assumes inv: "engine_inv e reserved" and mz: "en_materializing e = None"
    and bh: "blocked_head env b head rest e = Inr (e', progress)"
  shows "good e reserved e'"
proof -
  from bh obtain active where act: "active_admission_set (en_slots e) (en_max_concurrency e) = Inr active"
    by (auto simp: blocked_head_def rbind_Inr_iff)
  obtain s outcome where out:
    "protect_blocked_head (en_scheduler e) (rq_id head) active (ev_resource_revision env) = (s, outcome)"
    by force
  from bh have "active \<noteq> []" by (auto simp: blocked_head_def act)
  with bh out obtain live where live: "outcome = Inr live"
    by (cases outcome) (simp_all add: blocked_head_def act)
  note pb = out [unfolded live]
  have res: "e' = e\<lparr>en_scheduler := s\<rparr> \<or>
      (\<exists>borrowers. backfill_scan env (rq_id head) active borrowers b rest (e\<lparr>en_scheduler := s\<rparr>) = Inr (e', progress))"
    using bh \<open>active \<noteq> []\<close>
    by (auto simp: blocked_head_def act pb Let_def rbind_Inr_iff split: if_splits option.splits)
  let ?e = "e\<lparr>en_scheduler := s\<rparr>"
  have g: "good e reserved ?e" by (rule protect_good [OF inv mz act pb])
  have "as_request_id ` set active = set_mset (held_ids ?e)"
    using active_admission_set_holders(2) [OF inv mz act]
    by (metis (no_types, lifting) engine.select_convs(9,10) engine.surjective engine.update_convs(11)
        held_ids_def list.set_map set_mset_mset)
  then have "good ?e reserved e'" if "\<exists>borrowers. backfill_scan env (rq_id head) active borrowers b rest ?e = Inr (e', progress)"
    using that backfill_scan_good [of ?e reserved active] g mz by (auto simp: good_def)
  with g res show ?thesis by (meson good_trans)
qed

lemma try_admit_loop_good:
  "engine_inv e reserved \<Longrightarrow> en_materializing e = None \<Longrightarrow>
   try_admit_loop env b e = Inr (e', progress) \<Longrightarrow> good e reserved e'"
proof (induction env b e arbitrary: e' progress rule: try_admit_loop.induct)
  case (1 env b e)
  show ?case
  proof (cases "en_pending e")
    case Nil
    have "requeues e (e\<lparr>en_scheduler := observe_fifo_head (en_scheduler e) None\<rparr>)"
      by (rule observe_requeues [OF 1(2)]) (simp_all add: Nil)
    with requeues_good [OF 1(2)] 1(4) Nil show ?thesis
      by (simp add: try_admit_loop.simps [of env b e])
  next
    case (Cons head rest)
    let ?i = "rq_id head"
    let ?e1 = "e\<lparr>en_scheduler := observe_fifo_head (en_scheduler e) (Some ?i)\<rparr>"
    let ?e2 = "engine_waiting_removed head (?e1\<lparr>en_pending := rest\<rparr>)"
    have q1: "requeues e ?e1"
      by (rule observe_requeues [OF 1(2)]) (simp_all add: Cons)
    have g1: "good e reserved ?e1" by (rule requeues_good [OF 1(2) q1])
    then have inv1: "engine_inv ?e1 reserved" by (simp add: good_def)
    have "erase_pending head ?e1 = (?e1\<lparr>en_pending := rest\<rparr>, True)"
      by (simp add: erase_pending_def Cons)
    from requeues_remove [OF inv1 this] have q2: "requeues ?e1 ?e2" .
    have g2: "good e reserved ?e2"
      by (rule good_trans [OF g1 requeues_good [OF inv1 q2]])
    let ?drop = "ev_cancelled env ?i \<or> ev_expired env ?i \<or> ev_plan_fails env ?i \<or>
              fst (ev_inspect env ?i) = PermanentlyInfeasible"
    consider (drop) "?drop" "try_admit_loop env True ?e2 = Inr (e', progress)"
      | (admit) ch g where "grant_head (en_scheduler ?e1) ?i (pc_service_work_quanta ch) = Inr g"
        "admit_planned_request env head ch g ?e1 = Inr (e', progress)"
      | (block) "blocked_head env b head rest ?e1 = Inr (e', progress)"
      using 1(4) unfolding try_admit_loop.simps [of env b e] Cons
      by (auto simp: Let_def rbind_Inr_iff split: if_split_asm prod.split_asm option.split_asm)
    then show ?thesis
    proof cases
      case drop
      have "good ?e2 reserved e'"
        using 1(1) [OF Cons refl refl refl drop(1) _ _ drop(2)] g2 1(3)
        by (simp add: good_def engine_waiting_removed_def)
      with g2 show ?thesis by (rule good_trans)
    next
      case admit
      have "ag_backfill_class g = NoBackfill"
        using admit(1) by (auto simp: grant_head_def split: if_splits)
      then have "good ?e1 reserved e'"
        using 1(3) by (intro admit_good [OF inv1 _ _ admit(2)]) simp_all
      with g1 show ?thesis by (rule good_trans)
    next
      case block
      have "good ?e1 reserved e'"
        using 1(3) by (intro blocked_head_good [OF inv1 _ block]) simp
      with g1 show ?thesis by (rule good_trans)
    qed
  qed
qed

section \<open>The system\<close>

text \<open>
  What an execution unit may do to the engine: it rewrites active requests without touching their
  identity or backfill class, drops cancelled ones, and may end the staged prefill.
\<close>

definition unit_effect :: "('o, 'h) engine \<Rightarrow> ('o, 'h) engine \<Rightarrow> bool" where
  "unit_effect e e' \<longleftrightarrow>
     (\<exists>slots lane check.
        e' = e\<lparr>en_slots := slots, en_scheduler := (en_scheduler e)\<lparr>sc_prefill_lane := lane\<rparr>,
               en_admission_check_pending := check\<rparr> \<and>
        list_all2 (\<lambda>x y. y = None \<or>
          (\<exists>r r'. x = Some r \<and> y = Some r' \<and> admission_snapshot r' = admission_snapshot r))
          (en_slots e) slots)"

text \<open>The program has a context transaction at least as long as the engine has a materialization.\<close>

definition boundary_coherent :: "'h boundary \<Rightarrow> ('o, 'h) engine \<Rightarrow> bool" where
  "boundary_coherent bd e \<longleftrightarrow>
     (case progress_context_transaction (bd_program_tx bd) (bd_kind bd) (bd_outcome bd)
             (fst (expire_pending_requests (bd_cancelled bd) (bd_late bd) e)) of
        Inl _ \<Rightarrow> True
      | Inr (e2, _) \<Rightarrow> en_materializing e2 = None \<or> bd_tx_after_progress bd)"

type_synonym ('o, 'h) system = "('o, 'h) engine \<times> nat multiset \<times> bool"

inductive engine_step ::
  "('o \<Rightarrow> nat \<Rightarrow> nat) \<Rightarrow> ('o \<Rightarrow> 't list) \<Rightarrow> ('o, 'h) system \<Rightarrow> ('o, 'h) system \<Rightarrow> bool"
  for licensed :: "'o \<Rightarrow> nat \<Rightarrow> nat" and control :: "'o \<Rightarrow> 't list" where
  reserve: "submit_reserve e = Inr (i, order, e') \<Longrightarrow>
    engine_step licensed control (e, R, b) (e', add_mset i R, b)"
| enqueue: "submit_enqueue (request_record i order out) e = (e', result) \<Longrightarrow>
    engine_step licensed control (e, add_mset i R, b) (e', R, b)"
| forget: "engine_step licensed control (e, add_mset i R, b) (release_reserved_capacity e, R, b)"
| release: "engine_step licensed control (e, R, b) (release_reserved_capacity e, R, b)"
| wake: "engine_step licensed control (e, R, b) (request_admission_check e, R, b)"
| stop: "engine_step licensed control (e, R, b) (e\<lparr>en_stopping := True\<rparr>, R, b)"
| boundary: "\<not> en_stopping e \<Longrightarrow> \<not> en_failed e \<Longrightarrow> boundary_coherent bd e \<Longrightarrow>
    worker_boundary licensed control bd b e = Inr (e', u) \<Longrightarrow>
    engine_step licensed control (e, R, b) (e', R, previous_after b u)"
| unit_done: "unit_effect e e' \<Longrightarrow> engine_step licensed control (e, R, b) (e', R, b)"
| fail: "engine_step licensed control (e, R, b) (fail_all e, R, b)"

abbreviation engine_steps ::
  "('o \<Rightarrow> nat \<Rightarrow> nat) \<Rightarrow> ('o \<Rightarrow> 't list) \<Rightarrow> ('o, 'h) system \<Rightarrow> ('o, 'h) system \<Rightarrow> bool" where
  "engine_steps licensed control \<equiv> (engine_step licensed control)\<^sup>*\<^sup>*"

definition engine_reachable ::
  "('o \<Rightarrow> nat \<Rightarrow> nat) \<Rightarrow> ('o \<Rightarrow> 't list) \<Rightarrow> ('o, 'h) system \<Rightarrow> bool" where
  "engine_reachable licensed control s \<longleftrightarrow>
     (\<exists>n pending timeout e0. new_engine n pending timeout = Inr e0 \<and>
        engine_steps licensed control (e0, {#}, False) s)"

lemma sum_list_replicate_empty [simp]: "sum_list (replicate n ({#} :: 'a multiset)) = {#}"
  by (induction n) simp_all

lemma new_engine_inv: "new_engine n pending timeout = Inr e \<Longrightarrow> engine_inv e {#}"
  by (auto simp: new_engine_def engine_inv_def new_scheduler_def pending_ids_def held_ids_def
        holders_def slot_ids_def epoch_rank_def id_rank_def split: if_splits)

lemma unit_effect_releases:
  assumes "unit_effect e e'"
  shows "releases e e'"
proof -
  obtain slots lane check where
    e': "e' = e\<lparr>en_slots := slots, en_scheduler := (en_scheduler e)\<lparr>sc_prefill_lane := lane\<rparr>,
               en_admission_check_pending := check\<rparr>"
    and rel: "list_all2 (\<lambda>x y. y = None \<or>
          (\<exists>r r'. x = Some r \<and> y = Some r' \<and> admission_snapshot r' = admission_snapshot r))
          (en_slots e) slots"
    using assms by (auto simp: unit_effect_def)
  have ids: "sum_list (map slot_ids slots) \<subseteq># sum_list (map slot_ids (en_slots e))"
    using rel
  proof (induction rule: list_all2_induct)
    case (Cons x xs y ys)
    then have "slot_ids y \<subseteq># slot_ids x"
      by (auto simp: slot_ids_def admission_snapshot_def)
    with Cons.IH show ?case by (simp add: subset_mset.add_mono)
  qed simp
  have "admission_snapshot r \<in> holders e" if "Some r \<in> set slots" for r
  proof -
    from that rel obtain x where "x \<in> set (en_slots e)"
      "\<exists>q. x = Some q \<and> admission_snapshot r = admission_snapshot q"
      by (auto simp: in_set_conv_nth list_all2_conv_all_nth) (metis option.distinct(1) option.sel nth_mem)
    then show ?thesis by (auto simp: holders_def)
  qed
  then show ?thesis
    using ids rel by (auto simp: releases_def e' held_ids_def holders_def list_all2_conv_all_nth)
qed

lemma releases_same_admission:
  "releases e (e\<lparr>en_outstanding := n\<rparr>)" "releases e (e\<lparr>en_stopping := b\<rparr>)"
  "releases e (e\<lparr>en_admission_check_pending := c\<rparr>)" "releases e (release_reserved_capacity e)"
  by (simp_all add: releases_def held_ids_def holders_def release_reserved_capacity_def)

lemma fail_all_good:
  assumes inv: "engine_inv e reserved"
  shows "good e reserved (fail_all e)"
proof -
  let ?a = "e\<lparr>en_failed := True, en_pending := [], en_scheduler := scheduler_reset (en_scheduler e)\<rparr>"
  have "requeues e ?a" by (simp add: requeues_def scheduler_reset_def pending_ids_def)
  then have g: "good e reserved ?a" by (rule requeues_good [OF inv])
  have none: "map (\<lambda>lane. if lane < en_max_concurrency e then None else en_slots e ! lane)
      [0..<length (en_slots e)] = replicate (length (en_slots e)) None"
    using engine_invD(1-3) [OF inv] by (intro nth_equalityI) auto
  have "releases ?a (fail_all e)"
    by (auto simp: fail_all_def none releases_def held_ids_def holders_def slot_ids_def)
  with g releases_good show ?thesis by (meson good_def good_trans)
qed

lemma settle_keeps_materializing:
  assumes "settle_terminal_requests m p tp e = Inr (e', c)"
  shows "en_materializing e' = en_materializing e"
proof -
  have "settle_loop tp changed e = Inr (e', c) \<Longrightarrow> en_materializing e' = en_materializing e" for changed
  proof (induction tp changed e arbitrary: e' c rule: settle_loop.induct)
    case (1 tp changed e)
    from 1(2) show ?case
    proof (cases "select_terminal e")
      case (Some lane)
      with 1(2) obtain e1 where e1: "settle_terminal tp lane e = Inr e1" "lane < length (en_slots e)"
        and rest: "settle_loop tp True e1 = Inr (e', c)"
        by (auto simp: settle_loop.simps [of tp changed e] rbind_Inr_iff split: if_splits)
      from e1(1) have "en_materializing e1 = en_materializing e"
        by (auto simp: settle_terminal_def remove_completed_slot_def request_admission_check_def
            split: option.splits if_splits)
      with 1(1) [OF Some e1(2,1) rest] show ?thesis by simp
    qed (simp add: settle_loop.simps [of tp changed e])
  qed
  with assms show ?thesis by (auto simp: settle_terminal_requests_def split: if_splits)
qed

lemma cancel_keeps_materializing:
  assumes "cancel_active_requests tx cancelled e = Inr e'"
  shows "en_materializing e' = en_materializing e"
proof (cases tx)
  case False
  with assms have sweep: "rfold (cancel_row cancelled) [0..<en_max_concurrency e] e = Inr e'"
    by (simp add: cancel_active_requests_def)
  show ?thesis
    by (rule rfold_invariant [OF sweep, where P = "\<lambda>x. en_materializing x = en_materializing e"])
      (auto simp: cancel_row_def clear_prefill_lane_def remove_completed_slot_def
        request_admission_check_def split: option.splits if_splits)
qed (use assms in \<open>simp add: cancel_active_requests_def\<close>)

lemma attempt_admission_good:
  assumes inv: "engine_inv e reserved" and coh: "en_materializing e = None \<or> bd_tx_after_progress bd"
    and at: "attempt_admission licensed bd have_pending previous e = Inr e'"
  shows "good e reserved e'"
proof -
  let ?c = "e\<lparr>en_admission_check_pending := False\<rparr>"
  have g: "good e reserved ?c" by (rule releases_good [OF inv releases_same_admission(3)])
  consider "e' = e" | "e' = ?c"
    | progress where "en_materializing e = None" "try_admit_one (bd_env bd) ?c = Inr (e', progress)"
    using at coh
    by (auto simp: attempt_admission_def should_attempt_admission_def consume_admission_check_def
        rbind_Inr_iff split: if_splits)
  then show ?thesis
  proof cases
    case 3
    then have "good ?c reserved e'"
      using g by (intro try_admit_loop_good [of ?c reserved "bd_env bd" False e' progress])
        (simp_all add: good_def try_admit_one_def)
    with g show ?thesis by (rule good_trans)
  qed (use g good_refl [OF inv] in simp_all)
qed

lemma worker_boundary_good:
  assumes inv: "engine_inv e reserved" and coh: "boundary_coherent bd e"
    and wb: "worker_boundary licensed control bd previous e = Inr (e', u)"
  shows "good e reserved e'"
proof -
  obtain e1 have_pending where e1: "expire_pending_requests (bd_cancelled bd) (bd_late bd) e = (e1, have_pending)"
    by force
  from wb obtain e2 p2 e3 c3 e4 e5 where
    e2: "progress_context_transaction (bd_program_tx bd) (bd_kind bd) (bd_outcome bd) e1 = Inr (e2, p2)"
    and e3: "settle_terminal_requests (bd_tx_after_progress bd) (bd_tx_after_progress bd)
               (bd_terminal_pending bd) e2 = Inr (e3, c3)"
    and e4: "cancel_active_requests (bd_tx_after_progress bd)
               (snapshot_cancellations (bd_tx_after_progress bd) (bd_lane_cancelled bd) e3) e3 = Inr e4"
    and e5: "attempt_admission licensed bd have_pending previous e4 = Inr e5"
    and e6: "cancel_active_requests (bd_tx_after_admission bd)
               (snapshot_cancellations (bd_tx_after_admission bd) (bd_lane_cancelled_at_unit bd) e5) e5 = Inr e'"
    by (auto simp: worker_boundary_def e1 rbind_Inr_iff)
  have g1: "good e reserved e1" by (rule requeues_good [OF inv expire_requeues [OF inv e1]])
  then have inv1: "engine_inv e1 reserved" by (simp add: good_def)
  have g2: "good e1 reserved e2" by (rule releases_good [OF inv1 progress_releases [OF inv1 e2]])
  then have inv2: "engine_inv e2 reserved" by (simp add: good_def)
  have g3: "good e2 reserved e3" by (rule releases_good [OF inv2 settle_releases [OF e3]])
  then have inv3: "engine_inv e3 reserved" by (simp add: good_def)
  have g4: "good e3 reserved e4" by (rule releases_good [OF inv3 cancel_releases [OF inv3 e4]])
  then have inv4: "engine_inv e4 reserved" by (simp add: good_def)
  have "en_materializing e4 = None \<or> bd_tx_after_progress bd"
    using coh e1 e2 settle_keeps_materializing [OF e3] cancel_keeps_materializing [OF e4]
    by (simp add: boundary_coherent_def)
  from attempt_admission_good [OF inv4 this e5] have g5: "good e4 reserved e5" .
  then have inv5: "engine_inv e5 reserved" by (simp add: good_def)
  have g6: "good e5 reserved e'" by (rule releases_good [OF inv5 cancel_releases [OF inv5 e6]])
  show ?thesis using g1 g2 g3 g4 g5 g6 by (meson good_trans)
qed

lemma reserve_step:
  assumes inv: "engine_inv e R" and r: "submit_reserve e = Inr (i, order, e')"
  shows "engine_inv e' (add_mset i R) \<and> evolves e e'"
proof -
  have i: "i = en_next_request_id e" "i \<noteq> 0"
    and e': "e' = e\<lparr>en_outstanding := u64_add (en_outstanding e) 1,
                  en_next_request_id := u64_add (en_next_request_id e) 1,
                  en_next_publication_order := u64_add (en_next_publication_order e) 1\<rparr>"
    using r by (auto simp: submit_reserve_def split: if_splits)
  have same: "pending_ids e' = pending_ids e" "held_ids e' = held_ids e" "holders e' = holders e"
    "epoch_rank e' = epoch_rank e" "en_slots e' = en_slots e" "en_pending e' = en_pending e"
    "en_max_concurrency e' = en_max_concurrency e" "en_scheduler e' = en_scheduler e"
    by (simp_all add: e' pending_ids_def held_ids_def holders_def epoch_rank_def)
  have rank: "id_rank e = i" "i < id_rank e'"
    using epoch_advance [of "en_next_request_id e"] engine_invD(10) [OF inv] i
    by (simp_all add: id_rank_def e' split: if_splits)
  let ?all = "pending_ids e + held_ids e + R"
  have fresh: "i \<notin># ?all"
    using engine_invD(5) [OF inv, of i] rank by auto
  have all: "pending_ids e + held_ids e + add_mset i R = add_mset i ?all" by simp
  have "engine_inv e' (add_mset i R)"
    unfolding engine_inv_def same all
  proof (intro conjI allI impI ballI)
    show "count (add_mset i ?all) j \<le> 1" for j
      using engine_invD(4) [OF inv, of j] fresh by (cases "j = i") (auto simp: not_in_iff)
    show "j \<noteq> 0" "j < id_rank e'" if "j \<in># add_mset i ?all" for j
      using that engine_invD(5) [OF inv, of j] rank i by (auto simp del: union_iff)
    show "protects p e' (pending_ids e + add_mset i R)" if "en_protection e = Some p" for p
      using engine_invD(8) [OF inv that] rank unfolding protects_def same by fastforce
    show "en_pending e \<noteq> []" "rq_id (hd (en_pending e)) = h" if "en_head e = Some h" for h
      using engine_invD(6) [OF inv that] by simp_all
    show "as_backfill_epoch a < epoch_rank e" if "a \<in> holders e" for a
      by (rule engine_invD(7) [OF inv that])
    show "en_next_request_id e' \<le> uint64_max" by (simp add: e' u64_add_def)
  qed (use engine_invD(1-3,9) [OF inv] in auto)
  moreover have "evolves e e'"
    by (auto simp: evolves_def continues_def same live_donors_def)
  ultimately show ?thesis ..
qed

lemma drop_reserved:
  assumes inv: "engine_inv e (add_mset i R)"
  shows "engine_inv e R"
proof -
  have count: "count (pending_ids e + held_ids e + R) j \<le> 1" for j
    using engine_invD(4) [OF inv, of j] by (simp split: if_splits)
  have "protects p e (pending_ids e + R)" if "en_protection e = Some p" for p
    using engine_invD(8) [OF inv that] by (auto simp: protects_def)
  with inv count show ?thesis
    unfolding engine_inv_def by (auto simp del: count_union)
qed

lemma enqueue_step:
  assumes inv: "engine_inv e (add_mset i R)"
    and q: "submit_enqueue (request_record i order out) e = (e', result)"
  shows "engine_inv e' R \<and> evolves e e'"
proof (cases "en_stopping e \<or> en_failed e")
  case True
  then have "e' = e\<lparr>en_outstanding := u64_sub (en_outstanding e) 1\<rparr>"
    using q by (auto simp: submit_enqueue_def)
  then have "good e R e'"
    using releases_good [OF drop_reserved [OF inv] releases_same_admission(1)] by simp
  then show ?thesis by (simp add: good_def)
next
  case False
  then have e': "e' = e\<lparr>en_pending := en_pending e @ [request_record i order out],
      en_admission_check_pending := True\<rparr>"
    using q by (auto simp: submit_enqueue_def request_admission_check_def)
  have same: "held_ids e' = held_ids e" "holders e' = holders e" "id_rank e' = id_rank e"
    "epoch_rank e' = epoch_rank e" "en_slots e' = en_slots e" "en_scheduler e' = en_scheduler e"
    "en_max_concurrency e' = en_max_concurrency e" "en_next_request_id e' = en_next_request_id e"
    by (simp_all add: e' held_ids_def holders_def epoch_rank_def id_rank_def)
  have pend: "pending_ids e' = add_mset i (pending_ids e)"
    by (simp add: e' pending_ids_def request_record_def)
  have head: "en_pending e' \<noteq> [] \<and> rq_id (hd (en_pending e')) = h" if "en_head e = Some h" for h
    using engine_invD(6) [OF inv that] by (auto simp: e')
  have "protects p e' (pending_ids e' + R)" if "en_protection e = Some p" for p
    using engine_invD(8) [OF inv that] unfolding protects_def same by (simp add: pend)
  then have "engine_inv e' R"
    using engine_invD(1-5,7,9,10) [OF inv] head unfolding engine_inv_def same by (simp add: pend)
  moreover have "evolves e e'"
    by (auto simp: evolves_def continues_def same live_donors_def)
  ultimately show ?thesis ..
qed

lemma engine_step_good:
  assumes "engine_step licensed control (e, R, b) (e', R', b')" and inv: "engine_inv e R"
  shows "engine_inv e' R' \<and> evolves e e'"
  using assms(1)
proof cases
  case (reserve i order)
  with reserve_step [OF inv] show ?thesis by auto
next
  case (enqueue i order out result)
  with inv have "engine_inv e (add_mset i R')" by simp
  from enqueue_step [OF this enqueue(3)] show ?thesis .
next
  case (forget i)
  with inv have "good e R' e'"
    using releases_good [OF drop_reserved releases_same_admission(4)] by blast
  then show ?thesis by (simp add: good_def)
next
  case (boundary bd u)
  from worker_boundary_good [OF inv boundary(5,6)] show ?thesis
    using boundary(1) by (simp add: good_def)
next
  case fail
  with fail_all_good [OF inv] show ?thesis by (simp add: good_def)
next
  case unit_done
  with releases_good [OF inv unit_effect_releases [OF unit_done(3)]] show ?thesis
    by (simp add: good_def)
qed (use releases_good [OF inv] releases_same_admission [of e] releases_check
     in \<open>auto simp: good_def\<close>)

lemma engine_steps_good:
  assumes "engine_steps licensed control s s'" and "engine_inv (fst s) (fst (snd s))"
  shows "engine_inv (fst s') (fst (snd s')) \<and> evolves (fst s) (fst s')"
  using assms
proof (induction rule: rtranclp_induct)
  case base
  then show ?case by (simp add: evolves_refl)
next
  case (step y z)
  obtain e1 R1 b1 e2 R2 b2 where "y = (e1, R1, b1)" "z = (e2, R2, b2)"
    by (cases y, cases z) auto
  with step engine_step_good [of licensed control e1 R1 b1 e2 R2 b2] show ?case
    by (auto intro: evolves_trans)
qed

lemma engine_reachable_inv:
  assumes "engine_reachable licensed control (e, R, b)"
  shows "engine_inv e R"
proof -
  from assms obtain n p t e0 where "new_engine n p t = Inr e0"
    and "engine_steps licensed control (e0, {#}, False) (e, R, b)"
    by (auto simp: engine_reachable_def)
  with engine_steps_good [of licensed control "(e0, {#}, False)" "(e, R, b)"] new_engine_inv [of n p t e0]
  show ?thesis by simp
qed

end
