(* ===== verification/EngineSafety.thy ===== *)
theory EngineSafety
  imports EngineSystem
begin

text \<open>
  What the invariant of \<open>EngineSystem\<close> gives a client of the engine, with a concrete run that
  exercises it: one request is admitted, a second one arrives, is blocked and protected, and
  the first one leaves.
\<close>

section \<open>A run\<close>

abbreviation demo_licensed :: "unit \<Rightarrow> nat \<Rightarrow> nat" where "demo_licensed \<equiv> \<lambda>_ n. n"
abbreviation demo_control :: "unit \<Rightarrow> nat list" where "demo_control \<equiv> \<lambda>_. []"

definition demo_env :: "nat env" where
  "demo_env =
     \<lparr>ev_cancelled = (\<lambda>_. False), ev_expired = (\<lambda>_. False), ev_plan_fails = (\<lambda>_. False),
      ev_inspect = (\<lambda>i. if i = 1 then (Ready, Some \<lparr>pc_destination = 0, pc_service_work_quanta = 9,
          pc_effective_output_tokens = 5, pc_effective_limit_reason = OutputLimit\<rparr>)
        else (TemporarilyBlocked, None)),
      ev_resource_revision = 7, ev_prove_backfill = (\<lambda>_ _ _. None),
      ev_late_expired = (\<lambda>_. False), ev_late_cancelled = (\<lambda>_. False), ev_storage_fails = (\<lambda>_. False),
      ev_reserve = (\<lambda>_. Reserved),
      ev_first_outcome = MaterializationOutcome Published (Some 100)\<rparr>"

definition demo_boundary :: "nat boundary" where
  "demo_boundary =
     \<lparr>bd_cancelled = (\<lambda>_. False), bd_late = (\<lambda>_. False), bd_program_tx = False, bd_kind = None,
      bd_outcome = StillInProgress, bd_tx_after_progress = False, bd_terminal_pending = (\<lambda>_. False),
      bd_lane_cancelled = (\<lambda>_. False), bd_env = demo_env, bd_tx_after_admission = False,
      bd_lane_cancelled_at_unit = (\<lambda>_. False)\<rparr>"

definition demo_active :: "request_state \<Rightarrow> (unit, nat) request" where
  "demo_active st = (request_record 1 1 ())\<lparr>rq_budget := Some \<lparr>gb_remaining = 5, gb_limit_reason = OutputLimit\<rparr>,
     rq_lane := Some 0, rq_sequence := Some 100, rq_model_state := st, rq_remaining_service_work := 9\<rparr>"

definition demo_engine ::
  "(unit, nat) request list \<Rightarrow> (unit, nat) request option \<Rightarrow> scheduler \<Rightarrow> nat \<Rightarrow> bool \<Rightarrow> (unit, nat) engine" where
  "demo_engine pending slot s n check =
     \<lparr>en_max_concurrency = 2, en_max_outstanding = 6, en_pending = pending, en_outstanding = n,
      en_stopping = False, en_failed = False, en_next_request_id = n + 1,
      en_next_publication_order = n + 1,
      en_slots = [slot, None, None, None, None, None, None, None], en_materializing = None,
      en_scheduler = s, en_admission_check_pending = check\<rparr>"

definition demo_scheduler :: "nat option \<Rightarrow> nat option \<Rightarrow> admission_protection option \<Rightarrow> nat \<Rightarrow> scheduler" where
  "demo_scheduler lane head p n =
     \<lparr>sc_prefill_lane = lane, sc_fifo_head_id = head, sc_protection = p, sc_next_protection_epoch = n\<rparr>"

definition demo_protection :: admission_protection where
  "demo_protection = \<lparr>ap_epoch_id = 1, ap_head_request_id = 2, ap_resource_revision = 7, ap_donor_ids = [1]\<rparr>"

abbreviation demo_empty :: "(unit, nat) engine" where
  "demo_empty \<equiv> demo_engine [] None (demo_scheduler None None None 1) 0 False"
abbreviation demo_prefilling :: "(unit, nat) engine" where
  "demo_prefilling \<equiv> demo_engine [] (Some (demo_active Prefill)) (demo_scheduler (Some 0) None None 1) 1 True"
abbreviation demo_decoding :: "(unit, nat) engine" where
  "demo_decoding \<equiv> demo_engine [] (Some (demo_active DecodeReady)) (demo_scheduler None None None 1) 1 True"
abbreviation demo_waiting :: "(unit, nat) engine" where
  "demo_waiting \<equiv> demo_engine [request_record 2 2 ()] (Some (demo_active DecodeReady))
     (demo_scheduler None None None 1) 2 True"
abbreviation demo_protected :: "(unit, nat) engine" where
  "demo_protected \<equiv> demo_engine [request_record 2 2 ()] (Some (demo_active DecodeReady))
     (demo_scheduler None (Some 2) (Some demo_protection) 2) 2 False"
abbreviation demo_drained :: "(unit, nat) engine" where
  "demo_drained \<equiv> demo_engine [request_record 2 2 ()] None
     (demo_scheduler None (Some 2) (Some demo_protection) 2) 2 True"

lemma settle_none: "select_terminal e = None \<Longrightarrow> settle_loop tp changed e = Inr (e, changed)"
  by (simp add: settle_loop.simps)

lemma try_admit_ready:
  assumes "en_pending e = head # rest" "\<not> ev_cancelled env (rq_id head)" "\<not> ev_expired env (rq_id head)"
    "\<not> ev_plan_fails env (rq_id head)" "ev_inspect env (rq_id head) = (Ready, Some ch)"
  shows "try_admit_loop env b e =
    (let e1 = e\<lparr>en_scheduler := observe_fifo_head (en_scheduler e) (Some (rq_id head))\<rparr> in
     rbind (grant_head (en_scheduler e1) (rq_id head) (pc_service_work_quanta ch))
       (\<lambda>g. admit_planned_request env head ch g e1))"
  using assms by (simp add: try_admit_loop.simps Let_def)

lemma try_admit_blocked:
  assumes "en_pending e = head # rest" "\<not> ev_cancelled env (rq_id head)" "\<not> ev_expired env (rq_id head)"
    "\<not> ev_plan_fails env (rq_id head)" "ev_inspect env (rq_id head) = (TemporarilyBlocked, ch)"
  shows "try_admit_loop env b e = blocked_head env b head rest
    (e\<lparr>en_scheduler := observe_fifo_head (en_scheduler e) (Some (rq_id head))\<rparr>)"
  using assms by (simp add: try_admit_loop.simps Let_def)

lemmas demo_defs = demo_engine_def demo_scheduler_def demo_active_def demo_boundary_def demo_env_def
  demo_protection_def request_record_def

lemmas boundary_defs = worker_boundary_def expire_pending_requests_def progress_context_transaction_def
  settle_terminal_requests_def settle_none select_terminal_def select_row_def
  cancel_active_requests_def cancel_row_def snapshot_cancellations_def attempt_admission_def
  should_attempt_admission_def consume_admission_check_def try_admit_one_def try_admit_ready try_admit_blocked
  build_round_membership_def round_row_def build_control_membership_def control_row_def
  select_unit_def prefill_is_runnable_def choose_execution_def request_admission_check_def
  is_decode_ready_def is_control_ready_def is_prefilling_def is_materializing_def Let_def upt_conv_Cons

lemmas admission_defs = observe_fifo_head_def grant_head_def admit_planned_request_def erase_pending_def
  validate_grant_def make_generation_budget_def commit_admission_def granted_materialization_def
  active_capture_owner_def capture_row_def check_transaction_owner_def materialization_outcome_def
  adopt_request_def set_prefill_lane_def blocked_head_def active_admission_set_def active_row_def
  admission_snapshot_def protect_blocked_head_def make_admission_protection_def freeze_donor_def
  protection_has_live_donor_def is_donor_def protection_epoch_def persistent_borrowers_def borrower_row_def

lemma eight_slots: "replicate kMaximumConcurrency x = [x, x, x, x, x, x, x, x]"
  by (simp add: numeral_eq_Suc)

lemma demo_start: "new_engine 2 4 1000 = Inr demo_empty"
  by (simp add: new_engine_def new_scheduler_def demo_defs u64_add_def eight_slots)

lemma demo_submit:
  "submit_reserve demo_empty = Inr (1, 1, demo_engine [] None (demo_scheduler None None None 1) 1 False)"
  "submit_enqueue (request_record 1 1 ()) (demo_engine [] None (demo_scheduler None None None 1) 1 False) =
     (demo_engine [request_record 1 1 ()] None (demo_scheduler None None None 1) 1 True, Inr ())"
  by (simp_all add: submit_reserve_def submit_enqueue_def demo_defs u64_add_def request_admission_check_def)

lemma demo_admit:
  "worker_boundary demo_licensed demo_control demo_boundary False
     (demo_engine [request_record 1 1 ()] None (demo_scheduler None None None 1) 1 True) =
   Inr (demo_prefilling, PrefillUnit 0)"
  by (simp add: boundary_defs admission_defs demo_defs)

lemma demo_unit: "unit_effect demo_prefilling demo_decoding"
  unfolding unit_effect_def
  by (rule exI [of _ "en_slots demo_decoding"], rule exI [of _ None], rule exI [of _ True])
    (simp add: demo_defs admission_snapshot_def)

lemma demo_second:
  "submit_reserve demo_decoding = Inr (2, 2, demo_engine [] (Some (demo_active DecodeReady))
     (demo_scheduler None None None 1) 2 True)"
  "submit_enqueue (request_record 2 2 ()) (demo_engine [] (Some (demo_active DecodeReady))
     (demo_scheduler None None None 1) 2 True) = (demo_waiting, Inr ())"
  by (simp_all add: submit_reserve_def submit_enqueue_def demo_defs u64_add_def request_admission_check_def)

lemma demo_decode:
  "worker_boundary demo_licensed demo_control demo_boundary False demo_waiting =
     Inr (demo_waiting, DecodeUnit \<lparr>rm_lanes = [0], rm_sequences = [100], rm_budgets = [5]\<rparr>)"
  by (simp add: boundary_defs demo_defs)

lemma demo_protect:
  "worker_boundary demo_licensed demo_control demo_boundary True demo_waiting =
     Inr (demo_protected, DecodeUnit \<lparr>rm_lanes = [0], rm_sequences = [100], rm_budgets = [5]\<rparr>)"
  by (simp add: boundary_defs admission_defs demo_defs progress_of_def u64_add_def)

lemma demo_leave: "unit_effect demo_protected demo_drained"
  unfolding unit_effect_def
  by (rule exI [of _ "en_slots demo_drained"], rule exI [of _ None], rule exI [of _ True])
    (simp add: demo_defs admission_snapshot_def)

lemma demo_coherent: "en_materializing e = None \<Longrightarrow> boundary_coherent demo_boundary e"
  by (simp add: boundary_coherent_def progress_context_transaction_def demo_boundary_def
      expire_pending_requests_def request_admission_check_def fold_waiting_removed)

abbreviation demo_step :: "(unit, nat) system \<Rightarrow> (unit, nat) system \<Rightarrow> bool" where
  "demo_step \<equiv> engine_step demo_licensed demo_control"

lemma demo_boundary_step:
  assumes "worker_boundary demo_licensed demo_control demo_boundary b (demo_engine p slot s n c) = Inr (e', u)"
    and "b' = previous_after b u"
  shows "demo_step (demo_engine p slot s n c, R, b) (e', R, b')"
  unfolding assms(2) using assms(1)
  by (intro engine_step.boundary [where bd = demo_boundary]) (simp_all add: demo_coherent demo_engine_def)

lemma demo_run_reachable: "engine_reachable demo_licensed demo_control (demo_protected, {#}, True)"
proof -
  note [trans] = rtranclp.rtrancl_into_rtrancl
  have "engine_steps demo_licensed demo_control (demo_empty, {#}, False) (demo_empty, {#}, False)" by simp
  also have "demo_step \<dots> (demo_engine [] None (demo_scheduler None None None 1) 1 False, {#1#}, False)"
    by (rule engine_step.reserve [OF demo_submit(1)])
  also have "demo_step \<dots> (demo_engine [request_record 1 1 ()] None (demo_scheduler None None None 1) 1 True, {#}, False)"
    by (rule engine_step.enqueue [OF demo_submit(2)])
  also have "demo_step \<dots> (demo_prefilling, {#}, False)"
    by (rule demo_boundary_step [OF demo_admit]) (simp add: previous_after_def)
  also have "demo_step \<dots> (demo_decoding, {#}, False)"
    by (rule engine_step.unit_done [OF demo_unit])
  also have "demo_step \<dots> (demo_engine [] (Some (demo_active DecodeReady))
     (demo_scheduler None None None 1) 2 True, {#2#}, False)"
    by (rule engine_step.reserve [OF demo_second(1)])
  also have "demo_step \<dots> (demo_waiting, {#}, False)"
    by (rule engine_step.enqueue [OF demo_second(2)])
  also have "demo_step \<dots> (demo_waiting, {#}, True)"
    by (rule demo_boundary_step [OF demo_decode]) (simp add: previous_after_def)
  also have "demo_step \<dots> (demo_protected, {#}, True)"
    by (rule demo_boundary_step [OF demo_protect]) (simp add: previous_after_def)
  finally show ?thesis
    using demo_start by (auto simp: engine_reachable_def)
qed

section \<open>Properties\<close>

text \<open>
  C18. In every reachable state of the engine a request is in at most one place: waiting in the
  queue, holding a lane or the materialization record, or between the two critical sections of
  \<open>submit\<close>; no request has identity zero; and the head the scheduler has observed is the front of
  the queue.
\<close>

theorem request_in_one_place:
  assumes "engine_reachable licensed control (e, R, b)"
  shows "(\<forall>i. count (pending_ids e + held_ids e + R) i \<le> 1) \<and>
    0 \<notin># pending_ids e + held_ids e + R \<and>
    (case en_head e of None \<Rightarrow> True
     | Some h \<Rightarrow> en_pending e \<noteq> [] \<and> rq_id (hd (en_pending e)) = h)"
  using engine_invD(4,5,6) [OF engine_reachable_inv [OF assms]] by (fastforce split: option.splits)

theorem request_in_one_place_witness:
  "engine_reachable demo_licensed demo_control (demo_protected, {#}, True) \<and>
   count (pending_ids demo_protected + held_ids demo_protected) 1 = 1 \<and>
   rq_id (hd (en_pending demo_protected)) = 2"
  using request_in_one_place [OF demo_run_reachable] demo_run_reachable
  by (auto simp: demo_defs pending_ids_def held_ids_def slot_ids_def)

text \<open>
  C17. Protecting a blocked head never throws in a reachable state, as long as the epoch counter is
  not exhausted: whether the protection is opened or rebound, its donors are the frozen ones, and
  the answer says whether one of them still holds capacity. (An exception here would fail every
  request of the engine.)
\<close>

theorem protection_never_throws:
  assumes "engine_reachable licensed control (e, R, b)"
    and "en_materializing e = None" and "en_head e = Some h"
    and "active_admission_set (en_slots e) (en_max_concurrency e) = Inr active" and "active \<noteq> []"
    and "revn \<noteq> 0" and "sc_next_protection_epoch (en_scheduler e) \<noteq> 0"
  shows "\<exists>s p. protect_blocked_head (en_scheduler e) h active revn = (s, Inr (live_donors p e \<noteq> {})) \<and>
    sc_protection s = Some p \<and> ap_head_request_id p = h \<and> ap_resource_revision p = revn \<and>
    ap_donor_ids p = (case en_protection e of None \<Rightarrow> map as_request_id active | Some q \<Rightarrow> ap_donor_ids q)"
proof -
  note inv = engine_reachable_inv [OF assms(1)]
  note live = protect_live_iff [OF inv assms(2,4)]
  show ?thesis
  proof (cases "en_protection e")
    case None
    with assms freeze_succeeds [OF inv assms(2,4,5,3,6,7)] live show ?thesis
      by (auto simp: protect_blocked_head_def Let_def)
  next
    case (Some p)
    have "ap_head_request_id p = h"
      using engine_invD(8) [OF inv Some] assms(3) by (simp add: protects_def)
    with Some assms rebind_succeeds [OF inv assms(2,4) Some assms(6)] live show ?thesis
      by (auto simp: protect_blocked_head_def)
  qed
qed

theorem protection_never_throws_witness:
  "\<exists>s p. protect_blocked_head (en_scheduler demo_protected) 2
       [admission_snapshot (demo_active DecodeReady)] 8 = (s, Inr (live_donors p demo_protected \<noteq> {})) \<and>
     sc_protection s = Some p \<and> ap_donor_ids p = [1] \<and> ap_resource_revision p = 8"
  using protection_never_throws [OF demo_run_reachable, of 2 "[admission_snapshot (demo_active DecodeReady)]" 8]
  by (auto simp: demo_defs active_admission_set_def active_row_def upt_conv_Cons)

text \<open>
  C16. A blocked head is not overtaken for ever. Along any run in which the protection of a head
  stays open (same epoch), its donors are the requests frozen when it was opened, the donors that
  still hold capacity only become fewer, and once none is left no request gains capacity any more:
  whoever holds a lane afterwards held one before.
\<close>

theorem no_overtaking:
  assumes "engine_reachable licensed control (e, R, b)"
    and "engine_steps licensed control (e, R, b) (e', R', b')"
    and "en_protection e = Some p" and "en_protection e' = Some q" and "ap_epoch_id p = ap_epoch_id q"
  shows "ap_head_request_id p = ap_head_request_id q \<and> ap_donor_ids p = ap_donor_ids q \<and>
    live_donors p e' \<subseteq> live_donors p e \<and>
    (live_donors p e = {} \<longrightarrow> set_mset (held_ids e') \<subseteq> set_mset (held_ids e))"
proof -
  note inv = engine_reachable_inv [OF assms(1)]
  have "evolves e e'"
    using engine_steps_good [OF assms(2)] inv by simp
  moreover have "ap_epoch_id p < epoch_rank e"
    using engine_invD(8) [OF inv assms(3)] by (simp add: protects_def)
  ultimately have "continues q e e'"
    using assms(4,5) by (auto simp: evolves_def)
  with assms(3) show ?thesis
    by (auto simp: continues_def live_donors_def)
qed

theorem no_overtaking_witness:
  "live_donors demo_protection demo_protected = {1} \<and> live_donors demo_protection demo_drained = {} \<and>
   live_donors demo_protection demo_drained \<subseteq> live_donors demo_protection demo_protected"
proof -
  have "engine_steps demo_licensed demo_control (demo_protected, {#}, True) (demo_drained, {#}, True)"
    by (rule r_into_rtranclp, rule engine_step.unit_done [OF demo_leave])
  from no_overtaking [OF demo_run_reachable this, of demo_protection demo_protection] show ?thesis
    by (simp add: demo_defs live_donors_def held_ids_def slot_ids_def)
qed

text \<open>
  An admission grant is used at most once: committing it yields a grant no scheduler state
  accepts. A committed head grant closes the epoch (no grant of any protection is valid in the
  new state), and a committed backfill grant leaves the head and its protection as they were.
\<close>

theorem grant_single_use:
  assumes "commit_admission s g = Inr (s', g')"
  shows "\<not> validate_grant t g' \<and>
    (if ag_backfill_class g = NoBackfill then \<not> validate_grant s' k else s' = s)"
  using assms by (cases "ag_backfill_class k")
    (auto simp: commit_admission_iff validate_head_grant validate_backfill_grant, auto simp: validate_grant_def)

theorem grant_single_use_witness:
  "\<exists>s' g'. commit_admission (demo_scheduler None (Some 2) (Some demo_protection) 2)
     \<lparr>ag_request_id = 3, ag_backfill_class = Persistent, ag_protection_epoch = 1,
      ag_resource_revision = 7, ag_service_work_quanta = 4\<rparr> = Inr (s', g') \<and>
     s' = demo_scheduler None (Some 2) (Some demo_protection) 2 \<and> \<not> validate_grant s' g'"
proof -
  let ?s = "demo_scheduler None (Some 2) (Some demo_protection) 2"
  let ?g = "\<lparr>ag_request_id = 3, ag_backfill_class = Persistent, ag_protection_epoch = 1,
      ag_resource_revision = 7, ag_service_work_quanta = 4\<rparr>"
  have "commit_admission ?s ?g = Inr (?s, ?g\<lparr>ag_request_id := 0, ag_service_work_quanta := 0\<rparr>)"
    by (simp add: commit_admission_iff validate_backfill_grant demo_defs)
  with grant_single_use [OF this, of ?s ?g] show ?thesis by blast
qed

section \<open>Batches and units\<close>

lemma round_row_error: "round_row licensed slots l m = Inl err \<Longrightarrow> err = LogicError"
  by (auto simp: round_row_def Let_def split: option.splits if_splits)

lemma rfold_error:
  assumes "\<And>l m err. f l m = Inl err \<Longrightarrow> err = x"
  shows "rfold f ls m = Inl err \<Longrightarrow> err = x"
  using assms by (induction ls arbitrary: m) (auto simp: rbind_Inl_iff)


text \<open>
  A decode round contains exactly the lanes whose request is decode-ready with no capture
  pending, in ascending order, each with its sequence and its licensed token budget; and building it
  fails exactly when one of those requests has no budget, no sequence or nothing licensed.
\<close>

theorem round_membership_exact:
  "build_round_membership licensed slots n =
     (let lanes = filter (decode_member slots) [0..<n] in
      if list_all (decode_admissible licensed slots) lanes
      then Inr \<lparr>rm_lanes = lanes, rm_sequences = map (row_sequence slots) lanes,
                rm_budgets = map (row_budget licensed slots) lanes\<rparr>
      else Inl LogicError)"
proof -
  let ?f = "round_row licensed slots" and ?ls = "[0..<n]"
  let ?m = "\<lparr>rm_lanes = [], rm_sequences = [], rm_budgets = []\<rparr>"
  let ?lanes = "filter (decode_member slots) ?ls"
  show ?thesis
  proof (cases "list_all (decode_admissible licensed slots) ?lanes")
    case True
    then have "\<forall>l\<in>set ?ls. decode_member slots l \<longrightarrow> decode_admissible licensed slots l"
      by (auto simp: list_all_iff)
    then obtain m where m: "rfold ?f ?ls ?m = Inr m"
      using round_lanes.sweep_total by blast
    have "m = \<lparr>rm_lanes = ?lanes, rm_sequences = map (row_sequence slots) ?lanes,
        rm_budgets = map (row_budget licensed slots) ?lanes\<rparr>"
      using round_lanes.sweep_items [OF m] round_sequences.sweep_items [OF m]
        round_budgets.sweep_items [OF m] by simp
    with m True show ?thesis by (simp add: build_round_membership_def Let_def)
  next
    case False
    have "rfold ?f ?ls ?m \<noteq> Inr m" for m
      using round_lanes.sweep_items [of licensed slots ?ls ?m m] False by (auto simp: list_all_iff)
    then obtain err where "rfold ?f ?ls ?m = Inl err"
      by (cases "rfold ?f ?ls ?m") auto
    with rfold_error [of ?f LogicError] round_row_error False show ?thesis
      by (fastforce simp: build_round_membership_def Let_def)
  qed
qed

lemma control_row_rect:
  assumes "control_row control slots l m = Inr m'"
    and "\<And>r b. slots ! l = Some r \<Longrightarrow> rq_budget r = Some b \<Longrightarrow> gb_remaining b \<le> uint32_max"
    and "cm_tokens m = concat (map (row_control control slots) (cm_lanes m))"
    and "list_all (\<lambda>k. length (row_control control slots k) = cm_row_stride m) (cm_lanes m)"
    and "cm_lanes m = [] \<longleftrightarrow> cm_row_stride m = 0"
  shows "cm_tokens m' = concat (map (row_control control slots) (cm_lanes m')) \<and>
    list_all (\<lambda>k. length (row_control control slots k) = cm_row_stride m') (cm_lanes m') \<and>
    (cm_lanes m' = [] \<longleftrightarrow> cm_row_stride m' = 0)"
proof (cases "m' = m")
  case True
  with assms show ?thesis by simp
next
  case False
  with assms(1) obtain r b where r: "slots ! l = Some r" "rq_budget r = Some b"
    "control (rq_output r) \<noteq> []" "length (control (rq_output r)) \<le> gb_remaining b"
    by (auto simp: control_row_def Let_def split: option.splits if_splits)
  have "length (control (rq_output r)) mod (uint32_max + 1) = length (control (rq_output r))"
    using r(4) assms(2) [OF r(1,2)] by simp
  with assms False r show ?thesis
    by (auto simp: control_row_def Let_def row_control_def split: option.splits if_splits)
qed

text \<open>
  A control batch is rectangular: its lanes are exactly the control-ready lanes with no capture
  pending, its tokens are their control spans one after the other, and every span has the batch's
  row stride, so that row \<open>k\<close> starts at \<open>k\<close> times the stride.
\<close>

theorem control_batch_rectangular:
  assumes "build_control_membership control slots n = Inr m"
    and "\<forall>l<n. \<forall>r b. slots ! l = Some r \<longrightarrow> rq_budget r = Some b \<longrightarrow> gb_remaining b \<le> uint32_max"
  shows "cm_lanes m = filter (control_member slots) [0..<n] \<and>
    cm_sequences m = map (row_sequence slots) (cm_lanes m) \<and>
    cm_tokens m = concat (map (row_control control slots) (cm_lanes m)) \<and>
    length (cm_tokens m) = cm_row_stride m * length (cm_lanes m)"
proof -
  let ?P = "\<lambda>m. cm_tokens m = concat (map (row_control control slots) (cm_lanes m)) \<and>
    list_all (\<lambda>k. length (row_control control slots k) = cm_row_stride m) (cm_lanes m) \<and>
    (cm_lanes m = [] \<longleftrightarrow> cm_row_stride m = 0)"
  note sweep = assms(1) [unfolded build_control_membership_def]
  have P: "?P m"
  proof (rule rfold_invariant [OF sweep, where P = ?P])
    fix l m m'
    assume "l \<in> set [0..<n]" "?P m" "control_row control slots l m = Inr m'"
    with control_row_rect [of control slots l m m'] assms(2) show "?P m'" by auto
  qed simp
  have len: "list_all (\<lambda>x. length (f x) = k) xs \<Longrightarrow> length (concat (map f xs)) = k * length xs"
    for f :: "nat \<Rightarrow> 'b list" and k xs
    by (induction xs) auto
  have "length (cm_tokens m) = cm_row_stride m * length (cm_lanes m)"
    using P len [of "row_control control slots" "cm_row_stride m" "cm_lanes m"] by argo
  with P control_lanes.sweep_items [OF sweep] control_sequences.sweep_items [OF sweep] show ?thesis
    by simp
qed

theorem control_batch_rectangular_witness:
  "\<exists>m. build_control_membership (\<lambda>o1 :: nat list. o1)
     [Some ((request_record 1 1 [7, 8])\<lparr>rq_model_state := ControlReady, rq_sequence := Some (3 :: nat),
        rq_budget := Some \<lparr>gb_remaining = 5, gb_limit_reason = OutputLimit\<rparr>\<rparr>), None] 2 = Inr m \<and>
     cm_lanes m = [0] \<and> cm_tokens m = [7, 8] \<and> length (cm_tokens m) = cm_row_stride m * length (cm_lanes m)"
proof -
  let ?slots = "[Some ((request_record 1 1 [7 :: nat, 8])\<lparr>rq_model_state := ControlReady, rq_sequence := Some (3 :: nat),
        rq_budget := Some \<lparr>gb_remaining = 5, gb_limit_reason = OutputLimit\<rparr>\<rparr>), None]"
  let ?m = "\<lparr>cm_lanes = [0], cm_sequences = [3 :: nat], cm_tokens = [7 :: nat, 8], cm_row_stride = 2\<rparr>"
  have m: "build_control_membership (\<lambda>o1 :: nat list. o1) ?slots 2 = Inr ?m"
    by (simp add: build_control_membership_def control_row_def request_record_def is_control_ready_def
        Let_def upt_conv_Cons)
  have "\<forall>l<2. \<forall>r b. (?slots :: (nat list, nat) request option list) ! l = Some r \<longrightarrow> rq_budget r = Some b \<longrightarrow> gb_remaining b \<le> uint32_max"
    by (auto simp: less_2_cases_iff)
  with control_batch_rectangular [OF m this]
  have "length (cm_tokens ?m) = cm_row_stride ?m * length (cm_lanes ?m)" by blast
  then show ?thesis by (intro exI [of _ ?m] conjI m) simp_all
qed



end
