(* ===== verification/KvCapacity.thy ===== *)
theory KvCapacity
  imports Prelude
begin

text \<open>
  Sizing of the KV cache at startup (\<open>runtime/engine/kv_capacity.cpp\<close> and the curve and resolution
  records of \<open>runtime/contract/resources.h\<close>), and the saturating prefill-work features of the
  same header. \<open>uint32_t\<close>, \<open>uint64_t\<close> and \<open>size_t\<close> are natural numbers with
  the wrap-around of each unguarded operation written out.
\<close>

section \<open>Capacity curve\<close>

record capacity_curve =
  cv_main_page_tokens :: nat
  cv_minimum_main_page_groups :: nat
  cv_maximum_main_page_groups :: nat
  cv_minimum_device_reservation_bytes :: nat
  cv_bytes_per_additional_main_page_group :: nat

definition kv_checked_add :: "nat \<Rightarrow> nat \<Rightarrow> nat res" where
  "kv_checked_add a b = (if b > uint64_max - a then Inl OverflowError else Inr (u64_add a b))"

definition kv_checked_mul :: "nat \<Rightarrow> nat \<Rightarrow> nat res" where
  "kv_checked_mul a b =
     (if b \<noteq> 0 \<and> a > uint64_max div b then Inl OverflowError else Inr (u64_mul a b))"

definition validate_curve :: "capacity_curve \<Rightarrow> unit res" where
  "validate_curve c =
     (if cv_main_page_tokens c = 0 \<or> cv_minimum_main_page_groups c = 0 \<or>
         cv_minimum_main_page_groups c > cv_maximum_main_page_groups c \<or>
         cv_minimum_device_reservation_bytes c = 0 then Inl InvalidArgument
      else if cv_minimum_main_page_groups c < cv_maximum_main_page_groups c \<and>
         cv_bytes_per_additional_main_page_group c = 0 then Inl InvalidArgument
      else Inr ())"

definition reservation_bytes :: "capacity_curve \<Rightarrow> nat \<Rightarrow> nat res" where
  "reservation_bytes c groups =
     rbind (validate_curve c) (\<lambda>_.
       if groups < cv_minimum_main_page_groups c \<or> groups > cv_maximum_main_page_groups c
       then Inl InvalidArgument
       else rbind (kv_checked_mul (u32_sub groups (cv_minimum_main_page_groups c))
                     (cv_bytes_per_additional_main_page_group c))
              (kv_checked_add (cv_minimum_device_reservation_bytes c)))"

definition resolved_tokens :: "capacity_curve \<Rightarrow> nat \<Rightarrow> nat res" where
  "resolved_tokens c groups =
     rbind (validate_curve c) (\<lambda>_.
       if groups < cv_minimum_main_page_groups c \<or> groups > cv_maximum_main_page_groups c
       then Inl InvalidArgument
       else (let tokens = u64_mul groups (cv_main_page_tokens c) in
             if tokens > uint32_max then Inl OverflowError else Inr tokens))"

section \<open>Resolution\<close>

datatype kv_capacity_mode = Explicit | Automatic

record kv_capacity_policy =
  kp_mode :: kv_capacity_mode
  kp_explicit_tokens :: nat
  kp_automatic_headroom_bytes :: nat

definition explicit_page_groups :: "kv_capacity_policy \<Rightarrow> capacity_curve \<Rightarrow> nat res" where
  "explicit_page_groups policy c =
     (if kp_explicit_tokens policy = 0 then Inl InvalidArgument
      else (let pages = u64_add 1 ((kp_explicit_tokens policy - 1) div cv_main_page_tokens c) in
            if pages > uint32_max then Inl OverflowError else Inr pages))"

text \<open>The fields not set by the resolver keep their initializer, zero.\<close>

record kv_capacity_resolution =
  kr_mode :: kv_capacity_mode
  kr_main_page_groups :: nat
  kr_maximum_main_page_groups :: nat
  kr_resolved_tokens :: nat
  kr_minimum_runtime_reservation_bytes :: nat
  kr_bytes_per_additional_main_page_group :: nat
  kr_runtime_reservation_bytes :: nat
  kr_available_after_weights_bytes :: nat
  kr_available_after_startup_bytes :: nat
  kr_automatic_headroom_bytes :: nat
  kr_planned_slack_bytes :: nat

definition automatic_page_groups :: "capacity_curve \<Rightarrow> nat \<Rightarrow> nat" where
  "automatic_page_groups c budget =
     (if cv_minimum_main_page_groups c < cv_maximum_main_page_groups c then
        (let additional = (budget - cv_minimum_device_reservation_bytes c) div
                          cv_bytes_per_additional_main_page_group c;
             candidate = u64_add (cv_minimum_main_page_groups c) additional
         in min candidate (cv_maximum_main_page_groups c))
      else cv_minimum_main_page_groups c)"

definition choose_page_groups ::
  "kv_capacity_policy \<Rightarrow> capacity_curve \<Rightarrow> nat \<Rightarrow> (nat \<times> nat) res" where
  "choose_page_groups policy c available =
     (case kp_mode policy of
        Explicit \<Rightarrow>
          if kp_automatic_headroom_bytes policy \<noteq> 0 then Inl InvalidArgument
          else rbind (explicit_page_groups policy c) (\<lambda>pages. Inr (pages, available))
      | Automatic \<Rightarrow>
          if available < kp_automatic_headroom_bytes policy then Inl InvalidArgument
          else (let budget = u64_sub available (kp_automatic_headroom_bytes policy) in
            if budget < cv_minimum_device_reservation_bytes c then Inl InvalidArgument
            else Inr (automatic_page_groups c budget, budget)))"

definition resolve_kv_capacity ::
  "kv_capacity_policy \<Rightarrow> capacity_curve \<Rightarrow> nat \<Rightarrow> kv_capacity_resolution res" where
  "resolve_kv_capacity policy c available =
     rbind (validate_curve c) (\<lambda>_.
     rbind (choose_page_groups policy c available) (\<lambda>(pages, budget).
     rbind (reservation_bytes c pages) (\<lambda>reservation.
       if reservation > budget then Inl InvalidArgument
       else rbind (resolved_tokens c pages) (\<lambda>tokens.
         Inr \<lparr>kr_mode = kp_mode policy, kr_main_page_groups = pages,
              kr_maximum_main_page_groups = cv_maximum_main_page_groups c,
              kr_resolved_tokens = tokens,
              kr_minimum_runtime_reservation_bytes = cv_minimum_device_reservation_bytes c,
              kr_bytes_per_additional_main_page_group = cv_bytes_per_additional_main_page_group c,
              kr_runtime_reservation_bytes = reservation,
              kr_available_after_weights_bytes = available,
              kr_available_after_startup_bytes = 0,
              kr_automatic_headroom_bytes = kp_automatic_headroom_bytes policy,
              kr_planned_slack_bytes = u64_sub available reservation\<rparr>))))"

section \<open>Prefill work\<close>

record prefill_work =
  pw_chunks :: nat
  pw_tokens :: nat
  pw_attention_pairs :: nat
  pw_vision_items :: nat
  pw_vision_patches :: nat

abbreviation uint128_max :: nat where "uint128_max \<equiv> 2 ^ 128 - 1"

definition make_prefill_work :: "nat \<Rightarrow> nat \<Rightarrow> nat \<Rightarrow> nat \<Rightarrow> nat \<Rightarrow> prefill_work" where
  "make_prefill_work prefix_tokens suffix_tokens vision_items vision_patches prefill_chunk =
     (let linear = (prefix_tokens * suffix_tokens) mod (uint128_max + 1);
          triangular = (suffix_tokens * ((suffix_tokens + 1) mod (uint128_max + 1))) mod (uint128_max + 1) div 2;
          attention = (if triangular > uint128_max - linear then uint128_max else linear + triangular)
      in \<lparr>pw_chunks = (if suffix_tokens = 0 \<or> prefill_chunk = 0 then 0
                       else u64_add 1 ((suffix_tokens - 1) div prefill_chunk)),
          pw_tokens = suffix_tokens,
          pw_attention_pairs = (if attention > uint64_max then uint64_max else attention),
          pw_vision_items = vision_items, pw_vision_patches = vision_patches\<rparr>)"

section \<open>Lemmas\<close>

definition curve_in_range :: "capacity_curve \<Rightarrow> bool" where
  "curve_in_range c \<longleftrightarrow> cv_main_page_tokens c \<le> uint32_max \<and> cv_minimum_main_page_groups c \<le> uint32_max \<and>
     cv_maximum_main_page_groups c \<le> uint32_max \<and> cv_minimum_device_reservation_bytes c \<le> uint64_max \<and>
     cv_bytes_per_additional_main_page_group c \<le> uint64_max"

definition affine_bytes :: "capacity_curve \<Rightarrow> nat \<Rightarrow> nat" where
  "affine_bytes c groups = cv_minimum_device_reservation_bytes c +
     (groups - cv_minimum_main_page_groups c) * cv_bytes_per_additional_main_page_group c"

lemma kv_checked_add_iff: "kv_checked_add a b = Inr s \<longleftrightarrow> s = a + b \<and> a + b \<le> uint64_max" if "a \<le> uint64_max"
  using that by (auto simp: kv_checked_add_def u64_add_def)

lemma kv_checked_mul_iff: "kv_checked_mul a b = Inr s \<longleftrightarrow> s = a * b \<and> a * b \<le> uint64_max"
  unfolding kv_checked_mul_def mul_guard_exact by (auto simp: u64_mul_def)

lemma reservation_bytes_iff:
  assumes "curve_in_range c"
  shows "reservation_bytes c g = Inr n \<longleftrightarrow>
    validate_curve c = Inr () \<and> cv_minimum_main_page_groups c \<le> g \<and> g \<le> cv_maximum_main_page_groups c \<and>
    n = affine_bytes c g \<and> affine_bytes c g \<le> uint64_max"
proof -
  have "u32_sub g (cv_minimum_main_page_groups c) = g - cv_minimum_main_page_groups c"
    if "cv_minimum_main_page_groups c \<le> g" "g \<le> cv_maximum_main_page_groups c"
    using that assms by (intro u32_sub_small) (auto simp: curve_in_range_def)
  with assms show ?thesis
    by (auto simp: reservation_bytes_def rbind_Inr_iff kv_checked_mul_iff kv_checked_add_iff
        curve_in_range_def affine_bytes_def)
qed

lemma affine_bytes_mono: "g \<le> h \<Longrightarrow> affine_bytes c g \<le> affine_bytes c h"
  by (simp add: affine_bytes_def diff_le_mono)

lemma automatic_page_groups_maximal:
  assumes v: "validate_curve c = Inr ()" and r: "curve_in_range c"
    and b: "cv_minimum_device_reservation_bytes c \<le> budget" "budget < 2 ^ 63"
  shows "cv_minimum_main_page_groups c \<le> automatic_page_groups c budget \<and>
    automatic_page_groups c budget \<le> cv_maximum_main_page_groups c \<and>
    affine_bytes c (automatic_page_groups c budget) \<le> budget \<and>
    (\<forall>g. g \<le> cv_maximum_main_page_groups c \<longrightarrow> affine_bytes c g \<le> budget \<longrightarrow>
       g \<le> automatic_page_groups c budget)"
proof -
  let ?min = "cv_minimum_main_page_groups c" and ?max = "cv_maximum_main_page_groups c"
  let ?s = "cv_bytes_per_additional_main_page_group c" and ?b0 = "cv_minimum_device_reservation_bytes c"
  let ?k = "(budget - ?b0) div ?s"
  have le: "?min \<le> ?max" using v by (auto simp: validate_curve_def split: if_splits)
  show ?thesis
  proof (cases "?min < ?max")
    case False
    with le b show ?thesis by (auto simp: automatic_page_groups_def affine_bytes_def)
  next
    case True
    with v have s: "?s \<noteq> 0" by (auto simp: validate_curve_def split: if_splits)
    have "?k \<le> budget" by (meson diff_le_self div_le_dividend order_trans)
    then have "u64_add ?min ?k = ?min + ?k"
      using r b(2) by (intro u64_add_small) (auto simp: curve_in_range_def)
    with True have eq: "automatic_page_groups c budget = min (?min + ?k) ?max"
      by (simp add: automatic_page_groups_def Let_def)
    have "?k * ?s \<le> budget - ?b0" by (rule div_times_less_eq_dividend)
    then have fits: "affine_bytes c (?min + ?k) \<le> budget"
      unfolding affine_bytes_def add_diff_cancel_left' using b(1) by linarith
    then have "affine_bytes c (min (?min + ?k) ?max) \<le> budget"
      using affine_bytes_mono [of "min (?min + ?k) ?max" "?min + ?k" c] by simp
    moreover have "g \<le> ?min + ?k" if "affine_bytes c g \<le> budget" for g
    proof -
      have "(g - ?min) * ?s \<le> budget - ?b0" using that b(1) by (simp add: affine_bytes_def)
      then have "g - ?min \<le> ?k" using s by (simp add: less_eq_div_iff_mult_less_eq)
      then show ?thesis by simp
    qed
    ultimately show ?thesis using le by (auto simp: eq)
  qed
qed

lemma resolved_tokens_iff:
  assumes "curve_in_range c" "validate_curve c = Inr ()"
    "cv_minimum_main_page_groups c \<le> g" "g \<le> cv_maximum_main_page_groups c"
  shows "resolved_tokens c g = Inr t \<longleftrightarrow>
    t = g * cv_main_page_tokens c \<and> g * cv_main_page_tokens c \<le> uint32_max"
proof -
  have "g \<le> uint32_max" "cv_main_page_tokens c \<le> uint32_max"
    using assms by (auto simp: curve_in_range_def)
  then have "g * cv_main_page_tokens c \<le> uint32_max * uint32_max" by (rule mult_le_mono)
  then have "u64_mul g (cv_main_page_tokens c) = g * cv_main_page_tokens c"
    by (intro u64_mul_small) simp
  with assms show ?thesis by (auto simp: resolved_tokens_def Let_def)
qed

lemma choose_automatic:
  assumes "kp_mode policy = Automatic" "available < 2 ^ 63"
  shows "choose_page_groups policy c available =
    (if kp_automatic_headroom_bytes policy + cv_minimum_device_reservation_bytes c \<le> available
     then Inr (automatic_page_groups c (available - kp_automatic_headroom_bytes policy),
               available - kp_automatic_headroom_bytes policy)
     else Inl InvalidArgument)"
  using assms u64_sub_small [of "kp_automatic_headroom_bytes policy" available]
  by (auto simp: choose_page_groups_def Let_def)

section \<open>Properties\<close>

text \<open>
  C22. Automatic sizing of the KV cache. It succeeds exactly when the curve is valid, the minimum
  reservation and the headroom fit in the available bytes and the resulting token count fits in
  \<open>uint32_t\<close>; the reservation then leaves the headroom free, and the number of page groups is the
  largest one of the curve that does.
\<close>

theorem automatic_capacity_maximal:
  assumes "curve_in_range c" and "available < 2 ^ 63" and "kp_mode policy = Automatic"
  shows "case resolve_kv_capacity policy c available of
      Inr r \<Rightarrow>
        kr_runtime_reservation_bytes r = affine_bytes c (kr_main_page_groups r) \<and>
        kr_runtime_reservation_bytes r + kp_automatic_headroom_bytes policy \<le> available \<and>
        kr_planned_slack_bytes r = available - kr_runtime_reservation_bytes r \<and>
        kr_resolved_tokens r = kr_main_page_groups r * cv_main_page_tokens c \<and>
        kr_main_page_groups r =
          Max {g. cv_minimum_main_page_groups c \<le> g \<and> g \<le> cv_maximum_main_page_groups c \<and>
                  affine_bytes c g + kp_automatic_headroom_bytes policy \<le> available}
    | Inl err \<Rightarrow>
        validate_curve c \<noteq> Inr () \<or>
        available < kp_automatic_headroom_bytes policy + cv_minimum_device_reservation_bytes c \<or>
        err = OverflowError \<and>
        uint32_max < automatic_page_groups c (available - kp_automatic_headroom_bytes policy) * cv_main_page_tokens c"
proof (cases "validate_curve c = Inr () \<and>
    kp_automatic_headroom_bytes policy + cv_minimum_device_reservation_bytes c \<le> available")
  case False
  then have "\<exists>err. resolve_kv_capacity policy c available = Inl err"
    using choose_automatic [OF assms(3,2), of c]
    by (cases "validate_curve c") (auto simp: resolve_kv_capacity_def)
  with False show ?thesis by auto
next
  case True
  let ?h = "kp_automatic_headroom_bytes policy"
  let ?budget = "available - ?h"
  let ?g = "automatic_page_groups c ?budget"
  have choose: "choose_page_groups policy c available = Inr (?g, ?budget)"
    using True choose_automatic [OF assms(3,2), of c] by simp
  have max: "cv_minimum_main_page_groups c \<le> ?g" "?g \<le> cv_maximum_main_page_groups c"
    "affine_bytes c ?g \<le> ?budget"
    "\<And>g. g \<le> cv_maximum_main_page_groups c \<Longrightarrow> affine_bytes c g \<le> ?budget \<Longrightarrow> g \<le> ?g"
    using automatic_page_groups_maximal [of c ?budget] True assms by auto
  have res: "reservation_bytes c ?g = Inr (affine_bytes c ?g)"
    using True max assms by (simp add: reservation_bytes_iff)
  have slack: "u64_sub available (affine_bytes c ?g) = available - affine_bytes c ?g"
    using max(3) assms(2) by (intro u64_sub_small) simp_all
  have fits: "affine_bytes c ?g + ?h \<le> available" using max(3) True by linarith
  have gmax: "Max {g. cv_minimum_main_page_groups c \<le> g \<and> g \<le> cv_maximum_main_page_groups c \<and>
                  affine_bytes c g + ?h \<le> available} = ?g" (is "Max ?S = _")
  proof (rule Max_eqI)
    show "finite ?S" by simp
    show "?g \<in> ?S" using max(1-3) True by auto
    show "g \<le> ?g" if "g \<in> ?S" for g using that max(4) [of g] by auto
  qed
  have "resolved_tokens c ?g = (if ?g * cv_main_page_tokens c \<le> uint32_max
      then Inr (?g * cv_main_page_tokens c) else Inl OverflowError)"
  proof (cases "?g * cv_main_page_tokens c \<le> uint32_max")
    case True
    with resolved_tokens_iff [of c ?g] \<open>validate_curve c = Inr () \<and> _\<close> assms max show ?thesis by auto
  next
    case False
    then have "\<nexists>t. resolved_tokens c ?g = Inr t"
      using resolved_tokens_iff [of c ?g] \<open>validate_curve c = Inr () \<and> _\<close> assms max by auto
    with False \<open>validate_curve c = Inr () \<and> _\<close> max show ?thesis
      by (auto simp: resolved_tokens_def Let_def split: if_splits)
  qed
  then show ?thesis
    using True choose res max(3) slack fits
    by (simp add: resolve_kv_capacity_def assms(3) gmax)
qed

theorem automatic_capacity_maximal_witness:
  "\<exists>r. resolve_kv_capacity \<lparr>kp_mode = Automatic, kp_explicit_tokens = 0, kp_automatic_headroom_bytes = 100\<rparr>
     \<lparr>cv_main_page_tokens = 16, cv_minimum_main_page_groups = 2, cv_maximum_main_page_groups = 9,
      cv_minimum_device_reservation_bytes = 50, cv_bytes_per_additional_main_page_group = 20\<rparr> 235 = Inr r \<and>
     kr_main_page_groups r = 6 \<and> kr_runtime_reservation_bytes r = 130 \<and>
     kr_runtime_reservation_bytes r + 100 \<le> 235"
proof -
  let ?p = "\<lparr>kp_mode = Automatic, kp_explicit_tokens = 0, kp_automatic_headroom_bytes = 100\<rparr>"
  let ?c = "\<lparr>cv_main_page_tokens = 16, cv_minimum_main_page_groups = 2, cv_maximum_main_page_groups = 9,
      cv_minimum_device_reservation_bytes = 50, cv_bytes_per_additional_main_page_group = 20\<rparr>"
  have "\<exists>r. resolve_kv_capacity ?p ?c 235 = Inr r \<and> kr_main_page_groups r = 6 \<and>
      kr_runtime_reservation_bytes r = 130"
    by (simp add: resolve_kv_capacity_def validate_curve_def choose_page_groups_def
        automatic_page_groups_def reservation_bytes_def kv_checked_mul_def kv_checked_add_def
        resolved_tokens_def u64_sub_def u64_add_def u64_mul_def u32_sub_def)
  moreover have "curve_in_range ?c" by (simp add: curve_in_range_def)
  ultimately show ?thesis
    using automatic_capacity_maximal [of ?c 235 ?p] by auto
qed

lemma causal_pairs_sum: "(\<Sum>i\<in>{..<s}. p + i + 1) = p * s + s * (s + 1) div (2 :: nat)"
proof (induction s)
  case (Suc s)
  have "Suc s * (Suc s + 1) = s * (s + 1) + 2 * (s + 1)" by (simp add: algebra_simps)
  then have "Suc s * (Suc s + 1) div 2 = s * (s + 1) div 2 + (s + 1)" by simp
  with Suc show ?case by simp
qed simp

lemma saturate_twice:
  fixes L T M U :: nat
  assumes "U \<le> M" "L \<le> M"
  shows "(if (if T > M - L then M else L + T) > U then U else if T > M - L then M else L + T) = min U (L + T)"
  using assms by auto

text \<open>
  The prefill-work features are exact up to saturation: the attention pairs of a suffix are the
  sum over its tokens of the positions each attends to, capped at the largest \<open>uint64_t\<close>, although
  the code computes them in 128-bit arithmetic; and the chunk count is the rounded-up quotient.
\<close>

theorem prefill_work_exact:
  assumes "prefix_tokens \<le> uint64_max" and "suffix_tokens \<le> uint64_max" and "0 < chunk"
  shows "pw_attention_pairs (make_prefill_work prefix_tokens suffix_tokens items patches chunk) =
      min uint64_max (\<Sum>i\<in>{..<suffix_tokens}. prefix_tokens + i + 1) \<and>
    pw_chunks (make_prefill_work prefix_tokens suffix_tokens items patches chunk) =
      (suffix_tokens + chunk - 1) div chunk"
proof -
  let ?p = prefix_tokens and ?s = suffix_tokens
  have "?p * ?s \<le> uint64_max * uint64_max" using assms by (intro mult_le_mono)
  then have lin: "(?p * ?s) mod (uint128_max + 1) = ?p * ?s" by simp
  have "?s * (?s + 1) \<le> uint64_max * (uint64_max + 1)" using assms by (intro mult_le_mono) auto
  then have tri: "(?s * ((?s + 1) mod (uint128_max + 1))) mod (uint128_max + 1) = ?s * (?s + 1)"
    using assms(2) by simp
  have "pw_chunks (make_prefill_work ?p ?s items patches chunk) = (?s + chunk - 1) div chunk"
  proof (cases "?s = 0")
    case True
    with assms(3) show ?thesis by (simp add: make_prefill_work_def)
  next
    case False
    then have "(?s + chunk - 1) div chunk = (?s - 1 + chunk) div chunk" by simp
    also have "\<dots> = 1 + (?s - 1) div chunk" using assms(3) by (simp add: div_add_self2)
    also have "\<dots> = u64_add 1 ((?s - 1) div chunk)"
    proof (rule u64_add_small [symmetric])
      have "(?s - 1) div chunk \<le> ?s - 1" by simp
      with False assms(2) show "1 + (?s - 1) div chunk \<le> uint64_max" by linarith
    qed
    finally show ?thesis using False assms(3) by (simp add: make_prefill_work_def Let_def)
  qed
  moreover have "pw_attention_pairs (make_prefill_work ?p ?s items patches chunk) =
      min uint64_max (?p * ?s + ?s * (?s + 1) div 2)"
    unfolding make_prefill_work_def Let_def lin tri prefill_work.select_convs
    by (rule saturate_twice) (use \<open>?p * ?s \<le> uint64_max * uint64_max\<close> in simp_all)
  ultimately show ?thesis by (simp only: causal_pairs_sum)
qed

theorem prefill_work_exact_witness:
  "pw_attention_pairs (make_prefill_work 3 2 0 0 2) = 9 \<and> pw_chunks (make_prefill_work 3 5 0 0 2) = 3"
proof -
  have "{..<2} = {0, 1 :: nat}" by auto
  then show ?thesis
    using prefill_work_exact [of 3 2 2 0 0] prefill_work_exact [of 3 5 2 0 0] by simp
qed

end
