(* ===== verification/ResponsesStore.thy ===== *)
theory ResponsesStore
  imports Prelude "HOL-Library.Multiset" "HOL-Library.Sublist"
begin

text \<open>
  The bounded store of OpenAI Responses objects (\<open>serve/openai_responses_store.h\<close> and
  \<open>.cpp\<close>): records in least-recently-used order over a shared, reference-counted DAG of
  conversation contexts, with byte accounting.

  A context is an immutable \<open>shared_ptr\<close> chain. Here it is the list of its nodes, the node
  pointed to first and its ancestors after it; the null pointer is the empty list, and the address
  of a node is its field \<open>cn_address\<close>. The JSON library and the layout of C++ objects are
  arguments: \<open>dump_size\<close>, \<open>is_object\<close>, and the record \<open>object_sizes\<close> of the
  \<open>sizeof\<close> values. Exceptions return the state beside the error.
\<close>

section \<open>Data\<close>

record content_part =
  cp_text :: string
  cp_type_raw :: string
  cp_source_value :: string
  cp_source_media_type :: string
  cp_source_bytes :: "nat list"

record tool_call =
  tc_id :: string
  tc_name :: string
  tc_arguments_json :: string

record chat_turn =
  ct_content :: "content_part list"
  ct_tool_calls :: "tool_call list"
  ct_tool_call_id :: string
  ct_tool_result_name :: "string option"
  ct_reasoning_content :: string

record object_sizes =
  sz_chat_turn :: nat
  sz_content_part :: nat
  sz_tool_call :: nat
  sz_context_node :: nat
  sz_stored_response :: nat
  sz_json :: nat

record context_node =
  cn_address :: nat
  cn_turns :: "chat_turn list"
  cn_owned_bytes :: nat
  cn_cumulative_bytes :: nat
  cn_cumulative_turns :: nat

type_synonym response_context = "context_node list"

record 'j stored_response =
  sr_id :: string
  sr_session_key :: string
  sr_response :: 'j
  sr_input_items :: "'j list"
  sr_context :: response_context
  sr_preserve_thinking :: "bool option"

record 'j store_entry =
  se_response :: "'j stored_response"
  se_envelope_bytes :: nat

record 'j store =
  rs_max_records :: nat
  rs_max_bytes :: nat
  rs_records :: "(string \<times> 'j store_entry) list"
  rs_lru :: "string list"
  rs_references :: "nat \<rightharpoonup> nat"
  rs_current_bytes :: nat

section \<open>Byte estimates and contexts\<close>

definition u64_sum :: "nat list \<Rightarrow> nat" where
  "u64_sum xs = fold (\<lambda>x acc. u64_add acc x) xs 0"

definition estimate_turn_bytes :: "object_sizes \<Rightarrow> chat_turn \<Rightarrow> nat" where
  "estimate_turn_bytes sz t =
     u64_sum ([sz_chat_turn sz, length (ct_tool_call_id t), length (ct_reasoning_content t)] @
       (case ct_tool_result_name t of None \<Rightarrow> [] | Some n \<Rightarrow> [length n]) @
       map (\<lambda>p. u64_sum [sz_content_part sz, length (cp_text p), length (cp_type_raw p),
              length (cp_source_value p), length (cp_source_media_type p), length (cp_source_bytes p)])
         (ct_content t) @
       map (\<lambda>c. u64_sum [sz_tool_call sz, length (tc_id c), length (tc_name c), length (tc_arguments_json c)])
         (ct_tool_calls t))"

definition record_envelope_bytes ::
  "object_sizes \<Rightarrow> ('j \<Rightarrow> nat) \<Rightarrow> 'j stored_response \<Rightarrow> nat" where
  "record_envelope_bytes sz dump_size r =
     u64_sum ([sz_stored_response sz, length (sr_id r), length (sr_session_key r), dump_size (sr_response r)] @
       map (\<lambda>i. u64_add (sz_json sz) (dump_size i)) (sr_input_items r))"

definition store_checked_add :: "nat \<Rightarrow> nat \<Rightarrow> nat res" where
  "store_checked_add left right =
     (if right > uint64_max - left then Inl OverflowError else Inr (u64_add left right))"

text \<open>\<open>addr\<close> is the address \<open>make_shared\<close> returns.\<close>

definition append_openai_response_context ::
  "object_sizes \<Rightarrow> nat \<Rightarrow> response_context \<Rightarrow> chat_turn list \<Rightarrow> response_context res" where
  "append_openai_response_context sz addr parent turns =
     (let owned = fold (\<lambda>t acc. u64_add acc (estimate_turn_bytes sz t)) turns (sz_context_node sz);
          parent_bytes = (case parent of [] \<Rightarrow> 0 | n # _ \<Rightarrow> cn_cumulative_bytes n);
          parent_turns = (case parent of [] \<Rightarrow> 0 | n # _ \<Rightarrow> cn_cumulative_turns n)
      in rbind (store_checked_add owned parent_bytes) (\<lambda>total_bytes.
         rbind (store_checked_add (length turns) parent_turns) (\<lambda>total_turns.
           Inr (\<lparr>cn_address = addr, cn_turns = turns, cn_owned_bytes = owned,
                 cn_cumulative_bytes = total_bytes, cn_cumulative_turns = total_turns\<rparr> # parent))))"

definition flatten_openai_response_context :: "response_context \<Rightarrow> chat_turn list" where
  "flatten_openai_response_context c = concat (map cn_turns (rev c))"

section \<open>Reference counts\<close>

text \<open>The nodes of a chain up to the first one that is already live, and the rest of the chain.\<close>

fun split_new :: "(nat \<rightharpoonup> nat) \<Rightarrow> response_context \<Rightarrow> context_node list \<times> response_context" where
  "split_new refs [] = ([], [])"
| "split_new refs (n # c) =
     (if refs (cn_address n) \<noteq> None then ([], n # c)
      else (let (new, cursor) = split_new refs c in (n # new, cursor)))"

text \<open>The insertion loop; on overflow the caller rolls back, so only the error is returned.\<close>

fun insert_new ::
  "context_node list \<Rightarrow> (nat \<rightharpoonup> nat) \<Rightarrow> nat \<Rightarrow> ((nat \<rightharpoonup> nat) \<times> nat) res" where
  "insert_new [] refs b = Inr (refs, b)"
| "insert_new (n # ns) refs b =
     rbind (store_checked_add b (cn_owned_bytes n)) (\<lambda>b'.
       if refs (cn_address n) \<noteq> None then Inl LogicError
       else insert_new ns (refs(cn_address n \<mapsto> 1)) b')"

definition retain_context ::
  "response_context \<Rightarrow> (nat \<rightharpoonup> nat) \<Rightarrow> nat \<Rightarrow> ((nat \<rightharpoonup> nat) \<times> nat) res" where
  "retain_context c refs b =
     (case c of
        [] \<Rightarrow> Inr (refs, b)
      | n # _ \<Rightarrow>
          (case refs (cn_address n) of
             Some k \<Rightarrow> if k = uint64_max then Inl OverflowError else Inr (refs(cn_address n \<mapsto> k + 1), b)
           | None \<Rightarrow>
               (let (new, cursor) = split_new refs c in
                rbind (insert_new new refs b) (\<lambda>(refs', b').
                  case cursor of
                    [] \<Rightarrow> Inr (refs', b')
                  | m # _ \<Rightarrow>
                      (case refs' (cn_address m) of
                         None \<Rightarrow> Inl LogicError
                       | Some k \<Rightarrow> if k = uint64_max then Inl OverflowError
                                   else Inr (refs'(cn_address m \<mapsto> k + 1), b'))))))"

fun release_context ::
  "response_context \<Rightarrow> (nat \<rightharpoonup> nat) \<Rightarrow> nat \<Rightarrow> ((nat \<rightharpoonup> nat) \<times> nat) res" where
  "release_context [] refs b = Inr (refs, b)"
| "release_context (n # c) refs b =
     (case refs (cn_address n) of
        None \<Rightarrow> Inl LogicError
      | Some k \<Rightarrow>
          if k = 0 then Inl LogicError
          else if k \<noteq> 1 then Inr (refs(cn_address n \<mapsto> k - 1), b)
          else if b < cn_owned_bytes n then Inl LogicError
          else release_context c (refs(cn_address n := None)) (u64_sub b (cn_owned_bytes n)))"

section \<open>Store operations\<close>

definition make_store :: "nat \<Rightarrow> nat \<Rightarrow> 'j store res" where
  "make_store max_records max_bytes =
     (if max_records = 0 \<or> max_bytes = 0 then Inl InvalidArgument
      else Inr \<lparr>rs_max_records = max_records, rs_max_bytes = max_bytes, rs_records = [], rs_lru = [],
                rs_references = Map.empty, rs_current_bytes = 0\<rparr>)"

definition store_get :: "string \<Rightarrow> 'j store \<Rightarrow> 'j stored_response option \<times> 'j store" where
  "store_get i s =
     (case map_of (rs_records s) i of
        None \<Rightarrow> (None, s)
      | Some e \<Rightarrow> (Some (se_response e), s\<lparr>rs_lru := i # remove1 i (rs_lru s)\<rparr>))"

definition erase_locked :: "string \<Rightarrow> 'j store \<Rightarrow> 'j store res" where
  "erase_locked i s =
     (case map_of (rs_records s) i of
        None \<Rightarrow> Inr s
      | Some e \<Rightarrow>
          if rs_current_bytes s < se_envelope_bytes e then Inl LogicError
          else rbind (release_context (sr_context (se_response e)) (rs_references s)
                        (u64_sub (rs_current_bytes s) (se_envelope_bytes e)))
            (\<lambda>(refs, b). Inr (s\<lparr>rs_records := filter (\<lambda>(k, _). k \<noteq> i) (rs_records s),
                                rs_lru := remove1 i (rs_lru s), rs_references := refs,
                                rs_current_bytes := b\<rparr>)))"

definition store_erase :: "string \<Rightarrow> 'j store \<Rightarrow> ('j store \<times> bool) res" where
  "store_erase i s =
     (if map_of (rs_records s) i = None then Inr (s, False)
      else rbind (erase_locked i s) (\<lambda>s'. Inr (s', True)))"

definition over_limits :: "'j store \<Rightarrow> bool" where
  "over_limits s \<longleftrightarrow> length (rs_records s) > rs_max_records s \<or> rs_current_bytes s > rs_max_bytes s"

text \<open>The identifier the eviction loop picks: the last of the list, or the one before the new record.\<close>

definition victim_of :: "string \<Rightarrow> string list \<Rightarrow> string res" where
  "victim_of i lru =
     (if lru = [] then Inl LogicError
      else if last lru = i then
        (if length lru = 1 then Inl RuntimeError else Inr (last (butlast lru)))
      else Inr (last lru))"

text \<open>
  Each iteration removes one list entry, so as many iterations as the list has entries, and one
  more to find it empty, are all the loop can run.
\<close>

fun evict_loop :: "nat \<Rightarrow> string \<Rightarrow> 'j store \<Rightarrow> 'j store res" where
  "evict_loop 0 i s = Inl LogicError"
| "evict_loop (Suc fuel) i s =
     (if \<not> over_limits s then Inr s
      else rbind (victim_of i (rs_lru s)) (\<lambda>v. rbind (erase_locked v s) (evict_loop fuel i)))"

text \<open>
  \<open>put\<close>. Until the eviction loop every exception leaves the store as it was; the rollback code
  of the source restores the list, the map and the byte count.
\<close>

definition store_put ::
  "object_sizes \<Rightarrow> ('j \<Rightarrow> nat) \<Rightarrow> ('j \<Rightarrow> bool) \<Rightarrow> 'j stored_response \<Rightarrow> 'j store \<Rightarrow> 'j store res" where
  "store_put sz dump_size is_object r s =
     (if sr_id r = [] \<or> sr_session_key r = [] \<or> length (sr_session_key r) > 256 \<or> \<not> is_object (sr_response r)
      then Inl InvalidArgument
      else
        (let envelope = record_envelope_bytes sz dump_size r;
             context_bytes = (case sr_context r of [] \<Rightarrow> 0 | n # _ \<Rightarrow> cn_cumulative_bytes n)
         in
         if envelope > rs_max_bytes s \<or> context_bytes > rs_max_bytes s - envelope then Inl RuntimeError
         else if map_of (rs_records s) (sr_id r) \<noteq> None then Inl LogicError
         else
           rbind (store_checked_add (rs_current_bytes s) envelope) (\<lambda>b.
           rbind (retain_context (sr_context r) (rs_references s) b) (\<lambda>(refs, b').
             evict_loop (length (rs_lru s) + 2) (sr_id r)
               (s\<lparr>rs_records := (sr_id r, \<lparr>se_response = r, se_envelope_bytes = envelope\<rparr>) # rs_records s,
                  rs_lru := sr_id r # rs_lru s, rs_references := refs, rs_current_bytes := b'\<rparr>)))))"

section \<open>Reference counts of a shared DAG\<close>

text \<open>
  The specification: for a multiset of root pointers, the live nodes are the chains below them, and
  the reference count of a node is the number of roots at it plus the number of live children.
\<close>

definition live :: "response_context multiset \<Rightarrow> response_context set" where
  "live M = {s. s \<noteq> [] \<and> (\<exists>c\<in>#M. suffix s c)}"

definition refcount :: "response_context multiset \<Rightarrow> response_context \<Rightarrow> nat" where
  "refcount M s = count M s + card {t \<in> live M. tl t = s}"

definition live_bytes :: "response_context multiset \<Rightarrow> nat" where
  "live_bytes M = (\<Sum>s\<in>live M. cn_owned_bytes (hd s))"

abbreviation node_address :: "response_context \<Rightarrow> nat" where
  "node_address s \<equiv> cn_address (hd s)"

definition refs_match :: "(nat \<rightharpoonup> nat) \<Rightarrow> response_context multiset \<Rightarrow> bool" where
  "refs_match refs M \<longleftrightarrow>
     dom refs = node_address ` live M \<and> (\<forall>s\<in>live M. refs (node_address s) = Some (refcount M s))"

text \<open>An address belongs to one live object.\<close>

definition alias_ok :: "response_context multiset \<Rightarrow> bool" where
  "alias_ok M \<longleftrightarrow> inj_on node_address (live M)"

lemma finite_live [simp]: "finite (live M)"
proof -
  have "live M \<subseteq> (\<Union>c\<in>set_mset M. set (suffixes c))"
    by (auto simp: live_def)
  then show ?thesis by (rule finite_subset) simp
qed

lemma live_add: "live (add_mset c M) = live M \<union> {s. s \<noteq> [] \<and> suffix s c}"
  by (auto simp: live_def)

lemma live_Nil [simp]: "live (add_mset [] M) = live M"
  by (auto simp: live_add)

lemma live_suffix: "t \<in> live M \<Longrightarrow> suffix s t \<Longrightarrow> s \<noteq> [] \<Longrightarrow> s \<in> live M"
  by (auto simp: live_def intro: suffix_order.trans)

lemma live_tl: "t \<in> live M \<Longrightarrow> tl t \<noteq> [] \<Longrightarrow> tl t \<in> live M"
  by (rule live_suffix) auto

lemma live_root: "c \<in># M \<Longrightarrow> c \<noteq> [] \<Longrightarrow> c \<in> live M"
  by (auto simp: live_def)

lemma alias_ok_mono: "alias_ok M \<Longrightarrow> live N \<subseteq> live M \<Longrightarrow> alias_ok N"
  unfolding alias_ok_def by (rule inj_on_subset)

lemma refcount_Nil [simp]: "s \<noteq> [] \<Longrightarrow> refcount (add_mset [] M) s = refcount M s"
  by (simp add: refcount_def)

text \<open>One more root at a node that is live already.\<close>

lemma add_live_root:
  assumes "c \<in> live M"
  shows "live (add_mset c M) = live M" and "refcount (add_mset c M) s = refcount M s + (if s = c then 1 else 0)"
proof -
  show l: "live (add_mset c M) = live M"
    using assms by (auto simp: live_add intro: live_suffix)
  show "refcount (add_mset c M) s = refcount M s + (if s = c then 1 else 0)"
    by (simp add: refcount_def l)
qed

text \<open>A root moves from a node that is not live otherwise to its parent.\<close>

lemma move_root:
  assumes new: "n # c \<notin> live M"
  shows "live (add_mset (n # c) M) = insert (n # c) (live (add_mset c M))"
    and "n # c \<notin> live (add_mset c M)"
    and "refcount (add_mset (n # c) M) (n # c) = 1"
    and "s \<in> live (add_mset c M) \<Longrightarrow> refcount (add_mset (n # c) M) s = refcount (add_mset c M) s"
proof -
  show l: "live (add_mset (n # c) M) = insert (n # c) (live (add_mset c M))"
    by (auto simp: live_add suffix_Cons)
  have len: "\<not> suffix (n # c) c"
    by (auto dest: suffix_length_le)
  with new show fresh: "n # c \<notin> live (add_mset c M)"
    by (auto simp: live_add)
  have child: "tl t \<noteq> n # c" if "t \<in> live (add_mset c M)" for t
    using live_tl [OF that] fresh by force
  have "count M (n # c) = 0"
    using live_root [of "n # c" M] new by (metis list.distinct(1) not_in_iff)
  moreover have "{t \<in> insert (n # c) (live (add_mset c M)). tl t = n # c} = {}"
    using child by auto
  ultimately show "refcount (add_mset (n # c) M) (n # c) = 1"
    by (simp add: refcount_def l)
  show "refcount (add_mset (n # c) M) s = refcount (add_mset c M) s" if s: "s \<in> live (add_mset c M)"
  proof -
    have ne: "s \<noteq> n # c" using s fresh by auto
    let ?ch = "\<lambda>L. {t \<in> L. tl t = s}"
    show ?thesis
    proof (cases "s = c")
      case True
      have "?ch (insert (n # c) (live (add_mset c M))) = insert (n # c) (?ch (live (add_mset c M)))"
        using True by auto
      with fresh True ne show ?thesis by (simp add: refcount_def l)
    next
      case False
      then have "?ch (insert (n # c) (live (add_mset c M))) = ?ch (live (add_mset c M))"
        by auto
      with False ne show ?thesis by (simp add: refcount_def l)
    qed
  qed
qed

lemma live_bytes_insert:
  "s \<notin> live M \<Longrightarrow> live N = insert s (live M) \<Longrightarrow> live_bytes N = live_bytes M + cn_owned_bytes (hd s)"
  by (simp add: live_bytes_def)

lemma refs_match_address:
  assumes "refs_match refs M" "alias_ok (add_mset c M)" "c \<noteq> []"
  shows "refs (node_address c) = (if c \<in> live M then Some (refcount M c) else None)"
proof (cases "c \<in> live M")
  case False
  have "node_address c \<notin> node_address ` live M"
  proof
    assume "node_address c \<in> node_address ` live M"
    then obtain s where "s \<in> live M" "node_address s = node_address c" by auto
    moreover from this have "s \<in> live (add_mset c M)" "c \<in> live (add_mset c M)"
      using assms(3) by (auto simp: live_add)
    ultimately have "s = c" using assms(2) by (auto simp: alias_ok_def dest: inj_onD)
    with \<open>s \<in> live M\<close> False show False by simp
  qed
  with assms(1) False show ?thesis by (auto simp: refs_match_def)
qed (use assms(1) in \<open>simp add: refs_match_def\<close>)

lemma refs_match_insert:
  assumes "refs_match refs M" "live N = insert s (live M)" "s \<notin> live M" "alias_ok N"
    and "refcount N s = k" "\<And>t. t \<in> live M \<Longrightarrow> refcount N t = refcount M t"
  shows "refs_match (refs(node_address s \<mapsto> k)) N"
proof -
  have "node_address t \<noteq> node_address s" if "t \<in> live M" for t
    using assms(2-4) that by (metis alias_ok_def inj_onD insertCI)
  with assms show ?thesis by (auto simp: refs_match_def)
qed

lemma refs_match_change:
  assumes m: "refs_match refs M" and l: "live N = live M" and c: "c \<in> live M" and a: "alias_ok M"
    and k: "refcount N c = k" and r: "\<And>t. t \<in> live M \<Longrightarrow> t \<noteq> c \<Longrightarrow> refcount N t = refcount M t"
  shows "refs_match (refs(node_address c \<mapsto> k)) N"
  unfolding refs_match_def l
proof (intro conjI ballI)
  show "dom (refs(node_address c \<mapsto> k)) = node_address ` live M"
    using m c by (auto simp: refs_match_def)
  fix t assume t: "t \<in> live M"
  show "(refs(node_address c \<mapsto> k)) (node_address t) = Some (refcount N t)"
  proof (cases "t = c")
    case False
    then have "node_address t \<noteq> node_address c"
      using a c t by (metis alias_ok_def inj_onD)
    with m t r [OF t False] show ?thesis by (simp add: refs_match_def)
  qed (simp add: k)
qed

text \<open>Releasing one root: the loop of \<open>release_context_locked\<close> restores the specification.\<close>

lemma release_context_ok:
  assumes "refs_match refs M" "alias_ok M" "c \<in># M" "b = live_bytes M + rest" "b \<le> uint64_max"
  shows "\<exists>refs'. release_context c refs b = Inr (refs', live_bytes (M - {#c#}) + rest) \<and>
    refs_match refs' (M - {#c#})"
  using assms
proof (induction c arbitrary: M refs b)
  case Nil
  then obtain N where M: "M = add_mset [] N" by (metis insert_DiffM)
  have "[] \<notin> live N" by (simp add: live_def)
  then have "refcount (add_mset [] N) t = refcount N t" if "t \<in> live N" for t
    using that by (intro refcount_Nil) auto
  with Nil show ?case by (auto simp: M refs_match_def live_bytes_def)
next
  case (Cons n c)
  let ?x = "n # c"
  obtain N where M: "M = add_mset ?x N" using Cons.prems(3) by (metis insert_DiffM)
  have x: "?x \<in> live M" using Cons.prems(3) by (simp add: live_root)
  then have refs: "refs (cn_address n) = Some (refcount M ?x)"
    using Cons.prems(1) by (auto simp: refs_match_def)
  show ?case
  proof (cases "?x \<in> live N")
    case True
    note add = add_live_root [OF True]
    have pos: "0 < refcount N ?x"
    proof -
      obtain d where "d \<in># N" "suffix ?x d" using True by (auto simp: live_def)
      show ?thesis
      proof (cases "d = ?x")
        case True
        with \<open>d \<in># N\<close> have "0 < count N ?x" by (simp only: count_greater_zero_iff)
        then show ?thesis by (simp add: refcount_def)
      next
        case False
        with \<open>suffix ?x d\<close> obtain zs where "d = zs @ ?x" "zs \<noteq> []" by (auto simp: suffix_def)
        then have "suffix (last zs # ?x) d"
          by (metis append.assoc append_Cons append_Nil append_butlast_last_id suffix_def)
        with \<open>d \<in># N\<close> have "last zs # ?x \<in> {t \<in> live N. tl t = ?x}" by (auto simp: live_def)
        then have "0 < card {t \<in> live N. tl t = ?x}" by (subst card_gt_0_iff) auto
        then show ?thesis by (simp add: refcount_def)
      qed
    qed
    have k: "refcount M ?x = refcount N ?x + 1" by (simp add: M add)
    have "refs_match (refs(cn_address n \<mapsto> refcount N ?x)) N"
      using refs_match_change [OF Cons.prems(1), of N ?x "refcount N ?x"] add x Cons.prems(2) M
      by simp
    with pos k refs Cons.prems(4) add show ?thesis
      by (simp add: M live_bytes_def)
  next
    case False
    note mv = move_root [OF False]
    let ?M = "add_mset c N"
    have one: "refcount M ?x = 1" using mv(3) by (simp add: M)
    have bytes: "live_bytes M = live_bytes ?M + cn_owned_bytes n"
      using live_bytes_insert [OF mv(2), of M] mv(1) by (simp add: M)
    have al: "alias_ok ?M" using Cons.prems(2) mv(1) by (auto simp: M intro: alias_ok_mono)
    have "node_address t \<noteq> cn_address n" if "t \<in> live ?M" for t
    proof -
      have "t \<in> live M" "t \<noteq> ?x" using that mv(1,2) M by auto
      with x Cons.prems(2) show ?thesis by (metis alias_ok_def inj_onD list.sel(1))
    qed
    then have match: "refs_match (refs(cn_address n := None)) ?M"
      using Cons.prems(1) mv(1,4) by (auto simp: refs_match_def M)
    have sub: "u64_sub b (cn_owned_bytes n) = live_bytes ?M + rest"
      using Cons.prems(4,5) bytes by (subst u64_sub_small) simp_all
    have "\<exists>refs'. release_context c (refs(cn_address n := None)) (live_bytes ?M + rest) =
        Inr (refs', live_bytes (?M - {#c#}) + rest) \<and> refs_match refs' (?M - {#c#})"
      by (rule Cons.IH [OF match al]) (use Cons.prems(4,5) bytes in simp_all)
    then have "\<exists>refs'. release_context c (refs(cn_address n := None)) (live_bytes ?M + rest) =
        Inr (refs', live_bytes N + rest) \<and> refs_match refs' N"
      unfolding add_mset_remove_trivial .
    moreover have "\<not> b < cn_owned_bytes n" using Cons.prems(4) bytes by simp
    ultimately show ?thesis using one refs sub by (simp add: M del: fun_upd_apply)
  qed
qed

text \<open>Retaining one more root: split the chain at its first live node, insert what is new.\<close>

lemma store_checked_add_iff:
  "a \<le> uint64_max \<Longrightarrow> store_checked_add a b = Inr s \<longleftrightarrow> s = a + b \<and> a + b \<le> uint64_max"
  by (auto simp: store_checked_add_def u64_add_def)

definition insert_refs :: "context_node list \<Rightarrow> (nat \<rightharpoonup> nat) \<Rightarrow> nat \<rightharpoonup> nat" where
  "insert_refs ns refs = (\<lambda>i. if i \<in> cn_address ` set ns then Some 1 else refs i)"

lemma insert_new_result:
  "b \<le> uint64_max \<Longrightarrow> insert_new ns refs b = Inr (refs', b') \<Longrightarrow>
   refs' = insert_refs ns refs \<and> b' = b + sum_list (map cn_owned_bytes ns) \<and> b' \<le> uint64_max"
proof (induction ns arbitrary: refs b)
  case Nil
  then show ?case by (simp add: insert_refs_def)
next
  case (Cons n ns)
  then have step: "insert_new ns (refs(cn_address n \<mapsto> 1)) (b + cn_owned_bytes n) = Inr (refs', b')"
    "b + cn_owned_bytes n \<le> uint64_max"
    by (auto simp: rbind_Inr_iff store_checked_add_iff split: if_splits)
  have "insert_refs ns (refs(cn_address n \<mapsto> 1)) = insert_refs (n # ns) refs"
    by (auto simp: insert_refs_def fun_eq_iff)
  with Cons.IH [OF step(2,1)] show ?case by (simp del: fun_upd_apply)
qed

lemma split_new_parts:
  assumes "split_new refs c = (new, cursor)"
  shows "c = new @ cursor" "n \<in> set new \<Longrightarrow> refs (cn_address n) = None"
    "cursor \<noteq> [] \<Longrightarrow> refs (node_address cursor) \<noteq> None"
  using assms by (induction c arbitrary: new) (auto split: if_splits prod.splits)

lemma grow_chain:
  assumes "refs_match refs M" "alias_ok (add_mset (new @ cursor) M)"
    and "\<And>n. n \<in> set new \<Longrightarrow> refs (cn_address n) = None"
    and "cursor = [] \<and> base = refs \<or>
      cursor \<in> live M \<and> base = refs(node_address cursor \<mapsto> refcount M cursor + 1)"
  shows "refs_match (insert_refs new base) (add_mset (new @ cursor) M) \<and>
    live_bytes (add_mset (new @ cursor) M) = live_bytes M + sum_list (map cn_owned_bytes new)"
  using assms(2,3)
proof (induction new)
  case Nil
  show ?case
  proof (cases "cursor = []")
    case True
    have "[] \<notin> live M" by (simp add: live_def)
    then have "refcount (add_mset [] M) t = refcount M t" if "t \<in> live M" for t
      using that by (intro refcount_Nil) auto
    moreover have "base = refs" using assms(4) True \<open>[] \<notin> live M\<close> by auto
    ultimately show ?thesis
      using True assms(1) by (simp add: insert_refs_def refs_match_def live_bytes_def)
  next
    case False
    then have c: "cursor \<in> live M" "base = refs(node_address cursor \<mapsto> refcount M cursor + 1)"
      using assms(4) by auto
    note add = add_live_root [OF c(1)]
    have "alias_ok M" using Nil.prems(1) add(1) by (simp add: alias_ok_def)
    then have "refs_match base (add_mset cursor M)"
      unfolding c(2) by (rule refs_match_change [OF assms(1) add(1) c(1)]) (simp_all add: add(2))
    then show ?thesis by (simp add: insert_refs_def live_bytes_def add(1))
  qed
next
  case (Cons n new)
  let ?c = "new @ cursor"
  have sub: "live (add_mset ?c M) \<subseteq> live (add_mset (n # ?c) M)"
    by (auto simp: live_add suffix_Cons)
  have "n # ?c \<notin> live M"
    using refs_match_address [OF assms(1), of "n # ?c"] Cons.prems by (auto split: if_splits)
  note mv = move_root [OF this]
  have IH: "refs_match (insert_refs new base) (add_mset ?c M)"
    "live_bytes (add_mset ?c M) = live_bytes M + sum_list (map cn_owned_bytes new)"
    using Cons.IH Cons.prems alias_ok_mono [OF _ sub] by auto
  have "refs_match ((insert_refs new base)(node_address (n # ?c) \<mapsto> 1)) (add_mset (n # ?c) M)"
    by (rule refs_match_insert [OF IH(1) mv(1,2) _ mv(3,4)]) (use Cons.prems(1) in simp_all)
  moreover have "(insert_refs new base)(node_address (n # ?c) \<mapsto> 1) = insert_refs (n # new) base"
    by (auto simp: insert_refs_def fun_eq_iff)
  ultimately show ?case
    using live_bytes_insert [OF mv(2,1)] IH(2) by simp
qed

lemma retain_context_ok:
  assumes m: "refs_match refs M" and a: "alias_ok (add_mset c M)"
    and b: "b = live_bytes M + rest" "b \<le> uint64_max"
    and r: "retain_context c refs b = Inr (refs', b')"
  shows "refs_match refs' (add_mset c M)" "b' = live_bytes (add_mset c M) + rest" "b' \<le> uint64_max"
proof -
  obtain new cursor where sp: "split_new refs c = (new, cursor)" by force
  note parts = split_new_parts [OF sp]
  have a': "alias_ok (add_mset cursor M)"
    by (rule alias_ok_mono [OF a]) (auto simp: live_add parts(1) suffix_def)
  have cur: "cursor \<in> live M \<and> refs (node_address cursor) = Some (refcount M cursor)" if "cursor \<noteq> []"
    using refs_match_address [OF m a' that] parts(3) [OF that] by (auto split: if_splits)
  define base where "base = (if cursor = [] then refs else refs(node_address cursor \<mapsto> refcount M cursor + 1))"
  have res: "refs' = insert_refs new base \<and> b' = b + sum_list (map cn_owned_bytes new) \<and> b' \<le> uint64_max"
  proof (cases "new = []")
    case True
    then have "c = cursor" using parts(1) by simp
    with r cur b(2) True show ?thesis
      by (cases c) (auto simp: retain_context_def base_def insert_refs_def split: if_splits)
  next
    case False
    then obtain n ns where new: "new = n # ns" by (cases new) auto
    then have c: "c = n # ns @ cursor" "refs (cn_address n) = None"
      using parts by auto
    with r sp obtain r1 b1 where ins: "insert_new new refs b = Inr (r1, b1)"
      and fin: "(case cursor of [] \<Rightarrow> Inr (r1, b1)
         | m # _ \<Rightarrow> (case r1 (cn_address m) of None \<Rightarrow> Inl LogicError
            | Some k \<Rightarrow> if k = uint64_max then Inl OverflowError else Inr (r1(cn_address m \<mapsto> k + 1), b1))) =
         Inr (refs', b')"
      by (auto simp: retain_context_def rbind_Inr_iff)
    note ins' = insert_new_result [OF b(2) ins]
    show ?thesis
    proof (cases cursor)
      case Nil
      with fin ins' show ?thesis by (simp add: base_def)
    next
      case (Cons x xs)
      have "cn_address x \<notin> cn_address ` set new"
        using parts(2,3) Cons by auto
      with fin ins' cur Cons show ?thesis
        by (auto simp: base_def insert_refs_def fun_eq_iff split: if_splits)
    qed
  qed
  have g: "refs_match (insert_refs new base) (add_mset (new @ cursor) M) \<and>
      live_bytes (add_mset (new @ cursor) M) = live_bytes M + sum_list (map cn_owned_bytes new)"
    by (rule grow_chain [OF m]) (use a parts cur base_def in auto)
  show "refs_match refs' (add_mset c M)" "b' = live_bytes (add_mset c M) + rest" "b' \<le> uint64_max"
    using g res b parts(1) by simp_all
qed

section \<open>Invariant of the store\<close>

definition roots :: "'j store \<Rightarrow> response_context multiset" where
  "roots s = mset (map (sr_context \<circ> se_response \<circ> snd) (rs_records s))"

definition envelopes :: "'j store \<Rightarrow> nat" where
  "envelopes s = sum_list (map (se_envelope_bytes \<circ> snd) (rs_records s))"

definition store_ok :: "'j store \<Rightarrow> bool" where
  "store_ok s \<longleftrightarrow>
     distinct (map fst (rs_records s)) \<and> mset (rs_lru s) = mset (map fst (rs_records s)) \<and>
     (\<forall>(k, e)\<in>set (rs_records s). sr_id (se_response e) = k) \<and>
     refs_match (rs_references s) (roots s) \<and> alias_ok (roots s) \<and>
     rs_current_bytes s = envelopes s + live_bytes (roots s) \<and> rs_current_bytes s \<le> uint64_max"

definition context_bytes_ok :: "response_context \<Rightarrow> bool" where
  "context_bytes_ok c \<longleftrightarrow>
     (case c of [] \<Rightarrow> True | n # _ \<Rightarrow> cn_cumulative_bytes n = sum_list (map cn_owned_bytes c))"

lemma live_bytes_single: "live_bytes {#c#} = sum_list (map cn_owned_bytes c)"
proof (induction c)
  case Nil
  then show ?case by (simp add: live_bytes_def live_def)
next
  case (Cons n c)
  have "n # c \<notin> live {#}" by (simp add: live_def)
  note mv = move_root [OF this]
  show ?case using live_bytes_insert [OF mv(2,1)] Cons by simp
qed

lemma remove_record:
  assumes "distinct (map fst rs)" "(i, e) \<in> set rs"
  shows "mset rs = add_mset (i, e) (mset (filter (\<lambda>(k, _). k \<noteq> i) rs))"
  using assms
proof (induction rs)
  case (Cons r rs)
  show ?case
  proof (cases "r = (i, e)")
    case True
    with Cons.prems have "filter (\<lambda>(k, _). k \<noteq> i) rs = rs"
      by (intro filter_True) (auto simp: image_iff)
    with True show ?thesis by simp
  next
    case False
    with Cons.prems have "(i, e) \<in> set rs" by simp
    moreover from this Cons.prems(1) have "fst r \<noteq> i" by (auto simp: image_iff)
    ultimately show ?thesis
      using Cons.IH Cons.prems(1) by (cases r) (simp add: add_mset_commute)
  qed
qed simp

lemma remove_record_sums:
  assumes "distinct (map fst (rs_records s))" "(i, e) \<in> set (rs_records s)"
  shows "mset (map f (rs_records s)) = add_mset (f (i, e)) (mset (map f (filter (\<lambda>(k, _). k \<noteq> i) (rs_records s))))"
  using remove_record [OF assms] by (metis image_mset_add_mset mset_map)

lemma erase_locked_ok:
  assumes ok: "store_ok s" and e: "(i, e) \<in> set (rs_records s)"
  shows "\<exists>s'. erase_locked i s = Inr s' \<and> store_ok s' \<and> rs_lru s' = remove1 i (rs_lru s) \<and>
    rs_records s' = filter (\<lambda>(k, _). k \<noteq> i) (rs_records s) \<and>
    rs_max_records s' = rs_max_records s \<and> rs_max_bytes s' = rs_max_bytes s"
proof -
  let ?rs = "filter (\<lambda>(k, _). k \<noteq> i) (rs_records s)"
  let ?c = "sr_context (se_response e)"
  note dist = ok [unfolded store_ok_def, THEN conjunct1]
  note sums = remove_record_sums [OF dist e]
  have found: "map_of (rs_records s) i = Some e"
    using dist e by (simp add: map_of_eq_Some_iff)
  have roots: "roots s = add_mset ?c (mset (map (sr_context \<circ> se_response \<circ> snd) ?rs))"
    unfolding roots_def sums by simp
  have env: "envelopes s = se_envelope_bytes e + sum_list (map (se_envelope_bytes \<circ> snd) ?rs)"
    unfolding envelopes_def sum_mset_sum_list [symmetric] sums by simp
  let ?M = "mset (map (sr_context \<circ> se_response \<circ> snd) ?rs)"
  let ?rest = "sum_list (map (se_envelope_bytes \<circ> snd) ?rs)"
  have b: "rs_current_bytes s = se_envelope_bytes e + (live_bytes (roots s) + ?rest)"
    "rs_current_bytes s \<le> uint64_max"
    using ok env by (simp_all add: store_ok_def)
  have sub: "u64_sub (rs_current_bytes s) (se_envelope_bytes e) = live_bytes (roots s) + ?rest"
    using b by (subst u64_sub_small) simp_all
  have "\<exists>refs'. release_context ?c (rs_references s) (live_bytes (roots s) + ?rest) =
      Inr (refs', live_bytes (roots s - {#?c#}) + ?rest) \<and> refs_match refs' (roots s - {#?c#})"
    by (rule release_context_ok) (use ok b roots in \<open>auto simp: store_ok_def\<close>)
  then obtain refs' where rel: "release_context ?c (rs_references s) (live_bytes (roots s) + ?rest) =
      Inr (refs', live_bytes ?M + ?rest)" "refs_match refs' ?M"
    by (auto simp: roots)
  let ?s = "s\<lparr>rs_records := ?rs, rs_lru := remove1 i (rs_lru s), rs_references := refs',
      rs_current_bytes := live_bytes ?M + ?rest\<rparr>"
  have er: "erase_locked i s = Inr ?s"
    using found b sub rel by (simp add: erase_locked_def)
  have "live ?M \<subseteq> live (roots s)" by (auto simp: roots live_add)
  moreover have "mset (remove1 i (rs_lru s)) = mset (map fst ?rs)"
    using ok sums [of fst] by (simp add: store_ok_def)
  moreover have "live_bytes ?M + ?rest \<le> uint64_max"
  proof -
    have "live_bytes ?M \<le> live_bytes (roots s)"
      unfolding live_bytes_def by (rule sum_mono2) (use \<open>live ?M \<subseteq> live (roots s)\<close> in auto)
    with b show ?thesis by simp
  qed
  moreover have "distinct (map fst ?rs)"
    using dist by (rule distinct_map_filter)
  ultimately have "store_ok ?s"
    using ok rel(2) by (auto simp: store_ok_def roots_def envelopes_def intro: alias_ok_mono)
  with er show ?thesis by simp
qed

lemma evict_loop_ok:
  assumes "store_ok s" "rs_lru s = i # older" "(i, e) \<in> set (rs_records s)" "1 \<le> rs_max_records s"
    and "se_envelope_bytes e + sum_list (map cn_owned_bytes (sr_context (se_response e))) \<le> rs_max_bytes s"
    and "length older < fuel"
  shows "\<exists>s' k. evict_loop fuel i s = Inr s' \<and> store_ok s' \<and> \<not> over_limits s' \<and>
    rs_lru s' = i # take k older \<and> (i, e) \<in> set (rs_records s') \<and>
    set (rs_records s') \<subseteq> set (rs_records s) \<and>
    rs_max_records s' = rs_max_records s \<and> rs_max_bytes s' = rs_max_bytes s"
  using assms
proof (induction fuel arbitrary: s older)
  case 0
  then show ?case by simp
next
  case (Suc fuel)
  show ?case
  proof (cases "over_limits s")
    case False
    with Suc.prems show ?thesis
      by (intro exI [of _ s] exI [of _ "length older"]) simp
  next
    case over: True
    have "older \<noteq> []"
    proof
      assume "older = []"
      with Suc.prems(1,2) have "length (rs_records s) = 1"
        unfolding store_ok_def by (metis One_nat_def length_Cons length_map list.size(3) mset_eq_length)
      with Suc.prems(3) have rs: "rs_records s = [(i, e)]"
        by (cases "rs_records s") auto
      then have "rs_current_bytes s = se_envelope_bytes e + sum_list (map cn_owned_bytes (sr_context (se_response e)))"
        using Suc.prems(1) live_bytes_single by (simp add: store_ok_def roots_def envelopes_def)
      with over rs Suc.prems(4,5) show False by (simp add: over_limits_def)
    qed
    then obtain init v where older: "older = init @ [v]" by (metis rev_exhaust)
    have "distinct (rs_lru s)"
      using Suc.prems(1) mset_eq_imp_distinct_iff unfolding store_ok_def by blast
    then have v: "v \<noteq> i" "v \<notin> set init" using Suc.prems(2) older by auto
    have "v \<in> set (map fst (rs_records s))"
    proof -
      have "set (rs_lru s) = set (map fst (rs_records s))"
        using Suc.prems(1) unfolding store_ok_def by (blast dest: mset_eq_setD)
      then show ?thesis using Suc.prems(2) older by auto
    qed
    then obtain w where w: "(v, w) \<in> set (rs_records s)" by auto
    from erase_locked_ok [OF Suc.prems(1) w] obtain s1 where s1: "erase_locked v s = Inr s1" "store_ok s1"
      "rs_lru s1 = remove1 v (rs_lru s)" "rs_records s1 = filter (\<lambda>(k, _). k \<noteq> v) (rs_records s)"
      "rs_max_records s1 = rs_max_records s" "rs_max_bytes s1 = rs_max_bytes s"
      by auto
    have lru: "rs_lru s1 = i # init"
      using s1(3) Suc.prems(2) older v by (simp add: remove1_append)
    have "(i, e) \<in> set (rs_records s1)" using s1(4) Suc.prems(3) v(1) by simp
    moreover have "length init < fuel" using Suc.prems(6) older by simp
    ultimately obtain s' k where IH: "evict_loop fuel i s1 = Inr s'" "store_ok s'" "\<not> over_limits s'"
      "rs_lru s' = i # take k init" "(i, e) \<in> set (rs_records s')" "set (rs_records s') \<subseteq> set (rs_records s1)"
      "rs_max_records s' = rs_max_records s" "rs_max_bytes s' = rs_max_bytes s"
      using Suc.IH [OF s1(2) lru] Suc.prems(4,5) s1(5,6) by auto
    have "victim_of i (rs_lru s) = Inr v"
      using Suc.prems(2) older v(1) by (simp add: victim_of_def)
    with over s1(1) IH(1) have "evict_loop (Suc fuel) i s = Inr s'" by simp
    moreover have "rs_lru s' = i # take (min k (length init)) older"
      using IH(4) older by (cases "k \<le> length init") (simp_all add: min_def)
    moreover have "set (rs_records s') \<subseteq> set (rs_records s)" using IH(6) s1(4) by auto
    ultimately show ?thesis using IH by blast
  qed
qed

lemma retain_context_succeeds:
  assumes m: "refs_match refs M" and a: "alias_ok (add_mset c M)"
    and b: "b + sum_list (map cn_owned_bytes c) \<le> uint64_max"
    and k: "\<And>i k. refs i = Some k \<Longrightarrow> k \<noteq> uint64_max"
  shows "\<exists>r. retain_context c refs b = Inr r"
proof (cases c)
  case Nil
  then show ?thesis by (simp add: retain_context_def)
next
  case (Cons n c0)
  have ins: "\<exists>r. insert_new ns f b = Inr r"
    if "b + sum_list (map cn_owned_bytes ns) \<le> uint64_max" "distinct (map cn_address ns)"
      "\<And>x. x \<in> set ns \<Longrightarrow> f (cn_address x) = None" for ns f b
    using that
  proof (induction ns arbitrary: f b)
    case (Cons x xs)
    then have "store_checked_add b (cn_owned_bytes x) = Inr (b + cn_owned_bytes x)"
      by (simp add: store_checked_add_iff)
    moreover have "\<exists>r. insert_new xs (f(cn_address x \<mapsto> 1)) (b + cn_owned_bytes x) = Inr r"
      by (rule Cons.IH) (use Cons.prems in \<open>auto simp: image_iff\<close>)
    moreover have "f (cn_address x) = None" using Cons.prems(3) by simp
    ultimately show ?case by simp
  qed simp
  obtain new cursor where sp: "split_new refs c = (new, cursor)" by force
  note parts = split_new_parts [OF sp]
  have "distinct (map cn_address c)"
  proof (rule ccontr)
    assume "\<not> distinct (map cn_address c)"
    then obtain i j where "i < j" "j < length c" "cn_address (c ! i) = cn_address (c ! j)"
      by (auto simp: distinct_conv_nth nat_neq_iff)
    moreover have "drop i c \<in> live (add_mset c M)" "drop j c \<in> live (add_mset c M)"
      using \<open>i < j\<close> \<open>j < length c\<close> by (auto simp: live_add suffix_drop)
    ultimately have "drop i c = drop j c"
      using a by (metis alias_ok_def hd_drop_conv_nth inj_onD less_trans)
    then have "length c - i = length c - j" by (metis length_drop)
    with \<open>i < j\<close> \<open>j < length c\<close> show False by simp
  qed
  then have "distinct (map cn_address new)" using parts(1) by simp
  with ins [of b new refs] parts b obtain r1 b1 where r1: "insert_new new refs b = Inr (r1, b1)"
    by fastforce
  show ?thesis
  proof (cases "refs (cn_address n)")
    case None
    show ?thesis
    proof (cases cursor)
      case Nil
      with r1 sp None Cons show ?thesis by (simp add: retain_context_def)
    next
      case cur: (Cons x xs)
      have "b \<le> uint64_max" using b by simp
      from insert_new_result [OF this r1] have "r1 = insert_refs new refs" by simp
      moreover have "cn_address x \<notin> cn_address ` set new" using parts(2,3) cur by auto
      moreover obtain k0 where "refs (cn_address x) = Some k0" using parts(3) cur by auto
      ultimately have "r1 (cn_address x) = Some k0" "k0 \<noteq> uint64_max"
        using k by (auto simp: insert_refs_def)
      with r1 sp None Cons cur show ?thesis by (simp add: retain_context_def)
    qed
  next
    case (Some k0)
    with Cons k show ?thesis by (auto simp: retain_context_def)
  qed
qed

text \<open>What \<open>put\<close> establishes once its checks have passed.\<close>

lemma put_inserted_ok:
  assumes ok: "store_ok s" and new: "map_of (rs_records s) (sr_id r) = None"
    and a: "alias_ok (add_mset (sr_context r) (roots s))"
    and b: "b = rs_current_bytes s + env" "b \<le> uint64_max"
    and ret: "retain_context (sr_context r) (rs_references s) b = Inr (refs, b')"
  shows "store_ok (s\<lparr>rs_records := (sr_id r, \<lparr>se_response = r, se_envelope_bytes = env\<rparr>) # rs_records s,
                  rs_lru := sr_id r # rs_lru s, rs_references := refs, rs_current_bytes := b'\<rparr>)"
proof -
  have m: "refs_match (rs_references s) (roots s)" using ok by (simp add: store_ok_def)
  have "b = live_bytes (roots s) + (envelopes s + env)" using ok b by (simp add: store_ok_def)
  note res = retain_context_ok [OF m a this b(2) ret]
  have "sr_id r \<notin> set (map fst (rs_records s))" using new by (simp add: map_of_eq_None_iff)
  with ok res a show ?thesis by (auto simp: store_ok_def roots_def envelopes_def)
qed

lemma store_put_cases:
  assumes "store_put sz dump_size is_object r s = Inr s'"
  shows "\<exists>b refs b'. let env = record_envelope_bytes sz dump_size r in
    map_of (rs_records s) (sr_id r) = None \<and> store_checked_add (rs_current_bytes s) env = Inr b \<and>
    retain_context (sr_context r) (rs_references s) b = Inr (refs, b') \<and>
    env \<le> rs_max_bytes s \<and>
    (case sr_context r of [] \<Rightarrow> 0 | n # _ \<Rightarrow> cn_cumulative_bytes n) \<le> rs_max_bytes s - env \<and>
    evict_loop (length (rs_lru s) + 2) (sr_id r)
      (s\<lparr>rs_records := (sr_id r, \<lparr>se_response = r, se_envelope_bytes = env\<rparr>) # rs_records s,
         rs_lru := sr_id r # rs_lru s, rs_references := refs, rs_current_bytes := b'\<rparr>) = Inr s'"
  using assms by (auto simp: store_put_def Let_def rbind_Inr_iff not_less split: if_splits)

lemma context_bytes_sum:
  "context_bytes_ok c \<Longrightarrow> (case c of [] \<Rightarrow> 0 | n # _ \<Rightarrow> cn_cumulative_bytes n) = sum_list (map cn_owned_bytes c)"
  by (auto simp: context_bytes_ok_def split: list.splits)

lemma store_put_ok:
  assumes ok: "store_ok s" and lim: "1 \<le> rs_max_records s" and c: "context_bytes_ok (sr_context r)"
    and a: "alias_ok (add_mset (sr_context r) (roots s))"
    and put: "store_put sz dump_size is_object r s = Inr s'"
  shows "store_ok s' \<and> \<not> over_limits s' \<and>
    (\<exists>k. rs_lru s' = sr_id r # take k (rs_lru s)) \<and>
    map_of (rs_records s') (sr_id r) =
      Some \<lparr>se_response = r, se_envelope_bytes = record_envelope_bytes sz dump_size r\<rparr> \<and>
    set (rs_records s') \<subseteq> insert (sr_id r, \<lparr>se_response = r, se_envelope_bytes = record_envelope_bytes sz dump_size r\<rparr>)
      (set (rs_records s)) \<and>
    rs_max_records s' = rs_max_records s \<and> rs_max_bytes s' = rs_max_bytes s"
proof -
  let ?env = "record_envelope_bytes sz dump_size r"
  from store_put_cases [OF put] obtain b refs b' where
    new: "map_of (rs_records s) (sr_id r) = None" and b: "store_checked_add (rs_current_bytes s) ?env = Inr b"
    and ret: "retain_context (sr_context r) (rs_references s) b = Inr (refs, b')"
    and fits: "?env \<le> rs_max_bytes s" "sum_list (map cn_owned_bytes (sr_context r)) \<le> rs_max_bytes s - ?env"
    and ev: "evict_loop (length (rs_lru s) + 2) (sr_id r)
      (s\<lparr>rs_records := (sr_id r, \<lparr>se_response = r, se_envelope_bytes = ?env\<rparr>) # rs_records s,
         rs_lru := sr_id r # rs_lru s, rs_references := refs, rs_current_bytes := b'\<rparr>) = Inr s'"
    (is "evict_loop _ _ ?s = _")
    unfolding Let_def context_bytes_sum [OF c] by blast
  have "b = rs_current_bytes s + ?env" "b \<le> uint64_max"
    using b ok by (auto simp: store_checked_add_iff store_ok_def)
  from put_inserted_ok [OF ok new a this ret] have ok1: "store_ok ?s" .
  let ?e = "\<lparr>se_response = r, se_envelope_bytes = ?env\<rparr>"
  have "\<exists>s' k. evict_loop (length (rs_lru s) + 2) (sr_id r) ?s = Inr s' \<and> store_ok s' \<and> \<not> over_limits s' \<and>
    rs_lru s' = sr_id r # take k (rs_lru s) \<and> (sr_id r, ?e) \<in> set (rs_records s') \<and>
    set (rs_records s') \<subseteq> set (rs_records ?s) \<and>
    rs_max_records s' = rs_max_records ?s \<and> rs_max_bytes s' = rs_max_bytes ?s"
    by (rule evict_loop_ok [OF ok1]) (use lim fits in auto)
  with ev have res: "store_ok s'" "\<not> over_limits s'" "\<exists>k. rs_lru s' = sr_id r # take k (rs_lru s)"
    "(sr_id r, ?e) \<in> set (rs_records s')" "set (rs_records s') \<subseteq> set (rs_records ?s)"
    "rs_max_records s' = rs_max_records s" "rs_max_bytes s' = rs_max_bytes s"
    by auto
  moreover have "map_of (rs_records s') (sr_id r) = Some ?e"
    using res(1,4) by (simp add: store_ok_def)
  ultimately show ?thesis by simp
qed

end
