(* ===== verification/StoreSystem.thy ===== *)
theory StoreSystem
  imports ResponsesStore
begin

text \<open>
  The response store over its lifetime: states reached from a new store by lookups, deletions and
  successful insertions, and what the store promises in them. An inserted context must be one that
  \<open>append_openai_response_context\<close> built (\<open>context_bytes_ok\<close>), and its nodes are objects of
  the same heap as the stored ones, so one address is one object (\<open>alias_ok\<close>).
\<close>

inductive store_reachable ::
  "object_sizes \<Rightarrow> ('j \<Rightarrow> nat) \<Rightarrow> ('j \<Rightarrow> bool) \<Rightarrow> 'j store \<Rightarrow> bool"
  for sz :: object_sizes and dump_size :: "'j \<Rightarrow> nat" and is_object :: "'j \<Rightarrow> bool" where
  made: "make_store max_records max_bytes = Inr s \<Longrightarrow> max_bytes \<le> uint64_max \<Longrightarrow>
    store_reachable sz dump_size is_object s"
| got: "store_reachable sz dump_size is_object s \<Longrightarrow>
    store_reachable sz dump_size is_object (snd (store_get i s))"
| erased: "store_reachable sz dump_size is_object s \<Longrightarrow> store_erase i s = Inr (s', b) \<Longrightarrow>
    store_reachable sz dump_size is_object s'"
| stored: "store_reachable sz dump_size is_object s \<Longrightarrow> context_bytes_ok (sr_context r) \<Longrightarrow>
    alias_ok (add_mset (sr_context r) (roots s)) \<Longrightarrow>
    store_put sz dump_size is_object r s = Inr s' \<Longrightarrow> store_reachable sz dump_size is_object s'"

definition store_inv :: "'j store \<Rightarrow> bool" where
  "store_inv s \<longleftrightarrow> store_ok s \<and> \<not> over_limits s \<and> 1 \<le> rs_max_records s \<and> rs_max_bytes s \<le> uint64_max"

lemma make_store_inv:
  "make_store max_records max_bytes = Inr s \<Longrightarrow> max_bytes \<le> uint64_max \<Longrightarrow> store_inv s"
  by (auto simp: make_store_def store_inv_def store_ok_def over_limits_def roots_def envelopes_def
      refs_match_def alias_ok_def live_def live_bytes_def split: if_splits)

lemma store_get_inv: "store_inv s \<Longrightarrow> store_inv (snd (store_get i s))"
proof (cases "map_of (rs_records s) i")
  case (Some e)
  assume inv: "store_inv s"
  have "i \<in> set (rs_lru s)"
    using inv Some unfolding store_inv_def store_ok_def
    by (metis mset_eq_setD map_of_eq_None_iff option.distinct(1) set_map)
  then have "mset (i # remove1 i (rs_lru s)) = mset (rs_lru s)" by simp
  with inv Some show ?thesis
    by (simp add: store_get_def store_inv_def store_ok_def over_limits_def roots_def envelopes_def
        del: mset.simps mset_remove1)
qed (simp add: store_get_def)

lemma store_erase_inv:
  assumes inv: "store_inv s"
  shows "\<exists>s'. store_erase i s = Inr (s', map_of (rs_records s) i \<noteq> None) \<and> store_inv s' \<and>
    map_of (rs_records s') i = None"
proof (cases "map_of (rs_records s) i")
  case None
  with inv show ?thesis by (simp add: store_erase_def)
next
  case (Some e)
  have "(i, e) \<in> set (rs_records s)" using Some by (rule map_of_SomeD)
  with inv erase_locked_ok [of s i e] obtain s' where s': "erase_locked i s = Inr s'" "store_ok s'"
    "rs_records s' = filter (\<lambda>(k, _). k \<noteq> i) (rs_records s)"
    "rs_max_records s' = rs_max_records s" "rs_max_bytes s' = rs_max_bytes s"
    by (auto simp: store_inv_def)
  have "rs_current_bytes s' \<le> rs_current_bytes s"
  proof -
    have "live (roots s') \<subseteq> live (roots s)"
    proof -
      have "set_mset (roots s') \<subseteq> set_mset (roots s)"
        by (auto simp: roots_def s'(3) image_iff)
      then show ?thesis by (auto simp: live_def)
    qed
    then have "live_bytes (roots s') \<le> live_bytes (roots s)"
      unfolding live_bytes_def by (intro sum_mono2) auto
    moreover have "envelopes s' \<le> envelopes s"
    proof -
      have "sum_list (map f (filter P xs)) \<le> sum_list (map f xs)"
        for f :: "string \<times> 'a store_entry \<Rightarrow> nat" and P xs
        by (induction xs) auto
      then show ?thesis by (simp add: envelopes_def s'(3))
    qed
    ultimately show ?thesis using inv s'(2) by (simp add: store_inv_def store_ok_def)
  qed
  moreover have "length (rs_records s') \<le> length (rs_records s)" using s'(3) by simp
  ultimately have "store_inv s'"
    using inv s'(2,4,5) by (auto simp: store_inv_def over_limits_def)
  moreover have "map_of (rs_records s') i = None"
    using s'(3) by (auto simp: map_of_eq_None_iff)
  ultimately show ?thesis using Some s'(1) by (simp add: store_erase_def)
qed

lemma store_reachable_inv: "store_reachable sz dump_size is_object s \<Longrightarrow> store_inv s"
proof (induction rule: store_reachable.induct)
  case (made max_records max_bytes s)
  then show ?case by (rule make_store_inv)
next
  case (got s i)
  then show ?case by (simp add: store_get_inv)
next
  case (erased s i s' b)
  with store_erase_inv [of s i] show ?case by auto
next
  case (stored s r s')
  with store_put_ok [of s r sz dump_size is_object s'] show ?case by (auto simp: store_inv_def)
qed

section \<open>Properties\<close>

text \<open>
  C20. In every reachable state the store is within its limits and its books are exact: at most
  \<open>max_records\<close> records and \<open>max_bytes\<close> bytes; the byte count is the envelopes of the records
  plus every live context node once, however many records share it; each live node is counted with
  the number of records that point to it plus the number of its live children; no other node is
  counted; and the recency list is a permutation of the records.
\<close>

theorem store_books_exact:
  assumes "store_reachable sz dump_size is_object s"
  shows "length (rs_records s) \<le> rs_max_records s \<and> rs_current_bytes s \<le> rs_max_bytes s \<and>
    rs_current_bytes s = envelopes s + live_bytes (roots s) \<and>
    dom (rs_references s) = node_address ` live (roots s) \<and>
    (\<forall>n\<in>live (roots s). rs_references s (node_address n) = Some (refcount (roots s) n)) \<and>
    mset (rs_lru s) = mset (map fst (rs_records s)) \<and> distinct (rs_lru s)"
proof -
  note inv = store_reachable_inv [OF assms, unfolded store_inv_def store_ok_def]
  then have "distinct (rs_lru s)"
    using mset_eq_imp_distinct_iff by blast
  with inv show ?thesis
    by (simp add: over_limits_def refs_match_def)
qed

definition demo_sizes :: object_sizes where
  "demo_sizes = \<lparr>sz_chat_turn = 10, sz_content_part = 5, sz_tool_call = 5, sz_context_node = 20,
                 sz_stored_response = 30, sz_json = 8\<rparr>"

definition demo_node :: context_node where
  "demo_node = \<lparr>cn_address = 4096, cn_turns = [], cn_owned_bytes = 20, cn_cumulative_bytes = 20,
                cn_cumulative_turns = 0\<rparr>"

definition demo_response :: "string \<Rightarrow> nat stored_response" where
  "demo_response i = \<lparr>sr_id = i, sr_session_key = ''k'', sr_response = 7, sr_input_items = [],
                      sr_context = [demo_node], sr_preserve_thinking = None\<rparr>"

definition demo_store :: "(string \<times> nat store_entry) list \<Rightarrow> string list \<Rightarrow> (nat \<rightharpoonup> nat) \<Rightarrow> nat \<Rightarrow> nat store" where
  "demo_store rs lru refs b = \<lparr>rs_max_records = 2, rs_max_bytes = 200, rs_records = rs, rs_lru = lru,
     rs_references = refs, rs_current_bytes = b\<rparr>"

abbreviation demo_entry :: "string \<Rightarrow> nat store_entry" where
  "demo_entry i \<equiv> \<lparr>se_response = demo_response i, se_envelope_bytes = 39\<rparr>"

abbreviation demo_one :: "nat store" where
  "demo_one \<equiv> demo_store [(''a'', demo_entry ''a'')] [''a''] [4096 \<mapsto> 1] 59"

abbreviation demo_two :: "nat store" where
  "demo_two \<equiv> demo_store [(''b'', demo_entry ''b''), (''a'', demo_entry ''a'')] [''b'', ''a''] [4096 \<mapsto> 2] 98"

lemmas demo_store_defs = store_put_def record_envelope_bytes_def u64_sum_def u64_add_def demo_sizes_def
  demo_response_def demo_node_def store_checked_add_def retain_context_def over_limits_def
  demo_store_def Let_def

lemma demo_puts:
  "store_put demo_sizes (\<lambda>n. n) (\<lambda>_. True) (demo_response ''a'') (demo_store [] [] Map.empty 0) = Inr demo_one"
  "store_put demo_sizes (\<lambda>n. n) (\<lambda>_. True) (demo_response ''b'') demo_one = Inr demo_two"
  by (simp_all add: demo_store_defs add_2_eq_Suc' numeral_2_eq_2)

lemma demo_live: "live {#[demo_node]#} = {[demo_node]}" "live {#[demo_node], [demo_node]#} = {[demo_node]}"
  by (auto simp: live_def suffix_Cons)

lemma demo_store_reachable: "store_reachable demo_sizes (\<lambda>n. n) (\<lambda>_. True) demo_two"
proof -
  have ctx: "context_bytes_ok (sr_context (demo_response i))" for i
    by (simp add: context_bytes_ok_def demo_response_def demo_node_def)
  have "make_store 2 200 = Inr (demo_store [] [] Map.empty 0)"
    by (simp add: make_store_def demo_store_def)
  then have "store_reachable demo_sizes (\<lambda>n. n) (\<lambda>_. True) (demo_store [] [] Map.empty 0)"
    by (rule store_reachable.made) simp
  then have "store_reachable demo_sizes (\<lambda>n. n) (\<lambda>_. True) demo_one"
    by (rule store_reachable.stored [OF _ ctx _ demo_puts(1)])
      (simp add: roots_def demo_store_def demo_response_def alias_ok_def demo_live)
  then show ?thesis
    by (rule store_reachable.stored [OF _ ctx _ demo_puts(2)])
      (simp add: roots_def demo_store_def demo_response_def alias_ok_def demo_live)
qed

theorem store_books_exact_witness:
  "store_reachable demo_sizes (\<lambda>n. n) (\<lambda>_. True) demo_two \<and> length (rs_records demo_two) = 2 \<and>
   rs_current_bytes demo_two = envelopes demo_two + live_bytes (roots demo_two) \<and>
   envelopes demo_two = 78 \<and> live_bytes (roots demo_two) = 20"
  using store_books_exact [OF demo_store_reachable] demo_store_reachable
  by (simp add: roots_def envelopes_def demo_store_def demo_response_def live_bytes_def demo_live
      demo_node_def [symmetric])

text \<open>
  C21. \<open>put\<close> succeeds on every well-formed response with a fresh id that fits the store on its own,
  whatever else the store holds (with reference counts below their maximum): it never reports a capacity error from its eviction loop, the response can be
  looked up afterwards, it is the most recent one, and exactly a tail of the recency list, the
  least recently used records, has been evicted.
\<close>

theorem put_succeeds:
  assumes "store_reachable sz dump_size is_object s"
    and "sr_id r \<noteq> []" and "sr_session_key r \<noteq> []" and "length (sr_session_key r) \<le> 256"
    and "is_object (sr_response r)" and "map_of (rs_records s) (sr_id r) = None"
    and "context_bytes_ok (sr_context r)" and "alias_ok (add_mset (sr_context r) (roots s))"
    and "record_envelope_bytes sz dump_size r + sum_list (map cn_owned_bytes (sr_context r)) \<le> rs_max_bytes s"
    and "rs_max_bytes s < 2 ^ 63" and "\<forall>i k. rs_references s i = Some k \<longrightarrow> k \<noteq> uint64_max"
  shows "\<exists>s' k. store_put sz dump_size is_object r s = Inr s' \<and> fst (store_get (sr_id r) s') = Some r \<and>
    rs_lru s' = sr_id r # take k (rs_lru s)"
proof -
  let ?env = "record_envelope_bytes sz dump_size r"
  note inv = store_reachable_inv [OF assms(1), unfolded store_inv_def]
  have cur: "rs_current_bytes s \<le> rs_max_bytes s" using inv by (simp add: over_limits_def)
  have add: "store_checked_add (rs_current_bytes s) ?env = Inr (rs_current_bytes s + ?env)"
    using cur assms(9,10) by (subst store_checked_add_iff) simp_all
  obtain refs b' where ret: "retain_context (sr_context r) (rs_references s) (rs_current_bytes s + ?env) = Inr (refs, b')"
    using retain_context_succeeds [of "rs_references s" "roots s" "sr_context r" "rs_current_bytes s + ?env"]
      inv cur assms(8-11) by (auto simp: store_ok_def)
  have small: "rs_current_bytes s + ?env \<le> uint64_max" using cur assms(9,10) by simp
  let ?s = "s\<lparr>rs_records := (sr_id r, \<lparr>se_response = r, se_envelope_bytes = ?env\<rparr>) # rs_records s,
                  rs_lru := sr_id r # rs_lru s, rs_references := refs, rs_current_bytes := b'\<rparr>"
  have ok1: "store_ok ?s"
    by (rule put_inserted_ok [OF _ assms(6,8) refl small ret]) (use inv in simp)
  have "\<exists>s' k. evict_loop (length (rs_lru s) + 2) (sr_id r) ?s = Inr s' \<and> store_ok s' \<and> \<not> over_limits s' \<and>
    rs_lru s' = sr_id r # take k (rs_lru s) \<and> (sr_id r, \<lparr>se_response = r, se_envelope_bytes = ?env\<rparr>) \<in> set (rs_records s') \<and>
    set (rs_records s') \<subseteq> set (rs_records ?s) \<and>
    rs_max_records s' = rs_max_records ?s \<and> rs_max_bytes s' = rs_max_bytes ?s"
    by (rule evict_loop_ok [OF ok1]) (use inv assms(9) in auto)
  then obtain s' k where ev: "evict_loop (length (rs_lru s) + 2) (sr_id r) ?s = Inr s'"
    and lru: "rs_lru s' = sr_id r # take k (rs_lru s)" by blast
  have "store_put sz dump_size is_object r s = Inr s'"
    using assms(2-6,9) ret ev unfolding store_put_def Let_def context_bytes_sum [OF assms(7)]
    by (simp add: add)
  moreover from this have "map_of (rs_records s') (sr_id r) = Some \<lparr>se_response = r, se_envelope_bytes = ?env\<rparr>"
    using store_put_ok [of s r sz dump_size is_object s'] inv assms(7,8) by blast
  ultimately show ?thesis using lru by (auto simp: store_get_def)
qed

theorem put_succeeds_witness:
  "\<exists>s' k. store_put demo_sizes (\<lambda>n. n) (\<lambda>_. True) (demo_response ''c'') demo_two = Inr s' \<and>
     fst (store_get ''c'' s') = Some (demo_response ''c'') \<and> rs_lru s' = ''c'' # take k [''b'', ''a'']"
proof -
  have "alias_ok (add_mset (sr_context (demo_response ''c'')) (roots demo_two))"
    by (simp add: roots_def demo_store_def demo_response_def alias_ok_def live_def suffix_Cons)
      (auto simp: inj_on_def)
  then show ?thesis
    using put_succeeds [OF demo_store_reachable, of "demo_response ''c''"]
    by (simp add: demo_response_def demo_store_def context_bytes_ok_def demo_node_def
        record_envelope_bytes_def u64_sum_def u64_add_def demo_sizes_def)
qed

text \<open>
  Appending turns to a context and flattening it gives back the turns of the parent followed by
  the new ones, and the totals kept in the node are the real ones.
\<close>

theorem flatten_append:
  assumes "append_openai_response_context sz addr parent turns = Inr c"
    and "context_bytes_ok parent"
    and "case parent of [] \<Rightarrow> True | n # _ \<Rightarrow> cn_cumulative_turns n = length (flatten_openai_response_context parent)"
    and "sz_context_node sz \<le> uint64_max" and "length turns \<le> uint64_max"
  shows "flatten_openai_response_context c = flatten_openai_response_context parent @ turns \<and>
    context_bytes_ok c \<and> tl c = parent \<and>
    cn_cumulative_turns (hd c) = length (flatten_openai_response_context c)"
proof -
  let ?owned = "fold (\<lambda>t acc. u64_add acc (estimate_turn_bytes sz t)) turns (sz_context_node sz)"
  let ?pb = "case parent of [] \<Rightarrow> 0 | n # _ \<Rightarrow> cn_cumulative_bytes n"
  let ?pt = "case parent of [] \<Rightarrow> 0 | n # _ \<Rightarrow> cn_cumulative_turns n"
  from assms(1) obtain tb tt where
    tb: "store_checked_add ?owned ?pb = Inr tb" and tt: "store_checked_add (length turns) ?pt = Inr tt"
    and c: "c = \<lparr>cn_address = addr, cn_turns = turns, cn_owned_bytes = ?owned,
                 cn_cumulative_bytes = tb, cn_cumulative_turns = tt\<rparr> # parent"
    by (auto simp: append_openai_response_context_def Let_def rbind_Inr_iff)
  have pb: "?pb = sum_list (map cn_owned_bytes parent)" by (rule context_bytes_sum [OF assms(2)])
  have pt: "?pt = length (flatten_openai_response_context parent)"
    using assms(3) by (cases parent) (auto simp: flatten_openai_response_context_def)
  have "fold (\<lambda>t acc. u64_add acc (f t)) ts n \<le> uint64_max" if "n \<le> uint64_max"
    for f and ts :: "chat_turn list" and n
    using that by (induction ts arbitrary: n) (auto simp: u64_add_def)
  with assms(4) tb have "tb = ?owned + ?pb" by (simp add: store_checked_add_iff)
  moreover have "tt = length turns + ?pt" using tt assms(5) by (simp add: store_checked_add_iff)
  ultimately show ?thesis
    using c pb pt by (simp add: flatten_openai_response_context_def context_bytes_ok_def)
qed

theorem flatten_append_witness:
  "\<exists>c. append_openai_response_context demo_sizes 8192 [demo_node]
       [\<lparr>ct_content = [], ct_tool_calls = [], ct_tool_call_id = ''x'', ct_tool_result_name = None,
         ct_reasoning_content = []\<rparr>] = Inr c \<and>
     flatten_openai_response_context c = [\<lparr>ct_content = [], ct_tool_calls = [], ct_tool_call_id = ''x'',
       ct_tool_result_name = None, ct_reasoning_content = []\<rparr>] \<and>
     context_bytes_ok c \<and> cn_cumulative_bytes (hd c) = 51"
proof -
  let ?t = "\<lparr>ct_content = [], ct_tool_calls = [], ct_tool_call_id = ''x'', ct_tool_result_name = None,
         ct_reasoning_content = []\<rparr>"
  let ?c = "[\<lparr>cn_address = 8192, cn_turns = [?t], cn_owned_bytes = 31, cn_cumulative_bytes = 51,
      cn_cumulative_turns = 1\<rparr>, demo_node]"
  have "append_openai_response_context demo_sizes 8192 [demo_node] [?t] = Inr ?c"
    by (simp add: append_openai_response_context_def demo_sizes_def demo_node_def estimate_turn_bytes_def
        u64_sum_def u64_add_def store_checked_add_def)
  with flatten_append [OF this] show ?thesis
    by (simp add: demo_node_def context_bytes_ok_def flatten_openai_response_context_def)
qed

end
