(* ===== verification/WindowTable.thy ===== *)
theory WindowTable
  imports Prelude
begin

text \<open>
  \<open>PromptLookup::WindowTable\<close> of \<open>models/qwen3_5/program/speculative/prompt_lookup.cpp\<close>: the
  open-addressed map from the 64-bit hash of a token window to the latest position at which the
  window ended.

  The two probe loops of the source have no exit but a free slot or a matching key. They run
  here on fuel, and the fuel is the capacity: a loop that has visited every slot visits them
  again forever, so \<open>None\<close> is the loop that never returns. \<open>insert\<close> calls itself while it
  re-inserts the old entries into the grown arrays; the model bounds the depth of that recursion
  by 2. The results below show that neither bound is ever reached: the invariant keeps half of
  the slots free, and an insertion made while growing never grows again.

  \<open>std::size_t\<close> values are natural numbers (they count elements of a vector); stored positions
  are 32-bit with the wrap-around of \<open>end + 1\<close> written out. Running out of memory in
  \<open>assign\<close> is not modelled.
\<close>

section \<open>The table and its operations\<close>

record window_table =
  wt_keys :: "u64 list"
  wt_ends :: "nat list"
  wt_size :: nat

abbreviation wt_capacity :: "window_table \<Rightarrow> nat" where
  "wt_capacity t \<equiv> length (wt_keys t)"

definition empty_table :: window_table where
  "empty_table = \<lparr>wt_keys = [], wt_ends = [], wt_size = 0\<rparr>"

definition home_slot :: "window_table \<Rightarrow> u64 \<Rightarrow> nat" where
  "home_slot t key = (unat key AND (wt_capacity t - 1))"

definition next_slot :: "window_table \<Rightarrow> nat \<Rightarrow> nat" where
  "next_slot t slot = ((slot + 1) AND (wt_capacity t - 1))"

fun insert_loop :: "nat \<Rightarrow> u64 \<Rightarrow> nat \<Rightarrow> nat \<Rightarrow> window_table \<Rightarrow> window_table option" where
  "insert_loop 0 key pos slot t = None"
| "insert_loop (Suc n) key pos slot t =
    (if wt_ends t ! slot = 0
     then Some (t\<lparr>wt_keys := (wt_keys t)[slot := key],
                  wt_ends := (wt_ends t)[slot := u32_add pos 1],
                  wt_size := wt_size t + 1\<rparr>)
     else if wt_keys t ! slot = key
     then Some (t\<lparr>wt_ends := (wt_ends t)[slot := u32_add pos 1]\<rparr>)
     else insert_loop n key pos (next_slot t slot) t)"

fun reinsert ::
  "(window_table \<Rightarrow> u64 \<Rightarrow> nat \<Rightarrow> window_table option) \<Rightarrow> (u64 \<times> nat) list \<Rightarrow>
   window_table \<Rightarrow> window_table option" where
  "reinsert ins [] t = Some t"
| "reinsert ins ((key, e) # entries) t =
    (if e \<noteq> 0 then Option.bind (ins t key (e - 1)) (reinsert ins entries)
     else reinsert ins entries t)"

definition grown :: "window_table \<Rightarrow> window_table" where
  "grown t =
    (let capacity = max 4096 (wt_capacity t * 2)
     in \<lparr>wt_keys = replicate capacity 0, wt_ends = replicate capacity 0, wt_size = 0\<rparr>)"

fun wt_insert_depth :: "nat \<Rightarrow> window_table \<Rightarrow> u64 \<Rightarrow> nat \<Rightarrow> window_table option" where
  "wt_insert_depth 0 t key pos = None"
| "wt_insert_depth (Suc d) t key pos =
    Option.bind
      (if (wt_size t + 1) * 2 > wt_capacity t
       then reinsert (wt_insert_depth d) (zip (wt_keys t) (wt_ends t)) (grown t)
       else Some t)
      (\<lambda>t'. insert_loop (wt_capacity t') key pos (home_slot t' key) t')"

definition wt_insert :: "window_table \<Rightarrow> u64 \<Rightarrow> nat \<Rightarrow> window_table option" where
  "wt_insert = wt_insert_depth 2"

fun find_loop :: "nat \<Rightarrow> u64 \<Rightarrow> nat \<Rightarrow> window_table \<Rightarrow> nat option" where
  "find_loop 0 key slot t = None"
| "find_loop (Suc n) key slot t =
    (if wt_ends t ! slot = 0 then Some 0
     else if wt_keys t ! slot = key then Some (wt_ends t ! slot)
     else find_loop n key (next_slot t slot) t)"

definition wt_find :: "window_table \<Rightarrow> u64 \<Rightarrow> nat option" where
  "wt_find t key =
    (if wt_keys t = [] then Some 0
     else find_loop (wt_capacity t) key (home_slot t key) t)"

definition wt_clear :: "window_table \<Rightarrow> window_table" where
  "wt_clear t =
    \<lparr>wt_keys = replicate (length (wt_keys t)) 0, wt_ends = replicate (length (wt_ends t)) 0,
     wt_size = 0\<rparr>"

section \<open>The invariant and the map the table stands for\<close>

definition occupied :: "window_table \<Rightarrow> nat \<Rightarrow> bool" where
  "occupied t i \<longleftrightarrow> i < wt_capacity t \<and> wt_ends t ! i \<noteq> 0"

text \<open>The slot a key reaches after \<open>d\<close> steps of its probe sequence.\<close>

definition probe :: "window_table \<Rightarrow> u64 \<Rightarrow> nat \<Rightarrow> nat" where
  "probe t key d = (unat key + d) mod wt_capacity t"

definition wt_shape :: "window_table \<Rightarrow> bool" where
  "wt_shape t \<longleftrightarrow>
    length (wt_ends t) = wt_capacity t \<and>
    (wt_keys t = [] \<or> (\<exists>k. wt_capacity t = 2 ^ k)) \<and>
    (\<forall>e\<in>set (wt_ends t). e \<le> uint32_max) \<and>
    wt_size t = card {i. occupied t i} \<and> 2 * wt_size t \<le> wt_capacity t"

definition wt_chained :: "window_table \<Rightarrow> bool" where
  "wt_chained t \<longleftrightarrow>
    (\<forall>i j. occupied t i \<and> occupied t j \<and> wt_keys t ! i = wt_keys t ! j \<longrightarrow> i = j) \<and>
    (\<forall>i. occupied t i \<longrightarrow>
      (\<exists>d. i = probe t (wt_keys t ! i) d \<and> (\<forall>d'<d. occupied t (probe t (wt_keys t ! i) d'))))"

definition wt_inv :: "window_table \<Rightarrow> bool" where
  "wt_inv t \<longleftrightarrow> wt_shape t \<and> wt_chained t"

definition wt_map :: "window_table \<Rightarrow> u64 \<Rightarrow> nat option" where
  "wt_map t key =
    map_option (\<lambda>i. wt_ends t ! i - 1)
      (List.find (\<lambda>i. wt_ends t ! i \<noteq> 0 \<and> wt_keys t ! i = key) [0..<wt_capacity t])"

lemma wt_uniqueD:
  "wt_inv t \<Longrightarrow> occupied t i \<Longrightarrow> occupied t j \<Longrightarrow> wt_keys t ! i = wt_keys t ! j \<Longrightarrow> i = j"
  by (auto simp: wt_inv_def wt_chained_def)

lemma wt_chainE:
  assumes "wt_inv t" and "occupied t i"
  obtains d where "i = probe t (wt_keys t ! i) d"
    and "\<And>d'. d' < d \<Longrightarrow> occupied t (probe t (wt_keys t ! i) d')"
  using assms unfolding wt_inv_def wt_chained_def by blast

lemma wt_map_Some_iff:
  assumes "wt_inv t"
  shows "wt_map t key = Some p \<longleftrightarrow>
    (\<exists>i. occupied t i \<and> wt_keys t ! i = key \<and> wt_ends t ! i = Suc p)"
proof
  assume "wt_map t key = Some p"
  then show "\<exists>i. occupied t i \<and> wt_keys t ! i = key \<and> wt_ends t ! i = Suc p"
    by (auto simp: wt_map_def find_Some_iff occupied_def)
next
  assume "\<exists>i. occupied t i \<and> wt_keys t ! i = key \<and> wt_ends t ! i = Suc p"
  then obtain i where i: "occupied t i" "wt_keys t ! i = key" "wt_ends t ! i = Suc p" by blast
  then have "List.find (\<lambda>i. wt_ends t ! i \<noteq> 0 \<and> wt_keys t ! i = key) [0..<wt_capacity t] \<noteq> None"
    by (auto simp: find_None_iff occupied_def)
  then obtain j where j: "List.find (\<lambda>i. wt_ends t ! i \<noteq> 0 \<and> wt_keys t ! i = key)
      [0..<wt_capacity t] = Some j" by blast
  then have "occupied t j" "wt_keys t ! j = key" by (auto simp: find_Some_iff occupied_def)
  with i wt_uniqueD [OF assms] have "j = i" by metis
  with j i show "wt_map t key = Some p" by (simp add: wt_map_def)
qed

lemma wt_map_None_iff:
  "wt_map t key = None \<longleftrightarrow> (\<forall>i. occupied t i \<longrightarrow> wt_keys t ! i \<noteq> key)"
  by (auto simp: wt_map_def find_None_iff occupied_def)

section \<open>The probe loops\<close>

lemma and_pred_power_of_two: "(x AND (2 ^ k - 1)) = x mod 2 ^ k" for x :: nat
  by (metis mask_eq_exp_minus_1 take_bit_eq_mask take_bit_eq_mod)

lemma wt_and_mask:
  assumes "wt_inv t" and "wt_keys t \<noteq> []"
  shows "(x AND (wt_capacity t - 1)) = x mod wt_capacity t"
proof -
  from assms obtain k where "wt_capacity t = 2 ^ k" by (auto simp: wt_inv_def wt_shape_def)
  then show ?thesis by (simp only: and_pred_power_of_two)
qed

lemma home_slot_probe: "wt_inv t \<Longrightarrow> wt_keys t \<noteq> [] \<Longrightarrow> home_slot t key = probe t key 0"
  unfolding home_slot_def probe_def add_0_right by (rule wt_and_mask)

lemma next_slot_probe:
  "wt_inv t \<Longrightarrow> wt_keys t \<noteq> [] \<Longrightarrow> next_slot t (probe t key d) = probe t key (Suc d)"
  unfolding next_slot_def probe_def by (subst wt_and_mask) (simp_all add: mod_Suc_eq)

definition stops :: "window_table \<Rightarrow> u64 \<Rightarrow> nat \<Rightarrow> bool" where
  "stops t key i \<longleftrightarrow> wt_ends t ! i = 0 \<or> wt_keys t ! i = key"

lemma probe_hits: assumes "i < wt_capacity t" shows "\<exists>d<wt_capacity t. probe t key d = i"
proof -
  let ?c = "wt_capacity t"
  let ?h = "unat key mod ?c"
  let ?d = "(i + ?c - ?h) mod ?c"
  have pos: "0 < ?c" using assms by (rule le_less_trans [OF le0])
  then have h: "?h < ?c" by simp
  have "probe t key ?d = (?h + (i + ?c - ?h)) mod ?c"
    by (simp add: probe_def mod_add_eq mod_simps)
  also have "\<dots> = i" using h assms by simp
  finally show ?thesis using pos by (intro exI [of _ ?d]) simp
qed

lemma free_slot:
  assumes "wt_inv t" and "wt_keys t \<noteq> []"
  shows "\<exists>i<wt_capacity t. \<not> occupied t i"
proof (rule ccontr)
  assume "\<not> ?thesis"
  then have "{i. occupied t i} = {..<wt_capacity t}" by (auto simp: occupied_def)
  then have "card {i. occupied t i} = wt_capacity t" by simp
  moreover have "2 * card {i. occupied t i} \<le> wt_capacity t"
    using assms(1) by (simp add: wt_inv_def wt_shape_def)
  ultimately have "2 * wt_capacity t \<le> wt_capacity t" by simp
  with assms(2) show False by (cases "wt_keys t") simp_all
qed

text \<open>Where the probe sequence of a key stops, with the number of steps it takes.\<close>

lemma probe_stops:
  assumes "wt_inv t" and "wt_keys t \<noteq> []"
  obtains d where "d < wt_capacity t" and "stops t key (probe t key d)"
    and "\<And>d'. d' < d \<Longrightarrow> \<not> stops t key (probe t key d')" and "probe t key d < wt_capacity t"
proof -
  from free_slot [OF assms] obtain i where i: "i < wt_capacity t" "\<not> occupied t i" by blast
  from probe_hits [OF i(1)] obtain d0 where d0: "d0 < wt_capacity t" "probe t key d0 = i" by blast
  let ?P = "\<lambda>d. stops t key (probe t key d)"
  from i d0 have P: "?P d0" by (simp add: stops_def occupied_def)
  show ?thesis
  proof (rule that [of "LEAST d. ?P d"])
    show "(LEAST d. ?P d) < wt_capacity t" using Least_le [of ?P, OF P] d0 by simp
    show "?P (LEAST d. ?P d)" by (rule LeastI [of ?P, OF P])
    show "\<not> ?P d'" if "d' < (LEAST d. ?P d)" for d' by (rule not_less_Least [OF that])
    show "probe t key (LEAST d. ?P d) < wt_capacity t" using assms by (simp add: probe_def)
  qed
qed

lemma insert_loop_probe:
  assumes "wt_inv t" and "wt_keys t \<noteq> []" and "stops t key (probe t key (a + d))"
    and "\<And>d'. d' < d \<Longrightarrow> \<not> stops t key (probe t key (a + d'))" and "d < n"
  shows "insert_loop n key pos (probe t key a) t =
    insert_loop 1 key pos (probe t key (a + d)) t"
  using assms(3-5)
proof (induction d arbitrary: a n)
  case 0
  then show ?case by (cases n) (auto simp: stops_def)
next
  case (Suc d)
  from Suc.prems(3) obtain m where n: "n = Suc m" by (cases n) auto
  have "\<not> stops t key (probe t key a)" using Suc.prems(2) [of 0] by simp
  then have "insert_loop n key pos (probe t key a) t =
      insert_loop m key pos (probe t key (Suc a)) t"
    by (simp add: n stops_def next_slot_probe [OF assms(1,2)])
  also have "\<dots> = insert_loop 1 key pos (probe t key (Suc a + d)) t"
    using Suc.prems(1,3) Suc.prems(2) [of "Suc d'" for d'] n by (intro Suc.IH) auto
  finally show ?case by simp
qed

lemma find_loop_probe:
  assumes "wt_inv t" and "wt_keys t \<noteq> []" and "stops t key (probe t key (a + d))"
    and "\<And>d'. d' < d \<Longrightarrow> \<not> stops t key (probe t key (a + d'))" and "d < n"
  shows "find_loop n key (probe t key a) t = Some (wt_ends t ! probe t key (a + d))"
  using assms(3-5)
proof (induction d arbitrary: a n)
  case 0
  then show ?case by (cases n) (auto simp: stops_def)
next
  case (Suc d)
  from Suc.prems(3) obtain m where n: "n = Suc m" by (cases n) auto
  have "\<not> stops t key (probe t key a)" using Suc.prems(2) [of 0] by simp
  then have "find_loop n key (probe t key a) t = find_loop m key (probe t key (Suc a)) t"
    by (simp add: n stops_def next_slot_probe [OF assms(1,2)])
  also have "\<dots> = Some (wt_ends t ! probe t key (Suc a + d))"
    using Suc.prems(1,3) Suc.prems(2) [of "Suc d'" for d'] n by (intro Suc.IH) auto
  finally show ?case by simp
qed

text \<open>A key in the table is found where its probe sequence stops.\<close>

lemma stop_at_key:
  assumes inv: "wt_inv t" and "occupied t i" and "wt_keys t ! i = key"
    and s: "stops t key (probe t key d)" and least: "\<And>d'. d' < d \<Longrightarrow> \<not> stops t key (probe t key d')"
  shows "probe t key d = i"
proof -
  from wt_chainE [OF inv assms(2)] assms(3) obtain e where
    e: "i = probe t key e" "\<And>d'. d' < e \<Longrightarrow> occupied t (probe t key d')" by blast
  have "stops t key (probe t key e)" using assms(3) e(1) by (simp add: stops_def)
  then have "d \<le> e" using least [of e] by linarith
  then have "occupied t (probe t key d)" using e assms(2) by (cases "d = e") auto
  with s have "wt_keys t ! probe t key d = key" by (simp add: stops_def occupied_def)
  with \<open>occupied t (probe t key d)\<close> show ?thesis
    using wt_uniqueD [OF inv _ assms(2)] assms(3) by simp
qed

lemma wt_find_map:
  assumes "wt_inv t"
  shows "wt_find t key = Some (case wt_map t key of None \<Rightarrow> 0 | Some p \<Rightarrow> p + 1)"
proof (cases "wt_keys t = []")
  case True
  then show ?thesis by (simp add: wt_find_def wt_map_def)
next
  case False
  from probe_stops [OF assms False, of key] obtain d where d: "d < wt_capacity t"
    "stops t key (probe t key d)" "\<And>d'. d' < d \<Longrightarrow> \<not> stops t key (probe t key d')"
    "probe t key d < wt_capacity t" by blast
  have run: "wt_find t key = Some (wt_ends t ! probe t key d)"
    using find_loop_probe [OF assms False, of key 0 d "wt_capacity t"] d False
    by (simp add: wt_find_def home_slot_probe [OF assms False])
  show ?thesis
  proof (cases "wt_map t key")
    case None
    then have "\<not> occupied t (probe t key d)" using d(2)
      by (auto simp: wt_map_None_iff stops_def occupied_def)
    with run None d(4) show ?thesis by (simp add: occupied_def)
  next
    case (Some p)
    then obtain i where i: "occupied t i" "wt_keys t ! i = key" "wt_ends t ! i = Suc p"
      by (auto simp: wt_map_Some_iff [OF assms])
    have "probe t key d = i" by (rule stop_at_key [OF assms i(1,2) d(2,3)])
    with run Some i show ?thesis by simp
  qed
qed

section \<open>Insertion\<close>

lemma option_ext: "(\<And>p. x = Some p \<longleftrightarrow> y = Some p) \<Longrightarrow> x = y"
  by (metis not_None_eq)

lemma wt_map_update:
  assumes inv: "wt_inv t" and inv': "wt_inv t'"
    and i: "occupied t' i" "wt_keys t' ! i = key" "wt_ends t' ! i = Suc pos"
    and old: "occupied t i \<Longrightarrow> wt_keys t ! i = key"
    and same: "\<And>j. j \<noteq> i \<Longrightarrow> occupied t' j = occupied t j"
      "\<And>j. j \<noteq> i \<Longrightarrow> wt_keys t' ! j = wt_keys t ! j"
      "\<And>j. j \<noteq> i \<Longrightarrow> wt_ends t' ! j = wt_ends t ! j"
  shows "wt_map t' = (wt_map t)(key \<mapsto> pos)"
proof
  fix k
  show "wt_map t' k = ((wt_map t)(key \<mapsto> pos)) k"
  proof (cases "k = key")
    case True
    have "wt_map t' key = Some pos" unfolding wt_map_Some_iff [OF inv'] using i by blast
    with True show ?thesis by simp
  next
    case False
    have "(occupied t' j \<and> wt_keys t' ! j = k \<and> wt_ends t' ! j = Suc p) =
        (occupied t j \<and> wt_keys t ! j = k \<and> wt_ends t ! j = Suc p)" for j p
      using False i(2) old same by (cases "j = i") auto
    then have "wt_map t' k = Some p \<longleftrightarrow> wt_map t k = Some p" for p
      by (simp only: wt_map_Some_iff [OF inv'] wt_map_Some_iff [OF inv])
    then have "wt_map t' k = wt_map t k" by (rule option_ext)
    with False show ?thesis by simp
  qed
qed

text \<open>Writing the slot at which the probe sequence of \<open>key\<close> stopped, by \<open>d\<close> steps.\<close>

lemma overwrite_slot:
  assumes inv: "wt_inv t" and i: "occupied t i" "wt_keys t ! i = key" and pos: "pos < uint32_max"
    and t': "t' = t\<lparr>wt_ends := (wt_ends t)[i := u32_add pos 1]\<rparr>"
  shows "wt_inv t' \<and> wt_map t' = (wt_map t)(key \<mapsto> pos)"
proof -
  have len: "length (wt_ends t) = wt_capacity t" and ilt: "i < wt_capacity t"
    using inv i by (auto simp: wt_inv_def wt_shape_def occupied_def)
  have e: "u32_add pos 1 = Suc pos" "u32_add pos (Suc 0) = Suc pos"
    using pos by (simp_all add: u32_add_small)
  have occ: "occupied t' j = occupied t j" for j
    using i len by (auto simp: t' occupied_def e nth_list_update)
  have prb: "probe t' = probe t" by (simp add: fun_eq_iff probe_def t')
  have ends: "\<forall>x\<in>set (wt_ends t'). x \<le> uint32_max" using inv pos
    by (auto simp: wt_inv_def wt_shape_def t' e dest: subsetD [OF set_update_subset_insert])
  have "wt_shape t'" using inv ends
    by (simp add: wt_inv_def wt_shape_def occ) (simp add: t')
  moreover have "wt_chained t'" using inv
    by (simp add: wt_inv_def wt_chained_def occ prb) (simp add: t')
  ultimately have inv': "wt_inv t'" by (simp add: wt_inv_def)
  have "wt_map t' = (wt_map t)(key \<mapsto> pos)"
    using i ilt len by (intro wt_map_update [OF inv inv', of i]) (simp_all add: occ, simp_all add: t' e)
  with inv' show ?thesis by blast
qed

lemma fill_slot:
  assumes inv: "wt_inv t" and d: "\<And>d'. d' < d \<Longrightarrow> occupied t (probe t key d')"
    and free: "\<not> occupied t (probe t key d)" "probe t key d < wt_capacity t"
    and new: "wt_map t key = None" and pos: "pos < uint32_max"
    and room: "(wt_size t + 1) * 2 \<le> wt_capacity t"
    and t': "t' = t\<lparr>wt_keys := (wt_keys t)[probe t key d := key],
                  wt_ends := (wt_ends t)[probe t key d := u32_add pos 1],
                  wt_size := wt_size t + 1\<rparr>"
  shows "wt_inv t' \<and> wt_map t' = (wt_map t)(key \<mapsto> pos)"
proof -
  let ?s = "probe t key d"
  have len: "length (wt_ends t) = wt_capacity t"
    using inv by (auto simp: wt_inv_def wt_shape_def)
  have e: "u32_add pos 1 = Suc pos" "u32_add pos (Suc 0) = Suc pos"
    using pos by (simp_all add: u32_add_small)
  have occ: "occupied t' j \<longleftrightarrow> occupied t j \<or> j = ?s" for j
    using free len by (auto simp: t' occupied_def e nth_list_update)
  have keys: "wt_keys t' ! j = (if j = ?s then key else wt_keys t ! j)" for j
    using free by (simp add: t')
  have prb: "probe t' = probe t" by (simp add: fun_eq_iff probe_def t')
  have fresh: "wt_keys t ! j \<noteq> key" if "occupied t j" for j
    using new that by (simp add: wt_map_None_iff)
  have fin: "finite {i. occupied t i}" by (rule finite_subset [of _ "{..<wt_capacity t}"])
      (auto simp: occupied_def)
  have "{i. occupied t' i} = insert ?s {i. occupied t i}" by (auto simp: occ)
  then have "card {i. occupied t' i} = Suc (card {i. occupied t i})" using fin free by simp
  then have "wt_shape t'" using inv pos room
    by (auto simp: wt_inv_def wt_shape_def t' e dest: subsetD [OF set_update_subset_insert])
  moreover have "wt_chained t'"
    unfolding wt_chained_def
  proof (intro conjI allI impI)
    fix i j assume "occupied t' i \<and> occupied t' j \<and> wt_keys t' ! i = wt_keys t' ! j"
    then show "i = j" using fresh wt_uniqueD [OF inv] by (auto simp: occ keys split: if_splits)
  next
    fix i assume oc: "occupied t' i"
    show "\<exists>d. i = probe t' (wt_keys t' ! i) d \<and>
        (\<forall>d'<d. occupied t' (probe t' (wt_keys t' ! i) d'))"
    proof (cases "i = ?s")
      case True
      with d show ?thesis by (auto simp: keys prb occ intro!: exI [of _ d])
    next
      case False
      with oc have "occupied t i" by (simp add: occ)
      from wt_chainE [OF inv this] obtain d where "i = probe t (wt_keys t ! i) d"
        "\<And>d'. d' < d \<Longrightarrow> occupied t (probe t (wt_keys t ! i) d')" by blast
      then show ?thesis using False by (intro exI [of _ d]) (simp add: keys prb occ)
    qed
  qed
  ultimately have inv': "wt_inv t'" by (simp add: wt_inv_def)
  have "wt_map t' = (wt_map t)(key \<mapsto> pos)"
    using free len
    by (intro wt_map_update [OF inv inv', of ?s]) (simp_all add: occ keys, simp_all add: t' e)
  with inv' show ?thesis by blast
qed

lemma insert_loop_map:
  assumes inv: "wt_inv t" and ne: "wt_keys t \<noteq> []" and pos: "pos < uint32_max"
    and room: "(wt_size t + 1) * 2 \<le> wt_capacity t"
  shows "\<exists>t'. insert_loop (wt_capacity t) key pos (home_slot t key) t = Some t' \<and> wt_inv t' \<and>
    wt_map t' = (wt_map t)(key \<mapsto> pos) \<and> wt_capacity t' = wt_capacity t \<and>
    wt_size t' = wt_size t + (if wt_map t key = None then 1 else 0)"
proof -
  from probe_stops [OF inv ne, of key] obtain d where d: "d < wt_capacity t"
    "stops t key (probe t key d)" "\<And>d'. d' < d \<Longrightarrow> \<not> stops t key (probe t key d')"
    "probe t key d < wt_capacity t" by blast
  have run: "insert_loop (wt_capacity t) key pos (home_slot t key) t =
      insert_loop 1 key pos (probe t key d) t"
    using insert_loop_probe [OF inv ne, of key 0 d "wt_capacity t"] d
    by (simp add: home_slot_probe [OF inv ne])
  show ?thesis
  proof (cases "occupied t (probe t key d)")
    case True
    then have k: "wt_keys t ! probe t key d = key" and e: "wt_ends t ! probe t key d \<noteq> 0"
      using d(2) by (auto simp: stops_def occupied_def)
    have "wt_map t key \<noteq> None" using True k by (auto simp: wt_map_None_iff)
    with overwrite_slot [OF inv True k pos refl] k e show ?thesis by (simp add: run)
  next
    case False
    then have e: "wt_ends t ! probe t key d = 0" using d(4) by (simp add: occupied_def)
    have occ: "occupied t (probe t key d')" if "d' < d" for d'
      using d(3) [OF that] ne by (simp add: stops_def occupied_def probe_def)
    have new: "wt_map t key = None"
      using False stop_at_key [OF inv _ _ d(2,3)] by (auto simp: wt_map_None_iff)
    from fill_slot [OF inv occ False d(4) new pos room refl] e new show ?thesis by (simp add: run)
  qed
qed

text \<open>An insertion with room left does not recurse.\<close>

lemma wt_insert_depth_room:
  assumes inv: "wt_inv t" and pos: "pos < uint32_max" and room: "(wt_size t + 1) * 2 \<le> wt_capacity t"
  shows "\<exists>t'. wt_insert_depth (Suc n) t key pos = Some t' \<and> wt_inv t' \<and>
    wt_map t' = (wt_map t)(key \<mapsto> pos) \<and> wt_capacity t' = wt_capacity t \<and>
    wt_size t' \<le> wt_size t + 1"
proof -
  have ne: "wt_keys t \<noteq> []" using room by auto
  from insert_loop_map [OF inv ne pos room, of key] room show ?thesis by (auto split: if_splits)
qed

lemma wt_inv_cleared:
  assumes "n = 0 \<or> (\<exists>k. n = 2 ^ k)"
  shows "wt_inv \<lparr>wt_keys = replicate n 0, wt_ends = replicate n 0, wt_size = 0\<rparr>"
    and "wt_map \<lparr>wt_keys = replicate n 0, wt_ends = replicate n 0, wt_size = 0\<rparr> = Map.empty"
proof -
  let ?t = "\<lparr>wt_keys = replicate n 0, wt_ends = replicate n 0, wt_size = 0\<rparr>"
  have "\<not> occupied ?t i" for i by (simp add: occupied_def)
  then show "wt_inv ?t" "wt_map ?t = Map.empty" using assms
    by (auto simp: wt_inv_def wt_shape_def wt_chained_def wt_map_None_iff fun_eq_iff)
qed

lemma wt_inv_empty [simp]: "wt_inv empty_table" "wt_map empty_table = Map.empty"
  using wt_inv_cleared [of 0] by (simp_all add: empty_table_def)

lemma wt_inv_clear:
  assumes "wt_inv t"
  shows "wt_inv (wt_clear t)" and "wt_map (wt_clear t) = Map.empty"
  using assms wt_inv_cleared [of "wt_capacity t"]
  by (auto simp: wt_clear_def wt_inv_def wt_shape_def)

lemma grown_inv:
  assumes "wt_inv t"
  shows "wt_inv (grown t)" and "wt_map (grown t) = Map.empty"
    and "wt_capacity (grown t) = max 4096 (wt_capacity t * 2)" and "wt_size (grown t) = 0"
proof -
  have "(4096::nat) = 2 ^ 12" by simp
  moreover have "wt_capacity t * 2 = 0 \<or> (\<exists>k. wt_capacity t * 2 = 2 ^ Suc k)"
    using assms by (auto simp: wt_inv_def wt_shape_def)
  ultimately have "\<exists>k. max 4096 (wt_capacity t * 2) = 2 ^ k"
    unfolding max_def by (metis le_zero_eq numeral_neq_zero)
  then show "wt_inv (grown t)" and "wt_map (grown t) = Map.empty"
    using wt_inv_cleared [of "max 4096 (wt_capacity t * 2)"] by (auto simp: grown_def Let_def)
qed (simp_all add: grown_def Let_def)

text \<open>
  Re-inserting the entries of a list with distinct keys: the table has room for all of them, so
  no insertion grows it, and the result maps exactly the entries in addition.
\<close>

lemma reinsert_map:
  assumes "wt_inv t" and "length (filter (\<lambda>(k, e). e \<noteq> 0) entries) + wt_size t \<le> m"
    and "2 * m \<le> wt_capacity t" and "\<forall>(k, e)\<in>set entries. e \<le> uint32_max"
  shows "\<exists>t'. reinsert (wt_insert_depth (Suc n)) entries t = Some t' \<and> wt_inv t' \<and>
    wt_size t' \<le> m \<and> wt_capacity t' = wt_capacity t \<and>
    wt_map t' = wt_map t ++ map_of (rev (map (\<lambda>(k, e). (k, e - 1)) (filter (\<lambda>(k, e). e \<noteq> 0) entries)))"
  using assms
proof (induction entries arbitrary: t)
  case Nil
  then show ?case by simp
next
  case (Cons entry entries)
  obtain k e where entry: "entry = (k, e)" by (cases entry)
  show ?case
  proof (cases "e = 0")
    case True
    with Cons entry show ?thesis by simp
  next
    case False
    have "(wt_size t + 1) * 2 \<le> wt_capacity t" using Cons.prems False entry by simp
    moreover have "e - 1 < uint32_max" using Cons.prems(4) False entry by auto
    ultimately obtain u where u: "wt_insert_depth (Suc n) t k (e - 1) = Some u" "wt_inv u"
      "wt_map u = (wt_map t)(k \<mapsto> e - 1)" "wt_capacity u = wt_capacity t"
      "wt_size u \<le> wt_size t + 1"
      using wt_insert_depth_room [OF Cons.prems(1)] by blast
    have "length (filter (\<lambda>(k, e). e \<noteq> 0) entries) + wt_size u \<le> m"
      using Cons.prems(2) u(5) False entry by simp
    with Cons.IH [OF u(2)] Cons.prems u False entry show ?thesis
      by (auto simp: map_add_assoc simp del: wt_insert_depth.simps fun_upd_apply)
  qed
qed

abbreviation old_entries :: "window_table \<Rightarrow> (u64 \<times> nat) list" where
  "old_entries t \<equiv> filter (\<lambda>(k, e). e \<noteq> 0) (zip (wt_keys t) (wt_ends t))"

lemma old_entries_count:
  assumes "wt_inv t"
  shows "length (old_entries t) = wt_size t"
proof -
  have "length (wt_ends t) = wt_capacity t" "wt_size t = card {i. occupied t i}"
    using assms by (simp_all add: wt_inv_def wt_shape_def)
  then show ?thesis by (simp add: length_filter_conv_card occupied_def cong: conj_cong)
qed

lemma old_entries_iff:
  assumes "wt_inv t"
  shows "(k, p) \<in> set (map (\<lambda>(k, e). (k, e - 1)) (old_entries t)) \<longleftrightarrow> wt_map t k = Some p"
proof -
  have "length (wt_ends t) = wt_capacity t" using assms by (simp add: wt_inv_def wt_shape_def)
  then show ?thesis unfolding wt_map_Some_iff [OF assms]
    by (auto simp: set_zip occupied_def image_iff Suc_diff_1 [OF _, symmetric])
qed

lemma old_entries_map:
  assumes "wt_inv t"
  shows "map_of (rev (map (\<lambda>(k, e). (k, e - 1)) (old_entries t))) = wt_map t"
proof
  fix k
  let ?xs = "map (\<lambda>(k, e). (k, e - 1)) (old_entries t)"
  note iff = old_entries_iff [OF assms]
  have sound: "wt_map t k = Some p" if "map_of (rev ?xs) k = Some p" for p
    using map_of_SomeD [OF that] iff [of k p] by simp
  show "map_of (rev ?xs) k = wt_map t k"
  proof (cases "map_of (rev ?xs) k")
    case None
    then have "k \<notin> fst ` set ?xs" by (simp add: map_of_eq_None_iff)
    then have "(k, p) \<notin> set ?xs" for p by force
    with iff [of k] None show ?thesis by (cases "wt_map t k") auto
  next
    case (Some p)
    with sound show ?thesis by simp
  qed
qed

lemma grow_reinserts:
  assumes inv: "wt_inv t"
  obtains u where
    "reinsert (wt_insert_depth (Suc n)) (zip (wt_keys t) (wt_ends t)) (grown t) = Some u"
    "wt_inv u" "wt_map u = wt_map t" "(wt_size u + 1) * 2 \<le> wt_capacity u"
proof -
  note g = grown_inv [OF inv]
  have sz: "2 * wt_size t \<le> wt_capacity t" and bound: "\<forall>e\<in>set (wt_ends t). e \<le> uint32_max"
    using inv by (simp_all add: wt_inv_def wt_shape_def)
  have 1: "\<forall>(k, e)\<in>set (zip (wt_keys t) (wt_ends t)). e \<le> uint32_max"
    using bound by (auto dest: set_zip_rightD)
  have 2: "length (old_entries t) + wt_size (grown t) \<le> wt_size t"
    using old_entries_count [OF inv] g(4) by simp
  have 3: "2 * wt_size t \<le> wt_capacity (grown t)" using sz g(3) by simp
  from reinsert_map [OF g(1) 2 3 1, of n, unfolded old_entries_map [OF inv] g(2) empty_map_add]
  obtain u where u:
    "reinsert (wt_insert_depth (Suc n)) (zip (wt_keys t) (wt_ends t)) (grown t) = Some u"
    "wt_inv u" "wt_size u \<le> wt_size t" "wt_capacity u = wt_capacity (grown t)"
    "wt_map u = wt_map t" by blast
  have "(wt_size u + 1) * 2 \<le> wt_capacity u" using u(3,4) g(3) sz by (simp add: max_def split: if_splits)
  with u show ?thesis by (intro that)
qed

lemma wt_insert_map:
  assumes inv: "wt_inv t" and pos: "pos < uint32_max"
  shows "\<exists>t'. wt_insert t key pos = Some t' \<and> wt_inv t' \<and> wt_map t' = (wt_map t)(key \<mapsto> pos)"
proof (cases "(wt_size t + 1) * 2 \<le> wt_capacity t")
  case True
  with wt_insert_depth_room [OF inv pos, of 1 key] show ?thesis
    by (auto simp: wt_insert_def numeral_2_eq_2)
next
  case False
  from grow_reinserts [OF inv, of 0] obtain u where u:
    "reinsert (wt_insert_depth 1) (zip (wt_keys t) (wt_ends t)) (grown t) = Some u"
    "wt_inv u" "wt_map u = wt_map t" "(wt_size u + 1) * 2 \<le> wt_capacity u" by auto
  have "wt_insert t key pos =
      insert_loop (wt_capacity u) key pos (home_slot u key) u"
    using False u(1) by (simp add: wt_insert_def numeral_2_eq_2)
  moreover have "wt_keys u \<noteq> []" using u(4) by auto
  ultimately show ?thesis using insert_loop_map [OF u(2) _ pos u(4), of key] u(3) by auto
qed

section \<open>The interface the indexer relies on\<close>

text \<open>
  A map from keys to latest positions: insertion always returns and updates the map, lookup
  returns the position plus one, or zero.
\<close>

locale position_map =
  fixes inv :: "'t \<Rightarrow> bool" and abs :: "'t \<Rightarrow> 'k \<Rightarrow> nat option"
    and ins :: "'t \<Rightarrow> 'k \<Rightarrow> nat \<Rightarrow> 't option" and fnd :: "'t \<Rightarrow> 'k \<Rightarrow> nat option"
    and clr :: "'t \<Rightarrow> 't"
  assumes ins_ok: "inv t \<Longrightarrow> p < uint32_max \<Longrightarrow>
      \<exists>t'. ins t k p = Some t' \<and> inv t' \<and> abs t' = (abs t)(k \<mapsto> p)"
    and fnd_ok: "inv t \<Longrightarrow> fnd t k = Some (case abs t k of None \<Rightarrow> 0 | Some p \<Rightarrow> p + 1)"
    and clr_ok: "inv t \<Longrightarrow> inv (clr t) \<and> abs (clr t) = Map.empty"
begin

lemma ins_fnd:
  assumes "inv t" and "p < uint32_max" and "ins t k p = Some t'"
  shows "fnd t' k' = (if k' = k then Some (p + 1) else fnd t k')"
  using ins_ok [OF assms(1,2), of k] fnd_ok assms by auto

text \<open>Feeding the positions \<open>p\<close> in increasing order keeps, for each key, the latest one.\<close>

lemma ins_latest:
  assumes "inv t" and "abs t = (\<lambda>k. List.find (\<lambda>q. use q \<and> key q = k) (rev [0..<p]))"
    and "p < uint32_max" and "use p"
  shows "\<exists>t'. ins t (key p) p = Some t' \<and> inv t' \<and>
    abs t' = (\<lambda>k. List.find (\<lambda>q. use q \<and> key q = k) (rev [0..<Suc p]))"
  using ins_ok [OF assms(1,3), of "key p"] assms(2,4) by (auto simp: fun_eq_iff)

end

interpretation wt: position_map wt_inv wt_map wt_insert wt_find wt_clear
  by unfold_locales (simp_all add: wt_insert_map wt_find_map wt_inv_clear)

section \<open>Any sequence of insertions and clears\<close>

datatype table_op = Insert u64 nat | Clear

fun run_table :: "table_op list \<Rightarrow> window_table \<Rightarrow> window_table option" where
  "run_table [] t = Some t"
| "run_table (Insert key pos # ops) t = Option.bind (wt_insert t key pos) (run_table ops)"
| "run_table (Clear # ops) t = run_table ops (wt_clear t)"

fun run_map :: "table_op list \<Rightarrow> (u64 \<Rightarrow> nat option) \<Rightarrow> (u64 \<Rightarrow> nat option)" where
  "run_map [] m = m"
| "run_map (Insert key pos # ops) m = run_map ops (m(key \<mapsto> pos))"
| "run_map (Clear # ops) m = run_map ops Map.empty"

fun op_in_range :: "table_op \<Rightarrow> bool" where
  "op_in_range (Insert key pos) \<longleftrightarrow> pos < uint32_max"
| "op_in_range Clear \<longleftrightarrow> True"

lemma run_table_map:
  assumes "wt_inv t" and "list_all op_in_range ops"
  shows "\<exists>t'. run_table ops t = Some t' \<and> wt_inv t' \<and> wt_map t' = run_map ops (wt_map t)"
  using assms
proof (induction ops t rule: run_table.induct)
  case (2 key pos ops t)
  then obtain u where "wt_insert t key pos = Some u" "wt_inv u" "wt_map u = (wt_map t)(key \<mapsto> pos)"
    using wt.ins_ok [of t pos key] by auto
  with 2 show ?case by simp
qed (simp_all add: wt.clr_ok)

text \<open>
  C36. The open-addressed table is a finite map, and its loops end. Any sequence of insertions
  (of positions whose successor fits 32 bits) and clears, from the empty table, runs to the end:
  the probe loops find a free slot or the key, and the recursive insertions made while growing
  do not grow again. After it, \<open>find\<close> returns for every key the position the plain map holds
  plus one, and zero for a key that was not inserted since the last clear.
\<close>

theorem table_refines_map:
  assumes "list_all op_in_range ops"
  shows "\<exists>t. run_table ops empty_table = Some t \<and>
    (\<forall>key. wt_find t key = Some (case run_map ops Map.empty key of None \<Rightarrow> 0 | Some p \<Rightarrow> p + 1))"
  using run_table_map [OF wt_inv_empty(1) assms] wt.fnd_ok by auto

theorem table_refines_map_witness:
  "\<exists>t. run_table [Insert 7 3, Clear, Insert 5 1, Insert 4101 2, Insert 5 9] empty_table = Some t \<and>
    wt_find t 5 = Some 10 \<and> wt_find t 4101 = Some 3 \<and> wt_find t 7 = Some 0"
proof -
  have "list_all op_in_range [Insert 7 3, Clear, Insert 5 1, Insert 4101 2, Insert 5 9]" by simp
  from table_refines_map [OF this] show ?thesis by auto
qed

end
