(* ===== verification/PromptLookup.thy ===== *)
theory PromptLookup
  imports Complex_Main WindowTable
begin

text \<open>
  \<open>PromptLookup\<close> of \<open>models/qwen3_5/program/speculative/prompt_lookup.cpp\<close>: it proposes to
  continue a context with the tokens that followed an earlier occurrence of its last 8, 4 or 2
  tokens, found through one window table per length.

  A token id is the bit pattern of its \<open>int32_t\<close>; the hash runs on 64-bit words. The output span
  is a list that is written in place, so its old contents are visible. Operations return
  \<open>None\<close> where a table loop would never return; the results show that it does not happen.
  The estimates are pairs of reals; the rounding to \<open>double\<close> after each arithmetic operation is
  a parameter \<open>rnd\<close>. \<open>log_probability\<close> and \<open>confident\<close> are not modelled: they only read
  the estimates through \<open>std::log\<close>.
\<close>

section \<open>State and operations\<close>

type_synonym token = u32

definition kWindows :: "nat list" where
  "kWindows = [8, 4, 2]"

definition kMatchLimit :: nat where
  "kMatchLimit = 128"

record lookup =
  lk_tables :: "window_table list"
  lk_estimates :: "(real \<times> real) list"
  lk_indexed :: nat
  lk_indexed_last :: token
  lk_proposal :: "token list"
  lk_window :: int
  lk_match :: nat

definition make_lookup :: lookup where
  "make_lookup =
    \<lparr>lk_tables = replicate 3 empty_table, lk_estimates = replicate 3 (0, 0), lk_indexed = 0,
     lk_indexed_last = 0, lk_proposal = [], lk_window = - 1, lk_match = 0\<rparr>"

definition hash_token :: "u64 \<Rightarrow> token \<Rightarrow> u64" where
  "hash_token hash token =
    (let h = (hash XOR ucast token) * 0xff51afd7ed558ccd in h XOR drop_bit 32 h)"

definition window_hash :: "token list \<Rightarrow> u64" where
  "window_hash tokens =
    foldl hash_token (0x9e3779b97f4a7c15 XOR of_nat (length tokens)) tokens"

text \<open>The \<open>n\<close> tokens that end at a position.\<close>

definition window :: "nat \<Rightarrow> nat \<Rightarrow> token list \<Rightarrow> token list" where
  "window n p ctxt = take n (drop (p + 1 - n) ctxt)"

fun index_windows ::
  "token list \<Rightarrow> nat \<Rightarrow> nat list \<Rightarrow> window_table list \<Rightarrow> window_table list option" where
  "index_windows ctxt position [] tables = Some tables"
| "index_windows ctxt position (w # ws) tables =
    (if position + 1 < kWindows ! w then index_windows ctxt position ws tables
     else Option.bind (wt_insert (tables ! w) (window_hash (window (kWindows ! w) position ctxt)) position)
       (\<lambda>t. index_windows ctxt position ws (tables[w := t])))"

fun index_positions ::
  "token list \<Rightarrow> nat list \<Rightarrow> window_table list \<Rightarrow> window_table list option" where
  "index_positions ctxt [] tables = Some tables"
| "index_positions ctxt (position # ps) tables =
    Option.bind (index_windows ctxt position [0..<length kWindows] tables)
      (index_positions ctxt ps)"

definition index_until :: "lookup \<Rightarrow> token list \<Rightarrow> nat \<Rightarrow> lookup option" where
  "index_until lk ctxt limit =
    Option.bind (index_positions ctxt [lk_indexed lk..<limit] (lk_tables lk))
      (\<lambda>tables.
        let lk = lk\<lparr>lk_tables := tables\<rparr>
        in Some (if limit > lk_indexed lk
                 then lk\<lparr>lk_indexed := limit, lk_indexed_last := ctxt ! (limit - 1)\<rparr> else lk))"

function extend_match :: "token list \<Rightarrow> nat \<Rightarrow> nat \<Rightarrow> nat" where
  "extend_match ctxt e match =
    (if match < kMatchLimit \<and> match \<le> e \<and> ctxt ! (e - match) = ctxt ! (length ctxt - 1 - match)
     then extend_match ctxt e (match + 1) else match)"
  by pat_completeness auto
termination
  by (relation "measure (\<lambda>(ctxt, e, match). kMatchLimit - match)") auto

definition copy_token :: "token list \<Rightarrow> nat \<Rightarrow> nat \<Rightarrow> token list \<Rightarrow> token list" where
  "copy_token ctxt e j out =
    (let source = e + 1 + j; period = length ctxt - 1 - e
     in out[j := if source < length ctxt then ctxt ! source else out ! (j - period)])"

definition copy_continuation :: "token list \<Rightarrow> nat \<Rightarrow> token list \<Rightarrow> token list" where
  "copy_continuation ctxt e out =
    foldl (\<lambda>out j. copy_token ctxt e j out) out [0..<length out]"

fun propose_scan ::
  "token list \<Rightarrow> nat list \<Rightarrow> lookup \<Rightarrow> token list \<Rightarrow> (lookup \<times> token list \<times> nat) option" where
  "propose_scan ctxt [] lk out = Some (lk, out, 0)"
| "propose_scan ctxt (w # ws) lk out =
    (let size = kWindows ! w; suffix = window size (length ctxt - 1) ctxt
     in if length ctxt < size + 1 then propose_scan ctxt ws lk out
        else Option.bind (wt_find (lk_tables lk ! w) (window_hash suffix))
          (\<lambda>end1.
            if end1 = 0 then propose_scan ctxt ws lk out
            else if suffix \<noteq> window size (end1 - 1) ctxt then propose_scan ctxt ws lk out
            else
              let e = end1 - 1; out' = copy_continuation ctxt e out
              in Some (lk\<lparr>lk_match := extend_match ctxt e size, lk_proposal := out',
                         lk_window := int w\<rparr>, out', length out')))"

definition needs_reset :: "lookup \<Rightarrow> token list \<Rightarrow> bool" where
  "needs_reset lk ctxt \<longleftrightarrow>
    lk_indexed lk > length ctxt \<or>
    lk_indexed lk \<noteq> 0 \<and> ctxt ! (lk_indexed lk - 1) \<noteq> lk_indexed_last lk"

definition reset_lookup :: "lookup \<Rightarrow> lookup" where
  "reset_lookup lk =
    lk\<lparr>lk_tables := map wt_clear (lk_tables lk), lk_estimates := replicate 3 (0, 0),
       lk_indexed := 0\<rparr>"

definition begin_proposal :: "lookup \<Rightarrow> token list \<Rightarrow> lookup" where
  "begin_proposal lk ctxt =
    (let lk = lk\<lparr>lk_proposal := [], lk_window := - 1\<rparr>
     in if needs_reset lk ctxt then reset_lookup lk else lk)"

definition propose ::
  "lookup \<Rightarrow> token list \<Rightarrow> token list \<Rightarrow> (lookup \<times> token list \<times> nat) option" where
  "propose lk ctxt out =
    (let lk = begin_proposal lk ctxt
     in if length ctxt < 2 \<or> out = [] then Some (lk, out, 0)
        else Option.bind (index_until lk ctxt (length ctxt - 1))
          (\<lambda>lk. propose_scan ctxt [0..<length kWindows] lk out))"

fun common_prefix :: "token list \<Rightarrow> token list \<Rightarrow> nat" where
  "common_prefix (x # xs) (y # ys) = (if x = y then common_prefix xs ys + 1 else 0)"
| "common_prefix _ _ = 0"

definition observe :: "(real \<Rightarrow> real) \<Rightarrow> lookup \<Rightarrow> token list \<Rightarrow> lookup" where
  "observe rnd lk committed =
    (if lk_window lk < 0 then lk
     else
       let limit = min (length (lk_proposal lk)) (length committed);
           hits = common_prefix (lk_proposal lk) committed;
           w = nat (lk_window lk);
           (h, m) = lk_estimates lk ! w;
           h' = rnd (rnd (rnd 0.9 * h) + real hits);
           m' = rnd (rnd (rnd 0.9 * m) + (if hits < limit then 1 else 0))
       in lk\<lparr>lk_estimates := (lk_estimates lk)[w := (h', m')], lk_window := - 1\<rparr>)"

section \<open>Invariant\<close>

text \<open>Every stored position is an indexed one at which a whole window ends.\<close>

definition tables_inv :: "window_table list \<Rightarrow> nat \<Rightarrow> bool" where
  "tables_inv tables n \<longleftrightarrow>
    length tables = length kWindows \<and>
    (\<forall>w<length kWindows. wt_inv (tables ! w) \<and>
      (\<forall>key p. wt_map (tables ! w) key = Some p \<longrightarrow> p < n \<and> kWindows ! w \<le> p + 1))"

definition lookup_inv :: "lookup \<Rightarrow> bool" where
  "lookup_inv lk \<longleftrightarrow> tables_inv (lk_tables lk) (lk_indexed lk)"

text \<open>The tables hold the latest end of every window of a context below a position.\<close>

definition latest_end :: "nat \<Rightarrow> token list \<Rightarrow> nat \<Rightarrow> u64 \<Rightarrow> nat option" where
  "latest_end n ctxt limit key =
    List.find (\<lambda>p. n \<le> p + 1 \<and> window_hash (window n p ctxt) = key) (rev [0..<limit])"

definition tables_latest :: "window_table list \<Rightarrow> token list \<Rightarrow> nat \<Rightarrow> bool" where
  "tables_latest tables ctxt limit \<longleftrightarrow>
    length tables = length kWindows \<and>
    (\<forall>w<length kWindows. wt_inv (tables ! w) \<and>
      wt_map (tables ! w) = latest_end (kWindows ! w) ctxt limit)"

definition indexes :: "lookup \<Rightarrow> token list \<Rightarrow> bool" where
  "indexes lk ctxt \<longleftrightarrow>
    lk_indexed lk \<le> length ctxt \<and> tables_latest (lk_tables lk) ctxt (lk_indexed lk) \<and>
    (lk_indexed lk \<noteq> 0 \<longrightarrow> lk_indexed_last lk = ctxt ! (lk_indexed lk - 1))"

section \<open>Indexing\<close>

text \<open>
  A contract for one table, relative to the positions indexed so far, that one round of the
  indexing loop carries from a position to the next.
\<close>

locale window_indexer =
  fixes ctxt :: "token list" and Q :: "nat \<Rightarrow> window_table \<Rightarrow> nat \<Rightarrow> bool"
  assumes skip: "w < length kWindows \<Longrightarrow> Q w t p \<Longrightarrow> p + 1 < kWindows ! w \<Longrightarrow> Q w t (Suc p)"
    and step: "w < length kWindows \<Longrightarrow> Q w t p \<Longrightarrow> kWindows ! w \<le> p + 1 \<Longrightarrow> p < uint32_max \<Longrightarrow>
      \<exists>t'. wt_insert t (window_hash (window (kWindows ! w) p ctxt)) p = Some t' \<and> Q w t' (Suc p)"
begin

lemma index_windows_ok:
  assumes "distinct ws" and "\<forall>w\<in>set ws. w < length kWindows" and "p < uint32_max"
    and "length tables = length kWindows"
    and "\<forall>w<length kWindows. Q w (tables ! w) (if w \<in> set ws then p else Suc p)"
  shows "\<exists>tables'. index_windows ctxt p ws tables = Some tables' \<and>
    length tables' = length kWindows \<and> (\<forall>w<length kWindows. Q w (tables' ! w) (Suc p))"
  using assms
proof (induction ws arbitrary: tables)
  case Nil
  then show ?case by simp
next
  case (Cons w ws)
  then have w: "w < length kWindows" "Q w (tables ! w) p" by auto
  show ?case
  proof (cases "p + 1 < kWindows ! w")
    case True
    have "Q v (tables ! v) (if v \<in> set ws then p else Suc p)" if "v < length kWindows" for v
      using skip [OF w True] Cons.prems(1) Cons.prems(5) [rule_format, OF that]
      by (cases "v = w") auto
    with True Cons show ?thesis by auto
  next
    case False
    with step [OF w] Cons.prems(3) obtain t where
      t: "wt_insert (tables ! w) (window_hash (window (kWindows ! w) p ctxt)) p = Some t"
      "Q w t (Suc p)" by auto
    have "\<forall>v<length kWindows. Q v (tables[w := t] ! v) (if v \<in> set ws then p else Suc p)"
      using Cons.prems t(2) by (auto simp: nth_list_update)
    with Cons.IH [of "tables[w := t]"] Cons.prems False t(1) show ?thesis by auto
  qed
qed

lemma index_positions_ok:
  assumes "a \<le> b" and "b \<le> uint32_max" and "length tables = length kWindows"
    and "\<forall>w<length kWindows. Q w (tables ! w) a"
  shows "\<exists>tables'. index_positions ctxt [a..<b] tables = Some tables' \<and>
    length tables' = length kWindows \<and> (\<forall>w<length kWindows. Q w (tables' ! w) b)"
  using assms
proof (induction "b - a" arbitrary: a tables)
  case 0
  then show ?case by simp
next
  case (Suc n)
  then have ab: "[a..<b] = a # [Suc a..<b]" by (simp add: upt_rec)
  have "\<exists>tables'. index_windows ctxt a [0..<length kWindows] tables = Some tables' \<and>
      length tables' = length kWindows \<and> (\<forall>w<length kWindows. Q w (tables' ! w) (Suc a))"
    using Suc by (intro index_windows_ok) auto
  then obtain t where t: "index_windows ctxt a [0..<length kWindows] tables = Some t"
    "length t = length kWindows" "\<forall>w<length kWindows. Q w (t ! w) (Suc a)" by blast
  with Suc.hyps(1) [of "Suc a" t] Suc.hyps(2) Suc.prems(2) show ?case by (simp add: ab)
qed

end

lemma tables_inv_indexer:
  "window_indexer ctxt (\<lambda>w t n. wt_inv t \<and>
    (\<forall>key p. wt_map t key = Some p \<longrightarrow> p < n \<and> kWindows ! w \<le> p + 1))"
proof (unfold_locales, goal_cases)
  case (1 w t p)
  then show ?case by (meson less_SucI)
next
  case (2 w t p)
  then obtain t' where "wt_insert t (window_hash (window (kWindows ! w) p ctxt)) p = Some t'"
    "wt_inv t'" "wt_map t' = (wt_map t)(window_hash (window (kWindows ! w) p ctxt) \<mapsto> p)"
    using wt.ins_ok by blast
  with 2 show ?case by (auto simp: less_Suc_eq)
qed

lemma latest_indexer:
  "window_indexer ctxt (\<lambda>w t n. wt_inv t \<and> wt_map t = latest_end (kWindows ! w) ctxt n)"
proof (unfold_locales, goal_cases)
  case (1 w t p)
  then show ?case by (auto simp: latest_end_def fun_eq_iff)
next
  case (2 w t p)
  then show ?case
    using wt.ins_latest [where use = "\<lambda>q. kWindows ! w \<le> q + 1"
        and key = "\<lambda>q. window_hash (window (kWindows ! w) q ctxt)" and p = p and t = t]
    by (auto simp: latest_end_def [abs_def])
qed

interpretation bounded: window_indexer ctxt "\<lambda>w t n. wt_inv t \<and>
    (\<forall>key p. wt_map t key = Some p \<longrightarrow> p < n \<and> kWindows ! w \<le> p + 1)" for ctxt
  by (rule tables_inv_indexer)

interpretation latest: window_indexer ctxt
    "\<lambda>w t n. wt_inv t \<and> wt_map t = latest_end (kWindows ! w) ctxt n" for ctxt
  by (rule latest_indexer)

text \<open>The outcome of \<open>index_until\<close> once the tables are known.\<close>

lemma index_until_eq:
  assumes "index_positions ctxt [lk_indexed lk..<limit] (lk_tables lk) = Some ts"
  shows "index_until lk ctxt limit = Some (lk\<lparr>lk_tables := ts, lk_indexed := max (lk_indexed lk) limit,
    lk_indexed_last := if lk_indexed lk < limit then ctxt ! (limit - 1) else lk_indexed_last lk\<rparr>)"
  using assms by (cases lk) (simp add: index_until_def Let_def max_def)

lemma index_until_inv:
  assumes "lookup_inv lk" and "limit \<le> uint32_max"
  shows "\<exists>lk'. index_until lk ctxt limit = Some lk' \<and> lookup_inv lk' \<and>
    lk_indexed lk' = max (lk_indexed lk) limit \<and> lk_window lk' = lk_window lk"
proof (cases "lk_indexed lk \<le> limit")
  case True
  with assms bounded.index_positions_ok [of "lk_indexed lk" limit "lk_tables lk" ctxt] obtain ts where
    "index_positions ctxt [lk_indexed lk..<limit] (lk_tables lk) = Some ts" "tables_inv ts limit"
    by (auto simp: lookup_inv_def tables_inv_def)
  with True show ?thesis by (simp add: index_until_eq lookup_inv_def max_def)
next
  case False
  then have "index_positions ctxt [lk_indexed lk..<limit] (lk_tables lk) = Some (lk_tables lk)" by simp
  with False assms show ?thesis by (simp add: index_until_eq lookup_inv_def)
qed

lemma index_until_indexes:
  assumes "indexes lk ctxt" and "limit \<le> uint32_max" and "limit \<le> length ctxt"
  shows "\<exists>lk'. index_until lk ctxt limit = Some lk' \<and> indexes lk' ctxt \<and>
    lk_indexed lk' = max (lk_indexed lk) limit \<and> lk_window lk' = lk_window lk"
proof (cases "lk_indexed lk \<le> limit")
  case True
  with assms latest.index_positions_ok [of "lk_indexed lk" limit "lk_tables lk" ctxt] obtain ts where
    "index_positions ctxt [lk_indexed lk..<limit] (lk_tables lk) = Some ts"
    "tables_latest ts ctxt limit"
    by (auto simp: indexes_def tables_latest_def)
  with True assms show ?thesis by (auto simp: index_until_eq indexes_def max_def)
next
  case False
  then have "index_positions ctxt [lk_indexed lk..<limit] (lk_tables lk) = Some (lk_tables lk)" by simp
  with False assms show ?thesis by (simp add: index_until_eq indexes_def)
qed

text \<open>A context that extends the indexed one is still indexed.\<close>

lemma latest_end_append:
  assumes "limit \<le> length ctxt"
  shows "latest_end n (ctxt @ ys) limit = latest_end n ctxt limit"
proof -
  have "window n p (ctxt @ ys) = window n p ctxt" if "p < limit" "n \<le> p + 1" for p
    using that assms by (auto simp: window_def)
  then show ?thesis by (auto simp: latest_end_def fun_eq_iff intro!: find_cong)
qed

lemma indexes_append:
  assumes "indexes lk ctxt"
  shows "indexes lk (ctxt @ ys)"
  using assms by (auto simp: indexes_def tables_latest_def latest_end_append nth_append)

lemma find_SomeD: "List.find P xs = Some x \<Longrightarrow> P x \<and> x \<in> set xs"
  by (auto simp: find_Some_iff)

lemma latest_end_SomeD:
  "latest_end n ctxt limit key = Some p \<Longrightarrow>
    p < limit \<and> n \<le> p + 1 \<and> window_hash (window n p ctxt) = key"
  by (auto simp: latest_end_def dest: find_SomeD)

lemma indexes_inv: "indexes lk ctxt \<Longrightarrow> lookup_inv lk"
  using latest_end_SomeD
  by (simp add: indexes_def tables_latest_def lookup_inv_def tables_inv_def)

lemma make_lookup_indexes: "indexes make_lookup ctxt"
  by (auto simp: indexes_def tables_latest_def make_lookup_def kWindows_def latest_end_def less_Suc_eq
      fun_eq_iff numeral_3_eq_3)

lemma reset_indexes:
  assumes "lookup_inv lk"
  shows "indexes (reset_lookup lk) ctxt"
  using assms wt.clr_ok
  by (auto simp: indexes_def tables_latest_def reset_lookup_def lookup_inv_def tables_inv_def
      latest_end_def fun_eq_iff)

section \<open>Matching and copying\<close>

lemma window_eq_iff:
  assumes "n \<le> p + 1" and "n \<le> q + 1" and "p < length ctxt" and "q < length ctxt"
  shows "window n p ctxt = window n q ctxt \<longleftrightarrow> (\<forall>i<n. ctxt ! (p - i) = ctxt ! (q - i))"
proof -
  have "window n p ctxt = window n q ctxt \<longleftrightarrow>
      (\<forall>i<n. ctxt ! (p + 1 - n + i) = ctxt ! (q + 1 - n + i))"
    using assms by (auto simp: window_def list_eq_iff_nth_eq)
  also have "\<dots> \<longleftrightarrow> (\<forall>i<n. ctxt ! (p - i) = ctxt ! (q - i))"
  proof (intro iffI allI impI)
    fix i assume "\<forall>i<n. ctxt ! (p + 1 - n + i) = ctxt ! (q + 1 - n + i)" and "i < n"
    then have "ctxt ! (p + 1 - n + (n - 1 - i)) = ctxt ! (q + 1 - n + (n - 1 - i))"
      by (elim allE [of _ "n - 1 - i"]) simp
    moreover have "p + 1 - n + (n - 1 - i) = p - i" "q + 1 - n + (n - 1 - i) = q - i"
      using \<open>i < n\<close> assms by simp_all
    ultimately show "ctxt ! (p - i) = ctxt ! (q - i)" by (simp only:)
  next
    fix i assume "\<forall>i<n. ctxt ! (p - i) = ctxt ! (q - i)" and "i < n"
    moreover from \<open>i < n\<close> have "n - 1 - i < n" by simp
    ultimately have "ctxt ! (p - (n - 1 - i)) = ctxt ! (q - (n - 1 - i))" by blast
    moreover have "p - (n - 1 - i) = p + 1 - n + i" "q - (n - 1 - i) = q + 1 - n + i"
      using \<open>i < n\<close> assms by simp_all
    ultimately show "ctxt ! (p + 1 - n + i) = ctxt ! (q + 1 - n + i)" by (simp only:)
  qed
  finally show ?thesis .
qed

text \<open>
  The match length: the loop extends the matched suffix backwards until it meets the limit, the
  start of the context or a difference.
\<close>

declare extend_match.simps [simp del]

definition matches :: "token list \<Rightarrow> nat \<Rightarrow> nat \<Rightarrow> bool" where
  "matches ctxt e m \<longleftrightarrow> m \<le> e + 1 \<and> (\<forall>i<m. ctxt ! (e - i) = ctxt ! (length ctxt - 1 - i))"

lemma extend_match_maximal:
  assumes "matches ctxt e m" and "m \<le> kMatchLimit"
  shows "m \<le> extend_match ctxt e m \<and> matches ctxt e (extend_match ctxt e m) \<and>
    extend_match ctxt e m \<le> kMatchLimit \<and>
    (extend_match ctxt e m < kMatchLimit \<longrightarrow> \<not> matches ctxt e (extend_match ctxt e m + 1))"
  using assms
proof (induction ctxt e m rule: extend_match.induct)
  case (1 ctxt e m)
  show ?case
  proof (cases "m < kMatchLimit \<and> m \<le> e \<and> ctxt ! (e - m) = ctxt ! (length ctxt - 1 - m)")
    case True
    then have "matches ctxt e (m + 1)" using 1 by (auto simp: matches_def less_Suc_eq)
    with 1 True show ?thesis by (subst (1 2 3 4 5) extend_match.simps) auto
  next
    case False
    then have "m < kMatchLimit \<longrightarrow> \<not> matches ctxt e (m + 1)" by (auto simp: matches_def)
    moreover have "extend_match ctxt e m = m" using False by (subst extend_match.simps) (simp only: if_False)
    ultimately show ?thesis using 1 by simp
  qed
qed

text \<open>The copied continuation is the periodic extension of the context.\<close>

lemma copy_prefix:
  assumes "e + 1 < length ctxt" and "k \<le> length out"
  shows "length (foldl (\<lambda>out j. copy_token ctxt e j out) out [0..<k]) = length out \<and>
    (\<forall>j<k. foldl (\<lambda>out j. copy_token ctxt e j out) out [0..<k] ! j =
      (ctxt @ foldl (\<lambda>out j. copy_token ctxt e j out) out [0..<k]) ! (e + 1 + j))"
  using assms(2)
proof (induction k)
  case 0
  then show ?case by simp
next
  case (Suc k)
  define xs where "xs = foldl (\<lambda>out j. copy_token ctxt e j out) out [0..<k]"
  have xs: "length xs = length out" "\<And>j. j < k \<Longrightarrow> xs ! j = (ctxt @ xs) ! (e + 1 + j)"
    using Suc by (auto simp: xs_def)
  have step: "foldl (\<lambda>out j. copy_token ctxt e j out) out [0..<Suc k] = copy_token ctxt e k xs"
    by (simp add: xs_def)
  have eq: "copy_token ctxt e k xs = xs[k := (ctxt @ xs) ! (e + 1 + k)]"
    using assms(1) by (auto simp: copy_token_def Let_def nth_append ac_simps)
  have other: "(ctxt @ xs[k := v]) ! (e + 1 + j) = (ctxt @ xs) ! (e + 1 + j)" if "j \<le> k" for j v
    using that assms(1) by (auto simp: nth_append nth_list_update)
  show ?case
    unfolding step eq using xs other Suc.prems by (auto simp: less_Suc_eq)
qed

lemma copy_continuation_periodic:
  assumes "e + 1 < length ctxt"
  shows "length (copy_continuation ctxt e out) = length out"
    and "j < length out \<Longrightarrow>
      copy_continuation ctxt e out ! j = (ctxt @ copy_continuation ctxt e out) ! (e + 1 + j)"
  using copy_prefix [OF assms, of "length out" out] by (simp_all add: copy_continuation_def)

lemma copy_from_anchor: "copy_continuation ctxt (length ctxt - 1) out = out"
proof (cases ctxt)
  case Nil
  have "foldl (\<lambda>out j. copy_token [] 0 j out) out js = out" for js
    by (induction js) (simp_all add: copy_token_def)
  with Nil show ?thesis by (simp add: copy_continuation_def)
next
  case (Cons t ts)
  then have "foldl (\<lambda>out j. copy_token ctxt (length ctxt - 1) j out) out js = out" for js
    by (induction js) (simp_all add: copy_token_def)
  then show ?thesis by (simp add: copy_continuation_def)
qed

section \<open>Proposals\<close>

text \<open>
  What a returned proposal means: for some window the last tokens of the context also end at an
  earlier position \<open>e\<close>, the recorded match length is the longest common extension of the two
  up to the limit, and the output continues the context the way it continued after \<open>e\<close>.
\<close>

definition continues :: "token list \<Rightarrow> nat \<Rightarrow> nat \<Rightarrow> lookup \<Rightarrow> token list \<Rightarrow> bool" where
  "continues ctxt w e lk out \<longleftrightarrow>
    w < length kWindows \<and> e + 1 < length ctxt \<and> lk_window lk = int w \<and> lk_proposal lk = out \<and>
    kWindows ! w \<le> lk_match lk \<and> lk_match lk \<le> kMatchLimit \<and> matches ctxt e (lk_match lk) \<and>
    (lk_match lk < kMatchLimit \<longrightarrow> \<not> matches ctxt e (lk_match lk + 1)) \<and>
    (\<forall>j<length out. out ! j = (ctxt @ out) ! (e + 1 + j))"

lemma kWindows_bounds: "w < length kWindows \<Longrightarrow> 2 \<le> kWindows ! w \<and> kWindows ! w \<le> kMatchLimit"
  by (auto simp: kWindows_def kMatchLimit_def less_Suc_eq numeral_2_eq_2)

lemma found_continues:
  assumes w: "w < length kWindows" "kWindows ! w < length ctxt" and e: "e + 1 < length ctxt"
    "kWindows ! w \<le> e + 1"
    and eq: "window (kWindows ! w) (length ctxt - 1) ctxt = window (kWindows ! w) e ctxt"
    and out': "out' = copy_continuation ctxt e out"
  shows "continues ctxt w e (lk\<lparr>lk_match := extend_match ctxt e (kWindows ! w), lk_proposal := out',
      lk_window := int w\<rparr>) out' \<and> length out' = length out"
proof -
  have "matches ctxt e (kWindows ! w)"
    using eq w e window_eq_iff [of "kWindows ! w" "length ctxt - 1" e ctxt] by (auto simp: matches_def)
  from extend_match_maximal [OF this] kWindows_bounds [OF w(1)] w e
    copy_continuation_periodic(1) [OF e(1)] copy_continuation_periodic(2) [OF e(1)]
  show ?thesis by (simp add: continues_def out')
qed

text \<open>One window of the scan, by what the table holds for the hash of the suffix.\<close>

lemma propose_scan_Cons:
  assumes "lookup_inv lk" and "w < length kWindows"
  shows "propose_scan ctxt (w # ws) lk out =
    (if length ctxt < kWindows ! w + 1 then propose_scan ctxt ws lk out
     else case wt_map (lk_tables lk ! w)
            (window_hash (window (kWindows ! w) (length ctxt - 1) ctxt)) of
       None \<Rightarrow> propose_scan ctxt ws lk out
     | Some e \<Rightarrow>
         if window (kWindows ! w) (length ctxt - 1) ctxt \<noteq> window (kWindows ! w) e ctxt
         then propose_scan ctxt ws lk out
         else Some (lk\<lparr>lk_match := extend_match ctxt e (kWindows ! w),
                       lk_proposal := copy_continuation ctxt e out, lk_window := int w\<rparr>,
                    copy_continuation ctxt e out, length (copy_continuation ctxt e out)))"
proof -
  have "wt_inv (lk_tables lk ! w)" using assms by (simp add: lookup_inv_def tables_inv_def)
  then show ?thesis
    by (cases "wt_map (lk_tables lk ! w) (window_hash (window (kWindows ! w) (length ctxt - 1) ctxt))")
      (simp_all add: Let_def wt.fnd_ok)
qed

declare propose_scan.simps(2) [simp del]

lemma propose_scan_sound:
  assumes inv: "lookup_inv lk" and n: "lk_indexed lk < length ctxt"
    and ws: "\<forall>w\<in>set ws. w < length kWindows" and "lk_window lk = - 1"
  shows "\<exists>lk' out' n. propose_scan ctxt ws lk out = Some (lk', out', n) \<and> lookup_inv lk' \<and>
    lk_indexed lk' = lk_indexed lk \<and>
    (n = 0 \<and> out' = out \<and> lk_window lk' = - 1 \<or>
     n = length out \<and> length out' = length out \<and> (\<exists>w e. continues ctxt w e lk' out'))"
  using ws
proof (induction ws)
  case Nil
  with assms show ?case by simp
next
  case (Cons w ws)
  then have w: "w < length kWindows" by simp
  let ?n = "kWindows ! w" and ?suffix = "window (kWindows ! w) (length ctxt - 1) ctxt"
  show ?case
  proof (cases "\<exists>e. ?n < length ctxt \<and> wt_map (lk_tables lk ! w) (window_hash ?suffix) = Some e \<and>
      ?suffix = window ?n e ctxt")
    case False
    then have "propose_scan ctxt (w # ws) lk out = propose_scan ctxt ws lk out"
      by (auto simp: propose_scan_Cons [OF inv w] split: option.split)
    with Cons show ?thesis by simp
  next
    case True
    then obtain e where e: "?n < length ctxt"
      "wt_map (lk_tables lk ! w) (window_hash ?suffix) = Some e" "?suffix = window ?n e ctxt" by blast
    then have "e < lk_indexed lk" "?n \<le> e + 1"
      using inv w by (auto simp: lookup_inv_def tables_inv_def)
    with found_continues [OF w e(1) _ _ e(3) refl, of out lk] n
    have c: "continues ctxt w e (lk\<lparr>lk_match := extend_match ctxt e ?n,
        lk_proposal := copy_continuation ctxt e out, lk_window := int w\<rparr>) (copy_continuation ctxt e out)"
      and len: "length (copy_continuation ctxt e out) = length out" by auto
    show ?thesis using e inv c len
      by (simp add: propose_scan_Cons [OF inv w] lookup_inv_def) blast
  qed
qed

lemma reset_inv: "lookup_inv lk \<Longrightarrow> lookup_inv (reset_lookup lk)"
  using indexes_inv [OF reset_indexes] .

lemma begin_proposal_inv:
  assumes "lookup_inv lk"
  shows "lookup_inv (begin_proposal lk ctxt)" and "lk_window (begin_proposal lk ctxt) = - 1"
    and "lk_indexed (begin_proposal lk ctxt) = (if needs_reset lk ctxt then 0 else lk_indexed lk)"
proof -
  have "lookup_inv (lk\<lparr>lk_proposal := [], lk_window := - 1\<rparr>)" using assms by (simp add: lookup_inv_def)
  then show "lookup_inv (begin_proposal lk ctxt)" by (simp add: begin_proposal_def Let_def reset_inv)
qed (simp_all add: begin_proposal_def needs_reset_def reset_lookup_def Let_def)

lemma begin_proposal_indexes:
  assumes "indexes lk ctxt"
  shows "indexes (begin_proposal lk ctxt) ctxt"
    and "lk_indexed (begin_proposal lk ctxt) = lk_indexed lk"
  using assms by (auto simp: begin_proposal_def needs_reset_def indexes_def Let_def)

text \<open>
  C35. A proposal is a real continuation. In every state that satisfies the invariant of the lookup,
  whatever positions its tables hold (the hash may collide and a context may have been replaced), and for
  a context that does not end exactly where the index ends, \<open>propose\<close> returns, and either leaves the output alone and
  reports none, or fills the output with the tokens that followed an occurrence of the last 8, 4
  or 2 tokens that ends strictly before the anchor, continued periodically past it; the recorded
  match length is the exact length of the common suffix, up to 128. The invariant is kept.
\<close>

theorem propose_sound:
  assumes "lookup_inv lk" and "lk_indexed lk \<noteq> length ctxt" and "length ctxt \<le> uint32_max"
  shows "\<exists>lk' out' n. propose lk ctxt out = Some (lk', out', n) \<and> lookup_inv lk' \<and>
    (n = 0 \<and> out' = out \<and> lk_window lk' = - 1 \<or>
     n = length out \<and> length out' = length out \<and> (\<exists>w e. continues ctxt w e lk' out'))"
proof -
  define lk1 where "lk1 = begin_proposal lk ctxt"
  note lk1 = begin_proposal_inv [OF assms(1), of ctxt, folded lk1_def]
  show ?thesis
  proof (cases "length ctxt < 2 \<or> out = []")
    case True
    with lk1 show ?thesis by (simp add: propose_def flip: lk1_def)
  next
    case False
    have "length ctxt - 1 \<le> uint32_max" using assms(3) by linarith
    from index_until_inv [OF lk1(1) this, of ctxt] obtain lk2 where
      lk2: "index_until lk1 ctxt (length ctxt - 1) = Some lk2" "lookup_inv lk2"
      "lk_indexed lk2 = max (lk_indexed lk1) (length ctxt - 1)" "lk_window lk2 = - 1"
      using lk1(2) by auto
    have "lk_indexed lk2 < length ctxt"
      using False assms(2) lk2(3) lk1(3) by (auto simp: needs_reset_def split: if_splits)
    from propose_scan_sound [OF lk2(2) this _ lk2(4), of "[0..<length kWindows]" out] False lk2(1)
    show ?thesis by (auto simp: propose_def simp flip: lk1_def) blast
  qed
qed

theorem propose_sound_witness:
  "\<exists>lk' out' n. propose make_lookup [5, 6, 5, 6] [0, 0, 0] = Some (lk', out', n) \<and> lookup_inv lk' \<and>
    (n = 0 \<and> out' = [0, 0, 0] \<and> lk_window lk' = - 1 \<or>
     n = 3 \<and> length out' = 3 \<and> (\<exists>w e. continues [5, 6, 5, 6] w e lk' out'))"
proof -
  have "lookup_inv make_lookup" by (rule indexes_inv [OF make_lookup_indexes])
  moreover have "lk_indexed make_lookup \<noteq> length [5, 6, 5, 6 :: token]"
    by (simp add: make_lookup_def)
  ultimately show ?thesis using propose_sound [of make_lookup "[5, 6, 5, 6]" "[0, 0, 0]"]
    by (simp add: numeral_3_eq_3)
qed

section \<open>Scoring\<close>

text \<open>
  \<open>observe\<close> counts the longest common prefix of the proposal and the committed tokens, scores a
  proposal once, and leaves the index alone.
\<close>

lemma common_prefix_longest:
  "common_prefix xs ys \<le> min (length xs) (length ys)"
  "take (common_prefix xs ys) xs = take (common_prefix xs ys) ys"
  "common_prefix xs ys < min (length xs) (length ys) \<Longrightarrow>
    xs ! common_prefix xs ys \<noteq> ys ! common_prefix xs ys"
  by (induction xs ys rule: common_prefix.induct) auto

lemma observe_window: "lk_window (observe rnd lk committed) = min (lk_window lk) (- 1)"
  by (simp add: observe_def Let_def split: prod.split)

lemma observe_once: "observe rnd (observe rnd lk committed) committed' = observe rnd lk committed"
  by (subst observe_def) (simp add: observe_window)

lemma observe_keeps_index:
  "lk_tables (observe rnd lk committed) = lk_tables lk"
  "lk_indexed (observe rnd lk committed) = lk_indexed lk"
  "lk_indexed_last (observe rnd lk committed) = lk_indexed_last lk"
  by (simp_all add: observe_def Let_def split: prod.split)

lemma observe_indexes [simp]: "indexes (observe rnd lk committed) ctxt = indexes lk ctxt"
  by (simp add: indexes_def observe_keeps_index)

section \<open>The reference search\<close>

text \<open>
  The documented contract without hashes: the longest window that occurs earlier, at its most
  recent occurrence.
\<close>

definition earlier_end :: "nat \<Rightarrow> token list \<Rightarrow> nat option" where
  "earlier_end n ctxt =
    List.find (\<lambda>p. n \<le> p + 1 \<and> window n p ctxt = window n (length ctxt - 1) ctxt)
      (rev [0..<length ctxt - 1])"

fun reference_scan :: "token list \<Rightarrow> nat list \<Rightarrow> (nat \<times> nat) option" where
  "reference_scan ctxt [] = None"
| "reference_scan ctxt (w # ws) =
    (case (if length ctxt < kWindows ! w + 1 then None else earlier_end (kWindows ! w) ctxt) of
       None \<Rightarrow> reference_scan ctxt ws
     | Some e \<Rightarrow> Some (w, e))"

definition reference_lookup :: "token list \<Rightarrow> (nat \<times> nat) option" where
  "reference_lookup ctxt = reference_scan ctxt [0..<length kWindows]"

definition collision_free :: "token list \<Rightarrow> bool" where
  "collision_free ctxt \<longleftrightarrow>
    (\<forall>n\<in>set kWindows. \<forall>p<length ctxt. n \<le> p + 1 \<longrightarrow>
      window_hash (window n p ctxt) = window_hash (window n (length ctxt - 1) ctxt) \<longrightarrow>
      window n p ctxt = window n (length ctxt - 1) ctxt)"

lemma latest_is_earlier:
  assumes "collision_free ctxt" and "n \<in> set kWindows"
  shows "latest_end n ctxt (length ctxt - 1) (window_hash (window n (length ctxt - 1) ctxt)) =
    earlier_end n ctxt"
  unfolding latest_end_def earlier_end_def
  by (rule find_cong [OF refl])
    (use assms in \<open>auto simp: collision_free_def less_diff_conv\<close>)

lemma propose_scan_reference:
  assumes idx: "indexes lk ctxt" and n: "lk_indexed lk = length ctxt - 1" "2 \<le> length ctxt"
    and free: "collision_free ctxt"
    and ws: "\<forall>w\<in>set ws. w < length kWindows" and "lk_window lk = - 1"
  shows "\<exists>lk' out'. propose_scan ctxt ws lk out =
      Some (lk', out', case reference_scan ctxt ws of None \<Rightarrow> 0 | Some _ \<Rightarrow> length out) \<and>
    indexes lk' ctxt \<and> lk_indexed lk' = lk_indexed lk \<and> length out' = length out \<and>
    (case reference_scan ctxt ws of None \<Rightarrow> out' = out \<and> lk_window lk' = - 1
     | Some (w, e) \<Rightarrow> continues ctxt w e lk' out')"
  using ws
proof (induction ws)
  case Nil
  with assms show ?case by simp
next
  case (Cons w ws)
  then have w: "w < length kWindows" by simp
  note inv = indexes_inv [OF idx]
  let ?n = "kWindows ! w" and ?suffix = "window (kWindows ! w) (length ctxt - 1) ctxt"
  have map: "wt_map (lk_tables lk ! w) (window_hash ?suffix) = earlier_end ?n ctxt"
    using idx n(1) w latest_is_earlier [OF free nth_mem [OF w]]
    by (simp add: indexes_def tables_latest_def)
  show ?case
  proof (cases "?n < length ctxt \<and> earlier_end ?n ctxt \<noteq> None")
    case False
    then have "propose_scan ctxt (w # ws) lk out = propose_scan ctxt ws lk out"
      "reference_scan ctxt (w # ws) = reference_scan ctxt ws"
      by (auto simp: propose_scan_Cons [where ctxt = ctxt, OF inv w, unfolded map] less_Suc_eq_le)
    with Cons show ?thesis by simp
  next
    case True
    then obtain e where e: "?n < length ctxt" "earlier_end ?n ctxt = Some e" by auto
    then have e': "e + 1 < length ctxt" "?n \<le> e + 1" "?suffix = window ?n e ctxt"
      using find_SomeD [OF e(2) [unfolded earlier_end_def]] by auto
    from found_continues [OF w e(1) e' refl, of out lk]
    show ?thesis using e e'(3) idx
      by (simp add: propose_scan_Cons [where ctxt = ctxt, OF inv w, unfolded map] indexes_def tables_latest_def)
  qed
qed

text \<open>
  C34. On a growing context \<open>propose\<close> is the documented search: where no two windows of the
  context share a hash with the last one by accident, it takes the longest of the three windows
  that occurs earlier, at its most recent earlier occurrence, and proposes its continuation; it
  proposes nothing when none occurs. Afterwards the index is good for every extension of the
  context, so the incremental indexing never loses or invents an occurrence.
\<close>

theorem propose_reference:
  assumes "indexes lk ctxt" and "lk_indexed lk < length ctxt" and "length ctxt \<le> uint32_max"
    and "collision_free ctxt" and "out \<noteq> []"
  shows "\<exists>lk' out'. propose lk ctxt out =
      Some (lk', out', case reference_lookup ctxt of None \<Rightarrow> 0 | Some _ \<Rightarrow> length out) \<and>
    indexes lk' (ctxt @ later) \<and> lk_indexed lk' < length ctxt \<and> length out' = length out \<and>
    (case reference_lookup ctxt of None \<Rightarrow> out' = out \<and> lk_window lk' = - 1
     | Some (w, e) \<Rightarrow> continues ctxt w e lk' out')"
proof -
  define lk1 where "lk1 = begin_proposal lk ctxt"
  note lk1 = begin_proposal_indexes [OF assms(1), folded lk1_def]
    begin_proposal_inv(2) [OF indexes_inv [OF assms(1)], of ctxt, folded lk1_def]
  show ?thesis
  proof (cases "length ctxt < 2")
    case True
    then have "reference_lookup ctxt = None"
      by (simp add: reference_lookup_def kWindows_def numeral_2_eq_2 upt_rec)
    with True lk1 assms(2) indexes_append [OF lk1(1)] show ?thesis
      by (simp add: propose_def flip: lk1_def)
  next
    case False
    have "length ctxt - 1 \<le> uint32_max" "length ctxt - 1 \<le> length ctxt"
      using assms(3) by linarith+
    from index_until_indexes [OF lk1(1) this] obtain lk2 where
      lk2: "index_until lk1 ctxt (length ctxt - 1) = Some lk2" "indexes lk2 ctxt"
      "lk_indexed lk2 = length ctxt - 1" "lk_window lk2 = - 1"
      using lk1(2,3) assms(2) by auto
    have "2 \<le> length ctxt" using False by simp
    from propose_scan_reference [OF lk2(2,3) this assms(4) _ lk2(4), of "[0..<length kWindows]" out,
        folded reference_lookup_def]
    obtain lk' out' where r: "propose_scan ctxt [0..<length kWindows] lk2 out =
        Some (lk', out', case reference_lookup ctxt of None \<Rightarrow> 0 | Some _ \<Rightarrow> length out)"
      "indexes lk' ctxt" "lk_indexed lk' = lk_indexed lk2" "length out' = length out"
      "case reference_lookup ctxt of None \<Rightarrow> out' = out \<and> lk_window lk' = - 1
       | Some (w, e) \<Rightarrow> continues ctxt w e lk' out'" by auto
    have "propose lk ctxt out = propose_scan ctxt [0..<length kWindows] lk2 out"
      using False assms(5) lk2(1) by (simp add: propose_def flip: lk1_def)
    with r indexes_append [OF r(2), of later] lk2(3) False show ?thesis by auto
  qed
qed

theorem propose_reference_witness:
  "\<exists>lk' out'. propose make_lookup [5, 5, 5] [0, 0] = Some (lk', out', 2) \<and>
    indexes lk' ([5, 5, 5] @ [9]) \<and> continues [5, 5, 5] 2 1 lk' out'"
proof -
  let ?c = "[5, 5, 5] :: token list"
  have ref: "reference_lookup ?c = Some (2, 1)" by code_simp
  have "collision_free ?c"
    by (auto simp: collision_free_def kWindows_def window_def less_Suc_eq)
  with propose_reference [of make_lookup ?c "[0, 0]" "[9]"] make_lookup_indexes ref show ?thesis
    by (auto simp: make_lookup_def numeral_2_eq_2)
qed

lemma latest_end_anchor:
  assumes "ctxt \<noteq> []" and "n \<le> length ctxt"
  shows "latest_end n ctxt (length ctxt) (window_hash (window n (length ctxt - 1) ctxt)) =
    Some (length ctxt - 1)"
proof -
  obtain m where "length ctxt = Suc m" using assms(1) by (cases "length ctxt") auto
  with assms show ?thesis by (simp add: latest_end_def)
qed

text \<open>
  The case \<open>propose_sound\<close> leaves out. When the context ends exactly where the index ends (it
  shrank by one token and is otherwise unchanged), the last window is itself in the table: the
  match is the suffix with itself, the period is zero, and the output is returned as it was,
  reported as a full proposal.
\<close>

theorem anchor_echoes_output:
  assumes "indexes lk ctxt" and "lk_indexed lk = length ctxt" and "3 \<le> length ctxt"
    and "length ctxt \<le> uint32_max" and "out \<noteq> []"
  shows "\<exists>lk'. propose lk ctxt out = Some (lk', out, length out) \<and> 0 \<le> lk_window lk'"
proof -
  define lk1 where "lk1 = begin_proposal lk ctxt"
  note lk1 = begin_proposal_indexes [OF assms(1), folded lk1_def]
  have "index_positions ctxt [lk_indexed lk1..<length ctxt - 1] (lk_tables lk1) = Some (lk_tables lk1)"
    using lk1(2) assms(2) by simp
  from index_until_eq [OF this] have "index_until lk1 ctxt (length ctxt - 1) = Some lk1"
    using lk1(2) assms(2) by simp
  then have run: "propose lk ctxt out = propose_scan ctxt [0, 1, 2] lk1 out"
    using assms(3,5) by (simp add: propose_def kWindows_def upt_rec numeral_3_eq_3 numeral_2_eq_2 flip: lk1_def)
  note inv = indexes_inv [OF lk1(1)]
  have ne: "ctxt \<noteq> []" using assms(3) by auto
  have hit: "propose_scan ctxt (w # ws) lk1 out = Some (lk1\<lparr>lk_match :=
      extend_match ctxt (length ctxt - 1) (kWindows ! w), lk_proposal := out, lk_window := int w\<rparr>,
      out, length out)" if w: "w < length kWindows" "kWindows ! w < length ctxt" for w ws
  proof -
    have "wt_map (lk_tables lk1 ! w) (window_hash (window (kWindows ! w) (length ctxt - 1) ctxt)) =
        Some (length ctxt - 1)"
      using lk1 assms(2) w latest_end_anchor [OF ne, of "kWindows ! w"]
      by (auto simp: indexes_def tables_latest_def)
    with w show ?thesis by (simp add: propose_scan_Cons [OF inv w(1)] copy_from_anchor [simplified])
  qed
  have miss: "propose_scan ctxt (w # ws) lk1 out = propose_scan ctxt ws lk1 out"
    if "w < length kWindows" "\<not> kWindows ! w < length ctxt" for w ws
    using that by (simp add: propose_scan_Cons [OF inv that(1)])
  have k: "length kWindows = 3" "kWindows ! 0 = 8" "kWindows ! 1 = 4" "kWindows ! 2 = 2"
    by (simp_all add: kWindows_def)
  have hits: ?thesis if "propose_scan ctxt [0, 1, 2] lk1 out = propose_scan ctxt (w # ws) lk1 out"
    "w < length kWindows" "kWindows ! w < length ctxt" for w ws
    unfolding run that(1) hit [OF that(2,3)] by (intro exI conjI, rule refl) simp
  consider "8 < length ctxt" | "\<not> 8 < length ctxt" "4 < length ctxt" | "\<not> 4 < length ctxt" by blast
  then show ?thesis
  proof cases
    case 1
    then show ?thesis by (intro hits [OF refl]) (simp_all add: k)
  next
    case 2
    then show ?thesis by (intro hits [OF miss]) (simp_all only: k, simp_all)
  next
    case 3
    then have "propose_scan ctxt [0, 1, 2] lk1 out = propose_scan ctxt [2] lk1 out"
      using miss [of 0 "[1, 2]"] miss [of 1 "[2]"] by (simp only: k) simp
    moreover have "2 < length kWindows" "kWindows ! 2 < length ctxt"
      using assms(3) by (simp_all add: kWindows_def)
    ultimately show ?thesis by (rule hits)
  qed
qed

theorem anchor_echoes_output_witness:
  "\<exists>lk lk'. indexes lk [5, 5, 5] \<and> lk_indexed lk = 3 \<and>
    propose lk [5, 5, 5] [7, 8] = Some (lk', [7, 8], 2)"
proof -
  from index_until_indexes [of make_lookup "[5, 5, 5]" 3] make_lookup_indexes obtain lk where
    "indexes lk [5, 5, 5]" "lk_indexed lk = 3" by (auto simp: make_lookup_def)
  with anchor_echoes_output [of lk "[5, 5, 5]" "[7, 8]"] show ?thesis
    by (auto simp: numeral_2_eq_2)
qed

end
