(* ===== verification/Search.thy ===== *)
theory Search
  imports Prelude "HOL-Library.Sublist"
begin

text \<open>
  Substring search, \<open>std::string::find\<close>, and the facts its clients share: the position found is
  the first occurrence, and searching in a concatenation for a pattern whose first character does
  not recur in it.
\<close>

fun find_sub :: "string \<Rightarrow> string \<Rightarrow> nat option" where
  "find_sub pat [] = (if pat = [] then Some 0 else None)"
| "find_sub pat (c # cs) = (if prefix pat (c # cs) then Some 0 else map_option Suc (find_sub pat cs))"

lemma find_sub_Some_iff:
  "find_sub pat s = Some n \<longleftrightarrow>
    n \<le> length s \<and> prefix pat (drop n s) \<and> (\<forall>m<n. \<not> prefix pat (drop m s))"
proof (induction s arbitrary: n)
  case Nil
  then show ?case by auto
next
  case (Cons c cs)
  show ?case
  proof (cases "prefix pat (c # cs)")
    case True
    then show ?thesis by (cases n) auto
  next
    case False
    then show ?thesis by (cases n) (auto simp: Cons less_Suc_eq_0_disj)
  qed
qed

lemma find_sub_None_iff: "find_sub pat s = None \<longleftrightarrow> (\<forall>n\<le>length s. \<not> prefix pat (drop n s))"
proof
  assume "find_sub pat s = None"
  then show "\<forall>n\<le>length s. \<not> prefix pat (drop n s)"
  proof (induction s)
    case (Cons c cs)
    then show ?case by (auto simp: le_Suc_eq split: if_splits) (metis Suc_le_D drop_Suc_Cons not_less_eq_eq not_None_eq le_SucI drop0 nat.exhaust prefix_Cons)
  qed auto
next
  assume *: "\<forall>n\<le>length s. \<not> prefix pat (drop n s)"
  show "find_sub pat s = None"
  proof (rule ccontr)
    assume "find_sub pat s \<noteq> None"
    then obtain n where "find_sub pat s = Some n" by blast
    with * show False by (auto simp: find_sub_Some_iff)
  qed
qed

lemma find_sub_None_sublist: "find_sub pat s = None \<longleftrightarrow> \<not> sublist pat s"
proof
  assume none: "find_sub pat s = None"
  show "\<not> sublist pat s"
  proof
    assume "sublist pat s"
    then obtain u v where "s = u @ pat @ v" by (auto simp: sublist_def)
    with none show False by (auto simp: find_sub_None_iff dest: spec [of _ "length u"])
  qed
next
  assume no: "\<not> sublist pat s"
  show "find_sub pat s = None"
    unfolding find_sub_None_iff
  proof (intro allI impI notI)
    fix n assume "prefix pat (drop n s)"
    then obtain v where "s = take n s @ pat @ v" by (metis prefix_def append_take_drop_id)
    then show False using no by (metis sublist_def)
  qed
qed

lemma find_sub_split:
  assumes "find_sub pat s = Some n"
  shows "s = take n s @ pat @ drop (n + length pat) s" and "n + length pat \<le> length s"
proof -
  from assms obtain v where v: "drop n s = pat @ v" and n: "n \<le> length s"
    by (auto simp: find_sub_Some_iff prefix_def)
  then have "drop (n + length pat) s = v" by (metis append_eq_conv_conj drop_drop add.commute)
  with v show "s = take n s @ pat @ drop (n + length pat) s" by (metis append_take_drop_id)
  from v have "length (drop n s) = length pat + length v" by simp
  with n show "n + length pat \<le> length s" by simp
qed

lemma find_sub_first:
  assumes "find_sub pat (butlast (u @ pat)) = None" and "pat \<noteq> []"
  shows "find_sub pat (u @ pat @ v) = Some (length u)"
  unfolding find_sub_Some_iff
proof (intro conjI allI impI notI)
  fix m assume m: "m < length u" and "prefix pat (drop m (u @ pat @ v))"
  then have "take (length pat) (drop m (u @ pat @ v)) = pat" by (metis prefix_def append_eq_conv_conj)
  moreover have "take (length pat) (drop m (u @ pat @ v)) = take (length pat) (drop m (butlast (u @ pat)))"
    using m assms(2) by (intro nth_equalityI) (auto simp: nth_butlast nth_append add.commute)
  ultimately have "prefix pat (drop m (butlast (u @ pat)))" by (metis take_is_prefix)
  moreover have "m \<le> length (butlast (u @ pat))" using m assms(2) by auto
  ultimately show False using assms(1) by (auto simp: find_sub_None_iff)
qed simp_all

text \<open>
  A pattern whose head does not recur in it cannot straddle the start of a text that begins with
  the same character.
\<close>

lemma no_straddle:
  assumes "\<not> sublist pat u" and "hd pat \<notin> set (tl pat)" and "m < length u" and "w \<noteq> []" and "hd w = hd pat"
  shows "\<not> prefix pat (drop m (u @ w))"
proof
  assume "prefix pat (drop m (u @ w))"
  then obtain v where v: "drop m u @ w = pat @ v" using assms(3) by (auto simp: prefix_def)
  let ?k = "length (drop m u)"
  show False
  proof (cases "length pat \<le> ?k")
    case True
    then have "take (length pat) (drop m u) = pat" using v
      by (metis append_eq_conv_conj take_append diff_is_0_eq' take0 append_Nil2)
    then have "sublist pat u" by (metis sublist_take sublist_drop sublist_order.order_trans)
    with assms(1) show False by simp
  next
    case False
    have "(drop m u @ w) ! ?k = hd pat" using assms(4,5) by (simp add: nth_append hd_conv_nth)
    moreover have "(pat @ v) ! ?k = pat ! ?k" using False by (simp add: nth_append)
    ultimately have "hd pat = pat ! ?k" using v by simp
    moreover have "pat ! ?k \<in> set (tl pat)"
      using False assms(3) by (cases pat) (auto simp: nth_Cons' intro!: nth_mem)
    ultimately show False using assms(2) by simp
  qed
qed

lemma find_sub_marker:
  assumes "\<not> sublist pat u" and "pat \<noteq> []" and "hd pat \<notin> set (tl pat)"
  shows "find_sub pat (u @ pat @ v) = Some (length u)"
  using no_straddle [OF assms(1,3), of _ "pat @ v"] assms(2) by (simp add: find_sub_Some_iff)

lemma find_sub_beyond:
  assumes "\<not> sublist pat u" and "hd pat \<notin> set (tl pat)" and "w \<noteq> []" and "hd w = hd pat"
    and "find_sub pat (u @ w) = Some k"
  shows "length u \<le> k"
  using no_straddle [OF assms(1,2) _ assms(3,4), of k] assms(5)
  by (auto simp: find_sub_Some_iff not_less [symmetric])

lemma find_sub_char:
  assumes "c \<notin> set u"
  shows "find_sub [c] (u @ c # v) = Some (length u)"
proof -
  have "\<not> sublist [c] u" using assms by (auto simp: sublist_def)
  from find_sub_marker [OF this, of v] show ?thesis by simp
qed

section \<open>Matching a marker byte by byte\<close>

text \<open>
  A marker whose first character does not recur in it is matched without a failure table: after a
  mismatch the match restarts at the current character. \<open>tracks t k\<close> says that \<open>k\<close> characters
  of the marker are matched at the end of \<open>t\<close>, that no other partial match is open, and that the
  marker has not occurred in \<open>t\<close>.
\<close>

lemma sublist_snoc: "sublist xs (ys @ [y]) \<longleftrightarrow> sublist xs ys \<or> suffix xs (ys @ [y])"
proof -
  have "sublist xs (ys @ [y]) \<longleftrightarrow> sublist (rev xs) (y # rev ys)"
    by (metis rev.simps(2) rev_rev_ident sublist_rev)
  also have "\<dots> \<longleftrightarrow> prefix (rev xs) (y # rev ys) \<or> sublist (rev xs) (rev ys)"
    by (rule sublist_Cons_right)
  also have "prefix (rev xs) (y # rev ys) \<longleftrightarrow> suffix xs (ys @ [y])"
    by (simp add: suffix_to_prefix)
  finally show ?thesis by auto
qed

locale unique_head =
  fixes m :: string
  assumes two: "2 \<le> length m" and head: "hd m \<notin> set (tl m)"
begin

definition tracks :: "string \<Rightarrow> nat \<Rightarrow> bool" where
  "tracks t k \<longleftrightarrow>
    k < length m \<and> suffix (take k m) t \<and> \<not> sublist m t \<and>
    (\<forall>j. 0 < j \<and> j < length m \<and> suffix (take j m) t \<longrightarrow> j = k)"

lemma nonempty: "m \<noteq> []"
  using two by auto

lemma tracks_empty: "tracks [] 0"
  using two by (auto simp: tracks_def)

lemma inner_not_head:
  assumes "0 < k" and "k < length m"
  shows "m ! k \<noteq> hd m"
proof -
  have "m ! k \<in> set (tl m)" using assms by (cases m) (auto simp: nth_Cons' intro!: nth_mem)
  with head show ?thesis by auto
qed

lemma suffix_step:
  assumes "0 < j" and "j \<le> length m"
  shows "suffix (take j m) (t @ [b]) \<longleftrightarrow> b = m ! (j - 1) \<and> suffix (take (j - 1) m) t"
proof -
  have "take j m = take (j - 1) m @ [m ! (j - 1)]"
    using assms by (metis Suc_diff_1 Suc_le_lessD le_simps(2) take_Suc_conv_app_nth Suc_le_eq)
  then show ?thesis by (auto simp: snoc_suffix_snoc)
qed

lemma occurrence_step:
  assumes "tracks t k" and "sublist m (t @ [b])"
  shows "k + 1 = length m \<and> b = m ! k"
proof -
  have "suffix (take (length m) m) (t @ [b])" using assms by (simp add: tracks_def sublist_snoc)
  with suffix_step [of "length m" t b] nonempty two
  have "b = m ! (length m - 1)" "suffix (take (length m - 1) m) t" by auto
  moreover from this(2) have "length m - 1 = k" using assms(1) two by (auto simp: tracks_def)
  ultimately show ?thesis using two by auto
qed

lemma tracks_advance:
  assumes "tracks t k" and "0 < k" and "b = m ! k" and "k + 1 < length m"
  shows "tracks (t @ [b]) (k + 1)"
  unfolding tracks_def
proof (intro conjI allI impI)
  show "suffix (take (k + 1) m) (t @ [b])"
    using assms suffix_step [of "k + 1" t b] by (simp add: tracks_def)
  show "\<not> sublist m (t @ [b])" using occurrence_step [OF assms(1)] assms(4) by auto
  fix j assume j: "0 < j \<and> j < length m \<and> suffix (take j m) (t @ [b])"
  then have s: "b = m ! (j - 1)" "suffix (take (j - 1) m) t" using suffix_step [of j t b] by auto
  show "j = k + 1"
  proof (cases "j = 1")
    case True
    then have "m ! k = hd m" using s(1) assms(3) nonempty by (simp add: hd_conv_nth)
    with inner_not_head [of k] assms show ?thesis by auto
  next
    case False
    with j s(2) have "j - 1 = k" using assms(1) by (auto simp: tracks_def)
    with j show ?thesis by auto
  qed
qed (use assms in auto)

lemma tracks_restart:
  assumes "tracks t k" and "\<not> (0 < k \<and> b = m ! k)"
  shows "tracks (t @ [b]) (if b = hd m then 1 else 0)"
  unfolding tracks_def
proof (intro conjI allI impI)
  show "suffix (take (if b = hd m then 1 else 0) m) (t @ [b])"
    using suffix_step [of 1 t b] two nonempty by (auto simp: hd_conv_nth)
  show "\<not> sublist m (t @ [b])" using occurrence_step [OF assms(1)] assms(2) two by auto
  show "(if b = hd m then 1 else 0) < length m" using two by auto
  fix j assume j: "0 < j \<and> j < length m \<and> suffix (take j m) (t @ [b])"
  then have s: "b = m ! (j - 1)" "suffix (take (j - 1) m) t" using suffix_step [of j t b] by auto
  have "j = 1"
  proof (rule ccontr)
    assume "j \<noteq> 1"
    with j s(2) have "j - 1 = k" using assms(1) by (auto simp: tracks_def)
    with s(1) assms(2) j \<open>j \<noteq> 1\<close> show False by auto
  qed
  with s(1) nonempty show "j = (if b = hd m then 1 else 0)" by (simp add: hd_conv_nth)
qed

lemma tracks_complete:
  assumes "tracks t k" and "b = m ! k" and "k + 1 = length m"
  obtains u where "t = u @ take k m" and "t @ [b] = u @ m"
    and "\<And>v. find_sub m (t @ [b] @ v) = Some (length u)"
proof -
  from assms(1) obtain u where u: "t = u @ take k m" by (auto simp: tracks_def suffix_def)
  have "m = take k m @ [m ! k]" using assms(3) by (metis Suc_eq_plus1 lessI take_Suc_conv_app_nth take_all_iff le_refl)
  then have t: "t @ [b] = u @ m" using u assms(2) by (metis append.assoc)
  then have "butlast (u @ m) = t" by (metis butlast_snoc)
  then have "find_sub m (butlast (u @ m)) = None"
    using assms(1) by (simp add: tracks_def find_sub_None_sublist)
  from find_sub_first [OF this nonempty] t have "find_sub m (t @ [b] @ v) = Some (length u)" for v
    by (metis append.assoc)
  with u t show ?thesis by (rule that)
qed

end

end
