(* ===== verification/ToolParser.thy ===== *)
theory ToolParser
  imports Search
begin

text \<open>
  The parser of generated tool calls, \<open>models/qwen3_5/frontend/tool_call_parser.cpp\<close>: the text
  helpers, the contract the calls are checked against, and the grammar of the tool region
  (\<open>QwenToolRegionParser\<close>).

  The parser's position in its text is the remaining text itself: every look-ahead of the source
  is relative to the position. \<open>FallbackReason::None\<close> is a normal return; the other reasons are the
  left values of a sum. The contract is data here: the compilation of one tool definition from
  the JSON of the request is not modelled, its insertion into the contract is.
\<close>

section \<open>Text\<close>

definition kToolOpen :: string where "kToolOpen = ''<tool_call>''"
definition kToolClose :: string where "kToolClose = ''</tool_call>''"
definition kFunctionOpen :: string where "kFunctionOpen = ''<function=''"
definition kFunctionClose :: string where "kFunctionClose = ''</function>''"
definition kParamOpen :: string where "kParamOpen = ''<parameter=''"
definition kParamClose :: string where "kParamClose = ''</parameter>''"

lemmas markers = kToolOpen_def kToolClose_def kFunctionOpen_def kFunctionClose_def kParamOpen_def
  kParamClose_def

definition is_format_whitespace :: "char \<Rightarrow> bool" where
  "is_format_whitespace b \<longleftrightarrow> b = CHR '' '' \<or> b = CHR 0x09 \<or> b = CHR 0x0D \<or> b = CHR 0x0A"

definition is_ascii_digit :: "char \<Rightarrow> bool" where
  "is_ascii_digit b \<longleftrightarrow> (48::nat) \<le> of_char b \<and> of_char b \<le> (57::nat)"

definition is_ascii_alphanumeric :: "char \<Rightarrow> bool" where
  "is_ascii_alphanumeric b \<longleftrightarrow>
    ((97::nat) \<le> of_char b \<and> of_char b \<le> (122::nat)) \<or> ((65::nat) \<le> of_char b \<and> of_char b \<le> (90::nat)) \<or>
    is_ascii_digit b"

definition rtrim_format_whitespace :: "string \<Rightarrow> string" where
  "rtrim_format_whitespace text = rev (dropWhile is_format_whitespace (rev text))"

definition trim_format_whitespace :: "string \<Rightarrow> string" where
  "trim_format_whitespace text = rtrim_format_whitespace (dropWhile is_format_whitespace text)"

definition skip_format_whitespace :: "string \<Rightarrow> string" where
  "skip_format_whitespace text = dropWhile is_format_whitespace text"

definition valid_function_name :: "string \<Rightarrow> nat \<Rightarrow> bool" where
  "valid_function_name name max_name_length \<longleftrightarrow>
    (if name = [] \<or> length name > max_name_length then False
     else list_all (\<lambda>b. is_ascii_alphanumeric b \<or> b = CHR ''_'' \<or> b = CHR ''-'') name)"

section \<open>Contract\<close>

datatype schema_type = SNull | SBoolean | SInteger | SNumber | SString | SObject | SArray

fun type_bit :: "schema_type \<Rightarrow> 8 word" where
  "type_bit SNull = 1"
| "type_bit SBoolean = 2"
| "type_bit SInteger = 4"
| "type_bit SNumber = 8"
| "type_bit SString = 16"
| "type_bit SObject = 32"
| "type_bit SArray = 64"

definition admits_type :: "8 word \<Rightarrow> schema_type \<Rightarrow> bool" where
  "admits_type types t \<longleftrightarrow> (types AND type_bit t) \<noteq> 0"

datatype normalization_policy = Legacy | DeclaredTypes

record parameter_contract =
  pc_name :: string
  pc_policy :: normalization_policy
  pc_types :: "8 word"

record tool_contract =
  tc_name :: string
  tc_parameters :: "parameter_contract list"
  tc_unambiguous :: bool

record output_contract =
  oc_tools :: "tool_contract list"
  oc_enforce_declared_names :: bool

definition same_contract :: "tool_contract \<Rightarrow> tool_contract \<Rightarrow> bool" where
  "same_contract l r \<longleftrightarrow>
    (if length (tc_parameters l) \<noteq> length (tc_parameters r) then False
     else list_all2 (\<lambda>a b. pc_name a = pc_name b \<and> pc_policy a = pc_policy b \<and> pc_types a = pc_types b)
       (tc_parameters l) (tc_parameters r))"

definition find_tool_contract :: "output_contract \<Rightarrow> string \<Rightarrow> tool_contract option" where
  "find_tool_contract c name = List.find (\<lambda>t. tc_name t = name) (oc_tools c)"

definition find_parameter_contract :: "tool_contract \<Rightarrow> string \<Rightarrow> parameter_contract option" where
  "find_parameter_contract t name = List.find (\<lambda>p. pc_name p = name) (tc_parameters t)"

text \<open>The part of \<open>append_tool_contract\<close> after a definition is compiled.\<close>

fun add_compiled :: "tool_contract list \<Rightarrow> tool_contract \<Rightarrow> tool_contract list" where
  "add_compiled [] t = [t]"
| "add_compiled (x # xs) t =
    (if tc_name x = tc_name t
     then (if tc_unambiguous x \<and> \<not> same_contract x t
           then x\<lparr>tc_parameters := [], tc_unambiguous := False\<rparr> else x) # xs
     else x # add_compiled xs t)"

definition append_tool_contract :: "output_contract \<Rightarrow> tool_contract \<Rightarrow> output_contract" where
  "append_tool_contract c t =
    (if tc_name t = [] then c else c\<lparr>oc_tools := add_compiled (oc_tools c) t\<rparr>)"

section \<open>The tool region\<close>

datatype fallback_reason =
  MalformedStructure | DuplicateParameter | InvalidToolName | UndeclaredTool | TrailingContent

record raw_parameter =
  rp_name :: string
  rp_value :: string

record raw_tool_call =
  rt_name :: string
  rt_parameters :: "raw_parameter list"

type_synonym 'a parsed = "fallback_reason + 'a"

definition consume :: "string \<Rightarrow> string \<Rightarrow> string option" where
  "consume tok text = (if prefix tok text then Some (drop (length tok) text) else None)"

lemma consume_length: "consume tok s = Some r \<Longrightarrow> length s = length tok + length r"
  by (auto simp: consume_def prefix_def split: if_splits)

lemma skip_length: "length (skip_format_whitespace s) \<le> length s"
  by (simp add: skip_format_whitespace_def length_dropWhile_le)

lemma find_sub_length: "find_sub pat s = Some n \<Longrightarrow> n + length pat \<le> length s"
  by (rule find_sub_split)

text \<open>
  \<open>find_parameter_open_before\<close> and \<open>find_parameter_close\<close> search in the text from the start of the
  parameter value on; \<open>scan\<close> and the results are offsets in it.
\<close>

function find_parameter_open_before :: "string \<Rightarrow> nat \<Rightarrow> nat \<Rightarrow> nat option" where
  "find_parameter_open_before text scan limit =
    (case find_sub kParamOpen (drop scan text) of
       None \<Rightarrow> None
     | Some k \<Rightarrow>
         let candidate = scan + k in
         if candidate < limit then
           let name_begin = candidate + length kParamOpen in
           (case find_sub ''>'' (drop name_begin text) of
              Some j \<Rightarrow>
                if name_begin + j < limit \<and> j \<noteq> 0 then Some (name_begin + j + 1)
                else find_parameter_open_before text (candidate + 1) limit
            | None \<Rightarrow> find_parameter_open_before text (candidate + 1) limit)
         else None)"
  by pat_completeness auto
termination
  by (relation "measure (\<lambda>(text, scan, limit). length text - scan)")
    (auto dest!: find_sub_length simp: kParamOpen_def)

declare find_parameter_open_before.simps [simp del]

lemma find_parameter_open_before_range:
  "find_parameter_open_before s scan limit = Some e \<Longrightarrow> scan < e \<and> e \<le> limit"
proof (induction s scan limit rule: find_parameter_open_before.induct)
  case (1 s scan limit)
  note eq = find_parameter_open_before.simps [of s scan limit]
  from 1(3) obtain k where k: "find_sub kParamOpen (drop scan s) = Some k" "scan + k < limit"
    unfolding eq by (auto simp: Let_def split: option.splits if_splits)
  show ?case
  proof (cases "find_sub ''>'' (drop (scan + k + length kParamOpen) s)")
    case None
    with 1(3) k have "find_parameter_open_before s (scan + k + 1) limit = Some e" by (simp add: eq)
    with 1(1) [OF k(1) refl k(2) refl None] show ?thesis by simp
  next
    case (Some j)
    show ?thesis
    proof (cases "scan + k + length kParamOpen + j < limit \<and> j \<noteq> 0")
      case True
      with 1(3) k Some show ?thesis by (simp add: eq)
    next
      case False
      with 1(3) k Some have "find_parameter_open_before s (scan + k + 1) limit = Some e"
        by (simp add: eq Let_def split: if_splits)
      with 1(2) [OF k(1) refl k(2) refl Some False] show ?thesis by simp
    qed
  qed
qed

function close_loop :: "string \<Rightarrow> nat \<Rightarrow> nat \<Rightarrow> nat option" where
  "close_loop text depth scan =
    (case find_sub kParamClose (drop scan text) of
       None \<Rightarrow> None
     | Some k \<Rightarrow>
         let close = scan + k in
         (case find_parameter_open_before text scan close of
            Some open_end \<Rightarrow> close_loop text (depth + 1) open_end
          | None \<Rightarrow>
              if depth - 1 = 0 then Some close
              else close_loop text (depth - 1) (close + length kParamClose)))"
  by pat_completeness auto
termination
  by (relation "measure (\<lambda>(text, depth, scan). length text - scan)")
    (auto dest!: find_sub_length find_parameter_open_before_range simp: kParamClose_def)

declare close_loop.simps [simp del]

definition find_parameter_close :: "string \<Rightarrow> nat option" where
  "find_parameter_close text = close_loop text 1 0"

lemma close_loop_range: "close_loop s depth scan = Some e \<Longrightarrow> e + length kParamClose \<le> length s"
proof (induction s depth scan rule: close_loop.induct)
  case (1 s depth scan)
  note eq = close_loop.simps [of s depth scan]
  from 1(3) obtain k where k: "find_sub kParamClose (drop scan s) = Some k"
    unfolding eq by (auto split: option.splits)
  from find_sub_length [OF k] have len: "scan + k + length kParamClose \<le> length s"
    by (simp add: kParamClose_def)
  show ?case
  proof (cases "find_parameter_open_before s scan (scan + k)")
    case None
    with 1(3) 1(1) [OF k refl None] k len show ?thesis by (auto simp: eq Let_def split: if_splits)
  next
    case (Some e')
    with 1(3) 1(2) [OF k refl Some] k show ?thesis by (simp add: eq Let_def)
  qed
qed

definition parse_parameter ::
  "string \<Rightarrow> raw_parameter list \<Rightarrow> (raw_parameter list \<times> string) parsed" where
  "parse_parameter s params =
    (case consume kParamOpen s of
       None \<Rightarrow> Inl MalformedStructure
     | Some s1 \<Rightarrow>
         (case find_sub ''>'' s1 of
            None \<Rightarrow> Inl MalformedStructure
          | Some n \<Rightarrow>
              if n = 0 then Inl MalformedStructure
              else if list_ex (\<lambda>p. rp_name p = take n s1) params then Inl DuplicateParameter
              else
                (case find_parameter_close (drop (n + 1) s1) of
                   None \<Rightarrow> Inl MalformedStructure
                 | Some k \<Rightarrow>
                     Inr (params @ [\<lparr>rp_name = take n s1, rp_value = take k (drop (n + 1) s1)\<rparr>],
                          drop (k + length kParamClose) (drop (n + 1) s1)))))"

lemma parse_parameter_shorter:
  "parse_parameter s params = Inr (params', r) \<Longrightarrow> length r < length s"
  by (auto simp: parse_parameter_def kParamOpen_def dest!: consume_length split: option.splits if_splits)

function parameter_loop ::
  "string \<Rightarrow> raw_parameter list \<Rightarrow> (raw_parameter list \<times> string) parsed" where
  "parameter_loop s params =
    (let s' = skip_format_whitespace s in
     case consume kFunctionClose s' of
       Some r \<Rightarrow> Inr (params, r)
     | None \<Rightarrow>
         (case parse_parameter s' params of
            Inl e \<Rightarrow> Inl e
          | Inr (params', r) \<Rightarrow> parameter_loop r params'))"
  by pat_completeness auto
termination
  by (relation "measure (\<lambda>(s, params). length s)")
    (auto dest!: parse_parameter_shorter intro: less_le_trans [OF _ skip_length])

declare parameter_loop.simps [simp del]

definition parse_function ::
  "nat \<Rightarrow> output_contract \<Rightarrow> string \<Rightarrow> (raw_tool_call \<times> string) parsed" where
  "parse_function max_len c s =
    (case consume kFunctionOpen s of
       None \<Rightarrow> Inl MalformedStructure
     | Some s1 \<Rightarrow>
         (case find_sub ''>'' s1 of
            None \<Rightarrow> Inl InvalidToolName
          | Some n \<Rightarrow>
              if n = 0 then Inl InvalidToolName
              else
                let name = take n s1 in
                if \<not> valid_function_name name max_len then Inl InvalidToolName
                else if oc_enforce_declared_names c \<and> find_tool_contract c name = None
                then Inl UndeclaredTool
                else
                  (case parameter_loop (drop (n + 1) s1) [] of
                     Inl e \<Rightarrow> Inl e
                   | Inr (params, r) \<Rightarrow> Inr (\<lparr>rt_name = name, rt_parameters = params\<rparr>, r))))"

definition parse_tool_call ::
  "nat \<Rightarrow> output_contract \<Rightarrow> string \<Rightarrow> (raw_tool_call \<times> string) parsed" where
  "parse_tool_call max_len c s =
    (case consume kToolOpen s of
       None \<Rightarrow> Inl MalformedStructure
     | Some s1 \<Rightarrow>
         (case parse_function max_len c (skip_format_whitespace s1) of
            Inl e \<Rightarrow> Inl e
          | Inr (call, r) \<Rightarrow>
              (case consume kToolClose (skip_format_whitespace r) of
                 None \<Rightarrow> Inl MalformedStructure
               | Some r' \<Rightarrow> Inr (call, r'))))"

lemma parameter_loop_shorter: "parameter_loop s params = Inr (params', r) \<Longrightarrow> length r \<le> length s"
proof (induction s params rule: parameter_loop.induct)
  case (1 s params)
  note eq = parameter_loop.simps [of s params, unfolded Let_def]
  note skip = skip_length [of s]
  show ?case
  proof (cases "consume kFunctionClose (skip_format_whitespace s)")
    case None
    with 1(2) obtain ps q where q: "parse_parameter (skip_format_whitespace s) params = Inr (ps, q)"
      "parameter_loop q ps = Inr (params', r)"
      by (auto simp: eq split: sum.splits prod.splits)
    from 1(1) [OF refl None q(1) refl] q(2) have "length r \<le> length q" by simp
    with parse_parameter_shorter [OF q(1)] skip show ?thesis by simp
  next
    case (Some t)
    with 1(2) skip consume_length [OF Some] show ?thesis by (simp add: eq)
  qed
qed

lemma parse_function_shorter: "parse_function max_len c s = Inr (call, r) \<Longrightarrow> length r < length s"
  by (auto simp: parse_function_def Let_def kFunctionOpen_def
      split: option.splits if_splits sum.splits prod.splits
      dest!: parameter_loop_shorter consume_length)

lemma parse_tool_call_shorter:
  assumes "parse_tool_call max_len c s = Inr (call, r)"
  shows "length r < length s"
proof -
  from assms obtain s1 q where *: "consume kToolOpen s = Some s1"
    "parse_function max_len c (skip_format_whitespace s1) = Inr (call, q)"
    "consume kToolClose (skip_format_whitespace q) = Some r"
    by (auto simp: parse_tool_call_def split: option.splits sum.splits prod.splits)
  from consume_length [OF *(1)] parse_function_shorter [OF *(2)] consume_length [OF *(3)]
    skip_length [of s1] skip_length [of q]
  show ?thesis by simp
qed

function parse_region ::
  "nat \<Rightarrow> output_contract \<Rightarrow> string \<Rightarrow> raw_tool_call list \<Rightarrow> raw_tool_call list parsed" where
  "parse_region max_len c s calls =
    (let s' = skip_format_whitespace s in
     if s' = [] then (if calls = [] then Inl MalformedStructure else Inr calls)
     else if \<not> prefix kToolOpen s'
     then Inl (if calls = [] then MalformedStructure else TrailingContent)
     else
       (case parse_tool_call max_len c s' of
          Inl e \<Rightarrow> Inl e
        | Inr (call, r) \<Rightarrow> parse_region max_len c r (calls @ [call])))"
  by pat_completeness auto
termination
  by (relation "measure (\<lambda>(max_len, c, s, calls). length s)")
    (auto dest!: parse_tool_call_shorter intro: less_le_trans [OF _ skip_length])

declare parse_region.simps [simp del]

section \<open>Printing and parsing\<close>

text \<open>The form in which the chat template asks the model to write its calls.\<close>

definition newline :: string where "newline = [CHR 0x0A]"

definition render_parameter :: "raw_parameter \<Rightarrow> string" where
  "render_parameter p = newline @ kParamOpen @ rp_name p @ ''>'' @ rp_value p @ kParamClose"

definition render_call :: "raw_tool_call \<Rightarrow> string" where
  "render_call call =
    kToolOpen @ newline @ kFunctionOpen @ rt_name call @ ''>'' @
    concat (map render_parameter (rt_parameters call)) @ newline @ kFunctionClose @ newline @ kToolClose"

definition render_calls :: "raw_tool_call list \<Rightarrow> string" where
  "render_calls calls = concat (map (\<lambda>call. render_call call @ newline) calls)"

text \<open>
  Values in which the parameter tags are balanced: text without tags, or such text, a named opening
  tag, a balanced text, its closing tag, and a balanced rest.
\<close>

definition tag_free :: "string \<Rightarrow> bool" where
  "tag_free u \<longleftrightarrow> \<not> sublist kParamClose u \<and> \<not> sublist kParamOpen u"

inductive tags_balanced :: "string \<Rightarrow> bool" where
  plain: "tag_free u \<Longrightarrow> tags_balanced u"
| nested: "tag_free u \<Longrightarrow> name \<noteq> [] \<Longrightarrow> CHR ''<'' \<notin> set name \<Longrightarrow> CHR ''>'' \<notin> set name \<Longrightarrow>
    tags_balanced v \<Longrightarrow> tags_balanced w \<Longrightarrow> tags_balanced (u @ kParamOpen @ name @ ''>'' @ v @ kParamClose @ w)"

text \<open>Names end at the first \<open>>\<close> and values at the closing tag that is theirs.\<close>

definition printable_parameter :: "raw_parameter \<Rightarrow> bool" where
  "printable_parameter p \<longleftrightarrow>
    rp_name p \<noteq> [] \<and> CHR ''>'' \<notin> set (rp_name p) \<and> tags_balanced (rp_value p)"

definition printable_call :: "nat \<Rightarrow> output_contract \<Rightarrow> raw_tool_call \<Rightarrow> bool" where
  "printable_call max_len c call \<longleftrightarrow>
    valid_function_name (rt_name call) max_len \<and>
    (oc_enforce_declared_names c \<longrightarrow> find_tool_contract c (rt_name call) \<noteq> None) \<and>
    list_all printable_parameter (rt_parameters call) \<and>
    distinct (map rp_name (rt_parameters call))"

lemma marker_heads:
  "hd kParamClose \<notin> set (tl kParamClose)" "hd kParamOpen \<notin> set (tl kParamOpen)"
  "kParamClose \<noteq> []" "kParamOpen \<noteq> []" "hd kParamOpen = hd kParamClose"
  by (simp_all add: kParamClose_def kParamOpen_def)

lemma consume_prefix [simp]: "consume tok (tok @ r) = Some r"
  by (simp add: consume_def)

text \<open>The two searches in front of a tag: the closing one behind text without tags \<dots>\<close>

lemma close_loop_plain:
  assumes "tag_free u"
  shows "close_loop (X @ u @ kParamClose @ r) depth (length X) =
    (if depth - 1 = 0 then Some (length X + length u)
     else close_loop (X @ u @ kParamClose @ r) (depth - 1) (length X + length u + length kParamClose))"
proof -
  let ?s = "X @ u @ kParamClose @ r"
  have close: "find_sub kParamClose (u @ kParamClose @ r) = Some (length u)"
    using assms marker_heads by (intro find_sub_marker) (simp_all add: tag_free_def)
  have "find_parameter_open_before ?s (length X) (length X + length u) = None"
  proof (cases "find_sub kParamOpen (u @ kParamClose @ r)")
    case None
    then show ?thesis by (simp add: find_parameter_open_before.simps)
  next
    case (Some k)
    from find_sub_beyond [OF _ marker_heads(2) _ _ Some] assms marker_heads
    have "length u \<le> k" by (simp add: tag_free_def)
    with Some show ?thesis by (simp add: find_parameter_open_before.simps)
  qed
  with close show ?thesis by (simp add: close_loop.simps [of ?s depth] Let_def)
qed

text \<open>\<dots> and the first closing tag, which lies behind an opening one that comes earlier.\<close>

lemma close_behind_open:
  assumes "tag_free u" and "CHR ''<'' \<notin> set name"
    and "find_sub kParamClose (u @ kParamOpen @ name @ ''>'' @ t) = Some k"
  shows "length u + length kParamOpen + length name < k"
proof (rule ccontr)
  assume "\<not> length u + length kParamOpen + length name < k"
  then have k: "k \<le> length u + length kParamOpen + length name" by simp
  let ?w = "kParamOpen @ name @ ''>'' @ t"
  have p: "prefix kParamClose (drop k (u @ ?w))" using assms(3) by (simp add: find_sub_Some_iff)
  consider "k < length u" | "k = length u" | j where "k = length u + Suc j" "j < length (tl kParamOpen @ name @ ''>'')"
  proof (cases "k \<le> length u")
    case False
    then have "k = length u + Suc (k - length u - 1)" by simp
    moreover have "k - length u - 1 < length (tl kParamOpen @ name @ ''>'')" using k False by (simp add: kParamOpen_def)
    ultimately show ?thesis using that(3) by blast
  qed (use that(1,2) in linarith)
  then show False
  proof cases
    case 1
    from no_straddle [of kParamClose u k ?w] 1 p assms(1) marker_heads show False by (simp add: tag_free_def)
  next
    case 2
    then show False using p by (simp add: kParamClose_def kParamOpen_def)
  next
    case 3
    let ?m = "tl kParamOpen @ name @ ''>''"
    have "drop k (u @ ?w) = drop j (?m @ t)" using 3(1) by (simp add: kParamOpen_def)
    also have "\<dots> = ?m ! j # drop (Suc j) (?m @ t)"
      using 3(2) Cons_nth_drop_Suc [of j "?m @ t"] by (simp only: nth_append_left length_append)
    finally have "?m ! j = CHR ''<''" using p by (simp add: kParamClose_def)
    moreover have "?m ! j \<in> set ?m" using 3(2) by (rule nth_mem)
    ultimately show False using assms(2) by (simp add: kParamOpen_def)
  qed
qed

lemma close_loop_nested:
  assumes "tag_free u" and "name \<noteq> []" and "CHR ''<'' \<notin> set name" and "CHR ''>'' \<notin> set name"
    and s: "s = X @ u @ kParamOpen @ name @ ''>'' @ v @ kParamClose @ r"
  shows "close_loop s depth (length X) =
    close_loop s (depth + 1) (length (X @ u @ kParamOpen @ name @ ''>''))"
proof -
  let ?t = "v @ kParamClose @ r"
  have d: "drop (length X) s = u @ kParamOpen @ name @ ''>'' @ ?t" by (simp add: s)
  have "sublist kParamClose (u @ kParamOpen @ name @ ''>'' @ ?t)" by (metis append.assoc sublist_appendI)
  then obtain k where k: "find_sub kParamClose (u @ kParamOpen @ name @ ''>'' @ ?t) = Some k"
    by (metis find_sub_None_sublist option.exhaust)
  note far = close_behind_open [OF assms(1,3) k]
  have "find_sub kParamOpen (u @ kParamOpen @ name @ ''>'' @ ?t) = Some (length u)"
    using assms(1) marker_heads by (intro find_sub_marker) (simp_all add: tag_free_def)
  moreover have "find_sub ''>'' (drop (length X + length u + length kParamOpen) s) = Some (length name)"
    using find_sub_char [OF assms(4), of ?t] by (simp add: s)
  ultimately have "find_parameter_open_before s (length X) (length X + k) =
      Some (length X + length u + length kParamOpen + length name + 1)"
    using far assms(2) by (simp add: find_parameter_open_before.simps [of s] d Let_def)
  then show ?thesis using k by (simp add: close_loop.simps [of s depth] d Let_def add_ac)
qed

text \<open>A balanced value is passed over, and the search goes on behind the closing tag after it.\<close>

lemma close_loop_balanced:
  assumes "tags_balanced v" and "0 < depth"
  shows "close_loop (X @ v @ kParamClose @ r) depth (length X) =
    (if depth - 1 = 0 then Some (length X + length v)
     else close_loop (X @ v @ kParamClose @ r) (depth - 1) (length X + length v + length kParamClose))"
  using assms
proof (induction v arbitrary: X depth r rule: tags_balanced.induct)
  case (plain u)
  then show ?case by (intro close_loop_plain)
next
  case (nested u name v w)
  let ?o = "X @ u @ kParamOpen @ name @ ''>''"
  let ?c = "?o @ v @ kParamClose"
  let ?s = "X @ (u @ kParamOpen @ name @ ''>'' @ v @ kParamClose @ w) @ kParamClose @ r"
  have "close_loop ?s depth (length X) = close_loop ?s (depth + 1) (length ?o)"
    by (rule close_loop_nested [OF nested.hyps(1-4)]) simp
  also have "\<dots> = close_loop ?s depth (length ?c)"
    using nested.IH(1) [of "depth + 1" ?o "w @ kParamClose @ r"] nested.prems by (simp add: add_ac)
  also have "\<dots> = (if depth - 1 = 0 then Some (length ?c + length w)
     else close_loop ?s (depth - 1) (length ?c + length w + length kParamClose))"
    using nested.IH(2) [of depth ?c r] nested.prems by simp
  finally show ?case by (simp add: add_ac)
qed

lemma find_parameter_close_value:
  "tags_balanced v \<Longrightarrow> find_parameter_close (v @ kParamClose @ r) = Some (length v)"
  using close_loop_balanced [of v 1 "[]" r] by (simp add: find_parameter_close_def)

lemma parse_parameter_render:
  assumes "printable_parameter p" and "rp_name p \<notin> set (map rp_name ps)"
  shows "parse_parameter (kParamOpen @ rp_name p @ ''>'' @ rp_value p @ kParamClose @ r) ps =
    Inr (ps @ [p], r)"
proof -
  have gt: "find_sub ''>'' (rp_name p @ ''>'' @ rp_value p @ kParamClose @ r) = Some (length (rp_name p))"
    using assms(1) find_sub_char [of "CHR ''>''" "rp_name p"] by (simp add: printable_parameter_def)
  have "\<not> list_ex (\<lambda>q. rp_name q = rp_name p) ps" using assms(2) by (induction ps) auto
  with gt assms(1) find_parameter_close_value [of "rp_value p" r] show ?thesis
    by (simp add: parse_parameter_def printable_parameter_def)
qed

lemma skip_newline:
  "is_format_whitespace (CHR 0x0A)" "\<not> is_format_whitespace (CHR ''<'')"
  by (simp_all add: is_format_whitespace_def)

lemma skip_to_marker:
  "skip_format_whitespace (newline @ kParamOpen @ r) = kParamOpen @ r"
  "skip_format_whitespace (newline @ kFunctionClose @ r) = kFunctionClose @ r"
  "skip_format_whitespace (newline @ kFunctionOpen @ r) = kFunctionOpen @ r"
  "skip_format_whitespace (newline @ kToolClose @ r) = kToolClose @ r"
  "skip_format_whitespace (newline @ kToolOpen @ r) = kToolOpen @ r"
  "skip_format_whitespace (kToolOpen @ r) = kToolOpen @ r"
  by (simp_all add: skip_format_whitespace_def newline_def markers skip_newline)

lemma not_function_close: "consume kFunctionClose (kParamOpen @ r) = None"
  by (simp add: consume_def markers)

lemma parameter_loop_render:
  assumes "list_all printable_parameter ps" and "distinct (map rp_name (qs @ ps))"
  shows "parameter_loop (concat (map render_parameter ps) @ newline @ kFunctionClose @ r) qs =
    Inr (qs @ ps, r)"
  using assms
proof (induction ps arbitrary: qs)
  case Nil
  then show ?case by (simp add: parameter_loop.simps [of _ qs] Let_def skip_to_marker)
next
  case (Cons p ps)
  let ?rest = "concat (map render_parameter ps) @ newline @ kFunctionClose @ r"
  have "parse_parameter (kParamOpen @ rp_name p @ ''>'' @ rp_value p @ kParamClose @ ?rest) qs =
      Inr (qs @ [p], ?rest)"
    using Cons.prems by (intro parse_parameter_render) auto
  then have "parameter_loop (concat (map render_parameter (p # ps)) @ newline @ kFunctionClose @ r) qs =
      parameter_loop ?rest (qs @ [p])"
    by (subst parameter_loop.simps)
      (simp add: render_parameter_def skip_to_marker not_function_close)
  with Cons show ?case by simp
qed

lemma valid_name_no_gt: "valid_function_name name n \<Longrightarrow> name \<noteq> [] \<and> CHR ''>'' \<notin> set name"
  by (auto simp: valid_function_name_def list_all_iff is_ascii_alphanumeric_def is_ascii_digit_def
      split: if_splits)

lemma parse_tool_call_render:
  assumes "printable_call max_len c call"
  shows "parse_tool_call max_len c (render_call call @ r) = Inr (call, r)"
proof -
  note p = assms [unfolded printable_call_def]
  let ?params = "concat (map render_parameter (rt_parameters call)) @ newline @ kFunctionClose @
    newline @ kToolClose @ r"
  have gt: "find_sub ''>'' (rt_name call @ ''>'' @ ?params) = Some (length (rt_name call))"
    using p valid_name_no_gt find_sub_char [of "CHR ''>''" "rt_name call"] by auto
  have loop: "parameter_loop ?params [] = Inr (rt_parameters call, newline @ kToolClose @ r)"
    using p parameter_loop_render [of "rt_parameters call" "[]"] by simp
  have "parse_function max_len c (kFunctionOpen @ rt_name call @ ''>'' @ ?params) =
      Inr (call, newline @ kToolClose @ r)"
    using gt loop p valid_name_no_gt by (auto simp: parse_function_def Let_def)
  then show ?thesis
    by (simp add: parse_tool_call_def render_call_def skip_to_marker)
qed

lemma parse_region_step:
  assumes "parse_tool_call max_len c s = Inr (call, r)" and "skip_format_whitespace s = s"
    and "prefix kToolOpen s"
  shows "parse_region max_len c s calls = parse_region max_len c r (calls @ [call])"
proof -
  have "s \<noteq> []" using assms(3) by (auto simp: kToolOpen_def)
  with assms show ?thesis by (subst parse_region.simps) (simp add: Let_def)
qed

lemma parse_region_render:
  assumes "list_all (printable_call max_len c) calls" and "calls \<noteq> [] \<or> done_calls \<noteq> []"
  shows "parse_region max_len c (render_calls calls) done_calls = Inr (done_calls @ calls)"
  using assms
proof (induction calls arbitrary: done_calls)
  case Nil
  then show ?case by (simp add: render_calls_def parse_region.simps [of _ _ "[]"] skip_format_whitespace_def)
next
  case (Cons call calls)
  have skip: "skip_format_whitespace (render_call call @ s) = render_call call @ s" for s
    by (simp add: render_call_def skip_to_marker)
  have nl: "parse_region max_len c (newline @ s) calls' = parse_region max_len c s calls'" for s calls'
    by (subst (1 2) parse_region.simps)
      (simp add: skip_format_whitespace_def newline_def skip_newline)
  have "parse_region max_len c (render_calls (call # calls)) done_calls =
      parse_region max_len c (newline @ render_calls calls) (done_calls @ [call])"
    using Cons.prems(1) parse_tool_call_render [of max_len c call "newline @ render_calls calls"]
    by (intro parse_region_step) (simp_all add: render_calls_def skip, simp add: render_call_def)
  with Cons nl show ?case by simp
qed

text \<open>
  C32. Printing calls and parsing them gives the calls back: any non-empty list of calls with
  valid names (declared ones where the contract enforces them), distinct non-empty parameter names
  and values in which the parameter tags are balanced, to any depth, is recovered exactly, every
  value byte for byte. (Termination of the parser's loops is part of the result: it is a total
  function.)
\<close>

theorem tool_call_roundtrip:
  assumes "list_all (printable_call max_len c) calls" and "calls \<noteq> []"
  shows "parse_region max_len c (render_calls calls) [] = Inr calls"
  using parse_region_render [of max_len c calls "[]"] assms by simp

theorem tool_call_roundtrip_witness:
  "parse_region 64 \<lparr>oc_tools = [], oc_enforce_declared_names = False\<rparr>
     (render_calls [\<lparr>rt_name = ''get_time'', rt_parameters =
        [\<lparr>rp_name = ''zone'', rp_value = ''a<b<parameter=x>1</parameter>c''\<rparr>, \<lparr>rp_name = ''n'', rp_value = ''12''\<rparr>]\<rparr>]) [] =
   Inr [\<lparr>rt_name = ''get_time'', rt_parameters =
        [\<lparr>rp_name = ''zone'', rp_value = ''a<b<parameter=x>1</parameter>c''\<rparr>, \<lparr>rp_name = ''n'', rp_value = ''12''\<rparr>]\<rparr>]"
proof -
  have free: "tag_free ''a<b''" "tag_free ''1''" "tag_free ''c''" "tag_free ''12''"
    by (simp_all add: tag_free_def find_sub_None_sublist [symmetric] markers)
  have "tags_balanced (''a<b'' @ kParamOpen @ ''x'' @ ''>'' @ ''1'' @ kParamClose @ ''c'')"
    by (rule tags_balanced.nested) (use free in \<open>auto intro: tags_balanced.plain\<close>)
  then have "tags_balanced ''a<b<parameter=x>1</parameter>c''" "tags_balanced ''12''"
    using free by (simp_all add: markers tags_balanced.plain)
  note bal = this
  show ?thesis
    by (rule tool_call_roundtrip)
      (simp_all add: printable_call_def printable_parameter_def valid_function_name_def
        is_ascii_alphanumeric_def is_ascii_digit_def bal)
qed

end
