(* ===== verification/ToolOutput.thy ===== *)
theory ToolOutput
  imports ToolParser
begin

text \<open>
  From raw tool calls to published output: normalization of arguments against the declared types,
  the batch function \<open>parse_qwen_tool_call_output\<close>, and the incremental
  \<open>ToolCallOutputDecoder\<close> (\<open>models/qwen3_5/frontend/tool_call_parser.cpp\<close>).

  The JSON library is third-party code: \<open>Json::accept\<close> and \<open>Json(std::string).dump()\<close> are
  parameters, gathered in the record \<open>json_lib\<close>. \<open>dump\<close> throws on text that is not UTF-8; the decoder is
  fed the content of a session, which is, and the parser cuts names and values only at ASCII
  characters, so \<open>jl_dump\<close> stands for the value and the exception is not an outcome here. Diagnostic
  counters are \<open>uint32_t\<close>.
\<close>

section \<open>Arguments\<close>

record json_lib =
  jl_accept :: "string \<Rightarrow> bool"
  jl_dump :: "string \<Rightarrow> string"

datatype json_value_kind = KNull | KBoolean | KInteger | KNumber | KString | KObject | KArray

datatype parameter_normalization = Emitted | Omitted | SchemaMismatch

definition remove_parameter_framing_newlines :: "string \<Rightarrow> string" where
  "remove_parameter_framing_newlines s =
    (let t = (if prefix [CHR 0x0D, CHR 0x0A] s then drop 2 s
              else if prefix [CHR 0x0A] s then drop 1 s else s)
     in if length t \<ge> 2 \<and> drop (length t - 2) t = [CHR 0x0D, CHR 0x0A] then take (length t - 2) t
        else if t \<noteq> [] \<and> last t = CHR 0x0A then butlast t
        else t)"

definition ascii_lower :: "char \<Rightarrow> char" where
  "ascii_lower b =
    (if (65::nat) \<le> of_char b \<and> of_char b \<le> (90::nat) then char_of (of_char b + 32 :: nat) else b)"

definition ascii_case_equal :: "string \<Rightarrow> string \<Rightarrow> bool" where
  "ascii_case_equal s lowercase \<longleftrightarrow> map ascii_lower s = lowercase"

text \<open>The exponent, capped at the length of the literal.\<close>

fun capped_exponent :: "nat \<Rightarrow> string \<Rightarrow> nat \<Rightarrow> nat" where
  "capped_exponent cap [] value = value"
| "capped_exponent cap (d # ds) value =
    (let digit = of_char d - 48;
         value' = (if value \<noteq> cap
                   then (if value > cap div 10 \<or> value = cap div 10 \<and> digit > cap mod 10 then cap
                         else value * 10 + digit)
                   else value)
     in capped_exponent cap ds value')"

fun observe_digits :: "string \<Rightarrow> bool \<times> nat \<Rightarrow> bool \<times> nat" where
  "observe_digits [] st = st"
| "observe_digits (d # ds) (zero, trailing) =
    observe_digits ds (if d = CHR ''0'' then (zero, trailing + 1) else (False, 0))"

definition split_exponent :: "nat \<Rightarrow> string \<Rightarrow> bool \<times> nat \<times> string" where
  "split_exponent cap s =
    (if s \<noteq> [] \<and> (hd s = CHR ''e'' \<or> hd s = CHR ''E'') then
       (let r = tl s;
            signed = (r \<noteq> [] \<and> (hd r = CHR ''+'' \<or> hd r = CHR ''-''));
            neg = (signed \<and> hd r = CHR ''-'');
            r' = (if signed then tl r else r)
        in (neg, capped_exponent cap (takeWhile is_ascii_digit r') 0, dropWhile is_ascii_digit r'))
     else (False, 0, s))"

definition json_number_is_integer :: "string \<Rightarrow> bool" where
  "json_number_is_integer number =
    (let s = (if prefix ''-'' number then drop 1 number else number) in
     if s = [] then False
     else
       let int_digits = takeWhile is_ascii_digit s; s1 = dropWhile is_ascii_digit s;
           has_point = (s1 \<noteq> [] \<and> hd s1 = CHR ''.'');
           fraction = (if has_point then takeWhile is_ascii_digit (tl s1) else []);
           s2 = (if has_point then dropWhile is_ascii_digit (tl s1) else s1);
           (neg, exponent, s3) = split_exponent (length number) s2
       in if int_digits = [] \<or> s3 \<noteq> [] then False
          else
            let (zero, trailing) = observe_digits fraction (observe_digits int_digits (True, 0));
                fraction_digits = length fraction
            in if zero then True
               else if \<not> neg then
                 (if exponent \<ge> fraction_digits then True else fraction_digits - exponent \<le> trailing)
               else if exponent > trailing then False
               else fraction_digits \<le> trailing - exponent)"

definition classify_json_value :: "json_lib \<Rightarrow> string \<Rightarrow> json_value_kind option" where
  "classify_json_value J value =
    (if value = [] \<or> \<not> jl_accept J value then None
     else let c = hd value in
       if c = CHR ''n'' then Some KNull
       else if c = CHR ''t'' \<or> c = CHR ''f'' then Some KBoolean
       else if c = CHR 0x22 then Some KString
       else if c = CHR ''{'' then Some KObject
       else if c = CHR ''['' then Some KArray
       else if c = CHR ''-'' \<or> is_ascii_digit c
       then Some (if json_number_is_integer value then KInteger else KNumber)
       else None)"

fun admits_value :: "8 word \<Rightarrow> json_value_kind \<Rightarrow> bool" where
  "admits_value types KNull = admits_type types SNull"
| "admits_value types KBoolean = admits_type types SBoolean"
| "admits_value types KInteger = (admits_type types SInteger \<or> admits_type types SNumber)"
| "admits_value types KNumber = admits_type types SNumber"
| "admits_value types KString = admits_type types SString"
| "admits_value types KObject = admits_type types SObject"
| "admits_value types KArray = admits_type types SArray"

type_synonym normalized = "parameter_normalization \<times> string"

definition normalize_declared_parameter :: "json_lib \<Rightarrow> string \<Rightarrow> 8 word \<Rightarrow> normalized" where
  "normalize_declared_parameter J encoded types =
    (let framed = remove_parameter_framing_newlines encoded in
     if admits_type types SString then (Emitted, jl_dump J framed)
     else
       let value = trim_format_whitespace framed in
       if value = [] then (Omitted, [])
       else case classify_json_value J value of
         Some kind \<Rightarrow> (if admits_value types kind then Emitted else SchemaMismatch, value)
       | None \<Rightarrow>
           if admits_type types SBoolean \<and> ascii_case_equal value ''true'' then (Emitted, ''true'')
           else if admits_type types SBoolean \<and> ascii_case_equal value ''false'' then (Emitted, ''false'')
           else (SchemaMismatch, jl_dump J framed))"

definition normalize_parameter :: "json_lib \<Rightarrow> string \<Rightarrow> parameter_contract option \<Rightarrow> normalized" where
  "normalize_parameter J encoded p =
    (case p of
       Some q \<Rightarrow>
         if pc_policy q = DeclaredTypes then normalize_declared_parameter J encoded (pc_types q)
         else (Emitted, let value = trim_format_whitespace encoded in
                 if jl_accept J value then value else jl_dump J value)
     | None \<Rightarrow> (Emitted, let value = trim_format_whitespace encoded in
                 if jl_accept J value then value else jl_dump J value))"

section \<open>Calls\<close>

record diagnostics =
  dg_marker_seen :: bool
  dg_structured_call_count :: nat
  dg_empty_arguments_omitted :: nat
  dg_schema_mismatch_arguments :: nat
  dg_fallback_reason :: "fallback_reason option"

definition no_diagnostics :: diagnostics where
  "no_diagnostics =
    \<lparr>dg_marker_seen = False, dg_structured_call_count = 0, dg_empty_arguments_omitted = 0,
     dg_schema_mismatch_arguments = 0, dg_fallback_reason = None\<rparr>"

record generated_call =
  gc_name :: string
  gc_arguments_json :: string

fun normalize_arguments ::
  "json_lib \<Rightarrow> tool_contract option \<Rightarrow> raw_parameter list \<Rightarrow> bool \<Rightarrow> string \<times> diagnostics \<Rightarrow>
   string \<times> diagnostics" where
  "normalize_arguments J tool [] is_first (arguments, dg) = (arguments @ ''}'', dg)"
| "normalize_arguments J tool (p # ps) is_first (arguments, dg) =
    (let parameter = (case tool of None \<Rightarrow> None | Some t \<Rightarrow> find_parameter_contract t (rp_name p));
         (disposition, json_value) = normalize_parameter J (rp_value p) parameter;
         disposition = (if tool \<noteq> None \<and> parameter = None then SchemaMismatch else disposition)
     in if disposition = Omitted
        then normalize_arguments J tool ps is_first
          (arguments, dg\<lparr>dg_empty_arguments_omitted := u32_add (dg_empty_arguments_omitted dg) 1\<rparr>)
        else
          let dg = (if disposition = SchemaMismatch
                    then dg\<lparr>dg_schema_mismatch_arguments := u32_add (dg_schema_mismatch_arguments dg) 1\<rparr>
                    else dg)
          in normalize_arguments J tool ps False
            (arguments @ (if is_first then [] else '','') @ jl_dump J (rp_name p) @ '':'' @ json_value, dg))"

definition normalize_raw_tool_call ::
  "json_lib \<Rightarrow> output_contract \<Rightarrow> raw_tool_call \<Rightarrow> diagnostics \<Rightarrow> generated_call \<times> diagnostics" where
  "normalize_raw_tool_call J c raw dg =
    (let tool = (case find_tool_contract c (rt_name raw) of
                   Some t \<Rightarrow> if \<not> tc_unambiguous t then None else Some t
                 | None \<Rightarrow> None);
         (arguments, dg') = normalize_arguments J tool (rt_parameters raw) True (''{'', dg)
     in (\<lparr>gc_name = rt_name raw, gc_arguments_json = arguments\<rparr>, dg'))"

fun normalize_calls ::
  "json_lib \<Rightarrow> output_contract \<Rightarrow> raw_tool_call list \<Rightarrow> diagnostics \<Rightarrow>
   generated_call list \<times> diagnostics" where
  "normalize_calls J c [] dg = ([], dg)"
| "normalize_calls J c (raw # raws) dg =
    (let (call, dg') = normalize_raw_tool_call J c raw dg;
         (calls, dg'') = normalize_calls J c raws dg'
     in (call # calls, dg''))"

record parsed_output =
  po_is_tool_call_response :: bool
  po_content :: string
  po_tool_calls :: "generated_call list"
  po_diagnostics :: diagnostics

definition fallback :: "string \<Rightarrow> diagnostics \<Rightarrow> parsed_output" where
  "fallback s dg =
    \<lparr>po_is_tool_call_response = False, po_content = s, po_tool_calls = [], po_diagnostics = dg\<rparr>"

definition parse_qwen_tool_call_output ::
  "json_lib \<Rightarrow> string \<Rightarrow> nat \<Rightarrow> output_contract \<Rightarrow> parsed_output" where
  "parse_qwen_tool_call_output J s max_len c =
    (case find_sub kToolOpen s of
       None \<Rightarrow> fallback s no_diagnostics
     | Some i \<Rightarrow>
         let dg = no_diagnostics\<lparr>dg_marker_seen := True\<rparr> in
         case parse_region max_len c (drop i s) [] of
           Inl failure \<Rightarrow> fallback s (dg\<lparr>dg_fallback_reason := Some failure\<rparr>)
         | Inr raw_calls \<Rightarrow>
             let (calls, dg') = normalize_calls J c raw_calls dg in
             \<lparr>po_is_tool_call_response = True, po_content = rtrim_format_whitespace (take i s),
              po_tool_calls = calls,
              po_diagnostics = dg'\<lparr>dg_structured_call_count := length calls mod 4294967296\<rparr>\<rparr>)"

section \<open>The incremental decoder\<close>

record decoder =
  td_contract :: "output_contract option"
  td_trailing_whitespace :: string
  td_tool_region :: string
  td_marker_prefix_bytes :: nat
  td_max_tool_name_length :: nat
  td_saw_tool_marker :: bool
  td_finished :: bool

definition make_decoder :: "output_contract option \<Rightarrow> nat \<Rightarrow> decoder" where
  "make_decoder c max_len =
    \<lparr>td_contract = c, td_trailing_whitespace = [], td_tool_region = [], td_marker_prefix_bytes = 0,
     td_max_tool_name_length = max_len, td_saw_tool_marker = False, td_finished = False\<rparr>"

fun feed_loop :: "decoder \<Rightarrow> string \<Rightarrow> string \<Rightarrow> string \<times> decoder" where
  "feed_loop d [] visible = (visible, d)"
| "feed_loop d (b # rest) visible =
    (let k = td_marker_prefix_bytes d; ws = td_trailing_whitespace d in
     if k \<noteq> 0 \<and> b = kToolOpen ! k then
       (if k + 1 = length kToolOpen
        then (visible, d\<lparr>td_tool_region := ws @ kToolOpen @ rest, td_trailing_whitespace := [],
                         td_marker_prefix_bytes := 0, td_saw_tool_marker := True\<rparr>)
        else feed_loop (d\<lparr>td_marker_prefix_bytes := k + 1\<rparr>) rest visible)
     else
       let visible = (if k \<noteq> 0 then visible @ ws @ take k kToolOpen else visible);
           ws = (if k \<noteq> 0 then [] else ws)
       in if b = hd kToolOpen
          then feed_loop (d\<lparr>td_trailing_whitespace := ws, td_marker_prefix_bytes := 1\<rparr>) rest visible
          else if is_format_whitespace b
          then feed_loop (d\<lparr>td_trailing_whitespace := ws @ [b], td_marker_prefix_bytes := 0\<rparr>) rest visible
          else feed_loop (d\<lparr>td_trailing_whitespace := [], td_marker_prefix_bytes := 0\<rparr>) rest
                 (visible @ ws @ [b]))"

definition decoder_feed :: "decoder \<Rightarrow> string \<Rightarrow> (string \<times> decoder) res" where
  "decoder_feed d s =
    (if td_finished d then Inl LogicError
     else if s = [] then Inr ([], d)
     else if td_contract d = None then Inr (s, d)
     else if td_saw_tool_marker d then Inr ([], d\<lparr>td_tool_region := td_tool_region d @ s\<rparr>)
     else Inr (feed_loop d s []))"

record terminal =
  tm_content :: string
  tm_tool_calls :: "generated_call list"
  tm_diagnostics :: diagnostics

definition decoder_finish :: "json_lib \<Rightarrow> decoder \<Rightarrow> (terminal \<times> decoder) res" where
  "decoder_finish J d =
    (if td_finished d then Inl LogicError
     else
       let d = d\<lparr>td_finished := True\<rparr> in
       case td_contract d of
         None \<Rightarrow> Inr (\<lparr>tm_content = [], tm_tool_calls = [], tm_diagnostics = no_diagnostics\<rparr>, d)
       | Some c \<Rightarrow>
           let parsed = parse_qwen_tool_call_output J (td_tool_region d) (td_max_tool_name_length d) c;
               d' = d\<lparr>td_trailing_whitespace := [], td_tool_region := [], td_marker_prefix_bytes := 0\<rparr>
           in if td_saw_tool_marker d \<and> po_is_tool_call_response parsed
              then Inr (\<lparr>tm_content = [], tm_tool_calls = po_tool_calls parsed,
                         tm_diagnostics = po_diagnostics parsed\<rparr>, d')
              else Inr (\<lparr>tm_content = td_trailing_whitespace d @
                           take (td_marker_prefix_bytes d) kToolOpen @ td_tool_region d,
                         tm_tool_calls = [], tm_diagnostics = po_diagnostics parsed\<rparr>, d'))"

section \<open>The decoder implements the batch function\<close>

interpretation tool: unique_head kToolOpen
  by unfold_locales (simp_all add: kToolOpen_def)

lemma kToolOpen_facts: "length kToolOpen = 11" "kToolOpen \<noteq> []" "hd kToolOpen = CHR ''<''"
  by (simp_all add: kToolOpen_def)

lemma whitespace_not_marker: "is_format_whitespace b \<Longrightarrow> b \<noteq> hd kToolOpen"
  by (auto simp: is_format_whitespace_def kToolOpen_def)

lemma whitespace_no_marker:
  assumes "list_all is_format_whitespace w"
  shows "\<not> sublist kToolOpen w"
proof
  assume "sublist kToolOpen w"
  then have "hd kToolOpen \<in> set w" using hd_in_set [OF kToolOpen_facts(2)] by (auto simp: sublist_def)
  with assms whitespace_not_marker show False by (auto simp: list_all_iff)
qed

lemma rtrim_snoc:
  "rtrim_format_whitespace (s @ [b]) = (if is_format_whitespace b then rtrim_format_whitespace s else s @ [b])"
  by (simp add: rtrim_format_whitespace_def)

lemma rtrim_whitespace:
  "list_all is_format_whitespace w \<Longrightarrow> rtrim_format_whitespace (s @ w) = rtrim_format_whitespace s"
  by (induction w rule: rev_induct) (simp_all add: rtrim_snoc flip: append_assoc)

text \<open>
  What the decoder knows after it was fed \<open>t\<close> and published \<open>vis\<close>: before the marker, everything
  held back is the trailing whitespace and a partial marker; after it, the held-back region
  starts with the whitespace before the first marker.
\<close>

definition before_marker :: "string \<Rightarrow> string \<Rightarrow> decoder \<Rightarrow> bool" where
  "before_marker t vis d \<longleftrightarrow>
    \<not> td_saw_tool_marker d \<and> td_tool_region d = [] \<and>
    t = vis @ td_trailing_whitespace d @ take (td_marker_prefix_bytes d) kToolOpen \<and>
    list_all is_format_whitespace (td_trailing_whitespace d) \<and>
    tool.tracks t (td_marker_prefix_bytes d) \<and> rtrim_format_whitespace vis = vis"

definition after_marker :: "string \<Rightarrow> string \<Rightarrow> decoder \<Rightarrow> bool" where
  "after_marker t vis d \<longleftrightarrow>
    td_saw_tool_marker d \<and> td_trailing_whitespace d = [] \<and> td_marker_prefix_bytes d = 0 \<and>
    t = vis @ td_tool_region d \<and> rtrim_format_whitespace vis = vis \<and>
    (\<exists>w v. td_tool_region d = w @ kToolOpen @ v \<and> list_all is_format_whitespace w \<and>
      find_sub kToolOpen t = Some (length vis + length w))"

definition decoder_inv :: "string \<Rightarrow> string \<Rightarrow> decoder \<Rightarrow> bool" where
  "decoder_inv t vis d \<longleftrightarrow> before_marker t vis d \<or> after_marker t vis d"

lemma rtrim_partial:
  assumes "0 < k" and "k < length kToolOpen"
  shows "rtrim_format_whitespace (s @ take k kToolOpen) = s @ take k kToolOpen"
proof -
  have "take k kToolOpen = take (k - 1) kToolOpen @ [kToolOpen ! (k - 1)]"
    using assms by (metis Suc_diff_1 less_imp_diff_less take_Suc_conv_app_nth)
  moreover have "\<not> is_format_whitespace (kToolOpen ! i)" if "i < length kToolOpen" for i
  proof -
    have "list_all (\<lambda>b. \<not> is_format_whitespace b) kToolOpen"
      by (simp add: kToolOpen_def is_format_whitespace_def)
    with that show ?thesis by (simp add: list_all_length)
  qed
  ultimately show ?thesis using assms by (simp add: rtrim_snoc flip: append_assoc)
qed

lemma feed_loop_inv:
  assumes "before_marker t (out @ vis) d"
  shows "decoder_inv (t @ s) (out @ fst (feed_loop d s vis)) (snd (feed_loop d s vis))"
  using assms
proof (induction d s vis arbitrary: t rule: feed_loop.induct)
  case (1 d vis)
  then show ?case by (simp add: decoder_inv_def)
next
  case (2 d b rest vis)
  let ?k = "td_marker_prefix_bytes d" and ?ws = "td_trailing_whitespace d"
  have pre: "\<not> td_saw_tool_marker d" "td_tool_region d = []" "t = out @ vis @ ?ws @ take ?k kToolOpen"
    "list_all is_format_whitespace ?ws" "tool.tracks t ?k"
    "rtrim_format_whitespace (out @ vis) = out @ vis"
    using 2(5) unfolding before_marker_def append_assoc by blast+
  have k: "?k < length kToolOpen" using pre(5) by (simp add: tool.tracks_def)
  show ?case
  proof (cases "?k \<noteq> 0 \<and> b = kToolOpen ! ?k")
    case True
    show ?thesis
    proof (cases "?k + 1 = length kToolOpen")
      case full: True
      from tool.tracks_complete [OF pre(5) _ full] True obtain u where
        u: "t = u @ take ?k kToolOpen" "t @ [b] = u @ kToolOpen"
        "find_sub kToolOpen (t @ [b] @ rest) = Some (length u)" by blast
      from u(1) pre(3) have "u = out @ vis @ ?ws" by simp
      with True full u pre show ?thesis
        by (auto simp: decoder_inv_def after_marker_def)
    next
      case False
      with k have "?k + 1 < length kToolOpen" by simp
      from tool.tracks_advance [OF pre(5) _ _ this, of b] True
      have tr: "tool.tracks (t @ [b]) (?k + 1)" by simp
      have "t @ [b] = out @ vis @ ?ws @ take (?k + 1) kToolOpen"
        using pre(3) True k by (simp add: take_Suc_conv_app_nth)
      with tr pre have "before_marker (t @ [b]) (out @ vis) (d\<lparr>td_marker_prefix_bytes := ?k + 1\<rparr>)"
        by (simp add: before_marker_def)
      with 2(1) [OF refl refl True False, of "t @ [b]"] True False show ?thesis by simp
    qed
  next
    case False
    define vis' where "vis' = (if ?k \<noteq> 0 then vis @ ?ws @ take ?k kToolOpen else vis)"
    define ws' where "ws' = (if ?k \<noteq> 0 then [] else ?ws)"
    have run: "feed_loop d (b # rest) vis =
        (if b = hd kToolOpen
         then feed_loop (d\<lparr>td_trailing_whitespace := ws', td_marker_prefix_bytes := 1\<rparr>) rest vis'
         else if is_format_whitespace b
         then feed_loop (d\<lparr>td_trailing_whitespace := ws' @ [b], td_marker_prefix_bytes := 0\<rparr>) rest vis'
         else feed_loop (d\<lparr>td_trailing_whitespace := [], td_marker_prefix_bytes := 0\<rparr>) rest
                (vis' @ ws' @ [b]))"
      by (simp only: feed_loop.simps Let_def False if_False vis'_def ws'_def)
    have tr: "tool.tracks (t @ [b]) (if b = hd kToolOpen then 1 else 0)"
      using tool.tracks_restart [OF pre(5), of b] False by auto
    have t: "t = out @ vis' @ ws'" using pre(3) by (simp add: vis'_def ws'_def)
    have ws': "list_all is_format_whitespace ws'" using pre(4) by (simp add: ws'_def)
    have rt: "rtrim_format_whitespace (out @ vis') = out @ vis'"
      using pre(6) k rtrim_partial [of ?k "out @ vis @ ?ws"] by (simp add: vis'_def)
    consider (langle) "b = hd kToolOpen" | (space) "b \<noteq> hd kToolOpen" "is_format_whitespace b"
      | (other) "b \<noteq> hd kToolOpen" "\<not> is_format_whitespace b" by blast
    then show ?thesis
    proof cases
      case langle
      have "take 1 kToolOpen = [b]" using langle by (simp add: kToolOpen_def)
      with langle tr t ws' rt pre have "before_marker (t @ [b]) (out @ vis')
          (d\<lparr>td_trailing_whitespace := ws', td_marker_prefix_bytes := 1\<rparr>)"
        by (simp add: before_marker_def)
      from 2(2) [OF refl refl False vis'_def ws'_def langle this] show ?thesis
        unfolding run using langle by simp
    next
      case space
      with tr t ws' rt pre have "before_marker (t @ [b]) (out @ vis')
          (d\<lparr>td_trailing_whitespace := ws' @ [b], td_marker_prefix_bytes := 0\<rparr>)"
        by (simp add: before_marker_def)
      from 2(3) [OF refl refl False vis'_def ws'_def space this] space show ?thesis
        by (simp add: run del: feed_loop.simps)
    next
      case other
      have "rtrim_format_whitespace ((out @ vis' @ ws') @ [b]) = (out @ vis' @ ws') @ [b]"
        using other by (simp only: rtrim_snoc if_False)
      with other tr t ws' pre have "before_marker (t @ [b]) (out @ vis' @ ws' @ [b])
          (d\<lparr>td_trailing_whitespace := [], td_marker_prefix_bytes := 0\<rparr>)"
        by (simp add: before_marker_def)
      from 2(4) [OF refl refl False vis'_def ws'_def other this] other show ?thesis
        by (simp add: run del: feed_loop.simps)
    qed
  qed
qed

lemma feed_loop_fields:
  "td_contract (snd (feed_loop d s vis)) = td_contract d \<and>
   td_max_tool_name_length (snd (feed_loop d s vis)) = td_max_tool_name_length d \<and>
   td_finished (snd (feed_loop d s vis)) = td_finished d"
  by (induction s arbitrary: d vis) (simp_all add: Let_def)

lemma decoder_feed_inv:
  assumes "decoder_inv t vis d" and "td_contract d = Some c" and "\<not> td_finished d"
  obtains v d' where "decoder_feed d s = Inr (v, d')" and "decoder_inv (t @ s) (vis @ v) d'"
    and "td_contract d' = Some c" and "\<not> td_finished d'"
    and "td_max_tool_name_length d' = td_max_tool_name_length d"
proof (cases "s = []")
  case True
  with assms show ?thesis by (intro that [of "[]" d]) (simp_all add: decoder_feed_def)
next
  case s: False
  show ?thesis
  proof (cases "td_saw_tool_marker d")
    case False
    with assms(1) have "before_marker t (vis @ []) d" by (simp add: decoder_inv_def after_marker_def)
    from feed_loop_inv [OF this, of s] s False assms feed_loop_fields [of d s "[]"] show ?thesis
      by (intro that [of "fst (feed_loop d s [])" "snd (feed_loop d s [])"])
        (simp_all add: decoder_feed_def)
  next
    case True
    with assms(1) obtain w v where a: "t = vis @ td_tool_region d" "td_tool_region d = w @ kToolOpen @ v"
      "list_all is_format_whitespace w" "find_sub kToolOpen t = Some (length vis + length w)"
      "rtrim_format_whitespace vis = vis" "td_trailing_whitespace d = []" "td_marker_prefix_bytes d = 0"
      unfolding decoder_inv_def before_marker_def after_marker_def by blast
    have "t @ s = (vis @ w) @ kToolOpen @ (v @ s)" using a(1,2) by simp
    moreover have "find_sub kToolOpen (butlast ((vis @ w) @ kToolOpen)) = None"
      unfolding find_sub_None_iff
    proof (intro allI impI notI)
      fix n assume n: "n \<le> length (butlast ((vis @ w) @ kToolOpen))"
        and p: "prefix kToolOpen (drop n (butlast ((vis @ w) @ kToolOpen)))"
      from prefix_length_le [OF p] n have "n < length vis + length w" by (simp add: kToolOpen_facts)
      moreover have "prefix kToolOpen (drop n t)"
      proof -
        obtain z where "(vis @ w) @ kToolOpen = butlast ((vis @ w) @ kToolOpen) @ z"
          by (metis append_butlast_last_id append_is_Nil_conv kToolOpen_facts(2))
        then have "drop n t = drop n (butlast ((vis @ w) @ kToolOpen)) @ z @ v"
          using n a(1,2) by (metis append.assoc append_eq_append_conv_if drop_append diff_is_0_eq' drop0)
        with p show ?thesis by (simp add: prefix_append)
      qed
      ultimately show False using a(4) by (simp add: find_sub_Some_iff)
    qed
    ultimately have "find_sub kToolOpen (t @ s) = Some (length (vis @ w))"
      using find_sub_first [of kToolOpen "vis @ w" "v @ s"] by (simp add: kToolOpen_facts)
    then have "after_marker (t @ s) vis (d\<lparr>td_tool_region := td_tool_region d @ s\<rparr>)"
      unfolding after_marker_def using True a
      by (intro conjI exI [where x = w] exI [where x = "v @ s"]) simp_all
    with True s assms show ?thesis
      by (intro that [of "[]" "d\<lparr>td_tool_region := td_tool_region d @ s\<rparr>"])
        (simp_all add: decoder_feed_def decoder_inv_def)
  qed
qed

fun feed_all :: "decoder \<Rightarrow> string list \<Rightarrow> (string \<times> decoder) res" where
  "feed_all d [] = Inr ([], d)"
| "feed_all d (s # ss) =
    rbind (decoder_feed d s) (\<lambda>(v, d'). rbind (feed_all d' ss) (\<lambda>(v', d''). Inr (v @ v', d'')))"

definition stream_output ::
  "json_lib \<Rightarrow> output_contract option \<Rightarrow> nat \<Rightarrow> string list \<Rightarrow>
   (string \<times> generated_call list \<times> diagnostics) res" where
  "stream_output J c max_len chunks =
    rbind (feed_all (make_decoder c max_len) chunks) (\<lambda>(v, d).
      rbind (decoder_finish J d) (\<lambda>(t, d').
        Inr (v @ tm_content t, tm_tool_calls t, tm_diagnostics t)))"

lemma feed_all_inv:
  assumes "decoder_inv t vis d" and "td_contract d = Some c" and "\<not> td_finished d"
  shows "\<exists>v d'. feed_all d ss = Inr (v, d') \<and> decoder_inv (t @ concat ss) (vis @ v) d' \<and>
    td_contract d' = Some c \<and> \<not> td_finished d' \<and>
    td_max_tool_name_length d' = td_max_tool_name_length d"
  using assms
proof (induction ss arbitrary: d t vis)
  case (Cons s ss)
  obtain v d' where f: "decoder_feed d s = Inr (v, d')" "decoder_inv (t @ s) (vis @ v) d'"
    "td_contract d' = Some c" "\<not> td_finished d'"
    "td_max_tool_name_length d' = td_max_tool_name_length d"
    by (rule decoder_feed_inv [OF Cons.prems])
  from Cons.IH [OF f(2-4)] obtain v' d'' where "feed_all d' ss = Inr (v', d'')"
    "decoder_inv ((t @ s) @ concat ss) ((vis @ v) @ v') d''" "td_contract d'' = Some c"
    "\<not> td_finished d''" "td_max_tool_name_length d'' = td_max_tool_name_length d'" by blast
  with f show ?case by auto
qed simp

lemma decoder_finish_batch:
  assumes inv: "decoder_inv t vis d" and c: "td_contract d = Some c" "\<not> td_finished d"
  shows "\<exists>tm d'. decoder_finish J d = Inr (tm, d') \<and>
    (let p = parse_qwen_tool_call_output J t (td_max_tool_name_length d) c
     in vis @ tm_content tm = po_content p \<and> tm_tool_calls tm = po_tool_calls p \<and>
        tm_diagnostics tm = po_diagnostics p)"
proof (cases "td_saw_tool_marker d")
  case False
  with inv have b: "td_tool_region d = []" "\<not> sublist kToolOpen t"
    "t = vis @ td_trailing_whitespace d @ take (td_marker_prefix_bytes d) kToolOpen"
    unfolding decoder_inv_def before_marker_def after_marker_def tool.tracks_def by blast+
  then have "parse_qwen_tool_call_output J t (td_max_tool_name_length d) c = fallback t no_diagnostics"
    by (simp add: parse_qwen_tool_call_output_def find_sub_None_sublist [symmetric])
  with False b c show ?thesis
    by (simp add: decoder_finish_def Let_def parse_qwen_tool_call_output_def fallback_def kToolOpen_facts)
next
  case True
  with inv obtain w v where a: "t = vis @ td_tool_region d" "td_tool_region d = w @ kToolOpen @ v"
    "list_all is_format_whitespace w" "find_sub kToolOpen t = Some (length vis + length w)"
    "rtrim_format_whitespace vis = vis" "td_trailing_whitespace d = []" "td_marker_prefix_bytes d = 0"
    unfolding decoder_inv_def before_marker_def after_marker_def by blast
  have f: "find_sub kToolOpen (w @ kToolOpen @ v) = Some (length w)"
    using find_sub_marker [OF whitespace_no_marker [OF a(3)]] tool.head kToolOpen_facts by simp
  have "drop (length vis + length w) t = kToolOpen @ v" "take (length vis + length w) t = vis @ w"
    using a(1,2) by simp_all
  moreover have "rtrim_format_whitespace (vis @ w) = vis" "rtrim_format_whitespace w = []"
    using rtrim_whitespace [OF a(3), of vis] rtrim_whitespace [OF a(3), of "[]"] a(5)
    by (simp_all add: rtrim_format_whitespace_def)
  ultimately show ?thesis using True a c f
    by (cases "parse_region (td_max_tool_name_length d) c (kToolOpen @ v) []")
      (simp_all add: decoder_finish_def Let_def parse_qwen_tool_call_output_def fallback_def split_def)
qed

lemma make_decoder_inv: "decoder_inv [] [] (make_decoder c n)"
  using tool.tracks_empty
  by (simp add: decoder_inv_def before_marker_def make_decoder_def rtrim_format_whitespace_def)

lemma feed_all_plain:
  "td_contract d = None \<Longrightarrow> \<not> td_finished d \<Longrightarrow> feed_all d ss = Inr (concat ss, d)"
  by (induction ss) (simp_all add: decoder_feed_def)

text \<open>
  C31. The incremental decoder is the batch parser. For every way the content arrives in chunks,
  what is published while streaming followed by the terminal content, the structured calls and the
  diagnostics are those of \<open>parse_qwen_tool_call_output\<close> on the whole text; without a contract the
  text passes unchanged. In particular output that is not a well-formed tool-call suffix is
  restored verbatim, no byte of a well-formed one is ever published, and no call of the decoder
  throws.
\<close>

theorem decoder_refines_batch:
  "stream_output J contract max_len chunks =
    (case contract of
       None \<Rightarrow> Inr (concat chunks, [], no_diagnostics)
     | Some c \<Rightarrow>
         let p = parse_qwen_tool_call_output J (concat chunks) max_len c
         in Inr (po_content p, po_tool_calls p, po_diagnostics p))"
proof (cases contract)
  case None
  then show ?thesis
    using feed_all_plain [of "make_decoder None max_len" chunks]
    by (simp add: stream_output_def make_decoder_def decoder_finish_def)
next
  case (Some c)
  let ?d = "make_decoder (Some c) max_len"
  from feed_all_inv [OF make_decoder_inv, of "Some c" max_len c chunks] obtain v d where f:
    "feed_all ?d chunks = Inr (v, d)" "decoder_inv (concat chunks) v d" "td_contract d = Some c"
    "\<not> td_finished d" "td_max_tool_name_length d = max_len"
    by (auto simp: make_decoder_def)
  from decoder_finish_batch [OF f(2-4), of J] f(1,5) Some show ?thesis
    by (auto simp: stream_output_def Let_def)
qed

end
