(* ===== verification/ToolNumber.thy ===== *)
theory ToolNumber
  imports Complex_Main ToolOutput
begin

text \<open>
  \<open>json_number_is_integer\<close> decides from the characters of a JSON number literal whether its value is
  an integer, without computing the value: it compares the number of fraction digits, the
  trailing zeros of the coefficient and the exponent, which is capped at the length of the literal so
  that it cannot overflow. This theory shows that the answer is right.
\<close>

section \<open>Literals and their values\<close>

definition digit_value :: "char \<Rightarrow> nat" where
  "digit_value d = of_char d - 48"

definition digits_value :: "string \<Rightarrow> nat" where
  "digits_value ds = foldl (\<lambda>n d. 10 * n + digit_value d) 0 ds"

text \<open>Sign, integer digits, optional fraction digits, optional exponent (letter, sign, digits).\<close>

record number_literal =
  nl_negative :: bool
  nl_integer :: string
  nl_fraction :: "string option"
  nl_exponent :: "(char \<times> char option \<times> string) option"

fun exponent_text :: "(char \<times> char option \<times> string) option \<Rightarrow> string" where
  "exponent_text None = []"
| "exponent_text (Some (e, sign, ds)) = e # (case sign of None \<Rightarrow> [] | Some s \<Rightarrow> [s]) @ ds"

definition literal_text :: "number_literal \<Rightarrow> string" where
  "literal_text l =
    (if nl_negative l then ''-'' else []) @ nl_integer l @
    (case nl_fraction l of None \<Rightarrow> [] | Some f \<Rightarrow> CHR ''.'' # f) @ exponent_text (nl_exponent l)"

fun exponent_ok :: "(char \<times> char option \<times> string) option \<Rightarrow> bool" where
  "exponent_ok None \<longleftrightarrow> True"
| "exponent_ok (Some (e, sign, ds)) \<longleftrightarrow>
    (e = CHR ''e'' \<or> e = CHR ''E'') \<and> (sign = None \<or> sign = Some (CHR ''+'') \<or> sign = Some (CHR ''-'')) \<and>
    ds \<noteq> [] \<and> list_all is_ascii_digit ds"

definition literal_ok :: "number_literal \<Rightarrow> bool" where
  "literal_ok l \<longleftrightarrow>
    nl_integer l \<noteq> [] \<and> list_all is_ascii_digit (nl_integer l) \<and>
    (case nl_fraction l of None \<Rightarrow> True | Some f \<Rightarrow> f \<noteq> [] \<and> list_all is_ascii_digit f) \<and>
    exponent_ok (nl_exponent l)"

definition fraction_digits :: "number_literal \<Rightarrow> string" where
  "fraction_digits l = (case nl_fraction l of None \<Rightarrow> [] | Some f \<Rightarrow> f)"

fun exponent_value :: "(char \<times> char option \<times> string) option \<Rightarrow> int" where
  "exponent_value None = 0"
| "exponent_value (Some (e, sign, ds)) =
    (if sign = Some (CHR ''-'') then - int (digits_value ds) else int (digits_value ds))"

definition literal_value :: "number_literal \<Rightarrow> rat" where
  "literal_value l =
    (if nl_negative l then - 1 else 1) *
    of_nat (digits_value (nl_integer l @ fraction_digits l)) *
    10 powi (exponent_value (nl_exponent l) - int (length (fraction_digits l)))"

section \<open>The digit loops\<close>

lemma digits_value_snoc [simp]: "digits_value (ds @ [d]) = 10 * digits_value ds + digit_value d"
  by (simp add: digits_value_def)

lemma digits_value_Nil [simp]: "digits_value [] = 0"
  by (simp add: digits_value_def)

lemma digit_value_bound: "is_ascii_digit d \<Longrightarrow> digit_value d \<le> 9"
  by (auto simp: is_ascii_digit_def digit_value_def)

lemma digit_value_zero: "is_ascii_digit d \<Longrightarrow> digit_value d = 0 \<longleftrightarrow> d = CHR ''0''"
proof -
  assume "is_ascii_digit d"
  then have "digit_value d = 0 \<longleftrightarrow> of_char d = (48 :: nat)"
    by (auto simp: is_ascii_digit_def digit_value_def)
  also have "\<dots> \<longleftrightarrow> of_char d = (of_char (CHR ''0'') :: nat)" by simp
  also have "\<dots> \<longleftrightarrow> d = CHR ''0''" by (simp only: of_char_eq_iff)
  finally show ?thesis .
qed

lemma observe_digits_append: "observe_digits (xs @ ys) st = observe_digits ys (observe_digits xs st)"
  by (induction xs st rule: observe_digits.induct) simp_all

text \<open>The digit loop counts exactly the factors of ten of the coefficient.\<close>

lemma observe_digits_value:
  assumes "list_all is_ascii_digit ds"
  shows "case observe_digits ds (True, 0) of (zero, trailing) \<Rightarrow>
    zero = (digits_value ds = 0) \<and> trailing \<le> length ds \<and>
    (digits_value ds \<noteq> 0 \<longrightarrow> trailing < length ds \<and> (\<forall>n. 10 ^ n dvd digits_value ds \<longleftrightarrow> n \<le> trailing))"
  using assms
proof (induction ds rule: rev_induct)
  case Nil
  then show ?case by simp
next
  case (snoc d ds)
  obtain z t where zt: "observe_digits ds (True, 0) = (z, t)" by fastforce
  let ?N = "digits_value ds"
  have IH: "z = (?N = 0)" "t \<le> length ds" "?N \<noteq> 0 \<Longrightarrow> t < length ds"
    "?N \<noteq> 0 \<Longrightarrow> 10 ^ n dvd ?N \<longleftrightarrow> n \<le> t" for n
    using snoc zt by auto
  have d: "is_ascii_digit d" using snoc.prems by simp
  show ?case
  proof (cases "d = CHR ''0''")
    case True
    then have v: "digits_value (ds @ [d]) = 10 * ?N" using digit_value_zero [OF d] by simp
    have "10 ^ n dvd 10 * ?N \<longleftrightarrow> n \<le> t + 1" if "?N \<noteq> 0" for n
      using IH(4) [OF that] by (cases n) (auto simp: mult_dvd_mono)
    with True zt IH v show ?thesis by (simp add: observe_digits_append)
  next
    case False
    with d have "0 < digit_value d" "digit_value d < 10"
      using digit_value_zero digit_value_bound [of d] by auto
    then have "\<not> 10 dvd 10 * ?N + digit_value d" by (simp add: nat_dvd_not_less dvd_add_right_iff)
    then have "10 ^ n dvd 10 * ?N + digit_value d \<longleftrightarrow> n = 0" for n
      by (cases n) (auto dest: dvd_mult_left)
    with False zt \<open>0 < digit_value d\<close> show ?thesis by (simp add: observe_digits_append)
  qed
qed

lemma capped_exponent_value:
  assumes "list_all is_ascii_digit ds" and "v = min cap n"
  shows "capped_exponent cap ds v = min cap (foldl (\<lambda>n d. 10 * n + digit_value d) n ds)"
  using assms
proof (induction ds arbitrary: v n)
  case (Cons d ds)
  let ?v = "if v \<noteq> cap then (if v > cap div 10 \<or> v = cap div 10 \<and> of_char d - 48 > cap mod 10 then cap
      else v * 10 + (of_char d - 48)) else v"
  have "digit_value d \<le> 9" using Cons.prems digit_value_bound by simp
  moreover obtain q r where "cap = 10 * q + r" "r < 10" "cap div 10 = q" "cap mod 10 = r"
    by (metis mult_div_mod_eq mod_less_divisor zero_less_numeral)
  ultimately have "?v = min cap (10 * n + digit_value d)" using Cons.prems(2)
    unfolding digit_value_def [symmetric] by (auto simp: min_def split: if_splits)
  moreover have "capped_exponent cap (d # ds) v = capped_exponent cap ds ?v"
    by (simp only: capped_exponent.simps Let_def)
  ultimately show ?case using Cons.IH [of ?v "10 * n + digit_value d"] Cons.prems(1)
    by (simp only: foldl_Cons list.pred_inject)
qed simp

section \<open>Scanning the literal\<close>

lemma takeWhile_digits:
  assumes "list_all is_ascii_digit ds" and "r = [] \<or> \<not> is_ascii_digit (hd r)"
  shows "takeWhile is_ascii_digit (ds @ r) = ds" and "dropWhile is_ascii_digit (ds @ r) = r"
  using assms by (induction ds; cases r; simp)+

lemma not_digits [simp]:
  "\<not> is_ascii_digit (CHR ''.'')" "\<not> is_ascii_digit (CHR ''e'')" "\<not> is_ascii_digit (CHR ''E'')"
  "\<not> is_ascii_digit (CHR ''-'')" "\<not> is_ascii_digit (CHR ''+'')"
  by (simp_all add: is_ascii_digit_def)

lemma split_exponent_text:
  assumes "exponent_ok e"
  shows "split_exponent cap (exponent_text e) =
    (case e of None \<Rightarrow> (False, 0, [])
     | Some (c, sign, ds) \<Rightarrow> (sign = Some (CHR ''-''), min cap (digits_value ds), []))"
proof (cases e)
  case None
  then show ?thesis by (simp add: split_exponent_def)
next
  case (Some x)
  obtain c sign ds where x: "x = (c, sign, ds)" by (cases x)
  from assms Some x have ok: "c = CHR ''e'' \<or> c = CHR ''E''"
    "sign = None \<or> sign = Some (CHR ''+'') \<or> sign = Some (CHR ''-'')" "ds \<noteq> []" "list_all is_ascii_digit ds"
    by simp_all
  have tw: "takeWhile is_ascii_digit ds = ds" "dropWhile is_ascii_digit ds = []"
    using takeWhile_digits [OF ok(4), of "[]"] by simp_all
  have cap: "capped_exponent cap ds 0 = min cap (digits_value ds)"
    using capped_exponent_value [OF ok(4), of 0 cap 0] by (simp add: digits_value_def)
  have hd: "is_ascii_digit (hd ds)" using ok(3,4) by (cases ds) simp_all
  then have nosign: "hd ds \<noteq> CHR ''+''" "hd ds \<noteq> CHR ''-''" using not_digits by metis+
  consider "sign = None" | "sign = Some (CHR ''+'')" | "sign = Some (CHR ''-'')" using ok(2) by blast
  then show ?thesis
    by cases (use Some x ok(1,3) nosign in \<open>simp_all add: split_exponent_def Let_def tw cap\<close>)
qed

lemma exponent_text_head: "exponent_ok e \<Longrightarrow> exponent_text e = [] \<or>
    (\<not> is_ascii_digit (hd (exponent_text e)) \<and> hd (exponent_text e) \<noteq> CHR ''.'')"
  by (cases e) auto

text \<open>The decision in terms of the three numbers it depends on.\<close>

lemma json_number_parts:
  assumes "literal_ok l"
  shows "json_number_is_integer (literal_text l) \<longleftrightarrow>
    (let (neg, exponent, r) = split_exponent (length (literal_text l)) (exponent_text (nl_exponent l));
         (zero, trailing) = observe_digits (nl_integer l @ fraction_digits l) (True, 0);
         n = length (fraction_digits l)
     in r = [] \<and> (zero \<or> (if neg then exponent + n \<le> trailing else n \<le> exponent + trailing)))"
proof -
  note ok = assms [unfolded literal_ok_def]
  let ?e = "exponent_text (nl_exponent l)"
  let ?tail = "(case nl_fraction l of None \<Rightarrow> [] | Some f \<Rightarrow> CHR ''.'' # f) @ ?e"
  have head: "?e = [] \<or> \<not> is_ascii_digit (hd ?e) \<and> hd ?e \<noteq> CHR ''.''"
    using ok exponent_text_head by blast
  have tail: "?tail = [] \<or> \<not> is_ascii_digit (hd ?tail)" using head by (cases "nl_fraction l") auto
  note int = takeWhile_digits [OF _ tail, of "nl_integer l"]
  have neg: "(if prefix ''-'' (literal_text l) then drop 1 (literal_text l) else literal_text l) =
      nl_integer l @ ?tail"
  proof -
    have "\<not> prefix ''-'' (nl_integer l @ ?tail)" using ok not_digits(4) by (cases "nl_integer l") auto
    then show ?thesis by (simp add: literal_text_def)
  qed
  obtain zero trailing where z: "observe_digits (nl_integer l @ fraction_digits l) (True, 0) = (zero, trailing)"
    by fastforce
  obtain ng ex r where sp: "split_exponent (length (literal_text l)) ?e = (ng, ex, r)"
    by (metis prod_cases3)
  show ?thesis
  proof (cases "nl_fraction l")
    case None
    with neg int ok head z sp show ?thesis
      by (auto simp: json_number_is_integer_def Let_def fraction_digits_def observe_digits_append [symmetric])
  next
    case (Some f)
    have "takeWhile is_ascii_digit (f @ ?e) = f" "dropWhile is_ascii_digit (f @ ?e) = ?e"
      using takeWhile_digits [of f ?e] ok Some head by auto
    with Some neg int ok z sp show ?thesis
      by (auto simp: json_number_is_integer_def Let_def fraction_digits_def observe_digits_append [symmetric])
  qed
qed

section \<open>Integer values\<close>

lemma scaled_in_Ints:
  assumes "N \<noteq> 0" and ten: "\<And>n. 10 ^ n dvd N \<longleftrightarrow> n \<le> t"
  shows "(of_nat N :: rat) * 10 powi k \<in> \<int> \<longleftrightarrow> - k \<le> int t"
proof (cases "0 \<le> k")
  case True
  then have "(of_nat N :: rat) * 10 powi k \<in> \<int>" by (simp add: power_int_def)
  with True show ?thesis by simp
next
  case False
  define m where "m = nat (- k)"
  have "(of_nat N :: rat) * 10 powi k = of_int (int N) / of_int (10 ^ m)"
    using False by (simp add: m_def power_int_def field_simps)
  also have "\<dots> \<in> \<int> \<longleftrightarrow> (10 ^ m :: int) dvd int N"
    by (subst of_int_div_of_int_in_Ints_iff) simp
  also have "\<dots> \<longleftrightarrow> 10 ^ m dvd N" by (metis int_dvd_int_iff of_nat_numeral of_nat_power)
  also have "\<dots> \<longleftrightarrow> - k \<le> int t" unfolding ten using False by (auto simp: m_def)
  finally show ?thesis .
qed

lemma literal_length: "length (nl_integer l @ fraction_digits l) \<le> length (literal_text l)"
  by (simp add: literal_text_def fraction_digits_def split: option.split)

text \<open>
  C33. \<open>json_number_is_integer\<close> is right: for every JSON number literal the answer is whether its
  value is an integer, whatever the size of the exponent (\<open>1.50e1\<close> is one, \<open>1e-1\<close> is not,
  \<open>0.0e-99\<close> is). Capping the exponent at the length of the literal never changes the answer.
\<close>

theorem integer_literal_exact:
  assumes "literal_ok l"
  shows "json_number_is_integer (literal_text l) \<longleftrightarrow> literal_value l \<in> \<int>"
proof -
  let ?ds = "nl_integer l @ fraction_digits l" and ?n = "length (fraction_digits l)"
  let ?cap = "length (literal_text l)"
  note ok = assms [unfolded literal_ok_def]
  have dig: "list_all is_ascii_digit ?ds" using ok by (simp add: fraction_digits_def split: option.splits)
  obtain zero t where obs: "observe_digits ?ds (True, 0) = (zero, t)" by fastforce
  from observe_digits_value [OF dig] obs have zt: "zero = (digits_value ?ds = 0)"
    "digits_value ?ds \<noteq> 0 \<Longrightarrow> t < length ?ds" "digits_value ?ds \<noteq> 0 \<Longrightarrow> 10 ^ n dvd digits_value ?ds \<longleftrightarrow> n \<le> t" for n
    by auto
  note run = json_number_parts [OF assms, unfolded obs]
  show ?thesis
  proof (cases "digits_value ?ds = 0")
    case True
    then have "literal_value l \<in> \<int>" by (simp add: literal_value_def)
    moreover have "snd (snd (split_exponent ?cap (exponent_text (nl_exponent l)))) = []"
      using ok split_exponent_text [of "nl_exponent l" ?cap] by (simp split: option.split prod.split)
    ultimately show ?thesis using True zt(1) by (simp add: run split_def Let_def)
  next
    case False
    let ?k = "exponent_value (nl_exponent l) - int ?n"
    have val: "literal_value l \<in> \<int> \<longleftrightarrow> - ?k \<le> int t"
      using scaled_in_Ints [OF False zt(3) [OF False], of ?k] by (simp add: literal_value_def)
    have t: "t < ?cap" "?n \<le> ?cap" using zt(2) [OF False] literal_length [of l] by simp_all
    show ?thesis
    proof (cases "nl_exponent l")
      case None
      then show ?thesis using False zt(1) val ok split_exponent_text [of "nl_exponent l" ?cap]
        by (simp add: run Let_def)
    next
      case (Some x)
      obtain c sign ds where x: "x = (c, sign, ds)" by (cases x)
      have "split_exponent ?cap (exponent_text (nl_exponent l)) =
          (sign = Some (CHR ''-''), min ?cap (digits_value ds), [])"
        using ok split_exponent_text [of "nl_exponent l" ?cap] Some x by simp
      with False zt(1) val t Some x show ?thesis by (auto simp: run Let_def min_def)
    qed
  qed
qed

theorem integer_literal_exact_witness:
  "json_number_is_integer ''-1.50e1'' \<and>
   literal_value \<lparr>nl_negative = True, nl_integer = ''1'', nl_fraction = Some ''50'',
     nl_exponent = Some (CHR ''e'', None, ''1'')\<rparr> \<in> \<int>"
proof -
  let ?l = "\<lparr>nl_negative = True, nl_integer = ''1'', nl_fraction = Some ''50'',
     nl_exponent = Some (CHR ''e'', None, ''1'')\<rparr>"
  have t: "literal_text ?l = ''-1.50e1''" by (simp add: literal_text_def)
  have "literal_ok ?l" by (simp add: literal_ok_def is_ascii_digit_def)
  moreover have "json_number_is_integer ''-1.50e1''" by code_simp
  ultimately show ?thesis using integer_literal_exact [of ?l] t by simp
qed

end
