(* ===== verification/Utf8Stream.thy ===== *)
theory Utf8Stream
  imports Prelude
begin

text \<open>
  The incremental UTF-8 decoder of generated bytes, \<open>consume_generated_utf8\<close> of
  \<open>models/qwen3_5/frontend/output_session.cpp\<close>. Tokens are byte sequences that may end inside a
  code point, so the decoder keeps an unfinished suffix for the next call and replaces what can
  never become well-formed by U+FFFD.

  A byte is a \<open>char\<close>; \<open>of_char\<close> is its unsigned value. The function returns the decoded text and
  what is left in \<open>pending\<close>.
\<close>

section \<open>The decoder\<close>

abbreviation byte :: "char \<Rightarrow> nat" where
  "byte c \<equiv> of_char c"

definition kUtf8Replacement :: string where
  "kUtf8Replacement = [char_of (0xef :: nat), char_of (0xbf :: nat), char_of (0xbd :: nat)]"

definition lead_length :: "nat \<Rightarrow> nat option" where
  "lead_length lead =
    (if 0xc2 \<le> lead \<and> lead \<le> 0xdf then Some 2
     else if 0xe0 \<le> lead \<and> lead \<le> 0xef then Some 3
     else if 0xf0 \<le> lead \<and> lead \<le> 0xf4 then Some 4
     else None)"

definition minimum_byte :: "nat \<Rightarrow> nat \<Rightarrow> nat" where
  "minimum_byte lead index =
    (if index = 1 then (if lead = 0xe0 then 0xa0 else if lead = 0xf0 then 0x90 else 0x80) else 0x80)"

definition maximum_byte :: "nat \<Rightarrow> nat \<Rightarrow> nat" where
  "maximum_byte lead index =
    (if index = 1 then (if lead = 0xed then 0x9f else if lead = 0xf4 then 0x8f else 0xbf) else 0xbf)"

text \<open>
  The loop over the continuation bytes: the first argument after the lead counts the bytes still
  expected, the list holds the bytes from \<open>offset + index\<close> on.
\<close>

datatype sequence = Incomplete | Malformed nat | Complete

fun scan_sequence :: "nat \<Rightarrow> nat \<Rightarrow> nat \<Rightarrow> string \<Rightarrow> sequence" where
  "scan_sequence lead 0 index bs = Complete"
| "scan_sequence lead (Suc k) index [] = Incomplete"
| "scan_sequence lead (Suc k) index (b # bs) =
    (if byte b < minimum_byte lead index \<or> byte b > maximum_byte lead index then Malformed index
     else scan_sequence lead k (index + 1) bs)"

lemma scan_Malformed_range:
  "scan_sequence lead k index bs = Malformed i \<Longrightarrow> index \<le> i \<and> i < index + length bs"
  by (induction lead k index bs rule: scan_sequence.induct) (auto split: if_splits)

lemma scan_Complete_length: "scan_sequence lead k index bs = Complete \<Longrightarrow> k \<le> length bs"
  by (induction lead k index bs rule: scan_sequence.induct) (auto split: if_splits)

function consume_generated_utf8 :: "string \<Rightarrow> string \<times> string" where
  "consume_generated_utf8 [] = ([], [])"
| "consume_generated_utf8 (c # cs) =
    (if byte c \<le> 0x7f then apfst ((@) [c]) (consume_generated_utf8 cs)
     else case lead_length (byte c) of
       None \<Rightarrow> apfst ((@) kUtf8Replacement) (consume_generated_utf8 cs)
     | Some n \<Rightarrow>
         (case scan_sequence (byte c) (n - 1) 1 cs of
            Incomplete \<Rightarrow> ([], c # cs)
          | Malformed index \<Rightarrow>
              apfst ((@) kUtf8Replacement) (consume_generated_utf8 (drop index (c # cs)))
          | Complete \<Rightarrow> apfst ((@) (take n (c # cs))) (consume_generated_utf8 (drop n (c # cs)))))"
  by pat_completeness auto
termination
  by (relation "measure length")
    (auto dest: scan_Malformed_range simp: lead_length_def split: if_splits)

section \<open>Streaming\<close>

lemma scan_append:
  "scan_sequence lead k index bs \<noteq> Incomplete \<Longrightarrow>
    scan_sequence lead k index (bs @ ys) = scan_sequence lead k index bs"
  by (induction lead k index bs rule: scan_sequence.induct) auto

lemma lead_length_bounds: "lead_length lead = Some n \<Longrightarrow> 2 \<le> n \<and> n \<le> 4"
  by (auto simp: lead_length_def split: if_splits)

lemma consume_append:
  "consume_generated_utf8 (xs @ ys) =
    apfst ((@) (fst (consume_generated_utf8 xs)))
      (consume_generated_utf8 (snd (consume_generated_utf8 xs) @ ys))"
proof (induction xs rule: consume_generated_utf8.induct)
  case 1
  then show ?case by (simp add: prod_eq_iff)
next
  case (2 c cs)
  consider (ascii) "byte c \<le> 0x7f" | (stray) "\<not> byte c \<le> 0x7f" "lead_length (byte c) = None"
    | (lead) n where "\<not> byte c \<le> 0x7f" "lead_length (byte c) = Some n"
    by (cases "lead_length (byte c)") auto
  then show ?case
  proof cases
    case ascii
    with 2 show ?thesis by (simp add: prod_eq_iff)
  next
    case stray
    with 2 show ?thesis by (simp add: prod_eq_iff)
  next
    case (lead n)
    note n = lead_length_bounds [OF lead(2)]
    show ?thesis
    proof (cases "scan_sequence (byte c) (n - 1) 1 cs")
      case Incomplete
      with lead have "consume_generated_utf8 (c # cs) = ([], c # cs)" by simp
      then show ?thesis by (simp add: prod_eq_iff del: consume_generated_utf8.simps(2))
    next
      case (Malformed i)
      have "drop i (c # cs @ ys) = drop i (c # cs) @ ys"
        using scan_Malformed_range [OF Malformed] by (cases i) auto
      with lead Malformed 2 scan_append [of "byte c" "n - 1" 1 cs ys] show ?thesis
        by (simp add: prod_eq_iff)
    next
      case Complete
      have "drop n (c # cs @ ys) = drop n (c # cs) @ ys" "take n (c # cs @ ys) = take n (c # cs)"
        using scan_Complete_length [OF Complete] n by (cases n; simp)+
      with lead Complete 2 scan_append [of "byte c" "n - 1" 1 cs ys] show ?thesis
        by (simp add: prod_eq_iff)
    qed
  qed
qed

lemma pending_stays: "consume_generated_utf8 (snd (consume_generated_utf8 xs)) =
    ([], snd (consume_generated_utf8 xs))"
  by (induction xs rule: consume_generated_utf8.induct)
    (auto split: option.splits sequence.splits)

text \<open>
  How the session uses the decoder: each token's bytes are appended to \<open>utf8_pending\<close>, which
  is then consumed.
\<close>

fun decode_chunks :: "string \<Rightarrow> string list \<Rightarrow> string \<times> string" where
  "decode_chunks pending [] = ([], pending)"
| "decode_chunks pending (bs # chunks) =
    (let (d, p) = consume_generated_utf8 (pending @ bs) in apfst ((@) d) (decode_chunks p chunks))"

lemma decode_chunks_pending:
  assumes "consume_generated_utf8 p = ([], p)"
  shows "decode_chunks p chunks = consume_generated_utf8 (p @ concat chunks)"
  using assms
proof (induction chunks arbitrary: p)
  case Nil
  then show ?case by simp
next
  case (Cons bs chunks)
  obtain d q where dq: "consume_generated_utf8 (p @ bs) = (d, q)" by fastforce
  with pending_stays [of "p @ bs"] have "consume_generated_utf8 q = ([], q)" by simp
  with Cons.IH dq consume_append [of "p @ bs" "concat chunks"] show ?case by simp
qed

section \<open>Well-formed text\<close>

text \<open>Unicode scalar values and their UTF-8 form (RFC 3629).\<close>

definition scalar :: "nat \<Rightarrow> bool" where
  "scalar cp \<longleftrightarrow> cp < 0x110000 \<and> \<not> (0xd800 \<le> cp \<and> cp \<le> 0xdfff)"

definition encode :: "nat \<Rightarrow> string" where
  "encode cp = map char_of
    (if cp < 0x80 then [cp]
     else if cp < 0x800 then [0xc0 + cp div 64, 0x80 + cp mod 64]
     else if cp < 0x10000 then [0xe0 + cp div 4096, 0x80 + cp div 64 mod 64, 0x80 + cp mod 64]
     else [0xf0 + cp div 262144, 0x80 + cp div 4096 mod 64, 0x80 + cp div 64 mod 64, 0x80 + cp mod 64])"

definition utf8_text :: "nat list \<Rightarrow> string" where
  "utf8_text cps = concat (map encode cps)"

lemma byte_char_of [simp]: "n < 256 \<Longrightarrow> byte (char_of n) = n"
  by (simp add: of_char_of)

lemma byte_less [simp]: "byte c < 256"
  by (metis of_char_of char_of_char mod_less_divisor zero_less_numeral)

lemma later_range: "1 < i \<Longrightarrow> minimum_byte l i = 0x80 \<and> maximum_byte l i = 0xbf"
  by (simp add: minimum_byte_def maximum_byte_def)

lemma maximum_byte_bound: "maximum_byte l i \<le> 0xbf"
  by (simp add: maximum_byte_def)

lemma consume_sequence:
  assumes l: "lead_length l = Some (Suc (length bs))" "bs = b # bs'"
    and b: "minimum_byte l 1 \<le> b" "b \<le> maximum_byte l 1" and bs': "\<forall>x\<in>set bs'. 0x80 \<le> x \<and> x \<le> 0xbf"
  shows "consume_generated_utf8 (map char_of (l # bs) @ ys) =
    apfst ((@) (map char_of (l # bs))) (consume_generated_utf8 ys)"
proof -
  have l256: "l < 256" "\<not> l \<le> 0x7f" using l(1) by (auto simp: lead_length_def split: if_splits)
  have b256: "b < 256" using b(2) maximum_byte_bound [of l 1] by linarith
  have rest: "1 < i \<Longrightarrow> scan_sequence l (length bs') i (map char_of bs' @ ys) = Complete" for i
    using bs'
  proof (induction bs' arbitrary: i)
    case (Cons x xs)
    then have "x < 256" by auto
    with Cons later_range [of i l] show ?case by auto
  qed simp
  have "scan_sequence l (length bs) 1 (map char_of bs @ ys) = Complete"
    using b b256 rest [of 2] by (simp add: l(2) numeral_2_eq_2)
  then show ?thesis using l l256 by simp
qed

lemma consume_encode:
  assumes "scalar cp"
  shows "consume_generated_utf8 (encode cp @ ys) = apfst ((@) (encode cp)) (consume_generated_utf8 ys)"
proof -
  have m: "cp mod 64 \<le> 63" "cp div 64 mod 64 \<le> 63" "cp div 4096 mod 64 \<le> 63"
    by (simp_all add: less_Suc_eq_le [symmetric])
  consider "cp < 0x80" | "0x80 \<le> cp" "cp < 0x800" | "0x800 \<le> cp" "cp < 0x10000" | "0x10000 \<le> cp"
    by linarith
  then show ?thesis
  proof cases
    case 1
    then show ?thesis by (simp add: encode_def)
  next
    case 2
    have "2 \<le> cp div 64" "cp div 64 < 32" using 2 by auto
    with 2 m show ?thesis
      using consume_sequence [of "0xc0 + cp div 64" "[0x80 + cp mod 64]" "0x80 + cp mod 64" "[]" ys]
      by (simp add: encode_def lead_length_def minimum_byte_def maximum_byte_def numeral_2_eq_2)
  next
    case 3
    then have a: "cp div 4096 < 16" by auto
    have b: "cp div 4096 = 0 \<Longrightarrow> 32 \<le> cp div 64 mod 64" using 3 by auto
    have c: "cp div 64 mod 64 < 32" if "cp div 4096 = 13"
    proof -
      have "cp < 55296" using that assms by (auto simp: scalar_def)
      then have "cp div 64 < 864" by auto
      moreover have "cp div 64 div 64 = 13" using that by (simp add: div_mult2_eq)
      ultimately show ?thesis using mult_div_mod_eq [of 64 "cp div 64"] by linarith
    qed
    have "lead_length (0xe0 + cp div 4096) = Some 3" using a by (simp add: lead_length_def)
    with a b c m 3 show ?thesis
      using consume_sequence [of "0xe0 + cp div 4096" "[0x80 + cp div 64 mod 64, 0x80 + cp mod 64]"
          "0x80 + cp div 64 mod 64" "[0x80 + cp mod 64]" ys]
      by (auto simp: encode_def minimum_byte_def maximum_byte_def numeral_3_eq_3)
  next
    case 4
    have lt: "cp < 0x110000" using assms by (simp add: scalar_def)
    have a: "cp div 262144 < 5" using lt by auto
    have b: "cp div 262144 = 0 \<Longrightarrow> 16 \<le> cp div 4096 mod 64" using 4 by auto
    have c: "cp div 4096 mod 64 < 16" if "cp div 262144 = 4"
    proof -
      have "cp div 4096 < 272" using lt by auto
      moreover have "cp div 4096 div 64 = 4" using that by (simp add: div_mult2_eq)
      ultimately show ?thesis using mult_div_mod_eq [of 64 "cp div 4096"] by linarith
    qed
    have l: "lead_length (0xf0 + cp div 262144) = Some 4" using a by (simp add: lead_length_def)
    have "minimum_byte (0xf0 + cp div 262144) 1 \<le> 0x80 + cp div 4096 mod 64"
      "0x80 + cp div 4096 mod 64 \<le> maximum_byte (0xf0 + cp div 262144) 1"
      using b c m by (auto simp: minimum_byte_def maximum_byte_def)
    with l m have "consume_generated_utf8 (map char_of [0xf0 + cp div 262144, 0x80 + cp div 4096 mod 64,
          0x80 + cp div 64 mod 64, 0x80 + cp mod 64] @ ys) =
        apfst ((@) (map char_of [0xf0 + cp div 262144, 0x80 + cp div 4096 mod 64,
          0x80 + cp div 64 mod 64, 0x80 + cp mod 64])) (consume_generated_utf8 ys)"
      by (intro consume_sequence) auto
    with 4 show ?thesis by (simp only: encode_def) simp
  qed
qed

lemma continuation_range:
  assumes "\<not> byte b < minimum_byte lead index" and "\<not> byte b > maximum_byte lead index"
  shows "0x80 \<le> byte b \<and> byte b \<le> 0xbf"
  using assms by (auto simp: minimum_byte_def maximum_byte_def split: if_splits)

lemma encode_eqI: "map byte bs = ns \<Longrightarrow> bs = map char_of ns"
  by (induction bs arbitrary: ns) auto

text \<open>A sequence the scan accepts is the form of one scalar value.\<close>

lemma digit: "b < 64 \<Longrightarrow> (x * 64 + b) div 64 = x \<and> (x * 64 + b) mod 64 = b" for b x :: nat
  by simp

lemma two_bytes:
  assumes "a < 32" and "2 \<le> a" and "b < 64"
  shows "scalar (a * 64 + b) \<and> encode (a * 64 + b) = map char_of [0xc0 + a, 0x80 + b]"
  using assms by (simp add: scalar_def encode_def)

lemma three_bytes:
  assumes "a < 16" and "b < 64" and "c < 64" and "a = 0 \<Longrightarrow> 32 \<le> b" and "a = 13 \<Longrightarrow> b < 32"
  shows "scalar ((a * 64 + b) * 64 + c) \<and>
    encode ((a * 64 + b) * 64 + c) = map char_of [0xe0 + a, 0x80 + b, 0x80 + c]"
proof -
  let ?cp = "(a * 64 + b) * 64 + c"
  have d: "?cp div 64 = a * 64 + b" "?cp mod 64 = c"
    using digit [OF assms(3), of "a * 64 + b"] by blast+
  have "?cp div 4096 = ?cp div 64 div 64" by (simp add: div_mult2_eq [symmetric])
  then have "?cp div 4096 = a" "?cp div 64 mod 64 = b"
    unfolding d(1) using digit [OF assms(2), of a] by simp_all
  moreover have "0x800 \<le> ?cp" "?cp < 0x10000" using assms by (cases "a = 0"; simp)+
  moreover have "scalar ?cp" using assms by (cases "a < 13"; cases "a = 13"; simp add: scalar_def)
  ultimately show ?thesis using d by (simp add: encode_def)
qed

lemma four_bytes:
  assumes "a < 5" and "b < 64" and "c < 64" and "e < 64" and "a = 0 \<Longrightarrow> 16 \<le> b" and "a = 4 \<Longrightarrow> b < 16"
  shows "scalar (((a * 64 + b) * 64 + c) * 64 + e) \<and>
    encode (((a * 64 + b) * 64 + c) * 64 + e) = map char_of [0xf0 + a, 0x80 + b, 0x80 + c, 0x80 + e]"
proof -
  let ?cp = "((a * 64 + b) * 64 + c) * 64 + e"
  have d: "?cp div 64 = (a * 64 + b) * 64 + c" "?cp mod 64 = e"
    using digit [OF assms(4), of "(a * 64 + b) * 64 + c"] by blast+
  have "?cp div 4096 = ?cp div 64 div 64" "?cp div 262144 = ?cp div 64 div 64 div 64"
    by (simp_all add: div_mult2_eq [symmetric])
  then have "?cp div 262144 = a" "?cp div 4096 mod 64 = b" "?cp div 64 mod 64 = c"
    unfolding d(1) using digit [OF assms(3), of "a * 64 + b"] digit [OF assms(2), of a] by auto
  moreover have "0x10000 \<le> ?cp" using assms by (cases "a = 0"; simp)
  moreover have "?cp < 0x110000" using assms by (cases "a = 4"; simp)
  ultimately show ?thesis using d by (simp add: encode_def scalar_def)
qed

lemma scan_Complete_Cons:
  assumes "scan_sequence l (Suc k) i cs = Complete"
  obtains b bs where "cs = b # bs" and "minimum_byte l i \<le> byte b" and "byte b \<le> maximum_byte l i"
    and "0x80 \<le> byte b" and "byte b \<le> 0xbf" and "scan_sequence l k (Suc i) bs = Complete"
proof (cases cs)
  case (Cons b bs)
  with assms continuation_range [of b l i] show ?thesis
    by (intro that [of b bs]) (auto split: if_splits simp: not_less)
qed (use assms in simp)

lemma complete_encodes:
  assumes n: "lead_length (byte c) = Some n" and s: "scan_sequence (byte c) (n - 1) 1 cs = Complete"
  shows "\<exists>cp. scalar cp \<and> take n (c # cs) = encode cp"
proof -
  consider (two) "0xc2 \<le> byte c" "byte c \<le> 0xdf" "n = 2" | (three) "0xe0 \<le> byte c" "byte c \<le> 0xef" "n = 3"
    | (four) "0xf0 \<le> byte c" "byte c \<le> 0xf4" "n = 4"
    using n by (auto simp: lead_length_def split: if_splits)
  then show ?thesis
  proof cases
    case two
    from two s have "scan_sequence (byte c) (Suc 0) 1 cs = Complete" by simp
    from scan_Complete_Cons [OF this] obtain b bs where b: "cs = b # bs" "0x80 \<le> byte b" "byte b \<le> 0xbf" .
    have "0xc0 \<le> byte c" using two(1) by simp
    then obtain x where x: "byte c = 0xc0 + x" by (auto simp: nat_le_iff_add)
    obtain y where y: "byte b = 0x80 + y" using b(2) by (auto simp: nat_le_iff_add)
    have "2 \<le> x" "x < 32" "y < 64" using two(1,2) b(3) x y by simp_all
    then have "scalar (x * 64 + y) \<and> [c, b] = encode (x * 64 + y)"
      using two_bytes [of x y] encode_eqI [of "[c, b]" "[0xc0 + x, 0x80 + y]"] x y by simp
    with two(3) b(1) show ?thesis by (auto simp: numeral_2_eq_2)
  next
    case three
    from three s have "scan_sequence (byte c) (Suc (Suc 0)) 1 cs = Complete" by (simp add: numeral_2_eq_2)
    from scan_Complete_Cons [OF this] obtain b bs where b: "cs = b # bs"
      "minimum_byte (byte c) 1 \<le> byte b" "byte b \<le> maximum_byte (byte c) 1" "0x80 \<le> byte b" "byte b \<le> 0xbf"
      "scan_sequence (byte c) (Suc 0) (Suc 1) bs = Complete" .
    from scan_Complete_Cons [OF b(6)] obtain d ds where d: "bs = d # ds" "0x80 \<le> byte d" "byte d \<le> 0xbf" .
    obtain x where x: "byte c = 0xe0 + x" using three(1) by (auto simp: nat_le_iff_add)
    obtain y where y: "byte b = 0x80 + y" using b(4) by (auto simp: nat_le_iff_add)
    obtain z where z: "byte d = 0x80 + z" using d(2) by (auto simp: nat_le_iff_add)
    have "x = 0 \<Longrightarrow> 32 \<le> y" "x = 13 \<Longrightarrow> y < 32"
      using b(2,3) x y by (auto simp: minimum_byte_def maximum_byte_def)
    moreover have "x < 16" "y < 64" "z < 64" using three(2) b(5) d(3) x y z by simp_all
    ultimately have "scalar ((x * 64 + y) * 64 + z) \<and> [c, b, d] = encode ((x * 64 + y) * 64 + z)"
      using three_bytes [of x y z] encode_eqI [of "[c, b, d]" "[0xe0 + x, 0x80 + y, 0x80 + z]"] x y z
      by simp
    with three(3) b(1) d(1) show ?thesis by (auto simp: numeral_3_eq_3)
  next
    case four
    from four s have "scan_sequence (byte c) (Suc (Suc (Suc 0))) 1 cs = Complete"
      by (simp add: numeral_3_eq_3)
    from scan_Complete_Cons [OF this] obtain b bs where b: "cs = b # bs"
      "minimum_byte (byte c) 1 \<le> byte b" "byte b \<le> maximum_byte (byte c) 1" "0x80 \<le> byte b" "byte b \<le> 0xbf"
      "scan_sequence (byte c) (Suc (Suc 0)) (Suc 1) bs = Complete" .
    from scan_Complete_Cons [OF b(6)] obtain d ds where d: "bs = d # ds" "0x80 \<le> byte d" "byte d \<le> 0xbf"
      "scan_sequence (byte c) (Suc 0) (Suc (Suc 1)) ds = Complete" .
    from scan_Complete_Cons [OF d(4)] obtain e es where e: "ds = e # es" "0x80 \<le> byte e" "byte e \<le> 0xbf" .
    obtain x where x: "byte c = 0xf0 + x" using four(1) by (auto simp: nat_le_iff_add)
    obtain y where y: "byte b = 0x80 + y" using b(4) by (auto simp: nat_le_iff_add)
    obtain z where z: "byte d = 0x80 + z" using d(2) by (auto simp: nat_le_iff_add)
    obtain v where v: "byte e = 0x80 + v" using e(2) by (auto simp: nat_le_iff_add)
    have "x = 0 \<Longrightarrow> 16 \<le> y" "x = 4 \<Longrightarrow> y < 16"
      using b(2,3) x y by (auto simp: minimum_byte_def maximum_byte_def)
    moreover have "x < 5" "y < 64" "z < 64" "v < 64" using four(2) b(5) d(3) e(3) x y z v by simp_all
    ultimately have "scalar (((x * 64 + y) * 64 + z) * 64 + v) \<and>
        [c, b, d, e] = encode (((x * 64 + y) * 64 + z) * 64 + v)"
      using four_bytes [of x y z v]
        encode_eqI [of "[c, b, d, e]" "[0xf0 + x, 0x80 + y, 0x80 + z, 0x80 + v]"] x y z v by simp
    with four(3) b(1) d(1) e(1) show ?thesis by auto
  qed
qed

lemma encode_replacement: "scalar 0xfffd \<and> encode 0xfffd = kUtf8Replacement"
  by (simp add: scalar_def encode_def kUtf8Replacement_def)

lemma consume_well_formed:
  "\<exists>cps. fst (consume_generated_utf8 xs) = utf8_text cps \<and> (\<forall>cp\<in>set cps. scalar cp)"
proof (induction xs rule: consume_generated_utf8.induct)
  case 1
  show ?case by (intro exI [of _ "[]"]) (simp add: utf8_text_def)
next
  case (2 c cs)
  have step: "\<exists>cps. s @ t = utf8_text cps \<and> (\<forall>cp\<in>set cps. scalar cp)"
    if "\<exists>cps. t = utf8_text cps \<and> (\<forall>cp\<in>set cps. scalar cp)" "scalar cp \<and> encode cp = s" for s t cp
  proof -
    from that obtain cps where "t = utf8_text cps" "\<forall>cp\<in>set cps. scalar cp" by blast
    with that(2) show ?thesis by (intro exI [of _ "cp # cps"]) (auto simp: utf8_text_def)
  qed
  have ascii': "scalar (byte c) \<and> encode (byte c) = [c]" if "byte c \<le> 0x7f"
    using that by (simp add: scalar_def encode_def)
  consider (ascii) "byte c \<le> 0x7f" | (stray) "\<not> byte c \<le> 0x7f" "lead_length (byte c) = None"
    | (lead) n where "\<not> byte c \<le> 0x7f" "lead_length (byte c) = Some n"
    by (cases "lead_length (byte c)") auto
  then show ?case
  proof cases
    case ascii
    with step [OF 2(1) ascii'] show ?thesis by simp
  next
    case stray
    with step [OF 2(2) encode_replacement] show ?thesis by simp
  next
    case (lead n)
    show ?thesis
    proof (cases "scan_sequence (byte c) (n - 1) 1 cs")
      case Incomplete
      with lead show ?thesis by (auto simp: utf8_text_def intro!: exI [of _ "[]"])
    next
      case (Malformed i)
      with lead step [OF 2(3) [OF _ _ Malformed] encode_replacement] show ?thesis by simp
    next
      case Complete
      from complete_encodes [OF lead(2) Complete] obtain cp where
        "scalar cp \<and> encode cp = take n (c # cs)" by metis
      with lead Complete step [OF 2(4) [OF _ _ Complete] this] show ?thesis by simp
    qed
  qed
qed

lemma scan_Incomplete_length: "scan_sequence lead k index bs = Incomplete \<Longrightarrow> length bs < k"
  by (induction lead k index bs rule: scan_sequence.induct) (auto split: if_splits)

lemma pending_bound: "length (snd (consume_generated_utf8 xs)) \<le> 3"
  by (induction xs rule: consume_generated_utf8.induct)
    (auto split: option.splits sequence.splits dest!: scan_Incomplete_length lead_length_bounds)

lemma consume_utf8_text:
  "\<forall>cp\<in>set cps. scalar cp \<Longrightarrow> consume_generated_utf8 (utf8_text cps) = (utf8_text cps, [])"
  by (induction cps) (simp_all add: utf8_text_def consume_encode)

text \<open>
  Incremental decoding does not depend on where the tokens cut the bytes: feeding chunk after
  chunk gives the text and the pending bytes of decoding everything at once. The published text
  is always well-formed UTF-8 (a sequence of encoded Unicode scalar values, whatever bytes
  came in), and at most three bytes are held back.
\<close>

theorem utf8_streaming:
  "decode_chunks [] chunks = consume_generated_utf8 (concat chunks) \<and>
   (\<exists>cps. fst (decode_chunks [] chunks) = utf8_text cps \<and> list_all scalar cps) \<and>
   length (snd (decode_chunks [] chunks)) \<le> 3"
proof -
  have "decode_chunks [] chunks = consume_generated_utf8 (concat chunks)"
    using decode_chunks_pending [of "[]" chunks] by simp
  with consume_well_formed [of "concat chunks"] pending_bound [of "concat chunks"] show ?thesis
    by (simp add: list_all_iff)
qed

text \<open>
  Well-formed output is not altered: if the bytes of the tokens together are the UTF-8 form of
  some scalar values, however they are cut, exactly these bytes are published and nothing is
  left pending.
\<close>

theorem utf8_roundtrip:
  assumes "concat chunks = utf8_text cps" and "list_all scalar cps"
  shows "decode_chunks [] chunks = (utf8_text cps, [])"
  using decode_chunks_pending [of "[]" chunks] assms consume_utf8_text [of cps]
  by (simp add: list_all_iff)

theorem utf8_roundtrip_witness:
  "decode_chunks [] [take 2 (utf8_text [0x41, 0x20ac, 0x1f600]), drop 2 (utf8_text [0x41, 0x20ac, 0x1f600])] =
    (utf8_text [0x41, 0x20ac, 0x1f600], [])"
  by (rule utf8_roundtrip) (simp_all add: scalar_def)

end
