(* ===== verification/OutputSession.thy ===== *)
theory OutputSession
  imports Utf8Stream ToolOutput Scheduler
begin

text \<open>
  The output session of one request, \<open>models/qwen3_5/frontend/output_session.cpp\<close>: token bytes are
  decoded, split into the reasoning and the content channel at the closing think tag, searched for stop
  strings, and published in deltas; a round is previewed and then committed.

  The tokenizer is a parameter: \<open>decode t\<close> is the byte string of a token and whether it is special. It is
  total: at load time the vocabulary is checked to be a contiguous range of ids, and generated ids lie in it.
  The counters of decoded bytes and tokens are natural numbers (they are bounded by the length of the
  output). \<open>PublishedOutput\<close> is a list of at most two deltas; \<open>push_back\<close> on a full one throws.
  A \<open>StopMatch*\<close> argument is an option, \<open>None\<close> for the null pointer, and the updated match is
  part of the result. The tokens of the thinking control are present whenever a budget is
  (\<open>frontend.cpp\<close> passes them); \<open>None\<close> stands for the null pointer.
\<close>

section \<open>Channels and stop strings\<close>

datatype channel = Content | Reasoning

type_synonym token = u32
type_synonym published = "(channel \<times> string) list"

record stop_string =
  st_text :: string
  st_channel :: channel
  st_include_in_output :: bool

record stop_policy =
  sp_token_ids :: "token list"
  sp_strings :: "stop_string list"
  sp_include_model_defaults :: bool
  sp_publish_stop_token :: bool

definition kThinkClose :: string where "kThinkClose = ''</think>''"

definition push_back :: "published \<Rightarrow> channel \<times> string \<Rightarrow> published res" where
  "push_back output delta = (if length output = 2 then Inl LogicError else Inr (output @ [delta]))"

definition append_delta :: "published \<Rightarrow> channel \<Rightarrow> string \<Rightarrow> published res" where
  "append_delta output ch s =
    (if s = [] then Inr output
     else if output \<noteq> [] \<and> fst (last output) = ch
     then Inr (butlast output @ [(ch, snd (last output) @ s)])
     else push_back output (ch, s))"

fun suffix_prefix_loop :: "string \<Rightarrow> string \<Rightarrow> bool \<Rightarrow> nat \<Rightarrow> nat" where
  "suffix_prefix_loop s marker allow_complete 0 = 0"
| "suffix_prefix_loop s marker allow_complete (Suc n) =
    (if \<not> allow_complete \<and> Suc n = length marker then suffix_prefix_loop s marker allow_complete n
     else if drop (length s - Suc n) s = take (Suc n) marker then Suc n
     else suffix_prefix_loop s marker allow_complete n)"

definition longest_suffix_prefix :: "string \<Rightarrow> string \<Rightarrow> bool \<Rightarrow> nat" where
  "longest_suffix_prefix s marker allow_complete =
    suffix_prefix_loop s marker allow_complete (min (length s) (length marker))"

record decoder_state =
  ds_utf8_pending :: string
  ds_think_marker_pending :: string
  ds_stop_pending :: "channel \<Rightarrow> string"
  ds_in_reasoning :: bool
  ds_strip_content_leading :: bool
  ds_terminal :: bool
  ds_decoded_bytes :: nat
  ds_reasoning_tokens :: nat
  ds_matched_stop_order :: "nat option"

record stop_match =
  sm_found :: bool
  sm_committed_tokens :: nat
  sm_byte_cut :: nat
  sm_declaration_order :: nat
  sm_output :: published

definition no_match :: stop_match where
  "no_match =
    \<lparr>sm_found = False, sm_committed_tokens = 0, sm_byte_cut = 0, sm_declaration_order = 0,
     sm_output = []\<rparr>"

definition stop_match_precedes :: "nat \<Rightarrow> nat \<Rightarrow> nat \<Rightarrow> stop_match \<Rightarrow> bool" where
  "stop_match_precedes committed byte_cut order current \<longleftrightarrow>
    (if \<not> sm_found current then True
     else if committed \<noteq> sm_committed_tokens current then committed < sm_committed_tokens current
     else if byte_cut \<noteq> sm_byte_cut current then byte_cut < sm_byte_cut current
     else order < sm_declaration_order current)"

definition stop_hold_size :: "string \<Rightarrow> channel \<Rightarrow> stop_policy \<Rightarrow> nat" where
  "stop_hold_size s ch policy =
    foldl (\<lambda>hold stop. if st_channel stop \<noteq> ch then hold
                       else max hold (longest_suffix_prefix s (st_text stop) False))
      0 (sp_strings policy)"

text \<open>The loop over the declared stop strings; \<open>k\<close> is the declaration order of the head.\<close>

fun match_stops ::
  "channel \<Rightarrow> string \<Rightarrow> nat \<Rightarrow> published \<Rightarrow> nat \<Rightarrow> nat \<Rightarrow> stop_string list \<Rightarrow> stop_match \<Rightarrow> stop_match res" where
  "match_stops ch combined start emitted committed k [] best = Inr best"
| "match_stops ch combined start emitted committed k (stop # stops) best =
    (if st_channel stop \<noteq> ch then match_stops ch combined start emitted committed (k + 1) stops best
     else case find_sub (st_text stop) combined of
       None \<Rightarrow> match_stops ch combined start emitted committed (k + 1) stops best
     | Some f \<Rightarrow>
         if \<not> stop_match_precedes committed (start + f) k best
         then match_stops ch combined start emitted committed (k + 1) stops best
         else
           rbind (append_delta emitted ch (take f combined)) (\<lambda>c.
           rbind (if st_include_in_output stop then append_delta c ch (st_text stop) else Inr c) (\<lambda>c'.
             match_stops ch combined start emitted committed (k + 1) stops
               \<lparr>sm_found = True, sm_committed_tokens = committed, sm_byte_cut = start + f,
                sm_declaration_order = k, sm_output = c'\<rparr>)))"

type_synonym feed_result = "decoder_state \<times> published \<times> stop_match option"

definition feed_channel ::
  "stop_policy \<Rightarrow> nat \<Rightarrow> channel \<Rightarrow> string \<Rightarrow> feed_result \<Rightarrow> feed_result res" where
  "feed_channel policy committed ch s fr =
    (case fr of (st, emitted, best) \<Rightarrow>
     if s = [] then Inr (st, emitted, best)
     else
       let combined = ds_stop_pending st ch @ s;
           start = ds_decoded_bytes st - length (ds_stop_pending st ch) in
       rbind (case best of
                None \<Rightarrow> Inr None
              | Some b \<Rightarrow>
                  rbind (match_stops ch combined start emitted committed 0 (sp_strings policy) b)
                    (\<lambda>b'. Inr (Some b'))) (\<lambda>best'.
       let hold = stop_hold_size combined ch policy in
       rbind (append_delta emitted ch (take (length combined - hold) combined)) (\<lambda>emitted'.
         Inr (st\<lparr>ds_stop_pending := (ds_stop_pending st)(ch := drop (length combined - hold) combined),
                 ds_decoded_bytes := ds_decoded_bytes st + length s\<rparr>, emitted', best'))))"

definition close_channel :: "channel \<Rightarrow> feed_result \<Rightarrow> feed_result res" where
  "close_channel ch fr =
    (case fr of (st, emitted, best) \<Rightarrow>
     rbind (append_delta emitted ch (ds_stop_pending st ch)) (\<lambda>emitted'.
       Inr (st\<lparr>ds_stop_pending := (ds_stop_pending st)(ch := [])\<rparr>, emitted', best)))"

text \<open>\<open>std::isspace\<close> in the C locale.\<close>

definition isspace :: "char \<Rightarrow> bool" where
  "isspace c \<longleftrightarrow> c = CHR '' '' \<or> (9::nat) \<le> of_char c \<and> of_char c \<le> (13::nat)"

definition feed_content ::
  "stop_policy \<Rightarrow> nat \<Rightarrow> string \<Rightarrow> feed_result \<Rightarrow> feed_result res" where
  "feed_content policy committed s fr =
    (case fr of (st, emitted, best) \<Rightarrow>
     let s' = (if ds_strip_content_leading st then dropWhile isspace s else s);
         st' = (if ds_strip_content_leading st \<and> s' \<noteq> [] then st\<lparr>ds_strip_content_leading := False\<rparr> else st)
     in feed_channel policy committed Content s' (st', emitted, best))"

definition feed_decoded_text ::
  "stop_policy \<Rightarrow> nat \<Rightarrow> string \<Rightarrow> feed_result \<Rightarrow> feed_result res" where
  "feed_decoded_text policy committed s fr =
    (case fr of (st, emitted, best) \<Rightarrow>
     if \<not> ds_in_reasoning st then feed_content policy committed s fr
     else
       let pending = ds_think_marker_pending st @ s in
       case find_sub kThinkClose pending of
         Some marker \<Rightarrow>
           rbind (feed_channel policy committed Reasoning (take marker pending)
                    (st\<lparr>ds_think_marker_pending := pending\<rparr>, emitted, best)) (\<lambda>fr1.
           rbind (close_channel Reasoning fr1) (\<lambda>(st2, emitted2, best2).
             feed_content policy committed (drop (marker + length kThinkClose) pending)
               (st2\<lparr>ds_think_marker_pending := [], ds_in_reasoning := False,
                    ds_strip_content_leading := True\<rparr>, emitted2, best2)))
       | None \<Rightarrow>
           let safe = length pending - longest_suffix_prefix pending kThinkClose True in
           rbind (feed_channel policy committed Reasoning (take safe pending)
                    (st\<lparr>ds_think_marker_pending := pending\<rparr>, emitted, best)) (\<lambda>(st1, emitted1, best1).
             Inr (st1\<lparr>ds_think_marker_pending := drop safe pending\<rparr>, emitted1, best1)))"

definition feed_token_bytes ::
  "stop_policy \<Rightarrow> nat \<Rightarrow> string \<Rightarrow> feed_result \<Rightarrow> feed_result res" where
  "feed_token_bytes policy committed bs fr =
    (case fr of (st, emitted, best) \<Rightarrow>
     let (s, pending) = consume_generated_utf8 (ds_utf8_pending st @ bs)
     in feed_decoded_text policy committed s (st\<lparr>ds_utf8_pending := pending\<rparr>, emitted, best))"

definition terminalize ::
  "stop_policy \<Rightarrow> nat \<Rightarrow> decoder_state \<times> published \<Rightarrow> (decoder_state \<times> published) res" where
  "terminalize policy committed se =
    (case se of (st, emitted) \<Rightarrow>
     rbind (if ds_utf8_pending st \<noteq> []
            then feed_decoded_text policy committed kUtf8Replacement
                   (st\<lparr>ds_utf8_pending := []\<rparr>, emitted, None)
            else Inr (st, emitted, None)) (\<lambda>(st1, emitted1, b1).
     rbind (if ds_in_reasoning st1
            then rbind (feed_channel policy committed Reasoning (ds_think_marker_pending st1)
                          (st1, emitted1, None)) (\<lambda>(st2, emitted2, b2).
                 close_channel Reasoning (st2\<lparr>ds_think_marker_pending := []\<rparr>, emitted2, None))
            else close_channel Content (st1, emitted1, None)) (\<lambda>(st3, emitted3, b3).
       Inr (st3\<lparr>ds_stop_pending := (\<lambda>ch. []), ds_terminal := True\<rparr>, emitted3))))"

definition terminal_state :: "decoder_state \<Rightarrow> decoder_state" where
  "terminal_state st =
    st\<lparr>ds_utf8_pending := [], ds_think_marker_pending := [], ds_stop_pending := (\<lambda>ch. []),
       ds_terminal := True\<rparr>"

section \<open>Thinking budget and prefix boundary\<close>

record thinking =
  th_budget :: "nat option"
  th_close_pending :: string
  th_model_thinking_tokens :: nat
  th_injected_tokens :: nat
  th_in_reasoning :: bool
  th_control_pending :: bool
  th_applied :: bool

definition feed_semantic_thinking :: "thinking \<Rightarrow> string \<Rightarrow> thinking" where
  "feed_semantic_thinking th bs =
    (if \<not> th_in_reasoning th \<or> bs = [] then th
     else
       let pending = th_close_pending th @ bs in
       if find_sub kThinkClose pending \<noteq> None
       then th\<lparr>th_close_pending := [], th_in_reasoning := False, th_control_pending := False\<rparr>
       else
         let hold = longest_suffix_prefix pending kThinkClose True
         in th\<lparr>th_close_pending := drop (length pending - hold) pending\<rparr>)"

definition kBoundary :: string where
  "kBoundary = [CHR 0x0A] @ ''</think>'' @ [CHR 0x0A, CHR 0x0A]"

text \<open>\<open>while (matched != 0 && byte != pattern[matched]) matched = failure[matched - 1]\<close>, on fuel.\<close>

fun fall_back :: "nat \<Rightarrow> string \<Rightarrow> nat list \<Rightarrow> char \<Rightarrow> nat \<Rightarrow> nat" where
  "fall_back 0 pattern failure b matched = matched"
| "fall_back (Suc n) pattern failure b matched =
    (if matched \<noteq> 0 \<and> b \<noteq> pattern ! matched
     then fall_back n pattern failure b (failure ! (matched - 1)) else matched)"

fun failure_loop :: "string \<Rightarrow> nat list \<Rightarrow> nat \<Rightarrow> nat list" where
  "failure_loop pattern failure 0 = failure"
| "failure_loop pattern failure (Suc n) =
    (let index = length failure;
         matched = fall_back (length pattern) pattern failure (pattern ! index) (last failure);
         matched = (if pattern ! index = pattern ! matched then matched + 1 else matched)
     in failure_loop pattern (failure @ [matched]) n)"

definition make_prefix_failure_table :: "string \<Rightarrow> nat list" where
  "make_prefix_failure_table pattern = failure_loop pattern [0] (length pattern - 1)"

definition kFailure :: "nat list" where
  "kFailure = make_prefix_failure_table kBoundary"

record prefix_tracker =
  pt_matched :: nat
  pt_tracking :: bool

text \<open>The offset after the first completed boundary, counted from the bytes already scanned.\<close>

fun tracker_loop :: "prefix_tracker \<Rightarrow> string \<Rightarrow> nat \<Rightarrow> nat option \<times> prefix_tracker" where
  "tracker_loop t [] offset = (None, t)"
| "tracker_loop t (b # bs) offset =
    (let matched = fall_back (length kBoundary) kBoundary kFailure b (pt_matched t);
         matched = (if b = kBoundary ! matched then matched + 1 else matched)
     in if matched \<noteq> length kBoundary then tracker_loop (t\<lparr>pt_matched := matched\<rparr>) bs (offset + 1)
        else (Some (offset + 1), \<lparr>pt_matched = 0, pt_tracking = False\<rparr>))"

definition tracker_feed :: "prefix_tracker \<Rightarrow> string \<Rightarrow> nat option \<times> prefix_tracker" where
  "tracker_feed t bs = (if \<not> pt_tracking t then (None, t) else tracker_loop t bs 0)"

section \<open>Sessions\<close>

datatype continuation = Decode | ApplyTargetControl

record decision =
  de_accepted_tokens :: nat
  de_finish_reason :: finish_reason
  de_continuation :: continuation
  de_prefix_execution_split_after :: "nat option"

text \<open>What a preview works on: the copies of the three trackers, the split and the output.\<close>

record preview =
  pv_state :: decoder_state
  pv_semantic :: thinking
  pv_prefix :: prefix_tracker
  pv_split_after :: "nat option"
  pv_output :: published

record session =
  se_policy :: stop_policy
  se_thinking_control_tokens :: "token list option"
  se_preserve_special :: bool
  se_split_reasoning :: bool
  se_state :: decoder_state
  se_semantic :: thinking
  se_prefix :: prefix_tracker
  se_preview :: preview
  se_tool_call_output :: decoder
  se_tool_calls :: "generated_call list"
  se_tool_call_parse :: diagnostics
  se_preview_ready :: bool

definition initial_state :: "bool \<Rightarrow> decoder_state" where
  "initial_state reasoning =
    \<lparr>ds_utf8_pending = [], ds_think_marker_pending = [], ds_stop_pending = (\<lambda>ch. []),
     ds_in_reasoning = reasoning, ds_strip_content_leading = False, ds_terminal = False,
     ds_decoded_bytes = 0, ds_reasoning_tokens = 0, ds_matched_stop_order = None\<rparr>"

definition make_session ::
  "stop_policy \<Rightarrow> bool \<Rightarrow> bool \<Rightarrow> nat \<Rightarrow> bool \<Rightarrow> nat option \<Rightarrow> token list option \<Rightarrow>
   output_contract option \<Rightarrow> session res" where
  "make_session policy raw preserve_special_tokens tool_name_max_length starts_in_reasoning budget
     control_tokens contract =
    (if budget = Some 0 then Inl InvalidArgument
     else
       let split = (starts_in_reasoning \<and> \<not> raw);
           st = initial_state split;
           th = \<lparr>th_budget = budget, th_close_pending = [], th_model_thinking_tokens = 0,
                 th_injected_tokens = 0, th_in_reasoning = (starts_in_reasoning \<and> budget \<noteq> None),
                 th_control_pending = False, th_applied = False\<rparr>;
           pt = \<lparr>pt_matched = 0, pt_tracking = starts_in_reasoning\<rparr>
       in Inr \<lparr>se_policy = policy, se_thinking_control_tokens = control_tokens,
               se_preserve_special = (raw \<or> preserve_special_tokens), se_split_reasoning = split,
               se_state = st, se_semantic = th, se_prefix = pt,
               se_preview = \<lparr>pv_state = initial_state False, pv_semantic = th, pv_prefix = pt,
                             pv_split_after = None, pv_output = []\<rparr>,
               se_tool_call_output = make_decoder (if raw then None else contract) tool_name_max_length,
               se_tool_calls = [], se_tool_call_parse = no_diagnostics, se_preview_ready = False\<rparr>)"

definition begin_preview :: "session \<Rightarrow> preview" where
  "begin_preview s =
    \<lparr>pv_state = se_state s, pv_semantic = se_semantic s, pv_prefix = se_prefix s,
     pv_split_after = None, pv_output = []\<rparr>"

text \<open>The lambda \<open>complete\<close> of \<open>preview_model\<close>.\<close>

definition complete_preview ::
  "session \<Rightarrow> preview \<Rightarrow> nat \<Rightarrow> finish_reason \<Rightarrow> continuation \<Rightarrow> (decision \<times> session) res" where
  "complete_preview s pv count reason cont =
    (let pv = (if reason \<noteq> FinishNone
               then pv\<lparr>pv_semantic := (pv_semantic pv)\<lparr>th_control_pending := False\<rparr>\<rparr> else pv)
     in if (case pv_split_after pv of None \<Rightarrow> False | Some n \<Rightarrow> n > count) then Inl LogicError
        else Inr (\<lparr>de_accepted_tokens = count, de_finish_reason = reason, de_continuation = cont,
                   de_prefix_execution_split_after = pv_split_after pv\<rparr>,
                  s\<lparr>se_preview := pv, se_preview_ready := True\<rparr>))"

text \<open>What happens to a token before its bytes are presented.\<close>

definition note_token :: "preview \<Rightarrow> nat \<Rightarrow> string \<Rightarrow> preview res" where
  "note_token pv count bs =
    (let (boundary, pt) = tracker_feed (pv_prefix pv) bs;
         pv = pv\<lparr>pv_prefix := pt,
                 pv_split_after := (if boundary = Some (length bs) then Some count else pv_split_after pv)\<rparr>;
         pv = (if ds_in_reasoning (pv_state pv)
               then pv\<lparr>pv_state := (pv_state pv)\<lparr>ds_reasoning_tokens := ds_reasoning_tokens (pv_state pv) + 1\<rparr>\<rparr>
               else pv)
     in if \<not> th_in_reasoning (pv_semantic pv) then Inr pv
        else
          let th = (pv_semantic pv)\<lparr>th_model_thinking_tokens := th_model_thinking_tokens (pv_semantic pv) + 1\<rparr>
          in if (case th_budget th of None \<Rightarrow> False | Some b \<Rightarrow> th_model_thinking_tokens th > b)
             then Inl LogicError
             else Inr (pv\<lparr>pv_semantic := feed_semantic_thinking th bs\<rparr>))"

fun preview_loop ::
  "(token \<Rightarrow> string \<times> bool) \<Rightarrow> session \<Rightarrow> nat \<Rightarrow> finish_reason \<Rightarrow> nat \<Rightarrow> token list \<Rightarrow> preview \<Rightarrow>
   (decision \<times> session) res" where
  "preview_loop decode s budget limit_reason count [] pv =
    (if count = budget
     then rbind (terminalize (se_policy s) count (pv_state pv, pv_output pv)) (\<lambda>(st, out).
            complete_preview s (pv\<lparr>pv_state := st, pv_output := out\<rparr>) count limit_reason Decode)
     else if th_in_reasoning (pv_semantic pv) \<and>
             th_budget (pv_semantic pv) = Some (th_model_thinking_tokens (pv_semantic pv))
     then complete_preview s (pv\<lparr>pv_semantic := (pv_semantic pv)\<lparr>th_control_pending := True\<rparr>\<rparr>) count
            FinishNone ApplyTargetControl
     else complete_preview s pv count FinishNone Decode)"
| "preview_loop decode s budget limit_reason count (token # tokens) pv =
    (case decode token of (bs, special) \<Rightarrow>
     rbind (note_token pv (count + 1) bs) (\<lambda>pv1.
     let stop_token = (token \<in> set (sp_token_ids (se_policy s)));
         bs' = (if \<not> se_preserve_special s \<and> special then [] else bs)
     in rbind (feed_token_bytes (se_policy s) (count + 1) bs' (pv_state pv1, pv_output pv1, Some no_match))
          (\<lambda>(st2, out2, m).
            (case m of
               Some b \<Rightarrow>
                 if sm_found b
                 then complete_preview s
                        (pv1\<lparr>pv_state := (terminal_state st2)\<lparr>ds_matched_stop_order := Some (sm_declaration_order b)\<rparr>,
                             pv_output := sm_output b\<rparr>)
                        (sm_committed_tokens b) StopString Decode
                 else if stop_token
                 then rbind (terminalize (se_policy s) (count + 1)
                               (if sp_publish_stop_token (se_policy s) then (st2, out2)
                                else (pv_state pv1, pv_output pv1))) (\<lambda>(st3, out3).
                        complete_preview s (pv1\<lparr>pv_state := st3, pv_output := out3\<rparr>) (count + 1)
                          StopToken Decode)
                 else preview_loop decode s budget limit_reason (count + 1) tokens
                        (pv1\<lparr>pv_state := st2, pv_output := out2\<rparr>)
             | None \<Rightarrow> Inl LogicError))))"

text \<open>
  The last branch above is the null pointer, which the call does not pass. A preview that throws
  leaves the session as it was, apart from the scratch copies, which the next preview overwrites.
\<close>

definition preview_model ::
  "(token \<Rightarrow> string \<times> bool) \<Rightarrow> token list \<Rightarrow> nat \<Rightarrow> finish_reason \<Rightarrow> session \<Rightarrow> (decision \<times> session) res" where
  "preview_model decode tokens total_budget_remaining limit_reason s =
    (if ds_terminal (se_state s) then Inl LogicError
     else if se_preview_ready s then Inl LogicError
     else if th_control_pending (se_semantic s) then Inl LogicError
     else if tokens = [] then Inl InvalidArgument
     else if length tokens > total_budget_remaining then Inl InvalidArgument
     else if limit_reason \<noteq> OutputLimit \<and> limit_reason \<noteq> ContextCapacity then Inl InvalidArgument
     else preview_loop decode s total_budget_remaining limit_reason 0 tokens (begin_preview s))"

definition model_token_budget_remaining :: "nat \<Rightarrow> session \<Rightarrow> nat" where
  "model_token_budget_remaining total_budget_remaining s =
    (let th = se_semantic s in
     case th_budget th of
       None \<Rightarrow> total_budget_remaining
     | Some b \<Rightarrow>
         if \<not> th_in_reasoning th \<or> th_applied th then total_budget_remaining
         else if th_control_pending th \<or> th_model_thinking_tokens th \<ge> b then 0
         else min total_budget_remaining (b - th_model_thinking_tokens th))"

definition pending_control_tokens :: "session \<Rightarrow> token list" where
  "pending_control_tokens s =
    (if \<not> th_control_pending (se_semantic s) then []
     else case se_thinking_control_tokens s of None \<Rightarrow> [] | Some ts \<Rightarrow> ts)"

fun control_loop ::
  "(token \<Rightarrow> string \<times> bool) \<Rightarrow> session \<Rightarrow> nat \<Rightarrow> token list \<Rightarrow> preview \<Rightarrow> preview res" where
  "control_loop decode s index [] pv = Inr pv"
| "control_loop decode s index (token # tokens) pv =
    (case decode token of (bs, special) \<Rightarrow>
     let (boundary, pt) = tracker_feed (pv_prefix pv) bs;
         st = pv_state pv;
         st1 = (if ds_in_reasoning st then st\<lparr>ds_reasoning_tokens := ds_reasoning_tokens st + 1\<rparr> else st);
         bs' = (if \<not> se_preserve_special s \<and> special then [] else bs)
     in rbind (feed_token_bytes (se_policy s) (index + 1) bs' (st1, pv_output pv, None)) (\<lambda>(st2, out2, b2).
          control_loop decode s (index + 1) tokens
            (pv\<lparr>pv_prefix := pt,
                pv_split_after := (if boundary = Some (length bs) then Some (index + 1) else pv_split_after pv),
                pv_semantic := feed_semantic_thinking (pv_semantic pv) bs,
                pv_state := st2, pv_output := out2\<rparr>)))"

definition preview_control ::
  "(token \<Rightarrow> string \<times> bool) \<Rightarrow> token list \<Rightarrow> nat \<Rightarrow> session \<Rightarrow> (decision \<times> session) res" where
  "preview_control decode tokens total_budget_remaining s =
    (if ds_terminal (se_state s) then Inl LogicError
     else if se_preview_ready s then Inl LogicError
     else if pending_control_tokens s = [] \<or> tokens \<noteq> pending_control_tokens s then Inl InvalidArgument
     else if length tokens > total_budget_remaining then Inl InvalidArgument
     else
       rbind (control_loop decode s 0 tokens (begin_preview s)) (\<lambda>pv.
         if th_in_reasoning (pv_semantic pv) then Inl LogicError
         else if se_split_reasoning s \<and> ds_in_reasoning (pv_state pv) then Inl LogicError
         else
           let th = (pv_semantic pv)\<lparr>th_control_pending := False, th_applied := True,
                                     th_injected_tokens := length tokens\<rparr>
           in Inr (\<lparr>de_accepted_tokens = length tokens, de_finish_reason = FinishNone,
                    de_continuation = Decode, de_prefix_execution_split_after = pv_split_after pv\<rparr>,
                   s\<lparr>se_preview := pv\<lparr>pv_semantic := th\<rparr>, se_preview_ready := True\<rparr>)))"

definition validate_generation_capacity :: "nat \<Rightarrow> session \<Rightarrow> unit res" where
  "validate_generation_capacity effective_output_tokens s =
    (case th_budget (se_semantic s) of
       None \<Rightarrow> Inr ()
     | Some b \<Rightarrow>
         if \<not> th_in_reasoning (se_semantic s) \<or> effective_output_tokens \<le> b then Inr ()
         else if effective_output_tokens - b <
                 (case se_thinking_control_tokens s of None \<Rightarrow> 0 | Some ts \<Rightarrow> length ts) + 1
         then Inl InvalidArgument else Inr ())"

definition preview_terminal :: "finish_reason \<Rightarrow> session \<Rightarrow> (decision \<times> session) res" where
  "preview_terminal reason s =
    (if ds_terminal (se_state s) then Inl LogicError
     else if se_preview_ready s then Inl LogicError
     else if reason = FinishNone \<or> reason = StopString \<or> reason = StopToken then Inl InvalidArgument
     else
       let pv = begin_preview s;
           pv = pv\<lparr>pv_semantic := (pv_semantic pv)\<lparr>th_control_pending := False\<rparr>\<rparr>
       in rbind (terminalize (se_policy s) 0 (pv_state pv, pv_output pv)) (\<lambda>(st, out).
            Inr (\<lparr>de_accepted_tokens = 0, de_finish_reason = reason, de_continuation = Decode,
                  de_prefix_execution_split_after = None\<rparr>,
                 s\<lparr>se_preview := pv\<lparr>pv_state := st, pv_output := out\<rparr>, se_preview_ready := True\<rparr>)))"

text \<open>
  \<open>commit_preview\<close>: the content deltas pass through the tool-call decoder. The code swaps the states
  before it calls the decoder, so a decoder that throws would leave them swapped; the result here is the
  exception alone. It is thrown only after \<open>finish\<close>, which no run reaches.
\<close>

fun decode_deltas :: "published \<Rightarrow> decoder \<Rightarrow> (published \<times> decoder) res" where
  "decode_deltas [] d = Inr ([], d)"
| "decode_deltas ((ch, t) # ds) d =
    (if ch = Content
     then rbind (decoder_feed d t) (\<lambda>(v, d').
            rbind (decode_deltas ds d') (\<lambda>(ds', d''). Inr ((ch, v) # ds', d'')))
     else rbind (decode_deltas ds d) (\<lambda>(ds', d''). Inr ((ch, t) # ds', d'')))"

text \<open>The terminal content goes to the last content delta, or to a new one.\<close>

fun append_content :: "published \<Rightarrow> string \<Rightarrow> published option" where
  "append_content [] t = None"
| "append_content ((ch, x) # ds) t =
    (case append_content ds t of
       Some ds' \<Rightarrow> Some ((ch, x) # ds')
     | None \<Rightarrow> if ch = Content then Some ((ch, x @ t) # ds) else None)"

definition commit_preview :: "json_lib \<Rightarrow> session \<Rightarrow> (published \<times> session) res" where
  "commit_preview J s =
    (if \<not> se_preview_ready s then Inl Terminate
     else
       let pv = se_preview s;
           s1 = s\<lparr>se_state := pv_state pv, se_semantic := pv_semantic pv, se_prefix := pv_prefix pv,
                  se_preview := pv\<lparr>pv_state := se_state s, pv_semantic := se_semantic s,
                                  pv_prefix := se_prefix s, pv_output := []\<rparr>,
                  se_preview_ready := False\<rparr>
       in rbind (decode_deltas (pv_output pv) (se_tool_call_output s)) (\<lambda>(out, d).
            if \<not> ds_terminal (se_state s1) then Inr (out, s1\<lparr>se_tool_call_output := d\<rparr>)
            else rbind (decoder_finish J d) (\<lambda>(t, d').
              let s2 = s1\<lparr>se_tool_call_output := d', se_tool_calls := tm_tool_calls t,
                          se_tool_call_parse := tm_diagnostics t\<rparr>
              in if tm_content t = [] then Inr (out, s2)
                 else case append_content out (tm_content t) of
                   Some out' \<Rightarrow> Inr (out', s2)
                 | None \<Rightarrow>
                     rbind (push_back out (Content, tm_content t)) (\<lambda>out'. Inr (out', s2)))))"

definition matched_stop_string :: "session \<Rightarrow> string option res" where
  "matched_stop_string s =
    (case ds_matched_stop_order (se_state s) of
       None \<Rightarrow> Inr None
     | Some index \<Rightarrow>
         if index \<ge> length (sp_strings (se_policy s)) then Inl LogicError
         else Inr (Some (st_text (sp_strings (se_policy s) ! index))))"

definition reasoning_tokens :: "session \<Rightarrow> nat" where
  "reasoning_tokens s = ds_reasoning_tokens (se_state s)"

record thinking_budget_stats =
  tb_configured_budget :: "nat option"
  tb_model_thinking_tokens :: nat
  tb_injected_tokens :: nat
  tb_applied :: bool

definition thinking_stats :: "session \<Rightarrow> thinking_budget_stats" where
  "thinking_stats s =
    \<lparr>tb_configured_budget = th_budget (se_semantic s),
     tb_model_thinking_tokens = th_model_thinking_tokens (se_semantic s),
     tb_injected_tokens = th_injected_tokens (se_semantic s), tb_applied = th_applied (se_semantic s)\<rparr>"

definition tool_call_parse_diagnostics :: "session \<Rightarrow> diagnostics" where
  "tool_call_parse_diagnostics s = se_tool_call_parse s"

definition take_tool_calls :: "session \<Rightarrow> generated_call list \<times> session" where
  "take_tool_calls s = (se_tool_calls s, s\<lparr>se_tool_calls := []\<rparr>)"

section \<open>The frontend's side\<close>

text \<open>
  \<open>models/qwen3_5/frontend/frontend.cpp\<close>: the stop policy and the control suffix of a session.
  Of the tokenizer, \<open>decode\<close>, \<open>enc\<close> (its encoder), \<open>is_valid_token\<close> and the default stop tokens are
  arguments, and \<open>valid_text\<close> says whether the Unicode library accepts a byte string as UTF-8.
\<close>

definition kThinkingControl :: string where
  "kThinkingControl =
    [CHR 0x0A, CHR 0x0A] @
    '' Considering the limited time by the user, I have to give the solution based on the thinking directly now.'' @
    [CHR 0x0A] @ ''</think>'' @ [CHR 0x0A, CHR 0x0A]"

definition shown :: "bool \<Rightarrow> string \<times> bool \<Rightarrow> string" where
  "shown preserve d = (if \<not> preserve \<and> snd d then [] else fst d)"

definition token_bytes :: "(token \<Rightarrow> string \<times> bool) \<Rightarrow> bool \<Rightarrow> token list \<Rightarrow> string" where
  "token_bytes decode preserve tokens = concat (map (\<lambda>t. shown preserve (decode t)) tokens)"

text \<open>\<open>Tokenizer::decode\<close> without stop tokens.\<close>

definition tokenizer_decode ::
  "(string \<Rightarrow> bool) \<Rightarrow> (token \<Rightarrow> string \<times> bool) \<Rightarrow> bool \<Rightarrow> token list \<Rightarrow> string res" where
  "tokenizer_decode valid_text decode skip_special_tokens ids =
    (let s = token_bytes decode (\<not> skip_special_tokens) ids
     in if valid_text s then Inr s else Inl InvalidArgument)"

definition make_thinking_control ::
  "(string \<Rightarrow> bool) \<Rightarrow> (string \<Rightarrow> token list) \<Rightarrow> (token \<Rightarrow> string \<times> bool) \<Rightarrow> token list \<Rightarrow> token list res" where
  "make_thinking_control valid_text enc decode default_stops =
    (let encoded = enc kThinkingControl in
     if encoded = [] then Inl InvalidArgument
     else rbind (tokenizer_decode valid_text decode False encoded) (\<lambda>exact.
       rbind (tokenizer_decode valid_text decode True encoded) (\<lambda>presented.
         if exact \<noteq> kThinkingControl \<or> find_sub kThinkClose presented = None then Inl InvalidArgument
         else if \<exists>token\<in>set encoded. token \<in> set default_stops then Inl InvalidArgument
         else Inr encoded)))"

definition append_token :: "(token \<Rightarrow> bool) \<Rightarrow> token \<Rightarrow> token list \<Rightarrow> token list res" where
  "append_token is_valid_token token ids =
    (if \<not> is_valid_token token then Inl InvalidArgument
     else Inr (if token \<in> set ids then ids else ids @ [token]))"

definition append_stop :: "(string \<Rightarrow> bool) \<Rightarrow> stop_string \<Rightarrow> stop_string list \<Rightarrow> stop_string list res" where
  "append_stop valid_text stop strings =
    (if st_text stop = [] then Inl InvalidArgument
     else if \<not> valid_text (st_text stop) then Inl InvalidArgument
     else Inr (if stop \<in> set strings then strings else strings @ [stop]))"

definition merge_stop_policy ::
  "(string \<Rightarrow> bool) \<Rightarrow> (token \<Rightarrow> bool) \<Rightarrow> token list \<Rightarrow> stop_policy \<Rightarrow> stop_policy res" where
  "merge_stop_policy valid_text is_valid_token default_stops caller =
    rbind (if sp_include_model_defaults caller then rfold (append_token is_valid_token) default_stops []
           else Inr []) (\<lambda>ids.
    rbind (rfold (append_token is_valid_token) (sp_token_ids caller) ids) (\<lambda>ids.
    rbind (rfold (append_stop valid_text) (sp_strings caller) []) (\<lambda>strings.
      Inr \<lparr>sp_token_ids = ids, sp_strings = strings, sp_include_model_defaults = True,
           sp_publish_stop_token = sp_publish_stop_token caller\<rparr>)))"

text \<open>
  \<open>prompt\<close> is what the session needs of the prepared prompt, \<open>None\<close> for an empty one: whether it
  ends in an open think tag, and the tool-call contract.
\<close>

definition make_output_session ::
  "(string \<Rightarrow> bool) \<Rightarrow> (token \<Rightarrow> bool) \<Rightarrow> token list \<Rightarrow> token list \<Rightarrow>
   (bool \<times> output_contract option) option \<Rightarrow> stop_policy \<Rightarrow> bool \<Rightarrow> bool \<Rightarrow> nat \<Rightarrow> nat option \<Rightarrow> session res" where
  "make_output_session valid_text is_valid_token default_stops control_tokens prompt caller_stop
     raw preserve_special_tokens tool_name_max_length budget =
    (case prompt of
       None \<Rightarrow> Inl InvalidArgument
     | Some (starts_in_reasoning, contract) \<Rightarrow>
         rbind (merge_stop_policy valid_text is_valid_token default_stops caller_stop) (\<lambda>policy.
           make_session (if raw then policy\<lparr>sp_publish_stop_token := True\<rparr> else policy) raw
             preserve_special_tokens tool_name_max_length starts_in_reasoning budget (Some control_tokens)
             contract))"

end
