(* ===== verification/StopStream.thy ===== *)
theory StopStream
  imports OutputSession
begin

text \<open>
  What the output session does to the text of a channel. The hold-back is the longest suffix of the
  text that a stop string of the channel could still complete, and it depends on the text alone and
  not on how the text was cut; stop strings are found exactly where they first occur in the whole
  text of the channel; and nothing but the hold-back is ever missing from what was published.
\<close>

section \<open>Suffixes that begin a marker\<close>

lemma suffix_prefix_loop_bound:
  "suffix_prefix_loop s m b n \<le> n"
  by (induction n) (auto intro: le_SucI)

lemma tail_eq_take:
  assumes "n \<le> length s" and "n \<le> length m"
  shows "drop (length s - n) s = take n m \<longleftrightarrow> suffix (take n m) s"
proof
  assume "suffix (take n m) s"
  then obtain u where "s = u @ take n m" by (auto simp: suffix_def)
  with assms show "drop (length s - n) s = take n m" by simp
qed (metis suffix_drop)

lemma suffix_prefix_loop_suffix:
  assumes "n \<le> length s" and "n \<le> length m"
  shows "suffix (take (suffix_prefix_loop s m b n) m) s"
  using assms by (induction n) (auto simp: tail_eq_take)

lemma suffix_prefix_loop_proper:
  assumes "\<not> b" and "m \<noteq> []" and "n \<le> length m"
  shows "suffix_prefix_loop s m b n < length m"
  using assms by (induction n) auto

lemma suffix_prefix_loop_max:
  assumes "n \<le> length s" and "n \<le> length m" and "i \<le> n" and "b \<or> i < length m" and "suffix (take i m) s"
  shows "i \<le> suffix_prefix_loop s m b n"
  using assms
proof (induction n)
  case (Suc n)
  then show ?case
    by (cases "i = Suc n") (auto simp: tail_eq_take)
qed auto

lemma lsp_suffix: "suffix (take (longest_suffix_prefix s m b) m) s"
  and lsp_proper: "\<not> b \<Longrightarrow> m \<noteq> [] \<Longrightarrow> longest_suffix_prefix s m b < length m"
  and lsp_le_text: "longest_suffix_prefix s m b \<le> length s"
  and lsp_le_marker: "longest_suffix_prefix s m b \<le> length m"
  using suffix_prefix_loop_suffix [of "min (length s) (length m)" s m b]
    suffix_prefix_loop_proper [of b m "min (length s) (length m)" s]
    suffix_prefix_loop_bound [of s m b "min (length s) (length m)"]
  by (auto simp: longest_suffix_prefix_def)

lemma lsp_max:
  assumes "suffix (take i m) s" and "i \<le> length m" and "b \<or> i < length m"
  shows "i \<le> longest_suffix_prefix s m b"
proof -
  have "i \<le> min (length s) (length m)" using assms suffix_length_le by fastforce
  then show ?thesis
    unfolding longest_suffix_prefix_def by (intro suffix_prefix_loop_max) (use assms in auto)
qed

lemma lsp_eqI:
  assumes "\<And>i. i \<le> length m \<Longrightarrow> b \<or> i < length m \<Longrightarrow> suffix (take i m) s \<longleftrightarrow> suffix (take i m) s'"
    and "m \<noteq> []"
  shows "longest_suffix_prefix s m b = longest_suffix_prefix s' m b"
proof (rule antisym)
  have "b \<or> longest_suffix_prefix s m b < length m" "b \<or> longest_suffix_prefix s' m b < length m"
    using lsp_proper assms(2) by blast+
  with assms(1) lsp_suffix [of s m b] lsp_suffix [of s' m b] lsp_le_marker
  show "longest_suffix_prefix s m b \<le> longest_suffix_prefix s' m b"
    and "longest_suffix_prefix s' m b \<le> longest_suffix_prefix s m b"
    by (auto intro!: lsp_max)
qed

text \<open>
  \<open>covers t X h\<close>: the last \<open>h\<close> characters of \<open>X\<close> hold every beginning of \<open>t\<close> at the end of \<open>X\<close>.
\<close>

definition covers :: "string \<Rightarrow> string \<Rightarrow> nat \<Rightarrow> bool" where
  "covers t X h \<longleftrightarrow> h \<le> length X \<and> (\<forall>i<length t. suffix (take i t) X \<longrightarrow> i \<le> h)"

abbreviation tail_of :: "nat \<Rightarrow> string \<Rightarrow> string" where
  "tail_of h X \<equiv> drop (length X - h) X"

lemma suffix_of_append:
  "suffix v (X @ s) \<longleftrightarrow> suffix v s \<or> (\<exists>u. v = u @ s \<and> suffix u X)"
  by (auto simp: suffix_append)

lemma suffix_take_len:
  assumes "take i t = u @ s" and "i \<le> length t"
  shows "u = take (i - length s) t" and "i - length s \<le> i"
  using assms by (metis append_eq_conv_conj length_append length_take min.absorb2 add_diff_cancel_right' take_take min.absorb1 diff_le_self) simp

lemma suffix_tail:
  assumes "suffix u X" and "length u \<le> h"
  shows "suffix u (tail_of h X)"
  using assms suffix_length_le
  by (auto simp: suffix_def) 

lemma suffix_covered:
  assumes "covers t X h" and "i \<le> length t" and "i < length t \<or> s \<noteq> [] \<and> t \<noteq> []"
  shows "suffix (take i t) (tail_of h X @ s) \<longleftrightarrow> suffix (take i t) (X @ s)"
proof
  assume "suffix (take i t) (tail_of h X @ s)"
  moreover have "suffix (tail_of h X @ s) (X @ s)"
    by (metis append_take_drop_id suffixI append.assoc)
  ultimately show "suffix (take i t) (X @ s)" by (rule suffix_order.order_trans)
next
  assume "suffix (take i t) (X @ s)"
  then consider "suffix (take i t) s" | u where "take i t = u @ s" "suffix u X"
    by (auto simp: suffix_of_append)
  then show "suffix (take i t) (tail_of h X @ s)"
  proof cases
    case 2
    let ?j = "i - length s"
    have u: "u = take ?j t" using suffix_take_len [OF 2(1) assms(2)] by simp
    have "?j < length t" using assms(2,3) by (cases s; cases t) auto
    with assms(1) 2(2) u have "?j \<le> h" by (simp add: covers_def)
    then have "length u \<le> h" using u by simp
    from suffix_tail [OF 2(2) this] 2(1) show ?thesis by (simp add: suffix_of_append)
  qed (simp add: suffix_of_append)
qed

text \<open>Looking for a marker in what is held and the new text is looking for it in the whole text.\<close>

lemma occurrence_straddles:
  assumes "\<not> sublist t X" and "prefix t (drop k (X @ s))" and "t \<noteq> []" and "k < length X"
  shows "suffix (take (length X - k) t) X" and "length X - k < length t"
proof -
  from assms(2,4) obtain v where v: "drop k X @ s = t @ v" by (auto simp: prefix_def)
  have "\<not> length t \<le> length X - k"
  proof
    assume le: "length t \<le> length X - k"
    then have "prefix t (drop k X)" using v
      by (metis length_drop prefix_append prefix_length_prefix prefixI prefix_order.refl)
    then have "sublist t X" by (metis prefix_imp_sublist sublist_drop sublist_order.order_trans)
    with assms(1) show False by simp
  qed
  then show "length X - k < length t" by simp
  then have "drop k X = take (length X - k) t" using v
    by (metis append_eq_conv_conj length_drop less_imp_le_nat take_append take_all_iff diff_is_0_eq take0 append_Nil2)
  then show "suffix (take (length X - k) t) X" by (metis suffix_drop)
qed

lemma occurrence_not_before:
  assumes "\<not> sublist t X" and "covers t X h" and "prefix t (drop k (X @ s))" and "t \<noteq> []"
  shows "length X - h \<le> k"
proof (cases "k < length X")
  case True
  from occurrence_straddles [OF assms(1,3,4) True] assms(2) have "length X - k \<le> h"
    by (simp add: covers_def)
  then show ?thesis by simp
qed simp

lemma find_sub_held:
  assumes "\<not> sublist t X" and "covers t X h" and "t \<noteq> []"
  shows "find_sub t (X @ s) = map_option ((+) (length X - h)) (find_sub t (tail_of h X @ s))"
proof -
  let ?a = "length X - h"
  have drop_eq: "drop k (tail_of h X @ s) = drop (?a + k) (X @ s)" for k
  proof -
    have "X @ s = take ?a X @ (tail_of h X @ s)" by simp
    then have "drop (?a + k) (X @ s) = drop k (drop ?a (take ?a X @ (tail_of h X @ s)))"
      by (metis drop_drop add.commute)
    also have "drop ?a (take ?a X @ (tail_of h X @ s)) = tail_of h X @ s" by simp
    finally show ?thesis by simp
  qed
  note late = occurrence_not_before [OF assms(1,2) _ assms(3)]
  show ?thesis
  proof (cases "find_sub t (tail_of h X @ s)")
    case (Some f)
    then have f: "f \<le> length (tail_of h X @ s)" "prefix t (drop (?a + f) (X @ s))"
      "\<And>m. m < f \<Longrightarrow> \<not> prefix t (drop (?a + m) (X @ s))"
      unfolding find_sub_Some_iff drop_eq by blast+
    have "\<not> prefix t (drop m (X @ s))" if "m < ?a + f" for m
      using late [of m s] f(3) [of "m - ?a"] that by (cases "?a \<le> m") auto
    with f(1,2) have "find_sub t (X @ s) = Some (?a + f)" by (simp add: find_sub_Some_iff)
    with Some show ?thesis by simp
  next
    case None
    then have none: "\<And>n. n \<le> length (tail_of h X @ s) \<Longrightarrow> \<not> prefix t (drop (?a + n) (X @ s))"
      unfolding find_sub_None_iff drop_eq by blast
    have "\<not> prefix t (drop m (X @ s))" if "m \<le> length (X @ s)" for m
      using late [of m s] none [of "m - ?a"] that by (cases "?a \<le> m") auto
    then have "find_sub t (X @ s) = None" unfolding find_sub_None_iff by blast
    with None show ?thesis by simp
  qed
qed

lemma lsp_held:
  assumes "covers t X h" and "t \<noteq> []" and "b \<Longrightarrow> \<not> sublist t (X @ s)"
  shows "longest_suffix_prefix (tail_of h X @ s) t b = longest_suffix_prefix (X @ s) t b"
proof (rule lsp_eqI)
  fix i assume i: "i \<le> length t" "b \<or> i < length t"
  show "suffix (take i t) (tail_of h X @ s) \<longleftrightarrow> suffix (take i t) (X @ s)"
  proof (cases "i < length t")
    case True
    then show ?thesis using suffix_covered [OF assms(1) i(1)] by simp
  next
    case False
    with i have "take i t = t" "b" by auto
    moreover have "suffix (tail_of h X @ s) (X @ s)"
      by (metis append_take_drop_id suffixI append.assoc)
    ultimately show ?thesis using assms(3)
      by (metis suffix_imp_sublist suffix_order.order_trans)
  qed
qed fact

lemma lsp_covers: "t \<noteq> [] \<Longrightarrow> longest_suffix_prefix X t b \<le> h \<Longrightarrow> h \<le> length X \<Longrightarrow> covers t X h"
  unfolding covers_def using lsp_max [of _ t X b] by (meson less_imp_le_nat order_trans)

lemma find_sub_append: "find_sub t D = Some k \<Longrightarrow> find_sub t (D @ s) = Some k"
proof -
  assume *: "find_sub t D = Some k"
  note k = find_sub_split [OF *]
  have "prefix t (drop m D)" if "m < k" and p: "prefix t (drop m (D @ s))" for m
  proof -
    from k(2) that have "length t \<le> length (drop m D)" by simp
    with p show ?thesis using k(2) that
      by (metis drop_append prefix_append prefix_length_prefix prefixI prefix_order.refl)
  qed
  then have "\<forall>m<k. \<not> prefix t (drop m (D @ s))" using * by (auto simp: find_sub_Some_iff)
  moreover have "prefix t (drop k (D @ s))" using * k(2) by (auto simp: find_sub_Some_iff)
  ultimately show ?thesis using k(2) by (simp add: find_sub_Some_iff)
qed

section \<open>The hold-back of a channel\<close>

definition stops_ok :: "stop_policy \<Rightarrow> bool" where
  "stops_ok policy \<longleftrightarrow> (\<forall>stop\<in>set (sp_strings policy). st_text stop \<noteq> [])"

definition held :: "stop_policy \<Rightarrow> channel \<Rightarrow> string \<Rightarrow> string" where
  "held policy ch X = tail_of (stop_hold_size X ch policy) X"

definition visible :: "stop_policy \<Rightarrow> channel \<Rightarrow> string \<Rightarrow> string" where
  "visible policy ch X = take (length X - stop_hold_size X ch policy) X"

text \<open>No stop string of the channel occurs in the text.\<close>

definition clean :: "stop_policy \<Rightarrow> channel \<Rightarrow> string \<Rightarrow> bool" where
  "clean policy ch X \<longleftrightarrow>
    (\<forall>stop\<in>set (sp_strings policy). st_channel stop = ch \<longrightarrow> \<not> sublist (st_text stop) X)"

lemma visible_held [simp]: "visible policy ch X @ held policy ch X = X"
  by (simp add: visible_def held_def)

lemma foldl_hold:
  "foldl (\<lambda>h stop. if st_channel stop \<noteq> ch then h else max h (f stop)) a stops =
    Max (insert a (f ` {stop \<in> set stops. st_channel stop = ch}))"
proof (induction stops arbitrary: a)
  case (Cons stop stops)
  let ?S = "f ` {stop \<in> set stops. st_channel stop = ch}"
  have fin: "finite (insert x ?S)" for x by simp
  show ?case
  proof (cases "st_channel stop = ch")
    case True
    then have "f ` {s \<in> set (stop # stops). st_channel s = ch} = insert (f stop) ?S" by auto
    with True Cons show ?thesis by (cases "?S = {}") (simp_all add: max.assoc)
  next
    case False
    then have "f ` {s \<in> set (stop # stops). st_channel s = ch} = ?S" by auto
    with False Cons show ?thesis by simp
  qed
qed simp

lemma stop_hold_size_Max:
  "stop_hold_size X ch policy =
    Max (insert 0 ((\<lambda>stop. longest_suffix_prefix X (st_text stop) False) `
      {stop \<in> set (sp_strings policy). st_channel stop = ch}))"
  unfolding stop_hold_size_def by (rule foldl_hold)

lemma stop_hold_ge:
  "stop \<in> set (sp_strings policy) \<Longrightarrow> st_channel stop = ch \<Longrightarrow>
    longest_suffix_prefix X (st_text stop) False \<le> stop_hold_size X ch policy"
  unfolding stop_hold_size_Max by (rule Max_ge) auto

lemma stop_hold_le_length: "stop_hold_size X ch policy \<le> length X"
  unfolding stop_hold_size_Max by (rule Max.boundedI) (auto simp: lsp_le_text)

lemma stop_hold_covers:
  assumes "stops_ok policy" and "stop \<in> set (sp_strings policy)" and "st_channel stop = ch"
  shows "covers (st_text stop) X (stop_hold_size X ch policy)"
  using assms stop_hold_ge stop_hold_le_length
  by (intro lsp_covers [where b = False]) (auto simp: stops_ok_def)

lemma stop_hold_held:
  assumes "stops_ok policy"
  shows "stop_hold_size (held policy ch X @ s) ch policy = stop_hold_size (X @ s) ch policy"
proof -
  have "longest_suffix_prefix (held policy ch X @ s) (st_text stop) False =
      longest_suffix_prefix (X @ s) (st_text stop) False"
    if "stop \<in> set (sp_strings policy)" "st_channel stop = ch" for stop
    unfolding held_def using stop_hold_covers [OF assms that] assms that
    by (intro lsp_held) (auto simp: stops_ok_def)
  then show ?thesis unfolding stop_hold_size_Max by (auto intro!: arg_cong [where f = Max])
qed

text \<open>One more piece of text: what is held afterwards, and what is published now.\<close>

lemma held_step:
  assumes "stops_ok policy"
  shows "tail_of (stop_hold_size (held policy ch X @ s) ch policy) (held policy ch X @ s) = held policy ch (X @ s)"
    and "visible policy ch X @
      take (length (held policy ch X @ s) - stop_hold_size (held policy ch X @ s) ch policy) (held policy ch X @ s) =
      visible policy ch (X @ s)"
proof -
  let ?c = "held policy ch X @ s"
  let ?h = "stop_hold_size (X @ s) ch policy"
  have len: "?h \<le> length ?c" using stop_hold_le_length [of ?c ch policy] by (simp add: stop_hold_held [OF assms])
  have X: "X @ s = visible policy ch X @ ?c" by (metis append.assoc visible_held)
  from len have "length (X @ s) - ?h = length (visible policy ch X) + (length ?c - ?h)"
    unfolding X by simp
  then show "tail_of (stop_hold_size ?c ch policy) ?c = held policy ch (X @ s)"
    and "visible policy ch X @ take (length ?c - stop_hold_size ?c ch policy) ?c = visible policy ch (X @ s)"
    unfolding held_def [of _ _ "X @ s"] visible_def [of _ _ "X @ s"] stop_hold_held [OF assms]
    by (simp_all only: X drop_append take_append) simp_all
qed

lemma held_Nil [simp]: "held policy ch [] = []" and visible_Nil [simp]: "visible policy ch [] = []"
  by (simp_all add: held_def visible_def)

section \<open>What may be shown of a channel\<close>

text \<open>
  The specification of the hold-back, without the loops of the code: the longest ending of a text
  with a property, the endings that begin a stop string of the channel and do not complete it, and
  the text without the longest of them.
\<close>

definition longest_ending :: "(nat \<Rightarrow> bool) \<Rightarrow> string \<Rightarrow> nat" where
  "longest_ending P X = Max (set (filter P [0 ..< Suc (length X)]))"

definition could_continue :: "stop_policy \<Rightarrow> channel \<Rightarrow> string \<Rightarrow> nat \<Rightarrow> bool" where
  "could_continue policy ch X n \<longleftrightarrow>
    n = 0 \<or> (\<exists>stop\<in>set (sp_strings policy).
      st_channel stop = ch \<and> n < length (st_text stop) \<and> suffix (take n (st_text stop)) X)"

definition streamable :: "stop_policy \<Rightarrow> channel \<Rightarrow> string \<Rightarrow> string" where
  "streamable policy ch X = take (length X - longest_ending (could_continue policy ch X) X) X"

lemma longest_ending_eqI:
  assumes "P n" and "n \<le> length X" and "\<And>i. P i \<Longrightarrow> i \<le> length X \<Longrightarrow> i \<le> n"
  shows "longest_ending P X = n"
proof -
  have e: "set (filter P [0 ..< Suc (length X)]) = {i. P i \<and> i \<le> length X}" by (auto simp: less_Suc_eq_le simp del: upt_Suc)
  have "finite {i. P i \<and> i \<le> length X}" by (rule finite_subset [of _ "{..length X}"]) auto
  then show ?thesis unfolding longest_ending_def e by (rule Max_eqI) (use assms in auto)
qed

lemma stop_hold_size_longest:
  assumes "stops_ok policy"
  shows "longest_ending (could_continue policy ch X) X = stop_hold_size X ch policy"
proof (rule longest_ending_eqI [OF _ stop_hold_le_length])
  let ?L = "\<lambda>stop. longest_suffix_prefix X (st_text stop) False"
  have "stop_hold_size X ch policy \<in> insert 0 (?L ` {stop \<in> set (sp_strings policy). st_channel stop = ch})"
    unfolding stop_hold_size_Max by (rule Max_in) simp_all
  then consider "stop_hold_size X ch policy = 0"
    | stop where "stop \<in> set (sp_strings policy)" "st_channel stop = ch" "stop_hold_size X ch policy = ?L stop"
    by auto
  then show "could_continue policy ch X (stop_hold_size X ch policy)"
  proof cases
    case 2
    moreover have "?L stop < length (st_text stop)" using assms 2(1) by (intro lsp_proper) (auto simp: stops_ok_def)
    ultimately show ?thesis unfolding could_continue_def using lsp_suffix by metis
  qed (simp add: could_continue_def)
next
  fix i assume i: "could_continue policy ch X i"
  show "i \<le> stop_hold_size X ch policy"
  proof (cases "i = 0")
    case False
    with i obtain stop where s: "stop \<in> set (sp_strings policy)" "st_channel stop = ch"
      "i < length (st_text stop)" "suffix (take i (st_text stop)) X"
      unfolding could_continue_def by blast
    from lsp_max [OF s(4), of False] s(3) have "i \<le> longest_suffix_prefix X (st_text stop) False" by simp
    also have "\<dots> \<le> stop_hold_size X ch policy" by (rule stop_hold_ge [OF s(1,2)])
    finally show ?thesis .
  qed simp
qed

lemma visible_streamable: "stops_ok policy \<Longrightarrow> visible policy ch X = streamable policy ch X"
  by (simp add: visible_def streamable_def stop_hold_size_longest)

section \<open>Deltas and stop matches\<close>

definition text_of :: "channel \<Rightarrow> published \<Rightarrow> string" where
  "text_of ch out = concat (map snd (filter (\<lambda>d. fst d = ch) out))"

text \<open>Output that takes a delta of the channel without exceeding the two deltas of a round.\<close>

fun accepts :: "channel \<Rightarrow> published \<Rightarrow> bool" where
  "accepts Reasoning out \<longleftrightarrow> map fst out \<in> {[], [Reasoning]}"
| "accepts Content out \<longleftrightarrow> map fst out \<in> {[], [Reasoning], [Content], [Reasoning, Content]}"

lemma text_of_simps [simp]:
  "text_of ch [] = []"
  "text_of ch (a @ b) = text_of ch a @ text_of ch b"
  "text_of ch ((c, t) # out) = (if c = ch then t else []) @ text_of ch out"
  by (simp_all add: text_of_def)

lemma accepts_Content: "accepts ch out \<Longrightarrow> accepts Content out"
  by (cases ch) auto

lemma accepts_Nil [simp]: "accepts ch []"
  by (cases ch) auto

lemma map_fst_eq [simp]:
  "map fst out = [c] \<longleftrightarrow> (\<exists>t. out = [(c, t)])"
  "map fst out = [c, d] \<longleftrightarrow> (\<exists>t u. out = [(c, t), (d, u)])"
  by (auto simp: map_eq_Cons_conv)

lemma append_delta_ok:
  assumes "accepts ch out"
  obtains out' where "append_delta out ch s = Inr out'" and "accepts ch out'"
    and "\<And>c. text_of c out' = text_of c out @ (if c = ch then s else [])"
proof -
  have "\<exists>out'. append_delta out ch s = Inr out' \<and> accepts ch out' \<and>
      (\<forall>c. text_of c out' = text_of c out @ (if c = ch then s else []))"
  proof (cases "s = []")
    case True
    then show ?thesis using assms by (simp add: append_delta_def)
  next
    case False
    then show ?thesis using assms by (cases ch) (auto simp: append_delta_def push_back_def)
  qed
  then show ?thesis using that by blast
qed

definition stop_at :: "stop_policy \<Rightarrow> channel \<Rightarrow> string \<Rightarrow> nat \<Rightarrow> nat \<Rightarrow> bool" where
  "stop_at policy ch X n k \<longleftrightarrow>
    k < length (sp_strings policy) \<and> st_channel (sp_strings policy ! k) = ch \<and>
    find_sub (st_text (sp_strings policy ! k)) X = Some n"

text \<open>The earliest stop string in the text; of two at the same place the one declared first.\<close>

definition earliest_below :: "nat \<Rightarrow> stop_policy \<Rightarrow> channel \<Rightarrow> string \<Rightarrow> nat \<Rightarrow> nat \<Rightarrow> bool" where
  "earliest_below K policy ch X n k \<longleftrightarrow>
    k < K \<and> stop_at policy ch X n k \<and>
    (\<forall>n' k'. k' < K \<and> stop_at policy ch X n' k' \<longrightarrow> n < n' \<or> n = n' \<and> k \<le> k')"

definition earliest_stop :: "stop_policy \<Rightarrow> channel \<Rightarrow> string \<Rightarrow> nat \<Rightarrow> nat \<Rightarrow> bool" where
  "earliest_stop policy ch X n k \<longleftrightarrow>
    stop_at policy ch X n k \<and>
    (\<forall>n' k'. stop_at policy ch X n' k' \<longrightarrow> n < n' \<or> n = n' \<and> k \<le> k')"

definition stop_suffix :: "stop_policy \<Rightarrow> nat \<Rightarrow> string" where
  "stop_suffix policy k =
    (if st_include_in_output (sp_strings policy ! k) then st_text (sp_strings policy ! k) else [])"

definition reports ::
  "stop_policy \<Rightarrow> channel \<Rightarrow> string \<Rightarrow> nat \<Rightarrow> published \<Rightarrow> nat \<Rightarrow> stop_match \<Rightarrow> nat \<Rightarrow> nat \<Rightarrow> bool" where
  "reports policy ch X start em c b n k \<longleftrightarrow>
    sm_found b \<and> sm_committed_tokens b = c \<and> sm_byte_cut b = start + n \<and> sm_declaration_order b = k \<and>
    accepts ch (sm_output b) \<and>
    (\<forall>d. text_of d (sm_output b) = text_of d em @ (if d = ch then take n X @ stop_suffix policy k else []))"

definition best_below ::
  "nat \<Rightarrow> stop_policy \<Rightarrow> channel \<Rightarrow> string \<Rightarrow> nat \<Rightarrow> published \<Rightarrow> nat \<Rightarrow> stop_match \<Rightarrow> bool" where
  "best_below K policy ch X start em c b \<longleftrightarrow>
    b = no_match \<and> (\<forall>n k. k < K \<longrightarrow> \<not> stop_at policy ch X n k) \<or>
    (\<exists>n k. earliest_below K policy ch X n k \<and> reports policy ch X start em c b n k)"

lemma clean_iff: "clean policy ch X \<longleftrightarrow> (\<forall>n k. \<not> stop_at policy ch X n k)"
proof -
  have "clean policy ch X \<longleftrightarrow> (\<forall>k<length (sp_strings policy). st_channel (sp_strings policy ! k) = ch \<longrightarrow>
      find_sub (st_text (sp_strings policy ! k)) X = None)"
    by (auto simp: clean_def find_sub_None_sublist all_set_conv_all_nth)
  also have "\<dots> \<longleftrightarrow> (\<forall>n k. \<not> stop_at policy ch X n k)"
    unfolding stop_at_def by (metis not_None_eq)
  finally show ?thesis .
qed

lemma earliest_below_all: "earliest_below (length (sp_strings policy)) policy ch X n k \<longleftrightarrow> earliest_stop policy ch X n k"
  by (auto simp: earliest_below_def earliest_stop_def stop_at_def)

lemma best_below_skip:
  assumes "best_below K policy ch X start em c b" and "\<forall>n. \<not> stop_at policy ch X n K"
  shows "best_below (K + 1) policy ch X start em c b"
proof -
  have "earliest_below (K + 1) policy ch X n k \<longleftrightarrow> earliest_below K policy ch X n k" for n k
    using assms(2) by (auto simp: earliest_below_def less_Suc_eq)
  with assms show ?thesis by (auto simp: best_below_def less_Suc_eq)
qed

lemma best_below_keep:
  assumes "best_below K policy ch X start em c b" and "stop_at policy ch X f K"
    and "\<not> stop_match_precedes c (start + f) K b"
  shows "best_below (K + 1) policy ch X start em c b"
proof -
  from assms(1,3) obtain n k where nk: "earliest_below K policy ch X n k" "reports policy ch X start em c b n k"
    by (auto simp: best_below_def stop_match_precedes_def no_match_def)
  from nk(2) assms(3) have "n < f \<or> n = f \<and> k \<le> K"
    by (auto simp: reports_def stop_match_precedes_def split: if_splits)
  then have "earliest_below (K + 1) policy ch X n k"
    using nk(1) assms(2) by (auto simp: earliest_below_def stop_at_def less_Suc_eq)
  with nk(2) show ?thesis unfolding best_below_def by blast
qed

lemma best_below_take:
  assumes "best_below K policy ch X start em c b" and "stop_at policy ch X f K"
    and "stop_match_precedes c (start + f) K b"
    and "reports policy ch X start em c b' f K"
  shows "best_below (K + 1) policy ch X start em c b'"
proof -
  have "f < n' \<or> f = n' \<and> K \<le> k'" if k': "k' < K + 1" "stop_at policy ch X n' k'" for n' k'
  proof (cases "k' = K")
    case True
    then show ?thesis using that assms(2) by (simp add: stop_at_def)
  next
    case False
    with k' assms(1) obtain n k where nk: "earliest_below K policy ch X n k" "reports policy ch X start em c b n k"
      by (auto simp: best_below_def)
    from nk(2) assms(3) have "f < n \<or> f = n \<and> K < k"
      by (auto simp: reports_def stop_match_precedes_def split: if_splits)
    moreover have "k < K" "n < n' \<or> n = n' \<and> k \<le> k'" using nk(1) k' False by (auto simp: earliest_below_def)
    ultimately show ?thesis by auto
  qed
  then have "earliest_below (K + 1) policy ch X f K" using assms(2) by (simp add: earliest_below_def)
  with assms(4) show ?thesis unfolding best_below_def by blast
qed

lemma match_stops_best:
  assumes "accepts ch em" and "drop K (sp_strings policy) = stops" and "K \<le> length (sp_strings policy)"
    and "best_below K policy ch X start em c b"
  shows "\<exists>b'. match_stops ch X start em c K stops b = Inr b' \<and>
    best_below (length (sp_strings policy)) policy ch X start em c b'"
  using assms(2-)
proof (induction stops arbitrary: K b)
  case Nil
  then show ?case by simp
next
  case (Cons stop stops)
  from Cons.prems(1) have K: "K < length (sp_strings policy)" by (metis drop_all list.distinct(1) not_le_imp_less)
  then have stop: "sp_strings policy ! K = stop" and rest: "drop (K + 1) (sp_strings policy) = stops"
    using Cons.prems(1) by (metis Cons_nth_drop_Suc list.inject, metis Cons_nth_drop_Suc list.inject Suc_eq_plus1)
  note IH = Cons.IH [OF rest]
  show ?case
  proof (cases "st_channel stop = ch")
    case False
    then have "\<forall>n. \<not> stop_at policy ch X n K" by (simp add: stop_at_def stop)
    from IH [OF _ best_below_skip [OF Cons.prems(3) this]] K False show ?thesis by simp
  next
    case ch: True
    show ?thesis
    proof (cases "find_sub (st_text stop) X")
      case None
      then have "\<forall>n. \<not> stop_at policy ch X n K" by (simp add: stop_at_def stop)
      from IH [OF _ best_below_skip [OF Cons.prems(3) this]] K ch None show ?thesis by simp
    next
      case (Some f)
      then have at: "stop_at policy ch X f K" using ch K by (simp add: stop_at_def stop)
      show ?thesis
      proof (cases "stop_match_precedes c (start + f) K b")
        case False
        from IH [OF _ best_below_keep [OF Cons.prems(3) at False]] K ch Some False show ?thesis by simp
      next
        case True
        obtain d where d: "append_delta em ch (take f X) = Inr d" "accepts ch d"
          "\<And>e. text_of e d = text_of e em @ (if e = ch then take f X else [])"
          using append_delta_ok [OF assms(1)] by metis
        obtain d' where d': "(if st_include_in_output stop then append_delta d ch (st_text stop) else Inr d) = Inr d'"
          "accepts ch d'" "\<And>e. text_of e d' = text_of e d @ (if e = ch then stop_suffix policy K else [])"
        proof (cases "st_include_in_output stop")
          case True
          then show ?thesis using append_delta_ok [OF d(2), of "st_text stop"] that
            by (metis stop_suffix_def stop)
        next
          case False
          then show ?thesis using that [of d] d(2) by (simp add: stop_suffix_def stop)
        qed
        let ?b = "\<lparr>sm_found = True, sm_committed_tokens = c, sm_byte_cut = start + f,
                   sm_declaration_order = K, sm_output = d'\<rparr>"
        have "reports policy ch X start em c ?b f K" using d'(2,3) d(3) by (simp add: reports_def)
        from IH [OF _ best_below_take [OF Cons.prems(3) at True this]] K ch Some True d(1) d'(1)
        show ?thesis by (simp add: rbind_def)
      qed
    qed
  qed
qed

section \<open>Feeding a channel\<close>

lemma stop_at_held:
  assumes "stops_ok policy" and "clean policy ch X"
  shows "stop_at policy ch (X @ s) n k \<longleftrightarrow>
    (\<exists>f. n = length (visible policy ch X) + f \<and> stop_at policy ch (held policy ch X @ s) f k)"
proof (cases "k < length (sp_strings policy) \<and> st_channel (sp_strings policy ! k) = ch")
  case True
  let ?stop = "sp_strings policy ! k"
  have stop: "?stop \<in> set (sp_strings policy)" "st_channel ?stop = ch" using True by auto
  have "find_sub (st_text ?stop) (X @ s) =
      map_option ((+) (length X - stop_hold_size X ch policy)) (find_sub (st_text ?stop) (held policy ch X @ s))"
    unfolding held_def using assms stop stop_hold_covers [OF assms(1) stop]
    by (intro find_sub_held) (auto simp: clean_def stops_ok_def)
  then show ?thesis using True by (auto simp: stop_at_def visible_def)
qed (auto simp: stop_at_def)

lemma earliest_held:
  assumes "stops_ok policy" and "clean policy ch X"
    and "earliest_stop policy ch (held policy ch X @ s) f k"
  shows "earliest_stop policy ch (X @ s) (length (visible policy ch X) + f) k"
  using assms(3) unfolding earliest_stop_def stop_at_held [OF assms(1,2)] by (metis nat_add_left_cancel_less)

text \<open>
  \<open>P\<close> is what earlier rounds published, \<open>em\<close> what this round has published so far. The verdict on the
  text of a channel: it has no stop string and there is no match, or the match is the earliest one
  and its output ends in front of it (or behind it when the stop string is to be included).
\<close>

definition verdict ::
  "stop_policy \<Rightarrow> channel \<Rightarrow> string \<Rightarrow> nat \<Rightarrow> (channel \<Rightarrow> string) \<Rightarrow> published \<Rightarrow> nat \<Rightarrow> stop_match \<Rightarrow> bool" where
  "verdict policy ch X off P em c b \<longleftrightarrow>
    clean policy ch X \<and> b = no_match \<or>
    (\<exists>n k. earliest_stop policy ch X n k \<and> sm_found b \<and> sm_committed_tokens b = c \<and>
       sm_byte_cut b = off + n \<and> sm_declaration_order b = k \<and> accepts ch (sm_output b) \<and>
       P ch @ text_of ch (sm_output b) = take n X @ stop_suffix policy k \<and>
       (\<forall>d. d \<noteq> ch \<longrightarrow> text_of d (sm_output b) = text_of d em))"

lemma verdict_of_best:
  assumes "stops_ok policy" and "clean policy ch X" and "P ch @ text_of ch em = visible policy ch X"
    and "best_below (length (sp_strings policy)) policy ch (held policy ch X @ s) start em c b"
    and "start = off + length (visible policy ch X)"
  shows "verdict policy ch (X @ s) off P em c b"
proof (cases "b = no_match \<and> (\<forall>n k. \<not> stop_at policy ch (held policy ch X @ s) n k)")
  case True
  then have "clean policy ch (X @ s)" by (simp add: clean_iff stop_at_held [OF assms(1,2)])
  with True show ?thesis by (simp add: verdict_def)
next
  case False
  with assms(4) obtain f k where fk: "earliest_stop policy ch (held policy ch X @ s) f k"
    "reports policy ch (held policy ch X @ s) start em c b f k"
    by (auto simp: best_below_def earliest_below_all stop_at_def)
  have X: "X @ s = visible policy ch X @ (held policy ch X @ s)" by (metis append.assoc visible_held)
  have "P ch @ text_of ch (sm_output b) = take (length (visible policy ch X) + f) (X @ s) @ stop_suffix policy k"
    unfolding X using fk(2) by (simp add: reports_def flip: assms(3))
  moreover have "earliest_stop policy ch (X @ s) (length (visible policy ch X) + f) k"
    by (rule earliest_held [OF assms(1,2) fk(1)])
  ultimately show ?thesis using fk(2) assms(5) unfolding verdict_def reports_def
    by (intro disjI2 exI [where x = "length (visible policy ch X) + f"] exI [where x = k]) auto
qed

text \<open>A match that is already earlier stays.\<close>

lemma match_stops_later:
  assumes "sm_found b" and "sm_committed_tokens b = c" and "sm_byte_cut b < start"
  shows "match_stops ch X start em c K stops b = Inr b"
  using assms by (induction stops arbitrary: K) (auto simp: stop_match_precedes_def split: option.splits)

definition admissible :: "stop_policy \<Rightarrow> channel \<Rightarrow> string \<Rightarrow> nat \<Rightarrow> nat \<Rightarrow> stop_match option \<Rightarrow> bool" where
  "admissible policy ch X off c best \<longleftrightarrow>
    best = None \<or> best = Some no_match \<and> clean policy ch X \<or>
    (\<exists>b. best = Some b \<and> sm_found b \<and> sm_committed_tokens b = c \<and>
         sm_byte_cut b < off + length (visible policy ch X))"

text \<open>What becomes of the match: none without a search, a verdict from a fresh one, else unchanged.\<close>

definition settles ::
  "stop_policy \<Rightarrow> channel \<Rightarrow> string \<Rightarrow> nat \<Rightarrow> (channel \<Rightarrow> string) \<Rightarrow> published \<Rightarrow> nat \<Rightarrow>
   stop_match option \<Rightarrow> stop_match option \<Rightarrow> bool" where
  "settles policy ch X off P em c best best' \<longleftrightarrow>
    (if best = Some no_match then \<exists>b. best' = Some b \<and> verdict policy ch X off P em c b
     else best' = best)"

lemma match_settles:
  assumes "stops_ok policy" and "accepts ch em" and "P ch @ text_of ch em = visible policy ch X"
    and "admissible policy ch X off c best"
  obtains best' where
    "(case best of None \<Rightarrow> Inr None
      | Some b \<Rightarrow> rbind (match_stops ch (held policy ch X @ s) (off + length (visible policy ch X)) em c 0
                          (sp_strings policy) b) (\<lambda>b'. Inr (Some b'))) = Inr best'"
    and "settles policy ch (X @ s) off P em c best best'"
proof -
  let ?start = "off + length (visible policy ch X)"
  consider "best = None" | "best = Some no_match" "clean policy ch X"
    | b where "best = Some b" "sm_found b" "sm_committed_tokens b = c" "sm_byte_cut b < ?start"
    using assms(4) unfolding admissible_def by blast
  then show ?thesis
  proof cases
    case 1
    then show ?thesis using that [of None] by (simp add: settles_def)
  next
    case 2
    have init: "best_below 0 policy ch (held policy ch X @ s) ?start em c no_match" by (simp add: best_below_def)
    obtain b' where b': "match_stops ch (held policy ch X @ s) ?start em c 0 (sp_strings policy) no_match = Inr b'"
      "best_below (length (sp_strings policy)) policy ch (held policy ch X @ s) ?start em c b'"
      using match_stops_best [OF assms(2) drop_0 _ init] by auto
    have "verdict policy ch (X @ s) off P em c b'"
      by (rule verdict_of_best [where P = P, OF assms(1) 2(2) assms(3) b'(2) refl])
    with b'(1) 2(1) that [of "Some b'"] show ?thesis by (simp add: settles_def)
  next
    case 3
    then have "best \<noteq> Some no_match" by (auto simp: no_match_def)
    with match_stops_later [OF 3(2,3,4)] 3(1) that [of "Some b"] show ?thesis by (simp add: settles_def)
  qed
qed

lemma feed_channel_exact:
  assumes "stops_ok policy" and "ds_stop_pending st ch = held policy ch X" and "accepts ch em"
    and "P ch @ text_of ch em = visible policy ch X" and "ds_decoded_bytes st = off + length X"
    and "admissible policy ch X off c best"
  obtains em' best' where
    "feed_channel policy c ch s (st, em, best) =
      Inr (st\<lparr>ds_stop_pending := (ds_stop_pending st)(ch := held policy ch (X @ s)),
              ds_decoded_bytes := off + length (X @ s)\<rparr>, em', best')"
    and "accepts ch em'" and "P ch @ text_of ch em' = visible policy ch (X @ s)"
    and "\<And>d. d \<noteq> ch \<Longrightarrow> text_of d em' = text_of d em"
    and "settles policy ch (X @ s) off P em c best best'"
proof (cases "s = []")
  case True
  have "st\<lparr>ds_stop_pending := (ds_stop_pending st)(ch := held policy ch X), ds_decoded_bytes := off + length X\<rparr> = st"
    using assms(2,5) by (cases st) (auto simp: fun_upd_idem)
  moreover have "settles policy ch X off P em c best best"
    using assms(6) by (auto simp: admissible_def settles_def verdict_def no_match_def)
  ultimately show ?thesis using True assms(3,4) that [of em best] by (simp add: feed_channel_def)
next
  case False
  let ?c = "held policy ch X @ s"
  have len: "length X = length (visible policy ch X) + length (held policy ch X)"
    by (metis length_append visible_held)
  then have start: "ds_decoded_bytes st - length (ds_stop_pending st ch) = off + length (visible policy ch X)"
    using assms(2,5) by simp
  obtain w where w: "append_delta em ch (take (length ?c - stop_hold_size ?c ch policy) ?c) = Inr w"
    "accepts ch w" "\<And>d. text_of d w = text_of d em @
      (if d = ch then take (length ?c - stop_hold_size ?c ch policy) ?c else [])"
    using append_delta_ok [OF assms(3)] by metis
  have vis: "P ch @ text_of ch w = visible policy ch (X @ s)"
    using held_step(2) [OF assms(1), of ch X s] w(3) [of ch] assms(4) by (metis append.assoc)
  obtain best' where best':
    "(case best of None \<Rightarrow> Inr None
      | Some b \<Rightarrow> rbind (match_stops ch ?c (off + length (visible policy ch X)) em c 0
                          (sp_strings policy) b) (\<lambda>b'. Inr (Some b'))) = Inr best'"
    "settles policy ch (X @ s) off P em c best best'"
    by (rule match_settles [where s = s and P = P, OF assms(1,3,4,6)])
  have bytes: "ds_decoded_bytes st + length s = off + length (X @ s)" using assms(5) by simp
  have "feed_channel policy c ch s (st, em, best) =
      Inr (st\<lparr>ds_stop_pending := (ds_stop_pending st)(ch := held policy ch (X @ s)),
              ds_decoded_bytes := off + length (X @ s)\<rparr>, w, best')"
    unfolding feed_channel_def prod.case Let_def start
    by (simp only: bytes assms(2) best'(1) w(1) held_step(1) [OF assms(1)] rbind_simps False if_False)
  then show ?thesis using w(2) vis by (rule that) (simp_all add: w(3) best'(2))
qed

section \<open>The two channels of a text\<close>

text \<open>
  The reference: the text up to the closing think tag is reasoning and the text behind it, without
  its leading white space, is content. While the tag has not occurred, an ending that may become the
  tag belongs to neither.
\<close>

definition reasoning_text :: "bool \<Rightarrow> string \<Rightarrow> string" where
  "reasoning_text split D =
    (if \<not> split then []
     else case find_sub kThinkClose D of
       Some k \<Rightarrow> take k D
     | None \<Rightarrow> take (length D - longest_suffix_prefix D kThinkClose True) D)"

definition content_text :: "bool \<Rightarrow> string \<Rightarrow> string" where
  "content_text split D =
    (if \<not> split then D
     else case find_sub kThinkClose D of
       Some k \<Rightarrow> dropWhile isspace (drop (k + length kThinkClose) D)
     | None \<Rightarrow> [])"

text \<open>
  The reasoning so far, specified without the loop of the code: up to the closing tag, and as long as
  there is none without the longest ending that begins the tag.
\<close>

definition reasoning_so_far :: "bool \<Rightarrow> string \<Rightarrow> string" where
  "reasoning_so_far split D =
    (if \<not> split then []
     else case find_sub kThinkClose D of
       Some k \<Rightarrow> take k D
     | None \<Rightarrow>
         take (length D - longest_ending (\<lambda>n. n \<le> length kThinkClose \<and> suffix (take n kThinkClose) D) D) D)"

lemma reasoning_so_far_eq: "reasoning_so_far split D = reasoning_text split D"
proof -
  have "longest_ending (\<lambda>n. n \<le> length kThinkClose \<and> suffix (take n kThinkClose) D) D =
      longest_suffix_prefix D kThinkClose True"
    using lsp_max [of _ kThinkClose D True] by (intro longest_ending_eqI) (auto simp: lsp_suffix lsp_le_text lsp_le_marker)
  then show ?thesis unfolding reasoning_so_far_def reasoning_text_def by (simp only:)
qed

abbreviation reasoning_open :: "bool \<Rightarrow> string \<Rightarrow> bool" where
  "reasoning_open split D \<equiv> split \<and> find_sub kThinkClose D = None"

abbreviation think_pending :: "string \<Rightarrow> string" where
  "think_pending D \<equiv> tail_of (longest_suffix_prefix D kThinkClose True) D"

lemma kThinkClose_nonempty [simp]: "kThinkClose \<noteq> []"
  by (simp add: kThinkClose_def)

lemma think_covers:
  "find_sub kThinkClose D = None \<Longrightarrow> covers kThinkClose D (longest_suffix_prefix D kThinkClose True)"
  by (rule lsp_covers) (auto simp: lsp_le_text)

lemma reasoning_text_pending: "reasoning_open split D \<Longrightarrow> reasoning_text split D @ think_pending D = D"
  by (simp add: reasoning_text_def)

text \<open>The channels of a longer text, in the three situations the session distinguishes.\<close>

lemma channels_unsplit:
  "reasoning_text False D = []" "content_text False D = D"
  by (simp_all add: reasoning_text_def content_text_def)

lemma channels_closed:
  assumes "find_sub kThinkClose D = Some k"
  shows "reasoning_text True (D @ s) = reasoning_text True D"
    and "content_text True (D @ s) =
      content_text True D @ (if content_text True D = [] then dropWhile isspace s else s)"
proof -
  note k = find_sub_append [OF assms, of s] find_sub_split(2) [OF assms]
  show "reasoning_text True (D @ s) = reasoning_text True D"
    using assms k by (simp add: reasoning_text_def)
  let ?r = "drop (k + length kThinkClose) D"
  have "drop (k + length kThinkClose) (D @ s) = ?r @ s" using k(2) by simp
  then show "content_text True (D @ s) =
      content_text True D @ (if content_text True D = [] then dropWhile isspace s else s)"
    using assms k(1) by (auto simp: content_text_def dropWhile_append dropWhile_eq_Nil_conv)
qed

lemma channels_closing:
  assumes "find_sub kThinkClose D = None" and "find_sub kThinkClose (think_pending D @ s) = Some m"
  shows "find_sub kThinkClose (D @ s) \<noteq> None"
    and "reasoning_text True (D @ s) = reasoning_text True D @ take m (think_pending D @ s)"
    and "content_text True (D @ s) = dropWhile isspace (drop (m + length kThinkClose) (think_pending D @ s))"
proof -
  let ?p = "think_pending D @ s"
  have "\<not> sublist kThinkClose D" using assms(1) by (simp add: find_sub_None_sublist)
  from find_sub_held [OF this think_covers [OF assms(1)] kThinkClose_nonempty] assms(2)
  have f: "find_sub kThinkClose (D @ s) = Some (length (reasoning_text True D) + m)"
    using assms(1) by (simp add: reasoning_text_def)
  have D: "D @ s = reasoning_text True D @ ?p" using reasoning_text_pending [of True D] assms(1) by simp
  show "find_sub kThinkClose (D @ s) \<noteq> None" using f by simp
  show "reasoning_text True (D @ s) = reasoning_text True D @ take m ?p"
    unfolding reasoning_text_def [of True "D @ s"] f by (simp add: D)
  show "content_text True (D @ s) = dropWhile isspace (drop (m + length kThinkClose) ?p)"
    unfolding content_text_def f by (simp add: D)
qed

lemma channels_open:
  assumes "find_sub kThinkClose D = None" and "find_sub kThinkClose (think_pending D @ s) = None"
  shows "find_sub kThinkClose (D @ s) = None"
    and "longest_suffix_prefix (think_pending D @ s) kThinkClose True = longest_suffix_prefix (D @ s) kThinkClose True"
    and "reasoning_text True (D @ s) = reasoning_text True D @
      take (length (think_pending D @ s) - longest_suffix_prefix (think_pending D @ s) kThinkClose True)
        (think_pending D @ s)"
    and "tail_of (longest_suffix_prefix (think_pending D @ s) kThinkClose True) (think_pending D @ s) = think_pending (D @ s)"
proof -
  let ?p = "think_pending D @ s"
  have no: "\<not> sublist kThinkClose D" using assms(1) by (simp add: find_sub_None_sublist)
  from find_sub_held [OF no think_covers [OF assms(1)] kThinkClose_nonempty] assms(2)
  show none: "find_sub kThinkClose (D @ s) = None" by simp
  show h: "longest_suffix_prefix ?p kThinkClose True = longest_suffix_prefix (D @ s) kThinkClose True"
    by (rule lsp_held [OF think_covers [OF assms(1)]]) (use none in \<open>simp_all add: find_sub_None_sublist\<close>)
  have D: "D @ s = reasoning_text True D @ ?p" using reasoning_text_pending [of True D] assms(1) by simp
  have le: "longest_suffix_prefix (D @ s) kThinkClose True \<le> length ?p" using lsp_le_text [of ?p] by (simp add: h [symmetric] del: length_append)
  then have l: "length (D @ s) - longest_suffix_prefix (D @ s) kThinkClose True =
      length (reasoning_text True D) + (length ?p - longest_suffix_prefix (D @ s) kThinkClose True)"
    by (subst D) simp
  have "reasoning_text True (D @ s) = take (length (D @ s) - longest_suffix_prefix (D @ s) kThinkClose True) (D @ s)"
    using none by (simp add: reasoning_text_def)
  also have "\<dots> = reasoning_text True D @ take (length ?p - longest_suffix_prefix (D @ s) kThinkClose True) ?p"
    unfolding l by (subst D) simp
  finally show "reasoning_text True (D @ s) = reasoning_text True D @ take (length ?p - longest_suffix_prefix ?p kThinkClose True) ?p"
    by (simp only: h)
  show "tail_of (longest_suffix_prefix ?p kThinkClose True) ?p = think_pending (D @ s)"
    unfolding l h by (subst (3) D) simp
qed

section \<open>The state of the decoder\<close>

definition published_ok ::
  "stop_policy \<Rightarrow> bool \<Rightarrow> string \<Rightarrow> (channel \<Rightarrow> string) \<Rightarrow> published \<Rightarrow> bool" where
  "published_ok policy split D P em \<longleftrightarrow>
    accepts (if reasoning_open split D then Reasoning else Content) em \<and>
    P Content @ text_of Content em = visible policy Content (content_text split D) \<and>
    P Reasoning @ text_of Reasoning em =
      (if reasoning_open split D then visible policy Reasoning (reasoning_text split D) else reasoning_text split D)"

definition decoder_ok :: "stop_policy \<Rightarrow> bool \<Rightarrow> string \<Rightarrow> decoder_state \<Rightarrow> bool" where
  "decoder_ok policy split D st \<longleftrightarrow>
    ds_in_reasoning st = (reasoning_open split D) \<and>
    ds_think_marker_pending st = (if reasoning_open split D then think_pending D else []) \<and>
    ds_stop_pending st Content = held policy Content (content_text split D) \<and>
    ds_stop_pending st Reasoning =
      (if reasoning_open split D then held policy Reasoning (reasoning_text split D) else []) \<and>
    ds_strip_content_leading st = (split \<and> \<not> reasoning_open split D \<and> content_text split D = []) \<and>
    ds_decoded_bytes st = length (reasoning_text split D) + length (content_text split D)"

text \<open>The fields the presentation of text does not touch.\<close>

definition same_rest :: "decoder_state \<Rightarrow> decoder_state \<Rightarrow> bool" where
  "same_rest st st' \<longleftrightarrow>
    ds_utf8_pending st' = ds_utf8_pending st \<and> ds_terminal st' = ds_terminal st \<and>
    ds_reasoning_tokens st' = ds_reasoning_tokens st \<and> ds_matched_stop_order st' = ds_matched_stop_order st"

text \<open>
  The text of both channels is clean, or the first stop string of the session ends it. The reasoning
  text is concerned only while it is searched, that is, if reasoning was open before the text (the
  injected control text is not searched).
\<close>

definition stop_texts ::
  "bool \<Rightarrow> stop_policy \<Rightarrow> bool \<Rightarrow> string \<Rightarrow> string \<Rightarrow> string \<Rightarrow> nat \<Rightarrow> bool" where
  "stop_texts w policy split D R C k \<longleftrightarrow>
    (\<exists>n. w \<and> earliest_stop policy Reasoning (reasoning_text split D) n k \<and>
       R = take n (reasoning_text split D) @ stop_suffix policy k \<and> C = []) \<or>
    (\<exists>n. (w \<longrightarrow> clean policy Reasoning (reasoning_text split D)) \<and>
       earliest_stop policy Content (content_text split D) n k \<and>
       R = reasoning_text split D \<and> C = take n (content_text split D) @ stop_suffix policy k)"

definition stopped_at ::
  "bool \<Rightarrow> stop_policy \<Rightarrow> bool \<Rightarrow> string \<Rightarrow> (channel \<Rightarrow> string) \<Rightarrow> published \<Rightarrow> nat \<Rightarrow> bool" where
  "stopped_at w policy split D P out k \<longleftrightarrow>
    stop_texts w policy split D (P Reasoning @ text_of Reasoning out) (P Content @ text_of Content out) k"

definition both_clean :: "bool \<Rightarrow> stop_policy \<Rightarrow> bool \<Rightarrow> string \<Rightarrow> bool" where
  "both_clean w policy split D \<longleftrightarrow>
    (w \<longrightarrow> clean policy Reasoning (reasoning_text split D)) \<and> clean policy Content (content_text split D)"

definition judged ::
  "bool \<Rightarrow> stop_policy \<Rightarrow> bool \<Rightarrow> string \<Rightarrow> (channel \<Rightarrow> string) \<Rightarrow> nat \<Rightarrow> stop_match \<Rightarrow> bool" where
  "judged w policy split D P c b \<longleftrightarrow>
    both_clean w policy split D \<and> b = no_match \<or>
    sm_found b \<and> sm_committed_tokens b = c \<and> accepts Content (sm_output b) \<and>
    stopped_at w policy split D P (sm_output b) (sm_declaration_order b)"

lemma feed_content_exact:
  assumes "stops_ok policy" and "ds_stop_pending st Content = held policy Content X" and "accepts Content em"
    and "P Content @ text_of Content em = visible policy Content X" and "ds_decoded_bytes st = off + length X"
    and "admissible policy Content X off c best"
    and "Y = X @ (if ds_strip_content_leading st then dropWhile isspace s else s)"
  obtains em' best' where
    "feed_content policy c s (st, em, best) =
      Inr (st\<lparr>ds_stop_pending := (ds_stop_pending st)(Content := held policy Content Y),
              ds_strip_content_leading := (ds_strip_content_leading st \<and> dropWhile isspace s = []),
              ds_decoded_bytes := off + length Y\<rparr>, em', best')"
    and "accepts Content em'" and "P Content @ text_of Content em' = visible policy Content Y"
    and "text_of Reasoning em' = text_of Reasoning em"
    and "settles policy Content Y off P em c best best'"
proof -
  let ?s = "if ds_strip_content_leading st then dropWhile isspace s else s"
  let ?st = "st\<lparr>ds_strip_content_leading := (ds_strip_content_leading st \<and> dropWhile isspace s = [])\<rparr>"
  have st: "(if ds_strip_content_leading st \<and> ?s \<noteq> [] then st\<lparr>ds_strip_content_leading := False\<rparr> else st) = ?st"
    by (cases st) auto
  obtain em' best' where r:
    "feed_channel policy c Content ?s (?st, em, best) =
      Inr (?st\<lparr>ds_stop_pending := (ds_stop_pending ?st)(Content := held policy Content (X @ ?s)),
              ds_decoded_bytes := off + length (X @ ?s)\<rparr>, em', best')"
    "accepts Content em'" "P Content @ text_of Content em' = visible policy Content (X @ ?s)"
    "\<And>d. d \<noteq> Content \<Longrightarrow> text_of d em' = text_of d em"
    "settles policy Content (X @ ?s) off P em c best best'"
    by (rule feed_channel_exact [where s = ?s and st = ?st and P = P and ch = Content, OF assms(1) _ assms(3,4) _ assms(6)])
      (use assms in auto)
  have "feed_content policy c s (st, em, best) = feed_channel policy c Content ?s (?st, em, best)"
    unfolding feed_content_def prod.case Let_def st ..
  with r show ?thesis using assms(7) by (intro that [of em' best']) simp_all
qed

text \<open>What the session owes its client after some text was presented.\<close>

definition presented ::
  "bool \<Rightarrow> stop_policy \<Rightarrow> bool \<Rightarrow> string \<Rightarrow> (channel \<Rightarrow> string) \<Rightarrow> nat \<Rightarrow> decoder_state \<Rightarrow> stop_match option \<Rightarrow>
   feed_result res \<Rightarrow> bool" where
  "presented w policy split D P c st best r \<longleftrightarrow>
    (\<exists>st' em' best'. r = Inr (st', em', best') \<and> decoder_ok policy split D st' \<and>
       published_ok policy split D P em' \<and> same_rest st st' \<and> (best = None \<longrightarrow> best' = None) \<and>
       (best = Some no_match \<longrightarrow> (\<exists>b. best' = Some b \<and> judged w policy split D P c b)))"

lemma presentedI:
  assumes "r = Inr (st', em', best')" and "decoder_ok policy split D st'" and "published_ok policy split D P em'"
    and "same_rest st st'" and "best = None \<Longrightarrow> best' = None"
    and "best = Some no_match \<Longrightarrow> \<exists>b. best' = Some b \<and> judged w policy split D P c b"
  shows "presented w policy split D P c st best r"
  unfolding presented_def using assms by blast

lemma presentedE:
  assumes "presented w policy split D P c st best r"
  obtains st' em' best' where "r = Inr (st', em', best')" and "decoder_ok policy split D st'"
    and "published_ok policy split D P em'" and "same_rest st st'" and "best = None \<longrightarrow> best' = None"
    and "best = Some no_match \<longrightarrow> (\<exists>b. best' = Some b \<and> judged w policy split D P c b)"
  using assms unfolding presented_def by blast

lemma reasoning_open_append: "reasoning_open split (D @ s) \<Longrightarrow> reasoning_open split D"
  by (metis find_sub_append not_None_eq)

lemma channels_content:
  assumes "\<not> reasoning_open split D"
  shows "reasoning_text split (D @ s) = reasoning_text split D"
    and "content_text split (D @ s) =
      content_text split D @ (if split \<and> content_text split D = [] then dropWhile isspace s else s)"
proof -
  show "reasoning_text split (D @ s) = reasoning_text split D"
    using assms channels_closed(1) [of D _ s] by (cases split) (auto simp: channels_unsplit)
  show "content_text split (D @ s) =
      content_text split D @ (if split \<and> content_text split D = [] then dropWhile isspace s else s)"
    using assms channels_closed(2) [of D _ s] by (cases split) (auto simp: channels_unsplit)
qed

lemma judged_content:
  assumes "verdict policy Content (content_text split D) off P em c b"
    and "w \<longrightarrow> clean policy Reasoning (reasoning_text split D)"
    and "P Reasoning @ text_of Reasoning em = reasoning_text split D"
  shows "judged w policy split D P c b"
proof (cases "clean policy Content (content_text split D) \<and> b = no_match")
  case True
  with assms(2) show ?thesis by (simp add: judged_def both_clean_def)
next
  case False
  with assms(1) obtain n where n: "earliest_stop policy Content (content_text split D) n (sm_declaration_order b)"
    "sm_found b" "sm_committed_tokens b = c" "accepts Content (sm_output b)"
    "P Content @ text_of Content (sm_output b) =
      take n (content_text split D) @ stop_suffix policy (sm_declaration_order b)"
    "\<forall>d. d \<noteq> Content \<longrightarrow> text_of d (sm_output b) = text_of d em"
    unfolding verdict_def by blast
  from n(6) assms(3) have "P Reasoning @ text_of Reasoning (sm_output b) = reasoning_text split D" by simp
  with n assms(2) show ?thesis unfolding judged_def stopped_at_def stop_texts_def by blast
qed

lemma judged_reasoning:
  assumes "verdict policy Reasoning (reasoning_text split D) off P em c b" and "sm_found b" and w
    and "P Content @ text_of Content em = []"
  shows "judged w policy split D P c b"
proof -
  from assms(2) have "b \<noteq> no_match" by (auto simp: no_match_def)
  with assms(1) obtain n where n: "earliest_stop policy Reasoning (reasoning_text split D) n (sm_declaration_order b)"
    "sm_committed_tokens b = c" "accepts Reasoning (sm_output b)"
    "P Reasoning @ text_of Reasoning (sm_output b) =
      take n (reasoning_text split D) @ stop_suffix policy (sm_declaration_order b)"
    "\<forall>d. d \<noteq> Reasoning \<longrightarrow> text_of d (sm_output b) = text_of d em"
    unfolding verdict_def by blast
  from n(5) assms(4) have "P Content @ text_of Content (sm_output b) = []" by simp
  with n assms(2,3) accepts_Content show ?thesis unfolding judged_def stopped_at_def stop_texts_def by blast
qed

text \<open>Text behind the closing think tag.\<close>

lemma feed_decoded_content:
  assumes "stops_ok policy" and "decoder_ok policy split D st" and "published_ok policy split D P em"
    and "best = None \<or> best = Some no_match \<and> both_clean (reasoning_open split D) policy split D" and "\<not> reasoning_open split D"
  shows "presented (reasoning_open split D) policy split (D @ s) P c st best (feed_decoded_text policy c s (st, em, best))"
proof -
  let ?Y = "content_text split (D @ s)"
  let ?off = "length (reasoning_text split D)"
  have open': "\<not> reasoning_open split (D @ s)" using assms(5) reasoning_open_append by blast
  note st = assms(2) [unfolded decoder_ok_def if_not_P [OF assms(5)]]
  note em = assms(3) [unfolded published_ok_def if_not_P [OF assms(5)]]
  have Y: "?Y = content_text split D @ (if ds_strip_content_leading st then dropWhile isspace s else s)"
    using st assms(5) channels_content(2) [OF assms(5), of s] by auto
  have adm: "admissible policy Content (content_text split D) ?off c best"
    using assms(4) by (auto simp: admissible_def both_clean_def)
  obtain em' best' where r:
    "feed_content policy c s (st, em, best) =
      Inr (st\<lparr>ds_stop_pending := (ds_stop_pending st)(Content := held policy Content ?Y),
              ds_strip_content_leading := (ds_strip_content_leading st \<and> dropWhile isspace s = []),
              ds_decoded_bytes := ?off + length ?Y\<rparr>, em', best')"
    "accepts Content em'" "P Content @ text_of Content em' = visible policy Content ?Y"
    "text_of Reasoning em' = text_of Reasoning em" "settles policy Content ?Y ?off P em c best best'"
    by (rule feed_content_exact [where P = P and s = s, OF assms(1) _ _ _ _ adm Y]) (use st em in auto)
  note eqs = channels_content [OF assms(5), of s]
  let ?st = "st\<lparr>ds_stop_pending := (ds_stop_pending st)(Content := held policy Content ?Y),
              ds_strip_content_leading := (ds_strip_content_leading st \<and> dropWhile isspace s = []),
              ds_decoded_bytes := ?off + length ?Y\<rparr>"
  show ?thesis
  proof (rule presentedI [of _ ?st em' best'])
    show "feed_decoded_text policy c s (st, em, best) = Inr (?st, em', best')"
      using st assms(5) r(1) by (simp add: feed_decoded_text_def)
    show "decoder_ok policy split (D @ s) ?st"
      unfolding decoder_ok_def if_not_P [OF open'] using st open' eqs assms(5) by auto
    show "published_ok policy split (D @ s) P em'"
      unfolding published_ok_def if_not_P [OF open'] using r(2-4) em eqs(1) by simp
    show "same_rest st ?st" by (simp add: same_rest_def)
    show "best' = None" if "best = None" using r(5) that by (simp add: settles_def)
    show "\<exists>b. best' = Some b \<and> judged (reasoning_open split D) policy split (D @ s) P c b" if "best = Some no_match"
    proof -
      from r(5) that obtain b where b: "best' = Some b" "verdict policy Content ?Y ?off P em c b"
        by (auto simp: settles_def)
      have "judged (reasoning_open split D) policy split (D @ s) P c b"
        using assms(5) em eqs(1) by (intro judged_content [OF b(2)]) auto
      with b(1) show ?thesis by blast
    qed
  qed
qed

text \<open>Text in front of the closing think tag that does not complete it.\<close>

lemma feed_decoded_reasoning:
  assumes "stops_ok policy" and "decoder_ok policy split D st" and "published_ok policy split D P em"
    and "best = None \<or> best = Some no_match \<and> both_clean (reasoning_open split D) policy split D" and "reasoning_open split D"
    and "find_sub kThinkClose (think_pending D @ s) = None"
  shows "presented (reasoning_open split D) policy split (D @ s) P c st best (feed_decoded_text policy c s (st, em, best))"
proof -
  have split: "split" and none: "find_sub kThinkClose D = None" using assms(5) by auto
  note ch = channels_open [OF none assms(6)]
  let ?p = "think_pending D @ s"
  let ?safe = "length ?p - longest_suffix_prefix ?p kThinkClose True"
  let ?X = "reasoning_text True D" and ?Y = "reasoning_text True (D @ s)"
  have Y: "?Y = ?X @ take ?safe ?p" by (rule ch(3))
  have content: "content_text split D = []" "content_text split (D @ s) = []"
    using split none ch(1) by (simp_all add: content_text_def)
  note st = assms(2) [unfolded decoder_ok_def if_P [OF assms(5)]]
  note em = assms(3) [unfolded published_ok_def if_P [OF assms(5)]]
  have adm: "admissible policy Reasoning ?X 0 c best"
    using assms(4,5) split by (auto simp: admissible_def both_clean_def)
  let ?st = "st\<lparr>ds_think_marker_pending := ?p\<rparr>"
  obtain em' best' where r:
    "feed_channel policy c Reasoning (take ?safe ?p) (?st, em, best) =
      Inr (?st\<lparr>ds_stop_pending := (ds_stop_pending ?st)(Reasoning := held policy Reasoning ?Y),
              ds_decoded_bytes := 0 + length ?Y\<rparr>, em', best')"
    "accepts Reasoning em'" "P Reasoning @ text_of Reasoning em' = visible policy Reasoning ?Y"
    "\<And>d. d \<noteq> Reasoning \<Longrightarrow> text_of d em' = text_of d em"
    "settles policy Reasoning ?Y 0 P em c best best'"
    unfolding Y
    by (rule feed_channel_exact [where P = P and ch = Reasoning and st = ?st and s = "take ?safe ?p", OF assms(1) _ _ _ _ adm])
      (use st em content split in auto)
  let ?st' = "?st\<lparr>ds_stop_pending := (ds_stop_pending ?st)(Reasoning := held policy Reasoning ?Y),
              ds_decoded_bytes := 0 + length ?Y, ds_think_marker_pending := drop ?safe ?p\<rparr>"
  have open': "reasoning_open split (D @ s)" using split ch(1) by simp
  show ?thesis
  proof (rule presentedI [of _ ?st' em' best'])
    have "feed_decoded_text policy c s (st, em, best) =
        rbind (feed_channel policy c Reasoning (take ?safe ?p) (?st, em, best))
          (\<lambda>(st1, emitted1, best1). Inr (st1\<lparr>ds_think_marker_pending := drop ?safe ?p\<rparr>, emitted1, best1))"
      unfolding feed_decoded_text_def prod.case Let_def using st assms(5,6) by simp
    then show "feed_decoded_text policy c s (st, em, best) = Inr (?st', em', best')"
      by (simp only: r(1) rbind_simps prod.case)
    show "decoder_ok policy split (D @ s) ?st'"
      unfolding decoder_ok_def if_P [OF open'] ch(4) using st open' split none content by simp
    show "published_ok policy split (D @ s) P em'"
      unfolding published_ok_def if_P [OF open'] using r(2-4) em content split open' by simp
    show "same_rest st ?st'" by (simp add: same_rest_def)
    show "best' = None" if "best = None" using r(5) that by (simp add: settles_def)
    show "\<exists>b. best' = Some b \<and> judged (reasoning_open split D) policy split (D @ s) P c b" if "best = Some no_match"
    proof -
      from r(5) that split obtain b where b: "best' = Some b" "verdict policy Reasoning (reasoning_text split (D @ s)) 0 P em c b"
        by (auto simp: settles_def)
      have "judged (reasoning_open split D) policy split (D @ s) P c b"
      proof (cases "sm_found b")
        case True
        then show ?thesis using em content assms(5) by (intro judged_reasoning [OF b(2)]) auto
      next
        case False
        then have "clean policy Reasoning (reasoning_text split (D @ s)) \<and> b = no_match"
          using b(2) by (auto simp: verdict_def)
        moreover have "clean policy Content []" using assms(4) that content(1) by (auto simp: both_clean_def)
        ultimately show ?thesis unfolding judged_def both_clean_def content by blast
      qed
      with b(1) show ?thesis by blast
    qed
  qed
qed

text \<open>The text that completes the closing think tag.\<close>

lemma feed_decoded_closing:
  assumes "stops_ok policy" and "decoder_ok policy split D st" and "published_ok policy split D P em"
    and "best = None \<or> best = Some no_match \<and> both_clean (reasoning_open split D) policy split D" and "reasoning_open split D"
    and "find_sub kThinkClose (think_pending D @ s) = Some m"
  shows "presented (reasoning_open split D) policy split (D @ s) P c st best (feed_decoded_text policy c s (st, em, best))"
proof -
  have split: "split" and none: "find_sub kThinkClose D = None" using assms(5) by auto
  note ch = channels_closing [OF none assms(6)]
  let ?p = "think_pending D @ s"
  let ?X = "reasoning_text True D" and ?Y = "reasoning_text True (D @ s)" and ?Z = "content_text True (D @ s)"
  have content: "content_text split D = []" using split none by (simp add: content_text_def)
  note st = assms(2) [unfolded decoder_ok_def if_P [OF assms(5)]]
  note em = assms(3) [unfolded published_ok_def if_P [OF assms(5)]]
  have adm: "admissible policy Reasoning ?X 0 c best"
    using assms(4,5) split by (auto simp: admissible_def both_clean_def)
  let ?st = "st\<lparr>ds_think_marker_pending := ?p\<rparr>"
  obtain em1 best1 where r:
    "feed_channel policy c Reasoning (take m ?p) (?st, em, best) =
      Inr (?st\<lparr>ds_stop_pending := (ds_stop_pending ?st)(Reasoning := held policy Reasoning ?Y),
              ds_decoded_bytes := 0 + length ?Y\<rparr>, em1, best1)"
    "accepts Reasoning em1" "P Reasoning @ text_of Reasoning em1 = visible policy Reasoning ?Y"
    "\<And>d. d \<noteq> Reasoning \<Longrightarrow> text_of d em1 = text_of d em"
    "settles policy Reasoning ?Y 0 P em c best best1"
    unfolding ch(2)
    by (rule feed_channel_exact [where P = P and ch = Reasoning and st = ?st and s = "take m ?p", OF assms(1) _ _ _ _ adm])
      (use st em content split in auto)
  obtain em2 where a: "append_delta em1 Reasoning (held policy Reasoning ?Y) = Inr em2" "accepts Reasoning em2"
    "\<And>d. text_of d em2 = text_of d em1 @ (if d = Reasoning then held policy Reasoning ?Y else [])"
    using append_delta_ok [OF r(2)] by metis
  have pub: "P Reasoning @ text_of Reasoning em2 = ?Y" "P Content @ text_of Content em2 = []"
    using a(3) r(3) r(4) em content by (simp_all flip: append.assoc)
  let ?st2 = "?st\<lparr>ds_stop_pending := (ds_stop_pending ?st)(Reasoning := []),
              ds_decoded_bytes := 0 + length ?Y, ds_think_marker_pending := [], ds_in_reasoning := False,
              ds_strip_content_leading := True\<rparr>"
  have adm2: "admissible policy Content [] (length ?Y) c best1"
  proof (cases "best = Some no_match")
    case True
    with r(5) obtain b where b: "best1 = Some b" "verdict policy Reasoning ?Y 0 P em c b" by (auto simp: settles_def)
    show ?thesis
    proof (cases "sm_found b")
      case False
      then have "b = no_match" using b(2) by (auto simp: verdict_def)
      then show ?thesis using b(1) True assms(4) content by (auto simp: admissible_def both_clean_def)
    next
      case f: True
      then have "b \<noteq> no_match" by (auto simp: no_match_def)
      with b(2) obtain n k where nk: "stop_at policy Reasoning ?Y n k" "sm_committed_tokens b = c" "sm_byte_cut b = n"
        by (auto simp: verdict_def earliest_stop_def)
      then have "n + length (st_text (sp_strings policy ! k)) \<le> length ?Y" "st_text (sp_strings policy ! k) \<noteq> []"
        using find_sub_split(2) assms(1) unfolding stop_at_def stops_ok_def by (blast, metis nth_mem)
      then have "n < length ?Y" by (cases "st_text (sp_strings policy ! k)") auto
      then show ?thesis using nk b(1) f by (auto simp: admissible_def)
    qed
  next
    case False
    with assms(4) r(5) show ?thesis by (auto simp: settles_def admissible_def)
  qed
  have pre: "ds_stop_pending ?st2 Content = held policy Content []"
    "P Content @ text_of Content em2 = visible policy Content []" "ds_decoded_bytes ?st2 = length ?Y + length []"
    using st content pub by simp_all
  have Z: "?Z = [] @ (if ds_strip_content_leading ?st2 then dropWhile isspace (drop (m + length kThinkClose) ?p)
      else drop (m + length kThinkClose) ?p)"
    unfolding ch(3) by (simp del: drop_append)
  obtain em3 best3 where f:
    "feed_content policy c (drop (m + length kThinkClose) ?p) (?st2, em2, best1) =
      Inr (?st2\<lparr>ds_stop_pending := (ds_stop_pending ?st2)(Content := held policy Content ?Z),
              ds_strip_content_leading := (ds_strip_content_leading ?st2 \<and> dropWhile isspace (drop (m + length kThinkClose) ?p) = []),
              ds_decoded_bytes := length ?Y + length ?Z\<rparr>, em3, best3)"
    "accepts Content em3" "P Content @ text_of Content em3 = visible policy Content ?Z"
    "text_of Reasoning em3 = text_of Reasoning em2" "settles policy Content ?Z (length ?Y) P em2 c best1 best3"
    by (rule feed_content_exact [where P = P and X = "[]" and st = ?st2 and s = "drop (m + length kThinkClose) ?p",
          OF assms(1) pre(1) accepts_Content [OF a(2)] pre(2,3) adm2 Z])
  let ?st3 = "?st2\<lparr>ds_stop_pending := (ds_stop_pending ?st2)(Content := held policy Content ?Z),
              ds_strip_content_leading := (ds_strip_content_leading ?st2 \<and> dropWhile isspace (drop (m + length kThinkClose) ?p) = []),
              ds_decoded_bytes := length ?Y + length ?Z\<rparr>"
  have open': "\<not> reasoning_open split (D @ s)" using ch(1) by simp
  show ?thesis
  proof (rule presentedI [of _ ?st3 em3 best3])
    have close: "close_channel Reasoning (?st\<lparr>ds_stop_pending := (ds_stop_pending ?st)(Reasoning := held policy Reasoning ?Y),
              ds_decoded_bytes := 0 + length ?Y\<rparr>, em1, best1) =
        Inr (?st\<lparr>ds_stop_pending := (ds_stop_pending ?st)(Reasoning := []), ds_decoded_bytes := 0 + length ?Y\<rparr>, em2, best1)"
      by (simp add: close_channel_def a(1))
    have "feed_decoded_text policy c s (st, em, best) =
        feed_content policy c (drop (m + length kThinkClose) ?p) (?st2, em2, best1)"
      unfolding feed_decoded_text_def prod.case Let_def using st assms(5,6) r(1) close by simp
    then show "feed_decoded_text policy c s (st, em, best) = Inr (?st3, em3, best3)" by (simp only: f(1))
    show "decoder_ok policy split (D @ s) ?st3"
      unfolding decoder_ok_def if_not_P [OF open'] using open' split ch(3) by auto
    show "published_ok policy split (D @ s) P em3"
      unfolding published_ok_def if_not_P [OF open'] using f(2-4) pub split by simp
    show "same_rest st ?st3" by (simp add: same_rest_def)
    show "best3 = None" if "best = None" using r(5) f(5) that by (auto simp: settles_def)
    show "\<exists>b. best3 = Some b \<and> judged (reasoning_open split D) policy split (D @ s) P c b" if "best = Some no_match"
    proof -
      from r(5) that split obtain b where b: "best1 = Some b" "verdict policy Reasoning (reasoning_text split (D @ s)) 0 P em c b"
        by (auto simp: settles_def)
      show ?thesis
      proof (cases "sm_found b")
        case True
        then have "b \<noteq> no_match" by (auto simp: no_match_def)
        then have "best3 = Some b" using f(5) b(1) by (simp add: settles_def)
        moreover have "judged (reasoning_open split D) policy split (D @ s) P c b"
          using True em content assms(5) by (intro judged_reasoning [OF b(2)]) auto
        ultimately show ?thesis by blast
      next
        case False
        then have *: "clean policy Reasoning (reasoning_text split (D @ s))" "b = no_match"
          using b(2) by (auto simp: verdict_def)
        then obtain b' where b': "best3 = Some b'" "verdict policy Content (content_text split (D @ s)) (length ?Y) P em2 c b'"
          using f(5) b(1) split by (auto simp: settles_def)
        have "judged (reasoning_open split D) policy split (D @ s) P c b'" using *(1) pub split by (intro judged_content [OF b'(2)]) auto
        with b'(1) show ?thesis by blast
      qed
    qed
  qed
qed

lemma feed_decoded_exact:
  assumes "stops_ok policy" and "decoder_ok policy split D st" and "published_ok policy split D P em"
    and "best = None \<or> best = Some no_match \<and> both_clean (reasoning_open split D) policy split D"
  shows "presented (reasoning_open split D) policy split (D @ s) P c st best (feed_decoded_text policy c s (st, em, best))"
  using feed_decoded_content [OF assms] feed_decoded_reasoning [OF assms] feed_decoded_closing [OF assms]
  by (cases "find_sub kThinkClose (think_pending D @ s)") blast+

end
