(* ===== verification/SessionStream.thy ===== *)
theory SessionStream
  imports StopStream
begin

text \<open>
  The rounds of an output session: what a preview computes from the tokens, what a commit
  publishes, and what the client has received over the whole life of the session, compared with the
  text of all accepted tokens.
\<close>

declare accepts.simps [simp del]

section \<open>Text of a token sequence\<close>

abbreviation text_after :: "string \<Rightarrow> string" where
  "text_after B \<equiv> fst (consume_generated_utf8 B)"

abbreviation bytes_pending :: "string \<Rightarrow> string" where
  "bytes_pending B \<equiv> snd (consume_generated_utf8 B)"

text \<open>The text of a session that ends: an incomplete character becomes the replacement character.\<close>

definition final_text :: "string \<Rightarrow> string" where
  "final_text B = text_after B @ (if bytes_pending B = [] then [] else kUtf8Replacement)"

text \<open>Reasoning that is never closed keeps the ending that could have become the closing tag.\<close>

definition final_reasoning :: "bool \<Rightarrow> string \<Rightarrow> string" where
  "final_reasoning split D = (if reasoning_open split D then D else reasoning_text split D)"

lemma token_bytes_simps [simp]:
  "token_bytes decode preserve [] = []"
  "token_bytes decode preserve (t # ts) = shown preserve (decode t) @ token_bytes decode preserve ts"
  "token_bytes decode preserve (ts @ us) = token_bytes decode preserve ts @ token_bytes decode preserve us"
  by (simp_all add: token_bytes_def)

section \<open>Feeding a token\<close>

lemma decoder_ok_cong:
  assumes "decoder_ok policy split D st"
  shows "decoder_ok policy split D (st\<lparr>ds_utf8_pending := u\<rparr>)"
    and "decoder_ok policy split D (st\<lparr>ds_reasoning_tokens := r\<rparr>)"
  using assms by (simp_all add: decoder_ok_def)

definition stream_ok ::
  "stop_policy \<Rightarrow> bool \<Rightarrow> (channel \<Rightarrow> string) \<Rightarrow> string \<Rightarrow> decoder_state \<Rightarrow> published \<Rightarrow> bool" where
  "stream_ok policy split P B st em \<longleftrightarrow>
    decoder_ok policy split (text_after B) st \<and> published_ok policy split (text_after B) P em \<and>
    ds_utf8_pending st = bytes_pending B \<and> \<not> ds_terminal st \<and> ds_matched_stop_order st = None"

abbreviation searched_clean :: "stop_policy \<Rightarrow> bool \<Rightarrow> string \<Rightarrow> bool" where
  "searched_clean policy split D \<equiv> both_clean (reasoning_open split D) policy split D"

lemma feed_token_exact:
  assumes "stops_ok policy" and "stream_ok policy split P B st em"
    and "best = None \<or> best = Some no_match \<and> searched_clean policy split (text_after B)"
  obtains st' em' best' where "feed_token_bytes policy c bs (st, em, best) = Inr (st', em', best')"
    and "stream_ok policy split P (B @ bs) st' em'" and "ds_reasoning_tokens st' = ds_reasoning_tokens st"
    and "best = None \<longrightarrow> best' = None"
    and "best = Some no_match \<longrightarrow>
      (\<exists>b. best' = Some b \<and> judged (reasoning_open split (text_after B)) policy split (text_after (B @ bs)) P c b)"
proof -
  obtain s u where su: "consume_generated_utf8 (ds_utf8_pending st @ bs) = (s, u)" by fastforce
  have B: "consume_generated_utf8 (B @ bs) = (text_after B @ s, u)"
    using consume_append [of B bs] su assms(2) by (simp add: stream_ok_def split_def)
  let ?st = "st\<lparr>ds_utf8_pending := u\<rparr>"
  have ok: "decoder_ok policy split (text_after B) ?st" "published_ok policy split (text_after B) P em"
    using assms(2) decoder_ok_cong(1) by (auto simp: stream_ok_def)
  obtain st' em' best' where r: "feed_decoded_text policy c s (?st, em, best) = Inr (st', em', best')"
    "decoder_ok policy split (text_after B @ s) st'" "published_ok policy split (text_after B @ s) P em'"
    "same_rest ?st st'" "best = None \<longrightarrow> best' = None"
    "best = Some no_match \<longrightarrow>
      (\<exists>b. best' = Some b \<and> judged (reasoning_open split (text_after B)) policy split (text_after B @ s) P c b)"
    using feed_decoded_exact [OF assms(1) ok assms(3)] by (rule presentedE)
  show ?thesis
  proof (rule that [OF _ _ _ r(5)])
    show "feed_token_bytes policy c bs (st, em, best) = Inr (st', em', best')"
      using su r(1) by (simp add: feed_token_bytes_def)
    show "stream_ok policy split P (B @ bs) st' em'" and "ds_reasoning_tokens st' = ds_reasoning_tokens st"
      using r(2-4) B assms(2) by (auto simp: stream_ok_def same_rest_def)
    show "best = Some no_match \<longrightarrow>
      (\<exists>b. best' = Some b \<and> judged (reasoning_open split (text_after B)) policy split (text_after (B @ bs)) P c b)"
      using r(6) B by simp
  qed
qed

section \<open>Ending a session\<close>

definition flushed ::
  "bool \<Rightarrow> (channel \<Rightarrow> string) \<Rightarrow> string \<Rightarrow> published \<Rightarrow> bool" where
  "flushed split P D out \<longleftrightarrow>
    accepts Content out \<and> P Reasoning @ text_of Reasoning out = final_reasoning split D \<and>
    P Content @ text_of Content out = content_text split D"

lemma flush_exact:
  assumes "stops_ok policy" and "decoder_ok policy split D st" and "published_ok policy split D P em"
  shows "\<exists>st' em'.
    rbind (if ds_in_reasoning st
           then rbind (feed_channel policy c Reasoning (ds_think_marker_pending st) (st, em, None))
                  (\<lambda>(st2, emitted2, b2).
                    close_channel Reasoning (st2\<lparr>ds_think_marker_pending := []\<rparr>, emitted2, None))
           else close_channel Content (st, em, None)) (\<lambda>(st3, emitted3, b3).
      Inr (st3\<lparr>ds_stop_pending := (\<lambda>ch. []), ds_terminal := True\<rparr>, emitted3)) = Inr (st', em') \<and>
    flushed split P D em' \<and> ds_terminal st' \<and> ds_reasoning_tokens st' = ds_reasoning_tokens st \<and>
    ds_matched_stop_order st' = ds_matched_stop_order st"
proof (cases "reasoning_open split D")
  case True
  note st = assms(2) [unfolded decoder_ok_def if_P [OF True]]
  note em = assms(3) [unfolded published_ok_def if_P [OF True]]
  let ?X = "reasoning_text split D"
  have content: "content_text split D = []" using True by (simp add: content_text_def)
  have D: "?X @ think_pending D = D" by (rule reasoning_text_pending [OF True])
  obtain em1 where r:
    "feed_channel policy c Reasoning (think_pending D) (st, em, None) =
      Inr (st\<lparr>ds_stop_pending := (ds_stop_pending st)(Reasoning := held policy Reasoning D),
              ds_decoded_bytes := 0 + length D\<rparr>, em1, None)"
    "accepts Reasoning em1" "P Reasoning @ text_of Reasoning em1 = visible policy Reasoning D"
    "\<And>d. d \<noteq> Reasoning \<Longrightarrow> text_of d em1 = text_of d em"
  proof (rule feed_channel_exact [where P = P and ch = Reasoning and st = st and X = ?X and off = 0
        and s = "think_pending D" and em = em and best = None and c = c and policy = policy, OF assms(1)])
  qed (use st em content D in \<open>auto simp: admissible_def settles_def\<close>)
  obtain em2 where a: "append_delta em1 Reasoning (held policy Reasoning D) = Inr em2" "accepts Reasoning em2"
    "\<And>d. text_of d em2 = text_of d em1 @ (if d = Reasoning then held policy Reasoning D else [])"
    using append_delta_ok [OF r(2)] by metis
  have "P Reasoning @ text_of Reasoning em2 = D" "P Content @ text_of Content em2 = []"
    using a(3) r(3) r(4) em content by (simp_all flip: append.assoc)
  then have "flushed split P D em2" using True content accepts_Content [OF a(2)]
    by (simp add: flushed_def final_reasoning_def)
  then show ?thesis using st True r(1) a(1) by (simp add: close_channel_def)
next
  case False
  note st = assms(2) [unfolded decoder_ok_def if_not_P [OF False]]
  note em = assms(3) [unfolded published_ok_def if_not_P [OF False]]
  obtain em1 where a: "append_delta em Content (held policy Content (content_text split D)) = Inr em1" "accepts Content em1"
    "\<And>d. text_of d em1 = text_of d em @ (if d = Content then held policy Content (content_text split D) else [])"
    using append_delta_ok em by metis
  have "flushed split P D em1"
    unfolding flushed_def final_reasoning_def if_not_P [OF False] using a(2,3) em
    by (simp flip: append.assoc)
  then show ?thesis using st False a(1) by (simp add: close_channel_def)
qed

lemma terminalize_exact:
  assumes "stops_ok policy" and "stream_ok policy split P B st em"
  obtains st' em' where "terminalize policy c (st, em) = Inr (st', em')"
    and "flushed split P (final_text B) em'" and "ds_terminal st'" and "ds_matched_stop_order st' = None"
proof -
  let ?D = "text_after B"
  have ok: "decoder_ok policy split ?D st" "published_ok policy split ?D P em"
    and rest: "ds_utf8_pending st = bytes_pending B" "ds_matched_stop_order st = None"
    using assms(2) by (auto simp: stream_ok_def)
  obtain st1 em1 where r: "(if ds_utf8_pending st \<noteq> []
      then feed_decoded_text policy c kUtf8Replacement (st\<lparr>ds_utf8_pending := []\<rparr>, em, None)
      else Inr (st, em, None)) = Inr (st1, em1, None)"
    "decoder_ok policy split (final_text B) st1" "published_ok policy split (final_text B) P em1"
    "ds_matched_stop_order st1 = None"
  proof (cases "ds_utf8_pending st = []")
    case True
    then show ?thesis using that [of st em] ok rest by (simp add: final_text_def)
  next
    case False
    have "presented (reasoning_open split ?D) policy split (?D @ kUtf8Replacement) P c (st\<lparr>ds_utf8_pending := []\<rparr>) None
        (feed_decoded_text policy c kUtf8Replacement (st\<lparr>ds_utf8_pending := []\<rparr>, em, None))"
      by (rule feed_decoded_exact [OF assms(1) decoder_ok_cong(1) [OF ok(1)] ok(2)]) simp
    then show ?thesis
      by (elim presentedE) (use that False rest in \<open>auto simp: final_text_def same_rest_def\<close>)
  qed
  from flush_exact [OF assms(1) r(2,3), of c] obtain st' em' where f:
    "rbind (if ds_in_reasoning st1
           then rbind (feed_channel policy c Reasoning (ds_think_marker_pending st1) (st1, em1, None))
                  (\<lambda>(st2, emitted2, b2).
                    close_channel Reasoning (st2\<lparr>ds_think_marker_pending := []\<rparr>, emitted2, None))
           else close_channel Content (st1, em1, None)) (\<lambda>(st3, emitted3, b3).
      Inr (st3\<lparr>ds_stop_pending := (\<lambda>ch. []), ds_terminal := True\<rparr>, emitted3)) = Inr (st', em')"
    "flushed split P (final_text B) em'" "ds_terminal st'" "ds_matched_stop_order st' = ds_matched_stop_order st1"
    by blast
  have "terminalize policy c (st, em) = Inr (st', em')"
    unfolding terminalize_def prod.case r(1) rbind_simps by (rule f(1))
  with f(2,3) show ?thesis using f(4) r(4) by (intro that) simp_all
qed

section \<open>A round of model tokens\<close>

text \<open>Room for further model tokens within the thinking budget.\<close>

definition room :: "thinking \<Rightarrow> nat \<Rightarrow> bool" where
  "room th n \<longleftrightarrow>
    (th_in_reasoning th \<longrightarrow> (\<forall>b. th_budget th = Some b \<longrightarrow> th_model_thinking_tokens th + n \<le> b))"

lemma feed_semantic_fields:
  "th_budget (feed_semantic_thinking th bs) = th_budget th"
  "th_model_thinking_tokens (feed_semantic_thinking th bs) = th_model_thinking_tokens th"
  "th_applied (feed_semantic_thinking th bs) = th_applied th"
  "th_injected_tokens (feed_semantic_thinking th bs) = th_injected_tokens th"
  "th_in_reasoning (feed_semantic_thinking th bs) \<Longrightarrow> th_in_reasoning th"
  by (auto simp: feed_semantic_thinking_def Let_def split: if_splits)

lemma note_token_ok:
  assumes "room (pv_semantic pv) (Suc n)"
  obtains pv1 r where "note_token pv c bs = Inr pv1" and "pv_output pv1 = pv_output pv"
    and "pv_state pv1 = (pv_state pv)\<lparr>ds_reasoning_tokens := r\<rparr>"
    and "pv_split_after pv1 = pv_split_after pv \<or> pv_split_after pv1 = Some c"
    and "room (pv_semantic pv1) n"
proof -
  obtain boundary pt where t: "tracker_feed (pv_prefix pv) bs = (boundary, pt)" by fastforce
  let ?st = "if ds_in_reasoning (pv_state pv)
    then (pv_state pv)\<lparr>ds_reasoning_tokens := ds_reasoning_tokens (pv_state pv) + 1\<rparr> else pv_state pv"
  let ?th = "pv_semantic pv"
  let ?th' = "?th\<lparr>th_model_thinking_tokens := th_model_thinking_tokens ?th + 1\<rparr>"
  let ?pv = "pv\<lparr>pv_prefix := pt, pv_split_after := (if boundary = Some (length bs) then Some c else pv_split_after pv),
    pv_state := ?st,
    pv_semantic := (if th_in_reasoning ?th then feed_semantic_thinking ?th' bs else ?th)\<rparr>"
  have "Suc (th_model_thinking_tokens ?th) \<le> b" if "th_in_reasoning ?th" "th_budget ?th = Some b" for b
    using assms that by (auto simp: room_def)
  then have run: "note_token pv c bs = Inr ?pv"
    unfolding note_token_def t
    by (cases "ds_in_reasoning (pv_state pv)"; cases "th_in_reasoning ?th")
      (auto simp: Let_def not_less split: option.splits)
  have st: "pv_state ?pv = (pv_state pv)\<lparr>ds_reasoning_tokens :=
      ds_reasoning_tokens (pv_state pv) + (if ds_in_reasoning (pv_state pv) then 1 else 0)\<rparr>"
    by (rule decoder_state.equality) simp_all
  have "room (pv_semantic ?pv) n"
    using assms by (auto simp: room_def feed_semantic_fields dest: feed_semantic_fields(5))
  with run _ st _ show ?thesis by (rule that) simp_all
qed

definition ended ::
  "stop_policy \<Rightarrow> bool \<Rightarrow> (channel \<Rightarrow> string) \<Rightarrow> string \<Rightarrow> decoder_state \<Rightarrow> published \<Rightarrow> bool" where
  "ended policy split P B st out \<longleftrightarrow>
    flushed split P (final_text B) out \<and> ds_terminal st \<and> ds_matched_stop_order st = None \<and>
    searched_clean policy split (text_after B)"

definition stopped ::
  "stop_policy \<Rightarrow> bool \<Rightarrow> (channel \<Rightarrow> string) \<Rightarrow> string \<Rightarrow> string \<Rightarrow> decoder_state \<Rightarrow> published \<Rightarrow> bool" where
  "stopped policy split P B B' st out \<longleftrightarrow>
    ds_terminal st \<and> accepts Content out \<and> searched_clean policy split (text_after B) \<and>
    (\<exists>k. ds_matched_stop_order st = Some k \<and>
       stopped_at (reasoning_open split (text_after B)) policy split (text_after B') P out k)"

text \<open>
  What a round of model tokens amounts to, given the bytes \<open>B\<close> of the earlier tokens: the tokens
  accepted, the finish reason, the new state and the output.
\<close>

fun outcome ::
  "finish_reason \<Rightarrow> (token \<Rightarrow> string \<times> bool) \<Rightarrow> session \<Rightarrow> (channel \<Rightarrow> string) \<Rightarrow> string \<Rightarrow> token list \<Rightarrow>
   finish_reason \<Rightarrow> nat \<Rightarrow> preview \<Rightarrow> bool" where
  "outcome limit decode s P B tokens FinishNone n pv \<longleftrightarrow>
    n = length tokens \<and>
    stream_ok (se_policy s) (se_split_reasoning s) P (B @ token_bytes decode (se_preserve_special s) tokens)
      (pv_state pv) (pv_output pv) \<and>
    searched_clean (se_policy s) (se_split_reasoning s)
      (text_after (B @ token_bytes decode (se_preserve_special s) tokens))"
| "outcome limit decode s P B tokens StopString n pv \<longleftrightarrow>
    0 < n \<and> n \<le> length tokens \<and>
    stopped (se_policy s) (se_split_reasoning s) P
      (B @ token_bytes decode (se_preserve_special s) (take (n - 1) tokens))
      (B @ token_bytes decode (se_preserve_special s) (take n tokens)) (pv_state pv) (pv_output pv)"
| "outcome limit decode s P B tokens StopToken n pv \<longleftrightarrow>
    0 < n \<and> n \<le> length tokens \<and> tokens ! (n - 1) \<in> set (sp_token_ids (se_policy s)) \<and>
    ended (se_policy s) (se_split_reasoning s) P
      (B @ token_bytes decode (se_preserve_special s)
        (take (if sp_publish_stop_token (se_policy s) then n else n - 1) tokens)) (pv_state pv) (pv_output pv)"
| "outcome limit decode s P B tokens reason n pv \<longleftrightarrow>
    reason = limit \<and> n = length tokens \<and>
    ended (se_policy s) (se_split_reasoning s) P (B @ token_bytes decode (se_preserve_special s) tokens)
      (pv_state pv) (pv_output pv)"

definition round_ok ::
  "finish_reason \<Rightarrow> (token \<Rightarrow> string \<times> bool) \<Rightarrow> session \<Rightarrow> (channel \<Rightarrow> string) \<Rightarrow> string \<Rightarrow> nat \<Rightarrow> token list \<Rightarrow>
   (decision \<times> session) res \<Rightarrow> bool" where
  "round_ok limit decode s P B count tokens r \<longleftrightarrow>
    (\<exists>dec pv n. r = Inr (dec, s\<lparr>se_preview := pv, se_preview_ready := True\<rparr>) \<and>
       de_accepted_tokens dec = count + n \<and>
       (\<forall>m. de_prefix_execution_split_after dec = Some m \<longrightarrow> m \<le> count + n) \<and>
       outcome limit decode s P B tokens (de_finish_reason dec) n pv)"

lemma outcome_semantic [simp]:
  "outcome limit decode s P B tokens reason n (pv\<lparr>pv_semantic := th\<rparr>) = outcome limit decode s P B tokens reason n pv"
  by (cases reason) simp_all

lemma outcome_Cons:
  assumes "outcome limit decode s P (B @ shown (se_preserve_special s) (decode t)) ts reason n pv"
  shows "outcome limit decode s P B (t # ts) reason (Suc n) pv"
  using assms by (cases reason; cases n) (auto simp: nth_Cons' split: if_splits)

declare outcome.simps [simp del]

lemma round_ok_Cons:
  assumes "round_ok limit decode s P (B @ shown (se_preserve_special s) (decode t)) (count + 1) ts r"
  shows "round_ok limit decode s P B count (t # ts) r"
proof -
  from assms obtain dec pv n where r: "r = Inr (dec, s\<lparr>se_preview := pv, se_preview_ready := True\<rparr>)"
    "de_accepted_tokens dec = count + 1 + n"
    "\<forall>m. de_prefix_execution_split_after dec = Some m \<longrightarrow> m \<le> count + 1 + n"
    "outcome limit decode s P (B @ shown (se_preserve_special s) (decode t)) ts (de_finish_reason dec) n pv"
    unfolding round_ok_def by blast
  with outcome_Cons [OF r(4)] show ?thesis unfolding round_ok_def
    by (intro exI [where x = dec] exI [where x = pv] exI [where x = "Suc n"]) simp
qed

lemma complete_round_ok:
  assumes "outcome limit decode s P B tokens reason n pv" and "\<forall>m. pv_split_after pv = Some m \<longrightarrow> m \<le> count + n"
  shows "round_ok limit decode s P B count tokens (complete_preview s pv (count + n) reason cont)"
proof -
  let ?pv = "if reason \<noteq> FinishNone then pv\<lparr>pv_semantic := (pv_semantic pv)\<lparr>th_control_pending := False\<rparr>\<rparr> else pv"
  have "complete_preview s pv (count + n) reason cont =
    Inr (\<lparr>de_accepted_tokens = count + n, de_finish_reason = reason, de_continuation = cont,
          de_prefix_execution_split_after = pv_split_after pv\<rparr>,
         s\<lparr>se_preview := ?pv, se_preview_ready := True\<rparr>)"
    using assms(2) by (auto simp: complete_preview_def Let_def split: option.splits)
  moreover have "outcome limit decode s P B tokens reason n ?pv" using assms(1) by auto
  ultimately show ?thesis unfolding round_ok_def using assms(2)
    by (intro exI [where x = "\<lparr>de_accepted_tokens = count + n, de_finish_reason = reason, de_continuation = cont,
          de_prefix_execution_split_after = pv_split_after pv\<rparr>"] exI [where x = ?pv] exI [where x = n]) (simp del: outcome_semantic split del: if_split)
qed

lemma stream_ok_tokens: "stream_ok policy split P B st em \<Longrightarrow> stream_ok policy split P B (st\<lparr>ds_reasoning_tokens := r\<rparr>) em"
  by (simp add: stream_ok_def decoder_ok_def)

lemma judged_found:
  assumes "judged w policy split D P c b" and "sm_found b"
  shows "sm_committed_tokens b = c" and "accepts Content (sm_output b)"
    and "stopped_at w policy split D P (sm_output b) (sm_declaration_order b)"
  using assms by (auto simp: judged_def no_match_def)

lemma judged_not_found:
  assumes "judged (reasoning_open split (text_after B)) policy split (text_after (B @ bs)) P c b" and "\<not> sm_found b"
  shows "searched_clean policy split (text_after (B @ bs))"
proof -
  have "reasoning_open split (text_after (B @ bs)) \<Longrightarrow> reasoning_open split (text_after B)"
    using consume_append [of B bs] reasoning_open_append [of split "text_after B"] by auto
  with assms show ?thesis by (auto simp: judged_def both_clean_def)
qed

lemma preview_loop_ok:
  assumes "stops_ok (se_policy s)" and "limit = OutputLimit \<or> limit = ContextCapacity"
    and "stream_ok (se_policy s) (se_split_reasoning s) P B (pv_state pv) (pv_output pv)"
    and "searched_clean (se_policy s) (se_split_reasoning s) (text_after B)"
    and "room (pv_semantic pv) (length tokens)" and "\<forall>m. pv_split_after pv = Some m \<longrightarrow> m \<le> count"
  shows "round_ok limit decode s P B count tokens (preview_loop decode s budget limit count tokens pv)"
  using assms(3-)
proof (induction tokens arbitrary: B count pv)
  case Nil
  let ?policy = "se_policy s" and ?split = "se_split_reasoning s"
  show ?case
  proof (cases "count = budget")
    case True
    obtain st out where t: "terminalize ?policy count (pv_state pv, pv_output pv) = Inr (st, out)"
      "flushed ?split P (final_text B) out" "ds_terminal st" "ds_matched_stop_order st = None"
      by (rule terminalize_exact [OF assms(1) Nil.prems(1)])
    have "outcome limit decode s P B [] limit 0 (pv\<lparr>pv_state := st, pv_output := out\<rparr>)"
      using assms(2) t(2-4) Nil.prems(2) by (auto simp: outcome.simps ended_def)
    from complete_round_ok [OF this, of count Decode] True t(1) Nil.prems(4) show ?thesis by simp
  next
    case False
    have "outcome limit decode s P B [] FinishNone 0 pv"
      using Nil.prems(1,2) by (simp add: outcome.simps)
    then have "outcome limit decode s P B [] FinishNone 0 (pv\<lparr>pv_semantic := th\<rparr>)" for th by simp
    from complete_round_ok [OF this, of _ count] complete_round_ok [OF \<open>outcome limit decode s P B [] FinishNone 0 pv\<close>, of count]
      False Nil.prems(4)
    show ?thesis by simp
  qed
next
  case (Cons t ts)
  let ?policy = "se_policy s" and ?split = "se_split_reasoning s"
  define bs where "bs = shown (se_preserve_special s) (decode t)"
  obtain bytes special where d: "decode t = (bytes, special)" by fastforce
  then have bs: "(if \<not> se_preserve_special s \<and> special then [] else bytes) = bs" by (simp add: shown_def bs_def)
  obtain pv1 r where n: "note_token pv (count + 1) bytes = Inr pv1" "pv_output pv1 = pv_output pv"
    "pv_state pv1 = (pv_state pv)\<lparr>ds_reasoning_tokens := r\<rparr>"
    "pv_split_after pv1 = pv_split_after pv \<or> pv_split_after pv1 = Some (count + 1)"
    "room (pv_semantic pv1) (length ts)"
    using note_token_ok [of pv "length ts"] Cons.prems(3) by (metis length_Cons)
  have s1: "stream_ok ?policy ?split P B (pv_state pv1) (pv_output pv1)"
    using Cons.prems(1) n(2,3) stream_ok_tokens by simp
  have split: "\<forall>m. pv_split_after pv1 = Some m \<longrightarrow> m \<le> count + 1" using n(4) Cons.prems(4) by auto
  obtain st2 out2 b where f:
    "feed_token_bytes ?policy (count + 1) bs (pv_state pv1, pv_output pv1, Some no_match) = Inr (st2, out2, Some b)"
    "stream_ok ?policy ?split P (B @ bs) st2 out2"
    "judged (reasoning_open ?split (text_after B)) ?policy ?split (text_after (B @ bs)) P (count + 1) b"
    using feed_token_exact [OF assms(1) s1, of "Some no_match" "count + 1" bs] Cons.prems(2) by blast
  note run = preview_loop.simps(2) [of decode s budget limit count t ts pv, unfolded d prod.case Let_def n(1) rbind_simps bs f(1) option.case]
  show ?case
  proof (cases "sm_found b")
    case True
    note j = judged_found [OF f(3) True]
    have "outcome limit decode s P B (t # ts) StopString 1
      (pv1\<lparr>pv_state := (terminal_state st2)\<lparr>ds_matched_stop_order := Some (sm_declaration_order b)\<rparr>, pv_output := sm_output b\<rparr>)"
      using j(2,3) Cons.prems(2) by (simp add: outcome.simps stopped_def terminal_state_def bs_def)
    from complete_round_ok [OF this, of count Decode] split True j(1) show ?thesis unfolding run by simp
  next
    case False
    note clean = judged_not_found [OF f(3) False]
    show ?thesis
    proof (cases "t \<in> set (sp_token_ids ?policy)")
      case stop: True
      let ?st = "if sp_publish_stop_token ?policy then (st2, out2) else (pv_state pv1, pv_output pv1)"
      let ?B = "if sp_publish_stop_token ?policy then B @ bs else B"
      have "stream_ok ?policy ?split P ?B (fst ?st) (snd ?st)" using f(2) s1 by simp
      from terminalize_exact [OF assms(1) this, of "count + 1"] obtain st out where t:
        "terminalize ?policy (count + 1) ?st = Inr (st, out)" "flushed ?split P (final_text ?B) out"
        "ds_terminal st" "ds_matched_stop_order st = None" by (metis prod.collapse)
      have "outcome limit decode s P B (t # ts) StopToken 1 (pv1\<lparr>pv_state := st, pv_output := out\<rparr>)"
        using t(2-4) clean Cons.prems(2) stop by (simp add: outcome.simps ended_def bs_def split: if_splits)
      from complete_round_ok [OF this, of count Decode] split False stop t(1) show ?thesis unfolding run by simp
    next
      case nostop: False
      have "round_ok limit decode s P (B @ bs) (count + 1) ts
          (preview_loop decode s budget limit (count + 1) ts (pv1\<lparr>pv_state := st2, pv_output := out2\<rparr>))"
        by (rule Cons.IH) (use f(2) clean n(5) split in simp_all)
      from round_ok_Cons [OF this [unfolded bs_def]] False nostop show ?thesis unfolding run by (simp add: bs_def)
    qed
  qed
qed

end
