(* ===== verification/SessionSystem.thy ===== *)
theory SessionSystem
  imports SessionStream
begin

text \<open>
  Output sessions over their whole life: rounds of model tokens and of injected control tokens are
  previewed and committed, the content passes through the tool-call decoder, and the session ends
  with a finish reason.
\<close>

section \<open>Committing a preview\<close>

definition tool_ok :: "output_contract option \<Rightarrow> nat \<Rightarrow> string \<Rightarrow> string \<Rightarrow> decoder \<Rightarrow> bool" where
  "tool_ok contract n t vis d \<longleftrightarrow>
    \<not> td_finished d \<and> td_contract d = contract \<and> td_max_tool_name_length d = n \<and>
    (case contract of None \<Rightarrow> vis = t | Some c \<Rightarrow> decoder_inv t vis d)"

text \<open>What the client gets for a complete content text: content, calls and diagnostics.\<close>

definition tool_result ::
  "json_lib \<Rightarrow> output_contract option \<Rightarrow> nat \<Rightarrow> string \<Rightarrow> string \<times> generated_call list \<times> diagnostics" where
  "tool_result J contract n t =
    (case contract of
       None \<Rightarrow> (t, [], no_diagnostics)
     | Some c \<Rightarrow>
         let p = parse_qwen_tool_call_output J t n c in (po_content p, po_tool_calls p, po_diagnostics p))"

lemma make_decoder_ok: "tool_ok contract n [] [] (make_decoder contract n)"
  using make_decoder_inv [of contract n] by (auto simp: tool_ok_def make_decoder_def split: option.splits)

lemma tool_feed:
  assumes "tool_ok contract n t vis d"
  obtains v d' where "decoder_feed d s = Inr (v, d')" and "tool_ok contract n (t @ s) (vis @ v) d'"
proof (cases contract)
  case None
  then show ?thesis using assms that [of s d] by (simp add: tool_ok_def decoder_feed_def)
next
  case (Some c)
  with assms have "decoder_inv t vis d" "td_contract d = Some c" "\<not> td_finished d" by (auto simp: tool_ok_def)
  from decoder_feed_inv [OF this, of s] Some assms that show ?thesis by (metis tool_ok_def option.case(2))
qed

lemma tool_finish:
  assumes "tool_ok contract n t vis d"
  obtains tm d' where "decoder_finish J d = Inr (tm, d')"
    and "(vis @ tm_content tm, tm_tool_calls tm, tm_diagnostics tm) = tool_result J contract n t"
proof (cases contract)
  case None
  then show ?thesis
    using assms that [of "\<lparr>tm_content = [], tm_tool_calls = [], tm_diagnostics = no_diagnostics\<rparr>" "d\<lparr>td_finished := True\<rparr>"]
    by (simp add: tool_ok_def decoder_finish_def tool_result_def)
next
  case (Some c)
  with assms have "decoder_inv t vis d" "td_contract d = Some c" "\<not> td_finished d" "td_max_tool_name_length d = n"
    by (auto simp: tool_ok_def)
  from decoder_finish_batch [OF this(1-3), of J] this(4) Some that show ?thesis
    by (auto simp: tool_result_def Let_def)
qed

lemma decode_deltas_ok:
  assumes "tool_ok contract n t vis d"
  shows "\<exists>out d'. decode_deltas raw d = Inr (out, d') \<and> map fst out = map fst raw \<and>
    text_of Reasoning out = text_of Reasoning raw \<and>
    tool_ok contract n (t @ text_of Content raw) (vis @ text_of Content out) d'"
  using assms
proof (induction raw arbitrary: t vis d)
  case (Cons delta raw)
  obtain ch x where delta: "delta = (ch, x)" by fastforce
  show ?case
  proof (cases ch)
    case Content
    obtain v d1 where f: "decoder_feed d x = Inr (v, d1)" "tool_ok contract n (t @ x) (vis @ v) d1"
      by (rule tool_feed [OF Cons.prems])
    from Cons.IH [OF f(2)] f(1) show ?thesis by (auto simp: delta Content)
  next
    case Reasoning
    from Cons.IH [OF Cons.prems] show ?thesis by (auto simp: delta Reasoning)
  qed
qed simp

lemma append_content_None: "append_content out t = None \<longleftrightarrow> Content \<notin> fst ` set out"
  by (induction out t rule: append_content.induct) (auto split: option.splits)

lemma no_content: "Content \<notin> fst ` set out \<Longrightarrow> text_of Content out = []"
  by (force simp: text_of_def)

lemma append_content_Some:
  "append_content out t = Some out' \<Longrightarrow>
    text_of Content out' = text_of Content out @ t \<and> text_of Reasoning out' = text_of Reasoning out"
  by (induction out t arbitrary: out' rule: append_content.induct)
    (auto simp: append_content_None no_content split: option.splits if_splits)

lemma append_content_channels: "append_content out t = Some out' \<Longrightarrow> map fst out' = map fst out"
  by (induction out t arbitrary: out' rule: append_content.induct) (auto split: option.splits if_splits)

lemma accepts_map: "map fst a = map fst b \<Longrightarrow> accepts ch a = accepts ch b"
  by (cases ch) (simp_all only: accepts.simps)

lemma accepts_length: "accepts ch out \<Longrightarrow> length out \<le> 2"
  by (cases ch) (auto simp: accepts.simps)

text \<open>What a commit leaves: the previewed state, no preview, and the output behind the tool-call decoder.\<close>

lemma commit_live:
  assumes "se_preview_ready s" and "tool_ok contract n t vis (se_tool_call_output s)"
    and "\<not> ds_terminal (pv_state (se_preview s))"
  obtains out s' where "commit_preview J s = Inr (out, s')"
    and "se_state s' = pv_state (se_preview s)" and "se_semantic s' = pv_semantic (se_preview s)"
    and "se_prefix s' = pv_prefix (se_preview s)" and "\<not> se_preview_ready s'"
    and "se_policy s' = se_policy s" and "se_split_reasoning s' = se_split_reasoning s"
    and "se_preserve_special s' = se_preserve_special s"
    and "se_thinking_control_tokens s' = se_thinking_control_tokens s"
    and "text_of Reasoning out = text_of Reasoning (pv_output (se_preview s))"
    and "tool_ok contract n (t @ text_of Content (pv_output (se_preview s))) (vis @ text_of Content out)
      (se_tool_call_output s')"
    and "map fst out = map fst (pv_output (se_preview s))"
proof -
  from decode_deltas_ok [OF assms(2), of "pv_output (se_preview s)"] obtain out d where
    "decode_deltas (pv_output (se_preview s)) (se_tool_call_output s) = Inr (out, d)"
    "map fst out = map fst (pv_output (se_preview s))"
    "text_of Reasoning out = text_of Reasoning (pv_output (se_preview s))"
    "tool_ok contract n (t @ text_of Content (pv_output (se_preview s))) (vis @ text_of Content out) d" by blast
  then show ?thesis using assms that by (auto simp: commit_preview_def Let_def)
qed

lemma commit_terminal:
  assumes "se_preview_ready s" and "tool_ok contract n t vis (se_tool_call_output s)"
    and "ds_terminal (pv_state (se_preview s))" and "accepts Content (pv_output (se_preview s))"
  obtains out s' where "commit_preview J s = Inr (out, s')"
    and "se_state s' = pv_state (se_preview s)" and "se_policy s' = se_policy s"
    and "se_semantic s' = pv_semantic (se_preview s)"
    and "text_of Reasoning out = text_of Reasoning (pv_output (se_preview s))"
    and "(vis @ text_of Content out, se_tool_calls s', se_tool_call_parse s') =
      tool_result J contract n (t @ text_of Content (pv_output (se_preview s)))"
    and "accepts Content out"
proof -
  let ?raw = "pv_output (se_preview s)"
  from decode_deltas_ok [OF assms(2), of ?raw] obtain out d where o:
    "decode_deltas ?raw (se_tool_call_output s) = Inr (out, d)" "map fst out = map fst ?raw"
    "text_of Reasoning out = text_of Reasoning ?raw"
    "tool_ok contract n (t @ text_of Content ?raw) (vis @ text_of Content out) d" by blast
  obtain tm d' where f: "decoder_finish J d = Inr (tm, d')"
    "((vis @ text_of Content out) @ tm_content tm, tm_tool_calls tm, tm_diagnostics tm) =
      tool_result J contract n (t @ text_of Content ?raw)"
    by (rule tool_finish [OF o(4)])
  have "\<exists>out'. (if tm_content tm = [] then Inr out else case append_content out (tm_content tm) of
        Some out' \<Rightarrow> Inr out' | None \<Rightarrow> push_back out (Content, tm_content tm)) = Inr out' \<and>
      text_of Reasoning out' = text_of Reasoning out \<and> text_of Content out' = text_of Content out @ tm_content tm \<and>
      accepts Content out'"
  proof (cases "append_content out (tm_content tm)")
    case None
    then have "Content \<notin> set (map fst out)" by (simp add: append_content_None)
    moreover have "accepts Content out" using assms(4) accepts_map [OF o(2)] by blast
    ultimately show ?thesis using None by (auto simp: push_back_def accepts.simps)
  next
    case (Some out')
    have "accepts Content out'" using assms(4) accepts_map [OF o(2)] accepts_map [OF append_content_channels [OF Some]] by blast
    moreover have "accepts Content out" using assms(4) accepts_map [OF o(2)] by blast
    ultimately show ?thesis using append_content_Some [OF Some] Some by simp
  qed
  then obtain out' where o': "(if tm_content tm = [] then Inr out else case append_content out (tm_content tm) of
        Some out' \<Rightarrow> Inr out' | None \<Rightarrow> push_back out (Content, tm_content tm)) = Inr out'"
    "text_of Reasoning out' = text_of Reasoning out" "text_of Content out' = text_of Content out @ tm_content tm"
    "accepts Content out'"
    by blast
  let ?s = "s\<lparr>se_state := pv_state (se_preview s), se_semantic := pv_semantic (se_preview s),
    se_prefix := pv_prefix (se_preview s),
    se_preview := (se_preview s)\<lparr>pv_state := se_state s, pv_semantic := se_semantic s, pv_prefix := se_prefix s,
      pv_output := []\<rparr>, se_preview_ready := False, se_tool_call_output := d', se_tool_calls := tm_tool_calls tm,
    se_tool_call_parse := tm_diagnostics tm\<rparr>"
  have "commit_preview J s = Inr (out', ?s)"
    using assms(1,3) o(1) f(1) o'(1)
    by (cases "append_content out (tm_content tm)") (auto simp: commit_preview_def Let_def split: if_splits)
  then show ?thesis by (rule that) (use o(3) o'(2-4) f(2) in simp_all)
qed

section \<open>The thinking budget\<close>

text \<open>While thinking is open, the tracker has not missed a closing tag in the bytes \<open>Y\<close> seen so far.\<close>

definition tracks_think :: "string \<Rightarrow> thinking \<Rightarrow> bool" where
  "tracks_think Y th \<longleftrightarrow>
    (th_in_reasoning th \<longrightarrow> find_sub kThinkClose Y = None \<and> th_close_pending th = think_pending Y)"

lemma feed_semantic_tracks: "tracks_think Y th \<Longrightarrow> tracks_think (Y @ bs) (feed_semantic_thinking th bs)"
  using channels_open(1,4) [of Y bs]
  by (auto simp: tracks_think_def feed_semantic_thinking_def Let_def)

definition budget_kept :: "thinking \<Rightarrow> bool" where
  "budget_kept th \<longleftrightarrow>
    (th_applied th \<longrightarrow> \<not> th_in_reasoning th) \<and> (\<exists>Y. tracks_think Y th) \<and>
    (\<forall>b. th_budget th = Some b \<longrightarrow> th_model_thinking_tokens th \<le> b)"

text \<open>Between rounds, control is due exactly when the budget is used up and thinking still open.\<close>

definition control_due :: "thinking \<Rightarrow> bool" where
  "control_due th \<longleftrightarrow> th_in_reasoning th \<and> th_budget th = Some (th_model_thinking_tokens th)"

lemma feed_semantic_pending: "\<not> th_control_pending th \<Longrightarrow> \<not> th_control_pending (feed_semantic_thinking th bs)"
  by (auto simp: feed_semantic_thinking_def Let_def)

lemma note_token_budget:
  assumes "note_token pv c bs = Inr pv1" and "budget_kept (pv_semantic pv)" and "\<not> th_control_pending (pv_semantic pv)"
  shows "budget_kept (pv_semantic pv1) \<and> \<not> th_control_pending (pv_semantic pv1) \<and>
    th_budget (pv_semantic pv1) = th_budget (pv_semantic pv)"
proof (cases "th_in_reasoning (pv_semantic pv)")
  case False
  then show ?thesis using assms by (auto simp: note_token_def Let_def split_def split: if_splits)
next
  case True
  let ?th = "(pv_semantic pv)\<lparr>th_model_thinking_tokens := th_model_thinking_tokens (pv_semantic pv) + 1\<rparr>"
  from assms(1) True have sem: "pv_semantic pv1 = feed_semantic_thinking ?th bs"
    and le: "\<And>b. th_budget ?th = Some b \<Longrightarrow> th_model_thinking_tokens ?th \<le> b"
    by (auto simp: note_token_def Let_def split_def split: if_splits option.splits)
  from assms(2) obtain Y where "tracks_think Y ?th" by (auto simp: budget_kept_def tracks_think_def)
  from feed_semantic_tracks [OF this, of bs] have "budget_kept (pv_semantic pv1)"
    using le assms(2) True unfolding sem budget_kept_def feed_semantic_fields by auto
  moreover have "\<not> th_control_pending (pv_semantic pv1)"
    unfolding sem by (rule feed_semantic_pending) (use assms(3) in simp)
  ultimately show ?thesis by (simp add: sem feed_semantic_fields)
qed

lemma complete_semantic:
  assumes "complete_preview s pv n reason cont = Inr (dec, s')"
  shows "de_finish_reason dec = reason" and "de_continuation dec = cont"
    and "pv_semantic (se_preview s') =
      (if reason = FinishNone then pv_semantic pv else (pv_semantic pv)\<lparr>th_control_pending := False\<rparr>)"
  using assms by (auto simp: complete_preview_def Let_def split: if_splits)

lemma budget_kept_pending [simp]: "budget_kept (th\<lparr>th_control_pending := x\<rparr>) = budget_kept th"
  by (simp add: budget_kept_def tracks_think_def)

lemma preview_loop_budget:
  assumes "preview_loop decode s budget limit count tokens pv = Inr (dec, s')" and "limit \<noteq> FinishNone"
    and "budget_kept (pv_semantic pv)" and "\<not> th_control_pending (pv_semantic pv)"
  shows "budget_kept (pv_semantic (se_preview s')) \<and>
    th_budget (pv_semantic (se_preview s')) = th_budget (pv_semantic pv) \<and>
    (de_finish_reason dec = FinishNone \<longrightarrow>
      th_control_pending (pv_semantic (se_preview s')) = control_due (pv_semantic (se_preview s')) \<and>
      (de_continuation dec = ApplyTargetControl) = control_due (pv_semantic (se_preview s')))"
  using assms
proof (induction tokens arbitrary: count pv)
  case Nil
  consider st out where "complete_preview s (pv\<lparr>pv_state := st, pv_output := out\<rparr>) count limit Decode = Inr (dec, s')"
    | "control_due (pv_semantic pv)"
      "complete_preview s (pv\<lparr>pv_semantic := (pv_semantic pv)\<lparr>th_control_pending := True\<rparr>\<rparr>) count FinishNone
        ApplyTargetControl = Inr (dec, s')"
    | "\<not> control_due (pv_semantic pv)" "complete_preview s pv count FinishNone Decode = Inr (dec, s')"
    using Nil.prems(1) by (auto simp: control_due_def rbind_Inr_iff split: if_splits)
  then show ?case
    by cases (use Nil.prems(2-) complete_semantic in \<open>force simp: control_due_def\<close>)+
next
  case (Cons t ts)
  obtain bs special where d: "decode t = (bs, special)" by fastforce
  let ?bs = "if \<not> se_preserve_special s \<and> special then [] else bs"
  note run = Cons.prems(1) [unfolded preview_loop.simps d prod.case Let_def]
  from run obtain pv1 where n: "note_token pv (count + 1) bs = Inr pv1" by (elim rbind_InrE)
  note b = note_token_budget [OF n Cons.prems(3,4)]
  from run [unfolded n rbind_simps] obtain r where f:
    "feed_token_bytes (se_policy s) (count + 1) ?bs (pv_state pv1, pv_output pv1, Some no_match) = Inr r"
    by (elim rbind_InrE)
  obtain st2 out2 m where r: "r = (st2, out2, m)" by (cases r)
  note run2 = run [unfolded n rbind_simps f r prod.case]
  then obtain x where m: "m = Some x" by (cases m) auto
  note run3 = run2 [unfolded m option.case]
  consider st out reason k where "reason \<noteq> FinishNone"
      "complete_preview s (pv1\<lparr>pv_state := st, pv_output := out\<rparr>) k reason Decode = Inr (dec, s')"
    | st out where "preview_loop decode s budget limit (count + 1) ts (pv1\<lparr>pv_state := st, pv_output := out\<rparr>) = Inr (dec, s')"
  proof (cases "sm_found x")
    case True
    then show ?thesis using run3 that(1) [of StopString] by simp
  next
    case nf: False
    show ?thesis
    proof (cases "t \<in> set (sp_token_ids (se_policy s))")
      case True
      with nf run3 show ?thesis
        by (auto elim!: rbind_InrE intro: that(1) [of StopToken])
    next
      case False
      with nf run3 that(2) show ?thesis by simp
    qed
  qed
  then show ?case
  proof cases
    case 1
    from complete_semantic [OF 1(2)] 1(1) b show ?thesis by simp
  next
    case 2
    from Cons.IH [OF 2 Cons.prems(2)] b show ?thesis by simp
  qed
qed

section \<open>Runs\<close>

text \<open>
  The life of a session that has not ended: rounds of model tokens within the licensed budget that do
  not finish, and rounds of control tokens. \<open>B\<close> collects the bytes of the accepted tokens and
  \<open>out\<close> the committed output. The injected control text is not searched for stop strings; a run takes
  only control rounds that leave none in the content.
\<close>

inductive session_run ::
  "(token \<Rightarrow> string \<times> bool) \<Rightarrow> json_lib \<Rightarrow> session \<Rightarrow> string \<Rightarrow> published \<Rightarrow> session \<Rightarrow> bool"
  for decode J s0 where
  start: "session_run decode J s0 [] [] s0"
| model: "session_run decode J s0 (B @ token_bytes decode (se_preserve_special s0) tokens) (out @ new) s2"
  if "session_run decode J s0 B out s" and "length tokens \<le> model_token_budget_remaining n s"
    and "preview_model decode tokens n limit s = Inr (dec, s1)" and "de_finish_reason dec = FinishNone"
    and "commit_preview J s1 = Inr (new, s2)"
| control: "session_run decode J s0 (B @ token_bytes decode (se_preserve_special s0) tokens) (out @ new) s2"
  if "session_run decode J s0 B out s" and "preview_control decode tokens n s = Inr (dec, s1)"
    and "commit_preview J s1 = Inr (new, s2)"
    and "clean (se_policy s0) Content
      (content_text (se_split_reasoning s0) (text_after (B @ token_bytes decode (se_preserve_special s0) tokens)))"

definition session_ok ::
  "output_contract option \<Rightarrow> nat \<Rightarrow> session \<Rightarrow> string \<Rightarrow> published \<Rightarrow> session \<Rightarrow> bool" where
  "session_ok contract n s0 B out s \<longleftrightarrow>
    se_policy s = se_policy s0 \<and> se_split_reasoning s = se_split_reasoning s0 \<and>
    se_preserve_special s = se_preserve_special s0 \<and>
    se_thinking_control_tokens s = se_thinking_control_tokens s0 \<and> \<not> se_preview_ready s \<and>
    budget_kept (se_semantic s) \<and> th_control_pending (se_semantic s) = control_due (se_semantic s) \<and>
    th_budget (se_semantic s) = th_budget (se_semantic s0) \<and>
    searched_clean (se_policy s0) (se_split_reasoning s0) (text_after B) \<and>
    (\<exists>P. stream_ok (se_policy s0) (se_split_reasoning s0) P B (se_state s) [] \<and>
       text_of Reasoning out = P Reasoning \<and> tool_ok contract n (P Content) (text_of Content out) (se_tool_call_output s))"

lemma session_okD:
  assumes "session_ok contract n s0 B out s"
  obtains P where "stream_ok (se_policy s0) (se_split_reasoning s0) P B (se_state s) []"
    and "text_of Reasoning out = P Reasoning"
    and "tool_ok contract n (P Content) (text_of Content out) (se_tool_call_output s)"
  using assms unfolding session_ok_def by blast

lemma session_ok_fields:
  assumes "session_ok contract n s0 B out s"
  shows "se_policy s = se_policy s0" and "se_split_reasoning s = se_split_reasoning s0"
    and "se_preserve_special s = se_preserve_special s0" and "\<not> se_preview_ready s"
    and "budget_kept (se_semantic s)" and "th_control_pending (se_semantic s) = control_due (se_semantic s)"
    and "searched_clean (se_policy s0) (se_split_reasoning s0) (text_after B)"
    and "th_budget (se_semantic s) = th_budget (se_semantic s0)"
    and "se_thinking_control_tokens s = se_thinking_control_tokens s0"
  using assms unfolding session_ok_def by blast+

lemma published_shift:
  assumes "published_ok policy split D P em"
  shows "published_ok policy split D (\<lambda>ch. P ch @ text_of ch em) []"
  using assms by (simp add: published_ok_def)

lemma stream_shift:
  "stream_ok policy split P B st em \<Longrightarrow> stream_ok policy split (\<lambda>ch. P ch @ text_of ch em) B st []"
  by (simp add: stream_ok_def published_shift)

text \<open>The license of the engine leaves room in the thinking budget.\<close>

lemma licensed_room:
  assumes "budget_kept (se_semantic s)" and "length tokens \<le> model_token_budget_remaining n s" and "tokens \<noteq> []"
  shows "room (se_semantic s) (length tokens)"
  using assms by (auto simp: room_def budget_kept_def model_token_budget_remaining_def Let_def split: if_splits)

lemma preview_model_guards:
  assumes "preview_model decode tokens n limit s = Inr r"
  shows "tokens \<noteq> []" and "limit = OutputLimit \<or> limit = ContextCapacity" and "\<not> th_control_pending (se_semantic s)"
    and "preview_loop decode s n limit 0 tokens (begin_preview s) = Inr r"
  using assms by (auto simp: preview_model_def split: if_splits)

text \<open>One licensed round from a session in order.\<close>

lemma loop_from_session:
  assumes "session_ok contract N s0 B out s" and "stops_ok (se_policy s0)"
    and "limit = OutputLimit \<or> limit = ContextCapacity"
    and "length tokens \<le> model_token_budget_remaining n s" and "tokens \<noteq> []"
    and "stream_ok (se_policy s0) (se_split_reasoning s0) P B (se_state s) []"
  shows "round_ok limit decode s P B 0 tokens (preview_loop decode s n limit 0 tokens (begin_preview s))"
proof (rule preview_loop_ok)
  note f = session_ok_fields [OF assms(1)]
  show "stops_ok (se_policy s)" using assms(2) f(1) by simp
  show "stream_ok (se_policy s) (se_split_reasoning s) P B (pv_state (begin_preview s)) (pv_output (begin_preview s))"
    using assms(6) f(1,2) by (simp add: begin_preview_def)
  show "searched_clean (se_policy s) (se_split_reasoning s) (text_after B)" using f(1,2,7) by simp
  show "room (pv_semantic (begin_preview s)) (length tokens)"
    using licensed_room [OF f(5) assms(4,5)] by (simp add: begin_preview_def)
qed (use assms(3) in \<open>simp_all add: begin_preview_def\<close>)

lemma model_round:
  assumes "session_ok contract N s0 B out s" and "stops_ok (se_policy s0)"
    and "length tokens \<le> model_token_budget_remaining n s"
    and "preview_model decode tokens n limit s = Inr (dec, s1)"
    and "stream_ok (se_policy s0) (se_split_reasoning s0) P B (se_state s) []"
  obtains pv where "s1 = s\<lparr>se_preview := pv, se_preview_ready := True\<rparr>"
    and "outcome limit decode s P B tokens (de_finish_reason dec) (de_accepted_tokens dec) pv"
    and "budget_kept (pv_semantic pv)" and "th_budget (pv_semantic pv) = th_budget (se_semantic s)"
    and "de_finish_reason dec = FinishNone \<Longrightarrow> th_control_pending (pv_semantic pv) = control_due (pv_semantic pv)"
    and "de_finish_reason dec = FinishNone \<Longrightarrow>
      (de_continuation dec = ApplyTargetControl) = control_due (pv_semantic pv)"
proof -
  note g = preview_model_guards [OF assms(4)] and f = session_ok_fields [OF assms(1)]
  have "round_ok limit decode s P B 0 tokens (Inr (dec, s1))"
    using loop_from_session [OF assms(1,2) g(2) assms(3) g(1) assms(5), of decode] g(4) by simp
  then obtain pv where pv: "s1 = s\<lparr>se_preview := pv, se_preview_ready := True\<rparr>"
    "outcome limit decode s P B tokens (de_finish_reason dec) (de_accepted_tokens dec) pv"
    unfolding round_ok_def by auto
  have "limit \<noteq> FinishNone" using g(2) by auto
  from preview_loop_budget [OF g(4) this] f(5) g(3) pv(1) pv show ?thesis
    by (intro that [of pv]) (auto simp: begin_preview_def)
qed

lemma model_round_ok:
  assumes "session_ok contract N s0 B out s" and "stops_ok (se_policy s0)"
    and "length tokens \<le> model_token_budget_remaining n s"
    and "preview_model decode tokens n limit s = Inr (dec, s1)" and "de_finish_reason dec = FinishNone"
    and "commit_preview J s1 = Inr (new, s2)"
  shows "session_ok contract N s0 (B @ token_bytes decode (se_preserve_special s0) tokens) (out @ new) s2"
proof -
  obtain P where P: "stream_ok (se_policy s0) (se_split_reasoning s0) P B (se_state s) []"
    "text_of Reasoning out = P Reasoning" "tool_ok contract N (P Content) (text_of Content out) (se_tool_call_output s)"
    by (rule session_okD [OF assms(1)])
  note f = session_ok_fields [OF assms(1)]
  obtain pv where pv: "s1 = s\<lparr>se_preview := pv, se_preview_ready := True\<rparr>"
    "outcome limit decode s P B tokens (de_finish_reason dec) (de_accepted_tokens dec) pv"
    "budget_kept (pv_semantic pv)" "th_budget (pv_semantic pv) = th_budget (se_semantic s)"
    "th_control_pending (pv_semantic pv) = control_due (pv_semantic pv)"
    using model_round [OF assms(1-4) P(1)] assms(5) by metis
  let ?B = "B @ token_bytes decode (se_preserve_special s0) tokens"
  have o: "stream_ok (se_policy s0) (se_split_reasoning s0) P ?B (pv_state pv) (pv_output pv)"
    "searched_clean (se_policy s0) (se_split_reasoning s0) (text_after ?B)"
    using pv(2) f(1-3) by (simp_all add: assms(5) outcome.simps)
  then have live: "\<not> ds_terminal (pv_state (se_preview s1))" by (simp add: pv(1) stream_ok_def)
  have tool: "tool_ok contract N (P Content) (text_of Content out) (se_tool_call_output s1)" using P(3) pv(1) by simp
  obtain new' s2' where c: "commit_preview J s1 = Inr (new', s2')" "se_state s2' = pv_state pv"
    "se_semantic s2' = pv_semantic pv" "\<not> se_preview_ready s2'" "se_policy s2' = se_policy s"
    "se_split_reasoning s2' = se_split_reasoning s" "se_preserve_special s2' = se_preserve_special s"
    "se_thinking_control_tokens s2' = se_thinking_control_tokens s"
    "text_of Reasoning new' = text_of Reasoning (pv_output pv)"
    "tool_ok contract N (P Content @ text_of Content (pv_output pv)) (text_of Content out @ text_of Content new')
      (se_tool_call_output s2')"
    using commit_live [OF _ tool live, of J] pv(1) by simp metis
  have "new' = new" "s2' = s2" using c(1) assms(6) by simp_all
  note c = c [unfolded this]
  show ?thesis unfolding session_ok_def
    using c(2-8) f o(2) pv(3-5) stream_shift [OF o(1)] c(9,10) P(2)
    by (intro conjI exI [where x = "\<lambda>ch. P ch @ text_of ch (pv_output pv)"]) simp_all
qed

lemma control_loop_ok:
  assumes "stops_ok (se_policy s)"
    and "stream_ok (se_policy s) (se_split_reasoning s) P B (pv_state pv) (pv_output pv)"
  shows "\<exists>pv'. control_loop decode s index tokens pv = Inr pv' \<and>
    stream_ok (se_policy s) (se_split_reasoning s) P (B @ token_bytes decode (se_preserve_special s) tokens)
      (pv_state pv') (pv_output pv') \<and>
    th_budget (pv_semantic pv') = th_budget (pv_semantic pv) \<and>
    th_model_thinking_tokens (pv_semantic pv') = th_model_thinking_tokens (pv_semantic pv)"
  using assms(2)
proof (induction tokens arbitrary: B index pv)
  case (Cons t ts)
  define bs where "bs = shown (se_preserve_special s) (decode t)"
  obtain bytes special where d: "decode t = (bytes, special)" by fastforce
  then have bs: "(if \<not> se_preserve_special s \<and> special then [] else bytes) = bs" by (simp add: shown_def bs_def)
  obtain boundary pt where t: "tracker_feed (pv_prefix pv) bytes = (boundary, pt)" by fastforce
  define st where "st = (if ds_in_reasoning (pv_state pv)
    then (pv_state pv)\<lparr>ds_reasoning_tokens := ds_reasoning_tokens (pv_state pv) + 1\<rparr> else pv_state pv)"
  have "stream_ok (se_policy s) (se_split_reasoning s) P B st (pv_output pv)"
    using Cons.prems stream_ok_tokens by (simp add: st_def)
  then obtain st2 out2 where f:
    "feed_token_bytes (se_policy s) (index + 1) bs (st, pv_output pv, None) = Inr (st2, out2, None)"
    "stream_ok (se_policy s) (se_split_reasoning s) P (B @ bs) st2 out2"
    using feed_token_exact [OF assms(1), of "se_split_reasoning s" P B st "pv_output pv" None "index + 1" bs] by blast
  let ?pv = "pv\<lparr>pv_prefix := pt, pv_split_after := (if boundary = Some (length bytes) then Some (index + 1) else pv_split_after pv),
    pv_semantic := feed_semantic_thinking (pv_semantic pv) bytes, pv_state := st2, pv_output := out2\<rparr>"
  have run: "control_loop decode s index (t # ts) pv = control_loop decode s (index + 1) ts ?pv"
    unfolding control_loop.simps d prod.case t Let_def bs st_def [symmetric] f(1) rbind_simps ..
  from f(2) have "stream_ok (se_policy s) (se_split_reasoning s) P (B @ bs) (pv_state ?pv) (pv_output ?pv)" by simp
  from Cons.IH [OF this, of "index + 1"] show ?case unfolding run by (simp add: bs_def feed_semantic_fields)
qed simp

lemma control_round_ok:
  assumes "session_ok contract N s0 B out s" and "stops_ok (se_policy s0)"
    and "preview_control decode tokens n s = Inr (dec, s1)" and "commit_preview J s1 = Inr (new, s2)"
    and "clean (se_policy s0) Content
      (content_text (se_split_reasoning s0) (text_after (B @ token_bytes decode (se_preserve_special s0) tokens)))"
  shows "session_ok contract N s0 (B @ token_bytes decode (se_preserve_special s0) tokens) (out @ new) s2"
proof -
  obtain P where P: "stream_ok (se_policy s0) (se_split_reasoning s0) P B (se_state s) []"
    "text_of Reasoning out = P Reasoning" "tool_ok contract N (P Content) (text_of Content out) (se_tool_call_output s)"
    by (rule session_okD [OF assms(1)])
  note f = session_ok_fields [OF assms(1)]
  let ?B = "B @ token_bytes decode (se_preserve_special s0) tokens"
  have "stops_ok (se_policy s)" "stream_ok (se_policy s) (se_split_reasoning s) P B (pv_state (begin_preview s)) (pv_output (begin_preview s))"
    using assms(2) P(1) f(1,2) by (simp_all add: begin_preview_def)
  from control_loop_ok [OF this, of decode 0 tokens] f(1-3) obtain pv where pv:
    "control_loop decode s 0 tokens (begin_preview s) = Inr pv"
    "stream_ok (se_policy s0) (se_split_reasoning s0) P ?B (pv_state pv) (pv_output pv)"
    "th_budget (pv_semantic pv) = th_budget (se_semantic s)"
    "th_model_thinking_tokens (pv_semantic pv) = th_model_thinking_tokens (se_semantic s)"
    by (auto simp: begin_preview_def)
  let ?th = "(pv_semantic pv)\<lparr>th_control_pending := False, th_applied := True, th_injected_tokens := length tokens\<rparr>"
  from assms(3) pv(1) have s1: "s1 = s\<lparr>se_preview := pv\<lparr>pv_semantic := ?th\<rparr>, se_preview_ready := True\<rparr>"
    and closed: "\<not> th_in_reasoning (pv_semantic pv)" "\<not> (se_split_reasoning s \<and> ds_in_reasoning (pv_state pv))"
    by (auto simp: preview_control_def Let_def split: if_splits)
  have open': "\<not> reasoning_open (se_split_reasoning s0) (text_after ?B)"
    using closed(2) pv(2) f(2) by (auto simp: stream_ok_def decoder_ok_def)
  then have clean: "searched_clean (se_policy s0) (se_split_reasoning s0) (text_after ?B)"
    unfolding both_clean_def using assms(5) by blast
  have live: "\<not> ds_terminal (pv_state (se_preview s1))" using pv(2) by (simp add: s1 stream_ok_def)
  have tool: "tool_ok contract N (P Content) (text_of Content out) (se_tool_call_output s1)" using P(3) s1 by simp
  obtain new' s2' where c: "commit_preview J s1 = Inr (new', s2')" "se_state s2' = pv_state pv"
    "se_semantic s2' = ?th" "\<not> se_preview_ready s2'" "se_policy s2' = se_policy s"
    "se_split_reasoning s2' = se_split_reasoning s" "se_preserve_special s2' = se_preserve_special s"
    "se_thinking_control_tokens s2' = se_thinking_control_tokens s"
    "text_of Reasoning new' = text_of Reasoning (pv_output pv)"
    "tool_ok contract N (P Content @ text_of Content (pv_output pv)) (text_of Content out @ text_of Content new')
      (se_tool_call_output s2')"
    using commit_live [OF _ tool live, of J] s1 by simp metis
  have "new' = new" "s2' = s2" using c(1) assms(4) by simp_all
  note c = c [unfolded this]
  have th: "budget_kept ?th" "th_control_pending ?th = control_due ?th" "th_budget ?th = th_budget (se_semantic s0)"
    using f(5,8) pv(3,4) closed(1) by (auto simp: budget_kept_def control_due_def tracks_think_def)
  show ?thesis unfolding session_ok_def
    using c(2-8) f clean th stream_shift [OF pv(2)] c(9,10) P(2)
    by (intro conjI exI [where x = "\<lambda>ch. P ch @ text_of ch (pv_output pv)"]) simp_all
qed

lemma clean_Nil: "stops_ok policy \<Longrightarrow> clean policy ch []"
  by (auto simp: clean_def stops_ok_def)

lemma channels_Nil [simp]: "reasoning_text split [] = []" "content_text split [] = []"
  by (simp_all add: reasoning_text_def content_text_def split: option.splits)

text \<open>Sessions as the frontend makes them.\<close>

definition started :: "session \<Rightarrow> bool" where
  "started s0 \<longleftrightarrow>
    (\<exists>valid_text is_valid_token default_stops control_tokens prompt caller raw preserve N budget.
       make_output_session valid_text is_valid_token default_stops control_tokens prompt caller raw preserve N budget =
         Inr s0)"

abbreviation contract_of :: "session \<Rightarrow> output_contract option" where
  "contract_of s \<equiv> td_contract (se_tool_call_output s)"

abbreviation name_limit :: "session \<Rightarrow> nat" where
  "name_limit s \<equiv> td_max_tool_name_length (se_tool_call_output s)"

lemma merge_stops_ok:
  assumes "merge_stop_policy valid_text is_valid_token default_stops caller = Inr policy"
  shows "stops_ok policy"
proof -
  from assms obtain strings where "rfold (append_stop valid_text) (sp_strings caller) [] = Inr strings"
    and "sp_strings policy = strings"
    by (auto simp: merge_stop_policy_def rbind_Inr_iff)
  moreover have "\<forall>stop\<in>set strings. st_text stop \<noteq> []"
    by (rule rfold_invariant [OF calculation(1)]) (auto simp: append_stop_def split: if_splits)
  ultimately show ?thesis by (simp add: stops_ok_def)
qed

lemma started_policy:
  assumes "started s0"
  obtains policy raw preserve N starts budget control contract where "stops_ok policy"
    and "make_session policy raw preserve N starts budget control contract = Inr s0"
proof -
  from assms obtain valid_text is_valid_token default_stops control_tokens prompt caller raw preserve N budget
    where "make_output_session valid_text is_valid_token default_stops control_tokens prompt caller raw preserve N budget =
      Inr s0" unfolding started_def by blast
  then obtain starts contract policy where
    "merge_stop_policy valid_text is_valid_token default_stops caller = Inr policy"
    "make_session (if raw then policy\<lparr>sp_publish_stop_token := True\<rparr> else policy) raw preserve N starts budget
      (Some control_tokens) contract = Inr s0"
    by (auto simp: make_output_session_def rbind_Inr_iff split: option.splits)
  moreover from merge_stops_ok [OF this(1)]
  have "stops_ok (if raw then policy\<lparr>sp_publish_stop_token := True\<rparr> else policy)" by (simp add: stops_ok_def)
  ultimately show ?thesis using that by blast
qed

lemma make_session_ok:
  assumes "make_session policy raw preserve N starts budget control contract = Inr s0" and "stops_ok policy"
  shows "session_ok (contract_of s0) (name_limit s0) s0 [] [] s0" and "se_policy s0 = policy"
proof -
  have s0: "se_policy s0 = policy" "\<not> se_preview_ready s0" "th_applied (se_semantic s0) = False"
    "th_model_thinking_tokens (se_semantic s0) = 0" "th_control_pending (se_semantic s0) = False"
    "se_state s0 = initial_state (se_split_reasoning s0)" "th_budget (se_semantic s0) \<noteq> Some 0"
    "se_tool_call_output s0 = make_decoder (contract_of s0) (name_limit s0)"
    "th_close_pending (se_semantic s0) = []"
    using assms(1) by (auto simp: make_session_def make_decoder_def Let_def split: if_splits)
  let ?split = "se_split_reasoning s0"
  have "find_sub kThinkClose [] = None" by simp
  then have "stream_ok policy ?split (\<lambda>ch. []) [] (se_state s0) []"
    by (simp add: stream_ok_def decoder_ok_def published_ok_def s0(6) initial_state_def)
  moreover have "searched_clean policy ?split (text_after [])"
    using clean_Nil [OF assms(2)] by (simp add: both_clean_def)
  moreover have "budget_kept (se_semantic s0)" "\<not> control_due (se_semantic s0)"
    using s0(3-5,7,9) by (auto simp: budget_kept_def control_due_def tracks_think_def intro: exI [where x = "[]"])
  moreover have "tool_ok (contract_of s0) (name_limit s0) [] [] (se_tool_call_output s0)"
    using make_decoder_ok [of "contract_of s0" "name_limit s0"] s0(8) by simp
  ultimately show "session_ok (contract_of s0) (name_limit s0) s0 [] [] s0"
    unfolding session_ok_def using s0(1,2,5) by (intro conjI exI [where x = "\<lambda>ch. []"]) simp_all
  show "se_policy s0 = policy" by (rule s0(1))
qed

lemma session_run_ok:
  assumes "session_run decode J s0 B out s" and "session_ok contract N s0 [] [] s0" and "stops_ok (se_policy s0)"
  shows "session_ok contract N s0 B out s"
  using assms(1)
proof induction
  case start
  show ?case by (rule assms(2))
next
  case (model B out s tokens n limit dec s1 new s2)
  show ?case by (rule model_round_ok [OF model.IH assms(3) model.hyps(2-5)])
next
  case (control B out s tokens n dec s1 new s2)
  show ?case by (rule control_round_ok [OF control.IH assms(3) control.hyps(2-4)])
qed

lemma started_run_ok:
  assumes "started s0" and "session_run decode J s0 B out s"
  shows "session_ok (contract_of s0) (name_limit s0) s0 B out s" and "stops_ok (se_policy s0)"
proof -
  obtain policy raw preserve N starts budget control contract where p: "stops_ok policy"
    "make_session policy raw preserve N starts budget control contract = Inr s0"
    by (rule started_policy [OF assms(1)])
  note m = make_session_ok [OF p(2,1)]
  show "stops_ok (se_policy s0)" using m(2) p(1) by simp
  from session_run_ok [OF assms(2) m(1) this] show "session_ok (contract_of s0) (name_limit s0) s0 B out s" .
qed

section \<open>A small session\<close>

text \<open>
  Every token reads \<open>ab\<close> and \<open>bab\<close> is a stop string of the content: the first round publishes \<open>a\<close>
  and holds \<open>b\<close>, and the second one stops.
\<close>

definition demo_decode :: "token \<Rightarrow> string \<times> bool" where
  "demo_decode t = (''ab'', False)"

definition demo_json :: json_lib where
  "demo_json = \<lparr>jl_accept = (\<lambda>s. False), jl_dump = (\<lambda>s. s)\<rparr>"

definition demo_policy :: stop_policy where
  "demo_policy =
    \<lparr>sp_token_ids = [], sp_strings = [\<lparr>st_text = ''bab'', st_channel = Content, st_include_in_output = False\<rparr>],
     sp_include_model_defaults = True, sp_publish_stop_token = False\<rparr>"

definition demo_start :: session where
  "demo_start =
    projr (make_output_session (\<lambda>s. True) (\<lambda>t. True) [] [0] (Some (False, None)) demo_policy False False 64 None)"

definition demo_preview :: "session \<Rightarrow> nat \<Rightarrow> decision \<times> session" where
  "demo_preview s n = projr (preview_model demo_decode [0] n OutputLimit s)"

definition demo_commit :: "session \<Rightarrow> published \<times> session" where
  "demo_commit s = projr (commit_preview demo_json s)"

definition demo_next :: session where
  "demo_next = snd (demo_commit (snd (demo_preview demo_start 9)))"

lemma returned: "\<not> isl m \<Longrightarrow> m = Inr (projr m)"
  by simp

lemma demo_started: "started demo_start"
proof -
  have "\<not> isl (make_output_session (\<lambda>s. True) (\<lambda>t. True) [] [0] (Some (False, None)) demo_policy False False 64 None)"
    by code_simp
  from returned [OF this] show ?thesis unfolding started_def demo_start_def by blast
qed

lemma demo_preview_eq:
  assumes "\<not> isl (preview_model demo_decode [0] n OutputLimit s)"
  shows "preview_model demo_decode [0] n OutputLimit s = Inr (fst (demo_preview s n), snd (demo_preview s n))"
  using returned [OF assms] by (simp add: demo_preview_def)

lemma demo_commit_eq:
  assumes "\<not> isl (commit_preview demo_json s)"
  shows "commit_preview demo_json s = Inr (fst (demo_commit s), snd (demo_commit s))"
  using returned [OF assms] by (simp add: demo_commit_def)

lemma demo_run: "session_run demo_decode demo_json demo_start ''ab'' [(Content, ''a'')] demo_next"
proof -
  have "\<not> isl (preview_model demo_decode [0] 9 OutputLimit demo_start)"
    "\<not> isl (commit_preview demo_json (snd (demo_preview demo_start 9)))"
    by code_simp+
  note eqs = demo_preview_eq [OF this(1)] demo_commit_eq [OF this(2)]
  have facts: "length [0 :: token] \<le> model_token_budget_remaining 9 demo_start"
    "de_finish_reason (fst (demo_preview demo_start 9)) = FinishNone"
    "token_bytes demo_decode (se_preserve_special demo_start) [0] = ''ab''"
    "fst (demo_commit (snd (demo_preview demo_start 9))) = [(Content, ''a'')]"
    by code_simp+
  from session_run.model [OF session_run.start facts(1) eqs(1) facts(2) eqs(2)] facts(3,4)
  show ?thesis by (simp add: demo_next_def)
qed

section \<open>Properties of output sessions\<close>

text \<open>Characters that are complete pass the decoder unchanged.\<close>

lemma text_after_verbatim:
  "list_all scalar cps \<Longrightarrow> text_after (utf8_text cps @ t) = utf8_text cps @ text_after t"
  using consume_append [of "utf8_text cps" t] consume_utf8_text [of cps] by (simp add: list_all_iff)

text \<open>
  C23. What a client has received while a session runs, in every channel, is the text of the
  accepted tokens up to the hold-back: the reasoning is the decoded text before the closing think
  tag, the content the text behind the tag without its leading white space, and of an open channel
  exactly the longest ending is withheld that begins a stop string of the channel without completing
  it, and of the reasoning the longest ending that begins the closing tag. It
  depends on the bytes alone and not on how they were cut into tokens and rounds. No stop
  string occurs in the searched text, and the decoded text is the bytes themselves as far as they
  are the UTF-8 form of Unicode scalar values. The statement on the content is for sessions without a
  tool-call contract; with one the content is the text the tool-call decoder has released.
\<close>

theorem session_streams:
  assumes "started s0" and "session_run decode J s0 B out s"
  shows "text_of Reasoning out =
      (if reasoning_open (se_split_reasoning s0) (text_after B)
       then streamable (se_policy s0) Reasoning (reasoning_so_far (se_split_reasoning s0) (text_after B))
       else reasoning_so_far (se_split_reasoning s0) (text_after B)) \<and>
    (contract_of s0 = None \<longrightarrow>
      text_of Content out = streamable (se_policy s0) Content (content_text (se_split_reasoning s0) (text_after B))) \<and>
    searched_clean (se_policy s0) (se_split_reasoning s0) (text_after B) \<and>
    (\<forall>cps t. list_all scalar cps \<longrightarrow> B = utf8_text cps @ t \<longrightarrow> text_after B = utf8_text cps @ text_after t)"
proof -
  note ok = started_run_ok [OF assms]
  obtain P where P: "stream_ok (se_policy s0) (se_split_reasoning s0) P B (se_state s) []"
    "text_of Reasoning out = P Reasoning"
    "tool_ok (contract_of s0) (name_limit s0) (P Content) (text_of Content out) (se_tool_call_output s)"
    by (rule session_okD [OF ok(1)])
  have "published_ok (se_policy s0) (se_split_reasoning s0) (text_after B) P []" using P(1) by (simp add: stream_ok_def)
  then show ?thesis using P(2,3) session_ok_fields(7) [OF ok(1)]
    unfolding reasoning_so_far_eq visible_streamable [OF ok(2), symmetric]
    by (auto simp: published_ok_def tool_ok_def text_after_verbatim split: option.splits)
qed

theorem session_streams_witness:
  "''a'' = streamable demo_policy Content (content_text False (text_after ''ab'')) \<and>
    searched_clean demo_policy False (text_after ''ab'') \<and> text_after ''ab'' = ''ab''"
proof -
  have "se_policy demo_start = demo_policy" "contract_of demo_start = None" "se_split_reasoning demo_start = False"
    by code_simp+
  note facts = this
  have "text_of Content [(Content, ''a'')] = ''a''" by simp
  moreover have "list_all scalar [97, 98]" "''ab'' = utf8_text [97, 98] @ []"
    by (simp_all add: scalar_def utf8_text_def encode_def char_of_def bit_0)
  then have "text_after ''ab'' = utf8_text [97, 98] @ text_after []"
    using session_streams [OF demo_started demo_run] by blast
  then have "text_after ''ab'' = ''ab''" using \<open>''ab'' = utf8_text [97, 98] @ []\<close> by simp
  ultimately show ?thesis using session_streams [OF demo_started demo_run, unfolded facts] by metis
qed

text \<open>The last round of a session.\<close>

lemma final_round:
  assumes "started s0" and "session_run decode J s0 B out s"
    and "length tokens \<le> model_token_budget_remaining n s"
    and "preview_model decode tokens n limit s = Inr (dec, s1)" and "commit_preview J s1 = Inr (new, s2)"
    and "de_finish_reason dec \<noteq> FinishNone"
  obtains P pv where "outcome limit decode s P B tokens (de_finish_reason dec) (de_accepted_tokens dec) pv"
    and "text_of Reasoning (out @ new) = P Reasoning @ text_of Reasoning (pv_output pv)"
    and "(text_of Content (out @ new), se_tool_calls s2, se_tool_call_parse s2) =
      tool_result J (contract_of s0) (name_limit s0) (P Content @ text_of Content (pv_output pv))"
    and "se_state s2 = pv_state pv" and "se_policy s2 = se_policy s0" and "accepts Content new"
proof -
  note ok = started_run_ok [OF assms(1,2)]
  note g = session_ok_fields [OF ok(1)]
  obtain P where P: "stream_ok (se_policy s0) (se_split_reasoning s0) P B (se_state s) []"
    "text_of Reasoning out = P Reasoning"
    "tool_ok (contract_of s0) (name_limit s0) (P Content) (text_of Content out) (se_tool_call_output s)"
    by (rule session_okD [OF ok(1)])
  from model_round [OF ok assms(3,4) P(1)] obtain pv where pv:
    "s1 = s\<lparr>se_preview := pv, se_preview_ready := True\<rparr>"
    "outcome limit decode s P B tokens (de_finish_reason dec) (de_accepted_tokens dec) pv" by metis
  have e: "accepts Content (pv_output pv)" "ds_terminal (pv_state pv)"
    using pv(2) assms(6) by (cases "de_finish_reason dec"; simp add: outcome.simps ended_def stopped_def flushed_def)+
  have tool: "tool_ok (contract_of s0) (name_limit s0) (P Content) (text_of Content out) (se_tool_call_output s1)"
    using P(3) pv(1) by simp
  obtain new' s2' where c: "commit_preview J s1 = Inr (new', s2')" "se_state s2' = pv_state pv" "se_policy s2' = se_policy s"
    "text_of Reasoning new' = text_of Reasoning (pv_output pv)"
    "(text_of Content out @ text_of Content new', se_tool_calls s2', se_tool_call_parse s2') =
      tool_result J (contract_of s0) (name_limit s0) (P Content @ text_of Content (pv_output pv))"
    "accepts Content new'"
    using commit_terminal [OF _ tool, of J] pv(1) e by simp metis
  have "new' = new" "s2' = s2" using c(1) assms(5) by simp_all
  then show ?thesis using c(2-6) P(2) pv(2) g(1) by (intro that [of P pv]) simp_all
qed

text \<open>
  C25. A session that ends at a stop token or at a limit, and in whose whole text (an incomplete last
  character read as U+FFFD) no stop string occurs, has delivered everything: reasoning and
  content of that text, the content as the batch
  tool-call parser splits it into text and calls. Nothing stays held back, and the bytes of the
  stop token are delivered only when it is to be published. The condition on the text leaves out
  the endings that are flushed without a search, see \<open>stop_missed_at_limit\<close>.
\<close>

theorem session_result:
  assumes "started s0" and "session_run decode J s0 B out s"
    and "length tokens \<le> model_token_budget_remaining n s"
    and "preview_model decode tokens n limit s = Inr (dec, s1)" and "commit_preview J s1 = Inr (new, s2)"
    and "de_finish_reason dec \<noteq> FinishNone" and "de_finish_reason dec \<noteq> StopString"
    and "m = (if de_finish_reason dec = StopToken \<and> \<not> sp_publish_stop_token (se_policy s0)
              then de_accepted_tokens dec - 1 else de_accepted_tokens dec)"
    and "D = final_text (B @ token_bytes decode (se_preserve_special s0) (take m tokens))"
    and "clean (se_policy s0) Reasoning (final_reasoning (se_split_reasoning s0) D)"
    and "clean (se_policy s0) Content (content_text (se_split_reasoning s0) D)"
  shows "text_of Reasoning (out @ new) = final_reasoning (se_split_reasoning s0) D \<and>
    (text_of Content (out @ new), se_tool_calls s2, se_tool_call_parse s2) =
      tool_result J (contract_of s0) (name_limit s0) (content_text (se_split_reasoning s0) D) \<and>
    ds_terminal (se_state s2)"
proof -
  obtain P pv where r: "outcome limit decode s P B tokens (de_finish_reason dec) (de_accepted_tokens dec) pv"
    "text_of Reasoning (out @ new) = P Reasoning @ text_of Reasoning (pv_output pv)"
    "(text_of Content (out @ new), se_tool_calls s2, se_tool_call_parse s2) =
      tool_result J (contract_of s0) (name_limit s0) (P Content @ text_of Content (pv_output pv))"
    "se_state s2 = pv_state pv"
    by (rule final_round [OF assms(1-6)])
  note g = session_ok_fields [OF started_run_ok(1) [OF assms(1,2)]]
  have "ended (se_policy s0) (se_split_reasoning s0) P
      (B @ token_bytes decode (se_preserve_special s0) (take m tokens)) (pv_state pv) (pv_output pv)"
    using r(1) assms(6,7) g(1-3) unfolding assms(8)
    by (cases "de_finish_reason dec") (auto simp: outcome.simps split: if_splits)
  then show ?thesis unfolding ended_def assms(9) [symmetric] using r(2-4) by (simp add: flushed_def)
qed

theorem session_result_witness:
  "(text_of Content ([] @ fst (demo_commit (snd (demo_preview demo_start 1)))),
     se_tool_calls (snd (demo_commit (snd (demo_preview demo_start 1)))),
     se_tool_call_parse (snd (demo_commit (snd (demo_preview demo_start 1))))) = (''ab'', [], no_diagnostics)"
proof -
  have "\<not> isl (preview_model demo_decode [0] 1 OutputLimit demo_start)"
    "\<not> isl (commit_preview demo_json (snd (demo_preview demo_start 1)))"
    by code_simp+
  note eqs = demo_preview_eq [OF this(1)] demo_commit_eq [OF this(2)]
  have facts: "length [0 :: token] \<le> model_token_budget_remaining 1 demo_start"
    "de_finish_reason (fst (demo_preview demo_start 1)) = OutputLimit"
    "de_accepted_tokens (fst (demo_preview demo_start 1)) = 1"
    "final_text ([] @ token_bytes demo_decode (se_preserve_special demo_start) (take 1 [0])) = ''ab''"
    "contract_of demo_start = None" "\<not> se_split_reasoning demo_start" "se_policy demo_start = demo_policy"
    by code_simp+
  have "clean demo_policy Reasoning (final_reasoning False ''ab'')" "clean demo_policy Content (content_text False ''ab'')"
    by code_simp+
  note clean = this
  have "text_of Reasoning ([] @ fst (demo_commit (snd (demo_preview demo_start 1)))) =
      final_reasoning (se_split_reasoning demo_start) ''ab'' \<and>
    (text_of Content ([] @ fst (demo_commit (snd (demo_preview demo_start 1)))),
     se_tool_calls (snd (demo_commit (snd (demo_preview demo_start 1)))),
     se_tool_call_parse (snd (demo_commit (snd (demo_preview demo_start 1))))) =
      tool_result demo_json (contract_of demo_start) (name_limit demo_start)
        (content_text (se_split_reasoning demo_start) ''ab'') \<and>
    ds_terminal (se_state (snd (demo_commit (snd (demo_preview demo_start 1)))))"
    by (rule session_result [OF demo_started session_run.start facts(1) eqs, where m = 1])
      (use facts clean in simp_all)
  then show ?thesis using facts(5,6) by (simp add: tool_result_def content_text_def)
qed

text \<open>
  C24. A session that ends at a stop string ends at the earliest one: before the last token none
  occurred, and with it the text of the channel is cut in front of the first occurrence of a stop
  string (of several at the same place the one declared first), or behind it when it is to be
  included. Reasoning comes first: when a stop string in it ends the session there is no content.
  The session names the stop string that was matched.
\<close>

theorem session_stop:
  assumes "started s0" and "session_run decode J s0 B out s"
    and "length tokens \<le> model_token_budget_remaining n s"
    and "preview_model decode tokens n limit s = Inr (dec, s1)" and "commit_preview J s1 = Inr (new, s2)"
    and "de_finish_reason dec = StopString"
    and "D = text_after (B @ token_bytes decode (se_preserve_special s0) (take (de_accepted_tokens dec - 1) tokens))"
    and "D' = text_after (B @ token_bytes decode (se_preserve_special s0) (take (de_accepted_tokens dec) tokens))"
  shows "searched_clean (se_policy s0) (se_split_reasoning s0) D \<and> ds_terminal (se_state s2) \<and>
    (\<exists>k R C. matched_stop_string s2 = Inr (Some (st_text (sp_strings (se_policy s0) ! k))) \<and>
       stop_texts (reasoning_open (se_split_reasoning s0) D) (se_policy s0) (se_split_reasoning s0) D' R C k \<and>
       text_of Reasoning (out @ new) = R \<and>
       (text_of Content (out @ new), se_tool_calls s2, se_tool_call_parse s2) =
         tool_result J (contract_of s0) (name_limit s0) C)"
proof -
  have "de_finish_reason dec \<noteq> FinishNone" using assms(6) by simp
  then obtain P pv where r: "outcome limit decode s P B tokens (de_finish_reason dec) (de_accepted_tokens dec) pv"
    "text_of Reasoning (out @ new) = P Reasoning @ text_of Reasoning (pv_output pv)"
    "(text_of Content (out @ new), se_tool_calls s2, se_tool_call_parse s2) =
      tool_result J (contract_of s0) (name_limit s0) (P Content @ text_of Content (pv_output pv))"
    "se_state s2 = pv_state pv" "se_policy s2 = se_policy s0"
    by (rule final_round [OF assms(1-5)])
  note g = session_ok_fields [OF started_run_ok(1) [OF assms(1,2)]]
  from r(1) g(1-3) have st: "searched_clean (se_policy s0) (se_split_reasoning s0) D" "ds_terminal (pv_state pv)"
    and "\<exists>k. ds_matched_stop_order (pv_state pv) = Some k \<and>
      stopped_at (reasoning_open (se_split_reasoning s0) D) (se_policy s0) (se_split_reasoning s0) D' P (pv_output pv) k"
    by (simp_all add: assms(6-8) outcome.simps stopped_def)
  then obtain k where k: "ds_matched_stop_order (pv_state pv) = Some k"
    "stop_texts (reasoning_open (se_split_reasoning s0) D) (se_policy s0) (se_split_reasoning s0) D'
      (P Reasoning @ text_of Reasoning (pv_output pv)) (P Content @ text_of Content (pv_output pv)) k"
    unfolding stopped_at_def by blast
  have "k < length (sp_strings (se_policy s0))" using k(2) by (auto simp: stop_texts_def earliest_stop_def stop_at_def)
  then have "matched_stop_string s2 = Inr (Some (st_text (sp_strings (se_policy s0) ! k)))"
    using k(1) r(4,5) by (simp add: matched_stop_string_def)
  with st k(2) r(2-4) show ?thesis by (metis (no_types, lifting))
qed

theorem session_stop_witness:
  "\<exists>k R C. stop_texts False demo_policy False ''abab'' R C k \<and>
    text_of Content ([(Content, ''a'')] @ fst (demo_commit (snd (demo_preview demo_next 9)))) = C"
proof -
  have "\<not> isl (preview_model demo_decode [0] 9 OutputLimit demo_next)"
    "\<not> isl (commit_preview demo_json (snd (demo_preview demo_next 9)))"
    by code_simp+
  note eqs = demo_preview_eq [OF this(1)] demo_commit_eq [OF this(2)]
  have facts: "length [0 :: token] \<le> model_token_budget_remaining 9 demo_next"
    "de_finish_reason (fst (demo_preview demo_next 9)) = StopString"
    "de_accepted_tokens (fst (demo_preview demo_next 9)) = 1"
    "text_after (''ab'' @ token_bytes demo_decode (se_preserve_special demo_start) (take 1 [0])) = ''abab''"
    "contract_of demo_start = None" "\<not> se_split_reasoning demo_start" "se_policy demo_start = demo_policy"
    by code_simp+
  from session_stop [OF demo_started demo_run facts(1) eqs facts(2) refl refl] facts
  show ?thesis by (auto simp: tool_result_def)
qed

end
