(* ===== verification/SessionSafety.thy ===== *)
theory SessionSafety
  imports SessionSystem
begin

text \<open>
  Output sessions never get stuck: a licensed round always previews and commits, the thinking budget
  is kept, and the injected control suffix closes the thinking phase. The prefix boundary is found
  where it first occurs.
\<close>

lemma make_output_session_control:
  assumes "make_output_session valid_text is_valid_token default_stops control prompt caller raw preserve N budget = Inr s0"
  shows "se_thinking_control_tokens s0 = Some control" and "started s0"
proof -
  show "se_thinking_control_tokens s0 = Some control"
    using assms by (auto simp: make_output_session_def make_session_def rbind_Inr_iff Let_def
        split: option.splits if_splits)
  show "started s0" unfolding started_def using assms by blast
qed

section \<open>A session with a thinking budget\<close>

text \<open>One thinking token is allowed; token 1 is the control suffix and every other token reads \<open>a\<close>.\<close>

definition ctl_decode :: "token \<Rightarrow> string \<times> bool" where
  "ctl_decode t = (if t = 1 then (kThinkingControl, False) else (''a'', False))"

definition ctl_policy :: stop_policy where
  "ctl_policy =
    \<lparr>sp_token_ids = [], sp_strings = [], sp_include_model_defaults = True, sp_publish_stop_token = False\<rparr>"

definition ctl_start :: session where
  "ctl_start =
    projr (make_output_session (\<lambda>s. True) (\<lambda>t. True) [] [1] (Some (True, None)) ctl_policy False False 64 (Some 1))"

definition ctl_preview :: "decision \<times> session" where
  "ctl_preview = projr (preview_model ctl_decode [0] 9 OutputLimit ctl_start)"

definition ctl_next :: session where
  "ctl_next = snd (projr (commit_preview demo_json (snd ctl_preview)))"

lemma ctl_made:
  "make_output_session (\<lambda>s. True) (\<lambda>t. True) [] [1] (Some (True, None)) ctl_policy False False 64 (Some 1) = Inr ctl_start"
proof -
  have "\<not> isl (make_output_session (\<lambda>s. True) (\<lambda>t. True) [] [1] (Some (True, None)) ctl_policy False False 64 (Some 1))"
    by code_simp
  from returned [OF this] show ?thesis by (simp add: ctl_start_def)
qed

lemma ctl_started: "started ctl_start"
  by (rule make_output_session_control(2) [OF ctl_made])

lemma ctl_run: "session_run ctl_decode demo_json ctl_start ''a'' [(Reasoning, ''a'')] ctl_next"
proof -
  have "\<not> isl (preview_model ctl_decode [0] 9 OutputLimit ctl_start)" by code_simp
  from returned [OF this] have p: "preview_model ctl_decode [0] 9 OutputLimit ctl_start = Inr (fst ctl_preview, snd ctl_preview)"
    by (simp add: ctl_preview_def)
  have "\<not> isl (commit_preview demo_json (snd ctl_preview))" by code_simp
  from returned [OF this] have c: "commit_preview demo_json (snd ctl_preview) =
      Inr (fst (projr (commit_preview demo_json (snd ctl_preview))), ctl_next)"
    by (simp add: ctl_next_def)
  have facts: "length [0 :: token] \<le> model_token_budget_remaining 9 ctl_start"
    "de_finish_reason (fst ctl_preview) = FinishNone"
    "token_bytes ctl_decode (se_preserve_special ctl_start) [0] = ''a''"
    "fst (projr (commit_preview demo_json (snd ctl_preview))) = [(Reasoning, ''a'')]"
    by code_simp+
  from session_run.model [OF session_run.start facts(1) p facts(2) c] facts(3,4) show ?thesis by simp
qed

lemma ctl_pending: "th_control_pending (se_semantic ctl_next)"
  by code_simp

section \<open>Licensed rounds\<close>

lemma pending_no_license:
  assumes "th_control_pending (se_semantic s) = control_due (se_semantic s)" and "budget_kept (se_semantic s)"
  shows "model_token_budget_remaining n s =
    (if th_control_pending (se_semantic s) then 0
     else case th_budget (se_semantic s) of
       None \<Rightarrow> n
     | Some b \<Rightarrow> if th_in_reasoning (se_semantic s) then min n (b - th_model_thinking_tokens (se_semantic s)) else n)"
  using assms by (auto simp: model_token_budget_remaining_def control_due_def budget_kept_def Let_def split: option.splits)

lemma licensed_guards:
  assumes "th_control_pending (se_semantic s) = control_due (se_semantic s)" and "budget_kept (se_semantic s)"
    and "length tokens \<le> model_token_budget_remaining n s" and "tokens \<noteq> []"
  shows "\<not> th_control_pending (se_semantic s)" and "length tokens \<le> n"
  using assms(3,4) unfolding pending_no_license [OF assms(1,2)]
  by (auto split: if_splits option.splits)

text \<open>
  C26. A round within the licensed budget never throws: for every non-empty span of at most
  \<open>model_token_budget_remaining\<close> tokens, in every running session, the preview returns and accepts a
  non-empty prefix of the span, and the commit of the preview succeeds. In particular the output of
  a round never needs a third delta.
\<close>

theorem session_round_total:
  assumes "started s0" and "session_run decode J s0 B out s"
    and "tokens \<noteq> []" and "length tokens \<le> model_token_budget_remaining n s"
    and "limit = OutputLimit \<or> limit = ContextCapacity"
  shows "\<exists>dec s1 new s2. preview_model decode tokens n limit s = Inr (dec, s1) \<and>
    commit_preview J s1 = Inr (new, s2) \<and> 0 < de_accepted_tokens dec \<and>
    de_accepted_tokens dec \<le> length tokens \<and> length new \<le> 2"
proof -
  note ok = started_run_ok [OF assms(1,2)]
  note g = session_ok_fields [OF ok(1)]
  obtain P where P: "stream_ok (se_policy s0) (se_split_reasoning s0) P B (se_state s) []"
    "text_of Reasoning out = P Reasoning"
    "tool_ok (contract_of s0) (name_limit s0) (P Content) (text_of Content out) (se_tool_call_output s)"
    by (rule session_okD [OF ok(1)])
  note guards = licensed_guards [OF g(6,5) assms(4,3)]
  have "\<not> ds_terminal (se_state s)" using P(1) by (simp add: stream_ok_def)
  then have run: "preview_model decode tokens n limit s = preview_loop decode s n limit 0 tokens (begin_preview s)"
    using g(4) guards assms(3,5) by (auto simp: preview_model_def)
  from loop_from_session [OF ok assms(5,4,3) P(1), of decode] obtain dec pv where r:
    "preview_model decode tokens n limit s = Inr (dec, s\<lparr>se_preview := pv, se_preview_ready := True\<rparr>)"
    "outcome limit decode s P B tokens (de_finish_reason dec) (de_accepted_tokens dec) pv"
    unfolding run round_ok_def by auto
  have len: "0 < de_accepted_tokens dec" "de_accepted_tokens dec \<le> length tokens"
    using r(2) assms(3) by (cases "de_finish_reason dec"; simp add: outcome.simps)+
  let ?s1 = "s\<lparr>se_preview := pv, se_preview_ready := True\<rparr>"
  have acc: "accepts Content (pv_output pv)"
    using r(2) accepts_Content by (cases "de_finish_reason dec")
      (auto simp: outcome.simps ended_def stopped_def flushed_def stream_ok_def published_ok_def split: if_splits)
  have tool: "tool_ok (contract_of s0) (name_limit s0) (P Content) (text_of Content out) (se_tool_call_output ?s1)"
    using P(3) by simp
  have "\<exists>new s2. commit_preview J ?s1 = Inr (new, s2) \<and> length new \<le> 2"
  proof (cases "ds_terminal (pv_state pv)")
    case True
    then show ?thesis using commit_terminal [OF _ tool, of J] acc accepts_length by simp metis
  next
    case False
    then obtain new s2 where "commit_preview J ?s1 = Inr (new, s2)" "map fst new = map fst (pv_output pv)"
      using commit_live [OF _ tool, of J] by simp metis
    then show ?thesis using acc accepts_map accepts_length by metis
  qed
  with r(1) len show ?thesis by blast
qed

theorem session_round_total_witness:
  "\<exists>dec s1 new s2. preview_model demo_decode [0, 0] 9 OutputLimit demo_next = Inr (dec, s1) \<and>
    commit_preview demo_json s1 = Inr (new, s2) \<and> 0 < de_accepted_tokens dec \<and>
    de_accepted_tokens dec \<le> length [0 :: token, 0] \<and> length new \<le> 2"
proof -
  have "length [0 :: token, 0] \<le> model_token_budget_remaining 9 demo_next" by code_simp
  from session_round_total [OF demo_started demo_run _ this] show ?thesis by simp
qed



section \<open>ASCII text passes the decoder\<close>

lemma scan_ascii:
  assumes "byte c \<le> 0x7f" and "scan_sequence lead k index xs = Incomplete"
  shows "scan_sequence lead k index (xs @ c # ys) = Malformed (index + length xs)"
  using assms
  by (induction lead k index xs rule: scan_sequence.induct) (auto simp: minimum_byte_def maximum_byte_def split: if_splits)

lemma consume_pending_ascii:
  assumes "byte c \<le> 0x7f" and "consume_generated_utf8 p = ([], p)"
  shows "\<exists>w. consume_generated_utf8 (p @ c # ys) = apfst (\<lambda>t. w @ c # t) (consume_generated_utf8 ys)"
proof (cases p)
  case Nil
  then show ?thesis using assms(1) by (auto simp: apfst_def map_prod_def split_def intro!: exI [where x = "[]"])
next
  case (Cons b bs)
  note step = consume_generated_utf8.simps(2) [of b bs, folded Cons, unfolded assms(2)]
  have nz: "kUtf8Replacement \<noteq> []" by (simp add: kUtf8Replacement_def)
  have lead: "\<not> byte b \<le> 0x7f" using step by (auto simp: prod_eq_iff split: if_splits)
  then obtain n where n: "lead_length (byte b) = Some n" using step nz
    by (cases "lead_length (byte b)") (auto simp: prod_eq_iff)
  have inc: "scan_sequence (byte b) (n - 1) 1 bs = Incomplete"
  proof (cases "scan_sequence (byte b) (n - 1) 1 bs")
    case (Malformed i)
    with step lead n nz show ?thesis by (simp add: prod_eq_iff)
  next
    case Complete
    have "take n p \<noteq> []" using lead_length_bounds [OF n] by (simp add: Cons)
    with step lead n Complete show ?thesis by (simp add: prod_eq_iff)
  qed
  note n = lead n inc
  have "consume_generated_utf8 (p @ c # ys) = apfst ((@) kUtf8Replacement) (consume_generated_utf8 (c # ys))"
    using n scan_ascii [OF assms(1) n(3), of ys] by (simp add: Cons)
  then show ?thesis using assms(1)
    by (intro exI [where x = kUtf8Replacement]) (simp add: apfst_def map_prod_def split_def)
qed

lemma consume_ascii:
  assumes "byte c \<le> 0x7f"
  shows "\<exists>w. consume_generated_utf8 (xs @ c # ys) = apfst (\<lambda>t. w @ c # t) (consume_generated_utf8 ys)"
proof -
  from consume_pending_ascii [OF assms pending_stays, of xs ys] obtain w where
    "consume_generated_utf8 (bytes_pending xs @ c # ys) = apfst (\<lambda>t. w @ c # t) (consume_generated_utf8 ys)" by blast
  then show ?thesis unfolding consume_append [of xs "c # ys"]
    by (intro exI [where x = "text_after xs @ w"]) (simp add: prod_eq_iff)
qed

lemma consume_ascii_text:
  assumes "list_all (\<lambda>c. byte c \<le> 0x7f) a"
  shows "consume_generated_utf8 (a @ ys) = apfst ((@) a) (consume_generated_utf8 ys)"
  using assms by (induction a) (simp_all add: prod_eq_iff)

lemma sublist_ascii_text:
  assumes "list_all (\<lambda>c. byte c \<le> 0x7f) a" and "a \<noteq> []" and "sublist a B"
  shows "sublist a (text_after (xs @ B))"
proof -
  obtain c cs where a: "a = c # cs" using assms(2) by (cases a) auto
  from assms(3) obtain u v where B: "xs @ B = (xs @ u) @ c # (cs @ v)" by (auto simp: sublist_def a)
  obtain w where "consume_generated_utf8 (xs @ B) = apfst (\<lambda>t. w @ c # t) (consume_generated_utf8 (cs @ v))"
    unfolding B using consume_ascii [of c "xs @ u" "cs @ v"] assms(1) a by auto
  then have "text_after (xs @ B) = w @ a @ text_after v"
    using consume_ascii_text [of cs v] assms(1) a by simp
  then show ?thesis by (auto simp: sublist_def)
qed

section \<open>Closing the thinking phase\<close>

lemma control_loop_semantic:
  "control_loop decode s index tokens pv = Inr pv' \<Longrightarrow>
    pv_semantic pv' = fold (\<lambda>t th. feed_semantic_thinking th (fst (decode t))) tokens (pv_semantic pv)"
proof (induction tokens arbitrary: index pv)
  case (Cons t ts)
  obtain bs special where d: "decode t = (bs, special)" by fastforce
  obtain boundary pt where tr: "tracker_feed (pv_prefix pv) bs = (boundary, pt)" by fastforce
  from Cons.prems obtain pv1 where "control_loop decode s (index + 1) ts pv1 = Inr pv'"
    "pv_semantic pv1 = feed_semantic_thinking (pv_semantic pv) bs"
    by (auto simp: d tr Let_def elim!: rbind_InrE)
  with Cons.IH [of "index + 1" pv1] show ?case by (simp add: d)
qed simp

lemma fold_semantic_tracks:
  "tracks_think Y th \<Longrightarrow>
    tracks_think (Y @ token_bytes decode True tokens) (fold (\<lambda>t th. feed_semantic_thinking th (fst (decode t))) tokens th)"
proof (induction tokens arbitrary: Y th)
  case (Cons t ts)
  from feed_semantic_tracks [OF Cons.prems, of "fst (decode t)"]
  have "tracks_think (Y @ fst (decode t)) (feed_semantic_thinking th (fst (decode t)))" .
  from Cons.IH [OF this] show ?case by (simp add: shown_def)
qed simp

lemma sublist_find: "sublist pat (u @ w) \<Longrightarrow> find_sub pat (u @ w) \<noteq> None"
  by (simp add: find_sub_None_sublist)

text \<open>The control suffix the frontend accepted holds the closing tag, with special tokens or without.\<close>

lemma control_has_close:
  assumes "make_thinking_control valid_text enc decode default_stops = Inr control"
  shows "control \<noteq> []" and "sublist kThinkClose (token_bytes decode preserve control)"
proof -
  from assms have c: "control \<noteq> []" "token_bytes decode True control = kThinkingControl"
    "find_sub kThinkClose (token_bytes decode False control) \<noteq> None"
    by (auto simp: make_thinking_control_def tokenizer_decode_def Let_def split: if_splits)
  show "control \<noteq> []" by (rule c(1))
  have "sublist kThinkClose kThinkingControl"
    unfolding kThinkClose_def kThinkingControl_def by (metis append.assoc sublist_appendI)
  then show "sublist kThinkClose (token_bytes decode preserve control)"
    using c(2,3) by (cases preserve) (simp_all add: find_sub_None_sublist)
qed

lemma kThinkClose_ascii: "list_all (\<lambda>c. byte c \<le> 0x7f) kThinkClose"
  by (simp add: kThinkClose_def)

text \<open>
  C28. When the thinking budget is used up, the control suffix gets the session going again: with the
  suffix the frontend checked at start-up, and an output budget it fits into, \<open>preview_control\<close> on the
  pending tokens and the commit succeed (neither of the two consistency checks can fail), thinking is
  closed in both trackers, and the whole remaining output budget is licensed to the model.
\<close>

theorem control_round_total:
  assumes "make_thinking_control valid_text enc decode default_stops = Inr control"
    and "make_output_session valid_text is_valid_token default_stops control prompt caller raw preserve N budget = Inr s0"
    and "session_run decode J s0 B out s" and "th_control_pending (se_semantic s)" and "length control \<le> n"
  shows "pending_control_tokens s = control \<and>
    (\<exists>dec s1 new s2. preview_control decode control n s = Inr (dec, s1) \<and> commit_preview J s1 = Inr (new, s2) \<and>
       de_accepted_tokens dec = length control \<and> \<not> th_in_reasoning (se_semantic s2) \<and>
       \<not> ds_in_reasoning (se_state s2) \<and> tb_applied (thinking_stats s2) \<and>
       tb_injected_tokens (thinking_stats s2) = length control \<and>
       model_token_budget_remaining k s2 = k)"
proof -
  note c = control_has_close [OF assms(1)] and m = make_output_session_control [OF assms(2)]
  note ok = started_run_ok [OF m(2) assms(3)]
  note g = session_ok_fields [OF ok(1)]
  obtain P where P: "stream_ok (se_policy s0) (se_split_reasoning s0) P B (se_state s) []"
    "tool_ok (contract_of s0) (name_limit s0) (P Content) (text_of Content out) (se_tool_call_output s)"
    by (rule session_okD [OF ok(1)])
  have pending: "pending_control_tokens s = control" using assms(4) g(9) m(1) by (simp add: pending_control_tokens_def)
  let ?B = "B @ token_bytes decode (se_preserve_special s0) control"
  have "stops_ok (se_policy s)" "stream_ok (se_policy s) (se_split_reasoning s) P B (pv_state (begin_preview s)) (pv_output (begin_preview s))"
    using ok(2) P(1) g(1,2) by (simp_all add: begin_preview_def)
  from control_loop_ok [OF this, of decode 0 control] g(1-3) obtain pv where pv:
    "control_loop decode s 0 control (begin_preview s) = Inr pv"
    "stream_ok (se_policy s0) (se_split_reasoning s0) P ?B (pv_state pv) (pv_output pv)"
    by (auto simp: begin_preview_def)
  from g(5) obtain Y where "tracks_think Y (se_semantic s)" by (auto simp: budget_kept_def)
  from fold_semantic_tracks [OF this, of decode control] control_loop_semantic [OF pv(1)]
  have "tracks_think (Y @ token_bytes decode True control) (pv_semantic pv)" by (simp add: begin_preview_def)
  moreover have "find_sub kThinkClose (Y @ token_bytes decode True control) \<noteq> None"
    using c(2) [of True] by (simp add: find_sub_None_sublist sublist_append)
  ultimately have sem: "\<not> th_in_reasoning (pv_semantic pv)" by (auto simp: tracks_think_def)
  have "sublist kThinkClose (text_after ?B)"
    by (rule sublist_ascii_text [OF kThinkClose_ascii kThinkClose_nonempty c(2)])
  then have "find_sub kThinkClose (text_after ?B) \<noteq> None" by (simp add: find_sub_None_sublist)
  then have st: "\<not> ds_in_reasoning (pv_state pv)" using pv(2) by (simp add: stream_ok_def decoder_ok_def)
  let ?th = "(pv_semantic pv)\<lparr>th_control_pending := False, th_applied := True, th_injected_tokens := length control\<rparr>"
  let ?s1 = "s\<lparr>se_preview := pv\<lparr>pv_semantic := ?th\<rparr>, se_preview_ready := True\<rparr>"
  have "\<not> ds_terminal (se_state s)" using P(1) by (simp add: stream_ok_def)
  then have r: "preview_control decode control n s =
      Inr (\<lparr>de_accepted_tokens = length control, de_finish_reason = FinishNone, de_continuation = Decode,
            de_prefix_execution_split_after = pv_split_after pv\<rparr>, ?s1)"
    using g(4) pending c(1) assms(5) pv(1) sem st by (simp add: preview_control_def Let_def)
  have tool: "tool_ok (contract_of s0) (name_limit s0) (P Content) (text_of Content out) (se_tool_call_output ?s1)"
    and live: "\<not> ds_terminal (pv_state (se_preview ?s1))"
    using P(2) pv(2) by (simp_all add: stream_ok_def)
  obtain new s2 where cm: "commit_preview J ?s1 = Inr (new, s2)" "se_state s2 = pv_state pv" "se_semantic s2 = ?th"
    using commit_live [OF _ tool live, of J] by simp metis
  have "model_token_budget_remaining k s2 = k"
    using sem by (simp add: model_token_budget_remaining_def cm(3) Let_def split: option.splits)
  then show ?thesis using pending r cm sem st
    by (intro conjI exI [where x = "?s1"] exI [where x = new] exI [where x = s2]
        exI [where x = "\<lparr>de_accepted_tokens = length control, de_finish_reason = FinishNone, de_continuation = Decode,
            de_prefix_execution_split_after = pv_split_after pv\<rparr>"])
      (simp_all add: thinking_stats_def)
qed

theorem control_round_total_witness:
  "pending_control_tokens ctl_next = [1] \<and>
    (\<exists>dec s1 new s2. preview_control ctl_decode [1] 8 ctl_next = Inr (dec, s1) \<and>
       commit_preview demo_json s1 = Inr (new, s2) \<and> \<not> th_in_reasoning (se_semantic s2) \<and>
       model_token_budget_remaining 7 s2 = 7)"
proof -
  have "make_thinking_control (\<lambda>s. True) (\<lambda>s. [1]) ctl_decode [] = Inr [1]" by code_simp
  from control_round_total [OF this ctl_made ctl_run ctl_pending, of 8 7] show ?thesis by auto
qed

text \<open>
  A session that is ended between rounds (cancelled, or out of capacity) delivers what was held
  back: \<open>preview_terminal\<close> and the commit succeed in every running session, whether control is pending or
  not, and the client then has the reasoning, the content and the tool calls of the whole text.
\<close>

theorem terminal_preview_exact:
  assumes "started s0" and "session_run decode J s0 B out s"
    and "reason \<notin> {FinishNone, StopString, StopToken}"
  shows "\<exists>dec s1 new s2. preview_terminal reason s = Inr (dec, s1) \<and> commit_preview J s1 = Inr (new, s2) \<and>
    de_accepted_tokens dec = 0 \<and> de_finish_reason dec = reason \<and> ds_terminal (se_state s2) \<and>
    text_of Reasoning (out @ new) = final_reasoning (se_split_reasoning s0) (final_text B) \<and>
    (text_of Content (out @ new), se_tool_calls s2, se_tool_call_parse s2) =
      tool_result J (contract_of s0) (name_limit s0) (content_text (se_split_reasoning s0) (final_text B))"
proof -
  note ok = started_run_ok [OF assms(1,2)]
  note g = session_ok_fields [OF ok(1)]
  obtain P where P: "stream_ok (se_policy s0) (se_split_reasoning s0) P B (se_state s) []"
    "text_of Reasoning out = P Reasoning"
    "tool_ok (contract_of s0) (name_limit s0) (P Content) (text_of Content out) (se_tool_call_output s)"
    by (rule session_okD [OF ok(1)])
  obtain st em where t: "terminalize (se_policy s0) 0 (se_state s, []) = Inr (st, em)"
    "flushed (se_split_reasoning s0) P (final_text B) em" "ds_terminal st"
    by (rule terminalize_exact [OF ok(2) P(1)])
  let ?pv = "(begin_preview s)\<lparr>pv_semantic := (se_semantic s)\<lparr>th_control_pending := False\<rparr>, pv_state := st, pv_output := em\<rparr>"
  let ?s1 = "s\<lparr>se_preview := ?pv, se_preview_ready := True\<rparr>"
  have "\<not> ds_terminal (se_state s)" using P(1) by (simp add: stream_ok_def)
  then have r: "preview_terminal reason s =
      Inr (\<lparr>de_accepted_tokens = 0, de_finish_reason = reason, de_continuation = Decode,
            de_prefix_execution_split_after = None\<rparr>, ?s1)"
    using g(1,4) t(1) assms(3) by (simp add: preview_terminal_def begin_preview_def Let_def)
  have tool: "tool_ok (contract_of s0) (name_limit s0) (P Content) (text_of Content out) (se_tool_call_output ?s1)"
    using P(3) by simp
  obtain new s2 where c: "commit_preview J ?s1 = Inr (new, s2)" "se_state s2 = st"
    "text_of Reasoning new = text_of Reasoning em"
    "(text_of Content out @ text_of Content new, se_tool_calls s2, se_tool_call_parse s2) =
      tool_result J (contract_of s0) (name_limit s0) (P Content @ text_of Content em)"
    using commit_terminal [OF _ tool, of J] t(2,3) by (simp add: flushed_def) metis
  then show ?thesis using r t(2,3) P(2)
    by (intro exI [where x = "?s1"] exI [where x = new] exI [where x = s2]
        exI [where x = "\<lparr>de_accepted_tokens = 0, de_finish_reason = reason, de_continuation = Decode,
            de_prefix_execution_split_after = None\<rparr>"]) (simp add: flushed_def)
qed

theorem terminal_preview_exact_witness:
  "\<exists>dec s1 new s2. preview_terminal FinishCancelled ctl_next = Inr (dec, s1) \<and> commit_preview demo_json s1 = Inr (new, s2) \<and>
    text_of Reasoning ([(Reasoning, ''a'')] @ new) = final_reasoning (se_split_reasoning ctl_start) (final_text ''a'')"
  using terminal_preview_exact [OF ctl_started ctl_run, of FinishCancelled] by (auto simp del: append_Cons append_Nil)

text \<open>
  A stop string that a beginning of the closing think tag contains is not found when the session ends
  there: the tag is held back and flushed without a search.
\<close>

lemma stop_missed_at_limit:
  "case make_output_session (\<lambda>s. True) (\<lambda>t. True) [] [1] (Some (True, None))
     (ctl_policy\<lparr>sp_strings := [\<lparr>st_text = ''</t'', st_channel = Reasoning, st_include_in_output = False\<rparr>]\<rparr>)
     False False 64 None of
   Inl e \<Rightarrow> False
   | Inr s \<Rightarrow>
      (case preview_model (\<lambda>t. (''a</t'', False)) [0] 1 OutputLimit s of
         Inl e \<Rightarrow> False
       | Inr (dec, s1) \<Rightarrow>
           de_finish_reason dec = OutputLimit \<and>
           (case commit_preview demo_json s1 of Inl e \<Rightarrow> False | Inr (new, s2) \<Rightarrow> new = [(Reasoning, ''a</t'')]))"
  by code_simp

end
