(* ===== verification/SessionUtf8.thy ===== *)
theory SessionUtf8
  imports SessionSystem
begin

text \<open>
  The deltas a session publishes are well-formed UTF-8, each on its own: neither the hold-back for
  stop strings, nor the think tag, nor a stop string ever cuts a character.
\<close>

section \<open>Well-formed text\<close>

definition well_formed :: "string \<Rightarrow> bool" where
  "well_formed s \<longleftrightarrow> consume_generated_utf8 s = (s, [])"

lemma well_formed_iff: "well_formed s \<longleftrightarrow> (\<exists>cps. (\<forall>cp\<in>set cps. scalar cp) \<and> s = utf8_text cps)"
  using consume_well_formed [of s] consume_utf8_text by (auto simp: well_formed_def)

text \<open>
  Unicode text, specified without the decoder: the UTF-8 forms of a sequence of code points below
  U+110000 that are no surrogates. The decoder's fixed points are exactly these texts.
\<close>

definition unicode_text :: "string \<Rightarrow> bool" where
  "unicode_text t \<longleftrightarrow>
    (\<exists>cps. (\<forall>cp\<in>set cps. cp < 0x110000 \<and> \<not> (0xd800 \<le> cp \<and> cp \<le> 0xdfff)) \<and> t = utf8_text cps)"

lemma unicode_text_iff: "unicode_text t \<longleftrightarrow> well_formed t"
  unfolding unicode_text_def well_formed_iff scalar_def by (rule refl)

lemma well_formed_Nil [simp]: "well_formed []"
  by (simp add: well_formed_def)

lemma well_formed_append: "well_formed u \<Longrightarrow> well_formed v \<Longrightarrow> well_formed (u @ v)"
  by (simp add: well_formed_def consume_append [of u v])

lemma well_formed_cancel: "well_formed u \<Longrightarrow> well_formed (u @ v) \<Longrightarrow> well_formed v"
  by (auto simp: well_formed_def consume_append [of u v] prod_eq_iff)

lemma well_formed_ascii: "list_all (\<lambda>c. byte c \<le> 0x7f) s \<Longrightarrow> well_formed s"
  by (induction s) (simp_all add: well_formed_def)

abbreviation continues :: "char \<Rightarrow> bool" where
  "continues c \<equiv> 0x80 \<le> byte c \<and> byte c \<le> 0xbf"

lemma encode_shape:
  assumes "scalar cp"
  shows "encode cp \<noteq> []" and "\<not> continues (hd (encode cp))" and "\<forall>c\<in>set (tl (encode cp)). continues c"
proof -
  have m: "cp mod 64 < 64" "cp div 64 mod 64 < 64" "cp div 4096 mod 64 < 64" by simp_all
  show "encode cp \<noteq> []" by (simp add: encode_def)
  show "\<not> continues (hd (encode cp))" using assms by (auto simp: encode_def scalar_def)
  show "\<forall>c\<in>set (tl (encode cp)). continues c" using m by (auto simp: encode_def)
qed

lemma well_formed_head: "well_formed s \<Longrightarrow> s \<noteq> [] \<Longrightarrow> \<not> continues (hd s)"
proof -
  assume "well_formed s" "s \<noteq> []"
  then obtain cps where cps: "\<forall>cp\<in>set cps. scalar cp" "s = utf8_text cps" by (auto simp: well_formed_iff)
  with \<open>s \<noteq> []\<close> obtain cp cps' where "cps = cp # cps'" by (cases cps) (auto simp: utf8_text_def)
  with cps encode_shape [of cp] show ?thesis by (simp add: utf8_text_def)
qed

text \<open>A cut in front of a byte that does not continue a character leaves two well-formed parts.\<close>

lemma utf8_text_cut:
  assumes "\<forall>cp\<in>set cps. scalar cp" and "u @ v = utf8_text cps" and "v = [] \<or> \<not> continues (hd v)"
  shows "well_formed u"
  using assms(1,2)
proof (induction cps arbitrary: u)
  case Nil
  then show ?case by (simp add: utf8_text_def)
next
  case (Cons cp cps)
  let ?e = "encode cp"
  note e = encode_shape [of cp]
  have wf: "well_formed ?e" using consume_encode [of cp "[]"] Cons.prems(1) by (simp add: well_formed_def)
  have eq: "u @ v = ?e @ utf8_text cps" using Cons.prems(2) by (simp add: utf8_text_def)
  show ?case
  proof (cases "length ?e \<le> length u")
    case True
    then obtain u' where u: "u = ?e @ u'" using eq by (metis append_eq_append_conv_if append_take_drop_id)
    then have "u' @ v = utf8_text cps" using eq by simp
    from Cons.IH [OF _ this] Cons.prems(1) wf u show ?thesis by (auto intro: well_formed_append)
  next
    case False
    show ?thesis
    proof (cases u)
      case (Cons x xs)
      have v: "v \<noteq> []" using eq False by (auto dest: arg_cong [where f = length])
      have "hd v = ?e ! length u" using eq False v by (metis hd_conv_nth nth_append_length_plus add_0_right nth_append not_le)
      moreover have "?e ! length u \<in> set (tl ?e)" using False Cons by (cases ?e) (auto simp: nth_Cons' intro!: nth_mem)
      ultimately show ?thesis using e(3) assms(3) v \<open>\<forall>cp\<in>set (cp # cps). scalar cp\<close> by auto
    qed simp
  qed
qed

lemma well_formed_cut:
  assumes "well_formed (u @ v)" and "v = [] \<or> \<not> continues (hd v)"
  shows "well_formed u" and "well_formed v"
proof -
  from assms(1) obtain cps where "\<forall>cp\<in>set cps. scalar cp" "u @ v = utf8_text cps" by (auto simp: well_formed_iff)
  from utf8_text_cut [OF this assms(2)] show "well_formed u" .
  from well_formed_cancel [OF this assms(1)] show "well_formed v" .
qed

lemma text_after_well_formed: "well_formed (text_after B)"
  using consume_well_formed [of B] by (auto simp: well_formed_iff)

lemma final_text_well_formed: "well_formed (final_text B)"
proof -
  have "well_formed kUtf8Replacement"
    using encode_replacement consume_encode [of "0xfffd" "[]"] by (simp add: well_formed_def)
  then show ?thesis using text_after_well_formed by (auto simp: final_text_def intro: well_formed_append)
qed

section \<open>The channels\<close>

lemma ascii_not_continues: "byte c \<le> 0x7f \<Longrightarrow> \<not> continues c"
  by auto

lemma isspace_ascii: "isspace c \<Longrightarrow> byte c \<le> 0x7f"
  by (auto simp: isspace_def)

lemma well_formed_strip: "well_formed s \<Longrightarrow> well_formed (dropWhile isspace s)"
proof (rule well_formed_cancel)
  show "well_formed (takeWhile isspace s)"
    by (rule well_formed_ascii) (auto simp: list_all_iff dest!: set_takeWhileD isspace_ascii)
qed simp

lemma kThinkClose_well_formed: "well_formed kThinkClose"
  by (rule well_formed_ascii) (simp add: kThinkClose_def)

lemma think_pending_head:
  assumes "think_pending D \<noteq> []"
  shows "\<not> continues (hd (think_pending D))"
proof -
  let ?h = "longest_suffix_prefix D kThinkClose True"
  have "think_pending D = take ?h kThinkClose"
    using lsp_suffix [of D kThinkClose True] tail_eq_take [OF lsp_le_text lsp_le_marker] by blast
  with assms show ?thesis by (simp add: kThinkClose_def hd_take)
qed

lemma channels_well_formed:
  assumes "well_formed D"
  shows "well_formed (reasoning_text split D)" and "well_formed (content_text split D)"
proof -
  have close: "well_formed (take k D) \<and> well_formed (drop (k + length kThinkClose) D)"
    if "find_sub kThinkClose D = Some k" for k
  proof -
    note k = find_sub_split(1) [OF that]
    have hd: "\<not> continues (hd (kThinkClose @ drop (k + length kThinkClose) D))" by (simp add: kThinkClose_def)
    have wf: "well_formed (take k D @ kThinkClose @ drop (k + length kThinkClose) D)" using assms k by simp
    from well_formed_cut [OF wf disjI2 [OF hd]] kThinkClose_well_formed show ?thesis
      by (auto intro: well_formed_cancel)
  qed
  have pend: "well_formed (take (length D - longest_suffix_prefix D kThinkClose True) D)"
  proof (rule well_formed_cut(1))
    show "well_formed (take (length D - longest_suffix_prefix D kThinkClose True) D @ think_pending D)" using assms by simp
    show "think_pending D = [] \<or> \<not> continues (hd (think_pending D))" using think_pending_head by blast
  qed
  show "well_formed (reasoning_text split D)"
    using close pend by (simp add: reasoning_text_def split: option.splits)
  show "well_formed (content_text split D)"
    using close assms well_formed_strip by (simp add: content_text_def split: option.splits)
qed

definition stops_well_formed :: "stop_policy \<Rightarrow> bool" where
  "stops_well_formed policy \<longleftrightarrow> (\<forall>stop\<in>set (sp_strings policy). well_formed (st_text stop))"

lemma held_head:
  assumes "stops_ok policy" and "stops_well_formed policy" and "held policy ch X \<noteq> []"
  shows "\<not> continues (hd (held policy ch X))"
proof -
  let ?S = "(\<lambda>stop. longest_suffix_prefix X (st_text stop) False) ` {stop \<in> set (sp_strings policy). st_channel stop = ch}"
  have "stop_hold_size X ch policy \<in> insert 0 ?S" unfolding stop_hold_size_Max by (rule Max_in) simp_all
  moreover have "stop_hold_size X ch policy \<noteq> 0" using assms(3) by (auto simp: held_def)
  ultimately obtain stop where stop: "stop \<in> set (sp_strings policy)"
    "stop_hold_size X ch policy = longest_suffix_prefix X (st_text stop) False" by auto
  have "held policy ch X = take (longest_suffix_prefix X (st_text stop) False) (st_text stop)"
    unfolding held_def stop(2)
    using lsp_suffix [of X "st_text stop" False] tail_eq_take [OF lsp_le_text lsp_le_marker] by blast
  moreover have "\<not> continues (hd (st_text stop))"
    using stop(1) assms(1,2) well_formed_head by (auto simp: stops_ok_def stops_well_formed_def)
  ultimately show ?thesis using assms(3) by (simp add: hd_take)
qed

lemma visible_well_formed:
  assumes "stops_ok policy" and "stops_well_formed policy" and "well_formed X"
  shows "well_formed (visible policy ch X)"
proof (rule well_formed_cut(1))
  show "well_formed (visible policy ch X @ held policy ch X)" using assms(3) by simp
  show "held policy ch X = [] \<or> \<not> continues (hd (held policy ch X))" using held_head [OF assms(1,2)] by blast
qed

lemma stopped_well_formed:
  assumes "stops_ok policy" and "stops_well_formed policy" and "well_formed X" and "stop_at policy ch X n k"
  shows "well_formed (take n X @ stop_suffix policy k)"
proof (rule well_formed_append)
  let ?t = "st_text (sp_strings policy ! k)"
  have k: "sp_strings policy ! k \<in> set (sp_strings policy)" "find_sub ?t X = Some n"
    using assms(4) by (auto simp: stop_at_def)
  then have t: "well_formed ?t" "?t \<noteq> []" using assms(1,2) by (auto simp: stops_ok_def stops_well_formed_def)
  show "well_formed (stop_suffix policy k)" using t by (simp add: stop_suffix_def)
  show "well_formed (take n X)"
  proof (rule well_formed_cut(1))
    show "well_formed (take n X @ ?t @ drop (n + length ?t) X)" using assms(3) find_sub_split(1) [OF k(2)] by simp
    show "?t @ drop (n + length ?t) X = [] \<or> \<not> continues (hd (?t @ drop (n + length ?t) X))"
      using well_formed_head [OF t] t(2) by simp
  qed
qed

section \<open>The published deltas\<close>

lemma final_reasoning_well_formed: "well_formed D \<Longrightarrow> well_formed (final_reasoning split D)"
  using channels_well_formed(1) by (simp add: final_reasoning_def)

lemma delta_is_channel_text:
  assumes "accepts Content out" and "(ch, t) \<in> set out"
  shows "t = text_of ch out"
  using assms by (auto simp: accepts.simps)

text \<open>What the client has when a round was committed, running or ended, is well-formed.\<close>

lemma committed_well_formed:
  assumes "started s0" and "session_run decode J s0 B out s" and "contract_of s0 = None"
    and "stops_well_formed (se_policy s0)"
  shows "well_formed (text_of ch out)"
proof -
  note ok = started_run_ok [OF assms(1,2)]
  note D = channels_well_formed [OF text_after_well_formed, of "se_split_reasoning s0" B]
  obtain P where P: "stream_ok (se_policy s0) (se_split_reasoning s0) P B (se_state s) []"
    "text_of Reasoning out = P Reasoning"
    "tool_ok (contract_of s0) (name_limit s0) (P Content) (text_of Content out) (se_tool_call_output s)"
    by (rule session_okD [OF ok(1)])
  have "published_ok (se_policy s0) (se_split_reasoning s0) (text_after B) P []" using P(1) by (simp add: stream_ok_def)
  then have "P Content = visible (se_policy s0) Content (content_text (se_split_reasoning s0) (text_after B))"
    "P Reasoning = visible (se_policy s0) Reasoning (reasoning_text (se_split_reasoning s0) (text_after B)) \<or>
     P Reasoning = reasoning_text (se_split_reasoning s0) (text_after B)"
    by (auto simp: published_ok_def split: if_splits)
  then have "well_formed (P Content)" "well_formed (P Reasoning)"
    using visible_well_formed [OF ok(2) assms(4) D(1)] visible_well_formed [OF ok(2) assms(4) D(2)] D(1) by metis+
  moreover have "text_of Content out = P Content" using P(3) assms(3) by (simp add: tool_ok_def)
  ultimately show ?thesis using P(2) by (cases ch) simp_all
qed

lemma stop_texts_well_formed:
  assumes "stops_ok policy" and "stops_well_formed policy" and "stop_texts w policy split (text_after E) R C k"
  shows "well_formed R" and "well_formed C"
proof -
  note D = channels_well_formed [OF text_after_well_formed, of split E]
  consider n where "stop_at policy Reasoning (reasoning_text split (text_after E)) n k"
      "R = take n (reasoning_text split (text_after E)) @ stop_suffix policy k" "C = []"
    | n where "stop_at policy Content (content_text split (text_after E)) n k"
      "R = reasoning_text split (text_after E)" "C = take n (content_text split (text_after E)) @ stop_suffix policy k"
    using assms(3) unfolding stop_texts_def earliest_stop_def by blast
  then have "well_formed R \<and> well_formed C"
    by cases (use stopped_well_formed [OF assms(1,2)] D in \<open>simp_all\<close>)
  then show "well_formed R" "well_formed C" by blast+
qed

lemma finished_well_formed:
  assumes "started s0" and "session_run decode J s0 B out s"
    and "length tokens \<le> model_token_budget_remaining n s"
    and "preview_model decode tokens n limit s = Inr (dec, s1)" and "commit_preview J s1 = Inr (new, s2)"
    and "de_finish_reason dec \<noteq> FinishNone" and "contract_of s0 = None" and "stops_well_formed (se_policy s0)"
  shows "well_formed (text_of ch (out @ new)) \<and> accepts Content new"
proof -
  obtain P pv where r: "outcome limit decode s P B tokens (de_finish_reason dec) (de_accepted_tokens dec) pv"
    "text_of Reasoning (out @ new) = P Reasoning @ text_of Reasoning (pv_output pv)"
    "(text_of Content (out @ new), se_tool_calls s2, se_tool_call_parse s2) =
      tool_result J (contract_of s0) (name_limit s0) (P Content @ text_of Content (pv_output pv))"
    "accepts Content new"
    by (rule final_round [OF assms(1-6)])
  note ok = started_run_ok [OF assms(1,2)]
  note g = session_ok_fields [OF ok(1)]
  have C: "text_of Content (out @ new) = P Content @ text_of Content (pv_output pv)"
    using r(3) assms(7) by (simp add: tool_result_def)
  have "well_formed (P d @ text_of d (pv_output pv))" for d
  proof (cases "de_finish_reason dec = StopString")
    case True
    with r(1) g(1,2) obtain w E k where
      "stop_texts w (se_policy s0) (se_split_reasoning s0) (text_after E)
        (P Reasoning @ text_of Reasoning (pv_output pv)) (P Content @ text_of Content (pv_output pv)) k"
      by (auto simp: outcome.simps stopped_def stopped_at_def)
    from stop_texts_well_formed [OF ok(2) assms(8) this] show ?thesis by (cases d) simp_all
  next
    case False
    with r(1) assms(6) obtain E where "flushed (se_split_reasoning s) P (final_text E) (pv_output pv)"
      by (cases "de_finish_reason dec") (auto simp: outcome.simps ended_def)
    then show ?thesis
      using final_reasoning_well_formed [OF final_text_well_formed] channels_well_formed(2) [OF final_text_well_formed]
      by (cases d) (simp_all add: flushed_def)
  qed
  then show ?thesis using r(2,4) C by (cases ch) metis+
qed

lemma live_round_accepts:
  assumes "started s0" and "session_run decode J s0 B out s"
    and "length tokens \<le> model_token_budget_remaining n s"
    and "preview_model decode tokens n limit s = Inr (dec, s1)" and "commit_preview J s1 = Inr (new, s2)"
    and "de_finish_reason dec = FinishNone"
  shows "accepts Content new"
proof -
  note ok = started_run_ok [OF assms(1,2)]
  obtain P where P: "stream_ok (se_policy s0) (se_split_reasoning s0) P B (se_state s) []"
    "tool_ok (contract_of s0) (name_limit s0) (P Content) (text_of Content out) (se_tool_call_output s)"
    by (rule session_okD [OF ok(1)])
  from model_round [OF ok assms(3,4) P(1)] obtain pv where pv:
    "s1 = s\<lparr>se_preview := pv, se_preview_ready := True\<rparr>"
    "outcome limit decode s P B tokens (de_finish_reason dec) (de_accepted_tokens dec) pv" by metis
  obtain E where st: "stream_ok (se_policy s) (se_split_reasoning s) P E (pv_state pv) (pv_output pv)"
    using pv(2) assms(6) by (auto simp: outcome.simps)
  then have acc: "accepts Content (pv_output pv)" and live: "\<not> ds_terminal (pv_state (se_preview s1))"
    using accepts_Content pv(1) by (auto simp: stream_ok_def published_ok_def split: if_splits)
  have tool: "tool_ok (contract_of s0) (name_limit s0) (P Content) (text_of Content out) (se_tool_call_output s1)"
    using P(2) pv(1) by simp
  obtain new' s2' where "commit_preview J s1 = Inr (new', s2')" "map fst new' = map fst (pv_output pv)"
    using commit_live [OF _ tool live, of J] pv(1) by simp metis
  with assms(5) acc show ?thesis using accepts_map by (metis old.prod.inject sum.inject(2))
qed

text \<open>
  C29. Without a tool-call contract, and with stop strings that are Unicode text, every delta a round
  of generated tokens publishes is Unicode text in UTF-8 on its own, whatever bytes the model
  generates: in each round, running or last, neither token boundaries nor the hold-back for stop
  strings, the think tag or the stop string that ends the session cut a character, and no surrogate,
  overlong form or stray byte gets through.
\<close>

theorem deltas_well_formed:
  assumes "started s0" and "session_run decode J s0 B out s"
    and "length tokens \<le> model_token_budget_remaining n s"
    and "preview_model decode tokens n limit s = Inr (dec, s1)" and "commit_preview J s1 = Inr (new, s2)"
    and "contract_of s0 = None" and "\<forall>stop\<in>set (sp_strings (se_policy s0)). unicode_text (st_text stop)"
  shows "list_all (\<lambda>(ch, t). unicode_text t) new"
proof -
  have stops: "stops_well_formed (se_policy s0)" using assms(7) by (simp add: stops_well_formed_def unicode_text_iff)
  have before: "well_formed (text_of ch out)" for ch by (rule committed_well_formed [OF assms(1,2,6) stops])
  have after: "well_formed (text_of ch (out @ new)) \<and> accepts Content new" for ch
  proof (cases "de_finish_reason dec = FinishNone")
    case True
    have "session_run decode J s0 (B @ token_bytes decode (se_preserve_special s0) tokens) (out @ new) s2"
      by (rule session_run.model [OF assms(2-4) True assms(5)])
    from committed_well_formed [OF assms(1) this assms(6) stops] have "well_formed (text_of ch (out @ new))" .
    moreover have "accepts Content new" by (rule live_round_accepts [OF assms(1-5) True])
    ultimately show ?thesis by blast
  next
    case False
    from finished_well_formed [OF assms(1-5) False assms(6) stops] show ?thesis .
  qed
  have "well_formed t" if "(ch, t) \<in> set new" for ch t
  proof -
    have "t = text_of ch new" using delta_is_channel_text that after by blast
    with well_formed_cancel [OF before [of ch]] after [of ch] show ?thesis by simp
  qed
  then show ?thesis by (auto simp: list_all_iff unicode_text_iff)
qed

theorem deltas_well_formed_witness:
  "list_all (\<lambda>(ch, t). unicode_text t) (fst (demo_commit (snd (demo_preview demo_next 9))))"
proof -
  have "\<not> isl (preview_model demo_decode [0] 9 OutputLimit demo_next)"
    "\<not> isl (commit_preview demo_json (snd (demo_preview demo_next 9)))"
    by code_simp+
  note eqs = demo_preview_eq [OF this(1)] demo_commit_eq [OF this(2)]
  have facts: "length [0 :: token] \<le> model_token_budget_remaining 9 demo_next"
    "contract_of demo_start = None" "stops_well_formed (se_policy demo_start)"
    by code_simp+
  have "\<forall>stop\<in>set (sp_strings (se_policy demo_start)). unicode_text (st_text stop)"
    using facts(3) by (simp add: stops_well_formed_def unicode_text_iff)
  then show ?thesis by (rule deltas_well_formed [OF demo_started demo_run facts(1) eqs facts(2)])
qed

end
