(* ===== verification/BoundaryTracker.thy ===== *)
theory BoundaryTracker
  imports StopStream
begin

text \<open>
  The failure table and the prefix-execution tracker: \<open>make_prefix_failure_table\<close> computes the
  longest borders of the pattern, and the tracker that uses it finds the first occurrence of the
  canonical reasoning close in the bytes of the tokens, wherever the tokens cut it.
\<close>

section \<open>Borders and the failure table\<close>

text \<open>The longest proper border of the first \<open>j\<close> characters.\<close>

definition border :: "string \<Rightarrow> nat \<Rightarrow> nat" where
  "border p j = longest_suffix_prefix (drop 1 (take j p)) p False"

definition table_ok :: "string \<Rightarrow> nat list \<Rightarrow> nat \<Rightarrow> bool" where
  "table_ok p F m \<longleftrightarrow> (\<forall>j. 0 < j \<and> j \<le> m \<longrightarrow> F ! (j - 1) = border p j)"

lemma border_less: "0 < j \<Longrightarrow> border p j < j"
  using lsp_le_text [of "drop 1 (take j p)" p False] by (simp add: border_def)

lemma proper_suffix_tail:
  assumes "suffix u (take m p)" and "length u < m" and "m \<le> length p"
  shows "suffix u (drop 1 (take m p))"
proof -
  from assms(1) obtain w where w: "take m p = w @ u" by (auto simp: suffix_def)
  with assms(2,3) have "w \<noteq> []" by (metis append_Nil length_take min.absorb2 less_irrefl)
  then obtain x xs where "w = x # xs" by (cases w) auto
  then show ?thesis using w by (simp add: suffix_def)
qed

lemma border_suffix: "suffix (take (border p m) p) (take m p)"
  unfolding border_def by (rule suffix_order.order_trans [OF lsp_suffix suffix_drop])

lemma border_max:
  assumes "suffix (take j p) (take m p)" and "j < m" and "m \<le> length p"
  shows "j \<le> border p m"
  unfolding border_def using assms by (intro lsp_max proper_suffix_tail) auto

lemma suffix_between:
  assumes "suffix (take j p) X" and "suffix (take m p) X" and "j \<le> m"
  shows "suffix (take j p) (take m p)"
  using assms by (metis suffix_length_suffix length_take min.mono order_refl)

lemma fall_back_spec:
  assumes "table_ok p F m" and "m < length p" and "m \<le> fuel"
  shows "fall_back fuel p F b m \<le> m \<and> suffix (take (fall_back fuel p F b m) p) (take m p) \<and>
    (fall_back fuel p F b m = 0 \<or> b = p ! fall_back fuel p F b m) \<and>
    (\<forall>j\<le>m. suffix (take j p) (take m p) \<longrightarrow> b = p ! j \<longrightarrow> j \<le> fall_back fuel p F b m)"
  using assms
proof (induction fuel arbitrary: m)
  case (Suc fuel)
  show ?case
  proof (cases "m \<noteq> 0 \<and> b \<noteq> p ! m")
    case False
    then show ?thesis by auto
  next
    case True
    let ?f = "border p m"
    have f: "F ! (m - 1) = ?f" "?f < m" using Suc.prems(1) True border_less by (auto simp: table_ok_def)
    then have run: "fall_back (Suc fuel) p F b m = fall_back fuel p F b ?f" using True by simp
    have ih: "fall_back fuel p F b ?f \<le> ?f \<and> suffix (take (fall_back fuel p F b ?f) p) (take ?f p) \<and>
        (fall_back fuel p F b ?f = 0 \<or> b = p ! fall_back fuel p F b ?f) \<and>
        (\<forall>j\<le>?f. suffix (take j p) (take ?f p) \<longrightarrow> b = p ! j \<longrightarrow> j \<le> fall_back fuel p F b ?f)"
      using Suc.prems f(2) by (intro Suc.IH) (auto simp: table_ok_def)
    have "j \<le> fall_back fuel p F b ?f" if "j \<le> m" "suffix (take j p) (take m p)" "b = p ! j" for j
    proof -
      have "j < m" using that True by (metis le_neq_implies_less)
      then have "j \<le> ?f" using that(2) Suc.prems(2) by (intro border_max) auto
      with that(2,3) suffix_between [OF that(2) border_suffix] ih show ?thesis by blast
    qed
    moreover have "suffix (take (fall_back fuel p F b ?f) p) (take m p)"
      using ih border_suffix suffix_order.order_trans by blast
    ultimately show ?thesis unfolding run using ih f(2) by auto
  qed
qed auto

text \<open>One character: the longest beginning of the pattern at the end of the longer text.\<close>

definition advance :: "nat \<Rightarrow> string \<Rightarrow> nat list \<Rightarrow> char \<Rightarrow> nat \<Rightarrow> nat" where
  "advance fuel p F b m = (let k = fall_back fuel p F b m in if b = p ! k then k + 1 else k)"

lemma advance_spec:
  assumes "p \<noteq> []" and "m = longest_suffix_prefix X p False" and "table_ok p F m" and "m \<le> fuel"
  shows "advance fuel p F b m \<le> length p" and "suffix (take (advance fuel p F b m) p) (X @ [b])"
    and "\<And>i. i \<le> length p \<Longrightarrow> suffix (take i p) (X @ [b]) \<Longrightarrow> i \<le> advance fuel p F b m"
proof -
  let ?k = "fall_back fuel p F b m"
  have m: "m < length p" using lsp_proper [of False p X] assms(1,2) by simp
  note k = fall_back_spec [OF assms(3) m assms(4), of b]
  have take_Suc: "suffix (take (Suc j) p) (X @ [b]) \<longleftrightarrow> p ! j = b \<and> suffix (take j p) X" if "j < length p" for j
    using that by (simp add: take_Suc_conv_app_nth snoc_suffix_snoc)
  show "advance fuel p F b m \<le> length p" using k m by (auto simp: advance_def Let_def)
  have kX: "suffix (take ?k p) X"
    using k lsp_suffix [of X p False] assms(2) suffix_order.order_trans by blast
  show "suffix (take (advance fuel p F b m) p) (X @ [b])"
  proof (cases "b = p ! ?k")
    case True
    then show ?thesis using kX k m take_Suc [of ?k] by (simp add: advance_def)
  next
    case False
    then have "advance fuel p F b m = 0" using k by (simp add: advance_def)
    then show ?thesis by simp
  qed
  fix i assume i: "i \<le> length p" "suffix (take i p) (X @ [b])"
  show "i \<le> advance fuel p F b m"
  proof (cases i)
    case (Suc j)
    then have j: "p ! j = b" "suffix (take j p) X" using i take_Suc [of j] by auto
    have "j \<le> m" using lsp_max [OF j(2)] i(1) Suc assms(2) by simp
    then have "suffix (take j p) (take m p)" using j(2) lsp_suffix [of X p False] assms(2) suffix_between by blast
    with \<open>j \<le> m\<close> j(1) k have "j \<le> ?k" by blast
    then show ?thesis using Suc k j(1) by (cases "b = p ! ?k") (auto simp: advance_def)
  qed simp
qed

lemma advance_lsp:
  assumes "p \<noteq> []" and "m = longest_suffix_prefix X p False" and "table_ok p F m" and "m \<le> fuel"
    and "advance fuel p F b m \<noteq> length p"
  shows "advance fuel p F b m = longest_suffix_prefix (X @ [b]) p False" and "\<not> suffix p (X @ [b])"
proof -
  note a = advance_spec [OF assms(1-4), where b = b]
  have less: "advance fuel p F b m < length p" using a(1) assms(5) by simp
  show "\<not> suffix p (X @ [b])" using a(3) [of "length p"] less by auto
  show "advance fuel p F b m = longest_suffix_prefix (X @ [b]) p False"
    using a(3) [OF lsp_le_marker lsp_suffix] lsp_max [OF a(2), of False] less by (simp add: antisym)
qed

lemma advance_complete:
  assumes "p \<noteq> []" and "m = longest_suffix_prefix X p False" and "table_ok p F m" and "m \<le> fuel"
    and "advance fuel p F b m = length p"
  shows "suffix p (X @ [b])"
  using advance_spec(2) [OF assms(1-4), where b = b] assms(5) by simp

lemma lsp_Nil [simp]: "longest_suffix_prefix [] p b = 0"
  using lsp_le_text [of "[]" p b] by simp

lemma failure_loop_ok:
  assumes "table_ok p F (length F)" and "F \<noteq> []" and "length F + n \<le> length p"
  shows "length (failure_loop p F n) = length F + n \<and> table_ok p (failure_loop p F n) (length F + n)"
  using assms
proof (induction n arbitrary: F)
  case (Suc n)
  let ?k = "length F"
  let ?X = "drop 1 (take ?k p)"
  let ?new = "advance (length p) p F (p ! ?k) (last F)"
  have p: "p \<noteq> []" "?k < length p" "0 < ?k" using Suc.prems by auto
  have m: "last F = longest_suffix_prefix ?X p False"
    using Suc.prems(1) p(3) by (simp add: table_ok_def last_conv_nth border_def)
  have tab: "table_ok p F (last F)"
    using Suc.prems(1) m lsp_le_text [of ?X p False] p(2) by (auto simp: table_ok_def)
  have le: "last F \<le> length p" using m lsp_le_marker by simp
  have X: "?X @ [p ! ?k] = drop 1 (take (Suc ?k) p)"
  proof -
    have "1 - ?k = 0" using p(3) by arith
    then show ?thesis using p(2) by (simp add: take_Suc_conv_app_nth)
  qed
  have "length (take ?new p) \<le> length (?X @ [p ! ?k])"
    by (rule suffix_length_le [OF advance_spec(2) [OF p(1) m tab le]])
  then have "?new \<noteq> length p" using p advance_spec(1) [OF p(1) m tab le] by auto
  from advance_lsp(1) [OF p(1) m tab le this] have new: "?new = border p (Suc ?k)"
    unfolding border_def X .
  have "table_ok p (F @ [?new]) (length (F @ [?new]))"
    unfolding table_ok_def
  proof (intro allI impI)
    fix j assume j: "0 < j \<and> j \<le> length (F @ [?new])"
    show "(F @ [?new]) ! (j - 1) = border p j"
    proof (cases "j = Suc ?k")
      case False
      then have "j - 1 < ?k" "j \<le> ?k" using j by auto
      then show ?thesis using Suc.prems(1) j by (simp add: nth_append table_ok_def)
    qed (simp add: new)
  qed
  from Suc.IH [OF this] Suc.prems(3) show ?case by (simp add: advance_def Let_def)
qed simp

theorem failure_table_correct:
  assumes "p \<noteq> []"
  shows "length (make_prefix_failure_table p) = length p"
    and "table_ok p (make_prefix_failure_table p) (length p)"
proof -
  have "table_ok p [0] (length [0 :: nat])"
  proof -
    have "border p 1 = 0" using border_less [of 1 p] by simp
    then show ?thesis by (auto simp: table_ok_def le_Suc_eq)
  qed
  from failure_loop_ok [OF this, of "length p - 1"] assms
  show "length (make_prefix_failure_table p) = length p"
    and "table_ok p (make_prefix_failure_table p) (length p)"
    by (cases p; simp add: make_prefix_failure_table_def)+
qed

section \<open>The tracker\<close>

lemma kBoundary_nonempty [simp]: "kBoundary \<noteq> []"
  by (simp add: kBoundary_def)

lemma kFailure_ok: "m < length kBoundary \<Longrightarrow> table_ok kBoundary kFailure m"
  using failure_table_correct(2) [of kBoundary] by (auto simp: kFailure_def table_ok_def)

lemma sublist_find_first:
  assumes "\<not> sublist pat X" and "suffix pat (X @ [b])" and "pat \<noteq> []"
  shows "find_sub pat (X @ b # bs) = Some (length X + 1 - length pat)"
proof -
  from assms(2) obtain u where u: "X @ [b] = u @ pat" by (auto simp: suffix_def)
  have "butlast (u @ pat) = X" using u by (metis butlast_snoc)
  then have "find_sub pat (butlast (u @ pat)) = None" using assms(1) by (simp add: find_sub_None_sublist)
  from find_sub_first [OF this assms(3), of bs] have "find_sub pat (X @ b # bs) = Some (length u)"
    using u by (metis append.assoc append_Cons append_Nil)
  moreover have "length u = length X + 1 - length pat" using u by (metis add_diff_cancel_right' length_append length_append_singleton Suc_eq_plus1)
  ultimately show ?thesis by simp
qed

lemma find_sub_not_inside:
  assumes "\<not> sublist pat X" and "find_sub pat (X @ w) = Some k"
  shows "length X < k + length pat"
proof (rule ccontr)
  assume "\<not> length X < k + length pat"
  then have le: "k \<le> length X" "length pat \<le> length (drop k X)" by auto
  from assms(2) have "prefix pat (drop k X @ w)" using le(1) by (simp add: find_sub_Some_iff)
  then have "prefix pat (drop k X)" using le(2) by (metis prefix_length_prefix prefixI)
  then have "sublist pat X" by (metis prefix_imp_sublist sublist_drop sublist_order.order_trans)
  with assms(1) show False by simp
qed

lemma tracker_loop_exact:
  assumes "\<not> sublist kBoundary X" and "pt_matched t = longest_suffix_prefix X kBoundary False"
  shows "tracker_loop t bs offset =
    (case find_sub kBoundary (X @ bs) of
       Some k \<Rightarrow> (Some (offset + (k + length kBoundary - length X)), \<lparr>pt_matched = 0, pt_tracking = False\<rparr>)
     | None \<Rightarrow> (None, t\<lparr>pt_matched := longest_suffix_prefix (X @ bs) kBoundary False\<rparr>))"
  using assms
proof (induction bs arbitrary: X t offset)
  case Nil
  then show ?case by (simp add: find_sub_None_sublist [THEN iffD2])
next
  case (Cons b bs)
  let ?m = "pt_matched t"
  let ?new = "advance (length kBoundary) kBoundary kFailure b ?m"
  have m: "?m < length kBoundary" using lsp_proper [of False kBoundary X] Cons.prems(2) by simp
  note tab = kFailure_ok [OF m] and le = less_imp_le [OF m]
  note run = tracker_loop.simps(2) [of t b bs offset, folded advance_def, unfolded Let_def, folded advance_def [unfolded Let_def]]
  show ?case
  proof (cases "?new = length kBoundary")
    case True
    have suf: "suffix kBoundary (X @ [b])"
      by (rule advance_complete [OF kBoundary_nonempty Cons.prems(2) tab le True])
    have "length kBoundary \<le> length X + 1" using suffix_length_le [OF suf] by simp
    then show ?thesis
      using True sublist_find_first [OF Cons.prems(1) suf kBoundary_nonempty, of bs] unfolding run
      by simp
  next
    case False
    note a = advance_lsp [OF kBoundary_nonempty Cons.prems(2) tab le False]
    have no: "\<not> sublist kBoundary (X @ [b])" using Cons.prems(1) a(2) by (simp add: sublist_snoc)
    have len: "k + length kBoundary \<ge> length X + 1" if "find_sub kBoundary (X @ b # bs) = Some k" for k
      using find_sub_not_inside [OF Cons.prems(1) that] by simp
    have "tracker_loop t (b # bs) offset = tracker_loop (t\<lparr>pt_matched := ?new\<rparr>) bs (offset + 1)"
      using False unfolding run by simp
    with Cons.IH [of "X @ [b]" "t\<lparr>pt_matched := ?new\<rparr>" "offset + 1"] no a(1) len show ?thesis
      by (auto split: option.splits)
  qed
qed

text \<open>The tracker after the bytes of some tokens.\<close>

definition track :: "string list \<Rightarrow> prefix_tracker" where
  "track chunks = fold (\<lambda>bs t. snd (tracker_feed t bs)) chunks \<lparr>pt_matched = 0, pt_tracking = True\<rparr>"

lemma track_snoc: "track (chunks @ [bs]) = snd (tracker_feed (track chunks) bs)"
  by (simp add: track_def)

lemma tracker_feed_exact:
  assumes "t = (if sublist kBoundary X then \<lparr>pt_matched = 0, pt_tracking = False\<rparr>
                else \<lparr>pt_matched = longest_suffix_prefix X kBoundary False, pt_tracking = True\<rparr>)"
  shows "tracker_feed t bs =
    (if sublist kBoundary X \<or> \<not> sublist kBoundary (X @ bs) then None
     else Some (the (find_sub kBoundary (X @ bs)) + length kBoundary - length X),
     if sublist kBoundary (X @ bs) then \<lparr>pt_matched = 0, pt_tracking = False\<rparr>
     else \<lparr>pt_matched = longest_suffix_prefix (X @ bs) kBoundary False, pt_tracking = True\<rparr>)"
proof (cases "sublist kBoundary X")
  case True
  then show ?thesis using assms by (simp add: tracker_feed_def sublist_append)
next
  case False
  then have t: "t = \<lparr>pt_matched = longest_suffix_prefix X kBoundary False, pt_tracking = True\<rparr>" using assms by simp
  from tracker_loop_exact [OF False, of t bs 0] False t show ?thesis
    by (cases "find_sub kBoundary (X @ bs)") (auto simp: tracker_feed_def find_sub_None_sublist [symmetric])
qed

lemma track_state:
  "track chunks =
    (if sublist kBoundary (concat chunks) then \<lparr>pt_matched = 0, pt_tracking = False\<rparr>
     else \<lparr>pt_matched = longest_suffix_prefix (concat chunks) kBoundary False, pt_tracking = True\<rparr>)"
proof (induction chunks rule: rev_induct)
  case Nil
  then show ?case by (simp add: track_def)
next
  case (snoc bs chunks)
  from tracker_feed_exact [OF snoc, of bs] show ?case by (simp add: track_snoc)
qed

text \<open>The first occurrence of the boundary ends with the last of the new bytes.\<close>

definition completes :: "string \<Rightarrow> string \<Rightarrow> bool" where
  "completes X bs \<longleftrightarrow>
    bs \<noteq> [] \<and> suffix kBoundary (X @ bs) \<and> \<not> sublist kBoundary (butlast (X @ bs))"

lemma sublist_found: "sublist pat s \<Longrightarrow> \<exists>k. find_sub pat s = Some k"
  using find_sub_None_sublist [of pat s] by (cases "find_sub pat s") auto

lemma find_sub_end:
  assumes "suffix pat s" and "\<not> sublist pat (butlast s)" and "pat \<noteq> []"
  shows "find_sub pat s = Some (length s - length pat)"
proof -
  from assms(1) obtain u where u: "s = u @ pat" by (auto simp: suffix_def)
  from find_sub_first [of pat u "[]"] assms(2,3) u show ?thesis by (simp add: find_sub_None_sublist)
qed

lemma tracker_feed_completes:
  "fst (tracker_feed (track chunks) bs) = Some (length bs) \<longleftrightarrow> completes (concat chunks) bs"
proof -
  let ?X = "concat chunks"
  let ?p = kBoundary
  have fst: "fst (tracker_feed (track chunks) bs) =
    (if sublist ?p ?X \<or> \<not> sublist ?p (?X @ bs) then None
     else Some (the (find_sub ?p (?X @ bs)) + length ?p - length ?X))"
    using tracker_feed_exact [OF track_state, of chunks bs] by simp
  show ?thesis
  proof
    assume c: "completes ?X bs"
    then have suf: "suffix ?p (?X @ bs)" and no: "\<not> sublist ?p (butlast (?X @ bs))" and ne: "bs \<noteq> []"
      by (auto simp: completes_def)
    have "\<not> sublist ?p ?X"
    proof
      assume "sublist ?p ?X"
      moreover have "butlast (?X @ bs) = ?X @ butlast bs" using ne by (simp add: butlast_append)
      ultimately show False using no by (simp add: sublist_append)
    qed
    moreover have "sublist ?p (?X @ bs)" using suf by (rule suffix_imp_sublist)
    moreover have "length ?p \<le> length (?X @ bs)" using suffix_length_le [OF suf] .
    ultimately show "fst (tracker_feed (track chunks) bs) = Some (length bs)"
      using fst find_sub_end [OF suf no kBoundary_nonempty] by simp
  next
    assume *: "fst (tracker_feed (track chunks) bs) = Some (length bs)"
    then have no: "\<not> sublist ?p ?X" and occ: "sublist ?p (?X @ bs)" using fst by (auto split: if_splits)
    from sublist_found [OF occ] obtain k where k: "find_sub ?p (?X @ bs) = Some k" by blast
    have less: "length ?X < k + length ?p" by (rule find_sub_not_inside [OF no k])
    then have len: "k + length ?p = length (?X @ bs)" using * fst no occ k by simp
    have ne: "bs \<noteq> []" using less len by auto
    have suf: "suffix ?p (?X @ bs)" using find_sub_split [OF k] len by (metis suffixI drop_all append_Nil2 le_refl)
    have "\<not> sublist ?p (butlast (?X @ bs))"
    proof
      assume "sublist ?p (butlast (?X @ bs))"
      from sublist_found [OF this] obtain j where j: "find_sub ?p (butlast (?X @ bs)) = Some j" by blast
      have "butlast (?X @ bs) @ [last (?X @ bs)] = ?X @ bs" using ne by (intro append_butlast_last_id) simp
      with find_sub_append [OF j, of "[last (?X @ bs)]"] have "find_sub ?p (?X @ bs) = Some j" by (simp only:)
      then have "j = k" using k by simp
      then show False using find_sub_split(2) [OF j] len ne by (cases bs) auto
    qed
    with suf ne show "completes ?X bs" by (simp add: completes_def)
  qed
qed

section \<open>The split a preview reports\<close>

text \<open>A match found for a token is committed with that token.\<close>

abbreviation committed_at :: "nat \<Rightarrow> stop_match option \<Rightarrow> bool" where
  "committed_at c m \<equiv> (\<forall>b. m = Some b \<longrightarrow> sm_found b \<longrightarrow> sm_committed_tokens b = c)"

lemma match_stops_committed:
  "match_stops ch X start em c k stops b = Inr b' \<Longrightarrow> committed_at c (Some b) \<Longrightarrow> committed_at c (Some b')"
proof (induction stops arbitrary: k b)
  case (Cons stop stops)
  show ?case
  proof (cases "st_channel stop = ch \<and> find_sub (st_text stop) X \<noteq> None")
    case False
    with Cons.prems(1) have "match_stops ch X start em c (k + 1) stops b = Inr b'" by (auto split: if_splits)
    then show ?thesis using Cons.prems(2) by (rule Cons.IH)
  next
    case True
    then obtain f where f: "find_sub (st_text stop) X = Some f" by auto
    show ?thesis
    proof (cases "stop_match_precedes c (start + f) k b")
      case False
      with Cons.prems(1) True f have "match_stops ch X start em c (k + 1) stops b = Inr b'" by auto
      then show ?thesis using Cons.prems(2) by (rule Cons.IH)
    next
      case prec: True
      with Cons.prems(1) True f obtain d where "match_stops ch X start em c (k + 1) stops
          \<lparr>sm_found = True, sm_committed_tokens = c, sm_byte_cut = start + f, sm_declaration_order = k,
           sm_output = d\<rparr> = Inr b'"
        by (auto simp: rbind_Inr_iff)
      then show ?thesis by (rule Cons.IH) simp
    qed
  qed
qed simp

lemma feed_channel_committed:
  assumes "feed_channel policy c ch s (st, em, m) = Inr (st', em', m')" and "committed_at c m"
  shows "committed_at c m'"
proof (cases m)
  case None
  then have "m' = None" using assms(1) by (auto simp: feed_channel_def Let_def rbind_Inr_iff split: if_splits)
  then show ?thesis by simp
next
  case (Some b)
  show ?thesis
  proof (cases "s = []")
    case True
    then show ?thesis using assms by (simp add: feed_channel_def)
  next
    case False
    with assms(1) Some obtain b' X start where
      "match_stops ch X start em c 0 (sp_strings policy) b = Inr b'" "m' = Some b'"
      by (auto simp: feed_channel_def Let_def rbind_Inr_iff)
    then show ?thesis using match_stops_committed [of ch X start em c 0 "sp_strings policy" b b'] assms(2) Some by simp
  qed
qed

lemma feed_content_committed:
  assumes "feed_content policy c s (st, em, m) = Inr (st', em', m')" and "committed_at c m"
  shows "committed_at c m'"
proof -
  from assms(1) obtain s2 st2 where "feed_channel policy c Content s2 (st2, em, m) = Inr (st', em', m')"
    by (auto simp: feed_content_def Let_def)
  then show ?thesis using assms(2) by (rule feed_channel_committed)
qed

lemma feed_decoded_committed:
  assumes "feed_decoded_text policy c s (st, em, m) = Inr (st', em', m')" and "committed_at c m"
  shows "committed_at c m'"
proof (cases "ds_in_reasoning st")
  case False
  with assms(1) have "feed_content policy c s (st, em, m) = Inr (st', em', m')" by (simp add: feed_decoded_text_def)
  then show ?thesis using assms(2) by (rule feed_content_committed)
next
  case True
  let ?p = "ds_think_marker_pending st @ s"
  show ?thesis
  proof (cases "find_sub kThinkClose ?p")
    case None
    with True assms(1) obtain st1 where
      "feed_channel policy c Reasoning (take (length ?p - longest_suffix_prefix ?p kThinkClose True) ?p)
        (st\<lparr>ds_think_marker_pending := ?p\<rparr>, em, m) = Inr (st1, em', m')"
      by (auto simp: feed_decoded_text_def Let_def rbind_Inr_iff)
    then show ?thesis using assms(2) by (rule feed_channel_committed)
  next
    case (Some k)
    with True assms(1) obtain st1 em1 m1 st2 em2 st3 where
      f: "feed_channel policy c Reasoning (take k ?p) (st\<lparr>ds_think_marker_pending := ?p\<rparr>, em, m) = Inr (st1, em1, m1)"
      and "close_channel Reasoning (st1, em1, m1) = Inr (st2, em2, m1)"
      and g: "feed_content policy c (drop (k + length kThinkClose) ?p) (st3, em2, m1) = Inr (st', em', m')"
      by (auto simp: feed_decoded_text_def Let_def rbind_Inr_iff close_channel_def)
    from feed_content_committed [OF g feed_channel_committed [OF f assms(2)]] show ?thesis .
  qed
qed

lemma feed_token_committed:
  assumes "feed_token_bytes policy c bs (st, em, Some no_match) = Inr (st', em', m')"
  shows "committed_at c m'"
proof -
  obtain s u where "consume_generated_utf8 (ds_utf8_pending st @ bs) = (s, u)" by fastforce
  with assms have "feed_decoded_text policy c s (st\<lparr>ds_utf8_pending := u\<rparr>, em, Some no_match) = Inr (st', em', m')"
    by (simp add: feed_token_bytes_def)
  then show ?thesis by (rule feed_decoded_committed) (simp add: no_match_def)
qed

text \<open>
  \<open>splits bss cs m\<close>: of the tokens with bytes \<open>cs\<close>, after earlier ones with bytes \<open>bss\<close>, the
  \<open>m\<close>-th ends the first boundary.
\<close>

definition splits :: "string list \<Rightarrow> string list \<Rightarrow> nat option \<Rightarrow> bool" where
  "splits bss cs split \<longleftrightarrow>
    (\<forall>m. split = Some m \<longleftrightarrow>
      0 < m \<and> m \<le> length cs \<and> completes (concat (bss @ take (m - 1) cs)) (cs ! (m - 1)))"

lemma completes_once:
  assumes "completes X bs"
  shows "\<not> completes (X @ bs @ w) bs'"
proof
  assume c: "completes (X @ bs @ w) bs'"
  then have "bs' \<noteq> []" by (simp add: completes_def)
  then have "butlast ((X @ bs @ w) @ bs') = (X @ bs) @ w @ butlast bs'" by (simp add: butlast_append)
  moreover have "sublist kBoundary (X @ bs)" using assms suffix_imp_sublist by (auto simp: completes_def)
  ultimately have "sublist kBoundary (butlast ((X @ bs @ w) @ bs'))" by (simp only: sublist_append simp_thms)
  with c show False by (simp add: completes_def)
qed

lemma splits_snoc:
  assumes "splits bss cs split"
  shows "splits bss (cs @ [bs])
    (if completes (concat (bss @ cs)) bs then Some (length cs + 1) else split)"
proof -
  have unique: "m = length cs + 1"
    if "completes (concat (bss @ cs)) bs" "0 < m" "m \<le> length cs" "completes (concat (bss @ take (m - 1) cs)) (cs ! (m - 1))" for m
  proof -
    have "concat cs = concat (take (m - 1) cs) @ cs ! (m - 1) @ concat (drop m cs)"
      using that(2,3) by (metis (no_types, lifting) Cons_nth_drop_Suc Suc_diff_1 Suc_le_lessD append_take_drop_id concat.simps(2) concat_append)
    then have "concat (bss @ cs) = concat (bss @ take (m - 1) cs) @ cs ! (m - 1) @ concat (drop m cs)" by simp
    with completes_once [OF that(4)] that(1) show ?thesis by metis
  qed
  show ?thesis unfolding splits_def
  proof (intro allI)
    fix m
    consider "m = length cs + 1" | "m \<noteq> length cs + 1" by blast
    then show "((if completes (concat (bss @ cs)) bs then Some (length cs + 1) else split) = Some m) \<longleftrightarrow>
      0 < m \<and> m \<le> length (cs @ [bs]) \<and>
      completes (concat (bss @ take (m - 1) (cs @ [bs]))) ((cs @ [bs]) ! (m - 1))"
    proof cases
      case 1
      then show ?thesis using assms by (auto simp: splits_def)
    next
      case 2
      let ?good = "0 < m \<and> m \<le> length cs \<and> completes (concat (bss @ take (m - 1) cs)) (cs ! (m - 1))"
      have old: "(cs @ [bs]) ! (m - 1) = cs ! (m - 1)" "take (m - 1) (cs @ [bs]) = take (m - 1) cs"
        if "0 < m" "m \<le> length cs"
        using that by (cases m; simp add: nth_append)+
      have "(0 < m \<and> m \<le> length (cs @ [bs]) \<and>
          completes (concat (bss @ take (m - 1) (cs @ [bs]))) ((cs @ [bs]) ! (m - 1))) \<longleftrightarrow> ?good"
      proof (cases "0 < m \<and> m \<le> length cs")
        case True
        then show ?thesis using old by simp
      next
        case False
        then show ?thesis using 2 by auto
      qed
      also have "?good \<longleftrightarrow> (if completes (concat (bss @ cs)) bs then Some (length cs + 1) else split) = Some m"
      proof (cases "completes (concat (bss @ cs)) bs")
        case True
        then show ?thesis using unique [of m] 2 by auto
      next
        case False
        then show ?thesis using assms by (simp only: splits_def if_False)
      qed
      finally show ?thesis by blast
    qed
  qed
qed

lemma note_token_prefix:
  assumes "note_token pv c bs = Inr pv1" and "pv_prefix pv = track bss"
  shows "pv_prefix pv1 = track (bss @ [bs])"
    and "pv_split_after pv1 = (if completes (concat bss) bs then Some c else pv_split_after pv)"
proof -
  obtain boundary pt where t: "tracker_feed (pv_prefix pv) bs = (boundary, pt)" by fastforce
  have *: "pv_prefix pv1 = pt \<and>
      pv_split_after pv1 = (if boundary = Some (length bs) then Some c else pv_split_after pv)"
    using assms(1) by (auto simp: note_token_def t Let_def split: if_splits option.splits)
  show "pv_prefix pv1 = track (bss @ [bs])" using * t assms(2) by (simp add: track_snoc)
  show "pv_split_after pv1 = (if completes (concat bss) bs then Some c else pv_split_after pv)"
    using * t assms(2) tracker_feed_completes [of bss bs] by simp
qed

lemma complete_prefix:
  assumes "complete_preview s pv n reason cont = Inr (dec, s')"
  shows "de_accepted_tokens dec = n" and "de_prefix_execution_split_after dec = pv_split_after pv"
    and "pv_prefix (se_preview s') = pv_prefix pv"
  using assms by (auto simp: complete_preview_def Let_def split: if_splits)

abbreviation chunk_of :: "(token \<Rightarrow> string \<times> bool) \<Rightarrow> token \<Rightarrow> string" where
  "chunk_of decode t \<equiv> fst (decode t)"

lemma preview_loop_split:
  assumes "preview_loop decode s budget limit count tokens pv = Inr (dec, s')"
    and "pv_prefix pv = track (bss @ cs)" and "splits bss cs (pv_split_after pv)" and "length cs = count"
  shows "\<exists>n\<le>length tokens. de_accepted_tokens dec = count + n \<and>
    pv_prefix (se_preview s') = track (bss @ cs @ map (chunk_of decode) (take n tokens)) \<and>
    splits bss (cs @ map (chunk_of decode) (take n tokens)) (de_prefix_execution_split_after dec)"
  using assms
proof (induction tokens arbitrary: count pv cs)
  case Nil
  then obtain pv' reason cont where
    "complete_preview s pv' count reason cont = Inr (dec, s')" "pv_prefix pv' = pv_prefix pv"
    "pv_split_after pv' = pv_split_after pv"
  proof -
    assume that: "\<And>pv' reason cont. complete_preview s pv' count reason cont = Inr (dec, s') \<Longrightarrow>
      pv_prefix pv' = pv_prefix pv \<Longrightarrow> pv_split_after pv' = pv_split_after pv \<Longrightarrow> thesis"
    show thesis using Nil.prems(1) that
      by (auto simp: rbind_Inr_iff split: if_splits)
  qed
  with complete_prefix [OF this(1)] Nil.prems(2,3) show ?case by simp
next
  case (Cons t ts)
  obtain bs special where d: "decode t = (bs, special)" by fastforce
  let ?bs = "if \<not> se_preserve_special s \<and> special then [] else bs"
  note run = Cons.prems(1) [unfolded preview_loop.simps d prod.case Let_def]
  from run obtain pv1 where n: "note_token pv (count + 1) bs = Inr pv1" by (elim rbind_InrE)
  from run [unfolded n rbind_simps] obtain r where f:
    "feed_token_bytes (se_policy s) (count + 1) ?bs (pv_state pv1, pv_output pv1, Some no_match) = Inr r"
    by (elim rbind_InrE)
  obtain st2 out2 m where r: "r = (st2, out2, m)" by (cases r)
  note run2 = run [unfolded n rbind_simps f r prod.case]
  then obtain x where m: "m = Some x" by (cases m) auto
  have com: "sm_found x \<Longrightarrow> sm_committed_tokens x = count + 1"
    using feed_token_committed [OF f [unfolded r m]] by simp
  note pre = note_token_prefix [OF n Cons.prems(2)]
  have pv1: "pv_prefix pv1 = track (bss @ cs @ [bs])" using pre(1) by simp
  have sp1: "splits bss (cs @ [bs]) (pv_split_after pv1)"
    unfolding pre(2) Cons.prems(4) [symmetric] by (rule splits_snoc [OF Cons.prems(3)])
  consider st out reason where
      "complete_preview s (pv1\<lparr>pv_state := st, pv_output := out\<rparr>) (count + 1) reason Decode = Inr (dec, s')"
    | st out where "preview_loop decode s budget limit (count + 1) ts (pv1\<lparr>pv_state := st, pv_output := out\<rparr>) = Inr (dec, s')"
  proof (cases "sm_found x")
    case True
    then show ?thesis using run2 [unfolded m option.case] com that(1) by simp
  next
    case nf: False
    show ?thesis
    proof (cases "t \<in> set (sp_token_ids (se_policy s))")
      case True
      with nf run2 [unfolded m option.case] show ?thesis
        by (auto elim!: rbind_InrE intro: that(1))
    next
      case False
      with nf run2 [unfolded m option.case] that(2) show ?thesis by simp
    qed
  qed
  then show ?case
  proof cases
    case 1
    with complete_prefix [OF 1] pv1 sp1 d show ?thesis by (intro exI [where x = 1]) simp
  next
    case 2
    from Cons.IH [OF 2, of "cs @ [bs]"] pv1 sp1 Cons.prems(4) obtain k where
      "k \<le> length ts" "de_accepted_tokens dec = count + 1 + k"
      "pv_prefix (se_preview s') = track (bss @ (cs @ [bs]) @ map (chunk_of decode) (take k ts))"
      "splits bss ((cs @ [bs]) @ map (chunk_of decode) (take k ts)) (de_prefix_execution_split_after dec)"
      by auto
    then show ?thesis using d by (intro exI [where x = "Suc k"]) simp
  qed
qed

text \<open>
  C30. The execution split of a round is exact: over the life of a session the tracker (with the
  failure table it was built with) finds the first occurrence of the canonical reasoning close in the
  bytes of the accepted tokens, however the tokens cut it, and the round reports token \<open>m\<close> as the split
  exactly when that occurrence ends with the last byte of token \<open>m\<close> of the round. It never reports one
  again.
\<close>

theorem execution_split_exact:
  assumes "preview_model decode tokens n limit s = Inr (dec, s1)" and "se_prefix s = track bss"
    and "cs = map (chunk_of decode) (take (de_accepted_tokens dec) tokens)"
  shows "pv_prefix (se_preview s1) = track (bss @ cs) \<and>
    splits bss cs (de_prefix_execution_split_after dec) \<and>
    (sublist kBoundary (concat bss) \<longrightarrow> de_prefix_execution_split_after dec = None)"
proof -
  have run: "preview_loop decode s n limit 0 tokens (begin_preview s) = Inr (dec, s1)"
    using assms(1) by (auto simp: preview_model_def split: if_splits)
  have init: "pv_prefix (begin_preview s) = track (bss @ [])" "splits bss [] (pv_split_after (begin_preview s))"
    using assms(2) by (auto simp: begin_preview_def splits_def)
  from preview_loop_split [OF run init] have r: "pv_prefix (se_preview s1) = track (bss @ cs)"
    "splits bss cs (de_prefix_execution_split_after dec)"
    by (auto simp: assms(3))
  have "\<not> completes (concat (bss @ w)) bs" if "sublist kBoundary (concat bss)" for w bs
    using that by (auto simp: completes_def butlast_append sublist_append)
  with r(2) have "sublist kBoundary (concat bss) \<longrightarrow> de_prefix_execution_split_after dec = None"
    by (cases "de_prefix_execution_split_after dec") (auto simp: splits_def)
  with r show ?thesis by blast
qed

text \<open>A session whose first token is the boundary.\<close>

definition split_start :: session where
  "split_start =
    projr (make_session \<lparr>sp_token_ids = [], sp_strings = [], sp_include_model_defaults = True,
             sp_publish_stop_token = False\<rparr> False False 64 True None (Some []) None)"

definition split_decode :: "token \<Rightarrow> string \<times> bool" where
  "split_decode t = (kBoundary, False)"

theorem execution_split_exact_witness:
  "splits [] [kBoundary, kBoundary] (Some 1) \<and>
    (\<exists>dec s1. preview_model split_decode [0, 0] 9 OutputLimit split_start = Inr (dec, s1) \<and>
       de_prefix_execution_split_after dec = Some 1 \<and> pv_prefix (se_preview s1) = track [kBoundary, kBoundary])"
proof -
  let ?r = "preview_model split_decode [0, 0] 9 OutputLimit split_start"
  have "\<not> isl ?r" by code_simp
  then obtain dec s1 where r: "?r = Inr (dec, s1)" by (cases ?r) auto
  have "de_accepted_tokens (fst (projr ?r)) = 2" "de_prefix_execution_split_after (fst (projr ?r)) = Some 1"
    "pt_matched (se_prefix split_start) = 0" "pt_tracking (se_prefix split_start)"
    by code_simp+
  with r have f: "de_accepted_tokens dec = 2" "de_prefix_execution_split_after dec = Some 1"
    "se_prefix split_start = track []"
    by (auto simp: track_def intro!: prefix_tracker.equality)
  from execution_split_exact [OF r f(3) refl] f(1,2) r show ?thesis
    by (auto simp: split_decode_def numeral_2_eq_2)
qed

end
