(* ===== verification/StateStore.thy ===== *)
theory StateStore
  imports Generations
begin

text \<open>
  The store of state images (\<open>models/qwen3_5/program/storage/state_store.h\<close>) and the host pool it
  spills to (\<open>HostStatePool\<close> of \<open>models/qwen3_5/state/state_image.cpp\<close>): logical images with
  replicas in device and host slots, forks of checkpoints, and transfers between the two memories.

  The payload of a slot is a value of type \<open>'c\<close>: \<open>ss_device_data\<close> and \<open>hp_data\<close> are the two memories,
  and \<open>zero_slot\<close>, \<open>copy_to_host\<close> and \<open>copy_from_host\<close> write whole payloads in stream order. Such a call
  takes its outcome as an argument: \<open>None\<close> when CUDA reports no error, and \<open>Some x\<close> when it throws and
  leaves \<open>x\<close> in the destination. An operation returns its result (or the exception) and the store after
  it, since several roll back and rethrow. The owner pointer of a handle is the number \<open>ss_id\<close> of the
  store; the payload layouts are checked by the constructors and are not modelled.
\<close>

section \<open>Host pool\<close>

type_synonym host_slot_handle = "nat \<times> u32"

record host_state_slot =
  hs_generation :: u32
  hs_occupied :: bool

record 'c host_state_pool =
  hp_slots :: "host_state_slot list"
  hp_free_slots :: "nat list"
  hp_free_count :: nat
  hp_occupied :: nat
  hp_data :: "nat \<Rightarrow> 'c"

definition make_host_state_pool :: "nat \<Rightarrow> (nat \<Rightarrow> 'c) \<Rightarrow> 'c host_state_pool" where
  "make_host_state_pool capacity data =
    \<lparr>hp_slots = replicate capacity \<lparr>hs_generation = 1, hs_occupied = False\<rparr>,
     hp_free_slots = map (\<lambda>index. capacity - 1 - index) [0..<capacity],
     hp_free_count = capacity, hp_occupied = 0, hp_data = data\<rparr>"

definition hsp_valid :: "'c host_state_pool \<Rightarrow> host_slot_handle \<Rightarrow> bool" where
  "hsp_valid p h \<longleftrightarrow>
    fst h < length (hp_slots p) \<and> hs_occupied (hp_slots p ! fst h) \<and>
    hs_generation (hp_slots p ! fst h) = snd h"

definition hsp_allocate :: "'c host_state_pool \<Rightarrow> host_slot_handle option \<times> 'c host_state_pool" where
  "hsp_allocate p =
    (if hp_free_count p = 0 then (None, p)
     else
       let index = hp_free_slots p ! (hp_free_count p - 1);
           slot = hp_slots p ! index
       in (Some (index, hs_generation slot),
           p\<lparr>hp_free_count := hp_free_count p - 1, hp_occupied := hp_occupied p + 1,
             hp_slots := (hp_slots p)[index := slot\<lparr>hs_occupied := True\<rparr>]\<rparr>))"

definition hsp_release :: "'c host_state_pool \<Rightarrow> host_slot_handle \<Rightarrow> bool \<times> 'c host_state_pool" where
  "hsp_release p h =
    (if \<not> hsp_valid p h then (False, p)
     else
       let slot = hp_slots p ! fst h
       in (True,
           p\<lparr>hp_slots := (hp_slots p)[fst h :=
                slot\<lparr>hs_occupied := False, hs_generation := increment_generation (hs_generation slot)\<rparr>],
             hp_free_slots := (hp_free_slots p)[hp_free_count p := fst h],
             hp_free_count := hp_free_count p + 1, hp_occupied := hp_occupied p - 1\<rparr>))"

section \<open>Images\<close>

datatype state_image_role = ImageFree | ActiveMutable | CheckpointImmutable | ReservedDestination

datatype state_residency = NoReplica | DeviceOnly | HostOnly | Both

datatype transfer_direction = DeviceToHost | HostToDevice | HostToFork

record image_handle =
  ih_owner :: "nat option"
  ih_index :: nat
  ih_generation :: u32

record image_object =
  io_generation :: u32
  io_content_epoch :: nat
  io_device_slot :: "nat option"
  io_host_slot :: "host_slot_handle option"
  io_pending_device_slot :: "nat option"
  io_pending_host_slot :: "host_slot_handle option"
  io_transfer_id :: nat
  io_checkpoint_references :: nat
  io_source_pins :: nat
  io_destination_pinned :: bool
  io_role :: state_image_role

record image_transfer =
  it_owner :: "nat option"
  it_id :: nat
  it_direction :: transfer_direction
  it_source :: image_handle
  it_destination :: image_handle

record 'c state_store =
  ss_id :: nat
  ss_host :: "'c host_state_pool option"
  ss_objects :: "image_object list"
  ss_free_objects :: "nat list"
  ss_free_device_slots :: "nat list"
  ss_free_object_count :: nat
  ss_free_device_count :: nat
  ss_next_content_epoch :: nat
  ss_next_transfer_id :: nat
  ss_device_data :: "nat \<Rightarrow> 'c"
  ss_zero :: 'c

definition fresh_object :: "u32 \<Rightarrow> state_image_role \<Rightarrow> image_object" where
  "fresh_object generation role =
    \<lparr>io_generation = generation, io_content_epoch = 0, io_device_slot = None, io_host_slot = None,
     io_pending_device_slot = None, io_pending_host_slot = None, io_transfer_id = 0,
     io_checkpoint_references = 0, io_source_pins = 0, io_destination_pinned = False, io_role = role\<rparr>"

definition make_state_store ::
  "nat \<Rightarrow> nat \<Rightarrow> 'c host_state_pool option \<Rightarrow> nat \<Rightarrow> (nat \<Rightarrow> 'c) \<Rightarrow> 'c \<Rightarrow> 'c state_store res" where
  "make_state_store ident device_slots host logical_capacity data z =
    (if logical_capacity = 0 \<or> device_slots = 0 \<or> logical_capacity < device_slots \<or>
        (case host of None \<Rightarrow> False
         | Some p \<Rightarrow> logical_capacity < u32_add device_slots (length (hp_slots p)))
     then Inl InvalidArgument
     else Inr
       \<lparr>ss_id = ident, ss_host = host, ss_objects = replicate logical_capacity (fresh_object 1 ImageFree),
        ss_free_objects = map (\<lambda>index. logical_capacity - 1 - index) [0..<logical_capacity],
        ss_free_device_slots = map (\<lambda>index. device_slots - 1 - index) [0..<device_slots],
        ss_free_object_count = logical_capacity, ss_free_device_count = device_slots,
        ss_next_content_epoch = 0, ss_next_transfer_id = 0, ss_device_data = data, ss_zero = z\<rparr>)"

definition image_valid :: "'c state_store \<Rightarrow> image_handle \<Rightarrow> bool" where
  "image_valid s h \<longleftrightarrow>
    ih_owner h = Some (ss_id s) \<and> ih_index h < length (ss_objects s) \<and>
    io_role (ss_objects s ! ih_index h) \<noteq> ImageFree \<and>
    io_generation (ss_objects s ! ih_index h) = ih_generation h"

abbreviation object_of :: "'c state_store \<Rightarrow> image_handle \<Rightarrow> image_object" where
  "object_of s h \<equiv> ss_objects s ! ih_index h"

definition require_image :: "'c state_store \<Rightarrow> image_handle \<Rightarrow> image_object res" where
  "require_image s h = (if image_valid s h then Inr (object_of s h) else Inl InvalidArgument)"

definition has_pending_replica :: "image_object \<Rightarrow> bool" where
  "has_pending_replica ob \<longleftrightarrow>
    io_pending_device_slot ob \<noteq> None \<or> io_pending_host_slot ob \<noteq> None \<or> io_transfer_id ob \<noteq> 0"

definition set_object :: "nat \<Rightarrow> image_object \<Rightarrow> 'c state_store \<Rightarrow> 'c state_store" where
  "set_object i ob s = s\<lparr>ss_objects := (ss_objects s)[i := ob]\<rparr>"

definition next_epoch :: "'c state_store \<Rightarrow> nat \<times> 'c state_store" where
  "next_epoch s =
    (let e = u64_add (ss_next_content_epoch s) 1;
         e' = (if e = 0 then 1 else e)
     in (e', s\<lparr>ss_next_content_epoch := e'\<rparr>))"

definition next_transfer :: "'c state_store \<Rightarrow> nat \<times> 'c state_store" where
  "next_transfer s =
    (let e = u64_add (ss_next_transfer_id s) 1;
         e' = (if e = 0 then 1 else e)
     in (e', s\<lparr>ss_next_transfer_id := e'\<rparr>))"

definition take_device_slot :: "'c state_store \<Rightarrow> nat option \<times> 'c state_store" where
  "take_device_slot s =
    (if ss_free_device_count s = 0 then (None, s)
     else (Some (ss_free_device_slots s ! (ss_free_device_count s - 1)),
           s\<lparr>ss_free_device_count := ss_free_device_count s - 1\<rparr>))"

definition return_device_slot :: "nat \<Rightarrow> 'c state_store \<Rightarrow> 'c state_store" where
  "return_device_slot slot s =
    s\<lparr>ss_free_device_slots := (ss_free_device_slots s)[ss_free_device_count s := slot],
      ss_free_device_count := ss_free_device_count s + 1\<rparr>"

definition allocate_image ::
  "state_image_role \<Rightarrow> bool \<Rightarrow> 'c state_store \<Rightarrow> image_handle option \<times> 'c state_store" where
  "allocate_image role with_device s =
    (if ss_free_object_count s = 0 \<or> role = ImageFree \<or> (with_device \<and> ss_free_device_count s = 0)
     then (None, s)
     else
       let index = ss_free_objects s ! (ss_free_object_count s - 1);
           s1 = s\<lparr>ss_free_object_count := ss_free_object_count s - 1\<rparr>;
           generation = io_generation (ss_objects s1 ! index);
           (slot, s2) = (if with_device then take_device_slot s1 else (None, s1))
       in (Some \<lparr>ih_owner = Some (ss_id s), ih_index = index, ih_generation = generation\<rparr>,
           set_object index ((fresh_object generation role)\<lparr>io_device_slot := slot\<rparr>) s2))"

definition reserve_destination :: "'c state_store \<Rightarrow> image_handle option \<times> 'c state_store" where
  "reserve_destination s = allocate_image ReservedDestination True s"

definition reserve_logical_destination :: "'c state_store \<Rightarrow> image_handle option \<times> 'c state_store" where
  "reserve_logical_destination s = allocate_image ReservedDestination False s"

text \<open>\<open>host_->release\<close> through the optional pool pointer: the answer and the store.\<close>

definition host_release_slot :: "host_slot_handle \<Rightarrow> 'c state_store \<Rightarrow> bool \<times> 'c state_store" where
  "host_release_slot h s =
    (case ss_host s of
       None \<Rightarrow> (False, s)
     | Some p \<Rightarrow> let (ok, p') = hsp_release p h in (ok, s\<lparr>ss_host := Some p'\<rparr>))"

definition can_release_image :: "'c state_store \<Rightarrow> image_handle \<Rightarrow> bool" where
  "can_release_image s h \<longleftrightarrow>
    image_valid s h \<and> io_checkpoint_references (object_of s h) = 0 \<and> io_source_pins (object_of s h) = 0 \<and>
    \<not> io_destination_pinned (object_of s h) \<and> \<not> has_pending_replica (object_of s h)"

text \<open>The part of \<open>release\<close> behind the Host replica.\<close>

definition retire_image :: "image_handle \<Rightarrow> 'c state_store \<Rightarrow> 'c state_store" where
  "retire_image h s =
    (let ob = object_of s h;
         s1 = (case io_device_slot ob of None \<Rightarrow> s | Some slot \<Rightarrow> return_device_slot slot s);
         s2 = set_object (ih_index h)
                (ob\<lparr>io_device_slot := None, io_role := ImageFree, io_content_epoch := 0,
                    io_generation := increment_generation (io_generation ob)\<rparr>) s1
     in s2\<lparr>ss_free_objects := (ss_free_objects s2)[ss_free_object_count s2 := ih_index h],
           ss_free_object_count := ss_free_object_count s2 + 1\<rparr>)"

definition release_image :: "image_handle \<Rightarrow> 'c state_store \<Rightarrow> bool \<times> 'c state_store" where
  "release_image h s =
    (if \<not> can_release_image s h then (False, s)
     else case io_host_slot (object_of s h) of
       None \<Rightarrow> (True, retire_image h s)
     | Some hs \<Rightarrow>
         let (ok, s1) = host_release_slot hs s
         in if \<not> ok then (False, s1)
            else (True, retire_image h
                    (set_object (ih_index h) ((object_of s1 h)\<lparr>io_host_slot := None\<rparr>) s1)))"

text \<open>Device operations: zeroing a slot and the two copies. A failed CUDA call throws \<open>cuda_error\<close>.\<close>

abbreviation cuda_error :: cpp_error where "cuda_error \<equiv> RuntimeError"

definition write_device :: "nat \<Rightarrow> 'c \<Rightarrow> 'c state_store \<Rightarrow> 'c state_store" where
  "write_device slot x s = s\<lparr>ss_device_data := (ss_device_data s)(slot := x)\<rparr>"

definition write_host :: "nat \<Rightarrow> 'c \<Rightarrow> 'c host_state_pool \<Rightarrow> 'c host_state_pool" where
  "write_host slot x p = p\<lparr>hp_data := (hp_data p)(slot := x)\<rparr>"

definition zero_slot :: "'c option \<Rightarrow> nat \<Rightarrow> 'c state_store \<Rightarrow> unit res \<times> 'c state_store" where
  "zero_slot fault slot s =
    (case fault of
       None \<Rightarrow> (Inr (), write_device slot (ss_zero s) s)
     | Some x \<Rightarrow> (Inl cuda_error, write_device slot x s))"

definition copy_from_host ::
  "'c option \<Rightarrow> host_slot_handle \<Rightarrow> nat \<Rightarrow> 'c state_store \<Rightarrow> unit res \<times> 'c state_store" where
  "copy_from_host fault h slot s =
    (case ss_host s of
       None \<Rightarrow> (Inl InvalidArgument, s)
     | Some p \<Rightarrow>
         if \<not> hsp_valid p h then (Inl InvalidArgument, s)
         else case fault of
           None \<Rightarrow> (Inr (), write_device slot (hp_data p (fst h)) s)
         | Some x \<Rightarrow> (Inl cuda_error, write_device slot x s))"

definition copy_to_host ::
  "'c option \<Rightarrow> nat \<Rightarrow> host_slot_handle \<Rightarrow> 'c state_store \<Rightarrow> unit res \<times> 'c state_store" where
  "copy_to_host fault slot h s =
    (case ss_host s of
       None \<Rightarrow> (Inl InvalidArgument, s)
     | Some p \<Rightarrow>
         if \<not> hsp_valid p h then (Inl InvalidArgument, s)
         else case fault of
           None \<Rightarrow> (Inr (), s\<lparr>ss_host := Some (write_host (fst h) (ss_device_data s slot) p)\<rparr>)
         | Some x \<Rightarrow> (Inl cuda_error, s\<lparr>ss_host := Some (write_host (fst h) x p)\<rparr>))"

section \<open>Operations on one image\<close>

text \<open>
  \<open>Object& object = require(handle)\<close> followed by code on the reference: \<open>with_image\<close> passes the object
  on, and \<open>modify_image\<close> assigns through the reference.
\<close>

definition with_image ::
  "'c state_store \<Rightarrow> image_handle \<Rightarrow> (image_object \<Rightarrow> 'r res \<times> 'c state_store) \<Rightarrow> 'r res \<times> 'c state_store" where
  "with_image s h k = (case require_image s h of Inl e \<Rightarrow> (Inl e, s) | Inr ob \<Rightarrow> k ob)"

definition modify_image ::
  "image_handle \<Rightarrow> (image_object \<Rightarrow> image_object) \<Rightarrow> 'c state_store \<Rightarrow> 'c state_store" where
  "modify_image h f s = set_object (ih_index h) (f (object_of s h)) s"

definition idle :: "image_object \<Rightarrow> bool" where
  "idle ob \<longleftrightarrow> io_source_pins ob = 0 \<and> \<not> io_destination_pinned ob \<and> \<not> has_pending_replica ob"

definition set_epoch :: "image_handle \<Rightarrow> 'c state_store \<Rightarrow> 'c state_store" where
  "set_epoch h s = (let (e, s1) = next_epoch s in modify_image h (\<lambda>ob. ob\<lparr>io_content_epoch := e\<rparr>) s1)"

definition set_role :: "image_handle \<Rightarrow> state_image_role \<Rightarrow> 'c state_store \<Rightarrow> 'c state_store" where
  "set_role h role = modify_image h (\<lambda>ob. ob\<lparr>io_role := role\<rparr>)"

definition reserve_reset :: "'c option \<Rightarrow> 'c state_store \<Rightarrow> image_handle option res \<times> 'c state_store" where
  "reserve_reset fault s =
    (case allocate_image ActiveMutable True s of
       (None, s1) \<Rightarrow> (Inr None, s1)
     | (Some h, s1) \<Rightarrow>
         (case zero_slot fault (the (io_device_slot (object_of s1 h))) s1 of
            (Inr _, s2) \<Rightarrow> (Inr (Some h), set_epoch h s2)
          | (Inl e, s2) \<Rightarrow> (Inl e, snd (release_image h s2))))"

definition activate_reset :: "'c option \<Rightarrow> image_handle \<Rightarrow> 'c state_store \<Rightarrow> unit res \<times> 'c state_store" where
  "activate_reset fault h s =
    with_image s h (\<lambda>ob.
      if io_role ob \<noteq> ReservedDestination \<or> io_device_slot ob = None \<or> \<not> idle ob
      then (Inl LogicError, s)
      else case zero_slot fault (the (io_device_slot ob)) s of
        (Inr _, s1) \<Rightarrow> (Inr (), set_role h ActiveMutable (set_epoch h s1))
      | (Inl e, s1) \<Rightarrow> (Inl e, s1))"

definition image_capacity :: "'c state_store \<Rightarrow> nat" where
  "image_capacity s = length (ss_objects s)"

definition images_occupied :: "'c state_store \<Rightarrow> nat" where
  "images_occupied s = u32_sub (image_capacity s) (ss_free_object_count s)"

definition device_capacity :: "'c state_store \<Rightarrow> nat" where
  "device_capacity s = length (ss_free_device_slots s)"

definition device_occupied :: "'c state_store \<Rightarrow> nat" where
  "device_occupied s = u32_sub (device_capacity s) (ss_free_device_count s)"

definition host_occupied :: "'c state_store \<Rightarrow> nat" where
  "host_occupied s = (case ss_host s of None \<Rightarrow> 0 | Some p \<Rightarrow> hp_occupied p)"

definition descriptor_index :: "'c state_store \<Rightarrow> image_handle \<Rightarrow> nat res" where
  "descriptor_index s h = rbind (require_image s h) (\<lambda>_. Inr (ih_index h))"

definition role_of :: "'c state_store \<Rightarrow> image_handle \<Rightarrow> state_image_role res" where
  "role_of s h = rbind (require_image s h) (\<lambda>ob. Inr (io_role ob))"

definition residency :: "'c state_store \<Rightarrow> image_handle \<Rightarrow> state_residency res" where
  "residency s h =
    rbind (require_image s h) (\<lambda>ob.
      Inr (if io_device_slot ob \<noteq> None \<and> io_host_slot ob \<noteq> None then Both
           else if io_device_slot ob \<noteq> None then DeviceOnly
           else if io_host_slot ob \<noteq> None then HostOnly
           else NoReplica))"

definition content_epoch :: "'c state_store \<Rightarrow> image_handle \<Rightarrow> nat res" where
  "content_epoch s h = rbind (require_image s h) (\<lambda>ob. Inr (io_content_epoch ob))"

definition source_pins :: "'c state_store \<Rightarrow> image_handle \<Rightarrow> nat res" where
  "source_pins s h = rbind (require_image s h) (\<lambda>ob. Inr (io_source_pins ob))"

definition checkpoint_references :: "'c state_store \<Rightarrow> image_handle \<Rightarrow> nat res" where
  "checkpoint_references s h = rbind (require_image s h) (\<lambda>ob. Inr (io_checkpoint_references ob))"

definition physical_slot :: "'c state_store \<Rightarrow> image_handle \<Rightarrow> nat res" where
  "physical_slot s h =
    rbind (require_image s h) (\<lambda>ob.
      case io_device_slot ob of None \<Rightarrow> Inl LogicError | Some slot \<Rightarrow> Inr slot)"

definition retain_checkpoint_reference :: "image_handle \<Rightarrow> 'c state_store \<Rightarrow> unit res \<times> 'c state_store" where
  "retain_checkpoint_reference h s =
    with_image s h (\<lambda>ob.
      if io_role ob \<noteq> CheckpointImmutable \<or> io_checkpoint_references ob = uint32_max
      then (Inl LogicError, s)
      else (Inr (), modify_image h
              (\<lambda>ob. ob\<lparr>io_checkpoint_references := io_checkpoint_references ob + 1\<rparr>) s))"

definition release_checkpoint_reference :: "image_handle \<Rightarrow> 'c state_store \<Rightarrow> unit res \<times> 'c state_store" where
  "release_checkpoint_reference h s =
    with_image s h (\<lambda>ob.
      if io_role ob \<noteq> CheckpointImmutable \<or> io_checkpoint_references ob = 0
      then (Inl LogicError, s)
      else (Inr (), modify_image h
              (\<lambda>ob. ob\<lparr>io_checkpoint_references := io_checkpoint_references ob - 1\<rparr>) s))"

text \<open>\<open>host_->release(*object.host_slot)\<close> followed by \<open>object.host_slot.reset()\<close>.\<close>

definition drop_host_slot :: "image_handle \<Rightarrow> 'c state_store \<Rightarrow> bool \<times> 'c state_store" where
  "drop_host_slot h s =
    (case host_release_slot (the (io_host_slot (object_of s h))) s of
       (True, s1) \<Rightarrow> (True, modify_image h (\<lambda>ob. ob\<lparr>io_host_slot := None\<rparr>) s1)
     | (False, s1) \<Rightarrow> (False, s1))"

definition move_checkpoint_to_active :: "image_handle \<Rightarrow> 'c state_store \<Rightarrow> unit res \<times> 'c state_store" where
  "move_checkpoint_to_active h s =
    with_image s h (\<lambda>ob.
      if io_role ob \<noteq> CheckpointImmutable \<or> io_device_slot ob = None \<or>
         io_checkpoint_references ob \<noteq> 0 \<or> \<not> idle ob
      then (Inl LogicError, s)
      else if io_host_slot ob = None then (Inr (), set_role h ActiveMutable s)
      else case drop_host_slot h s of
        (True, s1) \<Rightarrow> (Inr (), set_role h ActiveMutable s1)
      | (False, s1) \<Rightarrow> (Inl LogicError, s1))"

definition drop_device_slot :: "image_handle \<Rightarrow> 'c state_store \<Rightarrow> 'c state_store" where
  "drop_device_slot h s =
    modify_image h (\<lambda>ob. ob\<lparr>io_device_slot := None\<rparr>)
      (return_device_slot (the (io_device_slot (object_of s h))) s)"

definition drop_device_replica :: "image_handle \<Rightarrow> 'c state_store \<Rightarrow> bool \<times> 'c state_store" where
  "drop_device_replica h s =
    (if \<not> image_valid s h then (False, s)
     else
       let ob = object_of s h
       in if io_role ob \<noteq> CheckpointImmutable \<or> io_device_slot ob = None \<or> io_host_slot ob = None \<or> \<not> idle ob
          then (False, s)
          else (True, drop_device_slot h s))"

definition drop_host_replica :: "image_handle \<Rightarrow> 'c state_store \<Rightarrow> bool \<times> 'c state_store" where
  "drop_host_replica h s =
    (if \<not> image_valid s h then (False, s)
     else
       let ob = object_of s h
       in if ss_host s = None \<or> io_role ob \<noteq> CheckpointImmutable \<or> io_device_slot ob = None \<or>
             io_host_slot ob = None \<or> \<not> idle ob
          then (False, s)
          else drop_host_slot h s)"

definition freeze :: "image_handle \<Rightarrow> 'c state_store \<Rightarrow> unit res \<times> 'c state_store" where
  "freeze h s =
    with_image s h (\<lambda>ob.
      if io_role ob \<noteq> ActiveMutable \<or> io_device_slot ob = None \<or> \<not> idle ob
      then (Inl LogicError, s)
      else (Inr (), set_role h CheckpointImmutable (set_epoch h s)))"

definition thaw :: "image_handle \<Rightarrow> 'c state_store \<Rightarrow> unit res \<times> 'c state_store" where
  "thaw h s =
    with_image s h (\<lambda>ob.
      if io_role ob \<noteq> CheckpointImmutable \<or> io_device_slot ob = None \<or>
         io_checkpoint_references ob \<noteq> 0 \<or> \<not> idle ob
      then (Inl LogicError, s)
      else (Inr (), set_role h ActiveMutable s))"

definition can_recycle_checkpoint_destination :: "'c state_store \<Rightarrow> image_handle \<Rightarrow> bool" where
  "can_recycle_checkpoint_destination s h \<longleftrightarrow>
    image_valid s h \<and> io_role (object_of s h) = CheckpointImmutable \<and>
    io_device_slot (object_of s h) \<noteq> None \<and> io_host_slot (object_of s h) = None \<and>
    io_checkpoint_references (object_of s h) = 1 \<and> idle (object_of s h)"

definition recycle_checkpoint_destination :: "image_handle \<Rightarrow> 'c state_store \<Rightarrow> nat res \<times> 'c state_store" where
  "recycle_checkpoint_destination h s =
    (if \<not> can_recycle_checkpoint_destination s h then (Inl LogicError, s)
     else (Inr (io_content_epoch (object_of s h)),
           modify_image h (\<lambda>ob. ob\<lparr>io_checkpoint_references := 0, io_role := ReservedDestination\<rparr>) s))"

definition restore_recycled_checkpoint ::
  "image_handle \<Rightarrow> nat \<Rightarrow> 'c state_store \<Rightarrow> unit res \<times> 'c state_store" where
  "restore_recycled_checkpoint h epoch s =
    with_image s h (\<lambda>ob.
      if epoch = 0 \<or> io_role ob \<noteq> ReservedDestination \<or> io_device_slot ob = None \<or>
         io_host_slot ob \<noteq> None \<or> io_checkpoint_references ob \<noteq> 0 \<or> \<not> idle ob
      then (Inl LogicError, s)
      else (Inr (), modify_image h
              (\<lambda>ob. ob\<lparr>io_content_epoch := epoch, io_checkpoint_references := 1,
                       io_role := CheckpointImmutable\<rparr>) s))"

section \<open>Forks and identity splits\<close>

definition with_images ::
  "'c state_store \<Rightarrow> image_handle \<Rightarrow> image_handle \<Rightarrow>
    (image_object \<Rightarrow> image_object \<Rightarrow> 'r res \<times> 'c state_store) \<Rightarrow> 'r res \<times> 'c state_store" where
  "with_images s a b k = with_image s a (\<lambda>sob. with_image s b (\<lambda>dob. k sob dob))"

definition vacant :: "image_object \<Rightarrow> bool" where
  "vacant ob \<longleftrightarrow> io_role ob = ReservedDestination \<and> io_device_slot ob = None \<and> io_host_slot ob = None \<and> idle ob"

definition pin_source :: "image_handle \<Rightarrow> 'c state_store \<Rightarrow> 'c state_store" where
  "pin_source h = modify_image h (\<lambda>ob. ob\<lparr>io_source_pins := u32_add (io_source_pins ob) 1\<rparr>)"

definition unpin_source :: "image_handle \<Rightarrow> 'c state_store \<Rightarrow> 'c state_store" where
  "unpin_source h = modify_image h (\<lambda>ob. ob\<lparr>io_source_pins := u32_sub (io_source_pins ob) 1\<rparr>)"

definition split_device_replica_identity ::
  "image_handle \<Rightarrow> image_handle \<Rightarrow> 'c state_store \<Rightarrow> unit res \<times> 'c state_store" where
  "split_device_replica_identity source destination s =
    with_images s source destination (\<lambda>sob dob.
      if source = destination \<or> io_role sob \<noteq> CheckpointImmutable \<or> io_device_slot sob = None \<or>
         io_host_slot sob = None \<or> \<not> idle sob \<or> \<not> vacant dob
      then (Inl LogicError, s)
      else (Inr (),
        modify_image source (\<lambda>ob. ob\<lparr>io_device_slot := None\<rparr>)
          (modify_image destination
             (\<lambda>ob. ob\<lparr>io_device_slot := io_device_slot sob, io_content_epoch := io_content_epoch sob,
                      io_role := ActiveMutable\<rparr>) s)))"

definition begin_fork ::
  "image_handle \<Rightarrow> image_handle \<Rightarrow> 'c state_store \<Rightarrow> (nat \<times> nat) res \<times> 'c state_store" where
  "begin_fork source destination s =
    with_images s source destination (\<lambda>sob dob.
      if source = destination \<or> io_role sob \<noteq> CheckpointImmutable \<or> io_device_slot sob = None \<or>
         io_source_pins sob = uint32_max \<or> io_role dob \<noteq> ReservedDestination \<or>
         io_device_slot dob = None \<or> \<not> idle dob
      then (Inl LogicError, s)
      else (Inr (the (io_device_slot sob), the (io_device_slot dob)),
        modify_image destination
          (\<lambda>ob. ob\<lparr>io_destination_pinned := True, io_role := ActiveMutable,
                   io_content_epoch := io_content_epoch sob\<rparr>)
          (pin_source source s)))"

definition commit_fork ::
  "image_handle \<Rightarrow> image_handle \<Rightarrow> 'c state_store \<Rightarrow> unit res \<times> 'c state_store" where
  "commit_fork source destination s =
    with_images s source destination (\<lambda>sob dob.
      if io_role sob \<noteq> CheckpointImmutable \<or> io_source_pins sob = 0 \<or> io_role dob \<noteq> ActiveMutable \<or>
         io_device_slot dob = None \<or> \<not> io_destination_pinned dob
      then (Inl LogicError, s)
      else (Inr (),
        modify_image destination (\<lambda>ob. ob\<lparr>io_destination_pinned := False\<rparr>) (unpin_source source s)))"

definition can_abort_fork :: "'c state_store \<Rightarrow> image_handle \<Rightarrow> image_handle \<Rightarrow> bool" where
  "can_abort_fork s source destination \<longleftrightarrow>
    image_valid s source \<and> image_valid s destination \<and> source \<noteq> destination \<and>
    io_role (object_of s source) = CheckpointImmutable \<and> io_source_pins (object_of s source) \<noteq> 0 \<and>
    io_role (object_of s destination) = ActiveMutable \<and>
    io_device_slot (object_of s destination) \<noteq> None \<and> io_destination_pinned (object_of s destination)"

definition abort_fork ::
  "image_handle \<Rightarrow> image_handle \<Rightarrow> 'c state_store \<Rightarrow> unit res \<times> 'c state_store" where
  "abort_fork source destination s =
    (if \<not> can_abort_fork s source destination then (Inl LogicError, s)
     else (Inr (),
       modify_image destination
         (\<lambda>ob. ob\<lparr>io_destination_pinned := False, io_role := ReservedDestination, io_content_epoch := 0\<rparr>)
         (unpin_source source s)))"

text \<open>The last conjunct of the three settlement queries: \<open>host_->view\<close> throws on a stale handle.\<close>

definition host_view_ok :: "'c state_store \<Rightarrow> image_object \<Rightarrow> bool res" where
  "host_view_ok s ob =
    (case io_host_slot ob of
       None \<Rightarrow> Inr True
     | Some h \<Rightarrow>
         (case ss_host s of
            None \<Rightarrow> Inr False
          | Some p \<Rightarrow> if hsp_valid p h then Inr True else Inl InvalidArgument))"

definition can_release_source_after_fork_abort ::
  "'c state_store \<Rightarrow> image_handle \<Rightarrow> image_handle \<Rightarrow> nat \<Rightarrow> bool res" where
  "can_release_source_after_fork_abort s source destination released =
    (if \<not> can_abort_fork s source destination then Inr False
     else rbind (require_image s source) (\<lambda>ob.
       if released > io_checkpoint_references ob then Inr False
       else if io_checkpoint_references ob \<noteq> released then Inr True
       else if io_source_pins ob \<noteq> 1 \<or> io_destination_pinned ob \<or> has_pending_replica ob then Inr False
       else host_view_ok s ob))"

definition can_release_destination_after_fork_abort ::
  "'c state_store \<Rightarrow> image_handle \<Rightarrow> image_handle \<Rightarrow> nat \<Rightarrow> bool res" where
  "can_release_destination_after_fork_abort s source destination released =
    (if \<not> can_abort_fork s source destination then Inr False
     else rbind (require_image s destination) (\<lambda>ob.
       if io_checkpoint_references ob \<noteq> released \<or> io_source_pins ob \<noteq> 0 \<or> has_pending_replica ob
       then Inr False
       else host_view_ok s ob))"

definition can_release_after_checkpoint_references :: "'c state_store \<Rightarrow> image_handle \<Rightarrow> nat \<Rightarrow> bool res" where
  "can_release_after_checkpoint_references s h released =
    rbind (require_image s h) (\<lambda>ob.
      if released > io_checkpoint_references ob then Inr False
      else if io_checkpoint_references ob \<noteq> released then Inr True
      else if \<not> idle ob then Inr False
      else host_view_ok s ob)"

definition selectors :: "'c state_store \<Rightarrow> image_handle \<Rightarrow> image_handle \<Rightarrow> (nat \<times> nat) res" where
  "selectors s source destination =
    rbind (require_image s source) (\<lambda>sob. rbind (require_image s destination) (\<lambda>dob.
      let inplace = (source = destination)
      in if io_device_slot sob = None \<or> io_device_slot dob = None \<or>
            (inplace \<and> (io_role sob \<noteq> ActiveMutable \<or> io_source_pins sob \<noteq> 0 \<or> io_destination_pinned sob)) \<or>
            (\<not> inplace \<and> (io_role sob \<noteq> CheckpointImmutable \<or> io_source_pins sob = 0 \<or>
                         io_role dob \<noteq> ActiveMutable \<or> \<not> io_destination_pinned dob))
         then Inl LogicError
         else Inr (the (io_device_slot sob), the (io_device_slot dob))))"

section \<open>Transfers\<close>

definition valid_transfer :: "'c state_store \<Rightarrow> image_transfer \<Rightarrow> bool" where
  "valid_transfer s t \<longleftrightarrow>
    it_owner t = Some (ss_id s) \<and> it_id t \<noteq> 0 \<and> image_valid s (it_source t) \<and>
    image_valid s (it_destination t) \<and> io_transfer_id (object_of s (it_destination t)) = it_id t"

definition consume_transfer :: "image_transfer \<Rightarrow> image_transfer" where
  "consume_transfer t = t\<lparr>it_owner := None, it_id := 0\<rparr>"

definition new_transfer ::
  "'c state_store \<Rightarrow> nat \<Rightarrow> transfer_direction \<Rightarrow> image_handle \<Rightarrow> image_handle \<Rightarrow> image_transfer" where
  "new_transfer s ident direction source destination =
    \<lparr>it_owner = Some (ss_id s), it_id = ident, it_direction = direction, it_source = source,
     it_destination = destination\<rparr>"

definition end_destination :: "image_object \<Rightarrow> image_object" where
  "end_destination ob = ob\<lparr>io_destination_pinned := False, io_transfer_id := 0\<rparr>"

definition reserve_device_to_host ::
  "image_handle \<Rightarrow> 'c state_store \<Rightarrow> image_transfer option res \<times> 'c state_store" where
  "reserve_device_to_host source s =
    with_image s source (\<lambda>ob.
      if ss_host s = None \<or> io_role ob \<noteq> CheckpointImmutable \<or> io_device_slot ob = None \<or>
         io_host_slot ob \<noteq> None \<or> has_pending_replica ob \<or> io_source_pins ob = uint32_max
      then (Inr None, s)
      else case hsp_allocate (the (ss_host s)) of
        (None, _) \<Rightarrow> (Inr None, s)
      | (Some target, p) \<Rightarrow>
          let (ident, s1) = next_transfer (s\<lparr>ss_host := Some p\<rparr>)
          in (Inr (Some (new_transfer s ident DeviceToHost source source)),
              pin_source source (modify_image source
                (\<lambda>ob. ob\<lparr>io_pending_host_slot := Some target, io_transfer_id := ident,
                         io_destination_pinned := True\<rparr>) s1)))"

definition enqueue_device_to_host ::
  "'c option \<Rightarrow> image_transfer \<Rightarrow> 'c state_store \<Rightarrow> unit res \<times> 'c state_store" where
  "enqueue_device_to_host fault t s =
    (if \<not> valid_transfer s t then (Inl LogicError, s)
     else with_image s (it_source t) (\<lambda>ob.
       if it_direction t \<noteq> DeviceToHost \<or> ss_host s = None \<or> io_device_slot ob = None \<or>
          io_pending_host_slot ob = None
       then (Inl LogicError, s)
       else copy_to_host fault (the (io_device_slot ob)) (the (io_pending_host_slot ob)) s))"

definition abort_transfer :: "image_transfer \<Rightarrow> 'c state_store \<Rightarrow> image_transfer \<times> 'c state_store" where
  "abort_transfer t s =
    (if \<not> valid_transfer s t then (consume_transfer t, s)
     else
       let src = it_source t; dst = it_destination t;
           s1 = (if io_source_pins (object_of s src) \<noteq> 0 then unpin_source src s else s)
       in (consume_transfer t,
           if it_direction t = DeviceToHost then
             modify_image src (\<lambda>ob. end_destination (ob\<lparr>io_pending_host_slot := None\<rparr>))
               (case io_pending_host_slot (object_of s1 src) of
                  None \<Rightarrow> s1
                | Some h \<Rightarrow> snd (host_release_slot h s1))
           else
             modify_image dst
               (\<lambda>ob. let ob' = end_destination (ob\<lparr>io_pending_device_slot := None\<rparr>)
                     in if it_direction t = HostToFork
                        then ob'\<lparr>io_role := ReservedDestination, io_content_epoch := 0\<rparr> else ob')
               (case io_pending_device_slot (object_of s1 dst) of
                  None \<Rightarrow> s1
                | Some slot \<Rightarrow> return_device_slot slot s1)))"

text \<open>\<open>~StateImageTransfer\<close>.\<close>

definition destroy_transfer :: "image_transfer \<Rightarrow> 'c state_store \<Rightarrow> 'c state_store" where
  "destroy_transfer t s = (if it_owner t = None then s else snd (abort_transfer t s))"

definition begin_device_to_host ::
  "'c option \<Rightarrow> image_handle \<Rightarrow> 'c state_store \<Rightarrow> image_transfer option res \<times> 'c state_store" where
  "begin_device_to_host fault source s =
    (case reserve_device_to_host source s of
       (Inr (Some t), s1) \<Rightarrow>
         (case enqueue_device_to_host fault t s1 of
            (Inr _, s2) \<Rightarrow> (Inr (Some t), s2)
          | (Inl e, s2) \<Rightarrow> (Inl e, snd (abort_transfer t s2)))
     | other \<Rightarrow> other)"

definition begin_host_to_device ::
  "'c option \<Rightarrow> image_handle \<Rightarrow> 'c state_store \<Rightarrow> image_transfer option res \<times> 'c state_store" where
  "begin_host_to_device fault source s =
    with_image s source (\<lambda>ob.
      if ss_host s = None \<or> io_role ob \<noteq> CheckpointImmutable \<or> io_host_slot ob = None \<or>
         io_device_slot ob \<noteq> None \<or> has_pending_replica ob \<or> io_source_pins ob = uint32_max
      then (Inr None, s)
      else case take_device_slot s of
        (None, s1) \<Rightarrow> (Inr None, s1)
      | (Some target, s1) \<Rightarrow>
          let (ident, s2) = next_transfer s1;
              s3 = pin_source source (modify_image source
                     (\<lambda>ob. ob\<lparr>io_pending_device_slot := Some target, io_transfer_id := ident,
                              io_destination_pinned := True\<rparr>) s2)
          in (case copy_from_host fault (the (io_host_slot ob)) target s3 of
                (Inr _, s4) \<Rightarrow> (Inr (Some (new_transfer s ident HostToDevice source source)), s4)
              | (Inl e, s4) \<Rightarrow>
                  (Inl e, return_device_slot target
                     (modify_image source (\<lambda>ob. (end_destination ob)\<lparr>io_pending_device_slot := None\<rparr>)
                       (unpin_source source s4)))))"

definition begin_host_fork ::
  "'c option \<Rightarrow> image_handle \<Rightarrow> image_handle \<Rightarrow> 'c state_store \<Rightarrow>
    image_transfer option res \<times> 'c state_store" where
  "begin_host_fork fault source destination s =
    with_images s source destination (\<lambda>sob dob.
      if ss_host s = None \<or> source = destination \<or> io_role sob \<noteq> CheckpointImmutable \<or>
         io_host_slot sob = None \<or> io_source_pins sob = uint32_max \<or> \<not> vacant dob
      then (Inr None, s)
      else case take_device_slot s of
        (None, s1) \<Rightarrow> (Inr None, s1)
      | (Some target, s1) \<Rightarrow>
          let (ident, s2) = next_transfer s1;
              s3 = pin_source source (modify_image destination
                     (\<lambda>ob. ob\<lparr>io_pending_device_slot := Some target, io_transfer_id := ident,
                              io_destination_pinned := True, io_role := ActiveMutable,
                              io_content_epoch := io_content_epoch sob\<rparr>) s2)
          in (case copy_from_host fault (the (io_host_slot sob)) target s3 of
                (Inr _, s4) \<Rightarrow> (Inr (Some (new_transfer s ident HostToFork source destination)), s4)
              | (Inl e, s4) \<Rightarrow>
                  (Inl e, return_device_slot target
                     (modify_image destination
                       (\<lambda>ob. (end_destination ob)\<lparr>io_pending_device_slot := None,
                                io_role := ReservedDestination, io_content_epoch := 0\<rparr>)
                       (unpin_source source s4)))))"

definition publish_transfer ::
  "image_transfer \<Rightarrow> bool \<Rightarrow> 'c state_store \<Rightarrow> (unit res \<times> image_transfer) \<times> 'c state_store" where
  "publish_transfer t keep_source_replica s =
    (if \<not> valid_transfer s t then ((Inl LogicError, t), s)
     else
       let src = it_source t; dst = it_destination t
       in case it_direction t of
         DeviceToHost \<Rightarrow>
           let s1 = modify_image src
                 (\<lambda>ob. ob\<lparr>io_host_slot := io_pending_host_slot ob, io_pending_host_slot := None\<rparr>) s;
               s2 = (if keep_source_replica then s1 else drop_device_slot src s1)
           in ((Inr (), consume_transfer t), modify_image src end_destination (unpin_source src s2))
       | HostToDevice \<Rightarrow>
           let s1 = modify_image src
                 (\<lambda>ob. ob\<lparr>io_device_slot := io_pending_device_slot ob, io_pending_device_slot := None\<rparr>) s;
               (ok, s2) = (if keep_source_replica then (True, s1) else drop_host_slot src s1)
           in if \<not> ok then ((Inl LogicError, t), s2)
              else ((Inr (), consume_transfer t), modify_image src end_destination (unpin_source src s2))
       | HostToFork \<Rightarrow>
           let s1 = modify_image dst
                 (\<lambda>ob. ob\<lparr>io_device_slot := io_pending_device_slot ob, io_pending_device_slot := None\<rparr>) s
           in ((Inr (), consume_transfer t), modify_image dst end_destination (unpin_source src s1)))"

section \<open>Bindings\<close>

datatype state_read_ownership = PrimaryRead | LineageCheckpoint | ExternalOwner

record active_state_binding =
  ab_read :: image_handle
  ab_write :: image_handle
  ab_fork_pending :: bool
  ab_read_ownership :: state_read_ownership

definition borrows_read :: "active_state_binding \<Rightarrow> bool" where
  "borrows_read b \<longleftrightarrow> ab_read_ownership b \<noteq> PrimaryRead"

definition read_has_external_owner :: "active_state_binding \<Rightarrow> bool" where
  "read_has_external_owner b \<longleftrightarrow> ab_read_ownership b = ExternalOwner"

end
