(* ===== verification/StateMemory.thy ===== *)
theory StateMemory
  imports StateStore
begin

text \<open>
  The ledgers of the image store. Each of its three free lists is a stack in the front of an array (see \<open>Generations\<close>); a
  slot is on its stack, held by an image, or loose in the hands of the running operation. The balance
  of device slots and the balance of Host slots state that every slot is in exactly one of the three
  places; every primitive of the store moves slots between them.
\<close>

section \<open>Host pool\<close>

definition hsp_ok :: "'c host_state_pool \<Rightarrow> bool" where
  "hsp_ok p \<longleftrightarrow>
    length (hp_free_slots p) = length (hp_slots p) \<and> hp_free_count p \<le> length (hp_slots p) \<and>
    (\<forall>i < length (hp_slots p). hs_generation (hp_slots p ! i) \<noteq> 0) \<and>
    mset (take (hp_free_count p) (hp_free_slots p)) =
      mset_set {i. i < length (hp_slots p) \<and> \<not> hs_occupied (hp_slots p ! i)} \<and>
    hp_occupied p + hp_free_count p = length (hp_slots p)"

lemma hsp_ok_make: "hsp_ok (make_host_state_pool n d)"
proof -
  have "{i. i < n \<and> \<not> hs_occupied (replicate n \<lparr>hs_generation = 1, hs_occupied = False\<rparr> ! i)} = {0..<n}"
    by auto
  then show ?thesis by (simp add: hsp_ok_def make_host_state_pool_def mset_stack_full [simplified])
qed

lemma hsp_room:
  assumes "hsp_ok p" and "i < length (hp_slots p)" and "hs_occupied (hp_slots p ! i)"
  shows "hp_free_count p < length (hp_slots p)"
proof -
  let ?F = "{i. i < length (hp_slots p) \<and> \<not> hs_occupied (hp_slots p ! i)}"
  have "hp_free_count p = size (mset (take (hp_free_count p) (hp_free_slots p)))"
    using assms(1) unfolding size_mset length_take by (simp add: hsp_ok_def)
  also have "\<dots> = size (mset_set ?F)"
    using assms(1) unfolding hsp_ok_def by metis
  also have "\<dots> = card ?F" by simp
  also have "\<dots> < card {0..<length (hp_slots p)}"
  proof (rule psubset_card_mono)
    have "i \<in> {0..<length (hp_slots p)}" "i \<notin> ?F" using assms(2,3) by simp_all
    then show "?F \<subset> {0..<length (hp_slots p)}" by fastforce
  qed simp
  finally show ?thesis by simp
qed

interpretation host_slots: generation_slots hsp_ok "\<lambda>p. length (hp_slots p)"
  "\<lambda>p i. hs_occupied (hp_slots p ! i)" "\<lambda>p i. hs_generation (hp_slots p ! i)"
  "\<lambda>i p. snd (hsp_release p (i, hs_generation (hp_slots p ! i)))"
proof
  fix p :: "'c host_state_pool" and i assume p: "hsp_ok p" and i: "i < length (hp_slots p)"
  show "hs_generation (hp_slots p ! i) \<noteq> 0" using p i by (simp add: hsp_ok_def)
  assume u: "hs_occupied (hp_slots p ! i)"
  let ?g = "hs_generation (hp_slots p ! i)"
  let ?p = "snd (hsp_release p (i, ?g))"
  have r: "?p = p\<lparr>hp_slots := (hp_slots p)[i := (hp_slots p ! i)\<lparr>hs_occupied := False, hs_generation := increment_generation ?g\<rparr>],
                  hp_free_slots := (hp_free_slots p)[hp_free_count p := i],
                  hp_free_count := hp_free_count p + 1, hp_occupied := hp_occupied p - 1\<rparr>"
    using i u by (simp add: hsp_release_def hsp_valid_def Let_def)
  have room: "hp_free_count p < length (hp_slots p)" by (rule hsp_room [OF p i u])
  have free: "{j. j < length (hp_slots ?p) \<and> \<not> hs_occupied (hp_slots ?p ! j)} =
      insert i {j. j < length (hp_slots p) \<and> \<not> hs_occupied (hp_slots p ! j)}"
    using i by (auto simp: r nth_list_update split: if_splits)
  show "hsp_ok ?p"
    unfolding hsp_ok_def free
    using p i u room by (auto simp: r hsp_ok_def mset_take_push nth_list_update)
  show "length (hp_slots ?p) = length (hp_slots p)" by (simp add: r)
  show "\<not> hs_occupied (hp_slots ?p ! i) \<and> hs_generation (hp_slots ?p ! i) = increment_generation ?g"
    using i by (simp add: r)
  show "hs_occupied (hp_slots ?p ! j) = hs_occupied (hp_slots p ! j) \<and>
        hs_generation (hp_slots ?p ! j) = hs_generation (hp_slots p ! j)" if "j \<noteq> i" for j
    using that by (simp add: r)
qed

lemma hsp_valid_holds: "hsp_valid p h \<longleftrightarrow> host_slots.holds p h"
  by (auto simp: hsp_valid_def host_slots.holds_def)

lemma hsp_release_held:
  assumes "host_slots.balanced p L" and "h \<in># L"
  shows "fst (hsp_release p h)" and "host_slots.balanced (snd (hsp_release p h)) (L - {#h#})"
    and "hp_data (snd (hsp_release p h)) = hp_data p"
proof -
  have h: "host_slots.holds p h" by (rule host_slots.balanced_holds [OF assms])
  then have e: "(fst h, hs_generation (hp_slots p ! fst h)) = h"
    by (simp add: host_slots.holds_def prod_eq_iff)
  show "fst (hsp_release p h)" using h by (simp add: hsp_release_def hsp_valid_holds Let_def)
  show "host_slots.balanced (snd (hsp_release p h)) (L - {#h#})"
    using host_slots.balanced_free [OF assms] by (simp add: e)
  show "hp_data (snd (hsp_release p h)) = hp_data p" by (simp add: hsp_release_def Let_def)
qed

lemma hsp_allocate_held:
  assumes b: "host_slots.balanced p L" and a: "hsp_allocate p = (Some h, q)"
  shows "host_slots.balanced q (add_mset h L)" and "hp_data q = hp_data p" and "\<forall>l\<in>#L. fst l \<noteq> fst h"
proof -
  define k where "k = hp_free_slots p ! (hp_free_count p - 1)"
  have ok: "hsp_ok p" using b by (simp add: host_slots.balanced_def)
  have c: "0 < hp_free_count p" using a by (simp add: hsp_allocate_def split: if_splits)
  have h: "h = (k, hs_generation (hp_slots p ! k))"
    and q: "q = p\<lparr>hp_free_count := hp_free_count p - 1, hp_occupied := hp_occupied p + 1,
               hp_slots := (hp_slots p)[k := (hp_slots p ! k)\<lparr>hs_occupied := True\<rparr>]\<rparr>"
    using a c by (simp_all add: hsp_allocate_def Let_def k_def split: if_splits)
  have pop: "mset (take (hp_free_count p) (hp_free_slots p)) =
      add_mset k (mset (take (hp_free_count p - 1) (hp_free_slots p)))"
    unfolding k_def by (rule mset_take_pop) (use c ok in \<open>simp_all add: hsp_ok_def\<close>)
  let ?F = "{i. i < length (hp_slots p) \<and> \<not> hs_occupied (hp_slots p ! i)}"
  have F: "mset_set ?F = add_mset k (mset (take (hp_free_count p - 1) (hp_free_slots p)))"
    using pop ok by (simp add: hsp_ok_def)
  then have "k \<in># mset_set ?F" by simp
  then have i: "k < length (hp_slots p)" "\<not> hs_occupied (hp_slots p ! k)" by simp_all
  have rest: "mset (take (hp_free_count p - 1) (hp_free_slots p)) = mset_set (?F - {k})"
    using F i by (simp add: mset_set_Diff)
  have free: "{j. j < length (hp_slots q) \<and> \<not> hs_occupied (hp_slots q ! j)} = ?F - {k}"
    using i by (auto simp: q nth_list_update split: if_splits)
  have q_ok: "hsp_ok q"
    unfolding hsp_ok_def free using ok c i rest by (auto simp: q hsp_ok_def nth_list_update)
  show "host_slots.balanced q (add_mset h L)"
    unfolding h by (rule host_slots.balanced_take [OF b q_ok _ i]) (simp_all add: q nth_list_update i)
  show "hp_data q = hp_data p" by (simp add: q)
  show "\<forall>l\<in>#L. fst l \<noteq> fst h"
    using host_slots.balanced_holds [OF b] i by (auto simp: host_slots.holds_def h)
qed

lemma write_host_balanced [simp]: "host_slots.balanced (write_host i x p) L = host_slots.balanced p L"
  by (simp add: host_slots.balanced_def write_host_def hsp_ok_def)

lemma write_host_valid [simp]: "hsp_valid (write_host i x p) h = hsp_valid p h"
  by (simp add: write_host_def hsp_valid_def)

section \<open>Slots held by images\<close>

definition opt_mset :: "'a option \<Rightarrow> 'a multiset" where
  "opt_mset x = (case x of None \<Rightarrow> {#} | Some y \<Rightarrow> {#y#})"

lemma opt_mset_simps [simp]: "opt_mset None = {#}" "opt_mset (Some y) = {#y#}"
  by (simp_all add: opt_mset_def)

definition device_held :: "image_object \<Rightarrow> nat multiset" where
  "device_held ob = opt_mset (io_device_slot ob) + opt_mset (io_pending_device_slot ob)"

definition host_held :: "image_object \<Rightarrow> host_slot_handle multiset" where
  "host_held ob = opt_mset (io_host_slot ob) + opt_mset (io_pending_host_slot ob)"

definition held_by :: "('o \<Rightarrow> 'a multiset) \<Rightarrow> 'o list \<Rightarrow> 'a multiset" where
  "held_by f obs = sum_list (map f obs)"

lemma held_by_split: "i < length obs \<Longrightarrow> held_by f obs = f (obs ! i) + held_by f (take i obs @ drop (Suc i) obs)"
  unfolding held_by_def
  by (subst id_take_nth_drop [of i obs]) (simp_all add: add_ac)

lemma held_by_update:
  assumes "i < length obs"
  shows "held_by f (obs[i := ob]) + f (obs ! i) = held_by f obs + f ob"
proof -
  have "held_by f (obs[i := ob]) = f ob + held_by f (take i obs @ drop (Suc i) obs)"
    using held_by_split [of i "obs[i := ob]" f] assms by (simp add: take_update_cancel)
  then show ?thesis using held_by_split [OF assms, of f] by (simp add: add_ac)
qed

lemma held_by_mono: "i < length obs \<Longrightarrow> f (obs ! i) \<subseteq># held_by f obs"
  by (metis held_by_split mset_subset_eq_add_left)

lemma held_by_two:
  assumes "i < length obs" and "j < length obs" and "i \<noteq> j"
  shows "f (obs ! i) + f (obs ! j) \<subseteq># held_by f obs"
proof -
  have "f (obs ! j) + held_by f (obs[i := obs ! i]) = f (obs ! j) + held_by f obs" by simp
  have "held_by f obs = f (obs ! i) + held_by f (take i obs @ drop (Suc i) obs)"
    by (rule held_by_split [OF assms(1)])
  moreover have "obs ! j \<in> set (take i obs @ drop (Suc i) obs)"
  proof (cases "j < i")
    case True
    then have "take i obs ! j = obs ! j" and "j < length (take i obs)" using assms(2) by simp_all
    then show ?thesis by (metis UnCI nth_mem set_append)
  next
    case False
    then have "drop (Suc i) obs ! (j - Suc i) = obs ! j" and "j - Suc i < length (drop (Suc i) obs)"
      using assms by simp_all
    then show ?thesis by (metis UnCI nth_mem set_append)
  qed
  then have "f (obs ! j) \<subseteq># held_by f (take i obs @ drop (Suc i) obs)"
    by (metis held_by_mono in_set_conv_nth)
  ultimately show ?thesis by simp
qed

section \<open>Balances\<close>

definition device_balance :: "'c state_store \<Rightarrow> nat multiset \<Rightarrow> bool" where
  "device_balance s L \<longleftrightarrow>
    ss_free_device_count s \<le> length (ss_free_device_slots s) \<and>
    mset (take (ss_free_device_count s) (ss_free_device_slots s)) + held_by device_held (ss_objects s) + L =
      mset_set {0..<length (ss_free_device_slots s)}"

definition host_balance :: "'c state_store \<Rightarrow> host_slot_handle multiset \<Rightarrow> bool" where
  "host_balance s L \<longleftrightarrow>
    (case ss_host s of
       None \<Rightarrow> held_by host_held (ss_objects s) + L = {#}
     | Some p \<Rightarrow> host_slots.balanced p (held_by host_held (ss_objects s) + L))"

lemma device_balance_distinct:
  assumes "device_balance s L"
  shows "count (mset (take (ss_free_device_count s) (ss_free_device_slots s)) +
      held_by device_held (ss_objects s) + L) d \<le> 1"
  using assms by (simp add: device_balance_def count_mset_set')

lemma take_device_balance:
  assumes "device_balance s L" and "take_device_slot s = (Some d, t)"
  shows "device_balance t (add_mset d L)"
proof -
  have c: "0 < ss_free_device_count s" using assms(2) by (simp add: take_device_slot_def split: if_splits)
  then show ?thesis
    using assms mset_take_pop [OF c, of "ss_free_device_slots s"]
    by (auto simp: device_balance_def take_device_slot_def split: if_splits)
qed

lemma return_device_balance:
  assumes "device_balance s (add_mset d L)"
  shows "device_balance (return_device_slot d s) L"
proof -
  let ?n = "length (ss_free_device_slots s)"
  have "size (mset (take (ss_free_device_count s) (ss_free_device_slots s)) +
      held_by device_held (ss_objects s) + add_mset d L) = size (mset_set {0..<?n})"
    using assms unfolding device_balance_def by (metis (no_types))
  moreover have c: "ss_free_device_count s \<le> ?n" using assms by (simp add: device_balance_def)
  ultimately have "ss_free_device_count s < ?n" by (simp split: if_splits)
  then show ?thesis
    using assms by (simp add: device_balance_def return_device_slot_def mset_take_push)
qed

lemma set_object_device_balance:
  assumes "device_balance s L" and "i < length (ss_objects s)"
    and "device_held ob + L' = device_held (ss_objects s ! i) + L"
  shows "device_balance (set_object i ob s) L'"
proof -
  have "held_by device_held ((ss_objects s)[i := ob]) + L' + device_held (ss_objects s ! i) =
      held_by device_held (ss_objects s) + device_held ob + L'"
    using held_by_update [OF assms(2), of device_held ob] by (simp add: add_ac)
  also have "\<dots> = held_by device_held (ss_objects s) + L + device_held (ss_objects s ! i)"
    using assms(3) by (simp add: add_ac)
  finally have "held_by device_held ((ss_objects s)[i := ob]) + L' = held_by device_held (ss_objects s) + L"
    by simp
  then show ?thesis using assms(1) by (simp add: device_balance_def set_object_def add.assoc)
qed

lemma set_object_host_balance:
  assumes "host_balance s L" and "i < length (ss_objects s)"
    and "host_held ob + L' = host_held (ss_objects s ! i) + L"
  shows "host_balance (set_object i ob s) L'"
proof -
  have "held_by host_held ((ss_objects s)[i := ob]) + L' + host_held (ss_objects s ! i) =
      held_by host_held (ss_objects s) + host_held ob + L'"
    using held_by_update [OF assms(2), of host_held ob] by (simp add: add_ac)
  also have "\<dots> = held_by host_held (ss_objects s) + L + host_held (ss_objects s ! i)"
    using assms(3) by (simp add: add_ac)
  finally have "held_by host_held ((ss_objects s)[i := ob]) + L' = held_by host_held (ss_objects s) + L"
    by simp
  then show ?thesis using assms(1) by (simp add: host_balance_def set_object_def split: option.splits)
qed

lemma host_release_balance:
  assumes "host_balance s (add_mset h L)"
  shows "fst (host_release_slot h s)" and "host_balance (snd (host_release_slot h s)) L"
proof -
  obtain p where p: "ss_host s = Some p" and b: "host_slots.balanced p (held_by host_held (ss_objects s) + add_mset h L)"
    using assms by (auto simp: host_balance_def split: option.splits)
  note r = hsp_release_held [OF b, of h]
  show "fst (host_release_slot h s)" using r(1) p by (simp add: host_release_slot_def case_prod_beta)
  show "host_balance (snd (host_release_slot h s)) L"
    using r(2) p by (simp add: host_release_slot_def host_balance_def case_prod_beta)
qed

lemma host_allocate_balance:
  assumes "host_balance s L" and "ss_host s = Some p" and "hsp_allocate p = (Some h, q)"
  shows "host_balance (s\<lparr>ss_host := Some q\<rparr>) (add_mset h L)"
  using hsp_allocate_held(1) [of p "held_by host_held (ss_objects s) + L" h q] assms
  by (simp add: host_balance_def)

end
