(* ===== verification/StateClaims.thy ===== *)
theory StateClaims
  imports StateMemory
begin

text \<open>
  The claims on images: the transfers and forks that have begun and are neither published, committed
  nor aborted. The invariant of the store is stated per image, from the claims that read it and the
  claim that writes it; an operation has to be checked only at the images it touches.
\<close>

datatype claim = TransferClaim image_transfer | ForkClaim image_handle image_handle

primrec claim_source :: "claim \<Rightarrow> image_handle" where
  "claim_source (TransferClaim t) = it_source t"
| "claim_source (ForkClaim source destination) = source"

primrec claim_dest :: "claim \<Rightarrow> image_handle" where
  "claim_dest (TransferClaim t) = it_destination t"
| "claim_dest (ForkClaim source destination) = destination"

definition readers :: "claim multiset \<Rightarrow> nat \<Rightarrow> claim multiset" where
  "readers C i = filter_mset (\<lambda>c. ih_index (claim_source c) = i) C"

definition writers :: "claim multiset \<Rightarrow> nat \<Rightarrow> claim multiset" where
  "writers C i = filter_mset (\<lambda>c. ih_index (claim_dest c) = i) C"

lemma readers_simps [simp]:
  "readers {#} i = {#}"
  "readers (add_mset c C) i =
    (if ih_index (claim_source c) = i then add_mset c (readers C i) else readers C i)"
  by (simp_all add: readers_def)

lemma writers_simps [simp]:
  "writers {#} i = {#}"
  "writers (add_mset c C) i =
    (if ih_index (claim_dest c) = i then add_mset c (writers C i) else writers C i)"
  by (simp_all add: writers_def)

definition handle_at :: "nat \<Rightarrow> nat \<Rightarrow> u32 \<Rightarrow> image_handle" where
  "handle_at ident i g = \<lparr>ih_owner = Some ident, ih_index = i, ih_generation = g\<rparr>"

lemma handle_at_simps [simp]:
  "ih_index (handle_at ident i g) = i" "ih_owner (handle_at ident i g) = Some ident"
  "ih_generation (handle_at ident i g) = g"
  by (simp_all add: handle_at_def)

lemma handle_at_iff:
  "h = handle_at ident i g \<longleftrightarrow> ih_owner h = Some ident \<and> ih_index h = i \<and> ih_generation h = g"
  by (cases h) (auto simp: handle_at_def)

lemma valid_handle_at:
  "image_valid s h \<longleftrightarrow> ih_index h < length (ss_objects s) \<and> io_role (object_of s h) \<noteq> ImageFree \<and>
    h = handle_at (ss_id s) (ih_index h) (io_generation (object_of s h))"
  unfolding handle_at_iff by (auto simp: image_valid_def)

lemma valid_same_index:
  "image_valid s h \<Longrightarrow> image_valid s k \<Longrightarrow> ih_index h = ih_index k \<Longrightarrow> h = k"
  by (metis valid_handle_at)

lemma pending_iff:
  "\<not> has_pending_replica ob \<longleftrightarrow>
    io_pending_device_slot ob = None \<and> io_pending_host_slot ob = None \<and> io_transfer_id ob = 0"
  by (cases "io_pending_device_slot ob"; cases "io_pending_host_slot ob") (simp_all add: has_pending_replica_def)

lemma idle_iff:
  "idle ob \<longleftrightarrow> io_source_pins ob = 0 \<and> \<not> io_destination_pinned ob \<and>
    io_pending_device_slot ob = None \<and> io_pending_host_slot ob = None \<and> io_transfer_id ob = 0"
  by (simp add: idle_def pending_iff)

text \<open>An image by its role.\<close>

definition role_ok :: "image_object \<Rightarrow> bool" where
  "role_ok ob \<longleftrightarrow>
    io_generation ob \<noteq> 0 \<and> io_source_pins ob \<le> uint32_max \<and> io_checkpoint_references ob \<le> uint32_max \<and>
    (case io_role ob of
       ImageFree \<Rightarrow> idle ob \<and> io_device_slot ob = None \<and> io_host_slot ob = None \<and> io_checkpoint_references ob = 0
     | ReservedDestination \<Rightarrow> idle ob \<and> io_host_slot ob = None \<and> io_checkpoint_references ob = 0
     | ActiveMutable \<Rightarrow> io_host_slot ob = None \<and> io_pending_host_slot ob = None \<and>
         io_checkpoint_references ob = 0 \<and> io_source_pins ob = 0 \<and>
         (io_device_slot ob \<noteq> None \<or> io_pending_device_slot ob \<noteq> None)
     | CheckpointImmutable \<Rightarrow> io_device_slot ob \<noteq> None \<or> io_host_slot ob \<noteq> None)"

definition reader_ok :: "nat \<Rightarrow> nat \<Rightarrow> image_object \<Rightarrow> claim \<Rightarrow> bool" where
  "reader_ok ident i ob c \<longleftrightarrow>
    claim_source c = handle_at ident i (io_generation ob) \<and> io_role ob = CheckpointImmutable \<and>
    (case c of ForkClaim _ _ \<Rightarrow> io_device_slot ob \<noteq> None | TransferClaim _ \<Rightarrow> True)"

definition transfer_ok :: "nat \<Rightarrow> image_object \<Rightarrow> image_transfer \<Rightarrow> bool" where
  "transfer_ok ident ob t \<longleftrightarrow>
    it_owner t = Some ident \<and> it_id t \<noteq> 0 \<and> io_transfer_id ob = it_id t \<and>
    (case it_direction t of
       DeviceToHost \<Rightarrow> it_source t = it_destination t \<and> io_role ob = CheckpointImmutable \<and>
         io_device_slot ob \<noteq> None \<and> io_host_slot ob = None \<and>
         io_pending_device_slot ob = None \<and> io_pending_host_slot ob \<noteq> None
     | HostToDevice \<Rightarrow> it_source t = it_destination t \<and> io_role ob = CheckpointImmutable \<and>
         io_device_slot ob = None \<and> io_host_slot ob \<noteq> None \<and>
         io_pending_device_slot ob \<noteq> None \<and> io_pending_host_slot ob = None
     | HostToFork \<Rightarrow> io_role ob = ActiveMutable \<and> io_device_slot ob = None \<and>
         io_pending_device_slot ob \<noteq> None \<and> io_pending_host_slot ob = None)"

definition writer_ok :: "nat \<Rightarrow> nat \<Rightarrow> image_object \<Rightarrow> claim \<Rightarrow> bool" where
  "writer_ok ident i ob c \<longleftrightarrow>
    claim_dest c = handle_at ident i (io_generation ob) \<and> io_destination_pinned ob \<and>
    (case c of
       TransferClaim t \<Rightarrow> transfer_ok ident ob t
     | ForkClaim _ _ \<Rightarrow> io_role ob = ActiveMutable \<and> io_device_slot ob \<noteq> None \<and> \<not> has_pending_replica ob)"

definition index_ok :: "nat \<Rightarrow> nat \<Rightarrow> image_object \<Rightarrow> claim multiset \<Rightarrow> claim multiset \<Rightarrow> bool" where
  "index_ok ident i ob R W \<longleftrightarrow>
    role_ok ob \<and> io_source_pins ob = size R \<and> (\<forall>c\<in>#R. reader_ok ident i ob c) \<and>
    (if W = {#} then \<not> io_destination_pinned ob \<and> \<not> has_pending_replica ob
     else \<exists>c. W = {#c#} \<and> writer_ok ident i ob c)"

definition claims_ok :: "nat \<Rightarrow> image_object list \<Rightarrow> claim multiset \<Rightarrow> bool" where
  "claims_ok ident obs C \<longleftrightarrow>
    (\<forall>c\<in>#C. ih_index (claim_source c) < length obs \<and> ih_index (claim_dest c) < length obs) \<and>
    (\<forall>i < length obs. index_ok ident i (obs ! i) (readers C i) (writers C i))"

lemma claims_at: "claims_ok ident obs C \<Longrightarrow> i < length obs \<Longrightarrow> index_ok ident i (obs ! i) (readers C i) (writers C i)"
  by (simp add: claims_ok_def)

lemma claims_role_ok: "claims_ok ident obs C \<Longrightarrow> i < length obs \<Longrightarrow> role_ok (obs ! i)"
  by (simp add: claims_ok_def index_ok_def)

lemma idle_index_ok: "idle ob \<Longrightarrow> index_ok ident i ob R W \<longleftrightarrow> role_ok ob \<and> R = {#} \<and> W = {#}"
  by (auto simp: index_ok_def idle_def writer_ok_def)

text \<open>What a live claim knows of the images it names.\<close>

lemma claim_live:
  assumes "claims_ok ident obs C" and "c \<in># C"
  shows "ih_index (claim_source c) < length obs" "ih_index (claim_dest c) < length obs"
    "reader_ok ident (ih_index (claim_source c)) (obs ! ih_index (claim_source c)) c"
    "writer_ok ident (ih_index (claim_dest c)) (obs ! ih_index (claim_dest c)) c"
proof -
  show s: "ih_index (claim_source c) < length obs" and d: "ih_index (claim_dest c) < length obs"
    using assms by (simp_all add: claims_ok_def)
  have "c \<in># readers C (ih_index (claim_source c))" using assms(2) by (simp add: readers_def)
  then show "reader_ok ident (ih_index (claim_source c)) (obs ! ih_index (claim_source c)) c"
    using claims_at [OF assms(1) s] by (simp add: index_ok_def)
  have "c \<in># writers C (ih_index (claim_dest c))" using assms(2) by (simp add: writers_def)
  then show "writer_ok ident (ih_index (claim_dest c)) (obs ! ih_index (claim_dest c)) c"
    using claims_at [OF assms(1) d] by (auto simp: index_ok_def split: if_splits)
qed

text \<open>Checking an operation only where it writes.\<close>

lemma claims_change:
  assumes "claims_ok ident obs C" and "length obs' = length obs"
    and "\<And>c. c \<in># C' \<Longrightarrow> ih_index (claim_source c) < length obs \<and> ih_index (claim_dest c) < length obs"
    and "\<And>k. k < length obs \<Longrightarrow> k \<notin> I \<Longrightarrow>
      obs' ! k = obs ! k \<and> readers C' k = readers C k \<and> writers C' k = writers C k"
    and "\<And>k. k \<in> I \<Longrightarrow> index_ok ident k (obs' ! k) (readers C' k) (writers C' k)"
  shows "claims_ok ident obs' C'"
  unfolding claims_ok_def
proof (intro conjI allI impI ballI)
  fix i assume i: "i < length obs'"
  show "index_ok ident i (obs' ! i) (readers C' i) (writers C' i)"
    using assms(5) [of i] assms(4) [of i] claims_at [OF assms(1), of i] i assms(2)
    by (cases "i \<in> I") simp_all
qed (use assms(2,3) in auto)

lemma claims_range: "claims_ok ident obs C \<Longrightarrow> c \<in># C \<Longrightarrow>
    ih_index (claim_source c) < length obs \<and> ih_index (claim_dest c) < length obs"
  by (simp add: claims_ok_def)

lemma claims_update:
  assumes "claims_ok ident obs C" and "i < length obs" and "index_ok ident i ob (readers C i) (writers C i)"
  shows "claims_ok ident (obs[i := ob]) C"
  by (rule claims_change [OF assms(1), where I = "{i}"])
    (use assms claims_range [OF assms(1)] in \<open>auto simp: nth_list_update\<close>)

lemma claims_begin:
  assumes "claims_ok ident obs C" and "i = ih_index (claim_source c)" and "j = ih_index (claim_dest c)"
    and "i < length obs" and "j < length obs" and "i \<noteq> j"
    and "index_ok ident i sob (add_mset c (readers C i)) (writers C i)"
    and "index_ok ident j dob (readers C j) (add_mset c (writers C j))"
  shows "claims_ok ident (obs[i := sob, j := dob]) (add_mset c C)"
  by (rule claims_change [OF assms(1), where I = "{i, j}"])
    (use assms claims_range [OF assms(1)] in \<open>auto simp: nth_list_update\<close>)

lemma claims_begin_self:
  assumes "claims_ok ident obs C" and "i = ih_index (claim_source c)" and "i = ih_index (claim_dest c)"
    and "i < length obs" and "index_ok ident i ob (add_mset c (readers C i)) (add_mset c (writers C i))"
  shows "claims_ok ident (obs[i := ob]) (add_mset c C)"
  by (rule claims_change [OF assms(1), where I = "{i}"])
    (use assms claims_range [OF assms(1)] in \<open>auto simp: nth_list_update\<close>)

lemma claims_end:
  assumes "claims_ok ident obs (add_mset c C)" and "i = ih_index (claim_source c)"
    and "j = ih_index (claim_dest c)" and "i \<noteq> j"
    and "index_ok ident i sob (readers C i) (writers C i)"
    and "index_ok ident j dob (readers C j) (writers C j)"
  shows "claims_ok ident (obs[i := sob, j := dob]) C"
  by (rule claims_change [OF assms(1), where I = "{i, j}"])
    (use assms claims_range [OF assms(1)] in \<open>auto simp: nth_list_update\<close>)

lemma claims_end_self:
  assumes "claims_ok ident obs (add_mset c C)" and "i = ih_index (claim_source c)"
    and "i = ih_index (claim_dest c)" and "index_ok ident i ob (readers C i) (writers C i)"
  shows "claims_ok ident (obs[i := ob]) C"
  by (rule claims_change [OF assms(1), where I = "{i}"])
    (use assms claims_range [OF assms(1)] in \<open>auto simp: nth_list_update\<close>)

text \<open>The reader and the writer of a claim, as the last one of each to go.\<close>

lemma source_index:
  assumes "claims_ok ident obs (add_mset c C)" and "i = ih_index (claim_source c)"
  shows "role_ok (obs ! i)" "io_role (obs ! i) = CheckpointImmutable"
    "io_source_pins (obs ! i) = Suc (size (readers C i))" "\<forall>c\<in>#readers C i. reader_ok ident i (obs ! i) c"
proof -
  have i: "i < length obs" using claims_range [OF assms(1), of c] assms(2) by simp
  note at = claims_at [OF assms(1) i]
  show "role_ok (obs ! i)" "io_source_pins (obs ! i) = Suc (size (readers C i))"
    "\<forall>c\<in>#readers C i. reader_ok ident i (obs ! i) c" "io_role (obs ! i) = CheckpointImmutable"
    using at assms(2) by (simp_all add: index_ok_def reader_ok_def)
qed

lemma dest_index:
  assumes "claims_ok ident obs (add_mset c C)" and "j = ih_index (claim_dest c)"
  shows "role_ok (obs ! j)" "writers C j = {#}" "writer_ok ident j (obs ! j) c"
proof -
  have j: "j < length obs" using claims_range [OF assms(1), of c] assms(2) by simp
  note at = claims_at [OF assms(1) j]
  show "role_ok (obs ! j)" "writers C j = {#}" "writer_ok ident j (obs ! j) c"
    using at assms(2) by (auto simp: index_ok_def)
qed

lemma not_idle_source: "claims_ok ident obs C \<Longrightarrow> c \<in># C \<Longrightarrow> \<not> idle (obs ! ih_index (claim_source c))"
proof
  assume c: "claims_ok ident obs C" "c \<in># C" and "idle (obs ! ih_index (claim_source c))"
  then have "readers C (ih_index (claim_source c)) = {#}"
    using claims_at [OF c(1) claim_live(1) [OF c]] by (simp add: idle_index_ok)
  then show False using c(2) by (auto simp: readers_def)
qed

lemma not_idle_dest: "claims_ok ident obs C \<Longrightarrow> c \<in># C \<Longrightarrow> \<not> idle (obs ! ih_index (claim_dest c))"
  using claim_live(4) [of ident obs C c] by (auto simp: idle_def writer_ok_def)

end
