(* ===== verification/StateSystem.thy ===== *)
theory StateSystem
  imports StateClaims
begin

text \<open>
  The image store as a system: its invariant, and that every operation keeps it on every branch,
  a failed device copy included.
\<close>

declare not_None_eq [iff del]

section \<open>Invariant\<close>

definition object_balance :: "'c state_store \<Rightarrow> bool" where
  "object_balance s \<longleftrightarrow>
    length (ss_free_objects s) = length (ss_objects s) \<and> ss_free_object_count s \<le> length (ss_objects s) \<and>
    mset (take (ss_free_object_count s) (ss_free_objects s)) =
      mset_set {i. i < length (ss_objects s) \<and> io_role (ss_objects s ! i) = ImageFree}"

definition loose :: "'c state_store \<Rightarrow> nat multiset \<Rightarrow> host_slot_handle multiset \<Rightarrow> bool" where
  "loose s L H \<longleftrightarrow> device_balance s L \<and> host_balance s H \<and> object_balance s"

definition store_ok :: "'c state_store \<Rightarrow> claim multiset \<Rightarrow> bool" where
  "store_ok s C \<longleftrightarrow> loose s {#} {#} \<and> claims_ok (ss_id s) (ss_objects s) C"

lemma store_okI: "loose s {#} {#} \<Longrightarrow> claims_ok (ss_id s) (ss_objects s) C \<Longrightarrow> store_ok s C"
  by (simp add: store_ok_def)

lemma store_ok_loose: "store_ok s C \<Longrightarrow> loose s {#} {#}"
  by (simp add: store_ok_def)

lemma store_ok_claims: "store_ok s C \<Longrightarrow> claims_ok (ss_id s) (ss_objects s) C"
  by (simp add: store_ok_def)

section \<open>Fields\<close>

lemma set_object_fields [simp]:
  "ss_objects (set_object i ob s) = (ss_objects s)[i := ob]" "ss_id (set_object i ob s) = ss_id s"
  "ss_host (set_object i ob s) = ss_host s" "ss_device_data (set_object i ob s) = ss_device_data s"
  by (simp_all add: set_object_def)

lemma modify_image_fields [simp]:
  "ss_objects (modify_image h f s) = (ss_objects s)[ih_index h := f (object_of s h)]"
  "ss_id (modify_image h f s) = ss_id s" "ss_host (modify_image h f s) = ss_host s"
  "ss_device_data (modify_image h f s) = ss_device_data s"
  by (simp_all add: modify_image_def)

lemma return_device_slot_fields [simp]:
  "ss_objects (return_device_slot d s) = ss_objects s" "ss_id (return_device_slot d s) = ss_id s"
  "ss_host (return_device_slot d s) = ss_host s"
  "ss_device_data (return_device_slot d s) = ss_device_data s"
  by (simp_all add: return_device_slot_def)

lemma take_device_slot_fields:
  assumes "take_device_slot s = (d, t)"
  shows "ss_objects t = ss_objects s" "ss_id t = ss_id s" "ss_host t = ss_host s"
    "ss_device_data t = ss_device_data s"
  using assms by (auto simp: take_device_slot_def split: if_splits)

lemma write_device_fields [simp]:
  "ss_objects (write_device d x s) = ss_objects s" "ss_id (write_device d x s) = ss_id s"
  "ss_host (write_device d x s) = ss_host s"
  "ss_device_data (write_device d x s) = (ss_device_data s)(d := x)"
  by (simp_all add: write_device_def)

lemma next_epoch_fields [simp]:
  "ss_objects (snd (next_epoch s)) = ss_objects s" "ss_id (snd (next_epoch s)) = ss_id s"
  "ss_host (snd (next_epoch s)) = ss_host s" "ss_device_data (snd (next_epoch s)) = ss_device_data s"
  by (simp_all add: next_epoch_def Let_def)

lemma next_transfer_fields [simp]:
  "ss_objects (snd (next_transfer s)) = ss_objects s" "ss_id (snd (next_transfer s)) = ss_id s"
  "ss_host (snd (next_transfer s)) = ss_host s"
  "ss_device_data (snd (next_transfer s)) = ss_device_data s" "fst (next_transfer s) \<noteq> 0"
  by (simp_all add: next_transfer_def Let_def)

lemma host_release_slot_fields [simp]:
  "ss_objects (snd (host_release_slot h s)) = ss_objects s" "ss_id (snd (host_release_slot h s)) = ss_id s"
  "ss_device_data (snd (host_release_slot h s)) = ss_device_data s"
  by (simp_all add: host_release_slot_def split: option.splits prod.splits)

section \<open>Slots in hand\<close>

lemma loose_set_object:
  assumes "loose s L H" and "i < length (ss_objects s)"
    and "device_held ob + L' = device_held (ss_objects s ! i) + L"
    and "host_held ob + H' = host_held (ss_objects s ! i) + H"
    and "io_role ob = ImageFree \<longleftrightarrow> io_role (ss_objects s ! i) = ImageFree"
  shows "loose (set_object i ob s) L' H'"
proof -
  have "{j. j < length (ss_objects s) \<and> io_role ((ss_objects s)[i := ob] ! j) = ImageFree} =
      {j. j < length (ss_objects s) \<and> io_role (ss_objects s ! j) = ImageFree}"
    using assms(2,5) by (auto simp: nth_list_update split: if_splits)
  then have "object_balance (set_object i ob s)"
    using assms(1) by (simp add: object_balance_def loose_def set_object_def)
  then show ?thesis
    using assms set_object_device_balance [of s L i ob L'] set_object_host_balance [of s H i ob H']
    by (simp add: loose_def)
qed

lemma loose_modify_image:
  assumes "loose s L H" and "ih_index h < length (ss_objects s)"
    and "device_held (f (object_of s h)) + L' = device_held (object_of s h) + L"
    and "host_held (f (object_of s h)) + H' = host_held (object_of s h) + H"
    and "io_role (f (object_of s h)) = ImageFree \<longleftrightarrow> io_role (object_of s h) = ImageFree"
  shows "loose (modify_image h f s) L' H'"
  unfolding modify_image_def by (rule loose_set_object [OF assms])

lemma loose_other_fields:
  assumes "loose s L H" and "ss_objects t = ss_objects s" and "ss_host t = ss_host s"
    and "ss_free_device_slots t = ss_free_device_slots s" and "ss_free_device_count t = ss_free_device_count s"
    and "ss_free_objects t = ss_free_objects s" and "ss_free_object_count t = ss_free_object_count s"
  shows "loose t L H"
  using assms by (simp add: loose_def device_balance_def host_balance_def object_balance_def split: option.splits)

lemma loose_write_device [simp]: "loose s L H \<Longrightarrow> loose (write_device d x s) L H"
  by (erule loose_other_fields) (simp_all add: write_device_def)

lemma loose_next_epoch [simp]: "loose s L H \<Longrightarrow> loose (snd (next_epoch s)) L H"
  by (erule loose_other_fields) (simp_all add: next_epoch_def Let_def)

lemma loose_next_transfer [simp]: "loose s L H \<Longrightarrow> loose (snd (next_transfer s)) L H"
  by (erule loose_other_fields) (simp_all add: next_transfer_def Let_def)

lemma loose_take_device: "loose s L H \<Longrightarrow> take_device_slot s = (Some d, t) \<Longrightarrow> loose t (add_mset d L) H"
  using take_device_balance [of s L d t]
  by (auto simp: loose_def host_balance_def object_balance_def take_device_slot_def split: if_splits option.splits)

lemma loose_return_device: "loose s (add_mset d L) H \<Longrightarrow> loose (return_device_slot d s) L H"
  using return_device_balance [of s d L]
  by (simp add: loose_def host_balance_def object_balance_def return_device_slot_def split: option.splits)

lemma loose_host_release:
  assumes "loose s L (add_mset h H)"
  shows "fst (host_release_slot h s)" "loose (snd (host_release_slot h s)) L H"
proof -
  have b: "host_balance s (add_mset h H)" using assms by (simp add: loose_def)
  show "fst (host_release_slot h s)" by (rule host_release_balance [OF b])
  show "loose (snd (host_release_slot h s)) L H"
    using host_release_balance(2) [OF b] assms
    by (simp add: loose_def device_balance_def object_balance_def host_release_slot_def
        split: option.splits prod.splits)
qed

lemma loose_host_allocate:
  "loose s L H \<Longrightarrow> ss_host s = Some p \<Longrightarrow> hsp_allocate p = (Some h, q) \<Longrightarrow>
    loose (s\<lparr>ss_host := Some q\<rparr>) L (add_mset h H)"
  using host_allocate_balance [of s H p h q]
  by (simp add: loose_def device_balance_def object_balance_def)

lemma loose_write_host:
  "loose s L H \<Longrightarrow> ss_host s = Some p \<Longrightarrow> loose (s\<lparr>ss_host := Some (write_host i x p)\<rparr>) L H"
  by (simp add: loose_def device_balance_def object_balance_def host_balance_def split: option.splits)

section \<open>Rules\<close>

lemma with_image_snd:
  assumes "P s" and "image_valid s h \<Longrightarrow> P (snd (k (object_of s h)))"
  shows "P (snd (with_image s h k))"
  using assms by (simp add: with_image_def require_image_def)

lemma with_images_snd:
  assumes "P s" and "image_valid s a \<Longrightarrow> image_valid s b \<Longrightarrow> P (snd (k (object_of s a) (object_of s b)))"
  shows "P (snd (with_images s a b k))"
  using assms by (simp add: with_images_def with_image_def require_image_def)

lemma valid_index: "image_valid s h \<Longrightarrow> ih_index h < length (ss_objects s)"
  by (simp add: image_valid_def)

lemma valid_not_free: "image_valid s h \<Longrightarrow> io_role (object_of s h) \<noteq> ImageFree"
  by (simp add: image_valid_def)

lemma valid_role_ok: "store_ok s C \<Longrightarrow> image_valid s h \<Longrightarrow> role_ok (object_of s h)"
  by (rule claims_role_ok [OF store_ok_claims valid_index])

lemma valid_cong:
  "ss_objects t = ss_objects s \<Longrightarrow> ss_id t = ss_id s \<Longrightarrow> image_valid t h = image_valid s h"
  by (simp add: image_valid_def)

lemma store_ok_cong:
  "store_ok s C \<Longrightarrow> loose t {#} {#} \<Longrightarrow> ss_objects t = ss_objects s \<Longrightarrow> ss_id t = ss_id s \<Longrightarrow> store_ok t C"
  by (simp add: store_ok_def)

text \<open>An operation that rewrites one idle image, leaving it idle, with the slots accounted for.\<close>

lemma idle_update:
  assumes "store_ok s C" and "image_valid s h" and "idle (object_of s h)"
    and "loose t {#} {#}" and "ss_id t = ss_id s" and "ss_objects t = (ss_objects s)[ih_index h := ob]"
    and "idle ob" and "role_ok ob"
  shows "store_ok t C"
proof -
  have i: "ih_index h < length (ss_objects s)" using assms(2) by (rule valid_index)
  have "index_ok (ss_id s) (ih_index h) ob (readers C (ih_index h)) (writers C (ih_index h))"
    using claims_at [OF store_ok_claims [OF assms(1)] i] assms(3,7,8) by (simp add: idle_index_ok)
  then show ?thesis
    using claims_update [OF store_ok_claims [OF assms(1)] i] assms(4-6) by (simp add: store_ok_def)
qed

lemma modify_modify:
  "ih_index h < length (ss_objects s) \<Longrightarrow>
    modify_image h f (modify_image h g s) = modify_image h (\<lambda>ob. f (g ob)) s"
  by (simp add: modify_image_def set_object_def)

lemma set_role_epoch:
  assumes "ih_index h < length (ss_objects s)"
  shows "set_role h r (set_epoch h s) =
    modify_image h (\<lambda>ob. ob\<lparr>io_content_epoch := fst (next_epoch s), io_role := r\<rparr>) (snd (next_epoch s))"
  using assms by (simp add: set_role_def set_epoch_def case_prod_beta modify_modify)

lemmas held_defs = device_held_def host_held_def


section \<open>Images handed out and taken back\<close>

lemma object_pop:
  assumes "object_balance s" and "0 < ss_free_object_count s"
    and "i = ss_free_objects s ! (ss_free_object_count s - 1)"
  shows "i < length (ss_objects s)" "io_role (ss_objects s ! i) = ImageFree"
    "mset (take (ss_free_object_count s - 1) (ss_free_objects s)) =
      mset_set ({j. j < length (ss_objects s) \<and> io_role (ss_objects s ! j) = ImageFree} - {i})"
proof -
  let ?F = "{j. j < length (ss_objects s) \<and> io_role (ss_objects s ! j) = ImageFree}"
  have F: "mset_set ?F = add_mset i (mset (take (ss_free_object_count s - 1) (ss_free_objects s)))"
    using mset_take_pop [OF assms(2), of "ss_free_objects s"] assms(1,3) by (simp add: object_balance_def)
  then have "i \<in># mset_set ?F" by simp
  then show i: "i < length (ss_objects s)" "io_role (ss_objects s ! i) = ImageFree" by simp_all
  show "mset (take (ss_free_object_count s - 1) (ss_free_objects s)) = mset_set (?F - {i})"
    using F i by (simp add: mset_set_Diff)
qed

definition handed_out :: "'c state_store \<Rightarrow> image_object \<Rightarrow> 'c state_store \<Rightarrow> image_handle \<Rightarrow> bool" where
  "handed_out s ob t h \<longleftrightarrow>
    ih_index h < length (ss_objects s) \<and> io_role (object_of s h) = ImageFree \<and>
    h = handle_at (ss_id s) (ih_index h) (io_generation (object_of s h)) \<and>
    ss_objects t = (ss_objects s)[ih_index h := ob] \<and> ss_id t = ss_id s \<and>
    ss_host t = ss_host s \<and> ss_device_data t = ss_device_data s \<and> ss_zero t = ss_zero s"

lemma allocate_image_some:
  assumes ok: "loose s {#} {#}" and a: "allocate_image role with_device s = (Some h, t)"
    and free: "\<And>i. i < length (ss_objects s) \<Longrightarrow> io_role (ss_objects s ! i) = ImageFree \<Longrightarrow>
      device_held (ss_objects s ! i) = {#} \<and> host_held (ss_objects s ! i) = {#}"
  obtains slot where "handed_out s ((fresh_object (ih_generation h) role)\<lparr>io_device_slot := slot\<rparr>) t h"
    and "with_device = (slot \<noteq> None)" and "loose t {#} {#}" and "role \<noteq> ImageFree"
proof -
  let ?i = "ss_free_objects s ! (ss_free_object_count s - 1)"
  define s1 where "s1 = s\<lparr>ss_free_object_count := ss_free_object_count s - 1\<rparr>"
  have c: "0 < ss_free_object_count s" "role \<noteq> ImageFree" "with_device \<Longrightarrow> 0 < ss_free_device_count s"
    using a by (auto simp: allocate_image_def split: if_splits)
  note pop = object_pop [OF _ c(1) refl]
  have ob: "object_balance s" using ok by (simp add: loose_def)
  let ?g = "io_generation (ss_objects s ! ?i)"
  obtain slot s2 where ts: "(if with_device then take_device_slot s1 else (None, s1)) = (slot, s2)"
    by (metis surj_pair)
  have slot: "with_device = (slot \<noteq> None)"
    using ts c(3) by (auto simp: take_device_slot_def s1_def split: if_splits)
  let ?ob = "(fresh_object ?g role)\<lparr>io_device_slot := slot\<rparr>"
  have h: "h = handle_at (ss_id s) ?i ?g" and t: "t = set_object ?i ?ob s2"
    using a c ts by (auto simp: allocate_image_def Let_def s1_def [symmetric] handle_at_def split: if_splits)
      (simp_all add: s1_def)
  have s2: "ss_objects s2 = ss_objects s" "ss_id s2 = ss_id s" "ss_host s2 = ss_host s"
      "ss_device_data s2 = ss_device_data s" "ss_zero s2 = ss_zero s" "ss_free_objects s2 = ss_free_objects s"
      "ss_free_object_count s2 = ss_free_object_count s - 1"
    using ts by (auto simp: take_device_slot_def s1_def split: if_splits)
  have "device_balance s1 {#}" using ok by (simp add: loose_def device_balance_def s1_def)
  then have "device_balance s2 (opt_mset slot)"
    using ts slot take_device_balance [of s1 "{#}"] by (cases slot) (auto split: if_splits)
  then have dev: "device_balance t {#}"
    unfolding t using set_object_device_balance [of s2 "opt_mset slot" ?i ?ob "{#}"] free [OF pop(1,2) [OF ob]] pop(1) [OF ob]
    by (simp add: s2 device_held_def fresh_object_def)
  have "host_balance s2 {#}" using ok by (simp add: loose_def host_balance_def s2 split: option.splits)
  then have host: "host_balance t {#}"
    unfolding t using set_object_host_balance [of s2 "{#}" ?i ?ob "{#}"] free [OF pop(1,2) [OF ob]] pop(1) [OF ob]
    by (simp add: s2 host_held_def fresh_object_def)
  have "{j. j < length (ss_objects s) \<and> io_role ((ss_objects s)[?i := ?ob] ! j) = ImageFree} =
      {j. j < length (ss_objects s) \<and> io_role (ss_objects s ! j) = ImageFree} - {?i}"
    using pop(1,2) [OF ob] c(2) by (auto simp: nth_list_update fresh_object_def split: if_splits)
  then have "object_balance t"
    using pop(3) [OF ob] ob by (simp add: object_balance_def t s2 set_object_def le_diff_conv)
  moreover have "handed_out s ?ob t h"
    using pop(1,2) [OF ob] by (simp add: handed_out_def h t s2) (simp add: set_object_def s2)
  ultimately show ?thesis using that [of slot] slot dev host c(2) by (simp add: loose_def h)
qed

lemma free_holds_nothing:
  assumes "store_ok s C" and "i < length (ss_objects s)" and "io_role (ss_objects s ! i) = ImageFree"
  shows "device_held (ss_objects s ! i) = {#} \<and> host_held (ss_objects s ! i) = {#}"
  using claims_role_ok [OF store_ok_claims [OF assms(1)] assms(2)] assms(3)
  by (simp add: role_ok_def held_defs idle_def has_pending_replica_def)

lemma handed_out_ok:
  assumes ok: "store_ok s C" and h: "handed_out s ob t h" and l: "loose t {#} {#}"
    and ob: "idle ob" "role_ok ob"
  shows "store_ok t C"
proof -
  have i: "ih_index h < length (ss_objects s)" and f: "io_role (object_of s h) = ImageFree"
    using h by (simp_all add: handed_out_def)
  have "idle (object_of s h)"
    using claims_role_ok [OF store_ok_claims [OF ok] i] f by (simp add: role_ok_def)
  then have "index_ok (ss_id s) (ih_index h) ob (readers C (ih_index h)) (writers C (ih_index h))"
    using claims_at [OF store_ok_claims [OF ok] i] ob by (simp add: idle_index_ok)
  then show ?thesis
    using claims_update [OF store_ok_claims [OF ok] i] l h by (simp add: store_ok_def handed_out_def)
qed

lemma fresh_object_ok:
  assumes "g \<noteq> 0" and "role = ActiveMutable \<and> slot \<noteq> None \<or> role = ReservedDestination"
  shows "idle ((fresh_object g role)\<lparr>io_device_slot := slot\<rparr>)"
    "role_ok ((fresh_object g role)\<lparr>io_device_slot := slot\<rparr>)"
  using assms by (auto simp: fresh_object_def idle_def has_pending_replica_def role_ok_def)

lemma allocate_image_ok:
  assumes "store_ok s C" and "role = ActiveMutable \<and> with_device \<or> role = ReservedDestination"
    and "allocate_image role with_device s = (Some h, t)"
  obtains slot where "handed_out s ((fresh_object (ih_generation h) role)\<lparr>io_device_slot := slot\<rparr>) t h"
    and "with_device = (slot \<noteq> None)" and "store_ok t C" and "image_valid t h" 
proof -
  obtain slot where s: "handed_out s ((fresh_object (ih_generation h) role)\<lparr>io_device_slot := slot\<rparr>) t h"
      "with_device = (slot \<noteq> None)" "loose t {#} {#}" "role \<noteq> ImageFree"
    by (rule allocate_image_some [OF store_ok_loose [OF assms(1)] assms(3) free_holds_nothing [OF assms(1)]]) auto
  have g: "ih_generation h \<noteq> 0" and v: "image_valid t h"
    using s(1,4) claims_role_ok [OF store_ok_claims [OF assms(1)], of "ih_index h"]
    by (auto simp: handed_out_def handle_at_iff role_ok_def image_valid_def fresh_object_def)
  have "store_ok t C"
    by (rule handed_out_ok [OF assms(1) s(1,3) fresh_object_ok [OF g]]) (use assms(2) s(2) in auto)
  then show ?thesis using that s v by blast
qed

lemma allocate_image_none: "allocate_image role wd s = (None, t) \<Longrightarrow> t = s"
  by (auto simp: allocate_image_def Let_def split: if_splits prod.splits)

text \<open>The objects as slots with generations: \<open>retire_image\<close> frees one.\<close>

definition objects_ok :: "'c state_store \<Rightarrow> bool" where
  "objects_ok s \<longleftrightarrow> object_balance s \<and> (\<forall>i < length (ss_objects s). io_generation (ss_objects s ! i) \<noteq> 0)"

lemma object_room:
  assumes "object_balance s" and "i < length (ss_objects s)" and "io_role (ss_objects s ! i) \<noteq> ImageFree"
  shows "ss_free_object_count s < length (ss_objects s)"
proof -
  let ?F = "{i. i < length (ss_objects s) \<and> io_role (ss_objects s ! i) = ImageFree}"
  have "ss_free_object_count s = size (mset (take (ss_free_object_count s) (ss_free_objects s)))"
    using assms(1) unfolding size_mset length_take by (simp add: object_balance_def)
  also have "\<dots> = size (mset_set ?F)" using assms(1) unfolding object_balance_def by metis
  also have "\<dots> = card ?F" by simp
  also have "\<dots> < card {0..<length (ss_objects s)}"
  proof (rule psubset_card_mono)
    have "i \<in> {0..<length (ss_objects s)}" "i \<notin> ?F" using assms(2,3) by simp_all
    then show "?F \<subset> {0..<length (ss_objects s)}" by fastforce
  qed simp
  finally show ?thesis by simp
qed

definition retired :: "image_object \<Rightarrow> image_object" where
  "retired ob = ob\<lparr>io_device_slot := None, io_role := ImageFree, io_content_epoch := 0,
     io_generation := increment_generation (io_generation ob)\<rparr>"

lemma retire_image_fields:
  "ss_objects (retire_image h s) = (ss_objects s)[ih_index h := retired (object_of s h)]"
  "ss_id (retire_image h s) = ss_id s" "ss_host (retire_image h s) = ss_host s"
  "ss_device_data (retire_image h s) = ss_device_data s"
  "ss_free_objects (retire_image h s) = (ss_free_objects s)[ss_free_object_count s := ih_index h]"
  "ss_free_object_count (retire_image h s) = ss_free_object_count s + 1"
  by (simp_all add: retire_image_def retired_def Let_def set_object_def return_device_slot_def split: option.split)

lemma retire_object_balance:
  assumes "object_balance s" and "ih_index h < length (ss_objects s)" and "io_role (object_of s h) \<noteq> ImageFree"
  shows "object_balance (retire_image h s)"
proof -
  have c: "ss_free_object_count s < length (ss_objects s)" by (rule object_room [OF assms])
  have "{j. j < length (ss_objects s) \<and> io_role ((ss_objects s)[ih_index h := retired (object_of s h)] ! j) = ImageFree} =
      insert (ih_index h) {j. j < length (ss_objects s) \<and> io_role (ss_objects s ! j) = ImageFree}"
    using assms(2) by (auto simp: nth_list_update retired_def split: if_splits)
  then show ?thesis
    using assms c by (simp add: object_balance_def retire_image_fields mset_take_push)
qed

interpretation images: generation_slots objects_ok "\<lambda>s. length (ss_objects s)"
  "\<lambda>s i. io_role (ss_objects s ! i) \<noteq> ImageFree" "\<lambda>s i. io_generation (ss_objects s ! i)"
  "\<lambda>i s. retire_image (handle_at (ss_id s) i (io_generation (ss_objects s ! i))) s"
  by unfold_locales
    (auto simp: objects_ok_def retire_image_fields retire_object_balance nth_list_update retired_def)

lemma image_valid_holds:
  "image_valid s h \<longleftrightarrow> ih_owner h = Some (ss_id s) \<and> images.holds s (ih_index h, ih_generation h)"
  by (auto simp: image_valid_def images.holds_def)

lemma retire_loose:
  assumes l: "loose s {#} {#}" and idx: "ih_index h < length (ss_objects s)"
    and f: "io_role (object_of s h) \<noteq> ImageFree"
    and i: "idle (object_of s h)" and r: "io_host_slot (object_of s h) = None"
  shows "loose (retire_image h s) {#} {#}"
proof -
  let ?ob = "object_of s h"
  have held: "device_held ?ob = opt_mset (io_device_slot ?ob)" "host_held ?ob = {#}"
    "device_held (retired ?ob) = {#}" "host_held (retired ?ob) = {#}"
    using i r by (simp_all add: held_defs retired_def idle_iff)
  have "device_balance (set_object (ih_index h) (retired ?ob) s) (opt_mset (io_device_slot ?ob))"
    by (rule set_object_device_balance [OF _ idx]) (use l in \<open>simp_all add: held loose_def\<close>)
  then have "device_balance (case io_device_slot ?ob of None \<Rightarrow> set_object (ih_index h) (retired ?ob) s
      | Some slot \<Rightarrow> return_device_slot slot (set_object (ih_index h) (retired ?ob) s)) {#}"
    by (cases "io_device_slot ?ob") (simp_all add: return_device_balance)
  then have d: "device_balance (retire_image h s) {#}"
    by (cases "io_device_slot ?ob")
      (simp_all add: device_balance_def retire_image_def retired_def set_object_def return_device_slot_def Let_def)
  have "host_balance (set_object (ih_index h) (retired ?ob) s) {#}"
    by (rule set_object_host_balance [OF _ idx]) (use l in \<open>simp_all add: held loose_def\<close>)
  then have "host_balance (retire_image h s) {#}"
    by (simp add: host_balance_def retire_image_fields split: option.splits)
  then show ?thesis
    using d retire_object_balance [OF _ idx f] l by (simp add: loose_def)
qed

lemma drop_host_slot_loose:
  assumes l: "loose s {#} {#}" and idx: "ih_index h < length (ss_objects s)"
    and h: "io_host_slot (object_of s h) \<noteq> None"
  shows "fst (drop_host_slot h s)" and "loose (snd (drop_host_slot h s)) {#} {#}"
    and "ss_objects (snd (drop_host_slot h s)) = (ss_objects s)[ih_index h := (object_of s h)\<lparr>io_host_slot := None\<rparr>]"
    and "ss_id (snd (drop_host_slot h s)) = ss_id s"
    and "ss_device_data (snd (drop_host_slot h s)) = ss_device_data s"
proof -
  obtain hs where hs: "io_host_slot (object_of s h) = Some hs" using h by (cases "io_host_slot (object_of s h)") simp_all
  let ?ob = "(object_of s h)\<lparr>io_host_slot := None\<rparr>"
  let ?t = "set_object (ih_index h) ?ob s"
  have l: "loose ?t {#} {#hs#}" by (rule loose_set_object [OF l idx]) (simp_all add: held_defs hs)
  note r = loose_host_release [OF l]
  have swap: "snd (host_release_slot hs ?t) = set_object (ih_index h) ?ob (snd (host_release_slot hs s))"
    "fst (host_release_slot hs ?t) = fst (host_release_slot hs s)"
    by (simp_all add: host_release_slot_def set_object_def split: option.split prod.split)
  obtain s1 where s1: "host_release_slot hs s = (True, s1)"
    using r(1) swap(2) by (cases "host_release_slot hs s") simp
  have "ss_objects s1 = ss_objects s" using host_release_slot_fields(1) [of hs s] by (simp add: s1)
  then have e: "drop_host_slot h s = (True, set_object (ih_index h) ?ob (snd (host_release_slot hs s)))"
    by (simp add: drop_host_slot_def hs modify_image_def s1)
  show "fst (drop_host_slot h s)" "ss_id (snd (drop_host_slot h s)) = ss_id s"
    "ss_device_data (snd (drop_host_slot h s)) = ss_device_data s"
    "ss_objects (snd (drop_host_slot h s)) = (ss_objects s)[ih_index h := ?ob]"
    by (simp_all add: e)
  show "loose (snd (drop_host_slot h s)) {#} {#}" using r(2) swap(1) by (simp add: e)
qed

lemma drop_host_slot_ok:
  assumes ok: "store_ok s C" and v: "image_valid s h" and i: "idle (object_of s h)"
    and h: "io_host_slot (object_of s h) \<noteq> None" and d: "io_device_slot (object_of s h) \<noteq> None"
  shows "store_ok (snd (drop_host_slot h s)) C"
proof -
  note drop = drop_host_slot_loose [OF store_ok_loose [OF ok] valid_index [OF v] h]
  show ?thesis
    by (rule idle_update [OF ok v i drop(2,4,3)])
      (use i d valid_role_ok [OF ok v] in \<open>auto simp: role_ok_def idle_iff split: state_image_role.splits\<close>)
qed

lemma release_image_host:
  "io_host_slot (object_of s h) \<noteq> None \<Longrightarrow> can_release_image s h \<Longrightarrow>
    release_image h s =
      (case drop_host_slot h s of (True, s1) \<Rightarrow> (True, retire_image h s1) | (False, s1) \<Rightarrow> (False, s1))"
  by (auto simp: release_image_def drop_host_slot_def modify_image_def split: option.split prod.split bool.split)

lemma release_image_ok:
  assumes ok: "store_ok s C"
  shows "store_ok (snd (release_image h s)) C" and "fst (release_image h s) = can_release_image s h"
proof -
  have "store_ok (snd (release_image h s)) C \<and> fst (release_image h s) = can_release_image s h"
  proof (cases "can_release_image s h")
    case True
    then have v: "image_valid s h" and i: "idle (object_of s h)" and r: "io_checkpoint_references (object_of s h) = 0"
      by (simp_all add: can_release_image_def idle_def)
    note idx = valid_index [OF v] and f = valid_not_free [OF v]
    have dn: "store_ok (retire_image h t) C"
      if t: "loose t {#} {#}" "ss_id t = ss_id s" "ss_objects t = (ss_objects s)[ih_index h := (object_of s h)\<lparr>io_host_slot := None\<rparr>]" for t
      by (rule idle_update [OF ok v i retire_loose [OF t(1)],
            where ob = "retired ((object_of s h)\<lparr>io_host_slot := None\<rparr>)"])
        (use idx f i r in \<open>simp_all add: t retire_image_fields idle_iff retired_def role_ok_def\<close>)
    show ?thesis
    proof (cases "io_host_slot (object_of s h)")
      case None
      then have "(object_of s h)\<lparr>io_host_slot := None\<rparr> = object_of s h" by simp
      then have "store_ok (retire_image h s) C" using dn [OF store_ok_loose [OF ok]] by simp
      with None True show ?thesis by (simp add: release_image_def)
    next
      case (Some hs)
      then have h: "io_host_slot (object_of s h) \<noteq> None" by simp
      note drop = drop_host_slot_loose [OF store_ok_loose [OF ok] idx h]
      then show ?thesis
        using dn [OF drop(2,4,3)] True
        by (cases "drop_host_slot h s") (simp add: release_image_host [OF h True])
    qed
  next
    case False
    then show ?thesis using ok by (simp add: release_image_def)
  qed
  then show "store_ok (snd (release_image h s)) C" "fst (release_image h s) = can_release_image s h" by simp_all
qed

section \<open>Operations on one image\<close>

lemma idle_modify_ok:
  assumes ok: "store_ok s C" and v: "image_valid s h" and i: "idle (object_of s h)"
    and f: "idle (f (object_of s h))" "role_ok (f (object_of s h))" "io_role (f (object_of s h)) \<noteq> ImageFree"
    and held: "device_held (f (object_of s h)) = device_held (object_of s h)"
      "host_held (f (object_of s h)) = host_held (object_of s h)"
  shows "store_ok (modify_image h f s) C"
proof (rule idle_update [OF ok v i _ _ _ f(1,2)])
  show "loose (modify_image h f s) {#} {#}"
    by (rule loose_modify_image [OF store_ok_loose [OF ok] valid_index [OF v]])
      (use f(3) held valid_not_free [OF v] in simp_all)
qed simp_all

text \<open>Fields that the invariant does not look at.\<close>

lemma claims_ignore [simp]:
  "transfer_ok ident (ob\<lparr>io_content_epoch := e\<rparr>) t = transfer_ok ident ob t"
  "transfer_ok ident (ob\<lparr>io_checkpoint_references := n\<rparr>) t = transfer_ok ident ob t"
  by (cases "it_direction t"; simp add: transfer_ok_def)+

lemma pending_ignore [simp]:
  "has_pending_replica (ob\<lparr>io_content_epoch := e\<rparr>) = has_pending_replica ob"
  "has_pending_replica (ob\<lparr>io_checkpoint_references := n\<rparr>) = has_pending_replica ob"
  by (simp_all add: has_pending_replica_def)

lemma ends_ignore [simp]:
  "reader_ok ident i (ob\<lparr>io_content_epoch := e\<rparr>) c = reader_ok ident i ob c"
  "reader_ok ident i (ob\<lparr>io_checkpoint_references := n\<rparr>) c = reader_ok ident i ob c"
  "writer_ok ident i (ob\<lparr>io_content_epoch := e\<rparr>) c = writer_ok ident i ob c"
  "writer_ok ident i (ob\<lparr>io_checkpoint_references := n\<rparr>) c = writer_ok ident i ob c"
  by (cases c; simp add: reader_ok_def writer_ok_def)+

lemma index_ok_epoch [simp]:
  "index_ok ident i (ob\<lparr>io_content_epoch := e\<rparr>) R W = index_ok ident i ob R W"
  by (cases "io_role ob") (simp_all add: index_ok_def role_ok_def idle_iff)

lemma index_ok_references:
  "index_ok ident i ob R W \<Longrightarrow> io_role ob = CheckpointImmutable \<Longrightarrow> n \<le> uint32_max \<Longrightarrow>
    index_ok ident i (ob\<lparr>io_checkpoint_references := n\<rparr>) R W"
  by (simp add: index_ok_def role_ok_def)

lemma index_ok_references_bound: "index_ok ident i ob R W \<Longrightarrow> io_checkpoint_references ob \<le> uint32_max"
  by (simp add: index_ok_def role_ok_def)

lemma modify_ok:
  assumes ok: "store_ok s C" and v: "image_valid s h"
    and f: "\<And>R W. index_ok (ss_id s) (ih_index h) (object_of s h) R W \<Longrightarrow>
      index_ok (ss_id s) (ih_index h) (f (object_of s h)) R W"
    and r: "io_role (f (object_of s h)) \<noteq> ImageFree"
    and held: "device_held (f (object_of s h)) = device_held (object_of s h)"
      "host_held (f (object_of s h)) = host_held (object_of s h)"
  shows "store_ok (modify_image h f s) C"
proof (rule store_okI)
  show "loose (modify_image h f s) {#} {#}"
    by (rule loose_modify_image [OF store_ok_loose [OF ok] valid_index [OF v]])
      (use r held valid_not_free [OF v] in simp_all)
  show "claims_ok (ss_id (modify_image h f s)) (ss_objects (modify_image h f s)) C"
    using claims_update [OF store_ok_claims [OF ok] valid_index [OF v]
        f [OF claims_at [OF store_ok_claims [OF ok] valid_index [OF v]]]] by simp
qed

lemma next_epoch_ok: "store_ok s C \<Longrightarrow> store_ok (snd (next_epoch s)) C"
  by (simp add: store_ok_def)

lemma write_device_ok: "store_ok s C \<Longrightarrow> store_ok (write_device d x s) C"
  by (simp add: store_ok_def)

lemma set_epoch_ok:
  assumes "store_ok s C" and "image_valid s h"
  shows "store_ok (set_epoch h s) C"
  unfolding set_epoch_def case_prod_beta Let_def
  by (rule modify_ok [OF next_epoch_ok [OF assms(1)]])
    (use assms(2) valid_not_free [OF assms(2)] in \<open>simp_all add: held_defs valid_cong [of "snd (next_epoch s)" s]\<close>)

lemma zero_slot_cases:
  obtains "fault = None" "zero_slot fault d s = (Inr (), write_device d (ss_zero s) s)"
  | x where "fault = Some x" "zero_slot fault d s = (Inl cuda_error, write_device d x s)"
  by (cases fault) (simp_all add: zero_slot_def)

lemma reserve_reset_ok:
  assumes "store_ok s C"
  shows "store_ok (snd (reserve_reset fault s)) C"
proof (cases "allocate_image ActiveMutable True s")
  case (Pair oh t)
  show ?thesis
  proof (cases oh)
    case None
    then show ?thesis using Pair allocate_image_none [of ActiveMutable True s t] assms by (simp add: reserve_reset_def)
  next
    case (Some h)
    then obtain slot where t: "store_ok t C" "image_valid t h"
      using Pair allocate_image_ok [OF assms, of ActiveMutable True h t] by auto
    have v: "image_valid (write_device d x t) h" for d x
      using t(2) by (simp add: valid_cong [of "write_device d x t" t])
    show ?thesis
      by (rule zero_slot_cases [of fault "the (io_device_slot (object_of t h))" t])
        (simp_all add: reserve_reset_def Pair Some set_epoch_ok write_device_ok release_image_ok(1) t v)
  qed
qed

lemma activate_reset_ok:
  assumes "store_ok s C"
  shows "store_ok (snd (activate_reset fault h s)) C"
  unfolding activate_reset_def
proof (rule with_image_snd [where P = "\<lambda>t. store_ok t C", OF assms], goal_cases)
  case 1
  let ?ob = "object_of s h" and ?d = "the (io_device_slot (object_of s h))"
  show ?case
  proof (cases "io_role ?ob \<noteq> ReservedDestination \<or> io_device_slot ?ob = None \<or> \<not> idle ?ob")
    case False
    let ?w = "write_device ?d (ss_zero s) s"
    have w: "store_ok (snd (next_epoch ?w)) C" "image_valid (snd (next_epoch ?w)) h"
      using 1 by (simp_all add: next_epoch_ok write_device_ok assms valid_cong [of "snd (next_epoch ?w)" s])
    have "store_ok (set_role h ActiveMutable (set_epoch h ?w)) C"
      unfolding set_role_epoch [of h ?w, simplified, OF valid_index [OF 1]]
      by (rule idle_modify_ok [OF w])
        (use False valid_role_ok [OF assms 1] in \<open>simp_all add: idle_iff role_ok_def held_defs\<close>)
    then show ?thesis
      by (rule_tac zero_slot_cases [of fault ?d s])
        (use False in \<open>simp_all add: write_device_ok assms\<close>)
  qed (use assms in simp)
qed

lemma retain_checkpoint_reference_ok:
  assumes "store_ok s C"
  shows "store_ok (snd (retain_checkpoint_reference h s)) C"
  unfolding retain_checkpoint_reference_def
proof (rule with_image_snd [where P = "\<lambda>t. store_ok t C", OF assms], goal_cases)
  case 1
  show ?case
  proof (cases "io_role (object_of s h) \<noteq> CheckpointImmutable \<or> io_checkpoint_references (object_of s h) = uint32_max")
    case False
    have "store_ok (modify_image h (\<lambda>ob. ob\<lparr>io_checkpoint_references := io_checkpoint_references ob + 1\<rparr>) s) C"
      by (rule modify_ok [OF assms 1])
        (use False index_ok_references_bound in \<open>fastforce simp: held_defs intro: index_ok_references\<close>)+
    then show ?thesis using False by simp
  qed (use assms in simp)
qed

lemma release_checkpoint_reference_ok:
  assumes "store_ok s C"
  shows "store_ok (snd (release_checkpoint_reference h s)) C"
  unfolding release_checkpoint_reference_def
proof (rule with_image_snd [where P = "\<lambda>t. store_ok t C", OF assms], goal_cases)
  case 1
  show ?case
  proof (cases "io_role (object_of s h) \<noteq> CheckpointImmutable \<or> io_checkpoint_references (object_of s h) = 0")
    case False
    have "store_ok (modify_image h (\<lambda>ob. ob\<lparr>io_checkpoint_references := io_checkpoint_references ob - 1\<rparr>) s) C"
      by (rule modify_ok [OF assms 1])
        (use False index_ok_references_bound in \<open>fastforce simp: held_defs intro: index_ok_references\<close>)+
    then show ?thesis using False by simp
  qed (use assms in simp)
qed

lemma set_role_idle_ok:
  assumes "store_ok s C" and "image_valid s h" and "idle (object_of s h)"
    and "role_ok ((object_of s h)\<lparr>io_role := r\<rparr>)" and "r \<noteq> ImageFree"
  shows "store_ok (set_role h r s) C"
  unfolding set_role_def
  by (rule idle_modify_ok [OF assms(1-3)]) (use assms(3-5) in \<open>simp_all add: idle_iff held_defs\<close>)

lemma freeze_ok:
  assumes "store_ok s C"
  shows "store_ok (snd (freeze h s)) C"
  unfolding freeze_def
proof (rule with_image_snd [where P = "\<lambda>t. store_ok t C", OF assms], goal_cases)
  case 1
  let ?ob = "object_of s h"
  show ?case
  proof (cases "io_role ?ob \<noteq> ActiveMutable \<or> io_device_slot ?ob = None \<or> \<not> idle ?ob")
    case False
    have w: "store_ok (snd (next_epoch s)) C" "image_valid (snd (next_epoch s)) h"
      using 1 by (simp_all add: next_epoch_ok assms valid_cong [of "snd (next_epoch s)" s])
    have "store_ok (set_role h CheckpointImmutable (set_epoch h s)) C"
      unfolding set_role_epoch [of h s, OF valid_index [OF 1]]
      by (rule idle_modify_ok [OF w])
        (use False valid_role_ok [OF assms 1] in \<open>simp_all add: idle_iff role_ok_def held_defs\<close>)
    then show ?thesis using False by simp
  qed (use assms in simp)
qed

text \<open>
  \<open>thaw\<close> does not look at the Host replica. An image that has one would be active with a replica that
  the next execution does not update; the invariant asks of the caller that there is none.
\<close>

lemma thaw_ok:
  assumes "store_ok s C" and "io_host_slot (object_of s h) = None"
  shows "store_ok (snd (thaw h s)) C"
  unfolding thaw_def
proof (rule with_image_snd [where P = "\<lambda>t. store_ok t C", OF assms(1)], goal_cases)
  case 1
  let ?ob = "object_of s h"
  show ?case
  proof (cases "io_role ?ob \<noteq> CheckpointImmutable \<or> io_device_slot ?ob = None \<or>
      io_checkpoint_references ?ob \<noteq> 0 \<or> \<not> idle ?ob")
    case False
    have "store_ok (set_role h ActiveMutable s) C"
      by (rule set_role_idle_ok [OF assms(1) 1])
        (use False assms(2) valid_role_ok [OF assms(1) 1] in \<open>simp_all add: idle_iff role_ok_def\<close>)
    then show ?thesis using False by simp
  qed (use assms in simp)
qed

lemma move_checkpoint_to_active_ok:
  assumes "store_ok s C"
  shows "store_ok (snd (move_checkpoint_to_active h s)) C"
  unfolding move_checkpoint_to_active_def
proof (rule with_image_snd [where P = "\<lambda>t. store_ok t C", OF assms], goal_cases)
  case 1
  let ?ob = "object_of s h"
  show ?case
  proof (cases "io_role ?ob \<noteq> CheckpointImmutable \<or> io_device_slot ?ob = None \<or>
      io_checkpoint_references ?ob \<noteq> 0 \<or> \<not> idle ?ob")
    case False
    note r = valid_role_ok [OF assms 1] valid_index [OF 1]
    show ?thesis
    proof (cases "io_host_slot ?ob")
      case None
      have "store_ok (set_role h ActiveMutable s) C"
        by (rule set_role_idle_ok [OF assms 1]) (use False None r in \<open>simp_all add: idle_iff role_ok_def\<close>)
      then show ?thesis using False None by simp
    next
      case (Some hs)
      then have h: "io_host_slot ?ob \<noteq> None" by simp
      have d: "io_device_slot ?ob \<noteq> None" "idle ?ob" using False by simp_all
      note drop = drop_host_slot_loose [OF store_ok_loose [OF assms] r(2) h]
      obtain s1 where s1: "drop_host_slot h s = (True, s1)" using drop(1) by (cases "drop_host_slot h s") simp
      have ok1: "store_ok s1 C" using drop_host_slot_ok [OF assms 1 d(2) h d(1)] by (simp add: s1)
      have o1: "object_of s1 h = ?ob\<lparr>io_host_slot := None\<rparr>" using drop(3) r(2) by (simp add: s1)
      have v1: "image_valid s1 h" using 1 drop(3,4) by (simp add: s1 image_valid_def)
      have "store_ok (set_role h ActiveMutable s1) C"
        by (rule set_role_idle_ok [OF ok1 v1]) (use False r in \<open>simp_all add: o1 idle_iff role_ok_def\<close>)
      then show ?thesis using False Some by (simp add: s1)
    qed
  qed (use assms in simp)
qed

lemma drop_device_slot_loose:
  assumes l: "loose s L H" and idx: "ih_index h < length (ss_objects s)"
    and d: "io_device_slot (object_of s h) = Some d"
  shows "loose (drop_device_slot h s) L H"
proof -
  let ?f = "\<lambda>ob. ob\<lparr>io_device_slot := None\<rparr>"
  have "loose (modify_image h ?f s) (add_mset d L) H"
    by (rule loose_modify_image [OF l idx]) (simp_all add: held_defs d)
  then have "loose (return_device_slot d (modify_image h ?f s)) L H" by (rule loose_return_device)
  also have "return_device_slot d (modify_image h ?f s) = drop_device_slot h s"
    by (simp add: drop_device_slot_def modify_image_def set_object_def return_device_slot_def d)
  finally show ?thesis .
qed

lemma drop_device_slot_fields [simp]:
  "ss_objects (drop_device_slot h s) = (ss_objects s)[ih_index h := (object_of s h)\<lparr>io_device_slot := None\<rparr>]"
  "ss_id (drop_device_slot h s) = ss_id s" "ss_host (drop_device_slot h s) = ss_host s"
  "ss_device_data (drop_device_slot h s) = ss_device_data s"
  by (simp_all add: drop_device_slot_def)

lemma drop_device_replica_ok:
  assumes "store_ok s C"
  shows "store_ok (snd (drop_device_replica h s)) C"
proof (cases "fst (drop_device_replica h s)")
  case True
  let ?ob = "object_of s h"
  have v: "image_valid s h" and i: "idle ?ob" and h: "io_host_slot ?ob \<noteq> None" "io_role ?ob = CheckpointImmutable"
    and e: "snd (drop_device_replica h s) = drop_device_slot h s"
    using True by (auto simp: drop_device_replica_def Let_def split: if_splits)
  obtain d where d: "io_device_slot ?ob = Some d"
    using True by (cases "io_device_slot ?ob") (auto simp: drop_device_replica_def Let_def split: if_splits)
  show ?thesis
    unfolding e
    by (rule idle_update [OF assms v i drop_device_slot_loose [OF store_ok_loose [OF assms] valid_index [OF v] d]
          drop_device_slot_fields(2,1)])
      (use i h valid_role_ok [OF assms v] in \<open>simp_all add: idle_iff role_ok_def\<close>)
qed (use assms in \<open>auto simp: drop_device_replica_def Let_def split: if_splits\<close>)

lemma drop_host_replica_ok:
  assumes "store_ok s C"
  shows "store_ok (snd (drop_host_replica h s)) C"
  using assms drop_host_slot_ok [OF assms, of h] by (simp add: drop_host_replica_def Let_def)

lemma recycle_checkpoint_destination_ok:
  assumes "store_ok s C"
  shows "store_ok (snd (recycle_checkpoint_destination h s)) C"
proof (cases "can_recycle_checkpoint_destination s h")
  case True
  then have v: "image_valid s h" and i: "idle (object_of s h)" and h: "io_host_slot (object_of s h) = None"
    by (simp_all add: can_recycle_checkpoint_destination_def)
  have "store_ok (modify_image h (\<lambda>ob. ob\<lparr>io_checkpoint_references := 0, io_role := ReservedDestination\<rparr>) s) C"
    by (rule idle_modify_ok [OF assms v i])
      (use i h valid_role_ok [OF assms v] in \<open>simp_all add: idle_iff role_ok_def held_defs\<close>)
  then show ?thesis using True by (simp add: recycle_checkpoint_destination_def)
qed (use assms in \<open>simp add: recycle_checkpoint_destination_def\<close>)

lemma restore_recycled_checkpoint_ok:
  assumes "store_ok s C"
  shows "store_ok (snd (restore_recycled_checkpoint h e s)) C"
  unfolding restore_recycled_checkpoint_def
proof (rule with_image_snd [where P = "\<lambda>t. store_ok t C", OF assms], goal_cases)
  case 1
  let ?ob = "object_of s h"
  show ?case
  proof (cases "e = 0 \<or> io_role ?ob \<noteq> ReservedDestination \<or> io_device_slot ?ob = None \<or> io_host_slot ?ob \<noteq> None \<or>
      io_checkpoint_references ?ob \<noteq> 0 \<or> \<not> idle ?ob")
    case False
    have "store_ok (modify_image h (\<lambda>ob. ob\<lparr>io_content_epoch := e, io_checkpoint_references := 1,
        io_role := CheckpointImmutable\<rparr>) s) C"
      by (rule idle_modify_ok [OF assms 1])
        (use False valid_role_ok [OF assms 1] in \<open>simp_all add: idle_iff role_ok_def held_defs\<close>)
    then show ?thesis using False by (simp)
  qed (use assms in simp)
qed

end
