(* ===== verification/StateForks.thy ===== *)
theory StateForks
  imports StateSystem
begin

text \<open>
  Operations on two images and the claims they leave behind: identity splits, forks, and the transfers
  between the two memories.
\<close>

declare not_None_eq [iff del]

section \<open>Pins\<close>

lemma pins_ignore [simp]:
  "transfer_ok ident (ob\<lparr>io_source_pins := n\<rparr>) t = transfer_ok ident ob t"
  "has_pending_replica (ob\<lparr>io_source_pins := n\<rparr>) = has_pending_replica ob"
  "reader_ok ident i (ob\<lparr>io_source_pins := n\<rparr>) c = reader_ok ident i ob c"
  "writer_ok ident i (ob\<lparr>io_source_pins := n\<rparr>) c = writer_ok ident i ob c"
proof -
  show t: "transfer_ok ident (ob\<lparr>io_source_pins := n\<rparr>) t = transfer_ok ident ob t" for t
    by (cases "it_direction t") (simp_all add: transfer_ok_def)
  show p: "has_pending_replica (ob\<lparr>io_source_pins := n\<rparr>) = has_pending_replica ob"
    by (simp add: has_pending_replica_def)
  show "reader_ok ident i (ob\<lparr>io_source_pins := n\<rparr>) c = reader_ok ident i ob c"
    by (cases c) (simp_all add: reader_ok_def)
  show "writer_ok ident i (ob\<lparr>io_source_pins := n\<rparr>) c = writer_ok ident i ob c"
    by (cases c) (simp_all add: writer_ok_def t p)
qed

lemma pin_index:
  assumes "index_ok ident i ob R W" and "io_source_pins ob \<noteq> uint32_max" and "reader_ok ident i ob c"
  shows "index_ok ident i (ob\<lparr>io_source_pins := u32_add (io_source_pins ob) 1\<rparr>) (add_mset c R) W"
proof -
  have p: "io_source_pins ob < uint32_max" and r: "io_role ob = CheckpointImmutable"
    using assms by (auto simp: index_ok_def role_ok_def reader_ok_def)
  then have "u32_add (io_source_pins ob) 1 = Suc (io_source_pins ob)" by (simp add: u32_add_small)
  then show ?thesis using assms(1,3) p r by (simp add: index_ok_def role_ok_def)
qed

lemma unpin_index:
  assumes "index_ok ident i ob (add_mset c R) W"
  shows "index_ok ident i (ob\<lparr>io_source_pins := u32_sub (io_source_pins ob) 1\<rparr>) R W"
proof -
  have p: "io_source_pins ob = Suc (size R)" "io_source_pins ob \<le> uint32_max" and r: "io_role ob = CheckpointImmutable"
    using assms by (auto simp: index_ok_def role_ok_def reader_ok_def)
  then have "u32_sub (io_source_pins ob) 1 = size R" by (simp add: u32_sub_small)
  then show ?thesis using assms p r by (simp add: index_ok_def role_ok_def)
qed

lemma pin_held [simp]:
  "device_held (ob\<lparr>io_source_pins := n\<rparr>) = device_held ob" "host_held (ob\<lparr>io_source_pins := n\<rparr>) = host_held ob"
  by (simp_all add: held_defs)

lemma pin_source_fields [simp]:
  "ss_objects (pin_source h s) = (ss_objects s)[ih_index h :=
     (object_of s h)\<lparr>io_source_pins := u32_add (io_source_pins (object_of s h)) 1\<rparr>]"
  "ss_id (pin_source h s) = ss_id s" "ss_host (pin_source h s) = ss_host s"
  "ss_device_data (pin_source h s) = ss_device_data s"
  by (simp_all add: pin_source_def)

lemma unpin_source_fields [simp]:
  "ss_objects (unpin_source h s) = (ss_objects s)[ih_index h :=
     (object_of s h)\<lparr>io_source_pins := u32_sub (io_source_pins (object_of s h)) 1\<rparr>]"
  "ss_id (unpin_source h s) = ss_id s" "ss_host (unpin_source h s) = ss_host s"
  "ss_device_data (unpin_source h s) = ss_device_data s"
  by (simp_all add: unpin_source_def)

lemma loose_pin [simp]:
  "ih_index h < length (ss_objects s) \<Longrightarrow> loose s L H \<Longrightarrow> loose (pin_source h s) L H"
  "ih_index h < length (ss_objects s) \<Longrightarrow> loose s L H \<Longrightarrow> loose (unpin_source h s) L H"
  unfolding pin_source_def unpin_source_def by (rule loose_modify_image; simp add: held_defs)+

section \<open>Forks\<close>

lemma two_idle_update:
  assumes ok: "store_ok s C" and a: "image_valid s a" "idle (object_of s a)"
    and b: "image_valid s b" "idle (object_of s b)" and ne: "a \<noteq> b"
    and t: "loose t {#} {#}" "ss_id t = ss_id s" "ss_objects t = (ss_objects s)[ih_index a := oa, ih_index b := ob]"
    and oa: "idle oa" "role_ok oa" and ob: "idle ob" "role_ok ob"
  shows "store_ok t C"
proof -
  note cl = store_ok_claims [OF ok] and ia = valid_index [OF a(1)] and ib = valid_index [OF b(1)]
  have n: "ih_index a \<noteq> ih_index b" using ne valid_same_index [OF a(1) b(1)] by blast
  have "index_ok (ss_id s) (ih_index a) oa (readers C (ih_index a)) (writers C (ih_index a))"
    using claims_at [OF cl ia] a(2) oa by (simp add: idle_index_ok)
  then have cl1: "claims_ok (ss_id s) ((ss_objects s)[ih_index a := oa]) C" by (rule claims_update [OF cl ia])
  have "index_ok (ss_id s) (ih_index b) ob (readers C (ih_index b)) (writers C (ih_index b))"
    using claims_at [OF cl ib] b(2) ob by (simp add: idle_index_ok)
  then have "claims_ok (ss_id s) ((ss_objects s)[ih_index a := oa, ih_index b := ob]) C"
    using claims_update [OF cl1, of "ih_index b" ob] by (simp add: ib)
  then show ?thesis using t by (simp add: store_ok_def)
qed

lemma split_device_replica_identity_ok:
  assumes ok: "store_ok s C"
  shows "store_ok (snd (split_device_replica_identity a b s)) C"
  unfolding split_device_replica_identity_def
proof (rule with_images_snd [where P = "\<lambda>t. store_ok t C", OF ok], goal_cases)
  case 1
  let ?sob = "object_of s a" and ?dob = "object_of s b"
  let ?f = "\<lambda>ob. ob\<lparr>io_device_slot := io_device_slot ?sob, io_content_epoch := io_content_epoch ?sob,
    io_role := ActiveMutable\<rparr>" and ?g = "\<lambda>ob. ob\<lparr>io_device_slot := None\<rparr>"
  show ?case
  proof (cases "a = b \<or> io_role ?sob \<noteq> CheckpointImmutable \<or> io_device_slot ?sob = None \<or> io_host_slot ?sob = None \<or>
      \<not> idle ?sob \<or> \<not> vacant ?dob")
    case False
    then have ne: "a \<noteq> b" and i: "idle ?sob" and vac: "vacant ?dob" and h: "io_host_slot ?sob \<noteq> None" by simp_all
    have n: "ih_index a \<noteq> ih_index b" using ne valid_same_index [OF 1] by blast
    obtain d where d: "io_device_slot ?sob = Some d" using False by (cases "io_device_slot ?sob") simp_all
    note ia = valid_index [OF 1(1)] and ib = valid_index [OF 1(2)]
    have "loose (modify_image a ?g s) {#d#} {#}"
      by (rule loose_modify_image [OF store_ok_loose [OF ok] ia]) (simp_all add: held_defs d)
    then have "loose (modify_image b ?f (modify_image a ?g s)) {#} {#}"
      by (rule loose_modify_image)
        (use ib n vac valid_not_free [OF 1(2)] in \<open>simp_all add: held_defs vacant_def idle_iff d\<close>)
    also have "modify_image b ?f (modify_image a ?g s) = modify_image a ?g (modify_image b ?f s)"
      using n by (simp add: modify_image_def set_object_def list_update_swap)
    finally have l: "loose (modify_image a ?g (modify_image b ?f s)) {#} {#}" .
    have "store_ok (modify_image a ?g (modify_image b ?f s)) C"
      by (rule two_idle_update [OF ok 1(1) i 1(2) _ ne l, where oa = "?g ?sob" and ob = "?f ?dob"])
        (use vac i h d valid_role_ok [OF ok 1(1)] valid_role_ok [OF ok 1(2)] n False
          in \<open>simp_all add: vacant_def idle_iff role_ok_def list_update_swap [OF n]\<close>)
    then show ?thesis using False by simp
  qed (use ok in simp)
qed

lemma begin_fork_ok:
  assumes ok: "store_ok s C"
  shows "store_ok (snd (begin_fork a b s))
    (if isl (fst (begin_fork a b s)) then C else add_mset (ForkClaim a b) C)"
proof (cases "isl (fst (begin_fork a b s))")
  case True
  then have "snd (begin_fork a b s) = s"
    by (auto simp: begin_fork_def with_images_def with_image_def require_image_def split: if_splits)
  with True show ?thesis using ok by simp
next
  case False
  let ?sob = "object_of s a" and ?dob = "object_of s b"
  let ?sob' = "?sob\<lparr>io_source_pins := u32_add (io_source_pins ?sob) 1\<rparr>"
  let ?f = "\<lambda>ob. ob\<lparr>io_destination_pinned := True, io_role := ActiveMutable, io_content_epoch := io_content_epoch ?sob\<rparr>"
  have v: "image_valid s a" "image_valid s b" and ne: "a \<noteq> b" and r: "io_role ?sob = CheckpointImmutable"
      "io_device_slot ?sob \<noteq> None" "io_source_pins ?sob \<noteq> uint32_max" "io_role ?dob = ReservedDestination"
      "io_device_slot ?dob \<noteq> None" "idle ?dob"
    and e: "snd (begin_fork a b s) = modify_image b ?f (pin_source a s)"
    using False
    by (auto simp: begin_fork_def with_images_def with_image_def require_image_def split: if_splits)
  note cl = store_ok_claims [OF ok] and ia = valid_index [OF v(1)] and ib = valid_index [OF v(2)]
  have n: "ih_index a \<noteq> ih_index b" using ne valid_same_index [OF v] by blast
  have at: "index_ok (ss_id s) (ih_index a) ?sob' (add_mset (ForkClaim a b) (readers C (ih_index a))) (writers C (ih_index a))"
    by (rule pin_index [OF claims_at [OF cl ia] r(3)]) (use v(1) r in \<open>simp add: reader_ok_def valid_handle_at\<close>)
  have dst: "index_ok (ss_id s) (ih_index b) (?f ?dob) (readers C (ih_index b)) (add_mset (ForkClaim a b) (writers C (ih_index b)))"
  proof -
    have "readers C (ih_index b) = {#}" "writers C (ih_index b) = {#}"
      using claims_at [OF cl ib] r(6) by (simp_all add: idle_index_ok)
    then show ?thesis
      using r v(2) valid_role_ok [OF ok v(2)]
      by (auto simp: index_ok_def writer_ok_def valid_handle_at role_ok_def idle_iff pending_iff)
  qed
  have "loose (modify_image b ?f (pin_source a s)) {#} {#}"
    by (rule loose_modify_image) (use ok ia ib n r in \<open>simp_all add: store_ok_loose held_defs\<close>)
  then have "store_ok (modify_image b ?f (pin_source a s)) (add_mset (ForkClaim a b) C)"
    using claims_begin [OF cl _ _ ia ib n at dst] n by (simp add: store_ok_def)
  with False e show ?thesis by simp
qed

text \<open>A live fork can always be committed and aborted.\<close>

lemma fork_live:
  assumes "store_ok s C" and "ForkClaim a b \<in># C"
  shows "image_valid s a" "image_valid s b" "a \<noteq> b" "io_role (object_of s a) = CheckpointImmutable"
    "io_device_slot (object_of s a) \<noteq> None" "io_source_pins (object_of s a) \<noteq> 0"
    "io_role (object_of s b) = ActiveMutable" "io_device_slot (object_of s b) \<noteq> None"
    "io_destination_pinned (object_of s b)"
proof -
  note cl = store_ok_claims [OF assms(1)]
  note live = claim_live [OF cl assms(2), simplified]
  show "io_role (object_of s a) = CheckpointImmutable" "io_device_slot (object_of s a) \<noteq> None"
    "io_role (object_of s b) = ActiveMutable" "io_device_slot (object_of s b) \<noteq> None"
    "io_destination_pinned (object_of s b)"
    using live(3,4) by (simp_all add: reader_ok_def writer_ok_def)
  then show "image_valid s a" "image_valid s b" "a \<noteq> b"
    using live by (auto simp: valid_handle_at reader_ok_def writer_ok_def)
  have "ForkClaim a b \<in># readers C (ih_index a)" using assms(2) by (simp add: readers_def)
  then have "size (readers C (ih_index a)) \<noteq> 0" by (metis empty_iff set_mset_empty size_eq_0_iff_empty)
  then show "io_source_pins (object_of s a) \<noteq> 0"
    using claims_at [OF cl live(1)] by (simp add: index_ok_def)
qed

lemma end_fork_ok:
  assumes ok: "store_ok s (add_mset (ForkClaim a b) C)"
    and f: "f (object_of s b) = (object_of s b)\<lparr>io_destination_pinned := False\<rparr> \<or>
      f (object_of s b) = (object_of s b)\<lparr>io_destination_pinned := False, io_role := ReservedDestination, io_content_epoch := 0\<rparr>"
  shows "store_ok (modify_image b f (unpin_source a s)) C"
proof -
  note cl = store_ok_claims [OF ok] and live = fork_live [OF ok, of a b, simplified]
  note ia = valid_index [OF live(1)] and ib = valid_index [OF live(2)]
  have n: "ih_index a \<noteq> ih_index b" using live(3) valid_same_index [OF live(1,2)] by blast
  have "index_ok (ss_id s) (ih_index a) (object_of s a) (add_mset (ForkClaim a b) (readers C (ih_index a))) (writers C (ih_index a))"
    using claims_at [OF cl ia] n by simp
  note src = unpin_index [OF this]
  note dest = dest_index [OF cl, of "ih_index b", simplified]
  have "readers C (ih_index b) = {#}"
    using claims_at [OF cl ib] n live(7) by (auto simp: index_ok_def reader_ok_def)
  moreover have "role_ok (f (object_of s b))" "\<not> io_destination_pinned (f (object_of s b))"
      "\<not> has_pending_replica (f (object_of s b))" "io_source_pins (f (object_of s b)) = 0"
      "io_role (f (object_of s b)) \<noteq> ImageFree"
    using f dest live(7) by (auto simp: role_ok_def writer_ok_def pending_iff idle_iff)
  ultimately have dst: "index_ok (ss_id s) (ih_index b) (f (object_of s b)) (readers C (ih_index b)) (writers C (ih_index b))"
    using dest(2) by (simp add: index_ok_def)
  have "loose (modify_image b f (unpin_source a s)) {#} {#}"
    by (rule loose_modify_image) (use f ok ia ib n live(7) in \<open>auto simp: store_ok_loose held_defs\<close>)
  then show ?thesis
    using claims_end [OF cl _ _ n src dst] n by (simp add: store_ok_def)
qed

lemma commit_fork_live:
  assumes ok: "store_ok s (add_mset (ForkClaim a b) C)"
  shows "fst (commit_fork a b s) = Inr ()" and "store_ok (snd (commit_fork a b s)) C"
proof -
  note live = fork_live [OF ok, of a b, simplified]
  have e: "commit_fork a b s =
      (Inr (), modify_image b (\<lambda>ob. ob\<lparr>io_destination_pinned := False\<rparr>) (unpin_source a s))"
    using live by (simp add: commit_fork_def with_images_def with_image_def require_image_def)
  show "fst (commit_fork a b s) = Inr ()" by (simp add: e)
  show "store_ok (snd (commit_fork a b s)) C" using end_fork_ok [OF ok] by (simp add: e)
qed

lemma abort_fork_live:
  assumes ok: "store_ok s (add_mset (ForkClaim a b) C)"
  shows "fst (abort_fork a b s) = Inr ()" and "store_ok (snd (abort_fork a b s)) C"
proof -
  note live = fork_live [OF ok, of a b, simplified]
  have e: "abort_fork a b s = (Inr (), modify_image b
      (\<lambda>ob. ob\<lparr>io_destination_pinned := False, io_role := ReservedDestination, io_content_epoch := 0\<rparr>) (unpin_source a s))"
    using live by (simp add: abort_fork_def can_abort_fork_def)
  show "fst (abort_fork a b s) = Inr ()" by (simp add: e)
  show "store_ok (snd (abort_fork a b s)) C" using end_fork_ok [OF ok] by (simp add: e)
qed

end
