(* ===== verification/StateTransfers.thy ===== *)
theory StateTransfers
  imports StateForks
begin

text \<open>
  Transfers between the two memories: beginning one adds a claim, publishing or aborting it removes the
  claim, and both always succeed on a live transfer.
\<close>

declare not_None_eq [iff del]

section \<open>Live transfers\<close>

lemma transfer_live:
  assumes "store_ok s C" and "TransferClaim t \<in># C"
  shows "valid_transfer s t" "image_valid s (it_source t)" "image_valid s (it_destination t)"
    "transfer_ok (ss_id s) (object_of s (it_destination t)) t"
    "io_role (object_of s (it_source t)) = CheckpointImmutable"
    "io_source_pins (object_of s (it_source t)) \<noteq> 0"
proof -
  note cl = store_ok_claims [OF assms(1)]
  note live = claim_live [OF cl assms(2), simplified]
  show tr: "transfer_ok (ss_id s) (object_of s (it_destination t)) t"
    and role: "io_role (object_of s (it_source t)) = CheckpointImmutable"
    using live(3,4) by (simp_all add: reader_ok_def writer_ok_def)
  have "io_role (object_of s (it_destination t)) \<noteq> ImageFree"
    using tr by (auto simp: transfer_ok_def split: transfer_direction.splits)
  then show v: "image_valid s (it_source t)" "image_valid s (it_destination t)"
    using live role by (auto simp: valid_handle_at reader_ok_def writer_ok_def)
  show "valid_transfer s t" using tr v by (simp add: valid_transfer_def transfer_ok_def)
  have "TransferClaim t \<in># readers C (ih_index (it_source t))" using assms(2) by (simp add: readers_def)
  then have "size (readers C (ih_index (it_source t))) \<noteq> 0" by (metis empty_iff set_mset_empty size_eq_0_iff_empty)
  then show "io_source_pins (object_of s (it_source t)) \<noteq> 0"
    using claims_at [OF cl live(1)] by (simp add: index_ok_def)
qed

lemma host_held_valid:
  assumes "loose s L H" and "i < length (ss_objects s)" and "h \<in># host_held (ss_objects s ! i)"
  obtains p where "ss_host s = Some p" and "hsp_valid p h"
proof -
  have h: "h \<in># held_by host_held (ss_objects s) + H"
    using held_by_mono [OF assms(2), of host_held] assms(3) by (auto dest: mset_subset_eqD)
  show ?thesis
  proof (cases "ss_host s")
    case None
    then show ?thesis using assms(1) h by (simp add: loose_def host_balance_def)
  next
    case (Some p)
    then have b: "host_slots.balanced p (held_by host_held (ss_objects s) + H)"
      using assms(1) by (simp add: loose_def host_balance_def)
    show ?thesis using that [OF Some] host_slots.balanced_holds [OF b h] by (simp add: hsp_valid_holds)
  qed
qed

lemma release_modify:
  "snd (host_release_slot h (modify_image k f s)) = modify_image k f (snd (host_release_slot h s))"
  by (simp add: host_release_slot_def modify_image_def set_object_def split: option.split prod.split)

lemma return_modify: "return_device_slot d (modify_image k f s) = modify_image k f (return_device_slot d s)"
  by (simp add: return_device_slot_def modify_image_def set_object_def)

lemma end_index:
  assumes "index_ok ident i ob R W" and "role_ok ob'" and "io_source_pins ob' = io_source_pins ob"
    and "io_generation ob' = io_generation ob" and "R = {#} \<or> io_role ob' = io_role ob"
    and "R = {#} \<or> io_device_slot ob = None \<or> io_device_slot ob' \<noteq> None"
    and "\<not> io_destination_pinned ob'" and "\<not> has_pending_replica ob'"
  shows "index_ok ident i ob' R {#}"
proof -
  have "reader_ok ident i ob' c" if "c \<in># R" for c
    using assms that by (cases c) (auto simp: index_ok_def reader_ok_def)
  then show ?thesis using assms by (auto simp: index_ok_def)
qed

lemma end_destination_fields [simp]:
  "io_role (end_destination ob) = io_role ob" "io_generation (end_destination ob) = io_generation ob"
  "io_source_pins (end_destination ob) = io_source_pins ob"
  "io_device_slot (end_destination ob) = io_device_slot ob" "io_host_slot (end_destination ob) = io_host_slot ob"
  "io_pending_device_slot (end_destination ob) = io_pending_device_slot ob"
  "io_pending_host_slot (end_destination ob) = io_pending_host_slot ob"
  "io_checkpoint_references (end_destination ob) = io_checkpoint_references ob"
  "io_content_epoch (end_destination ob) = io_content_epoch ob"
  "io_transfer_id (end_destination ob) = 0" "\<not> io_destination_pinned (end_destination ob)"
  by (simp_all add: end_destination_def)

lemma end_destination_pending:
  "(end_destination ob)\<lparr>io_pending_device_slot := x\<rparr> = end_destination (ob\<lparr>io_pending_device_slot := x\<rparr>)"
  by (cases ob) (simp add: end_destination_def)

lemma held_end [simp]:
  "device_held (end_destination ob) = device_held ob" "host_held (end_destination ob) = host_held ob"
  by (simp_all add: held_defs)

section \<open>Ends of a transfer\<close>

text \<open>A transfer within one image, ended in a way that leaves the image \<open>ob'\<close>.\<close>

lemma end_self_transfer:
  assumes ok: "store_ok s (add_mset (TransferClaim t) C)" and same: "it_source t = it_destination t"
    and t': "loose s' {#} {#}" "ss_id s' = ss_id s" "ss_objects s' = (ss_objects s)[ih_index (it_source t) := ob']"
    and ob': "role_ok ob'" "\<not> io_destination_pinned ob'" "\<not> has_pending_replica ob'"
      "io_role ob' = CheckpointImmutable" "io_generation ob' = io_generation (object_of s (it_source t))"
      "io_source_pins ob' = u32_sub (io_source_pins (object_of s (it_source t))) 1"
    and dev: "io_source_pins (object_of s (it_source t)) = 1 \<or> io_device_slot (object_of s (it_source t)) = None \<or> io_device_slot ob' \<noteq> None"
  shows "store_ok s' C"
proof -
  let ?i = "ih_index (it_source t)" and ?ob = "object_of s (it_source t)"
  note cl = store_ok_claims [OF ok] and live = transfer_live [OF ok, of t, simplified]
  have at: "index_ok (ss_id s) ?i ?ob (add_mset (TransferClaim t) (readers C ?i)) (add_mset (TransferClaim t) (writers C ?i))"
    using claims_at [OF cl valid_index [OF live(2)]] same by simp
  have w: "writers C ?i = {#}" using dest_index(2) [OF cl, of ?i] same by simp
  have "readers C ?i = {#}" if "io_source_pins ?ob = 1" using at that by (simp add: index_ok_def)
  then have "index_ok (ss_id s) ?i ob' (readers C ?i) {#}"
    by (intro end_index [OF unpin_index [OF at]]) (use ob' dev live(5) in auto)
  then have "claims_ok (ss_id s) ((ss_objects s)[?i := ob']) C"
    using claims_end_self [OF cl, of ?i ob'] same w by simp
  then show ?thesis using t' by (simp add: store_ok_def)
qed

text \<open>The end of a fork from the Host.\<close>

lemma fork_transfer_distinct:
  assumes ok: "store_ok s (add_mset (TransferClaim t) C)" and dir: "it_direction t = HostToFork"
  shows "ih_index (it_source t) \<noteq> ih_index (it_destination t)"
  using transfer_live(4,5) [OF ok, of t] dir by (auto simp: transfer_ok_def)

lemma end_fork_transfer:
  assumes ok: "store_ok s (add_mset (TransferClaim t) C)" and dir: "it_direction t = HostToFork"
    and t': "loose s' {#} {#}" "ss_id s' = ss_id s"
      "ss_objects s' = (ss_objects s)[ih_index (it_source t) :=
         (object_of s (it_source t))\<lparr>io_source_pins := u32_sub (io_source_pins (object_of s (it_source t))) 1\<rparr>,
         ih_index (it_destination t) := ob']"
    and ob': "role_ok ob'" "idle ob'" "io_generation ob' = io_generation (object_of s (it_destination t))"
  shows "store_ok s' C"
proof -
  let ?i = "ih_index (it_source t)" and ?j = "ih_index (it_destination t)"
  note cl = store_ok_claims [OF ok] and live = transfer_live [OF ok, of t, simplified]
  have n: "?i \<noteq> ?j" by (rule fork_transfer_distinct [OF ok dir])
  have "index_ok (ss_id s) ?i (object_of s (it_source t)) (add_mset (TransferClaim t) (readers C ?i)) (writers C ?i)"
    using claims_at [OF cl valid_index [OF live(2)]] n by simp
  note src = unpin_index [OF this]
  have "readers C ?j = {#}"
    using claims_at [OF cl valid_index [OF live(3)]] n live(4) dir
    by (auto simp: index_ok_def reader_ok_def transfer_ok_def)
  then have dst: "index_ok (ss_id s) ?j ob' (readers C ?j) (writers C ?j)"
    using ob' dest_index(2) [OF cl, of ?j] by (simp add: idle_index_ok)
  show ?thesis using claims_end [OF cl _ _ n src dst] t' by (simp add: store_ok_def)
qed

lemma u32_sub_le [simp]: "u32_sub a b \<le> uint32_max"
proof -
  have "(a + (uint32_max + 1) - b) mod (uint32_max + 1) < uint32_max + 1" by (rule mod_less_divisor) simp
  then show ?thesis unfolding u32_sub_def by linarith
qed

lemma same_slots:
  "io_device_slot ob = Some d \<Longrightarrow>
    ob\<lparr>io_host_slot := x, io_pending_host_slot := y, io_device_slot := Some d\<rparr> =
    ob\<lparr>io_host_slot := x, io_pending_host_slot := y\<rparr>"
  "io_host_slot ob = Some h \<Longrightarrow>
    ob\<lparr>io_device_slot := v, io_pending_device_slot := w, io_host_slot := Some h\<rparr> =
    ob\<lparr>io_device_slot := v, io_pending_device_slot := w\<rparr>"
  by (cases ob; simp)+

lemma loose_end_transfer:
  assumes "loose s L H" and "ih_index a < length (ss_objects s)" and "ih_index b < length (ss_objects s)"
  shows "loose (modify_image b end_destination (unpin_source a s)) L H"
proof (rule loose_modify_image)
  show "loose (unpin_source a s) L H" using assms by simp
qed (use assms(3) in simp_all)

lemma publish_device_to_host_live:
  assumes ok: "store_ok s (add_mset (TransferClaim t) C)" and dir: "it_direction t = DeviceToHost"
    and keep: "keep \<or> io_source_pins (object_of s (it_source t)) = 1"
  shows "fst (publish_transfer t keep s) = (Inr (), consume_transfer t)"
    and "store_ok (snd (publish_transfer t keep s)) C"
proof -
  note live = transfer_live [OF ok, of t, simplified]
  let ?h = "it_source t" and ?ob = "object_of s (it_source t)"
  have same: "it_destination t = ?h" and ob: "io_role ?ob = CheckpointImmutable" "io_host_slot ?ob = None"
      "io_pending_device_slot ?ob = None"
    using live(4) dir by (auto simp: transfer_ok_def)
  obtain d hp where d: "io_device_slot ?ob = Some d" and hp: "io_pending_host_slot ?ob = Some hp"
    using live(4) dir same by (cases "io_device_slot ?ob"; cases "io_pending_host_slot ?ob") (simp_all add: transfer_ok_def)
  note idx = valid_index [OF live(2)] and l = store_ok_loose [OF ok]
  define s1 where "s1 = modify_image ?h (\<lambda>ob. ob\<lparr>io_host_slot := io_pending_host_slot ob, io_pending_host_slot := None\<rparr>) s"
  define s2 where "s2 = (if keep then s1 else drop_device_slot ?h s1)"
  let ?t = "modify_image ?h end_destination (unpin_source ?h s2)"
  have e: "publish_transfer t keep s = ((Inr (), consume_transfer t), ?t)"
    using live(1) dir by (simp add: publish_transfer_def Let_def s1_def s2_def)
  show "fst (publish_transfer t keep s) = (Inr (), consume_transfer t)" by (simp add: e)
  have o1: "ss_objects s1 = (ss_objects s)[ih_index ?h := ?ob\<lparr>io_host_slot := Some hp, io_pending_host_slot := None\<rparr>]"
    by (simp add: s1_def hp)
  have l1: "loose s1 {#} {#}"
    unfolding s1_def by (rule loose_modify_image [OF l idx]) (simp_all add: held_defs hp ob)
  then have l2: "loose s2 {#} {#}"
    using drop_device_slot_loose [OF l1, of ?h d] idx by (simp add: s2_def o1 d)
  have o2: "ss_objects s2 = (ss_objects s)[ih_index ?h := ?ob\<lparr>io_host_slot := Some hp, io_pending_host_slot := None,
      io_device_slot := (if keep then Some d else None)\<rparr>]"
    using idx same_slots(1) [OF d] by (simp add: s2_def o1)
  show "store_ok (snd (publish_transfer t keep s)) C"
    unfolding e snd_conv
  proof (rule end_self_transfer [OF ok same [symmetric]])
    show "loose ?t {#} {#}" by (rule loose_end_transfer [OF l2]) (simp_all add: o2 idx)
    show "ss_id ?t = ss_id s" by (simp add: s2_def s1_def)
    show "ss_objects ?t = (ss_objects s)[ih_index ?h := end_destination (?ob\<lparr>io_host_slot := Some hp,
        io_pending_host_slot := None, io_device_slot := (if keep then Some d else None),
        io_source_pins := u32_sub (io_source_pins ?ob) 1\<rparr>)]"
      using idx by (simp add: o2)
  qed (use ob hp d keep valid_role_ok [OF ok live(2)] in \<open>auto simp: role_ok_def pending_iff u32_sub_small\<close>)
qed

lemma publish_host_to_device_live:
  assumes ok: "store_ok s (add_mset (TransferClaim t) C)" and dir: "it_direction t = HostToDevice"
  shows "fst (publish_transfer t keep s) = (Inr (), consume_transfer t)"
    and "store_ok (snd (publish_transfer t keep s)) C"
    and "ss_objects (snd (publish_transfer t keep s)) = (ss_objects s)[ih_index (it_source t) :=
      end_destination ((object_of s (it_source t))\<lparr>io_device_slot := io_pending_device_slot (object_of s (it_source t)),
        io_pending_device_slot := None,
        io_host_slot := (if keep then io_host_slot (object_of s (it_source t)) else None),
        io_source_pins := u32_sub (io_source_pins (object_of s (it_source t))) 1\<rparr>)]"
proof -
  note live = transfer_live [OF ok, of t, simplified]
  let ?h = "it_source t" and ?ob = "object_of s (it_source t)"
  have same: "it_destination t = ?h" and ob: "io_role ?ob = CheckpointImmutable" "io_device_slot ?ob = None"
      "io_pending_host_slot ?ob = None"
    using live(4) dir by (auto simp: transfer_ok_def)
  obtain hs d where hs: "io_host_slot ?ob = Some hs" and d: "io_pending_device_slot ?ob = Some d"
    using live(4) dir same by (cases "io_host_slot ?ob"; cases "io_pending_device_slot ?ob") (simp_all add: transfer_ok_def)
  note idx = valid_index [OF live(2)] and l = store_ok_loose [OF ok]
  define s1 where "s1 = modify_image ?h (\<lambda>ob. ob\<lparr>io_device_slot := io_pending_device_slot ob, io_pending_device_slot := None\<rparr>) s"
  have o1: "ss_objects s1 = (ss_objects s)[ih_index ?h := ?ob\<lparr>io_device_slot := Some d, io_pending_device_slot := None\<rparr>]"
    by (simp add: s1_def d)
  have l1: "loose s1 {#} {#}"
    unfolding s1_def by (rule loose_modify_image [OF l idx]) (simp_all add: held_defs d ob)
  have h1: "io_host_slot (object_of s1 ?h) \<noteq> None" using idx by (simp add: o1 hs)
  note drop = drop_host_slot_loose [OF l1, of ?h, OF _ h1]
  define s2 where "s2 = (if keep then s1 else snd (drop_host_slot ?h s1))"
  have d2: "(if keep then (True, s1) else drop_host_slot ?h s1) = (True, s2)"
    using drop(1) idx by (cases "drop_host_slot ?h s1") (simp add: s2_def o1)
  let ?t = "modify_image ?h end_destination (unpin_source ?h s2)"
  have e: "publish_transfer t keep s = ((Inr (), consume_transfer t), ?t)"
    using live(1) dir d2 by (cases keep) (simp_all add: publish_transfer_def Let_def s1_def [symmetric])
  show "fst (publish_transfer t keep s) = (Inr (), consume_transfer t)" by (simp add: e)
  have l2: "loose s2 {#} {#}" using drop(2) l1 idx by (simp add: s2_def o1)
  have id2: "ss_id s2 = ss_id s" using drop(4) idx by (simp add: s2_def o1) (simp add: s1_def)
  have o2: "ss_objects s2 = (ss_objects s)[ih_index ?h := ?ob\<lparr>io_device_slot := Some d, io_pending_device_slot := None,
      io_host_slot := (if keep then Some hs else None)\<rparr>]"
    using idx same_slots(2) [OF hs] drop(3) by (simp add: s2_def o1)
  show "ss_objects (snd (publish_transfer t keep s)) = (ss_objects s)[ih_index ?h :=
      end_destination (?ob\<lparr>io_device_slot := io_pending_device_slot ?ob, io_pending_device_slot := None,
        io_host_slot := (if keep then io_host_slot ?ob else None),
        io_source_pins := u32_sub (io_source_pins ?ob) 1\<rparr>)]"
    using idx by (simp add: e o2 d hs)
  show "store_ok (snd (publish_transfer t keep s)) C"
    unfolding e snd_conv
  proof (rule end_self_transfer [OF ok same [symmetric]])
    show "loose ?t {#} {#}" by (rule loose_end_transfer [OF l2]) (simp_all add: o2 idx)
    show "ss_id ?t = ss_id s" by (simp add: id2)
    show "ss_objects ?t = (ss_objects s)[ih_index ?h := end_destination (?ob\<lparr>io_device_slot := Some d,
        io_pending_device_slot := None, io_host_slot := (if keep then Some hs else None),
        io_source_pins := u32_sub (io_source_pins ?ob) 1\<rparr>)]"
      using idx by (simp add: o2)
  qed (use ob hs d live(6) valid_role_ok [OF ok live(2)] in \<open>auto simp: role_ok_def pending_iff u32_sub_small\<close>)
qed

lemma publish_host_to_fork_live:
  assumes ok: "store_ok s (add_mset (TransferClaim t) C)" and dir: "it_direction t = HostToFork"
  shows "fst (publish_transfer t keep s) = (Inr (), consume_transfer t)"
    and "store_ok (snd (publish_transfer t keep s)) C"
proof -
  note live = transfer_live [OF ok, of t, simplified]
  let ?a = "it_source t" and ?b = "it_destination t"
  let ?sob = "object_of s ?a" and ?dob = "object_of s ?b"
  note n = fork_transfer_distinct [OF ok dir]
  note ia = valid_index [OF live(2)] and ib = valid_index [OF live(3)] and l = store_ok_loose [OF ok]
  have ob: "io_role ?dob = ActiveMutable" "io_device_slot ?dob = None" "io_pending_host_slot ?dob = None"
    using live(4) dir by (auto simp: transfer_ok_def)
  obtain d where d: "io_pending_device_slot ?dob = Some d"
    using live(4) dir by (cases "io_pending_device_slot ?dob") (simp_all add: transfer_ok_def)
  define s1 where "s1 = modify_image ?b (\<lambda>ob. ob\<lparr>io_device_slot := io_pending_device_slot ob, io_pending_device_slot := None\<rparr>) s"
  let ?t = "modify_image ?b end_destination (unpin_source ?a s1)"
  have e: "publish_transfer t keep s = ((Inr (), consume_transfer t), ?t)"
    using live(1) dir by (simp add: publish_transfer_def Let_def s1_def)
  show "fst (publish_transfer t keep s) = (Inr (), consume_transfer t)" by (simp add: e)
  have o1: "ss_objects s1 = (ss_objects s)[ih_index ?b := ?dob\<lparr>io_device_slot := Some d, io_pending_device_slot := None\<rparr>]"
    by (simp add: s1_def d)
  have l1: "loose s1 {#} {#}"
    unfolding s1_def by (rule loose_modify_image [OF l ib]) (simp_all add: held_defs d ob)
  show "store_ok (snd (publish_transfer t keep s)) C"
    unfolding e snd_conv
  proof (rule end_fork_transfer [OF ok dir])
    show "loose ?t {#} {#}" by (rule loose_end_transfer [OF l1]) (simp_all add: o1 ia ib)
    show "ss_id ?t = ss_id s" by (simp add: s1_def)
    show "ss_objects ?t = (ss_objects s)[ih_index ?a := ?sob\<lparr>io_source_pins := u32_sub (io_source_pins ?sob) 1\<rparr>,
        ih_index ?b := end_destination (?dob\<lparr>io_device_slot := Some d, io_pending_device_slot := None\<rparr>)]"
      using ia ib n by (simp add: o1 list_update_swap)
  qed (use ob d valid_role_ok [OF ok live(3)] in \<open>simp_all add: role_ok_def idle_iff\<close>)
qed

lemma publish_transfer_live:
  assumes "store_ok s (add_mset (TransferClaim t) C)"
    and "keep \<or> io_source_pins (object_of s (it_source t)) = 1"
  shows "fst (publish_transfer t keep s) = (Inr (), consume_transfer t)"
    and "store_ok (snd (publish_transfer t keep s)) C"
  using publish_device_to_host_live [OF assms(1) _ assms(2)] publish_host_to_device_live [OF assms(1)]
    publish_host_to_fork_live [OF assms(1)]
  by (cases "it_direction t"; simp)+

text \<open>Aborting gives the pending slot back.\<close>

lemma abort_device_to_host_live:
  assumes ok: "store_ok s (add_mset (TransferClaim t) C)" and dir: "it_direction t = DeviceToHost"
  shows "store_ok (snd (abort_transfer t s)) C"
proof -
  note live = transfer_live [OF ok, of t, simplified]
  let ?h = "it_source t" and ?ob = "object_of s (it_source t)"
  have same: "it_destination t = ?h" and ob: "io_role ?ob = CheckpointImmutable" "io_host_slot ?ob = None"
      "io_pending_device_slot ?ob = None"
    using live(4) dir by (auto simp: transfer_ok_def)
  obtain hp where hp: "io_pending_host_slot ?ob = Some hp"
    using live(4) dir same by (cases "io_pending_host_slot ?ob") (simp_all add: transfer_ok_def)
  note idx = valid_index [OF live(2)] and l = store_ok_loose [OF ok]
  let ?f = "\<lambda>ob. end_destination (ob\<lparr>io_pending_host_slot := None\<rparr>)"
  let ?t = "snd (host_release_slot hp (modify_image ?h ?f (unpin_source ?h s)))"
  have e: "snd (abort_transfer t s) = ?t"
    using live(1,6) dir idx hp by (simp add: abort_transfer_def Let_def release_modify)
  have "loose (modify_image ?h ?f (unpin_source ?h s)) {#} {#hp#}"
    by (rule loose_modify_image [where L = "{#}" and H = "{#}"]) (use l idx hp in \<open>simp_all add: held_defs\<close>)
  note rel = loose_host_release(2) [OF this]
  show ?thesis
    unfolding e
  proof (rule end_self_transfer [OF ok same [symmetric] rel])
    show "ss_objects ?t = (ss_objects s)[ih_index ?h :=
        ?f (?ob\<lparr>io_source_pins := u32_sub (io_source_pins ?ob) 1\<rparr>)]"
      using idx by simp
  qed (use ob hp valid_role_ok [OF ok live(2)] in \<open>auto simp: role_ok_def pending_iff\<close>)
qed

lemma abort_host_to_device_live:
  assumes ok: "store_ok s (add_mset (TransferClaim t) C)" and dir: "it_direction t = HostToDevice"
  shows "store_ok (snd (abort_transfer t s)) C"
proof -
  note live = transfer_live [OF ok, of t, simplified]
  let ?h = "it_source t" and ?ob = "object_of s (it_source t)"
  have same: "it_destination t = ?h" and ob: "io_role ?ob = CheckpointImmutable" "io_device_slot ?ob = None"
      "io_pending_host_slot ?ob = None" "io_host_slot ?ob \<noteq> None"
    using live(4) dir by (auto simp: transfer_ok_def)
  obtain d where d: "io_pending_device_slot ?ob = Some d"
    using live(4) dir same by (cases "io_pending_device_slot ?ob") (simp_all add: transfer_ok_def)
  note idx = valid_index [OF live(2)] and l = store_ok_loose [OF ok]
  let ?f = "\<lambda>ob. end_destination (ob\<lparr>io_pending_device_slot := None\<rparr>)"
  let ?t = "return_device_slot d (modify_image ?h ?f (unpin_source ?h s))"
  have e: "snd (abort_transfer t s) = ?t"
    using live(1,6) dir idx d same by (simp add: abort_transfer_def Let_def return_modify)
  have "loose (modify_image ?h ?f (unpin_source ?h s)) {#d#} {#}"
    by (rule loose_modify_image [where L = "{#}" and H = "{#}"]) (use l idx d in \<open>simp_all add: held_defs\<close>)
  note rel = loose_return_device [OF this]
  show ?thesis
    unfolding e
  proof (rule end_self_transfer [OF ok same [symmetric] rel])
    show "ss_objects ?t = (ss_objects s)[ih_index ?h :=
        ?f (?ob\<lparr>io_source_pins := u32_sub (io_source_pins ?ob) 1\<rparr>)]"
      using idx by simp
  qed (use ob valid_role_ok [OF ok live(2)] in \<open>auto simp: role_ok_def pending_iff\<close>)
qed

lemma abort_host_to_fork_live:
  assumes ok: "store_ok s (add_mset (TransferClaim t) C)" and dir: "it_direction t = HostToFork"
  shows "store_ok (snd (abort_transfer t s)) C"
proof -
  note live = transfer_live [OF ok, of t, simplified]
  let ?a = "it_source t" and ?b = "it_destination t"
  let ?sob = "object_of s ?a" and ?dob = "object_of s ?b"
  note n = fork_transfer_distinct [OF ok dir]
  note ia = valid_index [OF live(2)] and ib = valid_index [OF live(3)] and l = store_ok_loose [OF ok]
  have ob: "io_role ?dob = ActiveMutable" "io_device_slot ?dob = None" "io_pending_host_slot ?dob = None"
    using live(4) dir by (auto simp: transfer_ok_def)
  obtain d where d: "io_pending_device_slot ?dob = Some d"
    using live(4) dir by (cases "io_pending_device_slot ?dob") (simp_all add: transfer_ok_def)
  let ?f = "\<lambda>ob. (end_destination (ob\<lparr>io_pending_device_slot := None\<rparr>))\<lparr>io_role := ReservedDestination, io_content_epoch := 0\<rparr>"
  let ?t = "return_device_slot d (modify_image ?b ?f (unpin_source ?a s))"
  have e: "snd (abort_transfer t s) = ?t"
    using live(1,6) dir ia ib n d by (simp add: abort_transfer_def Let_def return_modify)
  have "loose (modify_image ?b ?f (unpin_source ?a s)) {#d#} {#}"
    by (rule loose_modify_image [where L = "{#}" and H = "{#}"]) (use l ia ib n d ob in \<open>simp_all add: held_defs\<close>)
  note rel = loose_return_device [OF this]
  show ?thesis
    unfolding e
  proof (rule end_fork_transfer [OF ok dir rel])
    show "ss_objects ?t = (ss_objects s)[ih_index ?a := ?sob\<lparr>io_source_pins := u32_sub (io_source_pins ?sob) 1\<rparr>,
        ih_index ?b := ?f ?dob]"
      using ia ib n by simp
  qed (use ob d valid_role_ok [OF ok live(3)] in \<open>simp_all add: role_ok_def idle_iff\<close>)
qed

lemma abort_transfer_live:
  assumes "store_ok s (add_mset (TransferClaim t) C)"
  shows "store_ok (snd (abort_transfer t s)) C"
  using abort_device_to_host_live [OF assms] abort_host_to_device_live [OF assms] abort_host_to_fork_live [OF assms]
  by (cases "it_direction t") simp_all

section \<open>Beginning a transfer\<close>

lemma checkpoint_writer_free:
  assumes "index_ok ident i ob R W" and "io_role ob = CheckpointImmutable" and "\<not> has_pending_replica ob"
  shows "W = {#}"
proof (rule ccontr)
  assume "W \<noteq> {#}"
  then obtain c where "writer_ok ident i ob c" using assms(1) by (auto simp: index_ok_def)
  then show False using assms(2,3) by (cases c) (auto simp: writer_ok_def transfer_ok_def pending_iff)
qed

lemma begin_self_transfer:
  assumes ok: "store_ok s C" and v: "image_valid s h" and r: "io_role (object_of s h) = CheckpointImmutable"
      "\<not> has_pending_replica (object_of s h)" "io_source_pins (object_of s h) \<noteq> uint32_max"
    and t: "it_source t = h" "it_destination t = h"
    and s': "loose s' {#} {#}" "ss_id s' = ss_id s" "ss_objects s' = (ss_objects s)[ih_index h :=
        ob\<lparr>io_source_pins := u32_add (io_source_pins (object_of s h)) 1\<rparr>]"
    and ob: "transfer_ok (ss_id s) ob t" "io_destination_pinned ob" "role_ok ob" "io_role ob = CheckpointImmutable"
      "io_generation ob = io_generation (object_of s h)" "io_source_pins ob = io_source_pins (object_of s h)"
      "io_device_slot ob = io_device_slot (object_of s h)"
  shows "store_ok s' (add_mset (TransferClaim t) C)"
proof -
  let ?i = "ih_index h" and ?c = "TransferClaim t"
  note cl = store_ok_claims [OF ok] and idx = valid_index [OF v]
  note at = claims_at [OF cl idx]
  have w: "writers C ?i = {#}" by (rule checkpoint_writer_free [OF at r(1,2)])
  have h: "h = handle_at (ss_id s) ?i (io_generation ob)" using v ob(5) by (simp add: valid_handle_at)
  have ends: "claim_source ?c = handle_at (ss_id s) ?i (io_generation ob)"
      "claim_dest ?c = handle_at (ss_id s) ?i (io_generation ob)"
    unfolding claim_source.simps claim_dest.simps t by (rule h)+
  have "reader_ok (ss_id s) ?i ob c" if "c \<in># readers C ?i" for c
    using at that ob(4,5,7) r(1) by (cases c) (auto simp: index_ok_def reader_ok_def)
  moreover have "writer_ok (ss_id s) ?i ob ?c"
    unfolding writer_ok_def using ends(2) ob(1,2) by simp
  ultimately have "index_ok (ss_id s) ?i ob (readers C ?i) {#?c#}"
    using at ob by (simp add: index_ok_def)
  then have "index_ok (ss_id s) ?i (ob\<lparr>io_source_pins := u32_add (io_source_pins ob) 1\<rparr>)
      (add_mset ?c (readers C ?i)) {#?c#}"
    by (rule pin_index) (use ob r ends(1) in \<open>simp_all add: reader_ok_def\<close>)
  then have "claims_ok (ss_id s) ((ss_objects s)[?i := ob\<lparr>io_source_pins := u32_add (io_source_pins ob) 1\<rparr>]) (add_mset ?c C)"
    by (intro claims_begin_self [OF cl _ _ idx]) (simp_all add: t w)
  then show ?thesis unfolding store_ok_def s'(2,3) ob(6) using s'(1) by blast
qed

lemma reserve_device_to_host_cases:
  obtains "fst (reserve_device_to_host h s) = Inl InvalidArgument" "snd (reserve_device_to_host h s) = s"
  | "reserve_device_to_host h s = (Inr None, s)"
  | p hp q ident where "image_valid s h" "ss_host s = Some p" "io_role (object_of s h) = CheckpointImmutable"
      "io_device_slot (object_of s h) \<noteq> None" "io_host_slot (object_of s h) = None"
      "\<not> has_pending_replica (object_of s h)" "io_source_pins (object_of s h) \<noteq> uint32_max"
      "hsp_allocate p = (Some hp, q)" "ident = fst (next_transfer (s\<lparr>ss_host := Some q\<rparr>))" 
      "reserve_device_to_host h s = (Inr (Some (new_transfer s ident DeviceToHost h h)),
         pin_source h (modify_image h (\<lambda>ob. ob\<lparr>io_pending_host_slot := Some hp, io_transfer_id := ident,
           io_destination_pinned := True\<rparr>) (snd (next_transfer (s\<lparr>ss_host := Some q\<rparr>)))))"
proof (cases "image_valid s h")
  case True
  let ?ob = "object_of s h"
  show ?thesis
  proof (cases "ss_host s = None \<or> io_role ?ob \<noteq> CheckpointImmutable \<or> io_device_slot ?ob = None \<or>
      io_host_slot ?ob \<noteq> None \<or> has_pending_replica ?ob \<or> io_source_pins ?ob = uint32_max")
    case no: True
    then show ?thesis using True that(2) by (simp add: reserve_device_to_host_def with_image_def require_image_def)
  next
    case False
    obtain p where p: "ss_host s = Some p" using False by (cases "ss_host s") simp_all
    obtain x q where a: "hsp_allocate p = (x, q)" by (cases "hsp_allocate p")
    have e: "reserve_device_to_host h s = (case hsp_allocate p of (None, _) \<Rightarrow> (Inr None, s)
      | (Some target, p) \<Rightarrow>
          let (ident, s1) = next_transfer (s\<lparr>ss_host := Some p\<rparr>)
          in (Inr (Some (new_transfer s ident DeviceToHost h h)),
              pin_source h (modify_image h (\<lambda>ob. ob\<lparr>io_pending_host_slot := Some target, io_transfer_id := ident,
                         io_destination_pinned := True\<rparr>) s1)))"
      using False True p by (simp add: reserve_device_to_host_def with_image_def require_image_def)
    show ?thesis
    proof (cases x)
      case None
      then show ?thesis using that(2) e a by simp
    next
      case (Some hp)
      show ?thesis
        by (rule that(3) [OF True p _ _ _ _ _ _ refl]) (use False a Some e in \<open>simp_all add: case_prod_beta\<close>)
    qed
  qed
next
  case False
  then show ?thesis using that(1) by (simp add: reserve_device_to_host_def with_image_def require_image_def)
qed

lemma new_transfer_fields [simp]:
  "it_source (new_transfer s n d a b) = a" "it_destination (new_transfer s n d a b) = b"
  "it_direction (new_transfer s n d a b) = d" "it_id (new_transfer s n d a b) = n"
  "it_owner (new_transfer s n d a b) = Some (ss_id s)"
  by (simp_all add: new_transfer_def)

definition claims_after :: "image_transfer option res \<Rightarrow> claim multiset \<Rightarrow> claim multiset" where
  "claims_after r C = (case r of Inr (Some t) \<Rightarrow> add_mset (TransferClaim t) C | _ \<Rightarrow> C)"

lemma claims_after_simps [simp]:
  "claims_after (Inl e) C = C" "claims_after (Inr None) C = C"
  "claims_after (Inr (Some t)) C = add_mset (TransferClaim t) C"
  by (simp_all add: claims_after_def)

lemma reserve_device_to_host_ok:
  assumes ok: "store_ok s C"
  shows "store_ok (snd (reserve_device_to_host h s)) (claims_after (fst (reserve_device_to_host h s)) C)"
proof (cases rule: reserve_device_to_host_cases [of h s])
  case (3 p hp q ident)
  let ?ob = "object_of s h" and ?t = "new_transfer s ident DeviceToHost h h"
  let ?f = "\<lambda>ob. ob\<lparr>io_pending_host_slot := Some hp, io_transfer_id := ident, io_destination_pinned := True\<rparr>"
  note idx = valid_index [OF 3(1)] and r = valid_role_ok [OF ok 3(1)]
  let ?u = "snd (next_transfer (s\<lparr>ss_host := Some q\<rparr>))"
  have "loose ?u {#} {#hp#}" using loose_host_allocate [OF store_ok_loose [OF ok] 3(2,8)] by simp
  then have "loose (modify_image h ?f ?u) {#} {#}"
    by (rule loose_modify_image) (use idx 3(6) in \<open>simp_all add: held_defs pending_iff\<close>)
  then have l: "loose (pin_source h (modify_image h ?f ?u)) {#} {#}" using idx by simp
  have "store_ok (pin_source h (modify_image h ?f ?u)) (add_mset (TransferClaim ?t) C)"
    by (rule begin_self_transfer [OF ok 3(1,3,6,7) _ _ l, where ob = "?f ?ob"])
      (use 3 r idx in \<open>simp_all add: transfer_ok_def pending_iff role_ok_def\<close>)
  then show ?thesis using 3 by simp
qed (use ok in simp_all)

lemma write_host_ok:
  "store_ok s C \<Longrightarrow> ss_host s = Some p \<Longrightarrow> store_ok (s\<lparr>ss_host := Some (write_host i x p)\<rparr>) C"
  using loose_write_host [of s "{#}" "{#}" p i x] by (simp add: store_ok_def)

lemma copy_to_host_cases:
  assumes "loose s L H" and "i < length (ss_objects s)" and "h \<in># host_held (ss_objects s ! i)"
  obtains p where "ss_host s = Some p" "fault = None"
      "copy_to_host fault d h s = (Inr (), s\<lparr>ss_host := Some (write_host (fst h) (ss_device_data s d) p)\<rparr>)"
  | p x where "ss_host s = Some p" "fault = Some x"
      "copy_to_host fault d h s = (Inl cuda_error, s\<lparr>ss_host := Some (write_host (fst h) x p)\<rparr>)"
  by (rule host_held_valid [OF assms]) (cases fault; simp add: copy_to_host_def)

lemma copy_from_host_cases:
  assumes "loose s L H" and "i < length (ss_objects s)" and "h \<in># host_held (ss_objects s ! i)"
  obtains p where "ss_host s = Some p" "fault = None"
      "copy_from_host fault h d s = (Inr (), write_device d (hp_data p (fst h)) s)"
  | p x where "ss_host s = Some p" "fault = Some x"
      "copy_from_host fault h d s = (Inl cuda_error, write_device d x s)"
  by (rule host_held_valid [OF assms]) (cases fault; simp add: copy_from_host_def)

lemma begin_device_to_host_ok:
  assumes ok: "store_ok s C"
  shows "store_ok (snd (begin_device_to_host fault h s)) (claims_after (fst (begin_device_to_host fault h s)) C)"
proof (cases rule: reserve_device_to_host_cases [of h s])
  case 1
  then obtain e where "reserve_device_to_host h s = (Inl e, s)" by (cases "reserve_device_to_host h s") simp
  then show ?thesis using ok by (simp add: begin_device_to_host_def)
next
  case 2
  then show ?thesis using ok by (simp add: begin_device_to_host_def)
next
  case (3 p hp q ident)
  let ?t = "new_transfer s ident DeviceToHost h h"
  define s1 where "s1 = snd (reserve_device_to_host h s)"
  have r: "reserve_device_to_host h s = (Inr (Some ?t), s1)" using 3 by (simp add: s1_def)
  have ok1: "store_ok s1 (add_mset (TransferClaim ?t) C)" using reserve_device_to_host_ok [OF ok, of h] by (simp add: r)
  note live = transfer_live [OF ok1, of ?t, simplified]
  have ob: "io_pending_host_slot (object_of s1 h) = Some hp" "io_device_slot (object_of s1 h) \<noteq> None" "ss_host s1 \<noteq> None"
    using 3 valid_index [OF 3(1)] by (simp_all add: s1_def)
  have e: "enqueue_device_to_host g ?t s1 = copy_to_host g (the (io_device_slot (object_of s1 h))) hp s1" for g
    using live ob by (simp add: enqueue_device_to_host_def with_image_def require_image_def)
  show ?thesis
    by (rule copy_to_host_cases [OF store_ok_loose [OF ok1] valid_index [OF live(2)], of hp fault "the (io_device_slot (object_of s1 h))"])
      (simp_all add: begin_device_to_host_def r e held_defs ob abort_transfer_live write_host_ok ok1)
qed

lemma begin_host_to_device_cases:
  obtains "begin_host_to_device fault h s = (Inl InvalidArgument, s)"
  | "begin_host_to_device fault h s = (Inr None, s)"
  | d s1 ident where "image_valid s h" "ss_host s \<noteq> None" "io_role (object_of s h) = CheckpointImmutable"
      "io_device_slot (object_of s h) = None" "io_host_slot (object_of s h) \<noteq> None"
      "\<not> has_pending_replica (object_of s h)" "io_source_pins (object_of s h) \<noteq> uint32_max"
      "take_device_slot s = (Some d, s1)" "ident = fst (next_transfer s1)"
      "begin_host_to_device fault h s =
        (let s3 = pin_source h (modify_image h (\<lambda>ob. ob\<lparr>io_pending_device_slot := Some d, io_transfer_id := ident,
               io_destination_pinned := True\<rparr>) (snd (next_transfer s1)))
         in case copy_from_host fault (the (io_host_slot (object_of s h))) d s3 of
              (Inr _, s4) \<Rightarrow> (Inr (Some (new_transfer s ident HostToDevice h h)), s4)
            | (Inl e, s4) \<Rightarrow> (Inl e, return_device_slot d (modify_image h
                 (\<lambda>ob. (end_destination ob)\<lparr>io_pending_device_slot := None\<rparr>) (unpin_source h s4))))"
proof (cases "image_valid s h")
  case True
  let ?ob = "object_of s h"
  show ?thesis
  proof (cases "ss_host s = None \<or> io_role ?ob \<noteq> CheckpointImmutable \<or> io_host_slot ?ob = None \<or>
      io_device_slot ?ob \<noteq> None \<or> has_pending_replica ?ob \<or> io_source_pins ?ob = uint32_max")
    case no: True
    then show ?thesis using True that(2) by (simp add: begin_host_to_device_def with_image_def require_image_def)
  next
    case False
    obtain x s1 where a: "take_device_slot s = (x, s1)" by (cases "take_device_slot s")
    show ?thesis
    proof (cases x)
      case None
      then have "s1 = s" using a by (auto simp: take_device_slot_def split: if_splits)
      then show ?thesis
        using None that(2) False True a by (simp add: begin_host_to_device_def with_image_def require_image_def)
    next
      case (Some d)
      show ?thesis
        by (rule that(3) [OF True _ _ _ _ _ _ _ refl])
          (use False True a Some in \<open>simp_all add: begin_host_to_device_def with_image_def require_image_def
            case_prod_beta Let_def\<close>)
    qed
  qed
next
  case False
  then show ?thesis using that(1) by (simp add: begin_host_to_device_def with_image_def require_image_def)
qed

lemma begin_host_to_device_ok:
  assumes ok: "store_ok s C"
  shows "store_ok (snd (begin_host_to_device fault h s)) (claims_after (fst (begin_host_to_device fault h s)) C)"
proof (cases rule: begin_host_to_device_cases [of fault h s])
  case (3 d s1 ident)
  let ?ob = "object_of s h" and ?t = "new_transfer s ident HostToDevice h h"
  let ?f = "\<lambda>ob. ob\<lparr>io_pending_device_slot := Some d, io_transfer_id := ident, io_destination_pinned := True\<rparr>"
  define s3 where "s3 = pin_source h (modify_image h ?f (snd (next_transfer s1)))"
  note idx = valid_index [OF 3(1)] and r = valid_role_ok [OF ok 3(1)] and f1 = take_device_slot_fields [OF 3(8)]
  have "loose (snd (next_transfer s1)) {#d#} {#}" using loose_take_device [OF store_ok_loose [OF ok] 3(8)] by simp
  then have "loose (modify_image h ?f (snd (next_transfer s1))) {#} {#}"
    by (rule loose_modify_image) (use idx 3(6) in \<open>simp_all add: held_defs pending_iff f1\<close>)
  then have l: "loose s3 {#} {#}" using idx by (simp add: s3_def f1)
  have ok3: "store_ok s3 (add_mset (TransferClaim ?t) C)"
    by (rule begin_self_transfer [OF ok 3(1,3,6,7) _ _ l, where ob = "?f ?ob"])
      (use 3(3-9) r idx in \<open>simp_all add: transfer_ok_def pending_iff role_ok_def s3_def f1\<close>)
  obtain hs where hs: "io_host_slot ?ob = Some hs" using 3(5) by (cases "io_host_slot ?ob") simp_all
  have o3: "object_of s3 h = (?f ?ob)\<lparr>io_source_pins := u32_add (io_source_pins ?ob) 1\<rparr>"
    using idx by (simp add: s3_def f1)
  have i3: "ih_index h < length (ss_objects s3)" using idx by (simp add: s3_def f1)
  have undo: "return_device_slot d (modify_image h (\<lambda>ob. (end_destination ob)\<lparr>io_pending_device_slot := None\<rparr>) (unpin_source h s4)) =
      snd (abort_transfer ?t s4)" if "s4 = write_device d x s3" for s4 x
  proof -
    have "store_ok s4 (add_mset (TransferClaim ?t) C)" using ok3 that by (simp add: write_device_ok)
    note live = transfer_live [OF this, of ?t, simplified]
    have "io_pending_device_slot (object_of s4 h) = Some d" using o3 that by simp
    then show ?thesis
      using live i3 that by (simp add: abort_transfer_def Let_def return_modify end_destination_pending)
  qed
  have b: "begin_host_to_device fault h s = (case copy_from_host fault hs d s3 of
      (Inr _, s4) \<Rightarrow> (Inr (Some ?t), s4) | (Inl e, s4) \<Rightarrow> (Inl e, return_device_slot d (modify_image h
                 (\<lambda>ob. (end_destination ob)\<lparr>io_pending_device_slot := None\<rparr>) (unpin_source h s4))))"
    using 3(10) by (simp add: hs s3_def)
  have mem: "hs \<in># host_held (object_of s3 h)" by (simp add: o3 held_defs hs)
  show ?thesis
    unfolding b
    by (rule copy_from_host_cases [OF l i3 mem, of fault d])
      (simp_all add: ok3 write_device_ok undo [OF refl] abort_transfer_live)
qed (use ok in simp_all)

lemma begin_host_fork_cases:
  obtains "begin_host_fork fault a b s = (Inl InvalidArgument, s)"
  | "begin_host_fork fault a b s = (Inr None, s)"
  | d s1 ident where "image_valid s a" "image_valid s b" "a \<noteq> b" "ss_host s \<noteq> None"
      "io_role (object_of s a) = CheckpointImmutable" "io_host_slot (object_of s a) \<noteq> None"
      "io_source_pins (object_of s a) \<noteq> uint32_max" "vacant (object_of s b)"
      "take_device_slot s = (Some d, s1)" "ident = fst (next_transfer s1)"
      "begin_host_fork fault a b s =
        (let s3 = pin_source a (modify_image b (\<lambda>ob. ob\<lparr>io_pending_device_slot := Some d, io_transfer_id := ident,
               io_destination_pinned := True, io_role := ActiveMutable,
               io_content_epoch := io_content_epoch (object_of s a)\<rparr>) (snd (next_transfer s1)))
         in case copy_from_host fault (the (io_host_slot (object_of s a))) d s3 of
              (Inr _, s4) \<Rightarrow> (Inr (Some (new_transfer s ident HostToFork a b)), s4)
            | (Inl e, s4) \<Rightarrow> (Inl e, return_device_slot d (modify_image b
                 (\<lambda>ob. (end_destination ob)\<lparr>io_pending_device_slot := None, io_role := ReservedDestination,
                   io_content_epoch := 0\<rparr>) (unpin_source a s4))))"
proof (cases "image_valid s a \<and> image_valid s b")
  case True
  let ?sob = "object_of s a"
  note unf = begin_host_fork_def with_images_def with_image_def require_image_def
  show ?thesis
  proof (cases "ss_host s = None \<or> a = b \<or> io_role ?sob \<noteq> CheckpointImmutable \<or> io_host_slot ?sob = None \<or>
      io_source_pins ?sob = uint32_max \<or> \<not> vacant (object_of s b)")
    case no: True
    then show ?thesis using True that(2) by (simp add: unf)
  next
    case False
    obtain x s1 where t: "take_device_slot s = (x, s1)" by (cases "take_device_slot s")
    show ?thesis
    proof (cases x)
      case None
      then have "s1 = s" using t by (auto simp: take_device_slot_def split: if_splits)
      then show ?thesis using None that(2) False True t by (simp add: unf)
    next
      case (Some d)
      show ?thesis
        by (rule that(3) [of d s1 "fst (next_transfer s1)"])
          (use False True t Some in \<open>simp_all add: unf case_prod_beta Let_def\<close>)
    qed
  qed
next
  case False
  then show ?thesis using that(1) by (auto simp: begin_host_fork_def with_images_def with_image_def require_image_def)
qed

lemma begin_host_fork_ok:
  assumes ok: "store_ok s C"
  shows "store_ok (snd (begin_host_fork fault a b s)) (claims_after (fst (begin_host_fork fault a b s)) C)"
proof (cases rule: begin_host_fork_cases [of fault a b s])
  case (3 d s1 ident)
  let ?sob = "object_of s a" and ?dob = "object_of s b" and ?t = "new_transfer s ident HostToFork a b"
  let ?c = "TransferClaim ?t"
  let ?f = "\<lambda>ob. ob\<lparr>io_pending_device_slot := Some d, io_transfer_id := ident, io_destination_pinned := True,
    io_role := ActiveMutable, io_content_epoch := io_content_epoch ?sob\<rparr>"
  let ?sob' = "?sob\<lparr>io_source_pins := u32_add (io_source_pins ?sob) 1\<rparr>"
  define s3 where "s3 = pin_source a (modify_image b ?f (snd (next_transfer s1)))"
  note ia = valid_index [OF 3(1)] and ib = valid_index [OF 3(2)] and f1 = take_device_slot_fields [OF 3(9)]
    and cl = store_ok_claims [OF ok]
  have n: "ih_index a \<noteq> ih_index b" using 3(3) valid_same_index [OF 3(1,2)] by blast
  have vac: "io_device_slot ?dob = None" "io_host_slot ?dob = None" "io_role ?dob = ReservedDestination" "idle ?dob"
    using 3(8) by (simp_all add: vacant_def)
  have "loose (snd (next_transfer s1)) {#d#} {#}" using loose_take_device [OF store_ok_loose [OF ok] 3(9)] by simp
  then have "loose (modify_image b ?f (snd (next_transfer s1))) {#} {#}"
    by (rule loose_modify_image) (use ib vac in \<open>simp_all add: held_defs idle_iff f1\<close>)
  then have l: "loose s3 {#} {#}" using ia by (simp add: s3_def f1)
  have src: "index_ok (ss_id s) (ih_index a) ?sob' (add_mset ?c (readers C (ih_index a))) (writers C (ih_index a))"
    by (rule pin_index [OF claims_at [OF cl ia] 3(7)]) (use 3(1,5) in \<open>simp add: reader_ok_def valid_handle_at\<close>)
  have e: "readers C (ih_index b) = {#}" "writers C (ih_index b) = {#}"
    using claims_at [OF cl ib] vac(4) by (simp_all add: idle_index_ok)
  have dst: "index_ok (ss_id s) (ih_index b) (?f ?dob) (readers C (ih_index b)) (add_mset ?c (writers C (ih_index b)))"
    using e vac 3(2,10) valid_role_ok [OF ok 3(2)]
    by (auto simp: index_ok_def writer_ok_def transfer_ok_def valid_handle_at role_ok_def idle_iff)
  have o3: "ss_objects s3 = (ss_objects s)[ih_index a := ?sob', ih_index b := ?f ?dob]"
    using ia ib n by (simp add: s3_def f1 list_update_swap [OF n])
  have ok3: "store_ok s3 (add_mset ?c C)"
    using claims_begin [OF cl _ _ ia ib n src dst] l by (simp add: store_ok_def o3) (simp add: s3_def f1)
  obtain hs where hs: "io_host_slot ?sob = Some hs" using 3(6) by (cases "io_host_slot ?sob") simp_all
  have i3: "ih_index a < length (ss_objects s3)" "ih_index b < length (ss_objects s3)" using ia ib by (simp_all add: o3)
  have undo: "return_device_slot d (modify_image b (\<lambda>ob. (end_destination ob)\<lparr>io_pending_device_slot := None,
        io_role := ReservedDestination, io_content_epoch := 0\<rparr>) (unpin_source a s4)) = snd (abort_transfer ?t s4)"
    if "s4 = write_device d x s3" for s4 x
  proof -
    have "store_ok s4 (add_mset ?c C)" using ok3 that by (simp add: write_device_ok)
    note live = transfer_live [OF this, of ?t, simplified]
    have "io_pending_device_slot (object_of s4 b) = Some d" using o3 that ib n by simp
    then show ?thesis
      using live i3 that n by (simp add: abort_transfer_def Let_def return_modify end_destination_pending)
  qed
  have b: "begin_host_fork fault a b s = (case copy_from_host fault hs d s3 of
      (Inr _, s4) \<Rightarrow> (Inr (Some ?t), s4) | (Inl e, s4) \<Rightarrow> (Inl e, return_device_slot d (modify_image b
                 (\<lambda>ob. (end_destination ob)\<lparr>io_pending_device_slot := None, io_role := ReservedDestination,
                   io_content_epoch := 0\<rparr>) (unpin_source a s4))))"
    using 3(11) by (simp add: hs s3_def)
  have mem: "hs \<in># host_held (object_of s3 a)" using ia n by (simp add: o3 held_defs hs)
  show ?thesis
    unfolding b
    by (rule copy_from_host_cases [OF l i3(1) mem, of fault d])
      (simp_all add: ok3 write_device_ok undo [OF refl] abort_transfer_live)
qed (use ok in simp_all)

end
