(* ===== verification/StateContent.thy ===== *)
theory StateContent
  imports StateTransfers
begin

text \<open>
  What the payloads of an image are. The replicas of an image are the payloads of its slots, published
  or in flight, on both memories. All replicas of a checkpoint are the same payload, and no operation
  changes it while the image is a checkpoint.
\<close>

declare not_None_eq [iff del]

section \<open>Replicas\<close>

definition host_payloads :: "'c state_store \<Rightarrow> host_slot_handle multiset \<Rightarrow> 'c set" where
  "host_payloads s H = (case ss_host s of None \<Rightarrow> {} | Some p \<Rightarrow> (\<lambda>h. hp_data p (fst h)) ` set_mset H)"

definition replicas :: "'c state_store \<Rightarrow> image_object \<Rightarrow> 'c set" where
  "replicas s ob = ss_device_data s ` set_mset (device_held ob) \<union> host_payloads s (host_held ob)"

text \<open>Images whose payload is pinned down: checkpoints, and images that a transfer is filling.\<close>

definition tracked :: "image_object \<Rightarrow> bool" where
  "tracked ob \<longleftrightarrow> io_role ob = CheckpointImmutable \<or> io_pending_device_slot ob \<noteq> None"

definition coherent :: "'c state_store \<Rightarrow> bool" where
  "coherent s \<longleftrightarrow> (\<forall>ob\<in>set (ss_objects s). tracked ob \<longrightarrow> (\<exists>x. replicas s ob = {x}))"

definition kept :: "'c state_store \<Rightarrow> 'c state_store \<Rightarrow> nat \<Rightarrow> bool" where
  "kept s t i \<longleftrightarrow>
    (tracked (ss_objects t ! i) \<longrightarrow>
      (if tracked (ss_objects s ! i) then replicas t (ss_objects t ! i) = replicas s (ss_objects s ! i)
       else \<exists>x. replicas t (ss_objects t ! i) = {x}))"

definition all_kept :: "'c state_store \<Rightarrow> 'c state_store \<Rightarrow> bool" where
  "all_kept s t \<longleftrightarrow> length (ss_objects t) = length (ss_objects s) \<and> (\<forall>i < length (ss_objects s). kept s t i)"

lemma all_kept_refl: "all_kept s s" if "coherent s"
  using that by (simp add: all_kept_def kept_def)

lemma coherent_kept: "coherent s \<Longrightarrow> all_kept s t \<Longrightarrow> coherent t"
  unfolding coherent_def all_kept_def kept_def
  by (metis in_set_conv_nth)

lemma coherent_at: "coherent s \<Longrightarrow> i < length (ss_objects s) \<Longrightarrow> tracked (ss_objects s ! i) \<Longrightarrow>
    \<exists>x. replicas s (ss_objects s ! i) = {x}"
  by (simp add: coherent_def)

lemma kept_untracked: "\<not> tracked (ss_objects t ! i) \<Longrightarrow> kept s t i"
  by (simp add: kept_def)

lemma kept_fresh: "\<not> tracked (ss_objects s ! i) \<Longrightarrow> replicas t (ss_objects t ! i) = {x} \<Longrightarrow> kept s t i"
  by (auto simp: kept_def)

lemma kept_same: "tracked (ss_objects s ! i) = tracked (ss_objects t ! i) \<Longrightarrow>
    replicas t (ss_objects t ! i) = replicas s (ss_objects s ! i) \<Longrightarrow> coherent s \<Longrightarrow> i < length (ss_objects s) \<Longrightarrow> kept s t i"
  by (auto simp: kept_def)

lemma kept_subset:
  assumes "coherent s" and "i < length (ss_objects s)" and "tracked (ss_objects s ! i)"
    and "replicas t (ss_objects t ! i) \<subseteq> replicas s (ss_objects s ! i)" and "replicas t (ss_objects t ! i) \<noteq> {}"
  shows "kept s t i"
  using coherent_at [OF assms(1-3)] assms(3-5) by (auto simp: kept_def)

text \<open>A checkpoint always has a replica.\<close>

lemma replicas_nonempty:
  assumes "store_ok s C" and "i < length (ss_objects s)" and "io_role (ss_objects s ! i) = CheckpointImmutable"
  shows "replicas s (ss_objects s ! i) \<noteq> {}"
proof -
  have "io_device_slot (ss_objects s ! i) \<noteq> None \<or> io_host_slot (ss_objects s ! i) \<noteq> None"
    using claims_role_ok [OF store_ok_claims [OF assms(1)] assms(2)] assms(3) by (simp add: role_ok_def)
  then show ?thesis
  proof
    assume "io_device_slot (ss_objects s ! i) \<noteq> None"
    then show ?thesis by (cases "io_device_slot (ss_objects s ! i)") (simp_all add: replicas_def held_defs)
  next
    assume "io_host_slot (ss_objects s ! i) \<noteq> None"
    then obtain h where h: "io_host_slot (ss_objects s ! i) = Some h" by (cases "io_host_slot (ss_objects s ! i)") simp_all
    then have "h \<in># host_held (ss_objects s ! i)" by (simp add: held_defs)
    then obtain p where "ss_host s = Some p" by (rule host_held_valid [OF store_ok_loose [OF assms(1)] assms(2)])
    then show ?thesis using h by (simp add: replicas_def host_payloads_def held_defs)
  qed
qed

section \<open>Frames\<close>

text \<open>Two stores with the same payloads, as far as a set of slots is concerned.\<close>

definition host_data :: "'c state_store \<Rightarrow> nat \<Rightarrow> 'c option" where
  "host_data s i = (case ss_host s of None \<Rightarrow> None | Some p \<Rightarrow> Some (hp_data p i))"

lemma host_payloads_data: "host_payloads s H = {x. \<exists>h\<in>#H. host_data s (fst h) = Some x}"
  by (auto simp: host_payloads_def host_data_def split: option.splits)

lemma replicas_frame:
  assumes "\<And>d. d \<in># device_held ob \<Longrightarrow> ss_device_data t d = ss_device_data s d"
    and "\<And>h. h \<in># host_held ob \<Longrightarrow> host_data t (fst h) = host_data s (fst h)"
  shows "replicas t ob = replicas s ob"
  using assms by (auto simp: replicas_def host_payloads_data)

text \<open>An operation that changes no payload, and the images it touches.\<close>

definition same_data :: "'c state_store \<Rightarrow> 'c state_store \<Rightarrow> bool" where
  "same_data s t \<longleftrightarrow> ss_device_data t = ss_device_data s \<and> host_data t = host_data s"

lemma same_data_replicas: "same_data s t \<Longrightarrow> replicas t ob = replicas s ob"
  by (rule replicas_frame) (simp_all add: same_data_def)

lemma same_data_refl [simp]: "same_data s s"
  by (simp add: same_data_def)

lemma same_data_trans: "same_data s t \<Longrightarrow> same_data t u \<Longrightarrow> same_data s u"
  by (simp add: same_data_def)

lemma host_data_fun:
  "host_data s = (case ss_host s of None \<Rightarrow> (\<lambda>_. None) | Some p \<Rightarrow> (\<lambda>i. Some (hp_data p i)))"
  by (simp add: host_data_def fun_eq_iff split: option.split)

lemma same_data_simps [simp]:
  "same_data s (set_object i ob t) = same_data s t" "same_data s (modify_image h f t) = same_data s t"
  "same_data s (return_device_slot d t) = same_data s t" "same_data s (snd (next_epoch t)) = same_data s t"
  "same_data s (snd (next_transfer t)) = same_data s t" "same_data s (pin_source h t) = same_data s t"
  "same_data s (unpin_source h t) = same_data s t" "same_data s (drop_device_slot h t) = same_data s t"
  "same_data s (retire_image h t) = same_data s t" "same_data s (set_role h r t) = same_data s t"
  "same_data s (set_epoch h t) = same_data s t"
  by (simp_all add: same_data_def host_data_fun retire_image_fields set_role_def set_epoch_def case_prod_beta)

lemma same_data_release [simp]: "same_data s (snd (host_release_slot h t)) = same_data s t"
proof -
  have "host_data (snd (host_release_slot h t)) = host_data t"
    by (auto simp: host_data_def host_release_slot_def hsp_release_def Let_def fun_eq_iff split: option.split prod.split)
  then show ?thesis by (simp add: same_data_def)
qed

lemma same_data_drop_host [simp]: "same_data s (snd (drop_host_slot h t)) = same_data s t"
proof -
  obtain x u where u: "host_release_slot (the (io_host_slot (object_of t h))) t = (x, u)" by (metis surj_pair)
  then have "same_data t u" by (metis same_data_refl same_data_release snd_conv)
  then have "same_data t (snd (drop_host_slot h t))" by (cases x) (simp_all add: drop_host_slot_def u)
  then show ?thesis unfolding same_data_def by metis
qed

lemma same_data_allocate:
  "hsp_allocate p = (x, q) \<Longrightarrow> ss_host s = Some p \<Longrightarrow> same_data s (s\<lparr>ss_host := Some q\<rparr>)"
  by (auto simp: same_data_def host_data_fun hsp_allocate_def Let_def split: if_splits)

lemma same_data_take: "take_device_slot s = (x, t) \<Longrightarrow> same_data s t"
  by (simp add: same_data_def host_data_fun take_device_slot_fields)

section \<open>Operations that move no payload\<close>

definition shrinks :: "image_object \<Rightarrow> image_object \<Rightarrow> bool" where
  "shrinks ob ob' \<longleftrightarrow> io_role ob = CheckpointImmutable \<and> io_role ob' = CheckpointImmutable \<and>
    device_held ob' \<subseteq># device_held ob \<and> host_held ob' \<subseteq># host_held ob"

definition settled :: "image_object \<Rightarrow> image_object \<Rightarrow> bool" where
  "settled ob ob' \<longleftrightarrow> \<not> tracked ob \<and> host_held ob' = {#} \<and> (\<exists>d. device_held ob' = {#d#})"

definition calm :: "image_object \<Rightarrow> image_object \<Rightarrow> bool" where
  "calm ob ob' \<longleftrightarrow> ob' = ob \<or> \<not> tracked ob' \<or> shrinks ob ob' \<or> settled ob ob'"

lemma calm_refl [simp]: "calm ob ob"
  by (simp add: calm_def)

definition calm_step :: "'c state_store \<Rightarrow> 'c state_store \<Rightarrow> bool" where
  "calm_step s t \<longleftrightarrow> same_data s t \<and> list_all2 calm (ss_objects s) (ss_objects t)"

lemma calm_step_refl [simp]: "calm_step s s"
  by (simp add: calm_step_def list_all2_refl)

lemma calm_update: "calm (obs ! i) ob \<Longrightarrow> list_all2 calm obs (obs[i := ob])"
  by (cases "i < length obs") (auto simp: list_all2_conv_all_nth nth_list_update list_update_beyond)

lemma calm_updates:
  "i \<noteq> j \<Longrightarrow> calm (obs ! i) oa \<Longrightarrow> calm (obs ! j) ob \<Longrightarrow> list_all2 calm obs (obs[i := oa, j := ob])"
  by (cases "i < length obs"; cases "j < length obs")
    (auto simp: list_all2_conv_all_nth nth_list_update list_update_beyond)

lemma replicas_mono: "device_held ob' \<subseteq># device_held ob \<Longrightarrow> host_held ob' \<subseteq># host_held ob \<Longrightarrow>
    replicas s ob' \<subseteq> replicas s ob"
  unfolding replicas_def host_payloads_data by (auto dest: mset_subset_eqD)

definition agree :: "'c state_store \<Rightarrow> 'c state_store \<Rightarrow> image_object \<Rightarrow> bool" where
  "agree s t ob \<longleftrightarrow> (\<forall>d\<in>#device_held ob. ss_device_data t d = ss_device_data s d) \<and>
    (\<forall>h\<in>#host_held ob. host_data t (fst h) = host_data s (fst h))"

lemma agree_replicas: "agree s t ob \<Longrightarrow> replicas t ob = replicas s ob"
  by (rule replicas_frame) (simp_all add: agree_def)

lemma calm_kept:
  assumes co: "coherent s" and ok: "store_ok t C" and i: "i < length (ss_objects s)"
    and len: "length (ss_objects t) = length (ss_objects s)"
    and c: "calm (ss_objects s ! i) (ss_objects t ! i)"
    and d: "tracked (ss_objects t ! i) \<Longrightarrow> agree s t (ss_objects t ! i)"
  shows "kept s t i"
proof (cases "tracked (ss_objects t ! i)")
  case True
  note rep = agree_replicas [OF d [OF True]]
  consider "ss_objects t ! i = ss_objects s ! i" | "shrinks (ss_objects s ! i) (ss_objects t ! i)"
    | "settled (ss_objects s ! i) (ss_objects t ! i)"
    using c True by (auto simp: calm_def)
  then show ?thesis
  proof cases
    case 1
    then show ?thesis using kept_same [of s i t] rep co i by simp
  next
    case 2
    then have "replicas t (ss_objects t ! i) \<subseteq> replicas s (ss_objects s ! i)"
      by (simp add: rep shrinks_def replicas_mono)
    moreover have "replicas t (ss_objects t ! i) \<noteq> {}"
      using 2 i len by (intro replicas_nonempty [OF ok]) (simp_all add: shrinks_def)
    ultimately show ?thesis using 2 by (intro kept_subset [OF co i]) (simp_all add: shrinks_def tracked_def)
  next
    case 3
    then obtain e where "device_held (ss_objects t ! i) = {#e#}" "host_held (ss_objects t ! i) = {#}"
      by (auto simp: settled_def)
    then have "replicas t (ss_objects t ! i) = {ss_device_data t e}"
      by (simp add: replicas_def host_payloads_data)
    then show ?thesis using 3 by (intro kept_fresh) (simp_all add: settled_def)
  qed
qed (rule kept_untracked)

lemma calm_all_kept:
  assumes "coherent s" and "store_ok t C" and "calm_step s t"
  shows "all_kept s t"
  unfolding all_kept_def
proof (intro conjI allI impI)
  have d: "same_data s t" and c: "list_all2 calm (ss_objects s) (ss_objects t)"
    using assms(3) by (simp_all add: calm_step_def)
  show len: "length (ss_objects t) = length (ss_objects s)" using c by (simp add: list_all2_lengthD)
  show "kept s t i" if "i < length (ss_objects s)" for i
    by (rule calm_kept [OF assms(1,2) that len])
      (use c d that in \<open>simp_all add: list_all2_conv_all_nth agree_def same_data_def\<close>)
qed

lemma with_image_calm:
  assumes "image_valid s h \<Longrightarrow> calm_step s (snd (k (object_of s h)))"
  shows "calm_step s (snd (with_image s h k))"
  using assms by (simp add: with_image_def require_image_def)

lemma with_images_calm:
  assumes "image_valid s a \<Longrightarrow> image_valid s b \<Longrightarrow> calm_step s (snd (k (object_of s a) (object_of s b)))"
  shows "calm_step s (snd (with_images s a b k))"
  using assms by (simp add: with_images_def with_image_def require_image_def)

lemma calm_modify: "calm (object_of s h) ob \<Longrightarrow> same_data s t \<Longrightarrow>
    ss_objects t = (ss_objects s)[ih_index h := ob] \<Longrightarrow> calm_step s t"
  by (simp add: calm_step_def calm_update)

lemma calm_modify_image: "calm (object_of s h) (f (object_of s h)) \<Longrightarrow> calm_step s (modify_image h f s)"
  by (rule calm_modify) simp_all

lemma calm_modify_two:
  "ih_index a \<noteq> ih_index b \<Longrightarrow> calm (object_of s a) (g (object_of s a)) \<Longrightarrow> calm (object_of s b) (f (object_of s b)) \<Longrightarrow>
    calm_step s (modify_image b f (modify_image a g s))"
  by (simp add: calm_step_def calm_updates)

lemma handed_out_calm:
  "handed_out s ob t h \<Longrightarrow> \<not> tracked ob \<Longrightarrow> calm_step s t"
  by (rule calm_modify [of _ h ob]) (simp_all add: handed_out_def same_data_def host_data_fun calm_def)

lemma fresh_untracked: "role \<noteq> CheckpointImmutable \<Longrightarrow> \<not> tracked ((fresh_object g role)\<lparr>io_device_slot := slot\<rparr>)"
  by (simp add: tracked_def fresh_object_def)

lemma allocate_image_calm:
  assumes "store_ok s C" and "role = ActiveMutable \<and> wd \<or> role = ReservedDestination"
  shows "calm_step s (snd (allocate_image role wd s))"
proof (cases "allocate_image role wd s")
  case (Pair oh t)
  show ?thesis
  proof (cases oh)
    case None
    then show ?thesis using Pair allocate_image_none [of role wd s t] by simp
  next
    case (Some h)
    then obtain slot where "handed_out s ((fresh_object (ih_generation h) role)\<lparr>io_device_slot := slot\<rparr>) t h"
      using Pair allocate_image_ok [OF assms, of h t] by metis
    moreover have "role \<noteq> CheckpointImmutable" using assms(2) by auto
    ultimately show ?thesis using Pair by (simp add: handed_out_calm fresh_untracked)
  qed
qed

lemma idle_tracked: "idle ob \<Longrightarrow> tracked ob \<longleftrightarrow> io_role ob = CheckpointImmutable"
  by (simp add: tracked_def idle_iff)

lemma references_calm:
  "calm_step s (snd (retain_checkpoint_reference h s))" "calm_step s (snd (release_checkpoint_reference h s))"
proof -
  have "calm_step s (modify_image h (\<lambda>ob. ob\<lparr>io_checkpoint_references := f ob\<rparr>) s)"
    if "io_role (object_of s h) = CheckpointImmutable" for f
    by (rule calm_modify_image) (use that in \<open>simp add: calm_def shrinks_def held_defs\<close>)
  then show "calm_step s (snd (retain_checkpoint_reference h s))" "calm_step s (snd (release_checkpoint_reference h s))"
    unfolding retain_checkpoint_reference_def release_checkpoint_reference_def
    by (simp_all add: with_image_calm)
qed

lemma freeze_calm: "calm_step s (snd (freeze h s))" if "store_ok s C"
  unfolding freeze_def
proof (rule with_image_calm, goal_cases)
  case 1
  let ?ob = "object_of s h"
  show ?case
  proof (cases "io_role ?ob \<noteq> ActiveMutable \<or> io_device_slot ?ob = None \<or> \<not> idle ?ob")
    case False
    obtain d where d: "io_device_slot ?ob = Some d" using False by (cases "io_device_slot ?ob") simp_all
    have "settled ?ob (?ob\<lparr>io_content_epoch := fst (next_epoch s), io_role := CheckpointImmutable\<rparr>)"
      using False d valid_role_ok [OF that 1] by (simp add: settled_def idle_tracked idle_iff held_defs role_ok_def tracked_def)
    then have "calm_step s (set_role h CheckpointImmutable (set_epoch h s))"
      unfolding set_role_epoch [OF valid_index [OF 1]]
      by (intro calm_modify [of _ h]) (simp_all add: calm_def)
    then show ?thesis using False by simp
  qed simp
qed

lemma thaw_calm: "calm_step s (snd (thaw h s))"
  unfolding thaw_def
  by (rule with_image_calm)
    (auto intro!: calm_modify_image simp: calm_def tracked_def idle_iff set_role_def)

lemma drop_host_slot_calm:
  assumes "store_ok s C" and "image_valid s h" and "io_host_slot (object_of s h) \<noteq> None"
    and "io_role (object_of s h) = CheckpointImmutable"
  shows "calm_step s (snd (drop_host_slot h s))"
proof (rule calm_modify [of _ h])
  show "ss_objects (snd (drop_host_slot h s)) = (ss_objects s)[ih_index h := (object_of s h)\<lparr>io_host_slot := None\<rparr>]"
    by (rule drop_host_slot_loose [OF store_ok_loose [OF assms(1)] valid_index [OF assms(2)] assms(3)])
qed (use assms(4) in \<open>simp_all add: calm_def shrinks_def held_defs\<close>)

lemma drop_replica_calm:
  assumes "store_ok s C"
  shows "calm_step s (snd (drop_host_replica h s))" "calm_step s (snd (drop_device_replica h s))"
proof -
  show "calm_step s (snd (drop_host_replica h s))"
    using drop_host_slot_calm [OF assms, of h] by (simp add: drop_host_replica_def Let_def)
  show "calm_step s (snd (drop_device_replica h s))"
    by (auto intro!: calm_modify [of _ h "(object_of s h)\<lparr>io_device_slot := None\<rparr>"]
        simp: drop_device_replica_def Let_def calm_def shrinks_def held_defs)
qed

lemma move_checkpoint_to_active_calm:
  assumes ok: "store_ok s C"
  shows "calm_step s (snd (move_checkpoint_to_active h s))"
  unfolding move_checkpoint_to_active_def
proof (rule with_image_calm, goal_cases)
  case 1
  let ?ob = "object_of s h"
  show ?case
  proof (cases "io_role ?ob \<noteq> CheckpointImmutable \<or> io_device_slot ?ob = None \<or>
      io_checkpoint_references ?ob \<noteq> 0 \<or> \<not> idle ?ob")
    case False
    show ?thesis
    proof (cases "io_host_slot ?ob = None")
      case True
      have "calm_step s (set_role h ActiveMutable s)"
        by (rule calm_modify [of _ h]) (use False in \<open>simp_all add: set_role_def calm_def tracked_def idle_iff\<close>)
      then show ?thesis using False True by simp
    next
      case h: False
      note drop = drop_host_slot_loose [OF store_ok_loose [OF ok] valid_index [OF 1] h]
      obtain s1 where s1: "drop_host_slot h s = (True, s1)" using drop(1) by (cases "drop_host_slot h s") simp
      have "same_data s s1" by (metis s1 snd_conv same_data_drop_host same_data_refl)
      then have "calm_step s (set_role h ActiveMutable s1)"
        by (intro calm_modify [of _ h "?ob\<lparr>io_host_slot := None, io_role := ActiveMutable\<rparr>"])
          (use False drop(3) valid_index [OF 1] s1 in \<open>simp_all add: set_role_def calm_def tracked_def idle_iff\<close>)
      then show ?thesis using False h by (simp add: s1)
    qed
  qed simp
qed

lemma recycle_calm: "calm_step s (snd (recycle_checkpoint_destination h s))"
  by (auto intro!: calm_modify_image simp: recycle_checkpoint_destination_def can_recycle_checkpoint_destination_def
      calm_def tracked_def idle_iff)

lemma restore_calm: "calm_step s (snd (restore_recycled_checkpoint h e s))" if "store_ok s C"
  unfolding restore_recycled_checkpoint_def
proof (rule with_image_calm, goal_cases)
  case 1
  let ?ob = "object_of s h"
  show ?case
  proof (cases "e = 0 \<or> io_role ?ob \<noteq> ReservedDestination \<or> io_device_slot ?ob = None \<or> io_host_slot ?ob \<noteq> None \<or>
      io_checkpoint_references ?ob \<noteq> 0 \<or> \<not> idle ?ob")
    case False
    obtain d where d: "io_device_slot ?ob = Some d" using False by (cases "io_device_slot ?ob") simp_all
    let ?ob' = "?ob\<lparr>io_content_epoch := e, io_checkpoint_references := 1, io_role := CheckpointImmutable\<rparr>"
    have "settled ?ob ?ob'"
      using False d by (simp add: settled_def idle_iff held_defs tracked_def)
    then have "calm_step s (modify_image h (\<lambda>ob. ob\<lparr>io_content_epoch := e, io_checkpoint_references := 1,
        io_role := CheckpointImmutable\<rparr>) s)"
      by (intro calm_modify [of _ h ?ob']) (simp_all add: calm_def)
    then show ?thesis using False by simp
  qed simp
qed

lemma release_image_calm:
  assumes ok: "store_ok s C"
  shows "calm_step s (snd (release_image h s))"
proof (cases "can_release_image s h")
  case True
  then have v: "image_valid s h" and i: "idle (object_of s h)" by (simp_all add: can_release_image_def idle_def)
  show ?thesis
  proof (cases "io_host_slot (object_of s h) = None")
    case n: True
    have "calm_step s (retire_image h s)"
      by (rule calm_modify [of _ h]) (use i in \<open>simp_all add: retire_image_fields calm_def tracked_def retired_def idle_iff\<close>)
    then show ?thesis using True n by (simp add: release_image_def)
  next
    case h: False
    note drop = drop_host_slot_loose [OF store_ok_loose [OF ok] valid_index [OF v] h]
    obtain s1 where s1: "drop_host_slot h s = (True, s1)" using drop(1) by (cases "drop_host_slot h s") simp
    have "same_data s s1" by (metis s1 snd_conv same_data_drop_host same_data_refl)
    then have "calm_step s (retire_image h s1)"
      by (intro calm_modify [of _ h "retired ((object_of s h)\<lparr>io_host_slot := None\<rparr>)"])
        (use i drop(3) s1 valid_index [OF v] in \<open>simp_all add: retire_image_fields calm_def tracked_def retired_def idle_iff\<close>)
    then show ?thesis using release_image_host [OF h True] by (simp add: s1)
  qed
qed (simp add: release_image_def)

lemma valid_distinct: "image_valid s a \<Longrightarrow> image_valid s b \<Longrightarrow> a \<noteq> b \<Longrightarrow> ih_index a \<noteq> ih_index b"
  using valid_same_index by blast

lemma calm_modify2:
  "calm (object_of s a) oa \<Longrightarrow> calm (object_of s b) ob \<Longrightarrow> ih_index a \<noteq> ih_index b \<Longrightarrow> same_data s t \<Longrightarrow>
    ss_objects t = (ss_objects s)[ih_index a := oa, ih_index b := ob] \<Longrightarrow> calm_step s t"
  by (simp add: calm_step_def calm_updates)

lemma pins_calm: "io_role ob = CheckpointImmutable \<Longrightarrow> calm ob (ob\<lparr>io_source_pins := n\<rparr>)"
  by (simp add: calm_def shrinks_def)

lemma split_calm: "calm_step s (snd (split_device_replica_identity a b s))"
  unfolding split_device_replica_identity_def
  by (rule with_images_calm)
    (auto intro!: calm_modify_two simp: calm_def tracked_def vacant_def idle_iff shrinks_def held_defs
      dest: valid_distinct)

lemma begin_fork_calm: "calm_step s (snd (begin_fork a b s))"
  unfolding begin_fork_def pin_source_def
  by (rule with_images_calm)
    (auto intro!: calm_modify_two simp: calm_def shrinks_def tracked_def idle_iff dest: valid_distinct)

lemma commit_fork_calm:
  assumes "store_ok s C" and "ForkClaim a b \<in># C"
  shows "calm_step s (snd (commit_fork a b s))"
proof -
  note live = fork_live [OF assms]
  obtain C' where C: "C = add_mset (ForkClaim a b) C'" using assms(2) by (metis multi_member_split)
  have "writer_ok (ss_id s) (ih_index b) (object_of s b) (ForkClaim a b)"
    using dest_index(3) [OF store_ok_claims [OF assms(1) [unfolded C]], of "ih_index b"] by simp
  then have "io_pending_device_slot (object_of s b) = None" by (simp add: writer_ok_def pending_iff)
  then have "calm_step s (modify_image b (\<lambda>ob. ob\<lparr>io_destination_pinned := False\<rparr>) (unpin_source a s))"
    unfolding unpin_source_def
    by (intro calm_modify_two) (use live in \<open>auto simp: calm_def shrinks_def tracked_def dest: valid_distinct\<close>)
  then show ?thesis using live by (simp add: commit_fork_def with_images_def with_image_def require_image_def)
qed

lemma abort_fork_calm:
  assumes "store_ok s C" and "ForkClaim a b \<in># C"
  shows "calm_step s (snd (abort_fork a b s))"
proof -
  note live = fork_live [OF assms]
  obtain C' where C: "C = add_mset (ForkClaim a b) C'" using assms(2) by (metis multi_member_split)
  have "writer_ok (ss_id s) (ih_index b) (object_of s b) (ForkClaim a b)"
    using dest_index(3) [OF store_ok_claims [OF assms(1) [unfolded C]], of "ih_index b"] by simp
  then have "io_pending_device_slot (object_of s b) = None" by (simp add: writer_ok_def pending_iff)
  then have "calm_step s (modify_image b (\<lambda>ob. ob\<lparr>io_destination_pinned := False, io_role := ReservedDestination,
      io_content_epoch := 0\<rparr>) (unpin_source a s))"
    unfolding unpin_source_def
    by (intro calm_modify_two) (use live in \<open>auto simp: calm_def shrinks_def tracked_def dest: valid_distinct\<close>)
  then show ?thesis using live by (simp add: abort_fork_def can_abort_fork_def)
qed

lemma update_again: "i \<noteq> j \<Longrightarrow> xs[j := x, i := y, j := z] = xs[i := y, j := z]"
  by (metis list_update_overwrite list_update_swap)

lemma shrink_calm: "io_role ob = CheckpointImmutable \<Longrightarrow> io_role ob' = CheckpointImmutable \<Longrightarrow>
    device_held ob' \<subseteq># device_held ob \<Longrightarrow> host_held ob' \<subseteq># host_held ob \<Longrightarrow> calm ob ob'"
  by (simp add: calm_def shrinks_def)

lemma publish_transfer_calm:
  assumes ok: "store_ok s C" and t: "TransferClaim t \<in># C"
  shows "calm_step s (snd (publish_transfer t keep s))"
proof -
  note live = transfer_live [OF ok t]
  let ?a = "it_source t" and ?b = "it_destination t"
  note ia = valid_index [OF live(2)] and ib = valid_index [OF live(3)]
  show ?thesis
  proof (cases "it_direction t")
    case DeviceToHost
    then have same: "?b = ?a" and ob: "io_host_slot (object_of s ?a) = None" "io_pending_device_slot (object_of s ?a) = None"
      using live(4) by (auto simp: transfer_ok_def)
    show ?thesis
      by (rule calm_modify [of _ ?a "end_destination ((object_of s ?a)\<lparr>io_host_slot := io_pending_host_slot (object_of s ?a),
            io_pending_host_slot := None, io_device_slot := (if keep then io_device_slot (object_of s ?a) else None),
            io_source_pins := u32_sub (io_source_pins (object_of s ?a)) 1\<rparr>)"])
        (use live ia ob DeviceToHost in \<open>auto simp: publish_transfer_def Let_def held_defs intro!: shrink_calm arg_cong [where f = end_destination]\<close>)
  next
    case HostToDevice
    obtain C' where C: "C = add_mset (TransferClaim t) C'" using t by (metis multi_member_split)
    have ob: "io_device_slot (object_of s ?a) = None" "io_pending_host_slot (object_of s ?a) = None"
      using live(4) HostToDevice by (auto simp: transfer_ok_def)
    have "same_data s (snd (publish_transfer t keep s))"
    proof -
      let ?s1 = "modify_image ?a (\<lambda>ob. ob\<lparr>io_device_slot := io_pending_device_slot ob, io_pending_device_slot := None\<rparr>) s"
      obtain x u where u: "drop_host_slot ?a ?s1 = (x, u)" by (metis surj_pair)
      have "same_data s (snd (drop_host_slot ?a ?s1))" by simp
      then have "same_data s u" by (simp only: u snd_conv)
      then show ?thesis using HostToDevice live(1) u by (simp add: publish_transfer_def Let_def)
    qed
    then show ?thesis
      by (rule calm_modify [OF _ _ publish_host_to_device_live(3) [OF ok [unfolded C] HostToDevice], rotated])
        (use ob live(5) in \<open>auto simp: held_defs intro!: shrink_calm\<close>)
  next
    case HostToFork
    then have ob: "io_role (object_of s ?b) = ActiveMutable" using live(4) by (simp add: transfer_ok_def)
    have n: "ih_index ?a \<noteq> ih_index ?b" using ob live(5) by auto
    show ?thesis
      by (rule calm_modify2 [of _ ?a "(object_of s ?a)\<lparr>io_source_pins := u32_sub (io_source_pins (object_of s ?a)) 1\<rparr>"
            ?b "end_destination ((object_of s ?b)\<lparr>io_device_slot := io_pending_device_slot (object_of s ?b),
              io_pending_device_slot := None\<rparr>)"])
        (use live ia ib ob n HostToFork in
          \<open>simp_all add: publish_transfer_def Let_def pins_calm calm_def tracked_def shrinks_def update_again\<close>)
  qed
qed

lemma abort_transfer_objects:
  assumes ok: "store_ok s C" and t: "TransferClaim t \<in># C"
  shows "it_direction t = DeviceToHost \<Longrightarrow> ss_objects (snd (abort_transfer t s)) = (ss_objects s)[ih_index (it_source t) :=
      end_destination ((object_of s (it_source t))\<lparr>
        io_source_pins := u32_sub (io_source_pins (object_of s (it_source t))) 1, io_pending_host_slot := None\<rparr>)]"
    and "it_direction t = HostToDevice \<Longrightarrow> ss_objects (snd (abort_transfer t s)) = (ss_objects s)[ih_index (it_source t) :=
      end_destination ((object_of s (it_source t))\<lparr>
        io_source_pins := u32_sub (io_source_pins (object_of s (it_source t))) 1, io_pending_device_slot := None\<rparr>)]"
    and "it_direction t = HostToFork \<Longrightarrow> ih_index (it_source t) \<noteq> ih_index (it_destination t) \<and>
      ss_objects (snd (abort_transfer t s)) = (ss_objects s)[ih_index (it_source t) :=
        (object_of s (it_source t))\<lparr>io_source_pins := u32_sub (io_source_pins (object_of s (it_source t))) 1\<rparr>,
        ih_index (it_destination t) := (end_destination ((object_of s (it_destination t))\<lparr>io_pending_device_slot := None\<rparr>))\<lparr>
          io_role := ReservedDestination, io_content_epoch := 0\<rparr>]"
    and "same_data s (snd (abort_transfer t s))"
proof -
  note live = transfer_live [OF ok t]
  note ia = valid_index [OF live(2)] and ib = valid_index [OF live(3)]
  have same: "it_destination t = it_source t" if "it_direction t = HostToDevice"
    using live(4) that by (simp add: transfer_ok_def)
  have n: "ih_index (it_source t) \<noteq> ih_index (it_destination t)" if "it_direction t = HostToFork"
    using live(4,5) that by (auto simp: transfer_ok_def)
  show "same_data s (snd (abort_transfer t s))"
    using live by (simp add: abort_transfer_def Let_def split: option.split)
  show "ss_objects (snd (abort_transfer t s)) = (ss_objects s)[ih_index (it_source t) :=
      end_destination ((object_of s (it_source t))\<lparr>
        io_source_pins := u32_sub (io_source_pins (object_of s (it_source t))) 1, io_pending_host_slot := None\<rparr>)]"
    if "it_direction t = DeviceToHost"
    using that live ia by (simp add: abort_transfer_def Let_def split: option.split)
  show "ss_objects (snd (abort_transfer t s)) = (ss_objects s)[ih_index (it_source t) :=
      end_destination ((object_of s (it_source t))\<lparr>
        io_source_pins := u32_sub (io_source_pins (object_of s (it_source t))) 1, io_pending_device_slot := None\<rparr>)]"
    if "it_direction t = HostToDevice"
    using that live ia same [OF that] by (simp add: abort_transfer_def Let_def split: option.split)
  show "ih_index (it_source t) \<noteq> ih_index (it_destination t) \<and>
      ss_objects (snd (abort_transfer t s)) = (ss_objects s)[ih_index (it_source t) :=
        (object_of s (it_source t))\<lparr>io_source_pins := u32_sub (io_source_pins (object_of s (it_source t))) 1\<rparr>,
        ih_index (it_destination t) := (end_destination ((object_of s (it_destination t))\<lparr>io_pending_device_slot := None\<rparr>))\<lparr>
          io_role := ReservedDestination, io_content_epoch := 0\<rparr>]"
    if "it_direction t = HostToFork"
    using that live ia ib n [OF that] by (simp add: abort_transfer_def Let_def split: option.split)
qed

lemma abort_transfer_calm:
  assumes "store_ok s C" and "TransferClaim t \<in># C"
  shows "calm_step s (snd (abort_transfer t s))"
proof -
  note obs = abort_transfer_objects [OF assms] and live = transfer_live [OF assms]
  have "list_all2 calm (ss_objects s) (ss_objects (snd (abort_transfer t s)))"
  proof (cases "it_direction t")
    case DeviceToHost
    show ?thesis unfolding obs(1) [OF DeviceToHost]
      by (intro calm_update shrink_calm) (use live(5) in \<open>simp_all add: held_defs\<close>)
  next
    case HostToDevice
    show ?thesis unfolding obs(2) [OF HostToDevice]
      by (intro calm_update shrink_calm) (use live(5) in \<open>simp_all add: held_defs\<close>)
  next
    case HostToFork
    show ?thesis unfolding obs(3) [OF HostToFork, THEN conjunct2]
      by (intro calm_updates pins_calm live(5) obs(3) [OF HostToFork, THEN conjunct1]) (simp add: calm_def tracked_def)
  qed
  then show ?thesis using obs(4) by (simp add: calm_step_def)
qed

section \<open>Operations that write payloads\<close>

lemma device_exclusive:
  assumes "store_ok s C" and "i < length (ss_objects s)" and "j < length (ss_objects s)" and "i \<noteq> j"
    and "d \<in># device_held (ss_objects s ! i)"
  shows "d \<notin># device_held (ss_objects s ! j)"
proof
  assume "d \<in># device_held (ss_objects s ! j)"
  then have "0 < count (device_held (ss_objects s ! i)) d" "0 < count (device_held (ss_objects s ! j)) d"
    using assms(5) by simp_all
  then have "count (device_held (ss_objects s ! i) + device_held (ss_objects s ! j)) d \<ge> 2"
    unfolding count_union by linarith
  moreover note mset_subset_eq_count [OF held_by_two [OF assms(2-4), of device_held], of d]
  ultimately have "2 \<le> count (held_by device_held (ss_objects s)) d" by linarith
  moreover have "count (held_by device_held (ss_objects s)) d \<le> 1"
    using device_balance_distinct [of s "{#}" d] store_ok_loose [OF assms(1)] by (simp add: loose_def)
  ultimately show False by simp
qed

lemma taken_unheld:
  assumes "loose s {#} {#}" and "take_device_slot s = (Some d, t)" and "i < length (ss_objects s)"
  shows "d \<notin># device_held (ss_objects s ! i)"
proof
  assume "d \<in># device_held (ss_objects s ! i)"
  then have "d \<in># held_by device_held (ss_objects s)"
    using held_by_mono [OF assms(3), of device_held] by (rule mset_subset_eqD [rotated])
  then have "0 < count (held_by device_held (ss_objects s)) d" unfolding count_greater_zero_iff .
  moreover have "count (held_by device_held (ss_objects t)) d + 1 \<le> 1"
    using device_balance_distinct [of t "{#d#}" d] loose_take_device [OF assms(1,2)] by (simp add: loose_def)
  ultimately show False unfolding take_device_slot_fields [OF assms(2)] by linarith
qed

lemma host_exclusive:
  assumes "store_ok s C" and "i < length (ss_objects s)" and "j < length (ss_objects s)" and "i \<noteq> j"
    and "h \<in># host_held (ss_objects s ! i)" and "k \<in># host_held (ss_objects s ! j)"
  shows "fst k \<noteq> fst h"
proof -
  note l = store_ok_loose [OF assms(1)]
  obtain p where p: "ss_host s = Some p" by (rule host_held_valid [OF l assms(2,5)])
  then have b: "host_slots.balanced p (held_by host_held (ss_objects s))"
    using l by (simp add: loose_def host_balance_def)
  have sub: "{#h, k#} \<subseteq># held_by host_held (ss_objects s)"
  proof -
    have "{#h#} + {#k#} \<subseteq># host_held (ss_objects s ! i) + host_held (ss_objects s ! j)"
      using assms(5,6) by (intro subset_mset.add_mono) (simp_all add: single_subset_iff)
    also have "\<dots> \<subseteq># held_by host_held (ss_objects s)" by (rule held_by_two [OF assms(2-4)])
    finally show ?thesis by (simp add: add_mset_commute)
  qed
  have "h \<in># held_by host_held (ss_objects s)" using sub by (meson mset_subset_eqD union_single_eq_member)
  moreover have "k \<in># held_by host_held (ss_objects s) - {#h#}"
    using sub by (metis insert_subset_eq_iff single_subset_iff)
  ultimately show ?thesis using host_slots.balanced_distinct [OF b] by blast
qed

text \<open>A payload written to a device slot that no tracked image holds.\<close>

lemma written_all_kept:
  assumes co: "coherent s" and ok: "store_ok t C" and c: "list_all2 calm (ss_objects s) (ss_objects t)"
    and d: "ss_device_data t = (ss_device_data s)(d := x)" "host_data t = host_data s"
    and un: "\<And>i. i < length (ss_objects t) \<Longrightarrow> tracked (ss_objects t ! i) \<Longrightarrow> d \<notin># device_held (ss_objects t ! i)"
  shows "all_kept s t"
  unfolding all_kept_def
proof (intro conjI allI impI)
  show len: "length (ss_objects t) = length (ss_objects s)" using c by (simp add: list_all2_lengthD)
  show "kept s t i" if "i < length (ss_objects s)" for i
    by (rule calm_kept [OF co ok that len]) (use c d un that len in \<open>auto simp: list_all2_conv_all_nth agree_def\<close>)
qed

lemma host_written_all_kept:
  assumes co: "coherent s" and ok: "store_ok t C" and c: "list_all2 calm (ss_objects s) (ss_objects t)"
    and d: "ss_device_data t = ss_device_data s" "host_data t = (host_data s)(k := x)"
    and un: "\<And>i h. i < length (ss_objects t) \<Longrightarrow> h \<in># host_held (ss_objects t ! i) \<Longrightarrow> fst h \<noteq> k"
  shows "all_kept s t"
  unfolding all_kept_def
proof (intro conjI allI impI)
  show len: "length (ss_objects t) = length (ss_objects s)" using c by (simp add: list_all2_lengthD)
  show "kept s t i" if "i < length (ss_objects s)" for i
    by (rule calm_kept [OF co ok that len]) (use c d un that len in \<open>auto simp: list_all2_conv_all_nth agree_def\<close>)
qed

lemma active_untracked:
  assumes "store_ok s C" and "i < length (ss_objects s)" and "io_role (ss_objects s ! i) \<noteq> CheckpointImmutable"
    and "io_device_slot (ss_objects s ! i) \<noteq> None"
  shows "\<not> tracked (ss_objects s ! i)"
proof -
  note at = claims_at [OF store_ok_claims [OF assms(1)] assms(2)]
  have "io_pending_device_slot (ss_objects s ! i) = None"
  proof (cases "writers C i = {#}")
    case True
    then show ?thesis using at by (simp add: index_ok_def pending_iff)
  next
    case False
    then obtain c where "writer_ok (ss_id s) i (ss_objects s ! i) c" using at by (auto simp: index_ok_def)
    then show ?thesis
      using assms(3,4) by (cases c) (auto simp: writer_ok_def transfer_ok_def pending_iff split: transfer_direction.splits)
  qed
  then show ?thesis using assms(3) by (simp add: tracked_def)
qed

text \<open>Writing the device slot of an image that is not a checkpoint.\<close>

lemma write_active_kept:
  assumes co: "coherent s" and ok: "store_ok s C" and v: "image_valid s h"
    and d: "io_device_slot (object_of s h) = Some d" and r: "io_role (object_of s h) \<noteq> CheckpointImmutable"
    and t: "store_ok t C'" "list_all2 calm (ss_objects s) (ss_objects t)" "ss_device_data t = (ss_device_data s)(d := x)"
      "host_data t = host_data s" "ss_objects t = (ss_objects s)[ih_index h := ob]" "\<not> tracked ob"
  shows "all_kept s t"
proof (rule written_all_kept [OF co t(1-4)])
  fix i assume i: "i < length (ss_objects t)" and tr: "tracked (ss_objects t ! i)"
  have idx: "ih_index h < length (ss_objects s)" by (rule valid_index [OF v])
  have ne: "i \<noteq> ih_index h" using tr t(5,6) idx by auto
  have "d \<in># device_held (object_of s h)" by (simp add: held_defs d)
  then show "d \<notin># device_held (ss_objects t ! i)"
    using device_exclusive [OF ok idx, of i d] i ne t(5) by simp
qed

end
