(* ===== verification/StateRuns.thy ===== *)
theory StateRuns
  imports StateContent
begin

text \<open>
  Runs of the image store: every operation as a step, the invariant of the reachable states, and what it
  gives the callers.
\<close>

declare not_None_eq [iff del]

section \<open>Payloads written by resets, executions and copies\<close>

lemma selectors_destination:
  assumes "selectors s a b = Inr (x, y)"
  shows "image_valid s b" "io_device_slot (object_of s b) = Some y" "io_role (object_of s b) = ActiveMutable"
    "image_valid s a" "io_device_slot (object_of s a) = Some x"
  using assms
  by (auto simp: selectors_def require_image_def Let_def split: if_splits)

lemma execute_kept:
  assumes "coherent s" and "store_ok s C" and "selectors s a b = Inr (x, y)"
  shows "all_kept s (write_device y v s)"
proof -
  note sel = selectors_destination [OF assms(3)]
  show ?thesis
  proof (rule write_active_kept [OF assms(1,2) sel(1,2), where ob = "object_of s b" and C' = C])
    show "\<not> tracked (object_of s b)"
      by (rule active_untracked [OF assms(2) valid_index [OF sel(1)]]) (simp_all add: sel)
  qed (use assms(2) sel in \<open>simp_all add: write_device_ok list_all2_refl host_data_fun\<close>)
qed

lemma activate_reset_kept:
  assumes co: "coherent s" and ok: "store_ok s C"
  shows "all_kept s (snd (activate_reset fault h s))"
proof (cases "image_valid s h \<and> io_role (object_of s h) = ReservedDestination \<and> io_device_slot (object_of s h) \<noteq> None \<and>
    idle (object_of s h)")
  case False
  then have "snd (activate_reset fault h s) = s"
    by (auto simp: activate_reset_def with_image_def require_image_def)
  then show ?thesis using co by (simp add: all_kept_refl)
next
  case True
  then have v: "image_valid s h" and r: "io_role (object_of s h) = ReservedDestination" and i: "idle (object_of s h)" by simp_all
  obtain d where d: "io_device_slot (object_of s h) = Some d" using True by (cases "io_device_slot (object_of s h)") simp_all
  note idx = valid_index [OF v]
  have e: "activate_reset g h s = (case zero_slot g d s of
        (Inr _, s1) \<Rightarrow> (Inr (), set_role h ActiveMutable (set_epoch h s1)) | (Inl e, s1) \<Rightarrow> (Inl e, s1))" for g
    using True d by (simp add: activate_reset_def with_image_def require_image_def)
  have ok': "store_ok (snd (activate_reset fault h s)) C" by (rule activate_reset_ok [OF ok])
  have u: "\<not> tracked (object_of s h)" using r i by (simp add: idle_tracked)
  show ?thesis
  proof (cases fault)
    case None
    let ?e = "fst (next_epoch (write_device d (ss_zero s) s))"
    show ?thesis
      by (rule write_active_kept [OF co ok v d _ ok', where x = "ss_zero s"
            and ob = "(object_of s h)\<lparr>io_content_epoch := ?e, io_role := ActiveMutable\<rparr>"])
        (use r i idx None in \<open>simp_all add: e zero_slot_def set_role_epoch host_data_fun tracked_def idle_iff
          calm_update calm_def\<close>)
  next
    case (Some y)
    show ?thesis
      by (rule write_active_kept [OF co ok v d _ ok', where x = y and ob = "object_of s h"])
        (use r u Some in \<open>simp_all add: e zero_slot_def host_data_fun list_all2_refl\<close>)
  qed
qed

lemma release_image_unheld:
  assumes "store_ok t C" and "handed_out s ob t h" and "io_device_slot ob = Some d"
    and "i < length (ss_objects s)" and "i \<noteq> ih_index h"
  shows "d \<notin># device_held (ss_objects s ! i)"
proof -
  have t: "ss_objects t = (ss_objects s)[ih_index h := ob]" "ih_index h < length (ss_objects s)"
    using assms(2) by (simp_all add: handed_out_def)
  have "d \<in># device_held (ss_objects t ! ih_index h)" using t assms(3) by (simp add: held_defs)
  then have "d \<notin># device_held (ss_objects t ! i)"
    using device_exclusive [OF assms(1), of "ih_index h" i d] assms(4,5) t by simp
  then show ?thesis using t assms(5) by simp
qed

lemma can_release_write_device [simp]: "can_release_image (write_device d x s) h = can_release_image s h"
  by (simp add: can_release_image_def image_valid_def)

lemma reserve_reset_kept:
  assumes co: "coherent s" and ok: "store_ok s C"
  shows "all_kept s (snd (reserve_reset fault s))"
proof (cases "allocate_image ActiveMutable True s")
  case (Pair oh t)
  show ?thesis
  proof (cases oh)
    case None
    then show ?thesis
      using Pair allocate_image_none [of ActiveMutable True s t] co by (simp add: reserve_reset_def all_kept_refl)
  next
    case (Some h)
    then obtain slot where h: "handed_out s ((fresh_object (ih_generation h) ActiveMutable)\<lparr>io_device_slot := slot\<rparr>) t h"
        and sl: "True = (slot \<noteq> None)" and t: "store_ok t C" "image_valid t h"
      using Pair allocate_image_ok [OF ok, of ActiveMutable True h t] by metis
    obtain d where d: "slot = Some d" using sl by (cases slot) simp_all
    let ?ob = "(fresh_object (ih_generation h) ActiveMutable)\<lparr>io_device_slot := Some d\<rparr>"
    have o: "ss_objects t = (ss_objects s)[ih_index h := ?ob]" "ih_index h < length (ss_objects s)"
        "ss_device_data t = ss_device_data s" "ss_host t = ss_host s" "ss_zero t = ss_zero s"
      using h d by (simp_all add: handed_out_def)
    have unheld: "d \<notin># device_held (ss_objects s ! i)" if "i < length (ss_objects s)" "i \<noteq> ih_index h" for i
      by (rule release_image_unheld [OF t(1) h _ that]) (simp add: d)
    have e: "reserve_reset g s = (case zero_slot g d t of (Inr _, s2) \<Rightarrow> (Inr (Some h), set_epoch h s2)
          | (Inl e, s2) \<Rightarrow> (Inl e, snd (release_image h s2)))" for g
      using o by (simp add: reserve_reset_def Pair Some)
    have ok': "store_ok (snd (reserve_reset fault s)) C" by (rule reserve_reset_ok [OF ok])
    have dn: "all_kept s u" if "store_ok u C" "ss_objects u = (ss_objects s)[ih_index h := ob]" "\<not> tracked ob"
        "ss_device_data u = (ss_device_data s)(d := x)" "host_data u = host_data s" for u ob x
      by (rule written_all_kept [OF co that(1) _ that(4,5)])
        (use that(2,3) o(2) unheld in \<open>auto simp: calm_update calm_def nth_list_update split: if_splits\<close>)
    show ?thesis
    proof (cases fault)
      case None
      show ?thesis
        by (rule dn [OF ok', where x = "ss_zero s" and ob = "?ob\<lparr>io_content_epoch := fst (next_epoch (write_device d (ss_zero s) t))\<rparr>"])
          (use o None in \<open>simp_all add: e zero_slot_def set_epoch_def case_prod_beta host_data_fun tracked_def fresh_object_def\<close>)
    next
      case f: (Some x)
      have can: "can_release_image t h"
        using t(2) o by (simp add: can_release_image_def pending_iff fresh_object_def)
      show ?thesis
        by (rule dn [OF ok', where x = x and ob = "retired ?ob"])
          (use o f can in \<open>simp_all add: e zero_slot_def release_image_def retire_image_fields
            host_data_fun tracked_def retired_def fresh_object_def\<close>)
    qed
  qed
qed

text \<open>A copy that fails leaves its destination slot free, with whatever was written there.\<close>

lemma begin_device_to_host_kept:
  assumes co: "coherent s" and ok: "store_ok s C"
  shows "all_kept s (snd (begin_device_to_host fault h s))"
proof (cases rule: reserve_device_to_host_cases [of h s])
  case 1
  then obtain e where "reserve_device_to_host h s = (Inl e, s)" by (cases "reserve_device_to_host h s") simp
  then show ?thesis using co by (simp add: begin_device_to_host_def all_kept_refl)
next
  case 2
  then show ?thesis using co by (simp add: begin_device_to_host_def all_kept_refl)
next
  case (3 p hp q ident)
  let ?t = "new_transfer s ident DeviceToHost h h" and ?i = "ih_index h" and ?ob = "object_of s h"
  define s1 where "s1 = snd (reserve_device_to_host h s)"
  have r: "reserve_device_to_host h s = (Inr (Some ?t), s1)" using 3 by (simp add: s1_def)
  have ok1: "store_ok s1 (add_mset (TransferClaim ?t) C)" using reserve_device_to_host_ok [OF ok, of h] by (simp add: r)
  note live = transfer_live [OF ok1, of ?t, simplified] and idx = valid_index [OF 3(1)]
  obtain d where d: "io_device_slot ?ob = Some d" using 3(4) by (cases "io_device_slot ?ob") simp_all
  have "same_data s (s\<lparr>ss_host := Some q\<rparr>)" by (rule same_data_allocate [OF 3(8,2)])
  then have dat: "ss_device_data s1 = ss_device_data s" "host_data s1 = host_data s"
    using 3(10) by (simp_all add: s1_def same_data_def host_data_fun)
  let ?ob1 = "?ob\<lparr>io_pending_host_slot := Some hp, io_transfer_id := ident, io_destination_pinned := True,
    io_source_pins := u32_add (io_source_pins ?ob) 1\<rparr>"
  have o1: "ss_objects s1 = (ss_objects s)[?i := ?ob1]" using 3(10) idx by (simp add: s1_def)
  have e: "enqueue_device_to_host g ?t s1 = copy_to_host g d hp s1" for g
    using live 3 d o1 idx by (simp add: enqueue_device_to_host_def with_image_def require_image_def) (simp add: s1_def)
  have mem: "hp \<in># host_held (object_of s1 h)" using o1 idx by (simp add: held_defs)
  have other: "\<forall>k\<in>#host_held (ss_objects s ! j). fst k \<noteq> fst hp" if "j < length (ss_objects s)" "j \<noteq> ?i" for j
    using host_exclusive [OF ok1, of ?i j hp] mem that o1 idx by simp
  have own: "\<forall>k\<in>#host_held (ss_objects s ! ?i). fst k \<noteq> fst hp" using 3(5,6) by (simp add: held_defs pending_iff)
  have hd: "host_data (s1\<lparr>ss_host := Some (write_host (fst hp) x p1)\<rparr>) = (host_data s)(fst hp := Some x)"
    if "ss_host s1 = Some p1" for p1 x
    using that dat(2) by (auto simp: host_data_fun write_host_def fun_eq_iff)
  show ?thesis
  proof (cases rule: copy_to_host_cases [OF store_ok_loose [OF ok1] valid_index [OF live(2)] mem, of fault d])
    case (1 p1)
    let ?u = "s1\<lparr>ss_host := Some (write_host (fst hp) (ss_device_data s1 d) p1)\<rparr>"
    have u: "snd (begin_device_to_host fault h s) = ?u" using 1(3) by (simp add: begin_device_to_host_def r e)
    have oku: "store_ok ?u (add_mset (TransferClaim ?t) C)" by (rule write_host_ok [OF ok1 1(1)])
    have "kept s ?u j" if j: "j < length (ss_objects s)" for j
    proof (cases "j = ?i")
      case True
      have "replicas ?u ?ob1 = {ss_device_data s d}" "replicas s ?ob = {ss_device_data s d}"
        using d 3(5,6) dat(1)
        by (simp_all add: replicas_def held_defs host_payloads_data hd [OF 1(1)] pending_iff)
      then show ?thesis
        using True 3(3) o1 idx by (intro kept_same [OF _ _ co]) (simp_all add: tracked_def)
    next
      case False
      show ?thesis
        by (rule calm_kept [OF co oku j])
          (use False o1 other [OF j False] dat(1) in \<open>simp_all add: agree_def hd [OF 1(1)]\<close>)
    qed
    then show ?thesis unfolding u all_kept_def using o1 by simp
  next
    case (2 p1 x)
    let ?s2 = "s1\<lparr>ss_host := Some (write_host (fst hp) x p1)\<rparr>"
    have ok2: "store_ok ?s2 (add_mset (TransferClaim ?t) C)" by (rule write_host_ok [OF ok1 2(1)])
    have u: "snd (begin_device_to_host fault h s) = snd (abort_transfer ?t ?s2)"
      using 2(3) by (simp add: begin_device_to_host_def r e)
    note obs = abort_transfer_objects [OF ok2, of ?t, simplified]
    have ou: "ss_objects (snd (abort_transfer ?t ?s2)) = (ss_objects s)[?i := end_destination (?ob1\<lparr>
        io_source_pins := u32_sub (io_source_pins ?ob1) 1, io_pending_host_slot := None\<rparr>)]"
      using obs(1) o1 idx by simp
    show ?thesis
      unfolding u
    proof (rule host_written_all_kept [OF co abort_transfer_live [OF ok2]])
      show "list_all2 calm (ss_objects s) (ss_objects (snd (abort_transfer ?t ?s2)))"
        unfolding ou by (intro calm_update shrink_calm) (use 3(3) in \<open>simp_all add: held_defs\<close>)
      show "ss_device_data (snd (abort_transfer ?t ?s2)) = ss_device_data s"
        "host_data (snd (abort_transfer ?t ?s2)) = (host_data s)(fst hp := Some x)"
        using obs(4) dat(1) hd [OF 2(1), of x] by (simp_all add: same_data_def)
      fix j k assume j: "j < length (ss_objects (snd (abort_transfer ?t ?s2)))"
        and k: "k \<in># host_held (ss_objects (snd (abort_transfer ?t ?s2)) ! j)"
      show "fst k \<noteq> fst hp"
        using j k ou own other [of j] 3(5) by (cases "j = ?i") (auto simp: held_defs)
    qed
  qed
qed

lemma begin_host_to_device_kept:
  assumes co: "coherent s" and ok: "store_ok s C"
  shows "all_kept s (snd (begin_host_to_device fault h s))"
proof (cases rule: begin_host_to_device_cases [of fault h s])
  case (3 d s1 ident)
  let ?ob = "object_of s h" and ?i = "ih_index h"
  define s3 where "s3 = pin_source h (modify_image h (\<lambda>ob. ob\<lparr>io_pending_device_slot := Some d,
    io_transfer_id := ident, io_destination_pinned := True\<rparr>) (snd (next_transfer s1)))"
  let ?ob3 = "?ob\<lparr>io_pending_device_slot := Some d, io_transfer_id := ident, io_destination_pinned := True,
    io_source_pins := u32_add (io_source_pins ?ob) 1\<rparr>"
  note idx = valid_index [OF 3(1)] and f1 = take_device_slot_fields [OF 3(8)] and l = store_ok_loose [OF ok]
  have s3: "ss_objects s3 = (ss_objects s)[?i := ?ob3]" "ss_device_data s3 = ss_device_data s" "ss_host s3 = ss_host s"
    using idx by (simp_all add: s3_def f1)
  obtain hs where hs: "io_host_slot ?ob = Some hs" using 3(5) by (cases "io_host_slot ?ob") simp_all
  have mem: "hs \<in># host_held ?ob" by (simp add: held_defs hs)
  obtain p where p: "ss_host s = Some p" "hsp_valid p hs" by (rule host_held_valid [OF l idx mem])
  note unheld = taken_unheld [OF l 3(8)]
  have ok': "store_ok (snd (begin_host_to_device fault h s)) (claims_after (fst (begin_host_to_device fault h s)) C)"
    by (rule begin_host_to_device_ok [OF ok])
  show ?thesis
  proof (cases fault)
    case None
    have u: "snd (begin_host_to_device fault h s) = write_device d (hp_data p (fst hs)) s3"
      using 3(10) None p s3(3) by (simp add: hs s3_def [symmetric] copy_from_host_def)
    have "kept s (write_device d (hp_data p (fst hs)) s3) j" if j: "j < length (ss_objects s)" for j
    proof (cases "j = ?i")
      case True
      have "replicas (write_device d (hp_data p (fst hs)) s3) ?ob3 = {hp_data p (fst hs)}" "replicas s ?ob = {hp_data p (fst hs)}"
        using hs 3(4,6) p(1) s3(3) by (simp_all add: replicas_def held_defs host_payloads_def pending_iff)
      then show ?thesis using True 3(3) s3(1) idx by (intro kept_same [OF _ _ co]) (simp_all add: tracked_def)
    next
      case False
      show ?thesis
        by (rule calm_kept [OF co ok' [unfolded u] j])
          (use False s3 unheld [OF j] in \<open>auto simp: agree_def host_data_fun\<close>)
    qed
    then show ?thesis unfolding u all_kept_def using s3(1) by simp
  next
    case (Some x)
    define u where "u = snd (begin_host_to_device fault h s)"
    have u: "u = return_device_slot d (modify_image h (\<lambda>ob. (end_destination ob)\<lparr>io_pending_device_slot := None\<rparr>)
        (unpin_source h (write_device d x s3)))"
      using 3(10) Some p s3(3) by (simp add: u_def hs s3_def [symmetric] copy_from_host_def)
    let ?ob' = "(end_destination (?ob3\<lparr>io_source_pins := u32_sub (io_source_pins ?ob3) 1\<rparr>))\<lparr>io_pending_device_slot := None\<rparr>"
    have ou: "ss_objects u = (ss_objects s)[?i := ?ob']" using s3(1) idx by (simp add: u)
    have "all_kept s u"
    proof (rule written_all_kept [OF co ok' [folded u_def]])
      show "list_all2 calm (ss_objects s) (ss_objects u)"
        unfolding ou by (intro calm_update shrink_calm) (use 3(3) in \<open>simp_all add: held_defs\<close>)
      show "ss_device_data u = (ss_device_data s)(d := x)" "host_data u = host_data s"
        using s3(2,3) by (simp_all add: u host_data_fun)
      show "d \<notin># device_held (ss_objects u ! j)" if "j < length (ss_objects u)" for j
        using unheld [of j] that idx 3(4) by (cases "j = ?i") (simp_all add: ou held_defs)
    qed
    then show ?thesis by (simp add: u_def)
  qed
qed (use co in \<open>simp_all add: all_kept_refl\<close>)

lemma begin_host_fork_kept:
  assumes co: "coherent s" and ok: "store_ok s C"
  shows "all_kept s (snd (begin_host_fork fault a b s))"
    and "fst (begin_host_fork fault a b s) = Inr (Some t) \<Longrightarrow>
      it_source t = a \<and> it_destination t = b \<and> it_direction t = HostToFork \<and>
      io_role (object_of s a) = CheckpointImmutable \<and>
      replicas (snd (begin_host_fork fault a b s)) (object_of (snd (begin_host_fork fault a b s)) b) =
        replicas s (object_of s a)"
proof -
  let ?thesis' = "all_kept s (snd (begin_host_fork fault a b s)) \<and>
    (fst (begin_host_fork fault a b s) = Inr (Some t) \<longrightarrow>
      it_source t = a \<and> it_destination t = b \<and> it_direction t = HostToFork \<and>
      io_role (object_of s a) = CheckpointImmutable \<and>
      replicas (snd (begin_host_fork fault a b s)) (object_of (snd (begin_host_fork fault a b s)) b) =
        replicas s (object_of s a))"
  have ?thesis'
  proof (cases rule: begin_host_fork_cases [of fault a b s])
    case (3 d s1 ident)
    let ?sob = "object_of s a" and ?dob = "object_of s b" and ?i = "ih_index a" and ?j = "ih_index b"
    define s3 where "s3 = pin_source a (modify_image b (\<lambda>ob. ob\<lparr>io_pending_device_slot := Some d,
      io_transfer_id := ident, io_destination_pinned := True, io_role := ActiveMutable,
      io_content_epoch := io_content_epoch ?sob\<rparr>) (snd (next_transfer s1)))"
    let ?dob3 = "?dob\<lparr>io_pending_device_slot := Some d, io_transfer_id := ident, io_destination_pinned := True,
      io_role := ActiveMutable, io_content_epoch := io_content_epoch ?sob\<rparr>"
    let ?sob3 = "?sob\<lparr>io_source_pins := u32_add (io_source_pins ?sob) 1\<rparr>"
    note ia = valid_index [OF 3(1)] and ib = valid_index [OF 3(2)] and f1 = take_device_slot_fields [OF 3(9)]
      and l = store_ok_loose [OF ok]
    have n: "?i \<noteq> ?j" by (rule valid_distinct [OF 3(1-3)])
    have s3: "ss_objects s3 = (ss_objects s)[?i := ?sob3, ?j := ?dob3]" "ss_device_data s3 = ss_device_data s" "ss_host s3 = ss_host s"
      using ia ib n by (simp_all add: s3_def f1 list_update_swap [OF n])
    have vac: "device_held ?dob = {#}" "host_held ?dob = {#}" "\<not> tracked ?dob"
      using 3(8) by (simp_all add: vacant_def idle_iff held_defs tracked_def)
    obtain hs where hs: "io_host_slot ?sob = Some hs" using 3(6) by (cases "io_host_slot ?sob") simp_all
    have mem: "hs \<in># host_held ?sob" by (simp add: held_defs hs)
    obtain p where p: "ss_host s = Some p" "hsp_valid p hs" by (rule host_held_valid [OF l ia mem])
    note unheld = taken_unheld [OF l 3(9)]
    have ok': "store_ok (snd (begin_host_fork fault a b s)) (claims_after (fst (begin_host_fork fault a b s)) C)"
      by (rule begin_host_fork_ok [OF ok])
    have trs: "tracked ?sob" using 3(5) by (simp add: tracked_def)
    obtain y where y: "replicas s ?sob = {y}" using coherent_at [OF co ia trs] by blast
    have x: "hp_data p (fst hs) = y" using y p(1) hs by (auto simp: replicas_def host_payloads_def held_defs)
    show ?thesis
    proof (cases fault)
      case None
      let ?u = "write_device d (hp_data p (fst hs)) s3"
      have u: "begin_host_fork fault a b s = (Inr (Some (new_transfer s ident HostToFork a b)), ?u)"
        using 3(11) None p s3(3) by (simp add: hs s3_def [symmetric] copy_from_host_def)
      have rd: "replicas ?u ?dob3 = {y}"
        using vac x by (simp add: replicas_def held_defs host_payloads_data)
      have "kept s ?u k" if k: "k < length (ss_objects s)" for k
      proof (cases "k = ?j")
        case True
        then show ?thesis using rd vac(3) s3(1) ib by (intro kept_fresh [of _ _ _ y]) simp_all
      next
        case False
        have uk: "ss_objects s3 ! k = (if k = ?i then ?sob3 else ss_objects s ! k)"
          using False s3(1) ia by simp
        have len: "length (ss_objects ?u) = length (ss_objects s)" using s3(1) by simp
        have c: "calm (ss_objects s ! k) (ss_objects ?u ! k)" using 3(5) by (simp add: uk pins_calm)
        have "device_held (ss_objects s3 ! k) = device_held (ss_objects s ! k)" by (simp add: uk)
        then have "agree s ?u (ss_objects ?u ! k)" using unheld [OF k] s3(2,3) by (auto simp: agree_def host_data_fun)
        then show ?thesis by (rule calm_kept [OF co ok' [unfolded u snd_conv] k len c])
      qed
      then have "all_kept s ?u" unfolding all_kept_def using s3(1) by simp
      moreover have "object_of ?u b = ?dob3" using s3(1) ib by simp
      ultimately show ?thesis using rd y 3(5) by (auto simp: u)
    next
      case (Some z)
      define u where "u = snd (begin_host_fork fault a b s)"
      have u: "u = return_device_slot d (modify_image b (\<lambda>ob. (end_destination ob)\<lparr>io_pending_device_slot := None,
          io_role := ReservedDestination, io_content_epoch := 0\<rparr>) (unpin_source a (write_device d z s3)))"
          "isl (fst (begin_host_fork fault a b s))"
        using 3(11) Some p s3(3) by (simp_all add: u_def hs s3_def [symmetric] copy_from_host_def)
      let ?dob' = "(end_destination ?dob3)\<lparr>io_pending_device_slot := None, io_role := ReservedDestination, io_content_epoch := 0\<rparr>"
      let ?sob' = "?sob3\<lparr>io_source_pins := u32_sub (io_source_pins ?sob3) 1\<rparr>"
      have ou: "ss_objects u = (ss_objects s)[?i := ?sob', ?j := ?dob']"
        using s3(1) ia ib n by (simp add: u list_update_swap [OF n])
      have dh: "device_held ?dob' = {#}" using vac(1) by (simp add: held_defs)
      have "all_kept s u"
      proof (rule written_all_kept [OF co ok' [folded u_def]])
        show "list_all2 calm (ss_objects s) (ss_objects u)"
          unfolding ou by (intro calm_updates n) (use 3(5) in \<open>simp_all add: calm_def shrinks_def tracked_def\<close>)
        show "ss_device_data u = (ss_device_data s)(d := z)" "host_data u = host_data s"
          using s3(2,3) by (simp_all add: u host_data_fun)
        show "d \<notin># device_held (ss_objects u ! k)" if "k < length (ss_objects u)" for k
          using unheld [of k] that ia ib n dh by (cases "k = ?i"; cases "k = ?j") (simp_all add: ou)
      qed
      then show ?thesis using u(2) by (auto simp: u_def)
    qed
  qed (use co in \<open>simp_all add: all_kept_refl\<close>)
  then show "all_kept s (snd (begin_host_fork fault a b s))"
    "fst (begin_host_fork fault a b s) = Inr (Some t) \<Longrightarrow>
      it_source t = a \<and> it_destination t = b \<and> it_direction t = HostToFork \<and>
      io_role (object_of s a) = CheckpointImmutable \<and>
      replicas (snd (begin_host_fork fault a b s)) (object_of (snd (begin_host_fork fault a b s)) b) =
        replicas s (object_of s a)" by blast+
qed

section \<open>Steps\<close>

text \<open>
  A state is the store with the claims that are live. Each operation is a step on every branch, whether
  it succeeds or throws; the claims of a caller are used up by a commit, a publication or an abort. Two
  steps carry an obligation of the caller: an image is thawed while it has no Host replica, and a
  publication drops the source replica only when the transfer is the one reader of the image. An
  execution writes any payload to the destination that \<open>selectors\<close> returned.
\<close>

type_synonym 'c image_state = "'c state_store \<times> claim multiset"

inductive image_step :: "'c image_state \<Rightarrow> 'c image_state \<Rightarrow> bool" where
  reserve: "image_step (s, C) (snd (reserve_destination s), C)"
| reserve_logical: "image_step (s, C) (snd (reserve_logical_destination s), C)"
| reset: "image_step (s, C) (snd (reserve_reset fault s), C)"
| activate: "image_step (s, C) (snd (activate_reset fault h s), C)"
| retain: "image_step (s, C) (snd (retain_checkpoint_reference h s), C)"
| unretain: "image_step (s, C) (snd (release_checkpoint_reference h s), C)"
| move: "image_step (s, C) (snd (move_checkpoint_to_active h s), C)"
| drop_device: "image_step (s, C) (snd (drop_device_replica h s), C)"
| drop_host: "image_step (s, C) (snd (drop_host_replica h s), C)"
| split: "image_step (s, C) (snd (split_device_replica_identity a b s), C)"
| freezing: "image_step (s, C) (snd (freeze h s), C)"
| thawing: "io_host_slot (object_of s h) = None \<Longrightarrow> image_step (s, C) (snd (thaw h s), C)"
| recycle: "image_step (s, C) (snd (recycle_checkpoint_destination h s), C)"
| restore: "image_step (s, C) (snd (restore_recycled_checkpoint h e s), C)"
| fork: "image_step (s, C) (snd (begin_fork a b s),
    if isl (fst (begin_fork a b s)) then C else add_mset (ForkClaim a b) C)"
| commit: "image_step (s, add_mset (ForkClaim a b) C) (snd (commit_fork a b s), C)"
| abort: "image_step (s, add_mset (ForkClaim a b) C) (snd (abort_fork a b s), C)"
| execute: "selectors s a b = Inr (x, y) \<Longrightarrow> image_step (s, C) (write_device y v s, C)"
| offload: "image_step (s, C) (snd (begin_device_to_host fault h s), claims_after (fst (begin_device_to_host fault h s)) C)"
| reload: "image_step (s, C) (snd (begin_host_to_device fault h s), claims_after (fst (begin_host_to_device fault h s)) C)"
| host_fork: "image_step (s, C) (snd (begin_host_fork fault a b s), claims_after (fst (begin_host_fork fault a b s)) C)"
| publish: "keep \<or> io_source_pins (object_of s (it_source t)) = 1 \<Longrightarrow>
    image_step (s, add_mset (TransferClaim t) C) (snd (publish_transfer t keep s), C)"
| abandon: "image_step (s, add_mset (TransferClaim t) C) (snd (abort_transfer t s), C)"
| release: "image_step (s, C) (snd (release_image h s), C)"

definition forks_synced :: "'c state_store \<Rightarrow> claim multiset \<Rightarrow> bool" where
  "forks_synced s C \<longleftrightarrow> (\<forall>t. TransferClaim t \<in># C \<and> it_direction t = HostToFork \<longrightarrow>
    replicas s (object_of s (it_destination t)) = replicas s (object_of s (it_source t)))"

definition images_ok :: "'c image_state \<Rightarrow> bool" where
  "images_ok st \<longleftrightarrow> store_ok (fst st) (snd st) \<and> coherent (fst st) \<and> forks_synced (fst st) (snd st)"

lemma image_step_store_ok:
  assumes "image_step st st'" and "store_ok (fst st) (snd st)"
  shows "store_ok (fst st') (snd st')"
  using assms
proof (cases rule: image_step.cases)
  case (reserve s C)
  then show ?thesis
    using assms(2) allocate_image_ok [of s C ReservedDestination True] allocate_image_none [of ReservedDestination True s]
    by (cases "allocate_image ReservedDestination True s"; cases "fst (allocate_image ReservedDestination True s)")
      (auto simp: reserve_destination_def)
next
  case (reserve_logical s C)
  then show ?thesis
    using assms(2) allocate_image_ok [of s C ReservedDestination False] allocate_image_none [of ReservedDestination False s]
    by (cases "allocate_image ReservedDestination False s"; cases "fst (allocate_image ReservedDestination False s)")
      (auto simp: reserve_logical_destination_def)
qed (use assms(2) in \<open>simp_all add: reserve_reset_ok activate_reset_ok retain_checkpoint_reference_ok
    release_checkpoint_reference_ok move_checkpoint_to_active_ok drop_device_replica_ok drop_host_replica_ok
    split_device_replica_identity_ok freeze_ok thaw_ok recycle_checkpoint_destination_ok restore_recycled_checkpoint_ok
    begin_fork_ok [simplified] commit_fork_live abort_fork_live write_device_ok begin_device_to_host_ok
    begin_host_to_device_ok begin_host_fork_ok publish_transfer_live abort_transfer_live release_image_ok\<close>)

lemmas calm_intros = references_calm freeze_calm thaw_calm drop_replica_calm move_checkpoint_to_active_calm
  recycle_calm restore_calm release_image_calm split_calm begin_fork_calm commit_fork_calm abort_fork_calm
  publish_transfer_calm abort_transfer_calm

lemma image_step_calm:
  assumes st: "image_step st st'" and ok: "store_ok (fst st) (snd st)" and co: "coherent (fst st)"
  shows "calm_step (fst st) (fst st') \<or> all_kept (fst st) (fst st')"
  using st
proof (cases rule: image_step.cases)
  case (reserve s C)
  then show ?thesis using ok allocate_image_calm [of s C ReservedDestination True] by (simp add: reserve_destination_def)
next
  case (reserve_logical s C)
  then show ?thesis using ok allocate_image_calm [of s C ReservedDestination False] by (simp add: reserve_logical_destination_def)
next
  case (reset s C fault)
  then show ?thesis using ok co reserve_reset_kept [of s C] by simp
next
  case (activate s C fault h)
  then show ?thesis using ok co activate_reset_kept [of s C] by simp
next
  case (execute s a b x y C v)
  then show ?thesis using ok co execute_kept [of s C] by simp
next
  case (offload s C fault h)
  then show ?thesis using ok co begin_device_to_host_kept [of s C] by simp
next
  case (reload s C fault h)
  then show ?thesis using ok co begin_host_to_device_kept [of s C] by simp
next
  case (host_fork s C fault a b)
  then show ?thesis using ok co begin_host_fork_kept(1) [of s C] by simp
next
  case (commit s a b C)
  then show ?thesis using ok commit_fork_calm [of s "add_mset (ForkClaim a b) C" a b] by simp
next
  case (abort s a b C)
  then show ?thesis using ok abort_fork_calm [of s "add_mset (ForkClaim a b) C" a b] by simp
next
  case (publish keep s t C)
  then show ?thesis using ok publish_transfer_calm [of s "add_mset (TransferClaim t) C" t] by simp
next
  case (abandon s t C)
  then show ?thesis using ok abort_transfer_calm [of s "add_mset (TransferClaim t) C" t] by simp
qed (use ok in \<open>auto intro: references_calm freeze_calm thaw_calm drop_replica_calm move_checkpoint_to_active_calm
    recycle_calm restore_calm release_image_calm split_calm begin_fork_calm\<close>)

lemma image_step_kept:
  assumes st: "image_step st st'" and ok: "store_ok (fst st) (snd st)" and co: "coherent (fst st)"
  shows "all_kept (fst st) (fst st')"
  using image_step_calm [OF assms] calm_all_kept [OF co image_step_store_ok [OF st ok]] by blast

text \<open>The claims a step adds: a fork from the Host starts with the payload of its source.\<close>

lemma image_step_claims:
  assumes "image_step st st'" and "store_ok (fst st) (snd st)" and "coherent (fst st)"
    and "TransferClaim t \<in># snd st'" and "it_direction t = HostToFork" and "TransferClaim t \<notin># snd st"
  shows "replicas (fst st') (object_of (fst st') (it_destination t)) = replicas (fst st) (object_of (fst st) (it_source t)) \<and>
    io_role (object_of (fst st) (it_source t)) = CheckpointImmutable"
  using assms(1)
proof (cases rule: image_step.cases)
  case (offload s C fault h)
  have "it_direction u = DeviceToHost" if "fst (begin_device_to_host fault h s) = Inr (Some u)" for u
  proof -
    from that obtain s1 where "reserve_device_to_host h s = (Inr (Some u), s1)"
      by (auto simp: begin_device_to_host_def split: prod.splits sum.splits option.splits)
    then show ?thesis by (cases rule: reserve_device_to_host_cases [of h s]) auto
  qed
  then show ?thesis using assms(4-6) offload by (auto simp: claims_after_def split: sum.splits option.splits)
next
  case (reload s C fault h)
  have "it_direction u = HostToDevice" if "fst (begin_host_to_device fault h s) = Inr (Some u)" for u
    by (cases rule: begin_host_to_device_cases [of fault h s])
      (use that in \<open>auto simp: Let_def split: prod.splits sum.splits\<close>)
  then show ?thesis using assms(4-6) reload by (auto simp: claims_after_def split: sum.splits option.splits)
next
  case (host_fork s C fault a b)
  have "fst (begin_host_fork fault a b s) = Inr (Some t)"
    using assms(4,6) host_fork by (auto simp: claims_after_def split: sum.splits option.splits)
  then show ?thesis using begin_host_fork_kept(2) [of s C fault a b t] assms(2,3) host_fork by simp
qed (use assms(4,6) in \<open>auto split: if_splits\<close>)

lemma image_step_synced:
  assumes st: "image_step st st'" and ok: "images_ok st"
  shows "forks_synced (fst st') (snd st')"
  unfolding forks_synced_def
proof (intro allI impI, elim conjE)
  fix t assume t: "TransferClaim t \<in># snd st'" "it_direction t = HostToFork"
  let ?s = "fst st" and ?s' = "fst st'"
  have so: "store_ok ?s (snd st)" and co: "coherent ?s" and sy: "forks_synced ?s (snd st)"
    using ok by (simp_all add: images_ok_def)
  have ok': "store_ok ?s' (snd st')" by (rule image_step_store_ok [OF st so])
  have ak: "all_kept ?s ?s'" by (rule image_step_kept [OF st so co])
  note live' = transfer_live [OF ok' t(1)]
  have tr': "tracked (object_of ?s' (it_source t))" "tracked (object_of ?s' (it_destination t))"
    using live'(4,5) t(2) by (simp_all add: tracked_def transfer_ok_def)
  have idx: "ih_index (it_source t) < length (ss_objects ?s)" "ih_index (it_destination t) < length (ss_objects ?s)"
    using valid_index [OF live'(2)] valid_index [OF live'(3)] ak by (simp_all add: all_kept_def)
  show "replicas ?s' (object_of ?s' (it_destination t)) = replicas ?s' (object_of ?s' (it_source t))"
  proof (cases "TransferClaim t \<in># snd st")
    case True
    note live = transfer_live [OF so True]
    have "tracked (object_of ?s (it_source t))" "tracked (object_of ?s (it_destination t))"
      using live(4,5) t(2) by (simp_all add: tracked_def transfer_ok_def)
    then show ?thesis using ak idx tr' sy True t(2) by (simp add: all_kept_def kept_def forks_synced_def)
  next
    case False
    note new = image_step_claims [OF st so co t False]
    from new have "tracked (object_of ?s (it_source t))" by (simp add: tracked_def)
    then show ?thesis using new ak idx tr' by (simp add: all_kept_def kept_def)
  qed
qed

lemma image_step_ok:
  assumes "image_step st st'" and "images_ok st"
  shows "images_ok st'"
proof -
  have so: "store_ok (fst st) (snd st)" and co: "coherent (fst st)" using assms(2) by (simp_all add: images_ok_def)
  show ?thesis
    using image_step_store_ok [OF assms(1) so] coherent_kept [OF co image_step_kept [OF assms(1) so co]]
      image_step_synced [OF assms] by (simp add: images_ok_def)
qed

inductive image_run :: "'c image_state \<Rightarrow> 'c image_state \<Rightarrow> bool" for st where
  start: "image_run st st"
| continue: "image_run st st' \<Longrightarrow> image_step st' st'' \<Longrightarrow> image_run st st''"

definition image_init :: "'c image_state \<Rightarrow> bool" where
  "image_init st \<longleftrightarrow> (\<exists>ident slots host capacity data z s.
    (host = None \<or> (\<exists>k d. host = Some (make_host_state_pool k d))) \<and>
    make_state_store ident slots host capacity data z = Inr s \<and> st = (s, {#}))"

definition image_reachable :: "'c image_state \<Rightarrow> bool" where
  "image_reachable st \<longleftrightarrow> (\<exists>st0. image_init st0 \<and> image_run st0 st)"

lemma held_by_replicate: "f ob = {#} \<Longrightarrow> held_by f (replicate n ob) = {#}"
  by (induction n) (simp_all add: held_by_def)

lemma image_init_ok: "image_init st \<Longrightarrow> images_ok st"
proof -
  assume "image_init st"
  then obtain ident slots host capacity data z s where
    h: "host = None \<or> (\<exists>k d. host = Some (make_host_state_pool k d))" and
    m: "make_state_store ident slots host capacity data z = Inr s" and st: "st = (s, {#})"
    unfolding image_init_def by blast
  let ?ob = "fresh_object 1 ImageFree"
  have s: "ss_objects s = replicate capacity ?ob" "ss_host s = host"
      "ss_free_objects s = map (\<lambda>index. capacity - 1 - index) [0..<capacity]" "ss_free_object_count s = capacity"
      "ss_free_device_slots s = map (\<lambda>index. slots - 1 - index) [0..<slots]" "ss_free_device_count s = slots"
    using m by (auto simp: make_state_store_def split: if_splits)
  have held: "held_by device_held (ss_objects s) = {#}" "held_by host_held (ss_objects s) = {#}"
    unfolding s by (rule held_by_replicate; simp add: held_defs fresh_object_def)+
  have pool: "host_slots.balanced (make_host_state_pool k d) {#}" for k and d :: "nat \<Rightarrow> 'a"
    using hsp_ok_make [of k d] by (auto simp: host_slots.balanced_def make_host_state_pool_def mset_set_empty_iff)
  have "device_balance s {#}" using held(1) by (simp add: device_balance_def s mset_stack_full [simplified])
  moreover have "host_balance s {#}" using held(2) h pool by (auto simp: host_balance_def s)
  moreover have "object_balance s"
  proof -
    have "{i. i < capacity \<and> io_role (replicate capacity ?ob ! i) = ImageFree} = {0..<capacity}"
      by (auto simp: fresh_object_def)
    then show ?thesis by (simp add: object_balance_def s mset_stack_full [simplified])
  qed
  moreover have "claims_ok (ss_id s) (ss_objects s) {#}"
  proof -
    have "idle ?ob" "role_ok ?ob" by (simp_all add: fresh_object_def idle_iff role_ok_def)
    then show ?thesis by (simp add: claims_ok_def s idle_index_ok)
  qed
  moreover have "coherent s" by (simp add: coherent_def s tracked_def fresh_object_def)
  ultimately show ?thesis by (simp add: images_ok_def store_ok_def loose_def st forks_synced_def)
qed

lemma image_run_ok: "image_run st st' \<Longrightarrow> images_ok st \<Longrightarrow> images_ok st'"
  by (induction rule: image_run.induct) (simp_all add: image_step_ok)

lemma reachable_images_ok: "image_reachable st \<Longrightarrow> images_ok st"
  by (auto simp: image_reachable_def dest: image_init_ok image_run_ok)

end
