(* ===== verification/StateSafety.thy ===== *)
theory StateSafety
  imports StateRuns
begin

text \<open>
  What the callers of the image store rely on, in every reachable state: slots are conserved and pins are
  exact, the payload of a checkpoint does not change, claims can always be completed, claimed images are
  protected, and released handles are stale. At the end, what the store does not protect against.
\<close>

declare not_None_eq [iff del]

section \<open>A concrete history\<close>

text \<open>Two device slots, one Host slot and three images; the first image is reset, frozen and offloaded.\<close>

definition demo_store :: "nat state_store" where
  "demo_store = projr (make_state_store 7 2 (Some (make_host_state_pool 1 (\<lambda>_. 0))) 3 (\<lambda>i. i + 10) 5)"

definition demo_handle :: "nat \<Rightarrow> image_handle" where
  "demo_handle i = handle_at 7 i 1"

definition demo_frozen :: "nat state_store" where
  "demo_frozen = snd (freeze (demo_handle 0) (snd (reserve_reset None demo_store)))"

definition demo_transfer :: image_transfer where
  "demo_transfer = new_transfer demo_frozen 1 DeviceToHost (demo_handle 0) (demo_handle 0)"

definition demo_offloading :: "nat state_store" where
  "demo_offloading = snd (begin_device_to_host None (demo_handle 0) demo_frozen)"

definition demo_forking :: "nat state_store" where
  "demo_forking = snd (begin_fork (demo_handle 0) (demo_handle 1) (snd (reserve_destination demo_frozen)))"

lemmas demo_defs = demo_store_def demo_handle_def demo_frozen_def demo_transfer_def demo_offloading_def demo_forking_def

lemma list_3 [simp]: "[0..<3] = [0, 1, 2]" "[0..<2] = [0, Suc 0]"
  by (simp_all add: upt_rec)

lemmas demo_simps = with_image_def with_images_def require_image_def image_valid_def handle_at_def
  set_object_def modify_image_def set_epoch_def set_role_def next_epoch_def next_transfer_def Let_def u64_add_def u32_add_def
  fresh_object_def idle_iff pending_iff take_device_slot_def write_device_def zero_slot_def hsp_valid_def write_host_def
  numeral_2_eq_2 numeral_3_eq_3

lemma demo_store_make: "make_state_store 7 2 (Some (make_host_state_pool 1 (\<lambda>_. 0))) 3 (\<lambda>i. i + 10) 5 = Inr demo_store"
  by (simp add: demo_store_def make_state_store_def make_host_state_pool_def u32_add_def)

lemma demo_store_eq: "demo_store =
  \<lparr>ss_id = 7, ss_host = Some \<lparr>hp_slots = [\<lparr>hs_generation = 1, hs_occupied = False\<rparr>], hp_free_slots = [0],
     hp_free_count = 1, hp_occupied = 0, hp_data = \<lambda>_. 0\<rparr>,
   ss_objects = [fresh_object 1 ImageFree, fresh_object 1 ImageFree, fresh_object 1 ImageFree],
   ss_free_objects = [2, 1, 0], ss_free_device_slots = [1, 0], ss_free_object_count = 3, ss_free_device_count = 2,
   ss_next_content_epoch = 0, ss_next_transfer_id = 0, ss_device_data = \<lambda>i. i + 10, ss_zero = 5\<rparr>"
proof -
  have "replicate 3 (fresh_object 1 ImageFree) = [fresh_object 1 ImageFree, fresh_object 1 ImageFree, fresh_object 1 ImageFree]"
    by (simp add: numeral_3_eq_3)
  then show ?thesis
    by (simp add: demo_store_def make_state_store_def make_host_state_pool_def u32_add_def)
qed

lemma demo_frozen_eq: "demo_frozen =
  \<lparr>ss_id = 7, ss_host = Some \<lparr>hp_slots = [\<lparr>hs_generation = 1, hs_occupied = False\<rparr>], hp_free_slots = [0],
     hp_free_count = 1, hp_occupied = 0, hp_data = \<lambda>_. 0\<rparr>,
   ss_objects = [(fresh_object 1 CheckpointImmutable)\<lparr>io_content_epoch := 2, io_device_slot := Some 0\<rparr>,
     fresh_object 1 ImageFree, fresh_object 1 ImageFree],
   ss_free_objects = [2, 1, 0], ss_free_device_slots = [1, 0], ss_free_object_count = 2, ss_free_device_count = 1,
   ss_next_content_epoch = 2, ss_next_transfer_id = 0, ss_device_data = (\<lambda>i. i + 10)(0 := 5), ss_zero = 5\<rparr>"
  by (simp add: demo_frozen_def demo_store_eq freeze_def reserve_reset_def allocate_image_def demo_handle_def demo_simps)

lemma demo_init: "image_init (demo_store, {#})"
  unfolding image_init_def using demo_store_make by blast

lemma demo_frozen_reachable: "image_reachable (demo_frozen, {#})"
proof -
  have "image_run (demo_store, {#}) (snd (reserve_reset None demo_store), {#})"
    by (rule image_run.continue [OF image_run.start image_step.reset])
  then have "image_run (demo_store, {#}) (demo_frozen, {#})"
    unfolding demo_frozen_def by (rule image_run.continue) (rule image_step.freezing)
  then show ?thesis using demo_init by (auto simp: image_reachable_def)
qed

lemma reachable_step: "image_reachable st \<Longrightarrow> image_step st st' \<Longrightarrow> image_reachable st'"
  by (auto simp: image_reachable_def intro: image_run.continue)

lemmas demo_copy = begin_device_to_host_def reserve_device_to_host_def enqueue_device_to_host_def copy_to_host_def
  valid_transfer_def new_transfer_def hsp_allocate_def pin_source_def

lemma demo_offload_result: "fst (begin_device_to_host None (demo_handle 0) demo_frozen) = Inr (Some demo_transfer)"
  by (simp add: demo_transfer_def demo_frozen_eq demo_handle_def demo_simps demo_copy)

lemma demo_offloading_reachable: "image_reachable (demo_offloading, {#TransferClaim demo_transfer#})"
  using reachable_step [OF demo_frozen_reachable image_step.offload [of demo_frozen "{#}" None "demo_handle 0"]]
  by (simp add: demo_offloading_def demo_offload_result)

lemma demo_fork_result:
  "fst (begin_fork (demo_handle 0) (demo_handle 1) (snd (reserve_destination demo_frozen))) = Inr (0, 1)"
  by (simp add: demo_frozen_eq demo_handle_def demo_simps begin_fork_def reserve_destination_def allocate_image_def)

lemma demo_forking_reachable: "image_reachable (demo_forking, {#ForkClaim (demo_handle 0) (demo_handle 1)#})"
  using reachable_step [OF reachable_step [OF demo_frozen_reachable image_step.reserve]
      image_step.fork [of _ "{#}" "demo_handle 0" "demo_handle 1"]]
  unfolding demo_fork_result demo_forking_def by simp

section \<open>Slots and pins\<close>

text \<open>
  C11. Slots of the image store are conserved. In every reachable state each device slot is exactly once on
  the free list or held by one image, as its replica or as the target of its transfer; the Host handles
  held by images are valid in the Host pool and are exactly its occupied slots; and the source pins of an
  image count the live forks and transfers that read it.
\<close>

theorem image_slots_conserved:
  assumes "image_reachable (s, C)"
  shows "mset (take (ss_free_device_count s) (ss_free_device_slots s)) + held_by device_held (ss_objects s) =
      mset [0..<device_capacity s] \<and>
    (\<forall>p. ss_host s = Some p \<longrightarrow>
      (\<forall>h\<in>#held_by host_held (ss_objects s). hsp_valid p h) \<and>
      image_mset fst (held_by host_held (ss_objects s)) =
        mset_set {i. i < length (hp_slots p) \<and> hs_occupied (hp_slots p ! i)}) \<and>
    (\<forall>i < image_capacity s. io_source_pins (ss_objects s ! i) = size (readers C i))"
proof -
  have ok: "store_ok s C" using reachable_images_ok [OF assms] by (simp add: images_ok_def)
  note l = store_ok_loose [OF ok]
  have "(\<forall>h\<in>#held_by host_held (ss_objects s). hsp_valid p h) \<and>
      image_mset fst (held_by host_held (ss_objects s)) =
        mset_set {i. i < length (hp_slots p) \<and> hs_occupied (hp_slots p ! i)}" if "ss_host s = Some p" for p
  proof -
    have b: "host_slots.balanced p (held_by host_held (ss_objects s))"
      using l that by (simp add: loose_def host_balance_def)
    have "hsp_valid p h" if "h \<in># held_by host_held (ss_objects s)" for h
      using host_slots.balanced_holds [OF b that] by (simp add: hsp_valid_holds)
    then show ?thesis using b by (simp add: host_slots.balanced_def)
  qed
  moreover have "io_source_pins (ss_objects s ! i) = size (readers C i)" if "i < image_capacity s" for i
    using claims_at [OF store_ok_claims [OF ok], of i] that by (simp add: image_capacity_def index_ok_def)
  ultimately show ?thesis using l by (simp add: loose_def device_balance_def device_capacity_def)
qed

theorem image_slots_conserved_witness:
  "image_reachable (demo_offloading, {#TransferClaim demo_transfer#}) \<and>
   io_source_pins (ss_objects demo_offloading ! 0) = 1"
proof -
  have n: "0 < image_capacity demo_offloading"
    by (simp add: image_capacity_def demo_offloading_def demo_frozen_eq demo_handle_def demo_simps demo_copy)
  have "ih_index (it_source demo_transfer) = 0" by (simp add: demo_transfer_def demo_handle_def handle_at_def)
  then show ?thesis
    using image_slots_conserved [OF demo_offloading_reachable] n demo_offloading_reachable by simp
qed

section \<open>Payloads\<close>

definition is_checkpoint :: "'c state_store \<Rightarrow> image_handle \<Rightarrow> bool" where
  "is_checkpoint s h \<longleftrightarrow> image_valid s h \<and> io_role (object_of s h) = CheckpointImmutable"

text \<open>Runs in which an image stays a checkpoint.\<close>

inductive checkpoint_run :: "image_handle \<Rightarrow> 'c image_state \<Rightarrow> 'c image_state \<Rightarrow> bool" for h st where
  stay: "is_checkpoint (fst st) h \<Longrightarrow> checkpoint_run h st st"
| step: "checkpoint_run h st st' \<Longrightarrow> image_step st' st'' \<Longrightarrow> is_checkpoint (fst st'') h \<Longrightarrow> checkpoint_run h st st''"

lemma checkpoint_run_replicas:
  assumes "checkpoint_run h st st'" and "images_ok st"
  shows "images_ok st' \<and> is_checkpoint (fst st) h \<and> is_checkpoint (fst st') h \<and>
    replicas (fst st') (object_of (fst st') h) = replicas (fst st) (object_of (fst st) h)"
  using assms
proof (induction rule: checkpoint_run.induct)
  case (step st' st'')
  then have ok': "images_ok st'" and c: "is_checkpoint (fst st) h" "is_checkpoint (fst st') h" by simp_all
  have "all_kept (fst st') (fst st'')"
    by (rule image_step_kept [OF step.hyps(2)]) (use ok' in \<open>simp_all add: images_ok_def\<close>)
  then have "replicas (fst st'') (object_of (fst st'') h) = replicas (fst st') (object_of (fst st') h)"
    using c(2) step.hyps(3) by (simp add: all_kept_def kept_def is_checkpoint_def tracked_def image_valid_def)
  then show ?case using step image_step_ok [OF step.hyps(2) ok'] by simp
qed simp

lemma replicas_device: "io_device_slot ob = Some d \<Longrightarrow> ss_device_data s d \<in> replicas s ob"
  by (simp add: replicas_def held_defs)

text \<open>
  C12. Checkpoints are immutable. Along every run in which an image stays a checkpoint, through offloads to
  the Host, reloads, dropped replicas, forks, executions and resets of other images and copies that fail,
  all its replicas on both memories are one and the same payload, the one it had at the start: that is
  what its device slot holds whenever it has one. The steps carry the obligations of the callers: an image
  is thawed only without a Host replica, and a publication drops its source only as its one reader.
\<close>

theorem checkpoint_payload_stable:
  assumes "image_reachable (s, C)" and "checkpoint_run h (s, C) (s', C')"
  shows "\<exists>x. replicas s (object_of s h) = {x} \<and> replicas s' (object_of s' h) = {x} \<and>
    (\<forall>d. physical_slot s' h = Inr d \<longrightarrow> ss_device_data s' d = x)"
proof -
  have ok: "images_ok (s, C)" by (rule reachable_images_ok [OF assms(1)])
  note run = checkpoint_run_replicas [OF assms(2) ok, simplified]
  have "is_checkpoint s h" using run by simp
  then obtain x where x: "replicas s (object_of s h) = {x}"
    using ok coherent_at [of s "ih_index h"] by (auto simp: images_ok_def is_checkpoint_def tracked_def image_valid_def)
  have "ss_device_data s' d = x" if "physical_slot s' h = Inr d" for d
  proof -
    have "io_device_slot (object_of s' h) = Some d"
      using that by (auto simp: physical_slot_def require_image_def split: if_splits option.splits)
    then show ?thesis using replicas_device [of "object_of s' h" d s'] run x by simp
  qed
  then show ?thesis using run x by auto
qed

text \<open>The payload of the reset image, 5, is what it holds after an offload that drops the device replica and a reload.\<close>

definition demo_offloaded :: "nat state_store" where
  "demo_offloaded = snd (publish_transfer demo_transfer False demo_offloading)"

definition demo_reloaded :: "nat state_store" where
  "demo_reloaded = snd (begin_host_to_device None (demo_handle 0) demo_offloaded)"

definition demo_reload_transfer :: image_transfer where
  "demo_reload_transfer = new_transfer demo_offloaded 2 HostToDevice (demo_handle 0) (demo_handle 0)"

definition demo_final :: "nat state_store" where
  "demo_final = snd (publish_transfer demo_reload_transfer False demo_reloaded)"

lemma demo_offloading_eq: "demo_offloading =
  \<lparr>ss_id = 7, ss_host = Some \<lparr>hp_slots = [\<lparr>hs_generation = 1, hs_occupied = True\<rparr>], hp_free_slots = [0],
     hp_free_count = 0, hp_occupied = 1, hp_data = (\<lambda>_. 0)(0 := 5)\<rparr>,
   ss_objects = [(fresh_object 1 CheckpointImmutable)\<lparr>io_content_epoch := 2, io_device_slot := Some 0,
       io_pending_host_slot := Some (0, 1), io_transfer_id := 1, io_source_pins := 1, io_destination_pinned := True\<rparr>,
     fresh_object 1 ImageFree, fresh_object 1 ImageFree],
   ss_free_objects = [2, 1, 0], ss_free_device_slots = [1, 0], ss_free_object_count = 2, ss_free_device_count = 1,
   ss_next_content_epoch = 2, ss_next_transfer_id = 1, ss_device_data = (\<lambda>i. i + 10)(0 := 5), ss_zero = 5\<rparr>"
  by (simp add: demo_offloading_def demo_frozen_eq demo_handle_def demo_simps demo_copy)

lemma demo_sub: "u32_sub (Suc 0) (Suc 0) = 0"
  by (simp add: u32_sub_small)

lemmas demo_publish = publish_transfer_def valid_transfer_def new_transfer_def unpin_source_def end_destination_def
  drop_device_slot_def return_device_slot_def demo_sub drop_host_slot_def host_release_slot_def hsp_release_def

lemma demo_offloaded_eq: "demo_offloaded =
  \<lparr>ss_id = 7, ss_host = Some \<lparr>hp_slots = [\<lparr>hs_generation = 1, hs_occupied = True\<rparr>], hp_free_slots = [0],
     hp_free_count = 0, hp_occupied = 1, hp_data = (\<lambda>_. 0)(0 := 5)\<rparr>,
   ss_objects = [(fresh_object 1 CheckpointImmutable)\<lparr>io_content_epoch := 2, io_host_slot := Some (0, 1)\<rparr>,
     fresh_object 1 ImageFree, fresh_object 1 ImageFree],
   ss_free_objects = [2, 1, 0], ss_free_device_slots = [1, 0], ss_free_object_count = 2, ss_free_device_count = 2,
   ss_next_content_epoch = 2, ss_next_transfer_id = 1, ss_device_data = (\<lambda>i. i + 10)(0 := 5), ss_zero = 5\<rparr>"
  by (simp add: demo_offloaded_def demo_offloading_eq demo_transfer_def demo_frozen_eq demo_handle_def demo_simps demo_publish)

lemma demo_reload_eq: "begin_host_to_device None (demo_handle 0) demo_offloaded = (Inr (Some demo_reload_transfer),
  \<lparr>ss_id = 7, ss_host = Some \<lparr>hp_slots = [\<lparr>hs_generation = 1, hs_occupied = True\<rparr>], hp_free_slots = [0],
     hp_free_count = 0, hp_occupied = 1, hp_data = (\<lambda>_. 0)(0 := 5)\<rparr>,
   ss_objects = [(fresh_object 1 CheckpointImmutable)\<lparr>io_content_epoch := 2, io_host_slot := Some (0, 1),
       io_pending_device_slot := Some 0, io_transfer_id := 2, io_source_pins := 1, io_destination_pinned := True\<rparr>,
     fresh_object 1 ImageFree, fresh_object 1 ImageFree],
   ss_free_objects = [2, 1, 0], ss_free_device_slots = [1, 0], ss_free_object_count = 2, ss_free_device_count = 1,
   ss_next_content_epoch = 2, ss_next_transfer_id = 2, ss_device_data = (\<lambda>i. i + 10)(0 := 5), ss_zero = 5\<rparr>)"
  by (simp add: begin_host_to_device_def demo_offloaded_eq demo_reload_transfer_def demo_handle_def demo_simps
      copy_from_host_def new_transfer_def pin_source_def)

lemma demo_reloaded_eq: "demo_reloaded =
  \<lparr>ss_id = 7, ss_host = Some \<lparr>hp_slots = [\<lparr>hs_generation = 1, hs_occupied = True\<rparr>], hp_free_slots = [0],
     hp_free_count = 0, hp_occupied = 1, hp_data = (\<lambda>_. 0)(0 := 5)\<rparr>,
   ss_objects = [(fresh_object 1 CheckpointImmutable)\<lparr>io_content_epoch := 2, io_host_slot := Some (0, 1),
       io_pending_device_slot := Some 0, io_transfer_id := 2, io_source_pins := 1, io_destination_pinned := True\<rparr>,
     fresh_object 1 ImageFree, fresh_object 1 ImageFree],
   ss_free_objects = [2, 1, 0], ss_free_device_slots = [1, 0], ss_free_object_count = 2, ss_free_device_count = 1,
   ss_next_content_epoch = 2, ss_next_transfer_id = 2, ss_device_data = (\<lambda>i. i + 10)(0 := 5), ss_zero = 5\<rparr>"
  unfolding demo_reloaded_def demo_reload_eq by simp

lemma demo_final_checkpoint: "is_checkpoint demo_final (demo_handle 0)" "physical_slot demo_final (demo_handle 0) = Inr 0"
  by (simp_all add: demo_final_def demo_reloaded_eq demo_reload_transfer_def demo_offloaded_eq demo_handle_def
      is_checkpoint_def physical_slot_def demo_simps demo_publish)

lemma demo_checkpoint_run: "checkpoint_run (demo_handle 0) (demo_frozen, {#}) (demo_final, {#})"
proof -
  have "checkpoint_run (demo_handle 0) (demo_frozen, {#}) (demo_frozen, {#})"
    by (rule checkpoint_run.stay) (simp add: is_checkpoint_def demo_frozen_eq demo_handle_def demo_simps)
  moreover have "image_step (demo_frozen, {#}) (demo_offloading, {#TransferClaim demo_transfer#})"
    using image_step.offload [of demo_frozen "{#}" None "demo_handle 0"] by (simp add: demo_offload_result demo_offloading_def)
  ultimately have "checkpoint_run (demo_handle 0) (demo_frozen, {#}) (demo_offloading, {#TransferClaim demo_transfer#})"
    by (rule checkpoint_run.step) (simp add: is_checkpoint_def demo_offloading_eq demo_handle_def demo_simps)
  moreover have "image_step (demo_offloading, {#TransferClaim demo_transfer#}) (demo_offloaded, {#})"
    unfolding demo_offloaded_def
    by (rule image_step.publish) (simp add: demo_offloading_eq demo_transfer_def new_transfer_def demo_handle_def demo_simps)
  ultimately have "checkpoint_run (demo_handle 0) (demo_frozen, {#}) (demo_offloaded, {#})"
    by (rule checkpoint_run.step) (simp add: is_checkpoint_def demo_offloaded_eq demo_handle_def demo_simps)
  moreover have "image_step (demo_offloaded, {#}) (demo_reloaded, {#TransferClaim demo_reload_transfer#})"
    using image_step.reload [of demo_offloaded "{#}" None "demo_handle 0"] by (simp add: demo_reload_eq demo_reloaded_def)
  ultimately have "checkpoint_run (demo_handle 0) (demo_frozen, {#}) (demo_reloaded, {#TransferClaim demo_reload_transfer#})"
    by (rule checkpoint_run.step) (simp add: is_checkpoint_def demo_reloaded_eq demo_handle_def demo_simps)
  moreover have "image_step (demo_reloaded, {#TransferClaim demo_reload_transfer#}) (demo_final, {#})"
    unfolding demo_final_def
    by (rule image_step.publish)
      (simp add: demo_reloaded_eq demo_reload_transfer_def new_transfer_def demo_handle_def demo_simps)
  ultimately show ?thesis by (rule checkpoint_run.step) (simp add: demo_final_checkpoint)
qed

theorem checkpoint_payload_stable_witness:
  "image_reachable (demo_frozen, {#}) \<and> checkpoint_run (demo_handle 0) (demo_frozen, {#}) (demo_final, {#}) \<and>
   physical_slot demo_final (demo_handle 0) = Inr 0 \<and> ss_device_data demo_final 0 = 5"
proof -
  obtain x where x: "replicas demo_frozen (object_of demo_frozen (demo_handle 0)) = {x}"
      "physical_slot demo_final (demo_handle 0) = Inr 0 \<longrightarrow> ss_device_data demo_final 0 = x"
    using checkpoint_payload_stable [OF demo_frozen_reachable demo_checkpoint_run] by blast
  have "ss_device_data demo_frozen 0 \<in> replicas demo_frozen (object_of demo_frozen (demo_handle 0))"
    by (rule replicas_device) (simp add: demo_frozen_eq demo_handle_def handle_at_def)
  then have "x = 5" using x(1) by (simp add: demo_frozen_eq)
  then show ?thesis using x(2) demo_final_checkpoint demo_frozen_reachable demo_checkpoint_run by simp
qed

section \<open>Claims\<close>

text \<open>
  C13. Claims can always be completed. In every reachable state a live fork can be committed and aborted, and
  execution on it selects two different device slots; a live transfer can be published, and dropping the
  source replica is possible when no other claim reads the image. None of these calls throws.
\<close>

theorem live_claims_complete:
  assumes "image_reachable (s, C)"
  shows "(\<forall>a b. ForkClaim a b \<in># C \<longrightarrow>
      fst (commit_fork a b s) = Inr () \<and> fst (abort_fork a b s) = Inr () \<and>
      (\<exists>x y. selectors s a b = Inr (x, y) \<and> x \<noteq> y)) \<and>
    (\<forall>t keep. TransferClaim t \<in># C \<and> (keep \<or> source_pins s (it_source t) = Inr 1) \<longrightarrow>
      fst (publish_transfer t keep s) = (Inr (), consume_transfer t))"
proof (intro conjI allI impI)
  have ok: "store_ok s C" using reachable_images_ok [OF assms] by (simp add: images_ok_def)
  fix a b assume f: "ForkClaim a b \<in># C"
  then obtain C' where C: "C = add_mset (ForkClaim a b) C'" by (metis multi_member_split)
  show "fst (commit_fork a b s) = Inr ()" "fst (abort_fork a b s) = Inr ()"
    using commit_fork_live(1) abort_fork_live(1) ok C by blast+
  note live = fork_live [OF ok f]
  obtain x y where xy: "io_device_slot (object_of s a) = Some x" "io_device_slot (object_of s b) = Some y"
    using live(5,8) by (cases "io_device_slot (object_of s a)"; cases "io_device_slot (object_of s b)") simp_all
  have "x \<noteq> y"
    using device_exclusive [OF ok valid_index [OF live(1)] valid_index [OF live(2)] valid_distinct [OF live(1-3)], of x] xy
    by (auto simp: held_defs)
  moreover have "selectors s a b = Inr (x, y)" using live xy by (simp add: selectors_def require_image_def Let_def)
  ultimately show "\<exists>x y. selectors s a b = Inr (x, y) \<and> x \<noteq> y" by blast
next
  have ok: "store_ok s C" using reachable_images_ok [OF assms] by (simp add: images_ok_def)
  fix t keep assume t: "TransferClaim t \<in># C \<and> (keep \<or> source_pins s (it_source t) = Inr 1)"
  then obtain C' where C: "C = add_mset (TransferClaim t) C'" by (metis multi_member_split)
  have "keep \<or> io_source_pins (object_of s (it_source t)) = 1"
    using t transfer_live(2) [OF ok, of t] by (auto simp: source_pins_def require_image_def)
  then show "fst (publish_transfer t keep s) = (Inr (), consume_transfer t)"
    using publish_transfer_live(1) ok C by blast
qed

theorem live_claims_complete_witness:
  "fst (publish_transfer demo_transfer False demo_offloading) = (Inr (), consume_transfer demo_transfer) \<and>
   fst (commit_fork (demo_handle 0) (demo_handle 1) demo_forking) = Inr ()"
proof -
  have "source_pins demo_offloading (it_source demo_transfer) = Inr 1"
    by (simp add: source_pins_def demo_offloading_eq demo_transfer_def new_transfer_def demo_handle_def demo_simps)
  then show ?thesis
    using live_claims_complete [OF demo_offloading_reachable] live_claims_complete [OF demo_forking_reachable] by simp
qed

text \<open>
  C14. Claimed images are protected. While a fork or a transfer is live, the image it reads and the image it
  writes cannot be released, frozen, thawed, moved, recycled or stripped of a replica: each call reports
  the failure and leaves the store as it was.
\<close>

theorem claimed_images_protected:
  assumes "image_reachable (s, C)" and "c \<in># C" and "h = claim_source c \<or> h = claim_dest c"
  shows "release_image h s = (False, s) \<and> drop_device_replica h s = (False, s) \<and> drop_host_replica h s = (False, s) \<and>
    freeze h s = (Inl LogicError, s) \<and> thaw h s = (Inl LogicError, s) \<and>
    move_checkpoint_to_active h s = (Inl LogicError, s) \<and> recycle_checkpoint_destination h s = (Inl LogicError, s)"
proof -
  have ok: "store_ok s C" using reachable_images_ok [OF assms(1)] by (simp add: images_ok_def)
  note cl = store_ok_claims [OF ok]
  have busy: "\<not> idle (object_of s h)"
    using assms(3) not_idle_source [OF cl assms(2)] not_idle_dest [OF cl assms(2)] by blast
  have v: "image_valid s h"
    using assms(2,3) fork_live(1,2) [OF ok] transfer_live(2,3) [OF ok] by (cases c) auto
  show ?thesis
    using busy v
    by (simp add: release_image_def can_release_image_def idle_def [symmetric] drop_device_replica_def drop_host_replica_def
        freeze_def thaw_def move_checkpoint_to_active_def recycle_checkpoint_destination_def
        can_recycle_checkpoint_destination_def with_image_def require_image_def Let_def)
qed

theorem claimed_images_protected_witness:
  "release_image (demo_handle 0) demo_offloading = (False, demo_offloading)"
  using claimed_images_protected [OF demo_offloading_reachable, of "TransferClaim demo_transfer" "demo_handle 0"]
  by (simp add: demo_transfer_def)

text \<open>
  C15. A fork from the Host delivers its source. Publishing a live transfer that fills a new image from the
  Host replica of a checkpoint makes the image readable, with a device slot that holds the payload of
  every replica of the checkpoint, whatever happened to both memories since the copy was enqueued.
\<close>

theorem host_fork_delivers:
  assumes "image_reachable (s, C)" and "TransferClaim t \<in># C" and "it_direction t = HostToFork"
  shows "\<exists>x d. replicas s (object_of s (it_source t)) = {x} \<and>
    physical_slot (snd (publish_transfer t keep s)) (it_destination t) = Inr d \<and>
    ss_device_data (snd (publish_transfer t keep s)) d = x"
proof -
  have im: "images_ok (s, C)" by (rule reachable_images_ok [OF assms(1)])
  then have ok: "store_ok s C" and co: "coherent s" and sy: "forks_synced s C" by (simp_all add: images_ok_def)
  note live = transfer_live [OF ok assms(2)]
  let ?a = "it_source t" and ?b = "it_destination t"
  note ia = valid_index [OF live(2)] and ib = valid_index [OF live(3)]
  have n: "ih_index ?a \<noteq> ih_index ?b" using live(4,5) assms(3) by (auto simp: transfer_ok_def)
  obtain x where x: "replicas s (object_of s ?a) = {x}"
    using coherent_at [OF co ia] live(5) by (auto simp: tracked_def)
  have dx: "replicas s (object_of s ?b) = {x}" using sy assms(2,3) x by (simp add: forks_synced_def)
  obtain d where d: "io_pending_device_slot (object_of s ?b) = Some d"
    using live(4) assms(3) by (cases "io_pending_device_slot (object_of s ?b)") (simp_all add: transfer_ok_def)
  have "ss_device_data s d = x" using dx d by (simp add: replicas_def held_defs)
  moreover have "ss_device_data (snd (publish_transfer t keep s)) = ss_device_data s"
    using publish_transfer_calm [OF ok assms(2), of keep] by (simp add: calm_step_def same_data_def)
  moreover have "physical_slot (snd (publish_transfer t keep s)) ?b = Inr d"
  proof -
    let ?u = "snd (publish_transfer t keep s)"
    have u: "?u = modify_image ?b end_destination (unpin_source ?a (modify_image ?b
        (\<lambda>ob. ob\<lparr>io_device_slot := io_pending_device_slot ob, io_pending_device_slot := None\<rparr>) s))"
      using live(1) assms(3) by (simp add: publish_transfer_def Let_def)
    have o: "object_of ?u ?b = end_destination ((object_of s ?b)\<lparr>io_device_slot := Some d, io_pending_device_slot := None\<rparr>)"
      unfolding u using ia ib n d by simp
    have "ss_id ?u = ss_id s" "length (ss_objects ?u) = length (ss_objects s)" unfolding u by simp_all
    then have "image_valid ?u ?b" using live(3) by (simp add: image_valid_def o)
    then show ?thesis by (simp add: physical_slot_def require_image_def o)
  qed
  ultimately show ?thesis using x by (intro exI [of _ x] exI [of _ d]) simp
qed

definition demo_logical :: "nat state_store" where
  "demo_logical = snd (reserve_logical_destination demo_offloaded)"

definition demo_fork_transfer :: image_transfer where
  "demo_fork_transfer = new_transfer demo_logical 2 HostToFork (demo_handle 0) (demo_handle 1)"

definition demo_filling :: "nat state_store" where
  "demo_filling = snd (begin_host_fork None (demo_handle 0) (demo_handle 1) demo_logical)"

lemma demo_logical_eq: "demo_logical =
  \<lparr>ss_id = 7, ss_host = Some \<lparr>hp_slots = [\<lparr>hs_generation = 1, hs_occupied = True\<rparr>], hp_free_slots = [0],
     hp_free_count = 0, hp_occupied = 1, hp_data = (\<lambda>_. 0)(0 := 5)\<rparr>,
   ss_objects = [(fresh_object 1 CheckpointImmutable)\<lparr>io_content_epoch := 2, io_host_slot := Some (0, 1)\<rparr>,
     fresh_object 1 ReservedDestination, fresh_object 1 ImageFree],
   ss_free_objects = [2, 1, 0], ss_free_device_slots = [1, 0], ss_free_object_count = 1, ss_free_device_count = 2,
   ss_next_content_epoch = 2, ss_next_transfer_id = 1, ss_device_data = (\<lambda>i. i + 10)(0 := 5), ss_zero = 5\<rparr>"
  by (simp add: demo_logical_def reserve_logical_destination_def demo_offloaded_eq allocate_image_def demo_simps)

lemma demo_fill_result:
  "fst (begin_host_fork None (demo_handle 0) (demo_handle (Suc 0)) demo_logical) = Inr (Some demo_fork_transfer)"
  by (simp add: begin_host_fork_def demo_fork_transfer_def demo_logical_eq demo_handle_def demo_simps vacant_def
      copy_from_host_def new_transfer_def pin_source_def)

lemma demo_offloaded_reachable: "image_reachable (demo_offloaded, {#})"
  unfolding demo_offloaded_def
  by (rule reachable_step [OF demo_offloading_reachable image_step.publish])
    (simp add: demo_offloading_eq demo_transfer_def new_transfer_def demo_handle_def demo_simps)

lemma demo_filling_reachable: "image_reachable (demo_filling, {#TransferClaim demo_fork_transfer#})"
  using reachable_step [OF reachable_step [OF demo_offloaded_reachable image_step.reserve_logical]
      image_step.host_fork [of _ "{#}" None "demo_handle 0" "demo_handle 1"]]
  by (simp add: demo_filling_def demo_logical_def [symmetric] demo_fill_result)

lemma replicas_host: "io_host_slot ob = Some h \<Longrightarrow> ss_host s = Some p \<Longrightarrow> hp_data p (fst h) \<in> replicas s ob"
  by (simp add: replicas_def host_payloads_def held_defs)

lemma demo_filling_source:
  "io_host_slot (object_of demo_filling (demo_handle 0)) = Some (0, 1)" "ss_host demo_filling = ss_host demo_logical"
  by (simp_all add: demo_filling_def begin_host_fork_def demo_logical_eq demo_handle_def demo_simps vacant_def
      copy_from_host_def pin_source_def)

theorem host_fork_delivers_witness:
  "\<exists>d. physical_slot (snd (publish_transfer demo_fork_transfer True demo_filling)) (demo_handle 1) = Inr d \<and>
    ss_device_data (snd (publish_transfer demo_fork_transfer True demo_filling)) d = 5"
proof -
  have t: "it_direction demo_fork_transfer = HostToFork" "it_destination demo_fork_transfer = demo_handle 1"
      "it_source demo_fork_transfer = demo_handle 0"
    by (simp_all add: demo_fork_transfer_def)
  obtain x d where x: "replicas demo_filling (object_of demo_filling (demo_handle 0)) = {x}"
      "physical_slot (snd (publish_transfer demo_fork_transfer True demo_filling)) (demo_handle 1) = Inr d"
      "ss_device_data (snd (publish_transfer demo_fork_transfer True demo_filling)) d = x"
    using host_fork_delivers [OF demo_filling_reachable _ t(1), of True, unfolded t(2,3)] by auto
  have "(5 :: nat) \<in> replicas demo_filling (object_of demo_filling (demo_handle 0))"
    using replicas_host [OF demo_filling_source(1), of demo_filling] demo_filling_source(2) by (simp add: demo_logical_eq)
  then show ?thesis using x by simp
qed

section \<open>Released images\<close>

lemma release_image_result:
  assumes ok: "store_ok s C" and r: "release_image h s = (True, s')"
  obtains ob where "io_generation ob = io_generation (object_of s h)" "ss_id s' = ss_id s"
    "ss_objects s' = (ss_objects s)[ih_index h := retired ob]" "image_valid s h"
proof -
  have can: "can_release_image s h" using release_image_ok(2) [OF ok, of h] r by simp
  then have v: "image_valid s h" by (simp add: can_release_image_def)
  show ?thesis
  proof (cases "io_host_slot (object_of s h) = None")
    case True
    then have "s' = retire_image h s" using r can by (simp add: release_image_def)
    then show ?thesis using that [OF refl] v by (simp add: retire_image_fields)
  next
    case False
    note drop = drop_host_slot_loose [OF store_ok_loose [OF ok] valid_index [OF v] False]
    obtain s1 where s1: "drop_host_slot h s = (True, s1)" using drop(1) by (cases "drop_host_slot h s") simp
    have "s' = retire_image h s1" using release_image_host [OF False can] r s1 by simp
    then show ?thesis
      using that [of "(object_of s h)\<lparr>io_host_slot := None\<rparr>"] drop(3,4) s1 valid_index [OF v] v
      by (simp add: retire_image_fields)
  qed
qed

text \<open>
  C0. A released handle is stale for good. Releasing an image makes its handle invalid and leaves every
  other handle as valid as it was; when the entry is handed out again, the new handle is another one and
  the old handle still does not denote the image.
\<close>

theorem released_handle_stale:
  assumes "image_reachable (s, C)" and "release_image h s = (True, s')"
  shows "\<not> image_valid s' h \<and> (\<forall>k. k \<noteq> h \<and> image_valid s k \<longrightarrow> image_valid s' k) \<and>
    (\<forall>k s'' role with_device. allocate_image role with_device s' = (Some k, s'') \<longrightarrow> k \<noteq> h \<and> \<not> image_valid s'' h)"
proof -
  have ok: "store_ok s C" using reachable_images_ok [OF assms(1)] by (simp add: images_ok_def)
  have ok': "store_ok s' C" using release_image_ok(1) [OF ok, of h] assms(2) by simp
  obtain ob where ob: "io_generation ob = io_generation (object_of s h)" "ss_id s' = ss_id s"
      "ss_objects s' = (ss_objects s)[ih_index h := retired ob]" and v: "image_valid s h"
    by (rule release_image_result [OF ok assms(2)])
  note idx = valid_index [OF v]
  have gone: "\<not> image_valid s' h" using ob idx by (simp add: image_valid_def retired_def)
  have others: "image_valid s' k" if "k \<noteq> h" "image_valid s k" for k
    using valid_distinct [OF that(2) v that(1)] that(2) ob(2,3) by (simp add: image_valid_def)
  have fresh: "io_generation (ss_objects s' ! ih_index h) \<noteq> ih_generation h"
    using ob idx v valid_role_ok [OF ok v] increment_generation_changes [of "io_generation (object_of s h)"]
    by (simp add: retired_def role_ok_def image_valid_def)
  have again: "k \<noteq> h \<and> \<not> image_valid s'' h" if a: "allocate_image role wd s' = (Some k, s'')" for k s'' role wd
  proof -
    obtain slot where o: "handed_out s' ((fresh_object (ih_generation k) role)\<lparr>io_device_slot := slot\<rparr>) s'' k"
      by (rule allocate_image_some [OF store_ok_loose [OF ok'] a free_holds_nothing [OF ok']]) auto
    have k: "ih_generation k = io_generation (ss_objects s' ! ih_index k)"
      and s'': "ss_objects s'' = (ss_objects s')[ih_index k := (fresh_object (ih_generation k) role)\<lparr>io_device_slot := slot\<rparr>]"
        "ss_id s'' = ss_id s'" "ih_index k < length (ss_objects s')"
      using o by (auto simp: handed_out_def handle_at_iff)
    have "k \<noteq> h" using k fresh by auto
    moreover have "\<not> image_valid s'' h"
      using s'' k fresh gone by (cases "ih_index k = ih_index h") (auto simp: image_valid_def fresh_object_def)
    ultimately show ?thesis by simp
  qed
  show ?thesis using gone others again by blast
qed

theorem released_handle_stale_witness:
  "\<exists>s'. release_image (demo_handle 0) demo_frozen = (True, s') \<and> \<not> image_valid s' (demo_handle 0)"
proof -
  have "fst (release_image (demo_handle 0) demo_frozen)"
    by (simp add: release_image_def can_release_image_def demo_frozen_eq demo_handle_def demo_simps)
  then obtain s' where "release_image (demo_handle 0) demo_frozen = (True, s')"
    by (cases "release_image (demo_handle 0) demo_frozen") simp
  then show ?thesis using released_handle_stale [OF demo_frozen_reachable] by blast
qed

section \<open>Outside the obligations\<close>

text \<open>
  \<open>thaw\<close> accepts a checkpoint that has a Host replica, unlike \<open>move_checkpoint_to_active\<close>, which gives the
  Host replica up. A history that offloads a checkpoint while keeping its device replica, thaws it,
  executes on it and freezes it again ends with a checkpoint that is resident on both memories with two
  different payloads; a later reload would bring back the old one.
\<close>

definition demo_thawed :: "nat state_store" where
  "demo_thawed = snd (thaw (demo_handle 0) (snd (publish_transfer demo_transfer True demo_offloading)))"

lemma demo_kept_eq: "snd (publish_transfer demo_transfer True demo_offloading) =
  demo_offloading\<lparr>ss_objects := [(fresh_object 1 CheckpointImmutable)\<lparr>io_content_epoch := 2, io_device_slot := Some 0,
       io_host_slot := Some (0, 1)\<rparr>, fresh_object 1 ImageFree, fresh_object 1 ImageFree]\<rparr>"
  by (simp add: demo_offloading_eq demo_transfer_def demo_frozen_eq demo_handle_def demo_simps demo_publish)

lemma demo_thaw: "thaw (demo_handle 0) (snd (publish_transfer demo_transfer True demo_offloading)) = (Inr (),
  demo_offloading\<lparr>ss_objects := [(fresh_object 1 ActiveMutable)\<lparr>io_content_epoch := 2, io_device_slot := Some 0,
       io_host_slot := Some (0, 1)\<rparr>, fresh_object 1 ImageFree, fresh_object 1 ImageFree]\<rparr>)"
  unfolding demo_kept_eq by (simp add: thaw_def demo_offloading_eq demo_handle_def demo_simps)

lemma demo_thawed_eq: "demo_thawed =
  demo_offloading\<lparr>ss_objects := [(fresh_object 1 ActiveMutable)\<lparr>io_content_epoch := 2, io_device_slot := Some 0,
       io_host_slot := Some (0, 1)\<rparr>, fresh_object 1 ImageFree, fresh_object 1 ImageFree]\<rparr>"
  by (simp add: demo_thawed_def demo_thaw)

lemma demo_refrozen_eq: "snd (freeze (demo_handle 0) (write_device 0 6 demo_thawed)) =
  demo_offloading\<lparr>ss_objects := [(fresh_object 1 CheckpointImmutable)\<lparr>io_content_epoch := 3, io_device_slot := Some 0,
       io_host_slot := Some (0, 1)\<rparr>, fresh_object 1 ImageFree, fresh_object 1 ImageFree],
     ss_next_content_epoch := 3, ss_device_data := (\<lambda>i. i + 10)(0 := 6)\<rparr>"
proof -
  have "u64_add 2 (Suc 0) = 3" by (simp add: u64_add_small)
  then show ?thesis
    unfolding demo_thawed_eq
    by (simp add: freeze_def demo_offloading_eq demo_handle_def with_image_def require_image_def image_valid_def handle_at_def
        set_object_def modify_image_def set_epoch_def set_role_def next_epoch_def Let_def fresh_object_def idle_iff write_device_def)
qed

theorem thaw_keeps_host_replica:
  "fst (thaw (demo_handle 0) (snd (publish_transfer demo_transfer True demo_offloading))) = Inr () \<and>
   selectors demo_thawed (demo_handle 0) (demo_handle 0) = Inr (0, 0) \<and>
   (let s = snd (freeze (demo_handle 0) (write_device 0 6 demo_thawed))
    in residency s (demo_handle 0) = Inr Both \<and> replicas s (object_of s (demo_handle 0)) = {5, 6})"
proof (intro conjI)
  show "fst (thaw (demo_handle 0) (snd (publish_transfer demo_transfer True demo_offloading))) = Inr ()"
    by (simp add: demo_thaw)
  show "selectors demo_thawed (demo_handle 0) (demo_handle 0) = Inr (0, 0)"
    unfolding demo_thawed_eq
    by (simp add: selectors_def demo_offloading_eq demo_handle_def require_image_def image_valid_def handle_at_def fresh_object_def)
  show "let s = snd (freeze (demo_handle 0) (write_device 0 6 demo_thawed))
    in residency s (demo_handle 0) = Inr Both \<and> replicas s (object_of s (demo_handle 0)) = {5, 6}"
    unfolding Let_def demo_refrozen_eq
    by (auto simp: residency_def demo_offloading_eq demo_handle_def require_image_def image_valid_def handle_at_def
        fresh_object_def replicas_def host_payloads_def held_defs)
qed

end
