(* ===== verification/LogicalPages.thy ===== *)
theory LogicalPages
  imports PoolSystem
begin

text \<open>
  The store of logical KV pages, \<open>LogicalKVPageStore\<close> of
  \<open>models/qwen3_5/program/storage/kv_store.h\<close>. A logical page is a descriptor with counters (address
  references, active references, a writer, source pins), the number of committed and protected
  columns, a content epoch, and up to three replicas: the lease of a device page, the lease of
  a device page that is being filled, and the record of a Host replica. The device pages come from a
  \<open>DeviceKVPagePool\<close>, which is an argument and a result of the operations that reach it, as is the
  reservation they draw from. A handle of a Host extent is a value the store only compares.

  Destroying a lease releases its page (\<open>replica_reset\<close>). A \<open>noexcept\<close> method whose callee throws
  terminates (\<open>no_throw\<close>). The methods on one page that neither touch the pool nor free the descriptor
  are functions on the page, lifted by \<open>lk_modify\<close>, which holds the check of the handle they share.
\<close>

section \<open>Data\<close>

record extent_capability =
  ec_owner :: "nat option"
  ec_index :: nat
  ec_generation :: u32

record host_page_replica =
  pr_extent :: extent_capability
  pr_page_offset :: nat
  pr_membership_node :: nat
  pr_content_epoch :: u64
  pr_committed_columns :: nat

record logical_handle =
  lh_owner :: "nat option"
  lh_index :: nat
  lh_generation :: u32

record logical_page =
  lp_generation :: u32
  lp_content_epoch :: u64
  lp_committed_columns :: nat
  lp_references :: nat
  lp_active_references :: nat
  lp_protected_columns :: nat
  lp_source_pins :: nat
  lp_writer_references :: nat
  lp_destination_pinned :: bool
  lp_occupied :: bool
  lp_device_replica :: "page_lease option"
  lp_pending_device_replica :: "page_lease option"
  lp_host_replica :: "host_page_replica option"

record logical_store =
  lk_id :: nat
  lk_pages :: "logical_page list"
  lk_free :: "nat list"
  lk_scratch_room :: nat
  lk_free_count :: nat

definition kv_page_size :: nat where
  "kv_page_size = nat kPagedKVPageSize"

definition empty_page :: logical_page where
  "empty_page = \<lparr>lp_generation = 1, lp_content_epoch = 0, lp_committed_columns = 0, lp_references = 0,
     lp_active_references = 0, lp_protected_columns = 0, lp_source_pins = 0, lp_writer_references = 0,
     lp_destination_pinned = False, lp_occupied = False, lp_device_replica = None,
     lp_pending_device_replica = None, lp_host_replica = None\<rparr>"

definition make_logical_store :: "nat \<Rightarrow> page_pool \<Rightarrow> nat \<Rightarrow> logical_store res" where
  "make_logical_store this physical logical_capacity =
     (if logical_capacity = 0 \<or> logical_capacity < capacity_pages physical then Inl InvalidArgument
      else Inr \<lparr>lk_id = this, lk_pages = replicate logical_capacity empty_page,
                lk_free = map (\<lambda>index. logical_capacity - 1 - index) [0..<logical_capacity],
                lk_scratch_room = capacity_pages physical, lk_free_count = logical_capacity\<rparr>)"

definition lk_next_epoch :: "u64 \<Rightarrow> u64" where
  "lk_next_epoch epoch = (let e = epoch + 1 in if e = 0 then 1 else e)"

definition lk_occupied :: "logical_store \<Rightarrow> nat" where
  "lk_occupied s = u32_sub (length (lk_pages s)) (lk_free_count s)"

section \<open>Handles\<close>

definition lk_valid :: "logical_store \<Rightarrow> logical_handle \<Rightarrow> bool" where
  "lk_valid s h \<longleftrightarrow>
     lh_owner h = Some (lk_id s) \<and> lh_index h < length (lk_pages s) \<and>
     lp_occupied (lk_pages s ! lh_index h) \<and> lp_generation (lk_pages s ! lh_index h) = lh_generation h"

definition lk_page :: "logical_store \<Rightarrow> logical_handle \<Rightarrow> logical_page" where
  "lk_page s h = lk_pages s ! lh_index h"

definition lk_require :: "logical_store \<Rightarrow> logical_handle \<Rightarrow> logical_page res" where
  "lk_require s h = (if \<not> lk_valid s h then Inl InvalidArgument else Inr (lk_page s h))"

definition lk_put :: "logical_handle \<Rightarrow> logical_page \<Rightarrow> logical_store \<Rightarrow> logical_store" where
  "lk_put h page s = s\<lparr>lk_pages := (lk_pages s)[lh_index h := page]\<rparr>"

definition lk_modify ::
  "logical_store \<Rightarrow> logical_handle \<Rightarrow> (logical_page \<Rightarrow> logical_page res) \<Rightarrow> logical_store res" where
  "lk_modify s h f =
     rbind (lk_require s h) (\<lambda>page. rbind (f page) (\<lambda>page'. Inr (lk_put h page' s)))"

definition replica_reset :: "page_lease option \<Rightarrow> page_pool \<Rightarrow> page_pool" where
  "replica_reset replica p = (case replica of None \<Rightarrow> p | Some l \<Rightarrow> snd (snd (lease_release l p)))"

definition no_throw :: "'a res \<Rightarrow> 'a res" where
  "no_throw m = (case m of Inl e \<Rightarrow> Inl Terminate | Inr x \<Rightarrow> Inr x)"

text \<open>A descriptor that is freed: its page, and the stack of free descriptors.\<close>

definition vacated :: "logical_page \<Rightarrow> logical_page" where
  "vacated page = page\<lparr>lp_committed_columns := 0, lp_references := 0, lp_active_references := 0,
     lp_protected_columns := 0, lp_source_pins := 0, lp_writer_references := 0,
     lp_destination_pinned := False, lp_occupied := False, lp_pending_device_replica := None,
     lp_host_replica := None, lp_generation := increment_generation (lp_generation page)\<rparr>"

definition lk_vacate :: "logical_handle \<Rightarrow> logical_page \<Rightarrow> logical_store \<Rightarrow> logical_store" where
  "lk_vacate h page s =
     (lk_put h (vacated page) s)\<lparr>lk_free := (lk_free s)[lk_free_count s := lh_index h],
        lk_free_count := u32_add (lk_free_count s) 1\<rparr>"

definition lk_release_descriptor ::
  "logical_handle \<Rightarrow> logical_page \<Rightarrow> logical_store \<Rightarrow> page_pool \<Rightarrow> (logical_store \<times> page_pool) res" where
  "lk_release_descriptor h page s p =
     (if lp_active_references page \<noteq> 0 then Inl Terminate
      else Inr (lk_vacate h page s, replica_reset (lp_pending_device_replica page) p))"

section \<open>Materialization\<close>

text \<open>A descriptor that is taken into use with a fresh device page and one writing reference.\<close>

definition lk_populate :: "page_lease \<Rightarrow> logical_page \<Rightarrow> logical_page" where
  "lk_populate lease page =
     page\<lparr>lp_device_replica := Some lease, lp_content_epoch := lk_next_epoch (lp_content_epoch page),
          lp_committed_columns := 0, lp_references := 1, lp_active_references := 0,
          lp_writer_references := 1, lp_protected_columns := 0, lp_occupied := True\<rparr>"

definition lk_handle :: "logical_store \<Rightarrow> nat \<Rightarrow> logical_handle" where
  "lk_handle s index =
     \<lparr>lh_owner = Some (lk_id s), lh_index = index, lh_generation = lp_generation (lk_pages s ! index)\<rparr>"

definition lk_materialize ::
  "reservation \<Rightarrow> logical_store \<Rightarrow> page_pool \<Rightarrow>
     (logical_handle \<times> reservation \<times> logical_store \<times> page_pool) res" where
  "lk_materialize rv s p =
     (if lk_free_count s = 0 then Inl LogicError
      else rbind (materialize_one rv p) (\<lambda>(lease, rv', p').
        let index = lk_free s ! (lk_free_count s - 1);
            page = lk_pages s ! index
        in Inr (lk_handle s index, rv',
                s\<lparr>lk_free_count := lk_free_count s - 1,
                   lk_pages := (lk_pages s)[index := lk_populate lease page]\<rparr>,
                replica_reset (lp_device_replica page) p')))"

definition lk_physical :: "logical_store \<Rightarrow> logical_handle \<Rightarrow> page_handle res" where
  "lk_physical s h = rbind (lk_require s h) (\<lambda>page.
     case lp_device_replica page of None \<Rightarrow> Inl LogicError | Some l \<Rightarrow> Inr (lease_handle l))"

definition lk_batch_step ::
  "logical_store \<Rightarrow> nat \<times> page_lease \<Rightarrow> logical_page list \<times> page_pool \<Rightarrow> logical_page list \<times> page_pool" where
  "lk_batch_step s = (\<lambda>(offset, lease) (pages, p).
     let index = lk_free s ! (lk_free_count s - 1 - offset);
         page = pages ! index
     in (pages[index := lk_populate lease page], replica_reset (lp_device_replica page) p))"

text \<open>
  The batch: \<open>destinations\<close> are the current values of the span, which must all be null handles; the
  result holds their new values. The scratch vector is empty before and after.
\<close>

definition lk_materialize_batch ::
  "reservation \<Rightarrow> logical_handle option list \<Rightarrow> logical_handle option \<Rightarrow> logical_store \<Rightarrow> page_pool \<Rightarrow>
     (logical_handle option list \<times> reservation \<times> logical_store \<times> page_pool) res" where
  "lk_materialize_batch rv destinations preferred s p =
     (let n = length destinations in
      if n = 0 then Inr ([], rv, s, p)
      else if n > lk_free_count s \<or> n > lk_scratch_room s then Inl LogicError
      else if list_ex (\<lambda>d. d \<noteq> None) destinations then Inl LogicError
      else if list_ex (\<lambda>offset. lp_occupied (lk_pages s ! (lk_free s ! (lk_free_count s - 1 - offset)))) [0..<n]
      then Inl LogicError
      else rbind (case preferred of None \<Rightarrow> Inr None | Some h \<Rightarrow> rbind (lk_physical s h) (\<lambda>q. Inr (Some q))) (\<lambda>predecessor.
           rbind (materialize rv n [] (lk_scratch_room s) predecessor p) (\<lambda>(rv', leases, p').
             case fold (lk_batch_step s) (enumerate 0 leases) (lk_pages s, p') of (pages, p'') \<Rightarrow>
               Inr (map (\<lambda>offset. Some (lk_handle s (lk_free s ! (lk_free_count s - 1 - offset)))) [0..<n], rv',
                    s\<lparr>lk_pages := pages, lk_free_count := lk_free_count s - n\<rparr>, p''))))"

section \<open>Transfer destinations\<close>

definition lk_materialize_transfer_destination ::
  "reservation \<Rightarrow> nat \<Rightarrow> logical_store \<Rightarrow> page_pool \<Rightarrow>
     (logical_handle \<times> reservation \<times> logical_store \<times> page_pool) res" where
  "lk_materialize_transfer_destination rv columns s p =
     (if columns = 0 \<or> columns > kv_page_size \<or> lk_free_count s = 0 then Inl InvalidArgument
      else rbind (materialize_one rv p) (\<lambda>(lease, rv', p').
        let index = lk_free s ! (lk_free_count s - 1);
            page = lk_pages s ! index;
            page' = page\<lparr>lp_device_replica := Some lease,
                      lp_content_epoch := lk_next_epoch (lp_content_epoch page),
                      lp_committed_columns := columns, lp_references := 0, lp_active_references := 0,
                      lp_writer_references := 0, lp_protected_columns := 0,
                      lp_destination_pinned := True, lp_occupied := True\<rparr>
        in Inr (lk_handle s index, rv',
                s\<lparr>lk_free_count := lk_free_count s - 1, lk_pages := (lk_pages s)[index := page']\<rparr>,
                replica_reset (lp_device_replica page) p')))"

text \<open>The condition that publication and abortion share.\<close>

definition transfer_destination :: "logical_page \<Rightarrow> bool" where
  "transfer_destination page \<longleftrightarrow>
     \<not> (lp_device_replica page = None \<or> lp_pending_device_replica page \<noteq> None \<or> lp_host_replica page \<noteq> None \<or>
        \<not> lp_destination_pinned page \<or> lp_references page \<noteq> 0 \<or> lp_writer_references page \<noteq> 0 \<or>
        lp_source_pins page \<noteq> 0)"

definition lk_publish_transfer_destination ::
  "logical_handle \<Rightarrow> bool \<Rightarrow> logical_store \<Rightarrow> logical_store res" where
  "lk_publish_transfer_destination h writer s =
     (if \<not> lk_valid s h then Inl Terminate
      else let page = lk_page s h in
        if \<not> transfer_destination page then Inl Terminate
        else Inr (lk_put h (page\<lparr>lp_references := 1, lp_writer_references := (if writer then 1 else 0),
                                 lp_destination_pinned := False\<rparr>) s))"

definition lk_abort_transfer_destination ::
  "logical_handle \<Rightarrow> reservation \<Rightarrow> logical_store \<Rightarrow> page_pool \<Rightarrow> (reservation \<times> logical_store \<times> page_pool) res" where
  "lk_abort_transfer_destination h rv s p =
     (if \<not> lk_valid s h then Inr (rv, s, p)
      else let page = lk_page s h in
        if \<not> transfer_destination page then Inr (rv, s, p)
        else rbind (no_throw (dematerialize_one rv (the (lp_device_replica page)) p)) (\<lambda>(rv', l, p').
             rbind (lk_release_descriptor h (page\<lparr>lp_device_replica := None\<rparr>) s p') (\<lambda>(s', p'').
               Inr (rv', s', p''))))"


section \<open>Queries\<close>

definition lk_descriptor_index :: "logical_store \<Rightarrow> logical_handle \<Rightarrow> nat res" where
  "lk_descriptor_index s h = rbind (lk_require s h) (\<lambda>_. Inr (lh_index h))"

definition lk_device_resident :: "logical_store \<Rightarrow> logical_handle \<Rightarrow> bool res" where
  "lk_device_resident s h = rbind (lk_require s h) (\<lambda>page. Inr (lp_device_replica page \<noteq> None))"

definition lk_host_resident :: "logical_store \<Rightarrow> logical_handle \<Rightarrow> bool res" where
  "lk_host_resident s h = rbind (lk_require s h) (\<lambda>page. Inr (lp_host_replica page \<noteq> None))"

definition lk_host_replica :: "logical_store \<Rightarrow> logical_handle \<Rightarrow> host_page_replica res" where
  "lk_host_replica s h = rbind (lk_require s h) (\<lambda>page.
     case lp_host_replica page of None \<Rightarrow> Inl LogicError | Some r \<Rightarrow> Inr r)"

definition lk_content_epoch :: "logical_store \<Rightarrow> logical_handle \<Rightarrow> u64 res" where
  "lk_content_epoch s h = rbind (lk_require s h) (\<lambda>page. Inr (lp_content_epoch page))"

definition lk_committed_columns :: "logical_store \<Rightarrow> logical_handle \<Rightarrow> nat res" where
  "lk_committed_columns s h = rbind (lk_require s h) (\<lambda>page. Inr (lp_committed_columns page))"

definition lk_address_references :: "logical_store \<Rightarrow> logical_handle \<Rightarrow> nat res" where
  "lk_address_references s h = rbind (lk_require s h) (\<lambda>page. Inr (lp_references page))"

definition lk_active_address_references :: "logical_store \<Rightarrow> logical_handle \<Rightarrow> nat res" where
  "lk_active_address_references s h = rbind (lk_require s h) (\<lambda>page. Inr (lp_active_references page))"

definition lk_writer_references :: "logical_store \<Rightarrow> logical_handle \<Rightarrow> nat res" where
  "lk_writer_references s h = rbind (lk_require s h) (\<lambda>page. Inr (lp_writer_references page))"

definition lk_protected_columns :: "logical_store \<Rightarrow> logical_handle \<Rightarrow> nat res" where
  "lk_protected_columns s h = rbind (lk_require s h) (\<lambda>page. Inr (lp_protected_columns page))"

definition lk_source_pins :: "logical_store \<Rightarrow> logical_handle \<Rightarrow> nat res" where
  "lk_source_pins s h = rbind (lk_require s h) (\<lambda>page. Inr (lp_source_pins page))"

definition lk_can_pin_source :: "logical_store \<Rightarrow> logical_handle \<Rightarrow> bool" where
  "lk_can_pin_source s h \<longleftrightarrow> lk_valid s h \<and> (let page = lk_page s h in
     lp_device_replica page \<noteq> None \<and> lp_writer_references page = 0 \<and> \<not> lp_destination_pinned page \<and>
     lp_source_pins page \<noteq> uint32_max)"

definition lk_can_pin_active_source :: "logical_store \<Rightarrow> logical_handle \<Rightarrow> bool" where
  "lk_can_pin_active_source s h \<longleftrightarrow> lk_valid s h \<and> (let page = lk_page s h in
     lp_device_replica page \<noteq> None \<and> lp_writer_references page = 1 \<and> lp_references page = 1 \<and>
     \<not> lp_destination_pinned page \<and> lp_source_pins page \<noteq> uint32_max)"

definition replica_current :: "logical_page \<Rightarrow> bool" where
  "replica_current page \<longleftrightarrow> (case lp_host_replica page of None \<Rightarrow> False
     | Some r \<Rightarrow> pr_content_epoch r = lp_content_epoch page \<and>
                 pr_committed_columns r = lp_committed_columns page)"

definition lk_host_replica_current :: "logical_store \<Rightarrow> logical_handle \<Rightarrow> bool" where
  "lk_host_replica_current s h \<longleftrightarrow> lk_valid s h \<and> replica_current (lk_page s h)"

section \<open>Device replicas restored from the Host\<close>

definition lk_reserve_device_replica ::
  "logical_handle \<Rightarrow> reservation \<Rightarrow> logical_store \<Rightarrow> page_pool \<Rightarrow>
     (page_handle \<times> reservation \<times> logical_store \<times> page_pool) res" where
  "lk_reserve_device_replica h rv s p = rbind (lk_require s h) (\<lambda>page.
     if lp_device_replica page \<noteq> None \<or> lp_pending_device_replica page \<noteq> None \<or> lp_destination_pinned page \<or>
        lp_source_pins page \<noteq> 0 \<or> \<not> replica_current page then Inl LogicError
     else rbind (materialize_one rv p) (\<lambda>(lease, rv', p').
       Inr (lease_handle lease, rv',
            lk_put h (page\<lparr>lp_pending_device_replica := Some lease, lp_destination_pinned := True\<rparr>) s, p')))"

definition lk_publish_device_replica :: "logical_handle \<Rightarrow> logical_store \<Rightarrow> logical_store res" where
  "lk_publish_device_replica h s = lk_modify s h (\<lambda>page.
     if lp_device_replica page \<noteq> None \<or> lp_pending_device_replica page = None \<or> \<not> lp_destination_pinned page \<or>
        \<not> replica_current page then Inl LogicError
     else Inr (page\<lparr>lp_device_replica := lp_pending_device_replica page, lp_pending_device_replica := None,
                    lp_destination_pinned := False\<rparr>))"

definition lk_abort_device_replica ::
  "logical_handle \<Rightarrow> reservation \<Rightarrow> logical_store \<Rightarrow> page_pool \<Rightarrow> (reservation \<times> logical_store \<times> page_pool) res" where
  "lk_abort_device_replica h rv s p =
     (if \<not> lk_valid s h then Inr (rv, s, p)
      else let page = lk_page s h in
        if lp_pending_device_replica page = None \<or> \<not> lp_destination_pinned page then Inr (rv, s, p)
        else rbind (no_throw (dematerialize_one rv (the (lp_pending_device_replica page)) p)) (\<lambda>(rv', l, p').
             Inr (rv', lk_put h (page\<lparr>lp_pending_device_replica := None, lp_destination_pinned := False\<rparr>) s, p')))"

definition lk_can_drop_device_replica :: "logical_store \<Rightarrow> logical_handle \<Rightarrow> bool" where
  "lk_can_drop_device_replica s h \<longleftrightarrow> lk_valid s h \<and> (let page = lk_page s h in
     lp_device_replica page \<noteq> None \<and> lk_host_replica_current s h \<and> lp_pending_device_replica page = None \<and>
     lp_writer_references page = 0 \<and> lp_active_references page = 0 \<and> lp_source_pins page = 0 \<and>
     \<not> lp_destination_pinned page)"

definition lk_drop_device_replica ::
  "logical_handle \<Rightarrow> logical_store \<Rightarrow> page_pool \<Rightarrow> bool \<times> logical_store \<times> page_pool" where
  "lk_drop_device_replica h s p =
     (if \<not> lk_can_drop_device_replica s h then (False, s, p)
      else let page = lk_page s h in
        (True, lk_put h (page\<lparr>lp_device_replica := None\<rparr>) s, replica_reset (lp_device_replica page) p))"

section \<open>References, writers and pins\<close>

definition lk_retain_active_reference :: "logical_handle \<Rightarrow> logical_store \<Rightarrow> logical_store res" where
  "lk_retain_active_reference h s = lk_modify s h (\<lambda>page.
     if lp_active_references page = uint32_max \<or> lp_active_references page \<ge> lp_references page then Inl LogicError
     else Inr (page\<lparr>lp_active_references := lp_active_references page + 1\<rparr>))"

definition lk_release_active_reference :: "logical_handle \<Rightarrow> logical_store \<Rightarrow> logical_store res" where
  "lk_release_active_reference h s = lk_modify s h (\<lambda>page.
     if lp_active_references page = 0 then Inl LogicError
     else Inr (page\<lparr>lp_active_references := lp_active_references page - 1\<rparr>))"

definition lk_retain_reference :: "logical_handle \<Rightarrow> bool \<Rightarrow> logical_store \<Rightarrow> logical_store res" where
  "lk_retain_reference h writer s = lk_modify s h (\<lambda>page.
     if lp_references page = uint32_max \<or> writer \<and> lp_writer_references page \<noteq> 0 then Inl LogicError
     else let page' = page\<lparr>lp_references := lp_references page + 1\<rparr>
          in Inr (if writer then page'\<lparr>lp_writer_references := 1\<rparr> else page'))"

definition lk_can_retain_reference :: "logical_store \<Rightarrow> logical_handle \<Rightarrow> bool \<Rightarrow> bool" where
  "lk_can_retain_reference s h writer \<longleftrightarrow> lk_valid s h \<and> (let page = lk_page s h in
     lp_references page \<noteq> uint32_max \<and>
     (\<not> writer \<or> lp_writer_references page = 0 \<and> lp_references page = 0) \<and> \<not> lp_destination_pinned page)"

definition lk_set_writer :: "logical_handle \<Rightarrow> bool \<Rightarrow> logical_store \<Rightarrow> logical_store res" where
  "lk_set_writer h writer s = lk_modify s h (\<lambda>page.
     if writer \<and> lp_writer_references page \<noteq> 0 then Inl LogicError
     else Inr (page\<lparr>lp_writer_references := (if writer then 1 else 0)\<rparr>))"

definition lk_can_set_writer :: "logical_store \<Rightarrow> logical_handle \<Rightarrow> bool \<Rightarrow> bool" where
  "lk_can_set_writer s h writer \<longleftrightarrow> lk_valid s h \<and> (let page = lk_page s h in
     if writer then lp_writer_references page = 0 \<and> lp_references page = 1 \<and> lp_source_pins page = 0 \<and>
                    lp_device_replica page \<noteq> None
     else lp_writer_references page = 1)"

definition lk_protect_coverage :: "logical_handle \<Rightarrow> nat \<Rightarrow> logical_store \<Rightarrow> logical_store res" where
  "lk_protect_coverage h columns s = lk_modify s h (\<lambda>page.
     if columns > lp_committed_columns page then Inl InvalidArgument
     else Inr (page\<lparr>lp_protected_columns := max (lp_protected_columns page) columns\<rparr>))"

definition lk_set_protected_coverage :: "logical_handle \<Rightarrow> nat \<Rightarrow> logical_store \<Rightarrow> logical_store res" where
  "lk_set_protected_coverage h columns s = lk_modify s h (\<lambda>page.
     if columns > lp_committed_columns page then Inl InvalidArgument
     else Inr (page\<lparr>lp_protected_columns := columns\<rparr>))"

definition lk_clear_protection :: "logical_handle \<Rightarrow> logical_store \<Rightarrow> logical_store res" where
  "lk_clear_protection h s = lk_modify s h (\<lambda>page.
     if lp_references page \<noteq> 1 \<or> lp_source_pins page \<noteq> 0 then Inl LogicError
     else Inr (page\<lparr>lp_protected_columns := 0\<rparr>))"

definition lk_pin_source :: "logical_handle \<Rightarrow> logical_store \<Rightarrow> logical_store res" where
  "lk_pin_source h s = lk_modify s h (\<lambda>page.
     if lp_source_pins page = uint32_max then Inl OverflowError
     else Inr (page\<lparr>lp_source_pins := lp_source_pins page + 1\<rparr>))"

definition lk_unpin_source :: "logical_handle \<Rightarrow> logical_store \<Rightarrow> logical_store res" where
  "lk_unpin_source h s = lk_modify s h (\<lambda>page.
     if lp_source_pins page = 0 then Inl LogicError
     else Inr (page\<lparr>lp_source_pins := lp_source_pins page - 1\<rparr>))"

section \<open>Coverage\<close>

definition lk_commit_coverage :: "logical_handle \<Rightarrow> nat \<Rightarrow> logical_store \<Rightarrow> logical_store res" where
  "lk_commit_coverage h columns s = lk_modify s h (\<lambda>page.
     if lp_device_replica page = None \<or> lp_writer_references page \<noteq> 1 \<or>
        columns < lp_committed_columns page \<or> columns > kv_page_size then Inl InvalidArgument
     else Inr (page\<lparr>lp_committed_columns := columns\<rparr>))"

definition cut_columns :: "nat \<Rightarrow> logical_page \<Rightarrow> logical_page" where
  "cut_columns columns page =
     (if columns \<noteq> lp_committed_columns page
      then page\<lparr>lp_committed_columns := columns, lp_content_epoch := lk_next_epoch (lp_content_epoch page)\<rparr>
      else page)"

definition lk_destructive_truncate :: "logical_handle \<Rightarrow> nat \<Rightarrow> logical_store \<Rightarrow> logical_store res" where
  "lk_destructive_truncate h columns s = lk_modify s h (\<lambda>page.
     if columns > lp_committed_columns page \<or> columns < lp_protected_columns page \<or> lp_references page \<noteq> 1 \<or>
        lp_writer_references page \<noteq> 1 \<or> lp_source_pins page \<noteq> 0 \<or> lp_destination_pinned page \<or>
        lp_host_replica page \<noteq> None then Inl InvalidArgument
     else Inr (cut_columns columns page))"

definition lk_can_destructive_truncate :: "logical_store \<Rightarrow> logical_handle \<Rightarrow> nat \<Rightarrow> bool" where
  "lk_can_destructive_truncate s h columns \<longleftrightarrow> lk_valid s h \<and> (let page = lk_page s h in
     columns \<le> lp_committed_columns page \<and> columns \<ge> lp_protected_columns page \<and> lp_references page = 1 \<and>
     lp_writer_references page = 1 \<and> lp_source_pins page = 0 \<and> \<not> lp_destination_pinned page \<and>
     lp_host_replica page = None \<and> lp_device_replica page \<noteq> None)"

definition lk_can_destructive_truncate_inactive :: "logical_store \<Rightarrow> logical_handle \<Rightarrow> nat \<Rightarrow> bool" where
  "lk_can_destructive_truncate_inactive s h columns \<longleftrightarrow> lk_valid s h \<and> (let page = lk_page s h in
     columns \<le> lp_committed_columns page \<and> lp_references page = 1 \<and> lp_writer_references page = 0 \<and>
     lp_source_pins page = 0 \<and> \<not> lp_destination_pinned page \<and> lp_host_replica page = None \<and>
     lp_device_replica page \<noteq> None)"

definition lk_can_destructive_truncate_inactive_after_host_release ::
  "logical_store \<Rightarrow> logical_handle \<Rightarrow> nat \<Rightarrow> bool" where
  "lk_can_destructive_truncate_inactive_after_host_release s h columns \<longleftrightarrow> lk_valid s h \<and> (let page = lk_page s h in
     columns \<le> lp_committed_columns page \<and> lp_references page = 1 \<and> lp_writer_references page = 0 \<and>
     lp_source_pins page = 0 \<and> \<not> lp_destination_pinned page \<and> lp_device_replica page \<noteq> None)"

definition lk_destructive_truncate_inactive :: "logical_handle \<Rightarrow> nat \<Rightarrow> logical_store \<Rightarrow> logical_store res" where
  "lk_destructive_truncate_inactive h columns s = lk_modify s h (\<lambda>page.
     if \<not> lk_can_destructive_truncate_inactive s h columns then Inl LogicError
     else let page' = cut_columns columns page
          in Inr (page'\<lparr>lp_protected_columns := min (lp_protected_columns page') columns\<rparr>))"

section \<open>Release\<close>

definition lk_can_dematerialize :: "logical_store \<Rightarrow> logical_handle \<Rightarrow> bool" where
  "lk_can_dematerialize s h \<longleftrightarrow> lk_valid s h \<and> (let page = lk_page s h in
     lp_references page = 1 \<and> lp_writer_references page = 1 \<and> lp_source_pins page = 0 \<and>
     \<not> lp_destination_pinned page \<and> lp_host_replica page = None \<and> lp_device_replica page \<noteq> None)"

definition lk_can_release_reference :: "logical_store \<Rightarrow> logical_handle \<Rightarrow> bool \<Rightarrow> bool" where
  "lk_can_release_reference s h writer \<longleftrightarrow> lk_valid s h \<and> (let page = lk_page s h in
     \<not> (lp_references page = 0 \<or> writer \<and> lp_writer_references page \<noteq> 1 \<or>
        lp_active_references page \<ge> lp_references page \<or> lp_source_pins page \<noteq> 0 \<or> lp_destination_pinned page))"

definition lk_can_release_reference_after_active_reference :: "logical_store \<Rightarrow> logical_handle \<Rightarrow> bool" where
  "lk_can_release_reference_after_active_reference s h \<longleftrightarrow> lk_valid s h \<and> (let page = lk_page s h in
     lp_references page \<noteq> 0 \<and> lp_active_references page \<noteq> 0 \<and> lp_active_references page \<le> lp_references page \<and>
     lp_writer_references page \<le> 1 \<and> lp_source_pins page = 0 \<and> \<not> lp_destination_pinned page)"

definition lk_release_reference ::
  "logical_handle \<Rightarrow> bool \<Rightarrow> logical_store \<Rightarrow> page_pool \<Rightarrow> (bool \<times> logical_store \<times> page_pool) res" where
  "lk_release_reference h writer s p =
     (if \<not> lk_can_release_reference s h writer then Inr (False, s, p)
      else
        let page = lk_page s h;
            page1 = (if writer then page\<lparr>lp_writer_references := 0\<rparr> else page);
            page2 = page1\<lparr>lp_references := lp_references page1 - 1\<rparr>
        in if lp_references page2 \<noteq> 0 then Inr (True, lk_put h page2 s, p)
           else
             let p' = replica_reset (lp_device_replica page2) p;
                 page3 = page2\<lparr>lp_device_replica := None\<rparr>
             in if lp_host_replica page3 \<noteq> None then Inr (True, lk_put h page3 s, p')
                else rbind (lk_release_descriptor h page3 s p') (\<lambda>(s', p''). Inr (True, s', p'')))"

definition lk_release ::
  "logical_handle \<Rightarrow> logical_store \<Rightarrow> page_pool \<Rightarrow> (bool \<times> logical_store \<times> page_pool) res" where
  "lk_release h s p =
     (if \<not> lk_valid s h then Inr (False, s, p)
      else lk_release_reference h (lp_writer_references (lk_page s h) \<noteq> 0) s p)"

definition lk_dematerialize ::
  "logical_handle \<Rightarrow> reservation \<Rightarrow> logical_store \<Rightarrow> page_pool \<Rightarrow> (reservation \<times> logical_store \<times> page_pool) res" where
  "lk_dematerialize h rv s p = rbind (lk_require s h) (\<lambda>page.
     if lp_references page \<noteq> 1 \<or> lp_writer_references page \<noteq> 1 \<or> lp_source_pins page \<noteq> 0 \<or>
        lp_destination_pinned page \<or> lp_host_replica page \<noteq> None \<or> lp_device_replica page = None
     then Inl LogicError
     else rbind (dematerialize_one rv (the (lp_device_replica page)) p) (\<lambda>(rv', l, p').
          rbind (lk_release_descriptor h (page\<lparr>lp_device_replica := None\<rparr>) s p') (\<lambda>(s', p'').
            Inr (rv', s', p''))))"

section \<open>Host replicas\<close>

definition lk_can_attach_host_replica :: "logical_store \<Rightarrow> logical_handle \<Rightarrow> u64 \<Rightarrow> nat \<Rightarrow> bool" where
  "lk_can_attach_host_replica s h epoch coverage \<longleftrightarrow> lk_valid s h \<and> (let page = lk_page s h in
     lp_host_replica page = None \<and> epoch = lp_content_epoch page \<and> coverage = lp_committed_columns page)"

definition lk_attach_host_replica :: "logical_handle \<Rightarrow> host_page_replica \<Rightarrow> logical_store \<Rightarrow> logical_store res" where
  "lk_attach_host_replica h replica s = lk_modify s h (\<lambda>page.
     if ec_owner (pr_extent replica) = None \<or> pr_membership_node replica = uint32_max \<or>
        \<not> lk_can_attach_host_replica s h (pr_content_epoch replica) (pr_committed_columns replica)
     then Inl LogicError
     else Inr (page\<lparr>lp_host_replica := Some replica\<rparr>))"

definition lk_rebind_host_replica ::
  "logical_handle \<Rightarrow> host_page_replica \<Rightarrow> host_page_replica \<Rightarrow> logical_store \<Rightarrow> logical_store res" where
  "lk_rebind_host_replica h expected replacement s =
     (if \<not> lk_valid s h then Inl Terminate
      else let page = lk_page s h in
        if lp_host_replica page \<noteq> Some expected \<or> pr_content_epoch expected \<noteq> lp_content_epoch page \<or>
           ec_owner (pr_extent replacement) = None \<or>
           pr_membership_node replacement \<noteq> pr_membership_node expected \<or>
           pr_content_epoch replacement \<noteq> pr_content_epoch expected \<or>
           pr_committed_columns replacement \<noteq> pr_committed_columns expected then Inl Terminate
        else Inr (lk_put h (page\<lparr>lp_host_replica := Some replacement\<rparr>) s))"

definition lk_detach_host_replica ::
  "logical_handle \<Rightarrow> extent_capability \<Rightarrow> logical_store \<Rightarrow> page_pool \<Rightarrow> (bool \<times> logical_store \<times> page_pool) res" where
  "lk_detach_host_replica h extent s p =
     (if \<not> lk_valid s h then Inr (False, s, p)
      else let page = lk_page s h in
        case lp_host_replica page of
          None \<Rightarrow> Inr (False, s, p)
        | Some r \<Rightarrow>
            if pr_extent r \<noteq> extent \<or> lp_device_replica page = None \<and> lp_references page \<noteq> 0 then Inr (False, s, p)
            else let page' = page\<lparr>lp_host_replica := None\<rparr> in
              if lp_references page' = 0 \<and> lp_source_pins page' = 0 \<and> lp_device_replica page' = None
              then rbind (lk_release_descriptor h page' s p) (\<lambda>(s', p'). Inr (True, s', p'))
              else Inr (True, lk_put h page' s, p))"

end
