(* ===== verification/LogicalSystem.thy ===== *)
theory LogicalSystem
  imports LogicalPages
begin

text \<open>
  The invariant of the store of logical KV pages together with the device page pool and the
  reservations of its clients. Descriptors are slots with generations; the leases in the descriptors are
  exactly the armed leases of the pool; and every page satisfies \<open>page_ok\<close>, which says how its counters,
  pins and replicas fit together.
\<close>

declare not_None_eq [iff del]

section \<open>The pool and the reservations\<close>

definition pool_balance :: "page_pool \<Rightarrow> reservation list \<Rightarrow> page_lease multiset \<Rightarrow> bool" where
  "pool_balance p rvs L \<longleftrightarrow> ledger p L \<and> sum_list (map rv_pages rvs) = pp_reserved_pages p \<and>
     (\<forall>rv\<in>set rvs. reservation_ok p rv)"

lemma pool_balance_update:
  assumes b: "pool_balance p rvs L" and i: "i < length rvs" and q: "same_pool p q" and L: "ledger q L'"
    and own: "rv_owner rv = rv_owner (rvs ! i)"
    and bal: "pp_reserved_pages q + rv_pages (rvs ! i) = pp_reserved_pages p + rv_pages rv"
    and z: "rv_owner (rvs ! i) \<noteq> None"
  shows "pool_balance q (rvs[i := rv]) L'"
proof -
  have "reservation_ok p (rvs ! i)" using b i by (simp add: pool_balance_def)
  then have "reservation_ok q rv" using own z q by (auto simp: reservation_ok_def same_pool_def)
  moreover have "\<forall>r\<in>set rvs. reservation_ok q r"
    using b q by (simp add: pool_balance_def reservation_ok_same)
  ultimately have "\<forall>r\<in>set (rvs[i := rv]). reservation_ok q r"
    using set_update_subset_insert [of rvs i rv] by blast
  then show ?thesis
    using promised_update [OF i, of rv] b bal L by (simp add: pool_balance_def)
qed

lemma pool_balance_pages:
  assumes "pool_balance p rvs L" and "i < length rvs"
  shows "rv_pages (rvs ! i) \<le> pp_reserved_pages p"
  using assms promised_member [of "rvs ! i" rvs] by (simp add: pool_balance_def)

lemma balance_materialize_one:
  assumes "pool_balance p rvs L" and "i < length rvs" and m: "materialize_one (rvs ! i) p = Inr (l, rv, q)"
  shows "pool_balance q (rvs[i := rv]) (add_mset l L)" "same_pool p q"
proof -
  have L: "ledger p L" using assms(1) by (simp add: pool_balance_def)
  note t = materialize_one_ledger [OF L pool_balance_pages [OF assms(1,2)] m]
  have "rv_owner (rvs ! i) \<noteq> None" using m by (auto simp: materialize_one_def split: if_splits)
  with t show "pool_balance q (rvs[i := rv]) (add_mset l L)"
    by (intro pool_balance_update [OF assms(1,2)]) simp_all
  show "same_pool p q" by (rule t)
qed

lemma balance_materialize:
  assumes "pool_balance p rvs L" and "i < length rvs"
    and m: "materialize (rvs ! i) n [] room predecessor p = Inr (rv, leases, q)"
  shows "pool_balance q (rvs[i := rv]) (mset leases + L)" "same_pool p q" "length leases = n"
proof -
  have L: "ledger p L" using assms(1) by (simp add: pool_balance_def)
  from materialize_ledger [OF L pool_balance_pages [OF assms(1,2)] m] obtain new where
    t: "leases = new" "length leases = n" "ledger q (L + mset new)" "same_pool p q" "rv_owner rv = rv_owner (rvs ! i)"
      "rv_pages rv + length new = rv_pages (rvs ! i)" "pp_reserved_pages q + length new = pp_reserved_pages p"
    by auto
  have "rv_owner (rvs ! i) \<noteq> None" using materialize_guards(1) [OF m] by simp
  with t show "pool_balance q (rvs[i := rv]) (mset leases + L)"
    by (intro pool_balance_update [OF assms(1,2)]) (simp_all add: add.commute)
  show "same_pool p q" "length leases = n" using t by simp_all
qed

lemma balance_dematerialize_one:
  assumes "pool_balance p rvs L" and "i < length rvs" and "l \<in># L"
    and m: "dematerialize_one (rvs ! i) l p = Inr (rv, l', q)"
  shows "pool_balance q (rvs[i := rv]) (L - {#l#})" "same_pool p q"
proof -
  have L: "ledger p L" using assms(1) by (simp add: pool_balance_def)
  note t = dematerialize_one_ledger [OF L assms(3) pool_balance_pages [OF assms(1,2)] m]
  have "rv_owner (rvs ! i) \<noteq> None" using m by (auto simp: dematerialize_one_def split: if_splits)
  with t show "pool_balance q (rvs[i := rv]) (L - {#l#})"
    by (intro pool_balance_update [OF assms(1,2)]) simp_all
  show "same_pool p q" by (rule t)
qed

lemma dematerialize_one_succeeds:
  assumes "pool_balance p rvs L" and "i < length rvs" and "l \<in># L" and "rv_owner (rvs ! i) = Some (pp_id p)"
  shows "\<exists>r. dematerialize_one (rvs ! i) l p = Inr r"
proof -
  have L: "ledger p L" using assms(1) by (simp add: pool_balance_def)
  then have "pp_reserved_pages p \<le> capacity_pages p" "capacity_pages p \<le> int32_max"
    by (simp_all add: ledger_def pool_ok_def)
  then have "rv_pages (rvs ! i) \<noteq> uint32_max" using pool_balance_pages [OF assms(1,2)] by simp
  then show ?thesis
    using assms(4) ledger_lease(3) [OF L assms(3)] ledger_valid [OF L assms(3)] lease_release_ledger [OF L assms(3)]
    by (simp add: dematerialize_one_def)
qed

lemma balance_reset:
  assumes "pool_balance p rvs L" and "l \<in># L"
  shows "pool_balance (replica_reset (Some l) p) rvs (L - {#l#})" "same_pool p (replica_reset (Some l) p)"
proof -
  have L: "ledger p L" using assms(1) by (simp add: pool_balance_def)
  note t = release_page_ledger [OF L assms(2) refl]
  have e: "replica_reset (Some l) p = release_page (ls_index l) (ls_generation l) p"
    by (simp add: replica_reset_def lease_release_ledger [OF L assms(2)])
  show "pool_balance (replica_reset (Some l) p) rvs (L - {#l#})"
    using t assms(1) unfolding e by (simp add: pool_balance_def reservation_ok_same [OF t(2)])
  show "same_pool p (replica_reset (Some l) p)" using t unfolding e by simp
qed

lemma replica_reset_None [simp]: "replica_reset None p = p"
  by (simp add: replica_reset_def)

section \<open>Descriptors\<close>

definition descriptors_ok :: "logical_store \<Rightarrow> bool" where
  "descriptors_ok s \<longleftrightarrow>
    length (lk_free s) = length (lk_pages s) \<and> lk_free_count s \<le> length (lk_pages s) \<and>
    length (lk_pages s) \<le> uint32_max \<and> (\<forall>page\<in>set (lk_pages s). lp_generation page \<noteq> 0) \<and>
    mset (take (lk_free_count s) (lk_free s)) =
      mset_set {i. i < length (lk_pages s) \<and> \<not> lp_occupied (lk_pages s ! i)}"

lemma descriptors_room:
  assumes "descriptors_ok s" and "i < length (lk_pages s)" and "lp_occupied (lk_pages s ! i)"
  shows "lk_free_count s < length (lk_pages s)"
proof -
  let ?F = "{i. i < length (lk_pages s) \<and> \<not> lp_occupied (lk_pages s ! i)}"
  have "lk_free_count s = size (mset (take (lk_free_count s) (lk_free s)))"
    using assms(1) unfolding size_mset length_take by (simp add: descriptors_ok_def)
  also have "\<dots> = size (mset_set ?F)" using assms(1) unfolding descriptors_ok_def by metis
  also have "\<dots> = card ?F" by simp
  also have "\<dots> < card {0..<length (lk_pages s)}"
  proof (rule psubset_card_mono)
    have "i \<in> {0..<length (lk_pages s)}" "i \<notin> ?F" using assms(2,3) by simp_all
    then show "?F \<subset> {0..<length (lk_pages s)}" by fastforce
  qed simp
  finally show ?thesis by simp
qed

lemma lk_vacate_fields:
  assumes "descriptors_ok s" and "lh_index h < length (lk_pages s)" and "lp_occupied (lk_pages s ! lh_index h)"
  shows "lk_vacate h page s = s\<lparr>lk_pages := (lk_pages s)[lh_index h := vacated page],
    lk_free := (lk_free s)[lk_free_count s := lh_index h], lk_free_count := lk_free_count s + 1\<rparr>"
  using descriptors_room [OF assms] assms(1)
  by (simp add: lk_vacate_def lk_put_def u32_add_small descriptors_ok_def)

lemma vacated_simps [simp]:
  "lp_occupied (vacated page) = False" "lp_generation (vacated page) = increment_generation (lp_generation page)"
  "lp_content_epoch (vacated page) = lp_content_epoch page"
  "lp_device_replica (vacated page) = lp_device_replica page" "lp_pending_device_replica (vacated page) = None"
  by (simp_all add: vacated_def)

lemma lk_vacate_descriptors:
  assumes "descriptors_ok s" and "lh_index h < length (lk_pages s)" and "lp_occupied (lk_pages s ! lh_index h)"
  shows "descriptors_ok (lk_vacate h page s)"
proof -
  let ?i = "lh_index h" and ?F = "{i. i < length (lk_pages s) \<and> \<not> lp_occupied (lk_pages s ! i)}"
  note e = lk_vacate_fields [OF assms, of page]
  have f: "{j. j < length (lk_pages (lk_vacate h page s)) \<and> \<not> lp_occupied (lk_pages (lk_vacate h page s) ! j)} = insert ?i ?F"
    using assms(2) by (auto simp: e nth_list_update split: if_splits)
  have g: "\<forall>q\<in>set ((lk_pages s)[?i := vacated page]). lp_generation q \<noteq> 0"
    using assms(1) by (auto simp: descriptors_ok_def dest!: set_update_subset_insert [THEN subsetD])
  show ?thesis
    unfolding descriptors_ok_def f using assms descriptors_room [OF assms] g
    by (simp add: e descriptors_ok_def mset_take_push)
qed

interpretation page_slots: generation_slots descriptors_ok "\<lambda>s. length (lk_pages s)"
  "\<lambda>s i. lp_occupied (lk_pages s ! i)" "\<lambda>s i. lp_generation (lk_pages s ! i)"
  "\<lambda>i s. lk_vacate (lk_handle s i) (lk_pages s ! i) s"
proof
  fix s i assume s: "descriptors_ok s" and i: "i < length (lk_pages s)"
  show "lp_generation (lk_pages s ! i) \<noteq> 0" using s i by (simp add: descriptors_ok_def)
  assume u: "lp_occupied (lk_pages s ! i)"
  let ?t = "lk_vacate (lk_handle s i) (lk_pages s ! i) s"
  have h: "lh_index (lk_handle s i) = i" by (simp add: lk_handle_def)
  note e = lk_vacate_fields [OF s, of "lk_handle s i", unfolded h, OF i u]
  show "descriptors_ok ?t" by (rule lk_vacate_descriptors) (simp_all add: s i u h)
  show "length (lk_pages ?t) = length (lk_pages s)" by (simp add: e)
  show "\<not> lp_occupied (lk_pages ?t ! i) \<and> lp_generation (lk_pages ?t ! i) = increment_generation (lp_generation (lk_pages s ! i))"
    using i by (simp add: e)
  show "lp_occupied (lk_pages ?t ! j) = lp_occupied (lk_pages s ! j) \<and>
      lp_generation (lk_pages ?t ! j) = lp_generation (lk_pages s ! j)" if "j \<noteq> i" for j
    using that by (simp add: e)
qed

lemma lk_valid_holds:
  "lk_valid s h \<longleftrightarrow> lh_owner h = Some (lk_id s) \<and> page_slots.holds s (lh_index h, lh_generation h)"
  by (auto simp: lk_valid_def page_slots.holds_def)


section \<open>Pages\<close>

definition lease_mset :: "page_lease option \<Rightarrow> page_lease multiset" where
  "lease_mset r = (case r of None \<Rightarrow> {#} | Some l \<Rightarrow> {#l#})"

lemma lease_mset_simps [simp]: "lease_mset None = {#}" "lease_mset (Some l) = {#l#}"
  by (simp_all add: lease_mset_def)

definition page_held :: "logical_page \<Rightarrow> page_lease multiset" where
  "page_held page = lease_mset (lp_device_replica page) + lease_mset (lp_pending_device_replica page)"

definition store_held :: "logical_store \<Rightarrow> page_lease multiset" where
  "store_held s = sum_list (map page_held (lk_pages s))"

definition blank :: "logical_page \<Rightarrow> bool" where
  "blank page \<longleftrightarrow> lp_device_replica page = None \<and> lp_pending_device_replica page = None \<and>
     lp_host_replica page = None \<and> \<not> lp_destination_pinned page \<and> lp_source_pins page = 0 \<and>
     lp_references page = 0 \<and> lp_active_references page = 0 \<and> lp_writer_references page = 0 \<and>
     lp_committed_columns page = 0 \<and> lp_protected_columns page = 0"

definition page_ok :: "logical_page \<Rightarrow> bool" where
  "page_ok page \<longleftrightarrow>
     lp_writer_references page \<le> 1 \<and> lp_active_references page \<le> lp_references page \<and>
     lp_protected_columns page \<le> lp_committed_columns page \<and> lp_committed_columns page \<le> kv_page_size \<and>
     lp_content_epoch page \<noteq> 0 \<and>
     (lp_writer_references page = 1 \<longrightarrow> lp_references page = 1 \<and> lp_device_replica page \<noteq> None) \<and>
     (lp_source_pins page \<noteq> 0 \<longrightarrow> lp_device_replica page \<noteq> None \<and> \<not> lp_destination_pinned page) \<and>
     (lp_pending_device_replica page \<noteq> None \<longrightarrow>
        lp_destination_pinned page \<and> lp_device_replica page = None \<and> lp_references page \<noteq> 0) \<and>
     (lp_destination_pinned page \<and> lp_pending_device_replica page = None \<longrightarrow>
        lp_device_replica page \<noteq> None \<and> lp_host_replica page = None \<and> lp_references page = 0) \<and>
     (lp_references page = 0 \<and> \<not> lp_destination_pinned page \<longrightarrow>
        lp_device_replica page = None \<and> lp_host_replica page \<noteq> None) \<and>
     (lp_device_replica page = None \<and> lp_references page \<noteq> 0 \<longrightarrow> replica_current page) \<and>
     (\<forall>r. lp_host_replica page = Some r \<longrightarrow>
        pr_content_epoch r = lp_content_epoch page \<and> pr_committed_columns r \<le> lp_committed_columns page)"

definition pages_ok :: "logical_store \<Rightarrow> bool" where
  "pages_ok s \<longleftrightarrow> descriptors_ok s \<and>
     (\<forall>page\<in>set (lk_pages s). if lp_occupied page then page_ok page else blank page)"

definition kv_ok :: "logical_store \<Rightarrow> page_pool \<Rightarrow> reservation list \<Rightarrow> bool" where
  "kv_ok s p rvs \<longleftrightarrow> pages_ok s \<and> pool_balance p rvs (store_held s)"

lemma blank_held: "blank page \<Longrightarrow> page_held page = {#}"
  by (simp add: blank_def page_held_def)

lemma sum_list_update_mset:
  fixes f :: "'a \<Rightarrow> 'b multiset"
  assumes "i < length xs"
  shows "sum_list (map f (xs[i := v])) = sum_list (map f xs) - f (xs ! i) + f v" "f (xs ! i) \<subseteq># sum_list (map f xs)"
proof -
  have "xs = take i xs @ xs ! i # drop (Suc i) xs" using assms by (rule id_take_nth_drop)
  then have e: "sum_list (map f xs) = sum_list (map f (take i xs)) + f (xs ! i) + sum_list (map f (drop (Suc i) xs))"
    by (metis list.map(2) map_append sum_list.Cons sum_list.append add.assoc)
  show "f (xs ! i) \<subseteq># sum_list (map f xs)" by (simp add: e)
  show "sum_list (map f (xs[i := v])) = sum_list (map f xs) - f (xs ! i) + f v"
    by (simp add: e upd_conv_take_nth_drop assms add.assoc add.left_commute)
qed

lemma store_held_update:
  assumes "i < length (lk_pages s)"
  shows "store_held (s\<lparr>lk_pages := (lk_pages s)[i := page]\<rparr>) = store_held s - page_held (lk_pages s ! i) + page_held page"
    and "page_held (lk_pages s ! i) \<subseteq># store_held s"
  using sum_list_update_mset(1) [OF assms, of page_held page] sum_list_update_mset(2) [OF assms, of page_held]
  by (simp_all add: store_held_def)

lemma store_held_fields [simp]:
  "store_held (s\<lparr>lk_free := f\<rparr>) = store_held s" "store_held (s\<lparr>lk_free_count := n\<rparr>) = store_held s"
  by (simp_all add: store_held_def)


lemma kv_page:
  assumes "kv_ok s p rvs" and "lk_valid s h"
  shows "page_ok (lk_page s h)" "lp_occupied (lk_page s h)" "lh_index h < length (lk_pages s)"
    "lp_generation (lk_page s h) = lh_generation h"
  using assms nth_mem [of "lh_index h" "lk_pages s"] by (auto simp: kv_ok_def pages_ok_def lk_valid_def lk_page_def)

text \<open>An operation on a page in use.\<close>

lemma kv_ok_put:
  assumes ok: "kv_ok s p rvs" and v: "lk_valid s h" and pg: "page_ok page" "lp_occupied page"
    and g: "lp_generation page = lh_generation h"
    and b: "pool_balance q rvs' (store_held s - page_held (lk_page s h) + page_held page)"
  shows "kv_ok (lk_put h page s) q rvs'"
proof -
  let ?i = "lh_index h"
  note k = kv_page [OF ok v]
  have "{j. j < length (lk_pages s) \<and> \<not> lp_occupied ((lk_pages s)[?i := page] ! j)} =
      {j. j < length (lk_pages s) \<and> \<not> lp_occupied (lk_pages s ! j)}"
    using k pg by (auto simp: nth_list_update lk_page_def)
  moreover have "lh_generation h \<noteq> 0" using ok k nth_mem [of ?i "lk_pages s"] by (auto simp: kv_ok_def pages_ok_def descriptors_ok_def lk_page_def)
  ultimately have "descriptors_ok (lk_put h page s)"
    using ok g by (auto simp: kv_ok_def pages_ok_def descriptors_ok_def lk_put_def dest!: set_update_subset_insert [THEN subsetD])
  moreover have "\<forall>x\<in>set ((lk_pages s)[?i := page]). if lp_occupied x then page_ok x else blank x"
    using ok pg by (auto simp: kv_ok_def pages_ok_def dest!: set_update_subset_insert [THEN subsetD])
  ultimately show ?thesis
    using b store_held_update(1) [OF k(3), of page] by (simp add: kv_ok_def pages_ok_def lk_put_def lk_page_def)
qed

text \<open>A descriptor that is freed once its leases are gone.\<close>

lemma kv_ok_vacate:
  assumes ok: "kv_ok s p rvs" and v: "lk_valid s h" and d: "lp_device_replica page = None"
    and b: "pool_balance q rvs' (store_held s - page_held (lk_page s h))"
  shows "kv_ok (lk_vacate h page s) q rvs'"
proof -
  let ?i = "lh_index h"
  note k = kv_page [OF ok v]
  have s: "descriptors_ok s" "lp_occupied (lk_pages s ! ?i)" using ok k by (simp_all add: kv_ok_def pages_ok_def lk_page_def)
  note e = lk_vacate_fields [OF s(1) k(3) s(2), of page]
  have bl: "blank (vacated page)" using d by (simp add: blank_def vacated_def)
  then have "\<forall>x\<in>set ((lk_pages s)[?i := vacated page]). if lp_occupied x then page_ok x else blank x"
    using ok by (auto simp: kv_ok_def pages_ok_def dest!: set_update_subset_insert [THEN subsetD])
  moreover have "store_held (lk_vacate h page s) = store_held s - page_held (lk_page s h)"
    using store_held_update(1) [OF k(3), of "vacated page"] blank_held [OF bl] by (simp add: e lk_page_def)
  ultimately show ?thesis
    using lk_vacate_descriptors [OF s(1) k(3) s(2), of page] b by (simp add: kv_ok_def pages_ok_def e)
qed

text \<open>A descriptor that is taken from the stack.\<close>

lemma descriptor_top:
  assumes ok: "pages_ok s" and c: "0 < lk_free_count s" and i: "i = lk_free s ! (lk_free_count s - 1)"
  shows "i < length (lk_pages s)" "\<not> lp_occupied (lk_pages s ! i)" "blank (lk_pages s ! i)"
    "mset (take (lk_free_count s - 1) (lk_free s)) =
       mset_set ({j. j < length (lk_pages s) \<and> \<not> lp_occupied (lk_pages s ! j)} - {i})"
proof -
  let ?F = "{j. j < length (lk_pages s) \<and> \<not> lp_occupied (lk_pages s ! j)}"
  have d: "descriptors_ok s" using ok by (simp add: pages_ok_def)
  have "mset (take (lk_free_count s) (lk_free s)) = add_mset i (mset (take (lk_free_count s - 1) (lk_free s)))"
    unfolding i by (rule mset_take_pop) (use c d in \<open>simp_all add: descriptors_ok_def\<close>)
  then have F: "mset_set ?F = add_mset i (mset (take (lk_free_count s - 1) (lk_free s)))"
    using d by (simp add: descriptors_ok_def)
  then have "i \<in># mset_set ?F" by simp
  then show a: "i < length (lk_pages s)" "\<not> lp_occupied (lk_pages s ! i)" by simp_all
  show "blank (lk_pages s ! i)" using a ok nth_mem [OF a(1)] unfolding pages_ok_def by metis
  show "mset (take (lk_free_count s - 1) (lk_free s)) = mset_set (?F - {i})" using F a by (simp add: mset_set_Diff)
qed

lemma pages_ok_take:
  assumes ok: "pages_ok s" and c: "0 < lk_free_count s" and i: "i = lk_free s ! (lk_free_count s - 1)"
    and pg: "page_ok page" "lp_occupied page" "lp_generation page = lp_generation (lk_pages s ! i)"
  defines "t \<equiv> s\<lparr>lk_free_count := lk_free_count s - 1, lk_pages := (lk_pages s)[i := page]\<rparr>"
  shows "pages_ok t" "store_held t = store_held s + page_held page"
proof -
  let ?F = "{j. j < length (lk_pages s) \<and> \<not> lp_occupied (lk_pages s ! j)}"
  note top = descriptor_top [OF ok c i]
  have d: "descriptors_ok s" using ok by (simp add: pages_ok_def)
  have f: "{j. j < length (lk_pages t) \<and> \<not> lp_occupied (lk_pages t ! j)} = ?F - {i}"
    using top(1) pg(2) by (auto simp: t_def nth_list_update split: if_splits)
  have g: "\<forall>q\<in>set ((lk_pages s)[i := page]). lp_generation q \<noteq> 0"
    using d pg(3) nth_mem [OF top(1)] by (auto simp: descriptors_ok_def dest!: set_update_subset_insert [THEN subsetD])
  have "lk_free_count s - 1 \<le> length (lk_pages s)" using d by (simp add: descriptors_ok_def le_diff_conv)
  then have "descriptors_ok t" unfolding descriptors_ok_def f using d g top(4) by (simp add: t_def descriptors_ok_def)
  moreover have "\<forall>x\<in>set ((lk_pages s)[i := page]). if lp_occupied x then page_ok x else blank x"
    using ok pg by (auto simp: pages_ok_def dest!: set_update_subset_insert [THEN subsetD])
  ultimately show "pages_ok t" by (simp add: pages_ok_def t_def)
  show "store_held t = store_held s + page_held page"
    using store_held_update(1) [OF top(1), of page] blank_held [OF top(3)] by (simp add: store_held_def t_def)
qed

lemma kv_ok_take:
  assumes "kv_ok s p rvs" and "0 < lk_free_count s" and "i = lk_free s ! (lk_free_count s - 1)"
    and "page_ok page" and "lp_occupied page" and "lp_generation page = lp_generation (lk_pages s ! i)"
    and "pool_balance q rvs' (store_held s + page_held page)"
  shows "kv_ok (s\<lparr>lk_free_count := lk_free_count s - 1, lk_pages := (lk_pages s)[i := page]\<rparr>) q rvs'"
  using pages_ok_take [OF _ assms(2-6)] assms(1,7) by (simp add: kv_ok_def)

text \<open>An operation on one page that keeps its leases.\<close>

lemma lk_modify_Inr:
  "lk_modify s h f = Inr t \<longleftrightarrow> lk_valid s h \<and> (\<exists>page. f (lk_page s h) = Inr page \<and> t = lk_put h page s)"
  by (auto simp: lk_modify_def lk_require_def rbind_Inr_iff)

definition keeps_page :: "logical_page \<Rightarrow> logical_page \<Rightarrow> bool" where
  "keeps_page page page' \<longleftrightarrow> page_ok page' \<and> lp_occupied page' = lp_occupied page \<and>
     lp_generation page' = lp_generation page \<and> page_held page' = page_held page"

lemma kv_ok_keep:
  assumes ok: "kv_ok s p rvs" and v: "lk_valid s h" and k: "keeps_page (lk_page s h) page"
  shows "kv_ok (lk_put h page s) p rvs"
proof (rule kv_ok_put [OF ok v])
  note i = kv_page [OF ok v]
  show "page_ok page" "lp_occupied page" "lp_generation page = lh_generation h" using k i by (simp_all add: keeps_page_def)
  have "page_held (lk_page s h) \<subseteq># store_held s" using store_held_update(2) [OF i(3)] by (simp add: lk_page_def)
  then show "pool_balance p rvs (store_held s - page_held (lk_page s h) + page_held page)"
    using k ok by (simp add: keeps_page_def kv_ok_def)
qed

lemma kv_ok_modify:
  assumes "kv_ok s p rvs" and "lk_modify s h f = Inr t"
    and "\<And>page. page_ok (lk_page s h) \<Longrightarrow> lk_valid s h \<Longrightarrow> f (lk_page s h) = Inr page \<Longrightarrow> keeps_page (lk_page s h) page"
  shows "kv_ok t p rvs"
  using assms kv_page(1) [OF assms(1)] kv_ok_keep [OF assms(1)] by (auto simp: lk_modify_Inr)

end
