(* ===== verification/LogicalRuns.thy ===== *)
theory LogicalRuns
  imports LogicalSystem
begin

text \<open>
  Runs of the store of logical KV pages: every operation that returns normally is a step, over the store,
  its device page pool and the reservations of the clients, which are made, resized and released by steps
  of their own. A call that throws leaves the state as it was.

  Some methods do not check what their callers have established (\<open>KVAddressSpaceStore\<close> in the same file and
  \<open>HostKVExtentStore\<close>), and the steps state it: a page is retained while it is referenced and has no
  writer, a writer is set when \<open>can_set_writer\<close> holds, a source is pinned when one of the two
  queries allows it, a Host replica is attached while the page is pinned, a replica is restored for a
  referenced page, and a reference is released together with the writer it holds.
\<close>

declare not_None_eq [iff del]

record logical_sys =
  ly_store :: logical_store
  ly_pool :: page_pool
  ly_reservations :: "reservation list"

inductive logical_step :: "logical_sys \<Rightarrow> logical_sys \<Rightarrow> bool" where
  materialize: "i < length (ly_reservations y) \<Longrightarrow>
    lk_materialize (ly_reservations y ! i) (ly_store y) (ly_pool y) = Inr (h, rv, s, p) \<Longrightarrow>
    logical_step y \<lparr>ly_store = s, ly_pool = p, ly_reservations = (ly_reservations y)[i := rv]\<rparr>"
| materialize_batch: "i < length (ly_reservations y) \<Longrightarrow>
    lk_materialize_batch (ly_reservations y ! i) destinations preferred (ly_store y) (ly_pool y) = Inr (hs, rv, s, p) \<Longrightarrow>
    logical_step y \<lparr>ly_store = s, ly_pool = p, ly_reservations = (ly_reservations y)[i := rv]\<rparr>"
| materialize_transfer: "i < length (ly_reservations y) \<Longrightarrow>
    lk_materialize_transfer_destination (ly_reservations y ! i) columns (ly_store y) (ly_pool y) = Inr (h, rv, s, p) \<Longrightarrow>
    logical_step y \<lparr>ly_store = s, ly_pool = p, ly_reservations = (ly_reservations y)[i := rv]\<rparr>"
| publish_transfer: "lk_publish_transfer_destination h writer (ly_store y) = Inr s \<Longrightarrow> logical_step y (y\<lparr>ly_store := s\<rparr>)"
| abort_transfer: "i < length (ly_reservations y) \<Longrightarrow>
    lk_abort_transfer_destination h (ly_reservations y ! i) (ly_store y) (ly_pool y) = Inr (rv, s, p) \<Longrightarrow>
    logical_step y \<lparr>ly_store = s, ly_pool = p, ly_reservations = (ly_reservations y)[i := rv]\<rparr>"
| reserve_replica: "i < length (ly_reservations y) \<Longrightarrow> lp_references (lk_page (ly_store y) h) \<noteq> 0 \<Longrightarrow>
    lk_reserve_device_replica h (ly_reservations y ! i) (ly_store y) (ly_pool y) = Inr (ph, rv, s, p) \<Longrightarrow>
    logical_step y \<lparr>ly_store = s, ly_pool = p, ly_reservations = (ly_reservations y)[i := rv]\<rparr>"
| publish_replica: "lk_publish_device_replica h (ly_store y) = Inr s \<Longrightarrow> logical_step y (y\<lparr>ly_store := s\<rparr>)"
| abort_replica: "i < length (ly_reservations y) \<Longrightarrow>
    lk_abort_device_replica h (ly_reservations y ! i) (ly_store y) (ly_pool y) = Inr (rv, s, p) \<Longrightarrow>
    logical_step y \<lparr>ly_store = s, ly_pool = p, ly_reservations = (ly_reservations y)[i := rv]\<rparr>"
| drop_replica: "lk_drop_device_replica h (ly_store y) (ly_pool y) = (b, s, p) \<Longrightarrow>
    logical_step y (y\<lparr>ly_store := s, ly_pool := p\<rparr>)"
| retain_active: "lk_retain_active_reference h (ly_store y) = Inr s \<Longrightarrow> logical_step y (y\<lparr>ly_store := s\<rparr>)"
| release_active: "lk_release_active_reference h (ly_store y) = Inr s \<Longrightarrow> logical_step y (y\<lparr>ly_store := s\<rparr>)"
| retain: "lk_can_retain_reference (ly_store y) h writer \<Longrightarrow>
    lp_references (lk_page (ly_store y) h) \<noteq> 0 \<and> lp_writer_references (lk_page (ly_store y) h) = 0 \<Longrightarrow>
    lk_retain_reference h writer (ly_store y) = Inr s \<Longrightarrow> logical_step y (y\<lparr>ly_store := s\<rparr>)"
| set_writer: "writer \<longrightarrow> lk_can_set_writer (ly_store y) h True \<Longrightarrow>
    lk_set_writer h writer (ly_store y) = Inr s \<Longrightarrow> logical_step y (y\<lparr>ly_store := s\<rparr>)"
| protect: "lk_protect_coverage h columns (ly_store y) = Inr s \<Longrightarrow> logical_step y (y\<lparr>ly_store := s\<rparr>)"
| set_protected: "lk_set_protected_coverage h columns (ly_store y) = Inr s \<Longrightarrow> logical_step y (y\<lparr>ly_store := s\<rparr>)"
| clear_protection: "lk_clear_protection h (ly_store y) = Inr s \<Longrightarrow> logical_step y (y\<lparr>ly_store := s\<rparr>)"
| pin: "lk_can_pin_source (ly_store y) h \<or> lk_can_pin_active_source (ly_store y) h \<Longrightarrow>
    lk_pin_source h (ly_store y) = Inr s \<Longrightarrow> logical_step y (y\<lparr>ly_store := s\<rparr>)"
| unpin: "lk_unpin_source h (ly_store y) = Inr s \<Longrightarrow> logical_step y (y\<lparr>ly_store := s\<rparr>)"
| commit: "lk_commit_coverage h columns (ly_store y) = Inr s \<Longrightarrow> logical_step y (y\<lparr>ly_store := s\<rparr>)"
| truncate: "lk_destructive_truncate h columns (ly_store y) = Inr s \<Longrightarrow> logical_step y (y\<lparr>ly_store := s\<rparr>)"
| truncate_inactive: "lk_destructive_truncate_inactive h columns (ly_store y) = Inr s \<Longrightarrow> logical_step y (y\<lparr>ly_store := s\<rparr>)"
| release_reference: "writer \<or> lp_writer_references (lk_page (ly_store y) h) = 0 \<Longrightarrow>
    lk_release_reference h writer (ly_store y) (ly_pool y) = Inr (b, s, p) \<Longrightarrow>
    logical_step y (y\<lparr>ly_store := s, ly_pool := p\<rparr>)"
| release: "lk_release h (ly_store y) (ly_pool y) = Inr (b, s, p) \<Longrightarrow> logical_step y (y\<lparr>ly_store := s, ly_pool := p\<rparr>)"
| dematerialize: "i < length (ly_reservations y) \<Longrightarrow>
    lk_dematerialize h (ly_reservations y ! i) (ly_store y) (ly_pool y) = Inr (rv, s, p) \<Longrightarrow>
    logical_step y \<lparr>ly_store = s, ly_pool = p, ly_reservations = (ly_reservations y)[i := rv]\<rparr>"
| attach: "lp_source_pins (lk_page (ly_store y) h) \<noteq> 0 \<Longrightarrow> lk_attach_host_replica h replica (ly_store y) = Inr s \<Longrightarrow>
    logical_step y (y\<lparr>ly_store := s\<rparr>)"
| rebind: "lk_rebind_host_replica h expected replacement (ly_store y) = Inr s \<Longrightarrow> logical_step y (y\<lparr>ly_store := s\<rparr>)"
| detach: "lk_detach_host_replica h extent (ly_store y) (ly_pool y) = Inr (b, s, p) \<Longrightarrow>
    logical_step y (y\<lparr>ly_store := s, ly_pool := p\<rparr>)"
| reserve: "pool_reserve n (ly_pool y) = Some (rv, p) \<Longrightarrow>
    logical_step y (y\<lparr>ly_pool := p, ly_reservations := ly_reservations y @ [rv]\<rparr>)"
| make_empty: "logical_step y (y\<lparr>ly_reservations := ly_reservations y @ [make_empty_reservation (ly_pool y)]\<rparr>)"
| resize: "i < length (ly_reservations y) \<Longrightarrow> resize_reservation (ly_reservations y ! i) n (ly_pool y) = Inr (rv, p) \<Longrightarrow>
    logical_step y (y\<lparr>ly_pool := p, ly_reservations := (ly_reservations y)[i := rv]\<rparr>)"
| release_pages: "i < length (ly_reservations y) \<Longrightarrow> reservation_release (ly_reservations y ! i) (ly_pool y) = Inr (rv, p) \<Longrightarrow>
    logical_step y (y\<lparr>ly_pool := p, ly_reservations := (ly_reservations y)[i := rv]\<rparr>)"

inductive logical_reachable :: "logical_sys \<Rightarrow> bool" where
  init: "make_pool this backing layout = Inr p \<Longrightarrow> make_logical_store me p n = Inr s \<Longrightarrow> n \<le> uint32_max \<Longrightarrow>
    logical_reachable \<lparr>ly_store = s, ly_pool = p, ly_reservations = []\<rparr>"
| step: "logical_reachable y \<Longrightarrow> logical_step y z \<Longrightarrow> logical_reachable z"

definition logical_ok :: "logical_sys \<Rightarrow> bool" where
  "logical_ok y \<longleftrightarrow> kv_ok (ly_store y) (ly_pool y) (ly_reservations y)"

section \<open>Operations on one page\<close>

lemma lk_next_epoch_nonzero [simp]: "lk_next_epoch e \<noteq> 0"
  by (simp add: lk_next_epoch_def Let_def)

lemma keeps_pageI:
  assumes "page_ok page'" and "lp_occupied page' = lp_occupied page" and "lp_generation page' = lp_generation page"
    and "lp_device_replica page' = lp_device_replica page"
    and "lp_pending_device_replica page' = lp_pending_device_replica page"
  shows "keeps_page page page'"
  using assms by (simp add: keeps_page_def page_held_def)

lemma replica_current_update [simp]:
  "replica_current (page\<lparr>lp_references := n\<rparr>) = replica_current page"
  "replica_current (page\<lparr>lp_active_references := n\<rparr>) = replica_current page"
  "replica_current (page\<lparr>lp_writer_references := n\<rparr>) = replica_current page"
  "replica_current (page\<lparr>lp_source_pins := n\<rparr>) = replica_current page"
  "replica_current (page\<lparr>lp_protected_columns := n\<rparr>) = replica_current page"
  "replica_current (page\<lparr>lp_destination_pinned := b\<rparr>) = replica_current page"
  "replica_current (page\<lparr>lp_device_replica := r\<rparr>) = replica_current page"
  "replica_current (page\<lparr>lp_pending_device_replica := r\<rparr>) = replica_current page"
  by (simp_all add: replica_current_def split: option.splits)

lemma modify_steps_ok:
  assumes "kv_ok s p rvs"
  shows "lk_retain_active_reference h s = Inr t \<Longrightarrow> kv_ok t p rvs"
    and "lk_release_active_reference h s = Inr t \<Longrightarrow> kv_ok t p rvs"
    and "lk_protect_coverage h columns s = Inr t \<Longrightarrow> kv_ok t p rvs"
    and "lk_set_protected_coverage h columns s = Inr t \<Longrightarrow> kv_ok t p rvs"
    and "lk_clear_protection h s = Inr t \<Longrightarrow> kv_ok t p rvs"
    and "lk_unpin_source h s = Inr t \<Longrightarrow> kv_ok t p rvs"
  unfolding lk_retain_active_reference_def lk_release_active_reference_def lk_protect_coverage_def
    lk_set_protected_coverage_def lk_clear_protection_def lk_unpin_source_def
  by (erule kv_ok_modify [OF assms]; rule keeps_pageI; auto simp: page_ok_def split: if_splits)+

lemma page_ok_counts:
  assumes "page_ok page"
  shows "lp_references page \<noteq> 0 \<Longrightarrow> lp_writer_references page = 0 \<Longrightarrow> \<not> lp_destination_pinned page \<Longrightarrow>
      page_ok (page\<lparr>lp_references := lp_references page + 1\<rparr>)"
    and "lp_references page = 1 \<Longrightarrow> lp_device_replica page \<noteq> None \<Longrightarrow> page_ok (page\<lparr>lp_writer_references := 1\<rparr>)"
    and "page_ok (page\<lparr>lp_writer_references := 0\<rparr>)"
    and "lp_device_replica page \<noteq> None \<Longrightarrow> \<not> lp_destination_pinned page \<Longrightarrow>
      page_ok (page\<lparr>lp_source_pins := lp_source_pins page + 1\<rparr>)"
  using assms by (simp_all add: page_ok_def) auto

lemma retain_reference_ok:
  assumes "kv_ok s p rvs" and "lk_can_retain_reference s h writer" and "lp_references (lk_page s h) \<noteq> 0"
    and "lp_writer_references (lk_page s h) = 0" and r: "lk_retain_reference h writer s = Inr t"
  shows "kv_ok t p rvs"
proof (rule kv_ok_modify [OF assms(1) r [unfolded lk_retain_reference_def]])
  let ?pg = "lk_page s h"
  have w: "\<not> writer" "\<not> lp_destination_pinned ?pg"
    using assms(2,3) by (auto simp: lk_can_retain_reference_def Let_def)
  fix page assume ok: "page_ok ?pg"
    and "(if lp_references ?pg = uint32_max \<or> writer \<and> lp_writer_references ?pg \<noteq> 0 then Inl LogicError
     else let page' = ?pg\<lparr>lp_references := lp_references ?pg + 1\<rparr>
          in Inr (if writer then page'\<lparr>lp_writer_references := 1\<rparr> else page')) = Inr page"
  then have "page = ?pg\<lparr>lp_references := lp_references ?pg + 1\<rparr>" using w by (simp add: Let_def)
  then show "keeps_page ?pg page" using page_ok_counts(1) [OF ok] assms(3,4) w by (intro keeps_pageI) simp_all
qed

lemma set_writer_ok:
  assumes "kv_ok s p rvs" and c: "writer \<longrightarrow> lk_can_set_writer s h True" and r: "lk_set_writer h writer s = Inr t"
  shows "kv_ok t p rvs"
proof (rule kv_ok_modify [OF assms(1) r [unfolded lk_set_writer_def]])
  let ?pg = "lk_page s h"
  fix page assume ok: "page_ok ?pg"
    and "(if writer \<and> lp_writer_references ?pg \<noteq> 0 then Inl LogicError
     else Inr (?pg\<lparr>lp_writer_references := (if writer then 1 else 0)\<rparr>)) = Inr page"
  then have e: "page = ?pg\<lparr>lp_writer_references := (if writer then 1 else 0)\<rparr>" by simp
  have "page_ok page"
    using page_ok_counts(2,3) [OF ok] c by (cases writer) (simp_all add: e lk_can_set_writer_def Let_def)
  then show "keeps_page ?pg page" by (intro keeps_pageI) (simp_all add: e)
qed

lemma pin_source_ok:
  assumes "kv_ok s p rvs" and c: "lk_can_pin_source s h \<or> lk_can_pin_active_source s h" and r: "lk_pin_source h s = Inr t"
  shows "kv_ok t p rvs"
proof (rule kv_ok_modify [OF assms(1) r [unfolded lk_pin_source_def]])
  let ?pg = "lk_page s h"
  fix page assume ok: "page_ok ?pg"
    and "(if lp_source_pins ?pg = uint32_max then Inl OverflowError
     else Inr (?pg\<lparr>lp_source_pins := lp_source_pins ?pg + 1\<rparr>)) = Inr page"
  then have e: "page = ?pg\<lparr>lp_source_pins := lp_source_pins ?pg + 1\<rparr>" by simp
  have "lp_device_replica ?pg \<noteq> None" "\<not> lp_destination_pinned ?pg"
    using c by (auto simp: lk_can_pin_source_def lk_can_pin_active_source_def Let_def)
  then have "page_ok page" unfolding e by (rule page_ok_counts(4) [OF ok])
  then show "keeps_page ?pg page" by (intro keeps_pageI) (simp_all add: e)
qed

lemma coverage_steps_ok:
  assumes "kv_ok s p rvs"
  shows "lk_commit_coverage h columns s = Inr t \<Longrightarrow> kv_ok t p rvs"
    and "lk_destructive_truncate h columns s = Inr t \<Longrightarrow> kv_ok t p rvs"
    and "lk_destructive_truncate_inactive h columns s = Inr t \<Longrightarrow> kv_ok t p rvs"
  unfolding lk_commit_coverage_def lk_destructive_truncate_def lk_destructive_truncate_inactive_def
  by (erule kv_ok_modify [OF assms]; rule keeps_pageI;
      fastforce simp: page_ok_def cut_columns_def Let_def lk_can_destructive_truncate_inactive_def split: if_splits)+

lemma host_replica_steps_ok:
  assumes "kv_ok s p rvs"
  shows "lp_source_pins (lk_page s h) \<noteq> 0 \<Longrightarrow> lk_attach_host_replica h replica s = Inr t \<Longrightarrow> kv_ok t p rvs"
    and "lk_rebind_host_replica h expected replacement s = Inr t \<Longrightarrow> kv_ok t p rvs"
proof -
  assume "lp_source_pins (lk_page s h) \<noteq> 0" "lk_attach_host_replica h replica s = Inr t"
  then show "kv_ok t p rvs" unfolding lk_attach_host_replica_def
    by (elim kv_ok_modify [OF assms]; intro keeps_pageI)
      (auto simp: page_ok_def lk_can_attach_host_replica_def Let_def replica_current_def split: if_splits)
next
  assume r: "lk_rebind_host_replica h expected replacement s = Inr t"
  then have v: "lk_valid s h" and t: "t = lk_put h ((lk_page s h)\<lparr>lp_host_replica := Some replacement\<rparr>) s"
    and c: "lp_host_replica (lk_page s h) = Some expected" "pr_content_epoch replacement = pr_content_epoch expected"
      "pr_committed_columns replacement = pr_committed_columns expected"
    by (auto simp: lk_rebind_host_replica_def Let_def split: if_splits)
  have "page_ok ((lk_page s h)\<lparr>lp_host_replica := Some replacement\<rparr>)"
    using kv_page(1) [OF assms v] c by (simp add: page_ok_def replica_current_def)
  then show "kv_ok t p rvs" unfolding t by (intro kv_ok_keep [OF assms v] keeps_pageI) simp_all
qed

section \<open>Operations that take and give device pages\<close>

lemma kv_ok_pages: "kv_ok s p rvs \<Longrightarrow> pages_ok s"
  by (simp add: kv_ok_def)

lemma materialize_ok:
  assumes ok: "kv_ok s p rvs" and i: "i < length rvs" and m: "lk_materialize (rvs ! i) s p = Inr (h, rv, t, q)"
  shows "kv_ok t q (rvs[i := rv])"
proof -
  define k where "k = lk_free s ! (lk_free_count s - 1)"
  have c: "0 < lk_free_count s" using m by (simp add: lk_materialize_def split: if_splits)
  note top = descriptor_top [OF kv_ok_pages [OF ok] c k_def]
  obtain lease where l: "materialize_one (rvs ! i) p = Inr (lease, rv, q)"
    and t: "t = s\<lparr>lk_free_count := lk_free_count s - 1, lk_pages := (lk_pages s)[k := lk_populate lease (lk_pages s ! k)]\<rparr>"
    using m [unfolded lk_materialize_def, folded k_def] top(3)
    by (auto simp: Let_def rbind_Inr_iff blank_def split: if_splits)
  have b: "pool_balance q (rvs[i := rv]) (add_mset lease (store_held s))"
    by (rule balance_materialize_one(1) [OF _ i l]) (use ok in \<open>simp add: kv_ok_def\<close>)
  show ?thesis
    unfolding t
  proof (rule kv_ok_take [OF ok c k_def])
    show "page_ok (lk_populate lease (lk_pages s ! k))"
      using top(3) by (simp add: page_ok_def blank_def lk_populate_def)
    show "pool_balance q (rvs[i := rv]) (store_held s + page_held (lk_populate lease (lk_pages s ! k)))"
      using b top(3) by (simp add: page_held_def blank_def lk_populate_def)
  qed (simp_all add: lk_populate_def)
qed

lemma materialize_transfer_ok:
  assumes ok: "kv_ok s p rvs" and i: "i < length rvs"
    and m: "lk_materialize_transfer_destination (rvs ! i) columns s p = Inr (h, rv, t, q)"
  shows "kv_ok t q (rvs[i := rv])"
proof -
  define k where "k = lk_free s ! (lk_free_count s - 1)"
  have c: "0 < lk_free_count s" "columns \<le> kv_page_size"
    using m by (simp_all add: lk_materialize_transfer_destination_def split: if_splits)
  note top = descriptor_top [OF kv_ok_pages [OF ok] c(1) k_def]
  define page where "page lease = (lk_pages s ! k)\<lparr>lp_device_replica := Some lease,
      lp_content_epoch := lk_next_epoch (lp_content_epoch (lk_pages s ! k)), lp_committed_columns := columns,
      lp_references := 0, lp_active_references := 0, lp_writer_references := 0, lp_protected_columns := 0,
      lp_destination_pinned := True, lp_occupied := True\<rparr>" for lease
  obtain lease where l: "materialize_one (rvs ! i) p = Inr (lease, rv, q)"
    and t: "t = s\<lparr>lk_free_count := lk_free_count s - 1, lk_pages := (lk_pages s)[k := page lease]\<rparr>"
    using m [unfolded lk_materialize_transfer_destination_def, folded k_def] top(3)
    by (auto simp: page_def Let_def rbind_Inr_iff blank_def split: if_splits)
  have b: "pool_balance q (rvs[i := rv]) (add_mset lease (store_held s))"
    by (rule balance_materialize_one(1) [OF _ i l]) (use ok in \<open>simp add: kv_ok_def\<close>)
  show ?thesis
    unfolding t
  proof (rule kv_ok_take [OF ok c(1) k_def])
    show "page_ok (page lease)" using top(3) c(2) by (simp add: page_ok_def blank_def page_def)
    show "pool_balance q (rvs[i := rv]) (store_held s + page_held (page lease))"
      using b top(3) by (simp add: page_held_def blank_def page_def)
  qed (simp_all add: page_def)
qed

lemma publish_transfer_ok:
  assumes ok: "kv_ok s p rvs" and m: "lk_publish_transfer_destination h writer s = Inr t"
  shows "kv_ok t p rvs"
proof -
  let ?page = "(lk_page s h)\<lparr>lp_references := 1, lp_writer_references := (if writer then 1 else 0), lp_destination_pinned := False\<rparr>"
  have v: "lk_valid s h" and d: "transfer_destination (lk_page s h)" and t: "t = lk_put h ?page s"
    using m by (auto simp: lk_publish_transfer_destination_def Let_def split: if_splits)
  have "page_ok ?page" using kv_page(1) [OF ok v] d by (auto simp: page_ok_def transfer_destination_def)
  then show ?thesis unfolding t by (intro kv_ok_keep [OF ok v] keeps_pageI) simp_all
qed

text \<open>A page that gives its lease back to a reservation and its descriptor to the stack.\<close>

lemma give_back_ok:
  assumes ok: "kv_ok s p rvs" and i: "i < length rvs" and v: "lk_valid s h"
    and d: "lp_device_replica (lk_page s h) = Some l" "lp_pending_device_replica (lk_page s h) = None"
    and m: "dematerialize_one (rvs ! i) l p = Inr (rv, l', q)"
    and r: "lk_release_descriptor h ((lk_page s h)\<lparr>lp_device_replica := None\<rparr>) s q = Inr (t, q')"
  shows "kv_ok t q' (rvs[i := rv])"
proof -
  have held: "page_held (lk_page s h) = {#l#}" using d by (simp add: page_held_def)
  have "l \<in># store_held s"
    using store_held_update(2) [OF kv_page(3) [OF ok v]] held by (simp add: lk_page_def)
  then have "pool_balance q (rvs[i := rv]) (store_held s - {#l#})"
    by (intro balance_dematerialize_one(1) [OF _ i _ m]) (use ok in \<open>simp_all add: kv_ok_def\<close>)
  then have "kv_ok (lk_vacate h ((lk_page s h)\<lparr>lp_device_replica := None\<rparr>) s) q (rvs[i := rv])"
    by (intro kv_ok_vacate [OF ok v]) (simp_all add: held)
  then show ?thesis using r d by (simp add: lk_release_descriptor_def split: if_splits)
qed

lemma no_throw_Inr [simp]: "no_throw m = Inr x \<longleftrightarrow> m = Inr x"
  by (simp add: no_throw_def split: sum.splits)

lemma abort_transfer_ok:
  assumes ok: "kv_ok s p rvs" and i: "i < length rvs"
    and m: "lk_abort_transfer_destination h (rvs ! i) s p = Inr (rv, t, q)"
  shows "kv_ok t q (rvs[i := rv])"
proof (cases "lk_valid s h \<and> transfer_destination (lk_page s h)")
  case False
  then show ?thesis using m ok by (auto simp: lk_abort_transfer_destination_def Let_def split: if_splits)
next
  case True
  then obtain l where "lp_device_replica (lk_page s h) = Some l" by (auto simp: transfer_destination_def not_None_eq)
  moreover have "lp_pending_device_replica (lk_page s h) = None" using True by (simp add: transfer_destination_def)
  ultimately show ?thesis
    using m True give_back_ok [OF ok i] by (auto simp: lk_abort_transfer_destination_def Let_def rbind_Inr_iff)
qed

lemma dematerialize_ok:
  assumes ok: "kv_ok s p rvs" and i: "i < length rvs" and m: "lk_dematerialize h (rvs ! i) s p = Inr (rv, t, q)"
  shows "kv_ok t q (rvs[i := rv])"
proof -
  have v: "lk_valid s h" using m by (auto simp: lk_dematerialize_def lk_require_def split: if_splits)
  have g: "lp_device_replica (lk_page s h) \<noteq> None" "\<not> lp_destination_pinned (lk_page s h)"
    using m v by (auto simp: lk_dematerialize_def lk_require_def split: if_splits)
  then obtain l where l: "lp_device_replica (lk_page s h) = Some l" by (auto simp: not_None_eq)
  have "lp_pending_device_replica (lk_page s h) = None" using kv_page(1) [OF ok v] g by (auto simp: page_ok_def)
  then show ?thesis
    using m v l give_back_ok [OF ok i v l] by (auto simp: lk_dematerialize_def lk_require_def rbind_Inr_iff split: if_splits)
qed

section \<open>Restoring and dropping replicas\<close>

lemma reserve_replica_ok:
  assumes ok: "kv_ok s p rvs" and i: "i < length rvs" and refs: "lp_references (lk_page s h) \<noteq> 0"
    and m: "lk_reserve_device_replica h (rvs ! i) s p = Inr (ph, rv, t, q)"
  shows "kv_ok t q (rvs[i := rv])"
proof -
  let ?pg = "lk_page s h"
  have v: "lk_valid s h" using m by (auto simp: lk_reserve_device_replica_def lk_require_def split: if_splits)
  obtain lease where g: "lp_device_replica ?pg = None" "lp_pending_device_replica ?pg = None" "lp_source_pins ?pg = 0"
    and l: "materialize_one (rvs ! i) p = Inr (lease, rv, q)"
    and t: "t = lk_put h (?pg\<lparr>lp_pending_device_replica := Some lease, lp_destination_pinned := True\<rparr>) s"
    using m v by (auto simp: lk_reserve_device_replica_def lk_require_def rbind_Inr_iff split: if_splits)
  have b: "pool_balance q (rvs[i := rv]) (add_mset lease (store_held s))"
    by (rule balance_materialize_one(1) [OF _ i l]) (use ok in \<open>simp add: kv_ok_def\<close>)
  show ?thesis
    unfolding t
    by (rule kv_ok_put [OF ok v])
      (use kv_page [OF ok v] g refs b in \<open>simp_all add: page_ok_def page_held_def\<close>)
qed

lemma publish_replica_ok:
  assumes ok: "kv_ok s p rvs" and m: "lk_publish_device_replica h s = Inr t"
  shows "kv_ok t p rvs"
  using m unfolding lk_publish_device_replica_def
  by (elim kv_ok_modify [OF ok]) (auto simp: keeps_page_def page_ok_def page_held_def not_None_eq split: if_splits)

lemma abort_replica_ok:
  assumes ok: "kv_ok s p rvs" and i: "i < length rvs"
    and m: "lk_abort_device_replica h (rvs ! i) s p = Inr (rv, t, q)"
  shows "kv_ok t q (rvs[i := rv])"
proof (cases "lk_valid s h \<and> lp_pending_device_replica (lk_page s h) \<noteq> None \<and> lp_destination_pinned (lk_page s h)")
  case False
  then show ?thesis using m ok by (auto simp: lk_abort_device_replica_def Let_def split: if_splits)
next
  case True
  let ?pg = "lk_page s h"
  have v: "lk_valid s h" using True by simp
  obtain l where l: "lp_pending_device_replica ?pg = Some l" using True by (auto simp: not_None_eq)
  then have d: "lp_device_replica ?pg = None" using kv_page(1) [OF ok v] by (simp add: page_ok_def)
  have held: "page_held ?pg = {#l#}" using d l by (simp add: page_held_def)
  have mem: "l \<in># store_held s" using store_held_update(2) [OF kv_page(3) [OF ok v]] held by (simp add: lk_page_def)
  obtain l' where o: "dematerialize_one (rvs ! i) l p = Inr (rv, l', q)"
    and t: "t = lk_put h (?pg\<lparr>lp_pending_device_replica := None, lp_destination_pinned := False\<rparr>) s"
    using m True l by (auto simp: lk_abort_device_replica_def Let_def rbind_Inr_iff)
  have b: "pool_balance q (rvs[i := rv]) (store_held s - {#l#})"
    by (rule balance_dematerialize_one(1) [OF _ i mem o]) (use ok in \<open>simp add: kv_ok_def\<close>)
  show ?thesis
    unfolding t
    by (rule kv_ok_put [OF ok v])
      (use kv_page [OF ok v] d l b in \<open>simp_all add: page_ok_def page_held_def\<close>)
qed

lemma reset_held:
  assumes ok: "kv_ok s p rvs" and v: "lk_valid s h" and d: "lp_pending_device_replica (lk_page s h) = None"
  shows "pool_balance (replica_reset (lp_device_replica (lk_page s h)) p) rvs (store_held s - page_held (lk_page s h))"
proof (cases "lp_device_replica (lk_page s h)")
  case None
  then show ?thesis using ok d by (simp add: kv_ok_def page_held_def)
next
  case (Some l)
  then have held: "page_held (lk_page s h) = {#l#}" using d by (simp add: page_held_def)
  have "l \<in># store_held s" using store_held_update(2) [OF kv_page(3) [OF ok v]] held by (simp add: lk_page_def)
  then show ?thesis unfolding Some held by (intro balance_reset) (use ok in \<open>simp_all add: kv_ok_def\<close>)
qed

lemma drop_replica_ok:
  assumes ok: "kv_ok s p rvs" and m: "lk_drop_device_replica h s p = (b, t, q)"
  shows "kv_ok t q rvs"
proof (cases "lk_can_drop_device_replica s h")
  case False
  then show ?thesis using m ok by (simp add: lk_drop_device_replica_def)
next
  case True
  let ?pg = "lk_page s h"
  have v: "lk_valid s h" and g: "lp_pending_device_replica ?pg = None" "lp_writer_references ?pg = 0"
    "lp_source_pins ?pg = 0" "\<not> lp_destination_pinned ?pg" "replica_current ?pg" "lp_device_replica ?pg \<noteq> None"
    using True by (simp_all add: lk_can_drop_device_replica_def lk_host_replica_current_def Let_def)
  have t: "t = lk_put h (?pg\<lparr>lp_device_replica := None\<rparr>) s" "q = replica_reset (lp_device_replica ?pg) p"
    using m True by (simp_all add: lk_drop_device_replica_def Let_def)
  show ?thesis
    unfolding t
    by (rule kv_ok_put [OF ok v])
      (use kv_page [OF ok v] g reset_held [OF ok v g(1)] in \<open>auto simp: page_ok_def page_held_def\<close>)
qed

section \<open>Releasing references\<close>

lemma release_descriptor_active:
  "lp_active_references page = 0 \<Longrightarrow> lp_pending_device_replica page = None \<Longrightarrow>
    lk_release_descriptor h page s p = Inr (lk_vacate h page s, p)"
  by (simp add: lk_release_descriptor_def)

text \<open>What releasing a reference does, by the references that are left and the Host replica.\<close>

lemma release_reference_cases:
  assumes ok: "kv_ok s p rvs" and w: "writer \<or> lp_writer_references (lk_page s h) = 0"
    and c: "lk_can_release_reference s h writer"
  defines "pg \<equiv> lk_page s h"
  obtains "lp_references pg \<noteq> 1" "\<not> writer" "lp_references pg \<noteq> 0"
      "lk_release_reference h writer s p = Inr (True, lk_put h (pg\<lparr>lp_references := lp_references pg - 1\<rparr>) s, p)"
  | "lp_references pg = 1" "lp_active_references pg = 0" "lp_pending_device_replica pg = None" "lp_host_replica pg \<noteq> None"
      "lk_release_reference h writer s p =
         Inr (True, lk_put h (pg\<lparr>lp_writer_references := 0, lp_references := 0, lp_device_replica := None\<rparr>) s,
              replica_reset (lp_device_replica pg) p)"
  | "lp_references pg = 1" "lp_active_references pg = 0" "lp_pending_device_replica pg = None" "lp_host_replica pg = None"
      "lk_release_reference h writer s p =
         Inr (True, lk_vacate h (pg\<lparr>lp_writer_references := 0, lp_references := 0, lp_device_replica := None\<rparr>) s,
              replica_reset (lp_device_replica pg) p)"
proof -
  have v: "lk_valid s h" using c by (simp add: lk_can_release_reference_def)
  have ok': "page_ok pg" using kv_page(1) [OF ok v] by (simp add: pg_def)
  have g: "lp_references pg \<noteq> 0" "lp_active_references pg < lp_references pg" "\<not> lp_destination_pinned pg"
      "writer \<longrightarrow> lp_writer_references pg = 1"
    using c by (auto simp: lk_can_release_reference_def Let_def pg_def)
  have pend: "lp_pending_device_replica pg = None" using ok' g(3) by (auto simp: page_ok_def)
  have w1: "writer \<Longrightarrow> lp_references pg = 1" using ok' g(4) by (simp add: page_ok_def)
  have pw: "(if writer then pg\<lparr>lp_writer_references := 0\<rparr> else pg) = pg\<lparr>lp_writer_references := 0\<rparr>"
    using w by (simp add: pg_def) (metis logical_page.surjective logical_page.update_convs(8))
  note e = lk_release_reference_def [of h writer s p, folded pg_def, unfolded Let_def pw]
  show thesis
  proof (cases "lp_references pg = 1")
    case False
    then have nw: "\<not> writer" using w1 by blast
    then have "pg\<lparr>lp_writer_references := 0\<rparr> = pg" using pw by simp
    then show thesis using that(1) [OF False nw g(1)] False g(1) c e by (simp add: pg_def)
  next
    case True
    then have a: "lp_active_references pg = 0" using g(2) by simp
    show thesis
    proof (cases "lp_host_replica pg")
      case None
      then show thesis using that(3) [OF True a pend None] True a pend c e by (simp add: release_descriptor_active)
    next
      case (Some r)
      then show thesis using that(2) [OF True a pend] True a c e by simp
    qed
  qed
qed

lemma release_reference_ok:
  assumes ok: "kv_ok s p rvs" and w: "writer \<or> lp_writer_references (lk_page s h) = 0"
    and m: "lk_release_reference h writer s p = Inr (b, t, q)"
  shows "kv_ok t q rvs"
proof (cases "lk_can_release_reference s h writer")
  case False
  then show ?thesis using m ok by (simp add: lk_release_reference_def)
next
  case True
  let ?pg = "lk_page s h"
  have v: "lk_valid s h" and g: "lp_active_references ?pg < lp_references ?pg" "lp_source_pins ?pg = 0" "\<not> lp_destination_pinned ?pg"
    using True by (auto simp: lk_can_release_reference_def Let_def)
  note k = kv_page [OF ok v]
  show ?thesis
  proof (cases rule: release_reference_cases [OF ok w True])
    case 1
    then have "page_ok (?pg\<lparr>lp_references := lp_references ?pg - 1\<rparr>)" using k(1) w g by (auto simp: page_ok_def)
    then show ?thesis using m 1 by (auto intro!: kv_ok_keep [OF ok v] keeps_pageI)
  next
    case 2
    let ?page = "?pg\<lparr>lp_writer_references := 0, lp_references := 0, lp_device_replica := None\<rparr>"
    have "page_ok ?page" using k(1) 2 g by (simp add: page_ok_def)
    moreover have "page_held ?page = {#}" using 2 by (simp add: page_held_def)
    ultimately show ?thesis
      using m 2 k reset_held [OF ok v 2(3)] by (auto intro!: kv_ok_put [OF ok v])
  next
    case 3
    then show ?thesis using m reset_held [OF ok v 3(3)] by (auto intro!: kv_ok_vacate [OF ok v])
  qed
qed

lemma release_ok:
  assumes ok: "kv_ok s p rvs" and m: "lk_release h s p = Inr (b, t, q)"
  shows "kv_ok t q rvs"
  using m ok release_reference_ok [OF ok _, of "lp_writer_references (lk_page s h) \<noteq> 0" h]
  by (auto simp: lk_release_def split: if_splits)

text \<open>What detaching a Host replica does.\<close>

lemma detach_cases:
  fixes h :: logical_handle
  assumes ok: "kv_ok s p rvs"
  defines "pg \<equiv> lk_page s h"
  obtains "lk_detach_host_replica h extent s p = Inr (False, s, p)"
  | "lk_valid s h" "lp_references pg = 0" "lp_device_replica pg = None" "lp_pending_device_replica pg = None"
      "lk_detach_host_replica h extent s p = Inr (True, lk_vacate h (pg\<lparr>lp_host_replica := None\<rparr>) s, p)"
  | "lk_valid s h" "lp_device_replica pg \<noteq> None" "lp_host_replica pg \<noteq> None"
      "lk_detach_host_replica h extent s p = Inr (True, lk_put h (pg\<lparr>lp_host_replica := None\<rparr>) s, p)"
proof (cases "lk_valid s h \<and> (\<exists>r. lp_host_replica pg = Some r \<and> pr_extent r = extent) \<and>
    (lp_device_replica pg \<noteq> None \<or> lp_references pg = 0)")
  case False
  then have "lk_detach_host_replica h extent s p = Inr (False, s, p)"
    by (auto simp: lk_detach_host_replica_def pg_def [symmetric] Let_def split: option.splits)
  then show thesis by (rule that(1))
next
  case True
  then obtain r where v: "lk_valid s h" and r: "lp_host_replica pg = Some r" "pr_extent r = extent"
    and d: "lp_device_replica pg \<noteq> None \<or> lp_references pg = 0" by blast
  have ok': "page_ok pg" using kv_page(1) [OF ok v] by (simp add: pg_def)
  note e = lk_detach_host_replica_def [of h extent s p, folded pg_def]
  show thesis
  proof (cases "lp_device_replica pg")
    case None
    then have z: "lp_references pg = 0" using d by simp
    then have x: "lp_source_pins pg = 0" "lp_active_references pg = 0" "lp_pending_device_replica pg = None"
      using ok' None by (auto simp: page_ok_def)
    show thesis
      using that(2) [OF v z None x(3)] v r z x None by (simp add: e Let_def release_descriptor_active)
  next
    case (Some l)
    show thesis using that(3) [OF v] v r Some by (simp add: e Let_def)
  qed
qed

lemma detach_ok:
  assumes ok: "kv_ok s p rvs" and m: "lk_detach_host_replica h extent s p = Inr (b, t, q)"
  shows "kv_ok t q rvs"
proof (cases rule: detach_cases [OF ok, of h extent])
  case 1
  then show ?thesis using m ok by simp
next
  case 2
  have "page_held (lk_page s h) = {#}" using 2 by (simp add: page_held_def)
  moreover have "pool_balance p rvs (store_held s)" using ok by (simp add: kv_ok_def)
  ultimately show ?thesis using m 2 by (auto intro!: kv_ok_vacate [OF ok])
next
  case 3
  then have "page_ok ((lk_page s h)\<lparr>lp_host_replica := None\<rparr>)"
    using kv_page(1) [OF ok 3(1)] by (auto simp: page_ok_def)
  then have "kv_ok (lk_put h ((lk_page s h)\<lparr>lp_host_replica := None\<rparr>) s) p rvs"
    by (intro kv_ok_keep [OF ok 3(1)] keeps_pageI) simp_all
  then show ?thesis using m 3 by simp
qed

section \<open>The batch\<close>

lemma batch_step_shift:
  "fold (lk_batch_step s) (enumerate (Suc n) leases) = fold (lk_batch_step (s\<lparr>lk_free_count := lk_free_count s - 1\<rparr>)) (enumerate n leases)"
proof (induction leases arbitrary: n)
  case (Cons l leases)
  have "lk_batch_step s (Suc n, l) = lk_batch_step (s\<lparr>lk_free_count := lk_free_count s - 1\<rparr>) (n, l)"
    by (simp add: lk_batch_step_def fun_eq_iff)
  then show ?case using Cons.IH by simp
qed simp

text \<open>Each lease goes to a descriptor that was free; nothing is released on the way.\<close>

definition populated :: "logical_page \<Rightarrow> logical_page \<Rightarrow> bool" where
  "populated page page' \<longleftrightarrow> \<not> lp_occupied page \<and> (\<exists>lease. page' = lk_populate lease page)"

lemma lk_populate_ok:
  assumes "blank page"
  shows "page_ok (lk_populate lease page)" "page_held (lk_populate lease page) = {#lease#}"
  using assms by (simp_all add: page_ok_def blank_def lk_populate_def page_held_def)

lemma batch_fold:
  assumes "pages_ok s" and "length leases \<le> lk_free_count s"
  shows "\<exists>pages. fold (lk_batch_step s) (enumerate 0 leases) (lk_pages s, p) = (pages, p) \<and>
    pages_ok (s\<lparr>lk_pages := pages, lk_free_count := lk_free_count s - length leases\<rparr>) \<and>
    sum_list (map page_held pages) = store_held s + mset leases \<and>
    list_all2 (\<lambda>page page'. page' = page \<or> populated page page') (lk_pages s) pages"
  using assms
proof (induction leases arbitrary: s)
  case Nil
  then show ?case by (simp add: store_held_def list_all2_refl)
next
  case (Cons l leases)
  define i where "i = lk_free s ! (lk_free_count s - 1)"
  let ?page = "lk_populate l (lk_pages s ! i)"
  let ?t = "s\<lparr>lk_free_count := lk_free_count s - 1, lk_pages := (lk_pages s)[i := ?page]\<rparr>"
  have c: "0 < lk_free_count s" using Cons.prems(2) by simp
  note top = descriptor_top [OF Cons.prems(1) c i_def]
  have pg: "lp_occupied ?page" "lp_generation ?page = lp_generation (lk_pages s ! i)" by (simp_all add: lk_populate_def)
  note t = pages_ok_take [OF Cons.prems(1) c i_def lk_populate_ok(1) [OF top(3), of l] pg]
  have step: "lk_batch_step s (0, l) (lk_pages s, p) = (lk_pages ?t, p)"
    using top(3) by (simp add: lk_batch_step_def i_def [unfolded One_nat_def, symmetric] blank_def)
  have free: "lk_batch_step (s\<lparr>lk_free_count := lk_free_count s - 1\<rparr>) = lk_batch_step ?t"
    by (simp add: lk_batch_step_def fun_eq_iff)
  have len: "length leases \<le> lk_free_count ?t" using Cons.prems(2) by simp
  from Cons.IH [OF t(1) len] obtain pages where
    p: "fold (lk_batch_step ?t) (enumerate 0 leases) (lk_pages ?t, p) = (pages, p)"
      "pages_ok (?t\<lparr>lk_pages := pages, lk_free_count := lk_free_count ?t - length leases\<rparr>)"
      "sum_list (map page_held pages) = store_held ?t + mset leases"
      "list_all2 (\<lambda>page page'. page' = page \<or> populated page page') (lk_pages ?t) pages" by blast
  have "fold (lk_batch_step s) (enumerate 0 (l # leases)) (lk_pages s, p) = (pages, p)"
    using p(1) step by (simp add: batch_step_shift free [unfolded One_nat_def])
  moreover have "list_all2 (\<lambda>page page'. page' = page \<or> populated page page') (lk_pages s) pages"
  proof (rule list_all2_all_nthI)
    show "length (lk_pages s) = length pages" using list_all2_lengthD [OF p(4)] by simp
    fix j assume j: "j < length (lk_pages s)"
    have "pages ! j = lk_pages ?t ! j \<or> populated (lk_pages ?t ! j) (pages ! j)"
      using list_all2_nthD [OF p(4)] j by simp
    then show "pages ! j = lk_pages s ! j \<or> populated (lk_pages s ! j) (pages ! j)"
      using j top(2) pg(1) by (cases "j = i") (auto simp: populated_def)
  qed
  ultimately show ?case using p(2,3) t(2) lk_populate_ok(2) [OF top(3), of l] by (auto simp: ac_simps)
qed

lemma batch_result:
  assumes ok: "kv_ok s p rvs" and i: "i < length rvs" and n: "destinations \<noteq> []"
    and m: "lk_materialize_batch (rvs ! i) destinations preferred s p = Inr (hs, rv, t, q)"
  obtains leases pages where "t = s\<lparr>lk_pages := pages, lk_free_count := lk_free_count s - length destinations\<rparr>"
    "length leases = length destinations" "pool_balance q (rvs[i := rv]) (mset leases + store_held s)"
    "pages_ok t" "sum_list (map page_held pages) = store_held s + mset leases"
    "list_all2 (\<lambda>page page'. page' = page \<or> populated page page') (lk_pages s) pages"
    "hs = map (\<lambda>offset. Some (lk_handle s (lk_free s ! (lk_free_count s - 1 - offset)))) [0..<length destinations]"
    "length destinations \<le> lk_free_count s"
proof -
  let ?n = "length destinations"
  let ?hs = "map (\<lambda>offset. Some (lk_handle s (lk_free s ! (lk_free_count s - 1 - offset)))) [0..<?n]"
  from m n obtain predecessor leases q' rv' where c: "?n \<le> lk_free_count s"
    and l': "materialize (rvs ! i) ?n [] (lk_scratch_room s) predecessor p = Inr (rv', leases, q')"
    and x: "(case fold (lk_batch_step s) (enumerate 0 leases) (lk_pages s, q') of (pages, p'') \<Rightarrow>
       Inr (?hs, rv', s\<lparr>lk_pages := pages, lk_free_count := lk_free_count s - ?n\<rparr>, p'')) = (Inr (hs, rv, t, q) :: _ res)"
    by (auto simp: lk_materialize_batch_def Let_def rbind_Inr_iff split: if_splits)
  obtain pages q'' where f': "fold (lk_batch_step s) (enumerate 0 leases) (lk_pages s, q') = (pages, q'')" by fastforce
  have t: "t = s\<lparr>lk_pages := pages, lk_free_count := lk_free_count s - ?n\<rparr>" and hs: "hs = ?hs"
    and l: "materialize (rvs ! i) ?n [] (lk_scratch_room s) predecessor p = Inr (rv, leases, q')"
    and f: "fold (lk_batch_step s) (enumerate 0 leases) (lk_pages s, q') = (pages, q)"
    using x f' l' by simp_all
  have b: "pool_balance p rvs (store_held s)" using ok by (simp add: kv_ok_def)
  note bal = balance_materialize [OF b i l]
  have "length leases \<le> lk_free_count s" using bal(3) c by simp
  from batch_fold [OF kv_ok_pages [OF ok] this, of q'] f bal(3) t
  have "q = q'" "pages_ok t" "sum_list (map page_held pages) = store_held s + mset leases"
    "list_all2 (\<lambda>page page'. page' = page \<or> populated page page') (lk_pages s) pages" by auto
  then show thesis using that [OF t bal(3)] bal(1) hs c by simp
qed

lemma materialize_batch_ok:
  assumes ok: "kv_ok s p rvs" and i: "i < length rvs"
    and m: "lk_materialize_batch (rvs ! i) destinations preferred s p = Inr (hs, rv, t, q)"
  shows "kv_ok t q (rvs[i := rv])"
proof (cases "destinations = []")
  case True
  then show ?thesis using m ok i by (auto simp: lk_materialize_batch_def)
next
  case False
  from batch_result [OF ok i this m] obtain leases pages where
    t: "t = s\<lparr>lk_pages := pages, lk_free_count := lk_free_count s - length destinations\<rparr>" "pages_ok t"
      "sum_list (map page_held pages) = store_held s + mset leases"
      "pool_balance q (rvs[i := rv]) (mset leases + store_held s)" .
  have "store_held t = mset leases + store_held s" using t(3) by (simp add: t(1) store_held_def add.commute)
  then show ?thesis using t(2,4) by (simp add: kv_ok_def)
qed

section \<open>Reservations of the clients\<close>

lemma pool_balance_append:
  assumes "pool_balance p rvs L" and "ledger q L" and "same_pool p q" and "reservation_ok q rv"
    and "pp_reserved_pages q = pp_reserved_pages p + rv_pages rv"
  shows "pool_balance q (rvs @ [rv]) L"
  using assms by (auto simp: pool_balance_def reservation_ok_same)

lemma client_steps_ok:
  assumes ok: "kv_ok s p rvs"
  shows "pool_reserve n p = Some (rv, q) \<Longrightarrow> kv_ok s q (rvs @ [rv])"
    and "kv_ok s p (rvs @ [make_empty_reservation p])"
    and "i < length rvs \<Longrightarrow> resize_reservation (rvs ! i) n p = Inr (rv, q) \<Longrightarrow> kv_ok s q (rvs[i := rv])"
    and "i < length rvs \<Longrightarrow> reservation_release (rvs ! i) p = Inr (rv, q) \<Longrightarrow> kv_ok s q (rvs[i := rv])"
proof -
  have b: "pool_balance p rvs (store_held s)" and L: "ledger p (store_held s)" and pg: "pages_ok s"
    using ok by (simp_all add: kv_ok_def pool_balance_def)
  show "kv_ok s q (rvs @ [rv])" if "pool_reserve n p = Some (rv, q)"
    using pool_reserve_ledger [OF L that] pool_balance_append [OF b, of q rv] pg
    by (simp add: kv_ok_def reservation_ok_def same_pool_def)
  show "kv_ok s p (rvs @ [make_empty_reservation p])"
    using pool_balance_append [OF b L] pg by (simp add: kv_ok_def reservation_ok_def make_empty_reservation_def)
  assume i: "i < length rvs"
  show "kv_ok s q (rvs[i := rv])" if "resize_reservation (rvs ! i) n p = Inr (rv, q)"
    using resize_ledger [OF L that] pool_balance_update [OF b i, of q "store_held s" rv] pg by (simp add: kv_ok_def)
  assume r: "reservation_release (rvs ! i) p = Inr (rv, q)"
  have o: "reservation_ok p (rvs ! i)" using b i by (simp add: pool_balance_def)
  from reservation_end_ledger(2) [OF L pool_balance_pages [OF b i] o] r
  have t: "ledger q (store_held s)" "same_pool p q" "rv_owner rv = None" "rv_pages rv = 0"
    "pp_reserved_pages q + rv_pages (rvs ! i) = pp_reserved_pages p" by auto
  have "\<forall>x\<in>set (rvs[i := rv]). reservation_ok q x"
    using b t by (auto simp: pool_balance_def reservation_ok_def same_pool_def dest!: set_update_subset_insert [THEN subsetD])
  then show "kv_ok s q (rvs[i := rv])"
    using promised_update [OF i, of rv] b t pg by (simp add: kv_ok_def pool_balance_def)
qed

section \<open>The invariant of every reachable state\<close>

lemma make_logical_store_ok:
  assumes "make_pool this backing layout = Inr p" and "make_logical_store me p n = Inr s" and "n \<le> uint32_max"
  shows "kv_ok s p []"
proof -
  have s: "s = \<lparr>lk_id = me, lk_pages = replicate n empty_page, lk_free = map (\<lambda>index. n - 1 - index) [0..<n],
      lk_scratch_room = capacity_pages p, lk_free_count = n\<rparr>"
    using assms(2) unfolding make_logical_store_def by (simp only: if_Inl_eq_Inr sum.inject)
  have "{i. i < n \<and> \<not> lp_occupied (replicate n empty_page ! i)} = {0..<n}" by (auto simp: empty_page_def)
  then have "pages_ok s"
    using assms(3) by (auto simp: pages_ok_def descriptors_ok_def s mset_stack_full [simplified] empty_page_def blank_def)
  moreover have "sum_list (map page_held (replicate k empty_page)) = {#}" for k
    by (induction k) (simp_all add: page_held_def empty_page_def)
  then have "store_held s = {#}" by (simp add: store_held_def s)
  ultimately show ?thesis using make_pool_ledger [OF assms(1)] by (simp add: kv_ok_def pool_balance_def)
qed

lemmas logical_ops_ok = materialize_ok materialize_batch_ok materialize_transfer_ok publish_transfer_ok abort_transfer_ok
  reserve_replica_ok publish_replica_ok abort_replica_ok drop_replica_ok modify_steps_ok retain_reference_ok
  set_writer_ok pin_source_ok coverage_steps_ok release_reference_ok release_ok dematerialize_ok host_replica_steps_ok
  detach_ok client_steps_ok

lemma logical_step_ok: "logical_step y z \<Longrightarrow> logical_ok y \<Longrightarrow> logical_ok z"
  unfolding logical_ok_def by (induction rule: logical_step.induct) (auto intro: logical_ops_ok)

lemma logical_reachable_ok: "logical_reachable y \<Longrightarrow> logical_ok y"
proof (induction rule: logical_reachable.induct)
  case (init this backing layout p me n s)
  then show ?case using make_logical_store_ok by (simp add: logical_ok_def)
next
  case (step y z)
  then show ?case using logical_step_ok by blast
qed

end
