(* ===== verification/LogicalSafety.thy ===== *)
theory LogicalSafety
  imports LogicalRuns
begin

text \<open>
  What the store of logical KV pages promises its callers, in every state its operations reach: device
  pages are exclusive and conserved, the content of a referenced page is never lost, a writer is alone, the
  queries decide the operations they announce, the \<open>noexcept\<close> operations do not terminate, and a content
  epoch names what a page holds.
\<close>

declare not_None_eq [iff del]

section \<open>Facts about reachable states\<close>

lemma reachable_kv:
  assumes "logical_reachable y"
  shows "kv_ok (ly_store y) (ly_pool y) (ly_reservations y)" "ledger (ly_pool y) (store_held (ly_store y))"
  using logical_reachable_ok [OF assms] by (simp_all add: logical_ok_def kv_ok_def pool_balance_def)

lemma lk_physical_Inr:
  "lk_physical s h = Inr q \<longleftrightarrow> lk_valid s h \<and> (\<exists>l. lp_device_replica (lk_page s h) = Some l \<and> q = lease_handle l)"
  by (auto simp: lk_physical_def lk_require_def split: option.splits)

lemma lk_physical_resident:
  "lk_valid s h \<Longrightarrow> lp_device_replica (lk_page s h) \<noteq> None \<Longrightarrow> \<exists>q. lk_physical s h = Inr q"
  by (auto simp: lk_physical_Inr not_None_eq)

lemma device_lease_held:
  assumes "i < length (lk_pages s)" and "lp_device_replica (lk_pages s ! i) = Some l"
  shows "l \<in># store_held s"
  using store_held_update(2) [OF assms(1)] assms(2) by (auto simp: page_held_def dest: mset_subset_eqD)

lemma device_lease_other:
  assumes "i < length (lk_pages s)" and "lp_device_replica (lk_pages s ! i) = Some l"
    and "j < length (lk_pages s)" and "lp_device_replica (lk_pages s ! j) = Some k" and "i \<noteq> j"
  shows "k \<in># store_held s - {#l#}"
proof -
  let ?t = "s\<lparr>lk_pages := (lk_pages s)[i := (lk_pages s ! i)\<lparr>lp_device_replica := None\<rparr>]\<rparr>"
  have "k \<in># store_held ?t"
    by (rule device_lease_held [of j]) (use assms in \<open>simp_all\<close>)
  moreover have "store_held ?t = store_held s - {#l#}"
    using store_held_update [OF assms(1)] assms(2)
    by (simp add: page_held_def)
  ultimately show ?thesis by simp
qed

lemma store_held_size:
  "size (store_held s) = length (filter (\<lambda>page. lp_device_replica page \<noteq> None) (lk_pages s)) +
     length (filter (\<lambda>page. lp_pending_device_replica page \<noteq> None) (lk_pages s))"
proof -
  have "size (sum_list (map page_held pages)) = length (filter (\<lambda>page. lp_device_replica page \<noteq> None) pages) +
      length (filter (\<lambda>page. lp_pending_device_replica page \<noteq> None) pages)" for pages
    by (induction pages) (auto simp: page_held_def lease_mset_def split: option.splits)
  then show ?thesis by (simp add: store_held_def)
qed

section \<open>What a content epoch names\<close>

text \<open>
  How one step ages a page: its epoch stays or advances once, and while it stays a page in use was in use
  before, under the same generation, and has lost no column.
\<close>

definition aged :: "nat \<Rightarrow> logical_page \<Rightarrow> logical_page \<Rightarrow> bool" where
  "aged k page page' \<longleftrightarrow> lp_content_epoch page' = (lk_next_epoch ^^ k) (lp_content_epoch page) \<and>
     (k = 0 \<and> lp_occupied page' \<longrightarrow> lp_occupied page \<and> lp_generation page' = lp_generation page \<and>
        lp_committed_columns page \<le> lp_committed_columns page')"

definition step_aged :: "logical_page \<Rightarrow> logical_page \<Rightarrow> bool" where
  "step_aged page page' \<longleftrightarrow> aged 0 page page' \<or> aged 1 page page'"

definition store_aged :: "logical_store \<Rightarrow> logical_store \<Rightarrow> bool" where
  "store_aged s t \<longleftrightarrow> list_all2 step_aged (lk_pages s) (lk_pages t)"

lemma step_aged_refl [simp]: "step_aged page page"
  by (simp add: step_aged_def aged_def)

lemma store_aged_refl [simp]: "store_aged s s"
  by (simp add: store_aged_def list_all2_refl)

lemma store_aged_update:
  assumes "step_aged (lk_pages s ! i) page" and "lk_pages t = (lk_pages s)[i := page]"
  shows "store_aged s t"
  unfolding store_aged_def assms(2)
proof (rule list_all2_all_nthI)
  fix n assume "n < length (lk_pages s)"
  then show "step_aged (lk_pages s ! n) ((lk_pages s)[i := page] ! n)" using assms(1) by (cases "n = i") simp_all
qed simp

lemma take_aged:
  "step_aged (lk_pages s ! i) page \<Longrightarrow> store_aged s (s\<lparr>lk_free_count := n, lk_pages := (lk_pages s)[i := page]\<rparr>)"
  by (rule store_aged_update) simp_all

lemma put_aged: "step_aged (lk_page s h) page \<Longrightarrow> store_aged s (lk_put h page s)"
  by (rule store_aged_update [where i = "lh_index h"]) (simp_all add: lk_put_def lk_page_def)

lemma vacate_aged:
  assumes "lp_content_epoch page = lp_content_epoch (lk_page s h)"
  shows "store_aged s (lk_vacate h page s)"
  by (rule store_aged_update [where i = "lh_index h" and page = "vacated page"])
    (use assms in \<open>simp_all add: lk_vacate_def lk_put_def step_aged_def aged_def lk_page_def\<close>)

lemma release_descriptor_aged:
  assumes "lk_release_descriptor h page s p = Inr (t, q)" and "lp_content_epoch page = lp_content_epoch (lk_page s h)"
  shows "store_aged s t"
  using assms vacate_aged by (auto simp: lk_release_descriptor_def split: if_splits)

lemma modify_aged:
  assumes "lk_modify s h f = Inr t" and "\<And>page. f (lk_page s h) = Inr page \<Longrightarrow> step_aged (lk_page s h) page"
  shows "store_aged s t"
  using assms put_aged by (auto simp: lk_modify_Inr)

lemma modify_steps_aged:
  "lk_retain_active_reference h s = Inr t \<Longrightarrow> store_aged s t"
  "lk_release_active_reference h s = Inr t \<Longrightarrow> store_aged s t"
  "lk_retain_reference h writer s = Inr t \<Longrightarrow> store_aged s t"
  "lk_set_writer h writer s = Inr t \<Longrightarrow> store_aged s t"
  "lk_protect_coverage h columns s = Inr t \<Longrightarrow> store_aged s t"
  "lk_set_protected_coverage h columns s = Inr t \<Longrightarrow> store_aged s t"
  "lk_clear_protection h s = Inr t \<Longrightarrow> store_aged s t"
  "lk_pin_source h s = Inr t \<Longrightarrow> store_aged s t"
  "lk_unpin_source h s = Inr t \<Longrightarrow> store_aged s t"
  "lk_commit_coverage h columns s = Inr t \<Longrightarrow> store_aged s t"
  "lk_destructive_truncate h columns s = Inr t \<Longrightarrow> store_aged s t"
  "lk_destructive_truncate_inactive h columns s = Inr t \<Longrightarrow> store_aged s t"
  "lk_attach_host_replica h replica s = Inr t \<Longrightarrow> store_aged s t"
  "lk_publish_device_replica h s = Inr t \<Longrightarrow> store_aged s t"
  unfolding lk_retain_active_reference_def lk_release_active_reference_def lk_retain_reference_def lk_set_writer_def
    lk_protect_coverage_def lk_set_protected_coverage_def lk_clear_protection_def lk_pin_source_def
    lk_unpin_source_def lk_commit_coverage_def lk_destructive_truncate_def lk_destructive_truncate_inactive_def
    lk_attach_host_replica_def lk_publish_device_replica_def
  by (erule modify_aged; auto simp: step_aged_def aged_def cut_columns_def Let_def split: if_splits)+

lemma pool_steps_aged:
  "lk_materialize rv s p = Inr (h, rv', t, q) \<Longrightarrow> store_aged s t"
  "lk_materialize_transfer_destination rv columns s p = Inr (h, rv', t, q) \<Longrightarrow> store_aged s t"
  "lk_publish_transfer_destination h writer s = Inr t \<Longrightarrow> store_aged s t"
  "lk_reserve_device_replica h rv s p = Inr (ph, rv', t, q) \<Longrightarrow> store_aged s t"
  "lk_abort_device_replica h rv s p = Inr (rv', t, q) \<Longrightarrow> store_aged s t"
  "lk_drop_device_replica h s p = (b, t, q) \<Longrightarrow> store_aged s t"
  "lk_rebind_host_replica h expected replacement s = Inr t \<Longrightarrow> store_aged s t"
  by (auto simp: lk_materialize_def lk_materialize_transfer_destination_def lk_publish_transfer_destination_def
      lk_reserve_device_replica_def lk_abort_device_replica_def lk_drop_device_replica_def lk_rebind_host_replica_def
      lk_require_def lk_populate_def rbind_Inr_iff Let_def step_aged_def aged_def
      intro!: put_aged take_aged split: if_splits)

lemma release_steps_aged:
  "lk_abort_transfer_destination h rv s p = Inr (rv', t, q) \<Longrightarrow> store_aged s t"
  "lk_dematerialize h rv s p = Inr (rv', t, q) \<Longrightarrow> store_aged s t"
  "lk_detach_host_replica h extent s p = Inr (b, t, q) \<Longrightarrow> store_aged s t"
  "lk_release_reference h writer s p = Inr (b, t, q) \<Longrightarrow> store_aged s t"
  by (auto simp: lk_abort_transfer_destination_def lk_dematerialize_def lk_detach_host_replica_def
      lk_release_reference_def lk_require_def rbind_Inr_iff Let_def step_aged_def aged_def
      intro!: put_aged intro: release_descriptor_aged split: if_splits option.splits)

lemma batch_aged:
  assumes ok: "kv_ok s p rvs" and i: "i < length rvs"
    and m: "lk_materialize_batch (rvs ! i) destinations preferred s p = Inr (hs, rv, t, q)"
  shows "store_aged s t"
proof (cases "destinations = []")
  case True
  then show ?thesis using m by (simp add: lk_materialize_batch_def)
next
  case False
  from batch_result [OF ok i this m] obtain pages leases where
    u: "t = s\<lparr>lk_pages := pages, lk_free_count := lk_free_count s - length destinations\<rparr>"
      "list_all2 (\<lambda>page page'. page' = page \<or> populated page page') (lk_pages s) pages" .
  then have t: "lk_pages t = pages" "list_all2 (\<lambda>page page'. page' = page \<or> populated page page') (lk_pages s) pages" by simp_all
  have "step_aged page page'" if "page' = page \<or> populated page page'" for page page'
    using that by (auto simp: populated_def lk_populate_def step_aged_def aged_def)
  then show ?thesis unfolding store_aged_def t(1) by (rule list_all2_mono [OF t(2)])
qed

lemmas ops_aged = modify_steps_aged pool_steps_aged release_steps_aged

lemma logical_step_aged: "logical_step y z \<Longrightarrow> logical_ok y \<Longrightarrow> store_aged (ly_store y) (ly_store z)"
proof (induction rule: logical_step.induct)
  case (materialize_batch i y destinations preferred hs rv s p)
  then show ?case using batch_aged by (simp add: logical_ok_def)
next
  case (release h y b s p)
  then show ?case using release_steps_aged(4) by (auto simp: lk_release_def split: if_splits)
qed (auto intro: ops_aged)

inductive logical_run :: "nat \<Rightarrow> logical_sys \<Rightarrow> logical_sys \<Rightarrow> bool" where
  start: "logical_run 0 y y"
| step: "logical_run n y z \<Longrightarrow> logical_step z u \<Longrightarrow> logical_run (Suc n) y u"

lemma aged_trans: "aged j a b \<Longrightarrow> aged k b c \<Longrightarrow> aged (k + j) a c"
  by (auto simp: aged_def funpow_add)

lemma logical_run_aged:
  assumes "logical_run n y z" and "logical_ok y"
  shows "logical_ok z \<and> list_all2 (\<lambda>a b. \<exists>k\<le>n. aged k a b) (lk_pages (ly_store y)) (lk_pages (ly_store z))"
  using assms
proof (induction rule: logical_run.induct)
  case (start y)
  then show ?case by (auto simp: aged_def intro!: list_all2_refl)
next
  case (step n y z u)
  then have z: "logical_ok z" "list_all2 (\<lambda>a b. \<exists>k\<le>n. aged k a b) (lk_pages (ly_store y)) (lk_pages (ly_store z))" by simp_all
  have "list_all2 step_aged (lk_pages (ly_store z)) (lk_pages (ly_store u))"
    using logical_step_aged [OF step.hyps(2) z(1)] by (simp add: store_aged_def)
  moreover have "\<exists>k\<le>Suc n. aged k a c" if a: "\<exists>k\<le>n. aged k a b" and b: "step_aged b c" for a b c
  proof -
    from a obtain k where k: "k \<le> n" "aged k a b" by blast
    from b consider "aged 0 b c" | "aged 1 b c" by (auto simp: step_aged_def)
    then show ?thesis
    proof cases
      case 1
      then have "aged (0 + k) a c" by (rule aged_trans [OF k(2)])
      then show ?thesis using k(1) by (intro exI [of _ k]) simp
    next
      case 2
      then have "aged (1 + k) a c" by (rule aged_trans [OF k(2)])
      then show ?thesis using k(1) by (intro exI [of _ "Suc k"]) simp
    qed
  qed
  ultimately have "list_all2 (\<lambda>a b. \<exists>k\<le>Suc n. aged k a b) (lk_pages (ly_store y)) (lk_pages (ly_store u))"
    using list_all2_trans [of "\<lambda>a b. \<exists>k\<le>n. aged k a b" step_aged "\<lambda>a b. \<exists>k\<le>Suc n. aged k a b", OF _ z(2)] by blast
  then show ?case using logical_step_ok [OF step.hyps(2) z(1)] by blast
qed

text \<open>Epochs run through all values but zero.\<close>

lemma unat_next_epoch:
  assumes "e \<noteq> 0"
  shows "unat (lk_next_epoch e) = unat e mod uint64_max + 1"
proof (cases "e + 1 = 0")
  case True
  then have "e = - 1" by (simp add: add_eq_0_iff2)
  then show ?thesis by (simp add: lk_next_epoch_def unsigned_minus_1_eq_mask mask_eq_exp_minus_1)
next
  case False
  then have u: "unat (e + 1) = unat e + 1" by (simp add: unatSuc add.commute)
  moreover have "unat (e + 1) < 18446744073709551616" using unsigned_less [of "e + 1"] by simp
  ultimately show ?thesis using False by (simp add: lk_next_epoch_def)
qed

lemma unat_epoch_iterate:
  assumes "e \<noteq> 0"
  shows "unat ((lk_next_epoch ^^ k) e) = (unat e - 1 + k) mod uint64_max + 1 \<and> (lk_next_epoch ^^ k) e \<noteq> 0"
proof (induction k)
  case 0
  have "unat e < 18446744073709551616" using unsigned_less [of e] by simp
  moreover have "0 < unat e" using assms by (simp add: unat_gt_0)
  ultimately show ?case using assms by simp
next
  case (Suc k)
  then have "unat ((lk_next_epoch ^^ Suc k) e) = ((unat e - 1 + k) mod uint64_max + 1) mod uint64_max + 1"
    using unat_next_epoch by simp
  also have "\<dots> = (unat e - 1 + Suc k) mod uint64_max + 1" by (simp add: mod_simps)
  finally show ?case by simp
qed

lemma epoch_cycle:
  assumes "e \<noteq> 0" and "(lk_next_epoch ^^ k) e = e" and "k < uint64_max"
  shows "k = 0"
proof -
  have "0 < unat e" "unat e < 18446744073709551616" using assms(1) unsigned_less [of e] by (simp_all add: unat_gt_0)
  moreover have "unat e = (unat e - 1 + k) mod uint64_max + 1" using unat_epoch_iterate [OF assms(1), of k] assms(2) by metis
  ultimately have "(unat e - 1 + k) mod uint64_max = unat e - 1" "unat e - 1 < uint64_max" by linarith+
  then have "(unat e - 1 + k) mod uint64_max = (unat e - 1) mod uint64_max" by simp
  then have "uint64_max dvd (unat e - 1 + k) - (unat e - 1)" using mod_eq_dvd_iff_nat [of "unat e - 1" "unat e - 1 + k"] by simp
  then show ?thesis using assms(3) by (auto dest: dvd_imp_le)
qed

section \<open>A page taken from a reservation and given back\<close>

lemma take_give_back:
  assumes L: "ledger p L" and pgs: "rv_pages rv \<le> pp_reserved_pages p" and t: "materialize_one rv p = Inr (l, rv1, p1)"
  shows "\<exists>g. dematerialize_one rv1 l p1 = Inr (rv, empty_lease, p\<lparr>pp_generations := g\<rparr>) \<and>
    \<not> pool_valid_handle (p\<lparr>pp_generations := g\<rparr>) (lease_handle l)"
proof -
  note m = materialize_one_ledger [OF L pgs t]
  have lm: "l \<in># L + {#l#}" by simp
  have own: "rv_owner rv1 = Some (pp_id p1)" using m(2,3) t by (auto simp: materialize_one_def same_pool_def split: if_splits)
  have "pp_reserved_pages p1 \<le> capacity_pages p1" "capacity_pages p1 \<le> int32_max"
    using m(1) by (simp_all add: ledger_def pool_ok_def)
  then have "rv_pages rv1 \<noteq> uint32_max" using m(4,5) pgs by simp
  then have "\<exists>r. dematerialize_one rv1 l p1 = Inr r"
    using own ledger_lease(3) [OF m(1) lm] ledger_valid [OF m(1) lm] lease_release_ledger [OF m(1) lm]
    by (simp add: dematerialize_one_def)
  then obtain rv2 l2 p2 where d: "dematerialize_one rv1 l p1 = Inr (rv2, l2, p2)" by auto
  have "rv_pages rv1 \<le> pp_reserved_pages p1" using m(4,5) pgs by simp
  note n = dematerialize_one_ledger [OF m(1) lm this d]
  have L2: "ledger p2 L" using n(1) by simp
  have sp: "same_pool p p2" using m(2) n(2) by (rule same_pool_trans)
  have marks: "pp_marks p2 = pp_marks p" "pp_stamp p2 = pp_stamp p"
    using t d by (auto simp: materialize_one_def dematerialize_one_def lease_release_def release_page_def Let_def
        split: if_splits list.splits)
  have p2: "p2 = p\<lparr>pp_generations := pp_generations p2\<rparr>"
    by (rule page_pool.equality)
      (use ledger_determines [OF L L2 sp] sp marks n(6) m(5) in \<open>simp_all add: same_pool_def\<close>)
  have "\<not> pool_valid_handle p2 (lease_handle l)"
  proof
    assume "pool_valid_handle p2 (lease_handle l)"
    then have "nat (ls_index l) \<in> used_pages p2" "0 \<le> ls_index l"
      using ledger_lease [OF m(1) lm] by (auto simp: pool_valid_handle_def lease_handle_def used_pages_def Let_def split: if_splits)
    then have "ls_index l \<in> int ` used_pages p2" by (metis imageI nat_0_le)
    then have "ls_index l \<in># image_mset ls_index L" using L2 by (simp add: ledger_def del: set_image_mset)
    then obtain k where "k \<in># L" "ls_index k = ls_index l" by auto
    then show False using ledger_unique [OF m(1) lm, of k] by simp
  qed
  moreover have "rv2 = rv" using n(4,5) m(3,4) by simp
  ultimately show ?thesis using d n(3) p2 by (intro exI [of _ "pp_generations p2"]) simp
qed

section \<open>A small store\<close>

text \<open>Eight descriptors over the pool of eight pages; a batch of three is materialized, one page is written.\<close>

definition demo_kv :: logical_store where
  "demo_kv =
     \<lparr>lk_id = 5,
      lk_pages = map (\<lambda>l. lk_populate l empty_page) demo_leases @ replicate 5 empty_page,
      lk_free = [7, 6, 5, 4, 3, 2, 1, 0], lk_scratch_room = 8, lk_free_count = 5\<rparr>"

definition demo_kv_handle :: "nat \<Rightarrow> logical_handle" where
  "demo_kv_handle i = \<lparr>lh_owner = Some 5, lh_index = i, lh_generation = 1\<rparr>"

definition demo_kv_sys :: logical_sys where
  "demo_kv_sys = \<lparr>ly_store = demo_kv, ly_pool = demo_used, ly_reservations = [\<lparr>rv_owner = Some 1, rv_pages = 1\<rparr>]\<rparr>"

lemma demo_kv_make:
  "make_logical_store 5 demo_pool 8 =
     Inr \<lparr>lk_id = 5, lk_pages = replicate 8 empty_page, lk_free = [7, 6, 5, 4, 3, 2, 1, 0],
          lk_scratch_room = 8, lk_free_count = 8\<rparr>"
  by (simp add: make_logical_store_def capacity_pages_def demo_pool_def demo_layout_def upt_rec)

lemma demo_kv_materialize:
  "materialize \<lparr>rv_owner = Some 1, rv_pages = 4\<rparr> 3 [] 8 None (demo_pool\<lparr>pp_reserved_pages := 4\<rparr>) =
     Inr (\<lparr>rv_owner = Some 1, rv_pages = 1\<rparr>, demo_leases, demo_used)"
  by (simp add: materialize_def Let_def demo_pool_def demo_used_def demo_leases_def demo_layout_def capacity_pages_def
      u32_sub_def u32_add_def choose_pages_def select_preferred_def select_first_fit_def consume_free_run_def
      upt_rec replicate_8 append_page_def)

lemma demo_kv_batch:
  "lk_materialize_batch \<lparr>rv_owner = Some 1, rv_pages = 4\<rparr> [None, None, None] None
     \<lparr>lk_id = 5, lk_pages = replicate 8 empty_page, lk_free = [7, 6, 5, 4, 3, 2, 1, 0],
      lk_scratch_room = 8, lk_free_count = 8\<rparr> (demo_pool\<lparr>pp_reserved_pages := 4\<rparr>) =
   Inr (map (\<lambda>i. Some (demo_kv_handle i)) [0, 1, 2], \<lparr>rv_owner = Some 1, rv_pages = 1\<rparr>, demo_kv, demo_used)"
proof -
  let ?s = "\<lparr>lk_id = 5, lk_pages = replicate 8 empty_page, lk_free = [7, 6, 5, 4, 3, 2, 1, 0],
      lk_scratch_room = 8, lk_free_count = 8\<rparr>"
  have upt: "[0..<3] = [0, 1, 2 :: nat]" by (simp add: upt_rec)
  have top: "lk_free ?s ! (lk_free_count ?s - 1 - 0) = 0" "lk_free ?s ! (lk_free_count ?s - 1 - 1) = 1"
    "lk_free ?s ! (lk_free_count ?s - 1 - 2) = 2" by simp_all
  have blank: "lp_device_replica empty_page = None" "\<not> lp_occupied empty_page" "lp_generation empty_page = 1"
    by (simp_all add: empty_page_def)
  have pages: "lk_pages ?s ! 0 = empty_page" "lk_pages ?s ! 1 = empty_page" "lk_pages ?s ! 2 = empty_page" by simp_all
  have put: "(replicate 8 empty_page)[0 := a, 1 := b, 2 := c] = [a, b, c] @ replicate 5 empty_page" for a b c
    by (simp add: replicate_8 numeral_2_eq_2) (simp add: numeral_eq_Suc)
  have take: "fold (lk_batch_step ?s) (enumerate 0 demo_leases) (lk_pages ?s, demo_used) = (lk_pages demo_kv, demo_used)"
    unfolding demo_leases_def
    by (simp add: lk_batch_step_def blank replica_reset_def demo_kv_def demo_leases_def
        put [simplified])
  show ?thesis
    unfolding lk_materialize_batch_def
    by (simp add: Let_def demo_kv_materialize [simplified] take [simplified] upt numeral_3_eq_3 [symmetric] blank lk_handle_def
        demo_kv_handle_def) (simp add: demo_kv_def)
qed

lemma demo_kv_reachable: "logical_reachable demo_kv_sys"
proof -
  let ?s = "\<lparr>lk_id = 5, lk_pages = replicate 8 empty_page, lk_free = [7, 6, 5, 4, 3, 2, 1, 0],
      lk_scratch_room = 8, lk_free_count = 8\<rparr>"
  let ?y0 = "\<lparr>ly_store = ?s, ly_pool = demo_pool, ly_reservations = []\<rparr>"
  let ?y1 = "\<lparr>ly_store = ?s, ly_pool = demo_pool\<lparr>pp_reserved_pages := 4\<rparr>, ly_reservations = [\<lparr>rv_owner = Some 1, rv_pages = 4\<rparr>]\<rparr>"
  have "logical_reachable ?y0" by (rule logical_reachable.init [OF demo_make demo_kv_make]) simp
  moreover have "logical_step ?y0 ?y1" using logical_step.reserve [of 4 ?y0] demo_reserve by simp
  ultimately have "logical_reachable ?y1" by (rule logical_reachable.step)
  moreover have "logical_step ?y1 demo_kv_sys"
    using logical_step.materialize_batch [of 0 ?y1 "[None, None, None]" None] demo_kv_batch by (simp add: demo_kv_sys_def)
  ultimately show ?thesis by (rule logical_reachable.step)
qed

lemma demo_kv_pages:
  "lk_physical demo_kv (demo_kv_handle 0) = Inr \<lparr>ph_owner = Some 1, ph_index = 0, ph_generation = 1\<rparr>"
  "lk_physical demo_kv (demo_kv_handle 1) = Inr \<lparr>ph_owner = Some 1, ph_index = 1, ph_generation = 1\<rparr>"
  "length (filter (\<lambda>page. lp_device_replica page \<noteq> None) (lk_pages demo_kv)) = 3"
  "length (filter (\<lambda>page. lp_pending_device_replica page \<noteq> None) (lk_pages demo_kv)) = 0"
  by (simp_all add: lk_physical_def lk_require_def lk_valid_def lk_page_def demo_kv_def demo_kv_handle_def demo_leases_def
      lk_populate_def empty_page_def lease_handle_def)

definition demo_kv_written :: "nat \<Rightarrow> logical_sys" where
  "demo_kv_written n =
     demo_kv_sys\<lparr>ly_store := demo_kv\<lparr>lk_pages := (lk_pages demo_kv)[1 := (lk_pages demo_kv ! 1)\<lparr>lp_committed_columns := n\<rparr>]\<rparr>\<rparr>"

lemma demo_kv_commit:
  assumes "m \<le> n" and "n \<le> 64"
  shows "logical_step (demo_kv_written m) (demo_kv_written n)"
proof -
  have "lk_commit_coverage (demo_kv_handle 1) n (ly_store (demo_kv_written m)) = Inr (ly_store (demo_kv_written n))"
    using assms by (simp add: lk_commit_coverage_def lk_modify_def lk_require_def lk_valid_def lk_page_def lk_put_def demo_kv_written_def
      demo_kv_def demo_kv_handle_def demo_leases_def lk_populate_def empty_page_def kv_page_size_def kPagedKVPageSize_def)
  from logical_step.commit [OF this] show ?thesis by (simp add: demo_kv_written_def)
qed

section \<open>Properties\<close>

text \<open>
  C38. Device pages are exclusive and conserved: in every reachable state of the store of logical pages,
  the physical page of a handle is a valid page of the pool, two handles with the same physical page are
  the same handle, and the pool has allocated exactly as many pages as logical pages hold device
  replicas and replicas being restored.
\<close>

theorem kv_device_pages_exclusive:
  assumes "logical_reachable y"
  shows "(\<forall>h q. lk_physical (ly_store y) h = Inr q \<longrightarrow> pool_valid_handle (ly_pool y) q) \<and>
    (\<forall>h k q r. lk_physical (ly_store y) h = Inr q \<and> lk_physical (ly_store y) k = Inr r \<and> ph_index q = ph_index r \<longrightarrow> h = k) \<and>
    pp_allocated_pages (ly_pool y) =
      length (filter (\<lambda>page. lp_device_replica page \<noteq> None) (lk_pages (ly_store y))) +
      length (filter (\<lambda>page. lp_pending_device_replica page \<noteq> None) (lk_pages (ly_store y)))"
proof -
  let ?s = "ly_store y" and ?p = "ly_pool y"
  note L = reachable_kv(2) [OF assms]
  have phys: "\<exists>l. lk_valid ?s h \<and> lp_device_replica (lk_pages ?s ! lh_index h) = Some l \<and> q = lease_handle l \<and>
      ph_index q = ls_index l \<and> l \<in># store_held ?s" if q: "lk_physical ?s h = Inr q" for h q
  proof -
    obtain l where l: "lk_valid ?s h" "lp_device_replica (lk_pages ?s ! lh_index h) = Some l" "q = lease_handle l"
      using q by (auto simp: lk_physical_Inr lk_page_def)
    have "l \<in># store_held ?s" by (rule device_lease_held [OF _ l(2)]) (use l(1) in \<open>simp add: lk_valid_def\<close>)
    then show ?thesis using l ledger_lease(3) [OF L] by (auto simp: lease_handle_def)
  qed
  have "pool_valid_handle ?p q" if "lk_physical ?s h = Inr q" for h q
    using phys [OF that] ledger_valid [OF L] by blast
  moreover have "h = k" if h: "lk_physical ?s h = Inr q" and k: "lk_physical ?s k = Inr r" and eq: "ph_index q = ph_index r" for h k q r
  proof (rule ccontr)
    assume ne: "h \<noteq> k"
    obtain l m where l: "lk_valid ?s h" "lp_device_replica (lk_pages ?s ! lh_index h) = Some l" "ph_index q = ls_index l" "l \<in># store_held ?s"
      and m: "lk_valid ?s k" "lp_device_replica (lk_pages ?s ! lh_index k) = Some m" "ph_index r = ls_index m"
      using phys [OF h] phys [OF k] by blast
    have "lh_index h \<noteq> lh_index k" using ne l(1) m(1) by (auto simp: lk_valid_def)
    then have "m \<in># store_held ?s - {#l#}"
      using l m by (intro device_lease_other [of "lh_index h" _ _ "lh_index k"]) (simp_all add: lk_valid_def)
    then show False using ledger_unique [OF L l(4)] l(3) m(3) eq by metis
  qed
  ultimately show ?thesis using ledger_size [OF L] store_held_size by metis
qed

theorem kv_device_pages_exclusive_witness:
  "pool_valid_handle demo_used \<lparr>ph_owner = Some 1, ph_index = 1, ph_generation = 1\<rparr> \<and>
   pp_allocated_pages demo_used = 3 \<and>
   (\<nexists>k r. lk_physical demo_kv k = Inr r \<and> ph_index r = 1 \<and> k \<noteq> demo_kv_handle 1)"
proof -
  note K = kv_device_pages_exclusive [OF demo_kv_reachable]
  have s: "ly_store demo_kv_sys = demo_kv" "ly_pool demo_kv_sys = demo_used" by (simp_all add: demo_kv_sys_def)
  have v: "pool_valid_handle demo_used \<lparr>ph_owner = Some 1, ph_index = 1, ph_generation = 1\<rparr>"
    using K demo_kv_pages(2) unfolding s by blast
  have "k = demo_kv_handle 1" if "lk_physical demo_kv k = Inr r" "ph_index r = 1" for k r
  proof -
    have "ph_index \<lparr>ph_owner = Some 1, ph_index = 1, ph_generation = 1\<rparr> = ph_index r" using that(2) by simp
    then show ?thesis using K demo_kv_pages(2) that(1) unfolding s by blast
  qed
  moreover have "pp_allocated_pages demo_used = 3" using K unfolding s demo_kv_pages(3,4) by simp
  ultimately show ?thesis using v by blast
qed

text \<open>
  The content of a referenced page is never lost, and a writer is alone. In every reachable state a
  logical page with references has a valid device page, or its Host replica is current (same epoch, same
  coverage), so that it can be restored; a page that is written or pinned as a source has its
  device page; and a page with a writer has exactly one reference, accepts no second writer and cannot
  lose its device replica.
\<close>

theorem kv_content_kept:
  assumes "logical_reachable y" and "lk_valid (ly_store y) h"
  shows "(lp_references (lk_page (ly_store y) h) \<noteq> 0 \<longrightarrow>
      (\<exists>q. lk_physical (ly_store y) h = Inr q \<and> pool_valid_handle (ly_pool y) q) \<or> lk_host_replica_current (ly_store y) h) \<and>
    (lp_writer_references (lk_page (ly_store y) h) \<noteq> 0 \<or> lp_source_pins (lk_page (ly_store y) h) \<noteq> 0 \<longrightarrow>
      (\<exists>q. lk_physical (ly_store y) h = Inr q \<and> pool_valid_handle (ly_pool y) q) \<and>
      \<not> lk_can_drop_device_replica (ly_store y) h) \<and>
    (lp_writer_references (lk_page (ly_store y) h) \<noteq> 0 \<longrightarrow>
      lk_address_references (ly_store y) h = Inr 1 \<and> lk_set_writer h True (ly_store y) = Inl LogicError \<and>
      lk_retain_reference h True (ly_store y) = Inl LogicError)"
proof -
  let ?s = "ly_store y" and ?pg = "lk_page (ly_store y) h"
  note ok = kv_page(1) [OF reachable_kv(1) [OF assms(1)] assms(2)]
  have i: "lh_index h < length (lk_pages ?s)" using assms(2) by (simp add: lk_valid_def)
  have dev: "\<exists>q. lk_physical ?s h = Inr q \<and> pool_valid_handle (ly_pool y) q" if d: "lp_device_replica ?pg \<noteq> None"
  proof -
    from d obtain l where l: "lp_device_replica ?pg = Some l" by (auto simp: not_None_eq)
    have "lk_physical ?s h = Inr (lease_handle l)" using assms(2) l by (simp add: lk_physical_Inr)
    moreover have "pool_valid_handle (ly_pool y) (lease_handle l)"
      using ledger_valid [OF reachable_kv(2) [OF assms(1)] device_lease_held [OF i l [unfolded lk_page_def]]] .
    ultimately show ?thesis by blast
  qed
  have "lk_host_replica_current ?s h" if "lp_references ?pg \<noteq> 0" "lp_device_replica ?pg = None"
    using ok that assms(2) by (simp add: page_ok_def lk_host_replica_current_def)
  moreover have "lp_device_replica ?pg \<noteq> None" if "lp_writer_references ?pg \<noteq> 0 \<or> lp_source_pins ?pg \<noteq> 0"
    using ok that by (auto simp: page_ok_def le_Suc_eq)
  moreover have "lp_references ?pg = 1 \<and> lk_set_writer h True ?s = Inl LogicError \<and> lk_retain_reference h True ?s = Inl LogicError"
    if "lp_writer_references ?pg \<noteq> 0"
    using ok that assms(2)
    by (simp add: page_ok_def le_Suc_eq lk_set_writer_def lk_retain_reference_def lk_modify_def lk_require_def)
  moreover have "\<not> lk_can_drop_device_replica ?s h" if "lp_writer_references ?pg \<noteq> 0 \<or> lp_source_pins ?pg \<noteq> 0"
    using that by (auto simp: lk_can_drop_device_replica_def Let_def)
  ultimately show ?thesis
    using dev assms(2) by (auto simp: lk_address_references_def lk_require_def)
qed

text \<open>
  C39. A content epoch names what a page holds. Between two states of a run of fewer than
  \<open>2 ^ 64 - 1\<close> operations, when a descriptor is in use at both ends under the same epoch, it has been in
  the same use all the time (its generation is the same) and its committed columns have not shrunk: the
  columns a Host replica recorded under an epoch are still those of the page while the epoch is
  the same.
\<close>

theorem epoch_names_content:
  assumes "logical_reachable y" and "logical_run n y z" and "n < uint64_max"
    and "lk_valid (ly_store y) h" and "lk_valid (ly_store z) k" and "lh_index k = lh_index h"
    and "lk_content_epoch (ly_store z) k = lk_content_epoch (ly_store y) h"
  shows "lh_generation k = lh_generation h \<and>
    lp_committed_columns (lk_page (ly_store y) h) \<le> lp_committed_columns (lk_page (ly_store z) k)"
proof -
  let ?i = "lh_index h"
  have run: "list_all2 (\<lambda>a b. \<exists>k\<le>n. aged k a b) (lk_pages (ly_store y)) (lk_pages (ly_store z))"
    using logical_run_aged [OF assms(2) logical_reachable_ok [OF assms(1)]] by blast
  have i: "?i < length (lk_pages (ly_store y))" using assms(4) by (simp add: lk_valid_def)
  obtain j where j: "j \<le> n" "aged j (lk_pages (ly_store y) ! ?i) (lk_pages (ly_store z) ! ?i)"
    using list_all2_nthD [OF run i] by blast
  have e: "lp_content_epoch (lk_pages (ly_store z) ! ?i) = lp_content_epoch (lk_pages (ly_store y) ! ?i)"
    using assms(4-7) by (simp add: lk_content_epoch_def lk_require_def lk_page_def)
  have "lp_content_epoch (lk_pages (ly_store y) ! ?i) \<noteq> 0"
    using kv_page(1) [OF reachable_kv(1) [OF assms(1)] assms(4)] by (simp add: page_ok_def lk_page_def)
  then have "j = 0" using j e assms(3) by (intro epoch_cycle) (auto simp: aged_def)
  then show ?thesis using j(2) assms(4-6) by (auto simp: aged_def lk_valid_def lk_page_def)
qed

theorem epoch_names_content_witness:
  "logical_reachable (demo_kv_written 5) \<and> logical_run 1 (demo_kv_written 5) (demo_kv_written 9) \<and>
   lk_content_epoch (ly_store (demo_kv_written 9)) (demo_kv_handle 1) =
     lk_content_epoch (ly_store (demo_kv_written 5)) (demo_kv_handle 1) \<and>
   lp_committed_columns (lk_page (ly_store (demo_kv_written 5)) (demo_kv_handle 1)) \<le>
     lp_committed_columns (lk_page (ly_store (demo_kv_written 9)) (demo_kv_handle 1))"
proof -
  have "demo_kv_written 0 = demo_kv_sys"
    by (simp add: demo_kv_written_def demo_kv_sys_def demo_kv_def demo_leases_def lk_populate_def empty_page_def)
  then have r: "logical_reachable (demo_kv_written 5)"
    using logical_reachable.step [OF demo_kv_reachable] demo_kv_commit [of 0 5] by simp
  have run: "logical_run 1 (demo_kv_written 5) (demo_kv_written 9)"
    using logical_run.step [OF logical_run.start demo_kv_commit [of 5 9]] by simp
  have v: "lk_valid (ly_store (demo_kv_written n)) (demo_kv_handle 1)" for n
    by (simp add: lk_valid_def demo_kv_written_def demo_kv_def demo_kv_handle_def demo_leases_def lk_populate_def empty_page_def)
  have e: "lk_content_epoch (ly_store (demo_kv_written 9)) (demo_kv_handle 1) =
      lk_content_epoch (ly_store (demo_kv_written 5)) (demo_kv_handle 1)"
    using v by (simp add: lk_content_epoch_def lk_require_def lk_page_def demo_kv_written_def demo_kv_handle_def demo_kv_def demo_leases_def)
  show ?thesis using r run e epoch_names_content [OF r run _ v v refl e] by simp
qed

text \<open>
  The \<open>noexcept\<close> operations return. In a reachable state releasing a reference (together with the
  writer it holds), releasing a page, detaching a Host replica and, with a reservation of the pool,
  aborting a transfer destination or a restored replica never reach \<open>std::terminate\<close>; releasing a reference
  reports exactly what \<open>can_release_reference\<close> announces.
\<close>

theorem kv_noexcept_returns:
  assumes "logical_reachable y" and "i < length (ly_reservations y)"
    and "rv_owner (ly_reservations y ! i) = Some (pp_id (ly_pool y))"
  shows "(writer \<or> lp_writer_references (lk_page (ly_store y) h) = 0 \<longrightarrow>
      (\<exists>s p. lk_release_reference h writer (ly_store y) (ly_pool y) = Inr (lk_can_release_reference (ly_store y) h writer, s, p))) \<and>
    (\<exists>r. lk_release h (ly_store y) (ly_pool y) = Inr r) \<and>
    (\<exists>r. lk_detach_host_replica h extent (ly_store y) (ly_pool y) = Inr r) \<and>
    (\<exists>r. lk_abort_transfer_destination h (ly_reservations y ! i) (ly_store y) (ly_pool y) = Inr r) \<and>
    (\<exists>r. lk_abort_device_replica h (ly_reservations y ! i) (ly_store y) (ly_pool y) = Inr r)"
proof -
  let ?s = "ly_store y" and ?p = "ly_pool y" and ?rv = "ly_reservations y ! i" and ?pg = "lk_page (ly_store y) h"
  note ok = reachable_kv(1) [OF assms(1)]
  have b: "pool_balance ?p (ly_reservations y) (store_held ?s)" using ok by (simp add: kv_ok_def)
  have rel: "\<exists>s p. lk_release_reference h w ?s ?p = Inr (lk_can_release_reference ?s h w, s, p)"
    if w: "w \<or> lp_writer_references ?pg = 0" for w
  proof (cases "lk_can_release_reference ?s h w")
    case False
    then show ?thesis by (simp add: lk_release_reference_def)
  next
    case True
    then show ?thesis by (cases rule: release_reference_cases [OF ok w True]) simp_all
  qed
  have give: "\<exists>r. dematerialize_one ?rv l ?p = Inr r" if "l \<in># page_held ?pg" "lk_valid ?s h" for l
  proof (rule dematerialize_one_succeeds [OF b assms(2) _ assms(3)])
    show "l \<in># store_held ?s"
      using that store_held_update(2) [of "lh_index h" ?s] by (auto simp: lk_page_def lk_valid_def dest: mset_subset_eqD)
  qed
  have "\<exists>r. lk_abort_device_replica h ?rv ?s ?p = Inr r"
  proof (cases "lp_pending_device_replica ?pg")
    case (Some l)
    have "\<exists>r. dematerialize_one ?rv l ?p = Inr r" if "lk_valid ?s h" using give [OF _ that] Some by (simp add: page_held_def)
    then show ?thesis using Some by (auto simp: lk_abort_device_replica_def Let_def no_throw_def split: sum.splits)
  qed (simp add: lk_abort_device_replica_def Let_def)
  moreover have "\<exists>r. lk_abort_transfer_destination h ?rv ?s ?p = Inr r"
  proof (cases "lk_valid ?s h \<and> transfer_destination ?pg")
    case True
    then have "page_ok ?pg" "lp_references ?pg = 0" using kv_page(1) [OF ok] by (simp_all add: transfer_destination_def)
    then have a: "lp_active_references ?pg = 0" by (simp add: page_ok_def)
    obtain l where l: "lp_device_replica ?pg = Some l" using True by (auto simp: transfer_destination_def not_None_eq)
    then have "\<exists>r. dematerialize_one ?rv l ?p = Inr r" using give True by (simp add: page_held_def)
    then show ?thesis
      using True l a by (auto simp: lk_abort_transfer_destination_def Let_def no_throw_def lk_release_descriptor_def)
  qed (auto simp: lk_abort_transfer_destination_def Let_def)
  moreover have "\<exists>r. lk_release h ?s ?p = Inr r"
    using rel [of "lp_writer_references ?pg \<noteq> 0"] by (auto simp: lk_release_def)
  moreover have "\<exists>r. lk_detach_host_replica h extent ?s ?p = Inr r"
    by (cases rule: detach_cases [OF ok, of h extent]) auto
  ultimately show ?thesis using rel by blast
qed

text \<open>
  The queries decide the operations they announce. In a reachable state \<open>destructive_truncate\<close> succeeds
  exactly when \<open>can_destructive_truncate\<close> holds; \<open>dematerialize\<close>, with a reservation of the pool, exactly
  when \<open>can_dematerialize\<close> holds and no active reference is left (with one left it terminates); after
  \<open>can_release_reference_after_active_reference\<close> the active reference can be released, and then the
  reference; and \<open>drop_device_replica\<close> drops exactly what \<open>can_drop_device_replica\<close> allows, after which
  the Host replica is still current.
\<close>

theorem kv_queries_exact:
  assumes "logical_reachable y" and "i < length (ly_reservations y)"
    and "rv_owner (ly_reservations y ! i) = Some (pp_id (ly_pool y))"
  shows "((\<exists>s. lk_destructive_truncate h columns (ly_store y) = Inr s) \<longleftrightarrow> lk_can_destructive_truncate (ly_store y) h columns) \<and>
    ((\<exists>r. lk_dematerialize h (ly_reservations y ! i) (ly_store y) (ly_pool y) = Inr r) \<longleftrightarrow>
       lk_can_dematerialize (ly_store y) h \<and> lp_active_references (lk_page (ly_store y) h) = 0) \<and>
    (lk_can_release_reference_after_active_reference (ly_store y) h \<longrightarrow>
       (\<exists>s. lk_release_active_reference h (ly_store y) = Inr s \<and> lk_can_release_reference s h False)) \<and>
    (\<exists>s p. lk_drop_device_replica h (ly_store y) (ly_pool y) = (lk_can_drop_device_replica (ly_store y) h, s, p) \<and>
       (lk_can_drop_device_replica (ly_store y) h \<longrightarrow> lk_host_replica_current s h \<and> lk_device_resident s h = Inr False))"
proof -
  let ?s = "ly_store y" and ?p = "ly_pool y" and ?rv = "ly_reservations y ! i" and ?pg = "lk_page (ly_store y) h"
  note ok = reachable_kv(1) [OF assms(1)]
  have b: "pool_balance ?p (ly_reservations y) (store_held ?s)" using ok by (simp add: kv_ok_def)
  have "(\<exists>s. lk_destructive_truncate h columns ?s = Inr s) \<longleftrightarrow> lk_can_destructive_truncate ?s h columns"
    using kv_page(1) [OF ok, of h]
    by (auto simp: lk_destructive_truncate_def lk_can_destructive_truncate_def lk_modify_Inr page_ok_def Let_def)
  moreover have "(\<exists>r. lk_dematerialize h ?rv ?s ?p = Inr r) \<longleftrightarrow> lk_can_dematerialize ?s h \<and> lp_active_references ?pg = 0"
  proof (cases "lk_can_dematerialize ?s h")
    case False
    then show ?thesis by (auto simp: lk_dematerialize_def lk_can_dematerialize_def lk_require_def Let_def split: if_splits)
  next
    case True
    then have v: "lk_valid ?s h" by (simp add: lk_can_dematerialize_def)
    obtain l where l: "lp_device_replica ?pg = Some l" using True by (auto simp: lk_can_dematerialize_def Let_def not_None_eq)
    have "l \<in># store_held ?s" by (rule device_lease_held [of "lh_index h"]) (use v l in \<open>simp_all add: lk_valid_def lk_page_def\<close>)
    from dematerialize_one_succeeds [OF b assms(2) this assms(3)]
    show ?thesis
      using True v l by (auto simp: lk_dematerialize_def lk_can_dematerialize_def lk_require_def Let_def lk_release_descriptor_def
          split: if_splits)
  qed
  moreover have "\<exists>s. lk_release_active_reference h ?s = Inr s \<and> lk_can_release_reference s h False"
    if q: "lk_can_release_reference_after_active_reference ?s h"
  proof -
    have v: "lk_valid ?s h" using q by (simp add: lk_can_release_reference_after_active_reference_def)
    then have "lh_index h < length (lk_pages ?s)" by (simp add: lk_valid_def)
    then show ?thesis
      using q v by (auto simp: lk_release_active_reference_def lk_can_release_reference_after_active_reference_def
          lk_modify_Inr lk_can_release_reference_def lk_valid_def lk_page_def lk_put_def Let_def)
  qed
  moreover have "\<exists>s p. lk_drop_device_replica h ?s ?p = (lk_can_drop_device_replica ?s h, s, p) \<and>
      (lk_can_drop_device_replica ?s h \<longrightarrow> lk_host_replica_current s h \<and> lk_device_resident s h = Inr False)"
  proof (cases "lk_can_drop_device_replica ?s h")
    case True
    then have v: "lk_valid ?s h" "replica_current ?pg" by (simp_all add: lk_can_drop_device_replica_def lk_host_replica_current_def Let_def)
    then have "lh_index h < length (lk_pages ?s)" by (simp add: lk_valid_def)
    then show ?thesis
      using True v by (auto simp: lk_drop_device_replica_def lk_host_replica_current_def lk_device_resident_def lk_require_def
          lk_valid_def lk_page_def lk_put_def Let_def)
  qed (simp add: lk_drop_device_replica_def)
  ultimately show ?thesis by blast
qed

text \<open>
  Restoring a device replica. After \<open>reserve_device_replica\<close> in a reachable state, \<open>publish_device_replica\<close>
  succeeds, the page then has exactly the device page that was reserved for it, and its Host replica
  is still current; and \<open>abort_device_replica\<close> instead undoes the reservation: the store, the
  reservation, the free list and all counters of the pool are what they were, only page
  generations have advanced, and the reserved page handle is stale.
\<close>

theorem restore_roundtrip:
  assumes "logical_reachable y" and "i < length (ly_reservations y)" and "lp_references (lk_page (ly_store y) h) \<noteq> 0"
    and "lk_reserve_device_replica h (ly_reservations y ! i) (ly_store y) (ly_pool y) = Inr (q, rv, s, p)"
  shows "(\<exists>t. lk_publish_device_replica h s = Inr t \<and> lk_physical t h = Inr q \<and> lk_host_replica_current t h) \<and>
    (\<exists>g. lk_abort_device_replica h rv s p =
       Inr (ly_reservations y ! i, ly_store y, (ly_pool y)\<lparr>pp_generations := g\<rparr>) \<and>
       \<not> pool_valid_handle ((ly_pool y)\<lparr>pp_generations := g\<rparr>) q)"
proof -
  let ?s = "ly_store y" and ?p = "ly_pool y" and ?rvs = "ly_reservations y" and ?pg = "lk_page (ly_store y) h"
  note ok = reachable_kv(1) [OF assms(1)] and L = reachable_kv(2) [OF assms(1)]
  have v: "lk_valid ?s h" using assms(4) by (auto simp: lk_reserve_device_replica_def lk_require_def split: if_splits)
  then have idx: "lh_index h < length (lk_pages ?s)" by (simp add: lk_valid_def)
  obtain l where g: "lp_device_replica ?pg = None" "lp_pending_device_replica ?pg = None" "\<not> lp_destination_pinned ?pg"
      "replica_current ?pg"
    and l: "materialize_one (?rvs ! i) ?p = Inr (l, rv, p)" and q: "q = lease_handle l"
    and s: "s = lk_put h (?pg\<lparr>lp_pending_device_replica := Some l, lp_destination_pinned := True\<rparr>) ?s"
    using assms(4) v by (auto simp: lk_reserve_device_replica_def lk_require_def rbind_Inr_iff split: if_splits)
  let ?page = "?pg\<lparr>lp_pending_device_replica := Some l, lp_destination_pinned := True\<rparr>"
  have at: "lk_valid s h" "lk_page s h = ?page"
    using v idx by (simp_all add: s lk_valid_def lk_page_def lk_put_def)
  have put: "lk_put h x s = lk_put h x ?s" for x by (simp add: s lk_put_def)
  let ?t = "lk_put h (?page\<lparr>lp_device_replica := Some l, lp_pending_device_replica := None, lp_destination_pinned := False\<rparr>) ?s"
  have "lk_publish_device_replica h s = Inr ?t" using at g by (simp add: lk_publish_device_replica_def lk_modify_Inr put)
  moreover have "lk_physical ?t h = Inr q" "lk_host_replica_current ?t h"
    using v idx g(4) by (simp_all add: lk_physical_Inr lk_host_replica_current_def lk_valid_def lk_page_def lk_put_def q)
  moreover have "\<exists>g. lk_abort_device_replica h rv s p = Inr (?rvs ! i, ?s, ?p\<lparr>pp_generations := g\<rparr>) \<and>
       \<not> pool_valid_handle (?p\<lparr>pp_generations := g\<rparr>) q"
  proof -
    have "pool_balance ?p ?rvs (store_held ?s)" using ok by (simp add: kv_ok_def)
    from take_give_back [OF L pool_balance_pages [OF this assms(2)] l] obtain g' where
      d: "dematerialize_one rv l p = Inr (?rvs ! i, empty_lease, ?p\<lparr>pp_generations := g'\<rparr>)"
        "\<not> pool_valid_handle (?p\<lparr>pp_generations := g'\<rparr>) q" unfolding q by blast
    have "?page\<lparr>lp_pending_device_replica := None, lp_destination_pinned := False\<rparr> = ?pg"
      using g(2,3) by (cases ?pg) simp
    then have "lk_put h (?page\<lparr>lp_pending_device_replica := None, lp_destination_pinned := False\<rparr>) s = ?s"
      by (simp add: put) (simp add: lk_put_def lk_page_def)
    then show ?thesis
      using at d by (intro exI [of _ g']) (simp add: lk_abort_device_replica_def Let_def no_throw_def)
  qed
  ultimately show ?thesis by blast
qed

text \<open>The descriptors a batch takes, from the top of the stack.\<close>

lemma stack_set:
  assumes "descriptors_ok s"
  shows "set (take (lk_free_count s) (lk_free s)) = {i. i < length (lk_pages s) \<and> \<not> lp_occupied (lk_pages s ! i)}"
proof -
  have "mset (take (lk_free_count s) (lk_free s)) = mset_set {i. i < length (lk_pages s) \<and> \<not> lp_occupied (lk_pages s ! i)}"
    using assms by (simp add: descriptors_ok_def)
  then have "set_mset (mset (take (lk_free_count s) (lk_free s))) =
      set_mset (mset_set {i. i < length (lk_pages s) \<and> \<not> lp_occupied (lk_pages s ! i)})" by (rule arg_cong)
  then show ?thesis by simp
qed

lemma batch_indices:
  assumes ok: "kv_ok s p rvs" and n: "n \<le> lk_free_count s"
    and t: "pages_ok t" "lk_free t = lk_free s" "lk_free_count t = lk_free_count s - n"
      "list_all2 (\<lambda>page page'. page' = page \<or> populated page page') (lk_pages s) (lk_pages t)"
  shows "distinct (map (\<lambda>offset. lk_free s ! (lk_free_count s - 1 - offset)) [0..<n])"
    and "\<And>offset. offset < n \<Longrightarrow> lk_free s ! (lk_free_count s - 1 - offset) < length (lk_pages s) \<and>
      populated (lk_pages s ! (lk_free s ! (lk_free_count s - 1 - offset))) (lk_pages t ! (lk_free s ! (lk_free_count s - 1 - offset)))"
proof -
  let ?f = "lk_free s" and ?c = "lk_free_count s"
  have d: "descriptors_ok s" "descriptors_ok t" using ok t(1) by (simp_all add: kv_ok_def pages_ok_def)
  have len: "length (lk_pages t) = length (lk_pages s)" using list_all2_lengthD [OF t(4)] by simp
  have c: "?c \<le> length ?f" using d(1) by (simp add: descriptors_ok_def)
  have dist: "distinct (take ?c ?f)" using d(1) unfolding descriptors_ok_def by (auto intro: mset_set_distinct)
  have idx: "?f ! j = take ?c ?f ! j" "j < length (take ?c ?f)" if "j < ?c" for j using that c by simp_all
  show "distinct (map (\<lambda>offset. ?f ! (?c - 1 - offset)) [0..<n])"
    unfolding distinct_map
  proof (intro conjI inj_onI)
    fix a b assume ab: "a \<in> set [0..<n]" "b \<in> set [0..<n]" and e: "?f ! (?c - 1 - a) = ?f ! (?c - 1 - b)"
    have l: "?c - 1 - a < ?c" "?c - 1 - b < ?c" using ab n by auto
    have "take ?c ?f ! (?c - 1 - a) = take ?c ?f ! (?c - 1 - b)" using e l by simp
    then have "?c - 1 - a = ?c - 1 - b" using nth_eq_iff_index_eq [OF dist idx(2) [OF l(1)] idx(2) [OF l(2)]] by simp
    then show "a = b" using ab n by auto
  qed simp
  fix offset assume o: "offset < n"
  let ?j = "?c - 1 - offset" and ?i = "?f ! (?c - 1 - offset)"
  have j: "?j < ?c" "?c - n \<le> ?j" using o n by auto
  have "?i \<in> set (take ?c ?f)" unfolding idx(1) [OF j(1)] by (rule nth_mem [OF idx(2) [OF j(1)]])
  then have i: "?i < length (lk_pages s)" "\<not> lp_occupied (lk_pages s ! ?i)" unfolding stack_set [OF d(1)] by simp_all
  have "?i \<notin> set (take (?c - n) ?f)"
  proof (rule notI)
    assume "?i \<in> set (take (?c - n) ?f)"
    then obtain k where k: "k < ?c - n" "?f ! k = ?i" using c by (auto simp: in_set_conv_nth)
    have "k < ?c" using k(1) by simp
    then have "take ?c ?f ! k = take ?c ?f ! ?j" using k(2) by simp
    then have "k = ?j" using nth_eq_iff_index_eq [OF dist idx(2) [OF \<open>k < ?c\<close>] idx(2) [OF j(1)]] by simp
    then show False using k(1) j(2) by simp
  qed
  then have "?i \<notin> {i. i < length (lk_pages t) \<and> \<not> lp_occupied (lk_pages t ! i)}"
    using stack_set [OF d(2)] unfolding t(2,3) by simp
  then have "lp_occupied (lk_pages t ! ?i)" using i(1) unfolding len by simp
  then have "lk_pages t ! ?i \<noteq> lk_pages s ! ?i" using i(2) by (cases "lk_pages t ! ?i = lk_pages s ! ?i") simp_all
  then show "?i < length (lk_pages s) \<and> populated (lk_pages s ! ?i) (lk_pages t ! ?i)"
    using i(1) list_all2_nthD [OF t(4) i(1)] by blast
qed

text \<open>
  A batch delivers. When \<open>materialize\<close> of a batch succeeds in a reachable state, its results are as many
  different handles as were asked for; none was valid before, each is valid now and names an empty page with
  one writing reference and a valid device page of its own; and every page that was in use before is
  unchanged.
\<close>

theorem batch_delivers:
  assumes "logical_reachable y" and "i < length (ly_reservations y)"
    and "lk_materialize_batch (ly_reservations y ! i) destinations preferred (ly_store y) (ly_pool y) = Inr (hs, rv, s, p)"
  shows "length hs = length destinations \<and> distinct hs \<and>
    (\<forall>d\<in>set hs. \<exists>h q. d = Some h \<and> \<not> lk_valid (ly_store y) h \<and> lk_valid s h \<and> lk_physical s h = Inr q \<and>
       pool_valid_handle p q \<and> lk_committed_columns s h = Inr 0 \<and> lk_address_references s h = Inr 1 \<and>
       lk_writer_references s h = Inr 1) \<and>
    (\<forall>h. lk_valid (ly_store y) h \<longrightarrow> lk_valid s h \<and> lk_page s h = lk_page (ly_store y) h)"
proof (cases "destinations = []")
  case True
  then show ?thesis using assms(3) by (auto simp: lk_materialize_batch_def)
next
  case False
  let ?s = "ly_store y" and ?n = "length destinations"
  let ?idx = "\<lambda>offset. lk_free ?s ! (lk_free_count ?s - 1 - offset)"
  note ok = reachable_kv(1) [OF assms(1)]
  from batch_result [OF ok assms(2) False assms(3)] obtain leases pages where
    t: "s = ?s\<lparr>lk_pages := pages, lk_free_count := lk_free_count ?s - ?n\<rparr>" and pg: "pages_ok s"
      and ch: "list_all2 (\<lambda>page page'. page' = page \<or> populated page page') (lk_pages ?s) pages"
      and hs: "hs = map (\<lambda>offset. Some (lk_handle ?s (?idx offset))) [0..<?n]" and c: "?n \<le> lk_free_count ?s" .
  have L: "ledger p (store_held s)"
    using materialize_batch_ok [OF ok assms(2,3)] by (simp add: kv_ok_def pool_balance_def)
  have ch': "list_all2 (\<lambda>page page'. page' = page \<or> populated page page') (lk_pages ?s) (lk_pages s)" using ch by (simp add: t)
  have fr: "lk_free s = lk_free ?s" "lk_free_count s = lk_free_count ?s - ?n" "lk_id s = lk_id ?s" by (simp_all add: t)
  note ix = batch_indices [OF ok c pg fr(1,2) ch']
  have len: "length (lk_pages s) = length (lk_pages ?s)" using list_all2_lengthD [OF ch'] by simp
  have one: "\<exists>h q. Some (lk_handle ?s (?idx a)) = Some h \<and> \<not> lk_valid ?s h \<and> lk_valid s h \<and> lk_physical s h = Inr q \<and>
       pool_valid_handle p q \<and> lk_committed_columns s h = Inr 0 \<and> lk_address_references s h = Inr 1 \<and> lk_writer_references s h = Inr 1"
    if a: "a < ?n" for a
  proof -
    let ?h = "lk_handle ?s (?idx a)"
    obtain l where k: "?idx a < length (lk_pages ?s)" "\<not> lp_occupied (lk_pages ?s ! ?idx a)"
      "lk_pages s ! ?idx a = lk_populate l (lk_pages ?s ! ?idx a)" using ix(2) [OF a] by (auto simp: populated_def)
    have v: "lk_valid s ?h" "\<not> lk_valid ?s ?h" using k len fr(3) by (simp_all add: lk_valid_def lk_handle_def lk_populate_def)
    have pgh: "lk_page s ?h = lk_populate l (lk_pages ?s ! ?idx a)" using k by (simp add: lk_page_def lk_handle_def)
    have "l \<in># store_held s" by (rule device_lease_held [of "?idx a"]) (use k len in \<open>simp_all add: lk_populate_def\<close>)
    then have "pool_valid_handle p (lease_handle l)" by (rule ledger_valid [OF L])
    then show ?thesis
      using v pgh by (intro exI [of _ ?h] exI [of _ "lease_handle l"])
        (simp add: lk_physical_Inr lk_committed_columns_def lk_address_references_def lk_writer_references_def lk_require_def lk_populate_def)
  qed
  have "inj_on (\<lambda>a. Some (lk_handle ?s (?idx a))) {0..<?n}"
    using ix(1) by (auto simp: distinct_map inj_on_def lk_handle_def)
  then have "distinct hs" by (simp add: hs distinct_map)
  moreover have "lk_valid s h \<and> lk_page s h = lk_page ?s h" if v: "lk_valid ?s h" for h
  proof -
    have "lh_index h < length (lk_pages ?s)" "lp_occupied (lk_pages ?s ! lh_index h)" using v by (simp_all add: lk_valid_def)
    then have "lk_pages s ! lh_index h = lk_pages ?s ! lh_index h" using list_all2_nthD [OF ch'] by (auto simp: populated_def)
    then show ?thesis using v len fr(3) by (simp add: lk_valid_def lk_page_def)
  qed
  ultimately show ?thesis using one by (auto simp: hs)
qed

text \<open>
  A handle does not outlive its page: when the last reference of a page without Host replica is
  released, its handle is stale, also when the descriptor is used again.
\<close>

theorem released_page_stale:
  assumes "logical_reachable y" and "writer \<or> lp_writer_references (lk_page (ly_store y) h) = 0"
    and "lk_can_release_reference (ly_store y) h writer"
    and "lk_address_references (ly_store y) h = Inr 1" and "lk_host_resident (ly_store y) h = Inr False"
    and "lk_release_reference h writer (ly_store y) (ly_pool y) = Inr (b, s, p)"
    and "lp_generation (lk_pages t ! lh_index h) = lp_generation (lk_pages s ! lh_index h)"
  shows "\<not> lk_valid s h \<and> \<not> lk_valid t h"
proof -
  let ?s = "ly_store y" and ?i = "lh_index h"
  note ok = reachable_kv(1) [OF assms(1)]
  have v: "lk_valid ?s h" using assms(3) by (simp add: lk_can_release_reference_def)
  have pg: "lp_references (lk_page ?s h) = 1" "lp_host_replica (lk_page ?s h) = None"
    using assms(4,5) v by (simp_all add: lk_address_references_def lk_host_resident_def lk_require_def)
  have d: "descriptors_ok ?s" using ok by (simp add: kv_ok_def pages_ok_def)
  have i: "?i < length (lk_pages ?s)" "lp_occupied (lk_pages ?s ! ?i)" using v by (simp_all add: lk_valid_def)
  have "s = lk_vacate h ((lk_page ?s h)\<lparr>lp_writer_references := 0, lp_references := 0, lp_device_replica := None\<rparr>) ?s"
    using pg assms(6) by (cases rule: release_reference_cases [OF ok assms(2,3)]) simp_all
  then have g: "lp_generation (lk_pages s ! ?i) = increment_generation (lp_generation (lk_pages ?s ! ?i))"
    using i by (simp add: lk_vacate_fields [OF d i] lk_page_def)
  have hd: "page_slots.holds ?s (?i, lh_generation h)" using v by (simp add: lk_valid_holds)
  have stale: "\<not> lk_valid u h" if "lp_generation (lk_pages u ! ?i) = lp_generation (lk_pages s ! ?i)" for u
    using page_slots.reuse_stale [OF d hd, of u] page_slots.free_this [OF d i] that g by (auto simp: lk_valid_holds)
  show ?thesis using stale assms(7) by blast
qed

end
