(* ===== verification/Spec2Isabelle.thy ===== *)
theory Spec2Isabelle
  imports ExecTable HostSystem EngineSafety KvCapacity StoreSystem PromptLookup ToolNumber SessionSafety SessionUtf8 BoundaryTracker StateSafety LogicalSafety
begin

text \<open>
  A verification library for the control core of the inference server: the code that decides who
  owns which memory, which request runs next, what a client is promised, and what a speculative
  proposal or a stored response means. Paths below are relative to \<open>src/src\<close>.

  \<^bold>\<open>The program.\<close> A request enters the engine (\<open>runtime/engine\<close>), waits in a queue, is admitted
  when its context fits, and then alternates prefill and decode units on a lane of the model
  program (\<open>models/qwen3_5\<close>). Its key-value pages live in a device page pool and, when evicted,
  in a pinned host arena (\<open>core\<close>); the device reads them through execution tables. The size of
  the pool is fixed at startup from the free device memory. The HTTP layer (\<open>serve\<close>) keeps
  finished responses so that a later request can continue them. During decoding a prompt lookup
  proposes tokens to be verified. The tokens that were accepted pass the output session of the
  frontend, which assembles UTF-8 text, stops at stop strings and decodes tool calls. The recurrent
  state of a sequence is kept as images in a device pool and a host pool, which are forked,
  checkpointed, moved between the memories and published.

  \<^bold>\<open>Theories and the code they model.\<close>
  \<^item> \<open>Prelude\<close>: exceptions as values (\<open>cpp_error + 'a\<close>), loops over fallible bodies, unsigned
    arithmetic with its wrap-around, powers of two.
  \<^item> \<open>Tensor\<close>: \<open>core/tensor.h\<close>, \<open>tensor.cpp\<close>, \<open>dtype.h\<close>: strided views.
  \<^item> \<open>Layout\<close>: \<open>core/layout.h\<close>, \<open>layout.cpp\<close> and the allocation part of \<open>core/arena.cu\<close>.
  \<^item> \<open>Extents\<close>: ordered lists of maximal free runs, shared by the two allocators; locale
    \<open>free_space\<close>. \<open>Generations\<close>: slots with generations and stacks of free slots, shared by page
    leases, table rows, host allocations, state images and logical pages.
  \<^item> \<open>PagePool\<close>, \<open>PoolSystem\<close>: \<open>DeviceKVPagePool\<close>, its leases and reservations
    (\<open>core/paged_kv_cache.h\<close>, \<open>.cpp\<close>), alone and as a system of all objects its clients hold.
  \<^item> \<open>ExecTable\<close>: \<open>KVExecutionTablePool\<close>, row leases, publication, bundle reservation (same
    files).
  \<^item> \<open>HostArena\<close>, \<open>HostSystem\<close>: \<open>core/host_kv_arena.h\<close>, \<open>.cpp\<close>, \<open>core/transfer_work.h\<close>.
  \<^item> \<open>Admission\<close>: \<open>runtime/engine/admission_policy.h\<close>, \<open>.cpp\<close>. \<open>Scheduler\<close>:
    \<open>runtime/engine/scheduler.h\<close>, \<open>generation_budget.h\<close>, the scheduling part of
    \<open>request_record.h\<close>. \<open>Engine\<close>: the request flow of \<open>runtime/engine/engine_core.h\<close>.
    \<open>EngineSystem\<close>: the engine as a step relation with its invariant; \<open>EngineSafety\<close>: what
    follows for clients.
  \<^item> \<open>KvCapacity\<close>: \<open>runtime/engine/kv_capacity.cpp\<close> and parts of \<open>runtime/contract/resources.h\<close>.
  \<^item> \<open>ResponsesStore\<close>, \<open>StoreSystem\<close>: \<open>serve/openai_responses_store.h\<close>, \<open>.cpp\<close>.
  \<^item> \<open>WindowTable\<close>, \<open>PromptLookup\<close>:
    \<open>models/qwen3_5/program/speculative/prompt_lookup.h\<close>, \<open>.cpp\<close>.
  \<^item> \<open>Search\<close>: substring search and JSON white space. \<open>Utf8Stream\<close>: the incremental UTF-8 splitter
    of \<open>models/qwen3_5/frontend/output_session.cpp\<close>. \<open>ToolParser\<close>, \<open>ToolOutput\<close>, \<open>ToolNumber\<close>:
    \<open>frontend/tool_call_parser.cpp\<close>. \<open>OutputSession\<close>: the session of \<open>output_session.cpp\<close> with its
    channels, previews, token budget and terminal paths; \<open>StopStream\<close>: its stop matcher;
    \<open>SessionStream\<close>, \<open>SessionSystem\<close>: sequences of rounds and their invariant; \<open>SessionSafety\<close>,
    \<open>SessionUtf8\<close>: what follows for clients. \<open>BoundaryTracker\<close>: the reasoning boundary of
    \<open>frontend/frontend.cpp\<close>.
  \<^item> \<open>LogicalPages\<close>: \<open>LogicalKVPageStore\<close> (\<open>models/qwen3_5/program/storage/kv_store.h\<close>), the logical
    pages over the device page pool. \<open>LogicalSystem\<close>: its invariant; \<open>LogicalRuns\<close>: the step relation
    and its preservation; \<open>LogicalSafety\<close>: what follows for clients.
  \<^item> \<open>StateStore\<close>: \<open>StateImageStore\<close> (\<open>models/qwen3_5/program/storage/state_store.h\<close>) and
    \<open>HostStatePool\<close> (\<open>models/qwen3_5/state/state_image.h\<close>, \<open>.cpp\<close>). \<open>StateMemory\<close>: free stacks of the
    two memories; \<open>StateClaims\<close>: claims on one image; \<open>StateSystem\<close>, \<open>StateForks\<close>,
    \<open>StateTransfers\<close>: the invariant and its preservation by groups of operations;
    \<open>StateContent\<close>: payloads of replicas; \<open>StateRuns\<close>: the step relation; \<open>StateSafety\<close>: what
    follows for clients.

  \<^bold>\<open>State and operations.\<close> A class is a record of its members, a method a function on it; a method
  that throws returns \<open>Inl\<close> of the exception class and its guards stand in the order of the
  code. Object identity is a number. Move-only objects are values, and the system theories own
  all of them (\<open>pool_sys\<close>, \<open>host_sys\<close>, the table and row leases), so that stale copies and double
  releases can be stated. Code that runs on several threads is modelled at the granularity of
  its critical sections: \<open>submit\<close> is two operations. The worker boundary is one step, although the code
  takes the queue mutex several times on the way: what other threads can do in between, enqueue a
  request or raise a cancellation, is seen before or after the boundary. Where the engine asks
  the resource manager, the model program or the clock, the answer is an argument (\<open>env\<close>), and the
  definitions cover every answer; the step relation \<open>engine_step\<close> restricts them by one condition,
  \<open>boundary_coherent\<close>: while the engine has a request that is being materialized, the program reports a
  context transaction. CUDA streams are lists of copy commands, which carry the values they copy from
  the moment they are enqueued. The vocabulary and the encoding
  of text by the tokenizer are parameters. The payload of a state image is one opaque value; a device
  copy takes its outcome as an argument and takes effect when it is enqueued: resets run on the
  execution stream and transfers on the transfer stream, and the program orders the two by events before
  it uses an image. The step relation of the state store carries two obligations of its
  callers: an image is thawed only when it has no Host replica, and a publication drops the source
  replica only when the transfer is its one reader. That of the logical pages carries those of the address
  spaces and Host extents above it: a page is retained while it is referenced and not written, a writer is set
  and a source pinned when the queries for it allow it, a Host replica is attached to a pinned page, a
  replica is restored for a referenced page, and a reference is released together with its writer.

  \<^bold>\<open>What is shown.\<close>
  \<^item> Memory: in every reachable state leases are exclusive and counted, capacity is conserved,
    stale handles are rejected, \<open>logic_error\<close> and \<open>terminate\<close> branches are unreachable;
    materialization is total behind its guards and undone exactly by dematerialization; host
    recipes apply exactly as planned; allocations are disjoint; tensors, slices and bound
    regions stay inside their storage; the workspace dry run predicts the arena.
  \<^item> Scheduling: a blocked head cannot be overtaken for ever (donors are frozen, and once none is
    left nobody gains capacity); a request is in one place; grants are single-use; prefill and
    decode alternate; memberships are exact.
  \<^item> Sizing: the automatic capacity is the largest that leaves the headroom.
  \<^item> Response store: byte accounting and reference counts of the shared context graph are exact,
    insertion evicts exactly a least-recently-used tail and succeeds whenever it can.
  \<^item> Prompt lookup: the open-addressed table refines a finite map and its loops end; a
    proposal is a true continuation after an earlier occurrence; on a growing context the search
    equals a direct one.
  \<^item> Output: what a session has published is the decoded text without the longest ending that may
    begin a stop string, ends at the first stop string and never splits a character; previews and terminal paths agree with the committed
    path; the tool-call parser is insensitive to how its input is cut, and its number
    grammar is exact.
  \<^item> Logical pages: device pages are exclusive and conserved, the content of a referenced page is on the
    device or current on the Host, a writer is alone, an epoch names what a page holds, queries decide
    the operations they announce, restoring is undone exactly by its abort.
  \<^item> State images: in every reachable state device and host slots are conserved and exclusive, the
    claims on an image are counted exactly and protect it, a frozen payload does not change, a fork
    through the host delivers the source's payload, and a released handle is stale.

  \<^bold>\<open>Loops, fuel and bounds.\<close> Loops over containers are structural recursion. The settlement and
  admission loops of the engine are functions with a termination measure (active slots that are
  still terminal; waiting requests). The eviction loop of the store runs on fuel (entries plus
  two), the probe loops of the window table on fuel (its capacity) and its growth on recursion
  depth two; for each a lemma shows that the fuel suffices in every state that satisfies the
  invariant. The fall-back loop of the stop matcher runs on the length of the pattern, which
  suffices because borders shrink. Runs of the session take a control round only when it leaves no
  stop string in the content. Counters that wrap in the source wrap in the model; where a result needs them in
  range the bound is a hypothesis (for instance fewer than \<open>2 ^ 32 - 1\<close> tokens).

  \<^bold>\<open>Not modelled.\<close> The device: CUDA kernels and their launchers, page transfers and graph capture
  (a command list is as far as the model goes), and the byte layout of a state image. The planner:
  resource manager, materialization and pressure planning; their answers are arguments. The address
  spaces and Host extents over the logical pages, the tables of sequences and the transactions over
  them. The
  execution of units by the model program, streaming, timing, statistics and log messages. The
  tokenizer and chat template; the HTTP and protocol adapters; media decoding; the artifact reader;
  the cyclic KV cache; third-party code and tools. The memory exhaustion of the host allocator is
  not an outcome of the model.
\<close>

end
